(* ===== verification/Prelude.thy ===== *)
theory Prelude
  imports Main "HOL-Library.Word"
begin

text \<open>
  Shared vocabulary of the development: the machine integer types of the C++ sources, the
  status codes of the C ABI, the lemmas on words masked by a power of two that every ring and
  table of the runtime relies on, and the block copy that stands for \<open>memcpy\<close>.

  Types: \<open>u8\<close>, \<open>u32\<close> and \<open>u64\<close> are \<open>uint8_t\<close>, \<open>uint32_t\<close> and \<open>uint64_t\<close>
  (\<open>size_t\<close> and \<open>uintptr_t\<close> are 64 bits wide); arithmetic on them wraps as in C++.
\<close>

unbundle bit_operations_syntax

type_synonym u8 = "8 word"
type_synonym u16 = "16 word"
type_synonym u32 = "32 word"
type_synonym u64 = "64 word"

named_theorems mem_simps "reading a block after writing a block"

section \<open>Status codes of the C ABI\<close>

text \<open>The \<open>AstralErr\<close> values of \<open>include/astral_rt.h\<close>.\<close>

datatype astral_err =
    ASTRAL_OK
  | ASTRAL_E_INVALID
  | ASTRAL_E_NOMEM
  | ASTRAL_E_BUSY
  | ASTRAL_E_TIMEOUT
  | ASTRAL_E_STATE
  | ASTRAL_E_BACKEND
  | ASTRAL_E_CANCELED
  | ASTRAL_E_UNSUPPORTED
  | ASTRAL_E_NOT_FOUND

section \<open>Powers of two\<close>

text \<open>The compile-time test of every power-of-two capacity: \<open>(c & (c - 1)) == 0\<close>, \<open>c > 0\<close>.\<close>

definition is_pow2 :: "nat \<Rightarrow> bool" where
  "is_pow2 n \<longleftrightarrow> 0 < n \<and> n AND (n - 1) = 0"

lemma and_pred_even:
  "0 < (m::nat) \<Longrightarrow> (2 * m) AND (2 * m - Suc 0) = 2 * (m AND (m - Suc 0))"
proof -
  assume "0 < m"
  then have "2 * m - Suc 0 = Suc (2 * (m - Suc 0))" by simp
  then show ?thesis
    by (simp add: and_nat_unfold [of "2 * m"])
qed

lemma and_pred_odd: "Suc (2 * m) AND (2 * m) = 2 * (m::nat)"
  by (simp add: and_nat_unfold [of "Suc (2 * m)"])

lemma is_pow2D: "is_pow2 n \<Longrightarrow> \<exists>k. n = 2 ^ k"
proof (induction n rule: less_induct)
  case (less n)
  then have pos: "0 < n" and z: "n AND (n - 1) = 0" by (auto simp: is_pow2_def)
  show ?case
  proof (cases "even n")
    case True
    then obtain m where m: "n = 2 * m" by (rule evenE)
    with pos z have "is_pow2 m" by (simp add: is_pow2_def and_pred_even)
    moreover have "m < n" using m pos by simp
    ultimately obtain k where "m = 2 ^ k" using less.IH by blast
    with m have "n = 2 ^ Suc k" by simp
    then show ?thesis by blast
  next
    case False
    then obtain m where m: "n = Suc (2 * m)" by (metis oddE Suc_eq_plus1)
    with z have "m = 0" by (simp add: and_pred_odd)
    with m have "n = 2 ^ 0" by simp
    then show ?thesis by blast
  qed
qed

lemma is_pow2_power [simp]: "is_pow2 (2 ^ k)"
  by (induction k) (simp_all add: is_pow2_def and_pred_even)

lemma is_pow2_pos: "is_pow2 n \<Longrightarrow> 0 < n"
  by (simp add: is_pow2_def)

lemma is_pow2_small [simp]: "is_pow2 (Suc (Suc 0))" "is_pow2 (Suc (Suc (Suc (Suc 0))))"
  by code_simp+

lemma is_pow2_dvd_word:
  assumes "is_pow2 n" and "n \<le> 2 ^ L"
  shows "n dvd 2 ^ L"
proof -
  from is_pow2D [OF assms(1)] obtain k where "n = 2 ^ k" by blast
  with assms(2) have "k \<le> L" by simp
  with \<open>n = 2 ^ k\<close> show ?thesis by (simp add: le_imp_power_dvd)
qed

section \<open>Widening\<close>

lemma unat_eqI: "unat a = unat b \<Longrightarrow> a = b"
  by (rule unsigned_word_eqI)

lemma unat_ucast_up [simp]: "unat (ucast (w :: u32) :: u64) = unat w"
proof -
  have "unat w < 2 ^ LENGTH(32)" by (rule unsigned_less)
  then have "take_bit 64 (unat w) = unat w" by (simp add: take_bit_nat_eq_self)
  then show ?thesis by (simp add: unsigned_ucast_eq)
qed

lemma ucast_ucast_up [simp]: "ucast (ucast (w :: u32) :: u64) = w"
  by (rule bit_word_eqI) (auto simp: bit_simps)

section \<open>Words masked by a power of two\<close>

text \<open>\<open>w & (c - 1)\<close> is \<open>w mod c\<close> for a power of two \<open>c\<close>.\<close>

lemma unat_and_mask:
  fixes w :: "'a::len word"
  assumes "is_pow2 c" and "c < 2 ^ LENGTH('a)"
  shows "unat (w AND (of_nat c - 1)) = unat w mod c"
proof -
  from is_pow2D [OF assms(1)] obtain k where c: "c = 2 ^ k" by blast
  have "of_nat c - 1 = (mask k :: 'a word)"
    by (simp add: c mask_eq_exp_minus_1)
  then have "w AND (of_nat c - 1) = take_bit k w"
    by (simp add: take_bit_eq_mask)
  then have "unat (w AND (of_nat c - 1)) = take_bit k (unat w)"
    by (simp only: unsigned_take_bit_eq)
  then show ?thesis
    by (simp only: c take_bit_eq_mod)
qed

text \<open>\<open>w & ~(2 ^ k - 1)\<close> rounds down to a multiple of \<open>2 ^ k\<close>.\<close>

lemma and_not_mask_push_drop: "w AND NOT (mask k) = push_bit k (drop_bit k (w :: 'a::len word))"
  by (rule bit_word_eqI) (auto simp: bit_simps)

lemma unat_and_not_mask:
  fixes w :: "'a::len word"
  shows "unat (w AND NOT (2 ^ k - 1)) = unat w div 2 ^ k * 2 ^ k"
proof -
  have le: "unat w div 2 ^ k * 2 ^ k \<le> unat w" by simp
  moreover have "unat w < 2 ^ LENGTH('a)" by (rule unsigned_less)
  ultimately have lt: "unat w div 2 ^ k * 2 ^ k < 2 ^ LENGTH('a)" by (rule le_less_trans)
  have "(2 ^ k - 1 :: 'a word) = mask k" by (simp add: mask_eq_exp_minus_1)
  then have "unat (w AND NOT (2 ^ k - 1)) = unat (push_bit k (drop_bit k w))"
    by (simp only: and_not_mask_push_drop)
  also have "\<dots> = take_bit LENGTH('a) (push_bit k (drop_bit k (unat w)))"
    by (simp only: unsigned_push_bit_eq unsigned_drop_bit_eq) (simp add: drop_bit_take_bit take_bit_push_bit)
  also have "\<dots> = unat w div 2 ^ k * 2 ^ k"
    using lt by (simp add: push_bit_eq_mult drop_bit_eq_div take_bit_nat_eq_self)
  finally show ?thesis .
qed

text \<open>Rounding an address up to a power of two.\<close>

definition align_up :: "u64 \<Rightarrow> u64 \<Rightarrow> u64" where
  "align_up p align = (p + (align - 1)) AND NOT (align - 1)"

definition round_up :: "nat \<Rightarrow> nat \<Rightarrow> nat" where
  "round_up n a = (n + (a - 1)) div a * a"

lemma unat_align_up:
  assumes "k < 64" and "unat p + (2 ^ k - 1) < 2 ^ 64"
  shows "unat (align_up p (2 ^ k)) = round_up (unat p) (2 ^ k)"
proof -
  have "(2 :: nat) ^ k < 2 ^ 64" using assms(1) by (intro power_strict_increasing) simp_all
  then have "unat (of_nat (2 ^ k - 1) :: u64) = 2 ^ k - 1" by (simp only: unat_of_nat) simp
  moreover have "(of_nat (2 ^ k - 1) :: u64) = 2 ^ k - 1" by (simp add: of_nat_diff)
  ultimately have "unat (2 ^ k - 1 :: u64) = 2 ^ k - 1" by (simp only:)
  then have "unat (p + (2 ^ k - 1)) = unat p + (2 ^ k - 1)"
    using assms(2) by (simp add: unat_word_ariths(1))
  then show ?thesis unfolding align_up_def unat_and_not_mask round_up_def by simp
qed

lemma round_up_bounds:
  assumes "0 < a"
  shows "n \<le> round_up n a" "round_up n a < n + a"
proof -
  have "(n + (a - 1)) div a * a + (n + (a - 1)) mod a = n + (a - 1)" by (rule div_mult_mod_eq)
  moreover have "(n + (a - 1)) mod a < a" using assms by simp
  ultimately show "n \<le> round_up n a" "round_up n a < n + a"
    using assms unfolding round_up_def by linarith+
qed

lemma round_up_dvd: "a dvd round_up n a"
  by (simp add: round_up_def)

lemma unat_add_mod_dvd:
  fixes a b :: "'a::len word"
  assumes "c dvd 2 ^ LENGTH('a)"
  shows "unat (a + b) mod c = (unat a + unat b) mod c"
  using assms by (simp add: unat_word_ariths mod_mod_cancel)

lemma unat_inc_diff:
  fixes a b :: "'a::len word"
  assumes "unat (a - b) < n" and "n < 2 ^ LENGTH('a)"
  shows "unat (a + 1 - b) = unat (a - b) + 1"
proof -
  have "a + 1 - b = (a - b) + 1" by simp
  moreover have "unat ((a - b) + 1) = unat (a - b) + 1"
    using assms by (simp add: unat_word_ariths(1))
  ultimately show ?thesis by (simp only:)
qed

lemma unat_add_diff:
  fixes a b n :: "'a::len word"
  assumes "unat (a - b) + unat n < 2 ^ LENGTH('a)"
  shows "unat (a + n - b) = unat (a - b) + unat n"
proof -
  have "a + n - b = (a - b) + n" by simp
  moreover have "unat ((a - b) + n) = unat (a - b) + unat n"
    using assms by (simp only: unat_word_ariths(1) mod_less)
  ultimately show ?thesis by (simp only:)
qed

lemma unat_diff_add:
  fixes a b n :: "'a::len word"
  assumes "unat n \<le> unat (a - b)"
  shows "unat (a - (b + n)) = unat (a - b) - unat n"
proof -
  have "a - (b + n) = (a - b) - n" by simp
  moreover have "unat ((a - b) - n) = unat (a - b) - unat n"
    using assms by (simp only: unat_sub word_le_nat_alt)
  ultimately show ?thesis by (simp only:)
qed

section \<open>Options\<close>

lemma option_eqI: "(\<And>x. a = Some x \<longleftrightarrow> b = Some x) \<Longrightarrow> a = b"
  by (cases a; cases b) auto

section \<open>Block copies\<close>

text \<open>
  \<open>write_at dst off src\<close> is the destination of \<open>memcpy(dst + off, src, n)\<close> with \<open>n\<close> the
  length of \<open>src\<close>; \<open>read_at src off n\<close> is the block such a copy reads.
\<close>

definition write_at :: "'a list \<Rightarrow> nat \<Rightarrow> 'a list \<Rightarrow> 'a list" where
  "write_at dst off src = take off dst @ src @ drop (off + length src) dst"

definition read_at :: "'a list \<Rightarrow> nat \<Rightarrow> nat \<Rightarrow> 'a list" where
  "read_at src off n = take n (drop off src)"

lemma length_write_at [mem_simps, simp]:
  "off + length src \<le> length dst \<Longrightarrow> length (write_at dst off src) = length dst"
  by (simp add: write_at_def)

lemma length_read_at [mem_simps, simp]:
  "off + n \<le> length src \<Longrightarrow> length (read_at src off n) = n"
  by (simp add: read_at_def)

lemma write_at_Nil [mem_simps, simp]: "write_at dst off [] = dst"
  by (simp add: write_at_def)

lemma nth_write_at [mem_simps]:
  assumes "off + length src \<le> length dst" and "i < length dst"
  shows "write_at dst off src ! i =
    (if off \<le> i \<and> i < off + length src then src ! (i - off) else dst ! i)"
  using assms by (auto simp: write_at_def nth_append)

lemma nth_read_at [mem_simps]:
  "off + n \<le> length src \<Longrightarrow> i < n \<Longrightarrow> read_at src off n ! i = src ! (off + i)"
  by (simp add: read_at_def)

lemma read_write_at [mem_simps]:
  "off + length src \<le> length dst \<Longrightarrow> read_at (write_at dst off src) off (length src) = src"
  by (simp add: read_at_def write_at_def)

section \<open>Spans\<close>

text \<open>
  A span of the C ABI is its bytes; a span with a null pointer is a case of its own, since the
  checks on spans tell it apart.
\<close>

datatype span = Span "u8 list" | Null_Span u32

fun span_bytes :: "span \<Rightarrow> u8 list" where
  "span_bytes (Span bs) = bs"
| "span_bytes (Null_Span n) = []"

fun span_len :: "span \<Rightarrow> u32" where
  "span_len (Span bs) = of_nat (length bs)"
| "span_len (Null_Span n) = n"

end
