(* ===== verification/Circular_Buffer.thy ===== *)
theory Circular_Buffer
  imports Prelude
begin

text \<open>
  The arithmetic of circular storage, shared by the rings of \<open>src/src/concurrency\<close> and by the
  retirement queues of the epoch manager: a fixed array of \<open>n\<close> cells in which position \<open>p\<close>
  of an unbounded sequence lives in cell \<open>p mod n\<close>. \<open>cbuf buf t n\<close> lists the \<open>n\<close> items that
  start at position \<open>t\<close>.
\<close>

definition cbuf :: "'a list \<Rightarrow> nat \<Rightarrow> nat \<Rightarrow> 'a list" where
  "cbuf buf t n = map (\<lambda>i. buf ! ((t + i) mod length buf)) [0..<n]"

lemma length_cbuf [simp]: "length (cbuf buf t n) = n"
  by (simp add: cbuf_def)

lemma cbuf_0 [simp]: "cbuf buf t 0 = []"
  by (simp add: cbuf_def)

lemma nth_cbuf: "i < n \<Longrightarrow> cbuf buf t n ! i = buf ! ((t + i) mod length buf)"
  by (simp add: cbuf_def)

lemma cbuf_add: "cbuf buf t (m + n) = cbuf buf t m @ cbuf buf (t + m) n"
  by (rule nth_equalityI) (auto simp: nth_append nth_cbuf)

lemma cbuf_Suc_left: "cbuf buf t (Suc n) = buf ! (t mod length buf) # cbuf buf (Suc t) n"
  using cbuf_add [of buf t 1 n] by (simp add: cbuf_def)

lemma cbuf_mod: "cbuf buf (t mod length buf) n = cbuf buf t n"
  by (rule nth_equalityI) (simp_all add: nth_cbuf mod_add_left_eq)

lemma mod_add_inj_le:
  assumes "i \<le> j" and "j < n" and "(t + i) mod n = (t + j) mod (n::nat)"
  shows "i = j"
proof -
  from assms(3) have "n dvd (t + j) - (t + i)"
    using assms(1) mod_eq_dvd_iff_nat [of "t + i" "t + j" n] by simp
  then have "n dvd j - i" by simp
  moreover have "j - i < n" using assms(2) by simp
  ultimately have "j - i = 0" by (meson dvd_imp_le not_le zero_less_iff_neq_zero)
  with assms(1) show ?thesis by simp
qed

lemma mod_add_inj:
  assumes "i < n" and "j < n" and "(t + i) mod n = (t + j) mod (n::nat)"
  shows "i = j"
  using assms mod_add_inj_le [of i j n t] mod_add_inj_le [of j i n t] by (metis linear)

lemma cbuf_update_other:
  assumes "d < length buf" and "n \<le> d"
  shows "cbuf (buf[(t + d) mod length buf := x]) t n = cbuf buf t n"
proof (rule nth_equalityI)
  fix i
  assume "i < length (cbuf (buf[(t + d) mod length buf := x]) t n)"
  then have i: "i < n" by simp
  with assms have "(t + d) mod length buf \<noteq> (t + i) mod length buf"
    using mod_add_inj [of i "length buf" d t] by auto
  with i show "cbuf (buf[(t + d) mod length buf := x]) t n ! i = cbuf buf t n ! i"
    by (simp add: nth_cbuf nth_list_update_neq)
qed simp

lemma cbuf_push:
  assumes "n < length buf"
  shows "cbuf (buf[(t + n) mod length buf := x]) t (Suc n) = cbuf buf t n @ [x]"
proof -
  let ?b = "buf[(t + n) mod length buf := x]"
  have "0 < length buf" using assms by linarith
  then have "(t + n) mod length buf < length buf" by simp
  then have "cbuf ?b (t + n) 1 = [x]" by (simp add: cbuf_def)
  moreover have "cbuf ?b t n = cbuf buf t n" using assms by (simp add: cbuf_update_other)
  ultimately show ?thesis using cbuf_add [of ?b t n 1] by simp
qed

text \<open>
  A batch goes in with at most two block copies: the cells up to the end of the array, then the
  cells from its start. \<open>ring_write\<close> and \<open>ring_read\<close> are that pair of copies.
\<close>

definition ring_write :: "'a list \<Rightarrow> nat \<Rightarrow> 'a list \<Rightarrow> 'a list" where
  "ring_write buf p items =
     (let first = min (length buf - p) (length items);
          buf' = write_at buf p (take first items)
      in if first < length items then write_at buf' 0 (drop first items) else buf')"

definition ring_read :: "'a list \<Rightarrow> nat \<Rightarrow> nat \<Rightarrow> 'a list" where
  "ring_read buf p n =
     (let first = min (length buf - p) n;
          out = read_at buf p first
      in if first < n then out @ read_at buf 0 (n - first) else out)"

lemma length_ring_write [simp]:
  "p < length buf \<Longrightarrow> length items \<le> length buf \<Longrightarrow> length (ring_write buf p items) = length buf"
  by (auto simp: ring_write_def Let_def min_def)

lemma mod_wrap: "p < n \<Longrightarrow> i < n \<Longrightarrow> (p + i) mod n = (if p + i < n then p + i else p + i - (n::nat))"
  by (simp add: mod_if)

lemma nth_ring_write:
  assumes "p < length buf" and "length items \<le> length buf" and "i < length items"
  shows "ring_write buf p items ! ((p + i) mod length buf) = items ! i"
  using assms by (auto simp: ring_write_def Let_def mod_wrap nth_write_at min_def)

lemma nth_ring_write_other:
  assumes "p < length buf" and "length items \<le> length buf" and "length items \<le> i"
    and "i < length buf"
  shows "ring_write buf p items ! ((p + i) mod length buf) = buf ! ((p + i) mod length buf)"
  using assms by (auto simp: ring_write_def Let_def mod_wrap nth_write_at min_def)

lemma ring_read_cbuf:
  assumes "p < length buf" and "n \<le> length buf"
  shows "ring_read buf p n = cbuf buf p n"
proof (rule nth_equalityI)
  show "length (ring_read buf p n) = length (cbuf buf p n)"
    using assms by (auto simp: ring_read_def Let_def min_def)
next
  fix i
  assume "i < length (ring_read buf p n)"
  then have "i < n" using assms by (auto simp: ring_read_def Let_def min_def split: if_splits)
  then show "ring_read buf p n ! i = cbuf buf p n ! i"
    using assms
    by (auto simp: ring_read_def Let_def min_def nth_cbuf mod_wrap nth_append nth_read_at add.commute)
qed

lemma cbuf_ring_write:
  assumes "t < length buf" and "n + length items \<le> length buf"
  shows "cbuf (ring_write buf ((t + n) mod length buf) items) t (n + length items) =
    cbuf buf t n @ items"
proof (cases "length buf = 0")
  case True
  with assms show ?thesis by simp
next
  case False
  let ?p = "(t + n) mod length buf"
  let ?b = "ring_write buf ?p items"
  have p: "?p < length buf" using False by simp
  have len: "length ?b = length buf" using p assms(2) by simp
  have new: "cbuf ?b (t + n) (length items) = items"
  proof (rule nth_equalityI)
    fix i
    assume "i < length (cbuf ?b (t + n) (length items))"
    then have i: "i < length items" by simp
    have "(t + n + i) mod length buf = (?p + i) mod length buf"
      by (simp add: mod_add_left_eq)
    then show "cbuf ?b (t + n) (length items) ! i = items ! i"
      using i p assms(2) by (simp add: nth_cbuf len nth_ring_write)
  qed simp
  have old: "cbuf ?b t n = cbuf buf t n"
  proof (rule nth_equalityI)
    fix i
    assume "i < length (cbuf ?b t n)"
    then have i: "i < n" by simp
    define j where "j = length buf - n + i"
    have j: "length items \<le> j" "j < length buf"
      using i assms by (auto simp: j_def)
    have "(?p + j) mod length buf = (t + n + j) mod length buf"
      by (simp add: mod_add_left_eq)
    also have "t + n + j = (t + i) + length buf"
      using assms(2) by (simp add: j_def)
    finally have eq: "(?p + j) mod length buf = (t + i) mod length buf" by simp
    have "?b ! ((?p + j) mod length buf) = buf ! ((?p + j) mod length buf)"
      using p j assms(2) by (simp add: nth_ring_write_other)
    then show "cbuf ?b t n ! i = cbuf buf t n ! i"
      using i by (simp add: nth_cbuf len eq)
  qed simp
  show ?thesis by (simp add: cbuf_add new old)
qed

end
