(* ===== verification/Fifo_Spec.thy ===== *)
theory Fifo_Spec
  imports Prelude
begin

text \<open>
  The contract of a bounded FIFO channel as the clients of \<open>src/src/concurrency\<close> rely on it.
  A provider names its batch operations, the list of queued items, the capacity and its
  invariant; the laws say how a batch enters and leaves. The lemmas proved once here speak of
  whole runs of operations: nothing is lost, duplicated or reordered, and the bound holds.
\<close>

datatype 'a fifo_op = PushBatch "'a list" | PopBatch nat

text \<open>A run returns the items that were accepted, the items delivered, and the final state.\<close>

fun fifo_run ::
    "('a list \<Rightarrow> 'q \<Rightarrow> nat \<times> 'q) \<Rightarrow> (nat \<Rightarrow> 'q \<Rightarrow> 'a list \<times> 'q) \<Rightarrow>
      'a fifo_op list \<Rightarrow> 'q \<Rightarrow> 'a list \<times> 'a list \<times> 'q" where
  "fifo_run push pop [] q = ([], [], q)"
| "fifo_run push pop (PushBatch xs # ops) q =
     (let (n, q') = push xs q; (acc, out, q'') = fifo_run push pop ops q'
      in (take n xs @ acc, out, q''))"
| "fifo_run push pop (PopBatch n # ops) q =
     (let (ys, q') = pop n q; (acc, out, q'') = fifo_run push pop ops q'
      in (acc, ys @ out, q''))"

locale batch_fifo =
  fixes push_batch :: "'a list \<Rightarrow> 'q \<Rightarrow> nat \<times> 'q"
    and pop_batch :: "nat \<Rightarrow> 'q \<Rightarrow> 'a list \<times> 'q"
    and items :: "'q \<Rightarrow> 'a list"
    and cap :: "'q \<Rightarrow> nat"
    and invar :: "'q \<Rightarrow> bool"
  assumes bounded: "invar q \<Longrightarrow> length (items q) \<le> cap q"
    and push_count: "invar q \<Longrightarrow>
      fst (push_batch xs q) = min (length xs) (cap q - length (items q))"
    and push_items: "invar q \<Longrightarrow>
      items (snd (push_batch xs q)) = items q @ take (fst (push_batch xs q)) xs"
    and push_cap: "invar q \<Longrightarrow> cap (snd (push_batch xs q)) = cap q"
    and push_invar: "invar q \<Longrightarrow> invar (snd (push_batch xs q))"
    and pop_out: "invar q \<Longrightarrow> fst (pop_batch n q) = take n (items q)"
    and pop_items: "invar q \<Longrightarrow> items (snd (pop_batch n q)) = drop n (items q)"
    and pop_cap: "invar q \<Longrightarrow> cap (snd (pop_batch n q)) = cap q"
    and pop_invar: "invar q \<Longrightarrow> invar (snd (pop_batch n q))"
begin

lemma run_PushBatch:
  "push_batch xs q = (n, q1) \<Longrightarrow> fifo_run push_batch pop_batch ops q1 = (acc, out, q2) \<Longrightarrow>
     fifo_run push_batch pop_batch (PushBatch xs # ops) q = (take n xs @ acc, out, q2)"
  by simp

lemma run_PopBatch:
  "pop_batch n q = (ys, q1) \<Longrightarrow> fifo_run push_batch pop_batch ops q1 = (acc, out, q2) \<Longrightarrow>
     fifo_run push_batch pop_batch (PopBatch n # ops) q = (acc, ys @ out, q2)"
  by simp

lemma run_invar:
  "invar q \<Longrightarrow> fifo_run push_batch pop_batch ops q = (acc, out, q') \<Longrightarrow> invar q' \<and> cap q' = cap q"
proof (induction ops arbitrary: q acc out q')
  case (Cons op ops)
  show ?case
  proof (cases op)
    case (PushBatch xs)
    obtain n q1 where p: "push_batch xs q = (n, q1)" by fastforce
    obtain acc1 out1 q2 where r: "fifo_run push_batch pop_batch ops q1 = (acc1, out1, q2)" by (metis prod_cases3)
    have "invar q1 \<and> cap q1 = cap q"
      using push_invar [OF Cons.prems(1), of xs] push_cap [OF Cons.prems(1), of xs] p by simp
    with Cons.IH [OF _ r] have "invar q2 \<and> cap q2 = cap q" by simp
    with Cons.prems(2) PushBatch run_PushBatch [OF p r] show ?thesis by simp
  next
    case (PopBatch n)
    obtain ys q1 where p: "pop_batch n q = (ys, q1)" by fastforce
    obtain acc1 out1 q2 where r: "fifo_run push_batch pop_batch ops q1 = (acc1, out1, q2)" by (metis prod_cases3)
    have "invar q1 \<and> cap q1 = cap q"
      using pop_invar [OF Cons.prems(1), of n] pop_cap [OF Cons.prems(1), of n] p by simp
    with Cons.IH [OF _ r] have "invar q2 \<and> cap q2 = cap q" by simp
    with Cons.prems(2) PopBatch run_PopBatch [OF p r] show ?thesis by simp
  qed
qed simp

lemma run_fifo:
  "invar q \<Longrightarrow> fifo_run push_batch pop_batch ops q = (acc, out, q') \<Longrightarrow> out @ items q' = items q @ acc"
proof (induction ops arbitrary: q acc out q')
  case (Cons op ops)
  show ?case
  proof (cases op)
    case (PushBatch xs)
    obtain n q1 where p: "push_batch xs q = (n, q1)" by fastforce
    obtain acc1 out1 q2 where r: "fifo_run push_batch pop_batch ops q1 = (acc1, out1, q2)" by (metis prod_cases3)
    have "invar q1" and i: "items q1 = items q @ take n xs"
      using push_invar [OF Cons.prems(1), of xs] push_items [OF Cons.prems(1), of xs] p by simp_all
    with Cons.IH [OF _ r] have "out1 @ items q2 = items q1 @ acc1" by simp
    with Cons.prems(2) PushBatch run_PushBatch [OF p r] i show ?thesis by simp
  next
    case (PopBatch n)
    obtain ys q1 where p: "pop_batch n q = (ys, q1)" by fastforce
    obtain acc1 out1 q2 where r: "fifo_run push_batch pop_batch ops q1 = (acc1, out1, q2)" by (metis prod_cases3)
    have "invar q1" and i: "items q = ys @ items q1"
      using pop_invar [OF Cons.prems(1), of n] pop_out [OF Cons.prems(1), of n]
        pop_items [OF Cons.prems(1), of n] p by simp_all
    with Cons.IH [OF _ r] have "out1 @ items q2 = items q1 @ acc1" by simp
    with Cons.prems(2) PopBatch run_PopBatch [OF p r] i show ?thesis by simp
  qed
qed simp

lemma run_bounded:
  "invar q \<Longrightarrow> fifo_run push_batch pop_batch ops q = (acc, out, q') \<Longrightarrow> length (items q') \<le> cap q"
  using run_invar bounded by metis

end

end
