(* ===== verification/Spsc_Ring.thy ===== *)
theory Spsc_Ring
  imports Circular_Buffer Fifo_Spec
begin

text \<open>
  \<open>SpscRing\<close> of \<open>src/src/concurrency/spsc_ring.hpp\<close>: the single-producer single-consumer ring
  that streams tokens. The record has the fields of the class; \<open>signals\<close> counts the calls of
  \<open>cpu_signal_event\<close>. \<open>arm\<close> is the build switch of \<open>producer_was_empty\<close> and
  \<open>consumer_was_full\<close>. Here each operation runs undisturbed; the interleaving of the two
  threads is in the theory of the concurrent ring.
\<close>

section \<open>State\<close>

record 'a spsc_ring =
  ring_head :: u64
  ring_tail :: u64
  producer_head_cache :: u64
  producer_tail_cache :: u64
  consumer_head_cache :: u64
  consumer_tail_cache :: u64
  buffer :: "'a list"
  signals :: nat

text \<open>\<open>Capacity\<close> is the length of the array; \<open>kIndexMask\<close> selects a cell.\<close>

definition Capacity :: "('a, 'z) spsc_ring_scheme \<Rightarrow> u64" where
  "Capacity r = of_nat (length (buffer r))"

definition kIndexMask :: "('a, 'z) spsc_ring_scheme \<Rightarrow> u64" where
  "kIndexMask r = Capacity r - 1"

definition spsc_index :: "('a, 'z) spsc_ring_scheme \<Rightarrow> u64 \<Rightarrow> nat" where
  "spsc_index r pos = unat (pos AND kIndexMask r)"

definition spsc_new :: "'a list \<Rightarrow> 'a spsc_ring" where
  "spsc_new storage =
     \<lparr>ring_head = 0, ring_tail = 0, producer_head_cache = 0, producer_tail_cache = 0,
      consumer_head_cache = 0, consumer_tail_cache = 0, buffer = storage, signals = 0\<rparr>"

definition spsc_reset :: "'a spsc_ring \<Rightarrow> 'a spsc_ring" where
  "spsc_reset r = r\<lparr>ring_head := 0, ring_tail := 0, producer_head_cache := 0,
     producer_tail_cache := 0, consumer_head_cache := 0, consumer_tail_cache := 0\<rparr>"

definition signal_event :: "'a spsc_ring \<Rightarrow> 'a spsc_ring" where
  "signal_event r = r\<lparr>signals := Suc (signals r)\<rparr>"

section \<open>Operations\<close>

definition producer_was_empty ::
    "bool \<Rightarrow> u64 \<Rightarrow> u64 \<Rightarrow> 'a spsc_ring \<Rightarrow> bool \<times> 'a spsc_ring" where
  "producer_was_empty arm h cached_tail r =
     (if arm \<and> h \<noteq> cached_tail
      then (h = ring_tail r, r\<lparr>producer_tail_cache := ring_tail r\<rparr>)
      else (h = cached_tail, r))"

definition consumer_was_full ::
    "bool \<Rightarrow> u64 \<Rightarrow> u64 \<Rightarrow> 'a spsc_ring \<Rightarrow> bool \<times> 'a spsc_ring" where
  "consumer_was_full arm cached_head t r =
     (if arm \<and> cached_head - t < Capacity r
      then (ring_head r - t \<ge> Capacity r, r\<lparr>consumer_head_cache := ring_head r\<rparr>)
      else (cached_head - t \<ge> Capacity r, r))"

text \<open>
  Every operation tests its cached view of the other side, reloads it from the shared counter
  when the view is not enough, and gives up if it still is not. What follows that test is the
  commit: the wake-up test, the copy, the private cursor and the release store.
\<close>

definition push_commit :: "bool \<Rightarrow> 'a \<Rightarrow> 'a spsc_ring \<Rightarrow> bool \<times> 'a spsc_ring" where
  "push_commit arm x r =
     (let (was_empty, r2) = producer_was_empty arm (producer_head_cache r) (producer_tail_cache r) r;
          r3 = r2\<lparr>buffer := (buffer r2)[spsc_index r2 (producer_head_cache r) := x],
                  producer_head_cache := producer_head_cache r + 1,
                  ring_head := producer_head_cache r + 1\<rparr>
      in (True, if was_empty then signal_event r3 else r3))"

definition spsc_push :: "bool \<Rightarrow> 'a \<Rightarrow> 'a spsc_ring \<Rightarrow> bool \<times> 'a spsc_ring" where
  "spsc_push arm item r =
     (let next_head = producer_head_cache r + 1
      in if next_head - producer_tail_cache r > Capacity r
         then
           (let r1 = r\<lparr>producer_tail_cache := ring_tail r\<rparr>
            in if next_head - producer_tail_cache r1 > Capacity r1 then (False, r1)
               else push_commit arm item r1)
         else push_commit arm item r)"

definition pop_commit :: "bool \<Rightarrow> 'a spsc_ring \<Rightarrow> 'a option \<times> 'a spsc_ring" where
  "pop_commit arm r =
     (let (was_full, r2) = consumer_was_full arm (consumer_head_cache r) (consumer_tail_cache r) r;
          out = buffer r2 ! spsc_index r2 (consumer_tail_cache r);
          next_tail = consumer_tail_cache r + 1;
          r3 = r2\<lparr>consumer_tail_cache := next_tail, ring_tail := next_tail\<rparr>
      in (Some out, if was_full then signal_event r3 else r3))"

definition spsc_pop :: "bool \<Rightarrow> 'a spsc_ring \<Rightarrow> 'a option \<times> 'a spsc_ring" where
  "spsc_pop arm r =
     (if consumer_tail_cache r \<ge> consumer_head_cache r
      then
        (let r1 = r\<lparr>consumer_head_cache := ring_head r\<rparr>
         in if consumer_tail_cache r1 \<ge> consumer_head_cache r1 then (None, r1)
            else pop_commit arm r1)
      else pop_commit arm r)"

text \<open>The overload that takes a pointer first tests it for null.\<close>

definition spsc_pop_ptr :: "bool \<Rightarrow> bool \<Rightarrow> 'a spsc_ring \<Rightarrow> 'a option \<times> 'a spsc_ring" where
  "spsc_pop_ptr arm out_is_null r = (if out_is_null then (None, r) else spsc_pop arm r)"

definition push_batch_commit :: "bool \<Rightarrow> 'a list \<Rightarrow> 'a spsc_ring \<Rightarrow> nat \<times> 'a spsc_ring" where
  "push_batch_commit arm xs r =
     (let available = unat (Capacity r - (producer_head_cache r - producer_tail_cache r));
          (was_empty, r2) = producer_was_empty arm (producer_head_cache r) (producer_tail_cache r) r;
          n = (if length xs < available then length xs else available);
          next_head = producer_head_cache r + of_nat n;
          r3 = r2\<lparr>buffer := ring_write (buffer r2) (spsc_index r2 (producer_head_cache r)) (take n xs),
                  producer_head_cache := next_head,
                  ring_head := next_head\<rparr>
      in (n, if was_empty then signal_event r3 else r3))"

definition spsc_push_batch :: "bool \<Rightarrow> 'a list \<Rightarrow> 'a spsc_ring \<Rightarrow> nat \<times> 'a spsc_ring" where
  "spsc_push_batch arm xs r =
     (if xs = [] then (0, r)
      else if unat (Capacity r - (producer_head_cache r - producer_tail_cache r)) < length xs
      then
        (let r1 = r\<lparr>producer_tail_cache := ring_tail r\<rparr>
         in if unat (Capacity r1 - (producer_head_cache r1 - producer_tail_cache r1)) = 0 then (0, r1)
            else push_batch_commit arm xs r1)
      else push_batch_commit arm xs r)"

definition pop_batch_commit :: "bool \<Rightarrow> nat \<Rightarrow> 'a spsc_ring \<Rightarrow> 'a list \<times> 'a spsc_ring" where
  "pop_batch_commit arm count r =
     (let available = unat (consumer_head_cache r - consumer_tail_cache r);
          (was_full, r2) = consumer_was_full arm (consumer_head_cache r) (consumer_tail_cache r) r;
          n = (if count < available then count else available);
          out = ring_read (buffer r2) (spsc_index r2 (consumer_tail_cache r)) n;
          next_tail = consumer_tail_cache r + of_nat n;
          r3 = r2\<lparr>consumer_tail_cache := next_tail, ring_tail := next_tail\<rparr>
      in (out, if was_full then signal_event r3 else r3))"

definition spsc_pop_batch :: "bool \<Rightarrow> nat \<Rightarrow> 'a spsc_ring \<Rightarrow> 'a list \<times> 'a spsc_ring" where
  "spsc_pop_batch arm count r =
     (if count = 0 then ([], r)
      else if unat (consumer_head_cache r - consumer_tail_cache r) < count
      then
        (let r1 = r\<lparr>consumer_head_cache := ring_head r\<rparr>
         in if unat (consumer_head_cache r1 - consumer_tail_cache r1) = 0 then ([], r1)
            else pop_batch_commit arm count r1)
      else pop_batch_commit arm count r)"

text \<open>
  \<open>consume_batch\<close> hands each item to a callback in place; \<open>fn\<close> is the callback's effect on
  its own state.
\<close>

definition consume_commit ::
    "bool \<Rightarrow> nat \<Rightarrow> ('a \<Rightarrow> 's \<Rightarrow> 's) \<Rightarrow> 's \<Rightarrow> 'a spsc_ring \<Rightarrow> nat \<times> 's \<times> 'a spsc_ring" where
  "consume_commit arm count fn s r =
     (let available = unat (consumer_head_cache r - consumer_tail_cache r);
          (was_full, r2) = consumer_was_full arm (consumer_head_cache r) (consumer_tail_cache r) r;
          n = (if count < available then count else available);
          begin = spsc_index r2 (consumer_tail_cache r);
          first = min (length (buffer r2) - begin) n;
          s1 = fold (\<lambda>i. fn (buffer r2 ! (begin + i))) [0..<first] s;
          s2 = fold (\<lambda>i. fn (buffer r2 ! (i - first))) [first..<n] s1;
          next_tail = consumer_tail_cache r + of_nat n;
          r3 = r2\<lparr>consumer_tail_cache := next_tail, ring_tail := next_tail\<rparr>
      in (n, s2, if was_full then signal_event r3 else r3))"

definition spsc_consume_batch ::
    "bool \<Rightarrow> nat \<Rightarrow> ('a \<Rightarrow> 's \<Rightarrow> 's) \<Rightarrow> 's \<Rightarrow> 'a spsc_ring \<Rightarrow> nat \<times> 's \<times> 'a spsc_ring" where
  "spsc_consume_batch arm count fn s r =
     (if count = 0 then (0, s, r)
      else if unat (consumer_head_cache r - consumer_tail_cache r) < count
      then
        (let r1 = r\<lparr>consumer_head_cache := ring_head r\<rparr>
         in if unat (consumer_head_cache r1 - consumer_tail_cache r1) = 0 then (0, s, r1)
            else consume_commit arm count fn s r1)
      else consume_commit arm count fn s r)"

definition spsc_size :: "'a spsc_ring \<Rightarrow> nat" where
  "spsc_size r =
     (let diff = sint (ring_head r - ring_tail r) in if diff \<ge> 0 then nat diff else 0)"

definition spsc_empty :: "'a spsc_ring \<Rightarrow> bool" where
  "spsc_empty r \<longleftrightarrow> spsc_size r = 0"

section \<open>Contents and invariant\<close>

definition spsc_items :: "'a spsc_ring \<Rightarrow> 'a list" where
  "spsc_items r = cbuf (buffer r) (unat (ring_tail r)) (unat (ring_head r - ring_tail r))"

definition spsc_cap :: "'a spsc_ring \<Rightarrow> nat" where
  "spsc_cap r = length (buffer r)"

text \<open>
  The caches lag behind the shared counters: seen from the producer's head, the consumer's view
  of the head, the tail and the producer's view of the tail come in this order, all within one
  capacity.
\<close>

definition spsc_inv :: "'a spsc_ring \<Rightarrow> bool" where
  "spsc_inv r \<longleftrightarrow>
     is_pow2 (spsc_cap r) \<and> spsc_cap r < 2 ^ 63 \<and>
     producer_head_cache r = ring_head r \<and>
     consumer_tail_cache r = ring_tail r \<and>
     unat (ring_head r - consumer_head_cache r) \<le> unat (ring_head r - ring_tail r) \<and>
     unat (ring_head r - ring_tail r) \<le> unat (ring_head r - producer_tail_cache r) \<and>
     unat (ring_head r - producer_tail_cache r) \<le> spsc_cap r"

section \<open>Steps shared by the operations\<close>

named_theorems spsc_simps "fields, contents and invariant after the elementary updates"

lemma spsc_invD:
  assumes "spsc_inv r"
  shows "is_pow2 (spsc_cap r)" "spsc_cap r < 2 ^ 63" "0 < spsc_cap r"
    "producer_head_cache r = ring_head r" "consumer_tail_cache r = ring_tail r"
    "unat (ring_head r - consumer_head_cache r) \<le> unat (ring_head r - ring_tail r)"
    "unat (ring_head r - ring_tail r) \<le> unat (ring_head r - producer_tail_cache r)"
    "unat (ring_head r - producer_tail_cache r) \<le> spsc_cap r"
    "unat (Capacity r) = spsc_cap r"
  using assms is_pow2_pos by (auto simp: spsc_inv_def Capacity_def spsc_cap_def unat_of_nat)

lemma spsc_index_mod: "spsc_inv r \<Longrightarrow> spsc_index r p = unat p mod spsc_cap r"
  using spsc_invD(1,2) [of r]
  by (simp add: spsc_index_def kIndexMask_def Capacity_def spsc_cap_def unat_and_mask)

lemma spsc_index_caches [spsc_simps]:
  "spsc_index (r\<lparr>producer_tail_cache := p\<rparr>) q = spsc_index r q"
  "spsc_index (r\<lparr>consumer_head_cache := c\<rparr>) q = spsc_index r q"
  "spsc_index (r\<lparr>signals := n\<rparr>) q = spsc_index r q"
  by (simp_all add: spsc_index_def kIndexMask_def Capacity_def)

lemma spsc_items_cong:
  "buffer r' = buffer r \<Longrightarrow> ring_head r' = ring_head r \<Longrightarrow> ring_tail r' = ring_tail r \<Longrightarrow>
     spsc_items r' = spsc_items r"
  by (simp add: spsc_items_def)

lemma spsc_items_caches [spsc_simps]:
  "spsc_items (r\<lparr>producer_tail_cache := p\<rparr>) = spsc_items r"
  "spsc_items (r\<lparr>consumer_head_cache := c\<rparr>) = spsc_items r"
  "spsc_items (r\<lparr>signals := n\<rparr>) = spsc_items r"
  by (auto intro: spsc_items_cong)

lemma spsc_cap_caches [spsc_simps]:
  "spsc_cap (r\<lparr>producer_tail_cache := p\<rparr>) = spsc_cap r"
  "spsc_cap (r\<lparr>consumer_head_cache := c\<rparr>) = spsc_cap r"
  "spsc_cap (r\<lparr>signals := n\<rparr>) = spsc_cap r"
  by (simp_all add: spsc_cap_def)

lemma spsc_inv_signals [spsc_simps]: "spsc_inv (r\<lparr>signals := n\<rparr>) = spsc_inv r"
  by (simp add: spsc_inv_def spsc_cap_def)

lemma length_spsc_items: "length (spsc_items r) = unat (ring_head r - ring_tail r)"
  by (simp add: spsc_items_def)

lemma length_spsc_items_le: "spsc_inv r \<Longrightarrow> length (spsc_items r) \<le> spsc_cap r"
  using spsc_invD(7,8) [of r] by (simp add: length_spsc_items)

lemma spsc_inv_refresh_tail: "spsc_inv r \<Longrightarrow> spsc_inv (r\<lparr>producer_tail_cache := ring_tail r\<rparr>)"
  by (auto simp: spsc_inv_def spsc_cap_def)

lemma spsc_inv_refresh_head: "spsc_inv r \<Longrightarrow> spsc_inv (r\<lparr>consumer_head_cache := ring_head r\<rparr>)"
  by (auto simp: spsc_inv_def spsc_cap_def)

text \<open>Publishing a block of items, and releasing a block of cells.\<close>

definition publish :: "'a list \<Rightarrow> 'a spsc_ring \<Rightarrow> 'a spsc_ring" where
  "publish xs r = r\<lparr>buffer := ring_write (buffer r) (spsc_index r (ring_head r)) xs,
     producer_head_cache := ring_head r + of_nat (length xs),
     ring_head := ring_head r + of_nat (length xs)\<rparr>"

definition release :: "nat \<Rightarrow> 'a spsc_ring \<Rightarrow> 'a spsc_ring" where
  "release n r = r\<lparr>consumer_tail_cache := ring_tail r + of_nat n,
     ring_tail := ring_tail r + of_nat n\<rparr>"

lemma unat_of_nat_small: "n < 2 ^ 64 \<Longrightarrow> unat (of_nat n :: u64) = n"
  by (simp add: unat_of_nat)

lemma ring_write_single:
  "p < length buf \<Longrightarrow> ring_write buf p [x] = buf[p := x]"
  by (simp add: ring_write_def write_at_def Let_def upd_conv_take_nth_drop)

lemma publish_head_diff:
  assumes "spsc_inv r" and "unat (ring_head r - producer_tail_cache r) + length xs \<le> spsc_cap r"
    and "unat (ring_head r - t) \<le> unat (ring_head r - producer_tail_cache r)"
  shows "unat (ring_head r + of_nat (length xs) - t) = unat (ring_head r - t) + length xs"
proof -
  have "unat (ring_head r - t) + length xs < 2 ^ 64"
    using assms spsc_invD(2) [OF assms(1)] by simp
  moreover from this have "unat (of_nat (length xs) :: u64) = length xs"
    by (simp add: unat_of_nat_small)
  ultimately show ?thesis
    using unat_add_diff [of "ring_head r" t "of_nat (length xs)"] by simp
qed

lemma publish_correct:
  assumes inv: "spsc_inv r"
    and fits: "unat (ring_head r - producer_tail_cache r) + length xs \<le> spsc_cap r"
  shows "spsc_inv (publish xs r)" "spsc_items (publish xs r) = spsc_items r @ xs"
    "spsc_cap (publish xs r) = spsc_cap r"
proof -
  note I = spsc_invD [OF inv]
  have idx: "spsc_index r (ring_head r) < length (buffer r)"
    using I(3) by (simp add: spsc_index_mod [OF inv] spsc_cap_def)
  have xs: "length xs \<le> length (buffer r)" using fits by (simp add: spsc_cap_def)
  have len: "length (buffer (publish xs r)) = length (buffer r)"
    using idx xs by (simp add: publish_def)
  then show cap: "spsc_cap (publish xs r) = spsc_cap r" by (simp add: spsc_cap_def)
  have H: "ring_head (publish xs r) = ring_head r + of_nat (length xs)"
    and T: "ring_tail (publish xs r) = ring_tail r" by (simp_all add: publish_def)
  have dt: "unat (ring_head r + of_nat (length xs) - ring_tail r) =
      unat (ring_head r - ring_tail r) + length xs"
    by (rule publish_head_diff [OF inv fits I(7)])
  have dc: "unat (ring_head r + of_nat (length xs) - consumer_head_cache r) =
      unat (ring_head r - consumer_head_cache r) + length xs"
    using I(6,7) by (intro publish_head_diff [OF inv fits]) simp
  have dp: "unat (ring_head r + of_nat (length xs) - producer_tail_cache r) =
      unat (ring_head r - producer_tail_cache r) + length xs"
    by (rule publish_head_diff [OF inv fits]) simp
  show "spsc_inv (publish xs r)"
    using I fits cap dt dc dp by (simp add: spsc_inv_def publish_def)
  let ?n = "unat (ring_head r - ring_tail r)" and ?c = "spsc_cap r"
  have "unat (ring_head r) mod ?c = (unat (ring_tail r) + ?n) mod ?c"
    using unat_add_mod_dvd [of ?c "ring_tail r" "ring_head r - ring_tail r"]
      is_pow2_dvd_word [OF I(1), of 64] I(2) by simp
  then have pos: "spsc_index r (ring_head r) = (unat (ring_tail r) mod ?c + ?n) mod ?c"
    by (simp add: spsc_index_mod [OF inv] mod_add_left_eq)
  have "spsc_items (publish xs r) =
      cbuf (ring_write (buffer r) (spsc_index r (ring_head r)) xs) (unat (ring_tail r)) (?n + length xs)"
    by (simp add: spsc_items_def H T dt) (simp add: publish_def)
  also have "\<dots> = cbuf (ring_write (buffer r) (spsc_index r (ring_head r)) xs)
      (unat (ring_tail r) mod ?c) (?n + length xs)"
    using cbuf_mod [of "buffer (publish xs r)"] len by (simp add: publish_def spsc_cap_def)
  also have "\<dots> = cbuf (buffer r) (unat (ring_tail r) mod ?c) ?n @ xs"
    unfolding pos
    using cbuf_ring_write [of "unat (ring_tail r) mod ?c" "buffer r" ?n xs] I(3,7) fits
    by (simp add: spsc_cap_def)
  finally show "spsc_items (publish xs r) = spsc_items r @ xs"
    by (simp add: spsc_items_def spsc_cap_def cbuf_mod)
qed

lemma release_correct:
  assumes inv: "spsc_inv r" and n: "n \<le> unat (consumer_head_cache r - ring_tail r)"
  shows "spsc_inv (release n r)" "spsc_items (release n r) = drop n (spsc_items r)"
    "spsc_cap (release n r) = spsc_cap r"
proof -
  note I = spsc_invD [OF inv]
  have view: "unat (consumer_head_cache r - ring_tail r) =
      unat (ring_head r - ring_tail r) - unat (ring_head r - consumer_head_cache r)"
    using unat_diff_add [of "ring_head r - consumer_head_cache r" "ring_head r" "ring_tail r"] I(6)
      unat_sub [of "ring_head r - consumer_head_cache r" "ring_head r - ring_tail r"]
    by (simp add: word_le_nat_alt)
  have n': "n \<le> unat (ring_head r - ring_tail r)" using n view by simp
  have "n < 2 ^ 64" using n' I(7,8,2) by simp
  then have w: "unat (of_nat n :: u64) = n" by (rule unat_of_nat_small)
  have dt: "unat (ring_head r - (ring_tail r + of_nat n)) = unat (ring_head r - ring_tail r) - n"
    using unat_diff_add [of "of_nat n" "ring_head r" "ring_tail r"] w n' by simp
  show cap: "spsc_cap (release n r) = spsc_cap r" by (simp add: spsc_cap_def release_def)
  show "spsc_inv (release n r)"
    using I n view dt by (simp add: spsc_inv_def release_def spsc_cap_def) arith
  let ?c = "spsc_cap r"
  have "unat (ring_tail r + of_nat n) mod ?c = (unat (ring_tail r) + n) mod ?c"
    using unat_add_mod_dvd [of ?c "ring_tail r" "of_nat n"] w
      is_pow2_dvd_word [OF I(1), of 64] I(2) by simp
  then have "cbuf (buffer r) (unat (ring_tail r + of_nat n)) m = cbuf (buffer r) (unat (ring_tail r) + n) m" for m
    using cbuf_mod [of "buffer r"] by (metis spsc_cap_def)
  then have "spsc_items (release n r) =
      cbuf (buffer r) (unat (ring_tail r) + n) (unat (ring_head r - ring_tail r) - n)"
    by (simp add: spsc_items_def release_def dt)
  moreover have "spsc_items r = cbuf (buffer r) (unat (ring_tail r)) n @
      cbuf (buffer r) (unat (ring_tail r) + n) (unat (ring_head r - ring_tail r) - n)"
    using cbuf_add [of "buffer r" "unat (ring_tail r)" n "unat (ring_head r - ring_tail r) - n"] n'
    by (simp add: spsc_items_def)
  ultimately show "spsc_items (release n r) = drop n (spsc_items r)" by simp
qed

section \<open>The two wake-up tests\<close>

lemma producer_was_empty_cases:
  assumes inv: "spsc_inv r"
  shows "\<exists>b p.
    producer_was_empty arm (ring_head r) (producer_tail_cache r) r = (b, r\<lparr>producer_tail_cache := p\<rparr>) \<and>
    spsc_inv (r\<lparr>producer_tail_cache := p\<rparr>) \<and>
    unat (ring_head r - p) \<le> unat (ring_head r - producer_tail_cache r) \<and>
    (b \<longrightarrow> spsc_items r = []) \<and> (arm \<longrightarrow> b = (spsc_items r = []))"
proof -
  note I = spsc_invD [OF inv]
  have e: "spsc_items r = [] \<longleftrightarrow> ring_head r = ring_tail r"
    using length_spsc_items [of r] by (metis eq_iff_diff_eq_0 length_0_conv unat_eq_zero)
  have z: "ring_head r = producer_tail_cache r \<Longrightarrow> ring_head r = ring_tail r"
    using I(7) by (metis eq_iff_diff_eq_0 le_zero_eq unat_eq_zero)
  show ?thesis
  proof (cases "arm \<and> ring_head r \<noteq> producer_tail_cache r")
    case True
    then have "producer_was_empty arm (ring_head r) (producer_tail_cache r) r =
        (ring_head r = ring_tail r, r\<lparr>producer_tail_cache := ring_tail r\<rparr>)"
      by (simp add: producer_was_empty_def)
    with spsc_inv_refresh_tail [OF inv] I(7) e show ?thesis by blast
  next
    case False
    then have "producer_was_empty arm (ring_head r) (producer_tail_cache r) r =
        (ring_head r = producer_tail_cache r, r\<lparr>producer_tail_cache := producer_tail_cache r\<rparr>)"
      unfolding producer_was_empty_def by (simp only: if_False) simp
    moreover have "arm \<longrightarrow> (ring_head r = producer_tail_cache r) = (spsc_items r = [])"
      using False e z by blast
    ultimately show ?thesis using inv e z
      by (intro exI [of _ "ring_head r = producer_tail_cache r"] exI [of _ "producer_tail_cache r"])
        simp
  qed
qed

lemma consumer_view_le:
  assumes "spsc_inv r"
  shows "unat (consumer_head_cache r - ring_tail r) =
    unat (ring_head r - ring_tail r) - unat (ring_head r - consumer_head_cache r)"
  using unat_diff_add [of "ring_head r - consumer_head_cache r" "ring_head r" "ring_tail r"]
    unat_sub [of "ring_head r - consumer_head_cache r" "ring_head r - ring_tail r"]
    spsc_invD(6) [OF assms]
  by (simp add: word_le_nat_alt)

lemma Capacity_le_iff: "spsc_inv r \<Longrightarrow> Capacity r \<le> w \<longleftrightarrow> spsc_cap r \<le> unat w"
  using spsc_invD(9) by (metis word_le_nat_alt)

lemma spsc_full_iff:
  "spsc_inv r \<Longrightarrow> Capacity r \<le> ring_head r - ring_tail r \<longleftrightarrow> length (spsc_items r) = spsc_cap r"
  using length_spsc_items_le [of r] Capacity_le_iff [of r "ring_head r - ring_tail r"]
  by (simp add: length_spsc_items) arith

lemma consumer_was_full_cases:
  assumes inv: "spsc_inv r"
  shows "\<exists>b c.
    consumer_was_full arm (consumer_head_cache r) (ring_tail r) r = (b, r\<lparr>consumer_head_cache := c\<rparr>) \<and>
    spsc_inv (r\<lparr>consumer_head_cache := c\<rparr>) \<and>
    unat (consumer_head_cache r - ring_tail r) \<le> unat (c - ring_tail r) \<and>
    (b \<longrightarrow> length (spsc_items r) = spsc_cap r) \<and>
    (arm \<longrightarrow> b = (length (spsc_items r) = spsc_cap r))"
proof (cases "arm \<and> consumer_head_cache r - ring_tail r < Capacity r")
  case True
  then have "consumer_was_full arm (consumer_head_cache r) (ring_tail r) r =
      (ring_head r - ring_tail r \<ge> Capacity r, r\<lparr>consumer_head_cache := ring_head r\<rparr>)"
    by (simp add: consumer_was_full_def)
  with spsc_inv_refresh_head [OF inv] consumer_view_le [OF inv] spsc_full_iff [OF inv]
  show ?thesis by (intro exI conjI) (assumption, simp_all)
next
  case False
  let ?b = "consumer_head_cache r - ring_tail r \<ge> Capacity r"
  have eq: "consumer_was_full arm (consumer_head_cache r) (ring_tail r) r =
      (?b, r\<lparr>consumer_head_cache := consumer_head_cache r\<rparr>)"
    using False unfolding consumer_was_full_def by (simp only: if_False) simp
  have "consumer_head_cache r - ring_tail r \<le> ring_head r - ring_tail r"
    using consumer_view_le [OF inv] by (simp add: word_le_nat_alt)
  then have b: "?b \<longrightarrow> length (spsc_items r) = spsc_cap r"
    using spsc_full_iff [OF inv] by (meson order_trans)
  moreover have "arm \<longrightarrow> ?b = (length (spsc_items r) = spsc_cap r)"
    using False b by (meson not_less)
  ultimately show ?thesis using inv eq by (intro exI conjI) (assumption, simp_all)
qed

section \<open>Functional behaviour of the operations\<close>

text \<open>Reloading the tail is needed exactly when the producer's view of the ring is full.\<close>

lemma push_stale_iff:
  assumes "spsc_inv r"
  shows "producer_head_cache r + 1 - producer_tail_cache r > Capacity r \<longleftrightarrow>
    unat (ring_head r - producer_tail_cache r) = spsc_cap r"
proof -
  note I = spsc_invD [OF assms]
  have "unat (ring_head r + 1 - producer_tail_cache r) = unat (ring_head r - producer_tail_cache r) + 1"
    using I(2,8) unat_inc_diff [of "ring_head r" "producer_tail_cache r" "2 ^ 63"] by simp
  then show ?thesis using I(4,8,9) by (auto simp: word_less_nat_alt)
qed

lemma push_commit_correct:
  assumes inv: "spsc_inv r" and room: "unat (ring_head r - producer_tail_cache r) < spsc_cap r"
  shows "fst (push_commit arm x r)" "spsc_inv (snd (push_commit arm x r))"
    "spsc_items (snd (push_commit arm x r)) = spsc_items r @ [x]"
    "spsc_cap (snd (push_commit arm x r)) = spsc_cap r"
    "arm \<Longrightarrow> signals (snd (push_commit arm x r)) = signals r + (if spsc_items r = [] then 1 else 0)"
proof -
  note I = spsc_invD [OF inv]
  obtain b p where e:
    "producer_was_empty arm (ring_head r) (producer_tail_cache r) r = (b, r\<lparr>producer_tail_cache := p\<rparr>)"
    and inv2: "spsc_inv (r\<lparr>producer_tail_cache := p\<rparr>)"
    and le: "unat (ring_head r - p) \<le> unat (ring_head r - producer_tail_cache r)"
    and b: "arm \<longrightarrow> b = (spsc_items r = [])"
    using producer_was_empty_cases [OF inv, of arm] by blast
  let ?r2 = "r\<lparr>producer_tail_cache := p\<rparr>"
  have idx: "spsc_index ?r2 (ring_head r) < length (buffer r)"
    using I(3) by (simp add: spsc_index_mod [OF inv2] spsc_cap_def)
  have eq: "push_commit arm x r =
      (True, (publish [x] ?r2)\<lparr>signals := signals r + (if b then 1 else 0)\<rparr>)"
    using e I(4) idx by (simp add: push_commit_def publish_def ring_write_single signal_event_def)
  have fits: "unat (ring_head ?r2 - producer_tail_cache ?r2) + length [x] \<le> spsc_cap ?r2"
    using le room by (simp add: spsc_simps)
  note P = publish_correct [OF inv2 fits]
  show "fst (push_commit arm x r)" by (simp add: eq)
  show "spsc_inv (snd (push_commit arm x r))" using P(1) by (simp add: eq spsc_simps)
  show "spsc_items (snd (push_commit arm x r)) = spsc_items r @ [x]"
    using P(2) by (simp add: eq spsc_simps)
  show "spsc_cap (snd (push_commit arm x r)) = spsc_cap r" using P(3) by (simp add: eq spsc_simps)
  show "arm \<Longrightarrow> signals (snd (push_commit arm x r)) = signals r + (if spsc_items r = [] then 1 else 0)"
    unfolding eq using b by simp
qed

lemma spsc_push_full:
  assumes "spsc_inv r" and "length (spsc_items r) = spsc_cap r"
  shows "spsc_push arm x r = (False, r\<lparr>producer_tail_cache := ring_tail r\<rparr>)"
proof -
  note I = spsc_invD [OF assms(1)]
  have a: "unat (ring_head r - producer_tail_cache r) = spsc_cap r"
    using I(7,8) assms(2) by (simp add: length_spsc_items)
  have b: "unat (ring_head r - ring_tail r) = spsc_cap r"
    using assms(2) by (simp add: length_spsc_items)
  have "producer_head_cache r + 1 - ring_tail r > Capacity r"
    using push_stale_iff [OF spsc_inv_refresh_tail [OF assms(1)]] b
    by (simp add: spsc_simps Capacity_def)
  then show ?thesis
    using push_stale_iff [OF assms(1)] a by (simp add: spsc_push_def Let_def Capacity_def)
qed

lemma spsc_push_room:
  assumes inv: "spsc_inv r" and room: "length (spsc_items r) < spsc_cap r"
  shows "\<exists>r1. spsc_push arm x r = push_commit arm x r1 \<and> spsc_inv r1 \<and>
    spsc_items r1 = spsc_items r \<and> spsc_cap r1 = spsc_cap r \<and> signals r1 = signals r \<and>
    unat (ring_head r1 - producer_tail_cache r1) < spsc_cap r1"
proof (cases "unat (ring_head r - producer_tail_cache r) = spsc_cap r")
  case True
  let ?r1 = "r\<lparr>producer_tail_cache := ring_tail r\<rparr>"
  have inv1: "spsc_inv ?r1" by (rule spsc_inv_refresh_tail [OF inv])
  have lt: "unat (ring_head ?r1 - producer_tail_cache ?r1) < spsc_cap ?r1"
    using room by (simp add: length_spsc_items spsc_simps)
  have nf: "\<not> producer_head_cache r + 1 - ring_tail r > Capacity r"
    using push_stale_iff [OF inv1] room by (simp add: length_spsc_items spsc_simps Capacity_def)
  have st: "producer_head_cache r + 1 - producer_tail_cache r > Capacity r"
    using push_stale_iff [OF inv] True by simp
  have "spsc_push arm x r = push_commit arm x ?r1"
    using st nf by (simp add: spsc_push_def Let_def Capacity_def)
  with inv1 lt show ?thesis by (intro exI [of _ ?r1]) (simp add: spsc_simps)
next
  case False
  have lt: "unat (ring_head r - producer_tail_cache r) < spsc_cap r"
    using False spsc_invD(8) [OF inv] by simp
  have "spsc_push arm x r = push_commit arm x r"
    using push_stale_iff [OF inv] False by (simp add: spsc_push_def Let_def)
  with inv lt show ?thesis by blast
qed

lemma spsc_push_spec:
  assumes inv: "spsc_inv r"
  shows "fst (spsc_push arm x r) = (length (spsc_items r) < spsc_cap r)"
    "spsc_items (snd (spsc_push arm x r)) =
      (if length (spsc_items r) < spsc_cap r then spsc_items r @ [x] else spsc_items r)"
    "spsc_inv (snd (spsc_push arm x r))" "spsc_cap (snd (spsc_push arm x r)) = spsc_cap r"
    "arm \<Longrightarrow> signals (snd (spsc_push arm x r)) = signals r + (if spsc_items r = [] then 1 else 0)"
proof -
  have "fst (spsc_push arm x r) = (length (spsc_items r) < spsc_cap r) \<and>
    spsc_items (snd (spsc_push arm x r)) =
      (if length (spsc_items r) < spsc_cap r then spsc_items r @ [x] else spsc_items r) \<and>
    spsc_inv (snd (spsc_push arm x r)) \<and> spsc_cap (snd (spsc_push arm x r)) = spsc_cap r \<and>
    (arm \<longrightarrow> signals (snd (spsc_push arm x r)) = signals r + (if spsc_items r = [] then 1 else 0))"
  proof (cases "length (spsc_items r) < spsc_cap r")
    case True
    then obtain r1 where r1: "spsc_push arm x r = push_commit arm x r1" "spsc_inv r1"
      "spsc_items r1 = spsc_items r" "spsc_cap r1 = spsc_cap r" "signals r1 = signals r"
      "unat (ring_head r1 - producer_tail_cache r1) < spsc_cap r1"
      using spsc_push_room [OF inv] by blast
    note P = push_commit_correct [OF r1(2,6), of arm x]
    have "arm \<longrightarrow> signals (snd (spsc_push arm x r)) =
        signals r + (if spsc_items r = [] then 1 else 0)"
      using P(5) r1 by auto
    with P(1-4) r1 True show ?thesis by simp
  next
    case False
    then have "length (spsc_items r) = spsc_cap r" using length_spsc_items_le [OF inv] by simp
    with spsc_push_full [OF inv] False spsc_inv_refresh_tail [OF inv] spsc_invD(3) [OF inv]
    show ?thesis by (auto simp: spsc_simps)
  qed
  then show "fst (spsc_push arm x r) = (length (spsc_items r) < spsc_cap r)"
    "spsc_items (snd (spsc_push arm x r)) =
      (if length (spsc_items r) < spsc_cap r then spsc_items r @ [x] else spsc_items r)"
    "spsc_inv (snd (spsc_push arm x r))" "spsc_cap (snd (spsc_push arm x r)) = spsc_cap r"
    "arm \<Longrightarrow> signals (snd (spsc_push arm x r)) = signals r + (if spsc_items r = [] then 1 else 0)"
    by blast+
qed

subsection \<open>Batches\<close>

lemma producer_room:
  assumes "spsc_inv r"
  shows "unat (Capacity r - (ring_head r - producer_tail_cache r)) =
    spsc_cap r - unat (ring_head r - producer_tail_cache r)"
  using spsc_invD(8,9) [OF assms] by (simp add: unat_sub word_le_nat_alt)

lemma push_batch_commit_correct:
  fixes xs :: "'a list"
  assumes inv: "spsc_inv r"
  defines "n \<equiv> min (length xs) (spsc_cap r - unat (ring_head r - producer_tail_cache r))"
  shows "fst (push_batch_commit arm xs r) = n" "spsc_inv (snd (push_batch_commit arm xs r))"
    "spsc_items (snd (push_batch_commit arm xs r)) = spsc_items r @ take n xs"
    "spsc_cap (snd (push_batch_commit arm xs r)) = spsc_cap r"
proof -
  note I = spsc_invD [OF inv]
  obtain b p where e:
    "producer_was_empty arm (ring_head r) (producer_tail_cache r) r = (b, r\<lparr>producer_tail_cache := p\<rparr>)"
    and inv2: "spsc_inv (r\<lparr>producer_tail_cache := p\<rparr>)"
    and le: "unat (ring_head r - p) \<le> unat (ring_head r - producer_tail_cache r)"
    using producer_was_empty_cases [OF inv, of arm] by blast
  let ?r2 = "r\<lparr>producer_tail_cache := p\<rparr>"
  have n: "(if length xs < unat (Capacity r - (ring_head r - producer_tail_cache r)) then length xs
      else unat (Capacity r - (ring_head r - producer_tail_cache r))) = n"
    by (simp add: n_def producer_room [OF inv] min_def)
  have len: "length (take n xs) = n" by (simp add: n_def)
  have eq: "push_batch_commit arm xs r =
      (n, (publish (take n xs) ?r2)\<lparr>signals := signals r + (if b then 1 else 0)\<rparr>)"
    using e n len by (simp add: push_batch_commit_def I(4) publish_def signal_event_def Let_def)
  have fits: "unat (ring_head ?r2 - producer_tail_cache ?r2) + length (take n xs) \<le> spsc_cap ?r2"
    using le I(8) by (simp add: spsc_simps n_def)
  note P = publish_correct [OF inv2 fits]
  show "fst (push_batch_commit arm xs r) = n" by (simp add: eq)
  show "spsc_inv (snd (push_batch_commit arm xs r))" using P(1) by (simp add: eq spsc_simps)
  show "spsc_items (snd (push_batch_commit arm xs r)) = spsc_items r @ take n xs"
    using P(2) by (simp add: eq spsc_simps)
  show "spsc_cap (snd (push_batch_commit arm xs r)) = spsc_cap r" using P(3) by (simp add: eq spsc_simps)
qed

lemma spsc_push_batch_unfold:
  assumes inv: "spsc_inv r" and ne: "xs \<noteq> []"
  defines "r1 \<equiv> r\<lparr>producer_tail_cache := ring_tail r\<rparr>"
  shows "spsc_push_batch arm xs r =
    (if spsc_cap r - unat (ring_head r - producer_tail_cache r) < length xs
     then if length (spsc_items r) = spsc_cap r then (0, r1) else push_batch_commit arm xs r1
     else push_batch_commit arm xs r)"
proof -
  have inv1: "spsc_inv r1" unfolding r1_def by (rule spsc_inv_refresh_tail [OF inv])
  have room1: "unat (Capacity r - (ring_head r - ring_tail r)) = spsc_cap r - length (spsc_items r)"
    using producer_room [OF inv1] by (simp add: r1_def length_spsc_items spsc_simps Capacity_def)
  have full: "spsc_cap r - length (spsc_items r) = 0 \<longleftrightarrow> length (spsc_items r) = spsc_cap r"
    using length_spsc_items_le [OF inv] by auto
  show ?thesis
    using ne room1 full producer_room [OF inv] spsc_invD(4) [OF inv]
    by (simp add: spsc_push_batch_def Let_def r1_def Capacity_def)
qed

lemma spsc_push_batch_spec:
  fixes xs :: "'a list"
  assumes inv: "spsc_inv r"
  defines "n \<equiv> min (length xs) (spsc_cap r - length (spsc_items r))"
  shows "fst (spsc_push_batch arm xs r) = n \<and>
    spsc_items (snd (spsc_push_batch arm xs r)) = spsc_items r @ take n xs \<and>
    spsc_inv (snd (spsc_push_batch arm xs r)) \<and> spsc_cap (snd (spsc_push_batch arm xs r)) = spsc_cap r"
proof (cases "xs = []")
  case True
  with inv show ?thesis by (simp add: spsc_push_batch_def n_def)
next
  case False
  note I = spsc_invD [OF inv]
  let ?r1 = "r\<lparr>producer_tail_cache := ring_tail r\<rparr>"
  have inv1: "spsc_inv ?r1" by (rule spsc_inv_refresh_tail [OF inv])
  consider (full) "length (spsc_items r) = spsc_cap r"
      "spsc_cap r - unat (ring_head r - producer_tail_cache r) < length xs"
    | (stale) "length (spsc_items r) \<noteq> spsc_cap r"
      "spsc_cap r - unat (ring_head r - producer_tail_cache r) < length xs"
    | (fresh) "\<not> spsc_cap r - unat (ring_head r - producer_tail_cache r) < length xs"
    by blast
  then show ?thesis
  proof cases
    case full
    with inv1 show ?thesis
      by (simp add: spsc_push_batch_unfold [OF inv False] n_def spsc_simps)
  next
    case stale
    with push_batch_commit_correct [OF inv1, of arm xs] show ?thesis
      by (simp add: spsc_push_batch_unfold [OF inv False] n_def spsc_simps length_spsc_items)
  next
    case fresh
    then have "min (length xs) (spsc_cap r - unat (ring_head r - producer_tail_cache r)) = length xs"
      "n = length xs"
      using I(7) by (auto simp: n_def length_spsc_items)
    with fresh push_batch_commit_correct [OF inv, of arm xs] show ?thesis
      by (simp add: spsc_push_batch_unfold [OF inv False])
  qed
qed

lemma ring_read_items:
  assumes inv: "spsc_inv r" and n: "n \<le> length (spsc_items r)"
  shows "ring_read (buffer r) (spsc_index r (ring_tail r)) n = take n (spsc_items r)"
proof -
  note I = spsc_invD [OF inv]
  have "ring_read (buffer r) (spsc_index r (ring_tail r)) n =
      cbuf (buffer r) (spsc_index r (ring_tail r)) n"
    using n I(3) length_spsc_items_le [OF inv]
    by (intro ring_read_cbuf) (simp_all add: spsc_index_mod [OF inv] spsc_cap_def)
  also have "\<dots> = cbuf (buffer r) (unat (ring_tail r)) n"
    by (simp add: spsc_index_mod [OF inv] spsc_cap_def cbuf_mod)
  also have "\<dots> = take n (spsc_items r)"
    using cbuf_add [of "buffer r" "unat (ring_tail r)" n "length (spsc_items r) - n"] n
    by (simp add: spsc_items_def)
  finally show ?thesis .
qed

lemma consumer_avail:
  "spsc_inv r \<Longrightarrow> unat (consumer_head_cache r - ring_tail r) \<le> length (spsc_items r)"
  using consumer_view_le [of r] by (simp add: length_spsc_items)

lemma pop_batch_commit_eq:
  assumes inv: "spsc_inv r" and n: "n = min count (unat (consumer_head_cache r - ring_tail r))"
  shows "\<exists>b c. pop_batch_commit arm count r =
      (take n (spsc_items r), (release n (r\<lparr>consumer_head_cache := c\<rparr>))
         \<lparr>signals := signals r + (if b then 1 else 0)\<rparr>) \<and>
      spsc_inv (r\<lparr>consumer_head_cache := c\<rparr>) \<and> n \<le> unat (c - ring_tail r) \<and>
      (arm \<longrightarrow> b = (length (spsc_items r) = spsc_cap r))"
proof -
  obtain b c where e:
    "consumer_was_full arm (consumer_head_cache r) (ring_tail r) r = (b, r\<lparr>consumer_head_cache := c\<rparr>)"
    and inv2: "spsc_inv (r\<lparr>consumer_head_cache := c\<rparr>)"
    and le: "unat (consumer_head_cache r - ring_tail r) \<le> unat (c - ring_tail r)"
    and b: "arm \<longrightarrow> b = (length (spsc_items r) = spsc_cap r)"
    using consumer_was_full_cases [OF inv, of arm] by blast
  let ?r2 = "r\<lparr>consumer_head_cache := c\<rparr>"
  have "n \<le> length (spsc_items r)" using consumer_avail [OF inv] by (simp add: n)
  then have rd: "ring_read (buffer r) (spsc_index r (ring_tail r)) n = take n (spsc_items r)"
    by (rule ring_read_items [OF inv])
  have nn: "(if count < unat (consumer_head_cache r - ring_tail r) then count
      else unat (consumer_head_cache r - ring_tail r)) = n"
    by (simp add: n min_def)
  have "pop_batch_commit arm count r =
    (take n (spsc_items r), (release n ?r2)\<lparr>signals := signals r + (if b then 1 else 0)\<rparr>)"
    unfolding pop_batch_commit_def spsc_invD(5) [OF inv] e nn Let_def prod.case
    using rd by (cases b) (simp_all add: release_def signal_event_def spsc_simps)
  moreover have "n \<le> unat (c - ring_tail r)" using le by (simp add: n)
  ultimately show ?thesis using inv2 b by (intro exI [of _ b] exI [of _ c] conjI)
qed

lemma pop_batch_commit_correct:
  assumes inv: "spsc_inv r" and n: "n = min count (unat (consumer_head_cache r - ring_tail r))"
  shows "fst (pop_batch_commit arm count r) = take n (spsc_items r)"
    "spsc_inv (snd (pop_batch_commit arm count r))"
    "spsc_items (snd (pop_batch_commit arm count r)) = drop n (spsc_items r)"
    "spsc_cap (snd (pop_batch_commit arm count r)) = spsc_cap r"
proof -
  obtain b c where eq: "pop_batch_commit arm count r =
      (take n (spsc_items r), (release n (r\<lparr>consumer_head_cache := c\<rparr>))
         \<lparr>signals := signals r + (if b then 1 else 0)\<rparr>)"
    and inv2: "spsc_inv (r\<lparr>consumer_head_cache := c\<rparr>)" and le: "n \<le> unat (c - ring_tail r)"
    using pop_batch_commit_eq [OF inv n, of arm] by blast
  have "n \<le> unat (consumer_head_cache (r\<lparr>consumer_head_cache := c\<rparr>) - ring_tail (r\<lparr>consumer_head_cache := c\<rparr>))"
    using le by simp
  note R = release_correct [OF inv2 this]
  show "fst (pop_batch_commit arm count r) = take n (spsc_items r)" by (simp add: eq)
  show "spsc_inv (snd (pop_batch_commit arm count r))" using R(1) by (simp add: eq spsc_simps)
  show "spsc_items (snd (pop_batch_commit arm count r)) = drop n (spsc_items r)"
    using R(2) by (simp add: eq spsc_simps)
  show "spsc_cap (snd (pop_batch_commit arm count r)) = spsc_cap r" using R(3) by (simp add: eq spsc_simps)
qed

lemma pop_batch_commit_signals:
  assumes inv: "spsc_inv r"
  shows "signals (snd (pop_batch_commit True count r)) =
    signals r + (if length (spsc_items r) = spsc_cap r then 1 else 0)"
proof -
  obtain b c where "pop_batch_commit True count r =
      (take (min count (unat (consumer_head_cache r - ring_tail r))) (spsc_items r),
       (release (min count (unat (consumer_head_cache r - ring_tail r))) (r\<lparr>consumer_head_cache := c\<rparr>))
         \<lparr>signals := signals r + (if b then 1 else 0)\<rparr>)"
    and "b = (length (spsc_items r) = spsc_cap r)"
    using pop_batch_commit_eq [OF inv refl, of True] by blast
  then show ?thesis by simp
qed

lemma spsc_pop_batch_unfold:
  assumes inv: "spsc_inv r" and count: "count \<noteq> 0"
  defines "r1 \<equiv> r\<lparr>consumer_head_cache := ring_head r\<rparr>"
  shows "spsc_pop_batch arm count r =
    (if unat (consumer_head_cache r - ring_tail r) < count
     then if spsc_items r = [] then ([], r1) else pop_batch_commit arm count r1
     else pop_batch_commit arm count r)"
  using count spsc_invD(5) [OF inv] length_spsc_items [of r]
  by (simp add: spsc_pop_batch_def Let_def r1_def flip: length_0_conv)

lemma spsc_pop_batch_spec:
  assumes inv: "spsc_inv r"
  shows "fst (spsc_pop_batch arm count r) = take count (spsc_items r) \<and>
    spsc_items (snd (spsc_pop_batch arm count r)) = drop count (spsc_items r) \<and>
    spsc_inv (snd (spsc_pop_batch arm count r)) \<and>
    spsc_cap (snd (spsc_pop_batch arm count r)) = spsc_cap r"
proof (cases "count = 0")
  case True
  with inv show ?thesis by (simp add: spsc_pop_batch_def)
next
  case False
  let ?r1 = "r\<lparr>consumer_head_cache := ring_head r\<rparr>"
  have inv1: "spsc_inv ?r1" by (rule spsc_inv_refresh_head [OF inv])
  consider (empty) "spsc_items r = []" "unat (consumer_head_cache r - ring_tail r) < count"
    | (stale) "spsc_items r \<noteq> []" "unat (consumer_head_cache r - ring_tail r) < count"
    | (fresh) "\<not> unat (consumer_head_cache r - ring_tail r) < count"
    by blast
  then show ?thesis
  proof cases
    case empty
    with inv1 show ?thesis by (simp add: spsc_pop_batch_unfold [OF inv False] spsc_simps)
  next
    case stale
    have "take (min count (length (spsc_items r))) (spsc_items r) = take count (spsc_items r)"
      "drop (min count (length (spsc_items r))) (spsc_items r) = drop count (spsc_items r)"
      by (simp_all add: min_def)
    with stale pop_batch_commit_correct [OF inv1 refl, of arm count] show ?thesis
      by (simp add: spsc_pop_batch_unfold [OF inv False] spsc_simps length_spsc_items)
  next
    case fresh
    then have "min count (unat (consumer_head_cache r - ring_tail r)) = count" by simp
    with fresh pop_batch_commit_correct [OF inv refl, of arm count] show ?thesis
      by (simp add: spsc_pop_batch_unfold [OF inv False])
  qed
qed

text \<open>
  The single pop compares the cursors themselves, not their distance, so it agrees with a batch
  of one only while the head counter has not wrapped past the tail.
\<close>

lemma unwrapped_view:
  assumes inv: "spsc_inv r" and le: "ring_tail r \<le> ring_head r"
  shows "ring_tail r \<le> consumer_head_cache r"
proof -
  have d: "unat (ring_head r - ring_tail r) = unat (ring_head r) - unat (ring_tail r)"
    using le by (simp add: unat_sub)
  have "unat (consumer_head_cache r - ring_tail r) \<le> unat (ring_head r) - unat (ring_tail r)"
    using consumer_view_le [OF inv] d by simp
  moreover have "unat (ring_head r) < 2 ^ LENGTH(64)" by (rule unsigned_less)
  ultimately have lt: "unat (ring_tail r) + unat (consumer_head_cache r - ring_tail r) < 2 ^ 64"
    using le by (simp add: word_le_nat_alt)
  have "unat (ring_tail r + (consumer_head_cache r - ring_tail r)) =
      unat (ring_tail r) + unat (consumer_head_cache r - ring_tail r)"
    by (rule unat_add_lem [THEN iffD1]) (use lt in simp)
  moreover have "ring_tail r + (consumer_head_cache r - ring_tail r) = consumer_head_cache r" by simp
  ultimately show ?thesis by (simp add: word_le_nat_alt)
qed

lemma pop_commit_batch:
  assumes inv: "spsc_inv r" and ne: "consumer_head_cache r \<noteq> ring_tail r"
  shows "pop_commit arm r =
    (case pop_batch_commit arm 1 r of (out, r') \<Rightarrow> (Some (hd out), r'))"
proof -
  note I = spsc_invD [OF inv]
  have pos: "unat (consumer_head_cache r - ring_tail r) \<noteq> 0"
    using ne by (simp add: unat_eq_zero)
  have idx: "spsc_index r2 p < length (buffer r2)" if "buffer r2 = buffer r" for r2 :: "'a spsc_ring" and p
    using I(3) that spsc_index_mod [OF inv, of p]
    by (simp add: spsc_index_def kIndexMask_def Capacity_def spsc_cap_def)
  have rd: "ring_read (buffer r2) (spsc_index r2 p) (Suc 0) = [buffer r2 ! spsc_index r2 p]"
    if "buffer r2 = buffer r" for r2 :: "'a spsc_ring" and p
    using idx [OF that, of p] by (simp add: ring_read_def read_at_def Let_def take_Suc hd_drop_conv_nth)
  obtain b c where e: "consumer_was_full arm (consumer_head_cache r) (ring_tail r) r =
      (b, r\<lparr>consumer_head_cache := c\<rparr>)"
    using consumer_was_full_cases [OF inv, of arm] by blast
  have nn: "(if 1 < unat (consumer_head_cache r - ring_tail r) then 1
      else unat (consumer_head_cache r - ring_tail r)) = Suc 0"
    using pos by auto
  show ?thesis
    unfolding pop_commit_def pop_batch_commit_def I(5) e nn Let_def
    using rd [of "r\<lparr>consumer_head_cache := c\<rparr>" "ring_tail r"]
    by (simp add: signal_event_def)
qed

lemma spsc_pop_eq_batch:
  assumes inv: "spsc_inv r" and le: "ring_tail r \<le> ring_head r"
  shows "spsc_pop arm r = (case spsc_pop_batch arm 1 r of
    ([], r') \<Rightarrow> (None, r') | (x # _, r') \<Rightarrow> (Some x, r'))"
proof -
  note I = spsc_invD [OF inv]
  let ?r1 = "r\<lparr>consumer_head_cache := ring_head r\<rparr>"
  have inv1: "spsc_inv ?r1" by (rule spsc_inv_refresh_head [OF inv])
  have st: "ring_tail r \<ge> consumer_head_cache r \<longleftrightarrow> consumer_head_cache r = ring_tail r"
    using unwrapped_view [OF inv le] by auto
  have st0: "unat (consumer_head_cache r - ring_tail r) < 1 \<longleftrightarrow> consumer_head_cache r = ring_tail r"
    by (metis eq_iff_diff_eq_0 less_one unat_eq_zero)
  have em: "spsc_items r = [] \<longleftrightarrow> ring_head r = ring_tail r"
    using length_spsc_items [of r] by (metis eq_iff_diff_eq_0 length_0_conv unat_eq_zero)
  have le1: "ring_head r \<le> ring_tail r \<longleftrightarrow> ring_head r = ring_tail r" using le by auto
  have commit: "pop_commit arm q = (case pop_batch_commit arm 1 q of
      ([], r') \<Rightarrow> (None, r') | (x # _, r') \<Rightarrow> (Some x, r'))"
    if q: "spsc_inv q" "consumer_head_cache q \<noteq> ring_tail q" for q :: "'a spsc_ring"
  proof -
    have "fst (pop_batch_commit arm 1 q) \<noteq> []"
      using pop_batch_commit_correct(1) [OF q(1) refl, of arm 1] q(2) consumer_avail [OF q(1)]
      by (auto simp: unat_eq_zero min_def not_le)
    then show ?thesis
      using pop_commit_batch [OF q, of arm] by (auto split: prod.splits list.splits)
  qed
  show ?thesis
    using spsc_pop_batch_unfold [OF inv, of 1 arm] st st0 em le1 I(5) commit [OF inv] commit [OF inv1]
    by (simp add: spsc_pop_def Let_def)
qed

subsection \<open>Draining in place\<close>

lemma fold_index_map: "fold (\<lambda>i. f (g i)) is s = fold f (map g is) s"
  by (induction "is" arbitrary: s) simp_all

lemma consume_commit_batch:
  assumes inv: "spsc_inv r"
  shows "consume_commit arm count fn s r =
    (case pop_batch_commit arm count r of (out, r') \<Rightarrow> (length out, fold fn out s, r'))"
proof -
  note I = spsc_invD [OF inv]
  obtain b c where e: "consumer_was_full arm (consumer_head_cache r) (ring_tail r) r =
      (b, r\<lparr>consumer_head_cache := c\<rparr>)"
    using consumer_was_full_cases [OF inv, of arm] by blast
  define n where "n = (if count < unat (consumer_head_cache r - ring_tail r) then count
      else unat (consumer_head_cache r - ring_tail r))"
  let ?p = "spsc_index r (ring_tail r)" and ?b = "buffer r"
  define first where "first = min (length ?b - ?p) n"
  have p: "?p < length ?b" using I(3) by (simp add: spsc_index_mod [OF inv] spsc_cap_def)
  have nle: "n \<le> length ?b"
    using consumer_avail [OF inv] length_spsc_items_le [OF inv] by (auto simp: n_def spsc_cap_def)
  have m1: "map (\<lambda>i. ?b ! (?p + i)) [0..<first] = read_at ?b ?p first"
    by (rule nth_equalityI) (use p nle in \<open>auto simp: first_def read_at_def\<close>)
  have m2: "map (\<lambda>i. ?b ! (i - first)) [first..<n] = read_at ?b 0 (n - first)"
    by (rule nth_equalityI) (use p nle in \<open>auto simp: first_def read_at_def\<close>)
  have rd: "ring_read ?b ?p n = read_at ?b ?p first @ read_at ?b 0 (n - first)"
    by (auto simp: ring_read_def first_def Let_def read_at_def min_def)
  have f1: "fold (\<lambda>i. fn (?b ! (?p + i))) is s = fold fn (map (\<lambda>i. ?b ! (?p + i)) is) s" for "is" s
    by (rule fold_index_map)
  have f2: "fold (\<lambda>i. fn (?b ! (i - first))) is s = fold fn (map (\<lambda>i. ?b ! (i - first)) is) s"
    for "is" s
    by (rule fold_index_map)
  have len: "length (ring_read ?b ?p n) = n"
    using p nle by (simp add: ring_read_cbuf)
  show ?thesis
    unfolding consume_commit_def pop_batch_commit_def I(5) e Let_def prod.case n_def [symmetric]
    using len
    by (simp add: spsc_simps signal_event_def f1 f2 m1 m2 rd first_def [symmetric])
qed

lemma spsc_consume_batch_eq:
  assumes inv: "spsc_inv r"
  shows "spsc_consume_batch arm count fn s r =
    (case spsc_pop_batch arm count r of (out, r') \<Rightarrow> (length out, fold fn out s, r'))"
  using consume_commit_batch [OF inv, of arm count fn s]
    consume_commit_batch [OF spsc_inv_refresh_head [OF inv], of arm count fn s]
  by (simp add: spsc_consume_batch_def spsc_pop_batch_def Let_def)

section \<open>Size and reset\<close>

lemma sint_small:
  fixes w :: u64
  assumes "unat w < 2 ^ 63"
  shows "sint w = int (unat w)"
proof -
  have "uint w < 2 ^ 63"
    using assms by (metis nat_less_numeral_power_cancel_iff unat_eq_nat_uint)
  then have "signed_take_bit 63 (uint w) = uint w"
    using uint_ge_0 [of w] by (intro signed_take_bit_int_eq_self) linarith+
  then show ?thesis by (simp add: sint_uint)
qed

lemma spsc_size_items:
  assumes inv: "spsc_inv r"
  shows "spsc_size r = length (spsc_items r)"
proof -
  have "unat (ring_head r - ring_tail r) < 2 ^ 63"
    using spsc_invD(2,7,8) [OF inv] by linarith
  from sint_small [OF this] show ?thesis
    by (simp only: spsc_size_def Let_def length_spsc_items) simp
qed

lemma spsc_empty_iff: "spsc_inv r \<Longrightarrow> spsc_empty r \<longleftrightarrow> spsc_items r = []"
  by (simp add: spsc_empty_def spsc_size_items)

lemma spsc_inv_new:
  "is_pow2 (length storage) \<Longrightarrow> length storage < 2 ^ 63 \<Longrightarrow> spsc_inv (spsc_new storage)"
  by (simp add: spsc_inv_def spsc_new_def spsc_cap_def)

lemma spsc_items_new [simp]: "spsc_items (spsc_new storage) = []"
  by (simp add: spsc_items_def spsc_new_def)

lemma spsc_cap_new [simp]: "spsc_cap (spsc_new storage) = length storage"
  by (simp add: spsc_cap_def spsc_new_def)

lemma spsc_reset_correct:
  "spsc_inv r \<Longrightarrow> spsc_inv (spsc_reset r) \<and> spsc_items (spsc_reset r) = [] \<and>
     spsc_cap (spsc_reset r) = spsc_cap r"
  by (simp add: spsc_inv_def spsc_reset_def spsc_items_def spsc_cap_def)

section \<open>The ring is a bounded FIFO channel\<close>

interpretation spsc: batch_fifo "spsc_push_batch arm" "spsc_pop_batch arm" spsc_items spsc_cap spsc_inv
  for arm
  by unfold_locales (auto simp: length_spsc_items_le spsc_push_batch_spec spsc_pop_batch_spec)

section \<open>The single pop\<close>

lemma spsc_pop_spec:
  assumes inv: "spsc_inv r" and le: "ring_tail r \<le> ring_head r"
  shows "fst (spsc_pop arm r) = (if spsc_items r = [] then None else Some (hd (spsc_items r)))"
    "spsc_items (snd (spsc_pop arm r)) = tl (spsc_items r)"
    "spsc_inv (snd (spsc_pop arm r))" "spsc_cap (snd (spsc_pop arm r)) = spsc_cap r"
proof -
  obtain out r' where o: "spsc_pop_batch arm 1 r = (out, r')" by fastforce
  have eq: "spsc_pop arm r = (if out = [] then None else Some (hd out), r')"
    using spsc_pop_eq_batch [OF inv le, of arm] o by (simp split: list.splits)
  have B: "out = take 1 (spsc_items r)" "spsc_items r' = drop 1 (spsc_items r)" "spsc_inv r'"
    "spsc_cap r' = spsc_cap r"
    using spsc_pop_batch_spec [OF inv, of arm 1] o by simp_all
  show "fst (spsc_pop arm r) = (if spsc_items r = [] then None else Some (hd (spsc_items r)))"
    by (cases "spsc_items r") (simp_all add: eq B(1))
  show "spsc_items (snd (spsc_pop arm r)) = tl (spsc_items r)"
    by (simp add: eq B(2) drop_Suc)
  show "spsc_inv (snd (spsc_pop arm r))" "spsc_cap (snd (spsc_pop arm r)) = spsc_cap r"
    using B(3,4) by (simp_all add: eq)
qed

lemma spsc_pop_wrapped:
  assumes inv: "spsc_inv r" and lt: "ring_head r < ring_tail r"
    and view: "consumer_head_cache r \<le> ring_tail r"
  shows "spsc_pop arm r = (None, r\<lparr>consumer_head_cache := ring_head r\<rparr>)" "spsc_items r \<noteq> []"
proof -
  show "spsc_pop arm r = (None, r\<lparr>consumer_head_cache := ring_head r\<rparr>)"
    using spsc_invD(5) [OF inv] less_imp_le [OF lt] view by (simp add: spsc_pop_def Let_def)
  have "ring_head r \<noteq> ring_tail r" using lt by auto
  then have "unat (ring_head r - ring_tail r) \<noteq> 0"
    by (metis eq_iff_diff_eq_0 unat_eq_zero)
  then show "spsc_items r \<noteq> []" by (metis length_spsc_items list.size(3))
qed

section \<open>Properties\<close>

lemma spsc_inv_fresh: "spsc_inv (spsc_new [a, b])" "spsc_inv (spsc_new [a, b, c, d])"
  by (rule spsc_inv_new; simp)+

text \<open>C3: In every sequence of batch pushes and batch pops on a fresh ring, the items delivered
  followed by the items still queued are exactly the items accepted, in order; the queue never
  holds more than \<open>Capacity\<close> items and the cursor invariant holds at the end, also when the
  64-bit cursors wrap.\<close>
theorem spsc_runs_are_fifo:
  assumes "is_pow2 (length storage)" and "length storage < 2 ^ 63"
    and "fifo_run (spsc_push_batch arm) (spsc_pop_batch arm) ops (spsc_new storage) = (acc, out, r)"
  shows "out @ spsc_items r = acc \<and> length (spsc_items r) \<le> length storage \<and> spsc_inv r"
  using spsc.run_fifo [OF spsc_inv_new [OF assms(1,2)] assms(3)]
    spsc.run_bounded [OF spsc_inv_new [OF assms(1,2)] assms(3)]
    spsc.run_invar [OF spsc_inv_new [OF assms(1,2)] assms(3)]
  by simp

lemma spsc_runs_are_fifo_witness:
  "[1, 2, 3] @ spsc_items (snd (snd (fifo_run (spsc_push_batch True) (spsc_pop_batch True)
      [PushBatch [1, 2, 3, 4, 5], PopBatch 3, PushBatch [6 :: nat]] (spsc_new [0, 0, 0, 0])))) =
    [1, 2, 3, 4, 6]"
proof -
  obtain acc out r where e: "fifo_run (spsc_push_batch True) (spsc_pop_batch True)
      [PushBatch [1, 2, 3, 4, 5], PopBatch 3, PushBatch [6 :: nat]] (spsc_new [0, 0, 0, 0]) = (acc, out, r)"
    by (metis prod_cases3)
  have "fst (fifo_run (spsc_push_batch True) (spsc_pop_batch True)
      [PushBatch [1, 2, 3, 4, 5], PopBatch 3, PushBatch [6 :: nat]] (spsc_new [0, 0, 0, 0])) =
      [1, 2, 3, 4, 6]"
    by code_simp
  moreover have "fst (snd (fifo_run (spsc_push_batch True) (spsc_pop_batch True)
      [PushBatch [1, 2, 3, 4, 5], PopBatch 3, PushBatch [6 :: nat]] (spsc_new [0, 0, 0, 0]))) =
      [1, 2, 3]"
    by code_simp
  moreover have "out @ spsc_items r = acc \<and> length (spsc_items r) \<le> length [0, 0, 0, 0 :: nat] \<and> spsc_inv r"
    by (rule spsc_runs_are_fifo [OF _ _ e]) simp_all
  ultimately show ?thesis by (simp only: e fst_conv snd_conv)
qed

text \<open>A single push stores the item behind the queued ones exactly when the ring is not full,
  leaves the contents alone when it is, and (on targets that arm the wake-up) signals exactly
  when the ring was empty.\<close>
theorem spsc_push_functional:
  assumes "spsc_inv r"
  shows "spsc_push arm x r = (ok, r') \<Longrightarrow>
    ok = (length (spsc_items r) < spsc_cap r) \<and>
    spsc_items r' = (if ok then spsc_items r @ [x] else spsc_items r) \<and>
    spsc_inv r' \<and> spsc_cap r' = spsc_cap r \<and>
    (arm \<longrightarrow> signals r' = signals r + (if spsc_items r = [] then 1 else 0))"
  using spsc_push_spec [OF assms, of arm x] by auto

lemma spsc_push_functional_witness:
  "spsc_items (snd (spsc_push True (7 :: nat) (spsc_new [0, 0]))) = [7]"
proof -
  let ?e = "spsc_push True (7 :: nat) (spsc_new [0, 0])"
  have i: "spsc_inv (spsc_new [0, 0 :: nat])" by (rule spsc_inv_fresh)
  have "spsc_items (snd ?e) = (if fst ?e then spsc_items (spsc_new [0, 0 :: nat]) @ [7]
      else spsc_items (spsc_new [0, 0]))"
    using spsc_push_functional [OF i prod.collapse [symmetric], of True 7] by blast
  moreover have "fst ?e" by code_simp
  ultimately show ?thesis by simp
qed

text \<open>Draining in place is the batch pop followed by the callback on each item in order: the
  same items, the same count, the same ring afterwards.\<close>
theorem spsc_consume_is_pop_then_visit:
  assumes "spsc_inv r"
  shows "spsc_consume_batch arm count fn s r =
    (case spsc_pop_batch arm count r of (out, r') \<Rightarrow> (length out, fold fn out s, r'))"
  by (rule spsc_consume_batch_eq [OF assms])

lemma spsc_consume_is_pop_then_visit_witness:
  "fst (snd (spsc_consume_batch True 2 (\<lambda>x s. s @ [x]) []
     (snd (spsc_push_batch True [4, 5, 6 :: nat] (spsc_new [0, 0, 0, 0]))))) = [4, 5]"
proof -
  let ?r = "snd (spsc_push_batch True [4, 5, 6 :: nat] (spsc_new [0, 0, 0, 0]))"
  have "spsc_inv ?r"
    by (intro spsc.push_invar spsc_inv_fresh)
  note spsc_consume_is_pop_then_visit [OF this, of True 2 "\<lambda>x s. s @ [x]" "[]"]
  moreover have "fst (spsc_pop_batch True 2 ?r) = [4, 5]" by code_simp
  ultimately show ?thesis by (simp split: prod.splits)
qed

text \<open>While the tail cursor is not above the head cursor, the single pop removes and returns
  the oldest item, and reports an empty ring exactly when it is empty.\<close>
theorem spsc_pop_functional:
  assumes "spsc_inv r" and "ring_tail r \<le> ring_head r"
  shows "spsc_pop arm r = (out, r') \<Longrightarrow>
    out = (if spsc_items r = [] then None else Some (hd (spsc_items r))) \<and>
    spsc_items r' = tl (spsc_items r) \<and> spsc_inv r' \<and> spsc_cap r' = spsc_cap r"
  using spsc_pop_spec [OF assms, of arm] by auto

lemma spsc_pop_functional_witness:
  "fst (spsc_pop True (snd (spsc_push True (7 :: nat) (spsc_new [0, 0])))) = Some 7"
proof -
  let ?r = "snd (spsc_push True (7 :: nat) (spsc_new [0, 0]))"
  have i: "spsc_inv (spsc_new [0, 0 :: nat])" by (rule spsc_inv_fresh)
  have "spsc_inv ?r" "spsc_items ?r = [7]" using spsc_push_spec [OF i, of True 7] by simp_all
  moreover have "ring_tail ?r \<le> ring_head ?r" by code_simp
  ultimately show ?thesis
    using spsc_pop_functional [of ?r True "fst (spsc_pop True ?r)" "snd (spsc_pop True ?r)"] by simp
qed

text \<open>C5: After the 64-bit head cursor wraps past zero while the tail has not, the single pop
  reports an empty ring although items are queued, where a batch pop of one returns the oldest
  item: the single pop compares the cursors instead of their difference.\<close>
theorem spsc_pop_misses_wrapped_items:
  assumes "spsc_inv r" and "ring_head r < ring_tail r" and "consumer_head_cache r \<le> ring_tail r"
  shows "fst (spsc_pop arm r) = None \<and> fst (spsc_pop_batch arm 1 r) = [hd (spsc_items r)]"
proof -
  have ne: "spsc_items r \<noteq> []" by (rule spsc_pop_wrapped(2) [OF assms])
  then have "take 1 (spsc_items r) = [hd (spsc_items r)]" by (cases "spsc_items r") simp_all
  then show ?thesis
    using spsc_pop_wrapped(1) [OF assms, of arm] spsc_pop_batch_spec [OF assms(1), of arm 1] by simp
qed

definition wrapped_ring :: "nat spsc_ring" where
  "wrapped_ring = \<lparr>ring_head = 1, ring_tail = 0xFFFFFFFFFFFFFFFF, producer_head_cache = 1, producer_tail_cache = 0xFFFFFFFFFFFFFFFF,
     consumer_head_cache = 0xFFFFFFFFFFFFFFFF, consumer_tail_cache = 0xFFFFFFFFFFFFFFFF, buffer = [20, 21, 22, 23], signals = 0\<rparr>"

lemma spsc_pop_misses_wrapped_items_witness:
  "fst (spsc_pop True wrapped_ring) = None \<and> fst (spsc_pop_batch True 1 wrapped_ring) = [23]"
proof -
  have "spsc_inv wrapped_ring" by (simp add: spsc_inv_def wrapped_ring_def spsc_cap_def)
  moreover have "ring_head wrapped_ring < ring_tail wrapped_ring"
    "consumer_head_cache wrapped_ring \<le> ring_tail wrapped_ring"
    by (simp_all add: wrapped_ring_def)
  ultimately have "fst (spsc_pop True wrapped_ring) = None \<and>
      fst (spsc_pop_batch True 1 wrapped_ring) = [hd (spsc_items wrapped_ring)]"
    by (rule spsc_pop_misses_wrapped_items)
  moreover have "hd (spsc_items wrapped_ring) = 23"
    by (simp add: spsc_items_def wrapped_ring_def cbuf_def upt_rec)
  ultimately show ?thesis by simp
qed

end
