(* ===== verification/Spsc_Concurrent.thy ===== *)
theory Spsc_Concurrent
  imports Spsc_Ring
begin

text \<open>
  The producer and the consumer of \<open>src/src/concurrency/spsc_ring.hpp\<close> running at the same time.
  Every access to a shared location (the two atomic cursors, one cell of the array) is a step of
  its own and the steps of the two threads interleave freely; the private caches change together
  with the access that fills them. A copy by \<open>memcpy\<close> is one step per cell. Steps see memory in
  one order: the release stores and acquire loads of the code are what justifies this, and they
  are not modelled. The lists \<open>sent\<close> and \<open>received\<close> record what the completed calls accepted
  and delivered.
\<close>

section \<open>Threads and state\<close>

datatype 'a push_call = Push 'a | PushMany "'a list"

datatype pop_call = Pop | PopMany nat

datatype 'a producer_pc =
    P_Idle
  | P_Reload "'a push_call"
  | P_Check "'a list"
  | P_Copy "'a list" nat bool

datatype 'a consumer_pc =
    C_Idle
  | C_Reload pop_call
  | C_Check nat
  | C_Copy nat "'a list" bool

record 'a spsc_sys =
  ring :: "'a spsc_ring"
  ppc :: "'a producer_pc"
  cpc :: "'a consumer_pc"
  sent :: "'a list"
  received :: "'a list"

section \<open>Producer steps\<close>

definition push_room :: "'a spsc_ring \<Rightarrow> nat" where
  "push_room r = unat (Capacity r - (producer_head_cache r - producer_tail_cache r))"

text \<open>The first test, on the cached tail, and the second, after the reload.\<close>

fun push_must_reload :: "'a push_call \<Rightarrow> 'a spsc_ring \<Rightarrow> bool" where
  "push_must_reload (Push x) r \<longleftrightarrow> producer_head_cache r + 1 - producer_tail_cache r > Capacity r"
| "push_must_reload (PushMany xs) r \<longleftrightarrow> push_room r < length xs"

fun push_gives_up :: "'a push_call \<Rightarrow> 'a spsc_ring \<Rightarrow> bool" where
  "push_gives_up (Push x) r \<longleftrightarrow> producer_head_cache r + 1 - producer_tail_cache r > Capacity r"
| "push_gives_up (PushMany xs) r \<longleftrightarrow> push_room r = 0"

fun push_block :: "'a push_call \<Rightarrow> 'a spsc_ring \<Rightarrow> 'a list" where
  "push_block (Push x) r = [x]"
| "push_block (PushMany xs) r = take (if length xs < push_room r then length xs else push_room r) xs"

definition begin_push :: "'a push_call \<Rightarrow> 'a spsc_sys \<Rightarrow> 'a spsc_sys" where
  "begin_push call s =
     (if call = PushMany [] then s
      else if push_must_reload call (ring s) then s\<lparr>ppc := P_Reload call\<rparr>
      else s\<lparr>ppc := P_Check (push_block call (ring s))\<rparr>)"

definition reload_tail :: "'a push_call \<Rightarrow> 'a spsc_sys \<Rightarrow> 'a spsc_sys" where
  "reload_tail call s =
     (let r = (ring s)\<lparr>producer_tail_cache := ring_tail (ring s)\<rparr>
      in if push_gives_up call r then s\<lparr>ring := r, ppc := P_Idle\<rparr>
         else s\<lparr>ring := r, ppc := P_Check (push_block call r)\<rparr>)"

definition check_empty :: "bool \<Rightarrow> 'a list \<Rightarrow> 'a spsc_sys \<Rightarrow> 'a spsc_sys" where
  "check_empty arm xs s =
     (let (was_empty, r) = producer_was_empty arm (producer_head_cache (ring s))
            (producer_tail_cache (ring s)) (ring s)
      in s\<lparr>ring := r, ppc := P_Copy xs 0 was_empty\<rparr>)"

text \<open>The cell of the \<open>k\<close>-th item of a block that starts at cursor \<open>pos\<close>: the block copy runs to
  the end of the array and continues at its start.\<close>

definition block_cell :: "'a spsc_ring \<Rightarrow> u64 \<Rightarrow> nat \<Rightarrow> nat" where
  "block_cell r pos k =
     (let begin = spsc_index r pos; first = length (buffer r) - begin
      in if k < first then begin + k else k - first)"

definition copy_in :: "'a list \<Rightarrow> nat \<Rightarrow> bool \<Rightarrow> 'a spsc_sys \<Rightarrow> 'a spsc_sys" where
  "copy_in xs k w s =
     s\<lparr>ring := (ring s)\<lparr>buffer := (buffer (ring s))
         [block_cell (ring s) (producer_head_cache (ring s)) k := xs ! k]\<rparr>,
       ppc := P_Copy xs (Suc k) w\<rparr>"

definition store_head :: "'a list \<Rightarrow> bool \<Rightarrow> 'a spsc_sys \<Rightarrow> 'a spsc_sys" where
  "store_head xs w s =
     (let next_head = producer_head_cache (ring s) + of_nat (length xs);
          r = (ring s)\<lparr>producer_head_cache := next_head, ring_head := next_head\<rparr>
      in s\<lparr>ring := (if w then signal_event r else r), ppc := P_Idle, sent := sent s @ xs\<rparr>)"

section \<open>Consumer steps\<close>

definition pop_available :: "'a spsc_ring \<Rightarrow> nat" where
  "pop_available r = unat (consumer_head_cache r - consumer_tail_cache r)"

fun pop_must_reload :: "pop_call \<Rightarrow> 'a spsc_ring \<Rightarrow> bool" where
  "pop_must_reload Pop r \<longleftrightarrow> consumer_tail_cache r \<ge> consumer_head_cache r"
| "pop_must_reload (PopMany n) r \<longleftrightarrow> pop_available r < n"

fun pop_gives_up :: "pop_call \<Rightarrow> 'a spsc_ring \<Rightarrow> bool" where
  "pop_gives_up Pop r \<longleftrightarrow> consumer_tail_cache r \<ge> consumer_head_cache r"
| "pop_gives_up (PopMany n) r \<longleftrightarrow> pop_available r = 0"

fun pop_count :: "pop_call \<Rightarrow> 'a spsc_ring \<Rightarrow> nat" where
  "pop_count Pop r = 1"
| "pop_count (PopMany n) r = (if n < pop_available r then n else pop_available r)"

definition begin_pop :: "pop_call \<Rightarrow> 'a spsc_sys \<Rightarrow> 'a spsc_sys" where
  "begin_pop call s =
     (if call = PopMany 0 then s
      else if pop_must_reload call (ring s) then s\<lparr>cpc := C_Reload call\<rparr>
      else s\<lparr>cpc := C_Check (pop_count call (ring s))\<rparr>)"

definition reload_head :: "pop_call \<Rightarrow> 'a spsc_sys \<Rightarrow> 'a spsc_sys" where
  "reload_head call s =
     (let r = (ring s)\<lparr>consumer_head_cache := ring_head (ring s)\<rparr>
      in if pop_gives_up call r then s\<lparr>ring := r, cpc := C_Idle\<rparr>
         else s\<lparr>ring := r, cpc := C_Check (pop_count call r)\<rparr>)"

definition check_full :: "bool \<Rightarrow> nat \<Rightarrow> 'a spsc_sys \<Rightarrow> 'a spsc_sys" where
  "check_full arm n s =
     (let (was_full, r) = consumer_was_full arm (consumer_head_cache (ring s))
            (consumer_tail_cache (ring s)) (ring s)
      in s\<lparr>ring := r, cpc := C_Copy n [] was_full\<rparr>)"

definition copy_out :: "nat \<Rightarrow> 'a list \<Rightarrow> bool \<Rightarrow> 'a spsc_sys \<Rightarrow> 'a spsc_sys" where
  "copy_out n out w s =
     s\<lparr>cpc := C_Copy n (out @ [buffer (ring s) !
         block_cell (ring s) (consumer_tail_cache (ring s)) (length out)]) w\<rparr>"

definition store_tail :: "nat \<Rightarrow> 'a list \<Rightarrow> bool \<Rightarrow> 'a spsc_sys \<Rightarrow> 'a spsc_sys" where
  "store_tail n out w s =
     (let next_tail = consumer_tail_cache (ring s) + of_nat n;
          r = (ring s)\<lparr>consumer_tail_cache := next_tail, ring_tail := next_tail\<rparr>
      in s\<lparr>ring := (if w then signal_event r else r), cpc := C_Idle, received := received s @ out\<rparr>)"

section \<open>Interleavings\<close>

inductive spsc_step :: "bool \<Rightarrow> 'a spsc_sys \<Rightarrow> 'a spsc_sys \<Rightarrow> bool" for arm where
  begin_push: "ppc s = P_Idle \<Longrightarrow> spsc_step arm s (begin_push call s)"
| reload_tail: "ppc s = P_Reload call \<Longrightarrow> spsc_step arm s (reload_tail call s)"
| check_empty: "ppc s = P_Check xs \<Longrightarrow> spsc_step arm s (check_empty arm xs s)"
| copy_in: "ppc s = P_Copy xs k w \<Longrightarrow> k < length xs \<Longrightarrow> spsc_step arm s (copy_in xs k w s)"
| store_head: "ppc s = P_Copy xs k w \<Longrightarrow> k = length xs \<Longrightarrow> spsc_step arm s (store_head xs w s)"
| begin_pop: "cpc s = C_Idle \<Longrightarrow> spsc_step arm s (begin_pop call s)"
| reload_head: "cpc s = C_Reload call \<Longrightarrow> spsc_step arm s (reload_head call s)"
| check_full: "cpc s = C_Check n \<Longrightarrow> spsc_step arm s (check_full arm n s)"
| copy_out: "cpc s = C_Copy n out w \<Longrightarrow> length out < n \<Longrightarrow> spsc_step arm s (copy_out n out w s)"
| store_tail: "cpc s = C_Copy n out w \<Longrightarrow> length out = n \<Longrightarrow> spsc_step arm s (store_tail n out w s)"

definition spsc_start :: "'a list \<Rightarrow> 'a spsc_sys" where
  "spsc_start storage =
     \<lparr>ring = spsc_new storage, ppc = P_Idle, cpc = C_Idle, sent = [], received = []\<rparr>"

inductive spsc_reachable :: "bool \<Rightarrow> 'a list \<Rightarrow> 'a spsc_sys \<Rightarrow> bool" for arm storage where
  start: "spsc_reachable arm storage (spsc_start storage)"
| step: "spsc_reachable arm storage s \<Longrightarrow> spsc_step arm s s' \<Longrightarrow> spsc_reachable arm storage s'"

section \<open>Invariant\<close>

text \<open>A block that was accepted fits between the head and the producer's view of the tail; the
  part already copied is in its cells.\<close>

definition block_fits :: "'a spsc_ring \<Rightarrow> 'a list \<Rightarrow> bool" where
  "block_fits r xs \<longleftrightarrow> unat (ring_head r - producer_tail_cache r) + length xs \<le> spsc_cap r"

definition copied :: "'a spsc_ring \<Rightarrow> 'a list \<Rightarrow> nat \<Rightarrow> bool" where
  "copied r xs k \<longleftrightarrow> k \<le> length xs \<and> cbuf (buffer r) (unat (ring_head r)) k = take k xs"

fun producer_ok :: "'a producer_pc \<Rightarrow> 'a spsc_ring \<Rightarrow> bool" where
  "producer_ok P_Idle r \<longleftrightarrow> True"
| "producer_ok (P_Reload call) r \<longleftrightarrow> True"
| "producer_ok (P_Check xs) r \<longleftrightarrow> block_fits r xs"
| "producer_ok (P_Copy xs k w) r \<longleftrightarrow> block_fits r xs \<and> copied r xs k"

fun consumer_ok :: "'a consumer_pc \<Rightarrow> 'a spsc_ring \<Rightarrow> bool" where
  "consumer_ok C_Idle r \<longleftrightarrow> True"
| "consumer_ok (C_Reload call) r \<longleftrightarrow> True"
| "consumer_ok (C_Check n) r \<longleftrightarrow> n \<le> pop_available r"
| "consumer_ok (C_Copy n out w) r \<longleftrightarrow> n \<le> pop_available r \<and> length out \<le> n \<and>
     out = take (length out) (spsc_items r)"

definition sys_inv :: "nat \<Rightarrow> 'a spsc_sys \<Rightarrow> bool" where
  "sys_inv n s \<longleftrightarrow> spsc_inv (ring s) \<and> spsc_cap (ring s) = n \<and>
     received s @ spsc_items (ring s) = sent s \<and>
     producer_ok (ppc s) (ring s) \<and> consumer_ok (cpc s) (ring s)"

section \<open>Facts about the ring used by the steps\<close>

lemma block_cell_mod:
  assumes inv: "spsc_inv r" and k: "k < spsc_cap r"
  shows "block_cell r pos k = (unat pos + k) mod spsc_cap r"
proof -
  have "unat pos mod spsc_cap r < spsc_cap r" using spsc_invD(3) [OF inv] by simp
  with k have "block_cell r pos k = (unat pos mod spsc_cap r + k) mod spsc_cap r"
    by (auto simp: block_cell_def Let_def spsc_index_mod [OF inv] spsc_cap_def mod_wrap)
  then show ?thesis by (simp add: mod_add_left_eq)
qed

lemma head_position:
  assumes inv: "spsc_inv r"
  shows "(unat (ring_tail r) + unat (ring_head r - ring_tail r)) mod spsc_cap r =
    unat (ring_head r) mod spsc_cap r"
  using unat_add_mod_dvd [of "spsc_cap r" "ring_tail r" "ring_head r - ring_tail r"]
    is_pow2_dvd_word [OF spsc_invD(1) [OF inv], of 64] spsc_invD(2) [OF inv] by simp

lemma items_write_free_cell:
  assumes inv: "spsc_inv r" and k: "length (spsc_items r) + k < spsc_cap r"
  shows "spsc_items (r\<lparr>buffer := (buffer r)[block_cell r (ring_head r) k := x]\<rparr>) = spsc_items r"
proof -
  let ?d = "unat (ring_head r - ring_tail r)"
  have "block_cell r (ring_head r) k = (unat (ring_head r) + k) mod spsc_cap r"
    using k by (intro block_cell_mod [OF inv]) simp
  also have "\<dots> = (unat (ring_head r) mod spsc_cap r + k) mod spsc_cap r"
    by (simp add: mod_add_left_eq)
  also have "\<dots> = (unat (ring_tail r) + (?d + k)) mod spsc_cap r"
    unfolding head_position [OF inv, symmetric] by (simp add: mod_add_left_eq add.assoc)
  finally show ?thesis
    using k cbuf_update_other [of "?d + k" "buffer r" ?d "unat (ring_tail r)" x]
    by (simp add: spsc_items_def spsc_cap_def)
qed

lemma items_store_head:
  assumes inv: "spsc_inv r" and fits: "block_fits r xs" and c: "copied r xs (length xs)"
  shows "spsc_items (r\<lparr>producer_head_cache := h, ring_head := ring_head r + of_nat (length xs)\<rparr>) =
    spsc_items r @ xs"
proof -
  let ?d = "unat (ring_head r - ring_tail r)"
  have "unat (ring_head r + of_nat (length xs) - ring_tail r) = ?d + length xs"
    using publish_head_diff [OF inv _ spsc_invD(7) [OF inv]] fits by (simp add: block_fits_def)
  moreover have "cbuf (buffer r) (unat (ring_tail r) + ?d) (length xs) = xs"
    using c cbuf_mod [of "buffer r" "unat (ring_tail r) + ?d" "length xs"]
      cbuf_mod [of "buffer r" "unat (ring_head r)" "length xs"] head_position [OF inv]
    by (simp add: copied_def spsc_cap_def)
  ultimately show ?thesis by (simp add: spsc_items_def cbuf_add)
qed

lemma inv_store_head:
  assumes inv: "spsc_inv r" and fits: "block_fits r xs"
  shows "spsc_inv (r\<lparr>producer_head_cache := ring_head r + of_nat (length xs),
    ring_head := ring_head r + of_nat (length xs)\<rparr>)"
proof -
  have "spsc_inv (publish xs r)" using publish_correct(1) [OF inv] fits by (simp add: block_fits_def)
  moreover have "length (buffer (publish xs r)) = length (buffer r)"
    using publish_correct(3) [OF inv] fits by (simp add: block_fits_def spsc_cap_def)
  ultimately show ?thesis by (simp add: spsc_inv_def publish_def spsc_cap_def)
qed

lemma copied_Suc:
  assumes inv: "spsc_inv r" and c: "copied r xs k" and k: "k < length xs" "k < spsc_cap r"
  shows "copied (r\<lparr>buffer := (buffer r)[block_cell r (ring_head r) k := xs ! k]\<rparr>) xs (Suc k)"
  using c k cbuf_push [of k "buffer r" "unat (ring_head r)" "xs ! k"]
  by (simp add: copied_def block_cell_mod [OF inv] spsc_cap_def take_Suc_conv_app_nth)

lemma read_item:
  assumes inv: "spsc_inv r" and k: "k < length (spsc_items r)"
  shows "buffer r ! block_cell r (ring_tail r) k = spsc_items r ! k"
proof -
  have "k < spsc_cap r" using k length_spsc_items_le [OF inv] by simp
  then show ?thesis
    using k by (simp add: block_cell_mod [OF inv] spsc_items_def nth_cbuf spsc_cap_def)
qed

lemma pop_available_le: "spsc_inv r \<Longrightarrow> pop_available r \<le> length (spsc_items r)"
  using consumer_avail [of r] spsc_invD(5) [of r] by (simp add: pop_available_def)

lemma items_length_le_view:
  "spsc_inv r \<Longrightarrow> length (spsc_items r) \<le> unat (ring_head r - producer_tail_cache r)"
  using spsc_invD(7) by (simp add: length_spsc_items)

section \<open>Preservation, thread by thread\<close>

text \<open>What each thread relies on survives the other thread's accesses.\<close>

lemma producer_ok_frame:
  assumes "producer_ok p r" and "buffer r' = buffer r" and "ring_head r' = ring_head r"
    and "producer_tail_cache r' = producer_tail_cache r"
  shows "producer_ok p r'"
  using assms by (cases p) (simp_all add: block_fits_def copied_def spsc_cap_def)

lemma consumer_ok_frame:
  assumes "consumer_ok p r" and "spsc_inv r" and "pop_available r' = pop_available r"
    and "spsc_items r' = spsc_items r @ xs"
  shows "consumer_ok p r'"
  using assms pop_available_le [OF assms(2)] by (cases p) auto

lemma sys_invD:
  assumes "sys_inv n s"
  shows "spsc_inv (ring s)" "spsc_cap (ring s) = n" "received s @ spsc_items (ring s) = sent s"
    "producer_ok (ppc s) (ring s)" "consumer_ok (cpc s) (ring s)"
  using assms by (simp_all add: sys_inv_def)

lemma push_block_fits:
  assumes inv: "spsc_inv r" and ok: "\<not> push_gives_up call r"
  shows "block_fits r (push_block call r)"
proof (cases call)
  case (Push x)
  then have "unat (ring_head r - producer_tail_cache r) \<noteq> spsc_cap r"
    using ok push_stale_iff [OF inv] by simp
  then show ?thesis using spsc_invD(8) [OF inv] Push by (simp add: block_fits_def)
next
  case (PushMany xs)
  then show ?thesis
    using producer_room [OF inv] spsc_invD(4,8) [OF inv]
    by (auto simp: block_fits_def push_room_def)
qed

lemma no_reload_no_give_up: "call \<noteq> PushMany [] \<Longrightarrow> \<not> push_must_reload call r \<Longrightarrow> \<not> push_gives_up call r"
  by (cases call) (auto simp: neq_Nil_conv)

lemma begin_push_inv: "sys_inv n s \<Longrightarrow> sys_inv n (begin_push call s)"
  using push_block_fits no_reload_no_give_up by (auto simp: sys_inv_def begin_push_def)

lemma refresh_tail_consumer_ok:
  "spsc_inv r \<Longrightarrow> consumer_ok p r \<Longrightarrow> consumer_ok p (r\<lparr>producer_tail_cache := t\<rparr>)"
  by (rule consumer_ok_frame [where xs = "[]"]) (simp_all add: pop_available_def spsc_simps)

lemma reload_tail_inv: "sys_inv n s \<Longrightarrow> sys_inv n (reload_tail call s)"
  using push_block_fits [OF spsc_inv_refresh_tail] spsc_inv_refresh_tail refresh_tail_consumer_ok
  by (auto simp: sys_inv_def reload_tail_def Let_def spsc_simps)

lemma check_empty_inv:
  assumes inv: "sys_inv n s" and pc: "ppc s = P_Check xs"
  shows "sys_inv n (check_empty arm xs s)"
proof -
  note I = sys_invD [OF inv]
  obtain b p where e: "producer_was_empty arm (ring_head (ring s)) (producer_tail_cache (ring s)) (ring s) =
      (b, (ring s)\<lparr>producer_tail_cache := p\<rparr>)"
    and inv2: "spsc_inv ((ring s)\<lparr>producer_tail_cache := p\<rparr>)"
    and le: "unat (ring_head (ring s) - p) \<le> unat (ring_head (ring s) - producer_tail_cache (ring s))"
    using producer_was_empty_cases [OF I(1), of arm] by blast
  have "block_fits ((ring s)\<lparr>producer_tail_cache := p\<rparr>) xs"
    using I(4) pc le by (simp add: block_fits_def spsc_simps)
  then show ?thesis
    using I inv2 refresh_tail_consumer_ok [OF I(1,5)]
    by (simp add: sys_inv_def check_empty_def spsc_invD(4) [OF I(1)] e spsc_simps copied_def)
qed

lemma copy_in_inv:
  assumes inv: "sys_inv n s" and pc: "ppc s = P_Copy xs k w" and k: "k < length xs"
  shows "sys_inv n (copy_in xs k w s)"
proof -
  note I = sys_invD [OF inv]
  let ?r' = "(ring s)\<lparr>buffer := (buffer (ring s))[block_cell (ring s) (ring_head (ring s)) k := xs ! k]\<rparr>"
  have fits: "block_fits (ring s) xs" and c: "copied (ring s) xs k" using I(4) pc by simp_all
  have room: "length (spsc_items (ring s)) + k < spsc_cap (ring s)"
    using fits k items_length_le_view [OF I(1)] by (simp add: block_fits_def)
  have items: "spsc_items ?r' = spsc_items (ring s)" by (rule items_write_free_cell [OF I(1) room])
  have "spsc_inv ?r'" using I(1) by (simp add: spsc_inv_def spsc_cap_def)
  moreover have "copied ?r' xs (Suc k)" using copied_Suc [OF I(1) c k] room by simp
  moreover have "block_fits ?r' xs" using fits by (simp add: block_fits_def spsc_cap_def)
  moreover have "consumer_ok (cpc s) ?r'"
    by (rule consumer_ok_frame [OF I(5,1), where xs = "[]"]) (simp_all add: items pop_available_def)
  moreover have "spsc_cap ?r' = n" using I(2) by (simp add: spsc_cap_def)
  ultimately show ?thesis
    using I(3) items by (simp add: sys_inv_def copy_in_def spsc_invD(4) [OF I(1)])
qed

lemma store_head_inv:
  assumes inv: "sys_inv n s" and pc: "ppc s = P_Copy xs (length xs) w"
  shows "sys_inv n (store_head xs w s)"
proof -
  note I = sys_invD [OF inv]
  let ?h = "ring_head (ring s) + of_nat (length xs)"
  let ?r' = "(ring s)\<lparr>producer_head_cache := ?h, ring_head := ?h\<rparr>"
  have fits: "block_fits (ring s) xs" and c: "copied (ring s) xs (length xs)" using I(4) pc by simp_all
  have items: "spsc_items ?r' = spsc_items (ring s) @ xs" by (rule items_store_head [OF I(1) fits c])
  moreover have "spsc_inv ?r'" by (rule inv_store_head [OF I(1) fits])
  moreover have "consumer_ok (cpc s) ?r'"
    by (rule consumer_ok_frame [OF I(5,1) _ items]) (simp add: pop_available_def)
  moreover have "spsc_cap ?r' = n" using I(2) by (simp add: spsc_cap_def)
  moreover have "consumer_ok p (r\<lparr>signals := m\<rparr>) = consumer_ok p r" for p :: "'a consumer_pc" and r m
    by (cases p) (simp_all add: pop_available_def spsc_simps)
  ultimately show ?thesis
    using I(3) by (simp add: sys_inv_def store_head_def Let_def spsc_invD(4) [OF I(1)]
      signal_event_def spsc_simps)
qed

lemma pop_gives_up_iff:
  assumes inv: "spsc_inv r" and ok: "\<not> pop_gives_up call r"
  shows "pop_count call r \<le> pop_available r"
proof (cases call)
  case Pop
  then have "consumer_head_cache r \<noteq> consumer_tail_cache r" using ok by auto
  then have "pop_available r \<noteq> 0" by (simp add: pop_available_def unat_eq_zero)
  then show ?thesis using Pop by simp
qed auto

lemma no_reload_no_give_up_pop: "call \<noteq> PopMany 0 \<Longrightarrow> \<not> pop_must_reload call r \<Longrightarrow> \<not> pop_gives_up call r"
  by (cases call) auto

lemma begin_pop_inv: "sys_inv n s \<Longrightarrow> sys_inv n (begin_pop call s)"
  using pop_gives_up_iff no_reload_no_give_up_pop by (auto simp: sys_inv_def begin_pop_def)

lemma refresh_head_producer_ok: "producer_ok p r \<Longrightarrow> producer_ok p (r\<lparr>consumer_head_cache := c\<rparr>)"
  by (rule producer_ok_frame) simp_all

lemma reload_head_inv: "sys_inv n s \<Longrightarrow> sys_inv n (reload_head call s)"
  using pop_gives_up_iff [OF spsc_inv_refresh_head] spsc_inv_refresh_head refresh_head_producer_ok
  by (auto simp: sys_inv_def reload_head_def Let_def spsc_simps)

lemma check_full_inv:
  assumes inv: "sys_inv n s" and pc: "cpc s = C_Check m"
  shows "sys_inv n (check_full arm m s)"
proof -
  note I = sys_invD [OF inv]
  obtain b c where e: "consumer_was_full arm (consumer_head_cache (ring s)) (ring_tail (ring s)) (ring s) =
      (b, (ring s)\<lparr>consumer_head_cache := c\<rparr>)"
    and inv2: "spsc_inv ((ring s)\<lparr>consumer_head_cache := c\<rparr>)"
    and le: "unat (consumer_head_cache (ring s) - ring_tail (ring s)) \<le> unat (c - ring_tail (ring s))"
    using consumer_was_full_cases [OF I(1), of arm] by blast
  have "m \<le> pop_available ((ring s)\<lparr>consumer_head_cache := c\<rparr>)"
    using I(5) pc le spsc_invD(5) [OF I(1)] by (simp add: pop_available_def)
  then show ?thesis
    using I inv2 refresh_head_producer_ok [OF I(4)]
    by (simp add: sys_inv_def check_full_def spsc_invD(5) [OF I(1)] e spsc_simps)
qed

lemma copy_out_inv:
  assumes inv: "sys_inv n s" and pc: "cpc s = C_Copy m out w" and lt: "length out < m"
  shows "sys_inv n (copy_out m out w s)"
proof -
  note I = sys_invD [OF inv]
  have len: "length out < length (spsc_items (ring s))"
    using I(5) pc lt pop_available_le [OF I(1)] by simp
  have "out = take (length out) (spsc_items (ring s))" using I(5) pc by simp
  then have "out @ [spsc_items (ring s) ! length out] =
      take (Suc (length out)) (spsc_items (ring s))"
    using take_Suc_conv_app_nth [OF len] by simp
  then show ?thesis
    using I pc lt len
    by (simp add: sys_inv_def copy_out_def spsc_invD(5) [OF I(1)] read_item [OF I(1) len])
qed

lemma store_tail_inv:
  assumes inv: "sys_inv n s" and pc: "cpc s = C_Copy (length out) out w"
  shows "sys_inv n (store_tail (length out) out w s)"
proof -
  note I = sys_invD [OF inv]
  have le: "length out \<le> unat (consumer_head_cache (ring s) - ring_tail (ring s))"
    and out: "out = take (length out) (spsc_items (ring s))"
    using I(5) pc spsc_invD(5) [OF I(1)] by (simp_all add: pop_available_def)
  note R = release_correct [OF I(1) le]
  have "out @ drop (length out) (spsc_items (ring s)) = spsc_items (ring s)"
    using out append_take_drop_id by metis
  moreover have "producer_ok (ppc s) (release (length out) (ring s))"
    by (rule producer_ok_frame [OF I(4)]) (simp_all add: release_def)
  moreover have "producer_ok p (r\<lparr>signals := k\<rparr>) = producer_ok p r" for p :: "'a producer_pc" and r k
    by (cases p) (simp_all add: block_fits_def copied_def spsc_cap_def)
  moreover have "ring (store_tail (length out) out w s) =
      (if w then signal_event (release (length out) (ring s)) else release (length out) (ring s))"
    by (simp add: store_tail_def Let_def release_def spsc_invD(5) [OF I(1)])
  ultimately show ?thesis
    using R I(2,3) by (simp add: sys_inv_def signal_event_def spsc_simps) (simp add: store_tail_def Let_def)
qed

lemma spsc_step_inv: "spsc_step arm s s' \<Longrightarrow> sys_inv n s \<Longrightarrow> sys_inv n s'"
proof (induction rule: spsc_step.induct)
  case (store_head s xs k w)
  then show ?case using store_head_inv by blast
next
  case (store_tail s n out w)
  then show ?case using store_tail_inv by blast
qed (auto intro: begin_push_inv reload_tail_inv check_empty_inv copy_in_inv
      begin_pop_inv reload_head_inv check_full_inv copy_out_inv)

lemma spsc_reachable_inv:
  assumes "is_pow2 (length storage)" and "length storage < 2 ^ 63"
  shows "spsc_reachable arm storage s \<Longrightarrow> sys_inv (length storage) s"
proof (induction rule: spsc_reachable.induct)
  case start
  show ?case using spsc_inv_new [OF assms] by (simp add: sys_inv_def spsc_start_def)
next
  case (step s s')
  then show ?case using spsc_step_inv by blast
qed

section \<open>Properties\<close>

text \<open>C1: In every interleaving of the producer's and the consumer's accesses, at every moment,
  the items delivered so far followed by the items in the ring are the items accepted so far:
  nothing is lost, duplicated, reordered or torn, and the ring holds at most its capacity.\<close>
theorem spsc_concurrent_fifo:
  assumes "is_pow2 (length storage)" and "length storage < 2 ^ 63"
    and "spsc_reachable arm storage s"
  shows "received s @ spsc_items (ring s) = sent s \<and>
    length (spsc_items (ring s)) \<le> length storage"
  using sys_invD(1,2,3) [OF spsc_reachable_inv [OF assms]] length_spsc_items_le [of "ring s"] by simp

text \<open>C2: The producer and the consumer never work on the same cell: whenever one is about to
  write a cell and the other about to read one, the two cells are different. The array needs no
  synchronisation of its own.\<close>
theorem spsc_no_data_race:
  assumes "is_pow2 (length storage)" and "length storage < 2 ^ 63"
    and "spsc_reachable arm storage s"
    and "ppc s = P_Copy xs k w" and "k < length xs"
    and "cpc s = C_Copy n out w'" and "length out < n"
  shows "block_cell (ring s) (producer_head_cache (ring s)) k \<noteq>
    block_cell (ring s) (consumer_tail_cache (ring s)) (length out)"
proof -
  let ?r = "ring s"
  note I = sys_invD [OF spsc_reachable_inv [OF assms(1-3)]]
  have room: "length (spsc_items ?r) + k < spsc_cap ?r"
    using I(4) assms(4,5) items_length_le_view [OF I(1)] by (simp add: block_fits_def)
  have len: "length out < length (spsc_items ?r)"
    using I(5) assms(6,7) pop_available_le [OF I(1)] by simp
  have shift: "(unat (ring_tail ?r) + (length (spsc_items ?r) + k)) mod spsc_cap ?r =
      (unat (ring_head ?r) + k) mod spsc_cap ?r"
    using mod_add_cong [OF head_position [OF I(1)] refl, of k]
    by (simp only: length_spsc_items add.assoc)
  show ?thesis
  proof
    assume eq: "block_cell ?r (producer_head_cache ?r) k = block_cell ?r (consumer_tail_cache ?r) (length out)"
    have k: "k < spsc_cap ?r" and o: "length out < spsc_cap ?r" using room len by linarith+
    have "(unat (ring_head ?r) + k) mod spsc_cap ?r = (unat (ring_tail ?r) + length out) mod spsc_cap ?r"
      using eq unfolding spsc_invD(4,5) [OF I(1)] block_cell_mod [OF I(1) k] block_cell_mod [OF I(1) o] .
    then have "(unat (ring_tail ?r) + (length (spsc_items ?r) + k)) mod spsc_cap ?r =
        (unat (ring_tail ?r) + length out) mod spsc_cap ?r"
      unfolding shift .
    from mod_add_inj [OF room o this] len show False by linarith
  qed
qed

text \<open>A run of two pushes with a pop under way, on a ring of two cells.\<close>

definition demo_pushed :: "nat spsc_sys" where
  "demo_pushed = store_head [7] True (copy_in [7] 0 True (check_empty False [7]
     (begin_push (Push 7) (spsc_start [0, 0]))))"

definition demo_racing :: "nat spsc_sys" where
  "demo_racing = check_full False 1 (reload_head Pop (begin_pop Pop
     (check_empty False [8] (begin_push (Push 8) demo_pushed))))"

lemma demo_pushed_reachable: "spsc_reachable False [0, 0] demo_pushed"
proof -
  let ?s1 = "begin_push (Push 7) (spsc_start [0, 0 :: nat])"
  let ?s2 = "check_empty False [7] ?s1"
  let ?s3 = "copy_in [7] 0 True ?s2"
  have "spsc_step False (spsc_start [0, 0]) ?s1" by (rule spsc_step.begin_push) code_simp
  note r = spsc_reachable.step [OF spsc_reachable.start this]
  have "spsc_step False ?s1 ?s2" by (rule spsc_step.check_empty) code_simp
  note r = spsc_reachable.step [OF r this]
  have "spsc_step False ?s2 ?s3" by (rule spsc_step.copy_in) code_simp+
  note r = spsc_reachable.step [OF r this]
  have "spsc_step False ?s3 demo_pushed"
    unfolding demo_pushed_def by (rule spsc_step.store_head [where k = 1]) code_simp+
  from spsc_reachable.step [OF r this] show ?thesis .
qed

lemma demo_racing_reachable: "spsc_reachable False [0, 0] demo_racing"
proof -
  let ?s1 = "begin_push (Push 8) demo_pushed"
  let ?s2 = "check_empty False [8] ?s1"
  let ?s3 = "begin_pop Pop ?s2"
  let ?s4 = "reload_head Pop ?s3"
  have "spsc_step False demo_pushed ?s1" by (rule spsc_step.begin_push) code_simp
  note r = spsc_reachable.step [OF demo_pushed_reachable this]
  have "spsc_step False ?s1 ?s2" by (rule spsc_step.check_empty) code_simp
  note r = spsc_reachable.step [OF r this]
  have "spsc_step False ?s2 ?s3" by (rule spsc_step.begin_pop) code_simp
  note r = spsc_reachable.step [OF r this]
  have "spsc_step False ?s3 ?s4" by (rule spsc_step.reload_head) code_simp
  note r = spsc_reachable.step [OF r this]
  have "spsc_step False ?s4 demo_racing"
    unfolding demo_racing_def by (rule spsc_step.check_full) code_simp
  from spsc_reachable.step [OF r this] show ?thesis .
qed

lemma spsc_concurrent_fifo_witness:
  "received demo_racing @ spsc_items (ring demo_racing) = [7]"
proof -
  have "sent demo_racing = [7]" by code_simp
  then show ?thesis using spsc_concurrent_fifo [OF _ _ demo_racing_reachable] by simp
qed

lemma spsc_no_data_race_witness:
  "block_cell (ring demo_racing) (producer_head_cache (ring demo_racing)) 0 \<noteq>
   block_cell (ring demo_racing) (consumer_tail_cache (ring demo_racing)) 0"
proof -
  have p: "ppc demo_racing = P_Copy [8] 0 False" by code_simp
  have c: "cpc demo_racing = C_Copy 1 [] False" by code_simp
  show ?thesis using spsc_no_data_race [OF _ _ demo_racing_reachable p _ c] by simp
qed

end
