(* ===== verification/Slot_Ring.thy ===== *)
theory Slot_Ring
  imports Prelude
begin

text \<open>
  The slot protocol shared by \<open>MpscRing\<close>, \<open>MpscTicketRing\<close> and \<open>MpmcQueue\<close>
  (\<open>src/src/concurrency/mpsc_ring.hpp\<close>, \<open>mpsc_ticket_ring.hpp\<close>, \<open>mpmc_queue.hpp\<close>): every slot
  carries a sequence number that says whose turn it is. This theory has the state, the accesses
  the calls of the three classes are made of, and the invariant all these accesses keep. Any
  number of threads run; each access to a shared location is one step. \<open>accepted\<close> lists the
  items by ticket, \<open>delivered\<close> the completed pops with their tickets. The three step relations
  are in the theory of the queues.
\<close>

section \<open>State\<close>

record 'a slot =
  seq :: u64
  data :: 'a

datatype 'a slot_pc =
    Idle
  | Try_Seq u64 'a
  | Try_Cas u64 'a
  | Push_Wait u64 "'a list"
  | Push_Write u64 "'a list"
  | Push_Publish u64 "'a list"
  | Pop_Check u64
  | Pop_Read u64
  | Pop_Release u64 'a
  | Pop_Advance u64 'a

record 'a slot_ring =
  enqueue_pos :: u64
  dequeue_pos :: u64
  slots :: "'a slot list"
  pcs :: "nat \<Rightarrow> 'a slot_pc"
  accepted :: "'a list"
  delivered :: "(u64 \<times> 'a) list"

definition slot_capacity :: "('a, 'z) slot_ring_scheme \<Rightarrow> nat" where
  "slot_capacity s = length (slots s)"

definition slot_index :: "('a, 'z) slot_ring_scheme \<Rightarrow> u64 \<Rightarrow> nat" where
  "slot_index s pos = unat (pos AND (of_nat (slot_capacity s) - 1))"

definition slot_at :: "('a, 'z) slot_ring_scheme \<Rightarrow> u64 \<Rightarrow> 'a slot" where
  "slot_at s pos = slots s ! slot_index s pos"

definition init_slots :: "'a list \<Rightarrow> 'a slot list" where
  "init_slots storage = map (\<lambda>i. \<lparr>seq = of_nat i, data = storage ! i\<rparr>) [0..<length storage]"

definition slot_ring_new :: "'a list \<Rightarrow> 'a slot_ring" where
  "slot_ring_new storage =
     \<lparr>enqueue_pos = 0, dequeue_pos = 0, slots = init_slots storage, pcs = (\<lambda>_. Idle),
      accepted = [], delivered = []\<rparr>"

definition goto :: "nat \<Rightarrow> 'a slot_pc \<Rightarrow> 'a slot_ring \<Rightarrow> 'a slot_ring" where
  "goto t pc s = s\<lparr>pcs := (pcs s)(t := pc)\<rparr>"

definition set_seq :: "u64 \<Rightarrow> u64 \<Rightarrow> 'a slot_ring \<Rightarrow> 'a slot_ring" where
  "set_seq pos q s = s\<lparr>slots := (slots s)[slot_index s pos := (slot_at s pos)\<lparr>seq := q\<rparr>]\<rparr>"

definition set_data :: "u64 \<Rightarrow> 'a \<Rightarrow> 'a slot_ring \<Rightarrow> 'a slot_ring" where
  "set_data pos x s = s\<lparr>slots := (slots s)[slot_index s pos := (slot_at s pos)\<lparr>data := x\<rparr>]\<rparr>"

text \<open>\<open>reset\<close> puts the counters and the sequence numbers back; the items stay in the slots.\<close>

definition slot_ring_reset :: "'a slot_ring \<Rightarrow> 'a slot_ring" where
  "slot_ring_reset s = s\<lparr>enqueue_pos := 0, dequeue_pos := 0,
     slots := map (\<lambda>i. (slots s ! i)\<lparr>seq := of_nat i\<rparr>) [0..<slot_capacity s]\<rparr>"

section \<open>Accesses of the pushing calls\<close>

text \<open>\<open>fetch_add\<close> on the enqueue counter takes one ticket per item.\<close>

definition take_push_tickets :: "nat \<Rightarrow> 'a list \<Rightarrow> 'a slot_ring \<Rightarrow> 'a slot_ring" where
  "take_push_tickets t xs s =
     (if xs = [] then s
      else goto t (Push_Wait (enqueue_pos s) xs)
        (s\<lparr>enqueue_pos := enqueue_pos s + of_nat (length xs), accepted := accepted s @ xs\<rparr>))"

text \<open>One turn of the waiting loop: the sequence number is read until it equals the ticket.\<close>

definition wait_turn :: "nat \<Rightarrow> u64 \<Rightarrow> 'a list \<Rightarrow> 'a slot_ring \<Rightarrow> 'a slot_ring" where
  "wait_turn t pos xs s =
     (if seq (slot_at s pos) = pos then goto t (Push_Write pos xs) s else s)"

definition write_item :: "nat \<Rightarrow> u64 \<Rightarrow> 'a list \<Rightarrow> 'a slot_ring \<Rightarrow> 'a slot_ring" where
  "write_item t pos xs s = goto t (Push_Publish pos xs) (set_data pos (hd xs) s)"

definition publish_item :: "nat \<Rightarrow> u64 \<Rightarrow> 'a list \<Rightarrow> 'a slot_ring \<Rightarrow> 'a slot_ring" where
  "publish_item t pos xs s =
     goto t (if tl xs = [] then Idle else Push_Wait (pos + 1) (tl xs)) (set_seq pos (pos + 1) s)"

text \<open>The compare-and-swap loop of \<open>try_push\<close>: load the counter, compare the slot's sequence
  number, claim; a failed claim continues with the counter it read.\<close>

definition seq_diff :: "u64 \<Rightarrow> u64 \<Rightarrow> int" where
  "seq_diff q pos = sint q - sint pos"

definition load_enqueue_pos :: "nat \<Rightarrow> 'a \<Rightarrow> 'a slot_ring \<Rightarrow> 'a slot_ring" where
  "load_enqueue_pos t x s = goto t (Try_Seq (enqueue_pos s) x) s"

definition try_seq :: "nat \<Rightarrow> u64 \<Rightarrow> 'a \<Rightarrow> 'a slot_ring \<Rightarrow> 'a slot_ring" where
  "try_seq t pos x s =
     (let diff = seq_diff (seq (slot_at s pos)) pos
      in if diff = 0 then goto t (Try_Cas pos x) s
         else if diff < 0 then goto t Idle s
         else goto t (Try_Seq (enqueue_pos s) x) s)"

definition try_cas :: "nat \<Rightarrow> u64 \<Rightarrow> 'a \<Rightarrow> 'a slot_ring \<Rightarrow> 'a slot_ring" where
  "try_cas t pos x s =
     (if enqueue_pos s = pos
      then goto t (Push_Write pos [x]) (s\<lparr>enqueue_pos := pos + 1, accepted := accepted s @ [x]\<rparr>)
      else goto t (Try_Seq (enqueue_pos s) x) s)"

section \<open>Accesses of the popping calls\<close>

definition take_pop_ticket :: "nat \<Rightarrow> 'a slot_ring \<Rightarrow> 'a slot_ring" where
  "take_pop_ticket t s =
     goto t (Pop_Check (dequeue_pos s)) (s\<lparr>dequeue_pos := dequeue_pos s + 1\<rparr>)"

definition await_item :: "nat \<Rightarrow> u64 \<Rightarrow> 'a slot_ring \<Rightarrow> 'a slot_ring" where
  "await_item t pos s =
     (if seq (slot_at s pos) = pos + 1 then goto t (Pop_Read pos) s else s)"

definition read_item :: "nat \<Rightarrow> u64 \<Rightarrow> 'a slot_ring \<Rightarrow> 'a slot_ring" where
  "read_item t pos s = goto t (Pop_Release pos (data (slot_at s pos))) s"

definition release_slot :: "nat \<Rightarrow> u64 \<Rightarrow> 'a \<Rightarrow> 'a slot_ring \<Rightarrow> 'a slot_ring" where
  "release_slot t pos out s =
     goto t Idle (set_seq pos (pos + of_nat (slot_capacity s)) s)
       \<lparr>delivered := delivered s @ [(pos, out)]\<rparr>"

text \<open>With a single consumer the ticket is the counter itself, stored back after the slot.\<close>

definition load_dequeue_pos :: "nat \<Rightarrow> 'a slot_ring \<Rightarrow> 'a slot_ring" where
  "load_dequeue_pos t s = goto t (Pop_Check (dequeue_pos s)) s"

definition check_item :: "nat \<Rightarrow> u64 \<Rightarrow> 'a slot_ring \<Rightarrow> 'a slot_ring" where
  "check_item t pos s =
     (if seq_diff (seq (slot_at s pos)) (pos + 1) \<noteq> 0 then goto t Idle s
      else goto t (Pop_Read pos) s)"

definition release_slot_single :: "nat \<Rightarrow> u64 \<Rightarrow> 'a \<Rightarrow> 'a slot_ring \<Rightarrow> 'a slot_ring" where
  "release_slot_single t pos out s =
     goto t (Pop_Advance pos out) (set_seq pos (pos + of_nat (slot_capacity s)) s)"

definition advance_dequeue_pos :: "nat \<Rightarrow> u64 \<Rightarrow> 'a \<Rightarrow> 'a slot_ring \<Rightarrow> 'a slot_ring" where
  "advance_dequeue_pos t pos out s =
     goto t Idle (s\<lparr>dequeue_pos := pos + 1, delivered := delivered s @ [(pos, out)]\<rparr>)"

definition slot_ring_size :: "'a slot_ring \<Rightarrow> nat" where
  "slot_ring_size s =
     (let diff = sint (enqueue_pos s - dequeue_pos s)
      in if diff \<le> 0 then 0
         else let n = nat diff in if n > slot_capacity s then slot_capacity s else n)"

section \<open>Invariant\<close>

text \<open>The tickets a pushing thread holds: its position and the ones that follow, one per item.\<close>

fun push_claim :: "'a slot_pc \<Rightarrow> (u64 \<times> 'a list) option" where
  "push_claim (Push_Wait p xs) = Some (p, xs)"
| "push_claim (Push_Write p xs) = Some (p, xs)"
| "push_claim (Push_Publish p xs) = Some (p, xs)"
| "push_claim _ = None"

fun pop_claim :: "'a slot_pc \<Rightarrow> u64 option" where
  "pop_claim (Pop_Check p) = Some p"
| "pop_claim (Pop_Read p) = Some p"
| "pop_claim (Pop_Release p v) = Some p"
| "pop_claim (Pop_Advance p v) = Some p"
| "pop_claim _ = None"

definition claim_range :: "u64 \<times> 'a list \<Rightarrow> nat set" where
  "claim_range c = {unat (fst c) ..< unat (fst c) + length (snd c)}"

definition claim_ok :: "'a slot_ring \<Rightarrow> u64 \<times> 'a list \<Rightarrow> bool" where
  "claim_ok s c \<longleftrightarrow> snd c \<noteq> [] \<and> unat (fst c) + length (snd c) \<le> unat (enqueue_pos s) \<and>
     take (length (snd c)) (drop (unat (fst c)) (accepted s)) = snd c"

text \<open>What a thread may rely on at each point of its call.\<close>

fun pc_ok :: "'a slot_ring \<Rightarrow> 'a slot_pc \<Rightarrow> bool" where
  "pc_ok s (Try_Seq p x) \<longleftrightarrow> p \<le> enqueue_pos s"
| "pc_ok s (Try_Cas p x) \<longleftrightarrow> p < enqueue_pos s \<or> p = enqueue_pos s \<and> seq (slot_at s p) = p"
| "pc_ok s (Push_Write p xs) \<longleftrightarrow> seq (slot_at s p) = p"
| "pc_ok s (Push_Publish p xs) \<longleftrightarrow> seq (slot_at s p) = p \<and> data (slot_at s p) = hd xs"
| "pc_ok s (Pop_Read p) \<longleftrightarrow> seq (slot_at s p) = p + 1"
| "pc_ok s (Pop_Release p v) \<longleftrightarrow> seq (slot_at s p) = p + 1 \<and> p < enqueue_pos s \<and>
     v = accepted s ! unat p"
| "pc_ok s (Pop_Advance p v) \<longleftrightarrow> p < enqueue_pos s \<and> v = accepted s ! unat p"
| "pc_ok s _ \<longleftrightarrow> True"

text \<open>A slot whose sequence number is one above a ticket holds that ticket's item.\<close>

definition full_slots_ok :: "'a slot_ring \<Rightarrow> bool" where
  "full_slots_ok s \<longleftrightarrow> (\<forall>p. seq (slot_at s p) = p + 1 \<longrightarrow>
     p < enqueue_pos s \<and> data (slot_at s p) = accepted s ! unat p)"

definition slot_inv :: "'a slot_ring \<Rightarrow> bool" where
  "slot_inv s \<longleftrightarrow> is_pow2 (slot_capacity s) \<and> 2 \<le> slot_capacity s \<and> slot_capacity s < 2 ^ 64 \<and>
     length (accepted s) = unat (enqueue_pos s) \<and>
     full_slots_ok s \<and>
     (\<forall>t. pc_ok s (pcs s t)) \<and>
     (\<forall>t c. push_claim (pcs s t) = Some c \<longrightarrow> claim_ok s c) \<and>
     (\<forall>t u c d. t \<noteq> u \<longrightarrow> push_claim (pcs s t) = Some c \<longrightarrow> push_claim (pcs s u) = Some d \<longrightarrow>
        claim_range c \<inter> claim_range d = {}) \<and>
     (\<forall>t u p. t \<noteq> u \<longrightarrow> pop_claim (pcs s t) = Some p \<longrightarrow> pop_claim (pcs s u) \<noteq> Some p) \<and>
     (\<forall>p v. (p, v) \<in> set (delivered s) \<longrightarrow> p < enqueue_pos s \<and> v = accepted s ! unat p)"

section \<open>Slots and indices\<close>

lemma slot_simps [simp]:
  "slot_capacity (goto t pc s) = slot_capacity s" "slot_at (goto t pc s) p = slot_at s p"
  "enqueue_pos (goto t pc s) = enqueue_pos s" "dequeue_pos (goto t pc s) = dequeue_pos s"
  "accepted (goto t pc s) = accepted s" "delivered (goto t pc s) = delivered s"
  "slots (goto t pc s) = slots s" "pcs (goto t pc s) = (pcs s)(t := pc)"
  by (simp_all add: goto_def slot_capacity_def slot_at_def slot_index_def)

lemma set_simps [simp]:
  "slot_capacity (set_seq p q s) = slot_capacity s" "slot_capacity (set_data p x s) = slot_capacity s"
  "enqueue_pos (set_seq p q s) = enqueue_pos s" "enqueue_pos (set_data p x s) = enqueue_pos s"
  "dequeue_pos (set_seq p q s) = dequeue_pos s" "dequeue_pos (set_data p x s) = dequeue_pos s"
  "accepted (set_seq p q s) = accepted s" "accepted (set_data p x s) = accepted s"
  "delivered (set_seq p q s) = delivered s" "delivered (set_data p x s) = delivered s"
  "pcs (set_seq p q s) = pcs s" "pcs (set_data p x s) = pcs s"
  by (simp_all add: set_seq_def set_data_def slot_capacity_def)

lemma slot_at_cong: "slots s' = slots s \<Longrightarrow> slot_at s' p = slot_at s p"
  by (simp add: slot_at_def slot_index_def slot_capacity_def)

lemma slot_index_cong: "slot_capacity s' = slot_capacity s \<Longrightarrow> slot_index s' p = slot_index s p"
  by (simp add: slot_index_def)

definition good_capacity :: "('a, 'z) slot_ring_scheme \<Rightarrow> bool" where
  "good_capacity s \<longleftrightarrow> is_pow2 (slot_capacity s) \<and> 2 \<le> slot_capacity s \<and> slot_capacity s < 2 ^ 64"

lemma slot_index_mod: "good_capacity s \<Longrightarrow> slot_index s p = unat p mod slot_capacity s"
  by (simp add: slot_index_def good_capacity_def unat_and_mask)

lemma slot_index_lt: "good_capacity s \<Longrightarrow> slot_index s p < length (slots s)"
proof -
  assume g: "good_capacity s"
  then have "0 < slot_capacity s" by (simp add: good_capacity_def)
  from mod_less_divisor [OF this] show ?thesis
    by (simp only: slot_index_mod [OF g] slot_capacity_def)
qed

lemma slot_index_add:
  assumes "good_capacity s"
  shows "slot_index s (p + q) = (unat p + unat q) mod slot_capacity s"
  using assms unat_add_mod_dvd [of "slot_capacity s" p q] is_pow2_dvd_word [of "slot_capacity s" 64]
  by (simp add: slot_index_mod good_capacity_def)

lemma slot_index_succ:
  assumes g: "good_capacity s"
  shows "slot_index s (p + 1) \<noteq> slot_index s p"
proof
  assume "slot_index s (p + 1) = slot_index s p"
  then have "(unat p + 1) mod slot_capacity s = (unat p + 0) mod slot_capacity s"
    using slot_index_add [OF g, of p 1] by (simp add: slot_index_mod [OF g])
  moreover have "1 < slot_capacity s" using g by (simp add: good_capacity_def)
  ultimately have "(unat p + 1) - (unat p + 0) = 0"
    by (metis add_diff_cancel_left' diff_zero dvd_imp_le mod_eq_dvd_iff_nat le_add1 add_0_right
        not_le zero_less_one)
  then show False by simp
qed

lemma slot_index_capacity:
  assumes g: "good_capacity s"
  shows "slot_index s (p + of_nat (slot_capacity s)) = slot_index s p"
  using slot_index_add [OF g, of p "of_nat (slot_capacity s)"] g
  by (simp add: slot_index_mod [OF g] unat_of_nat good_capacity_def)

lemma slot_at_set_seq:
  assumes "good_capacity s"
  shows "slot_at (set_seq p q s) p' =
    (if slot_index s p' = slot_index s p then (slot_at s p)\<lparr>seq := q\<rparr> else slot_at s p')"
  using slot_index_lt [OF assms, of p]
  by (simp add: slot_at_def [of "set_seq p q s"] slot_index_cong [of "set_seq p q s" s])
    (simp add: set_seq_def slot_at_def)

lemma slot_at_set_data:
  assumes "good_capacity s"
  shows "slot_at (set_data p x s) p' =
    (if slot_index s p' = slot_index s p then (slot_at s p)\<lparr>data := x\<rparr> else slot_at s p')"
  using slot_index_lt [OF assms, of p]
  by (simp add: slot_at_def [of "set_data p x s"] slot_index_cong [of "set_data p x s" s])
    (simp add: set_data_def slot_at_def)

lemma slot_at_same: "slot_index s p' = slot_index s p \<Longrightarrow> slot_at s p' = slot_at s p"
  by (simp add: slot_at_def)

lemma not_free_and_full:
  assumes "good_capacity s" and "slot_index s p' = slot_index s p" and "q = p"
  shows "q \<noteq> p' + 1"
  using slot_index_succ [OF assms(1), of p'] assms(2,3) by auto

lemma not_recycled_and_full:
  assumes g: "good_capacity s" and i: "slot_index s p' = slot_index s p"
  shows "p + of_nat (slot_capacity s) \<noteq> p' + 1"
  using slot_index_succ [OF g, of p'] slot_index_capacity [OF g, of p] i by metis

section \<open>Preservation\<close>

lemma slot_invD:
  assumes "slot_inv s"
  shows "good_capacity s" "length (accepted s) = unat (enqueue_pos s)" "full_slots_ok s"
    "pc_ok s (pcs s t)" "push_claim (pcs s t) = Some c \<Longrightarrow> claim_ok s c"
    "t \<noteq> u \<Longrightarrow> push_claim (pcs s t) = Some c \<Longrightarrow> push_claim (pcs s u) = Some d \<Longrightarrow>
      claim_range c \<inter> claim_range d = {}"
    "t \<noteq> u \<Longrightarrow> pop_claim (pcs s t) = Some p \<Longrightarrow> pop_claim (pcs s u) \<noteq> Some p"
    "(p, v) \<in> set (delivered s) \<Longrightarrow> p < enqueue_pos s \<and> v = accepted s ! unat p"
  using assms unfolding slot_inv_def good_capacity_def by blast+

lemma pc_ok_cong:
  assumes "\<And>p. slot_at s' p = slot_at s p" and "enqueue_pos s' = enqueue_pos s"
    and "accepted s' = accepted s"
  shows "pc_ok s' pc = pc_ok s pc" "claim_ok s' c = claim_ok s c" "full_slots_ok s' = full_slots_ok s"
  by (cases pc; simp add: assms) (simp_all only: claim_ok_def full_slots_ok_def assms)

lemma pc_ok_goto [simp]:
  "pc_ok (goto t pc s) pc' = pc_ok s pc'" "claim_ok (goto t pc s) c = claim_ok s c"
  "full_slots_ok (goto t pc s) = full_slots_ok s" "good_capacity (goto t pc s) = good_capacity s"
  by (rule pc_ok_cong; simp)+ (simp only: good_capacity_def slot_simps)

text \<open>The conditions under which one thread's access, leading from \<open>s\<close> to \<open>s'\<close> and to the point
  \<open>pc\<close>, keeps the invariant: the shared part, what the others rely on, and the claims.\<close>

lemma slot_inv_goto:
  assumes inv: "slot_inv s"
    and shared: "good_capacity s'" "length (accepted s') = unat (enqueue_pos s')" "full_slots_ok s'"
    and pcs: "pcs s' = pcs s"
    and others: "\<And>u. u \<noteq> t \<Longrightarrow> pc_ok s' (pcs s u)"
      "\<And>u c. u \<noteq> t \<Longrightarrow> push_claim (pcs s u) = Some c \<Longrightarrow> claim_ok s' c"
    and own: "pc_ok s' pc" "\<And>c. push_claim pc = Some c \<Longrightarrow> claim_ok s' c"
    and push: "\<And>u c d. u \<noteq> t \<Longrightarrow> push_claim pc = Some c \<Longrightarrow> push_claim (pcs s u) = Some d \<Longrightarrow>
      claim_range c \<inter> claim_range d = {}"
    and pop: "\<And>u p. u \<noteq> t \<Longrightarrow> pop_claim pc = Some p \<Longrightarrow> pop_claim (pcs s u) \<noteq> Some p"
    and del: "\<And>p v. (p, v) \<in> set (delivered s') \<Longrightarrow> p < enqueue_pos s' \<and> v = accepted s' ! unat p"
  shows "slot_inv (goto t pc s')"
proof -
  have pops: "\<forall>u w p. u \<noteq> w \<longrightarrow> pop_claim (pcs (goto t pc s') u) = Some p \<longrightarrow>
      pop_claim (pcs (goto t pc s') w) \<noteq> Some p"
    using pop slot_invD(7) [OF inv] by (auto simp: pcs)
  have pushes: "\<forall>u w c d. u \<noteq> w \<longrightarrow> push_claim (pcs (goto t pc s') u) = Some c \<longrightarrow>
      push_claim (pcs (goto t pc s') w) = Some d \<longrightarrow> claim_range c \<inter> claim_range d = {}"
  proof (intro allI impI)
    fix u w c d
    assume *: "u \<noteq> w" "push_claim (pcs (goto t pc s') u) = Some c"
      "push_claim (pcs (goto t pc s') w) = Some d"
    then show "claim_range c \<inter> claim_range d = {}"
      using push [of w c d] push [of u d c] slot_invD(6) [OF inv, of u w c d]
      by (cases "u = t"; cases "w = t") (simp_all add: pcs Int_commute)
  qed
  show ?thesis
    unfolding slot_inv_def
    using shared others own del pops pushes by (simp add: pcs good_capacity_def) 
qed

lemma slot_inv_goto_same:
  assumes inv: "slot_inv s" and pc: "pc_ok s pc"
    and push: "push_claim pc = None \<or> push_claim pc = push_claim (pcs s t)"
    and pop: "\<And>u p. u \<noteq> t \<Longrightarrow> pop_claim pc = Some p \<Longrightarrow> pop_claim (pcs s u) \<noteq> Some p"
  shows "slot_inv (goto t pc s)"
proof (rule slot_inv_goto [OF inv slot_invD(1-3) [OF inv] refl slot_invD(4,5) [OF inv] pc _ _ pop])
  fix c assume c: "push_claim pc = Some c"
  then have t: "push_claim (pcs s t) = Some c" using push by simp
  then show "claim_ok s c" by (rule slot_invD(5) [OF inv])
  fix u d assume "u \<noteq> t" "push_claim (pcs s u) = Some d"
  then show "claim_range c \<inter> claim_range d = {}" using slot_invD(6) [OF inv, of t u] t by auto
qed (use slot_invD(8) [OF inv] in auto)

lemma same_pop_claim:
  assumes "slot_inv s" and "pop_claim pc = None \<or> pop_claim pc = pop_claim (pcs s t)"
  shows "u \<noteq> t \<Longrightarrow> pop_claim pc = Some p \<Longrightarrow> pop_claim (pcs s u) \<noteq> Some p"
  using assms slot_invD(7) [OF assms(1), of t u p] by auto

lemmas slot_inv_move = slot_inv_goto_same [OF _ _ _ same_pop_claim]

lemma seq_diff_0 [simp]: "seq_diff q p = 0 \<longleftrightarrow> q = p"
  by (auto simp: seq_diff_def intro: signed_word_eqI)

lemma wait_turn_inv:
  "slot_inv s \<Longrightarrow> pcs s t = Push_Wait p xs \<Longrightarrow> slot_inv (wait_turn t p xs s)"
  by (auto simp: wait_turn_def intro!: slot_inv_move)

lemma load_enqueue_pos_inv: "slot_inv s \<Longrightarrow> slot_inv (load_enqueue_pos t x s)"
  by (auto simp: load_enqueue_pos_def intro!: slot_inv_move)

lemma try_seq_inv:
  assumes inv: "slot_inv s" and pc: "pcs s t = Try_Seq p x"
  shows "slot_inv (try_seq t p x s)"
proof -
  have "p \<le> enqueue_pos s" using slot_invD(4) [OF inv, of t] pc by simp
  then have "pc_ok s (Try_Cas p x)" if "seq (slot_at s p) = p" using that by auto
  then show ?thesis using inv by (auto simp: try_seq_def Let_def intro!: slot_inv_move)
qed

lemma await_item_inv:
  "slot_inv s \<Longrightarrow> pcs s t = Pop_Check p \<Longrightarrow> slot_inv (await_item t p s)"
  by (auto simp: await_item_def intro!: slot_inv_move)

lemma check_item_inv:
  "slot_inv s \<Longrightarrow> pcs s t = Pop_Check p \<Longrightarrow> slot_inv (check_item t p s)"
  by (auto simp: check_item_def intro!: slot_inv_move)

lemma read_item_inv:
  assumes inv: "slot_inv s" and pc: "pcs s t = Pop_Read p"
  shows "slot_inv (read_item t p s)"
proof -
  have "seq (slot_at s p) = p + 1" using slot_invD(4) [OF inv, of t] pc by simp
  moreover from this have "p < enqueue_pos s \<and> data (slot_at s p) = accepted s ! unat p"
    using slot_invD(3) [OF inv] by (simp add: full_slots_ok_def)
  ultimately show ?thesis
    using inv pc by (auto simp: read_item_def intro!: slot_inv_move)
qed

text \<open>Taking new tickets: every ticket in use is below the counter.\<close>

lemma claim_below:
  "slot_inv s \<Longrightarrow> push_claim (pcs s u) = Some d \<Longrightarrow> claim_range d \<subseteq> {..< unat (enqueue_pos s)}"
  using slot_invD(5) [of s u d] by (auto simp: claim_ok_def claim_range_def)

lemma grow_enqueue:
  assumes inv: "slot_inv s" and room: "unat (enqueue_pos s) + length xs < 2 ^ 64"
    and s': "s' = s\<lparr>enqueue_pos := enqueue_pos s + of_nat (length xs), accepted := accepted s @ xs\<rparr>"
  shows "unat (enqueue_pos s') = unat (enqueue_pos s) + length xs"
    "full_slots_ok s'" "good_capacity s'" "length (accepted s') = unat (enqueue_pos s')"
    "pc_ok s pc \<Longrightarrow> \<not> (\<exists>p x. pc = Try_Cas p x \<and> xs = []) \<Longrightarrow> pc_ok s' pc"
    "claim_ok s c \<Longrightarrow> claim_ok s' c"
    "(p, v) \<in> set (delivered s') \<Longrightarrow> p < enqueue_pos s' \<and> v = accepted s' ! unat p"
proof -
  have "length xs < 2 ^ 64" using room by simp
  then have "unat (of_nat (length xs) :: u64) = length xs" by (simp add: unat_of_nat)
  then show E: "unat (enqueue_pos s') = unat (enqueue_pos s) + length xs"
    using room by (simp add: s' unat_word_ariths(1))
  have sl: "slot_at s' p = slot_at s p" for p by (rule slot_at_cong) (simp add: s')
  have lt: "p < enqueue_pos s' \<and> accepted s' ! unat p = accepted s ! unat p"
    if "p < enqueue_pos s" for p
    using that E slot_invD(2) [OF inv] by (simp add: word_less_nat_alt s' nth_append)
  show "full_slots_ok s'" using slot_invD(3) [OF inv] lt by (auto simp: full_slots_ok_def sl)
  show "good_capacity s'" using slot_invD(1) [OF inv] by (simp add: good_capacity_def slot_capacity_def s')
  show "length (accepted s') = unat (enqueue_pos s')"
    using slot_invD(2) [OF inv] by (simp only: E) (simp add: s')
  show "claim_ok s c \<Longrightarrow> claim_ok s' c"
    using slot_invD(2) [OF inv] E by (auto simp: claim_ok_def s')
  have le: "p \<le> enqueue_pos s'" if "p \<le> enqueue_pos s" for p
    using that E by (simp add: word_le_nat_alt)
  have lt': "p < enqueue_pos s'" if "p \<le> enqueue_pos s" "xs \<noteq> []" for p
    using that E by (cases xs) (simp_all add: word_le_nat_alt word_less_nat_alt)
  show "pc_ok s pc \<Longrightarrow> \<not> (\<exists>p x. pc = Try_Cas p x \<and> xs = []) \<Longrightarrow> pc_ok s' pc"
    using lt le lt' by (cases pc) (auto simp: sl)
  show "(p, v) \<in> set (delivered s') \<Longrightarrow> p < enqueue_pos s' \<and> v = accepted s' ! unat p"
    using slot_invD(8) [OF inv, of p v] lt by (simp add: s')
qed

lemma new_push_claim:
  assumes inv: "slot_inv s" and room: "unat (enqueue_pos s) + length xs < 2 ^ 64" and ne: "xs \<noteq> []"
    and s': "s' = s\<lparr>enqueue_pos := enqueue_pos s + of_nat (length xs), accepted := accepted s @ xs\<rparr>"
    and pc: "push_claim pc = Some (enqueue_pos s, xs)" "pop_claim pc = None" "pc_ok s' pc"
  shows "slot_inv (goto t pc s')"
proof -
  note G = grow_enqueue [OF inv room s']
  have own: "claim_ok s' (enqueue_pos s, xs)"
    using G(1) ne slot_invD(2) [OF inv] by (simp add: claim_ok_def) (simp add: s')
  show ?thesis
  proof (rule slot_inv_goto [OF inv G(3) G(4) G(2)])
    show "pcs s' = pcs s" by (simp add: s')
    show "pc_ok s' pc" by (rule pc(3))
    fix u
    show "pc_ok s' (pcs s u)" by (rule G(5) [OF slot_invD(4) [OF inv]]) (use ne in simp)
    show "claim_ok s' c" if "push_claim (pcs s u) = Some c" for c
      using that by (rule G(6) [OF slot_invD(5) [OF inv]])
    show "claim_ok s' c" if "push_claim pc = Some c" for c using that own pc by simp
    show "claim_range c \<inter> claim_range d = {}"
      if "push_claim pc = Some c" "push_claim (pcs s u) = Some d" for c d
    proof -
      have "claim_range c \<subseteq> {unat (enqueue_pos s) ..}" using that(1) pc(1) by (auto simp: claim_range_def)
      then show ?thesis using claim_below [OF inv that(2)] by fastforce
    qed
  qed (use G(7) pc in auto)
qed

lemma take_push_tickets_inv:
  assumes "slot_inv s" and "unat (enqueue_pos s) + length xs < 2 ^ 64"
  shows "slot_inv (take_push_tickets t xs s)"
  using new_push_claim [OF assms _ refl, of "Push_Wait (enqueue_pos s) xs" t] assms(1)
  by (simp add: take_push_tickets_def)

lemma try_cas_inv:
  assumes inv: "slot_inv s" and pc: "pcs s t = Try_Cas p x"
    and room: "unat (enqueue_pos s) + 1 < 2 ^ 64"
  shows "slot_inv (try_cas t p x s)"
proof (cases "enqueue_pos s = p")
  case True
  have "seq (slot_at s p) = p" using slot_invD(4) [OF inv, of t] pc True by simp
  then have "pc_ok (s\<lparr>enqueue_pos := enqueue_pos s + of_nat (length [x]), accepted := accepted s @ [x]\<rparr>)
      (Push_Write p [x])"
    by (simp add: slot_at_def slot_index_def slot_capacity_def)
  from new_push_claim [OF inv _ _ refl _ _ this, of t] room True show ?thesis
    by (simp add: try_cas_def)
next
  case False
  then show ?thesis using inv by (auto simp: try_cas_def intro!: slot_inv_move)
qed

lemma take_pop_ticket_inv:
  assumes inv: "slot_inv s" and new: "\<And>u. pop_claim (pcs s u) \<noteq> Some (dequeue_pos s)"
  shows "slot_inv (take_pop_ticket t s)"
proof -
  let ?s' = "s\<lparr>dequeue_pos := dequeue_pos s + 1\<rparr>"
  have C: "pc_ok ?s' pc = pc_ok s pc" "claim_ok ?s' c = claim_ok s c" "full_slots_ok ?s' = full_slots_ok s"
    for pc c by (rule pc_ok_cong; simp add: slot_at_def slot_index_def slot_capacity_def)+
  have "slot_inv ?s'"
    using inv unfolding slot_inv_def C by (simp add: slot_capacity_def)
  then show ?thesis
    unfolding take_pop_ticket_def by (rule slot_inv_goto_same) (use new in auto)
qed

lemma load_dequeue_pos_inv:
  assumes "slot_inv s" and "\<And>u. u \<noteq> t \<Longrightarrow> pop_claim (pcs s u) \<noteq> Some (dequeue_pos s)"
  shows "slot_inv (load_dequeue_pos t s)"
  unfolding load_dequeue_pos_def by (rule slot_inv_goto_same) (use assms in auto)

text \<open>Writing and releasing a slot: no other thread stands at the same slot.\<close>

lemma push_heads_differ:
  assumes inv: "slot_inv s" and "u \<noteq> t"
    and t: "push_claim (pcs s t) = Some (p, xs)" and u: "push_claim (pcs s u) = Some (p', ys)"
  shows "p \<noteq> p'"
proof
  assume "p = p'"
  moreover have "claim_range (p, xs) \<inter> claim_range (p', ys) = {}"
    using slot_invD(6) [OF inv _ t u] assms(2) by auto
  moreover have "xs \<noteq> []" "ys \<noteq> []"
    using slot_invD(5) [OF inv t] slot_invD(5) [OF inv u] by (simp_all add: claim_ok_def)
  then have "unat p \<in> claim_range (p, xs)" "unat p' \<in> claim_range (p', ys)"
    by (simp_all add: claim_range_def)
  ultimately show False by blast
qed

lemma slot_inv_same_claims:
  assumes inv: "slot_inv s"
    and shared: "good_capacity s'" "full_slots_ok s'"
    and same: "pcs s' = pcs s" "enqueue_pos s' = enqueue_pos s" "accepted s' = accepted s"
    and del: "\<And>p v. (p, v) \<in> set (delivered s') \<Longrightarrow> p < enqueue_pos s \<and> v = accepted s ! unat p"
    and others: "\<And>u. u \<noteq> t \<Longrightarrow> pc_ok s' (pcs s u)"
    and own: "pc_ok s' pc"
    and push: "\<And>c. push_claim pc = Some c \<Longrightarrow> claim_ok s c \<and>
      (\<exists>c'. push_claim (pcs s t) = Some c' \<and> claim_range c \<subseteq> claim_range c')"
    and pop: "pop_claim pc = None \<or> pop_claim pc = pop_claim (pcs s t)"
  shows "slot_inv (goto t pc s')"
proof -
  have cl: "claim_ok s' c = claim_ok s c" for c by (simp add: claim_ok_def same)
  show ?thesis
  proof (rule slot_inv_goto [OF inv shared(1) _ shared(2) same(1) others _ own])
    show "length (accepted s') = unat (enqueue_pos s')" using slot_invD(2) [OF inv] same by simp
    show "claim_ok s' c" if "push_claim (pcs s u) = Some c" for u c
      using slot_invD(5) [OF inv that] by (simp add: cl)
    show "claim_ok s' c" if "push_claim pc = Some c" for c using push [OF that] by (simp add: cl)
    show "claim_range c \<inter> claim_range d = {}"
      if u: "u \<noteq> t" and c: "push_claim pc = Some c" and d: "push_claim (pcs s u) = Some d" for u c d
    proof -
      from push [OF c] obtain c' where c': "push_claim (pcs s t) = Some c'" "claim_range c \<subseteq> claim_range c'"
        by blast
      have "claim_range c' \<inter> claim_range d = {}"
        using slot_invD(6) [OF inv _ c'(1) d] u by auto
      then show ?thesis using c'(2) by blast
    qed
    show "pop_claim (pcs s u) \<noteq> Some p" if "u \<noteq> t" "pop_claim pc = Some p" for u p
      using same_pop_claim [OF inv pop that] .
    show "p < enqueue_pos s' \<and> v = accepted s' ! unat p" if "(p, v) \<in> set (delivered s')" for p v
      using del [OF that] same by simp
  qed
qed

lemma write_item_others:
  assumes inv: "slot_inv s" and t: "pcs s t = Push_Write p xs" and u: "u \<noteq> t"
  shows "pc_ok (set_data p x s) (pcs s u)"
proof -
  note g = slot_invD(1) [OF inv]
  have q: "seq (slot_at s p) = p" using slot_invD(4) [OF inv, of t] t by simp
  have sq: "seq (slot_at (set_data p x s) p') = seq (slot_at s p')" for p'
    using slot_at_same [of s p' p] by (simp add: slot_at_set_data [OF g])
  have dt: "data (slot_at (set_data p x s) p') = data (slot_at s p')"
    if "pcs s u = Push_Publish p' ys" for p' ys
  proof -
    have "seq (slot_at s p') = p'" using slot_invD(4) [OF inv, of u] that by simp
    moreover have "p \<noteq> p'" using push_heads_differ [OF inv u] t that by simp
    ultimately have "slot_index s p' \<noteq> slot_index s p" using q slot_at_same [of s p' p] by auto
    then show ?thesis by (simp add: slot_at_set_data [OF g])
  qed
  show ?thesis
    using slot_invD(4) [OF inv, of u] by (cases "pcs s u") (simp_all add: sq dt)
qed

lemma write_item_inv:
  assumes inv: "slot_inv s" and t: "pcs s t = Push_Write p xs"
  shows "slot_inv (write_item t p xs s)"
proof -
  note g = slot_invD(1) [OF inv]
  have q: "seq (slot_at s p) = p" using slot_invD(4) [OF inv, of t] t by simp
  let ?s' = "set_data p (hd xs) s"
  have sq: "seq (slot_at ?s' p') = seq (slot_at s p')" for p'
    using slot_at_same [of s p' p] by (simp add: slot_at_set_data [OF g])
  have dt: "data (slot_at ?s' p') = data (slot_at s p')" if "seq (slot_at s p') = p' + 1" for p'
  proof -
    have "slot_index s p' \<noteq> slot_index s p"
      using not_free_and_full [OF g, of p' p, OF _ q] that slot_at_same [of s p' p] by auto
    then show ?thesis by (simp add: slot_at_set_data [OF g])
  qed
  have cl: "claim_ok ?s' c = claim_ok s c" for c by (simp add: claim_ok_def)
  have "full_slots_ok ?s'" using slot_invD(3) [OF inv] sq dt by (simp add: full_slots_ok_def)
  moreover have "good_capacity ?s'" using g by (simp add: good_capacity_def)
  moreover have "pc_ok ?s' (Push_Publish p xs)" using q sq by (simp add: slot_at_set_data [OF g])
  moreover have "claim_ok s (p, xs)" using slot_invD(5) [OF inv, of t] t by simp
  ultimately show ?thesis
    unfolding write_item_def using slot_invD(8) [OF inv]
    by (intro slot_inv_same_claims [OF inv]) (simp_all add: cl t write_item_others [OF inv t])
qed

fun stands_at :: "'a slot_pc \<Rightarrow> u64 option" where
  "stands_at (Push_Write p xs) = Some p"
| "stands_at (Push_Publish p xs) = Some p"
| "stands_at (Pop_Read p) = Some p"
| "stands_at (Pop_Release p v) = Some p"
| "stands_at _ = None"

lemma set_seq_others:
  assumes g: "good_capacity s" and ok: "pc_ok s pc"
    and away: "\<And>p'. stands_at pc = Some p' \<Longrightarrow> slot_index s p' \<noteq> slot_index s p"
    and cas: "\<And>p' x. pc = Try_Cas p' x \<Longrightarrow> slot_index s p' = slot_index s p \<Longrightarrow> p' < enqueue_pos s"
  shows "pc_ok (set_seq p q s) pc"
proof (cases pc)
  case (Try_Cas p' x)
  then show ?thesis
    using ok cas [of p' x] by (cases "slot_index s p' = slot_index s p") (auto simp: slot_at_set_seq [OF g])
qed (use ok away in \<open>simp_all add: slot_at_set_seq [OF g]\<close>)

lemma publish_item_inv:
  assumes inv: "slot_inv s" and t: "pcs s t = Push_Publish p xs"
  shows "slot_inv (publish_item t p xs s)"
proof -
  note g = slot_invD(1) [OF inv]
  have q: "seq (slot_at s p) = p" and d: "data (slot_at s p) = hd xs"
    using slot_invD(4) [OF inv, of t] t by simp_all
  have cl: "claim_ok s (p, xs)" using slot_invD(5) [OF inv, of t] t by simp
  then have ne: "xs \<noteq> []" and le: "unat p + length xs \<le> unat (enqueue_pos s)"
    and tk: "take (length xs) (drop (unat p) (accepted s)) = xs"
    by (simp_all add: claim_ok_def)
  have pE: "p < enqueue_pos s" using ne le by (cases xs) (simp_all add: word_less_nat_alt)
  have "hd xs = hd (take (length xs) (drop (unat p) (accepted s)))" by (simp only: tk)
  also have "\<dots> = accepted s ! unat p"
    using ne pE slot_invD(2) [OF inv] by (simp add: hd_drop_conv_nth word_less_nat_alt)
  finally have hd: "hd xs = accepted s ! unat p" .
  let ?s' = "set_seq p (p + 1) s"
  have full: "full_slots_ok ?s'"
    using slot_invD(3) [OF inv] pE hd d by (auto simp: full_slots_ok_def slot_at_set_seq [OF g])
  have others: "pc_ok ?s' (pcs s u)" if u: "u \<noteq> t" for u
  proof (rule set_seq_others [OF g slot_invD(4) [OF inv]])
    fix p' assume st: "stands_at (pcs s u) = Some p'"
    show "slot_index s p' \<noteq> slot_index s p"
    proof
      assume i: "slot_index s p' = slot_index s p"
      then have "slot_at s p' = slot_at s p" by (rule slot_at_same)
      moreover have "pc_ok s (pcs s u)" by (rule slot_invD(4) [OF inv])
      moreover have "p \<noteq> p' + 1" by (rule not_free_and_full [OF g i refl])
      moreover have "push_claim (pcs s u) = Some (p', ys) \<Longrightarrow> p \<noteq> p'" for ys
        by (rule push_heads_differ [OF inv u]) (simp add: t)
      ultimately show False using st q by (cases "pcs s u"; simp)
    qed
  next
    fix p' x assume c: "pcs s u = Try_Cas p' x" and i: "slot_index s p' = slot_index s p"
    have "slot_at s p' = slot_at s p" using i by (rule slot_at_same)
    then show "p' < enqueue_pos s" using slot_invD(4) [OF inv, of u] c q pE by auto
  qed
  have rest: "claim_ok s (p + 1, tl xs) \<and> claim_range (p + 1, tl xs) \<subseteq> claim_range (p, xs)"
    if "tl xs \<noteq> []"
  proof -
    have "unat (enqueue_pos s) < 2 ^ LENGTH(64)" by (rule unsigned_less)
    then have "unat p + 1 < 2 ^ 64" using le that by (cases xs; cases "tl xs") simp_all
    then have p1: "unat (p + 1) = unat p + 1" by (simp add: unat_word_ariths(1))
    have "take (length (tl xs)) (drop (unat p + 1) (accepted s)) =
        tl (take (length xs) (drop (unat p) (accepted s)))"
      by (simp add: drop_Suc tl_drop tl_take)
    then have "take (length (tl xs)) (drop (unat p + 1) (accepted s)) = tl xs" by (simp only: tk)
    then show ?thesis using that le p1 by (cases xs) (auto simp: claim_ok_def claim_range_def)
  qed
  show ?thesis
    unfolding publish_item_def
  proof (rule slot_inv_same_claims [OF inv _ full])
    show "good_capacity ?s'" using g by (simp add: good_capacity_def)
    show "pc_ok ?s' (pcs s u)" if "u \<noteq> t" for u by (rule others [OF that])
    show "claim_ok s c \<and> (\<exists>c'. push_claim (pcs s t) = Some c' \<and> claim_range c \<subseteq> claim_range c')"
      if "push_claim (if tl xs = [] then Idle else Push_Wait (p + 1) (tl xs)) = Some c" for c
      using that rest t by (simp split: if_splits)
  qed (use slot_invD(8) [OF inv] in simp_all)
qed

text \<open>A release: no other thread is at the slot, and the new sequence number is no full one.\<close>

lemma release_others:
  assumes inv: "slot_inv s" and t: "pop_claim (pcs s t) = Some p" and q: "seq (slot_at s p) = p + 1"
    and u: "u \<noteq> t"
  shows "pc_ok (set_seq p q' s) (pcs s u)"
proof (rule set_seq_others [OF slot_invD(1,4) [OF inv]])
  note g = slot_invD(1) [OF inv]
  fix p' assume st: "stands_at (pcs s u) = Some p'"
  show "slot_index s p' \<noteq> slot_index s p"
  proof
    assume i: "slot_index s p' = slot_index s p"
    then have "slot_at s p' = slot_at s p" by (rule slot_at_same)
    moreover have "p + 1 \<noteq> p'" using slot_index_succ [OF g, of p] i by auto
    moreover have "pop_claim (pcs s u) \<noteq> Some p" using slot_invD(7) [OF inv _ t] u by auto
    moreover have "pc_ok s (pcs s u)" by (rule slot_invD(4) [OF inv])
    ultimately show False
      using st q by (cases "pcs s u"; simp)
  qed
next
  note g = slot_invD(1) [OF inv]
  fix p' x assume c: "pcs s u = Try_Cas p' x" and i: "slot_index s p' = slot_index s p"
  have "slot_at s p' = slot_at s p" using i by (rule slot_at_same)
  moreover have "p + 1 \<noteq> p'" using slot_index_succ [OF g, of p] i by auto
  ultimately show "p' < enqueue_pos s" using slot_invD(4) [OF inv, of u] c q by auto
qed

lemma release_full:
  assumes inv: "slot_inv s"
  shows "full_slots_ok (set_seq p (p + of_nat (slot_capacity s)) s)"
  using slot_invD(3) [OF inv] not_recycled_and_full [OF slot_invD(1) [OF inv]]
  by (auto simp: full_slots_ok_def slot_at_set_seq [OF slot_invD(1) [OF inv]])

lemma release_slot_inv:
  assumes inv: "slot_inv s" and t: "pcs s t = Pop_Release p v"
  shows "slot_inv (release_slot t p v s)"
proof -
  let ?s' = "(set_seq p (p + of_nat (slot_capacity s)) s)\<lparr>delivered := delivered s @ [(p, v)]\<rparr>"
  have T: "seq (slot_at s p) = p + 1" "p < enqueue_pos s" "v = accepted s ! unat p"
    using slot_invD(4) [OF inv, of t] t by simp_all
  have eq: "release_slot t p v s = goto t Idle ?s'" by (simp add: release_slot_def goto_def)
  have C: "pc_ok ?s' pc = pc_ok (set_seq p (p + of_nat (slot_capacity s)) s) pc"
    "full_slots_ok ?s' = full_slots_ok (set_seq p (p + of_nat (slot_capacity s)) s)" for pc
    by (rule pc_ok_cong; simp add: slot_at_def slot_index_def slot_capacity_def)+
  show ?thesis
    unfolding eq
  proof (rule slot_inv_same_claims [OF inv])
    show "good_capacity ?s'"
      using slot_invD(1) [OF inv] by (simp add: good_capacity_def slot_capacity_def set_seq_def)
    show "full_slots_ok ?s'" by (simp only: C release_full [OF inv])
    show "pc_ok ?s' (pcs s u)" if "u \<noteq> t" for u
      unfolding C by (rule release_others [OF inv _ T(1) that]) (simp add: t)
    show "p' < enqueue_pos s \<and> v' = accepted s ! unat p'" if "(p', v') \<in> set (delivered ?s')" for p' v'
      using that T slot_invD(8) [OF inv] by auto
  qed simp_all
qed

lemma release_slot_single_inv:
  assumes inv: "slot_inv s" and t: "pcs s t = Pop_Release p v"
  shows "slot_inv (release_slot_single t p v s)"
proof -
  let ?s' = "set_seq p (p + of_nat (slot_capacity s)) s"
  have T: "seq (slot_at s p) = p + 1" "p < enqueue_pos s" "v = accepted s ! unat p"
    using slot_invD(4) [OF inv, of t] t by simp_all
  show ?thesis
    unfolding release_slot_single_def
  proof (rule slot_inv_same_claims [OF inv _ release_full [OF inv]])
    show "good_capacity ?s'" using slot_invD(1) [OF inv] by (simp add: good_capacity_def)
    show "pc_ok ?s' (pcs s u)" if "u \<noteq> t" for u
      by (rule release_others [OF inv _ T(1) that]) (simp add: t)
  qed (use slot_invD(8) [OF inv] T t in auto)
qed

lemma advance_dequeue_pos_inv:
  assumes inv: "slot_inv s" and t: "pcs s t = Pop_Advance p v"
  shows "slot_inv (advance_dequeue_pos t p v s)"
proof -
  let ?s' = "s\<lparr>dequeue_pos := p + 1, delivered := delivered s @ [(p, v)]\<rparr>"
  have T: "p < enqueue_pos s" "v = accepted s ! unat p" using slot_invD(4) [OF inv, of t] t by simp_all
  have C: "pc_ok ?s' pc = pc_ok s pc" "full_slots_ok ?s' = full_slots_ok s" for pc
    by (rule pc_ok_cong; simp add: slot_at_def slot_index_def slot_capacity_def)+
  show ?thesis
    unfolding advance_dequeue_pos_def
  proof (rule slot_inv_same_claims [OF inv])
    show "good_capacity ?s'" using slot_invD(1) [OF inv] by (simp add: good_capacity_def slot_capacity_def)
    show "full_slots_ok ?s'" unfolding C by (rule slot_invD(3) [OF inv])
    show "pc_ok ?s' (pcs s u)" for u unfolding C by (rule slot_invD(4) [OF inv])
    show "p' < enqueue_pos s \<and> v' = accepted s ! unat p'" if "(p', v') \<in> set (delivered ?s')" for p' v'
      using that T slot_invD(8) [OF inv] by auto
  qed simp_all
qed

section \<open>The initial ring, and no data race\<close>

lemma slot_inv_new:
  assumes "is_pow2 (length storage)" and "2 \<le> length storage" and "length storage < 2 ^ 64"
  shows "slot_inv (slot_ring_new storage)"
proof -
  let ?s = "slot_ring_new storage"
  have cap: "slot_capacity ?s = length storage" by (simp add: slot_ring_new_def slot_capacity_def init_slots_def)
  have g: "good_capacity ?s" using assms by (simp add: good_capacity_def cap)
  have sq: "seq (slot_at ?s p) = of_nat (slot_index ?s p)" for p
    using slot_index_lt [OF g, of p] by (simp add: slot_at_def) (simp add: slot_ring_new_def init_slots_def)
  have "seq (slot_at ?s p) \<noteq> p + 1" for p
  proof
    assume eq: "seq (slot_at ?s p) = p + 1"
    have "slot_index ?s p < 2 ^ 64" using slot_index_lt [OF g, of p] assms(3) by (simp add: cap [unfolded slot_capacity_def])
    then have "unat (of_nat (slot_index ?s p) :: u64) = slot_index ?s p" by (simp add: unat_of_nat)
    then have "slot_index ?s (p + 1) = slot_index ?s p mod slot_capacity ?s"
      using eq sq [of p] by (simp add: slot_index_mod [OF g, of "p + 1"])
    also have "\<dots> = slot_index ?s p" by (simp add: slot_index_mod [OF g])
    finally show False using slot_index_succ [OF g] by blast
  qed
  then have "full_slots_ok ?s" by (simp add: full_slots_ok_def)
  then show ?thesis
    using g unfolding slot_inv_def good_capacity_def by (simp add: slot_ring_new_def)
qed

text \<open>Two threads about to access the same slot's item are never two writers, nor a writer and a
  reader.\<close>

lemma slot_no_race:
  assumes inv: "slot_inv s" and u: "u \<noteq> t" and t: "pcs s t = Push_Write p xs"
    and st: "stands_at (pcs s u) = Some p'"
  shows "slot_index s p' \<noteq> slot_index s p"
proof
  note g = slot_invD(1) [OF inv]
  assume i: "slot_index s p' = slot_index s p"
  then have "slot_at s p' = slot_at s p" by (rule slot_at_same)
  moreover have "seq (slot_at s p) = p" using slot_invD(4) [OF inv, of t] t by simp
  moreover have "pc_ok s (pcs s u)" by (rule slot_invD(4) [OF inv])
  moreover have "p \<noteq> p' + 1" by (rule not_free_and_full [OF g i refl])
  moreover have "push_claim (pcs s u) = Some (p', ys) \<Longrightarrow> p \<noteq> p'" for ys
    by (rule push_heads_differ [OF inv u]) (simp add: t)
  ultimately show False using st by (cases "pcs s u"; simp)
qed

end
