(* ===== verification/Shared_Queues.thy ===== *)
theory Shared_Queues
  imports Slot_Ring
begin

text \<open>
  The three queues built on the slot protocol, as step relations over the accesses of the theory
  of slot rings: \<open>MpscRing\<close> (compare-and-swap producers, one consumer), \<open>MpscTicketRing\<close>
  (ticket producers, one consumer) and \<open>MpmcQueue\<close> (ticket producers and consumers). A step that
  draws tickets is taken only while the 64-bit counter does not wrap: the runs covered draw fewer
  than \<open>2 ^ 64\<close> tickets. \<open>cpu_signal_event\<close> and the pauses have no effect on the state.
\<close>

section \<open>Step relations\<close>

text \<open>The accesses of a producer that holds its tickets, common to the three.\<close>

inductive producer_step :: "'a slot_ring \<Rightarrow> 'a slot_ring \<Rightarrow> bool" where
  wait: "pcs s t = Push_Wait p xs \<Longrightarrow> producer_step s (wait_turn t p xs s)"
| wr: "pcs s t = Push_Write p xs \<Longrightarrow> producer_step s (write_item t p xs s)"
| pub: "pcs s t = Push_Publish p xs \<Longrightarrow> producer_step s (publish_item t p xs s)"

inductive try_push_step :: "'a slot_ring \<Rightarrow> 'a slot_ring \<Rightarrow> bool" where
  call: "pcs s t = Idle \<Longrightarrow> try_push_step s (load_enqueue_pos t x s)"
| test: "pcs s t = Try_Seq p x \<Longrightarrow> try_push_step s (try_seq t p x s)"
| cas: "pcs s t = Try_Cas p x \<Longrightarrow> unat (enqueue_pos s) + 1 < 2 ^ 64 \<Longrightarrow>
    try_push_step s (try_cas t p x s)"
| cas_spurious: "pcs s t = Try_Cas p x \<Longrightarrow> try_push_step s (load_enqueue_pos t x s)"

inductive ticket_push_step :: "'a slot_ring \<Rightarrow> 'a slot_ring \<Rightarrow> bool" where
  call: "pcs s t = Idle \<Longrightarrow> unat (enqueue_pos s) + length xs < 2 ^ 64 \<Longrightarrow>
    ticket_push_step s (take_push_tickets t xs s)"

inductive single_pop_step :: "nat \<Rightarrow> 'a slot_ring \<Rightarrow> 'a slot_ring \<Rightarrow> bool" for c where
  call: "pcs s c = Idle \<Longrightarrow> single_pop_step c s (load_dequeue_pos c s)"
| test: "pcs s c = Pop_Check p \<Longrightarrow> single_pop_step c s (check_item c p s)"
| rd: "pcs s c = Pop_Read p \<Longrightarrow> single_pop_step c s (read_item c p s)"
| rel: "pcs s c = Pop_Release p v \<Longrightarrow> single_pop_step c s (release_slot_single c p v s)"
| adv: "pcs s c = Pop_Advance p v \<Longrightarrow> single_pop_step c s (advance_dequeue_pos c p v s)"

inductive ticket_pop_step :: "'a slot_ring \<Rightarrow> 'a slot_ring \<Rightarrow> bool" where
  call: "pcs s t = Idle \<Longrightarrow> unat (dequeue_pos s) + 1 < 2 ^ 64 \<Longrightarrow>
    ticket_pop_step s (take_pop_ticket t s)"
| wait: "pcs s t = Pop_Check p \<Longrightarrow> ticket_pop_step s (await_item t p s)"
| rd: "pcs s t = Pop_Read p \<Longrightarrow> ticket_pop_step s (read_item t p s)"
| rel: "pcs s t = Pop_Release p v \<Longrightarrow> ticket_pop_step s (release_slot t p v s)"

text \<open>Both single-consumer rings: \<open>tickets\<close> selects the ticket producers.\<close>

definition mpsc_step :: "bool \<Rightarrow> nat \<Rightarrow> 'a slot_ring \<Rightarrow> 'a slot_ring \<Rightarrow> bool" where
  "mpsc_step tickets c s s' \<longleftrightarrow>
     (if tickets then ticket_push_step s s' else try_push_step s s') \<or>
     producer_step s s' \<or> single_pop_step c s s'"

definition mpmc_step :: "'a slot_ring \<Rightarrow> 'a slot_ring \<Rightarrow> bool" where
  "mpmc_step s s' \<longleftrightarrow> ticket_push_step s s' \<or> producer_step s s' \<or> ticket_pop_step s s'"

inductive mpsc_reachable :: "bool \<Rightarrow> nat \<Rightarrow> 'a list \<Rightarrow> 'a slot_ring \<Rightarrow> bool" for tickets c storage where
  start: "mpsc_reachable tickets c storage (slot_ring_new storage)"
| step: "mpsc_reachable tickets c storage s \<Longrightarrow> mpsc_step tickets c s s' \<Longrightarrow>
    mpsc_reachable tickets c storage s'"

inductive mpmc_reachable :: "'a list \<Rightarrow> 'a slot_ring \<Rightarrow> bool" for storage where
  start: "mpmc_reachable storage (slot_ring_new storage)"
| step: "mpmc_reachable storage s \<Longrightarrow> mpmc_step s s' \<Longrightarrow> mpmc_reachable storage s'"

section \<open>Invariants\<close>

text \<open>With one consumer the tickets leave in counter order.\<close>

definition single_inv :: "nat \<Rightarrow> 'a slot_ring \<Rightarrow> bool" where
  "single_inv c s \<longleftrightarrow> slot_inv s \<and>
     (\<forall>t. t \<noteq> c \<longrightarrow> pop_claim (pcs s t) = None) \<and>
     (\<forall>p. pop_claim (pcs s c) = Some p \<longrightarrow> p = dequeue_pos s) \<and>
     unat (dequeue_pos s) \<le> unat (enqueue_pos s) \<and>
     delivered s = map (\<lambda>i. (of_nat i, accepted s ! i)) [0..<unat (dequeue_pos s)]"

text \<open>With ticket consumers every ticket in use or delivered is below the counter, once.\<close>

definition multi_inv :: "'a slot_ring \<Rightarrow> bool" where
  "multi_inv s \<longleftrightarrow> slot_inv s \<and>
     (\<forall>t p. pop_claim (pcs s t) = Some p \<longrightarrow> p < dequeue_pos s \<and> p \<notin> fst ` set (delivered s)) \<and>
     (\<forall>p \<in> fst ` set (delivered s). p < dequeue_pos s) \<and>
     distinct (map fst (delivered s))"

lemma producer_step_frame:
  "producer_step s s' \<Longrightarrow> dequeue_pos s' = dequeue_pos s \<and> delivered s' = delivered s \<and>
     enqueue_pos s' = enqueue_pos s \<and> accepted s' = accepted s \<and>
     (\<forall>t. pop_claim (pcs s' t) = pop_claim (pcs s t))"
  by (cases rule: producer_step.cases)
    (auto simp: wait_turn_def write_item_def publish_item_def)

lemma producer_step_inv: "producer_step s s' \<Longrightarrow> slot_inv s \<Longrightarrow> slot_inv s'"
  by (cases rule: producer_step.cases) (auto intro: wait_turn_inv write_item_inv publish_item_inv)

definition push_frame :: "'a slot_ring \<Rightarrow> 'a slot_ring \<Rightarrow> bool" where
  "push_frame s s' \<longleftrightarrow> dequeue_pos s' = dequeue_pos s \<and> delivered s' = delivered s \<and>
     unat (enqueue_pos s) \<le> unat (enqueue_pos s') \<and> (\<exists>xs. accepted s' = accepted s @ xs) \<and>
     (\<forall>t. pop_claim (pcs s' t) = pop_claim (pcs s t))"

lemma try_push_step_frame:
  assumes "try_push_step s s'"
  shows "push_frame s s'"
  using assms
proof cases
  case (cas t p x)
  have "unat (enqueue_pos s + 1) = unat (enqueue_pos s) + 1"
    using cas(3) by (simp add: unat_word_ariths(1))
  then show ?thesis using cas by (auto simp: push_frame_def try_cas_def)
qed (auto simp: push_frame_def load_enqueue_pos_def try_seq_def Let_def)

lemma ticket_push_step_frame:
  assumes "ticket_push_step s s'"
  shows "push_frame s s'"
  using assms
proof cases
  case (call t xs)
  have "length xs < 2 ^ 64" using call(3) by simp
  then have "unat (enqueue_pos s + of_nat (length xs)) = unat (enqueue_pos s) + length xs"
    using call(3) by (simp add: unat_word_ariths(1) unat_of_nat)
  then show ?thesis using call by (auto simp: push_frame_def take_push_tickets_def)
qed

lemma try_push_step_inv: "try_push_step s s' \<Longrightarrow> slot_inv s \<Longrightarrow> slot_inv s'"
  by (cases rule: try_push_step.cases) (auto intro: load_enqueue_pos_inv try_seq_inv try_cas_inv)

lemma ticket_push_step_inv: "ticket_push_step s s' \<Longrightarrow> slot_inv s \<Longrightarrow> slot_inv s'"
  by (cases rule: ticket_push_step.cases) (auto intro: take_push_tickets_inv)

lemma producer_push_frame: "producer_step s s' \<Longrightarrow> push_frame s s'"
  using producer_step_frame [of s s'] by (simp add: push_frame_def)

lemma single_inv_push:
  assumes inv: "single_inv c s" and s': "slot_inv s'" "push_frame s s'"
  shows "single_inv c s'"
proof -
  obtain xs where xs: "accepted s' = accepted s @ xs" using s'(2) by (auto simp: push_frame_def)
  have len: "unat (dequeue_pos s) \<le> length (accepted s)"
    using inv slot_invD(2) [of s] by (simp add: single_inv_def)
  have "delivered s' = map (\<lambda>i. (of_nat i, accepted s ! i)) [0..<unat (dequeue_pos s)]"
    using inv s'(2) by (simp add: single_inv_def push_frame_def)
  also have "\<dots> = map (\<lambda>i. (of_nat i, accepted s' ! i)) [0..<unat (dequeue_pos s)]"
    using len by (simp add: xs nth_append)
  finally show ?thesis using inv s' by (simp add: single_inv_def push_frame_def)
qed

lemma single_pop_inv:
  assumes inv: "single_inv c s" and st: "single_pop_step c s s'"
  shows "single_inv c s'"
  using st
proof cases
  case call
  have "slot_inv s'" unfolding call(1)
    by (rule load_dequeue_pos_inv) (use inv in \<open>auto simp: single_inv_def\<close>)
  then show ?thesis using inv call by (auto simp: single_inv_def load_dequeue_pos_def)
next
  case (test p)
  have "slot_inv s'" using inv test check_item_inv by (auto simp: single_inv_def)
  then show ?thesis using inv test by (auto simp: single_inv_def check_item_def)
next
  case (rd p)
  have "slot_inv s'" using inv rd read_item_inv by (auto simp: single_inv_def)
  then show ?thesis using inv rd by (auto simp: single_inv_def read_item_def)
next
  case (rel p v)
  have "slot_inv s'" using inv rel release_slot_single_inv by (auto simp: single_inv_def)
  then show ?thesis using inv rel by (auto simp: single_inv_def release_slot_single_def)
next
  case (adv p v)
  have S: "slot_inv s" using inv by (simp add: single_inv_def)
  have s': "slot_inv s'" using advance_dequeue_pos_inv [OF S] adv by simp
  have p: "p = dequeue_pos s" using inv adv by (simp add: single_inv_def)
  have lt: "p < enqueue_pos s" "v = accepted s ! unat p" using slot_invD(4) [OF S, of c] adv by simp_all
  have "unat (enqueue_pos s) < 2 ^ LENGTH(64)" by (rule unsigned_less)
  then have "unat (p + 1) = unat p + 1"
    using lt(1) by (simp add: word_less_nat_alt unat_word_ariths(1))
  then have "single_inv c s \<longrightarrow> ?thesis"
    using s' lt p adv by (auto simp: single_inv_def advance_dequeue_pos_def word_less_nat_alt)
  then show ?thesis using inv by simp
qed

lemma mpsc_step_inv: "mpsc_step tickets c s s' \<Longrightarrow> single_inv c s \<Longrightarrow> single_inv c s'"
  unfolding mpsc_step_def
  using single_pop_inv single_inv_push producer_push_frame producer_step_inv
    try_push_step_frame try_push_step_inv ticket_push_step_frame ticket_push_step_inv
  by (metis single_inv_def)

lemma mpsc_reachable_inv:
  assumes "is_pow2 (length storage)" and "2 \<le> length storage" and "length storage < 2 ^ 64"
  shows "mpsc_reachable tickets c storage s \<Longrightarrow> single_inv c s"
proof (induction rule: mpsc_reachable.induct)
  case start
  show ?case using slot_inv_new [OF assms] by (simp add: single_inv_def) (simp add: slot_ring_new_def)
next
  case (step s s')
  then show ?case using mpsc_step_inv by blast
qed


lemma multi_inv_push:
  "multi_inv s \<Longrightarrow> slot_inv s' \<Longrightarrow> push_frame s s' \<Longrightarrow> multi_inv s'"
  by (simp add: multi_inv_def push_frame_def)

lemma ticket_pop_inv:
  assumes inv: "multi_inv s" and st: "ticket_pop_step s s'"
  shows "multi_inv s'"
  using st
proof cases
  case (call t)
  have S: "slot_inv s" and below: "\<And>u p. pop_claim (pcs s u) = Some p \<Longrightarrow> p < dequeue_pos s"
    "\<And>p. p \<in> fst ` set (delivered s) \<Longrightarrow> p < dequeue_pos s"
    using inv by (auto simp: multi_inv_def)
  have "pop_claim (pcs s u) \<noteq> Some (dequeue_pos s)" for u using below(1) [of u] by auto
  then have s': "slot_inv s'" unfolding call(1) by (rule take_pop_ticket_inv [OF S])
  have "unat (dequeue_pos s + 1) = unat (dequeue_pos s) + 1"
    using call(3) by (simp add: unat_word_ariths(1))
  then have lt: "p < dequeue_pos s + 1" if "p \<le> dequeue_pos s" for p
    using that by (simp add: word_less_nat_alt word_le_nat_alt)
  have fresh: "dequeue_pos s \<notin> fst ` set (delivered s)" using below(2) by auto
  have claims: "p < dequeue_pos s + 1 \<and> p \<notin> fst ` set (delivered s)"
    if "pop_claim (pcs s' u) = Some p" for u p
  proof (cases "u = t")
    case True
    then have "p = dequeue_pos s" using that call by (simp add: take_pop_ticket_def)
    then show ?thesis using fresh lt [OF order_refl] by simp
  next
    case False
    then have c: "pop_claim (pcs s u) = Some p" using that call by (simp add: take_pop_ticket_def)
    then have "p < dequeue_pos s" by (rule below(1))
    then show ?thesis using c lt [OF less_imp_le] inv by (auto simp: multi_inv_def)
  qed
  have "dequeue_pos s' = dequeue_pos s + 1" "delivered s' = delivered s"
    by (simp_all add: call take_pop_ticket_def)
  then show ?thesis using s' claims lt inv less_imp_le unfolding multi_inv_def by metis
next
  case (wait t p)
  have "slot_inv s'" using inv wait await_item_inv by (auto simp: multi_inv_def)
  moreover have "pop_claim (pcs s t) = Some p" using wait by simp
  then have "p < dequeue_pos s" "p \<notin> fst ` set (delivered s)"
    using inv unfolding multi_inv_def by blast+
  ultimately show ?thesis using inv wait by (auto simp: multi_inv_def await_item_def)
next
  case (rd t p)
  have "slot_inv s'" using inv rd read_item_inv by (auto simp: multi_inv_def)
  moreover have "pop_claim (pcs s t) = Some p" using rd by simp
  then have "p < dequeue_pos s" "p \<notin> fst ` set (delivered s)"
    using inv unfolding multi_inv_def by blast+
  ultimately show ?thesis using inv rd by (auto simp: multi_inv_def read_item_def)
next
  case (rel t p v)
  have S: "slot_inv s" using inv by (simp add: multi_inv_def)
  have s': "slot_inv s'" using release_slot_inv [OF S] rel by simp
  have t: "pop_claim (pcs s t) = Some p" using rel by simp
  have others: "pop_claim (pcs s u) \<noteq> Some p" if "u \<noteq> t" for u
    using slot_invD(7) [OF S, of t u p] that t by auto
  have D: "delivered s' = delivered s @ [(p, v)]" "dequeue_pos s' = dequeue_pos s"
    "pcs s' = (pcs s)(t := Idle)"
    by (simp_all add: rel release_slot_def goto_def set_seq_def)
  show ?thesis
    using s' inv t others unfolding multi_inv_def D by (auto split: if_splits)
qed

lemma mpmc_step_inv: "mpmc_step s s' \<Longrightarrow> multi_inv s \<Longrightarrow> multi_inv s'"
  unfolding mpmc_step_def
  using ticket_pop_inv multi_inv_push producer_push_frame producer_step_inv
    ticket_push_step_frame ticket_push_step_inv
  by (metis multi_inv_def)

lemma mpmc_reachable_inv:
  assumes "is_pow2 (length storage)" and "2 \<le> length storage" and "length storage < 2 ^ 64"
  shows "mpmc_reachable storage s \<Longrightarrow> multi_inv s"
proof (induction rule: mpmc_reachable.induct)
  case start
  show ?case using slot_inv_new [OF assms] by (simp add: multi_inv_def) (simp add: slot_ring_new_def)
next
  case (step s s')
  then show ?case using mpmc_step_inv by blast
qed


section \<open>Properties\<close>

text \<open>C6: \<open>MpmcQueue\<close>: in every interleaving of any number of enqueueing and dequeueing threads,
  every completed dequeue returned the item that was enqueued under its ticket, and no ticket is
  delivered twice: each accepted item leaves the queue at most once, and nothing else does.\<close>
theorem mpmc_exactly_once:
  assumes "is_pow2 (length storage)" and "2 \<le> length storage" and "length storage < 2 ^ 64"
    and "mpmc_reachable storage s"
  shows "distinct (map fst (delivered s)) \<and>
    (\<forall>(p, v) \<in> set (delivered s). unat p < length (accepted s) \<and> v = accepted s ! unat p)"
proof -
  have m: "multi_inv s" by (rule mpmc_reachable_inv [OF assms])
  then have S: "slot_inv s" by (simp add: multi_inv_def)
  show ?thesis
    using m slot_invD(2,8) [OF S] by (auto simp: multi_inv_def word_less_nat_alt)
qed

text \<open>C7: \<open>MpscRing\<close> and \<open>MpscTicketRing\<close>: in every interleaving of any number of producers with
  the consumer, the items delivered are a prefix of the items accepted, in ticket order.\<close>
theorem mpsc_fifo:
  assumes "is_pow2 (length storage)" and "2 \<le> length storage" and "length storage < 2 ^ 64"
    and "mpsc_reachable tickets c storage s"
  shows "map snd (delivered s) = take (length (delivered s)) (accepted s)"
proof -
  have m: "single_inv c s" by (rule mpsc_reachable_inv [OF assms])
  then have "unat (dequeue_pos s) \<le> length (accepted s)"
    using slot_invD(2) [of s] by (simp add: single_inv_def)
  then have "map (\<lambda>i. accepted s ! i) [0..<unat (dequeue_pos s)] = take (unat (dequeue_pos s)) (accepted s)"
    by (intro nth_equalityI) simp_all
  then show ?thesis using m by (simp add: single_inv_def o_def)
qed

text \<open>In every reachable state of the three queues, while a thread is about to write the item of
  a slot no other thread is about to read or write that slot.\<close>
theorem shared_queue_no_race:
  assumes "is_pow2 (length storage)" and "2 \<le> length storage" and "length storage < 2 ^ 64"
    and "mpmc_reachable storage s \<or> mpsc_reachable tickets c storage s"
    and "u \<noteq> t" and "pcs s t = Push_Write p xs" and "stands_at (pcs s u) = Some p'"
  shows "slot_index s p' \<noteq> slot_index s p"
proof -
  have "slot_inv s"
    using assms(4) mpmc_reachable_inv [OF assms(1-3)] mpsc_reachable_inv [OF assms(1-3)]
    by (auto simp: multi_inv_def single_inv_def)
  then show ?thesis by (rule slot_no_race [OF _ assms(5-7)])
qed

text \<open>Two producers and one popper under way on a ring of two slots.\<close>

definition demo_queue :: "nat slot_ring" where
  "demo_queue =
     await_item 2 0 (take_pop_ticket 2 (wait_turn 1 1 [9] (take_push_tickets 1 [9]
       (publish_item 0 0 [7] (write_item 0 0 [7] (wait_turn 0 0 [7] (take_push_tickets 0 [7]
         (slot_ring_new [0, 0]))))))))"

definition demo_popped :: "nat slot_ring" where
  "demo_popped = release_slot 2 0 7 (read_item 2 0 demo_queue)"

lemma demo_queue_reachable: "mpmc_reachable [0, 0] demo_queue"
proof -
  let ?a = "take_push_tickets 0 [7] (slot_ring_new [0, 0 :: nat])"
  let ?b = "wait_turn 0 0 [7] ?a"
  let ?c = "write_item 0 0 [7] ?b"
  let ?d = "publish_item 0 0 [7] ?c"
  let ?e = "take_push_tickets 1 [9] ?d"
  let ?f = "wait_turn 1 1 [9] ?e"
  let ?g = "take_pop_ticket 2 ?f"
  have "ticket_push_step (slot_ring_new [0, 0]) ?a"
    by (rule ticket_push_step.call) (code_simp, simp add: slot_ring_new_def)
  note r = mpmc_reachable.step [OF mpmc_reachable.start, unfolded mpmc_step_def, OF disjI1 [OF this]]
  have "producer_step ?a ?b" by (rule producer_step.wait) code_simp
  note r = mpmc_reachable.step [OF r, unfolded mpmc_step_def, OF disjI2 [OF disjI1 [OF this]]]
  have "producer_step ?b ?c" by (rule producer_step.wr) code_simp
  note r = mpmc_reachable.step [OF r, unfolded mpmc_step_def, OF disjI2 [OF disjI1 [OF this]]]
  have "producer_step ?c ?d" by (rule producer_step.pub) code_simp
  note r = mpmc_reachable.step [OF r, unfolded mpmc_step_def, OF disjI2 [OF disjI1 [OF this]]]
  have "enqueue_pos ?d = 1" "enqueue_pos ?f = 2" "dequeue_pos ?f = 0" by code_simp+
  then have "ticket_push_step ?d ?e" "ticket_pop_step ?f ?g"
    by (auto intro!: ticket_push_step.call ticket_pop_step.call) (code_simp+)
  note r = mpmc_reachable.step [OF r, unfolded mpmc_step_def, OF disjI1 [OF \<open>ticket_push_step ?d ?e\<close>]]
  have "producer_step ?e ?f" by (rule producer_step.wait) code_simp
  note r = mpmc_reachable.step [OF r, unfolded mpmc_step_def, OF disjI2 [OF disjI1 [OF this]]]
  note r = mpmc_reachable.step [OF r, unfolded mpmc_step_def, OF disjI2 [OF disjI2 [OF \<open>ticket_pop_step ?f ?g\<close>]]]
  have "ticket_pop_step ?g demo_queue"
    unfolding demo_queue_def by (rule ticket_pop_step.wait) code_simp
  from mpmc_reachable.step [OF r, unfolded mpmc_step_def, OF disjI2 [OF disjI2 [OF this]]]
  show ?thesis .
qed

lemma demo_popped_reachable: "mpmc_reachable [0, 0] demo_popped"
proof -
  have "ticket_pop_step demo_queue (read_item 2 0 demo_queue)"
    by (rule ticket_pop_step.rd) code_simp
  note r = mpmc_reachable.step [OF demo_queue_reachable, unfolded mpmc_step_def, OF disjI2 [OF disjI2 [OF this]]]
  have "ticket_pop_step (read_item 2 0 demo_queue) demo_popped"
    unfolding demo_popped_def by (rule ticket_pop_step.rel) code_simp
  from mpmc_reachable.step [OF r, unfolded mpmc_step_def, OF disjI2 [OF disjI2 [OF this]]]
  show ?thesis .
qed

lemma mpmc_exactly_once_witness:
  "delivered demo_popped = [(0, 7)] \<and> 7 = accepted demo_popped ! 0"
proof -
  have d: "delivered demo_popped = [(0, 7)]" by code_simp
  with mpmc_exactly_once [OF _ _ _ demo_popped_reachable] show ?thesis by simp
qed

lemma shared_queue_no_race_witness: "slot_index demo_queue 0 \<noteq> slot_index demo_queue 1"
proof -
  have t: "pcs demo_queue 1 = Push_Write 1 [9]" by code_simp
  have u: "stands_at (pcs demo_queue 2) = Some 0" by code_simp
  show ?thesis
    by (rule shared_queue_no_race [OF _ _ _ disjI1 [OF demo_queue_reachable] _ t u]) simp_all
qed

text \<open>A \<open>try_push\<close> and a pop on the single-consumer ring.\<close>

definition demo_mpsc :: "nat slot_ring" where
  "demo_mpsc = advance_dequeue_pos 0 0 7 (release_slot_single 0 0 7 (read_item 0 0 (check_item 0 0
     (load_dequeue_pos 0 (publish_item 1 0 [7] (write_item 1 0 [7] (try_cas 1 0 7 (try_seq 1 0 7
       (load_enqueue_pos 1 7 (slot_ring_new [0, 0]))))))))))"

lemmas mpsc_extend =
  mpsc_reachable.step [unfolded mpsc_step_def, where tickets = False, simplified if_False,
    OF _ disjI1]
  mpsc_reachable.step [unfolded mpsc_step_def, where tickets = False, simplified if_False,
    OF _ disjI2 [OF disjI1]]
  mpsc_reachable.step [unfolded mpsc_step_def, where tickets = False, simplified if_False,
    OF _ disjI2 [OF disjI2]]

lemma demo_mpsc_reachable: "mpsc_reachable False 0 [0, 0] demo_mpsc"
proof -
  let ?a = "load_enqueue_pos 1 7 (slot_ring_new [0, 0 :: nat])"
  let ?b = "try_seq 1 0 7 ?a"
  let ?c = "try_cas 1 0 7 ?b"
  let ?d = "write_item 1 0 [7] ?c"
  let ?e = "publish_item 1 0 [7] ?d"
  let ?f = "load_dequeue_pos 0 ?e"
  let ?g = "check_item 0 0 ?f"
  let ?h = "read_item 0 0 ?g"
  let ?i = "release_slot_single 0 0 7 ?h"
  have "try_push_step (slot_ring_new [0, 0]) ?a" by (rule try_push_step.call) code_simp
  note r = mpsc_extend(1) [OF mpsc_reachable.start this]
  have "try_push_step ?a ?b" by (rule try_push_step.test) code_simp
  note r = mpsc_extend(1) [OF r this]
  have "enqueue_pos ?b = 0" by code_simp
  then have "try_push_step ?b ?c" by (intro try_push_step.cas) (code_simp, simp)
  note r = mpsc_extend(1) [OF r this]
  have "producer_step ?c ?d" by (rule producer_step.wr) code_simp
  note r = mpsc_extend(2) [OF r this]
  have "producer_step ?d ?e" by (rule producer_step.pub) code_simp
  note r = mpsc_extend(2) [OF r this]
  have "single_pop_step 0 ?e ?f" by (rule single_pop_step.call) code_simp
  note r = mpsc_extend(3) [OF r this]
  have "single_pop_step 0 ?f ?g" by (rule single_pop_step.test) code_simp
  note r = mpsc_extend(3) [OF r this]
  have "single_pop_step 0 ?g ?h" by (rule single_pop_step.rd) code_simp
  note r = mpsc_extend(3) [OF r this]
  have "single_pop_step 0 ?h ?i" by (rule single_pop_step.rel) code_simp
  note r = mpsc_extend(3) [OF r this]
  have "single_pop_step 0 ?i demo_mpsc"
    unfolding demo_mpsc_def by (rule single_pop_step.adv) code_simp
  from mpsc_extend(3) [OF r this] show ?thesis .
qed

lemma mpsc_fifo_witness: "map snd (delivered demo_mpsc) = [7]"
proof -
  have "length (delivered demo_mpsc) = 1" "accepted demo_mpsc = [7]" by code_simp+
  with mpsc_fifo [OF _ _ _ demo_mpsc_reachable] show ?thesis by simp
qed

end
