(* ===== verification/Fan_In.thy ===== *)
theory Fan_In
  imports Spsc_Ring
begin

text \<open>
  \<open>SpscFanIn\<close> of \<open>src/src/concurrency/spsc_fan_in.hpp\<close>: one ring per producer, polled by the
  consumer in round-robin order. The lemmas show which lane a pop serves and that no lane with
  items waits for more than one round.
\<close>

section \<open>State and operations\<close>

record 'a fan_in =
  lanes :: "'a spsc_ring list"
  next_consumer_lane :: nat

definition Producers :: "('a, 'z) fan_in_scheme \<Rightarrow> nat" where
  "Producers f = length (lanes f)"

definition fan_new :: "'a list list \<Rightarrow> 'a fan_in" where
  "fan_new storages = \<lparr>lanes = map spsc_new storages, next_consumer_lane = 0\<rparr>"

definition fan_try_push :: "bool \<Rightarrow> nat \<Rightarrow> 'a \<Rightarrow> 'a fan_in \<Rightarrow> bool \<times> 'a fan_in" where
  "fan_try_push arm producer_index item f =
     (if producer_index \<ge> Producers f then (False, f)
      else let (ok, lane) = spsc_push arm item (lanes f ! producer_index)
           in (ok, f\<lparr>lanes := (lanes f)[producer_index := lane]\<rparr>))"

definition fan_push_batch :: "bool \<Rightarrow> nat \<Rightarrow> 'a list \<Rightarrow> 'a fan_in \<Rightarrow> nat \<times> 'a fan_in" where
  "fan_push_batch arm producer_index xs f =
     (if producer_index \<ge> Producers f then (0, f)
      else let (n, lane) = spsc_push_batch arm xs (lanes f ! producer_index)
           in (n, f\<lparr>lanes := (lanes f)[producer_index := lane]\<rparr>))"

text \<open>The polling loops, from a given attempt on. The result carries the lane that answered.\<close>

function fan_pop_from :: "bool \<Rightarrow> nat \<Rightarrow> 'a fan_in \<Rightarrow> (nat \<times> 'a) option \<times> 'a fan_in" where
  "fan_pop_from arm attempt f =
     (if attempt < Producers f then
        let index = (next_consumer_lane f + attempt) mod Producers f;
            (out, lane) = spsc_pop arm (lanes f ! index);
            f' = f\<lparr>lanes := (lanes f)[index := lane]\<rparr>
        in case out of
             Some x \<Rightarrow> (Some (index, x), f'\<lparr>next_consumer_lane := (index + 1) mod Producers f\<rparr>)
           | None \<Rightarrow> fan_pop_from arm (Suc attempt) f'
      else (None, f))"
  by pat_completeness auto
termination
  by (relation "measure (\<lambda>(arm, attempt, f). Producers f - attempt)") (auto simp: Producers_def)

definition fan_pop :: "bool \<Rightarrow> 'a fan_in \<Rightarrow> (nat \<times> 'a) option \<times> 'a fan_in" where
  "fan_pop arm f = fan_pop_from arm 0 f"

function fan_pop_batch_from ::
    "bool \<Rightarrow> nat \<Rightarrow> nat \<Rightarrow> 'a fan_in \<Rightarrow> (nat \<times> 'a list) option \<times> 'a fan_in" where
  "fan_pop_batch_from arm count attempt f =
     (if attempt < Producers f then
        let index = (next_consumer_lane f + attempt) mod Producers f;
            (out, lane) = spsc_pop_batch arm count (lanes f ! index);
            f' = f\<lparr>lanes := (lanes f)[index := lane]\<rparr>
        in if length out \<noteq> 0
           then (Some (index, out), f'\<lparr>next_consumer_lane := (index + 1) mod Producers f\<rparr>)
           else fan_pop_batch_from arm count (Suc attempt) f'
      else (None, f))"
  by pat_completeness auto
termination
  by (relation "measure (\<lambda>(arm, count, attempt, f). Producers f - attempt)") (auto simp: Producers_def)

definition fan_pop_batch :: "bool \<Rightarrow> nat \<Rightarrow> 'a fan_in \<Rightarrow> (nat \<times> 'a list) option \<times> 'a fan_in" where
  "fan_pop_batch arm count f = fan_pop_batch_from arm count 0 f"

definition fan_reset :: "'a fan_in \<Rightarrow> 'a fan_in" where
  "fan_reset f = f\<lparr>lanes := map spsc_reset (lanes f), next_consumer_lane := 0\<rparr>"

declare fan_pop_from.simps [simp del] fan_pop_batch_from.simps [simp del]

section \<open>Contents\<close>

definition fan_inv :: "'a fan_in \<Rightarrow> bool" where
  "fan_inv f \<longleftrightarrow> 0 < Producers f \<and> next_consumer_lane f < Producers f \<and> (\<forall>l \<in> set (lanes f). spsc_inv l)"

definition fan_items :: "'a fan_in \<Rightarrow> 'a list list" where
  "fan_items f = map spsc_items (lanes f)"

text \<open>How far lane \<open>j\<close> is ahead of the lane polled first.\<close>

definition lane_distance :: "'a fan_in \<Rightarrow> nat \<Rightarrow> nat" where
  "lane_distance f j = (j + Producers f - next_consumer_lane f) mod Producers f"

lemma fan_inv_new:
  "storages \<noteq> [] \<Longrightarrow> (\<And>s. s \<in> set storages \<Longrightarrow> is_pow2 (length s) \<and> length s < 2 ^ 63) \<Longrightarrow>
     fan_inv (fan_new storages)"
  by (auto simp: fan_inv_def fan_new_def Producers_def intro: spsc_inv_new)

lemma fan_inv_lane: "fan_inv f \<Longrightarrow> i < Producers f \<Longrightarrow> spsc_inv (lanes f ! i)"
  by (simp add: fan_inv_def Producers_def)

lemma fan_inv_update:
  assumes "fan_inv f" and "spsc_inv lane"
  shows "fan_inv (f\<lparr>lanes := (lanes f)[i := lane]\<rparr>)"
  using assms set_update_subset_insert [of "lanes f" i lane] by (auto simp: fan_inv_def Producers_def)

lemma fan_items_update:
  "i < Producers f \<Longrightarrow> fan_items (f\<lparr>lanes := (lanes f)[i := lane]\<rparr>) = (fan_items f)[i := spsc_items lane]"
  by (simp add: fan_items_def map_update)

lemma fan_push_batch_correct:
  assumes inv: "fan_inv f" and p: "fan_push_batch arm i xs f = (n, f')"
  shows "fan_inv f'" "fan_items f' = (fan_items f)[i := fan_items f ! i @ take n xs]"
    "i < Producers f \<Longrightarrow> n = min (length xs) (spsc_cap (lanes f ! i) - length (fan_items f ! i))"
proof -
  have "fan_inv f' \<and> fan_items f' = (fan_items f)[i := fan_items f ! i @ take n xs] \<and>
    (i < Producers f \<longrightarrow> n = min (length xs) (spsc_cap (lanes f ! i) - length (fan_items f ! i)))"
  proof (cases "i < Producers f")
    case True
    obtain lane where l: "spsc_push_batch arm xs (lanes f ! i) = (n, lane)"
      and f': "f' = f\<lparr>lanes := (lanes f)[i := lane]\<rparr>"
      using p True by (auto simp: fan_push_batch_def split: prod.splits)
    have it: "fan_items f ! i = spsc_items (lanes f ! i)" using True by (simp add: fan_items_def Producers_def)
    show ?thesis
      using spsc_push_batch_spec [OF fan_inv_lane [OF inv True], of arm xs] l True inv
      by (simp add: f' fan_items_update it fan_inv_update)
  next
    case False
    then show ?thesis using p inv by (auto simp: fan_push_batch_def fan_items_def Producers_def)
  qed
  then show "fan_inv f'" "fan_items f' = (fan_items f)[i := fan_items f ! i @ take n xs]"
    "i < Producers f \<Longrightarrow> n = min (length xs) (spsc_cap (lanes f ! i) - length (fan_items f ! i))"
    by simp_all
qed

section \<open>Which lane is served\<close>

lemma fan_pop_batch_from_stop:
  "Producers f \<le> attempt \<Longrightarrow> fan_pop_batch_from arm count attempt f = (None, f)"
  by (subst fan_pop_batch_from.simps) simp

lemma fan_pop_batch_from_hit:
  "attempt < Producers f \<Longrightarrow> i = (next_consumer_lane f + attempt) mod Producers f \<Longrightarrow>
     spsc_pop_batch arm count (lanes f ! i) = (xs, lane) \<Longrightarrow> xs \<noteq> [] \<Longrightarrow>
     fan_pop_batch_from arm count attempt f =
       (Some (i, xs), f\<lparr>lanes := (lanes f)[i := lane], next_consumer_lane := (i + 1) mod Producers f\<rparr>)"
  by (subst fan_pop_batch_from.simps) (simp add: Let_def)

lemma fan_pop_batch_from_miss:
  "attempt < Producers f \<Longrightarrow> i = (next_consumer_lane f + attempt) mod Producers f \<Longrightarrow>
     spsc_pop_batch arm count (lanes f ! i) = ([], lane) \<Longrightarrow>
     fan_pop_batch_from arm count attempt f =
       fan_pop_batch_from arm count (Suc attempt) (f\<lparr>lanes := (lanes f)[i := lane]\<rparr>)"
  by (subst fan_pop_batch_from.simps) (simp add: Let_def)

lemma fan_pop_batch_from_correct:
  assumes "fan_inv f" and "0 < count" and "attempt \<le> Producers f"
    and "\<And>a. a < attempt \<Longrightarrow> fan_items f ! ((next_consumer_lane f + a) mod Producers f) = []"
    and "fan_pop_batch_from arm count attempt f = (out, f')"
  shows "fan_inv f' \<and> Producers f' = Producers f \<and>
    (case out of
       None \<Rightarrow> (\<forall>a < Producers f. fan_items f ! ((next_consumer_lane f + a) mod Producers f) = []) \<and>
         fan_items f' = fan_items f \<and> next_consumer_lane f' = next_consumer_lane f
     | Some (i, xs) \<Rightarrow> \<exists>a < Producers f. i = (next_consumer_lane f + a) mod Producers f \<and>
         (\<forall>b < a. fan_items f ! ((next_consumer_lane f + b) mod Producers f) = []) \<and>
         xs \<noteq> [] \<and> xs = take count (fan_items f ! i) \<and>
         fan_items f' = (fan_items f)[i := drop count (fan_items f ! i)] \<and>
         next_consumer_lane f' = (i + 1) mod Producers f)"
  using assms
proof (induction "Producers f - attempt" arbitrary: f attempt)
  case 0
  then have "fan_pop_batch_from arm count attempt f = (None, f)" "attempt = Producers f"
    by (simp_all add: fan_pop_batch_from_stop)
  with 0 show ?case by simp
next
  case (Suc d)
  note inv = \<open>fan_inv f\<close>
  have lt: "attempt < Producers f" using Suc.hyps(2) by simp
  let ?i = "(next_consumer_lane f + attempt) mod Producers f"
  have i: "?i < Producers f" using lt by simp
  obtain xs lane where l: "spsc_pop_batch arm count (lanes f ! ?i) = (xs, lane)" by fastforce
  have it: "fan_items f ! ?i = spsc_items (lanes f ! ?i)" using i by (simp add: fan_items_def Producers_def)
  have L: "xs = take count (fan_items f ! ?i)" "spsc_items lane = drop count (fan_items f ! ?i)" "spsc_inv lane"
    using spsc_pop_batch_spec [OF fan_inv_lane [OF inv i], of arm count] l by (simp_all add: it)
  let ?f = "f\<lparr>lanes := (lanes f)[?i := lane]\<rparr>"
  have inv': "fan_inv ?f" by (rule fan_inv_update [OF inv L(3)])
  have items': "fan_items ?f = (fan_items f)[?i := drop count (fan_items f ! ?i)]"
    using i L(2) by (simp add: fan_items_update)
  have P: "Producers ?f = Producers f" by (simp add: Producers_def)
  have N: "next_consumer_lane ?f = next_consumer_lane f" by simp
  show ?case
  proof (cases "xs = []")
    case False
    then have "out = Some (?i, xs)" "f' = ?f\<lparr>next_consumer_lane := (?i + 1) mod Producers f\<rparr>"
      using Suc.prems(5) fan_pop_batch_from_hit [OF lt refl l False] by simp_all
    moreover have "fan_inv (?f\<lparr>next_consumer_lane := (?i + 1) mod Producers f\<rparr>)"
      using inv' i by (simp add: fan_inv_def Producers_def)
    moreover have "fan_items (g\<lparr>next_consumer_lane := k\<rparr>) = fan_items g"
      "Producers (g\<lparr>next_consumer_lane := k\<rparr>) = Producers g" for g :: "'a fan_in" and k
      by (simp_all add: fan_items_def Producers_def)
    ultimately show ?thesis
      using False lt L(1) items' P Suc.prems(4) by (simp add: exI [of _ attempt])
  next
    case True
    then have e: "fan_items f ! ?i = []" using L(1) Suc.prems(2) by simp
    then have same: "fan_items ?f = fan_items f" using items' by (metis drop_Nil list_update_id)
    have r: "fan_pop_batch_from arm count (Suc attempt) ?f = (out, f')"
      using Suc.prems(5) fan_pop_batch_from_miss [OF lt refl] l True by simp
    have empt: "fan_items f ! ((next_consumer_lane f + a) mod Producers f) = []" if "a < Suc attempt" for a
      using that e Suc.prems(4) by (cases "a = attempt") simp_all
    show ?thesis
      using Suc.hyps(1) [of ?f "Suc attempt", OF _ inv' Suc.prems(2) _ _ r] Suc.hyps(2) lt empt
      by (simp only: P N same)
  qed
qed


lemma lane_distance_eq:
  assumes "fan_inv f" and "a < Producers f" and "j = (next_consumer_lane f + a) mod Producers f"
  shows "lane_distance f j = a"
proof -
  let ?n = "next_consumer_lane f" and ?P = "Producers f"
  have n: "?n < ?P" using assms(1) by (simp add: fan_inv_def)
  show ?thesis
  proof (cases "?n + a < ?P")
    case True
    then have "j + ?P - ?n = a + ?P" using assms(3) by simp
    then show ?thesis using assms(2) by (simp add: lane_distance_def)
  next
    case False
    then have "j = ?n + a - ?P" using assms(2,3) n mod_wrap [of ?n ?P a] by simp
    then have "j + ?P - ?n = a" using False by simp
    then show ?thesis using assms(2) by (simp add: lane_distance_def)
  qed
qed

lemma lane_at_distance:
  assumes "fan_inv f" and "j < Producers f"
  shows "j = (next_consumer_lane f + lane_distance f j) mod Producers f"
proof -
  have "next_consumer_lane f < Producers f" using assms(1) by (simp add: fan_inv_def)
  then show ?thesis using assms(2)
    by (simp add: lane_distance_def mod_add_right_eq)
qed

lemma lane_distance_lt: "fan_inv f \<Longrightarrow> lane_distance f j < Producers f"
  by (simp add: lane_distance_def fan_inv_def)

section \<open>Properties\<close>

text \<open>A batch pop serves the first lane with items in round-robin order, with the oldest items
  of that lane, and leaves every other lane alone; it returns nothing only if all lanes are
  empty.\<close>
theorem fan_pop_batch_serves_first_lane:
  assumes "fan_inv f" and "0 < count" and "fan_pop_batch arm count f = (out, f')"
  shows "case out of
      None \<Rightarrow> (\<forall>i < Producers f. fan_items f ! i = []) \<and> fan_items f' = fan_items f
    | Some (i, xs) \<Rightarrow> i < Producers f \<and> xs \<noteq> [] \<and> xs = take count (fan_items f ! i) \<and>
        fan_items f' = (fan_items f)[i := drop count (fan_items f ! i)] \<and>
        (\<forall>j < Producers f. fan_items f ! j \<noteq> [] \<longrightarrow> lane_distance f i \<le> lane_distance f j)"
proof -
  note C = fan_pop_batch_from_correct [OF assms(1,2) le0 _ assms(3) [unfolded fan_pop_batch_def], simplified]
  show ?thesis
  proof (cases out)
    case None
    have "fan_items f ! i = []" if i: "i < Producers f" for i
      using C None lane_distance_lt [OF assms(1), of i] lane_at_distance [OF assms(1) i] by auto
    then show ?thesis using C None by simp
  next
    case (Some w)
    then obtain i xs where o: "out = Some (i, xs)" by (cases w) simp
    with C obtain a where a: "a < Producers f" "i = (next_consumer_lane f + a) mod Producers f"
      "\<forall>b < a. fan_items f ! ((next_consumer_lane f + b) mod Producers f) = []"
      and rest: "xs \<noteq> []" "xs = take count (fan_items f ! i)"
        "fan_items f' = (fan_items f)[i := drop count (fan_items f ! i)]"
      by auto
    have "a \<le> lane_distance f j" if j: "j < Producers f" "fan_items f ! j \<noteq> []" for j
      using a(3) lane_at_distance [OF assms(1) j(1)] j(2) by (metis not_le)
    then show ?thesis
      using a rest lane_distance_eq [OF assms(1) a(1,2)] by (simp add: o)
  qed
qed

text \<open>C8: No lane starves: a pop either serves a given lane that has items or moves the polling
  position strictly closer to it, so the lane is served within \<open>Producers\<close> pops, whatever the
  producers push in between.\<close>
theorem fan_in_fair:
  assumes "fan_inv f" and "0 < count" and "j < Producers f" and "fan_items f ! j \<noteq> []"
    and "fan_pop_batch arm count f = (out, f')"
  shows "fan_inv f' \<and> (\<exists>i xs. out = Some (i, xs) \<and>
    (i = j \<or> fan_items f' ! j = fan_items f ! j \<and> lane_distance f' j < lane_distance f j))"
proof -
  note C = fan_pop_batch_from_correct [OF assms(1,2) le0 _ assms(5) [unfolded fan_pop_batch_def], simplified]
  let ?d = "lane_distance f j" and ?n = "next_consumer_lane f" and ?P = "Producers f"
  have j: "j = (?n + ?d) mod ?P" by (rule lane_at_distance [OF assms(1,3)])
  have d: "?d < ?P" by (rule lane_distance_lt [OF assms(1)])
  have "out \<noteq> None"
  proof
    assume "out = None"
    then have "\<forall>a < ?P. fan_items f ! ((?n + a) mod ?P) = []" using C by simp
    then show False using j d assms(4) by metis
  qed
  then obtain i xs where o: "out = Some (i, xs)" by auto
  with C obtain a where a: "a < ?P" "i = (?n + a) mod ?P" "\<forall>b < a. fan_items f ! ((?n + b) mod ?P) = []"
    and items: "fan_items f' = (fan_items f)[i := drop count (fan_items f ! i)]"
    and nx: "next_consumer_lane f' = (i + 1) mod ?P" and inv: "fan_inv f'" and P: "Producers f' = ?P"
    by auto
  have le: "a \<le> ?d" using a(3) j assms(4) by (metis not_le)
  show ?thesis
  proof (cases "i = j")
    case True
    then show ?thesis using inv o by simp
  next
    case False
    then have lt: "a < ?d" using le j a(2) by (cases "a = ?d") auto
    have "(((?n + a) mod ?P + 1) mod ?P + (?d - a - 1)) mod ?P = (?n + a + 1 + (?d - a - 1)) mod ?P"
      by (metis mod_add_left_eq)
    also have "?n + a + 1 + (?d - a - 1) = ?n + ?d" using lt by simp
    finally have "j = (next_consumer_lane f' + (?d - a - 1)) mod Producers f'"
      using j by (simp only: nx P a(2))
    then have "lane_distance f' j = ?d - a - 1"
      using d P by (intro lane_distance_eq [OF inv]) simp_all
    then show ?thesis using inv o False lt items by simp
  qed
qed

definition demo_fan :: "nat fan_in" where
  "demo_fan = snd (fan_push_batch True 1 [4, 5] (snd (fan_push_batch True 0 [1, 2]
     (fan_new [[0, 0], [0, 0]]))))"

lemma demo_fan_inv: "fan_inv demo_fan"
proof -
  have "fan_inv (fan_new [[0, 0], [0, 0 :: nat]])" by (rule fan_inv_new) auto
  then show ?thesis
    unfolding demo_fan_def by (intro fan_push_batch_correct(1) [OF _ prod.collapse [symmetric]])
qed

lemma demo_fan_shape: "Producers demo_fan = 2" "fan_items demo_fan = [[1, 2], [4, 5]]"
  by code_simp+

lemma fan_pop_batch_serves_first_lane_witness:
  "fst (fan_pop_batch True 9 demo_fan) = Some (0, [1, 2])"
proof -
  have "fst (fan_pop_batch True 9 demo_fan) = Some (0, [1, 2])" by code_simp
  with fan_pop_batch_serves_first_lane [OF demo_fan_inv _ prod.collapse [symmetric], of 9 True]
  have "[1, 2] = take 9 (fan_items demo_fan ! 0)" by simp
  then show ?thesis using \<open>fst (fan_pop_batch True 9 demo_fan) = Some (0, [1, 2])\<close> by simp
qed

lemma fan_in_fair_witness:
  "lane_distance (snd (fan_pop_batch True 9 demo_fan)) 1 < lane_distance demo_fan 1"
proof -
  have o: "fst (fan_pop_batch True 9 demo_fan) = Some (0, [1, 2])" by code_simp
  show ?thesis
    using fan_in_fair [OF demo_fan_inv _ _ _ prod.collapse [symmetric], of 9 1 True] o
    by (simp add: demo_fan_shape)
qed

end
