(* ===== verification/Spin_Lock.thy ===== *)
theory Spin_Lock
  imports Prelude
begin

text \<open>
  \<open>BackoffSpinLock\<close> of \<open>src/src/concurrency/backoff_spin_lock.hpp\<close>: the test-and-test-and-set
  lock with bounded probing and doubling pauses. Every access to \<open>state_\<close> is a step; the pauses
  and the yield have no effect on the state. \<open>Holding\<close> is the code between a successful
  \<open>lock\<close> or \<open>try_lock\<close> and \<open>unlock\<close>.
\<close>

datatype lock_pc =
    Outside
  | Entering
  | Probing nat u32
  | Claiming u32
  | Backoff u32
  | Holding

record spin_lock =
  state :: u32
  lock_pcs :: "nat \<Rightarrow> lock_pc"

definition kProbeCount :: nat where "kProbeCount = 8"

definition kMaxPauseCount :: u32 where "kMaxPauseCount = 1024"

definition lock_new :: spin_lock where
  "lock_new = \<lparr>state = 0, lock_pcs = (\<lambda>_. Outside)\<rparr>"

definition lock_goto :: "nat \<Rightarrow> lock_pc \<Rightarrow> spin_lock \<Rightarrow> spin_lock" where
  "lock_goto t pc l = l\<lparr>lock_pcs := (lock_pcs l)(t := pc)\<rparr>"

text \<open>\<open>state_.exchange(1u)\<close>, and where the thread goes when it finds the lock free or held.\<close>

definition lock_exchange :: "nat \<Rightarrow> lock_pc \<Rightarrow> lock_pc \<Rightarrow> spin_lock \<Rightarrow> spin_lock" where
  "lock_exchange t won lost l =
     lock_goto t (if state l = 0 then won else lost) (l\<lparr>state := 1\<rparr>)"

text \<open>One turn of the probe loop: a load, then either an attempt or the next probe; after the last
  probe the thread backs off.\<close>

definition lock_probe :: "nat \<Rightarrow> nat \<Rightarrow> u32 \<Rightarrow> spin_lock \<Rightarrow> spin_lock" where
  "lock_probe t probe pause_count l =
     (if probe < kProbeCount
      then lock_goto t (if state l \<noteq> 0 then Probing (Suc probe) pause_count else Claiming pause_count) l
      else lock_goto t (Backoff pause_count) l)"

definition lock_backoff :: "nat \<Rightarrow> u32 \<Rightarrow> spin_lock \<Rightarrow> spin_lock" where
  "lock_backoff t pause_count l =
     lock_goto t (Probing 0 (if pause_count \<le> kMaxPauseCount then push_bit 1 pause_count else pause_count)) l"

definition unlock :: "nat \<Rightarrow> spin_lock \<Rightarrow> spin_lock" where
  "unlock t l = lock_goto t Outside (l\<lparr>state := 0\<rparr>)"

inductive lock_step :: "spin_lock \<Rightarrow> spin_lock \<Rightarrow> bool" where
  enter: "lock_pcs l t = Outside \<Longrightarrow> lock_step l (lock_exchange t Holding (Probing 0 1) l)"
| try_lock: "lock_pcs l t = Outside \<Longrightarrow> lock_step l (lock_exchange t Holding Outside l)"
| probe: "lock_pcs l t = Probing n c \<Longrightarrow> lock_step l (lock_probe t n c l)"
| claim: "lock_pcs l t = Claiming c \<Longrightarrow> lock_step l (lock_exchange t Holding (Backoff c) l)"
| backoff: "lock_pcs l t = Backoff c \<Longrightarrow> lock_step l (lock_backoff t c l)"
| unlock: "lock_pcs l t = Holding \<Longrightarrow> lock_step l (unlock t l)"

inductive lock_reachable :: "spin_lock \<Rightarrow> bool" where
  start: "lock_reachable lock_new"
| step: "lock_reachable l \<Longrightarrow> lock_step l l' \<Longrightarrow> lock_reachable l'"

inductive_cases lock_stepE: "lock_step l l'"

text \<open>The flag is up exactly while some thread holds the lock, and only one does.\<close>

definition lock_inv :: "spin_lock \<Rightarrow> bool" where
  "lock_inv l \<longleftrightarrow> (state l \<noteq> 0 \<longleftrightarrow> (\<exists>t. lock_pcs l t = Holding)) \<and>
     (\<forall>t u. lock_pcs l t = Holding \<longrightarrow> lock_pcs l u = Holding \<longrightarrow> t = u)"

lemma lock_exchange_inv:
  assumes inv: "lock_inv l" and pc: "lock_pcs l t \<noteq> Holding" "lost \<noteq> Holding"
  shows "lock_inv (lock_exchange t Holding lost l)"
proof (cases "state l = 0")
  case True
  then have "lock_pcs l u \<noteq> Holding" for u using inv by (auto simp: lock_inv_def)
  then show ?thesis using True by (auto simp: lock_inv_def lock_exchange_def lock_goto_def)
next
  case False
  then obtain u where "lock_pcs l u = Holding" using inv by (auto simp: lock_inv_def)
  then show ?thesis using False inv pc
    by (auto simp: lock_inv_def lock_exchange_def lock_goto_def intro!: exI [of _ u])
qed

lemma lock_goto_inv:
  "lock_inv l \<Longrightarrow> lock_pcs l t \<noteq> Holding \<Longrightarrow> pc \<noteq> Holding \<Longrightarrow> lock_inv (lock_goto t pc l)"
  by (auto simp: lock_inv_def lock_goto_def)

lemma unlock_inv:
  assumes "lock_inv l" and "lock_pcs l t = Holding"
  shows "lock_inv (unlock t l)"
proof -
  have "lock_pcs l u \<noteq> Holding" if "u \<noteq> t" for u using assms that by (auto simp: lock_inv_def)
  then show ?thesis by (auto simp: lock_inv_def unlock_def lock_goto_def)
qed

lemma lock_step_inv:
  assumes "lock_step l l'" and "lock_inv l"
  shows "lock_inv l'"
  using assms(1)
  by (cases rule: lock_stepE)
    (use assms(2) in \<open>auto simp: lock_probe_def lock_backoff_def
      intro!: lock_exchange_inv lock_goto_inv unlock_inv\<close>)

text \<open>The pause doubles up to \<open>2 * kMaxPauseCount\<close> and never wraps to zero.\<close>

fun pause_ok :: "lock_pc \<Rightarrow> bool" where
  "pause_ok (Probing n c) \<longleftrightarrow> (\<exists>k \<le> 11. c = 2 ^ k)"
| "pause_ok (Claiming c) \<longleftrightarrow> (\<exists>k \<le> 11. c = 2 ^ k)"
| "pause_ok (Backoff c) \<longleftrightarrow> (\<exists>k \<le> 11. c = 2 ^ k)"
| "pause_ok _ \<longleftrightarrow> True"

lemma pause_step_ok:
  assumes "\<exists>k \<le> 11. c = 2 ^ k"
  shows "\<exists>k \<le> 11. (if c \<le> kMaxPauseCount then push_bit 1 c else c) = (2 ^ k :: u32)"
proof -
  obtain k where k: "k \<le> 11" "c = 2 ^ k" using assms by blast
  show ?thesis
  proof (cases "k = 11")
    case True
    then show ?thesis using k by (auto simp: kMaxPauseCount_def intro!: exI [of _ 11])
  next
    case False
    have "push_bit 1 c = 2 ^ Suc k" by (simp add: k push_bit_eq_mult)
    then show ?thesis using k False
      by (cases "c \<le> kMaxPauseCount") (auto intro: exI [of _ "Suc k"] exI [of _ k])
  qed
qed

lemma lock_step_pause:
  assumes "lock_step l l'" and "\<forall>t. pause_ok (lock_pcs l t)"
  shows "\<forall>t. pause_ok (lock_pcs l' t)"
  using assms(1)
proof cases
  case (try_lock t)
  then show ?thesis using assms(2) by (auto simp: lock_exchange_def lock_goto_def)
next
  case (probe t n c)
  then show ?thesis using assms(2) spec [OF assms(2), of t]
    by (auto simp: lock_probe_def lock_goto_def)
next
  case (claim t c)
  then show ?thesis using assms(2) spec [OF assms(2), of t]
    by (auto simp: lock_exchange_def lock_goto_def)
next
  case (backoff t c)
  then have "\<exists>k \<le> 11. c = 2 ^ k" using spec [OF assms(2), of t] by simp
  moreover define d where "d = (if c \<le> kMaxPauseCount then push_bit 1 c else c)"
  ultimately have "\<exists>k \<le> 11. d = 2 ^ k" using pause_step_ok by blast
  then show ?thesis using backoff assms(2)
    by (simp add: lock_backoff_def lock_goto_def d_def [symmetric])
next
  case (unlock t)
  then show ?thesis using assms(2) by (auto simp: unlock_def lock_goto_def)
next
  case (enter t)
  have "\<exists>k \<le> 11. (1 :: u32) = 2 ^ k" by (intro exI [of _ 0]) simp
  then show ?thesis using enter assms(2) by (simp add: lock_exchange_def lock_goto_def)
qed

lemma lock_reachable_inv: "lock_reachable l \<Longrightarrow> lock_inv l \<and> (\<forall>t. pause_ok (lock_pcs l t))"
proof (induction rule: lock_reachable.induct)
  case start
  show ?case by (simp add: lock_inv_def lock_new_def)
next
  case (step l l')
  then show ?case using lock_step_inv lock_step_pause by blast
qed

section \<open>Properties\<close>

text \<open>C9: In every interleaving of any number of threads at most one holds the spin lock, the flag is
  up exactly while one does, and the pause count of a waiting thread stays a power of two between
  1 and 2048.\<close>
theorem spin_lock_mutual_exclusion:
  assumes "lock_reachable l"
  shows "(lock_pcs l t = Holding \<and> lock_pcs l u = Holding \<longrightarrow> t = u) \<and>
    (state l \<noteq> 0 \<longleftrightarrow> (\<exists>t. lock_pcs l t = Holding)) \<and> pause_ok (lock_pcs l t)"
  using lock_reachable_inv [OF assms] by (auto simp: lock_inv_def)

lemma spin_lock_mutual_exclusion_witness:
  "lock_pcs (lock_exchange 1 Holding (Probing 0 1) (lock_exchange 0 Holding (Probing 0 1) lock_new)) 1
    \<noteq> Holding"
proof -
  let ?a = "lock_exchange 0 Holding (Probing 0 1) lock_new"
  let ?b = "lock_exchange 1 Holding (Probing 0 1) ?a"
  have "lock_step lock_new ?a" by (rule lock_step.enter) (simp add: lock_new_def)
  note r = lock_reachable.step [OF lock_reachable.start this]
  have "lock_step ?a ?b"
    by (rule lock_step.enter) (simp add: lock_new_def lock_exchange_def lock_goto_def)
  note r = lock_reachable.step [OF r this]
  have "lock_pcs ?b 0 = Holding" by (simp add: lock_new_def lock_exchange_def lock_goto_def)
  then show ?thesis using spin_lock_mutual_exclusion [OF r, of 0 1] by auto
qed

end
