(* ===== verification/Epoch.thy ===== *)
theory Epoch
  imports Circular_Buffer
begin

text \<open>
  \<open>EpochManager\<close> of \<open>src/src/concurrency/epoch.hpp\<close>, operation by operation: participants with a
  published epoch and a retirement queue, and the single collector with its safe frontier. A
  pointer and a deleter are numbers, 0 is null; an operation that runs deleters returns the calls
  in order. The interleaving of readers, retirers and the collector is in the theory of epoch
  safety.
\<close>

section \<open>State\<close>

record retired_entry =
  re_ptr :: nat
  re_deleter :: nat
  re_epoch :: u64

record retire_queue =
  rq_head :: u64
  rq_tail :: u64
  rq_entries :: "retired_entry list"

record participant =
  p_epoch :: u64
  p_registered :: bool
  p_retired :: retire_queue

record epoch_manager =
  global_epoch :: u64
  collecting :: bool
  participants :: "participant list"
  safe_epoch :: u64
  has_safe_epoch :: bool

definition kGraceEpochs :: u64 where "kGraceEpochs = 3"

definition kInactiveEpoch :: u64 where "kInactiveEpoch = 0xFFFFFFFFFFFFFFFF"

definition empty_entry :: retired_entry where
  "empty_entry = \<lparr>re_ptr = 0, re_deleter = 0, re_epoch = 0\<rparr>"

definition queue_new :: "nat \<Rightarrow> retire_queue" where
  "queue_new n = \<lparr>rq_head = 0, rq_tail = 0, rq_entries = replicate n empty_entry\<rparr>"

definition epoch_new :: "nat \<Rightarrow> nat \<Rightarrow> epoch_manager" where
  "epoch_new threads retired =
     \<lparr>global_epoch = 0, collecting = False,
      participants = replicate threads
        \<lparr>p_epoch = kInactiveEpoch, p_registered = False, p_retired = queue_new retired\<rparr>,
      safe_epoch = 0, has_safe_epoch = False\<rparr>"

section \<open>Operations\<close>

definition get_participant :: "epoch_manager \<Rightarrow> int \<Rightarrow> nat option" where
  "get_participant m thread_id =
     (if thread_id < 0 \<or> thread_id \<ge> int (length (participants m)) then None else Some (nat thread_id))"

definition get_registered_participant :: "epoch_manager \<Rightarrow> int \<Rightarrow> nat option" where
  "get_registered_participant m thread_id =
     (case get_participant m thread_id of
        None \<Rightarrow> None
      | Some i \<Rightarrow> if p_registered (participants m ! i) then Some i else None)"

definition update_participant :: "nat \<Rightarrow> (participant \<Rightarrow> participant) \<Rightarrow> epoch_manager \<Rightarrow> epoch_manager" where
  "update_participant i g m = m\<lparr>participants := (participants m)[i := g (participants m ! i)]\<rparr>"

text \<open>The registration loop takes the first slot that is not registered.\<close>

function register_from :: "nat \<Rightarrow> epoch_manager \<Rightarrow> int \<times> epoch_manager" where
  "register_from i m =
     (if i < length (participants m) then
        if p_registered (participants m ! i) then register_from (Suc i) m
        else (int i, update_participant i (\<lambda>p. p\<lparr>p_epoch := kInactiveEpoch, p_registered := True\<rparr>) m)
      else (- 1, m))"
  by pat_completeness auto
termination
  by (relation "measure (\<lambda>(i, m). length (participants m) - i)") auto

declare register_from.simps [simp del]

definition register_thread :: "epoch_manager \<Rightarrow> int \<times> epoch_manager" where
  "register_thread m = register_from 0 m"

definition unregister_thread :: "int \<Rightarrow> epoch_manager \<Rightarrow> epoch_manager" where
  "unregister_thread thread_id m =
     (case get_participant m thread_id of
        None \<Rightarrow> m
      | Some i \<Rightarrow> update_participant i (\<lambda>p. p\<lparr>p_epoch := kInactiveEpoch, p_registered := False\<rparr>) m)"

text \<open>Undisturbed, the publication loop of \<open>enter\<close> ends in its first round.\<close>

definition enter :: "int \<Rightarrow> epoch_manager \<Rightarrow> epoch_manager" where
  "enter thread_id m =
     (case get_registered_participant m thread_id of
        None \<Rightarrow> m
      | Some i \<Rightarrow> update_participant i (\<lambda>p. p\<lparr>p_epoch := global_epoch m\<rparr>) m)"

definition leave :: "int \<Rightarrow> epoch_manager \<Rightarrow> epoch_manager" where
  "leave thread_id m =
     (case get_participant m thread_id of
        None \<Rightarrow> m
      | Some i \<Rightarrow> update_participant i (\<lambda>p. p\<lparr>p_epoch := kInactiveEpoch\<rparr>) m)"

definition rq_index :: "retire_queue \<Rightarrow> u64 \<Rightarrow> nat" where
  "rq_index q pos = unat (pos AND (of_nat (length (rq_entries q)) - 1))"

definition retire_push :: "nat \<Rightarrow> nat \<Rightarrow> u64 \<Rightarrow> retire_queue \<Rightarrow> bool \<times> retire_queue" where
  "retire_push ptr deleter epoch q =
     (if rq_head q - rq_tail q \<ge> of_nat (length (rq_entries q)) then (False, q)
      else (True, q\<lparr>rq_entries := (rq_entries q)[rq_index q (rq_head q) :=
               \<lparr>re_ptr = ptr, re_deleter = deleter, re_epoch = epoch\<rparr>],
             rq_head := rq_head q + 1\<rparr>))"

definition defer_delete :: "int \<Rightarrow> nat \<Rightarrow> nat \<Rightarrow> epoch_manager \<Rightarrow> bool \<times> epoch_manager" where
  "defer_delete thread_id ptr deleter m =
     (if ptr = 0 \<or> deleter = 0 then (False, m)
      else case get_registered_participant m thread_id of
             None \<Rightarrow> (False, m)
           | Some i \<Rightarrow>
               (let (ok, q) = retire_push ptr deleter (global_epoch m) (p_retired (participants m ! i))
                in (ok, update_participant i (\<lambda>p. p\<lparr>p_retired := q\<rparr>) m)))"

text \<open>
  \<open>drain_through\<close> runs the deleters from the oldest entry up to the first one retired after the
  safe epoch; \<open>drain_all\<close> is the shutdown. The loop ends because the tail walks to the head.
\<close>

function drain_through :: "u64 \<Rightarrow> retire_queue \<Rightarrow> (nat \<times> nat) list \<times> retire_queue" where
  "drain_through safe q =
     (if rq_tail q = rq_head q then ([], q)
      else
        let e = rq_entries q ! rq_index q (rq_tail q)
        in if re_epoch e > safe then ([], q)
           else
             let q' = q\<lparr>rq_entries := (rq_entries q)[rq_index q (rq_tail q) := empty_entry],
                        rq_tail := rq_tail q + 1\<rparr>;
                 (calls, q'') = drain_through safe q'
             in ((re_deleter e, re_ptr e) # calls, q''))"
  by pat_completeness auto

lemma drain_measure:
  fixes h t :: u64
  assumes "t \<noteq> h"
  shows "unat (h - (t + 1)) < unat (h - t)"
proof -
  have "unat (h - t) \<noteq> 0" using assms by (simp add: unat_eq_zero)
  then have "unat (1 :: u64) \<le> unat (h - t)" by simp
  from unat_diff_add [OF this] \<open>unat (h - t) \<noteq> 0\<close> show ?thesis by simp
qed

termination drain_through
  by (relation "measure (\<lambda>(safe, q). unat (rq_head q - rq_tail q))") (auto intro: drain_measure)

function drain_all_from :: "u64 \<Rightarrow> u64 \<Rightarrow> retire_queue \<Rightarrow> (nat \<times> nat) list \<times> retire_queue" where
  "drain_all_from head tail q =
     (if tail = head then ([], q\<lparr>rq_tail := head\<rparr>)
      else
        let e = rq_entries q ! rq_index q tail;
            (calls, q') = drain_all_from head (tail + 1)
              (q\<lparr>rq_entries := (rq_entries q)[rq_index q tail := empty_entry]\<rparr>)
        in (if re_ptr e \<noteq> 0 \<and> re_deleter e \<noteq> 0 then (re_deleter e, re_ptr e) # calls else calls, q'))"
  by pat_completeness auto
termination
  by (relation "measure (\<lambda>(head, tail, q). unat (head - tail))") (auto intro: drain_measure)

declare drain_through.simps [simp del] drain_all_from.simps [simp del]

definition drain_all :: "retire_queue \<Rightarrow> (nat \<times> nat) list \<times> retire_queue" where
  "drain_all q = drain_all_from (rq_head q) (rq_tail q) q"

text \<open>One participant of the frontier scan: it leaves the candidate alone, lowers it, or, inactive
  since epoch 0, forbids any frontier.\<close>

definition scan_participant :: "participant \<Rightarrow> u64 \<Rightarrow> u64 option" where
  "scan_participant p candidate =
     (if \<not> p_registered p then Some candidate
      else if p_epoch p = kInactiveEpoch \<or> p_epoch p > candidate then Some candidate
      else if p_epoch p = 0 then None
      else Some (p_epoch p - 1))"

fun scan_participants :: "participant list \<Rightarrow> u64 \<Rightarrow> u64 option" where
  "scan_participants [] candidate = Some candidate"
| "scan_participants (p # ps) candidate =
     (case scan_participant p candidate of
        None \<Rightarrow> None
      | Some candidate' \<Rightarrow> scan_participants ps candidate')"

definition publish_frontier :: "u64 \<Rightarrow> epoch_manager \<Rightarrow> epoch_manager" where
  "publish_frontier candidate m =
     (if \<not> has_safe_epoch m \<or> candidate > safe_epoch m
      then m\<lparr>safe_epoch := candidate, has_safe_epoch := True\<rparr> else m)"

definition update_safe_frontier :: "u64 \<Rightarrow> epoch_manager \<Rightarrow> epoch_manager" where
  "update_safe_frontier new_epoch m =
     (if new_epoch < kGraceEpochs then m
      else case scan_participants (participants m) (new_epoch - kGraceEpochs) of
             None \<Rightarrow> m
           | Some candidate \<Rightarrow> publish_frontier candidate m)"

fun drain_participants :: "u64 \<Rightarrow> participant list \<Rightarrow> (nat \<times> nat) list \<times> participant list" where
  "drain_participants safe [] = ([], [])"
| "drain_participants safe (p # ps) =
     (let (calls, q) = drain_through safe (p_retired p);
          (rest, ps') = drain_participants safe ps
      in (calls @ rest, p\<lparr>p_retired := q\<rparr> # ps'))"

definition collect :: "epoch_manager \<Rightarrow> (nat \<times> nat) list \<times> epoch_manager" where
  "collect m =
     (if collecting m then ([], m)
      else
        let (calls, m1) = (if has_safe_epoch m
              then let (cs, ps) = drain_participants (safe_epoch m) (participants m)
                   in (cs, m\<lparr>participants := ps\<rparr>)
              else ([], m));
            new_epoch = global_epoch m1 + 1
        in (calls, (update_safe_frontier new_epoch (m1\<lparr>collecting := True, global_epoch := new_epoch\<rparr>))
              \<lparr>collecting := False\<rparr>))"

fun shutdown :: "participant list \<Rightarrow> (nat \<times> nat) list" where
  "shutdown [] = []"
| "shutdown (p # ps) = fst (drain_all (p_retired p)) @ shutdown ps"

section \<open>The retirement queue\<close>

definition rq_cap :: "retire_queue \<Rightarrow> nat" where
  "rq_cap q = length (rq_entries q)"

definition rq_inv :: "retire_queue \<Rightarrow> bool" where
  "rq_inv q \<longleftrightarrow> is_pow2 (rq_cap q) \<and> rq_cap q < 2 ^ 63 \<and> unat (rq_head q - rq_tail q) \<le> rq_cap q"

definition rq_items :: "retire_queue \<Rightarrow> retired_entry list" where
  "rq_items q = cbuf (rq_entries q) (unat (rq_tail q)) (unat (rq_head q - rq_tail q))"

lemma rq_index_mod: "rq_inv q \<Longrightarrow> rq_index q p = unat p mod rq_cap q"
  by (simp add: rq_index_def rq_inv_def rq_cap_def unat_and_mask)

lemma rq_index_lt: "rq_inv q \<Longrightarrow> rq_index q p < length (rq_entries q)"
proof -
  assume inv: "rq_inv q"
  then have "0 < rq_cap q" using is_pow2_pos by (auto simp: rq_inv_def)
  from mod_less_divisor [OF this] show ?thesis by (simp only: rq_index_mod [OF inv]) (simp only: rq_cap_def)
qed

lemma rq_position:
  fixes t d :: u64
  assumes inv: "rq_inv q"
  shows "unat (t + d) mod rq_cap q = (unat t + unat d) mod rq_cap q"
  using inv unat_add_mod_dvd [of "rq_cap q" t d] is_pow2_dvd_word [of "rq_cap q" 64]
  by (simp add: rq_inv_def)

lemma retire_push_full:
  assumes inv: "rq_inv q"
  shows "fst (retire_push ptr d e q) \<longleftrightarrow> length (rq_items q) < rq_cap q"
proof -
  have "unat (of_nat (rq_cap q) :: u64) = rq_cap q" using inv by (simp add: rq_inv_def unat_of_nat)
  then show ?thesis by (simp add: retire_push_def rq_items_def word_le_nat_alt rq_cap_def)
qed

lemma retire_push_correct:
  assumes inv: "rq_inv q" and room: "length (rq_items q) < rq_cap q"
  shows "rq_inv (snd (retire_push ptr d e q))"
    "rq_items (snd (retire_push ptr d e q)) = rq_items q @ [\<lparr>re_ptr = ptr, re_deleter = d, re_epoch = e\<rparr>]"
    "rq_cap (snd (retire_push ptr d e q)) = rq_cap q"
proof -
  let ?x = "\<lparr>re_ptr = ptr, re_deleter = d, re_epoch = e\<rparr>" and ?n = "unat (rq_head q - rq_tail q)"
  have eq: "snd (retire_push ptr d e q) = q\<lparr>rq_entries := (rq_entries q)[rq_index q (rq_head q) := ?x],
      rq_head := rq_head q + 1\<rparr>"
    using retire_push_full [OF inv, of ptr d e] room by (auto simp: retire_push_def split: if_splits)
  have n: "unat (rq_head q + 1 - rq_tail q) = ?n + 1"
    using room inv by (intro unat_inc_diff [of _ _ "2 ^ 63"]) (simp_all add: rq_items_def rq_inv_def)
  show cap: "rq_cap (snd (retire_push ptr d e q)) = rq_cap q" by (simp add: eq rq_cap_def)
  show "rq_inv (snd (retire_push ptr d e q))"
    using inv room n cap by (simp add: rq_inv_def rq_items_def) (simp add: eq)
  have "rq_index q (rq_head q) = (unat (rq_tail q) + ?n) mod rq_cap q"
    using rq_position [OF inv, of "rq_tail q" "rq_head q - rq_tail q"] by (simp add: rq_index_mod [OF inv])
  then show "rq_items (snd (retire_push ptr d e q)) = rq_items q @ [?x]"
    using room cbuf_push [of ?n "rq_entries q" "unat (rq_tail q)" ?x] n
    by (simp add: eq rq_items_def rq_cap_def)
qed

text \<open>Taking the oldest entry out.\<close>

definition retire_drop :: "retire_queue \<Rightarrow> retire_queue" where
  "retire_drop q = q\<lparr>rq_entries := (rq_entries q)[rq_index q (rq_tail q) := empty_entry],
     rq_tail := rq_tail q + 1\<rparr>"

lemma retire_drop_correct:
  assumes inv: "rq_inv q" and ne: "rq_tail q \<noteq> rq_head q"
  shows "rq_items q = rq_entries q ! rq_index q (rq_tail q) # rq_items (retire_drop q)"
    "rq_inv (retire_drop q)" "rq_cap (retire_drop q) = rq_cap q"
proof -
  let ?n = "unat (rq_head q - rq_tail q)" and ?t = "unat (rq_tail q)" and ?b = "rq_entries q"
  have pos: "?n \<noteq> 0" using ne by (simp add: unat_eq_zero)
  then have n: "unat (rq_head q - (rq_tail q + 1)) = ?n - 1"
    using unat_diff_add [of 1 "rq_head q" "rq_tail q"] by simp
  have le: "?n \<le> rq_cap q" using inv by (simp add: rq_inv_def)
  show cap: "rq_cap (retire_drop q) = rq_cap q" by (simp add: retire_drop_def rq_cap_def)
  show "rq_inv (retire_drop q)"
    using inv n cap le_trans [OF diff_le_self le, of 1]
    by (simp add: rq_inv_def) (simp add: retire_drop_def)
  obtain k where k: "?n = Suc k" using pos by (cases ?n) auto
  have nx: "unat (rq_tail q + 1) mod rq_cap q = (?t + 1) mod rq_cap q"
    using rq_position [OF inv, of "rq_tail q" 1] by simp
  let ?b' = "?b[rq_index q (rq_tail q) := empty_entry]"
  have "cbuf ?b' (?t + 1) k = cbuf ?b (?t + 1) k"
  proof (rule nth_equalityI)
    fix i assume i: "i < length (cbuf ?b' (?t + 1) k)"
    then have "?t mod rq_cap q \<noteq> (?t + (1 + i)) mod rq_cap q"
      using mod_add_inj [of 0 "rq_cap q" "1 + i" ?t] k le by auto
    then show "cbuf ?b' (?t + 1) k ! i = cbuf ?b (?t + 1) k ! i"
      using i by (simp add: nth_cbuf rq_index_mod [OF inv] rq_cap_def nth_list_update_neq)
  qed simp
  moreover have "rq_items (retire_drop q) = cbuf ?b' (unat (rq_tail q + 1)) k"
    using n k by (simp add: rq_items_def retire_drop_def)
  moreover have "cbuf ?b' (unat (rq_tail q + 1)) k = cbuf ?b' (?t + 1) k"
    using nx cbuf_mod [of ?b' "unat (rq_tail q + 1)" k] cbuf_mod [of ?b' "?t + 1" k]
    by (simp add: rq_cap_def)
  ultimately show "rq_items q = rq_entries q ! rq_index q (rq_tail q) # rq_items (retire_drop q)"
    by (simp add: rq_items_def [of q] k cbuf_Suc_left rq_index_mod [OF inv] rq_cap_def)
qed

lemma rq_items_Nil: "rq_items q = [] \<longleftrightarrow> rq_tail q = rq_head q"
proof -
  have "rq_items q = [] \<longleftrightarrow> unat (rq_head q - rq_tail q) = 0"
    by (metis length_0_conv length_cbuf rq_items_def)
  then show ?thesis by (simp add: unat_eq_zero) auto
qed

definition entry_call :: "retired_entry \<Rightarrow> nat \<times> nat" where
  "entry_call e = (re_deleter e, re_ptr e)"

lemma drain_through_spec:
  "rq_inv q \<Longrightarrow> drain_through safe q = (calls, q') \<Longrightarrow>
     calls = map entry_call (takeWhile (\<lambda>e. re_epoch e \<le> safe) (rq_items q)) \<and>
     rq_items q' = dropWhile (\<lambda>e. re_epoch e \<le> safe) (rq_items q) \<and>
     rq_inv q' \<and> rq_cap q' = rq_cap q"
proof (induction safe q arbitrary: calls q' rule: drain_through.induct)
  case (1 safe q)
  show ?case
  proof (cases "rq_tail q = rq_head q")
    case True
    then have "calls = []" "q' = q" using 1(3) by (simp_all add: drain_through.simps [of safe q])
    then show ?thesis using True 1(2) rq_items_Nil [of q] by simp
  next
    case False
    let ?e = "rq_entries q ! rq_index q (rq_tail q)"
    note D = retire_drop_correct [OF 1(2) False]
    show ?thesis
    proof (cases "re_epoch ?e > safe")
      case True
      then have "calls = []" "q' = q"
        using 1(3) False by (simp_all add: drain_through.simps [of safe q] Let_def)
      then show ?thesis using True D(1) 1(2) by (simp add: not_le)
    next
      case le: False
      obtain cs q2 where r: "drain_through safe (retire_drop q) = (cs, q2)" by fastforce
      have c: "calls = entry_call ?e # cs" "q' = q2"
        using 1(3) False le r [unfolded retire_drop_def]
        by (simp_all add: drain_through.simps [of safe q] Let_def entry_call_def)
      have IH: "cs = map entry_call (takeWhile (\<lambda>e. re_epoch e \<le> safe) (rq_items (retire_drop q))) \<and>
        rq_items q2 = dropWhile (\<lambda>e. re_epoch e \<le> safe) (rq_items (retire_drop q)) \<and>
        rq_inv q2 \<and> rq_cap q2 = rq_cap (retire_drop q)"
        using 1(1) [OF False refl le refl] D(2) r by (simp add: retire_drop_def)
      then show ?thesis using c D le by (simp add: not_less)
    qed
  qed
qed

section \<open>The whole manager, undisturbed\<close>

definition epoch_wf :: "epoch_manager \<Rightarrow> bool" where
  "epoch_wf m \<longleftrightarrow> (\<forall>p \<in> set (participants m). rq_inv (p_retired p))"

definition below :: "u64 \<Rightarrow> participant \<Rightarrow> bool" where
  "below c p \<longleftrightarrow> (p_registered p \<and> p_epoch p \<noteq> kInactiveEpoch \<longrightarrow> c < p_epoch p)"

lemma scan_participant_below:
  assumes "scan_participant p c = Some c'"
  shows "c' \<le> c \<and> below c' p"
proof (cases "p_registered p \<and> p_epoch p \<noteq> kInactiveEpoch \<and> \<not> p_epoch p > c")
  case True
  then have "p_epoch p \<noteq> 0" "c' = p_epoch p - 1"
    using assms by (auto simp: scan_participant_def split: if_splits)
  then have "c' < p_epoch p" by (simp add: word_less_nat_alt unat_minus_one unat_gt_0)
  moreover have "c' \<le> c" using \<open>c' < p_epoch p\<close> True by auto
  ultimately show ?thesis by (simp add: below_def)
next
  case False
  then show ?thesis using assms by (auto simp: scan_participant_def below_def split: if_splits)
qed

lemma scan_participants_below:
  "scan_participants ps c = Some c' \<Longrightarrow> c' \<le> c \<and> (\<forall>p \<in> set ps. below c' p)"
proof (induction ps arbitrary: c)
  case (Cons p ps)
  obtain c1 where s: "scan_participant p c = Some c1" and r: "scan_participants ps c1 = Some c'"
    using Cons.prems by (auto split: option.splits)
  have "c' \<le> c1 \<and> (\<forall>p \<in> set ps. below c' p)" by (rule Cons.IH [OF r])
  moreover have "c1 \<le> c \<and> below c1 p" by (rule scan_participant_below [OF s])
  ultimately show ?case by (auto simp: below_def)
qed simp

lemma drain_participants_spec:
  "\<forall>p \<in> set ps. rq_inv (p_retired p) \<Longrightarrow> drain_participants safe ps = (calls, ps') \<Longrightarrow>
     calls = concat (map (\<lambda>p. map entry_call
       (takeWhile (\<lambda>e. re_epoch e \<le> safe) (rq_items (p_retired p)))) ps) \<and>
     map (rq_items \<circ> p_retired) ps' =
       map (\<lambda>p. dropWhile (\<lambda>e. re_epoch e \<le> safe) (rq_items (p_retired p))) ps \<and>
     map p_epoch ps' = map p_epoch ps \<and> map p_registered ps' = map p_registered ps \<and>
     (\<forall>p \<in> set ps'. rq_inv (p_retired p))"
proof (induction ps arbitrary: calls ps')
  case (Cons p ps)
  obtain cs q where d: "drain_through safe (p_retired p) = (cs, q)" by fastforce
  obtain rest qs where r: "drain_participants safe ps = (rest, qs)" by fastforce
  have e: "calls = cs @ rest" "ps' = p\<lparr>p_retired := q\<rparr> # qs" using Cons.prems(2) d r by simp_all
  have "rq_inv (p_retired p)" using Cons.prems(1) by simp
  from drain_through_spec [OF this d] Cons.IH [OF _ r] Cons.prems(1) show ?case
    by (simp add: e)
qed simp

lemma publish_frontier_simps [simp]:
  "participants (publish_frontier c m) = participants m"
  "global_epoch (publish_frontier c m) = global_epoch m"
  by (simp_all add: publish_frontier_def)

lemma update_safe_frontier_simps [simp]:
  "participants (update_safe_frontier e m) = participants m"
  "global_epoch (update_safe_frontier e m) = global_epoch m"
  by (simp_all add: update_safe_frontier_def split: option.splits)

section \<open>Properties\<close>

text \<open>A collection runs the deleters of exactly the entries retired up to the frontier that the
  previous collections established, oldest first per participant and up to the first younger
  entry; the entries it leaves keep their order, and the epoch advances by one. A collection that
  overlaps another does nothing.\<close>
theorem collect_reclaims_frontier:
  assumes "epoch_wf m" and "collect m = (calls, m')"
  shows "if collecting m then calls = [] \<and> m' = m
    else calls = (if has_safe_epoch m then concat (map (\<lambda>p. map entry_call
          (takeWhile (\<lambda>e. re_epoch e \<le> safe_epoch m) (rq_items (p_retired p)))) (participants m))
        else []) \<and>
      map (rq_items \<circ> p_retired) (participants m') =
        (if has_safe_epoch m then map (\<lambda>p. dropWhile (\<lambda>e. re_epoch e \<le> safe_epoch m)
           (rq_items (p_retired p))) (participants m)
         else map (rq_items \<circ> p_retired) (participants m)) \<and>
      global_epoch m' = global_epoch m + 1 \<and> epoch_wf m'"
proof -
  obtain cs ps where d: "drain_participants (safe_epoch m) (participants m) = (cs, ps)" by fastforce
  note D = drain_participants_spec [OF assms(1) [unfolded epoch_wf_def] d]
  show ?thesis
    using assms D d by (auto simp: collect_def epoch_wf_def Let_def)
qed

definition demo_manager :: epoch_manager where
  "demo_manager = snd (collect (snd (collect (snd (collect
     (snd (defer_delete 0 7 1 (snd (register_thread (epoch_new 1 4))))))))))"

lemma demo_manager_wf: "epoch_wf demo_manager"
proof -
  have "map (rq_cap \<circ> p_retired) (participants demo_manager) = [4]"
    "map (\<lambda>p. rq_head (p_retired p) - rq_tail (p_retired p)) (participants demo_manager) = [1]"
    by code_simp+
  then obtain p where p: "participants demo_manager = [p]" "rq_cap (p_retired p) = 4"
    "rq_head (p_retired p) - rq_tail (p_retired p) = 1"
    by (auto simp: map_eq_Cons_conv)
  have "is_pow2 (4 :: nat)" by code_simp
  then show ?thesis by (simp add: epoch_wf_def p rq_inv_def)
qed

lemma collect_reclaims_frontier_witness: "fst (collect demo_manager) = [(1, 7)]"
proof -
  have "\<not> collecting demo_manager" "has_safe_epoch demo_manager"
    "concat (map (\<lambda>p. map entry_call (takeWhile (\<lambda>e. re_epoch e \<le> safe_epoch demo_manager)
      (rq_items (p_retired p)))) (participants demo_manager)) = [(1, 7)]"
    by code_simp+
  with collect_reclaims_frontier [OF demo_manager_wf prod.collapse [symmetric]] show ?thesis by simp
qed

text \<open>The frontier a collection establishes lies below the published epoch of every registered
  reader inside a critical section, and at least three epochs behind the new global epoch,
  unless it keeps the frontier of an earlier collection.\<close>
theorem frontier_below_active_readers:
  assumes "update_safe_frontier e m = m'" and "m' \<noteq> m" and "p \<in> set (participants m)"
    and "p_registered p" and "p_epoch p \<noteq> kInactiveEpoch"
  shows "has_safe_epoch m' \<and> safe_epoch m' < p_epoch p \<and> safe_epoch m' \<le> e - kGraceEpochs \<and>
    kGraceEpochs \<le> e"
proof -
  have e: "\<not> e < kGraceEpochs"
    using assms(1,2) by (cases "e < kGraceEpochs") (simp_all add: update_safe_frontier_def)
  show ?thesis
  proof (cases "scan_participants (participants m) (e - kGraceEpochs)")
    case None
    then show ?thesis using assms(1,2) e by (simp add: update_safe_frontier_def)
  next
    case (Some c)
    then have m': "m' = publish_frontier c m" using assms(1) e by (simp add: update_safe_frontier_def)
    then have "m' = m\<lparr>safe_epoch := c, has_safe_epoch := True\<rparr>"
      using assms(2) by (cases "\<not> has_safe_epoch m \<or> c > safe_epoch m") (simp_all add: publish_frontier_def)
    then have "has_safe_epoch m'" "safe_epoch m' = c" by simp_all
    then show ?thesis
      using scan_participants_below [OF Some] assms(3-5) e by (simp add: below_def not_less)
  qed
qed

lemma frontier_below_active_readers_witness:
  "safe_epoch (update_safe_frontier 9 (enter 0 ((snd (register_thread (epoch_new 1 4)))
     \<lparr>global_epoch := 5\<rparr>))) < 5"
proof -
  let ?m = "enter 0 ((snd (register_thread (epoch_new 1 4)))\<lparr>global_epoch := 5\<rparr>)"
  let ?p = "participants ?m ! 0"
  have "length (participants ?m) = 1" by code_simp
  then have "?p \<in> set (participants ?m)" by simp
  moreover have p: "p_registered ?p" "p_epoch ?p = 5" by code_simp+
  moreover have "has_safe_epoch (update_safe_frontier 9 ?m) \<noteq> has_safe_epoch ?m" by code_simp
  then have "update_safe_frontier 9 ?m \<noteq> ?m" by auto
  moreover have "p_epoch ?p \<noteq> kInactiveEpoch" by (simp only: p kInactiveEpoch_def) simp
  ultimately have "safe_epoch (update_safe_frontier 9 ?m) < p_epoch ?p"
    using frontier_below_active_readers [OF refl, of 9 ?m ?p] by blast
  then show ?thesis by (simp only: p)
qed

end
