(* ===== verification/Epoch_Safety.thy ===== *)
theory Epoch_Safety
  imports Epoch
begin

text \<open>
  Readers, retirers and the collector of \<open>src/src/concurrency/epoch.hpp\<close> running at the same
  time, one shared access per step: \<open>enter\<close> loads the global epoch, publishes it and loads it
  again; \<open>defer_delete\<close> reads the epoch and then publishes the entry; \<open>collect\<close> drains entry by
  entry, advances the epoch and scans the participants one by one. Objects are pointers that are
  linked into some shared structure until a writer unlinks them; a reader inside its critical
  section picks up linked objects and keeps them until it leaves. The client rules of the header
  (retire only what was unlinked, unregister outside critical sections, one collector) are the
  guards of the steps. Memory is sequentially consistent.
\<close>

section \<open>State\<close>

datatype reader_pc =
    R_Unregistered
  | R_Outside
  | R_Loaded u64
  | R_Stored u64
  | R_Inside u64

datatype writer_pc =
    W_Idle
  | W_Unlinked nat
  | W_Tagged nat u64

datatype collector_pc =
    C_Idle
  | C_Drain nat
  | C_Draining nat u64
  | C_Advance
  | C_Scan nat u64

datatype object_state = Linked | Unlinked | Freed

record epoch_sys =
  mgr :: epoch_manager
  readers :: "nat \<Rightarrow> reader_pc"
  writers :: "nat \<Rightarrow> writer_pc"
  collector :: collector_pc
  objects :: "nat \<Rightarrow> object_state"
  held :: "nat \<Rightarrow> nat set"

definition part :: "epoch_sys \<Rightarrow> nat \<Rightarrow> participant" where
  "part s i = participants (mgr s) ! i"

definition nparts :: "epoch_sys \<Rightarrow> nat" where
  "nparts s = length (participants (mgr s))"

definition set_part :: "nat \<Rightarrow> (participant \<Rightarrow> participant) \<Rightarrow> epoch_sys \<Rightarrow> epoch_sys" where
  "set_part i g s = s\<lparr>mgr := update_participant i g (mgr s)\<rparr>"

definition set_reader :: "nat \<Rightarrow> reader_pc \<Rightarrow> epoch_sys \<Rightarrow> epoch_sys" where
  "set_reader i pc s = s\<lparr>readers := (readers s)(i := pc)\<rparr>"

definition set_writer :: "nat \<Rightarrow> writer_pc \<Rightarrow> epoch_sys \<Rightarrow> epoch_sys" where
  "set_writer i pc s = s\<lparr>writers := (writers s)(i := pc)\<rparr>"

section \<open>Steps\<close>

definition do_register :: "nat \<Rightarrow> epoch_sys \<Rightarrow> epoch_sys" where
  "do_register i s = set_reader i R_Outside
     (set_part i (\<lambda>p. p\<lparr>p_epoch := kInactiveEpoch, p_registered := True\<rparr>) s)"

definition do_unregister :: "nat \<Rightarrow> epoch_sys \<Rightarrow> epoch_sys" where
  "do_unregister i s = set_reader i R_Unregistered
     (set_part i (\<lambda>p. p\<lparr>p_epoch := kInactiveEpoch, p_registered := False\<rparr>) s)"

definition enter_load :: "nat \<Rightarrow> epoch_sys \<Rightarrow> epoch_sys" where
  "enter_load i s = set_reader i (R_Loaded (global_epoch (mgr s))) s"

definition enter_store :: "nat \<Rightarrow> u64 \<Rightarrow> epoch_sys \<Rightarrow> epoch_sys" where
  "enter_store i e s = set_reader i (R_Stored e) (set_part i (\<lambda>p. p\<lparr>p_epoch := e\<rparr>) s)"

definition enter_check :: "nat \<Rightarrow> u64 \<Rightarrow> epoch_sys \<Rightarrow> epoch_sys" where
  "enter_check i e s =
     (if global_epoch (mgr s) \<noteq> e then enter_load i s else set_reader i (R_Inside e) s)"

definition do_leave :: "nat \<Rightarrow> epoch_sys \<Rightarrow> epoch_sys" where
  "do_leave i s = set_reader i R_Outside
     (set_part i (\<lambda>p. p\<lparr>p_epoch := kInactiveEpoch\<rparr>) s)\<lparr>held := (held s)(i := {})\<rparr>"

definition pick_up :: "nat \<Rightarrow> nat \<Rightarrow> epoch_sys \<Rightarrow> epoch_sys" where
  "pick_up i obj s = s\<lparr>held := (held s)(i := insert obj (held s i))\<rparr>"

definition unlink :: "nat \<Rightarrow> nat \<Rightarrow> epoch_sys \<Rightarrow> epoch_sys" where
  "unlink j obj s = set_writer j (W_Unlinked obj) (s\<lparr>objects := (objects s)(obj := Unlinked)\<rparr>)"

definition retire_tag :: "nat \<Rightarrow> nat \<Rightarrow> epoch_sys \<Rightarrow> epoch_sys" where
  "retire_tag j obj s = set_writer j (W_Tagged obj (global_epoch (mgr s))) s"

definition retire_publish :: "nat \<Rightarrow> nat \<Rightarrow> u64 \<Rightarrow> nat \<Rightarrow> epoch_sys \<Rightarrow> epoch_sys" where
  "retire_publish j obj tag deleter s =
     (let (ok, q) = retire_push obj deleter tag (p_retired (part s j))
      in if ok then set_writer j W_Idle (set_part j (\<lambda>p. p\<lparr>p_retired := q\<rparr>) s)
         else set_writer j (W_Unlinked obj) s)"

definition begin_collect :: "epoch_sys \<Rightarrow> epoch_sys" where
  "begin_collect s = s\<lparr>collector := (if has_safe_epoch (mgr s) then C_Drain 0 else C_Advance)\<rparr>"

definition drain_open :: "nat \<Rightarrow> epoch_sys \<Rightarrow> epoch_sys" where
  "drain_open k s = s\<lparr>collector :=
     (if k < nparts s then C_Draining k (rq_head (p_retired (part s k))) else C_Advance)\<rparr>"

definition drain_entry :: "nat \<Rightarrow> u64 \<Rightarrow> epoch_sys \<Rightarrow> epoch_sys" where
  "drain_entry k head s =
     (let q = p_retired (part s k); e = rq_entries q ! rq_index q (rq_tail q)
      in if rq_tail q = head \<or> re_epoch e > safe_epoch (mgr s)
         then s\<lparr>collector := C_Drain (Suc k)\<rparr>
         else (set_part k (\<lambda>p. p\<lparr>p_retired := retire_drop q\<rparr>) s)
                \<lparr>objects := (objects s)(re_ptr e := Freed)\<rparr>)"

definition advance_epoch :: "epoch_sys \<Rightarrow> epoch_sys" where
  "advance_epoch s =
     (let new_epoch = global_epoch (mgr s) + 1
      in s\<lparr>mgr := (mgr s)\<lparr>global_epoch := new_epoch\<rparr>,
           collector := (if new_epoch < kGraceEpochs then C_Idle else C_Scan 0 (new_epoch - kGraceEpochs))\<rparr>)"

definition scan_step :: "nat \<Rightarrow> u64 \<Rightarrow> epoch_sys \<Rightarrow> epoch_sys" where
  "scan_step k candidate s =
     (if k < nparts s
      then case scan_participant (part s k) candidate of
             None \<Rightarrow> s\<lparr>collector := C_Idle\<rparr>
           | Some candidate' \<Rightarrow> s\<lparr>collector := C_Scan (Suc k) candidate'\<rparr>
      else s\<lparr>mgr := publish_frontier candidate (mgr s), collector := C_Idle\<rparr>)"

inductive epoch_step :: "epoch_sys \<Rightarrow> epoch_sys \<Rightarrow> bool" where
  register: "i < nparts s \<Longrightarrow> readers s i = R_Unregistered \<Longrightarrow> epoch_step s (do_register i s)"
| unregister: "i < nparts s \<Longrightarrow> readers s i = R_Outside \<Longrightarrow> epoch_step s (do_unregister i s)"
| enter_load: "i < nparts s \<Longrightarrow> readers s i = R_Outside \<Longrightarrow> epoch_step s (enter_load i s)"
| enter_store: "i < nparts s \<Longrightarrow> readers s i = R_Loaded e \<Longrightarrow> epoch_step s (enter_store i e s)"
| enter_check: "i < nparts s \<Longrightarrow> readers s i = R_Stored e \<Longrightarrow> epoch_step s (enter_check i e s)"
| leave: "i < nparts s \<Longrightarrow> readers s i = R_Inside e \<Longrightarrow> epoch_step s (do_leave i s)"
| pick_up: "i < nparts s \<Longrightarrow> readers s i = R_Inside e \<Longrightarrow> objects s obj = Linked \<Longrightarrow>
    epoch_step s (pick_up i obj s)"
| unlink: "j < nparts s \<Longrightarrow> writers s j = W_Idle \<Longrightarrow> objects s obj = Linked \<Longrightarrow>
    epoch_step s (unlink j obj s)"
| retire_tag: "j < nparts s \<Longrightarrow> writers s j = W_Unlinked obj \<Longrightarrow> epoch_step s (retire_tag j obj s)"
| retire_publish: "j < nparts s \<Longrightarrow> writers s j = W_Tagged obj tag \<Longrightarrow>
    epoch_step s (retire_publish j obj tag deleter s)"
| begin_collect: "collector s = C_Idle \<Longrightarrow> epoch_step s (begin_collect s)"
| drain_open: "collector s = C_Drain k \<Longrightarrow> epoch_step s (drain_open k s)"
| drain_entry: "collector s = C_Draining k head \<Longrightarrow> epoch_step s (drain_entry k head s)"
| advance: "collector s = C_Advance \<Longrightarrow> unat (global_epoch (mgr s)) + 2 < 2 ^ 64 \<Longrightarrow>
    epoch_step s (advance_epoch s)"
| scan: "collector s = C_Scan k candidate \<Longrightarrow> epoch_step s (scan_step k candidate s)"

definition epoch_start :: "nat \<Rightarrow> nat \<Rightarrow> nat set \<Rightarrow> epoch_sys" where
  "epoch_start threads retired linked =
     \<lparr>mgr = epoch_new threads retired, readers = (\<lambda>_. R_Unregistered), writers = (\<lambda>_. W_Idle),
      collector = C_Idle, objects = (\<lambda>x. if x \<in> linked then Linked else Freed), held = (\<lambda>_. {})\<rparr>"

inductive epoch_reachable :: "nat \<Rightarrow> nat \<Rightarrow> nat set \<Rightarrow> epoch_sys \<Rightarrow> bool"
  for threads retired linked where
  start: "epoch_reachable threads retired linked (epoch_start threads retired linked)"
| step: "epoch_reachable threads retired linked s \<Longrightarrow> epoch_step s s' \<Longrightarrow>
    epoch_reachable threads retired linked s'"

section \<open>Invariant\<close>

definition frontier_ok :: "epoch_sys \<Rightarrow> bool" where
  "frontier_ok s \<longleftrightarrow> unat (global_epoch (mgr s)) + 1 < 2 ^ 64 \<and>
     (has_safe_epoch (mgr s) \<longrightarrow> unat (safe_epoch (mgr s)) + 3 \<le> unat (global_epoch (mgr s))) \<and>
     (\<forall>k c. collector s = C_Scan k c \<longrightarrow> unat c + 3 \<le> unat (global_epoch (mgr s))) \<and>
     (\<forall>k h. (collector s = C_Drain k \<or> collector s = C_Draining k h) \<longrightarrow> has_safe_epoch (mgr s)) \<and>
     (\<forall>k h. collector s = C_Draining k h \<longrightarrow> k < nparts s \<and>
        unat (h - rq_tail (p_retired (part s k))) \<le>
          unat (rq_head (p_retired (part s k)) - rq_tail (p_retired (part s k))))"

definition below_frontiers :: "epoch_sys \<Rightarrow> nat \<Rightarrow> u64 \<Rightarrow> bool" where
  "below_frontiers s i e \<longleftrightarrow> (has_safe_epoch (mgr s) \<longrightarrow> safe_epoch (mgr s) < e) \<and>
     (\<forall>k c. collector s = C_Scan k c \<longrightarrow> i < k \<longrightarrow> c < e)"

fun reader_ok :: "epoch_sys \<Rightarrow> nat \<Rightarrow> reader_pc \<Rightarrow> bool" where
  "reader_ok s i R_Unregistered \<longleftrightarrow> True"
| "reader_ok s i R_Outside \<longleftrightarrow> p_registered (part s i)"
| "reader_ok s i (R_Loaded e) \<longleftrightarrow> p_registered (part s i) \<and> e \<le> global_epoch (mgr s)"
| "reader_ok s i (R_Stored e) \<longleftrightarrow> p_registered (part s i) \<and> e \<le> global_epoch (mgr s) \<and>
     p_epoch (part s i) = e"
| "reader_ok s i (R_Inside e) \<longleftrightarrow> p_registered (part s i) \<and> e \<le> global_epoch (mgr s) \<and>
     p_epoch (part s i) = e \<and> below_frontiers s i e"

text \<open>An object's retirement, under way or queued, carries an epoch of at least \<open>e\<close>; or there is
  none.\<close>

definition retired_from :: "epoch_sys \<Rightarrow> nat \<Rightarrow> u64 \<Rightarrow> bool" where
  "retired_from s obj e \<longleftrightarrow> (\<forall>j tag. writers s j = W_Tagged obj tag \<longrightarrow> e \<le> tag) \<and>
     (\<forall>k < nparts s. \<forall>x \<in> set (rq_items (p_retired (part s k))). re_ptr x = obj \<longrightarrow> e \<le> re_epoch x)"

definition not_retired :: "epoch_sys \<Rightarrow> nat \<Rightarrow> bool" where
  "not_retired s obj \<longleftrightarrow> (\<forall>j tag. writers s j \<noteq> W_Unlinked obj \<and> writers s j \<noteq> W_Tagged obj tag) \<and>
     (\<forall>k < nparts s. \<forall>x \<in> set (rq_items (p_retired (part s k))). re_ptr x \<noteq> obj)"

definition queues_ok :: "epoch_sys \<Rightarrow> bool" where
  "queues_ok s \<longleftrightarrow> (\<forall>k < nparts s. rq_inv (p_retired (part s k)))"

definition held_ok :: "epoch_sys \<Rightarrow> bool" where
  "held_ok s \<longleftrightarrow> (\<forall>i. \<forall>obj \<in> held s i. i < nparts s \<and> objects s obj \<noteq> Freed \<and>
     (\<exists>e. readers s i = R_Inside e \<and> retired_from s obj e))"

definition linked_ok :: "epoch_sys \<Rightarrow> bool" where
  "linked_ok s \<longleftrightarrow> (\<forall>obj. objects s obj = Linked \<longrightarrow> not_retired s obj)"

definition epoch_inv :: "epoch_sys \<Rightarrow> bool" where
  "epoch_inv s \<longleftrightarrow> frontier_ok s \<and> queues_ok s \<and> (\<forall>i < nparts s. reader_ok s i (readers s i)) \<and>
     held_ok s \<and> linked_ok s"

section \<open>Frames\<close>

lemma part_set_part: "i < nparts s \<Longrightarrow> part (set_part i g s) k = (if k = i then g (part s i) else part s k)"
  by (auto simp: part_def set_part_def update_participant_def nparts_def)

lemma set_part_simps [simp]:
  "nparts (set_part i g s) = nparts s" "readers (set_part i g s) = readers s"
  "writers (set_part i g s) = writers s" "collector (set_part i g s) = collector s"
  "objects (set_part i g s) = objects s" "held (set_part i g s) = held s"
  "global_epoch (mgr (set_part i g s)) = global_epoch (mgr s)"
  "safe_epoch (mgr (set_part i g s)) = safe_epoch (mgr s)"
  "has_safe_epoch (mgr (set_part i g s)) = has_safe_epoch (mgr s)"
  by (simp_all add: set_part_def update_participant_def nparts_def)

lemma set_pc_simps [simp]:
  "mgr (set_reader i pc s) = mgr s" "readers (set_reader i pc s) = (readers s)(i := pc)"
  "writers (set_reader i pc s) = writers s" "collector (set_reader i pc s) = collector s"
  "objects (set_reader i pc s) = objects s" "held (set_reader i pc s) = held s"
  "mgr (set_writer i wpc s) = mgr s" "readers (set_writer i wpc s) = readers s"
  "writers (set_writer i wpc s) = (writers s)(i := wpc)" "collector (set_writer i wpc s) = collector s"
  "objects (set_writer i wpc s) = objects s" "held (set_writer i wpc s) = held s"
  by (simp_all add: set_reader_def set_writer_def)

lemma part_cong: "participants (mgr s') = participants (mgr s) \<Longrightarrow> part s' i = part s i"
  by (simp add: part_def)

lemma nparts_cong: "participants (mgr s') = participants (mgr s) \<Longrightarrow> nparts s' = nparts s"
  by (simp add: nparts_def)

lemma pc_parts [simp]:
  "part (set_reader i pc s) k = part s k" "nparts (set_reader i pc s) = nparts s"
  "part (set_writer i wpc s) k = part s k" "nparts (set_writer i wpc s) = nparts s"
  by (simp_all add: part_def nparts_def)

text \<open>The parts of the invariant that read only the manager: the collector's frontier and what a
  reader relies on.\<close>

lemma frontier_ok_cong:
  assumes "frontier_ok s" and "collector s' = collector s" and "nparts s' = nparts s"
    and "global_epoch (mgr s') = global_epoch (mgr s)" and "safe_epoch (mgr s') = safe_epoch (mgr s)"
    and "has_safe_epoch (mgr s') = has_safe_epoch (mgr s)"
    and "\<And>k. k < nparts s \<Longrightarrow> p_retired (part s' k) = p_retired (part s k)"
  shows "frontier_ok s'"
  using assms by (simp add: frontier_ok_def)

lemma reader_ok_cong:
  assumes "reader_ok s i pc" and "collector s' = collector s"
    and "global_epoch (mgr s') = global_epoch (mgr s)" and "safe_epoch (mgr s') = safe_epoch (mgr s)"
    and "has_safe_epoch (mgr s') = has_safe_epoch (mgr s)"
    and "p_epoch (part s' i) = p_epoch (part s i)" "p_registered (part s' i) = p_registered (part s i)"
  shows "reader_ok s' i pc"
  using assms by (cases pc) (simp_all add: below_frontiers_def)

lemma retired_from_cong:
  assumes "writers s' = writers s" "nparts s' = nparts s"
    and "\<And>k. k < nparts s \<Longrightarrow> p_retired (part s' k) = p_retired (part s k)"
  shows "retired_from s' obj e = retired_from s obj e" "not_retired s' obj = not_retired s obj"
    "queues_ok s' = queues_ok s"
  using assms by (simp_all add: retired_from_def not_retired_def queues_ok_def)

lemma epoch_invD:
  assumes "epoch_inv s"
  shows "frontier_ok s" "queues_ok s" "i < nparts s \<Longrightarrow> reader_ok s i (readers s i)" "held_ok s"
    "linked_ok s"
  using assms by (simp_all add: epoch_inv_def)

lemma held_okD:
  assumes "held_ok s" and "obj \<in> held s i"
  obtains e where "i < nparts s" "objects s obj \<noteq> Freed" "readers s i = R_Inside e" "retired_from s obj e"
  using assms by (auto simp: held_ok_def)

text \<open>A reader's own step: its slot and its pc change, nothing is held unless it stays inside.\<close>

lemma reader_move:
  assumes inv: "epoch_inv s" and i: "i < nparts s"
    and mgr: "part s' = (\<lambda>k. if k = i then p else part s k)" "p_retired p = p_retired (part s i)"
      "nparts s' = nparts s" "global_epoch (mgr s') = global_epoch (mgr s)"
      "safe_epoch (mgr s') = safe_epoch (mgr s)" "has_safe_epoch (mgr s') = has_safe_epoch (mgr s)"
    and rest: "collector s' = collector s" "writers s' = writers s" "objects s' = objects s"
    and pc: "readers s' = (readers s)(i := pc)" "reader_ok s' i pc"
    and held: "\<And>k. k \<noteq> i \<Longrightarrow> held s' k = held s k" "held s' i = {}"
  shows "epoch_inv s'"
proof -
  have ret: "p_retired (part s' k) = p_retired (part s k)" for k by (simp add: mgr)
  note C = retired_from_cong [OF rest(2) mgr(3) ret]
  have "frontier_ok s'" by (rule frontier_ok_cong [OF epoch_invD(1) [OF inv]]) (simp_all add: mgr rest ret)
  moreover have "queues_ok s'" using epoch_invD(2) [OF inv] by (simp add: C)
  moreover have "reader_ok s' k (readers s' k)" if "k < nparts s'" for k
  proof (cases "k = i")
    case True
    then show ?thesis using pc by simp
  next
    case False
    have "reader_ok s' k (readers s k)"
      by (rule reader_ok_cong [OF epoch_invD(3) [OF inv]]) (use that False in \<open>simp_all add: mgr rest\<close>)
    then show ?thesis using False pc by simp
  qed
  moreover have "held_ok s'"
    unfolding held_ok_def
  proof (intro allI ballI)
    fix k obj assume h: "obj \<in> held s' k"
    then have ne: "k \<noteq> i" using held(2) by auto
    then have "obj \<in> held s k" using h held(1) by simp
    then obtain e where "k < nparts s" "objects s obj \<noteq> Freed" "readers s k = R_Inside e" "retired_from s obj e"
      by (rule held_okD [OF epoch_invD(4) [OF inv]])
    then show "k < nparts s' \<and> objects s' obj \<noteq> Freed \<and>
        (\<exists>e. readers s' k = R_Inside e \<and> retired_from s' obj e)"
      using ne by (simp add: mgr rest pc C)
  qed
  moreover have "linked_ok s'" using epoch_invD(5) [OF inv] by (simp add: linked_ok_def rest C)
  ultimately show ?thesis by (simp add: epoch_inv_def)
qed

lemma not_inside_holds_nothing:
  assumes inv: "epoch_inv s" and "\<And>e. readers s i \<noteq> R_Inside e"
  shows "held s i = {}"
  using epoch_invD(4) [OF inv] assms(2) by (auto simp: held_ok_def)

lemma do_register_inv:
  "epoch_inv s \<Longrightarrow> i < nparts s \<Longrightarrow> readers s i = R_Unregistered \<Longrightarrow> epoch_inv (do_register i s)"
  by (rule reader_move [where p = "(part s i)\<lparr>p_epoch := kInactiveEpoch, p_registered := True\<rparr>"
        and pc = R_Outside and i = i])
    (auto simp: do_register_def part_set_part fun_eq_iff not_inside_holds_nothing)

lemma do_unregister_inv:
  "epoch_inv s \<Longrightarrow> i < nparts s \<Longrightarrow> readers s i = R_Outside \<Longrightarrow> epoch_inv (do_unregister i s)"
  by (rule reader_move [where p = "(part s i)\<lparr>p_epoch := kInactiveEpoch, p_registered := False\<rparr>"
        and pc = R_Unregistered and i = i])
    (auto simp: do_unregister_def part_set_part fun_eq_iff not_inside_holds_nothing)

lemma enter_load_inv:
  assumes "epoch_inv s" and "i < nparts s" and "readers s i = R_Outside \<or> readers s i = R_Stored e"
  shows "epoch_inv (enter_load i s)"
proof -
  have "p_registered (part s i)" using epoch_invD(3) [OF assms(1,2)] assms(3) by auto
  moreover have "held s i = {}" by (rule not_inside_holds_nothing [OF assms(1)]) (use assms(3) in auto)
  ultimately show ?thesis
    by - (rule reader_move [where p = "part s i" and pc = "R_Loaded (global_epoch (mgr s))" and i = i and s = s],
      insert assms, simp_all add: enter_load_def fun_eq_iff)
qed

lemma enter_store_inv:
  assumes "epoch_inv s" and "i < nparts s" and "readers s i = R_Loaded e"
  shows "epoch_inv (enter_store i e s)"
proof -
  have "p_registered (part s i)" "e \<le> global_epoch (mgr s)" using epoch_invD(3) [OF assms(1,2)] assms(3) by auto
  moreover have "held s i = {}" by (rule not_inside_holds_nothing [OF assms(1)]) (use assms(3) in auto)
  ultimately show ?thesis
    by - (rule reader_move [where p = "(part s i)\<lparr>p_epoch := e\<rparr>" and pc = "R_Stored e" and i = i and s = s],
      insert assms, simp_all add: enter_store_def fun_eq_iff part_set_part)
qed

lemma below_current:
  assumes "frontier_ok s"
  shows "below_frontiers s i (global_epoch (mgr s))"
  using assms by (auto simp: below_frontiers_def frontier_ok_def word_less_nat_alt)

lemma enter_check_inv:
  assumes "epoch_inv s" and "i < nparts s" and "readers s i = R_Stored e"
  shows "epoch_inv (enter_check i e s)"
proof (cases "global_epoch (mgr s) = e")
  case True
  have "p_registered (part s i)" "p_epoch (part s i) = e" using epoch_invD(3) [OF assms(1,2)] assms(3) by auto
  moreover have "held s i = {}" by (rule not_inside_holds_nothing [OF assms(1)]) (use assms(3) in auto)
  moreover have "below_frontiers (set_reader i (R_Inside e) s) i e"
    using below_current [OF epoch_invD(1) [OF assms(1)], of i] True by (simp add: below_frontiers_def)
  ultimately show ?thesis
    by - (rule reader_move [where p = "part s i" and pc = "R_Inside e" and i = i and s = s],
      insert assms True, simp_all add: enter_check_def fun_eq_iff)
next
  case False
  then show ?thesis using enter_load_inv [OF assms(1,2)] assms(3) by (simp add: enter_check_def)
qed

lemma do_leave_inv:
  assumes "epoch_inv s" and "i < nparts s" and "readers s i = R_Inside e"
  shows "epoch_inv (do_leave i s)"
proof -
  have n: "nparts (r\<lparr>held := h\<rparr>) = nparts r" "part (r\<lparr>held := h\<rparr>) k = part r k" for r h k
    by (simp_all add: nparts_def part_def)
  have "p_registered (part s i)" using epoch_invD(3) [OF assms(1,2)] assms(3) by auto
  then show ?thesis
    by - (rule reader_move [where p = "(part s i)\<lparr>p_epoch := kInactiveEpoch\<rparr>" and pc = R_Outside and i = i and s = s],
      insert assms, simp_all add: do_leave_def fun_eq_iff part_set_part n)
qed

section \<open>Picking up, unlinking and retiring objects\<close>

lemma field_parts [simp]:
  "part (s\<lparr>held := h\<rparr>) k = part s k" "nparts (s\<lparr>held := h\<rparr>) = nparts s"
  "part (s\<lparr>objects := ob\<rparr>) k = part s k" "nparts (s\<lparr>objects := ob\<rparr>) = nparts s"
  "part (s\<lparr>collector := c\<rparr>) k = part s k" "nparts (s\<lparr>collector := c\<rparr>) = nparts s"
  by (simp_all add: part_def nparts_def)

lemma reader_ok_other:
  "reader_ok (s\<lparr>held := h\<rparr>) i pc = reader_ok s i pc" "reader_ok (s\<lparr>objects := ob\<rparr>) i pc = reader_ok s i pc"
  "reader_ok (set_writer j w s) i pc = reader_ok s i pc"
  "frontier_ok (s\<lparr>held := h\<rparr>) = frontier_ok s" "frontier_ok (s\<lparr>objects := ob\<rparr>) = frontier_ok s"
  "frontier_ok (set_writer j w s) = frontier_ok s"
  "queues_ok (s\<lparr>held := h\<rparr>) = queues_ok s" "queues_ok (s\<lparr>objects := ob\<rparr>) = queues_ok s"
  "queues_ok (set_writer j w s) = queues_ok s"
  by (cases pc; simp add: below_frontiers_def frontier_ok_def queues_ok_def)+

lemma held_okI:
  assumes "\<And>i obj. obj \<in> held s i \<Longrightarrow> \<exists>e. i < nparts s \<and> objects s obj \<noteq> Freed \<and>
    readers s i = R_Inside e \<and> retired_from s obj e"
  shows "held_ok s"
  using assms unfolding held_ok_def by blast

lemma retired_from_set_writer:
  "retired_from s obj e \<Longrightarrow> (\<And>tag. w = W_Tagged obj tag \<Longrightarrow> e \<le> tag) \<Longrightarrow>
     retired_from (set_writer j w s) obj e"
  by (auto simp: retired_from_def)

lemma retired_from_fields [simp]:
  "retired_from (s\<lparr>held := h\<rparr>) obj e = retired_from s obj e"
  "retired_from (s\<lparr>objects := ob\<rparr>) obj e = retired_from s obj e"
  by (simp_all add: retired_from_def)

lemma held_ok_set_writer:
  assumes "held_ok s"
    and "\<And>i obj e tag. obj \<in> held s i \<Longrightarrow> i < nparts s \<Longrightarrow> readers s i = R_Inside e \<Longrightarrow>
      w = W_Tagged obj tag \<Longrightarrow> e \<le> tag"
  shows "held_ok (set_writer j w s)"
proof (rule held_okI)
  fix i obj assume h: "obj \<in> held (set_writer j w s) i"
  then have h': "obj \<in> held s i" by simp
  from held_okD [OF assms(1) h'] obtain e where e: "i < nparts s" "objects s obj \<noteq> Freed"
    "readers s i = R_Inside e" "retired_from s obj e" .
  then show "\<exists>e. i < nparts (set_writer j w s) \<and> objects (set_writer j w s) obj \<noteq> Freed \<and>
      readers (set_writer j w s) i = R_Inside e \<and> retired_from (set_writer j w s) obj e"
    using retired_from_set_writer [OF e(4)] assms(2) [OF h' e(1,3)] by simp
qed

lemma pick_up_inv:
  assumes inv: "epoch_inv s" and i: "i < nparts s" "readers s i = R_Inside e" and ob: "objects s obj = Linked"
  shows "epoch_inv (pick_up i obj s)"
proof -
  note I = epoch_invD [OF inv]
  have "not_retired s obj" using I(5) ob by (simp add: linked_ok_def)
  then have "retired_from s obj e" by (auto simp: not_retired_def retired_from_def)
  then have "held_ok (pick_up i obj s)"
    using I(4) i ob unfolding pick_up_def held_ok_def by (auto split: if_splits dest!: spec [where x = i])
  moreover have "linked_ok (pick_up i obj s)"
    using I(5) by (simp add: linked_ok_def pick_up_def not_retired_def)
  ultimately show ?thesis
    using I(1-3) by (simp add: epoch_inv_def) (simp add: pick_up_def reader_ok_other)
qed

lemma unlink_inv:
  assumes inv: "epoch_inv s" and w: "writers s j = W_Idle" and ob: "objects s obj = Linked"
  shows "epoch_inv (unlink j obj s)"
proof -
  note I = epoch_invD [OF inv]
  have "held_ok (s\<lparr>objects := (objects s)(obj := Unlinked)\<rparr>)"
    using I(4) by (simp add: held_ok_def)
  then have "held_ok (unlink j obj s)"
    unfolding unlink_def by (rule held_ok_set_writer) simp
  moreover have "linked_ok (unlink j obj s)"
    using I(5) by (auto simp: linked_ok_def unlink_def not_retired_def)
  ultimately show ?thesis
    using I(1-3) by (simp add: epoch_inv_def) (simp add: unlink_def reader_ok_other)
qed

lemma retire_tag_inv:
  assumes inv: "epoch_inv s" and w: "writers s j = W_Unlinked obj"
  shows "epoch_inv (retire_tag j obj s)"
proof -
  note I = epoch_invD [OF inv]
  have "e \<le> global_epoch (mgr s)" if "i < nparts s" "readers s i = R_Inside e" for i e
    using I(3) [OF that(1)] that(2) by simp
  then have "held_ok (retire_tag j obj s)"
    unfolding retire_tag_def by (intro held_ok_set_writer [OF I(4)]) simp
  moreover have "linked_ok (retire_tag j obj s)"
    using I(5) w by (auto simp: linked_ok_def retire_tag_def not_retired_def)
  ultimately show ?thesis
    using I(1-3) by (simp add: epoch_inv_def) (simp add: retire_tag_def reader_ok_other)
qed

lemma set_writer_unlinked_inv:
  assumes inv: "epoch_inv s" and w: "writers s j = W_Tagged obj tag"
  shows "epoch_inv (set_writer j (W_Unlinked obj) s)"
proof -
  note I = epoch_invD [OF inv]
  have "held_ok (set_writer j (W_Unlinked obj) s)"
    by (rule held_ok_set_writer [OF I(4)]) simp
  moreover have "linked_ok (set_writer j (W_Unlinked obj) s)"
    using I(5) w by (auto simp: linked_ok_def not_retired_def)
  ultimately show ?thesis
    using I(1-3) by (simp add: epoch_inv_def) (simp add: reader_ok_other)
qed

lemma retire_publish_inv:
  assumes inv: "epoch_inv s" and j: "j < nparts s" and w: "writers s j = W_Tagged obj tag"
  shows "epoch_inv (retire_publish j obj tag d s)"
proof -
  note I = epoch_invD [OF inv]
  let ?q = "p_retired (part s j)"
  have q: "rq_inv ?q" using I(2) j by (simp add: queues_ok_def)
  obtain ok q' where p: "retire_push obj d tag ?q = (ok, q')" by fastforce
  show ?thesis
  proof (cases ok)
    case False
    then show ?thesis using set_writer_unlinked_inv [OF inv w] p by (simp add: retire_publish_def)
  next
    case True
    have room: "length (rq_items ?q) < rq_cap ?q" using retire_push_full [OF q, of obj d tag] p True by simp
    note Q = retire_push_correct [OF q room, of obj d tag, unfolded p, simplified]
    let ?s = "set_part j (\<lambda>p. p\<lparr>p_retired := q'\<rparr>) s"
    let ?s' = "set_writer j W_Idle ?s"
    have eq: "retire_publish j obj tag d s = ?s'" using p True by (simp add: retire_publish_def)
    have P: "part ?s k = (if k = j then (part s j)\<lparr>p_retired := q'\<rparr> else part s k)" for k
      using part_set_part [OF j] by simp
    have items: "set (rq_items (p_retired (part ?s k))) = set (rq_items (p_retired (part s k))) \<union>
        (if k = j then {\<lparr>re_ptr = obj, re_deleter = d, re_epoch = tag\<rparr>} else {})" for k
      using Q(2) by (simp add: P)
    have "queues_ok ?s'" using I(2) Q(1) by (simp add: queues_ok_def P)
    moreover have "reader_ok ?s' i (readers ?s' i)" if "i < nparts ?s'" for i
    proof -
      have "reader_ok ?s' i (readers s i)"
        by (rule reader_ok_cong [OF I(3)]) (use that in \<open>simp_all add: P\<close>)
      then show ?thesis by simp
    qed
    moreover have "frontier_ok ?s'"
    proof -
      have "unat (h - rq_tail q') \<le> unat (rq_head q' - rq_tail q')"
        if "unat (h - rq_tail ?q) \<le> unat (rq_head ?q - rq_tail ?q)" for h
      proof -
        have "rq_tail q' = rq_tail ?q" "rq_head q' = rq_head ?q + 1"
          using p True by (auto simp: retire_push_def split: if_splits)
        moreover have "unat (rq_head ?q + 1 - rq_tail ?q) = unat (rq_head ?q - rq_tail ?q) + 1"
          using room q by (intro unat_inc_diff [of _ _ "2 ^ 63"]) (simp_all add: rq_items_def rq_inv_def)
        ultimately show ?thesis using that by simp
      qed
      then show ?thesis using I(1) by (simp add: frontier_ok_def P)
    qed
    moreover have ret: "retired_from ?s' ob e" if "retired_from s ob e" for ob e
    proof -
      have "ob = obj \<Longrightarrow> e \<le> tag" using that w by (auto simp: retired_from_def)
      then show ?thesis
        using that unfolding retired_from_def by (auto simp: items)
    qed
    then have "held_ok ?s'"
      using I(4) unfolding held_ok_def by (simp add: P) blast
    moreover have "linked_ok ?s'"
      unfolding linked_ok_def
    proof (intro allI impI)
      fix ob assume "objects ?s' ob = Linked"
      then have n: "not_retired s ob" using I(5) by (simp add: linked_ok_def)
      then have "ob \<noteq> obj" using w by (auto simp: not_retired_def)
      then show "not_retired ?s' ob" using n unfolding not_retired_def by (auto simp: items)
    qed
    ultimately show ?thesis unfolding eq epoch_inv_def by blast
  qed
qed

section \<open>The collector\<close>

text \<open>Steps that only move the collector, or shrink what is retired.\<close>

lemma collector_move:
  assumes inv: "epoch_inv s"
    and mgr: "participants (mgr s') = participants (mgr s)"
      "unat (global_epoch (mgr s)) \<le> unat (global_epoch (mgr s'))"
    and same: "readers s' = readers s" "writers s' = writers s" "objects s' = objects s" "held s' = held s"
    and frontier: "frontier_ok s'"
    and below: "\<And>i e. i < nparts s \<Longrightarrow> readers s i = R_Inside e \<Longrightarrow> below_frontiers s i e \<Longrightarrow>
      p_registered (part s i) \<Longrightarrow> p_epoch (part s i) = e \<Longrightarrow> below_frontiers s' i e"
  shows "epoch_inv s'"
proof -
  note I = epoch_invD [OF inv]
  have P: "part s' k = part s k" "nparts s' = nparts s" for k
    by (simp_all add: part_cong [OF mgr(1)] nparts_cong [OF mgr(1)])
  note C = retired_from_cong [OF same(2) P(2), unfolded P(1), OF refl]
  have "reader_ok s' i (readers s' i)" if "i < nparts s'" for i
  proof -
    have ok: "reader_ok s i (readers s i)" using that P by (intro I(3)) simp
    have le: "e \<le> global_epoch (mgr s')" if "e \<le> global_epoch (mgr s)" for e
      using that mgr(2) by (simp add: word_le_nat_alt)
    show ?thesis
      using ok below [of i] that by (cases "readers s i") (simp_all add: P same le)
  qed
  moreover have "held_ok s'" using I(4) by (simp add: held_ok_def P same C)
  moreover have "linked_ok s'" using I(5) by (simp add: linked_ok_def same C)
  moreover have "queues_ok s'" using I(2) by (simp add: C)
  ultimately show ?thesis using frontier by (simp add: epoch_inv_def)
qed

lemma frontier_okD:
  assumes "frontier_ok s"
  shows "unat (global_epoch (mgr s)) + 1 < 2 ^ 64"
    "has_safe_epoch (mgr s) \<Longrightarrow> unat (safe_epoch (mgr s)) + 3 \<le> unat (global_epoch (mgr s))"
    "collector s = C_Scan k c \<Longrightarrow> unat c + 3 \<le> unat (global_epoch (mgr s))"
    "collector s = C_Drain k \<or> collector s = C_Draining k h \<Longrightarrow> has_safe_epoch (mgr s)"
    "collector s = C_Draining k h \<Longrightarrow> k < nparts s"
    "collector s = C_Draining k h \<Longrightarrow> unat (h - rq_tail (p_retired (part s k))) \<le>
       unat (rq_head (p_retired (part s k)) - rq_tail (p_retired (part s k)))"
  using assms unfolding frontier_ok_def by blast+

lemma begin_collect_inv: "epoch_inv s \<Longrightarrow> epoch_inv (begin_collect s)"
  by (rule collector_move [of s])
    (auto simp: begin_collect_def below_frontiers_def frontier_ok_def epoch_inv_def)

lemma drain_open_inv:
  assumes inv: "epoch_inv s" and c: "collector s = C_Drain k"
  shows "epoch_inv (drain_open k s)"
proof -
  have "frontier_ok (drain_open k s)"
    using epoch_invD(1) [OF inv] c by (auto simp: drain_open_def frontier_ok_def)
  then show ?thesis
    by - (rule collector_move [OF inv], simp_all add: drain_open_def below_frontiers_def)
qed

lemma unat_diff_succ:
  fixes t h :: u64
  assumes "t \<noteq> h"
  shows "unat (h - (t + 1)) = unat (h - t) - 1"
proof -
  have "unat (h - t) \<noteq> 0" using assms by (simp add: unat_eq_zero)
  then have "unat (1 :: u64) \<le> unat (h - t)" by simp
  from unat_diff_add [OF this] show ?thesis by simp
qed

lemma unat_minus_grace:
  fixes w :: u64
  assumes "\<not> w < kGraceEpochs"
  shows "unat (w - kGraceEpochs) + 3 = unat w"
  using assms by (simp add: kGraceEpochs_def not_less unat_sub word_le_nat_alt)

lemma drain_entry_inv:
  assumes inv: "epoch_inv s" and c: "collector s = C_Draining k h"
  shows "epoch_inv (drain_entry k h s)"
proof -
  note I = epoch_invD [OF inv]
  note F = frontier_okD [OF I(1)]
  have k: "k < nparts s" by (rule F(5) [OF c])
  have safe: "has_safe_epoch (mgr s)" using F(4) c by blast
  let ?q = "p_retired (part s k)"
  let ?e = "rq_entries ?q ! rq_index ?q (rq_tail ?q)"
  have q: "rq_inv ?q" using I(2) k by (simp add: queues_ok_def)
  show ?thesis
  proof (cases "rq_tail ?q = h \<or> re_epoch ?e > safe_epoch (mgr s)")
    case True
    then have eq: "drain_entry k h s = s\<lparr>collector := C_Drain (Suc k)\<rparr>" by (simp add: drain_entry_def Let_def)
    have "frontier_ok (drain_entry k h s)" using I(1) safe by (simp add: eq frontier_ok_def)
    then show ?thesis by - (rule collector_move [OF inv], simp_all add: eq below_frontiers_def)
  next
    case False
    have ne: "rq_tail ?q \<noteq> rq_head ?q" using False F(6) [OF c] by (auto simp: unat_eq_zero)
    note D = retire_drop_correct [OF q ne]
    let ?s1 = "set_part k (\<lambda>p. p\<lparr>p_retired := retire_drop ?q\<rparr>) s"
    let ?s' = "?s1\<lparr>objects := (objects s)(re_ptr ?e := Freed)\<rparr>"
    have eq: "drain_entry k h s = ?s'" using False by (simp add: drain_entry_def Let_def)
    have P: "part ?s1 i = (if i = k then (part s k)\<lparr>p_retired := retire_drop ?q\<rparr> else part s i)" for i
      using part_set_part [OF k] by simp
    have items: "set (rq_items (p_retired (part ?s1 i))) \<subseteq> set (rq_items (p_retired (part s i)))" for i
      using D(1) by (auto simp: P)
    have "queues_ok ?s'" using I(2) D(2) by (simp add: queues_ok_def P)
    moreover have "frontier_ok ?s'"
    proof -
      have "rq_tail (retire_drop ?q) = rq_tail ?q + 1" "rq_head (retire_drop ?q) = rq_head ?q"
        by (simp_all add: retire_drop_def)
      moreover have "unat (rq_head ?q - (rq_tail ?q + 1)) = unat (rq_head ?q - rq_tail ?q) - 1"
        by (rule unat_diff_succ [OF ne])
      moreover have "unat (h - (rq_tail ?q + 1)) = unat (h - rq_tail ?q) - 1"
        using False by (intro unat_diff_succ) simp
      ultimately show ?thesis using I(1) c F(6) [OF c] by (simp add: frontier_ok_def P diff_le_mono)
    qed
    moreover have "reader_ok ?s' i (readers ?s' i)" if "i < nparts ?s'" for i
    proof -
      have "reader_ok ?s' i (readers s i)"
        by (rule reader_ok_cong [OF I(3)]) (use that in \<open>simp_all add: P\<close>)
      then show ?thesis by simp
    qed
    moreover have "held_ok ?s'"
    proof (rule held_okI)
      fix i ob assume "ob \<in> held ?s' i"
      then have "ob \<in> held s i" by simp
      from held_okD [OF I(4) this] obtain e where e: "i < nparts s" "objects s ob \<noteq> Freed"
        "readers s i = R_Inside e" "retired_from s ob e" .
      have "safe_epoch (mgr s) < e" using I(3) [OF e(1)] e(3) safe by (simp add: below_frontiers_def)
      moreover have "?e \<in> set (rq_items ?q)" using D(1) by simp
      then have "re_ptr ?e = ob \<Longrightarrow> e \<le> re_epoch ?e" using e(4) k by (auto simp: retired_from_def)
      ultimately have "re_ptr ?e \<noteq> ob" using False by auto
      moreover have "retired_from ?s' ob e" using e(4) items unfolding retired_from_def by simp blast
      ultimately show "\<exists>e. i < nparts ?s' \<and> objects ?s' ob \<noteq> Freed \<and> readers ?s' i = R_Inside e \<and>
          retired_from ?s' ob e"
        using e by simp
    qed
    moreover have "linked_ok ?s'"
      unfolding linked_ok_def
    proof (intro allI impI)
      fix ob assume "objects ?s' ob = Linked"
      then have "not_retired s ob" using I(5) by (simp add: linked_ok_def split: if_splits)
      then show "not_retired ?s' ob" using items unfolding not_retired_def by simp blast
    qed
    ultimately show ?thesis unfolding eq epoch_inv_def by blast
  qed
qed

lemma advance_epoch_inv:
  assumes inv: "epoch_inv s" and c: "collector s = C_Advance" and room: "unat (global_epoch (mgr s)) + 2 < 2 ^ 64"
  shows "epoch_inv (advance_epoch s)"
proof -
  let ?g = "global_epoch (mgr s)"
  have g: "unat (?g + 1) = unat ?g + 1" using room by (simp add: unat_word_ariths(1))
  have sub: "unat (?g + 1 - kGraceEpochs) + 3 \<le> unat (?g + 1)" if "\<not> ?g + 1 < kGraceEpochs"
    using unat_minus_grace [OF that] by simp
  have "frontier_ok (advance_epoch s)"
    using frontier_okD(1,2) [OF epoch_invD(1) [OF inv]] room sub g
    by (auto simp: advance_epoch_def Let_def frontier_ok_def)
  then show ?thesis
    using g by - (rule collector_move [OF inv],
      auto simp: advance_epoch_def Let_def below_frontiers_def)
qed

lemma scan_step_inv:
  assumes inv: "epoch_inv s" and c: "collector s = C_Scan k cand"
  shows "epoch_inv (scan_step k cand s)"
proof -
  note I = epoch_invD [OF inv]
  note F = frontier_okD [OF I(1)]
  have lim: "unat cand + 3 \<le> unat (global_epoch (mgr s))" by (rule F(3) [OF c])
  have active: "e \<noteq> kInactiveEpoch" if "i < nparts s" "readers s i = R_Inside e" for i e
  proof -
    have "unat e \<le> unat (global_epoch (mgr s))" using I(3) [OF that(1)] that(2) by (simp add: word_le_nat_alt)
    then have "unat e + 1 < 2 ^ 64" using F(1) by simp
    then show ?thesis by (auto simp: kInactiveEpoch_def)
  qed
  show ?thesis
  proof (cases "k < nparts s")
    case True
    show ?thesis
    proof (cases "scan_participant (part s k) cand")
      case None
      then have eq: "scan_step k cand s = s\<lparr>collector := C_Idle\<rparr>" using True by (simp add: scan_step_def)
      have "frontier_ok (scan_step k cand s)" using I(1) by (simp add: eq frontier_ok_def)
      then show ?thesis by - (rule collector_move [OF inv], simp_all add: eq below_frontiers_def)
    next
      case (Some c')
      then have eq: "scan_step k cand s = s\<lparr>collector := C_Scan (Suc k) c'\<rparr>" using True by (simp add: scan_step_def)
      have le: "c' \<le> cand" using Some
        by (auto simp: scan_participant_def word_le_nat_alt not_less unat_gt_0 split: if_splits
            dest: order_trans [OF diff_le_self] simp: unat_minus_one)
      have own: "c' < e" if "readers s k = R_Inside e" "p_registered (part s k)" "p_epoch (part s k) = e" for e
      proof (cases "e > cand")
        case True
        then show ?thesis using le by (rule le_less_trans [rotated])
      next
        case False
        then have "e \<noteq> 0" "c' = e - 1"
          using Some that active [OF \<open>k < nparts s\<close> that(1)] by (auto simp: scan_participant_def split: if_splits)
        then show ?thesis by (simp add: word_less_nat_alt unat_minus_one unat_gt_0)
      qed
      have "frontier_ok (scan_step k cand s)"
        using I(1) lim le by (simp add: eq frontier_ok_def word_le_nat_alt)
      moreover have "below_frontiers (scan_step k cand s) i e"
        if "readers s i = R_Inside e" "below_frontiers s i e" "p_registered (part s i)" "p_epoch (part s i) = e" for i e
      proof (cases "i = k")
        case True
        then show ?thesis using that own by (simp add: below_frontiers_def eq)
      next
        case False
        then have "i < Suc k \<Longrightarrow> c' < e" using that(2) c le by (auto simp: below_frontiers_def)
        then show ?thesis using that by (simp add: below_frontiers_def eq)
      qed
      ultimately show ?thesis by - (rule collector_move [OF inv], simp_all add: eq)
    qed
  next
    case False
    then have eq: "scan_step k cand s = s\<lparr>mgr := publish_frontier cand (mgr s), collector := C_Idle\<rparr>"
      by (simp add: scan_step_def)
    have pf: "participants (publish_frontier cand m) = participants m"
      "global_epoch (publish_frontier cand m) = global_epoch m"
      "has_safe_epoch (publish_frontier cand m)"
      "safe_epoch (publish_frontier cand m) = cand \<or>
        has_safe_epoch m \<and> safe_epoch (publish_frontier cand m) = safe_epoch m" for m
      by (auto simp: publish_frontier_def)
    have "frontier_ok (scan_step k cand s)"
      using pf(4) [of "mgr s"] F(1,2) lim by (elim disjE) (simp_all add: eq frontier_ok_def pf)
    moreover have "below_frontiers (scan_step k cand s) i e" if "i < nparts s" "below_frontiers s i e" for i e
      using that c False pf(4) [of "mgr s"] by (auto simp: below_frontiers_def eq)
    ultimately show ?thesis by - (rule collector_move [OF inv], simp_all add: eq pf)
  qed
qed

lemma epoch_step_inv: "epoch_step s s' \<Longrightarrow> epoch_inv s \<Longrightarrow> epoch_inv s'"
  by (induction rule: epoch_step.induct)
    (simp_all add: do_register_inv do_unregister_inv enter_load_inv enter_store_inv enter_check_inv
      do_leave_inv pick_up_inv unlink_inv retire_tag_inv retire_publish_inv begin_collect_inv
      drain_open_inv drain_entry_inv advance_epoch_inv scan_step_inv)

lemma epoch_start_inv:
  assumes "is_pow2 retired" and "retired < 2 ^ 63"
  shows "epoch_inv (epoch_start threads retired linked)"
proof -
  have "rq_inv (queue_new retired)" "rq_items (queue_new retired) = []"
    using assms by (simp_all add: rq_inv_def queue_new_def rq_cap_def rq_items_def)
  then show ?thesis
    by (simp add: epoch_inv_def epoch_start_def epoch_new_def frontier_ok_def queues_ok_def held_ok_def
        linked_ok_def not_retired_def part_def nparts_def)
qed

lemma epoch_reachable_inv:
  assumes "is_pow2 retired" and "retired < 2 ^ 63"
  shows "epoch_reachable threads retired linked s \<Longrightarrow> epoch_inv s"
  by (induction rule: epoch_reachable.induct) (auto intro: epoch_start_inv [OF assms] epoch_step_inv)

section \<open>Properties\<close>

text \<open>C4: No use after free: in every interleaving of readers, retiring writers and the collector,
  an object a reader picked up inside its critical section has not been freed.\<close>
theorem epoch_no_use_after_free:
  assumes "is_pow2 retired" and "retired < 2 ^ 63"
    and "epoch_reachable threads retired linked s" and "obj \<in> held s i"
  shows "objects s obj \<noteq> Freed"
  using epoch_invD(4) [OF epoch_reachable_inv [OF assms(1-3)]] assms(4) by (auto simp: held_ok_def)

text \<open>A reader holds object 7 while a writer unlinks and retires it.\<close>

definition demo_epoch :: epoch_sys where
  "demo_epoch = retire_publish 0 7 0 1 (retire_tag 0 7 (unlink 0 7 (pick_up 0 7 (enter_check 0 0
     (enter_store 0 0 (enter_load 0 (do_register 0 (epoch_start 1 4 {7}))))))))"

lemma demo_epoch_reachable: "epoch_reachable 1 4 {7} demo_epoch"
proof -
  let ?a = "do_register 0 (epoch_start 1 4 {7})"
  let ?b = "enter_load 0 ?a"
  let ?c = "enter_store 0 0 ?b"
  let ?d = "enter_check 0 0 ?c"
  let ?e = "pick_up 0 7 ?d"
  let ?f = "unlink 0 7 ?e"
  let ?g = "retire_tag 0 7 ?f"
  note S = epoch_reachable.step
  note d = epoch_start_def epoch_new_def do_register_def enter_load_def enter_store_def enter_check_def
    pick_up_def unlink_def retire_tag_def set_reader_def set_writer_def set_part_def
    update_participant_def nparts_def
  have "epoch_step (epoch_start 1 4 {7}) ?a" by (rule epoch_step.register) (simp_all add: d)
  note r = S [OF epoch_reachable.start this]
  have "epoch_step ?a ?b" by (rule epoch_step.enter_load) (simp_all add: d)
  note r = S [OF r this]
  have "epoch_step ?b ?c" by (rule epoch_step.enter_store) (simp_all add: d)
  note r = S [OF r this]
  have "epoch_step ?c ?d" by (rule epoch_step.enter_check) (simp_all add: d)
  note r = S [OF r this]
  have "epoch_step ?d ?e" by (rule epoch_step.pick_up) (simp_all add: d)
  note r = S [OF r this]
  have "epoch_step ?e ?f" by (rule epoch_step.unlink) (simp_all add: d)
  note r = S [OF r this]
  have "epoch_step ?f ?g" by (rule epoch_step.retire_tag) (simp_all add: d)
  note r = S [OF r this]
  have "epoch_step ?g demo_epoch"
    unfolding demo_epoch_def by (rule epoch_step.retire_publish) (simp_all add: d)
  from S [OF r this] show ?thesis .
qed

lemma epoch_no_use_after_free_witness: "objects demo_epoch 7 \<noteq> Freed"
proof (rule epoch_no_use_after_free [OF _ _ demo_epoch_reachable])
  show "is_pow2 (4 :: nat)" by code_simp
  show "7 \<in> held demo_epoch 0"
    by (simp add: demo_epoch_def retire_publish_def retire_tag_def unlink_def pick_up_def Let_def
        split: prod.splits)
qed simp

end
