(* ===== verification/Handle_Table.thy ===== *)
theory Handle_Table
  imports Prelude
begin

text \<open>
  The generation-tagged handle table of \<open>src/src/core/handles.hpp\<close>: the packing of a 64-bit
  handle, and the fixed table that turns it into a pointer. A pointer is a number, 0 is null. The
  operations run under the table lock. The table refines a finite map from handles to pointers,
  and a handle that was unregistered stays dead until its slot's 32-bit generation comes around.
\<close>

section \<open>Handles\<close>

datatype HandleKind =
    Invalid
  | Model
  | Session
  | Embedder
  | Adapter
  | Conversation
  | PromptCache
  | Toolset
  | MemoryIndex
  | MemorySearch
  | MemorySnapshot
  | Agent

fun kind_code :: "HandleKind \<Rightarrow> u32" where
  "kind_code Invalid = 0"
| "kind_code Model = 1"
| "kind_code Session = 2"
| "kind_code Embedder = 3"
| "kind_code Adapter = 4"
| "kind_code Conversation = 5"
| "kind_code PromptCache = 6"
| "kind_code Toolset = 7"
| "kind_code MemoryIndex = 8"
| "kind_code MemorySearch = 9"
| "kind_code MemorySnapshot = 10"
| "kind_code Agent = 11"

definition make_handle :: "u32 \<Rightarrow> u32 \<Rightarrow> u32 \<Rightarrow> u64" where
  "make_handle kind index generation =
     push_bit 56 (ucast kind) OR push_bit 32 (ucast (index AND 0x00FFFFFF)) OR ucast generation"

definition handle_kind :: "u64 \<Rightarrow> u32" where
  "handle_kind handle = ucast (drop_bit 56 handle AND 0xFF)"

definition handle_index :: "u64 \<Rightarrow> u32" where
  "handle_index handle = ucast (drop_bit 32 handle AND 0x00FFFFFF)"

definition handle_generation :: "u64 \<Rightarrow> u32" where
  "handle_generation handle = ucast (handle AND 0xFFFFFFFF)"

section \<open>The table\<close>

record handle_slot =
  h_ptr :: nat
  h_generation :: u32
  h_kind :: u32

record handle_table =
  h_slots :: "handle_slot list"
  next_index :: u32

definition kMaxHandles :: "handle_table \<Rightarrow> nat" where
  "kMaxHandles t = length (h_slots t)"

definition handle_table_new :: "nat \<Rightarrow> handle_table" where
  "handle_table_new n =
     \<lparr>h_slots = replicate n \<lparr>h_ptr = 0, h_generation = 0, h_kind = kind_code Invalid\<rparr>, next_index = 0\<rparr>"

definition next_generation :: "u32 \<Rightarrow> u32" where
  "next_generation gen = (if gen + 1 = 0 then 1 else gen + 1)"

definition fill_slot :: "u32 \<Rightarrow> nat \<Rightarrow> nat \<Rightarrow> handle_table \<Rightarrow> u64 \<times> handle_table" where
  "fill_slot kind ptr index t =
     (let gen = next_generation (h_generation (h_slots t ! index))
      in (make_handle kind (of_nat index) gen,
          t\<lparr>h_slots := (h_slots t)[index := \<lparr>h_ptr = ptr, h_generation = gen, h_kind = kind\<rparr>],
            next_index := of_nat ((index + 1) mod kMaxHandles t)\<rparr>))"

text \<open>The search for a free slot, round robin from \<open>next_index_\<close>.\<close>

function register_scan :: "u32 \<Rightarrow> nat \<Rightarrow> nat \<Rightarrow> handle_table \<Rightarrow> u64 \<times> handle_table" where
  "register_scan kind ptr i t =
     (if i < kMaxHandles t then
        let index = (unat (next_index t) + i) mod kMaxHandles t
        in if h_ptr (h_slots t ! index) \<noteq> 0 then register_scan kind ptr (Suc i) t
           else fill_slot kind ptr index t
      else (0, t))"
  by pat_completeness auto
termination
  by (relation "measure (\<lambda>(kind, ptr, i, t). kMaxHandles t - i)") auto

declare register_scan.simps [simp del]

definition register_ptr :: "u32 \<Rightarrow> nat \<Rightarrow> handle_table \<Rightarrow> u64 \<times> handle_table" where
  "register_ptr kind ptr t =
     (if ptr = 0 \<or> kind = kind_code Invalid then (0, t) else register_scan kind ptr 0 t)"

definition unregister_handle :: "u64 \<Rightarrow> u32 \<Rightarrow> handle_table \<Rightarrow> handle_table" where
  "unregister_handle handle expected_kind t =
     (if handle = 0 \<or> expected_kind = kind_code Invalid then t
      else
        let index = unat (handle_index handle); gen = handle_generation handle
        in if index \<ge> kMaxHandles t then t
           else if gen = 0 then t
           else
             let slot = h_slots t ! index
             in if h_ptr slot = 0 then t
                else if h_kind slot \<noteq> expected_kind \<or> h_generation slot \<noteq> gen then t
                else t\<lparr>h_slots := (h_slots t)[index := slot\<lparr>h_ptr := 0, h_kind := kind_code Invalid\<rparr>]\<rparr>)"

definition lookup :: "handle_table \<Rightarrow> u64 \<Rightarrow> u32 \<Rightarrow> nat" where
  "lookup t handle expected_kind =
     (if handle = 0 \<or> expected_kind = kind_code Invalid then 0
      else if handle_kind handle \<noteq> expected_kind then 0
      else
        let index = unat (handle_index handle); gen = handle_generation handle
        in if index \<ge> kMaxHandles t then 0
           else if gen = 0 then 0
           else
             let slot = h_slots t ! index
             in if h_ptr slot = 0 then 0
                else if h_kind slot \<noteq> expected_kind \<or> h_generation slot \<noteq> gen then 0
                else h_ptr slot)"

definition is_valid :: "handle_table \<Rightarrow> u64 \<Rightarrow> bool" where
  "is_valid t handle =
     (let kind = handle_kind handle
      in if kind = kind_code Invalid then False else lookup t handle kind \<noteq> 0)"

section \<open>Packing\<close>

lemma mask_consts: "(0xFF :: u64) = mask 8" "(0x00FFFFFF :: u64) = mask 24" "(0x00FFFFFF :: u32) = mask 24"
  "(0xFFFFFFFF :: u64) = mask 32"
  by (simp_all add: mask_eq_exp_minus_1)

lemma bit_small:
  fixes w :: u32
  assumes "unat w < 2 ^ k" and "k \<le> n"
  shows "\<not> bit w n"
proof -
  have "unat w < 2 ^ n" using assms by (meson less_le_trans one_le_numeral power_increasing)
  then have "take_bit n (unat w) = unat w" by (simp add: take_bit_nat_eq_self)
  then have "take_bit n w = w" by (metis unsigned_take_bit_eq unsigned_word_eqI)
  then show ?thesis by (metis bit_take_bit_iff less_irrefl)
qed

lemma handle_kind_make:
  assumes "unat k < 2 ^ 8"
  shows "handle_kind (make_handle k i g) = k"
proof (rule bit_word_eqI)
  fix n assume "n < LENGTH(32)"
  moreover have "n < 8 \<or> \<not> bit k n" using bit_small [OF assms, of n] by (meson not_less)
  ultimately show "bit (handle_kind (make_handle k i g)) n \<longleftrightarrow> bit k n"
    by (auto simp: handle_kind_def make_handle_def mask_consts bit_simps not_less
        dest: bit_imp_le_length)
qed

lemma handle_index_make:
  assumes "unat i < 2 ^ 24"
  shows "handle_index (make_handle k i g) = i"
proof (rule bit_word_eqI)
  fix n assume "n < LENGTH(32)"
  moreover have "n < 24 \<or> \<not> bit i n" using bit_small [OF assms, of n] by (meson not_less)
  ultimately show "bit (handle_index (make_handle k i g)) n \<longleftrightarrow> bit i n"
    by (auto simp: handle_index_def make_handle_def mask_consts bit_simps not_less
        dest: bit_imp_le_length)
qed

lemma handle_generation_make: "handle_generation (make_handle k i g) = g"
proof (rule bit_word_eqI)
  fix n assume "n < LENGTH(32)"
  then show "bit (handle_generation (make_handle k i g)) n \<longleftrightarrow> bit g n"
    by (auto simp: handle_generation_def make_handle_def mask_consts bit_simps not_less)
qed

lemma make_handle_parts: "make_handle (handle_kind h) (handle_index h) (handle_generation h) = h"
proof (rule bit_word_eqI)
  fix n assume "n < LENGTH(64)"
  then have "n < 32 \<or> (32 \<le> n \<and> n < 56) \<or> n = 56 + (n - 56) \<and> n - 56 < 8" by auto
  then consider "n < 32" | "32 \<le> n" "n < 56" | k where "n = 56 + k" "k < 8" by blast
  then show "bit (make_handle (handle_kind h) (handle_index h) (handle_generation h)) n \<longleftrightarrow> bit h n"
    by cases (auto simp: make_handle_def handle_kind_def handle_index_def handle_generation_def mask_consts bit_simps not_less)
qed


section \<open>The map of live handles\<close>

text \<open>The specification: the handles that answer, with their pointers.\<close>

definition live :: "handle_table \<Rightarrow> u64 \<rightharpoonup> nat" where
  "live t h = (let p = lookup t h (handle_kind h) in if p = 0 then None else Some p)"

definition slot_live :: "handle_slot \<Rightarrow> bool" where
  "slot_live s \<longleftrightarrow> h_ptr s \<noteq> 0"

definition table_inv :: "handle_table \<Rightarrow> bool" where
  "table_inv t \<longleftrightarrow> 0 < kMaxHandles t \<and> kMaxHandles t \<le> 2 ^ 24 \<and>
     (\<forall>s \<in> set (h_slots t). h_ptr s \<noteq> 0 \<longrightarrow>
        h_kind s \<noteq> kind_code Invalid \<and> unat (h_kind s) < 2 ^ 8 \<and> h_generation s \<noteq> 0)"

lemma table_inv_new: "0 < n \<Longrightarrow> n \<le> 2 ^ 24 \<Longrightarrow> table_inv (handle_table_new n)"
  by (simp add: table_inv_def handle_table_new_def kMaxHandles_def)

text \<open>A live handle names its slot.\<close>

definition names_slot :: "u64 \<Rightarrow> nat \<Rightarrow> handle_slot \<Rightarrow> bool" where
  "names_slot h i s \<longleftrightarrow> h_ptr s \<noteq> 0 \<and> handle_kind h = h_kind s \<and> unat (handle_index h) = i \<and>
     handle_generation h = h_generation s"

lemma lookup_live:
  "lookup t h k = (if handle_kind h = k then case live t h of None \<Rightarrow> 0 | Some p \<Rightarrow> p else 0)"
  by (auto simp: live_def lookup_def Let_def)

lemma handle_kind_0: "handle_kind 0 = kind_code Invalid"
  by (simp add: handle_kind_def)

text \<open>All the tests of \<open>lookup\<close> at once.\<close>

definition answers :: "handle_table \<Rightarrow> u64 \<Rightarrow> u32 \<Rightarrow> bool" where
  "answers t h k \<longleftrightarrow> h \<noteq> 0 \<and> k \<noteq> kind_code Invalid \<and> handle_kind h = k \<and>
     unat (handle_index h) < kMaxHandles t \<and> handle_generation h \<noteq> 0 \<and>
     (let s = h_slots t ! unat (handle_index h)
      in h_ptr s \<noteq> 0 \<and> h_kind s = k \<and> h_generation s = handle_generation h)"

lemma lookup_answers:
  "lookup t h k = (if answers t h k then h_ptr (h_slots t ! unat (handle_index h)) else 0)"
proof (cases "h = 0 \<or> k = kind_code Invalid \<or> handle_kind h \<noteq> k")
  case True
  then show ?thesis by (elim disjE) (simp_all add: lookup_def answers_def)
next
  case False
  then show ?thesis
    by (auto simp: lookup_def answers_def Let_def simp del: kind_code.simps)
qed

lemma live_iff:
  assumes inv: "table_inv t"
  shows "live t h = Some p \<longleftrightarrow>
    (\<exists>i < kMaxHandles t. names_slot h i (h_slots t ! i) \<and> p = h_ptr (h_slots t ! i))"
proof -
  have slot: "h_kind (h_slots t ! i) \<noteq> kind_code Invalid \<and> h_generation (h_slots t ! i) \<noteq> 0"
    if "i < kMaxHandles t" "h_ptr (h_slots t ! i) \<noteq> 0" for i
    using inv that by (simp add: table_inv_def kMaxHandles_def)
  let ?i = "unat (handle_index h)"
  let ?s = "h_slots t ! ?i"
  have nz: "handle_kind h \<noteq> kind_code Invalid \<Longrightarrow> h \<noteq> 0" using handle_kind_0 by auto
  have L: "lookup t h (handle_kind h) = (if ?i < kMaxHandles t \<and> names_slot h ?i ?s then h_ptr ?s else 0)"
  proof (cases "?i < kMaxHandles t \<and> names_slot h ?i ?s")
    case True
    then have "handle_kind h \<noteq> kind_code Invalid" "handle_generation h \<noteq> 0"
      using slot [of ?i] by (simp_all add: names_slot_def)
    then have "answers t h (handle_kind h)"
      using True nz unfolding answers_def names_slot_def by simp
    then show ?thesis using True by (simp only: lookup_answers simp_thms if_True)
  next
    case False
    then have "\<not> answers t h (handle_kind h)" by (auto simp: answers_def names_slot_def)
    then show ?thesis by (simp only: lookup_answers False if_False)
  qed
  have "(\<exists>i < kMaxHandles t. names_slot h i (h_slots t ! i) \<and> p = h_ptr (h_slots t ! i)) \<longleftrightarrow>
      ?i < kMaxHandles t \<and> names_slot h ?i ?s \<and> p = h_ptr ?s"
    by (auto simp: names_slot_def)
  then show ?thesis by (auto simp: live_def L names_slot_def Let_def)
qed

lemma names_slot_inj:
  assumes "names_slot h i s" and "names_slot h' i s"
  shows "h = h'"
proof -
  have "handle_index h = handle_index h'" using assms by (metis names_slot_def unsigned_word_eqI)
  then show ?thesis using assms make_handle_parts by (metis names_slot_def)
qed

lemma make_handle_names:
  assumes "ptr \<noteq> 0" and "unat kind < 2 ^ 8" and "i < 2 ^ 24"
  shows "names_slot (make_handle kind (of_nat i) gen) i \<lparr>h_ptr = ptr, h_generation = gen, h_kind = kind\<rparr>"
proof -
  have i: "unat (of_nat i :: u32) = i" using assms(3) by (simp add: unat_of_nat)
  then have "unat (of_nat i :: u32) < 2 ^ 24" using assms(3) by simp
  then show ?thesis
    using assms i by (simp add: names_slot_def handle_kind_make handle_index_make handle_generation_make)
qed

lemma next_generation_nonzero: "next_generation g \<noteq> 0"
  by (simp add: next_generation_def)

lemma fill_slot_correct:
  assumes inv: "table_inv t" and i: "i < kMaxHandles t" and free: "h_ptr (h_slots t ! i) = 0"
    and ptr: "ptr \<noteq> 0" and kind: "kind \<noteq> kind_code Invalid" "unat kind < 2 ^ 8"
    and f: "fill_slot kind ptr i t = (h, t')"
  shows "h \<noteq> 0" "live t h = None" "live t' = (live t)(h \<mapsto> ptr)" "table_inv t'"
    "handle_kind h = kind" "unat (handle_index h) = i"
proof -
  let ?gen = "next_generation (h_generation (h_slots t ! i))"
  let ?s = "\<lparr>h_ptr = ptr, h_generation = ?gen, h_kind = kind\<rparr>"
  have h: "h = make_handle kind (of_nat i) ?gen"
    and t': "h_slots t' = (h_slots t)[i := ?s]" using f by (auto simp: fill_slot_def Let_def)
  have i24: "i < 2 ^ 24" using i inv by (simp add: table_inv_def)
  have n: "names_slot h i ?s" unfolding h by (rule make_handle_names [OF ptr kind(2) i24])
  have K: "kMaxHandles t' = kMaxHandles t" by (simp add: kMaxHandles_def t')
  have il: "i < length (h_slots t)" using i by (simp add: kMaxHandles_def)
  show hk: "handle_kind h = kind" "unat (handle_index h) = i" using n by (simp_all add: names_slot_def)
  then show "h \<noteq> 0" using kind handle_kind_0 by auto
  have "set (h_slots t') \<subseteq> insert ?s (set (h_slots t))"
    unfolding t' by (rule set_update_subset_insert)
  then show inv': "table_inv t'"
    using inv kind next_generation_nonzero unfolding table_inv_def K by fastforce
  have none: "\<not> names_slot h' i (h_slots t ! i)" for h' using free by (simp add: names_slot_def)
  show fresh: "live t h = None"
  proof (rule ccontr)
    assume "live t h \<noteq> None"
    then obtain p where "live t h = Some p" by auto
    then obtain j where "names_slot h j (h_slots t ! j)" using live_iff [OF inv] by blast
    moreover from this have "j = i" using hk(2) by (simp add: names_slot_def)
    ultimately show False using none by blast
  qed
  show "live t' = (live t)(h \<mapsto> ptr)"
  proof
    fix x
    have "live t' x = Some p \<longleftrightarrow> ((live t)(h \<mapsto> ptr)) x = Some p" for p
    proof (cases "x = h")
      case True
      have "live t' h = Some q \<longleftrightarrow> q = ptr" for q
      proof -
        have "j = i" if "names_slot h j s" for j s using that hk(2) by (simp add: names_slot_def)
        then show ?thesis using live_iff [OF inv'] n i il unfolding K t' by fastforce
      qed
      then show ?thesis using True by auto
    next
      case False
      have "(\<exists>j < kMaxHandles t. names_slot x j (h_slots t' ! j) \<and> p = h_ptr (h_slots t' ! j)) \<longleftrightarrow>
          (\<exists>j < kMaxHandles t. names_slot x j (h_slots t ! j) \<and> p = h_ptr (h_slots t ! j))"
      proof (rule ex_cong1)
        fix j
        show "(j < kMaxHandles t \<and> names_slot x j (h_slots t' ! j) \<and> p = h_ptr (h_slots t' ! j)) \<longleftrightarrow>
            (j < kMaxHandles t \<and> names_slot x j (h_slots t ! j) \<and> p = h_ptr (h_slots t ! j))"
        proof (cases "j = i")
          case True
          then have "\<not> names_slot x j (h_slots t' ! j)" using names_slot_inj [OF n] False il by (auto simp: t')
          then show ?thesis using none True by simp
        next
          case False
          then show ?thesis by (simp add: t')
        qed
      qed
      then show ?thesis using False live_iff [OF inv] live_iff [OF inv'] by (simp add: K)
    qed
    then show "live t' x = ((live t)(h \<mapsto> ptr)) x" by (rule option_eqI)
  qed
qed

section \<open>Registration and removal refine the map\<close>

lemma register_scan_cases:
  assumes "0 < kMaxHandles t" and "register_scan kind ptr i t = r"
    and "\<And>a. a < i \<Longrightarrow> h_ptr (h_slots t ! ((unat (next_index t) + a) mod kMaxHandles t)) \<noteq> 0"
  shows "(\<exists>j < kMaxHandles t. h_ptr (h_slots t ! j) = 0 \<and> r = fill_slot kind ptr j t) \<or>
    r = (0, t) \<and> (\<forall>a < kMaxHandles t. h_ptr (h_slots t ! ((unat (next_index t) + a) mod kMaxHandles t)) \<noteq> 0)"
  using assms(2,3)
proof (induction "kMaxHandles t - i" arbitrary: i)
  case 0
  then have "\<not> i < kMaxHandles t" by simp
  then have "r = (0, t)" using 0(2) register_scan.simps [of kind ptr i t] by simp
  then show ?case using 0 \<open>\<not> i < kMaxHandles t\<close> by auto
next
  case (Suc d)
  let ?j = "(unat (next_index t) + i) mod kMaxHandles t"
  have lt: "i < kMaxHandles t" using Suc.hyps(2) by simp
  show ?case
  proof (cases "h_ptr (h_slots t ! ?j) = 0")
    case True
    then have "r = fill_slot kind ptr ?j t"
      using Suc.prems(1) lt register_scan.simps [of kind ptr i t] by simp
    then show ?thesis using True mod_less_divisor [OF assms(1)] by blast
  next
    case False
    then have "register_scan kind ptr (Suc i) t = r"
      using Suc.prems(1) lt register_scan.simps [of kind ptr i t] by simp
    moreover have "h_ptr (h_slots t ! ((unat (next_index t) + a) mod kMaxHandles t)) \<noteq> 0" if "a < Suc i" for a
      using that False Suc.prems(2) by (cases "a = i") simp_all
    moreover have "d = kMaxHandles t - Suc i" using Suc.hyps(2) by simp
    ultimately show ?thesis using Suc.hyps(1) by blast
  qed
qed

lemma round_robin_covers:
  assumes "0 < n" and "j < n"
  shows "\<exists>a < n. (s + a) mod n = (j :: nat)"
proof -
  have "(s + (j + (n - s mod n)) mod n) mod n = (s mod n + (j + (n - s mod n))) mod n"
    by (simp add: mod_add_right_eq mod_add_left_eq)
  also have "s mod n + (j + (n - s mod n)) = j + n" using mod_less_divisor [OF assms(1), of s] by simp
  finally have "(s + (j + (n - s mod n)) mod n) mod n = j" using assms by simp
  moreover have "(j + (n - s mod n)) mod n < n" using assms(1) by simp
  ultimately show ?thesis by blast
qed

lemma register_ptr_cases:
  assumes inv: "table_inv t" and kind: "kind \<noteq> kind_code Invalid" and ptr: "ptr \<noteq> 0"
  shows "(\<exists>j < kMaxHandles t. h_ptr (h_slots t ! j) = 0 \<and> register_ptr kind ptr t = fill_slot kind ptr j t) \<or>
    register_ptr kind ptr t = (0, t) \<and> (\<forall>j < kMaxHandles t. h_ptr (h_slots t ! j) \<noteq> 0)"
proof -
  have n: "0 < kMaxHandles t" using inv by (simp add: table_inv_def)
  have "register_ptr kind ptr t = register_scan kind ptr 0 t"
    using kind ptr by (simp add: register_ptr_def del: kind_code.simps)
  then show ?thesis
    using register_scan_cases [OF n, of kind ptr 0 "register_ptr kind ptr t"] round_robin_covers [OF n]
    by (metis not_less_zero)
qed

text \<open>\<open>unregister_handle\<close> does not look at the kind bits of the handle, only at the slot's kind.\<close>

definition removable :: "handle_table \<Rightarrow> u64 \<Rightarrow> u32 \<Rightarrow> bool" where
  "removable t h k \<longleftrightarrow> h \<noteq> 0 \<and> k \<noteq> kind_code Invalid \<and>
     unat (handle_index h) < kMaxHandles t \<and> handle_generation h \<noteq> 0 \<and>
     (let s = h_slots t ! unat (handle_index h)
      in h_ptr s \<noteq> 0 \<and> h_kind s = k \<and> h_generation s = handle_generation h)"

lemma answers_removable: "answers t h k \<longleftrightarrow> removable t h k \<and> handle_kind h = k"
  by (auto simp only: answers_def removable_def)

lemma if_chain:
  "(if a then t else if b then t else if c then t else if d then t else u) =
    (if \<not> a \<and> \<not> b \<and> \<not> c \<and> \<not> d then u else t)"
  by simp

lemma unregister_cases:
  "unregister_handle h k t =
    (if removable t h k
     then t\<lparr>h_slots := (h_slots t)[unat (handle_index h) :=
        (h_slots t ! unat (handle_index h))\<lparr>h_ptr := 0, h_kind := kind_code Invalid\<rparr>]\<rparr>
     else t)"
proof (cases "h = 0 \<or> k = kind_code Invalid")
  case True
  then show ?thesis by (elim disjE) (simp_all add: unregister_handle_def removable_def)
next
  case False
  then have h: "h \<noteq> 0" "k \<noteq> kind_code Invalid" by simp_all
  show ?thesis
    unfolding unregister_handle_def removable_def Let_def if_chain
    using h by (simp only: simp_thms if_False not_le de_Morgan_disj not_not conj_assoc)
qed

lemma unregister_correct:
  assumes inv: "table_inv t" and k: "handle_kind h = k"
  shows "table_inv (unregister_handle h k t)" "live (unregister_handle h k t) = (live t)(h := None)"
    "kMaxHandles (unregister_handle h k t) = kMaxHandles t"
proof -
  let ?i = "unat (handle_index h)" and ?t = "unregister_handle h k t"
  let ?s = "(h_slots t ! ?i)\<lparr>h_ptr := 0, h_kind := kind_code Invalid\<rparr>"
  have eq: "?t = (if answers t h k then t\<lparr>h_slots := (h_slots t)[?i := ?s]\<rparr> else t)"
    using k by (simp only: unregister_cases answers_removable simp_thms)
  show K: "kMaxHandles ?t = kMaxHandles t" by (simp add: eq kMaxHandles_def)
  have "h_ptr s \<noteq> 0 \<Longrightarrow> s \<in> set (h_slots t)" if "s \<in> set (h_slots ?t)" for s
  proof -
    assume p: "h_ptr s \<noteq> 0"
    have "set (h_slots ?t) \<subseteq> insert ?s (set (h_slots t))"
      using set_update_subset_insert [of "h_slots t" ?i ?s] by (cases "answers t h k") (simp_all add: eq subset_insertI)
    then have "s = ?s \<or> s \<in> set (h_slots t)" using that by blast
    then show "s \<in> set (h_slots t)" using p by (elim disjE) simp_all
  qed
  then show inv': "table_inv ?t" using inv unfolding table_inv_def K by blast
  show "live ?t = (live t)(h := None)"
  proof (cases "answers t h k")
    case False
    then have "?t = t" by (simp add: eq)
    moreover have "live t h = None" using False k by (simp add: live_def lookup_answers)
    ultimately show ?thesis by auto
  next
    case True
    have t': "h_slots ?t = (h_slots t)[?i := ?s]" by (simp add: eq True)
    have i: "?i < kMaxHandles t" and n: "names_slot h ?i (h_slots t ! ?i)"
      using True unfolding answers_def names_slot_def Let_def by simp_all
    have il: "?i < length (h_slots t)" using i by (simp add: kMaxHandles_def)
    show ?thesis
    proof
      fix x
      have "live ?t x = Some p \<longleftrightarrow> ((live t)(h := None)) x = Some p" for p
      proof (cases "x = h")
        case True
        have "\<not> names_slot h j (h_slots ?t ! j)" for j
          using il by (cases "j = ?i") (auto simp: t' names_slot_def)
        then show ?thesis using True live_iff [OF inv'] by auto
      next
        case False
        have "names_slot x j (h_slots ?t ! j) \<and> p = h_ptr (h_slots ?t ! j) \<longleftrightarrow>
            names_slot x j (h_slots t ! j) \<and> p = h_ptr (h_slots t ! j)" for j
        proof (cases "j = ?i")
          case True
          have "\<not> names_slot x ?i (h_slots t ! ?i)" using names_slot_inj [OF n] False by auto
          then show ?thesis using True il by (simp add: t') (simp add: names_slot_def)
        next
          case False
          then show ?thesis by (simp add: t')
        qed
        then show ?thesis using False live_iff [OF inv] live_iff [OF inv'] by (simp add: K)
      qed
      then show "live ?t x = ((live t)(h := None)) x" by (rule option_eqI)
    qed
  qed
qed

section \<open>Generations\<close>

text \<open>Over the nonzero values the generation counter walks a cycle of length \<open>2 ^ 32 - 1\<close>.\<close>

definition gen_rank :: "u32 \<Rightarrow> nat" where
  "gen_rank g = unat g - 1"

definition gen_cycle :: nat where "gen_cycle = 2 ^ 32 - 1"

lemma gen_rank_lt: "gen_rank g < gen_cycle"
proof -
  have "unat g < 2 ^ LENGTH(32)" by (rule unsigned_less)
  then show ?thesis by (simp add: gen_rank_def gen_cycle_def)
qed

lemma gen_rank_next:
  assumes "g \<noteq> 0"
  shows "gen_rank (next_generation g) = (gen_rank g + 1) mod gen_cycle"
proof (cases "g + 1 = 0")
  case True
  then have "g = - 1" by (simp add: eq_neg_iff_add_eq_0)
  moreover have "(- 1 :: u32) = 0xFFFFFFFF" by simp
  ultimately have "g = 0xFFFFFFFF" by (simp only:)
  then have "unat g = 2 ^ 32 - 1" by simp
  then show ?thesis using True by (simp add: next_generation_def gen_rank_def gen_cycle_def)
next
  case False
  then have u: "unat (g + 1) = unat g + 1" by (simp add: unatSuc add.commute)
  have pos: "0 < unat g" using assms by (simp add: unat_gt_0)
  have "unat (g + 1) < 2 ^ LENGTH(32)" by (rule unsigned_less)
  then have "unat g < gen_cycle" using u by (simp add: gen_cycle_def)
  then show ?thesis using u pos False by (simp add: next_generation_def gen_rank_def)
qed

lemma gen_rank_inj: "g \<noteq> 0 \<Longrightarrow> g' \<noteq> 0 \<Longrightarrow> gen_rank g = gen_rank g' \<Longrightarrow> g = g'"
proof -
  assume "g \<noteq> 0" "g' \<noteq> 0" "gen_rank g = gen_rank g'"
  then have "unat g = unat g'" by (simp add: gen_rank_def) (metis Suc_pred unat_gt_0)
  then show ?thesis by (rule unsigned_word_eqI)
qed

text \<open>A dead handle: its slot moved on by \<open>m\<close> generations, at least one if the slot is in use.\<close>

definition dead_by :: "u64 \<Rightarrow> nat \<Rightarrow> handle_table \<Rightarrow> bool" where
  "dead_by h n t \<longleftrightarrow> unat (handle_index h) < kMaxHandles t \<and> handle_generation h \<noteq> 0 \<and>
     (let s = h_slots t ! unat (handle_index h) in h_generation s \<noteq> 0 \<and>
       (\<exists>m \<le> n. gen_rank (h_generation s) = (gen_rank (handle_generation h) + m) mod gen_cycle \<and>
          (h_ptr s \<noteq> 0 \<longrightarrow> 0 < m)))"

datatype handle_op = Register u32 nat | Unregister u64 u32

fun run_handles :: "handle_op list \<Rightarrow> handle_table \<Rightarrow> handle_table" where
  "run_handles [] t = t"
| "run_handles (Register kind ptr # ops) t = run_handles ops (snd (register_ptr kind ptr t))"
| "run_handles (Unregister h k # ops) t = run_handles ops (unregister_handle h k t)"

fun registrations :: "handle_op list \<Rightarrow> nat" where
  "registrations [] = 0"
| "registrations (Register kind ptr # ops) = Suc (registrations ops)"
| "registrations (Unregister h k # ops) = registrations ops"

lemma dead_not_live:
  assumes inv: "table_inv t" and d: "dead_by h n t" and n: "n < gen_cycle"
  shows "live t h = None"
proof (rule ccontr)
  assume "live t h \<noteq> None"
  then obtain p where "live t h = Some p" by auto
  then obtain j where j: "names_slot h j (h_slots t ! j)" using live_iff [OF inv] by blast
  let ?s = "h_slots t ! unat (handle_index h)"
  have s: "h_ptr ?s \<noteq> 0" "h_generation ?s = handle_generation h"
    using j by (auto simp: names_slot_def)
  obtain m where m: "0 < m" "m \<le> n"
    "gen_rank (h_generation ?s) = (gen_rank (handle_generation h) + m) mod gen_cycle"
    using d s(1) by (auto simp: dead_by_def Let_def)
  let ?g = "gen_rank (handle_generation h)"
  have "(?g + m) mod gen_cycle = (?g + 0) mod gen_cycle"
    using m(3) s(2) gen_rank_lt [of "handle_generation h"] by simp
  then have "gen_cycle dvd m" by (metis add_diff_cancel_left' le_add1 mod_eq_dvd_iff_nat add_0_right)
  then show False using m n by (meson dvd_imp_le le_less_trans not_le)
qed

lemma fill_slot_dead:
  assumes "dead_by h n t" and "j < kMaxHandles t"
  shows "dead_by h (Suc n) (snd (fill_slot kind ptr j t))"
proof -
  let ?i = "unat (handle_index h)" and ?t = "snd (fill_slot kind ptr j t)"
  have K: "kMaxHandles ?t = kMaxHandles t" by (simp add: fill_slot_def kMaxHandles_def Let_def)
  obtain m where m: "m \<le> n" "h_generation (h_slots t ! ?i) \<noteq> 0"
    "gen_rank (h_generation (h_slots t ! ?i)) = (gen_rank (handle_generation h) + m) mod gen_cycle"
    "h_ptr (h_slots t ! ?i) \<noteq> 0 \<longrightarrow> 0 < m"
    using assms(1) by (auto simp: dead_by_def Let_def)
  have i: "?i < length (h_slots t)" using assms(1) by (simp add: dead_by_def kMaxHandles_def)
  show ?thesis
  proof (cases "j = ?i")
    case True
    have "h_slots ?t ! ?i = \<lparr>h_ptr = ptr, h_generation = next_generation (h_generation (h_slots t ! ?i)), h_kind = kind\<rparr>"
      using True i by (simp add: fill_slot_def Let_def)
    moreover have "gen_rank (next_generation (h_generation (h_slots t ! ?i))) =
        (gen_rank (handle_generation h) + Suc m) mod gen_cycle"
      using gen_rank_next [OF m(2)] m(3) by (simp add: mod_Suc_eq)
    ultimately show ?thesis
      using assms(1) m(1) next_generation_nonzero
      by (auto simp: dead_by_def K intro!: exI [of _ "Suc m"])
  next
    case False
    then have "h_slots ?t ! ?i = h_slots t ! ?i" by (simp add: fill_slot_def Let_def)
    then show ?thesis using assms(1) by (auto simp: dead_by_def K Let_def intro: le_SucI)
  qed
qed

lemma unregister_dead:
  assumes d: "dead_by h n t"
  shows "dead_by h n (unregister_handle h' k t)"
proof -
  let ?i = "unat (handle_index h)" and ?j = "unat (handle_index h')" and ?t = "unregister_handle h' k t"
  let ?s = "(h_slots t ! ?j)\<lparr>h_ptr := 0, h_kind := kind_code Invalid\<rparr>"
  have eq: "?t = (if removable t h' k then t\<lparr>h_slots := (h_slots t)[?j := ?s]\<rparr> else t)"
    by (rule unregister_cases)
  have K: "kMaxHandles ?t = kMaxHandles t" by (simp add: eq kMaxHandles_def)
  have i: "?i < length (h_slots t)" using d by (simp add: dead_by_def kMaxHandles_def)
  have "h_slots ?t ! ?i = h_slots t ! ?i \<or> h_slots ?t ! ?i = (h_slots t ! ?i)\<lparr>h_ptr := 0, h_kind := kind_code Invalid\<rparr>"
    using i by (cases "?j = ?i") (simp_all add: eq)
  then show ?thesis
    using d unfolding dead_by_def K Let_def by (elim disjE) auto
qed

lemma unregister_self_dead:
  assumes inv: "table_inv t" and l: "live t h \<noteq> None"
  shows "dead_by h 0 (unregister_handle h (handle_kind h) t)"
proof -
  have a: "answers t h (handle_kind h)" using l by (auto simp: live_def lookup_answers Let_def split: if_splits)
  let ?i = "unat (handle_index h)"
  have i: "?i < kMaxHandles t" "handle_generation h \<noteq> 0" "h_generation (h_slots t ! ?i) = handle_generation h"
    using a unfolding answers_def Let_def by simp_all
  then have il: "?i < length (h_slots t)" by (simp add: kMaxHandles_def)
  have "unregister_handle h (handle_kind h) t = t\<lparr>h_slots := (h_slots t)[?i :=
      (h_slots t ! ?i)\<lparr>h_ptr := 0, h_kind := kind_code Invalid\<rparr>]\<rparr>"
    using a by (simp only: unregister_cases answers_removable simp_thms if_True)
  then show ?thesis
    using i il gen_rank_lt [of "handle_generation h"]
    by (simp add: dead_by_def kMaxHandles_def)
qed

definition op_ok :: "handle_op \<Rightarrow> bool" where
  "op_ok op = (case op of Register kind ptr \<Rightarrow> unat kind < 2 ^ 8 | Unregister h k \<Rightarrow> handle_kind h = k)"

lemma register_step:
  assumes inv: "table_inv t" and "unat kind < 2 ^ 8"
  shows "table_inv (snd (register_ptr kind ptr t))"
    "dead_by h n t \<Longrightarrow> dead_by h (Suc n) (snd (register_ptr kind ptr t))"
proof -
  have weaken: "dead_by h n t \<Longrightarrow> dead_by h (Suc n) t" by (auto simp: dead_by_def Let_def intro: le_SucI)
  have same: "register_ptr kind ptr t = (0, t)" if "kind = kind_code Invalid \<or> ptr = 0"
    using that by (auto simp: register_ptr_def)
  have fill: "table_inv t'" if "fill_slot kind ptr j t = (h', t')" "j < kMaxHandles t"
    "h_ptr (h_slots t ! j) = 0" "kind \<noteq> kind_code Invalid" "ptr \<noteq> 0" for h' t' j
    using fill_slot_correct(4) [OF inv that(2,3,5,4) assms(2) that(1)] .
  consider "kind = kind_code Invalid \<or> ptr = 0" | "kind \<noteq> kind_code Invalid" "ptr \<noteq> 0" by blast
  then have "table_inv (snd (register_ptr kind ptr t)) \<and>
    (dead_by h n t \<longrightarrow> dead_by h (Suc n) (snd (register_ptr kind ptr t)))"
  proof cases
    case 1
    then show ?thesis using same inv weaken by simp
  next
    case 2
    from register_ptr_cases [OF inv 2] show ?thesis
    proof (elim disjE exE conjE)
      fix j assume j: "j < kMaxHandles t" "h_ptr (h_slots t ! j) = 0"
        and r: "register_ptr kind ptr t = fill_slot kind ptr j t"
      show ?thesis
        using fill [OF prod.collapse [symmetric] j 2] fill_slot_dead [OF _ j(1)] by (simp add: r)
    qed (use inv weaken in simp)
  qed
  then show "table_inv (snd (register_ptr kind ptr t))"
    "dead_by h n t \<Longrightarrow> dead_by h (Suc n) (snd (register_ptr kind ptr t))" by blast+
qed

lemma run_handles_dead:
  "table_inv t \<Longrightarrow> \<forall>op \<in> set ops. op_ok op \<Longrightarrow> dead_by h n t \<Longrightarrow>
     table_inv (run_handles ops t) \<and> dead_by h (n + registrations ops) (run_handles ops t)"
proof (induction ops arbitrary: t n)
  case (Cons op ops)
  show ?case
  proof (cases op)
    case (Register kind ptr)
    then have k: "unat kind < 2 ^ 8" using Cons.prems(2) by (simp add: op_ok_def)
    from Cons.IH [OF register_step(1) [OF Cons.prems(1) k] _ register_step(2) [OF Cons.prems(1) k Cons.prems(3)]]
    show ?thesis using Cons.prems(2) Register by simp
  next
    case (Unregister h' k)
    then have "handle_kind h' = k" using Cons.prems(2) by (simp add: op_ok_def)
    from Cons.IH [OF unregister_correct(1) [OF Cons.prems(1) this] _ unregister_dead [OF Cons.prems(3)]]
    show ?thesis using Cons.prems(2) Unregister by simp
  qed
qed simp

section \<open>Properties\<close>

text \<open>C10: Registering a pointer adds a fresh nonzero handle of the requested kind to the map of live
  handles and touches no other entry; it fails, with handle 0 and no change, exactly when every
  slot is in use.\<close>
theorem register_refines_map:
  assumes "table_inv t" and "kind \<noteq> kind_code Invalid" and "unat kind < 2 ^ 8" and "ptr \<noteq> 0"
    and "register_ptr kind ptr t = (h, t')"
  shows "table_inv t' \<and>
    (if h = 0 then t' = t \<and> (\<forall>s \<in> set (h_slots t). h_ptr s \<noteq> 0)
     else handle_kind h = kind \<and> live t h = None \<and> live t' = (live t)(h \<mapsto> ptr) \<and>
       lookup t' h kind = ptr \<and> (\<exists>s \<in> set (h_slots t). h_ptr s = 0))"
  using register_ptr_cases [OF assms(1,2,4)]
proof (elim disjE exE conjE)
  fix j assume j: "j < kMaxHandles t" "h_ptr (h_slots t ! j) = 0"
    and r: "register_ptr kind ptr t = fill_slot kind ptr j t"
  note F = fill_slot_correct [OF assms(1) j assms(4,2,3) r [symmetric, unfolded assms(5)]]
  have "lookup t' h kind = ptr" using F(3,5) by (simp add: lookup_live)
  moreover have "h_slots t ! j \<in> set (h_slots t)" using j(1) by (simp add: kMaxHandles_def)
  ultimately show ?thesis using F j(2) by auto
next
  assume "register_ptr kind ptr t = (0, t)" and full: "\<forall>j < kMaxHandles t. h_ptr (h_slots t ! j) \<noteq> 0"
  then show ?thesis using assms(1,5) by (auto simp: in_set_conv_nth kMaxHandles_def)
qed

lemma table_inv_small: "table_inv (handle_table_new 2)"
  by (rule table_inv_new) simp_all

lemma register_refines_map_witness:
  "lookup (snd (register_ptr 2 77 (handle_table_new 2))) (make_handle 2 0 1) 2 = 77"
proof -
  have "fst (register_ptr 2 77 (handle_table_new 2)) = make_handle 2 0 1" "make_handle 2 0 1 \<noteq> 0"
    by code_simp+
  then show ?thesis
    using register_refines_map [OF table_inv_small _ _ _ prod.collapse [symmetric], of 2 77] by simp
qed

text \<open>Unregistering a handle with its own kind removes exactly that handle from the map of live
  handles, and does nothing to the map when the handle was not live.\<close>
theorem unregister_refines_map:
  assumes "table_inv t"
  shows "live (unregister_handle h (handle_kind h) t) = (live t)(h := None) \<and>
    table_inv (unregister_handle h (handle_kind h) t)"
  using unregister_correct [OF assms refl] by blast

lemma unregister_refines_map_witness:
  "live (unregister_handle (make_handle 2 0 1) 2 (snd (register_ptr 2 77 (handle_table_new 2))))
     (make_handle 2 0 1) = None"
proof -
  have "table_inv (snd (register_ptr 2 77 (handle_table_new 2)))"
    by (rule register_step(1) [OF table_inv_small]) simp
  moreover have "handle_kind (make_handle 2 0 1) = 2" by (simp add: handle_kind_make)
  ultimately show ?thesis
    using unregister_refines_map [of "snd (register_ptr 2 77 (handle_table_new 2))" "make_handle 2 0 1"]
    by simp
qed

text \<open>C11: A handle that was unregistered stays dead, whatever is registered and unregistered
  afterwards, as long as fewer than \<open>2 ^ 32 - 1\<close> registrations follow: the generation of its slot
  has then not come around.\<close>
theorem stale_handle_stays_dead:
  assumes "table_inv t" and "live t h \<noteq> None" and "\<forall>op \<in> set ops. op_ok op"
    and "registrations ops < 2 ^ 32 - 1"
  shows "live (run_handles ops (unregister_handle h (handle_kind h) t)) h = None"
proof -
  have d: "dead_by h 0 (unregister_handle h (handle_kind h) t)" by (rule unregister_self_dead [OF assms(1,2)])
  from run_handles_dead [OF unregister_correct(1) [OF assms(1) refl] assms(3) d]
  show ?thesis
    using assms(4) dead_not_live [of "run_handles ops (unregister_handle h (handle_kind h) t)" h "registrations ops"]
    by (simp add: gen_cycle_def)
qed

lemma stale_handle_stays_dead_witness:
  "live (run_handles [Register 2 88, Register 3 99]
     (unregister_handle (make_handle 2 0 1) 2 (snd (register_ptr 2 77 (handle_table_new 2)))))
     (make_handle 2 0 1) = None"
proof -
  let ?t = "snd (register_ptr 2 77 (handle_table_new 2))"
  have "table_inv ?t" by (rule register_step(1) [OF table_inv_small]) simp
  moreover have k: "handle_kind (make_handle 2 0 1) = 2" by (simp add: handle_kind_make)
  moreover have "lookup ?t (make_handle 2 0 1) 2 = 77" by code_simp
  then have "live ?t (make_handle 2 0 1) \<noteq> None" by (simp add: live_def k)
  ultimately show ?thesis
    using stale_handle_stays_dead [of ?t "make_handle 2 0 1" "[Register 2 88, Register 3 99]"]
    by (simp add: op_ok_def)
qed

text \<open>The packing of kind, index and generation into a handle loses nothing: the three fields
  read back, and every 64-bit value is the packing of its fields.\<close>
theorem handle_round_trip:
  "(unat k < 2 ^ 8 \<longrightarrow> unat i < 2 ^ 24 \<longrightarrow> handle_kind (make_handle k i g) = k \<and>
     handle_index (make_handle k i g) = i \<and> handle_generation (make_handle k i g) = g) \<and>
   make_handle (handle_kind h) (handle_index h) (handle_generation h) = h"
  by (simp add: handle_kind_make handle_index_make handle_generation_make make_handle_parts)

lemma handle_round_trip_witness: "handle_index (make_handle 2 5 9) = 5"
  using handle_round_trip [of 2 5 9 0] by simp

end
