(* ===== verification/Freelist.thy ===== *)
theory Freelist
  imports Prelude
begin

text \<open>
  The contract of an intrusive free list, as the pools of the runtime promise it: a head, and in
  each free cell a link to the next one. A cell that is handed out belongs to its owner, who may
  overwrite the link. The lemmas show for every run of valid operations that no cell is handed
  out twice and that the pool is exhausted only when every cell is owned.
\<close>

fun links :: "('n \<Rightarrow> 'n option) \<Rightarrow> 'n option \<Rightarrow> 'n list \<Rightarrow> bool" where
  "links nx h [] \<longleftrightarrow> h = None"
| "links nx h (x # xs) \<longleftrightarrow> h = Some x \<and> links nx (nx x) xs"

lemma links_cong: "(\<And>x. x \<in> set xs \<Longrightarrow> nx x = nx' x) \<Longrightarrow> links nx h xs = links nx' h xs"
  by (induction xs arbitrary: h) auto

text \<open>One operation of a client: take a cell, give one back, write into one it owns.\<close>

datatype ('n, 'v) pool_op = Acquire | Release 'n | Write 'n 'v

locale freelist =
  fixes head :: "'s \<Rightarrow> 'n option"
    and nxt :: "'s \<Rightarrow> 'n \<Rightarrow> 'n option"
    and cells :: "'s \<Rightarrow> 'n set"
    and acquire :: "'s \<Rightarrow> 'n option \<times> 's"
    and release :: "'n \<Rightarrow> 's \<Rightarrow> 's"
    and overwrite :: "'n \<Rightarrow> 'v \<Rightarrow> 's \<Rightarrow> 's"
    and good :: "'s \<Rightarrow> bool"
  assumes acquire_out: "good s \<Longrightarrow> fst (acquire s) = head s"
    and acquire_head: "good s \<Longrightarrow> head s = Some x \<Longrightarrow> x \<in> cells s \<Longrightarrow> head (snd (acquire s)) = nxt s x"
    and acquire_none: "good s \<Longrightarrow> head s = None \<Longrightarrow> head (snd (acquire s)) = None"
    and acquire_nxt: "good s \<Longrightarrow> nxt (snd (acquire s)) = nxt s"
    and acquire_cells: "good s \<Longrightarrow> cells (snd (acquire s)) = cells s"
    and release_head: "good s \<Longrightarrow> x \<in> cells s \<Longrightarrow> head (release x s) = Some x"
    and release_nxt: "good s \<Longrightarrow> x \<in> cells s \<Longrightarrow> nxt (release x s) x = head s"
    and release_others: "good s \<Longrightarrow> x \<in> cells s \<Longrightarrow> y \<in> cells s \<Longrightarrow> y \<noteq> x \<Longrightarrow> nxt (release x s) y = nxt s y"
    and release_cells: "good s \<Longrightarrow> cells (release x s) = cells s"
    and overwrite_head: "good s \<Longrightarrow> head (overwrite x v s) = head s"
    and overwrite_others: "good s \<Longrightarrow> y \<noteq> x \<Longrightarrow> nxt (overwrite x v s) y = nxt s y"
    and overwrite_cells: "good s \<Longrightarrow> cells (overwrite x v s) = cells s"
    and acquire_good: "good s \<Longrightarrow> good (snd (acquire s))"
    and release_good: "good s \<Longrightarrow> x \<in> cells s \<Longrightarrow> good (release x s)"
    and overwrite_good: "good s \<Longrightarrow> good (overwrite x v s)"
begin

text \<open>The free cells form a list without repetition, disjoint from the owned cells.\<close>

definition pool_inv :: "'n set \<Rightarrow> 's \<Rightarrow> bool" where
  "pool_inv owned s \<longleftrightarrow> good s \<and> owned \<subseteq> cells s \<and>
     (\<exists>free. links (nxt s) (head s) free \<and> distinct free \<and> set free = cells s - owned)"

lemma acquire_fresh:
  assumes inv: "pool_inv owned s" and a: "acquire s = (Some x, s')"
  shows "x \<in> cells s" "x \<notin> owned" "pool_inv (insert x owned) s'"
proof -
  obtain free where f: "links (nxt s) (head s) free" "distinct free" "set free = cells s - owned"
    and sub: "owned \<subseteq> cells s" and g: "good s" using inv by (auto simp: pool_inv_def)
  have h: "head s = Some x" using acquire_out [OF g] a by simp
  then obtain xs where xs: "free = x # xs" using f(1) by (cases free) auto
  then have x: "x \<in> cells s - owned" using f(3) by auto
  then show "x \<in> cells s" "x \<notin> owned" by auto
  have h': "head s' = nxt s x" using acquire_head [OF g h] x a by simp
  have "links (nxt s') (head s') xs" using f(1) xs h' acquire_nxt [OF g] a by simp
  moreover have "cells s' = cells s" using acquire_cells [OF g] a by simp
  moreover have "set xs = cells s - insert x owned" using f(2,3) xs by auto
  ultimately show "pool_inv (insert x owned) s'"
    using sub x f(2) xs acquire_good [OF g] a unfolding pool_inv_def by (intro conjI exI [of _ xs]) auto
qed

lemma acquire_exhausted:
  assumes inv: "pool_inv owned s" and a: "acquire s = (None, s')"
  shows "owned = cells s" "pool_inv owned s'"
proof -
  obtain free where f: "links (nxt s) (head s) free" "set free = cells s - owned"
    and sub: "owned \<subseteq> cells s" and g: "good s" using inv by (auto simp: pool_inv_def)
  have h: "head s = None" using acquire_out [OF g] a by simp
  then have e: "free = []" using f(1) by (cases free) auto
  then show o: "owned = cells s" using f(2) sub by auto
  have "head s' = None" "cells s' = cells s" using acquire_none [OF g h] acquire_cells [OF g] a by simp_all
  then show "pool_inv owned s'" using o acquire_good [OF g] a unfolding pool_inv_def by (intro conjI exI [of _ "[]"]) auto
qed

lemma release_inv:
  assumes inv: "pool_inv owned s" and x: "x \<in> owned"
  shows "pool_inv (owned - {x}) (release x s)"
proof -
  obtain free where f: "links (nxt s) (head s) free" "distinct free" "set free = cells s - owned"
    and sub: "owned \<subseteq> cells s" and g: "good s" using inv by (auto simp: pool_inv_def)
  have c: "x \<in> cells s" using x sub by auto
  have "links (nxt (release x s)) (head s) free = links (nxt s) (head s) free"
    using f(3) x by (intro links_cong release_others [OF g c]) auto
  then have "links (nxt (release x s)) (head (release x s)) (x # free)"
    using f(1) release_head [OF g c] release_nxt [OF g c] by simp
  moreover have "distinct (x # free)" using f(2,3) x by auto
  moreover have "set (x # free) = cells (release x s) - (owned - {x})"
    using f(3) c by (auto simp: release_cells [OF g])
  ultimately show ?thesis
    using sub release_good [OF g c] unfolding pool_inv_def by (intro conjI exI [of _ "x # free"]) (auto simp: release_cells [OF g])
qed

lemma overwrite_inv:
  assumes inv: "pool_inv owned s" and x: "x \<in> owned"
  shows "pool_inv owned (overwrite x v s)"
proof -
  obtain free where f: "links (nxt s) (head s) free" "distinct free" "set free = cells s - owned"
    and sub: "owned \<subseteq> cells s" and g: "good s" using inv by (auto simp: pool_inv_def)
  have "links (nxt (overwrite x v s)) (head s) free = links (nxt s) (head s) free"
    using f(3) x by (intro links_cong overwrite_others [OF g]) auto
  then show ?thesis
    using f sub overwrite_good [OF g] unfolding pool_inv_def
    by (intro conjI exI [of _ free]) (auto simp: overwrite_head [OF g] overwrite_cells [OF g])
qed

end

text \<open>A run of client operations: the cells handed out, in order, with the set owned before each.
  An operation on a cell that is not owned is not a valid client step and is skipped.\<close>

fun pool_run ::
    "('s \<Rightarrow> 'n option \<times> 's) \<Rightarrow> ('n \<Rightarrow> 's \<Rightarrow> 's) \<Rightarrow> ('n \<Rightarrow> 'v \<Rightarrow> 's \<Rightarrow> 's) \<Rightarrow>
      ('n, 'v) pool_op list \<Rightarrow> 'n set \<Rightarrow> 's \<Rightarrow> ('n option \<times> 'n set) list \<times> 'n set \<times> 's" where
  "pool_run acq rel ovw [] owned s = ([], owned, s)"
| "pool_run acq rel ovw (Acquire # ops) owned s =
     (let (out, s') = acq s;
          owned' = (case out of None \<Rightarrow> owned | Some x \<Rightarrow> insert x owned);
          (log, owned'', s'') = pool_run acq rel ovw ops owned' s'
      in ((out, owned) # log, owned'', s''))"
| "pool_run acq rel ovw (Release x # ops) owned s =
     (if x \<in> owned then pool_run acq rel ovw ops (owned - {x}) (rel x s)
      else pool_run acq rel ovw ops owned s)"
| "pool_run acq rel ovw (Write x v # ops) owned s =
     (if x \<in> owned then pool_run acq rel ovw ops owned (ovw x v s)
      else pool_run acq rel ovw ops owned s)"

context freelist
begin

lemma run_exclusive:
  "pool_inv owned s \<Longrightarrow> pool_run acquire release overwrite ops owned s = (log, owned', s') \<Longrightarrow>
     pool_inv owned' s' \<and> cells s' = cells s \<and>
     (\<forall>(out, was) \<in> set log. case out of None \<Rightarrow> was = cells s | Some x \<Rightarrow> x \<in> cells s \<and> x \<notin> was)"
proof (induction ops arbitrary: owned s log owned' s')
  case (Cons op ops)
  have g: "good s" using Cons.prems(1) by (simp add: pool_inv_def)
  show ?case
  proof (cases op)
    case Acquire
    obtain out s1 where a: "acquire s = (out, s1)" by fastforce
    define owned1 where "owned1 = (case out of None \<Rightarrow> owned | Some x \<Rightarrow> insert x owned)"
    obtain log1 o2 s2 where r: "pool_run acquire release overwrite ops owned1 s1 = (log1, o2, s2)"
      by (metis prod_cases3)
    have inv1: "pool_inv owned1 s1"
      using acquire_fresh(3) [OF Cons.prems(1)] acquire_exhausted(2) [OF Cons.prems(1)] a
      by (simp add: owned1_def split: option.splits)
    have c: "cells s1 = cells s" using acquire_cells [OF g] a by simp
    have res: "log = (out, owned) # log1" "owned' = o2" "s' = s2"
      using Cons.prems(2) Acquire a r by (simp_all add: owned1_def)
    have "case out of None \<Rightarrow> owned = cells s | Some x \<Rightarrow> x \<in> cells s \<and> x \<notin> owned"
      using acquire_fresh(1,2) [OF Cons.prems(1)] acquire_exhausted(1) [OF Cons.prems(1)] a
      by (simp split: option.splits)
    then show ?thesis using Cons.IH [OF inv1 r, unfolded c] by (simp add: res)
  next
    case (Release x)
    then show ?thesis
      using Cons.IH [OF release_inv [OF Cons.prems(1)], unfolded release_cells [OF g]] Cons.IH [OF Cons.prems(1)] Cons.prems(2)
      by (simp split: if_splits)
  next
    case (Write x v)
    then show ?thesis
      using Cons.IH [OF overwrite_inv [OF Cons.prems(1)], unfolded overwrite_cells [OF g]] Cons.IH [OF Cons.prems(1)] Cons.prems(2)
      by (simp split: if_splits)
  qed
qed simp

end

end
