(* ===== verification/Pools.thy ===== *)
theory Pools
  imports Freelist
begin

text \<open>
  The three fixed pools of the runtime on the free-list contract: \<open>ObjectPool\<close> and
  \<open>LocalObjectPool\<close> of \<open>src/src/memory/object_pool.hpp\<close>, whose links live in the objects
  themselves, and the session scratch blocks of \<open>src/src/core/init.cpp\<close>, whose links live in an
  index array beside the blocks. An object of the first two is its index in \<open>storage_\<close>; the
  first word of an object is its link while it is free.
\<close>

section \<open>ObjectPool and LocalObjectPool\<close>

record object_pool =
  storage :: "nat option list"
  pool_head :: "nat option"

definition object_pool_new :: "nat \<Rightarrow> object_pool" where
  "object_pool_new n =
     \<lparr>storage = map (\<lambda>i. if i < n - 1 then Some (i + 1) else None) [0..<n], pool_head = Some 0\<rparr>"

definition object_pool_acquire :: "object_pool \<Rightarrow> nat option \<times> object_pool" where
  "object_pool_acquire p =
     (case pool_head p of
        None \<Rightarrow> (None, p)
      | Some obj \<Rightarrow> (Some obj, p\<lparr>pool_head := storage p ! obj\<rparr>))"

definition object_pool_release :: "nat option \<Rightarrow> object_pool \<Rightarrow> object_pool" where
  "object_pool_release ptr p =
     (case ptr of
        None \<Rightarrow> p
      | Some obj \<Rightarrow> p\<lparr>storage := (storage p)[obj := pool_head p], pool_head := Some obj\<rparr>)"

definition kNextObjectStep :: nat where "kNextObjectStep = 1"

definition local_pool_new :: "nat \<Rightarrow> object_pool" where
  "local_pool_new n =
     \<lparr>storage = map (\<lambda>i. if i + kNextObjectStep < n then Some (i + kNextObjectStep) else None) [0..<n],
      pool_head = Some 0\<rparr>"

definition local_pool_acquire :: "object_pool \<Rightarrow> nat option \<times> object_pool" where
  "local_pool_acquire p =
     (let obj = pool_head p
      in if obj = None then (None, p) else (obj, p\<lparr>pool_head := storage p ! the obj\<rparr>))"

definition local_pool_release :: "nat \<Rightarrow> object_pool \<Rightarrow> object_pool" where
  "local_pool_release obj p = p\<lparr>storage := (storage p)[obj := pool_head p], pool_head := Some obj\<rparr>"

text \<open>The owner of an object writes over its first word.\<close>

definition overwrite_object :: "nat \<Rightarrow> nat option \<Rightarrow> object_pool \<Rightarrow> object_pool" where
  "overwrite_object obj v p = p\<lparr>storage := (storage p)[obj := v]\<rparr>"

definition object_link :: "object_pool \<Rightarrow> nat \<Rightarrow> nat option" where
  "object_link p obj = storage p ! obj"

definition objects :: "object_pool \<Rightarrow> nat set" where
  "objects p = {..<length (storage p)}"

interpretation object_pool: freelist pool_head object_link objects object_pool_acquire
    "\<lambda>obj. object_pool_release (Some obj)" overwrite_object "\<lambda>_. True"
  by unfold_locales
    (auto simp: object_pool_acquire_def object_pool_release_def overwrite_object_def object_link_def
      objects_def split: option.splits)

interpretation local_pool: freelist pool_head object_link objects local_pool_acquire
    local_pool_release overwrite_object "\<lambda>_. True"
  by unfold_locales
    (auto simp: local_pool_acquire_def local_pool_release_def overwrite_object_def object_link_def
      objects_def Let_def)

lemma links_upt:
  "m \<le> n \<Longrightarrow> links (\<lambda>i. if Suc i < n then Some (Suc i) else None)
     (if m < n then Some m else None) [m..<n]"
proof (induction "n - m" arbitrary: m)
  case (Suc d)
  then have "m < n" by simp
  then show ?case using Suc.hyps(1) [of "Suc m"] Suc.hyps(2) by (simp add: upt_conv_Cons)
qed simp

lemma pool_new_inv:
  assumes n: "0 < n" and p: "pool_head p = Some 0" "length (storage p) = n"
    and l: "\<And>i. i < n \<Longrightarrow> storage p ! i = (if Suc i < n then Some (Suc i) else None)"
  shows "object_pool.pool_inv {} p" "local_pool.pool_inv {} p"
proof -
  have "links (object_link p) (pool_head p) [0..<n]"
    using links_upt [of 0 n] links_cong [of "[0..<n]" "object_link p" _ "pool_head p"] n p l
    by (simp add: object_link_def)
  then show "object_pool.pool_inv {} p" "local_pool.pool_inv {} p"
    using p(2) unfolding object_pool.pool_inv_def local_pool.pool_inv_def
    by (auto simp: objects_def intro!: exI [of _ "[0..<n]"])
qed

section \<open>Session scratch blocks\<close>

definition kInvalidIndex :: u32 where "kInvalidIndex = 0xFFFFFFFF"

record session_pool =
  block_size :: u32
  block_count :: u32
  blocks_base :: u64
  block_next :: "u32 list"
  block_free_head :: u32

definition session_pool_reset :: session_pool where
  "session_pool_reset =
     \<lparr>block_size = 0, block_count = 0, blocks_base = 0, block_next = [], block_free_head = kInvalidIndex\<rparr>"

definition session_next :: "u32 \<Rightarrow> nat \<Rightarrow> u32" where
  "session_next count i = (if of_nat i + 1 < count then of_nat i + 1 else kInvalidIndex)"

text \<open>Carving the pool out of an arena: the links first, then the blocks on a 64-byte boundary.\<close>

definition session_pool_init :: "u64 \<Rightarrow> u64 \<Rightarrow> u32 \<Rightarrow> u32 \<Rightarrow> bool \<times> session_pool" where
  "session_pool_init arena_base arena_size bsize count =
     (if arena_base = 0 \<or> arena_size = 0 \<or> bsize = 0 then (False, session_pool_reset)
      else
        let cursor = align_up arena_base 4; arena_end = arena_base + arena_size
        in if cursor \<ge> arena_end then (False, session_pool_reset)
           else
             let max_blocks_by_size = (arena_end - cursor) div ucast bsize;
                 capped = (if max_blocks_by_size > 16 then 16 else max_blocks_by_size);
                 count1 = (if count = 0 then (if ucast capped = (0 :: u32) then 1 else ucast capped) else count);
                 meta_bytes = ucast count1 * 4
             in if arena_end - cursor < meta_bytes then (False, session_pool_reset)
                else
                  let blocks = align_up (cursor + meta_bytes) 64
                  in if blocks \<ge> arena_end then (False, session_pool_reset)
                     else
                       let max_blocks = (arena_end - blocks) div ucast bsize
                       in if max_blocks = 0 then (False, session_pool_reset)
                          else
                            let count2 = (if count1 > ucast max_blocks then ucast max_blocks else count1)
                            in (True, \<lparr>block_size = bsize, block_count = count2, blocks_base = blocks,
                                  block_next = map (session_next count2) [0..<unat count2],
                                  block_free_head = 0\<rparr>))"

definition session_pool_acquire :: "session_pool \<Rightarrow> u64 \<times> session_pool" where
  "session_pool_acquire p =
     (let head = block_free_head p
      in if head = kInvalidIndex then (0, p)
         else (blocks_base p + ucast head * ucast (block_size p),
               p\<lparr>block_free_head := block_next p ! unat head\<rparr>))"

definition session_pool_release :: "u64 \<Rightarrow> session_pool \<Rightarrow> session_pool" where
  "session_pool_release ptr p =
     (if ptr = 0 \<or> blocks_base p = 0 \<or> block_size p = 0 then p
      else
        let base = blocks_base p; span = ucast (block_count p) * ucast (block_size p)
        in if ptr < base \<or> ptr \<ge> base + span then p
           else
             let idx = (ucast ((ptr - base) div ucast (block_size p)) :: u32)
             in if idx \<ge> block_count p then p
                else p\<lparr>block_next := (block_next p)[unat idx := block_free_head p],
                       block_free_head := idx\<rparr>)"


text \<open>A block as the free list sees it: its address.\<close>

definition block_addr :: "session_pool \<Rightarrow> u32 \<Rightarrow> u64" where
  "block_addr p i = blocks_base p + ucast i * ucast (block_size p)"

definition block_index :: "session_pool \<Rightarrow> u64 \<Rightarrow> u32" where
  "block_index p a = ucast ((a - blocks_base p) div ucast (block_size p))"

definition block_at :: "session_pool \<Rightarrow> u32 \<Rightarrow> u64 option" where
  "block_at p i = (if i = kInvalidIndex then None else Some (block_addr p i))"

definition session_head :: "session_pool \<Rightarrow> u64 option" where
  "session_head p = block_at p (block_free_head p)"

definition session_link :: "session_pool \<Rightarrow> u64 \<Rightarrow> u64 option" where
  "session_link p a = block_at p (block_next p ! unat (block_index p a))"

definition blocks :: "session_pool \<Rightarrow> u64 set" where
  "blocks p = block_addr p ` {i. i < block_count p}"

definition index_ok :: "session_pool \<Rightarrow> u32 \<Rightarrow> bool" where
  "index_ok p i \<longleftrightarrow> i = kInvalidIndex \<or> i < block_count p"

definition session_good :: "session_pool \<Rightarrow> bool" where
  "session_good p \<longleftrightarrow> block_size p \<noteq> 0 \<and> blocks_base p \<noteq> 0 \<and>
     unat (blocks_base p) + unat (block_count p) * unat (block_size p) < 2 ^ 64 \<and>
     length (block_next p) = unat (block_count p) \<and>
     index_ok p (block_free_head p) \<and> (\<forall>i \<in> set (block_next p). index_ok p i)"

lemma block_addr_unat:
  assumes g: "session_good p" and i: "i < block_count p"
  shows "unat (block_addr p i) = unat (blocks_base p) + unat i * unat (block_size p)"
    "unat i * unat (block_size p) < unat (block_count p) * unat (block_size p)"
proof -
  have s: "0 < unat (block_size p)" using g by (simp add: session_good_def unat_gt_0)
  have "unat i < unat (block_count p)" using i by (simp add: word_less_nat_alt)
  then show lt: "unat i * unat (block_size p) < unat (block_count p) * unat (block_size p)" using s by simp
  have "unat (blocks_base p) + unat (block_count p) * unat (block_size p) < 2 ^ 64"
    using g by (simp add: session_good_def)
  then have b: "unat (blocks_base p) + unat i * unat (block_size p) < 2 ^ 64" using lt by linarith
  then have "unat i * unat (block_size p) < 2 ^ 64" by linarith
  with b show "unat (block_addr p i) = unat (blocks_base p) + unat i * unat (block_size p)"
    by (simp add: block_addr_def unat_word_ariths(1,2))
qed

lemma block_index_addr:
  assumes g: "session_good p" and i: "i < block_count p"
  shows "block_index p (block_addr p i) = i"
proof -
  have s: "0 < unat (block_size p)" using g by (simp add: session_good_def unat_gt_0)
  have "block_addr p i - blocks_base p = ucast i * ucast (block_size p)" by (simp add: block_addr_def)
  moreover have "unat (blocks_base p) + unat (block_count p) * unat (block_size p) < 2 ^ 64"
    using g by (simp add: session_good_def)
  then have "unat i * unat (block_size p) < 2 ^ 64" using block_addr_unat(2) [OF g i] by linarith
  then have "unat (ucast i * ucast (block_size p) :: u64) = unat i * unat (block_size p)"
    by (simp add: unat_word_ariths(2))
  ultimately have "unat ((block_addr p i - blocks_base p) div ucast (block_size p)) = unat i"
    using s by (simp add: unat_div)
  then have "(block_addr p i - blocks_base p) div ucast (block_size p) = ucast i"
    by (intro unat_eqI) simp
  then show ?thesis by (simp add: block_index_def)
qed


lemma block_addr_nonzero: "session_good p \<Longrightarrow> i < block_count p \<Longrightarrow> block_addr p i \<noteq> 0"
proof -
  assume g: "session_good p" and i: "i < block_count p"
  have "unat (blocks_base p) \<noteq> 0" using g by (simp add: session_good_def unat_eq_zero)
  then have "unat (block_addr p i) \<noteq> 0" by (simp add: block_addr_unat [OF g i])
  then show ?thesis by auto
qed

definition session_acquire :: "session_pool \<Rightarrow> u64 option \<times> session_pool" where
  "session_acquire p = (let (ptr, p') = session_pool_acquire p in (if ptr = 0 then None else Some ptr, p'))"

lemma session_acquire_eq:
  assumes g: "session_good p"
  shows "session_acquire p = (session_head p,
    if block_free_head p = kInvalidIndex then p
    else p\<lparr>block_free_head := block_next p ! unat (block_free_head p)\<rparr>)"
proof (cases "block_free_head p = kInvalidIndex")
  case True
  then show ?thesis by (simp add: session_acquire_def session_pool_acquire_def session_head_def block_at_def)
next
  case False
  then have "block_free_head p < block_count p" using g by (simp add: session_good_def index_ok_def)
  from block_addr_nonzero [OF g this] False show ?thesis
    by (simp add: session_acquire_def session_pool_acquire_def session_head_def block_at_def
        block_addr_def Let_def)
qed

lemma session_release_eq:
  assumes g: "session_good p" and a: "a \<in> blocks p"
  shows "session_pool_release a p = p\<lparr>block_next := (block_next p)[unat (block_index p a) := block_free_head p],
      block_free_head := block_index p a\<rparr>" "block_index p a < block_count p"
    "block_addr p (block_index p a) = a"
proof -
  obtain i where i: "i < block_count p" "a = block_addr p i" using a by (auto simp: blocks_def)
  have idx: "block_index p a = i" using block_index_addr [OF g i(1)] i(2) by simp
  then show "block_index p a < block_count p" "block_addr p (block_index p a) = a" using i by simp_all
  have nz: "a \<noteq> 0" using block_addr_nonzero [OF g i(1)] i(2) by simp
  have tot: "unat (blocks_base p) + unat (block_count p) * unat (block_size p) < 2 ^ 64"
    using g by (simp add: session_good_def)
  have u: "unat a = unat (blocks_base p) + unat i * unat (block_size p)"
    using block_addr_unat(1) [OF g i(1)] i(2) by simp
  have lt: "unat i * unat (block_size p) < unat (block_count p) * unat (block_size p)"
    by (rule block_addr_unat(2) [OF g i(1)])
  have "\<not> a < blocks_base p" using u by (simp add: word_less_nat_alt)
  moreover have "unat (block_count p) * unat (block_size p) < 2 ^ 64" using tot by linarith
  then have "unat (blocks_base p + ucast (block_count p) * ucast (block_size p)) =
      unat (blocks_base p) + unat (block_count p) * unat (block_size p)"
    using tot by (simp add: unat_word_ariths(1,2))
  then have "\<not> a \<ge> blocks_base p + ucast (block_count p) * ucast (block_size p)"
    using u lt unfolding word_le_nat_alt by linarith
  moreover have "(ucast ((a - blocks_base p) div ucast (block_size p)) :: u32) = i"
    using idx by (simp add: block_index_def)
  moreover have "\<not> i \<ge> block_count p" using i(1) by simp
  ultimately show "session_pool_release a p = p\<lparr>block_next := (block_next p)[unat (block_index p a) := block_free_head p],
      block_free_head := block_index p a\<rparr>"
    using g nz idx unfolding session_pool_release_def Let_def session_good_def by simp
qed

lemma session_geometry [simp]:
  "block_addr (p\<lparr>block_free_head := h\<rparr>) i = block_addr p i"
  "block_addr (p\<lparr>block_next := n\<rparr>) i = block_addr p i"
  "block_index (p\<lparr>block_free_head := h\<rparr>) a = block_index p a"
  "block_index (p\<lparr>block_next := n\<rparr>) a = block_index p a"
  "block_at (p\<lparr>block_free_head := h\<rparr>) i = block_at p i"
  "block_at (p\<lparr>block_next := n\<rparr>) i = block_at p i"
  "blocks (p\<lparr>block_free_head := h\<rparr>) = blocks p"
  "blocks (p\<lparr>block_next := n\<rparr>) = blocks p"
  "index_ok (p\<lparr>block_free_head := h\<rparr>) i = index_ok p i"
  "index_ok (p\<lparr>block_next := n\<rparr>) i = index_ok p i"
  by (simp_all add: block_addr_def [abs_def] block_index_def block_at_def blocks_def index_ok_def)

lemma session_good_acquire: "session_good p \<Longrightarrow> session_good (snd (session_acquire p))"
  by (auto simp: session_acquire_eq session_good_def index_ok_def word_less_nat_alt)

lemma session_good_release: "session_good p \<Longrightarrow> a \<in> blocks p \<Longrightarrow> session_good (session_pool_release a p)"
proof -
  assume g: "session_good p" and a: "a \<in> blocks p"
  note R = session_release_eq [OF g a]
  have "set ((block_next p)[unat (block_index p a) := block_free_head p]) \<subseteq>
      insert (block_free_head p) (set (block_next p))"
    by (rule set_update_subset_insert)
  then show ?thesis using g R(2) by (auto simp: R(1) session_good_def index_ok_def)
qed

lemma session_link_release:
  assumes g: "session_good p" and a: "a \<in> blocks p" and b: "b \<in> blocks p"
  shows "session_link (session_pool_release a p) b = (if b = a then session_head p else session_link p b)"
proof -
  note A = session_release_eq [OF g a] and B = session_release_eq [OF g b]
  have len: "length (block_next p) = unat (block_count p)" using g by (simp add: session_good_def)
  have ia: "unat (block_index p a) < length (block_next p)" using A(2) len by (simp add: word_less_nat_alt)
  have "b \<noteq> a \<Longrightarrow> block_index p b \<noteq> block_index p a" using A(3) B(3) by auto
  then have "b \<noteq> a \<Longrightarrow> unat (block_index p b) \<noteq> unat (block_index p a)" using unsigned_word_eqI by blast
  then show ?thesis using ia
    by (cases "b = a") (simp_all add: session_link_def session_head_def A(1) nth_list_update_neq)
qed


lemma session_release_blocks: "blocks (session_pool_release a p) = blocks p"
  by (simp add: session_pool_release_def Let_def)

interpretation session_pool: freelist session_head session_link blocks session_acquire
    session_pool_release "\<lambda>_ (_ :: unit). id" session_good
proof unfold_locales
  fix p :: session_pool and x
  assume g: "session_good p"
  show "fst (session_acquire p) = session_head p" by (simp add: session_acquire_eq [OF g])
  show "session_head (snd (session_acquire p)) = None" if "session_head p = None"
    using that by (simp add: session_acquire_eq [OF g] session_head_def block_at_def split: if_splits)
  show "session_head (snd (session_acquire p)) = session_link p x" if h: "session_head p = Some x" "x \<in> blocks p"
  proof -
    have f: "block_free_head p \<noteq> kInvalidIndex" "x = block_addr p (block_free_head p)"
      using h(1) by (auto simp: session_head_def block_at_def split: if_splits)
    then have "block_free_head p < block_count p" using g by (simp add: session_good_def index_ok_def)
    then show ?thesis
      using f by (simp add: session_acquire_eq [OF g] session_head_def session_link_def block_index_addr [OF g])
  qed
  show "session_link (snd (session_acquire p)) = session_link p"
    by (simp add: session_acquire_eq [OF g] session_link_def fun_eq_iff)
  show "blocks (snd (session_acquire p)) = blocks p" by (simp add: session_acquire_eq [OF g])
  show "session_good (snd (session_acquire p))" by (rule session_good_acquire [OF g])
  show "session_link (session_pool_release x p) y = session_link p y"
    if "x \<in> blocks p" "y \<in> blocks p" "y \<noteq> x" for y
    using that session_link_release [OF g] by simp
  show "session_link (session_pool_release x p) x = session_head p" if "x \<in> blocks p"
    using that session_link_release [OF g] by simp
  show "session_head (session_pool_release x p) = Some x" if x: "x \<in> blocks p"
  proof -
    note R = session_release_eq [OF g x]
    have "unat (block_count p) < 2 ^ LENGTH(32)" by (rule unsigned_less)
    then have "unat (block_index p x) < 0xFFFFFFFF" using R(2) by (simp add: word_less_nat_alt)
    then have "block_index p x \<noteq> kInvalidIndex" by (auto simp: kInvalidIndex_def)
    then show ?thesis using R by (simp add: session_head_def block_at_def)
  qed
  show "session_good (session_pool_release x p)" if "x \<in> blocks p" by (rule session_good_release [OF g that])
qed (simp_all add: session_release_blocks)

section \<open>Setting the session pool up\<close>

lemma session_next_nat:
  assumes "i < unat count"
  shows "session_next count i = (if Suc i < unat count then of_nat (Suc i) else kInvalidIndex)"
proof -
  have "unat count < 2 ^ LENGTH(32)" by (rule unsigned_less)
  then have "Suc i < 2 ^ 32" using assms by simp
  then have "unat (of_nat (Suc i) :: u32) = Suc i" unfolding unat_of_nat by simp
  then have "of_nat (Suc i) < count \<longleftrightarrow> Suc i < unat count" by (simp only: word_less_nat_alt)
  then show ?thesis by (simp add: session_next_def add.commute)
qed

definition fresh_links :: "session_pool \<Rightarrow> bool" where
  "fresh_links p \<longleftrightarrow> block_free_head p = 0 \<and> 0 < block_count p \<and>
     block_next p = map (session_next (block_count p)) [0..<unat (block_count p)]"

lemma fresh_pool_inv:
  assumes f: "fresh_links p" and nz: "block_size p \<noteq> 0" "blocks_base p \<noteq> 0"
    and room: "unat (blocks_base p) + unat (block_count p) * unat (block_size p) < 2 ^ 64"
  shows "session_pool.pool_inv {} p"
proof -
  let ?n = "unat (block_count p)"
  have n32: "?n < 2 ^ LENGTH(32)" by (rule unsigned_less)
  have u: "unat (of_nat i :: u32) = i" if "i < ?n" for i using that n32 by (simp add: unat_of_nat)
  have ltn: "(of_nat i :: u32) < block_count p" if "i < ?n" for i using u [OF that] that by (simp add: word_less_nat_alt)
  have nx: "block_next p ! i = (if Suc i < ?n then of_nat (Suc i) else kInvalidIndex)" if "i < ?n" for i
    using f that session_next_nat [OF that] by (simp add: fresh_links_def)
  have lts: "1 + of_nat i < block_count p" if "Suc i < ?n" for i using ltn [OF that] by simp
  have g: "session_good p"
    using f nz room ltn lts session_next_nat [of _ "block_count p"]
    by (auto simp: session_good_def fresh_links_def index_ok_def)
  have inv: "kInvalidIndex \<noteq> of_nat i" if "i < ?n" for i
  proof
    assume "kInvalidIndex = of_nat i"
    then have "unat kInvalidIndex = i" using u [OF that] by simp
    then show False using that n32 by (simp add: kInvalidIndex_def)
  qed
  have chain: "links (session_link p) (block_at p (if m < ?n then of_nat m else kInvalidIndex))
      (map (block_addr p \<circ> of_nat) [m..<?n])" if "m \<le> ?n" for m
    using that
  proof (induction "?n - m" arbitrary: m)
    case 0
    then show ?case by (simp add: block_at_def)
  next
    case (Suc d)
    then have lt: "m < ?n" by simp
    have "session_link p (block_addr p (of_nat m)) = block_at p (block_next p ! m)"
      by (simp add: session_link_def block_index_addr [OF g ltn [OF lt]] u [OF lt])
    also have "\<dots> = block_at p (if Suc m < ?n then of_nat (Suc m) else kInvalidIndex)"
      using nx [OF lt] by simp
    finally have "session_link p (block_addr p (of_nat m)) = \<dots>" .
    then show ?case
      using Suc.hyps lt inv [OF lt] by (simp add: upt_conv_Cons block_at_def [of p "of_nat m"])
  qed
  let ?free = "map (block_addr p \<circ> of_nat) [0..<?n]"
  have "0 < ?n" using f by (simp add: fresh_links_def word_less_nat_alt)
  then have "links (session_link p) (session_head p) ?free"
    using chain [of 0] f by (simp add: session_head_def fresh_links_def)
  moreover have "inj_on (block_addr p \<circ> of_nat) {0..<?n}"
  proof (rule inj_onI)
    fix i j assume ij: "i \<in> {0..<?n}" "j \<in> {0..<?n}"
      and eq: "(block_addr p \<circ> of_nat) i = (block_addr p \<circ> of_nat) j"
    then have "block_index p (block_addr p (of_nat i)) = block_index p (block_addr p (of_nat j))" by simp
    then have "(of_nat i :: u32) = of_nat j" using ij block_index_addr [OF g ltn] by simp
    then show "i = j" using ij u by (metis atLeastLessThan_iff)
  qed
  then have "distinct ?free" by (simp add: distinct_map)
  moreover have "set ?free = blocks p"
  proof -
    have "{i. i < block_count p} = of_nat ` {0..<?n}"
    proof (intro equalityI subsetI)
      fix w assume "w \<in> {i. i < block_count p}"
      then have "unat w < ?n" by (simp add: word_less_nat_alt)
      then show "w \<in> of_nat ` {0..<?n}" by (intro image_eqI [of _ _ "unat w"]) simp_all
    qed (use ltn in auto)
    then show ?thesis by (simp add: blocks_def image_comp)
  qed
  ultimately show ?thesis using g unfolding session_pool.pool_inv_def by (intro conjI exI [of _ ?free]) auto
qed

lemma session_pool_init_correct:
  assumes i: "session_pool_init arena_base arena_size bsize count = (True, p)"
    and room: "unat arena_base + unat arena_size + 64 < 2 ^ 64" and small: "unat arena_size < 2 ^ 32"
  shows "session_pool.pool_inv {} p"
    "unat arena_base \<le> unat (blocks_base p)"
    "unat (blocks_base p) + unat (block_count p) * unat (block_size p) \<le> unat arena_base + unat arena_size"
    "64 dvd unat (blocks_base p)" "block_size p = bsize" "0 < block_count p"
    "count \<noteq> 0 \<Longrightarrow> block_count p \<le> count"
proof -
  define cursor where "cursor = align_up arena_base 4"
  let ?arena_end = "arena_base + arena_size" and ?cursor = cursor
  have ue: "unat ?arena_end = unat arena_base + unat arena_size" using room by (simp add: unat_word_ariths(1))
  have uc: "unat ?cursor = round_up (unat arena_base) 4"
    using unat_align_up [of 2 arena_base] room by (simp add: cursor_def)
  define capped where "capped = (let m = (?arena_end - ?cursor) div ucast bsize in if m > 16 then 16 else m)"
  define count1 where "count1 = (if count = 0 then (if ucast capped = (0 :: u32) then 1 else ucast capped) else count)"
  define meta where "meta = (ucast count1 * 4 :: u64)"
  define blk where "blk = align_up (?cursor + meta) 64"
  define maxb where "maxb = (?arena_end - blk) div ucast bsize"
  define count2 where "count2 = (if count1 > ucast maxb then ucast maxb else count1)"
  note defs = cursor_def capped_def count1_def meta_def blk_def maxb_def count2_def
  have C: "arena_base \<noteq> 0" "bsize \<noteq> 0" "\<not> ?cursor \<ge> ?arena_end" "\<not> ?arena_end - ?cursor < meta" "\<not> blk \<ge> ?arena_end" "maxb \<noteq> 0"
    and p: "p = \<lparr>block_size = bsize, block_count = count2, blocks_base = blk,
      block_next = map (session_next count2) [0..<unat count2], block_free_head = 0\<rparr>"
    using i unfolding session_pool_init_def defs Let_def by (simp_all split: if_splits)
  show "block_size p = bsize" by (simp add: p)
  have cm: "unat (?cursor + meta) = unat ?cursor + unat meta"
    and cme: "unat ?cursor + unat meta \<le> unat ?arena_end"
  proof -
    have "unat (?arena_end - ?cursor) = unat ?arena_end - unat ?cursor" using C(3) by (simp add: unat_sub not_le)
    then have le: "unat meta \<le> unat ?arena_end - unat ?cursor" using C(4) by (simp add: word_less_nat_alt)
    then show "unat ?cursor + unat meta \<le> unat ?arena_end" using C(3) by (simp add: word_le_nat_alt)
    then show "unat (?cursor + meta) = unat ?cursor + unat meta"
      using room ue by (simp add: unat_word_ariths(1))
  qed
  have ub: "unat blk = round_up (unat ?cursor + unat meta) 64"
    using unat_align_up [of 6 "?cursor + meta"] cm cme room ue by (simp add: blk_def)
  have lo: "unat arena_base \<le> unat blk"
    using round_up_bounds(1) [of 4 "unat arena_base"] round_up_bounds(1) [of 64 "unat ?cursor + unat meta"]
    by (simp add: ub uc)
  then show "unat arena_base \<le> unat (blocks_base p)" by (simp add: p)
  show "64 dvd unat (blocks_base p)" by (simp add: p ub round_up_dvd)
  have be: "unat blk < unat ?arena_end" using C(5) by (simp add: word_le_nat_alt)
  have sz: "0 < unat bsize" using C(2) by (simp add: unat_gt_0)
  have um: "unat maxb = (unat ?arena_end - unat blk) div unat bsize"
    using be by (simp add: maxb_def unat_div unat_sub word_le_nat_alt)
  have "unat ?arena_end - unat blk < 2 ^ 32" using small ue lo by simp
  then have "unat maxb < 2 ^ 32" using um div_le_dividend le_less_trans by metis
  then have um32: "unat (ucast maxb :: u32) = unat maxb"
    by (simp add: unsigned_ucast_eq take_bit_nat_eq_self)
  have c1: "count1 \<noteq> 0" by (simp add: count1_def)
  have c2a: "unat count2 \<le> unat maxb"
    using um32 by (simp add: count2_def word_less_nat_alt not_less)
  have "unat maxb \<noteq> 0" using C(6) by (simp add: unat_eq_zero)
  then have "unat (ucast maxb :: u32) \<noteq> 0" using um32 by simp
  then have m0: "(ucast maxb :: u32) \<noteq> 0" by (metis unat_0)
  have c2b: "0 < count2" using m0 c1 by (simp add: count2_def word_gt_0)
  note c2 = c2a c2b
  show "0 < block_count p" using c2 by (simp add: p)
  have "unat count2 * unat bsize \<le> unat maxb * unat bsize" using c2(1) by simp
  also have "\<dots> \<le> unat ?arena_end - unat blk" by (simp add: um)
  finally have fit: "unat blk + unat count2 * unat bsize \<le> unat ?arena_end" using be by simp
  then show "unat (blocks_base p) + unat (block_count p) * unat (block_size p) \<le> unat arena_base + unat arena_size"
    by (simp add: p ue)
  have "unat arena_base \<noteq> 0" using C(1) by (simp add: unat_eq_zero)
  then have "blk \<noteq> 0" using lo by auto
  then show "session_pool.pool_inv {} p"
    using fit ue room C(2) c2 by (intro fresh_pool_inv) (simp_all add: p fresh_links_def)
  show "count \<noteq> 0 \<Longrightarrow> block_count p \<le> count"
    by (auto simp: p count2_def count1_def)
qed

section \<open>No pool hands a cell out twice\<close>

text \<open>What a run of client operations over a pool of the given cells must satisfy.\<close>

definition exclusive_run :: "'n set \<Rightarrow> ('n option \<times> 'n set) list \<Rightarrow> bool" where
  "exclusive_run cells log \<longleftrightarrow>
     (\<forall>(out, was) \<in> set log. case out of None \<Rightarrow> was = cells | Some x \<Rightarrow> x \<in> cells \<and> x \<notin> was)"

lemma object_pool_new_inv: "0 < n \<Longrightarrow> object_pool.pool_inv {} (object_pool_new n)"
  by (rule pool_new_inv(1) [of n]) (auto simp: object_pool_new_def)

lemma local_pool_new_inv: "0 < n \<Longrightarrow> local_pool.pool_inv {} (local_pool_new n)"
  by (rule pool_new_inv(2) [of n]) (auto simp: local_pool_new_def kNextObjectStep_def)

lemma objects_new [simp]: "objects (object_pool_new n) = {..<n}" "objects (local_pool_new n) = {..<n}"
  by (simp_all add: objects_def object_pool_new_def local_pool_new_def)

text \<open>C12: Whatever sequence of acquires, releases and writes into owned objects the clients
  make on a new ObjectPool or LocalObjectPool, an acquire never returns an object that is still
  owned, and it fails only when all the objects of the pool are owned.\<close>
theorem object_pool_exclusive:
  assumes "0 < n"
  shows "exclusive_run {..<n} (fst (pool_run object_pool_acquire (\<lambda>obj. object_pool_release (Some obj))
      overwrite_object ops {} (object_pool_new n))) \<and>
    exclusive_run {..<n} (fst (pool_run local_pool_acquire local_pool_release
      overwrite_object ops {} (local_pool_new n)))"
proof -
  obtain log o1 s1 where r: "pool_run object_pool_acquire (\<lambda>obj. object_pool_release (Some obj))
      overwrite_object ops {} (object_pool_new n) = (log, o1, s1)" by (metis prod_cases3)
  obtain log' o1' s1' where r': "pool_run local_pool_acquire local_pool_release
      overwrite_object ops {} (local_pool_new n) = (log', o1', s1')" by (metis prod_cases3)
  show ?thesis
    using object_pool.run_exclusive [OF object_pool_new_inv [OF assms] r, unfolded objects_new]
      local_pool.run_exclusive [OF local_pool_new_inv [OF assms] r', unfolded objects_new]
    by (simp add: exclusive_run_def r r')
qed

lemma object_pool_exclusive_witness:
  "map fst (fst (pool_run object_pool_acquire (\<lambda>obj. object_pool_release (Some obj)) overwrite_object
     [Acquire, Write 0 (Some 7), Acquire, Acquire, Release 0, Acquire] {} (object_pool_new 2)))
     = [Some 0, Some 1, None, Some 0]
   \<and> exclusive_run {..<2} (fst (pool_run object_pool_acquire (\<lambda>obj. object_pool_release (Some obj)) overwrite_object
     [Acquire, Write 0 (Some 7), Acquire, Acquire, Release 0, Acquire] {} (object_pool_new 2)))"
proof (rule conjI)
  show "map fst (fst (pool_run object_pool_acquire (\<lambda>obj. object_pool_release (Some obj)) overwrite_object
     [Acquire, Write 0 (Some 7), Acquire, Acquire, Release 0, Acquire] {} (object_pool_new 2)))
     = [Some 0, Some 1, None, Some 0]" by code_simp
qed (rule object_pool_exclusive [THEN conjunct1], simp)

text \<open>After a successful session_pool_init over an arena that lies in the address space, the
  blocks lie inside the arena on 64-byte boundaries of their base, no more of them than asked for,
  and whatever sequence of acquires and releases the sessions make, an acquire never returns a
  block that is still owned, and returns the null pointer only when all the blocks are owned.\<close>
theorem session_pool_exclusive:
  assumes init: "session_pool_init arena_base arena_size bsize count = (True, p)"
    and room: "unat arena_base + unat arena_size + 64 < 2 ^ 64" and small: "unat arena_size < 2 ^ 32"
  shows "exclusive_run (blocks p) (fst (pool_run session_acquire session_pool_release
        (\<lambda>_ (_ :: unit). id) ops {} p)) \<and>
    (\<forall>a \<in> blocks p. unat arena_base \<le> unat a \<and> unat a + unat bsize \<le> unat arena_base + unat arena_size) \<and>
    64 dvd unat (blocks_base p) \<and> 0 < block_count p \<and> (count \<noteq> 0 \<longrightarrow> block_count p \<le> count)"
proof (intro conjI ballI impI)
  note I = session_pool_init_correct [OF init room small]
  have g: "session_good p" using I(1) by (simp add: session_pool.pool_inv_def)
  obtain log o1 s1 where r: "pool_run session_acquire session_pool_release (\<lambda>_ (_ :: unit). id) ops {} p
      = (log, o1, s1)" by (metis prod_cases3)
  show "exclusive_run (blocks p) (fst (pool_run session_acquire session_pool_release
      (\<lambda>_ (_ :: unit). id) ops {} p))"
    using session_pool.run_exclusive [OF I(1) r] r by (simp add: exclusive_run_def)
  show "64 dvd unat (blocks_base p)" "0 < block_count p" by (rule I)+
  show "block_count p \<le> count" if "count \<noteq> 0" using I that by blast
  fix a assume "a \<in> blocks p"
  then obtain i where i: "i < block_count p" "a = block_addr p i" by (auto simp: blocks_def)
  have "Suc (unat i) * unat bsize \<le> unat (block_count p) * unat bsize"
    using i(1) by (intro mult_right_mono) (simp_all add: word_less_nat_alt)
  then show "unat arena_base \<le> unat a" "unat a + unat bsize \<le> unat arena_base + unat arena_size"
    using I(2,3) block_addr_unat(1) [OF g i(1)] i(2) I(5) by simp_all
qed

lemma session_pool_exclusive_witness:
  "fst (session_pool_init 0x1000 0x1000 0x400 0) \<and>
   0 < block_count (snd (session_pool_init 0x1000 0x1000 0x400 0))"
proof -
  have f: "fst (session_pool_init 0x1000 0x1000 0x400 0)" by code_simp
  then have "session_pool_init 0x1000 0x1000 0x400 0 = (True, snd (session_pool_init 0x1000 0x1000 0x400 0))"
    by (simp add: prod_eq_iff)
  from session_pool_exclusive [OF this] f show ?thesis by simp
qed

end
