(* ===== verification/Arena_Heap.thy ===== *)
theory Arena_Heap
  imports Prelude
begin

unbundle bit_operations_syntax

text \<open>
  The size classes of \<open>ArenaHeap\<close> in \<open>src/src/core/init.cpp\<close>: how a request of some size and
  alignment is rounded and which of the 128 buckets serves it. \<open>kMaxAlign\<close> is the cache line of
  the x86 builds. The calls of the allocator are in \<open>Arena_Calls\<close>.
\<close>

section \<open>Size classes\<close>

definition kMaxAlign :: u64 where "kMaxAlign = 64"
definition kMinPow2 :: u32 where "kMinPow2 = 32"
definition kMaxPow2 :: u32 where "kMaxPow2 = 0x100000"
definition kSubdiv :: u32 where "kSubdiv = 8"
definition kLevels :: u32 where "kLevels = 16"
definition kBucketCount :: u32 where "kBucketCount = kLevels * kSubdiv"
definition kInvalidBucket :: u32 where "kInvalidBucket = 0xFFFFFFFF"
definition kLocalRefill :: nat where "kLocalRefill = 32"
definition kLocalMax :: u16 where "kLocalMax = 64"
definition kLocalFlush :: nat where "kLocalFlush = 32"

text \<open>\<open>sizeof (void*)\<close> is 8. A result of 0 stands for an invalid request.\<close>

definition normalized_request_size :: "u64 \<Rightarrow> u64 \<Rightarrow> u64" where
  "normalized_request_size sz align =
     (if align = 0 \<or> align > kMaxAlign \<or> align AND (align - 1) \<noteq> 0 then 0
      else
        let mask = align - 1
        in if sz > 0xFFFFFFFFFFFFFFFF - mask then 0
           else let aligned = (sz + mask) AND NOT mask in if aligned < 8 then 8 else aligned)"

function highest_bit :: "u32 \<Rightarrow> nat" where
  "highest_bit v = (let v' = drop_bit 1 v in if v' = 0 then 0 else 1 + highest_bit v')"
  by pat_completeness auto
termination
proof (relation "measure unat", goal_cases)
  case (2 v v')
  then have "0 < unat v" by (metis drop_bit_of_0 gr_zeroI unat_eq_zero)
  then show ?case using 2 by (simp add: drop_bit_eq_div unat_div)
qed simp

declare highest_bit.simps [simp del]

definition bucket_size_for :: "u64 \<Rightarrow> u64" where
  "bucket_size_for req =
     (let n0 = (ucast req :: u32); n = (if n0 < kMinPow2 then kMinPow2 else n0)
      in if n > kMaxPow2 then 0
         else
           let hb = highest_bit n;
               base = (if push_bit hb 1 < kMinPow2 then kMinPow2 else push_bit hb 1);
               step = (if base div kSubdiv = 0 then 1 else base div kSubdiv);
               rounded = (n + (step - 1)) AND NOT (step - 1)
           in if rounded \<ge> base * 2
              then if base * 2 > kMaxPow2 then 0 else ucast (base * 2)
              else ucast rounded)"

definition bucket_index_for :: "u64 \<Rightarrow> u32" where
  "bucket_index_for req =
     (if req < ucast kMinPow2 then 0
      else if req > ucast kMaxPow2 then kInvalidBucket
      else
        let n = (ucast req :: u32);
            hb = highest_bit n;
            base = push_bit hb 1;
            step_shift = hb - highest_bit kSubdiv;
            step_mask = push_bit step_shift 1 - 1;
            sub = drop_bit step_shift (n - base + step_mask)
        in of_nat (hb - highest_bit kMinPow2) * kSubdiv + sub)"

definition bucket_req_size :: "u32 \<Rightarrow> u64" where
  "bucket_req_size bucket =
     (let level = bucket div kSubdiv;
          sub = bucket mod kSubdiv;
          base = push_bit (unat level) kMinPow2;
          step = (if base div kSubdiv \<noteq> 0 then base div kSubdiv else 1)
      in ucast (base + sub * step))"

text \<open>The bytes of the blocks of a bucket.\<close>

definition block_bytes :: "u32 \<Rightarrow> u64" where
  "block_bytes bucket = bucket_size_for (bucket_req_size bucket)"

lemma highest_bit_bounds: "v \<noteq> 0 \<Longrightarrow> 2 ^ highest_bit v \<le> unat v \<and> unat v < 2 ^ Suc (highest_bit v)"
proof (induction v rule: highest_bit.induct)
  case (1 v)
  have h: "unat (drop_bit 1 v) = unat v div 2" by (simp add: drop_bit_eq_div unat_div)
  show ?case
  proof (cases "drop_bit 1 v = 0")
    case True
    then have "unat v div 2 = 0" using h by simp
    moreover have "unat v \<noteq> 0" using "1.prems" by (simp add: unat_eq_zero)
    ultimately show ?thesis using True by (simp add: highest_bit.simps)
  next
    case False
    then show ?thesis using "1.IH" h by (subst (1 2) highest_bit.simps) (auto simp: Let_def)
  qed
qed

lemma highest_bit_unique:
  assumes "2 ^ k \<le> unat v" "unat v < 2 ^ Suc k"
  shows "highest_bit v = k"
proof -
  have "v \<noteq> 0" using assms(1) by auto
  note B = highest_bit_bounds [OF this]
  have "(2::nat) ^ k < 2 ^ Suc (highest_bit v)" by (rule le_less_trans [OF assms(1) B [THEN conjunct2]])
  then have 1: "k < Suc (highest_bit v)" by (rule power_less_imp_less_exp [rotated]) simp
  have "(2::nat) ^ highest_bit v < 2 ^ Suc k" by (rule le_less_trans [OF B [THEN conjunct1] assms(2)])
  then have "highest_bit v < Suc k" by (rule power_less_imp_less_exp [rotated]) simp
  with 1 show ?thesis by simp
qed

lemma highest_bit_consts [simp]: "highest_bit kSubdiv = 3" "highest_bit kMinPow2 = 5"
  by (rule highest_bit_unique; simp add: kSubdiv_def kMinPow2_def)+

text \<open>A request between the smallest and the largest class: its level and its step.\<close>

lemma level_bounds:
  assumes n: "32 \<le> unat (n :: u32)" "unat n \<le> 2 ^ 20" and hb: "hb = highest_bit n"
  shows "5 \<le> hb" "hb \<le> 20" "2 ^ hb \<le> unat n" "unat n < 2 * 2 ^ hb" "hb = 20 \<Longrightarrow> unat n = 2 ^ 20"
proof -
  have "n \<noteq> 0" using n by auto
  note B = highest_bit_bounds [OF this]
  show l: "2 ^ hb \<le> unat n" "unat n < 2 * 2 ^ hb" using B by (simp_all add: hb)
  have "(2::nat) ^ 5 < 2 ^ Suc hb" using l(2) n(1) by simp
  then show "5 \<le> hb" using power_less_imp_less_exp [of "2::nat" 5 "Suc hb"] by simp
  have "(2::nat) ^ hb < 2 ^ 21" using l(1) n(2) by simp
  then show "hb \<le> 20" using power_less_imp_less_exp [of "2::nat" hb 21] by simp
  show "hb = 20 \<Longrightarrow> unat n = 2 ^ 20" using l(1) n(2) by simp
qed

lemma unat_pow32: "k < 32 \<Longrightarrow> unat (push_bit k 1 :: u32) = 2 ^ k"
proof -
  assume k: "k < 32"
  then have "(2::nat) ^ k < 2 ^ 32" by (intro power_strict_increasing) simp_all
  then have "unat (of_nat (2 ^ k) :: u32) = 2 ^ k" unfolding unat_of_nat by simp
  moreover have "(push_bit k 1 :: u32) = of_nat (2 ^ k)" by (simp add: push_bit_of_1)
  ultimately show ?thesis by (simp only:)
qed

lemma step_split: "3 \<le> hb \<Longrightarrow> (2::nat) ^ hb = 8 * 2 ^ (hb - 3)"
  using power_add [of "2::nat" 3 "hb - 3"] by simp

lemma unat_round_mask:
  fixes n :: u32
  assumes "k < 32" and "unat n + (2 ^ k - 1) < 2 ^ 32"
  shows "unat ((n + (push_bit k 1 - 1)) AND NOT (push_bit k 1 - 1)) = round_up (unat n) (2 ^ k)"
proof -
  have m: "unat (push_bit k 1 - 1 :: u32) = 2 ^ k - 1"
  proof (subst unat_minus_one)
    have "unat (push_bit k 1 :: u32) \<noteq> 0" using unat_pow32 [OF assms(1)] by simp
    then show "push_bit k 1 \<noteq> (0 :: u32)" by (metis unat_0)
  qed (simp only: unat_pow32 [OF assms(1)])
  have mk: "(push_bit k 1 - 1 :: u32) = 2 ^ k - 1" by (simp add: push_bit_of_1)
  have "unat (n + (push_bit k 1 - 1)) = (unat n + (2 ^ k - 1)) mod 2 ^ 32"
    unfolding unat_word_ariths(1) m by simp
  then have "unat (n + (2 ^ k - 1)) = unat n + (2 ^ k - 1)" using assms(2) unfolding mk by simp
  then show ?thesis unfolding mk unat_and_not_mask round_up_def by (simp only:)
qed

lemma round_up_multiple [simp]: "round_up (m * 2 ^ k) (2 ^ k) = m * 2 ^ k"
proof -
  have "m * 2 ^ k dvd m * 2 ^ k" by simp
  have "2 ^ k dvd m * 2 ^ k - round_up (m * 2 ^ k) (2 ^ k)" "2 ^ k dvd round_up (m * 2 ^ k) (2 ^ k) - m * 2 ^ k"
    by (simp_all add: dvd_diff_nat round_up_dvd)
  moreover have "m * 2 ^ k \<le> round_up (m * 2 ^ k) (2 ^ k)" "round_up (m * 2 ^ k) (2 ^ k) < m * 2 ^ k + 2 ^ k"
    using round_up_bounds [of "2 ^ k" "m * 2 ^ k"] by simp_all
  ultimately show ?thesis using nat_dvd_not_less [of "round_up (m * 2 ^ k) (2 ^ k) - m * 2 ^ k" "2 ^ k"] by linarith
qed

lemma unat_ucast_down: "unat (w :: u64) < 2 ^ 32 \<Longrightarrow> unat (ucast w :: u32) = unat w"
  by (simp add: unsigned_ucast_eq take_bit_nat_eq_self)

lemma kclass_consts [simp]:
  "unat kMinPow2 = 32" "unat kMaxPow2 = 2 ^ 20" "unat kSubdiv = 8" "unat kMaxAlign = 64" "kSubdiv \<noteq> 0"
  by (simp_all add: kMinPow2_def kMaxPow2_def kSubdiv_def kMaxAlign_def)

lemma unat_push_bit_le:
  fixes w :: u32
  assumes "unat w * 2 ^ k < 2 ^ 32"
  shows "unat (push_bit k w) = unat w * 2 ^ k"
proof -
  have "of_nat (unat w * 2 ^ k) = push_bit k w" by (simp add: push_bit_eq_mult)
  moreover have "unat (of_nat (unat w * 2 ^ k) :: u32) = unat w * 2 ^ k"
    using assms unfolding unat_of_nat by simp
  ultimately show ?thesis by (simp only:)
qed

lemma bucket_req_size_spec:
  assumes b: "unat b = l * 8 + s" and s: "s < 8" and l: "l \<le> 15"
  shows "unat (bucket_req_size b) = 2 ^ (5 + l) + s * 2 ^ (2 + l)"
proof -
  have lv: "unat (b div kSubdiv) = l" "unat (b mod kSubdiv) = s" using b s by (simp_all add: unat_div unat_mod)
  have p: "(2::nat) ^ l \<le> 2 ^ 15" using l by (intro power_increasing) simp_all
  have base: "unat (push_bit l kMinPow2) = 2 ^ (5 + l)"
    using p by (subst unat_push_bit_le) (simp_all add: power_add)
  then have step: "unat (push_bit l kMinPow2 div kSubdiv) = 2 ^ (2 + l)" by (simp add: unat_div power_add)
  then have nz: "push_bit l kMinPow2 div kSubdiv \<noteq> 0" by auto
  have small: "s * 2 ^ (2 + l) < 2 ^ 20" "(2::nat) ^ (5 + l) \<le> 2 ^ 20"
  proof -
    have "s * 2 ^ (2 + l) < 8 * 2 ^ (2 + l)" using s by simp
    also have "8 * (2::nat) ^ (2 + l) \<le> 2 ^ 20" using p by (simp add: power_add)
    finally show "s * 2 ^ (2 + l) < 2 ^ 20" .
    show "(2::nat) ^ (5 + l) \<le> 2 ^ 20" using p by (simp add: power_add)
  qed
  then have "unat (b mod kSubdiv * (push_bit l kMinPow2 div kSubdiv)) = s * 2 ^ (2 + l)"
    using lv(2) step by (simp add: unat_word_ariths(2))
  then have "unat (push_bit l kMinPow2 + b mod kSubdiv * (push_bit l kMinPow2 div kSubdiv)) =
      2 ^ (5 + l) + s * 2 ^ (2 + l)"
    using base small by (simp add: unat_word_ariths(1))
  then show ?thesis unfolding bucket_req_size_def Let_def lv(1) using nz by (simp only: unat_ucast_up if_True not_False_eq_True)
qed

lemma bucket_size_exact:
  assumes r: "unat req = 2 ^ hb + s * 2 ^ (hb - 3)" and s: "s < 8" and hb: "5 \<le> hb" "hb \<le> 20" "hb = 20 \<Longrightarrow> s = 0"
  shows "bucket_size_for req = req"
proof -
  have p: "(2::nat) ^ hb \<le> 2 ^ 20" "(2::nat) ^ 5 \<le> 2 ^ hb" using hb by (intro power_increasing; simp)+
  have sp: "(2::nat) ^ hb = 8 * 2 ^ (hb - 3)" using hb by (intro step_split) simp
  have lt: "unat req < 2 ^ Suc hb" "2 ^ hb \<le> unat req" using r s sp by simp_all
  have le: "unat req \<le> 2 ^ 20"
  proof (cases "hb = 20")
    case False
    then have "(2::nat) ^ Suc hb \<le> 2 ^ 20" using hb by (intro power_increasing) simp_all
    then show ?thesis using lt by linarith
  qed (use r hb in simp)
  define n where "n = (ucast req :: u32)"
  have un: "unat n = unat req" using le by (simp add: n_def unat_ucast_down)
  have hbn: "highest_bit n = hb" using lt by (intro highest_bit_unique) (simp_all only: un)
  have base: "unat (push_bit hb 1 :: u32) = 2 ^ hb" using hb by (intro unat_pow32) simp
  have step: "push_bit hb 1 div kSubdiv = push_bit (hb - 3) 1"
  proof (rule unat_eqI)
    show "unat (push_bit hb 1 div kSubdiv :: u32) = unat (push_bit (hb - 3) 1 :: u32)"
      using base hb sp by (subst unat_pow32) (simp_all add: unat_div)
  qed
  have stepnz: "(push_bit (hb - 3) 1 :: u32) \<noteq> 0"
  proof -
    have "unat (push_bit (hb - 3) 1 :: u32) \<noteq> 0" using hb by (subst unat_pow32) simp_all
    then show ?thesis by (metis unat_0)
  qed
  have ge: "\<not> n < kMinPow2" "\<not> kMaxPow2 < n" "\<not> push_bit hb 1 < kMinPow2"
    using lt le p un base by (simp_all add: word_less_nat_alt)
  have "unat ((n + (push_bit (hb - 3) 1 - 1)) AND NOT (push_bit (hb - 3) 1 - 1)) = round_up (unat n) (2 ^ (hb - 3))"
  proof (rule unat_round_mask)
    have "(2::nat) ^ (hb - 3) \<le> 2 ^ 20" using hb by (intro power_increasing) simp_all
    then show "unat n + (2 ^ (hb - 3) - 1) < 2 ^ 32" using un le by simp
  qed (use hb in simp)
  also have "\<dots> = unat n"
  proof -
    have "unat n = (8 + s) * 2 ^ (hb - 3)" using r sp un by (simp add: algebra_simps)
    then show ?thesis by (simp only: round_up_multiple)
  qed
  finally have rounded: "(n + (push_bit (hb - 3) 1 - 1)) AND NOT (push_bit (hb - 3) 1 - 1) = n" by (rule unat_eqI)
  have "unat (push_bit hb 1 * 2 :: u32) = 2 ^ hb * 2" using base p by (simp add: unat_word_ariths(2))
  then have top: "\<not> n \<ge> push_bit hb 1 * 2" using lt un by (simp add: word_le_nat_alt)
  have "bucket_size_for req = ucast n"
    unfolding bucket_size_for_def Let_def n_def [symmetric]
    using ge hbn step stepnz rounded top by (simp only: if_False if_True)
  then show ?thesis using un by (intro unat_eqI) simp
qed

text \<open>The step of the level a request falls into.\<close>

definition class_step :: "u64 \<Rightarrow> nat" where
  "class_step req = 2 ^ (highest_bit (ucast req) - 3)"

lemma bucket_index_spec:
  assumes r: "32 \<le> unat req" "unat req \<le> 2 ^ 20"
  defines "hb \<equiv> highest_bit (ucast req)"
  shows "unat (bucket_index_for req) = (hb - 5) * 8 + (unat req - 2 ^ hb + (2 ^ (hb - 3) - 1)) div 2 ^ (hb - 3)"
proof -
  define n where "n = (ucast req :: u32)"
  have un: "unat n = unat req" using r by (simp add: n_def unat_ucast_down)
  note L = level_bounds [of n hb, unfolded un, OF r, unfolded hb_def n_def, OF refl, folded hb_def]
  have hbn: "highest_bit n = hb" by (simp only: hb_def n_def)
  have sp: "(2::nat) ^ hb = 8 * 2 ^ (hb - 3)" using L by (intro step_split) simp
  have p: "(2::nat) ^ hb \<le> 2 ^ 20" using L by (intro power_increasing) simp_all
  have base: "unat (push_bit hb 1 :: u32) = 2 ^ hb" using L by (intro unat_pow32) simp
  have stp: "unat (push_bit (hb - 3) 1 :: u32) = 2 ^ (hb - 3)" using L by (intro unat_pow32) simp
  have mask: "unat (push_bit (hb - 3) 1 - 1 :: u32) = 2 ^ (hb - 3) - 1"
  proof (subst unat_minus_one)
    have "unat (push_bit (hb - 3) 1 :: u32) \<noteq> 0" using stp by simp
    then show "push_bit (hb - 3) 1 \<noteq> (0 :: u32)" by (metis unat_0)
  qed (simp only: stp)
  have diff: "unat (n - push_bit hb 1) = unat req - 2 ^ hb"
    using base un L by (subst unat_sub) (simp_all add: word_le_nat_alt)
  have "unat (n - push_bit hb 1 + (push_bit (hb - 3) 1 - 1)) = unat req - 2 ^ hb + (2 ^ (hb - 3) - 1)"
  proof -
    have "unat req - 2 ^ hb + (2 ^ (hb - 3) - 1) < 2 ^ LENGTH(32)" using L p sp by simp
    then show ?thesis unfolding unat_word_ariths(1) diff mask by (rule mod_less)
  qed
  then have sub: "unat (drop_bit (hb - 3) (n - push_bit hb 1 + (push_bit (hb - 3) 1 - 1))) =
      (unat req - 2 ^ hb + (2 ^ (hb - 3) - 1)) div 2 ^ (hb - 3)"
    unfolding unat_drop_bit_eq by (simp only: drop_bit_eq_div)
  have "unat req - 2 ^ hb + (2 ^ (hb - 3) - 1) < 9 * 2 ^ (hb - 3)" using L sp by simp
  then have "(unat req - 2 ^ hb + (2 ^ (hb - 3) - 1)) div 2 ^ (hb - 3) < 9" by (rule less_mult_imp_div_less)
  moreover have "unat (of_nat (hb - 5) * kSubdiv :: u32) = (hb - 5) * 8"
  proof -
    have "hb - 5 < 2 ^ 5" using L by simp
    then have "unat (of_nat (hb - 5) :: u32) = hb - 5" unfolding unat_of_nat by simp
    then show ?thesis using L by (simp add: unat_word_ariths(2))
  qed
  ultimately have "unat (of_nat (hb - 5) * kSubdiv + drop_bit (hb - 3) (n - push_bit hb 1 + (push_bit (hb - 3) 1 - 1)) :: u32)
      = (hb - 5) * 8 + (unat req - 2 ^ hb + (2 ^ (hb - 3) - 1)) div 2 ^ (hb - 3)"
  proof -
    let ?c = "(unat req - 2 ^ hb + (2 ^ (hb - 3) - 1)) div 2 ^ (hb - 3)"
    assume c: "?c < 9" and k: "unat (of_nat (hb - 5) * kSubdiv :: u32) = (hb - 5) * 8"
    have "(hb - 5) * 8 \<le> 120" using L by simp
    then have "(hb - 5) * 8 + ?c < 2 ^ LENGTH(32)" using c by (simp del: power_Suc)
    then show ?thesis unfolding unat_word_ariths(1) sub k by (rule mod_less)
  qed
  moreover have "\<not> req < ucast kMinPow2" "\<not> req > ucast kMaxPow2"
    using r by (simp_all add: word_less_nat_alt)
  ultimately show ?thesis
    unfolding bucket_index_for_def Let_def n_def [symmetric] hbn highest_bit_consts by (simp only: if_False)
qed

lemma class_arith:
  fixes n d :: nat
  assumes "8 * d \<le> n" "n < 16 * d"
  defines "c \<equiv> (n - 8 * d + (d - 1)) div d"
  shows "c < 9" "n = 8 * d \<Longrightarrow> c = 0" "round_up n d = 8 * d + c * d"
proof -
  have d: "0 < d" using assms(1,2) by simp
  show "c < 9" unfolding c_def by (rule less_mult_imp_div_less) (use assms d in linarith)
  show "c = 0" if "n = 8 * d" using that d by (simp add: c_def)
  have "n + (d - 1) = 8 * d + (n - 8 * d + (d - 1))" using assms(1) by linarith
  then have "(n + (d - 1)) div d = 8 + c"
    using d unfolding c_def by (simp only: div_mult_self3 less_numeral_extra neq0_conv)
  then show "round_up n d = 8 * d + c * d" unfolding round_up_def by (simp only: add_mult_distrib)
qed

lemma block_bytes_spec:
  assumes r: "32 \<le> unat req" "unat req \<le> 2 ^ 20"
  shows "unat (block_bytes (bucket_index_for req)) = round_up (unat req) (class_step req)"
    "unat (bucket_index_for req) < 121"
proof -
  define hb where "hb = highest_bit (ucast req)"
  define n where "n = (ucast req :: u32)"
  have un: "unat n = unat req" using r by (simp add: n_def unat_ucast_down)
  note L = level_bounds [of n hb, unfolded un, OF r, unfolded hb_def n_def, OF refl, folded hb_def]
  have sp: "(2::nat) ^ hb = 8 * 2 ^ (hb - 3)" using L(1) by (intro step_split) simp
  define d where "d = (2::nat) ^ (hb - 3)"
  define c where "c = (unat req - 8 * d + (d - 1)) div d"
  have idx: "unat (bucket_index_for req) = (hb - 5) * 8 + c"
    using bucket_index_spec [OF r] unfolding hb_def [symmetric] c_def sp d_def .
  have A: "8 * d \<le> unat req" "unat req < 16 * d" using L(3,4) sp unfolding d_def by simp_all
  note C = class_arith [OF A, folded c_def]
  have c20: "c = 0" if "hb = 20" using L(5) [OF that] that C(2) by (simp add: d_def)
  have ru: "round_up (unat req) (class_step req) = 8 * d + c * d"
    using C(3) unfolding class_step_def hb_def [symmetric] d_def .
  have "hb = 20 \<or> hb < 20" using L(2) by linarith
  then show "unat (bucket_index_for req) < 121" using idx C(1) c20 L(1,2) by (elim disjE) simp_all
  show "unat (block_bytes (bucket_index_for req)) = round_up (unat req) (class_step req)"
  proof (cases "c = 8")
    case False
    have e: "5 + (hb - 5) = hb" "2 + (hb - 5) = hb - 3" using L(1) by simp_all
    have "unat (bucket_req_size (bucket_index_for req)) = 2 ^ (5 + (hb - 5)) + c * 2 ^ (2 + (hb - 5))"
      using idx False C(1) L(1,2) by (intro bucket_req_size_spec) simp_all
    then have b: "unat (bucket_req_size (bucket_index_for req)) = 2 ^ hb + c * 2 ^ (hb - 3)" unfolding e .
    have "block_bytes (bucket_index_for req) = bucket_req_size (bucket_index_for req)"
      unfolding block_bytes_def by (rule bucket_size_exact [OF b]) (use False C(1) c20 L(1,2) in simp_all)
    then show ?thesis using b ru unfolding sp d_def by (simp only:)
  next
    case True
    then have h20: "hb < 20" using c20 L(2) by (cases "hb = 20") simp_all
    have e: "5 + (hb - 4) = Suc hb" "2 + (hb - 4) = Suc hb - 3" using L(1) by simp_all
    have "unat (bucket_req_size (bucket_index_for req)) = 2 ^ (5 + (hb - 4)) + 0 * 2 ^ (2 + (hb - 4))"
      using idx True L(1) h20 by (intro bucket_req_size_spec) simp_all
    then have b: "unat (bucket_req_size (bucket_index_for req)) = 2 ^ Suc hb + 0 * 2 ^ (Suc hb - 3)" unfolding e .
    have "block_bytes (bucket_index_for req) = bucket_req_size (bucket_index_for req)"
      unfolding block_bytes_def by (rule bucket_size_exact [OF b]) (use L(1) h20 in simp_all)
    then have "unat (block_bytes (bucket_index_for req)) = 2 * (8 * d)"
      using b unfolding d_def sp [symmetric] by simp
    then show ?thesis using ru True by simp
  qed
qed

text \<open>A request that is accepted: its alignment is a power of two up to 64.\<close>

lemma normalized_request_spec:
  assumes n: "normalized_request_size sz align = n" "n \<noteq> 0"
  obtains k where "k \<le> 6" "align = 2 ^ k" "unat n = max 8 (round_up (unat sz) (2 ^ k))"
proof -
  have a: "align \<noteq> 0" "\<not> align > kMaxAlign" "align AND (align - 1) = 0" "\<not> sz > 0xFFFFFFFFFFFFFFFF - (align - 1)"
    and e: "n = (let aligned = (sz + (align - 1)) AND NOT (align - 1) in if aligned < 8 then 8 else aligned)"
    using n unfolding normalized_request_size_def Let_def by (auto split: if_splits)
  have m1: "unat (align - 1) = unat align - 1" using a(1) by (simp add: unat_minus_one)
  have "unat align AND (unat align - 1) = 0" using a(3) m1 by (metis unat_0 unsigned_and_eq)
  moreover have "0 < unat align" using a(1) by (simp add: unat_gt_0)
  ultimately obtain k where k: "unat align = 2 ^ k" using is_pow2D by (auto simp: is_pow2_def)
  have "unat align \<le> 2 ^ 6" using a(2) by (simp add: word_less_nat_alt not_less)
  then have "(2::nat) ^ k \<le> 2 ^ 6" unfolding k .
  then have k6: "k \<le> 6" by (rule power_le_imp_le_exp [rotated]) simp
  have "unat (2 ^ k :: u64) = 2 ^ k"
  proof -
    have "(2::nat) ^ k \<le> 2 ^ 6" using k6 by (intro power_increasing) simp_all
    then have "unat (of_nat (2 ^ k) :: u64) = 2 ^ k" unfolding unat_of_nat by simp
    then show ?thesis by simp
  qed
  then have al: "align = 2 ^ k" using k by (intro unat_eqI) simp
  have room: "unat sz + (2 ^ k - 1) < 2 ^ 64"
  proof -
    have p: "(2::nat) ^ k \<le> 2 ^ 6" using k6 by (intro power_increasing) simp_all
    have "unat (0xFFFFFFFFFFFFFFFF - (align - 1) :: u64) = 2 ^ 64 - 1 - (2 ^ k - 1)"
      using m1 k p by (subst unat_sub) (simp_all add: word_le_nat_alt)
    with p show ?thesis using a(4) by (simp add: word_less_nat_alt not_less)
  qed
  have "(sz + (align - 1)) AND NOT (align - 1) = align_up sz (2 ^ k)" by (simp add: align_up_def al)
  moreover have "unat (align_up sz (2 ^ k)) = round_up (unat sz) (2 ^ k)"
    using k6 room by (intro unat_align_up) simp_all
  ultimately have "unat n = max 8 (round_up (unat sz) (2 ^ k))"
    using e by (simp add: Let_def word_less_nat_alt max_def)
  then show ?thesis using that k6 al by blast
qed

lemma dvd_round_up_pow2:
  assumes "2 ^ k dvd n"
  shows "(2::nat) ^ k dvd round_up n (2 ^ m)"
proof (cases "k \<le> m")
  case True
  then have "(2::nat) ^ k dvd 2 ^ m" by (rule le_imp_power_dvd)
  then show ?thesis using round_up_dvd dvd_trans by blast
next
  case False
  then have "(2::nat) ^ m dvd 2 ^ k" by (intro le_imp_power_dvd) simp
  then obtain c where "n = c * 2 ^ m" using assms by (metis dvd_def dvd_trans mult.commute)
  then show ?thesis using assms by simp
qed

lemma bucket_index_small: "unat req < 32 \<Longrightarrow> bucket_index_for req = 0"
  by (simp add: bucket_index_for_def word_less_nat_alt)

lemma bucket_index_large: "2 ^ 20 < unat req \<Longrightarrow> bucket_index_for req = kInvalidBucket"
  by (simp add: bucket_index_for_def word_less_nat_alt)

lemma block_bytes_0: "unat (block_bytes 0) = 32"
proof -
  have "bucket_index_for 32 = 0" by (intro unat_eqI) (use bucket_index_spec [of 32] in \<open>simp add: highest_bit_consts(2) [unfolded kMinPow2_def]\<close>)
  then show ?thesis
    using block_bytes_spec [of 32] round_up_multiple [of 8 2]
    by (simp add: class_step_def highest_bit_consts(2) [unfolded kMinPow2_def])
qed

lemma class_step_bounds:
  assumes "32 \<le> unat req" "unat req \<le> 2 ^ 20"
  shows "0 < class_step req" "8 * class_step req \<le> unat req"
proof -
  have un: "unat (ucast req :: u32) = unat req" using assms by (simp add: unat_ucast_down)
  note L = level_bounds [of "ucast req" "highest_bit (ucast req)", unfolded un, OF assms refl]
  show "0 < class_step req" by (simp add: class_step_def)
  have "(2::nat) ^ highest_bit (ucast req) = 8 * 2 ^ (highest_bit (ucast req) - 3)" using L(1) by (intro step_split) simp
  then show "8 * class_step req \<le> unat req" using L(3) by (simp add: class_step_def)
qed

lemma accepted_bounds:
  assumes "normalized_request_size sz align = n" and "n \<noteq> 0" and "sz \<noteq> 0"
  obtains k where "k \<le> 6" "unat align = 2 ^ k" "unat sz \<le> unat n" "2 ^ k dvd unat n" "2 ^ k \<le> unat n"
proof -
  from normalized_request_spec [OF assms(1,2)] obtain k where
    k: "k \<le> 6" "align = 2 ^ k" "unat n = max 8 (round_up (unat sz) (2 ^ k))" .
  have p: "(2::nat) ^ k \<le> 2 ^ 6" using k(1) by (intro power_increasing) simp_all
  then have "unat (of_nat (2 ^ k) :: u64) = 2 ^ k" unfolding unat_of_nat by simp
  then have ua: "unat align = 2 ^ k" by (simp add: k(2))
  have r: "unat sz \<le> round_up (unat sz) (2 ^ k)" by (rule round_up_bounds) simp
  have pos: "0 < unat sz" using assms(3) by (simp add: unat_gt_0)
  have d: "(2::nat) ^ k dvd round_up (unat sz) (2 ^ k)" by (rule round_up_dvd)
  have le: "2 ^ k \<le> round_up (unat sz) (2 ^ k)" using d r pos by (intro dvd_imp_le) simp_all
  have "2 ^ k dvd unat n"
  proof (cases "round_up (unat sz) (2 ^ k) < 8")
    case True
    then have "(2::nat) ^ k < 2 ^ 3" using le by simp
    then have "k < 3" by (rule power_less_imp_less_exp [rotated]) simp
    then have "(2::nat) ^ k dvd 2 ^ 3" by (intro le_imp_power_dvd) simp
    then show ?thesis using k(3) True by simp
  qed (use d k(3) in \<open>simp add: max_def\<close>)
  then show ?thesis using that [OF k(1) ua] r le k(3) by simp
qed

text \<open>C14: A request of at least one byte that the arena accepts is served from a bucket whose
  blocks are at least as large as the request, a multiple of its alignment, and, above the
  smallest class, larger than the rounded request by less than one eighth; the requests that no
  bucket serves are exactly those above 1 MiB.\<close>
theorem size_class_sound:
  assumes "normalized_request_size sz align = n" and "n \<noteq> 0" and "sz \<noteq> 0"
  shows "unat sz \<le> unat n \<and> unat align dvd unat n \<and>
    (if unat n \<le> 2 ^ 20
     then unat (bucket_index_for n) < 121 \<and>
       unat n \<le> unat (block_bytes (bucket_index_for n)) \<and>
       unat align dvd unat (block_bytes (bucket_index_for n)) \<and>
       (unat (block_bytes (bucket_index_for n)) = 32 \<or>
        8 * unat (block_bytes (bucket_index_for n)) < 9 * unat n)
     else bucket_index_for n = kInvalidBucket)"
proof -
  from accepted_bounds [OF assms] obtain k where
    k: "unat align = 2 ^ k" "unat sz \<le> unat n" "2 ^ k dvd unat n" "2 ^ k \<le> unat n" by blast
  consider "unat n < 32" | "32 \<le> unat n" "unat n \<le> 2 ^ 20" | "2 ^ 20 < unat n" by linarith
  then show ?thesis
  proof cases
    case 1
    then have "(2::nat) ^ k < 2 ^ 5" using k(4) by simp
    then have "k < 5" by (rule power_less_imp_less_exp [rotated]) simp
    then have "(2::nat) ^ k dvd 2 ^ 5" by (intro le_imp_power_dvd) simp
    then show ?thesis using 1 k bucket_index_small [OF 1] block_bytes_0 by simp
  next
    case 2
    note S = block_bytes_spec [OF 2] and C = class_step_bounds [OF 2]
    have "2 ^ k dvd round_up (unat n) (class_step n)"
      unfolding class_step_def by (rule dvd_round_up_pow2 [OF k(3)])
    moreover have "unat n \<le> round_up (unat n) (class_step n)" "8 * round_up (unat n) (class_step n) < 9 * unat n"
      using round_up_bounds [OF C(1), of "unat n"] C(2) by linarith+
    ultimately show ?thesis using 2 S k by simp
  next
    case 3
    then show ?thesis using k bucket_index_large [OF 3] by simp
  qed
qed

lemma size_class_sound_witness:
  "normalized_request_size 1000 16 = 1008 \<and> 1008 \<le> unat (block_bytes (bucket_index_for 1008))"
proof -
  have "normalized_request_size 1000 16 = 1008" by code_simp
  with size_class_sound [OF this] show ?thesis by simp
qed

end
