(* ===== verification/Arena_Calls.thy ===== *)
theory Arena_Calls
  imports Arena_Heap
begin

text \<open>
  The calls of \<open>ArenaHeap\<close> (\<open>src/src/core/init.cpp\<close>): per bucket a shared free list, per thread a
  private cache of blocks. A free block holds the link to the next one in its first word; \<open>mem\<close>
  is the memory at the block starts. Each critical section of the code is one function, and the
  calls are composed of them; the second part lets the sections of any number of threads
  interleave. \<open>vm_commit\<close> of the platform layer is a parameter.
\<close>

section \<open>State\<close>

record bucket =
  free_list :: u64
  grow_by :: u32

record thread_cache =
  cache_epoch :: u64
  local_lists :: "u64 list"
  local_counts :: "u16 list"

record arena_heap =
  heap_base :: u64
  heap_size :: u64
  heap_used :: u64
  heap_committed :: u64
  heap_epoch :: u64
  vm_backed :: bool
  buckets :: "bucket list"
  mem :: "u64 \<Rightarrow> u64"
  caches :: "nat \<Rightarrow> thread_cache"

definition empty_buckets :: "bucket list" where
  "empty_buckets = replicate (unat kBucketCount) \<lparr>free_list = 0, grow_by = 0\<rparr>"

definition heap_reset :: "arena_heap \<Rightarrow> arena_heap" where
  "heap_reset h = h\<lparr>heap_epoch := heap_epoch h + 1, heap_base := 0, heap_size := 0, heap_used := 0,
     heap_committed := 0, vm_backed := False, buckets := empty_buckets\<rparr>"

definition heap_init :: "u64 \<Rightarrow> u64 \<Rightarrow> arena_heap \<Rightarrow> arena_heap" where
  "heap_init base sz h = (heap_reset h)\<lparr>heap_base := base, heap_size := sz, heap_used := 0,
     heap_committed := sz, vm_backed := False, buckets := empty_buckets\<rparr>"

definition heap_init_vm :: "u64 \<Rightarrow> u64 \<Rightarrow> u64 \<Rightarrow> arena_heap \<Rightarrow> arena_heap" where
  "heap_init_vm base reserved committed h = (heap_reset h)\<lparr>heap_base := base, heap_size := reserved,
     heap_used := 0, heap_committed := committed, vm_backed := True\<rparr>"

definition heap_enabled :: "arena_heap \<Rightarrow> bool" where
  "heap_enabled h \<longleftrightarrow> heap_base h \<noteq> 0 \<and> heap_size h \<noteq> 0"

definition heap_owns :: "arena_heap \<Rightarrow> u64 \<Rightarrow> bool" where
  "heap_owns h p \<longleftrightarrow> \<not> (p = 0 \<or> heap_base h = 0) \<and> p \<ge> heap_base h \<and> p < heap_base h + heap_size h"

text \<open>The cache of a thread, emptied when it was filled before the last reset.\<close>

definition tls_cache :: "nat \<Rightarrow> arena_heap \<Rightarrow> thread_cache" where
  "tls_cache t h =
     (let c = caches h t
      in if cache_epoch c \<noteq> heap_epoch h
         then \<lparr>cache_epoch = heap_epoch h, local_lists = replicate (unat kBucketCount) 0,
                local_counts = replicate (unat kBucketCount) 0\<rparr>
         else c)"

definition put_cache :: "nat \<Rightarrow> thread_cache \<Rightarrow> arena_heap \<Rightarrow> arena_heap" where
  "put_cache t c h = h\<lparr>caches := (caches h)(t := c)\<rparr>"

definition local_head :: "nat \<Rightarrow> u32 \<Rightarrow> arena_heap \<Rightarrow> u64" where
  "local_head t b h = local_lists (tls_cache t h) ! unat b"

definition local_count :: "nat \<Rightarrow> u32 \<Rightarrow> arena_heap \<Rightarrow> u16" where
  "local_count t b h = local_counts (tls_cache t h) ! unat b"

definition set_local :: "nat \<Rightarrow> u32 \<Rightarrow> u64 \<Rightarrow> u16 \<Rightarrow> arena_heap \<Rightarrow> arena_heap" where
  "set_local t b p n h =
     (let c = tls_cache t h
      in put_cache t (c\<lparr>local_lists := (local_lists c)[unat b := p],
           local_counts := (local_counts c)[unat b := n]\<rparr>) h)"

definition bucket_at :: "arena_heap \<Rightarrow> u32 \<Rightarrow> bucket" where
  "bucket_at h b = buckets h ! unat b"

definition set_free_list :: "u32 \<Rightarrow> u64 \<Rightarrow> arena_heap \<Rightarrow> arena_heap" where
  "set_free_list b p h = h\<lparr>buckets := (buckets h)[unat b := (bucket_at h b)\<lparr>free_list := p\<rparr>]\<rparr>"

section \<open>Critical sections\<close>

text \<open>Both loops that move nodes between two lists: at most the given number of nodes.\<close>

fun move_nodes :: "nat \<Rightarrow> u64 \<Rightarrow> u64 \<Rightarrow> (u64 \<Rightarrow> u64) \<Rightarrow> nat \<times> u64 \<times> u64 \<times> (u64 \<Rightarrow> u64)" where
  "move_nodes 0 src dst m = (0, src, dst, m)"
| "move_nodes (Suc k) src dst m =
     (if src = 0 then (0, src, dst, m)
      else let (n, src', dst', m') = move_nodes k (m src) src (m(src := dst))
           in (Suc n, src', dst', m'))"

text \<open>The fast path of \<open>allocate\<close>.\<close>

definition pop_local :: "nat \<Rightarrow> u32 \<Rightarrow> arena_heap \<Rightarrow> u64 \<times> arena_heap" where
  "pop_local t b h =
     (let p = local_head t b h in (p, set_local t b (mem h p) (local_count t b h - 1) h))"

text \<open>\<open>allocate_slow\<close>: under the bucket lock, move blocks to the cache.\<close>

definition refill :: "nat \<Rightarrow> u32 \<Rightarrow> arena_heap \<Rightarrow> nat \<times> arena_heap" where
  "refill t b h =
     (let (moved, node, head, m) =
        move_nodes kLocalRefill (free_list (bucket_at h b)) (local_head t b h) (mem h)
      in (moved, set_local t b head (local_count t b h) (set_free_list b node (h\<lparr>mem := m\<rparr>))))"

definition finish_refill :: "nat \<Rightarrow> nat \<Rightarrow> u32 \<Rightarrow> arena_heap \<Rightarrow> u64 \<times> arena_heap" where
  "finish_refill moved t b h =
     (let p = local_head t b h in (p, set_local t b (mem h p) (of_nat (moved - 1)) h))"

text \<open>\<open>deallocate\<close> and \<open>deallocate_slow\<close>.\<close>

definition push_local :: "nat \<Rightarrow> u32 \<Rightarrow> u64 \<Rightarrow> arena_heap \<Rightarrow> arena_heap" where
  "push_local t b p h =
     set_local t b p (local_count t b h + 1) (h\<lparr>mem := (mem h)(p := local_head t b h)\<rparr>)"

definition flush_local :: "nat \<Rightarrow> u32 \<Rightarrow> arena_heap \<Rightarrow> arena_heap" where
  "flush_local t b h =
     (let (moved, head, node, m) =
        move_nodes kLocalFlush (local_head t b h) (free_list (bucket_at h b)) (mem h)
      in set_local t b head (local_count t b h - of_nat moved) (set_free_list b node (h\<lparr>mem := m\<rparr>)))"

text \<open>\<open>grow_bucket\<close>: how far to commit, and the carving of a chunk into blocks.\<close>

function commit_target :: "u64 \<Rightarrow> u64 \<Rightarrow> u64 \<Rightarrow> u64" where
  "commit_target sz required target =
     (if target < required
      then let nxt = (if target \<le> sz div 2 then target * 2 else sz)
           in if nxt \<le> target then target else commit_target sz required nxt
      else target)"
  by pat_completeness auto
termination
proof (relation "measure (\<lambda>(_, _, target). 2 ^ 64 - unat target)", goal_cases)
  case (2 sz required target nxt)
  then have "unat target < unat nxt" by (simp add: word_less_nat_alt not_le)
  moreover have "unat nxt < 2 ^ LENGTH(64)" by (rule unsigned_less)
  ultimately show ?case by simp
qed simp

declare commit_target.simps [simp del]

fun carve :: "nat \<Rightarrow> u64 \<Rightarrow> u64 \<Rightarrow> u64 \<Rightarrow> (u64 \<Rightarrow> u64) \<Rightarrow> u64 \<times> (u64 \<Rightarrow> u64)" where
  "carve 0 node bsize free m = (free, m)"
| "carve (Suc k) node bsize free m = carve k (node + bsize) bsize node (m(node := free))"

definition grow_count :: "u32 \<Rightarrow> u32" where
  "grow_count g = (if g = 0 then 32 else if g < 1024 then g * 2 else 1024)"

definition committed_after :: "(u64 \<Rightarrow> u64 \<Rightarrow> bool) \<Rightarrow> u64 \<Rightarrow> arena_heap \<Rightarrow> u64" where
  "committed_after vm required h =
     (let committed = heap_committed h
      in if required > committed \<and> vm_backed h
         then let target = commit_target (heap_size h) required committed
              in if target \<ge> required \<and> vm (heap_base h + committed) (target - committed)
                 then target else committed
         else committed)"

definition grow_bucket :: "(u64 \<Rightarrow> u64 \<Rightarrow> bool) \<Rightarrow> u32 \<Rightarrow> arena_heap \<Rightarrow> bool \<times> arena_heap" where
  "grow_bucket vm b h =
     (if b \<ge> kBucketCount then (False, h)
      else
        let bsize = block_bytes b
        in if bsize = 0 then (False, h)
           else if free_list (bucket_at h b) \<noteq> 0 then (True, h)
           else
             let cursor = align_up (heap_base h + heap_used h) kMaxAlign;
                 off = cursor - heap_base h;
                 available = (if off < heap_size h then heap_size h - off else 0);
                 max_count = available div bsize;
                 count0 = grow_count (grow_by (bucket_at h b));
                 count = (if max_count < ucast count0 then ucast max_count else count0)
             in if count = 0 then (False, h)
                else
                  let required = off + ucast count * bsize;
                      committed = committed_after vm required h
                  in if required \<le> committed
                     then let (free, m) = carve (unat count) cursor bsize (free_list (bucket_at h b)) (mem h)
                          in (True, h\<lparr>heap_committed := committed, heap_used := required, mem := m,
                                buckets := (buckets h)[unat b := \<lparr>free_list = free, grow_by = count\<rparr>]\<rparr>)
                     else (False, h\<lparr>heap_committed := committed\<rparr>))"

section \<open>The calls\<close>

definition serving_bucket :: "u64 \<Rightarrow> u64 \<Rightarrow> arena_heap \<Rightarrow> u32 option" where
  "serving_bucket sz align h =
     (if heap_base h = 0 \<or> heap_size h = 0 \<or> sz = 0 then None
      else
        let request = normalized_request_size sz align
        in if request = 0 then None
           else let b = bucket_index_for request in if b = kInvalidBucket then None else Some b)"

definition allocate_slow :: "(u64 \<Rightarrow> u64 \<Rightarrow> bool) \<Rightarrow> nat \<Rightarrow> u32 \<Rightarrow> arena_heap \<Rightarrow> u64 \<times> arena_heap" where
  "allocate_slow vm t b h =
     (let (moved, h1) = refill t b h
      in if moved \<noteq> 0 then finish_refill moved t b h1
         else
           let (ok, h2) = grow_bucket vm b h1
           in if \<not> ok then (0, h2)
              else let (moved2, h3) = refill t b h2
                   in if moved2 = 0 then (0, h3) else finish_refill moved2 t b h3)"

definition allocate :: "(u64 \<Rightarrow> u64 \<Rightarrow> bool) \<Rightarrow> nat \<Rightarrow> u64 \<Rightarrow> u64 \<Rightarrow> arena_heap \<Rightarrow> u64 \<times> arena_heap" where
  "allocate vm t sz align h =
     (case serving_bucket sz align h of
        None \<Rightarrow> (0, h)
      | Some b \<Rightarrow> if local_head t b h \<noteq> 0 then pop_local t b h else allocate_slow vm t b h)"

definition deallocate :: "nat \<Rightarrow> u64 \<Rightarrow> u64 \<Rightarrow> u64 \<Rightarrow> arena_heap \<Rightarrow> arena_heap" where
  "deallocate t p sz align h =
     (if p = 0 \<or> heap_base h = 0 then h
      else
        let request = normalized_request_size sz align
        in if request = 0 then h
           else
             let b = bucket_index_for request
             in if b = kInvalidBucket then h
                else let h1 = push_local t b p h
                     in if local_count t b h1 < kLocalMax then h1 else flush_local t b h1)"

section \<open>Lists of free blocks\<close>

fun chain :: "(u64 \<Rightarrow> u64) \<Rightarrow> u64 \<Rightarrow> u64 list \<Rightarrow> bool" where
  "chain m p [] \<longleftrightarrow> p = 0"
| "chain m p (x # xs) \<longleftrightarrow> p = x \<and> x \<noteq> 0 \<and> chain m (m x) xs"

lemma chain_cong: "(\<And>x. x \<in> set xs \<Longrightarrow> m x = m' x) \<Longrightarrow> chain m p xs = chain m' p xs"
  by (induction xs arbitrary: p) auto

lemma chain_upd [simp]: "a \<notin> set xs \<Longrightarrow> chain (m(a := v)) p xs = chain m p xs"
  by (rule chain_cong) auto

lemma chain_0 [simp]: "chain m 0 xs \<longleftrightarrow> xs = []"
  by (cases xs) auto

lemma chain_head: "chain m p xs \<Longrightarrow> p \<noteq> 0 \<Longrightarrow> \<exists>ys. xs = p # ys \<and> chain m (m p) ys"
  by (cases xs) auto

lemma move_nodes_spec:
  assumes "chain m src xs" "chain m dst ys" "distinct xs" "set xs \<inter> set ys = {}"
    and "move_nodes k src dst m = (n, src', dst', m')"
  shows "n = min k (length xs) \<and> chain m' src' (drop n xs) \<and> chain m' dst' (rev (take n xs) @ ys) \<and>
    (\<forall>a. a \<notin> set xs \<longrightarrow> m' a = m a)"
  using assms
proof (induction k arbitrary: src dst m xs ys n src' dst' m')
  case (Suc k)
  show ?case
  proof (cases "src = 0")
    case False
    then obtain zs where z: "xs = src # zs" "chain m (m src) zs"
      using chain_head [OF Suc.prems(1)] by blast
    obtain n1 where mv: "move_nodes k (m src) src (m(src := dst)) = (n1, src', dst', m')" "n = Suc n1"
      using Suc.prems(5) False by (auto split: prod.splits)
    have nin: "src \<notin> set zs" "src \<notin> set ys" using Suc.prems z(1) by auto
    have "chain (m(src := dst)) src (src # ys)" using False nin Suc.prems(2) by simp
    moreover have "chain (m(src := dst)) (m src) zs" using nin z(2) by simp
    moreover have "distinct zs" "set zs \<inter> set (src # ys) = {}" using Suc.prems z(1) by auto
    ultimately have "n1 = min k (length zs) \<and> chain m' src' (drop n1 zs) \<and>
        chain m' dst' (rev (take n1 zs) @ src # ys) \<and> (\<forall>a. a \<notin> set zs \<longrightarrow> m' a = (m(src := dst)) a)"
      using Suc.IH mv(1) by blast
    then show ?thesis using z(1) mv(2) by auto
  qed (use Suc.prems in auto)
qed auto

section \<open>Carving\<close>

fun carved :: "nat \<Rightarrow> u64 \<Rightarrow> u64 \<Rightarrow> u64 list" where
  "carved 0 node bsize = []"
| "carved (Suc k) node bsize = node # carved k (node + bsize) bsize"

lemma carved_set:
  assumes "unat p + k * unat bs < 2 ^ 64"
  shows "set (carved k p bs) = {a. \<exists>i<k. unat a = unat p + i * unat bs}"
  using assms
proof (induction k arbitrary: p)
  case (Suc k)
  have n: "unat (p + bs) = unat p + unat bs" using Suc.prems by (simp add: unat_word_ariths(1))
  have "(\<exists>i<Suc k. unat a = unat p + i * unat bs) \<longleftrightarrow>
      a = p \<or> (\<exists>i<k. unat a = unat p + unat bs + i * unat bs)" for a
    by (auto simp: less_Suc_eq_0_disj algebra_simps intro: unat_eqI)
  then show ?case using Suc.IH [of "p + bs"] Suc.prems n by auto
qed simp

lemma carved_ge: "unat p + k * unat bs < 2 ^ 64 \<Longrightarrow> a \<in> set (carved k p bs) \<Longrightarrow> unat p \<le> unat a"
  by (auto simp: carved_set)

lemma distinct_carved:
  assumes "unat p + k * unat bs < 2 ^ 64" "bs \<noteq> 0"
  shows "distinct (carved k p bs)"
  using assms
proof (induction k arbitrary: p)
  case (Suc k)
  have n: "unat (p + bs) = unat p + unat bs" using Suc.prems by (simp add: unat_word_ariths(1))
  have "0 < unat bs" using Suc.prems(2) by (simp add: unat_gt_0)
  then have "p \<notin> set (carved k (p + bs) bs)" using carved_ge [of "p + bs" k bs p] n Suc.prems(1) by auto
  then show ?case using Suc.IH [of "p + bs"] Suc.prems n by simp
qed simp

lemma carve_spec:
  assumes "chain m free xs" "distinct (carved k p bs)" "0 \<notin> set (carved k p bs)"
    "set xs \<inter> set (carved k p bs) = {}" "carve k p bs free m = (free', m')"
  shows "chain m' free' (rev (carved k p bs) @ xs) \<and> (\<forall>a. a \<notin> set (carved k p bs) \<longrightarrow> m' a = m a)"
  using assms
proof (induction k arbitrary: p free m xs)
  case (Suc k)
  have "chain (m(p := free)) p (p # xs)" using Suc.prems(1,3,4) by simp
  moreover have "set (p # xs) \<inter> set (carved k (p + bs) bs) = {}" using Suc.prems(2,4) by auto
  moreover have "distinct (carved k (p + bs) bs)" "0 \<notin> set (carved k (p + bs) bs)"
    "carve k (p + bs) bs p (m(p := free)) = (free', m')" using Suc.prems(2,3,5) by auto
  ultimately have "chain m' free' (rev (carved k (p + bs) bs) @ p # xs) \<and>
      (\<forall>a. a \<notin> set (carved k (p + bs) bs) \<longrightarrow> m' a = (m(p := free)) a)"
    by (intro Suc.IH)
  then show ?case by simp
qed simp

section \<open>Invariant\<close>

text \<open>Where a carved block is: in the list of its bucket, in the cache of a thread, or handed out.\<close>

datatype place = In_Bucket u32 | In_Cache nat u32 | Owned u32

fun bucket_of :: "place \<Rightarrow> u32" where
  "bucket_of (In_Bucket b) = b"
| "bucket_of (In_Cache t b) = b"
| "bucket_of (Owned b) = b"

definition holds :: "arena_heap \<Rightarrow> u64 \<Rightarrow> u64 set \<Rightarrow> nat \<Rightarrow> bool" where
  "holds h p A n \<longleftrightarrow> (\<exists>xs. chain (mem h) p xs \<and> distinct xs \<and> set xs = A \<and> length xs = n)"

definition heap_room :: "arena_heap \<Rightarrow> bool" where
  "heap_room h \<longleftrightarrow> heap_base h \<noteq> 0 \<and> unat (heap_base h) + unat (heap_size h) + 64 < 2 ^ 64 \<and>
     heap_used h \<le> heap_committed h \<and> heap_committed h \<le> heap_size h \<and> length (buckets h) = 128"

definition block_ok :: "arena_heap \<Rightarrow> u32 \<Rightarrow> u64 \<Rightarrow> bool" where
  "block_ok h b a \<longleftrightarrow> unat b < 128 \<and> block_bytes b \<noteq> 0 \<and> unat (heap_base h) \<le> unat a \<and>
     unat a + unat (block_bytes b) \<le> unat (heap_base h) + unat (heap_used h) \<and>
     (\<forall>k\<le>6. 2 ^ k dvd unat (block_bytes b) \<longrightarrow> 2 ^ k dvd unat a)"

definition apart :: "u64 \<Rightarrow> nat \<Rightarrow> u64 \<Rightarrow> nat \<Rightarrow> bool" where
  "apart a n a' n' \<longleftrightarrow> unat a + n \<le> unat a' \<or> unat a' + n' \<le> unat a"

definition heap_inv :: "(u64 \<rightharpoonup> place) \<Rightarrow> arena_heap \<Rightarrow> bool" where
  "heap_inv plc h \<longleftrightarrow> heap_room h \<and>
     (\<forall>b. unat b < 128 \<longrightarrow>
        (\<exists>n. holds h (free_list (bucket_at h b)) {a. plc a = Some (In_Bucket b)} n)) \<and>
     (\<forall>t. length (local_lists (tls_cache t h)) = 128 \<and> length (local_counts (tls_cache t h)) = 128) \<and>
     (\<forall>t b. unat b < 128 \<longrightarrow> unat (local_count t b h) \<le> 64 \<and>
        holds h (local_head t b h) {a. plc a = Some (In_Cache t b)} (unat (local_count t b h))) \<and>
     (\<forall>a pl. plc a = Some pl \<longrightarrow> block_ok h (bucket_of pl) a) \<and>
     (\<forall>a pl a' pl'. plc a = Some pl \<longrightarrow> plc a' = Some pl' \<longrightarrow> a \<noteq> a' \<longrightarrow>
        apart a (unat (block_bytes (bucket_of pl))) a' (unat (block_bytes (bucket_of pl'))))"

lemma heap_invD:
  assumes "heap_inv plc h"
  shows "heap_room h"
    "unat b < 128 \<Longrightarrow> \<exists>n. holds h (free_list (bucket_at h b)) {a. plc a = Some (In_Bucket b)} n"
    "length (local_lists (tls_cache t h)) = 128" "length (local_counts (tls_cache t h)) = 128"
    "unat b < 128 \<Longrightarrow> unat (local_count t b h) \<le> 64"
    "unat b < 128 \<Longrightarrow> holds h (local_head t b h) {a. plc a = Some (In_Cache t b)} (unat (local_count t b h))"
    "plc a = Some pl \<Longrightarrow> block_ok h (bucket_of pl) a"
    "plc a = Some pl \<Longrightarrow> plc a' = Some pl' \<Longrightarrow> a \<noteq> a' \<Longrightarrow>
       apart a (unat (block_bytes (bucket_of pl))) a' (unat (block_bytes (bucket_of pl')))"
  using assms unfolding heap_inv_def by blast+

lemma tls_simps [simp]:
  "tls_cache t (set_free_list b p h) = tls_cache t h" "tls_cache t (h\<lparr>mem := m\<rparr>) = tls_cache t h"
  "bucket_at (h\<lparr>mem := m\<rparr>) b = bucket_at h b" "bucket_at (put_cache t c h) b = bucket_at h b"
  "local_head t b' (set_free_list b p h) = local_head t b' h"
  "local_count t b' (set_free_list b p h) = local_count t b' h"
  "local_head t b' (h\<lparr>mem := m\<rparr>) = local_head t b' h"
  "local_count t b' (h\<lparr>mem := m\<rparr>) = local_count t b' h"
  by (simp_all add: tls_cache_def set_free_list_def bucket_at_def put_cache_def local_head_def local_count_def Let_def)

lemma set_local_simps [simp]:
  "mem (set_local t b p n h) = mem h" "heap_base (set_local t b p n h) = heap_base h"
  "heap_used (set_local t b p n h) = heap_used h" "heap_size (set_local t b p n h) = heap_size h"
  "heap_committed (set_local t b p n h) = heap_committed h" "buckets (set_local t b p n h) = buckets h"
  "bucket_at (set_local t b p n h) = bucket_at h" "heap_room (set_local t b p n h) = heap_room h"
  "block_ok (set_local t b p n h) = block_ok h" "vm_backed (set_local t b p n h) = vm_backed h"
  by (simp_all add: set_local_def put_cache_def Let_def bucket_at_def [abs_def] heap_room_def block_ok_def [abs_def])

lemma set_free_simps [simp]:
  "mem (set_free_list b p h) = mem h" "heap_base (set_free_list b p h) = heap_base h"
  "heap_used (set_free_list b p h) = heap_used h" "heap_size (set_free_list b p h) = heap_size h"
  "heap_committed (set_free_list b p h) = heap_committed h" "heap_room (set_free_list b p h) = heap_room h"
  "block_ok (set_free_list b p h) = block_ok h" "vm_backed (set_free_list b p h) = vm_backed h"
  by (simp_all add: set_free_list_def heap_room_def block_ok_def [abs_def])

lemma mem_update_simps [simp]:
  "heap_room (h\<lparr>mem := m\<rparr>) = heap_room h" "block_ok (h\<lparr>mem := m\<rparr>) = block_ok h"
  by (simp_all add: heap_room_def block_ok_def [abs_def])

lemma tls_set_local:
  "tls_cache u (set_local t b p n h) =
     (if u = t then (tls_cache t h)\<lparr>local_lists := (local_lists (tls_cache t h))[unat b := p],
        local_counts := (local_counts (tls_cache t h))[unat b := n]\<rparr> else tls_cache u h)"
  by (simp add: set_local_def put_cache_def tls_cache_def Let_def)

lemma local_set_local:
  assumes "length (local_lists (tls_cache t h)) = 128" "length (local_counts (tls_cache t h)) = 128" "unat b < 128"
  shows "local_head u b' (set_local t b p n h) = (if u = t \<and> b' = b then p else local_head u b' h)"
    "local_count u b' (set_local t b p n h) = (if u = t \<and> b' = b then n else local_count u b' h)"
  using assms by (auto simp: local_head_def local_count_def tls_set_local nth_list_update dest: unsigned_word_eqI)

lemma bucket_at_set_free:
  assumes "length (buckets h) = 128" "unat b < 128"
  shows "bucket_at (set_free_list b p h) b' = (if b' = b then (bucket_at h b)\<lparr>free_list := p\<rparr> else bucket_at h b')"
  using assms by (auto simp: bucket_at_def set_free_list_def nth_list_update dest: unsigned_word_eqI)

lemma holds_cong:
  "holds h p A n \<Longrightarrow> (\<And>a. a \<in> A \<Longrightarrow> mem h' a = mem h a) \<Longrightarrow> holds h' p A n"
  unfolding holds_def by (metis chain_cong)

lemma heap_room_buckets: "heap_room h \<Longrightarrow> length (buckets h) = 128"
  by (simp add: heap_room_def)

text \<open>A section that touches one bucket and the cache of one thread for it.\<close>

lemma heap_inv_move:
  assumes inv: "heap_inv plc h" and b: "unat b < 128"
    and h': "h' = set_local t b p n (set_free_list b q (h\<lparr>mem := m\<rparr>))"
    and bucket: "holds h' q {a. plc' a = Some (In_Bucket b)} k"
    and cache: "holds h' p {a. plc' a = Some (In_Cache t b)} (unat n)" "unat n \<le> 64"
    and same_mem: "\<And>a pl. plc a = Some pl \<Longrightarrow> pl \<noteq> In_Bucket b \<Longrightarrow> pl \<noteq> In_Cache t b \<Longrightarrow>
      (\<And>c. pl \<noteq> Owned c) \<Longrightarrow> m a = mem h a"
    and same_bucket: "\<And>a pl'. plc' a = Some pl' \<Longrightarrow> \<exists>pl. plc a = Some pl \<and> bucket_of pl = bucket_of pl'"
    and same_place: "\<And>a pl. pl \<noteq> In_Bucket b \<Longrightarrow> pl \<noteq> In_Cache t b \<Longrightarrow> (\<And>c. pl \<noteq> Owned c) \<Longrightarrow>
      plc' a = Some pl \<longleftrightarrow> plc a = Some pl"
  shows "heap_inv plc' h'"
  unfolding heap_inv_def
proof (intro conjI allI impI)
  note I = heap_invD [OF inv]
  have len: "length (buckets (h\<lparr>mem := m\<rparr>)) = 128" using heap_room_buckets [OF I(1)] by simp
  have ll: "length (local_lists (tls_cache t (set_free_list b q (h\<lparr>mem := m\<rparr>)))) = 128"
    "length (local_counts (tls_cache t (set_free_list b q (h\<lparr>mem := m\<rparr>)))) = 128" using I(3,4) by simp_all
  note L = local_set_local [OF ll b]
  have mem: "mem h' = m" by (simp add: h')
  show "heap_room h'" using I(1) by (simp add: h')
  show "\<exists>n. holds h' (free_list (bucket_at h' c)) {a. plc' a = Some (In_Bucket c)} n" if c: "unat c < 128" for c
  proof (cases "c = b")
    case True
    then show ?thesis using bucket by (auto simp: h' bucket_at_set_free [OF len b])
  next
    case False
    then have "{a. plc' a = Some (In_Bucket c)} = {a. plc a = Some (In_Bucket c)}"
      using same_place [of "In_Bucket c"] by auto
    moreover obtain n where "holds h (free_list (bucket_at h c)) {a. plc a = Some (In_Bucket c)} n" using I(2) [OF c] ..
    moreover have "free_list (bucket_at h' c) = free_list (bucket_at h c)"
      using False by (simp add: h' bucket_at_set_free [OF len b])
    ultimately show ?thesis using same_mem [of _ "In_Bucket c"] False mem
      by (metis (mono_tags, lifting) holds_cong mem_Collect_eq place.distinct(1,3) place.inject(1))
  qed
  show "length (local_lists (tls_cache u h')) = 128" "length (local_counts (tls_cache u h')) = 128" for u
    using I(3,4) by (simp_all add: h' tls_set_local)
  show "unat (local_count u c h') \<le> 64" if "unat c < 128" for u c
    using that I(5) cache(2) by (simp add: h' L)
  show "holds h' (local_head u c h') {a. plc' a = Some (In_Cache u c)} (unat (local_count u c h'))" if c: "unat c < 128" for u c
  proof (cases "u = t \<and> c = b")
    case True
    then show ?thesis using cache(1) by (simp add: h' L)
  next
    case False
    then have "{a. plc' a = Some (In_Cache u c)} = {a. plc a = Some (In_Cache u c)}"
      using same_place [of "In_Cache u c"] by auto
    moreover have "local_head u c h' = local_head u c h" "local_count u c h' = local_count u c h"
      using False by (auto simp: h' L)
    moreover have "holds h' (local_head u c h) {a. plc a = Some (In_Cache u c)} (unat (local_count u c h))"
    proof (rule holds_cong [OF I(6) [OF c]])
      fix a assume "a \<in> {a. plc a = Some (In_Cache u c)}"
      then have "m a = mem h a" using False by (intro same_mem [of a "In_Cache u c"]) auto
      then show "mem h' a = mem h a" by (simp add: mem)
    qed
    ultimately show ?thesis by simp
  qed
  show "block_ok h' (bucket_of pl) a" if a: "plc' a = Some pl" for a pl
  proof -
    obtain pl0 where "plc a = Some pl0" "bucket_of pl0 = bucket_of pl" using same_bucket [OF a] by blast
    then show ?thesis using I(7) [of a pl0] by (simp add: h')
  qed
  show "apart a (unat (block_bytes (bucket_of pl))) a' (unat (block_bytes (bucket_of pl')))"
    if a: "plc' a = Some pl" and a': "plc' a' = Some pl'" and ne: "a \<noteq> a'" for a pl a' pl'
    using same_bucket [OF a] same_bucket [OF a'] I(8) ne by metis
qed

lemma set_free_same [simp]:
  "length (buckets h) = 128 \<Longrightarrow> unat b < 128 \<Longrightarrow> set_free_list b (free_list (bucket_at h b)) h = h"
  by (simp add: set_free_list_def bucket_at_def)
lemma set_local_twice [simp]: "set_local t b p n (set_local t b p' n' h) = set_local t b p n h"
  by (simp add: set_local_def put_cache_def tls_cache_def Let_def)

lemma holds_0: "holds h 0 A n \<longleftrightarrow> A = {} \<and> n = 0"
  by (auto simp: holds_def)

lemma unat_of_nat_le64: "n \<le> 64 \<Longrightarrow> unat (of_nat n :: u16) = n"
  unfolding unat_of_nat by simp

lemma unat_pred16: "n \<noteq> 0 \<Longrightarrow> unat ((n :: u16) - 1) = unat n - 1"
  by (rule unat_minus_one)

definition same_owned :: "(u64 \<rightharpoonup> place) \<Rightarrow> (u64 \<rightharpoonup> place) \<Rightarrow> bool" where
  "same_owned plc plc' \<longleftrightarrow> (\<forall>a b. plc' a = Some (Owned b) \<longleftrightarrow> plc a = Some (Owned b))"

lemma pop_local_inv:
  assumes inv: "heap_inv plc h" and b: "unat b < 128" and hd: "local_head t b h \<noteq> 0"
    and pop: "pop_local t b h = (p, h')"
  shows "plc p = Some (In_Cache t b) \<and> heap_inv (plc(p \<mapsto> Owned b)) h' \<and>
    local_count t b h' = local_count t b h - 1"
proof -
  note I = heap_invD [OF inv]
  obtain xs where x: "chain (mem h) (local_head t b h) xs" "distinct xs"
    "set xs = {a. plc a = Some (In_Cache t b)}" "length xs = unat (local_count t b h)"
    using I(6) [OF b, of t] by (auto simp: holds_def)
  obtain ys where y: "xs = local_head t b h # ys" "chain (mem h) (mem h (local_head t b h)) ys"
    using chain_head [OF x(1) hd] by blast
  have p: "p = local_head t b h" and h': "h' = set_local t b (mem h p) (local_count t b h - 1) h"
    using pop by (auto simp: pop_local_def Let_def)
  have pc: "plc p = Some (In_Cache t b)" using x(3) y(1) p by auto
  have nz: "local_count t b h \<noteq> 0" using x(4) y(1) by (metis length_Cons nat.distinct(1) unat_0)
  have ys: "set ys = {a. a \<noteq> p \<and> plc a = Some (In_Cache t b)}" using x(2,3) y(1) p by auto
  obtain k where k: "holds h (free_list (bucket_at h b)) {a. plc a = Some (In_Bucket b)} k" using I(2) [OF b] ..
  have len: "length (buckets h) = 128" by (rule heap_room_buckets [OF I(1)])
  have "heap_inv (plc(p \<mapsto> Owned b)) h'"
  proof (rule heap_inv_move [OF inv b])
    show "h' = set_local t b (mem h p) (local_count t b h - 1)
        (set_free_list b (free_list (bucket_at h b)) (h\<lparr>mem := mem h\<rparr>))" using h' len b by simp
    have "{a. (plc(p \<mapsto> Owned b)) a = Some (In_Bucket b)} = {a. plc a = Some (In_Bucket b)}" using pc by auto
    then show "holds h' (free_list (bucket_at h b)) {a. (plc(p \<mapsto> Owned b)) a = Some (In_Bucket b)} k"
      using k h' by (simp add: holds_def)
    have "{a. (plc(p \<mapsto> Owned b)) a = Some (In_Cache t b)} = set ys" using ys by auto
    then show "holds h' (mem h p) {a. (plc(p \<mapsto> Owned b)) a = Some (In_Cache t b)} (unat (local_count t b h - 1))"
      using y x(2,4) p h' nz by (auto simp: holds_def unat_pred16)
    show "unat (local_count t b h - 1) \<le> 64" using I(5) [OF b, of t] nz by (simp add: unat_pred16)
  qed (use pc in \<open>auto split: if_splits\<close>)
  moreover have "local_count t b h' = local_count t b h - 1" using I(3,4) b by (simp add: h' local_set_local)
  ultimately show ?thesis using pc by blast
qed

lemma refill_inv:
  assumes inv: "heap_inv plc h" and b: "unat b < 128" and hd: "local_head t b h = 0"
    and rf: "refill t b h = (moved, h1)"
  shows "(moved = 0 \<longrightarrow> heap_inv plc h1 \<and> local_head t b h1 = 0) \<and>
    (moved \<noteq> 0 \<longrightarrow> (\<forall>p h2. finish_refill moved t b h1 = (p, h2) \<longrightarrow>
       (\<exists>plc'. plc p = Some (In_Bucket b) \<and> same_owned plc plc' \<and> heap_inv (plc'(p \<mapsto> Owned b)) h2 \<and>
          unat (local_count t b h2) < 64)))"
proof -
  note I = heap_invD [OF inv]
  have len: "length (buckets h) = 128" by (rule heap_room_buckets [OF I(1)])
  have no_local: "\<And>a. plc a \<noteq> Some (In_Cache t b)" and cnt: "local_count t b h = 0"
    using I(6) [OF b, of t] hd by (auto simp: holds_0 unat_eq_zero)
  obtain xs where x: "chain (mem h) (free_list (bucket_at h b)) xs" "distinct xs"
    "set xs = {a. plc a = Some (In_Bucket b)}" using I(2) [OF b] by (auto simp: holds_def)
  obtain node head m where mv: "move_nodes kLocalRefill (free_list (bucket_at h b)) 0 (mem h) = (moved, node, head, m)"
    and h1: "h1 = set_local t b head 0 (set_free_list b node (h\<lparr>mem := m\<rparr>))"
    using rf hd cnt by (auto simp: refill_def split: prod.splits)
  have M: "moved = min kLocalRefill (length xs)" "chain m node (drop moved xs)" "chain m head (rev (take moved xs))"
    "\<And>a. a \<notin> set xs \<Longrightarrow> m a = mem h a"
    using move_nodes_spec [OF x(1) _ x(2) _ mv, of "[]"] by auto
  have le: "moved \<le> 32" using M(1) by (simp add: kLocalRefill_def)
  have dis: "set (take moved xs) \<inter> set (drop moved xs) = {}" using x(2) by (simp add: set_take_disj_set_drop_if_distinct)
  have un: "set (take moved xs) \<union> set (drop moved xs) = set xs" by (metis append_take_drop_id set_append)
  have ml: "length (take moved xs) = moved" using M(1) by simp
  have "heap_inv plc h1 \<and> local_head t b h1 = 0" if z: "moved = 0"
  proof
    have "head = 0" using M(3) z by simp
    then show "local_head t b h1 = 0" using I(3,4) b by (simp add: h1 local_set_local)
    show "heap_inv plc h1"
    proof (rule heap_inv_move [OF inv b h1])
      show "holds h1 node {a. plc a = Some (In_Bucket b)} (length xs)" using M(2) x(2,3) z by (auto simp: holds_def h1)
      show "holds h1 head {a. plc a = Some (In_Cache t b)} (unat 0)" using M(3) z no_local by (auto simp: holds_def h1)
      show "m a = mem h a" if "plc a = Some pl" "pl \<noteq> In_Bucket b" for a pl using that M(4) x(3) by auto
    qed auto
  qed
  moreover have "\<exists>plc'. plc p = Some (In_Bucket b) \<and> same_owned plc plc' \<and> heap_inv (plc'(p \<mapsto> Owned b)) h2 \<and>
      unat (local_count t b h2) < 64"
    if nz: "moved \<noteq> 0" and f: "finish_refill moved t b h1 = (p, h2)" for p h2
  proof -
    have lh: "local_head t b h1 = head" using I(3,4) b by (simp add: h1 local_set_local)
    have p: "p = head" and h2: "h2 = set_local t b (m head) (of_nat (moved - 1)) (set_free_list b node (h\<lparr>mem := m\<rparr>))"
      using f lh by (auto simp: finish_refill_def Let_def h1)
    have "rev (take moved xs) \<noteq> []" using ml nz by auto
    then obtain ys where ys: "rev (take moved xs) = head # ys" "chain m (m head) ys" "head \<noteq> 0"
      using M(3) by (cases "rev (take moved xs)") auto
    have set_ys: "set (take moved xs) = insert head (set ys)" using ys(1) by (metis list.set(2) set_rev)
    have dys: "distinct (head # ys)" using x(2) ys(1) by (metis distinct_rev distinct_take)
    have lys: "length ys = moved - 1" using ys(1) ml by (metis diff_Suc_1 length_Cons length_rev)
    have pb: "plc p = Some (In_Bucket b)" using set_ys un x(3) p by auto
    have ysb: "plc a = Some (In_Bucket b)" if "a \<in> set ys" for a using that set_ys un x(3) by blast
    define plc' where "plc' = (\<lambda>a. if a \<in> set ys then Some (In_Cache t b) else plc a)"
    have "heap_inv (plc'(p \<mapsto> Owned b)) h2"
    proof (rule heap_inv_move [OF inv b h2])
      have "{a. (plc'(p \<mapsto> Owned b)) a = Some (In_Bucket b)} = set (drop moved xs)"
        using dis un set_ys x(3) p by (auto simp: plc'_def split: if_splits)
      then show "holds h2 node {a. (plc'(p \<mapsto> Owned b)) a = Some (In_Bucket b)} (length (drop moved xs))"
        using M(2) x(2) by (auto simp: holds_def h2)
      have "{a. (plc'(p \<mapsto> Owned b)) a = Some (In_Cache t b)} = set ys"
        using dys no_local p by (auto simp: plc'_def)
      moreover have "unat (of_nat (moved - 1) :: u16) = moved - 1" using le by (intro unat_of_nat_le64) simp
      ultimately show "holds h2 (m head) {a. (plc'(p \<mapsto> Owned b)) a = Some (In_Cache t b)} (unat (of_nat (moved - 1) :: u16))"
        using ys(2) dys lys by (auto simp: holds_def h2)
      show "unat (of_nat (moved - 1) :: u16) \<le> 64" using le by (subst unat_of_nat_le64) simp_all
      show "m a = mem h a" if "plc a = Some pl" "pl \<noteq> In_Bucket b" for a pl using that M(4) x(3) by auto
      show "\<exists>pl. plc a = Some pl \<and> bucket_of pl = bucket_of pl'" if "(plc'(p \<mapsto> Owned b)) a = Some pl'" for a pl'
        using that pb set_ys un x(3) by (auto simp: plc'_def split: if_splits)
      show "(plc'(p \<mapsto> Owned b)) a = Some pl \<longleftrightarrow> plc a = Some pl"
        if "pl \<noteq> In_Bucket b" "pl \<noteq> In_Cache t b" "\<And>c. pl \<noteq> Owned c" for a pl
        using that pb ysb by (auto simp: plc'_def)
    qed
    moreover have "same_owned plc plc'" using ysb by (auto simp: same_owned_def plc'_def)
    moreover have "local_count t b h2 = of_nat (moved - 1)" using I(3,4) b by (simp add: h2 local_set_local)
    then have "unat (local_count t b h2) < 64" using le unat_of_nat_le64 [of "moved - 1"] by simp
    ultimately show ?thesis using pb by blast
  qed
  ultimately show ?thesis by blast
qed

lemma push_local_inv:
  assumes inv: "heap_inv plc h" and b: "unat b < 128" and p: "plc p = Some (Owned b)" "p \<noteq> 0"
    and cnt: "unat (local_count t b h) < 64"
  shows "heap_inv (plc(p \<mapsto> In_Cache t b)) (push_local t b p h) \<and>
    unat (local_count t b (push_local t b p h)) = unat (local_count t b h) + 1"
proof -
  note I = heap_invD [OF inv]
  have len: "length (buckets h) = 128" by (rule heap_room_buckets [OF I(1)])
  obtain xs where x: "chain (mem h) (local_head t b h) xs" "distinct xs"
    "set xs = {a. plc a = Some (In_Cache t b)}" "length xs = unat (local_count t b h)"
    using I(6) [OF b, of t] by (auto simp: holds_def)
  have nin: "p \<notin> set xs" using x(3) p(1) by auto
  obtain k where k: "holds h (free_list (bucket_at h b)) {a. plc a = Some (In_Bucket b)} k" using I(2) [OF b] ..
  let ?m = "(mem h)(p := local_head t b h)"
  have h': "push_local t b p h = set_local t b p (local_count t b h + 1)
      (set_free_list b (free_list (bucket_at h b)) (h\<lparr>mem := ?m\<rparr>))"
    using len b by (simp add: push_local_def set_free_list_def bucket_at_def)
  have up: "unat (local_count t b h + 1) = unat (local_count t b h) + 1"
    using cnt by (simp add: unat_word_ariths(1))
  have "heap_inv (plc(p \<mapsto> In_Cache t b)) (push_local t b p h)"
  proof (rule heap_inv_move [OF inv b h'])
    have "{a. (plc(p \<mapsto> In_Cache t b)) a = Some (In_Bucket b)} = {a. plc a = Some (In_Bucket b)}" using p(1) by auto
    then show "holds (push_local t b p h) (free_list (bucket_at h b)) {a. (plc(p \<mapsto> In_Cache t b)) a = Some (In_Bucket b)} k"
      using p(1) by (auto intro!: holds_cong [OF k] simp: h')
    have "{a. (plc(p \<mapsto> In_Cache t b)) a = Some (In_Cache t b)} = set (p # xs)" using x(3) by auto
    moreover have "chain ?m p (p # xs)" using x(1) nin p(2) by simp
    ultimately show "holds (push_local t b p h) p {a. (plc(p \<mapsto> In_Cache t b)) a = Some (In_Cache t b)}
        (unat (local_count t b h + 1))"
      using x(2,4) nin up unfolding holds_def by (intro exI [of _ "p # xs"]) (simp add: h')
    show "unat (local_count t b h + 1) \<le> 64" using up cnt by simp
    show "?m a = mem h a" if "plc a = Some pl" "\<And>c. pl \<noteq> Owned c" for a pl using that(1) that(2) [of b] p(1) by auto
  qed (use p(1) in \<open>auto split: if_splits\<close>)
  moreover have "local_count t b (push_local t b p h) = local_count t b h + 1"
    using I(3,4) b by (simp add: push_local_def local_set_local)
  ultimately show ?thesis using up by simp
qed

lemma flush_local_inv:
  assumes inv: "heap_inv plc h" and b: "unat b < 128"
  shows "\<exists>plc'. heap_inv plc' (flush_local t b h) \<and> same_owned plc plc' \<and>
    unat (local_count t b (flush_local t b h)) < 64"
proof -
  note I = heap_invD [OF inv]
  obtain xs where x: "chain (mem h) (local_head t b h) xs" "distinct xs"
    "set xs = {a. plc a = Some (In_Cache t b)}" "length xs = unat (local_count t b h)"
    using I(6) [OF b, of t] by (auto simp: holds_def)
  obtain ys where y: "chain (mem h) (free_list (bucket_at h b)) ys" "distinct ys"
    "set ys = {a. plc a = Some (In_Bucket b)}" using I(2) [OF b] by (auto simp: holds_def)
  have disj: "set xs \<inter> set ys = {}" using x(3) y(3) by auto
  obtain moved head node m where
    mv: "move_nodes kLocalFlush (local_head t b h) (free_list (bucket_at h b)) (mem h) = (moved, head, node, m)"
    and h': "flush_local t b h = set_local t b head (local_count t b h - of_nat moved)
        (set_free_list b node (h\<lparr>mem := m\<rparr>))"
    by (cases "move_nodes kLocalFlush (local_head t b h) (free_list (bucket_at h b)) (mem h)")
      (simp add: flush_local_def)
  have M: "moved = min kLocalFlush (length xs)" "chain m head (drop moved xs)" "chain m node (rev (take moved xs) @ ys)"
    "\<And>a. a \<notin> set xs \<Longrightarrow> m a = mem h a"
    using move_nodes_spec [OF x(1) y(1) x(2) disj mv] by auto
  have dis: "set (take moved xs) \<inter> set (drop moved xs) = {}" using x(2) by (simp add: set_take_disj_set_drop_if_distinct)
  have un: "set (take moved xs) \<union> set (drop moved xs) = set xs" by (metis append_take_drop_id set_append)
  have le: "moved \<le> unat (local_count t b h)" using M(1) x(4) by simp
  have c64: "unat (local_count t b h) \<le> 64" by (rule I(5) [OF b])
  have um: "unat (of_nat moved :: u16) = moved" using le c64 by (intro unat_of_nat_le64) simp
  have cnt: "unat (local_count t b h - of_nat moved) = unat (local_count t b h) - moved"
    using le um by (subst unat_sub) (simp_all add: word_le_nat_alt)
  define plc' where "plc' = (\<lambda>a. if a \<in> set (take moved xs) then Some (In_Bucket b) else plc a)"
  have tb: "plc a = Some (In_Cache t b)" if "a \<in> set (take moved xs)" for a using that un x(3) by blast
  have "heap_inv plc' (flush_local t b h)"
  proof (rule heap_inv_move [OF inv b h'])
    have "{a. plc' a = Some (In_Bucket b)} = set (rev (take moved xs) @ ys)" using y(3) by (auto simp: plc'_def)
    moreover have "distinct (rev (take moved xs) @ ys)" using x(2) y(2) disj un by auto
    ultimately show "holds (flush_local t b h) node {a. plc' a = Some (In_Bucket b)} (length (rev (take moved xs) @ ys))"
      using M(3) unfolding holds_def by (intro exI [of _ "rev (take moved xs) @ ys"]) (simp add: h')
    have "{a. plc' a = Some (In_Cache t b)} = set (drop moved xs)"
      using dis un x(3) by (auto simp: plc'_def)
    then show "holds (flush_local t b h) head {a. plc' a = Some (In_Cache t b)} (unat (local_count t b h - of_nat moved))"
      using M(2) x(2,4) cnt unfolding holds_def by (intro exI [of _ "drop moved xs"]) (simp add: h')
    show "unat (local_count t b h - of_nat moved) \<le> 64" using cnt c64 by simp
    show "m a = mem h a" if "plc a = Some pl" "pl \<noteq> In_Cache t b" for a pl using that M(4) x(3) by auto
    show "\<exists>pl. plc a = Some pl \<and> bucket_of pl = bucket_of pl'" if "plc' a = Some pl'" for a pl'
      using that tb by (auto simp: plc'_def split: if_splits)
    show "plc' a = Some pl \<longleftrightarrow> plc a = Some pl"
      if "pl \<noteq> In_Bucket b" "pl \<noteq> In_Cache t b" for a pl using that tb by (auto simp: plc'_def)
  qed
  moreover have "same_owned plc plc'" using tb by (auto simp: same_owned_def plc'_def)
  moreover have "unat (local_count t b (flush_local t b h)) < 64"
  proof -
    have "moved = min 32 (unat (local_count t b h))" using M(1) x(4) by (simp add: kLocalFlush_def)
    then have "unat (local_count t b h) - moved < 64" using c64 by linarith
    then show ?thesis using I(3,4) b cnt by (simp add: h' local_set_local)
  qed
  ultimately show ?thesis by blast
qed

lemma write_inv:
  assumes inv: "heap_inv plc h" and p: "plc p = Some (Owned b)"
  shows "heap_inv plc (h\<lparr>mem := (mem h)(p := v)\<rparr>)"
proof -
  have keep: "holds (h\<lparr>mem := (mem h)(p := v)\<rparr>) q A n" if "holds h q A n" "p \<notin> A" for q A n
    using that by (auto intro!: holds_cong [OF that(1)])
  show ?thesis using inv p unfolding heap_inv_def
    by (auto intro!: keep) (metis (mono_tags, lifting) keep mem_Collect_eq option.inject p place.distinct(3))
qed

text \<open>\<open>grow_bucket\<close> carves fresh blocks above the ones carved before.\<close>

lemma unat_count:
  fixes n :: u64 and c :: u32
  shows "unat (if n < ucast c then ucast n else c) \<le> unat n"
proof (cases "n < ucast c")
  case True
  then have "unat n < unat c" by (simp add: word_less_nat_alt)
  moreover have "unat c < 2 ^ LENGTH(32)" by (rule unsigned_less)
  ultimately have "unat n < 2 ^ 32" by simp
  then show ?thesis using True by (simp add: unat_ucast_down)
qed (simp add: word_less_nat_alt not_less)

lemma unat_div_mult_le:
  fixes a b :: u64
  assumes "unat c \<le> unat (a div b)"
  shows "unat c * unat b \<le> unat a"
proof -
  have "unat c * unat b \<le> unat a div unat b * unat b" using assms by (simp add: unat_div)
  also have "\<dots> \<le> unat a" by (rule div_times_less_eq_dividend)
  finally show ?thesis .
qed

lemma commit_target_ge: "target \<le> commit_target sz required target"
proof (induction sz required target rule: commit_target.induct)
  case (1 sz required target)
  define nxt where "nxt = (if target \<le> sz div 2 then target * 2 else sz)"
  show ?case
  proof (cases "target < required \<and> \<not> nxt \<le> target")
    case True
    then have "nxt \<le> commit_target sz required nxt" using "1.IH" nxt_def by blast
    moreover have "commit_target sz required target = commit_target sz required nxt"
      using True by (subst commit_target.simps) (simp add: nxt_def Let_def)
    ultimately show ?thesis using True by (metis less_imp_le not_le order_trans)
  next
    case False
    then have "commit_target sz required target = target"
      by (subst commit_target.simps) (auto simp: nxt_def Let_def)
    then show ?thesis by simp
  qed
qed

lemma commit_target_le: "target \<le> sz \<Longrightarrow> commit_target sz required target \<le> sz"
proof (induction sz required target rule: commit_target.induct)
  case (1 sz required target)
  have d: "target * 2 \<le> sz" if "target \<le> sz div 2"
  proof -
    have le: "unat target * 2 \<le> unat sz" using that by (simp add: word_le_nat_alt unat_div)
    moreover have "unat sz < 2 ^ LENGTH(64)" by (rule unsigned_less)
    ultimately have "unat (target * 2) = unat target * 2" by (simp add: unat_word_ariths(2))
    then show ?thesis using le by (simp add: word_le_nat_alt)
  qed
  define nxt where "nxt = (if target \<le> sz div 2 then target * 2 else sz)"
  have nle: "nxt \<le> sz" using d by (simp add: nxt_def)
  show ?case
  proof (cases "target < required \<and> \<not> nxt \<le> target")
    case True
    then have "commit_target sz required nxt \<le> sz" using "1.IH" nxt_def nle by blast
    moreover have "commit_target sz required target = commit_target sz required nxt"
      using True by (subst commit_target.simps) (simp add: nxt_def Let_def)
    ultimately show ?thesis by simp
  next
    case False
    then have "commit_target sz required target = target"
      by (subst commit_target.simps) (auto simp: nxt_def Let_def)
    then show ?thesis using "1.prems" by simp
  qed
qed

lemma committed_after_bounds:
  assumes "heap_committed h \<le> heap_size h"
  shows "heap_committed h \<le> committed_after vm required h" "committed_after vm required h \<le> heap_size h"
  using commit_target_ge commit_target_le [OF assms] assms
  by (auto simp: committed_after_def Let_def)

lemma grow_bucket_cases:
  assumes room: "heap_room h" and b: "unat b < 128" and g: "grow_bucket vm b h = (ok, h')"
  obtains (same) "h' = h" "ok \<longrightarrow> free_list (bucket_at h b) \<noteq> 0"
  | (committed) c where "h' = h\<lparr>heap_committed := c\<rparr>" "\<not> ok" "heap_committed h \<le> c" "c \<le> heap_size h"
  | (grown) p count c free m where "ok" "free_list (bucket_at h b) = 0"
      "carve (unat count) p (block_bytes b) 0 (mem h) = (free, m)" "block_bytes b \<noteq> 0" "count \<noteq> 0"
      "64 dvd unat p" "unat (heap_base h) + unat (heap_used h) \<le> unat p"
      "h' = h\<lparr>heap_committed := c, heap_used := p - heap_base h + ucast count * block_bytes b, mem := m,
         buckets := (buckets h)[unat b := \<lparr>free_list = free, grow_by = count\<rparr>]\<rparr>"
      "unat (heap_used h') = unat p - unat (heap_base h) + unat count * unat (block_bytes b)"
      "heap_used h' \<le> c" "c \<le> heap_size h"
proof -
  have R: "heap_base h \<noteq> 0" "unat (heap_base h) + unat (heap_size h) + 64 < 2 ^ 64"
    "heap_used h \<le> heap_committed h" "heap_committed h \<le> heap_size h" using room by (simp_all add: heap_room_def)
  define p where "p = align_up (heap_base h + heap_used h) kMaxAlign"
  define avail where "avail = (if p - heap_base h < heap_size h then heap_size h - (p - heap_base h) else 0)"
  define count0 where "count0 = grow_count (grow_by (bucket_at h b))"
  define count where "count = (if avail div block_bytes b < ucast count0 then ucast (avail div block_bytes b) else count0)"
  define required where "required = p - heap_base h + ucast count * block_bytes b"
  define c where "c = committed_after vm required h"
  note C = committed_after_bounds [OF R(4), of vm required, folded c_def]
  have us: "unat (heap_used h) \<le> unat (heap_size h)" using R(3,4) by (simp add: word_le_nat_alt)
  have ubu: "unat (heap_base h + heap_used h) = unat (heap_base h) + unat (heap_used h)"
    using us R(2) by (simp add: unat_word_ariths(1))
  have up: "unat p = round_up (unat (heap_base h) + unat (heap_used h)) 64"
    using unat_align_up [of 6 "heap_base h + heap_used h"] us R(2) ubu by (simp add: p_def kMaxAlign_def)
  have p64: "64 dvd unat p" by (simp add: up round_up_dvd)
  have pge: "unat (heap_base h) + unat (heap_used h) \<le> unat p" using round_up_bounds(1) [of 64] up by simp
  then have off: "unat (p - heap_base h) = unat p - unat (heap_base h)"
    by (subst unat_sub) (simp_all add: word_le_nat_alt)
  consider "h' = h" "ok \<longrightarrow> free_list (bucket_at h b) \<noteq> 0"
    | "h' = h\<lparr>heap_committed := c\<rparr>" "\<not> ok"
    | free m where "ok" "free_list (bucket_at h b) = 0" "block_bytes b \<noteq> 0" "count \<noteq> 0"
        "carve (unat count) p (block_bytes b) 0 (mem h) = (free, m)" "required \<le> c"
        "h' = h\<lparr>heap_committed := c, heap_used := required, mem := m,
           buckets := (buckets h)[unat b := \<lparr>free_list = free, grow_by = count\<rparr>]\<rparr>"
  proof -
    obtain free m where cv: "carve (unat count) p (block_bytes b) (free_list (bucket_at h b)) (mem h) = (free, m)" by fastforce
    have G: "grow_bucket vm b h =
      (if b \<ge> kBucketCount then (False, h) else if block_bytes b = 0 then (False, h)
       else if free_list (bucket_at h b) \<noteq> 0 then (True, h) else if count = 0 then (False, h)
       else if required \<le> c then (True, h\<lparr>heap_committed := c, heap_used := required, mem := m,
           buckets := (buckets h)[unat b := \<lparr>free_list = free, grow_by = count\<rparr>]\<rparr>)
       else (False, h\<lparr>heap_committed := c\<rparr>))"
      unfolding grow_bucket_def Let_def p_def [symmetric] avail_def [symmetric] count0_def [symmetric]
        count_def [symmetric] required_def [symmetric] c_def [symmetric] cv prod.case by (rule refl)
    consider "b \<ge> kBucketCount" | "\<not> b \<ge> kBucketCount" "block_bytes b = 0"
      | "\<not> b \<ge> kBucketCount" "block_bytes b \<noteq> 0" "free_list (bucket_at h b) \<noteq> 0"
      | "\<not> b \<ge> kBucketCount" "block_bytes b \<noteq> 0" "free_list (bucket_at h b) = 0" "count = 0"
      | "\<not> b \<ge> kBucketCount" "block_bytes b \<noteq> 0" "free_list (bucket_at h b) = 0" "count \<noteq> 0" "required \<le> c"
      | "\<not> b \<ge> kBucketCount" "block_bytes b \<noteq> 0" "free_list (bucket_at h b) = 0" "count \<noteq> 0" "\<not> required \<le> c"
      by blast
    then show ?thesis
    proof cases
      case 5
      then have "ok" "h' = h\<lparr>heap_committed := c, heap_used := required, mem := m,
           buckets := (buckets h)[unat b := \<lparr>free_list = free, grow_by = count\<rparr>]\<rparr>"
        using g unfolding G by simp_all
      then show ?thesis using 5 cv that(3) by simp
    qed (use g that(1,2) in \<open>simp_all add: G\<close>)
  qed
  then show ?thesis
  proof cases
    case 3
    have cnt: "unat count * unat (block_bytes b) \<le> unat avail"
      by (rule unat_div_mult_le) (simp add: count_def unat_count)
    have "count \<noteq> 0 \<Longrightarrow> p - heap_base h < heap_size h"
    proof (rule ccontr)
      assume nz: "count \<noteq> 0" and "\<not> p - heap_base h < heap_size h"
      then have "avail = 0" by (simp add: avail_def)
      then have "unat count * unat (block_bytes b) = 0" using cnt by simp
      then show False using nz 3(3) by (simp add: unat_eq_zero)
    qed
    then have lt: "p - heap_base h < heap_size h" using 3(4) .
    then have "unat avail = unat (heap_size h) - unat (p - heap_base h)"
      unfolding avail_def using lt by (simp add: unat_sub)
    then have fit: "unat (p - heap_base h) + unat count * unat (block_bytes b) \<le> unat (heap_size h)"
      using cnt lt by (simp add: word_less_nat_alt)
    then have "unat (ucast count * block_bytes b) = unat count * unat (block_bytes b)"
      using R(2) by (simp add: unat_word_ariths(2))
    then have ur: "unat required = unat p - unat (heap_base h) + unat count * unat (block_bytes b)"
      using fit R(2) off unfolding required_def by (simp add: unat_word_ariths(1))
    show ?thesis by (rule grown [OF 3(1,2,5,3,4) p64 pge, of c]) (use 3 ur C in \<open>simp_all add: required_def\<close>)
  qed (use same committed C in auto)
qed

lemma local_same_caches:
  assumes "caches h' = caches h" "heap_epoch h' = heap_epoch h"
  shows "tls_cache t h' = tls_cache t h" "local_head t b h' = local_head t b h" "local_count t b h' = local_count t b h"
  using assms by (simp_all add: tls_cache_def local_head_def local_count_def Let_def)

lemma heap_inv_committed:
  assumes "heap_inv plc h" "heap_committed h \<le> c" "c \<le> heap_size h"
  shows "heap_inv plc (h\<lparr>heap_committed := c\<rparr>)"
proof -
  have r: "heap_room (h\<lparr>heap_committed := c\<rparr>)"
    using heap_invD(1) [OF assms(1)] assms(2,3) by (auto simp: heap_room_def)
  note L = local_same_caches [of "h\<lparr>heap_committed := c\<rparr>" h]
  have e: "bucket_at (h\<lparr>heap_committed := c\<rparr>) = bucket_at h" "block_ok (h\<lparr>heap_committed := c\<rparr>) = block_ok h"
    "holds (h\<lparr>heap_committed := c\<rparr>) = holds h"
    by (simp_all add: bucket_at_def [abs_def] block_ok_def [abs_def] holds_def [abs_def])
  show ?thesis using assms(1) r L unfolding heap_inv_def e by simp
qed

lemma carved_apart:
  assumes f: "unat p + k * unat bs < 2 ^ 64" and a: "a \<in> set (carved k p bs)" and a': "a' \<in> set (carved k p bs)"
    and ne: "a \<noteq> a'"
  shows "apart a (unat bs) a' (unat bs)"
proof -
  obtain i j where ij: "unat a = unat p + i * unat bs" "unat a' = unat p + j * unat bs"
    using a a' by (auto simp: carved_set [OF f])
  have "i \<noteq> j" using ij ne by (metis unat_eqI)
  then have "Suc i \<le> j \<or> Suc j \<le> i" by linarith
  then have "Suc i * unat bs \<le> j * unat bs \<or> Suc j * unat bs \<le> i * unat bs" using mult_le_mono1 by blast
  then show ?thesis using ij by (auto simp: apart_def)
qed

lemma carved_inside:
  assumes f: "unat p + k * unat bs < 2 ^ 64" and a: "a \<in> set (carved k p bs)"
  shows "unat p \<le> unat a" "unat a + unat bs \<le> unat p + k * unat bs"
    "2 ^ m dvd unat p \<Longrightarrow> 2 ^ m dvd unat bs \<Longrightarrow> 2 ^ m dvd unat a"
proof -
  obtain i where i: "i < k" "unat a = unat p + i * unat bs" using a by (auto simp: carved_set [OF f])
  then have "Suc i * unat bs \<le> k * unat bs" by (intro mult_le_mono1) simp
  then show "unat p \<le> unat a" "unat a + unat bs \<le> unat p + k * unat bs" using i by simp_all
  show "2 ^ m dvd unat p \<Longrightarrow> 2 ^ m dvd unat bs \<Longrightarrow> 2 ^ m dvd unat a" using i by simp
qed

lemma grow_bucket_inv:
  assumes inv: "heap_inv plc h" and b: "unat b < 128" and g: "grow_bucket vm b h = (ok, h')"
  shows "\<exists>plc'. heap_inv plc' h' \<and> same_owned plc plc' \<and> caches h' = caches h \<and> heap_epoch h' = heap_epoch h"
proof (rule grow_bucket_cases [OF heap_invD(1) [OF inv] b g], goal_cases)
  case 1
  then show ?case using inv by (auto simp: same_owned_def)
next
  case (2 c)
  then show ?case using heap_inv_committed [OF inv, of c] by (auto simp: same_owned_def)
next
  case (3 p count c free m)
  note I = heap_invD [OF inv] and C = 3
  define bs where "bs = block_bytes b"
  define ns where "ns = carved (unat count) p bs"
  have R: "heap_base h \<noteq> 0" "unat (heap_base h) + unat (heap_size h) + 64 < 2 ^ 64" "length (buckets h) = 128"
    using I(1) by (simp_all add: heap_room_def)
  have uh: "unat (heap_used h') = unat p - unat (heap_base h) + unat count * unat bs" "unat (heap_used h') \<le> unat (heap_size h)"
    using C(9,10,11) by (simp_all add: bs_def word_le_nat_alt)
  have fit: "unat p + unat count * unat bs < 2 ^ 64" using uh C(7) R(2) by linarith
  note inside = carved_inside [OF fit, folded ns_def]
  have base_pos: "0 < unat (heap_base h)" using R(1) by (simp add: unat_gt_0)
  have grow: "unat (heap_used h) \<le> unat (heap_used h')" using uh(1) C(7) by linarith
  have fresh: "plc a = None" if "a \<in> set ns" for a
  proof (rule ccontr)
    assume "plc a \<noteq> None"
    then obtain pl where "plc a = Some pl" by blast
    then have "block_ok h (bucket_of pl) a" by (rule I(7))
    then have "unat a + unat (block_bytes (bucket_of pl)) \<le> unat (heap_base h) + unat (heap_used h)"
      "0 < unat (block_bytes (bucket_of pl))" by (auto simp: block_ok_def unat_gt_0)
    then show False using inside(1) [OF that] C(7) by linarith
  qed
  have nz: "0 \<notin> set ns" using inside(1) [of 0] C(7) base_pos by auto
  have dns: "distinct ns" unfolding ns_def using C(4) by (intro distinct_carved [OF fit]) (simp add: bs_def)
  have cv: "chain m free (rev ns)" "\<And>a. a \<notin> set ns \<Longrightarrow> m a = mem h a"
    using carve_spec [of "mem h" 0 "[]" "unat count" p bs free m] dns nz C(3) by (simp_all add: ns_def bs_def)
  define plc' where "plc' = (\<lambda>a. if a \<in> set ns then Some (In_Bucket b) else plc a)"
  have h': "mem h' = m" "caches h' = caches h" "heap_epoch h' = heap_epoch h" "heap_base h' = heap_base h"
    "heap_size h' = heap_size h" "heap_committed h' = c"
    "\<And>d. bucket_at h' d = (if unat d = unat b then \<lparr>free_list = free, grow_by = count\<rparr> else bucket_at h d)"
    using b R(3) by (simp_all add: C(8) bucket_at_def nth_list_update)
  have no_b: "plc a \<noteq> Some (In_Bucket b)" for a
  proof -
    obtain n where "holds h (free_list (bucket_at h b)) {a. plc a = Some (In_Bucket b)} n" using I(2) [OF b] ..
    then show ?thesis using C(2) by (auto simp: holds_0)
  qed
  note L = local_same_caches [OF h'(2,3)]
  have keep: "holds h' q {a. plc' a = Some pl} n" if "holds h q {a. plc a = Some pl} n" "pl \<noteq> In_Bucket b" for q pl n
  proof -
    have e: "{a. plc' a = Some pl} = {a. plc a = Some pl}" using that(2) fresh by (auto simp: plc'_def)
    show ?thesis unfolding e using fresh cv(2) h'(1) by (intro holds_cong [OF that(1)]) fastforce
  qed
  have "heap_inv plc' h'"
    unfolding heap_inv_def
  proof (intro conjI allI impI)
    show "heap_room h'" using I(1) C(10,11) R h' by (simp add: heap_room_def C(8))
    show "\<exists>n. holds h' (free_list (bucket_at h' d)) {a. plc' a = Some (In_Bucket d)} n" if d: "unat d < 128" for d
    proof (cases "d = b")
      case True
      have "{a. plc' a = Some (In_Bucket b)} = set ns" using no_b by (auto simp: plc'_def)
      then have "holds h' free {a. plc' a = Some (In_Bucket b)} (length ns)"
        using cv(1) dns h'(1) unfolding holds_def by (intro exI [of _ "rev ns"]) simp
      then show ?thesis using True h'(7) by auto
    next
      case False
      then have "unat d \<noteq> unat b" by (metis unat_eqI)
      then show ?thesis using keep I(2) [OF d] False h'(7) by fastforce
    qed
    show "length (local_lists (tls_cache t h')) = 128" "length (local_counts (tls_cache t h')) = 128" for t
      using I(3,4) L by simp_all
    show "unat (local_count t d h') \<le> 64" if "unat d < 128" for t d using I(5) [OF that] L by simp
    show "holds h' (local_head t d h') {a. plc' a = Some (In_Cache t d)} (unat (local_count t d h'))"
      if "unat d < 128" for t d using keep [OF I(6) [OF that]] L by simp
    show "block_ok h' (bucket_of pl) a" if "plc' a = Some pl" for a pl
    proof (cases "a \<in> set ns")
      case True
      have "2 ^ k dvd unat a" if "k \<le> 6" "2 ^ k dvd unat bs" for k
      proof (rule inside(3) [OF True _ that(2)])
        have "(2::nat) ^ k dvd 2 ^ 6" using that(1) by (rule le_imp_power_dvd)
        then have "(2::nat) ^ k dvd 64" by simp
        then show "2 ^ k dvd unat p" using C(6) dvd_trans by blast
      qed
      moreover have "pl = In_Bucket b" using that True by (simp add: plc'_def)
      ultimately show ?thesis
        using inside(1,2) [OF True] uh C(4,7) b h' by (auto simp: block_ok_def bs_def)
    next
      case False
      then have "block_ok h (bucket_of pl) a" using that I(7) by (simp add: plc'_def)
      then show ?thesis using grow h' by (auto simp: block_ok_def)
    qed
    show "apart a (unat (block_bytes (bucket_of pl))) a' (unat (block_bytes (bucket_of pl')))"
      if a: "plc' a = Some pl" and a': "plc' a' = Some pl'" and ne: "a \<noteq> a'" for a pl a' pl'
    proof -
      have old: "unat x + unat (block_bytes (bucket_of q)) \<le> unat y" if "plc x = Some q" "y \<in> set ns" for x q y
        using I(7) [OF that(1)] inside(1) [OF that(2)] C(7) by (simp add: block_ok_def)
      show ?thesis
        using a a' ne old I(8) carved_apart [OF fit, folded ns_def, of a a']
        by (auto simp: plc'_def bs_def apart_def split: if_splits)
    qed
  qed
  moreover have "same_owned plc plc'" using fresh by (auto simp: same_owned_def plc'_def)
  ultimately show ?case using h' by blast
qed

end
