(* ===== verification/Arena_Threads.thy ===== *)
theory Arena_Threads
  imports Arena_Calls
begin

text \<open>
  Any number of threads allocate from one arena and give blocks back, each call cut at the
  critical sections of \<open>ArenaHeap\<close>: between two sections of a call the other threads run. A
  client may free a block from another thread than the one that allocated it, and may write over
  the first word of a block it holds. \<open>handed\<close> maps the blocks clients hold to the size and the
  alignment they were requested with. The main theorem: the blocks clients hold are aligned, lie
  in the arena and never overlap.
\<close>

section \<open>Threads\<close>

datatype arena_pc =
    Ready
  | Refilling u64 u64 u32
  | Growing u64 u64 u32
  | Refilling_Again u64 u64 u32
  | Flushing u32

record arena_sys =
  heap :: arena_heap
  arena_pcs :: "nat \<Rightarrow> arena_pc"
  handed :: "u64 \<rightharpoonup> u64 \<times> u64"

definition arena_goto :: "nat \<Rightarrow> arena_pc \<Rightarrow> arena_heap \<Rightarrow> arena_sys \<Rightarrow> arena_sys" where
  "arena_goto t pc h s = s\<lparr>heap := h, arena_pcs := (arena_pcs s)(t := pc)\<rparr>"

definition hand_out :: "nat \<Rightarrow> u64 \<Rightarrow> u64 \<Rightarrow> u64 \<times> arena_heap \<Rightarrow> arena_sys \<Rightarrow> arena_sys" where
  "hand_out t sz align r s =
     (let (p, h) = r in arena_goto t Ready h (s\<lparr>handed := (handed s)(p \<mapsto> (sz, align))\<rparr>))"

text \<open>\<open>allocate\<close> up to its first critical section: a null result leaves the state unchanged.\<close>

definition call_allocate :: "nat \<Rightarrow> u64 \<Rightarrow> u64 \<Rightarrow> arena_sys \<Rightarrow> arena_sys" where
  "call_allocate t sz align s =
     (case serving_bucket sz align (heap s) of
        None \<Rightarrow> s
      | Some b \<Rightarrow>
          if local_head t b (heap s) \<noteq> 0 then hand_out t sz align (pop_local t b (heap s)) s
          else arena_goto t (Refilling sz align b) (heap s) s)"

definition do_refill :: "bool \<Rightarrow> nat \<Rightarrow> u64 \<Rightarrow> u64 \<Rightarrow> u32 \<Rightarrow> arena_sys \<Rightarrow> arena_sys" where
  "do_refill again t sz align b s =
     (let (moved, h) = refill t b (heap s)
      in if moved \<noteq> 0 then hand_out t sz align (finish_refill moved t b h) s
         else arena_goto t (if again then Ready else Growing sz align b) h s)"

definition do_grow :: "(u64 \<Rightarrow> u64 \<Rightarrow> bool) \<Rightarrow> nat \<Rightarrow> u64 \<Rightarrow> u64 \<Rightarrow> u32 \<Rightarrow> arena_sys \<Rightarrow> arena_sys" where
  "do_grow vm t sz align b s =
     (let (ok, h) = grow_bucket vm b (heap s)
      in arena_goto t (if ok then Refilling_Again sz align b else Ready) h s)"

definition call_deallocate :: "nat \<Rightarrow> u64 \<Rightarrow> u64 \<Rightarrow> u64 \<Rightarrow> arena_sys \<Rightarrow> arena_sys" where
  "call_deallocate t p sz align s =
     (if p = 0 \<or> heap_base (heap s) = 0 then s
      else
        let request = normalized_request_size sz align
        in if request = 0 then s
           else
             let b = bucket_index_for request
             in if b = kInvalidBucket then s
                else let h = push_local t b p (heap s)
                     in arena_goto t (if local_count t b h < kLocalMax then Ready else Flushing b) h
                          (s\<lparr>handed := (handed s)(p := None)\<rparr>))"

definition do_flush :: "nat \<Rightarrow> u32 \<Rightarrow> arena_sys \<Rightarrow> arena_sys" where
  "do_flush t b s = arena_goto t Ready (flush_local t b (heap s)) s"

definition client_write :: "u64 \<Rightarrow> u64 \<Rightarrow> arena_sys \<Rightarrow> arena_sys" where
  "client_write p v s = s\<lparr>heap := (heap s)\<lparr>mem := (mem (heap s))(p := v)\<rparr>\<rparr>"

inductive arena_step :: "(u64 \<Rightarrow> u64 \<Rightarrow> bool) \<Rightarrow> arena_sys \<Rightarrow> arena_sys \<Rightarrow> bool" for vm where
  alloc: "arena_pcs s t = Ready \<Longrightarrow> arena_step vm s (call_allocate t sz al s)"
| refill1: "arena_pcs s t = Refilling sz al b \<Longrightarrow> arena_step vm s (do_refill False t sz al b s)"
| grow: "arena_pcs s t = Growing sz al b \<Longrightarrow> arena_step vm s (do_grow vm t sz al b s)"
| refill2: "arena_pcs s t = Refilling_Again sz al b \<Longrightarrow> arena_step vm s (do_refill True t sz al b s)"
| free: "arena_pcs s t = Ready \<Longrightarrow> handed s p = Some (sz, al) \<Longrightarrow> arena_step vm s (call_deallocate t p sz al s)"
| flush: "arena_pcs s t = Flushing b \<Longrightarrow> arena_step vm s (do_flush t b s)"
| client: "handed s p \<noteq> None \<Longrightarrow> arena_step vm s (client_write p v s)"

text \<open>The static initial values of the allocator.\<close>

definition process_start :: arena_heap where
  "process_start = \<lparr>heap_base = 0, heap_size = 0, heap_used = 0, heap_committed = 0, heap_epoch = 1,
     vm_backed = False, buckets = empty_buckets, mem = (\<lambda>_. 0),
     caches = (\<lambda>_. \<lparr>cache_epoch = 0, local_lists = replicate (unat kBucketCount) 0,
       local_counts = replicate (unat kBucketCount) 0\<rparr>)\<rparr>"

definition arena_start :: "bool \<Rightarrow> u64 \<Rightarrow> u64 \<Rightarrow> u64 \<Rightarrow> arena_sys" where
  "arena_start vm base sz committed =
     \<lparr>heap = (if vm then heap_init_vm base sz committed process_start else heap_init base sz process_start),
      arena_pcs = (\<lambda>_. Ready), handed = Map.empty\<rparr>"

inductive arena_reachable :: "(u64 \<Rightarrow> u64 \<Rightarrow> bool) \<Rightarrow> arena_sys \<Rightarrow> arena_sys \<Rightarrow> bool" for vm s0 where
  init: "arena_reachable vm s0 s0"
| step: "arena_reachable vm s0 s \<Longrightarrow> arena_step vm s s' \<Longrightarrow> arena_reachable vm s0 s'"

section \<open>Invariant\<close>

definition request_bucket :: "u64 \<Rightarrow> u64 \<Rightarrow> u32 option" where
  "request_bucket sz align =
     (let request = normalized_request_size sz align
      in if sz = 0 \<or> request = 0 \<or> bucket_index_for request = kInvalidBucket then None
         else Some (bucket_index_for request))"

lemma serving_bucket_eq:
  "serving_bucket sz align h = (if heap_base h = 0 \<or> heap_size h = 0 then None else request_bucket sz align)"
  by (auto simp: serving_bucket_def request_bucket_def Let_def)

lemma request_bucketD:
  assumes "request_bucket sz align = Some b"
  shows "unat b < 121" "unat sz \<le> unat (block_bytes b)" "sz \<noteq> 0"
    "\<exists>k\<le>6. unat align = 2 ^ k \<and> 2 ^ k dvd unat (block_bytes b)"
proof -
  define n where "n = normalized_request_size sz align"
  have n: "normalized_request_size sz align = n" "n \<noteq> 0" "sz \<noteq> 0"
    and b: "b = bucket_index_for n" "bucket_index_for n \<noteq> kInvalidBucket"
    using assms by (auto simp: request_bucket_def n_def Let_def split: if_splits)
  note S = size_class_sound [OF n]
  have "unat n \<le> 2 ^ 20"
  proof (rule ccontr)
    assume "\<not> unat n \<le> 2 ^ 20"
    then show False using S b(2) by simp
  qed
  then have S': "unat sz \<le> unat n" "unat b < 121" "unat n \<le> unat (block_bytes b)" "unat align dvd unat (block_bytes b)"
    using S b(1) by simp_all
  then show "unat b < 121" "unat sz \<le> unat (block_bytes b)" "sz \<noteq> 0" using n by simp_all
  from accepted_bounds [OF n] obtain k where "k \<le> 6" "unat align = 2 ^ k" by blast
  then show "\<exists>k\<le>6. unat align = 2 ^ k \<and> 2 ^ k dvd unat (block_bytes b)" using S'(4) by auto
qed

text \<open>The places of the handed-out blocks agree with what the clients asked for.\<close>

definition owners_ok :: "(u64 \<rightharpoonup> place) \<Rightarrow> arena_sys \<Rightarrow> bool" where
  "owners_ok plc s \<longleftrightarrow>
     (\<forall>p b. plc p = Some (Owned b) \<longrightarrow> (\<exists>sz al. handed s p = Some (sz, al) \<and> request_bucket sz al = Some b)) \<and>
     (\<forall>p sz al. handed s p = Some (sz, al) \<longrightarrow> (\<exists>b. request_bucket sz al = Some b \<and> plc p = Some (Owned b)))"

fun arena_pc_ok :: "nat \<Rightarrow> arena_heap \<Rightarrow> arena_pc \<Rightarrow> bool" where
  "arena_pc_ok t h Ready \<longleftrightarrow> True"
| "arena_pc_ok t h (Refilling sz al b) \<longleftrightarrow> request_bucket sz al = Some b \<and> local_head t b h = 0"
| "arena_pc_ok t h (Growing sz al b) \<longleftrightarrow> request_bucket sz al = Some b \<and> local_head t b h = 0"
| "arena_pc_ok t h (Refilling_Again sz al b) \<longleftrightarrow> request_bucket sz al = Some b \<and> local_head t b h = 0"
| "arena_pc_ok t h (Flushing b) \<longleftrightarrow> unat b < 128"

definition pcs_ok :: "arena_sys \<Rightarrow> bool" where
  "pcs_ok s \<longleftrightarrow> (\<forall>t. arena_pc_ok t (heap s) (arena_pcs s t)) \<and>
     (\<forall>t b. unat b < 128 \<longrightarrow> unat (local_count t b (heap s)) < 64 \<or> arena_pcs s t = Flushing b)"

definition arena_inv :: "u64 \<Rightarrow> u64 \<Rightarrow> arena_sys \<Rightarrow> bool" where
  "arena_inv base sz s \<longleftrightarrow> heap_base (heap s) = base \<and> heap_size (heap s) = sz \<and> pcs_ok s \<and>
     (\<exists>plc. heap_inv plc (heap s) \<and> owners_ok plc s)"

text \<open>A section of thread \<open>t\<close> for bucket \<open>b\<close> leaves every other cache entry alone.\<close>

definition other_caches :: "nat \<Rightarrow> u32 \<Rightarrow> arena_heap \<Rightarrow> arena_heap \<Rightarrow> bool" where
  "other_caches t b h h' \<longleftrightarrow> heap_base h' = heap_base h \<and> heap_size h' = heap_size h \<and>
     (\<forall>u c. u \<noteq> t \<or> c \<noteq> b \<longrightarrow>
       local_head u c h' = local_head u c h \<and> local_count u c h' = local_count u c h)"

lemma other_caches_trans: "other_caches t b h h1 \<Longrightarrow> other_caches t b h1 h2 \<Longrightarrow> other_caches t b h h2"
  by (auto simp: other_caches_def)

lemma other_caches_set_local:
  assumes "heap_inv plc h" "unat b < 128" "caches h1 = caches h" "heap_epoch h1 = heap_epoch h"
    "heap_base h1 = heap_base h" "heap_size h1 = heap_size h"
  shows "other_caches t b h (set_local t b p n h1)"
proof -
  have L: "local_head u c h1 = local_head u c h" "local_count u c h1 = local_count u c h"
    "tls_cache u h1 = tls_cache u h" for u c
    using local_same_caches [OF assms(3,4)] by blast+
  show ?thesis
    using assms heap_invD(3,4) [OF assms(1)] L unfolding other_caches_def
    by (auto simp: local_set_local)
qed

lemma other_caches_grow:
  assumes "grow_bucket vm b h = (ok, h')" "heap_inv plc h" "unat b < 128"
  shows "other_caches t b h h'" "local_head t c h' = local_head t c h" "local_count t c h' = local_count t c h"
proof -
  have c: "caches h' = caches h" "heap_epoch h' = heap_epoch h"
    using grow_bucket_inv [OF assms(2,3,1)] by auto
  have "heap_base h' = heap_base h \<and> heap_size h' = heap_size h"
    by (rule grow_bucket_cases [OF heap_invD(1) [OF assms(2)] assms(3,1)]) auto
  then show "other_caches t b h h'" "local_head t c h' = local_head t c h" "local_count t c h' = local_count t c h"
    using local_same_caches [OF c] by (auto simp: other_caches_def)
qed

lemma goto_simps [simp]:
  "heap (arena_goto t pc h s) = h" "handed (arena_goto t pc h s) = handed s"
  "arena_pcs (arena_goto t pc h s) = (arena_pcs s)(t := pc)"
  by (simp_all add: arena_goto_def)

lemma arena_invD:
  assumes "arena_inv base sz s"
  shows "heap_base (heap s) = base" "heap_size (heap s) = sz" "arena_pc_ok t (heap s) (arena_pcs s t)"
    "unat b < 128 \<Longrightarrow> unat (local_count t b (heap s)) < 64 \<or> arena_pcs s t = Flushing b"
    "\<exists>plc. heap_inv plc (heap s) \<and> owners_ok plc s"
  using assms by (auto simp: arena_inv_def pcs_ok_def)

lemma arena_pc_ok_other:
  "arena_pc_ok u h pc \<Longrightarrow> other_caches t b h h' \<Longrightarrow> u \<noteq> t \<Longrightarrow> arena_pc_ok u h' pc"
  by (cases pc) (auto simp: other_caches_def)

lemma arena_inv_section:
  assumes inv: "arena_inv base sz s" and oth: "other_caches t b (heap s) h'"
    and hi: "heap_inv plc' h'" and own: "owners_ok plc' s'"
    and s': "heap s' = h'" "arena_pcs s' = (arena_pcs s)(t := pc)"
    and pc: "arena_pc_ok t h' pc" "unat (local_count t b h') < 64 \<or> pc = Flushing b"
    and was: "\<And>c. arena_pcs s t = Flushing c \<Longrightarrow> c = b"
  shows "arena_inv base sz s'"
proof -
  have "pcs_ok s'"
    unfolding pcs_ok_def
  proof (intro conjI allI impI)
    show "arena_pc_ok u (heap s') (arena_pcs s' u)" for u
      using arena_pc_ok_other [OF arena_invD(3) [OF inv] oth] pc(1) by (simp add: s')
    show "unat (local_count u c (heap s')) < 64 \<or> arena_pcs s' u = Flushing c" if "unat c < 128" for u c
    proof (cases "u = t \<and> c = b")
      case True
      then show ?thesis using pc(2) by (simp add: s')
    next
      case False
      then have "local_count u c h' = local_count u c (heap s)" using oth by (auto simp: other_caches_def)
      moreover have "u = t \<Longrightarrow> arena_pcs s u \<noteq> Flushing c" using was False by auto
      ultimately show ?thesis using arena_invD(4) [OF inv that, of u] by (auto simp: s')
    qed
  qed
  then show ?thesis using hi own oth arena_invD(1,2) [OF inv] by (auto simp: arena_inv_def s' other_caches_def)
qed

lemma owners_same:
  assumes "owners_ok plc s" "same_owned plc plc'" "handed s' = handed s"
  shows "owners_ok plc' s'"
proof -
  have e: "plc' p = Some (Owned b) \<longleftrightarrow> plc p = Some (Owned b)" for p b using assms(2) by (simp add: same_owned_def)
  show ?thesis using assms(1) unfolding owners_ok_def e assms(3) .
qed

lemma owners_hand_out:
  assumes own: "owners_ok plc s" and same: "same_owned plc plc'" and free: "\<And>c. plc p \<noteq> Some (Owned c)"
    and rb: "request_bucket sz al = Some b" and s': "handed s' = (handed s)(p \<mapsto> (sz, al))"
  shows "owners_ok (plc'(p \<mapsto> Owned b)) s'"
proof -
  have e: "plc' q = Some (Owned c) \<longleftrightarrow> plc q = Some (Owned c)" for q c using same by (simp add: same_owned_def)
  show ?thesis
    unfolding owners_ok_def
  proof (intro conjI allI impI)
    fix q c assume "(plc'(p \<mapsto> Owned b)) q = Some (Owned c)"
    then show "\<exists>sz al. handed s' q = Some (sz, al) \<and> request_bucket sz al = Some c"
      using own rb unfolding owners_ok_def by (cases "q = p") (auto simp: s' e)
  next
    fix q sz' al' assume "handed s' q = Some (sz', al')"
    then show "\<exists>c. request_bucket sz' al' = Some c \<and> (plc'(p \<mapsto> Owned b)) q = Some (Owned c)"
      using own rb unfolding owners_ok_def by (cases "q = p") (auto simp: s' e)
  qed
qed

lemma bucket_lt: "request_bucket sz al = Some b \<Longrightarrow> unat b < 128"
  using request_bucketD(1) by fastforce

lemma call_allocate_inv:
  assumes inv: "arena_inv base sz0 s" and pc: "arena_pcs s t = Ready"
  shows "arena_inv base sz0 (call_allocate t sz al s)"
proof (cases "serving_bucket sz al (heap s)")
  case None
  then show ?thesis using inv by (simp add: call_allocate_def)
next
  case (Some b)
  then have rb: "request_bucket sz al = Some b" by (auto simp: serving_bucket_eq split: if_splits)
  note b = bucket_lt [OF rb]
  obtain plc where P: "heap_inv plc (heap s)" "owners_ok plc s" using arena_invD(5) [OF inv] by blast
  show ?thesis
  proof (cases "local_head t b (heap s) = 0")
    case True
    have "arena_inv base sz0 (arena_goto t (Refilling sz al b) (heap s) s)"
      by (rule arena_inv_section [OF inv, of t b "heap s" plc])
        (use P rb True pc arena_invD(4) [OF inv b, of t] in \<open>auto simp: other_caches_def owners_ok_def\<close>)
    then show ?thesis using Some True by (simp add: call_allocate_def)
  next
    case False
    obtain p h' where pop: "pop_local t b (heap s) = (p, h')" by fastforce
    note Q = pop_local_inv [OF P(1) b False pop]
    have cnt: "unat (local_count t b (heap s)) < 64" using arena_invD(4) [OF inv b, of t] pc by auto
    have nz: "local_count t b (heap s) \<noteq> 0"
      using heap_invD(6) [OF P(1) b, of t] False by (auto simp: holds_def)
    have "h' = set_local t b (mem (heap s) p) (local_count t b (heap s) - 1) (heap s)"
      using pop by (auto simp: pop_local_def Let_def)
    then have oth: "other_caches t b (heap s) h'" using other_caches_set_local [OF P(1) b] by simp
    have "arena_inv base sz0 (hand_out t sz al (p, h') s)"
    proof (rule arena_inv_section [OF inv oth, of "plc(p \<mapsto> Owned b)"])
      show "owners_ok (plc(p \<mapsto> Owned b)) (hand_out t sz al (p, h') s)"
        by (rule owners_hand_out [OF P(2) _ _ rb, of plc]) (use Q in \<open>auto simp: same_owned_def hand_out_def\<close>)
    qed (use Q cnt nz pc in \<open>auto simp: hand_out_def unat_pred16\<close>)
    then show ?thesis using Some False pop by (simp add: call_allocate_def)
  qed
qed

lemma do_refill_inv:
  assumes inv: "arena_inv base sz0 s" and pc: "arena_pcs s t = (if again then Refilling_Again sz al b else Refilling sz al b)"
  shows "arena_inv base sz0 (do_refill again t sz al b s)"
proof -
  have rb: "request_bucket sz al = Some b" and hd: "local_head t b (heap s) = 0"
    using arena_invD(3) [OF inv, of t] pc by (auto split: if_splits)
  note b = bucket_lt [OF rb]
  obtain plc where P: "heap_inv plc (heap s)" "owners_ok plc s" using arena_invD(5) [OF inv] by blast
  obtain moved h1 where r: "refill t b (heap s) = (moved, h1)" by fastforce
  note Q = refill_inv [OF P(1) b hd r]
  have nf: "arena_pcs s t \<noteq> Flushing c" for c using pc by auto
  have oth1: "other_caches t b (heap s) h1"
    using r by (auto simp: refill_def split: prod.splits intro!: other_caches_set_local [OF P(1) b]) (simp_all add: set_free_list_def)
  show ?thesis
  proof (cases "moved = 0")
    case True
    have "local_count t b h1 = 0"
      using heap_invD(6) [of plc h1 b t] Q True b by (auto simp: holds_0 unat_eq_zero)
    then have "arena_inv base sz0 (arena_goto t (if again then Ready else Growing sz al b) h1 s)"
      by (intro arena_inv_section [OF inv oth1, of plc]) (use Q True P nf rb in \<open>auto simp: owners_ok_def\<close>)
    then show ?thesis using r True by (simp add: do_refill_def)
  next
    case False
    obtain p h2 where f: "finish_refill moved t b h1 = (p, h2)" by fastforce
    then obtain plc' where S: "plc p = Some (In_Bucket b)" "same_owned plc plc'" "heap_inv (plc'(p \<mapsto> Owned b)) h2"
      "unat (local_count t b h2) < 64" using Q False by blast
    obtain n m q k where h1: "h1 = set_local t b q n (set_free_list b k ((heap s)\<lparr>mem := m\<rparr>))"
      using r by (auto simp: refill_def split: prod.splits)
    have "h2 = set_local t b (mem h1 p) (of_nat (moved - 1)) h1" using f by (auto simp: finish_refill_def Let_def)
    then have h2: "h2 = set_local t b (mem h1 p) (of_nat (moved - 1)) (set_free_list b k ((heap s)\<lparr>mem := m\<rparr>))"
      by (simp add: h1)
    have oth: "other_caches t b (heap s) h2"
      unfolding h2 by (rule other_caches_set_local [OF P(1) b]) (simp_all add: set_free_list_def)
    have "arena_inv base sz0 (hand_out t sz al (p, h2) s)"
    proof (rule arena_inv_section [OF inv oth S(3)])
      show "owners_ok (plc'(p \<mapsto> Owned b)) (hand_out t sz al (p, h2) s)"
        by (rule owners_hand_out [OF P(2) S(2) _ rb]) (use S(1) in \<open>auto simp: hand_out_def\<close>)
    qed (use S(4) nf in \<open>auto simp: hand_out_def\<close>)
    then show ?thesis using r f False by (simp add: do_refill_def)
  qed
qed

lemma do_grow_inv:
  assumes inv: "arena_inv base sz0 s" and pc: "arena_pcs s t = Growing sz al b"
  shows "arena_inv base sz0 (do_grow vm t sz al b s)"
proof -
  have rb: "request_bucket sz al = Some b" and hd: "local_head t b (heap s) = 0"
    using arena_invD(3) [OF inv, of t] pc by auto
  note b = bucket_lt [OF rb]
  obtain plc where P: "heap_inv plc (heap s)" "owners_ok plc s" using arena_invD(5) [OF inv] by blast
  obtain ok h' where g: "grow_bucket vm b (heap s) = (ok, h')" by fastforce
  obtain plc' where Q: "heap_inv plc' h'" "same_owned plc plc'" using grow_bucket_inv [OF P(1) b g] by blast
  note O = other_caches_grow [OF g P(1) b, of t]
  have cnt: "unat (local_count t b (heap s)) < 64" using arena_invD(4) [OF inv b, of t] pc by auto
  have "arena_inv base sz0 (arena_goto t (if ok then Refilling_Again sz al b else Ready) h' s)"
    by (rule arena_inv_section [OF inv O(1) Q(1) owners_same [OF P(2) Q(2)]])
      (use rb hd O pc cnt in auto)
  then show ?thesis using g by (simp add: do_grow_def)
qed

lemma call_deallocate_inv:
  assumes inv: "arena_inv base sz0 s" and pc: "arena_pcs s t = Ready" and own: "handed s p = Some (sz, al)"
  shows "arena_inv base sz0 (call_deallocate t p sz al s)"
proof -
  obtain plc where P: "heap_inv plc (heap s)" "owners_ok plc s" using arena_invD(5) [OF inv] by blast
  obtain b where rb: "request_bucket sz al = Some b" and pl: "plc p = Some (Owned b)"
    using P(2) own unfolding owners_ok_def by blast
  note b = bucket_lt [OF rb]
  have bn: "normalized_request_size sz al \<noteq> 0" "bucket_index_for (normalized_request_size sz al) = b" "b \<noteq> kInvalidBucket"
    using rb by (auto simp: request_bucket_def Let_def split: if_splits)
  have base0: "heap_base (heap s) \<noteq> 0" using heap_invD(1) [OF P(1)] by (simp add: heap_room_def)
  have "unat (heap_base (heap s)) \<le> unat p" using heap_invD(7) [OF P(1) pl] by (simp add: block_ok_def)
  then have p0: "p \<noteq> 0" using base0 by (auto simp: unat_eq_zero)
  have cnt: "unat (local_count t b (heap s)) < 64" using arena_invD(4) [OF inv b, of t] pc by auto
  define h' where "h' = push_local t b p (heap s)"
  note Q = push_local_inv [OF P(1) b pl p0 cnt, folded h'_def]
  have oth: "other_caches t b (heap s) h'"
    unfolding h'_def push_local_def by (rule other_caches_set_local [OF P(1) b]) simp_all
  define s' where "s' = arena_goto t (if local_count t b h' < kLocalMax then Ready else Flushing b) h'
      (s\<lparr>handed := (handed s)(p := None)\<rparr>)"
  have "owners_ok (plc(p \<mapsto> In_Cache t b)) s'"
    using P(2) pl own by (auto simp: owners_ok_def s'_def)
  then have "arena_inv base sz0 s'"
    by (intro arena_inv_section [OF inv oth, where plc' = "plc(p \<mapsto> In_Cache t b)" and
          pc = "if local_count t b h' < kLocalMax then Ready else Flushing b"])
      (use Q b pc in \<open>auto simp: s'_def kLocalMax_def word_less_nat_alt arena_goto_def split: if_splits\<close>)
  then show ?thesis using bn base0 p0 by (simp add: call_deallocate_def Let_def s'_def h'_def)
qed

lemma do_flush_inv:
  assumes inv: "arena_inv base sz0 s" and pc: "arena_pcs s t = Flushing b"
  shows "arena_inv base sz0 (do_flush t b s)"
proof -
  have b: "unat b < 128" using arena_invD(3) [OF inv, of t] pc by simp
  obtain plc where P: "heap_inv plc (heap s)" "owners_ok plc s" using arena_invD(5) [OF inv] by blast
  obtain plc' where Q: "heap_inv plc' (flush_local t b (heap s))" "same_owned plc plc'"
    "unat (local_count t b (flush_local t b (heap s))) < 64"
    using flush_local_inv [OF P(1) b, of t] by blast
  have oth: "other_caches t b (heap s) (flush_local t b (heap s))"
    by (auto simp: flush_local_def split: prod.splits intro!: other_caches_set_local [OF P(1) b]) (simp_all add: set_free_list_def)
  have "arena_inv base sz0 (arena_goto t Ready (flush_local t b (heap s)) s)"
    by (rule arena_inv_section [OF inv oth Q(1) owners_same [OF P(2) Q(2)]]) (use Q(3) pc in auto)
  then show ?thesis by (simp add: do_flush_def)
qed

lemma client_write_inv:
  assumes inv: "arena_inv base sz0 s" and own: "handed s p \<noteq> None"
  shows "arena_inv base sz0 (client_write p v s)"
proof -
  obtain plc where P: "heap_inv plc (heap s)" "owners_ok plc s" using arena_invD(5) [OF inv] by blast
  obtain sz al where "handed s p = Some (sz, al)" using own by auto
  then obtain b where "plc p = Some (Owned b)" using P(2) unfolding owners_ok_def by blast
  note W = write_inv [OF P(1) this, of v]
  have "arena_pc_ok t ((heap s)\<lparr>mem := m\<rparr>) pc = arena_pc_ok t (heap s) pc" for t m pc by (cases pc) simp_all
  then show ?thesis using inv W P(2) by (auto simp: arena_inv_def client_write_def pcs_ok_def owners_ok_def)
qed

lemma arena_step_inv: "arena_step vm s s' \<Longrightarrow> arena_inv base sz0 s \<Longrightarrow> arena_inv base sz0 s'"
proof (induction rule: arena_step.induct)
  case (refill1 s t sz al b)
  then show ?case by (intro do_refill_inv) simp_all
next
  case (refill2 s t sz al b)
  then show ?case by (intro do_refill_inv) simp_all
qed (simp_all add: call_allocate_inv do_grow_inv call_deallocate_inv do_flush_inv client_write_inv)

lemma kBucketCount_128 [simp]: "unat kBucketCount = 128"
  by (simp add: kBucketCount_def kLevels_def kSubdiv_def)

lemma arena_start_inv:
  assumes "base \<noteq> 0" "unat base + unat sz + 64 < 2 ^ 64" "vm \<longrightarrow> committed \<le> sz"
  shows "arena_inv base sz (arena_start vm base sz committed)"
proof -
  define s where "s = arena_start vm base sz committed"
  have h: "heap_base (heap s) = base" "heap_size (heap s) = sz" "heap_used (heap s) = 0"
    "heap_committed (heap s) = (if vm then committed else sz)" "buckets (heap s) = empty_buckets"
    "caches (heap s) = caches process_start" "heap_epoch (heap s) = 2"
    by (simp_all add: s_def arena_start_def heap_init_def heap_init_vm_def heap_reset_def process_start_def)
  have tls: "tls_cache t (heap s) = \<lparr>cache_epoch = 2, local_lists = replicate 128 0, local_counts = replicate 128 0\<rparr>" for t
    using h(6,7) by (simp add: tls_cache_def process_start_def)
  have loc: "local_head t b (heap s) = 0" "local_count t b (heap s) = 0" if "unat b < 128" for t b
    using that by (simp_all add: local_head_def local_count_def tls)
  have fl: "free_list (bucket_at (heap s) b) = 0" if "unat b < 128" for b
    using that h(5) by (simp add: bucket_at_def empty_buckets_def)
  have "heap_room (heap s)" using assms h by (simp add: heap_room_def empty_buckets_def)
  then have "heap_inv Map.empty (heap s)"
    using loc fl by (simp add: heap_inv_def holds_0 tls)
  moreover have "owners_ok Map.empty s" by (simp add: owners_ok_def s_def arena_start_def)
  moreover have "pcs_ok s" using loc by (simp add: pcs_ok_def s_def arena_start_def)
  ultimately show ?thesis using h unfolding arena_inv_def s_def [symmetric] by blast
qed

lemma arena_reachable_inv:
  "arena_reachable vm s0 s \<Longrightarrow> arena_inv base sz s0 \<Longrightarrow> arena_inv base sz s"
  by (induction rule: arena_reachable.induct) (auto intro: arena_step_inv)

section \<open>The property\<close>

text \<open>C13: Whatever the threads do, in every interleaving of the critical sections, a block that a
  client holds is aligned as it was requested, lies with all its bytes in the part of the arena that
  is carved and committed, and shares no byte with any other block a client holds.\<close>
theorem arena_blocks_exclusive:
  assumes "base \<noteq> 0" and "unat base + unat sz0 + 64 < 2 ^ 64" and "vm \<longrightarrow> committed \<le> sz0"
    and "arena_reachable commit (arena_start vm base sz0 committed) s"
    and "handed s p = Some (sz, al)"
  shows "p \<noteq> 0 \<and> unat al dvd unat p \<and> unat base \<le> unat p \<and>
    unat p + unat sz \<le> unat base + unat (heap_committed (heap s)) \<and> heap_committed (heap s) \<le> sz0 \<and>
    (\<forall>q sz' al'. handed s q = Some (sz', al') \<and> q \<noteq> p \<longrightarrow>
       unat p + unat sz \<le> unat q \<or> unat q + unat sz' \<le> unat p)"
proof -
  have inv: "arena_inv base sz0 s"
    by (rule arena_reachable_inv [OF assms(4) arena_start_inv [OF assms(1-3)]])
  obtain plc where P: "heap_inv plc (heap s)" "owners_ok plc s" using arena_invD(5) [OF inv] by blast
  have get: "\<exists>b. request_bucket z a = Some b \<and> plc q = Some (Owned b)" if "handed s q = Some (z, a)" for q z a
    using that P(2) unfolding owners_ok_def by blast
  obtain b where b: "request_bucket sz al = Some b" "plc p = Some (Owned b)" using get [OF assms(5)] by blast
  note B = request_bucketD [OF b(1)]
  obtain k where k: "k \<le> 6" "unat al = 2 ^ k" "2 ^ k dvd unat (block_bytes b)" using B(4) by blast
  have ok: "block_ok (heap s) b p" using heap_invD(7) [OF P(1) b(2)] by simp
  have room: "heap_used (heap s) \<le> heap_committed (heap s)" "heap_committed (heap s) \<le> heap_size (heap s)"
    using heap_invD(1) [OF P(1)] by (simp_all add: heap_room_def)
  note base = arena_invD(1,2) [OF inv]
  have "0 < unat base" using assms(1) by (simp add: unat_gt_0)
  then have "p \<noteq> 0" using ok base by (auto simp: block_ok_def)
  moreover have "unat al dvd unat p" using ok k by (simp add: block_ok_def)
  moreover have "unat base \<le> unat p" "unat p + unat sz \<le> unat base + unat (heap_committed (heap s))"
    using ok base B(2) room(1) by (auto simp: block_ok_def word_le_nat_alt)
  moreover have "unat p + unat sz \<le> unat q \<or> unat q + unat sz' \<le> unat p"
    if q: "handed s q = Some (sz', al')" "q \<noteq> p" for q sz' al'
  proof -
    obtain c where c: "request_bucket sz' al' = Some c" "plc q = Some (Owned c)" using get [OF q(1)] by blast
    have "apart p (unat (block_bytes b)) q (unat (block_bytes c))"
      using heap_invD(8) [OF P(1) b(2) c(2)] q(2) by simp
    then show ?thesis using B(2) request_bucketD(2) [OF c(1)] by (auto simp: apart_def)
  qed
  ultimately show ?thesis using room(2) base by blast
qed

definition demo_called :: arena_sys where
  "demo_called = call_allocate 0 24 8 (arena_start False 0x1000 0x40 0)"

definition demo_missed :: arena_sys where
  "demo_missed = do_refill False 0 24 8 0 demo_called"

definition demo_grown :: arena_sys where
  "demo_grown = do_grow (\<lambda>_ _. True) 0 24 8 0 demo_missed"

definition demo_served :: arena_sys where
  "demo_served = do_refill True 0 24 8 0 demo_grown"

lemma demo_arena_facts:
  "arena_pcs demo_called 0 = Refilling 24 8 0" "arena_pcs demo_missed 0 = Growing 24 8 0"
  "arena_pcs demo_grown 0 = Refilling_Again 24 8 0" "handed demo_served 0x1000 = Some (24, 8)"
  by code_simp+

lemma demo_arena_reachable:
  "arena_reachable (\<lambda>_ _. True) (arena_start False 0x1000 0x40 0) demo_served"
proof -
  let ?s = "arena_start False 0x1000 0x40 0"
  have "arena_reachable (\<lambda>_ _. True) ?s demo_called" unfolding demo_called_def
    by (rule arena_reachable.step [OF arena_reachable.init]) (rule arena_step.alloc, simp add: arena_start_def)
  then have "arena_reachable (\<lambda>_ _. True) ?s demo_missed" unfolding demo_missed_def
    by (rule arena_reachable.step) (rule arena_step.refill1, rule demo_arena_facts)
  then have "arena_reachable (\<lambda>_ _. True) ?s demo_grown" unfolding demo_grown_def
    by (rule arena_reachable.step) (rule arena_step.grow, rule demo_arena_facts)
  then show ?thesis unfolding demo_served_def
    by (rule arena_reachable.step) (rule arena_step.refill2, rule demo_arena_facts)
qed

lemma arena_blocks_exclusive_witness:
  "handed demo_served 0x1000 = Some (24, 8) \<and> heap_committed (heap demo_served) \<le> 0x40"
  using arena_blocks_exclusive [OF _ _ _ demo_arena_reachable demo_arena_facts(4)] demo_arena_facts(4) by simp

text \<open>The classes between the powers of two are not multiples of the pointer size, so the second
  block of a chunk stores its link at an address that is not aligned for a pointer.\<close>

lemma class_breaks_link_alignment:
  "request_bucket 36 4 = Some 1 \<and> block_bytes 1 = 36 \<and>
   carved 2 0x1000 (block_bytes 1) ! 1 = 0x1024 \<and> \<not> 8 dvd unat (0x1024 :: u64)"
proof (intro conjI)
  show "request_bucket 36 4 = Some 1" "block_bytes 1 = 36" "carved 2 0x1000 (block_bytes 1) ! 1 = 0x1024"
    by code_simp+
qed simp

end
