(* ===== verification/Utf8.thy ===== *)
theory Utf8
  imports Prelude
begin

unbundle bit_operations_syntax

text \<open>
  The UTF-8 helpers of \<open>src/src/utils/utf8.cpp\<close> and the spans of \<open>utf8.hpp\<close>. A span is the list of
  its bytes, its length below \<open>2 ^ 32\<close>. The vector paths read blocks of 32 or 16 bytes; a block
  test on the high bits of all lanes is written over the bytes of the block. The specification is
  the encoding of Unicode scalar values; the theorems show that validation accepts exactly the
  encoded texts, that the AVX2 path agrees with it, and where the NEON path does not.
\<close>

section \<open>Code\<close>

fun utf8_validate :: "u8 list \<Rightarrow> bool" where
  "utf8_validate [] = True"
| "utf8_validate (b1 # rest) =
     (if b1 AND 0x80 = 0 then utf8_validate rest
      else if b1 AND 0xE0 = 0xC0 then
        (case rest of
           b2 # rest' \<Rightarrow>
             if b2 AND 0xC0 \<noteq> 0x80 then False
             else let cp = push_bit 6 (ucast (b1 AND 0x1F)) OR ucast (b2 AND 0x3F) :: u32
                  in if cp < 0x80 then False else utf8_validate rest'
         | _ \<Rightarrow> False)
      else if b1 AND 0xF0 = 0xE0 then
        (case rest of
           b2 # b3 # rest' \<Rightarrow>
             if b2 AND 0xC0 \<noteq> 0x80 then False
             else if b3 AND 0xC0 \<noteq> 0x80 then False
             else let cp = push_bit 12 (ucast (b1 AND 0x0F)) OR push_bit 6 (ucast (b2 AND 0x3F))
                        OR ucast (b3 AND 0x3F) :: u32
                  in if cp < 0x800 then False
                     else if cp \<ge> 0xD800 \<and> cp \<le> 0xDFFF then False
                     else utf8_validate rest'
         | _ \<Rightarrow> False)
      else if b1 AND 0xF8 = 0xF0 then
        (case rest of
           b2 # b3 # b4 # rest' \<Rightarrow>
             if b2 AND 0xC0 \<noteq> 0x80 then False
             else if b3 AND 0xC0 \<noteq> 0x80 then False
             else if b4 AND 0xC0 \<noteq> 0x80 then False
             else let cp = push_bit 18 (ucast (b1 AND 0x07)) OR push_bit 12 (ucast (b2 AND 0x3F))
                        OR push_bit 6 (ucast (b3 AND 0x3F)) OR ucast (b4 AND 0x3F) :: u32
                  in if cp < 0x10000 then False
                     else if cp > 0x10FFFF then False
                     else utf8_validate rest'
         | _ \<Rightarrow> False)
      else False)"

text \<open>Counting: the scalar loop, and the block loop of both vector paths.\<close>

fun count_scalar :: "u8 list \<Rightarrow> u32 \<Rightarrow> u32" where
  "count_scalar [] count = count"
| "count_scalar (b # bs) count = count_scalar bs (if b AND 0xC0 \<noteq> 0x80 then count + 1 else count)"

definition continuation_lanes :: "u8 list \<Rightarrow> nat" where
  "continuation_lanes block = length (filter (\<lambda>b. b AND 0xC0 = 0x80) block)"

function count_blocks :: "nat \<Rightarrow> u8 list \<Rightarrow> u32 \<Rightarrow> u32" where
  "count_blocks w bs count =
     (if w = 0 \<or> length bs < w then count_scalar bs count
      else count_blocks w (drop w bs) (count + (of_nat w - of_nat (continuation_lanes (take w bs)))))"
  by pat_completeness auto
termination by (relation "measure (\<lambda>(w, bs, count). length bs)") auto

declare count_blocks.simps [simp del]

datatype simd = No_Simd | Avx2 | Neon

definition count_codepoints :: "simd \<Rightarrow> u8 list \<Rightarrow> u32" where
  "count_codepoints arch input =
     (if arch = Avx2 \<and> length input \<ge> 32 then count_blocks 32 input 0
      else if arch = Neon \<and> length input \<ge> 16 then count_blocks 16 input 0
      else count_scalar input 0)"

definition all_ascii :: "u8 list \<Rightarrow> bool" where
  "all_ascii block \<longleftrightarrow> (\<forall>b \<in> set block. b AND 0x80 = 0)"

function avx2_loop :: "u8 list \<Rightarrow> bool" where
  "avx2_loop bs =
     (if length bs < 32 then utf8_validate bs
      else if all_ascii (take 32 bs) then avx2_loop (drop 32 bs)
      else utf8_validate bs)"
  by pat_completeness auto
termination by (relation "measure length") auto

definition validate_avx2 :: "u8 list \<Rightarrow> bool" where
  "validate_avx2 input = (if length input < 64 then utf8_validate input else avx2_loop input)"

function neon_loop :: "u8 list \<Rightarrow> bool" where
  "neon_loop bs =
     (if length bs < 16 then utf8_validate bs
      else if all_ascii (take 16 bs) then neon_loop (drop 16 bs)
      else if \<not> utf8_validate bs then False
      else utf8_validate (drop 16 bs))"
  by pat_completeness auto
termination by (relation "measure length") auto

declare avx2_loop.simps [simp del] neon_loop.simps [simp del]

definition validate_neon :: "u8 list \<Rightarrow> bool" where
  "validate_neon input = (if length input < 64 then utf8_validate input else neon_loop input)"

definition validate_simd :: "simd \<Rightarrow> u8 list \<Rightarrow> bool" where
  "validate_simd arch input =
     (case arch of Avx2 \<Rightarrow> validate_avx2 input | Neon \<Rightarrow> validate_neon input | No_Simd \<Rightarrow> utf8_validate input)"

text \<open>The spans of the header.\<close>

definition span_slice :: "u8 list \<Rightarrow> nat \<Rightarrow> nat \<Rightarrow> u8 list" where
  "span_slice bs start stop =
     (let start1 = (if start > length bs then length bs else start);
          stop1 = (if stop > length bs then length bs else stop);
          start2 = (if start1 > stop1 then stop1 else start1)
      in take (stop1 - start2) (drop start2 bs))"

definition span_from_cstr :: "u8 list \<Rightarrow> u8 list" where
  "span_from_cstr memory = takeWhile (\<lambda>b. b \<noteq> 0) memory"

section \<open>Specification\<close>

definition scalar_value :: "nat \<Rightarrow> bool" where
  "scalar_value c \<longleftrightarrow> c < 0xD800 \<or> (0xDFFF < c \<and> c \<le> 0x10FFFF)"

definition utf8_encode :: "nat \<Rightarrow> u8 list" where
  "utf8_encode c =
     (if c < 0x80 then [of_nat c]
      else if c < 0x800 then [of_nat (0xC0 + c div 64), of_nat (0x80 + c mod 64)]
      else if c < 0x10000 then [of_nat (0xE0 + c div 4096), of_nat (0x80 + c div 64 mod 64), of_nat (0x80 + c mod 64)]
      else [of_nat (0xF0 + c div 262144), of_nat (0x80 + c div 4096 mod 64), of_nat (0x80 + c div 64 mod 64),
        of_nat (0x80 + c mod 64)])"

section \<open>Bytes and their bits\<close>

lemma u8_less: "unat (b :: u8) < 256"
proof -
  have "unat b < 2 ^ LENGTH(8)" by (rule unsigned_less)
  then show ?thesis by simp
qed

lemma high_bits:
  fixes b :: u8
  assumes "m = NOT (2 ^ k - 1)" "unat c = n * 2 ^ k"
  shows "b AND m = c \<longleftrightarrow> unat b div 2 ^ k = n"
proof -
  have "unat (b AND m) = unat b div 2 ^ k * 2 ^ k" unfolding assms(1) by (rule unat_and_not_mask)
  then have "b AND m = c \<longleftrightarrow> unat b div 2 ^ k * 2 ^ k = n * 2 ^ k" using assms(2) by (metis unat_eqI)
  then show ?thesis by simp
qed

lemma lead_tests:
  fixes b :: u8
  shows "b AND 0x80 = 0 \<longleftrightarrow> unat b div 128 = 0" "b AND 0xE0 = 0xC0 \<longleftrightarrow> unat b div 32 = 6"
    "b AND 0xF0 = 0xE0 \<longleftrightarrow> unat b div 16 = 14" "b AND 0xF8 = 0xF0 \<longleftrightarrow> unat b div 8 = 30"
    "b AND 0xC0 = 0x80 \<longleftrightarrow> unat b div 64 = 2"
  using high_bits [of "0x80" 7 0 0 b] high_bits [of "0xE0" 5 "0xC0" 6 b] high_bits [of "0xF0" 4 "0xE0" 14 b]
    high_bits [of "0xF8" 3 "0xF0" 30 b] high_bits [of "0xC0" 6 "0x80" 2 b]
  by simp_all

lemma low_bits:
  fixes b :: u8
  assumes "m = 2 ^ k - 1"
  shows "unat (b AND m) = unat b mod 2 ^ k"
proof -
  have "b AND m = take_bit k b" by (simp add: assms take_bit_eq_mask mask_eq_exp_minus_1)
  then have "unat (b AND m) = take_bit k (unat b)" by (simp only: unsigned_take_bit_eq)
  then show ?thesis by (simp only: take_bit_eq_mod)
qed

lemma unat_ucast_byte [simp]: "unat (ucast (b :: u8) :: u32) = unat b"
proof -
  have "unat b < 2 ^ LENGTH(8)" by (rule unsigned_less)
  then have "take_bit 32 (unat b) = unat b" by (simp add: take_bit_nat_eq_self)
  then show ?thesis by (simp add: unsigned_ucast_eq)
qed

lemma unat_shift_or:
  fixes a b :: u32
  assumes b: "unat b < 2 ^ k" and fit: "unat a * 2 ^ k + unat b < 2 ^ 32"
  shows "unat (push_bit k a OR b) = unat a * 2 ^ k + unat b"
proof -
  have "take_bit k b = b" using b by (intro unat_eqI) (simp add: unsigned_take_bit_eq take_bit_nat_eq_self)
  then have "\<not> bit (push_bit k a) n \<or> \<not> bit b n" for n
    by (metis bit_push_bit_iff bit_take_bit_iff not_le)
  then have "push_bit k a OR b = push_bit k a + b" by (simp add: disjunctive_add)
  moreover have "unat (of_nat (unat a * 2 ^ k) :: u32) = unat a * 2 ^ k" using fit unfolding unat_of_nat by simp
  then have "unat (push_bit k a) = unat a * 2 ^ k" by (simp add: push_bit_eq_mult)
  ultimately show ?thesis using fit by (simp add: unat_word_ariths(1))
qed

lemma low_consts:
  fixes b :: u8
  shows "unat (b AND 0x1F) = unat b mod 32" "unat (b AND 0x3F) = unat b mod 64"
    "unat (b AND 0x0F) = unat b mod 16" "unat (b AND 0x07) = unat b mod 8"
  using low_bits [of "0x1F" 5 b] low_bits [of "0x3F" 6 b] low_bits [of "0x0F" 4 b] low_bits [of "0x07" 3 b] by simp_all

lemma cp2:
  fixes b1 b2 :: u8
  shows "unat (push_bit 6 (ucast (b1 AND 0x1F)) OR ucast (b2 AND 0x3F) :: u32) = unat b1 mod 32 * 64 + unat b2 mod 64"
proof -
  have "unat b1 mod 32 < 32" "unat b2 mod 64 < 64" by simp_all
  then have "unat b1 mod 32 * 2 ^ 6 + unat b2 mod 64 < 2 ^ 32" by simp
  then show ?thesis using unat_shift_or [of "ucast (b2 AND 0x3F)" 6 "ucast (b1 AND 0x1F)"] by (simp add: low_consts)
qed

lemma cp3:
  fixes b1 b2 b3 :: u8
  shows "unat (push_bit 12 (ucast (b1 AND 0x0F)) OR push_bit 6 (ucast (b2 AND 0x3F)) OR ucast (b3 AND 0x3F) :: u32)
    = unat b1 mod 16 * 4096 + unat b2 mod 64 * 64 + unat b3 mod 64"
proof -
  let ?lo = "push_bit 6 (ucast (b2 AND 0x3F)) OR ucast (b3 AND 0x3F) :: u32"
  have m: "unat b1 mod 16 < 16" "unat b2 mod 64 < 64" "unat b3 mod 64 < 64" by simp_all
  then have lo: "unat ?lo = unat b2 mod 64 * 64 + unat b3 mod 64"
    using unat_shift_or [of "ucast (b3 AND 0x3F)" 6 "ucast (b2 AND 0x3F)"] by (simp add: low_consts)
  have "unat ?lo < 2 ^ 12" "unat b1 mod 16 * 2 ^ 12 + unat ?lo < 2 ^ 32" unfolding lo using m by simp_all
  then have "unat (push_bit 12 (ucast (b1 AND 0x0F)) OR ?lo) = unat b1 mod 16 * 4096 + unat ?lo"
    using unat_shift_or [of ?lo 12 "ucast (b1 AND 0x0F)"] by (simp add: low_consts)
  then show ?thesis unfolding lo by (simp add: or.assoc)
qed

lemma cp4:
  fixes b1 b2 b3 b4 :: u8
  shows "unat (push_bit 18 (ucast (b1 AND 0x07)) OR push_bit 12 (ucast (b2 AND 0x3F)) OR push_bit 6 (ucast (b3 AND 0x3F))
      OR ucast (b4 AND 0x3F) :: u32)
    = unat b1 mod 8 * 262144 + unat b2 mod 64 * 4096 + unat b3 mod 64 * 64 + unat b4 mod 64"
proof -
  let ?lo = "push_bit 6 (ucast (b3 AND 0x3F)) OR ucast (b4 AND 0x3F) :: u32"
  let ?mid = "push_bit 12 (ucast (b2 AND 0x3F)) OR ?lo"
  have m: "unat b1 mod 8 < 8" "unat b2 mod 64 < 64" "unat b3 mod 64 < 64" "unat b4 mod 64 < 64" by simp_all
  then have lo: "unat ?lo = unat b3 mod 64 * 64 + unat b4 mod 64"
    using unat_shift_or [of "ucast (b4 AND 0x3F)" 6 "ucast (b3 AND 0x3F)"] by (simp add: low_consts)
  have "unat ?lo < 2 ^ 12" "unat b2 mod 64 * 2 ^ 12 + unat ?lo < 2 ^ 32" unfolding lo using m by simp_all
  then have mid: "unat ?mid = unat b2 mod 64 * 4096 + unat ?lo"
    using unat_shift_or [of ?lo 12 "ucast (b2 AND 0x3F)"] by (simp add: low_consts)
  have "unat ?mid < 2 ^ 18" "unat b1 mod 8 * 2 ^ 18 + unat ?mid < 2 ^ 32" unfolding mid lo using m by simp_all
  then have "unat (push_bit 18 (ucast (b1 AND 0x07)) OR ?mid) = unat b1 mod 8 * 262144 + unat ?mid"
    using unat_shift_or [of ?mid 18 "ucast (b1 AND 0x07)"] by (simp add: low_consts)
  then show ?thesis unfolding mid lo by (simp add: or.assoc)
qed

section \<open>Validation accepts the encoded texts\<close>

lemma lead_split: "n div k = q \<Longrightarrow> n = q * k + n mod (k :: nat)"
  by (metis div_mult_mod_eq)

lemma digits:
  fixes x y z w :: nat
  assumes "z < 64" "y < 64" "w < 64"
  shows "(x * 64 + z) div 64 = x" "(x * 64 + z) mod 64 = z"
    "(x * 4096 + y * 64 + z) div 4096 = x" "(x * 4096 + y * 64 + z) div 64 mod 64 = y" "(x * 4096 + y * 64 + z) mod 64 = z"
    "(x * 262144 + w * 4096 + y * 64 + z) div 262144 = x" "(x * 262144 + w * 4096 + y * 64 + z) div 4096 mod 64 = w"
    "(x * 262144 + w * 4096 + y * 64 + z) div 64 mod 64 = y" "(x * 262144 + w * 4096 + y * 64 + z) mod 64 = z"
proof -
  have one: "(p * 64 + r) div 64 = p" "(p * 64 + r) mod 64 = r" if "r < 64" for p r :: nat using that by simp_all
  show "(x * 64 + z) div 64 = x" "(x * 64 + z) mod 64 = z" using one assms(1) by blast+
  have e3: "x * 4096 + y * 64 + z = (x * 64 + y) * 64 + z" by simp
  have d2: "n div 4096 = n div 64 div 64" for n :: nat by (simp add: div_mult2_eq [symmetric])
  have d3: "n div 262144 = n div 64 div 64 div 64" for n :: nat by (simp add: div_mult2_eq [symmetric])
  show "(x * 4096 + y * 64 + z) div 4096 = x" "(x * 4096 + y * 64 + z) div 64 mod 64 = y"
    "(x * 4096 + y * 64 + z) mod 64 = z" unfolding d2 e3 by (simp_all only: one assms)
  have e4: "x * 262144 + w * 4096 + y * 64 + z = ((x * 64 + w) * 64 + y) * 64 + z" by simp
  show "(x * 262144 + w * 4096 + y * 64 + z) div 262144 = x" "(x * 262144 + w * 4096 + y * 64 + z) div 4096 mod 64 = w"
    "(x * 262144 + w * 4096 + y * 64 + z) div 64 mod 64 = y" "(x * 262144 + w * 4096 + y * 64 + z) mod 64 = z"
    unfolding d2 d3 e4 by (simp_all only: one assms)
qed

lemma encode_back2:
  assumes "unat b1 div 32 = 6" "unat b2 div 64 = 2" and c: "c = unat b1 mod 32 * 64 + unat b2 mod 64" and "0x80 \<le> c"
  shows "utf8_encode c = [b1, b2 :: u8]" "scalar_value c"
proof -
  define x z where "x = unat b1 mod 32" and "z = unat b2 mod 64"
  have d: "unat b1 = 192 + x" "unat b2 = 128 + z"
    using lead_split [OF assms(1)] lead_split [OF assms(2)] by (simp_all add: x_def z_def)
  have m: "x < 32" "z < 64" by (simp_all add: x_def z_def)
  have cc: "c = x * 64 + z" by (simp add: c x_def z_def)
  then have lt: "c < 0x800" using m by simp
  have "192 + c div 64 = unat b1" "128 + c mod 64 = unat b2" using d digits(1,2) [of z 0 0 x] m by (simp_all add: cc)
  then show "utf8_encode c = [b1, b2]" using assms(4) lt by (simp add: utf8_encode_def)
  show "scalar_value c" using lt by (simp add: scalar_value_def)
qed

lemma encode_back3:
  assumes "unat b1 div 16 = 14" "unat b2 div 64 = 2" "unat b3 div 64 = 2"
    and c: "c = unat b1 mod 16 * 4096 + unat b2 mod 64 * 64 + unat b3 mod 64" and "0x800 \<le> c"
  shows "utf8_encode c = [b1, b2, b3 :: u8]" "c < 0x10000"
proof -
  define x y z where "x = unat b1 mod 16" and "y = unat b2 mod 64" and "z = unat b3 mod 64"
  have d: "unat b1 = 224 + x" "unat b2 = 128 + y" "unat b3 = 128 + z"
    using lead_split [OF assms(1)] lead_split [OF assms(2)] lead_split [OF assms(3)] by (simp_all add: x_def y_def z_def)
  have m: "x < 16" "y < 64" "z < 64" by (simp_all add: x_def y_def z_def)
  have cc: "c = x * 4096 + y * 64 + z" by (simp add: c x_def y_def z_def)
  then show lt: "c < 0x10000" using m by simp
  have "224 + c div 4096 = unat b1" "128 + c div 64 mod 64 = unat b2" "128 + c mod 64 = unat b3"
    using d digits(3-5) [OF m(3,2), of 0 x] by (simp_all only: cc)
  then show "utf8_encode c = [b1, b2, b3]" using assms(5) lt by (simp add: utf8_encode_def)
qed

lemma encode_back4:
  assumes "unat b1 div 8 = 30" "unat b2 div 64 = 2" "unat b3 div 64 = 2" "unat b4 div 64 = 2"
    and c: "c = unat b1 mod 8 * 262144 + unat b2 mod 64 * 4096 + unat b3 mod 64 * 64 + unat b4 mod 64" and "0x10000 \<le> c"
  shows "utf8_encode c = [b1, b2, b3, b4 :: u8]"
proof -
  define x y z w where "x = unat b1 mod 8" and "y = unat b2 mod 64" and "z = unat b3 mod 64" and "w = unat b4 mod 64"
  have d: "unat b1 = 240 + x" "unat b2 = 128 + y" "unat b3 = 128 + z" "unat b4 = 128 + w"
    using lead_split [OF assms(1)] lead_split [OF assms(2)] lead_split [OF assms(3)] lead_split [OF assms(4)]
    by (simp_all add: x_def y_def z_def w_def)
  have m: "x < 8" "y < 64" "z < 64" "w < 64" by (simp_all add: x_def y_def z_def w_def)
  have cc: "c = x * 262144 + y * 4096 + z * 64 + w" by (simp add: c x_def y_def z_def w_def)
  have "240 + c div 262144 = unat b1" "128 + c div 4096 mod 64 = unat b2" "128 + c div 64 mod 64 = unat b3"
    "128 + c mod 64 = unat b4" using d digits(6-9) [OF m(4,3,2), of x] by (simp_all only: cc)
  then show "utf8_encode c = [b1, b2, b3, b4]" using assms(6) by (simp add: utf8_encode_def)
qed

lemma unat_byte: "n < 256 \<Longrightarrow> unat (of_nat n :: u8) = n"
  unfolding unat_of_nat by simp

lemma u32_le [simp]: "a \<le> b \<longleftrightarrow> unat a \<le> unat (b :: u32)"
  by (rule word_le_nat_alt)

lemma validate_lead1: "unat b1 div 128 = 0 \<Longrightarrow> utf8_validate (b1 # rest) = utf8_validate rest"
  by (simp add: lead_tests)

lemma validate_lead2:
  assumes "unat b1 div 32 = 6"
  shows "utf8_validate (b1 # rest) = (case rest of
     b2 # rest' \<Rightarrow> unat b2 div 64 = 2 \<and> 0x80 \<le> unat b1 mod 32 * 64 + unat b2 mod 64 \<and> utf8_validate rest'
   | _ \<Rightarrow> False)"
proof -
  have "unat b1 div 128 \<noteq> 0" using lead_split [OF assms] by simp
  then show ?thesis using assms by (auto simp: lead_tests cp2 word_less_nat_alt Let_def split: list.splits)
qed

lemma validate_lead3:
  assumes "unat b1 div 16 = 14"
  shows "utf8_validate (b1 # rest) = (case rest of
     b2 # b3 # rest' \<Rightarrow> unat b2 div 64 = 2 \<and> unat b3 div 64 = 2 \<and>
       (let cp = unat b1 mod 16 * 4096 + unat b2 mod 64 * 64 + unat b3 mod 64
        in 0x800 \<le> cp \<and> \<not> (0xD800 \<le> cp \<and> cp \<le> 0xDFFF)) \<and> utf8_validate rest'
   | _ \<Rightarrow> False)"
proof -
  have "unat b1 div 128 \<noteq> 0" "unat b1 div 32 \<noteq> 6" using lead_split [OF assms] by simp_all
  then show ?thesis using assms by (auto simp: lead_tests cp3 word_less_nat_alt Let_def split: list.splits)
qed

lemma validate_lead4:
  assumes "unat b1 div 8 = 30"
  shows "utf8_validate (b1 # rest) = (case rest of
     b2 # b3 # b4 # rest' \<Rightarrow> unat b2 div 64 = 2 \<and> unat b3 div 64 = 2 \<and> unat b4 div 64 = 2 \<and>
       (let cp = unat b1 mod 8 * 262144 + unat b2 mod 64 * 4096 + unat b3 mod 64 * 64 + unat b4 mod 64
        in 0x10000 \<le> cp \<and> cp \<le> 0x10FFFF) \<and> utf8_validate rest'
   | _ \<Rightarrow> False)"
proof -
  have "unat b1 div 128 \<noteq> 0" "unat b1 div 32 \<noteq> 6" "unat b1 div 16 \<noteq> 14" using lead_split [OF assms] by simp_all
  then show ?thesis using assms by (auto simp: lead_tests cp4 word_less_nat_alt Let_def split: list.splits)
qed

lemma validate_lead_other:
  "unat b1 div 128 \<noteq> 0 \<Longrightarrow> unat b1 div 32 \<noteq> 6 \<Longrightarrow> unat b1 div 16 \<noteq> 14 \<Longrightarrow> unat b1 div 8 \<noteq> 30 \<Longrightarrow>
    \<not> utf8_validate (b1 # rest)"
  by (simp add: lead_tests)

declare utf8_validate.simps(2) [simp del] u32_le [simp del]

lemma lead_byte:
  fixes q k x :: nat
  assumes "x < k" "n = q * k"
  shows "(n + x) mod k = x" "(n + x) div k = q"
  using assms by (simp_all add: mult.commute)

lemmas cont_byte = lead_byte [of _ 64 128 2, simplified]
lemmas lead2_byte = lead_byte [of _ 32 192 6, simplified]
lemmas lead3_byte = lead_byte [of _ 16 224 14, simplified]
lemmas lead4_byte = lead_byte [of _ 8 240 30, simplified]

lemma validate_encode:
  assumes "scalar_value c"
  shows "utf8_validate (utf8_encode c @ rest) = utf8_validate rest"
proof -
  consider "c < 0x80" | "0x80 \<le> c" "c < 0x800" | "0x800 \<le> c" "c < 0x10000" | "0x10000 \<le> c" by linarith
  then show ?thesis
  proof cases
    case 1
    then show ?thesis by (simp add: utf8_encode_def validate_lead1 unat_byte)
  next
    case 2
    define x z where "x = c div 64" and "z = c mod 64"
    have m: "x < 32" "z < 64" "c = x * 64 + z" using 2 by (simp_all add: x_def z_def)
    have "unat (of_nat (0xC0 + x) :: u8) = 192 + x" "unat (of_nat (0x80 + z) :: u8) = 128 + z"
      using m by (simp_all only: unat_byte)
    moreover have "utf8_encode c = [of_nat (0xC0 + x), of_nat (0x80 + z)]"
      using 2 by (simp add: utf8_encode_def x_def z_def)
    ultimately show ?thesis using 2 m(3)
      by (simp only: append_Cons append_Nil validate_lead2 list.case lead2_byte [OF m(1)] cont_byte [OF m(2)]) simp
  next
    case 3
    define x y z where "x = c div 4096" and "y = c div 64 mod 64" and "z = c mod 64"
    have m: "x < 16" "y < 64" "z < 64" using 3 by (simp_all add: x_def y_def z_def)
    have "c = c div 64 * 64 + z" "c div 64 = c div 64 div 64 * 64 + y" unfolding y_def z_def by simp_all
    moreover have "c div 64 div 64 = x" by (simp add: x_def div_mult2_eq [symmetric])
    ultimately have c: "c = x * 4096 + y * 64 + z" by linarith
    have "unat (of_nat (0xE0 + x) :: u8) = 224 + x" "unat (of_nat (0x80 + y) :: u8) = 128 + y"
      "unat (of_nat (0x80 + z) :: u8) = 128 + z" using m by (simp_all only: unat_byte)
    moreover have "utf8_encode c = [of_nat (0xE0 + x), of_nat (0x80 + y), of_nat (0x80 + z)]"
      using 3 by (simp add: utf8_encode_def x_def y_def z_def)
    ultimately show ?thesis using 3 assms c
      by (simp only: append_Cons append_Nil validate_lead3 list.case lead3_byte [OF m(1)] cont_byte [OF m(2)]
          cont_byte [OF m(3)] Let_def) (auto simp: scalar_value_def)
  next
    case 4
    define x w y z where "x = c div 262144" and "w = c div 4096 mod 64" and "y = c div 64 mod 64" and "z = c mod 64"
    have "c < 5 * 262144" using assms 4 by (simp add: scalar_value_def)
    then have "x < 5" unfolding x_def by (rule less_mult_imp_div_less)
    then have m: "x < 8" "y < 64" "z < 64" "w < 64" by (simp_all add: w_def y_def z_def)
    have d: "c div 4096 = c div 64 div 64" "c div 262144 = c div 64 div 64 div 64"
      by (simp_all add: div_mult2_eq [symmetric])
    have "c = c div 64 * 64 + z" "c div 64 = c div 64 div 64 * 64 + y" "c div 64 div 64 = x * 64 + w"
      unfolding x_def y_def z_def w_def d by (rule div_mult_mod_eq [symmetric])+
    then have c: "c = x * 262144 + w * 4096 + y * 64 + z" by linarith
    have "unat (of_nat (0xF0 + x) :: u8) = 240 + x" "unat (of_nat (0x80 + w) :: u8) = 128 + w"
      "unat (of_nat (0x80 + y) :: u8) = 128 + y" "unat (of_nat (0x80 + z) :: u8) = 128 + z"
      using m by (simp_all only: unat_byte)
    moreover have "utf8_encode c = [of_nat (0xF0 + x), of_nat (0x80 + w), of_nat (0x80 + y), of_nat (0x80 + z)]"
      using 4 by (simp add: utf8_encode_def x_def y_def z_def w_def)
    ultimately show ?thesis using 4 assms c
      by (simp only: append_Cons append_Nil validate_lead4 list.case lead4_byte [OF m(1)] cont_byte [OF m(2)]
          cont_byte [OF m(3)] cont_byte [OF m(4)] Let_def) (simp add: scalar_value_def)
  qed
qed

lemma validate_decodes:
  "utf8_validate bs \<Longrightarrow> bs \<noteq> [] \<Longrightarrow>
     \<exists>c rest. scalar_value c \<and> bs = utf8_encode c @ rest \<and> utf8_validate rest"
proof -
  assume v: "utf8_validate bs" and "bs \<noteq> []"
  then obtain b1 r where bs: "bs = b1 # r" by (cases bs) auto
  consider "unat b1 div 128 = 0" | "unat b1 div 32 = 6" | "unat b1 div 16 = 14" | "unat b1 div 8 = 30"
    using v validate_lead_other [of b1 r] bs by blast
  then show ?thesis
  proof cases
    case 1
    have "unat b1 < 128" using lead_split [OF 1] by simp
    then have "utf8_encode (unat b1) = [b1]" "scalar_value (unat b1)" by (simp_all add: utf8_encode_def scalar_value_def)
    then show ?thesis using v validate_lead1 [OF 1] bs by (metis append_Cons append_Nil)
  next
    case 2
    then obtain b2 r2 where r: "r = b2 # r2" "unat b2 div 64 = 2" "0x80 \<le> unat b1 mod 32 * 64 + unat b2 mod 64"
      "utf8_validate r2" using v bs by (auto simp: validate_lead2 split: list.splits)
    show ?thesis using encode_back2 [OF 2 r(2) refl r(3)] r bs by (metis append_Cons append_Nil)
  next
    case 3
    then obtain b2 b3 r2 where r: "r = b2 # b3 # r2" "unat b2 div 64 = 2" "unat b3 div 64 = 2" "utf8_validate r2"
      and cp: "0x800 \<le> unat b1 mod 16 * 4096 + unat b2 mod 64 * 64 + unat b3 mod 64"
        "\<not> (0xD800 \<le> unat b1 mod 16 * 4096 + unat b2 mod 64 * 64 + unat b3 mod 64 \<and>
           unat b1 mod 16 * 4096 + unat b2 mod 64 * 64 + unat b3 mod 64 \<le> 0xDFFF)"
      using v bs by (auto simp: validate_lead3 Let_def split: list.splits)
    note E = encode_back3 [OF 3 r(2,3) refl cp(1)]
    have "scalar_value (unat b1 mod 16 * 4096 + unat b2 mod 64 * 64 + unat b3 mod 64)"
      using cp(2) E(2) unfolding scalar_value_def by linarith
    then show ?thesis using E(1) r bs by (metis append_Cons append_Nil)
  next
    case 4
    then obtain b2 b3 b4 r2 where r: "r = b2 # b3 # b4 # r2" "unat b2 div 64 = 2" "unat b3 div 64 = 2"
        "unat b4 div 64 = 2" "utf8_validate r2"
      and cp: "0x10000 \<le> unat b1 mod 8 * 262144 + unat b2 mod 64 * 4096 + unat b3 mod 64 * 64 + unat b4 mod 64"
        "unat b1 mod 8 * 262144 + unat b2 mod 64 * 4096 + unat b3 mod 64 * 64 + unat b4 mod 64 \<le> 0x10FFFF"
      using v bs by (auto simp: validate_lead4 Let_def split: list.splits)
    note E = encode_back4 [OF 4 r(2,3,4) refl cp(1)]
    have "scalar_value (unat b1 mod 8 * 262144 + unat b2 mod 64 * 4096 + unat b3 mod 64 * 64 + unat b4 mod 64)"
      using cp unfolding scalar_value_def by linarith
    then show ?thesis using E r bs by (metis append_Cons append_Nil)
  qed
qed

lemma utf8_encode_nonempty: "utf8_encode c \<noteq> []"
  by (simp add: utf8_encode_def)

lemma validate_decodes_all:
  "utf8_validate bs \<Longrightarrow> \<exists>cs. (\<forall>c \<in> set cs. scalar_value c) \<and> bs = concat (map utf8_encode cs)"
proof (induction "length bs" arbitrary: bs rule: less_induct)
  case less
  show ?case
  proof (cases "bs = []")
    case False
    from validate_decodes [OF less.prems False] obtain c rest where
      c: "scalar_value c" "bs = utf8_encode c @ rest" "utf8_validate rest" by blast
    then have "length rest < length bs" using utf8_encode_nonempty by simp
    then obtain cs where "\<forall>c \<in> set cs. scalar_value c" "rest = concat (map utf8_encode cs)"
      using less.hyps c(3) by blast
    then show ?thesis using c by (intro exI [of _ "c # cs"]) simp
  qed (auto intro: exI [of _ "[]"])
qed

lemma validate_ascii_prefix: "all_ascii xs \<Longrightarrow> utf8_validate (xs @ ys) = utf8_validate ys"
  by (induction xs) (auto simp: all_ascii_def lead_tests validate_lead1)

lemma avx2_loop_eq: "avx2_loop bs = utf8_validate bs"
proof (induction bs rule: avx2_loop.induct)
  case (1 bs)
  show ?case
  proof (cases "length bs < 32 \<or> \<not> all_ascii (take 32 bs)")
    case True
    then show ?thesis by (subst avx2_loop.simps) auto
  next
    case False
    then have "avx2_loop bs = utf8_validate (drop 32 bs)" using 1 by (subst avx2_loop.simps) auto
    then show ?thesis using validate_ascii_prefix [of "take 32 bs" "drop 32 bs"] False by simp
  qed
qed

section \<open>Counting\<close>

definition not_continuation :: "u8 \<Rightarrow> bool" where
  "not_continuation b \<longleftrightarrow> b AND 0xC0 \<noteq> 0x80"

lemma count_scalar_eq: "count_scalar bs n = n + of_nat (length (filter not_continuation bs))"
  by (induction bs arbitrary: n) (auto simp: not_continuation_def)

lemma count_blocks_eq: "count_blocks w bs n = n + of_nat (length (filter not_continuation bs))"
proof (induction w bs n rule: count_blocks.induct)
  case (1 w bs n)
  show ?case
  proof (cases "w = 0 \<or> length bs < w")
    case True
    then show ?thesis by (subst count_blocks.simps) (simp add: count_scalar_eq)
  next
    case False
    let ?b = "take w bs"
    have "length (filter not_continuation ?b) + continuation_lanes ?b = w"
      using sum_length_filter_compl [of not_continuation ?b] False
      by (simp add: continuation_lanes_def not_continuation_def)
    then have "of_nat w - of_nat (continuation_lanes ?b) = (of_nat (length (filter not_continuation ?b)) :: u32)"
      by (metis add_diff_cancel_right' of_nat_add)
    moreover have "filter not_continuation bs = filter not_continuation ?b @ filter not_continuation (drop w bs)"
      by (metis append_take_drop_id filter_append)
    ultimately show ?thesis using 1 False by (subst count_blocks.simps) (simp add: add.assoc)
  qed
qed

lemma not_continuation_encode: "scalar_value c \<Longrightarrow> length (filter not_continuation (utf8_encode c)) = 1"
proof -
  assume s: "scalar_value c"
  have cont: "\<not> not_continuation (of_nat (0x80 + n mod 64))" for n
  proof -
    have "n mod 64 < 64" by simp
    then have "unat (of_nat (0x80 + n mod 64) :: u8) = 128 + n mod 64" by (intro unat_byte) simp
    then show ?thesis unfolding not_continuation_def lead_tests by simp
  qed
  have lead: "not_continuation (of_nat n)" if "n < 0x80 \<or> 0xC0 \<le> n" "n < 256" for n
  proof -
    have "unat (of_nat n :: u8) = n" using that by (intro unat_byte)
    then show ?thesis unfolding not_continuation_def lead_tests using that by auto
  qed
  have four: "not_continuation (of_nat (0xF0 + c div 262144))"
  proof (rule lead)
    have "c div 262144 < 5" using s by (intro less_mult_imp_div_less) (auto simp: scalar_value_def)
    then show "0xF0 + c div 262144 < 256" by simp
  qed simp
  show ?thesis using lead [of c] lead [of "0xC0 + c div 64"] lead [of "0xE0 + c div 4096"] four
      cont [of c] cont [of "c div 64"] cont [of "c div 4096"]
    by (auto simp: utf8_encode_def less_mult_imp_div_less simp del: of_nat_add of_nat_numeral)
qed

section \<open>Properties\<close>

text \<open>C15: The scalar validator accepts a byte string exactly when it is the UTF-8 encoding of a
  sequence of Unicode scalar values: no overlong form, no surrogate, nothing above U+10FFFF and no
  truncated sequence passes, and nothing encoded is rejected.\<close>
theorem validate_iff_encoded:
  "utf8_validate bs \<longleftrightarrow> (\<exists>cs. list_all scalar_value cs \<and> bs = concat (map utf8_encode cs))"
proof
  assume "utf8_validate bs"
  then show "\<exists>cs. list_all scalar_value cs \<and> bs = concat (map utf8_encode cs)"
    using validate_decodes_all by (simp add: list_all_iff)
next
  assume "\<exists>cs. list_all scalar_value cs \<and> bs = concat (map utf8_encode cs)"
  then obtain cs where cs: "list_all scalar_value cs" "bs = concat (map utf8_encode cs)" by blast
  from cs(1) have "utf8_validate (concat (map utf8_encode cs))"
    by (induction cs) (simp_all add: validate_encode)
  then show "utf8_validate bs" by (simp only: cs(2))
qed

text \<open>C16: With AVX2 and without vector instructions validation is the scalar validation, and on
  every path the count of code points of an encoded text is the number of scalar values encoded,
  modulo \<open>2 ^ 32\<close>.\<close>
theorem simd_paths_agree:
  assumes "list_all scalar_value cs" and "arch \<noteq> Neon"
  shows "validate_simd arch bs = utf8_validate bs \<and>
    count_codepoints any (concat (map utf8_encode cs)) = of_nat (length cs)"
proof
  show "validate_simd arch bs = utf8_validate bs"
    using assms(2) by (cases arch) (simp_all add: validate_simd_def validate_avx2_def avx2_loop_eq)
  have "length (filter not_continuation (concat (map utf8_encode cs))) = length cs"
    using assms(1) by (induction cs) (simp_all add: not_continuation_encode)
  then show "count_codepoints any (concat (map utf8_encode cs)) = of_nat (length cs)"
    by (simp add: count_codepoints_def count_scalar_eq count_blocks_eq)
qed

lemma simd_paths_agree_witness:
  "validate_simd Avx2 [0x41] = utf8_validate [0x41] \<and> count_codepoints Neon (concat (map utf8_encode [0x41, 0x20AC])) = 2"
  using simd_paths_agree [of "[0x41, 0x20AC]" Avx2 "[0x41]" Neon] by (simp add: scalar_value_def)

text \<open>The NEON path validates the tail again from 16 bytes further on, which may be the middle of
  a character: a valid text of 64 bytes with a two-byte character at offset 15 is rejected.\<close>

lemma neon_rejects_valid_text:
  "utf8_validate (replicate 15 0x61 @ [0xC3, 0xA9] @ replicate 47 0x61) \<and>
   \<not> validate_neon (replicate 15 0x61 @ [0xC3, 0xA9] @ replicate 47 0x61)"
  by code_simp

end
