(* ===== verification/Chunk_Units.thy ===== *)
theory Chunk_Units
  imports Prelude
begin

unbundle bit_operations_syntax

text \<open>
  The unit scanners of \<open>src/src/inference/chunking.cpp\<close>: one character, one word or one sentence
  from a position on. A text is its list of bytes, shorter than \<open>2 ^ 32\<close>; positions never pass its
  length, so they are natural numbers. A scanner returns the unit, if any, and the position it
  leaves behind. Words are found eight bytes at a time with arithmetic on a 64-bit word, on a
  little-endian machine; the first theorem shows that this finds the same byte as a plain loop.
\<close>

section \<open>Bytes\<close>

definition is_space :: "u8 \<Rightarrow> bool" where
  "is_space c \<longleftrightarrow> c = 0x20 \<or> c = 0x0A \<or> c = 0x0D \<or> c = 0x09 \<or> c = 0x0C \<or> c = 0x0B"

definition can_be_space :: "u8 \<Rightarrow> bool" where
  "can_be_space c \<longleftrightarrow> c \<le> 0x20"

definition kByteHighBits :: u64 where "kByteHighBits = 0x8080808080808080"
definition kAsciiWhitespaceLimitBytes :: u64 where "kAsciiWhitespaceLimitBytes = 0x2121212121212121"

definition ascii_space_candidate_mask :: "u64 \<Rightarrow> u64" where
  "ascii_space_candidate_mask w = (w - kAsciiWhitespaceLimitBytes) AND NOT w AND kByteHighBits"

definition trailing_zero_bits :: "u64 \<Rightarrow> nat" where
  "trailing_zero_bits m = length (takeWhile (\<lambda>i. \<not> bit m i) [0..<64])"

definition load_word :: "u8 list \<Rightarrow> u64" where
  "load_word bs = foldr (\<lambda>b w. ucast b + 256 * w) bs 0"

fun scan_space_tail :: "u8 list \<Rightarrow> nat \<Rightarrow> nat" where
  "scan_space_tail [] pos = pos"
| "scan_space_tail (c # cs) pos = (if can_be_space c then pos else scan_space_tail cs (pos + 1))"

function find_ascii_space_candidate :: "u8 list \<Rightarrow> nat \<Rightarrow> nat" where
  "find_ascii_space_candidate bytes pos =
     (if pos + 8 \<le> length bytes then
        let mask = ascii_space_candidate_mask (load_word (take 8 (drop pos bytes)))
        in if mask \<noteq> 0 then pos + trailing_zero_bits mask div 8
           else find_ascii_space_candidate bytes (pos + 8)
      else scan_space_tail (drop pos bytes) pos)"
  by pat_completeness auto
termination by (relation "measure (\<lambda>(bytes, pos). length bytes - pos)") auto

declare find_ascii_space_candidate.simps [simp del]

definition utf8_step :: "u8 list \<Rightarrow> nat \<Rightarrow> nat" where
  "utf8_step bytes pos =
     (if pos \<ge> length bytes then pos
      else
        let c = bytes ! pos
        in if c AND 0x80 = 0 then pos + 1
           else
             let width = (if c AND 0xE0 = 0xC0 then 2 else if c AND 0xF0 = 0xE0 then 3
                          else if c AND 0xF8 = 0xF0 then 4 else 1)
             in if length bytes - pos \<ge> width then pos + width else pos + 1)"

section \<open>Units\<close>

type_synonym unit_scan = "(nat \<times> nat) option \<times> nat"

definition next_char_unit :: "u8 list \<Rightarrow> nat \<Rightarrow> unit_scan" where
  "next_char_unit bytes pos =
     (if pos \<ge> length bytes then (None, pos)
      else let stop = utf8_step bytes pos in (Some (pos, stop), stop))"

text \<open>White space can be white space, so the first test of the word scanner adds nothing.\<close>

lemma is_space_can_be: "is_space c \<Longrightarrow> can_be_space c"
  by (auto simp: is_space_def can_be_space_def)

fun skip_spaces :: "u8 list \<Rightarrow> nat \<Rightarrow> nat" where
  "skip_spaces [] p = p"
| "skip_spaces (c # cs) p = (if is_space c then skip_spaces cs (p + 1) else p)"

lemma scan_space_tail_ge: "pos \<le> scan_space_tail bs pos"
  by (induction bs pos rule: scan_space_tail.induct) auto

lemma find_candidate_ge: "pos \<le> find_ascii_space_candidate bytes pos"
proof (induction bytes pos rule: find_ascii_space_candidate.induct)
  case (1 bytes pos)
  then show ?case
    by (subst find_ascii_space_candidate.simps) (auto simp: Let_def scan_space_tail_ge intro: order_trans [of _ "pos + 8"])
qed

function word_end :: "u8 list \<Rightarrow> nat \<Rightarrow> nat" where
  "word_end bytes p =
     (if p < length bytes then
        let p' = find_ascii_space_candidate bytes p
        in if p' \<ge> length bytes then p'
           else if is_space (bytes ! p') then p'
           else word_end bytes (p' + 1)
      else p)"
  by pat_completeness auto
termination
proof (relation "measure (\<lambda>(bytes, p). length bytes - p)", goal_cases)
  case (2 bytes p x)
  then show ?case using find_candidate_ge [of p bytes] by simp
qed simp

declare word_end.simps [simp del]

definition next_word_unit :: "u8 list \<Rightarrow> nat \<Rightarrow> unit_scan" where
  "next_word_unit bytes pos =
     (let p = skip_spaces (drop pos bytes) pos
      in if p \<ge> length bytes then (None, p)
         else let stop = word_end bytes p in (Some (p, stop), stop))"

definition kDefaultSentenceDelimiters :: "u8 list" where
  "kDefaultSentenceDelimiters = [0x2E, 0x21, 0x3F, 0x0A]"

definition is_sentence_delim :: "u8 list \<Rightarrow> u8 \<Rightarrow> bool" where
  "is_sentence_delim delimiters c =
     (if delimiters \<noteq> [] then List.member delimiters c else List.member kDefaultSentenceDelimiters c)"

lemma utf8_step_gt: "pos < length bytes \<Longrightarrow> pos < utf8_step bytes pos"
  by (simp add: utf8_step_def Let_def)

lemma utf8_step_le: "pos \<le> length bytes \<Longrightarrow> utf8_step bytes pos \<le> length bytes"
  by (auto simp: utf8_step_def Let_def)

function sentence_end :: "u8 list \<Rightarrow> u8 list \<Rightarrow> nat \<Rightarrow> nat" where
  "sentence_end delimiters bytes p =
     (if p < length bytes then
        let p' = utf8_step bytes p
        in if is_sentence_delim delimiters (bytes ! p) then p' else sentence_end delimiters bytes p'
      else p)"
  by pat_completeness auto
termination
proof (relation "measure (\<lambda>(_, bytes, p). length bytes - p)", goal_cases)
  case (2 delimiters bytes p x)
  then show ?case using utf8_step_gt [of p bytes] by simp
qed simp

declare sentence_end.simps [simp del]

definition next_sentence_unit :: "u8 list \<Rightarrow> u8 list \<Rightarrow> nat \<Rightarrow> unit_scan" where
  "next_sentence_unit delimiters bytes pos =
     (let p = skip_spaces (drop pos bytes) pos
      in if p \<ge> length bytes then (None, p)
         else let stop = sentence_end delimiters bytes p in (Some (p, stop), stop))"

section \<open>The eight-byte scan\<close>

lemma trailing_zero_bits_eqI:
  assumes "n < 64" "bit m n" "\<And>i. i < n \<Longrightarrow> \<not> bit m i"
  shows "trailing_zero_bits m = n"
proof -
  have "[0..<64] = [0..<n] @ n # [Suc n..<64]" 
    using upt_add_eq_append [of 0 n "64 - n"] assms(1) by (simp add: upt_conv_Cons)
  then have "takeWhile (\<lambda>i. \<not> bit m i) [0..<64] = [0..<n]" using assms(2,3) by (simp add: takeWhile_append)
  then show ?thesis by (simp add: trailing_zero_bits_def)
qed

text \<open>The word of eight bytes and the bytes of the limit, over the integers.\<close>

fun word_val :: "u8 list \<Rightarrow> int" where
  "word_val [] = 0"
| "word_val (b # bs) = uint b + 256 * word_val bs"

fun limit_val :: "nat \<Rightarrow> int" where
  "limit_val 0 = 0"
| "limit_val (Suc n) = 0x21 + 256 * limit_val n"

lemma bit_byte_7: "0 \<le> r \<Longrightarrow> r < 256 \<Longrightarrow> bit (r + 256 * s :: int) 7 \<longleftrightarrow> 128 \<le> r"
proof -
  assume r: "0 \<le> r" "r < 256"
  have "(r + 256 * s) div 128 = r div 128 + 2 * s" by simp
  moreover have "odd (r div 128) \<longleftrightarrow> 128 \<le> r"
  proof (cases "128 \<le> r")
    case True
    then have "r div 128 = 1" using r by (simp add: div_pos_geq)
    then show ?thesis using True by simp
  qed (use r in simp)
  ultimately show ?thesis by (simp add: bit_iff_odd)
qed

lemma bit_byte_up: "0 \<le> r \<Longrightarrow> r < 256 \<Longrightarrow> bit (r + 256 * s :: int) (8 + i) \<longleftrightarrow> bit s i"
proof -
  assume r: "0 \<le> r" "r < 256"
  have "(r + 256 * s) div 2 ^ (8 + i) = (r + 256 * s) div 256 div 2 ^ i"
    by (simp add: power_add zdiv_zmult2_eq)
  also have "(r + 256 * s) div 256 = s" using r by simp
  finally show ?thesis by (simp add: bit_iff_odd)
qed

lemma candidate_bit:
  assumes "q < length bs" "\<And>j. j < q \<Longrightarrow> 0x21 \<le> uint (bs ! j)"
  shows "bit (word_val bs - limit_val (length bs)) (8 * q + 7) \<and> \<not> bit (word_val bs) (8 * q + 7) \<longleftrightarrow> uint (bs ! q) < 0x21"
  using assms
proof (induction bs arbitrary: q)
  case (Cons b bs)
  have b: "0 \<le> uint b" "uint b < 256"
    using uint_bounded [of b] by simp_all
  have d: "word_val (b # bs) - limit_val (length (b # bs)) =
      (uint b - 0x21) + 256 * (word_val bs - limit_val (length bs))" by simp
  have d': "word_val (b # bs) - limit_val (length (b # bs)) =
      (uint b + 0xDF) + 256 * (word_val bs - limit_val (length bs) - 1)" by simp
  show ?case
  proof (cases q)
    case 0
    have w: "bit (word_val (b # bs)) 7 \<longleftrightarrow> 128 \<le> uint b" using bit_byte_7 [OF b] by simp
    show ?thesis
    proof (cases "uint b < 0x21")
      case True
      then have "bit (word_val (b # bs) - limit_val (length (b # bs))) 7" unfolding d' using b by (subst bit_byte_7) auto
      then show ?thesis using True 0 w by simp
    next
      case False
      then have "bit (word_val (b # bs) - limit_val (length (b # bs))) 7 \<longleftrightarrow> 128 \<le> uint b - 0x21"
        unfolding d using b by (subst bit_byte_7) auto
      then show ?thesis using False 0 w by auto
    qed
  next
    case (Suc q')
    have ge: "0x21 \<le> uint b" using Cons.prems(2) [of 0] Suc by simp
    have "bit (word_val (b # bs) - limit_val (length (b # bs))) (8 + (8 * q' + 7)) \<longleftrightarrow>
        bit (word_val bs - limit_val (length bs)) (8 * q' + 7)" unfolding d using ge b by (subst bit_byte_up) auto
    moreover have "bit (word_val (b # bs)) (8 + (8 * q' + 7)) \<longleftrightarrow> bit (word_val bs) (8 * q' + 7)"
      using bit_byte_up [OF b, of "word_val bs" "8 * q' + 7"] by (simp only: word_val.simps)
    moreover have "8 * q + 7 = 8 + (8 * q' + 7)" using Suc by simp
    moreover have "\<And>j. j < q' \<Longrightarrow> 0x21 \<le> uint (bs ! j)" using Cons.prems(2) Suc by (metis Suc_less_eq nth_Cons_Suc)
    ultimately show ?thesis using Cons.IH [of q'] Cons.prems(1) Suc by (simp only: nth_Cons_Suc length_Cons Suc_less_eq)
  qed
qed simp

lemma load_word_val: "load_word bs = word_of_int (word_val bs)"
  by (induction bs) (simp_all add: load_word_def)

lemma limit_val_8: "kAsciiWhitespaceLimitBytes = word_of_int (limit_val 8)"
  by (simp add: kAsciiWhitespaceLimitBytes_def numeral_eq_Suc)

lemma high_bit_iff: "i < 64 \<Longrightarrow> bit kByteHighBits i \<longleftrightarrow> i mod 8 = 7"
proof -
  have "\<forall>i \<in> set [0..<64]. bit kByteHighBits i \<longleftrightarrow> i mod 8 = 7" unfolding kByteHighBits_def by code_simp
  then show "i < 64 \<Longrightarrow> bit kByteHighBits i \<longleftrightarrow> i mod 8 = 7" by simp
qed

lemma can_be_space_iff: "can_be_space c \<longleftrightarrow> uint c < 0x21"
  by (auto simp: can_be_space_def word_le_def)

lemma candidate_mask_bit:
  assumes "length bs = 8" "q < 8" "\<And>j. j < q \<Longrightarrow> \<not> can_be_space (bs ! j)"
  shows "bit (ascii_space_candidate_mask (load_word bs)) (8 * q + 7) \<longleftrightarrow> can_be_space (bs ! q)"
proof -
  have i: "8 * q + 7 < 64" using assms(2) by simp
  have e: "load_word bs - kAsciiWhitespaceLimitBytes = word_of_int (word_val bs - limit_val (length bs))"
    by (simp add: load_word_val limit_val_8 assms(1))
  have "bit (ascii_space_candidate_mask (load_word bs)) (8 * q + 7) \<longleftrightarrow>
      bit (word_val bs - limit_val (length bs)) (8 * q + 7) \<and> \<not> bit (word_val bs) (8 * q + 7)"
    using i high_bit_iff [OF i] unfolding ascii_space_candidate_mask_def e unfolding load_word_val
    by (simp only: bit_and_iff bit_not_iff bit_word_of_int_iff possible_bit_def) auto
  also have "\<dots> \<longleftrightarrow> can_be_space (bs ! q)"
    unfolding can_be_space_iff by (rule candidate_bit) (use assms in \<open>auto simp: can_be_space_iff not_less\<close>)
  finally show ?thesis .
qed

lemma candidate_mask_other: "i < 64 \<Longrightarrow> i mod 8 \<noteq> 7 \<Longrightarrow> \<not> bit (ascii_space_candidate_mask w) i"
  by (simp add: ascii_space_candidate_mask_def bit_and_iff high_bit_iff)

text \<open>The word scan finds the first byte that can be white space.\<close>

lemma candidate_word:
  assumes l: "length bs = 8"
  shows "(ascii_space_candidate_mask (load_word bs) = 0 \<longleftrightarrow> (\<forall>b \<in> set bs. \<not> can_be_space b)) \<and>
    (ascii_space_candidate_mask (load_word bs) \<noteq> 0 \<longrightarrow>
       trailing_zero_bits (ascii_space_candidate_mask (load_word bs)) div 8 =
       length (takeWhile (\<lambda>b. \<not> can_be_space b) bs))"
proof (cases "\<exists>b \<in> set bs. can_be_space b")
  case True
  define q where "q = length (takeWhile (\<lambda>b. \<not> can_be_space b) bs)"
  have "q \<noteq> length bs" using True unfolding q_def by (metis takeWhile_eq_all_conv takeWhile_eq_take take_all_iff order_refl)
  then have q: "q < 8" using l length_takeWhile_le [of "\<lambda>b. \<not> can_be_space b" bs] by (simp add: q_def)
  have bq: "can_be_space (bs ! q)" using nth_length_takeWhile [of "\<lambda>b. \<not> can_be_space b" bs] q l by (simp add: q_def)
  have before: "\<not> can_be_space (bs ! j)" if "j < q" for j
    using that unfolding q_def by (metis nth_mem set_takeWhileD takeWhile_nth)
  define m where "m = ascii_space_candidate_mask (load_word bs)"
  have bit: "bit m (8 * q + 7)" unfolding m_def using candidate_mask_bit [OF l q before] bq by simp
  have "\<not> bit m i" if "i < 8 * q + 7" for i
  proof (cases "i mod 8 = 7")
    case True
    define r where "r = i div 8"
    have i: "i = 8 * r + 7" using True by (simp add: r_def) (metis div_mult_mod_eq mult.commute)
    then have r: "r < q" using that by simp
    then show ?thesis using candidate_mask_bit [OF l, of r] before q unfolding m_def i by simp
  next
    case False
    then show ?thesis using candidate_mask_other that q by (simp add: m_def)
  qed
  then have "trailing_zero_bits m = 8 * q + 7" using q bit by (intro trailing_zero_bits_eqI) simp_all
  moreover have "m \<noteq> 0" using bit by auto
  ultimately show ?thesis using True by (simp add: m_def q_def)
next
  case False
  have "ascii_space_candidate_mask (load_word bs) = 0"
  proof (rule bit_word_eqI)
    fix i assume "i < LENGTH(64)"
    then have i: "i < 64" by simp
    show "bit (ascii_space_candidate_mask (load_word bs)) i \<longleftrightarrow> bit (0 :: u64) i"
    proof (cases "i mod 8 = 7")
      case True
      define r where "r = i div 8"
      have e: "i = 8 * r + 7" using True by (simp add: r_def) (metis div_mult_mod_eq mult.commute)
      then have r: "r < 8" using i by simp
      have "\<not> can_be_space (bs ! j)" if "j < 8" for j using False l that by (metis nth_mem)
      then show ?thesis using candidate_mask_bit [OF l r] r unfolding e by simp
    qed (use candidate_mask_other i in simp)
  qed
  then show ?thesis using False by simp
qed

lemma scan_space_tail_eq: "scan_space_tail bs pos = pos + length (takeWhile (\<lambda>b. \<not> can_be_space b) bs)"
  by (induction bs arbitrary: pos) auto

text \<open>From any position of a text, the scan by 64-bit words stops at the same place as a loop
  over the bytes: at the first byte that is at most the space character, or at the end.\<close>

lemma find_candidate_eq:
  "find_ascii_space_candidate bytes pos = pos + length (takeWhile (\<lambda>b. \<not> can_be_space b) (drop pos bytes))"
proof (induction bytes pos rule: find_ascii_space_candidate.induct)
  case (1 bytes pos)
  show ?case
  proof (cases "pos + 8 \<le> length bytes")
    case True
    let ?w = "take 8 (drop pos bytes)" and ?nc = "\<lambda>b. \<not> can_be_space b"
    have l: "length ?w = 8" using True by simp
    have d: "drop pos bytes = ?w @ drop (pos + 8) bytes"
      by (metis add.commute append_take_drop_id drop_drop)
    show ?thesis
    proof (cases "ascii_space_candidate_mask (load_word ?w) = 0")
      case z: True
      then have "\<forall>b \<in> set ?w. ?nc b" using candidate_word [OF l] by blast
      then have "takeWhile ?nc (drop pos bytes) = ?w @ takeWhile ?nc (drop (pos + 8) bytes)"
        by (subst d) (simp add: takeWhile_append2)
      then show ?thesis using 1 True z l by (subst find_ascii_space_candidate.simps) (simp add: Let_def)
    next
      case nz: False
      then obtain b where "b \<in> set ?w" "\<not> ?nc b" using candidate_word [OF l] by blast
      then have "takeWhile ?nc (drop pos bytes) = takeWhile ?nc ?w" by (subst d) (rule takeWhile_append1)
      then show ?thesis using candidate_word [OF l] nz True
        by (subst find_ascii_space_candidate.simps) (simp add: Let_def)
    qed
  next
    case False
    then show ?thesis by (subst find_ascii_space_candidate.simps) (simp add: scan_space_tail_eq)
  qed
qed

section \<open>The scanners against a loop over the bytes\<close>

lemma skip_spaces_eq: "skip_spaces cs p = p + length (takeWhile is_space cs)"
  by (induction cs arbitrary: p) auto

lemma drop_length_takeWhile: "drop (length (takeWhile P xs)) xs = dropWhile P xs"
  by (metis append_eq_conv_conj takeWhile_dropWhile_id)

lemma takeWhile_weaker:
  "(\<And>x. P x \<Longrightarrow> Q x) \<Longrightarrow> length (takeWhile Q xs) =
     length (takeWhile P xs) + length (takeWhile Q (drop (length (takeWhile P xs)) xs))"
  by (induction xs) auto

lemma word_end_eq:
  "p \<le> length bytes \<Longrightarrow> word_end bytes p = p + length (takeWhile (\<lambda>c. \<not> is_space c) (drop p bytes))"
proof (induction bytes p rule: word_end.induct)
  case (1 bytes p)
  let ?nc = "\<lambda>b. \<not> can_be_space b" and ?ns = "\<lambda>c. \<not> is_space c"
  let ?p' = "p + length (takeWhile ?nc (drop p bytes))"
  have le: "?p' \<le> length bytes" using 1(2) length_takeWhile_le [of ?nc "drop p bytes"] by simp
  have split: "length (takeWhile ?ns (drop p bytes)) =
      length (takeWhile ?nc (drop p bytes)) + length (takeWhile ?ns (drop ?p' bytes))"
    using takeWhile_weaker [of ?nc ?ns "drop p bytes"] is_space_can_be by (auto simp: add.commute)
  show ?case
  proof (cases "p < length bytes")
    case p: True
    show ?thesis
    proof (cases "?p' < length bytes")
      case True
      then have d: "drop ?p' bytes = bytes ! ?p' # drop (Suc ?p') bytes" by (simp add: Cons_nth_drop_Suc)
      show ?thesis
      proof (cases "is_space (bytes ! ?p')")
        case sp: True
        then have "takeWhile ?ns (drop ?p' bytes) = []" by (simp add: d)
        then show ?thesis using p True sp split by (subst word_end.simps) (simp add: find_candidate_eq Let_def)
      next
        case False
        then have "length (takeWhile ?ns (drop ?p' bytes)) = Suc (length (takeWhile ?ns (drop (Suc ?p') bytes)))"
          by (simp add: d)
        moreover have "word_end bytes (?p' + 1) = ?p' + 1 + length (takeWhile ?ns (drop (?p' + 1) bytes))"
          using 1(1) [OF p find_candidate_eq [symmetric]] True False by simp
        ultimately show ?thesis using p True False split by (subst word_end.simps) (simp add: find_candidate_eq Let_def)
      qed
    next
      case False
      then show ?thesis using p le split by (subst word_end.simps) (simp add: find_candidate_eq Let_def)
    qed
  next
    case False
    then show ?thesis using 1(2) by (subst word_end.simps) simp
  qed
qed

text \<open>The word scanner, which looks at eight bytes at a time, finds the word a plain loop over the
  bytes finds: it skips white space, and the word reaches to the next white space.\<close>
theorem next_word_unit_correct:
  assumes "pos \<le> length bytes"
  shows "next_word_unit bytes pos =
    (let p = pos + length (takeWhile is_space (drop pos bytes));
         e = p + length (takeWhile (\<lambda>c. \<not> is_space c) (drop p bytes))
     in if p = length bytes then (None, p) else (Some (p, e), e))"
proof -
  have "pos + length (takeWhile is_space (drop pos bytes)) \<le> length bytes"
    using assms length_takeWhile_le [of is_space "drop pos bytes"] by simp
  then show ?thesis by (auto simp: next_word_unit_def skip_spaces_eq Let_def word_end_eq)
qed

theorem next_word_unit_correct_witness:
  "next_word_unit [0x20, 0x61, 0x62, 0x01, 0x63, 0x64, 0x65, 0x66, 0x67, 0x09] 0 = (Some (1, 9), 9)"
  by (subst next_word_unit_correct) (simp_all add: is_space_def Let_def)

section \<open>Laws of the scanners\<close>

lemma skip_spaces_facts:
  assumes "p = skip_spaces (drop pos bytes) pos" "p < length bytes"
  shows "pos \<le> p" "\<not> is_space (bytes ! p)" "skip_spaces (drop p bytes) p = p"
proof -
  let ?t = "takeWhile is_space (drop pos bytes)"
  have p: "p = pos + length ?t" using assms(1) by (simp add: skip_spaces_eq)
  then show "pos \<le> p" by simp
  have "length ?t < length (drop pos bytes)" using assms(2) p by simp
  then have "\<not> is_space (drop pos bytes ! length ?t)" by (rule nth_length_takeWhile)
  then show ns: "\<not> is_space (bytes ! p)" using p assms(2) by simp
  have "drop p bytes = bytes ! p # drop (Suc p) bytes" using assms(2) by (simp add: Cons_nth_drop_Suc)
  then show "skip_spaces (drop p bytes) p = p" using ns by simp
qed

lemma skip_spaces_behind: "length bytes \<le> pos \<Longrightarrow> skip_spaces (drop pos bytes) pos = pos"
  by simp

lemma word_end_bounds:
  assumes "p < length bytes" "\<not> is_space (bytes ! p)"
  shows "p < word_end bytes p" "word_end bytes p \<le> length bytes"
proof -
  have "drop p bytes = bytes ! p # drop (Suc p) bytes" using assms(1) by (simp add: Cons_nth_drop_Suc)
  then show "p < word_end bytes p" using assms by (simp add: word_end_eq)
  show "word_end bytes p \<le> length bytes"
    using assms(1) length_takeWhile_le [of "\<lambda>c. \<not> is_space c" "drop p bytes"] by (simp add: word_end_eq)
qed

lemma sentence_end_bounds:
  "p < length bytes \<Longrightarrow> p < sentence_end delims bytes p \<and> sentence_end delims bytes p \<le> length bytes"
proof (induction delims bytes p rule: sentence_end.induct)
  case (1 delims bytes p)
  note gt = utf8_step_gt [OF 1(2)] and le = utf8_step_le [of p bytes]
  show ?case
  proof (cases "is_sentence_delim delims (bytes ! p) \<or> utf8_step bytes p = length bytes")
    case True
    then have "sentence_end delims bytes p = utf8_step bytes p"
      using 1(2) by (subst sentence_end.simps) (auto simp: Let_def sentence_end.simps [of _ _ "length bytes"])
    then show ?thesis using gt le 1(2) by simp
  next
    case False
    then have "sentence_end delims bytes p = sentence_end delims bytes (utf8_step bytes p)"
      using 1(2) by (subst sentence_end.simps) (simp add: Let_def)
    then show ?thesis using 1(1) [OF 1(2) refl] False gt le 1(2) by auto
  qed
qed

lemma next_word_unit_again: "next_word_unit bytes pos = (Some (b, e), p) \<Longrightarrow> next_word_unit bytes b = (Some (b, e), p)"
  unfolding next_word_unit_def Let_def using skip_spaces_facts(3) [OF refl, of pos bytes] by (auto split: if_splits)

lemma next_sentence_unit_again:
  "next_sentence_unit delims bytes pos = (Some (b, e), p) \<Longrightarrow> next_sentence_unit delims bytes b = (Some (b, e), p)"
  unfolding next_sentence_unit_def Let_def using skip_spaces_facts(3) [OF refl, of pos bytes] by (auto split: if_splits)

end
