(* ===== verification/Chunking.thy ===== *)
theory Chunking
  imports Chunk_Units
begin

unbundle bit_operations_syntax

text \<open>
  The chunker of \<open>src/src/inference/chunking.cpp\<close>: a text or a token stream is cut into chunks of
  at most \<open>max_units\<close> units, where consecutive chunks share \<open>overlap_units\<close> units. The loops over
  the text are partial functions, since one of them need not stop: \<open>None\<close> is the value of a call
  that never returns. A span is its bytes; the only spans the checks tell apart from those are the
  ones with a null pointer and a length, which are a case of their own. An output buffer is the
  list of its ranges, of length \<open>max_ranges\<close>, or \<open>None\<close> for a null pointer; byte positions and
  counts are natural numbers below \<open>2 ^ 32\<close>, since no count passes the length of the text.
\<close>

datatype chunk_mode = MODE_NONE | MODE_CHAR | MODE_WORD | MODE_SENTENCE | MODE_TOKEN | MODE_OTHER u32

record chunker_desc =
  cd_size :: u32
  cd_mode :: chunk_mode
  max_units :: u32
  overlap_units :: u32
  cd_document_id :: u32
  cd_group_id :: u32
  cd_flags :: u32
  delimiters :: span

record chunk_range =
  cr_size :: u32
  document_id :: u32
  chunk_id :: u32
  group_id :: u32
  byte_begin :: u32
  byte_end :: u32
  token_begin :: u32
  token_end :: u32

definition kNoTokenRange :: u32 where "kNoTokenRange = 0xFFFFFFFF"
definition sizeof_desc :: u32 where "sizeof_desc = 48"
definition sizeof_range :: u32 where "sizeof_range = 32"

definition desc_valid :: "chunker_desc option \<Rightarrow> bool" where
  "desc_valid d =
     (case d of
        None \<Rightarrow> False
      | Some desc \<Rightarrow>
          if cd_size desc \<noteq> sizeof_desc \<or> max_units desc = 0 then False
          else if overlap_units desc \<ge> max_units desc then False
          else cd_mode desc \<in> {MODE_NONE, MODE_CHAR, MODE_WORD, MODE_SENTENCE, MODE_TOKEN})"

fun text_valid :: "span \<Rightarrow> bool" where
  "text_valid (Span bs) = True"
| "text_valid (Null_Span n) = (n = 0)"

section \<open>Units of a descriptor\<close>

definition next_unit :: "chunker_desc \<Rightarrow> u8 list \<Rightarrow> nat \<Rightarrow> unit_scan" where
  "next_unit desc bytes pos =
     (case cd_mode desc of
        MODE_CHAR \<Rightarrow> next_char_unit bytes pos
      | MODE_WORD \<Rightarrow> next_word_unit bytes pos
      | MODE_SENTENCE \<Rightarrow> next_sentence_unit (span_bytes (delimiters desc)) bytes pos
      | _ \<Rightarrow> (None, pos))"

definition fill_text_range :: "chunker_desc \<Rightarrow> nat \<Rightarrow> nat \<Rightarrow> nat \<Rightarrow> chunk_range" where
  "fill_text_range desc cid b e =
     \<lparr>cr_size = sizeof_range, document_id = cd_document_id desc, chunk_id = of_nat cid,
      group_id = cd_group_id desc, byte_begin = of_nat b, byte_end = of_nat e,
      token_begin = kNoTokenRange, token_end = kNoTokenRange\<rparr>"

definition fill_token_range :: "chunker_desc \<Rightarrow> nat \<Rightarrow> u32 \<Rightarrow> u32 \<Rightarrow> chunk_range" where
  "fill_token_range desc cid b e =
     \<lparr>cr_size = sizeof_range, document_id = cd_document_id desc, chunk_id = of_nat cid,
      group_id = cd_group_id desc, byte_begin = 0, byte_end = 0, token_begin = b, token_end = e\<rparr>"

section \<open>Text chunks\<close>

type_synonym gathered = "nat \<times> nat \<times> nat"

text \<open>
  The inner loop adds units to a chunk, from the position \<open>scan\<close>; it returns the position it
  leaves, the end of the chunk and the position of the unit that starts the overlap. The loop of
  \<open>emit_text_chunks\<close> restores the position of a failed scan, the one of \<open>emit_word_chunks\<close> does not.
\<close>

function gather :: "(nat \<Rightarrow> unit_scan) \<Rightarrow> bool \<Rightarrow> u32 \<Rightarrow> u32 \<Rightarrow> nat \<Rightarrow> nat \<Rightarrow> nat \<Rightarrow> nat \<Rightarrow> gathered" where
  "gather scanner restore maxu ovl scan chunk_end units overlap_begin =
     (if units < unat maxu then
        (case scanner scan of
           (None, scan') \<Rightarrow> (if restore then scan else scan', chunk_end, overlap_begin)
         | (Some (b, e), scan') \<Rightarrow>
             gather scanner restore maxu ovl scan' e (units + 1)
               (if ovl \<noteq> 0 \<and> of_nat units + ovl = maxu then b else overlap_begin))
      else (scan, chunk_end, overlap_begin))"
  by pat_completeness auto
termination by (relation "measure (\<lambda>(_, _, maxu, _, _, _, units, _). unat maxu - units)") auto

declare gather.simps [simp del]

definition put_range :: "chunker_desc \<Rightarrow> nat \<Rightarrow> nat \<times> nat \<Rightarrow> chunk_range list option \<Rightarrow> chunk_range list option" where
  "put_range desc required r out_ranges =
     (case out_ranges of
        None \<Rightarrow> None
      | Some rs \<Rightarrow>
          Some (if required < length rs then rs[required := fill_text_range desc required (fst r) (snd r)] else rs))"

partial_function (option) emit_loop ::
  "(nat \<Rightarrow> unit_scan) \<Rightarrow> bool \<Rightarrow> chunker_desc \<Rightarrow> nat \<Rightarrow> nat \<Rightarrow> nat \<Rightarrow> chunk_range list option \<Rightarrow>
   (nat \<times> chunk_range list option) option" where
  "emit_loop scanner restore desc len pos required out_ranges =
     (if pos < len then
        (case scanner pos of
           (None, _) \<Rightarrow> Some (required, out_ranges)
         | (Some (b, e), scan) \<Rightarrow>
             (case gather scanner restore (max_units desc) (overlap_units desc) scan e 1 b of
                (scan', chunk_end, overlap_begin) \<Rightarrow>
                  if scan' \<ge> len then Some (required + 1, put_range desc required (b, chunk_end) out_ranges)
                  else emit_loop scanner restore desc len
                         (if overlap_units desc \<noteq> 0 then overlap_begin else scan')
                         (required + 1) (put_range desc required (b, chunk_end) out_ranges)))
      else Some (required, out_ranges))"

type_synonym emit_result = "astral_err \<times> nat \<times> chunk_range list option"

definition emit_status :: "chunk_range list option \<Rightarrow> nat \<Rightarrow> astral_err" where
  "emit_status out_ranges required =
     (case out_ranges of
        None \<Rightarrow> ASTRAL_OK
      | Some rs \<Rightarrow> if length rs < required then ASTRAL_E_NOMEM else ASTRAL_OK)"

definition emit_word_chunks :: "chunker_desc \<Rightarrow> u8 list \<Rightarrow> chunk_range list option \<Rightarrow> emit_result option" where
  "emit_word_chunks desc bytes out_ranges =
     (case emit_loop (next_word_unit bytes) False desc (length bytes) 0 0 out_ranges of
        None \<Rightarrow> None
      | Some (required, out) \<Rightarrow> Some (emit_status out_ranges required, required, out))"

definition ASTRAL_CHUNK_FLAG_KEEP_EMPTY :: u32 where "ASTRAL_CHUNK_FLAG_KEEP_EMPTY = 1"

definition emit_text_chunks :: "chunker_desc \<Rightarrow> u8 list \<Rightarrow> chunk_range list option \<Rightarrow> emit_result option" where
  "emit_text_chunks desc bytes out_ranges =
     (if cd_mode desc = MODE_NONE then
        if bytes \<noteq> [] \<or> cd_flags desc AND ASTRAL_CHUNK_FLAG_KEEP_EMPTY \<noteq> 0
        then Some (emit_status out_ranges 1, 1, put_range desc 0 (0, length bytes) out_ranges)
        else Some (emit_status out_ranges 0, 0, out_ranges)
      else if cd_mode desc = MODE_WORD then emit_word_chunks desc bytes out_ranges
      else
        (case emit_loop (next_unit desc bytes) True desc (length bytes) 0 0 out_ranges of
           None \<Rightarrow> None
         | Some (required, out) \<Rightarrow> Some (emit_status out_ranges required, required, out)))"

section \<open>Token chunks\<close>

definition token_chunk_count_fast :: "chunker_desc \<Rightarrow> u32 \<Rightarrow> u32" where
  "token_chunk_count_fast desc token_count =
     (if token_count = 0 then 0
      else if token_count \<le> max_units desc then 1
      else
        let stride = max_units desc - overlap_units desc;
            remaining = token_count - max_units desc
        in 1 + (remaining + stride - 1) div stride)"

fun token_loop :: "chunker_desc \<Rightarrow> u32 \<Rightarrow> u32 \<Rightarrow> nat \<Rightarrow> nat \<Rightarrow> u32 \<Rightarrow> chunk_range list \<Rightarrow> chunk_range list" where
  "token_loop desc token_count stride 0 cid b rs = rs"
| "token_loop desc token_count stride (Suc n) cid b rs =
     (let e = b + max_units desc;
          e' = (if e > token_count then token_count else e)
      in token_loop desc token_count stride n (cid + 1) (b + stride) (rs[cid := fill_token_range desc cid b e']))"

definition emit_token_chunks :: "chunker_desc \<Rightarrow> u32 \<Rightarrow> chunk_range list option \<Rightarrow> emit_result" where
  "emit_token_chunks desc token_count out_ranges =
     (let required = unat (token_chunk_count_fast desc token_count);
          stride = max_units desc - overlap_units desc
      in (emit_status out_ranges required, required,
          (case out_ranges of
             None \<Rightarrow> None
           | Some rs \<Rightarrow> Some (token_loop desc token_count stride (min (length rs) required) 0 0 rs))))"

section \<open>The calls\<close>

text \<open>
  A call returns its status and what it writes: the count, unless it fails before, and the
  buffer. The last argument says whether the pointer to the count is there.
\<close>

type_synonym call_result = "astral_err \<times> nat option \<times> chunk_range list option"

fun finish :: "emit_result \<Rightarrow> call_result" where
  "finish (err, required, out) = (err, Some required, out)"

definition chunk_count :: "chunker_desc option \<Rightarrow> span \<Rightarrow> bool \<Rightarrow> call_result option" where
  "chunk_count d bytes out_count =
     (if \<not> desc_valid d \<or> cd_mode (the d) = MODE_TOKEN \<or> \<not> text_valid bytes \<or> \<not> out_count
      then Some (ASTRAL_E_INVALID, None, None)
      else map_option finish (emit_text_chunks (the d) (span_bytes bytes) None))"

definition chunk_ranges ::
  "chunker_desc option \<Rightarrow> span \<Rightarrow> chunk_range list option \<Rightarrow> nat \<Rightarrow> bool \<Rightarrow> call_result option" where
  "chunk_ranges d bytes out_ranges max_ranges out_count =
     (if \<not> desc_valid d \<or> cd_mode (the d) = MODE_TOKEN \<or> \<not> text_valid bytes \<or> \<not> out_count
      then Some (ASTRAL_E_INVALID, None, out_ranges)
      else if max_ranges \<noteq> 0 \<and> out_ranges = None then Some (ASTRAL_E_INVALID, None, out_ranges)
      else map_option finish (emit_text_chunks (the d) (span_bytes bytes) out_ranges))"

definition chunk_text_copy ::
  "span \<Rightarrow> chunk_range option \<Rightarrow> span \<Rightarrow> bool \<Rightarrow> astral_err \<times> nat option \<times> span" where
  "chunk_text_copy bytes r out_text out_len =
     (if \<not> text_valid bytes \<or> r = None \<or> cr_size (the r) \<noteq> sizeof_range \<or> \<not> out_len
      then (ASTRAL_E_INVALID, None, out_text)
      else if byte_begin (the r) > byte_end (the r) \<or> unat (byte_end (the r)) > length (span_bytes bytes)
      then (ASTRAL_E_INVALID, None, out_text)
      else
        let len = unat (byte_end (the r) - byte_begin (the r))
        in case out_text of
             Null_Span n \<Rightarrow> (if n = 0 then ASTRAL_OK else ASTRAL_E_NOMEM, Some len, out_text)
           | Span out \<Rightarrow>
               if length out < len then (ASTRAL_E_NOMEM, Some len, out_text)
               else (ASTRAL_OK, Some len,
                     Span (take len (drop (unat (byte_begin (the r))) (span_bytes bytes)) @ drop len out)))"

definition token_chunk_count :: "chunker_desc option \<Rightarrow> u32 \<Rightarrow> bool \<Rightarrow> astral_err \<times> u32 option" where
  "token_chunk_count d token_count out_count =
     (if \<not> desc_valid d \<or> cd_mode (the d) \<noteq> MODE_TOKEN \<or> \<not> out_count then (ASTRAL_E_INVALID, None)
      else (ASTRAL_OK, Some (token_chunk_count_fast (the d) token_count)))"

definition token_chunk_ranges ::
  "chunker_desc option \<Rightarrow> u32 \<Rightarrow> chunk_range list option \<Rightarrow> nat \<Rightarrow> bool \<Rightarrow> call_result" where
  "token_chunk_ranges d token_count out_ranges max_ranges out_count =
     (if \<not> desc_valid d \<or> cd_mode (the d) \<noteq> MODE_TOKEN \<or> \<not> out_count then (ASTRAL_E_INVALID, None, out_ranges)
      else if max_ranges \<noteq> 0 \<and> out_ranges = None then (ASTRAL_E_INVALID, None, out_ranges)
      else finish (emit_token_chunks (the d) token_count out_ranges))"

section \<open>What a chunker promises\<close>

text \<open>
  The units of a text from a position on, and the chunks of a list of units: at most \<open>maxu\<close> units
  each, the next one starting \<open>ovl\<close> units before the end of this one. \<open>tail\<close> says that bytes which
  belong to no unit follow the last one; with an overlap they make the code emit one more chunk
  when the last chunk is full.
\<close>

function units_from :: "(nat \<Rightarrow> unit_scan) \<Rightarrow> nat \<Rightarrow> nat \<Rightarrow> (nat \<times> nat) list" where
  "units_from scanner len pos =
     (if pos < len then
        (case scanner pos of
           (None, _) \<Rightarrow> []
         | (Some u, p) \<Rightarrow> u # (if pos < p then units_from scanner len p else []))
      else [])"
  by pat_completeness auto
termination by (relation "measure (\<lambda>(_, len, pos). len - pos)") auto

declare units_from.simps [simp del]

function windows :: "nat \<Rightarrow> nat \<Rightarrow> bool \<Rightarrow> (nat \<times> nat) list \<Rightarrow> (nat \<times> nat) list" where
  "windows maxu ovl tail us =
     (if us = [] \<or> maxu \<le> ovl then []
      else (fst (hd us), snd (last (take maxu us))) #
        (if length us < maxu \<or> (length us = maxu \<and> \<not> tail) then [] else windows maxu ovl tail (drop (maxu - ovl) us)))"
  by pat_completeness auto
termination by (relation "measure (\<lambda>(_, _, _, us). length us)") auto

declare windows.simps [simp del]

locale unit_scanner =
  fixes scanner :: "nat \<Rightarrow> unit_scan" and len :: nat
  assumes unit_bounds: "scanner pos = (Some (b, e), p) \<Longrightarrow> pos \<le> b \<and> b < e \<and> e \<le> len \<and> p = e"
    and no_unit: "scanner pos = (None, p) \<Longrightarrow> len \<le> p"
    and unit_again: "scanner pos = (Some (b, e), p) \<Longrightarrow> scanner b = (Some (b, e), p)"
    and none_behind: "len \<le> pos \<Longrightarrow> fst (scanner pos) = None"
begin

abbreviation units :: "nat \<Rightarrow> (nat \<times> nat) list" where
  "units pos \<equiv> units_from scanner len pos"

lemma units_none: "scanner pos = (None, p) \<Longrightarrow> units pos = []"
  by (simp add: units_from.simps)

lemma unit_pos_less: "scanner pos = (Some (b, e), p) \<Longrightarrow> pos < len"
  using none_behind [of pos] by (cases "pos < len") auto

lemma units_some:
  assumes "scanner pos = (Some (b, e), p)"
  shows "units pos = (b, e) # units e"
  using unit_bounds [OF assms] unit_pos_less [OF assms] assms by (subst units_from.simps) simp

lemma units_Nil_iff: "units pos = [] \<longleftrightarrow> fst (scanner pos) = None"
  by (cases "scanner pos"; cases "fst (scanner pos)") (auto simp: units_none units_some)

lemma units_ConsE:
  assumes "units pos = u # us"
  obtains b e where "u = (b, e)" "scanner pos = (Some (b, e), e)" "us = units e"
proof (cases "scanner pos")
  case (Pair x p)
  show ?thesis
  proof (cases x)
    case None
    then show ?thesis using assms units_none Pair by simp
  next
    case (Some a)
    then obtain b e where "scanner pos = (Some (b, e), p)" using Pair by (cases a) simp
    then show ?thesis using assms units_some unit_bounds that by fastforce
  qed
qed

text \<open>A scan that starts at the begin of a unit finds the list from that unit on.\<close>

lemma units_at: "k < length (units pos) \<Longrightarrow> units (fst (units pos ! k)) = drop k (units pos)"
proof (induction k arbitrary: pos)
  case 0
  then obtain u us where u: "units pos = u # us" by (cases "units pos") auto
  then obtain b e where s: "u = (b, e)" "scanner pos = (Some (b, e), e)" "us = units e" by (rule units_ConsE)
  have "units b = (b, e) # units e" by (rule units_some [OF unit_again [OF s(2)]])
  then show ?case using u s by simp
next
  case (Suc k)
  then obtain u us where u: "units pos = u # us" by (cases "units pos") auto
  then obtain b e where s: "u = (b, e)" "scanner pos = (Some (b, e), e)" "us = units e" by (rule units_ConsE)
  then show ?case using Suc.IH [of e] Suc.prems u by simp
qed

lemma units_bounds: "(b, e) \<in> set (units pos) \<Longrightarrow> pos \<le> b \<and> b < e \<and> e \<le> len"
proof (induction "units pos" arbitrary: pos)
  case (Cons u us)
  from Cons(2) [symmetric] obtain b' e' where s: "u = (b', e')" "scanner pos = (Some (b', e'), e')" "us = units e'"
    by (rule units_ConsE)
  note ub = unit_bounds [OF s(2)]
  show ?case
  proof (cases "(b, e) = (b', e')")
    case True
    then show ?thesis using ub by simp
  next
    case False
    then have "(b, e) \<in> set (units e')" using Cons.prems Cons(2) s by (metis set_ConsD)
    then show ?thesis using Cons.hyps(1) [OF s(3)] ub by fastforce
  qed
qed simp

text \<open>After the last unit no scan finds another one.\<close>

lemma units_after_last: "units pos \<noteq> [] \<Longrightarrow> units (snd (last (units pos))) = []"
proof (induction "units pos" arbitrary: pos)
  case (Cons u us)
  from Cons(2) [symmetric] obtain b e where s: "u = (b, e)" "scanner pos = (Some (b, e), e)" "us = units e"
    by (rule units_ConsE)
  show ?case
  proof (cases "us = []")
    case True
    then show ?thesis using s Cons(2) by (metis last_ConsL snd_conv)
  next
    case False
    then show ?thesis using Cons.hyps(1) [OF s(3)] s(3) Cons(2) by (metis last_ConsR)
  qed
qed simp

text \<open>The inner loop collects units.\<close>

lemma units_after_take:
  "0 < n \<Longrightarrow> n \<le> length (units pos) \<Longrightarrow> units (snd (units pos ! (n - 1))) = drop n (units pos)"
proof (induction n arbitrary: pos)
  case (Suc n)
  then obtain u us where u: "units pos = u # us" by (cases "units pos") auto
  then obtain b e where s: "u = (b, e)" "scanner pos = (Some (b, e), e)" "us = units e" by (rule units_ConsE)
  show ?case
  proof (cases n)
    case 0
    then show ?thesis using u s by simp
  next
    case (Suc m)
    then show ?thesis using Suc.IH [of e] Suc.prems u s by simp
  qed
qed simp

end

context unit_scanner begin

definition gathered_end :: "nat \<Rightarrow> nat \<Rightarrow> nat \<Rightarrow> nat" where
  "gathered_end k scan ce = (if take k (units scan) = [] then ce else snd (last (take k (units scan))))"

lemma gather_stop: "unat maxu \<le> n \<Longrightarrow> gather scanner restore maxu ovl scan ce n ob = (scan, ce, ob)"
  by (subst gather.simps) simp

lemma gather_none:
  assumes "n < unat maxu" "units scan = []"
  obtains p where "len \<le> p" "gather scanner restore maxu ovl scan ce n ob = (if restore then scan else p, ce, ob)"
proof -
  obtain p where p: "scanner scan = (None, p)" using assms(2) by (cases "scanner scan") (auto simp: units_Nil_iff)
  moreover have "gather scanner restore maxu ovl scan ce n ob = (if restore then scan else p, ce, ob)"
    using assms p by (subst gather.simps) simp
  ultimately show thesis using that no_unit by blast
qed

lemma gather_some:
  assumes "n < unat maxu" "units scan = (b, e) # us"
  shows "gather scanner restore maxu ovl scan ce n ob =
    gather scanner restore maxu ovl e e (n + 1) (if ovl \<noteq> 0 \<and> of_nat n + ovl = maxu then b else ob)"
proof -
  have "scanner scan = (Some (b, e), e)" using assms(2) by (rule units_ConsE) simp
  then show ?thesis using assms(1) by (subst gather.simps) simp
qed

lemma gather_end:
  "fst (snd (gather scanner restore maxu ovl scan ce n ob)) = gathered_end (unat maxu - n) scan ce"
proof (induction "unat maxu - n" arbitrary: n scan ce ob)
  case 0
  then show ?case by (simp add: gather_stop gathered_end_def)
next
  case (Suc k)
  then have n: "n < unat maxu" "k = unat maxu - (n + 1)" by simp_all
  show ?case
  proof (cases "units scan")
    case Nil
    then obtain p where "gather scanner restore maxu ovl scan ce n ob = (if restore then scan else p, ce, ob)"
      by (rule gather_none [OF n(1)])
    then show ?thesis using Nil by (simp add: gathered_end_def)
  next
    case (Cons u us)
    then obtain b e where s: "u = (b, e)" "us = units e" by (rule units_ConsE)
    have "unat maxu - n = Suc (unat maxu - (n + 1))" using n by simp
    then show ?thesis
      using Suc(1) [OF n(2), of e e] gather_some [OF n(1) Cons [unfolded s]] Cons s by (simp add: gathered_end_def)
  qed
qed

lemma gather_scan_full:
  "unat maxu - n \<le> length (units scan) \<Longrightarrow> n < unat maxu \<Longrightarrow>
   fst (gather scanner restore maxu ovl scan ce n ob) = snd (units scan ! (unat maxu - n - 1))"
proof (induction "unat maxu - n" arbitrary: n scan ce ob)
  case (Suc k)
  then have n: "n < unat maxu" "k = unat maxu - (n + 1)" by simp_all
  then obtain u us where us: "units scan = u # us" using Suc.prems by (cases "units scan") auto
  then obtain b e where s: "u = (b, e)" "us = units e" by (rule units_ConsE)
  note g = gather_some [OF n(1) us [unfolded s]]
  show ?case
  proof (cases k)
    case 0
    then show ?thesis using n us s by (simp add: g gather_stop)
  next
    case (Suc k')
    then show ?thesis using Suc.hyps(1) [OF n(2), of e] Suc.prems n us s by (simp add: g)
  qed
qed simp

lemma gather_scan_short:
  "length (units scan) < unat maxu - n \<Longrightarrow>
   (if restore then fst (gather scanner restore maxu ovl scan ce n ob) = (if units scan = [] then scan else snd (last (units scan)))
    else len \<le> fst (gather scanner restore maxu ovl scan ce n ob))"
proof (induction "unat maxu - n" arbitrary: n scan ce ob)
  case (Suc k)
  then have n: "n < unat maxu" "k = unat maxu - (n + 1)" by simp_all
  show ?case
  proof (cases "units scan")
    case Nil
    then obtain p where "len \<le> p" "gather scanner restore maxu ovl scan ce n ob = (if restore then scan else p, ce, ob)"
      by (rule gather_none [OF n(1)])
    then show ?thesis using Nil by (cases restore) simp_all
  next
    case (Cons u us)
    then obtain b e where s: "u = (b, e)" "us = units e" by (rule units_ConsE)
    then show ?thesis using Suc.hyps(1) [OF n(2), of e e] gather_some [OF n(1) Cons [unfolded s]] Cons Suc.prems n
      by (auto split: if_splits)
  qed
qed simp

text \<open>The test of the overlap is on 32-bit sums, which do not wrap here.\<close>

lemma overlap_test:
  "n < unat maxu \<Longrightarrow> ovl < maxu \<Longrightarrow> of_nat n + ovl = (maxu :: u32) \<longleftrightarrow> n + unat ovl = unat maxu"
proof -
  assume n: "n < unat maxu" and o: "ovl < maxu"
  have m: "unat maxu < 2 ^ 32" using unsigned_less [of maxu] by simp
  have un: "unat (of_nat n :: u32) = n" using n m unfolding unat_of_nat by simp
  have ol: "unat ovl < unat maxu" using o by (simp add: word_less_nat_alt)
  show ?thesis
  proof (cases "n + unat ovl < 2 ^ 32")
    case True
    then have "unat (of_nat n + ovl) = n + unat ovl" using un by (simp add: unat_word_ariths(1))
    then show ?thesis by (metis word_unat_eq_iff)
  next
    case False
    then have "unat (of_nat n + ovl) = n + unat ovl - 2 ^ 32"
      using un n ol m by (simp add: unat_word_ariths(1) mod_if)
    then show ?thesis using False n ol m by auto
  qed
qed

lemma gather_overlap:
  assumes "ovl < maxu"
  shows "snd (snd (gather scanner restore maxu ovl scan ce n ob)) =
    (if ovl \<noteq> 0 \<and> n + unat ovl \<le> unat maxu \<and> unat maxu - unat ovl - n < length (units scan)
     then fst (units scan ! (unat maxu - unat ovl - n)) else ob)"
proof (induction "unat maxu - n" arbitrary: n scan ce ob)
  case 0
  moreover have "0 < unat ovl" if "ovl \<noteq> 0" using that by (simp add: unat_gt_0)
  ultimately show ?case using assms by (auto simp: gather_stop)
next
  case (Suc k)
  then have n: "n < unat maxu" "k = unat maxu - (n + 1)" by simp_all
  show ?case
  proof (cases "units scan")
    case Nil
    then obtain p where "gather scanner restore maxu ovl scan ce n ob = (if restore then scan else p, ce, ob)"
      by (rule gather_none [OF n(1)])
    then show ?thesis using Nil by simp
  next
    case (Cons u us)
    then obtain b e where s: "u = (b, e)" "us = units e" by (rule units_ConsE)
    note g = gather_some [OF n(1) Cons [unfolded s]] and t = overlap_test [OF n(1) assms]
    show ?thesis
    proof (cases "n + unat ovl = unat maxu")
      case True
      then show ?thesis using Suc(1) [OF n(2), of e e] Cons s by (simp add: g t)
    next
      case False
      have "unat maxu - unat ovl - n = Suc (unat maxu - unat ovl - (n + 1))" if "n + unat ovl < unat maxu"
        using that by simp
      then show ?thesis using Suc(1) [OF n(2), of e e] False Cons s by (auto simp: g t)
    qed
  qed
qed

end

fun put_all :: "chunker_desc \<Rightarrow> nat \<Rightarrow> (nat \<times> nat) list \<Rightarrow> chunk_range list option \<Rightarrow> chunk_range list option" where
  "put_all desc required [] out = out"
| "put_all desc required (w # ws) out = put_all desc (required + 1) ws (put_range desc required w out)"

context unit_scanner begin

lemma gather_round:
  assumes us: "units pos = (b, e) # us" and ovl: "ovl < maxu"
    and g: "gather scanner restore maxu ovl e e 1 b = (s, ce, ob)"
  shows "ce = snd (last (take (unat maxu) (units pos)))"
    and "unat maxu \<le> length (units pos) \<Longrightarrow> s = snd (units pos ! (unat maxu - 1))"
    and "length (units pos) < unat maxu \<Longrightarrow> (if restore then s = snd (last (units pos)) else len \<le> s)"
    and "ovl \<noteq> 0 \<Longrightarrow> ob = (if unat maxu - unat ovl < length (units pos) then fst (units pos ! (unat maxu - unat ovl)) else b)"
proof -
  have lt: "unat ovl < unat maxu" using ovl by (simp add: word_less_nat_alt)
  then obtain m where m: "unat maxu = Suc m" by (cases "unat maxu") auto
  have e: "us = units e" using us by (rule units_ConsE) simp
  show "ce = snd (last (take (unat maxu) (units pos)))"
    using gather_end [of restore maxu ovl e e 1 b] us e m unfolding g gathered_end_def by simp
  show "s = snd (units pos ! (unat maxu - 1))" if "unat maxu \<le> length (units pos)"
  proof (cases m)
    case 0
    then show ?thesis using g gather_stop [of maxu 1 restore ovl e e b] us m by simp
  next
    case (Suc k)
    then show ?thesis
      using gather_scan_full [of maxu 1 e restore ovl e b] us e m that unfolding g by simp
  qed
  show "if restore then s = snd (last (units pos)) else len \<le> s" if "length (units pos) < unat maxu"
    using gather_scan_short [of e maxu 1 restore ovl e b] us e m that unfolding g by (auto split: if_splits)
  show "ob = (if unat maxu - unat ovl < length (units pos) then fst (units pos ! (unat maxu - unat ovl)) else b)"
    if "ovl \<noteq> 0"
  proof -
    have "unat maxu - unat ovl = Suc (unat maxu - unat ovl - 1)" using lt by simp
    then show ?thesis
      using gather_overlap [OF ovl, of restore e e 1 b] us e lt that unfolding g by (metis (no_types, lifting) Suc_eq_plus1 Suc_leI Suc_less_eq add.commute length_Cons nth_Cons_Suc plus_1_eq_Suc snd_conv)
  qed
qed

text \<open>One round of the outer loop.\<close>

lemma emit_round:
  assumes us: "units pos = (b, e) # us" and g: "gather scanner restore (max_units desc) (overlap_units desc) e e 1 b = (s, ce, ob)"
  shows "emit_loop scanner restore desc len pos required out =
    (if s \<ge> len then Some (required + 1, put_range desc required (b, ce) out)
     else emit_loop scanner restore desc len (if overlap_units desc \<noteq> 0 then ob else s) (required + 1)
            (put_range desc required (b, ce) out))"
proof -
  have sc: "scanner pos = (Some (b, e), e)" using us by (rule units_ConsE) simp
  show ?thesis using unit_pos_less [OF sc] sc g by (subst emit_loop.simps) simp
qed

lemma emit_none: "units pos = [] \<Longrightarrow> emit_loop scanner restore desc len pos required out = Some (required, out)"
  by (cases "scanner pos") (subst emit_loop.simps, auto simp: units_Nil_iff)

text \<open>The loop emits the chunks of the units, unless it can run into the case below.\<close>

lemma emit_loop_windows:
  assumes ovl: "overlap_units desc < max_units desc"
    and tl: "units pos \<noteq> [] \<Longrightarrow> tail \<longleftrightarrow> snd (last (units pos)) < len"
    and ok: "\<not> restore \<or> overlap_units desc = 0 \<or> \<not> tail"
  defines "ws \<equiv> windows (unat (max_units desc)) (unat (overlap_units desc)) tail (units pos)"
  shows "emit_loop scanner restore desc len pos required out = Some (required + length ws, put_all desc required ws out)"
  using tl unfolding ws_def
proof (induction "length (units pos)" arbitrary: pos required out rule: less_induct)
  case less
  let ?m = "unat (max_units desc)" and ?o = "unat (overlap_units desc)"
  have lt: "?o < ?m" using ovl by (simp add: word_less_nat_alt)
  show ?case
  proof (cases "units pos")
    case Nil
    then show ?thesis using emit_none by (simp add: windows.simps)
  next
    case (Cons u us)
    then obtain b e where u: "u = (b, e)" by (cases u)
    obtain s ce ob where g: "gather scanner restore (max_units desc) (overlap_units desc) e e 1 b = (s, ce, ob)"
      by (metis prod_cases3)
    note round = gather_round [OF Cons [unfolded u] ovl g] and step = emit_round [OF Cons [unfolded u] g]
    define rest where "rest = (if length (units pos) < ?m \<or> (length (units pos) = ?m \<and> \<not> tail) then []
        else windows ?m ?o tail (drop (?m - ?o) (units pos)))"
    have w: "windows ?m ?o tail (units pos) = (b, ce) # rest"
      using lt round(1) Cons u unfolding rest_def by (subst windows.simps) simp
    define next_pos where "next_pos = (if overlap_units desc \<noteq> 0 then ob else s)"
    have "if s \<ge> len then rest = []
      else emit_loop scanner restore desc len next_pos (required + 1) (put_range desc required (b, ce) out) =
        Some (required + 1 + length rest, put_all desc (required + 1) rest (put_range desc required (b, ce) out))"
    proof (cases "length (units pos) < ?m")
      case short: True
      then have r: "rest = []" by (simp add: rest_def)
      show ?thesis
      proof (cases restore)
        case True
        then have s: "s = snd (last (units pos))" using round(3) short by simp
        have "units s = []" using units_after_last [of pos] Cons s by simp
        then show ?thesis using True s r ok less.prems Cons by (auto simp: next_pos_def emit_none)
      next
        case False
        then show ?thesis using round(3) short r by simp
      qed
    next
      case full: False
      then have s: "s = snd (units pos ! (?m - 1))" using round(2) by simp
      have after: "units s = drop ?m (units pos)" using units_after_take [of ?m pos] full lt s by simp
      have stop: "length (units pos) = ?m \<and> \<not> tail \<longleftrightarrow> s \<ge> len"
      proof (cases "length (units pos) = ?m")
        case True
        then have "s = snd (last (units pos))" using s Cons last_conv_nth [of "units pos"] by (metis list.distinct(1))
        then show ?thesis using True less.prems Cons by auto
      next
        case False
        then have "units s \<noteq> []" using after full by simp
        then have "\<not> s \<ge> len" using none_behind [of s] by (auto simp: units_Nil_iff)
        then show ?thesis using False by simp
      qed
      show ?thesis
      proof (cases "s \<ge> len")
        case True
        then show ?thesis using stop full by (simp add: rest_def)
      next
        case False
        have np: "units next_pos = drop (?m - ?o) (units pos)"
        proof (cases "overlap_units desc = 0")
          case True
          then show ?thesis using after by (simp add: next_pos_def)
        next
          case o: False
          then have "0 < ?o" by (simp add: unat_gt_0)
          then have "?m - ?o < length (units pos)" using lt full by simp
          then show ?thesis using o round(4) units_at by (simp add: next_pos_def)
        qed
        have "length (units next_pos) < length (units pos)" using np lt Cons full by simp
        moreover have "tail \<longleftrightarrow> snd (last (units next_pos)) < len" if "units next_pos \<noteq> []"
          using that np less.prems Cons by (metis drop_eq_Nil last_drop linorder_not_le list.distinct(1))
        ultimately have "emit_loop scanner restore desc len next_pos (required + 1) (put_range desc required (b, ce) out) =
            Some (required + 1 + length (windows ?m ?o tail (units next_pos)),
              put_all desc (required + 1) (windows ?m ?o tail (units next_pos)) (put_range desc required (b, ce) out))"
          by (rule less.hyps)
        moreover have "\<not> (length (units pos) < ?m \<or> (length (units pos) = ?m \<and> \<not> tail))" using stop False full by blast
        then have "rest = windows ?m ?o tail (units next_pos)" unfolding rest_def np by (rule if_not_P)
        ultimately show ?thesis using False by simp
      qed
    qed
    then show ?thesis using step w by (auto simp: next_pos_def split: if_splits)
  qed
qed

text \<open>
  With an overlap, and bytes behind the last unit that a failed scan does not step over, the loop
  never stops: each round starts again at a unit.
\<close>

lemma emit_loop_stuck:
  assumes ovl: "overlap_units desc < max_units desc" "overlap_units desc \<noteq> 0"
    and us: "units pos \<noteq> []" "snd (last (units pos)) < len"
  shows "emit_loop scanner True desc len pos required out = None"
proof -
  have "\<not> (sc = scanner \<and> restore \<and> d = desc \<and> l = len \<and> units pos \<noteq> [] \<and> snd (last (units pos)) < len)"
    if "emit_loop sc restore d l pos required out = Some y" for sc restore d l pos required out y
  proof (rule emit_loop.raw_induct [where P = "\<lambda>sc restore d l pos required out y.
      \<not> (sc = scanner \<and> restore \<and> d = desc \<and> l = len \<and> units pos \<noteq> [] \<and> snd (last (units pos)) < len)", OF _ that])
    fix rec sc restore d l pos required out y
    assume IH: "\<And>sc restore d l pos required out y. rec sc restore d l pos required out = Some y \<Longrightarrow>
        \<not> (sc = scanner \<and> restore \<and> d = desc \<and> l = len \<and> units pos \<noteq> [] \<and> snd (last (units pos)) < len)"
      and body: "(if pos < l then
        (case sc pos of
           (None, _) \<Rightarrow> Some (required, out)
         | (Some (b, e), scan) \<Rightarrow>
             (case gather sc restore (max_units d) (overlap_units d) scan e 1 b of
                (scan', chunk_end, overlap_begin) \<Rightarrow>
                  if scan' \<ge> l then Some (required + 1, put_range d required (b, chunk_end) out)
                  else rec sc restore d l (if overlap_units d \<noteq> 0 then overlap_begin else scan')
                         (required + 1) (put_range d required (b, chunk_end) out)))
      else Some (required, out)) = Some y"
    show "\<not> (sc = scanner \<and> restore \<and> d = desc \<and> l = len \<and> units pos \<noteq> [] \<and> snd (last (units pos)) < len)"
    proof
    assume asm: "sc = scanner \<and> restore \<and> d = desc \<and> l = len \<and> units pos \<noteq> [] \<and> snd (last (units pos)) < len"
    then have eqs: "sc = scanner" "restore" "d = desc" "l = len" and ne: "units pos \<noteq> []"
      and tl: "snd (last (units pos)) < len" by simp_all
    let ?m = "unat (max_units desc)" and ?o = "unat (overlap_units desc)"
    have lt: "?o < ?m" "0 < ?o" using ovl by (simp_all add: word_less_nat_alt unat_gt_0)
    obtain b e us where us: "units pos = (b, e) # us" using ne by (metis neq_Nil_conv surj_pair)
    obtain s ce ob where g: "gather scanner True (max_units desc) (overlap_units desc) e e 1 b = (s, ce, ob)"
      by (metis prod_cases3)
    note round = gather_round [OF us ovl(1) g]
    have sc: "scanner pos = (Some (b, e), e)" using us by (rule units_ConsE) simp
    have s: "s < len"
    proof (cases "length (units pos) < ?m")
      case True
      then show ?thesis using round(3) tl by simp
    next
      case False
      then have "(units pos ! (?m - 1)) \<in> set (units pos)" using lt by simp
      then have a: "snd (units pos ! (?m - 1)) \<le> len" using units_bounds by (metis prod.collapse)
      show ?thesis
      proof (cases "length (units pos) = ?m")
        case True
        then show ?thesis using round(2) tl ne last_conv_nth [of "units pos"] by (metis order_refl)
      next
        case f: False
        then have "units s \<noteq> []" using units_after_take [of ?m pos] round(2) False lt by simp
        then show ?thesis using none_behind [of s] by (cases "s < len") (auto simp: units_Nil_iff)
      qed
    qed
    have ob: "units ob \<noteq> [] \<and> last (units ob) = last (units pos)"
    proof (cases "?m - ?o < length (units pos)")
      case True
      then have "units ob = drop (?m - ?o) (units pos)" using round(4) ovl(2) units_at by simp
      then show ?thesis using True by simp
    next
      case False
      then have "ob = b" using round(4) ovl(2) by simp
      then show ?thesis using units_at [of 0 pos] us by simp
    qed
    have r: "rec scanner True desc len ob (required + 1) (put_range desc required (b, ce) out) = Some y"
      using body s g sc unit_pos_less [OF sc] ovl(2) eqs by simp
    show False using IH [OF r] ob tl by simp
    qed
  qed
  then show ?thesis using us by (cases "emit_loop scanner True desc len pos required out") blast+
qed

end

section \<open>The three scanners\<close>

interpretation chars: unit_scanner "next_char_unit bytes" "length bytes" for bytes
  by unfold_locales (auto simp: next_char_unit_def Let_def utf8_step_le utf8_step_gt split: if_splits)

interpretation words: unit_scanner "next_word_unit bytes" "length bytes" for bytes
proof (unfold_locales, goal_cases)
  case (1 pos b e p)
  then have "b = skip_spaces (drop pos bytes) pos" "b < length bytes" "e = word_end bytes b" "p = e"
    by (auto simp: next_word_unit_def Let_def split: if_splits)
  then show ?case using skip_spaces_facts [of b pos bytes] word_end_bounds [of b bytes] by simp
next
  case (3 pos b e p)
  then show ?case by (rule next_word_unit_again)
qed (auto simp: next_word_unit_def Let_def split: if_splits)

interpretation sentences: unit_scanner "next_sentence_unit delims bytes" "length bytes" for delims bytes
proof (unfold_locales, goal_cases)
  case (1 pos b e p)
  then have "b = skip_spaces (drop pos bytes) pos" "b < length bytes" "e = sentence_end delims bytes b" "p = e"
    by (auto simp: next_sentence_unit_def Let_def split: if_splits)
  then show ?case using skip_spaces_facts [of b pos bytes] sentence_end_bounds [of b bytes delims] by simp
next
  case (3 pos b e p)
  then show ?case by (rule next_sentence_unit_again)
qed (auto simp: next_sentence_unit_def Let_def split: if_splits)

section \<open>What a text call promises\<close>

definition unit_list :: "chunker_desc \<Rightarrow> u8 list \<Rightarrow> (nat \<times> nat) list" where
  "unit_list desc bytes = units_from (next_unit desc bytes) (length bytes) 0"

definition has_tail :: "chunker_desc \<Rightarrow> u8 list \<Rightarrow> bool" where
  "has_tail desc bytes \<longleftrightarrow> unit_list desc bytes \<noteq> [] \<and> snd (last (unit_list desc bytes)) < length bytes"

definition text_chunks :: "chunker_desc \<Rightarrow> u8 list \<Rightarrow> (nat \<times> nat) list" where
  "text_chunks desc bytes =
     (if cd_mode desc = MODE_NONE then
        if bytes \<noteq> [] \<or> cd_flags desc AND ASTRAL_CHUNK_FLAG_KEEP_EMPTY \<noteq> 0 then [(0, length bytes)] else []
      else windows (unat (max_units desc)) (unat (overlap_units desc)) (has_tail desc bytes) (unit_list desc bytes))"

definition text_ranges :: "chunker_desc \<Rightarrow> (nat \<times> nat) list \<Rightarrow> chunk_range list" where
  "text_ranges desc ws = map (\<lambda>(i, b, e). fill_text_range desc i b e) (enumerate 0 ws)"

definition text_mode :: "chunker_desc \<Rightarrow> bool" where
  "text_mode desc \<longleftrightarrow> cd_mode desc \<in> {MODE_CHAR, MODE_WORD, MODE_SENTENCE}"

lemma next_unit_mode:
  "cd_mode desc = MODE_CHAR \<Longrightarrow> next_unit desc bytes = next_char_unit bytes"
  "cd_mode desc = MODE_WORD \<Longrightarrow> next_unit desc bytes = next_word_unit bytes"
  "cd_mode desc = MODE_SENTENCE \<Longrightarrow> next_unit desc bytes = next_sentence_unit (span_bytes (delimiters desc)) bytes"
  by (simp_all add: next_unit_def fun_eq_iff)

lemma unit_scanner_next_unit: "text_mode desc \<Longrightarrow> unit_scanner (next_unit desc bytes) (length bytes)"
  by (auto simp: text_mode_def next_unit_mode chars.unit_scanner_axioms words.unit_scanner_axioms
      sentences.unit_scanner_axioms)

lemma no_tail_chars: "cd_mode desc = MODE_CHAR \<Longrightarrow> \<not> has_tail desc bytes"
proof
  assume m: "cd_mode desc = MODE_CHAR" and t: "has_tail desc bytes"
  let ?us = "chars.units bytes 0"
  have "?us \<noteq> []" "snd (last ?us) < length bytes" using t m by (simp_all add: has_tail_def unit_list_def next_unit_mode)
  moreover from this(1) have "fst (next_char_unit bytes (snd (last ?us))) = None"
    using chars.units_after_last chars.units_Nil_iff by simp
  ultimately show False by (simp add: next_char_unit_def Let_def split: if_splits)
qed

text \<open>The buffer after all ranges have been stored.\<close>

lemma put_all_None [simp]: "put_all desc required ws None = None"
  by (induction ws arbitrary: required) (simp_all add: put_range_def)

lemma put_all_Some:
  "required \<le> length rs \<Longrightarrow> put_all desc required ws (Some rs) =
     Some (take required rs @ map (\<lambda>(i, b, e). fill_text_range desc i b e) (enumerate required (take (length rs - required) ws))
       @ drop (required + length ws) rs)"
proof (induction ws arbitrary: required rs)
  case (Cons w ws)
  show ?case
  proof (cases "required < length rs")
    case True
    let ?rs = "rs[required := fill_text_range desc required (fst w) (snd w)]"
    have "put_all desc required (w # ws) (Some rs) = put_all desc (required + 1) ws (Some ?rs)"
      using True by (simp add: put_range_def)
    also have "\<dots> = Some (take (required + 1) ?rs @
        map (\<lambda>(i, b, e). fill_text_range desc i b e) (enumerate (required + 1) (take (length ?rs - (required + 1)) ws)) @
        drop (required + 1 + length ws) ?rs)"
      using True by (intro Cons.IH) simp
    also have "take (required + 1) ?rs = take required rs @ [fill_text_range desc required (fst w) (snd w)]"
      using True by (simp add: take_Suc_conv_app_nth)
    also have "length rs - required = Suc (length rs - (required + 1))" using True by simp
    ultimately show ?thesis by (cases w) simp
  next
    case False
    have "put_all desc r vs (Some rs) = Some rs" if "length rs \<le> r" for r vs
      using that by (induction vs arbitrary: r) (simp_all add: put_range_def)
    then show ?thesis using False Cons.prems by (simp add: put_range_def)
  qed
qed simp

lemma put_all_buffer:
  "put_all desc 0 ws (Some rs) = Some (text_ranges desc (take (length rs) ws) @ drop (length ws) rs)"
  using put_all_Some [of 0 rs desc ws] by (simp add: text_ranges_def)

lemma emit_text_chunks_eq:
  assumes "text_mode desc \<or> cd_mode desc = MODE_NONE" "overlap_units desc < max_units desc"
    and "cd_mode desc = MODE_SENTENCE \<longrightarrow> overlap_units desc = 0 \<or> \<not> has_tail desc bytes"
  shows "emit_text_chunks desc bytes out =
    Some (emit_status out (length (text_chunks desc bytes)), length (text_chunks desc bytes),
      put_all desc 0 (text_chunks desc bytes) out)"
proof (cases "cd_mode desc = MODE_NONE")
  case True
  then show ?thesis by (simp add: emit_text_chunks_def text_chunks_def)
next
  case False
  then have tm: "text_mode desc" using assms(1) by simp
  have loop: "emit_loop (next_unit desc bytes) restore desc (length bytes) 0 0 out =
      Some (length (text_chunks desc bytes), put_all desc 0 (text_chunks desc bytes) out)"
    if "\<not> restore \<or> cd_mode desc \<noteq> MODE_WORD" for restore
    using unit_scanner.emit_loop_windows [OF unit_scanner_next_unit [OF tm, of bytes] assms(2),
        of 0 "has_tail desc bytes" restore 0 out] that False tm assms(3) no_tail_chars [of desc bytes]
    by (auto simp: text_chunks_def unit_list_def has_tail_def text_mode_def)
  show ?thesis
  proof (cases "cd_mode desc = MODE_WORD")
    case True
    then show ?thesis using loop [of False] by (simp add: emit_text_chunks_def emit_word_chunks_def next_unit_mode)
  next
    case f: False
    then show ?thesis using loop [of True] False by (simp add: emit_text_chunks_def)
  qed
qed

section \<open>Shape of the chunks\<close>

lemma windows_sublist:
  "(b, e) \<in> set (windows maxu ovl tail us) \<Longrightarrow>
   \<exists>pre vs post. us = pre @ vs @ post \<and> vs \<noteq> [] \<and> length vs \<le> maxu \<and> b = fst (hd vs) \<and> e = snd (last vs)"
proof (induction maxu ovl tail us rule: windows.induct)
  case (1 maxu ovl tail us)
  show ?case
  proof (cases "us = [] \<or> maxu \<le> ovl")
    case True
    then show ?thesis using 1(2) by (simp add: windows.simps)
  next
    case False
    let ?c = "length us < maxu \<or> (length us = maxu \<and> \<not> tail)"
    from False 1(2) consider "b = fst (hd us)" "e = snd (last (take maxu us))"
      | "\<not> ?c" "(b, e) \<in> set (windows maxu ovl tail (drop (maxu - ovl) us))"
      by (subst (asm) windows.simps) (auto split: if_splits)
    then show ?thesis
    proof cases
      case 1
      have "us = [] @ take maxu us @ drop maxu us" "take maxu us \<noteq> []" "length (take maxu us) \<le> maxu"
        "b = fst (hd (take maxu us))" using False 1 by auto
      then show ?thesis using 1 by blast
    next
      case 2
      then obtain pre vs post where d: "drop (maxu - ovl) us = pre @ vs @ post" and
        v: "vs \<noteq> []" "length vs \<le> maxu" "b = fst (hd vs)" "e = snd (last vs)"
        using 1(1) [OF False] by blast
      have "us = (take (maxu - ovl) us @ pre) @ vs @ post" using d by (metis append_assoc append_take_drop_id)
      then show ?thesis using v by blast
    qed
  qed
qed

definition in_order :: "(nat \<times> nat) list \<Rightarrow> bool" where
  "in_order us \<longleftrightarrow> sorted_wrt (\<lambda>u v. snd u \<le> fst v) us \<and> (\<forall>u \<in> set us. fst u < snd u)"

lemma in_order_hd: "in_order us \<Longrightarrow> u \<in> set us \<Longrightarrow> fst (hd us) \<le> fst u"
  by (cases us) (auto simp: in_order_def intro: order_trans [OF less_imp_le])

lemma in_order_last: "in_order us \<Longrightarrow> u \<in> set us \<Longrightarrow> snd u \<le> snd (last us)"
proof (induction us)
  case (Cons v us)
  show ?case
  proof (cases "us = []")
    case False
    have io: "in_order us" using Cons.prems(1) by (simp add: in_order_def)
    have "snd v \<le> fst (last us)" "fst (last us) < snd (last us)" using Cons.prems(1) False by (simp_all add: in_order_def)
    then show ?thesis using Cons.IH [OF io] Cons.prems(2) False by auto
  qed (use Cons.prems in simp)
qed simp

lemma in_order_take: "in_order us \<Longrightarrow> in_order (take n us)"
  by (auto simp: in_order_def sorted_wrt_take dest: in_set_takeD)

lemma in_order_drop: "in_order us \<Longrightarrow> in_order (drop n us)"
  by (auto simp: in_order_def sorted_wrt_drop dest: in_set_dropD)

lemma windows_cover:
  "in_order us \<Longrightarrow> ovl < maxu \<Longrightarrow> u \<in> set us \<Longrightarrow> \<exists>(b, e) \<in> set (windows maxu ovl tail us). b \<le> fst u \<and> snd u \<le> e"
proof (induction maxu ovl tail us rule: windows.induct)
  case (1 maxu ovl tail us)
  have ne: "\<not> (us = [] \<or> maxu \<le> ovl)" using 1(3,4) by auto
  let ?c = "length us < maxu \<or> (length us = maxu \<and> \<not> tail)"
  have w: "windows maxu ovl tail us = (fst (hd us), snd (last (take maxu us))) #
      (if ?c then [] else windows maxu ovl tail (drop (maxu - ovl) us))"
    using ne by (subst windows.simps) simp
  show ?case
  proof (cases "u \<in> set (take maxu us)")
    case True
    then have "fst (hd us) \<le> fst u" "snd u \<le> snd (last (take maxu us))"
      using in_order_hd [OF 1(2,4)] in_order_last [OF in_order_take [OF 1(2)]] by auto
    then show ?thesis unfolding w by auto
  next
    case False
    then have "u \<in> set (drop maxu us)" using 1(4) by (metis UnE append_take_drop_id set_append)
    then have "\<not> ?c" "u \<in> set (drop (maxu - ovl) us)"
      using set_drop_subset_set_drop [of "maxu - ovl" maxu us] by auto
    then show ?thesis using 1(1) [OF ne _ in_order_drop [OF 1(2)] 1(3)] unfolding w by auto
  qed
qed

context unit_scanner begin

lemma units_in_order: "in_order (units pos)"
proof (induction "units pos" arbitrary: pos)
  case Nil
  then show ?case by (metis in_order_def list.set_cases list.distinct(1) sorted_wrt.simps(1))
next
  case (Cons u us)
  from Cons(2) [symmetric] obtain b e where s: "u = (b, e)" "scanner pos = (Some (b, e), e)" "us = units e"
    by (rule units_ConsE)
  have "in_order (units e)" using Cons.hyps(1) [OF s(3)] .
  moreover have "\<forall>v \<in> set (units e). e \<le> fst v" using units_bounds [of _ _ e] by auto
  ultimately show ?case unfolding Cons(2) [symmetric] using s unit_bounds [OF s(2)] by (simp add: in_order_def)
qed

end

definition valid_text_call :: "chunker_desc \<Rightarrow> span \<Rightarrow> bool" where
  "valid_text_call desc bytes \<longleftrightarrow> desc_valid (Some desc) \<and> cd_mode desc \<noteq> MODE_TOKEN \<and> text_valid bytes"

lemma valid_text_callD:
  assumes "valid_text_call desc bytes"
  shows "text_mode desc \<or> cd_mode desc = MODE_NONE" "overlap_units desc < max_units desc"
  using assms by (auto simp: valid_text_call_def desc_valid_def text_mode_def not_le split: if_splits)

text \<open>C21: A valid call that is not the case below returns. It reports the number of chunks, puts as many
  of them as fit into the buffer and leaves the rest of it alone; the status tells whether all fit.
  The counting call reports the same number.\<close>
theorem chunk_ranges_correct:
  assumes "valid_text_call desc bytes"
    and "cd_mode desc = MODE_SENTENCE \<longrightarrow> overlap_units desc = 0 \<or> \<not> has_tail desc (span_bytes bytes)"
  shows "chunk_ranges (Some desc) bytes (Some rs) (length rs) True =
      (let ws = text_chunks desc (span_bytes bytes)
       in Some (if length rs < length ws then ASTRAL_E_NOMEM else ASTRAL_OK, Some (length ws),
            Some (text_ranges desc (take (length rs) ws) @ drop (length ws) rs))) \<and>
    chunk_count (Some desc) bytes True =
      Some (ASTRAL_OK, Some (length (text_chunks desc (span_bytes bytes))), None)"
  using assms(1) emit_text_chunks_eq [OF valid_text_callD [OF assms(1)] assms(2)]
  by (simp add: chunk_ranges_def chunk_count_def valid_text_call_def put_all_buffer emit_status_def Let_def)

definition word_desc :: chunker_desc where
  "word_desc = \<lparr>cd_size = 48, cd_mode = MODE_WORD, max_units = 2, overlap_units = 1, cd_document_id = 7,
     cd_group_id = 0, cd_flags = 0, delimiters = Null_Span 0\<rparr>"

lemma word_desc_valid: "valid_text_call word_desc (Span bs)"
  by (simp add: valid_text_call_def desc_valid_def word_desc_def sizeof_desc_def word_le_nat_alt)

theorem chunk_ranges_correct_witness:
  "chunk_count (Some word_desc) (Span []) True = Some (ASTRAL_OK, Some 0, None)"
proof -
  have "text_chunks word_desc [] = []"
    by (simp add: text_chunks_def unit_list_def word_desc_def units_from.simps windows.simps)
  then show ?thesis using chunk_ranges_correct [OF word_desc_valid [of "[]"], of "[]"]
    by (simp add: word_desc_def)
qed

text \<open>C22: In sentence mode with an overlap, a text with white space behind its last sentence is never
  chunked: neither call returns.\<close>
theorem sentence_overlap_never_returns:
  assumes "valid_text_call desc bytes" "cd_mode desc = MODE_SENTENCE" "overlap_units desc \<noteq> 0"
    and "has_tail desc (span_bytes bytes)"
  shows "chunk_ranges (Some desc) bytes (Some rs) (length rs) True = None \<and>
    chunk_count (Some desc) bytes True = None"
proof -
  have "emit_loop (next_unit desc (span_bytes bytes)) True desc (length (span_bytes bytes)) 0 0 out = None" for out
    using sentences.emit_loop_stuck [OF valid_text_callD(2) [OF assms(1)] assms(3)] assms(2,4)
    by (simp add: has_tail_def unit_list_def next_unit_mode)
  then have "emit_text_chunks desc (span_bytes bytes) out = None" for out
    using assms(2) by (simp add: emit_text_chunks_def)
  then show ?thesis using assms(1) by (simp add: chunk_ranges_def chunk_count_def valid_text_call_def)
qed

text \<open>The text is \<open>Hi.\<close> with a blank behind it, in chunks of two sentences that share one.\<close>

theorem sentence_overlap_never_returns_witness:
  "chunk_count (Some (word_desc\<lparr>cd_mode := MODE_SENTENCE\<rparr>)) (Span [0x48, 0x69, 0x2E, 0x20]) True = None"
proof -
  let ?d = "word_desc\<lparr>cd_mode := MODE_SENTENCE\<rparr>" and ?t = "[0x48, 0x69, 0x2E, 0x20] :: u8 list"
  have n0: "next_sentence_unit [] ?t 0 = (Some (0, 3), 3)"
    by code_simp
  have n3: "next_sentence_unit [] ?t 3 = (None, 4)"
    by code_simp
  have "unit_list ?d ?t = [(0, 3)]"
    using n0 n3 by (simp add: unit_list_def next_unit_def word_desc_def units_from.simps)
  then have "has_tail ?d ?t" by (simp add: has_tail_def)
  then show ?thesis using sentence_overlap_never_returns [of ?d "Span ?t" "[]"]
    by (simp add: valid_text_call_def desc_valid_def word_desc_def sizeof_desc_def word_le_nat_alt)
qed

lemma text_chunks_windows:
  "text_mode desc \<Longrightarrow> text_chunks desc bytes =
     windows (unat (max_units desc)) (unat (overlap_units desc)) (has_tail desc bytes) (unit_list desc bytes)"
  by (auto simp: text_chunks_def text_mode_def)

lemma unit_list_in_order: "text_mode desc \<Longrightarrow> in_order (unit_list desc bytes)"
  unfolding unit_list_def by (rule unit_scanner.units_in_order [OF unit_scanner_next_unit])

lemma unit_list_bound: "text_mode desc \<Longrightarrow> u \<in> set (unit_list desc bytes) \<Longrightarrow> snd u \<le> length bytes"
  using unit_scanner.units_bounds [OF unit_scanner_next_unit, of desc "fst u" "snd u" bytes 0]
  by (simp add: unit_list_def)

lemma chunk_shape:
  assumes tm: "text_mode desc" and mem: "(b, e) \<in> set (text_chunks desc bytes)"
  shows "\<exists>pre vs post. unit_list desc bytes = pre @ vs @ post \<and> vs \<noteq> [] \<and> length vs \<le> unat (max_units desc) \<and>
      b = fst (hd vs) \<and> e = snd (last vs) \<and> b < e \<and> e \<le> length bytes"
proof -
  obtain pre vs post where v: "unit_list desc bytes = pre @ vs @ post" "vs \<noteq> []"
    "length vs \<le> unat (max_units desc)" "b = fst (hd vs)" "e = snd (last vs)"
    using windows_sublist [OF mem [unfolded text_chunks_windows [OF tm]]] by (elim exE conjE)
  have vs: "in_order vs" using unit_list_in_order [OF tm, of bytes] v(1) by (simp add: in_order_def sorted_wrt_append)
  have "fst (hd vs) < snd (hd vs)" using vs v(2) by (simp add: in_order_def)
  also have "snd (hd vs) \<le> snd (last vs)" using in_order_last [OF vs] v(2) by simp
  finally have "b < e" using v by simp
  moreover have "e \<le> length bytes" using unit_list_bound [OF tm, of "last vs" bytes] v by simp
  ultimately show ?thesis using v by (intro exI [of _ pre] exI [of _ vs] exI [of _ post]) simp
qed

lemma chunk_bounds: "text_mode desc \<Longrightarrow> (b, e) \<in> set (text_chunks desc bytes) \<Longrightarrow> b < e \<and> e \<le> length bytes"
  using chunk_shape by blast

text \<open>The chunks cover the units: each unit of the text lies inside one of the chunks, and each chunk
  reaches from the begin of a unit to the end of one, with at most \<open>max_units\<close> consecutive units between,
  inside the text.\<close>
theorem chunks_cover_units:
  assumes "text_mode desc" "overlap_units desc < max_units desc"
  shows "(\<forall>u \<in> set (unit_list desc bytes). \<exists>(b, e) \<in> set (text_chunks desc bytes). b \<le> fst u \<and> snd u \<le> e) \<and>
    (\<forall>(b, e) \<in> set (text_chunks desc bytes). \<exists>pre vs post. unit_list desc bytes = pre @ vs @ post \<and>
       vs \<noteq> [] \<and> length vs \<le> unat (max_units desc) \<and> b = fst (hd vs) \<and> e = snd (last vs) \<and>
       b < e \<and> e \<le> length bytes)"
proof (intro conjI ballI, goal_cases)
  case (1 u)
  have lt: "unat (overlap_units desc) < unat (max_units desc)" using assms(2) by (simp add: word_less_nat_alt)
  show ?case unfolding text_chunks_windows [OF assms(1)]
    by (rule windows_cover [OF unit_list_in_order [OF assms(1)] lt 1])
next
  case (2 x)
  then show ?case using chunk_shape [OF assms(1), of "fst x" "snd x"] by (simp add: case_prod_beta)
qed

theorem chunks_cover_units_witness: "\<exists>(b, e) \<in> set (text_chunks word_desc [0x61]). b \<le> 0 \<and> 1 \<le> e"
proof -
  have "next_word_unit [0x61] 0 = (Some (0, 1), 1)" by code_simp
  then have "(0, 1) \<in> set (unit_list word_desc [0x61])"
    by (simp add: unit_list_def next_unit_def word_desc_def units_from.simps)
  moreover have m: "text_mode word_desc" "overlap_units word_desc < max_units word_desc"
    by (simp_all add: text_mode_def word_desc_def word_less_nat_alt)
  ultimately show ?thesis using bspec [OF conjunct1 [OF chunks_cover_units [OF m]], of "(0, 1)" "[0x61]"] by simp
qed

section \<open>Token chunks and copying\<close>

lemma token_count_unat:
  assumes "overlap_units desc < max_units desc"
  shows "unat (token_chunk_count_fast desc n) =
    (if n = 0 then 0 else if n \<le> max_units desc then 1
     else 1 + (unat n - unat (max_units desc) + (unat (max_units desc) - unat (overlap_units desc)) - 1) div
              (unat (max_units desc) - unat (overlap_units desc)))"
proof (cases "n = 0 \<or> n \<le> max_units desc")
  case True
  then show ?thesis by (auto simp: token_chunk_count_fast_def)
next
  case False
  let ?m = "max_units desc" and ?o = "overlap_units desc"
  let ?M = "unat ?m" and ?O = "unat ?o" and ?N = "unat n"
  have lt: "?O < ?M" "?M < ?N" using assms False by (simp_all add: word_less_nat_alt not_le)
  have N: "?N < 2 ^ 32" using unsigned_less [of n] by simp
  have s: "unat (?m - ?o) = ?M - ?O" using lt by (intro unat_sub) (simp add: word_le_nat_alt)
  have r: "unat (n - ?m) = ?N - ?M" using lt by (intro unat_sub) (simp add: word_le_nat_alt)
  have sum: "unat (n - ?m + (?m - ?o)) = ?N - ?M + (?M - ?O)"
    using lt N r s by (simp only: unat_word_ariths(1) r s) (rule mod_less, simp)
  have le: "(1 :: u32) \<le> n - ?m + (?m - ?o)"
    unfolding word_le_nat_alt sum using lt by simp
  have pred: "unat (n - ?m + (?m - ?o) - 1) = ?N - ?M + (?M - ?O) - 1"
    using unat_sub [OF le] sum by simp
  define Q where "Q = (?N - ?M + (?M - ?O) - 1) div (?M - ?O)"
  define X where "X = (n - ?m + (?m - ?o) - 1) div (?m - ?o)"
  have d: "unat X = Q" unfolding X_def Q_def unat_div pred s by simp
  have "Q \<le> ?N - ?M + (?M - ?O) - 1" unfolding Q_def by (rule div_le_dividend)
  then have Q: "1 + Q < 2 ^ 32" using lt N by simp
  have "unat (1 + X) = (1 + Q) mod 2 ^ LENGTH(32)" unfolding unat_word_ariths(1) d by simp
  also have "\<dots> = 1 + Q" using Q by (intro mod_less) simp
  finally show ?thesis using False by (simp add: token_chunk_count_fast_def Let_def X_def Q_def)
qed

lemma token_loop_nth:
  assumes "cid + n \<le> length rs"
  shows "length (token_loop desc count stride n cid b rs) = length rs \<and>
    (\<forall>i < length rs. token_loop desc count stride n cid b rs ! i =
       (if cid \<le> i \<and> i < cid + n
        then fill_token_range desc i (b + of_nat (i - cid) * stride)
               (let e = b + of_nat (i - cid) * stride + max_units desc in if e > count then count else e)
        else rs ! i))"
  using assms
proof (induction n arbitrary: cid b rs)
  case (Suc n)
  let ?e = "b + max_units desc"
  let ?rs = "rs[cid := fill_token_range desc cid b (if ?e > count then count else ?e)]"
  have IH: "length (token_loop desc count stride n (cid + 1) (b + stride) ?rs) = length ?rs \<and>
    (\<forall>i < length ?rs. token_loop desc count stride n (cid + 1) (b + stride) ?rs ! i =
       (if cid + 1 \<le> i \<and> i < cid + 1 + n
        then fill_token_range desc i (b + stride + of_nat (i - (cid + 1)) * stride)
               (let e = b + stride + of_nat (i - (cid + 1)) * stride + max_units desc in if e > count then count else e)
        else ?rs ! i))"
    using Suc.prems by (intro Suc.IH) simp
  have at: "b + stride + of_nat (i - (cid + 1)) * stride = b + of_nat (i - cid) * stride" if "cid < i" for i
  proof -
    have "i - cid = Suc (i - (cid + 1))" using that by simp
    then show ?thesis by (simp add: algebra_simps)
  qed
  have loop: "token_loop desc count stride (Suc n) cid b rs = token_loop desc count stride n (cid + 1) (b + stride) ?rs"
    by (simp add: Let_def)
  show ?case
  proof (intro conjI allI impI)
    show "length (token_loop desc count stride (Suc n) cid b rs) = length rs" unfolding loop using IH by simp
  next
    fix i assume i: "i < length rs"
    then have IHi: "token_loop desc count stride n (cid + 1) (b + stride) ?rs ! i =
       (if cid + 1 \<le> i \<and> i < cid + 1 + n
        then fill_token_range desc i (b + stride + of_nat (i - (cid + 1)) * stride)
               (let e = b + stride + of_nat (i - (cid + 1)) * stride + max_units desc in if e > count then count else e)
        else ?rs ! i)" using IH by simp
    show "token_loop desc count stride (Suc n) cid b rs ! i =
       (if cid \<le> i \<and> i < cid + Suc n
        then fill_token_range desc i (b + of_nat (i - cid) * stride)
               (let e = b + of_nat (i - cid) * stride + max_units desc in if e > count then count else e)
        else rs ! i)"
    proof (cases "i = cid")
      case True
      then show ?thesis unfolding loop IHi using i by (simp add: Let_def)
    next
      case ne: False
      show ?thesis
      proof (cases "cid < i")
        case True
        then show ?thesis unfolding loop IHi at [OF True] by auto
      next
        case False
        then show ?thesis unfolding loop IHi using ne by simp
      qed
    qed
  qed
qed auto

definition token_begin_at :: "chunker_desc \<Rightarrow> nat \<Rightarrow> nat" where
  "token_begin_at desc i = i * (unat (max_units desc) - unat (overlap_units desc))"

lemma token_begin_fits:
  assumes ovl: "overlap_units desc < max_units desc"
    and fits: "unat n + unat (max_units desc) - unat (overlap_units desc) \<le> 2 ^ 32"
    and i: "i < unat (token_chunk_count_fast desc n)"
  shows "unat (of_nat i * (max_units desc - overlap_units desc) :: u32) = token_begin_at desc i"
    and "unat (of_nat i * (max_units desc - overlap_units desc) + max_units desc :: u32) =
      token_begin_at desc i + unat (max_units desc) \<or> n \<le> max_units desc"
    and "token_begin_at desc i < unat n"
proof -
  let ?M = "unat (max_units desc)" and ?O = "unat (overlap_units desc)" and ?N = "unat n"
  define S where "S = ?M - ?O"
  have lt: "?O < ?M" using ovl by (simp add: word_less_nat_alt)
  then have S: "0 < S" by (simp add: S_def)
  have N: "?N < 2 ^ 32" using unsigned_less [of n] by simp
  have s: "unat (max_units desc - overlap_units desc) = S"
    unfolding S_def using lt by (intro unat_sub) (simp add: word_le_nat_alt)
  have n0: "n \<noteq> 0" using i by (auto simp: token_chunk_count_fast_def)
  then have N0: "0 < ?N" by (simp add: unat_gt_0)
  have bound: "i * S + ?M < ?N + S" if big: "\<not> n \<le> max_units desc"
  proof -
    have lt': "?M < ?N" using big by (simp add: word_less_nat_alt not_le)
    have "i \<le> (?N - ?M + S - 1) div S"
      using i token_count_unat [OF ovl, of n] n0 big by (simp add: S_def)
    then have "i * S \<le> (?N - ?M + S - 1) div S * S" by simp
    also have "\<dots> \<le> ?N - ?M + S - 1" by (simp add: div_times_less_eq_dividend)
    finally show ?thesis using lt' S by simp
  qed
  have i1: "i = 0" if "n \<le> max_units desc" using i that token_count_unat [OF ovl, of n] n0 by simp
  have begin_lt: "i * S < ?N"
  proof (cases "n \<le> max_units desc")
    case True
    then show ?thesis using i1 N0 by simp
  next
    case False
    then show ?thesis using bound S_def lt by simp
  qed
  then show "token_begin_at desc i < unat n" by (simp add: token_begin_at_def S_def)
  have "i \<le> i * S" using S by simp
  then have "i < 2 ^ 32" using begin_lt N by (metis le_less_trans less_trans)
  then have un: "unat (of_nat i :: u32) = i" unfolding unat_of_nat by simp
  have ub: "unat (of_nat i * (max_units desc - overlap_units desc) :: u32) = i * S"
    unfolding unat_word_ariths(2) un s using begin_lt N by (intro mod_less) simp
  then show "unat (of_nat i * (max_units desc - overlap_units desc) :: u32) = token_begin_at desc i"
    by (simp add: token_begin_at_def S_def)
  show "unat (of_nat i * (max_units desc - overlap_units desc) + max_units desc :: u32) =
      token_begin_at desc i + unat (max_units desc) \<or> n \<le> max_units desc"
  proof (cases "n \<le> max_units desc")
    case False
    have "i * S + ?M < 2 ^ 32" using bound [OF False] fits lt by (simp add: S_def)
    then show ?thesis unfolding unat_word_ariths(1) ub by (simp add: token_begin_at_def S_def)
  qed simp
qed

definition valid_token_call :: "chunker_desc \<Rightarrow> bool" where
  "valid_token_call desc \<longleftrightarrow> desc_valid (Some desc) \<and> cd_mode desc = MODE_TOKEN"

lemma valid_token_callD: "valid_token_call desc \<Longrightarrow> overlap_units desc < max_units desc"
  by (auto simp: valid_token_call_def desc_valid_def not_le split: if_splits)

text \<open>As long as the number of tokens and one stride stay below \<open>2 ^ 32\<close>, chunk \<open>i\<close> of a token call
  begins \<open>i\<close> strides into the stream and has \<open>max_units\<close> tokens, or ends with the stream; entries
  behind the last chunk stay as they are, and the count is the one of the counting call.\<close>
theorem token_chunk_ranges_correct:
  assumes "valid_token_call desc" and "unat n + unat (max_units desc) - unat (overlap_units desc) \<le> 2 ^ 32"
  shows "let k = unat (token_chunk_count_fast desc n) in
    \<exists>out. token_chunk_ranges (Some desc) n (Some rs) (length rs) True =
        (if length rs < k then ASTRAL_E_NOMEM else ASTRAL_OK, Some k, Some out) \<and>
      length out = length rs \<and>
      (\<forall>i < length rs. out ! i =
         (if i < k then fill_token_range desc i (of_nat (token_begin_at desc i))
                          (of_nat (min (token_begin_at desc i + unat (max_units desc)) (unat n)))
          else rs ! i)) \<and>
      token_chunk_count (Some desc) n True = (ASTRAL_OK, Some (of_nat k))"
proof -
  let ?k = "unat (token_chunk_count_fast desc n)" and ?S = "max_units desc - overlap_units desc"
  let ?m = "min (length rs) ?k"
  define out where "out = token_loop desc n ?S ?m 0 0 rs"
  have call: "token_chunk_ranges (Some desc) n (Some rs) (length rs) True =
      (if length rs < ?k then ASTRAL_E_NOMEM else ASTRAL_OK, Some ?k, Some out)"
    using assms(1) by (simp add: token_chunk_ranges_def valid_token_call_def emit_token_chunks_def emit_status_def
        out_def Let_def)
  note loop = token_loop_nth [of 0 ?m rs desc n ?S 0, folded out_def]
  have "out ! i = (if i < ?k then fill_token_range desc i (of_nat (token_begin_at desc i))
      (of_nat (min (token_begin_at desc i + unat (max_units desc)) (unat n))) else rs ! i)" if i: "i < length rs" for i
  proof (cases "i < ?k")
    case True
    note fit = token_begin_fits [OF valid_token_callD [OF assms(1)] assms(2) True]
    let ?b = "of_nat i * ?S :: u32"
    have b: "?b = of_nat (token_begin_at desc i)" using fit(1) by (metis of_nat_unat ucast_id)
    have "(if ?b + max_units desc > n then n else ?b + max_units desc) =
        of_nat (min (token_begin_at desc i + unat (max_units desc)) (unat n))"
    proof (cases "n \<le> max_units desc")
      case small: True
      then have i0: "i = 0" using True token_count_unat [OF valid_token_callD [OF assms(1)], of n]
        by (auto split: if_splits)
      have "unat n \<le> unat (max_units desc)" using small by (simp add: word_le_nat_alt)
      then show ?thesis using i0 small by (auto simp: token_begin_at_def min_def)
    next
      case False
      then have e: "unat (?b + max_units desc) = token_begin_at desc i + unat (max_units desc)" using fit(2) by blast
      show ?thesis
      proof (cases "?b + max_units desc > n")
        case True
        then have "unat n < token_begin_at desc i + unat (max_units desc)" unfolding word_less_nat_alt e .
        then show ?thesis using True by simp
      next
        case f: False
        then have "token_begin_at desc i + unat (max_units desc) \<le> unat n" unfolding word_less_nat_alt e by simp
        then have "min (token_begin_at desc i + unat (max_units desc)) (unat n) = unat (?b + max_units desc)"
          using e by simp
        then show ?thesis using f by (simp only: if_False of_nat_unat ucast_id)
      qed
    qed
    then show ?thesis using loop i True unfolding b [symmetric] by (simp add: Let_def)
  next
    case False
    then show ?thesis using loop i by simp
  qed
  moreover have "length out = length rs" using loop by simp
  moreover have "token_chunk_count (Some desc) n True = (ASTRAL_OK, Some (of_nat ?k))"
    using assms(1) by (simp add: token_chunk_count_def valid_token_call_def)
  ultimately show ?thesis unfolding Let_def using call by blast
qed

definition token_desc :: "u32 \<Rightarrow> u32 \<Rightarrow> chunker_desc" where
  "token_desc maxu ovl = word_desc\<lparr>cd_mode := MODE_TOKEN, max_units := maxu, overlap_units := ovl\<rparr>"

theorem token_chunk_ranges_correct_witness:
  "\<exists>out. token_chunk_ranges (Some (token_desc 4 1)) 9 (Some []) 0 True = (ASTRAL_E_NOMEM, Some 3, Some out)"
proof -
  have "valid_token_call (token_desc 4 1)"
    by (simp add: valid_token_call_def desc_valid_def token_desc_def word_desc_def sizeof_desc_def word_le_nat_alt)
  moreover have "unat (token_chunk_count_fast (token_desc 4 1) 9) = 3"
    by (simp add: token_chunk_count_fast_def token_desc_def word_desc_def Let_def)
  ultimately show ?thesis
    using token_chunk_ranges_correct [of "token_desc 4 1" 9 "[]"] by (auto simp: token_desc_def word_desc_def Let_def)
qed

text \<open>Near the end of the 32-bit range the end of a chunk wraps to a position before its begin: the
  second of two chunks of a full stream ends at token 0.\<close>
theorem token_end_wraps:
  "token_chunk_ranges (Some (token_desc 0x80000000 0)) 0xFFFFFFFF (Some [r, r]) 2 True =
    (ASTRAL_OK, Some 2,
     Some [fill_token_range (token_desc 0x80000000 0) 0 0 0x80000000,
           fill_token_range (token_desc 0x80000000 0) 1 0x80000000 0])"
proof -
  let ?d = "token_desc 0x80000000 0"
  have c: "unat (token_chunk_count_fast ?d 0xFFFFFFFF) = Suc (Suc 0)" by code_simp
  have v: "desc_valid (Some ?d)" by code_simp
  have f: "max_units ?d = 0x80000000" "overlap_units ?d = 0" "cd_mode ?d = MODE_TOKEN"
    by (simp_all add: token_desc_def word_desc_def)
  have w: "(4294967296 :: u32) = 0" by code_simp
  show ?thesis
    unfolding token_chunk_ranges_def emit_token_chunks_def option.sel c Let_def emit_status_def f using v by (simp add: f w)
qed

text \<open>Copying a chunk of a text gives the bytes of the chunk, or asks for more room; the length is
  reported in both cases.\<close>
theorem chunk_copy_correct:
  assumes "(b, e) \<in> set (text_chunks desc bytes)" "length bytes < 2 ^ 32"
    and "text_mode desc" "overlap_units desc < max_units desc"
  shows "chunk_text_copy (Span bytes) (Some (fill_text_range desc i b e)) (Span out) True =
    (if length out < e - b then (ASTRAL_E_NOMEM, Some (e - b), Span out)
     else (ASTRAL_OK, Some (e - b), Span (take (e - b) (drop b bytes) @ drop (e - b) out)))"
proof -
  have be: "b < e" "e \<le> length bytes" using chunk_bounds [OF assms(3,1)] by simp_all
  have u: "unat (of_nat b :: u32) = b" "unat (of_nat e :: u32) = e"
    using be assms(2) unfolding unat_of_nat by (intro mod_less, simp)+
  have le: "(of_nat b :: u32) \<le> of_nat e" unfolding word_le_nat_alt u using be by simp
  have d: "unat ((of_nat e :: u32) - of_nat b) = e - b" using unat_sub [OF le] u by simp
  show ?thesis using be le by (simp add: chunk_text_copy_def fill_text_range_def Let_def d u not_less)
qed

theorem chunk_copy_correct_witness:
  "chunk_text_copy (Span [0x61, 0x62]) (Some (fill_text_range (word_desc\<lparr>cd_mode := MODE_CHAR, overlap_units := 0\<rparr>) 0 0 2))
     (Span [9, 9, 9]) True = (ASTRAL_OK, Some 2, Span [0x61, 0x62, 9])"
proof -
  let ?d = "word_desc\<lparr>cd_mode := MODE_CHAR, overlap_units := 0\<rparr>" and ?t = "[0x61, 0x62] :: u8 list"
  have c: "next_char_unit ?t 0 = (Some (0, 1), 1)" "next_char_unit ?t 1 = (Some (1, 2), 2)" by code_simp+
  have "unit_list ?d ?t = [(0, 1), (1, 2)]"
    using c by (simp add: unit_list_def next_unit_def word_desc_def units_from.simps)
  then have "(0, 2) \<in> set (text_chunks ?d ?t)"
    by (simp add: text_chunks_def word_desc_def windows.simps has_tail_def)
  then show ?thesis using chunk_copy_correct [of 0 2 ?d ?t 0 "[9, 9, 9]"]
    by (simp add: text_mode_def word_desc_def word_less_nat_alt)
qed

end
