(* ===== verification/Tool_Json.thy ===== *)
theory Tool_Json
  imports Prelude
begin

unbundle bit_operations_syntax

text \<open>
  The scanner of \<open>src/src/inference/tooling.cpp\<close> that looks for a tool call in generated text: the
  value of a \<open>name\<close> or \<open>tool\<close> key, and the object of an \<open>arguments\<close> key. A position in the text
  is a natural number; the functions get the bytes from the position on, so the tests on
  \<open>text.len\<close> become tests on the rest. Texts are shorter than \<open>2 ^ 32 - 16\<close> bytes, so the sums of
  positions and lengths do not wrap. The theorem at the end shows that the scanner finds the parts
  of a call that is written down in the usual form.
\<close>

abbreviation QUOTE :: u8 where "QUOTE \<equiv> 0x22"
abbreviation BACKSLASH :: u8 where "BACKSLASH \<equiv> 0x5C"
abbreviation COLON :: u8 where "COLON \<equiv> 0x3A"
abbreviation LBRACE :: u8 where "LBRACE \<equiv> 0x7B"
abbreviation RBRACE :: u8 where "RBRACE \<equiv> 0x7D"

lemma chars_differ [simp]:
  "QUOTE \<noteq> BACKSLASH" "QUOTE \<noteq> LBRACE" "QUOTE \<noteq> RBRACE" "RBRACE \<noteq> LBRACE"
  "BACKSLASH \<noteq> QUOTE" "LBRACE \<noteq> QUOTE" "RBRACE \<noteq> QUOTE" "LBRACE \<noteq> RBRACE" "COLON \<noteq> QUOTE"
  by code_simp+

definition kJsonNameKey :: "u8 list" where "kJsonNameKey = [0x6E, 0x61, 0x6D, 0x65]"
definition kJsonToolKey :: "u8 list" where "kJsonToolKey = [0x74, 0x6F, 0x6F, 0x6C]"
definition kJsonArgumentsKey :: "u8 list" where
  "kJsonArgumentsKey = [0x61, 0x72, 0x67, 0x75, 0x6D, 0x65, 0x6E, 0x74, 0x73]"

definition is_ws :: "u8 \<Rightarrow> bool" where
  "is_ws c \<longleftrightarrow> c = 0x20 \<or> c = 0x0A \<or> c = 0x0D \<or> c = 0x09"

text \<open>White space is stepped over by a loop; a string is left at its closing quote.\<close>

fun skip_ws :: "u8 list \<Rightarrow> nat \<Rightarrow> u8 list \<times> nat" where
  "skip_ws [] p = ([], p)"
| "skip_ws (c # cs) p = (if is_ws c then skip_ws cs (p + 1) else (c # cs, p))"

fun string_len :: "u8 list \<Rightarrow> nat option" where
  "string_len [] = None"
| "string_len [c] = (if c = BACKSLASH then None else if c = QUOTE then Some 0 else None)"
| "string_len (c # d # cs) =
     (if c = BACKSLASH then map_option (\<lambda>n. n + 2) (string_len cs)
      else if c = QUOTE then Some 0
      else map_option Suc (string_len (d # cs)))"

definition key_here :: "u8 list \<Rightarrow> u8 list \<Rightarrow> bool" where
  "key_here key cs \<longleftrightarrow>
     length key + 1 < length (QUOTE # cs) \<and> take (length key) cs = key \<and> cs ! length key = QUOTE"

text \<open>A name found: where its value begins, its length, where the scan goes on, and the depth.\<close>

type_synonym found_name = "nat \<times> nat \<times> nat \<times> nat"

definition read_name_value :: "u8 list \<Rightarrow> nat \<Rightarrow> nat \<Rightarrow> found_name option" where
  "read_name_value rest p depth =
     (case skip_ws rest p of
        ([], _) \<Rightarrow> None
      | (c # cs, p1) \<Rightarrow>
          if c \<noteq> COLON then None
          else
            (case skip_ws cs (p1 + 1) of
               ([], _) \<Rightarrow> None
             | (d # ds, p2) \<Rightarrow>
                 if d \<noteq> QUOTE then None
                 else
                   (case string_len ds of
                      None \<Rightarrow> None
                    | Some n \<Rightarrow> Some (p2 + 1, n, p2 + 1 + n + 1, depth))))"

function find_json_tool_name_key :: "u8 list \<Rightarrow> nat \<Rightarrow> nat \<Rightarrow> found_name option" where
  "find_json_tool_name_key [] p depth = None"
| "find_json_tool_name_key (c # cs) p depth =
     (if c = QUOTE then
        let key_len = (if key_here kJsonNameKey cs then 4 else if key_here kJsonToolKey cs then 4 else 0)
        in if key_len \<noteq> 0 then read_name_value (drop (key_len + 1) cs) (p + key_len + 2) depth
           else
             (case string_len cs of
                None \<Rightarrow> None
              | Some n \<Rightarrow> find_json_tool_name_key (drop (n + 1) cs) (p + 1 + n + 1) depth)
      else
        find_json_tool_name_key cs (p + 1)
          (if c = LBRACE then depth + 1 else if c = RBRACE \<and> depth \<noteq> 0 then depth - 1 else depth))"
  by pat_completeness auto
termination by (relation "measure (\<lambda>(cs, _, _). length cs)") auto

text \<open>The number of bytes of an object, up to the brace that closes it.\<close>

fun object_len :: "u8 list \<Rightarrow> nat \<Rightarrow> bool \<Rightarrow> nat option" where
  "object_len [] depth in_string = None"
| "object_len [c] depth in_string =
     (if in_string then None
      else if c = RBRACE \<and> depth = 1 then Some 1
      else None)"
| "object_len (c # d # cs) depth in_string =
     (if in_string then
        if c = BACKSLASH then map_option (\<lambda>n. n + 2) (object_len cs depth True)
        else map_option Suc (object_len (d # cs) depth (c \<noteq> QUOTE))
      else if c = QUOTE then map_option Suc (object_len (d # cs) depth True)
      else if c = LBRACE then map_option Suc (object_len (d # cs) (depth + 1) False)
      else if c = RBRACE then
        if depth = 0 then None
        else if depth - 1 = 0 then Some 1
        else map_option Suc (object_len (d # cs) (depth - 1) False)
      else map_option Suc (object_len (d # cs) depth False))"

text \<open>
  \<open>Inl\<close> means that the loop goes on, \<open>Inr\<close> that the function returns: the value of the key, if it
  is an object, begins at the position and has the length.
\<close>

definition read_object_value :: "u8 list \<Rightarrow> nat \<Rightarrow> unit + (nat \<times> nat) option" where
  "read_object_value rest p =
     (case skip_ws rest p of
        ([], _) \<Rightarrow> Inl ()
      | (c # cs, p1) \<Rightarrow>
          if c \<noteq> COLON then Inl ()
          else
            (case skip_ws cs (p1 + 1) of
               ([], _) \<Rightarrow> Inr None
             | (d # ds, p2) \<Rightarrow>
                 if d \<noteq> LBRACE then Inr None
                 else Inr (map_option (\<lambda>n. (p2, n)) (object_len (d # ds) 0 False))))"

fun scan_object_key :: "u8 list \<Rightarrow> u8 list \<Rightarrow> nat \<Rightarrow> (nat \<times> nat) option" where
  "scan_object_key key [] i = None"
| "scan_object_key key (c # cs) i =
     (if length key + 3 < length (c # cs) then
        if c \<noteq> QUOTE \<or> take (length key) cs \<noteq> key \<or> cs ! length key \<noteq> QUOTE
        then scan_object_key key cs (i + 1)
        else
          (case read_object_value (drop (length key + 1) cs) (i + length key + 2) of
             Inl _ \<Rightarrow> scan_object_key key cs (i + 1)
           | Inr r \<Rightarrow> r)
      else None)"

definition find_json_object_key :: "u8 list \<Rightarrow> u8 list \<Rightarrow> nat \<Rightarrow> (nat \<times> nat) option" where
  "find_json_object_key key rest p =
     (if key = [] \<or> length rest < length key + 4 then None else scan_object_key key rest p)"

section \<open>Steps of the scanner\<close>

lemma skip_ws_append: "\<forall>c \<in> set ws. is_ws c \<Longrightarrow> skip_ws (ws @ cs) p = skip_ws cs (p + length ws)"
  by (induction ws arbitrary: p) auto

lemma skip_ws_stop: "\<not> is_ws c \<Longrightarrow> skip_ws (c # cs) p = (c # cs, p)"
  by simp

lemma not_ws [simp]: "\<not> is_ws QUOTE" "\<not> is_ws COLON" "\<not> is_ws LBRACE"
  by (simp_all add: is_ws_def)

lemma string_len_Cons:
  "string_len (c # cs) =
     (if c = BACKSLASH then (case cs of [] \<Rightarrow> None | d # ds \<Rightarrow> map_option (\<lambda>n. n + 2) (string_len ds))
      else if c = QUOTE then Some 0 else map_option Suc (string_len cs))"
  by (cases cs) auto

lemma object_len_out:
  "object_len (c # cs) depth False =
     (if c = QUOTE then map_option Suc (object_len cs depth True)
      else if c = LBRACE then map_option Suc (object_len cs (depth + 1) False)
      else if c = RBRACE then
        if depth = 0 then None else if depth = 1 then Some 1 else map_option Suc (object_len cs (depth - 1) False)
      else map_option Suc (object_len cs depth False))"
  by (cases cs) auto

lemma object_len_in:
  "object_len (c # cs) depth True =
     (if c = BACKSLASH then (case cs of [] \<Rightarrow> None | d # ds \<Rightarrow> map_option (\<lambda>n. n + 2) (object_len ds depth True))
      else map_option Suc (object_len cs depth (c \<noteq> QUOTE)))"
  by (cases cs) auto

declare string_len.simps(2,3) [simp del] object_len.simps(2,3) [simp del]
declare string_len_Cons [simp] object_len_out [simp] object_len_in [simp]

text \<open>A result lies in the bytes it was found in.\<close>

lemma string_len_less: "string_len cs = Some n \<Longrightarrow> n < length cs"
  by (induction cs arbitrary: n rule: string_len.induct) (auto split: if_splits list.splits)

lemma string_len_quote: "string_len cs = Some n \<Longrightarrow> cs ! n = QUOTE"
proof (induction cs arbitrary: n rule: string_len.induct)
  case (3 c d cs)
  then show ?case by (auto split: if_splits list.splits)
qed (auto split: if_splits)

lemma object_len_split:
  "object_len cs depth b = Some n \<Longrightarrow> \<exists>ys zs. cs = ys @ RBRACE # zs \<and> n = length ys + 1"
proof (induction "length cs" arbitrary: cs depth b n rule: less_induct)
  case less
  obtain c cs' where cs: "cs = c # cs'" using less.prems by (cases cs) auto
  have step: "\<exists>ys zs. cs = ys @ RBRACE # zs \<and> n = length ys + 1"
    if some: "map_option Suc (object_len cs' d b') = Some n" for d b'
  proof -
    obtain m where m: "object_len cs' d b' = Some m" "n = Suc m" using some by auto
    then obtain ys zs where "cs' = ys @ RBRACE # zs" "m = length ys + 1" using less.hyps cs by fastforce
    then have "cs = (c # ys) @ RBRACE # zs \<and> n = length (c # ys) + 1" using cs m by simp
    then show ?thesis by blast
  qed
  show ?case
  proof (cases b)
    case True
    show ?thesis
    proof (cases "c = BACKSLASH")
      case bs: True
      obtain d ds m where d: "cs' = d # ds" "object_len ds depth True = Some m" "n = m + 2"
        using less.prems True bs unfolding cs by (auto split: list.splits)
      moreover have "length ds < length cs" using cs d(1) by simp
      ultimately obtain ys zs where "ds = ys @ RBRACE # zs" "m = length ys + 1" using less.hyps by blast
      then have "cs = (c # d # ys) @ RBRACE # zs \<and> n = length (c # d # ys) + 1" using cs d by simp
      then show ?thesis by blast
    next
      case False
      then show ?thesis using step less.prems True unfolding cs by simp
    qed
  next
    case False
    consider "c = RBRACE" "depth = 1" "n = 1" | d b' where "map_option Suc (object_len cs' d b') = Some n"
      using less.prems False unfolding cs by (simp split: if_splits)
    then show ?thesis
    proof cases
      case 1
      then show ?thesis using cs by (intro exI [of _ "[]"] exI [of _ cs']) simp
    qed (rule step)
  qed
qed

text \<open>A name found ends behind the position, and its bytes are quoted in the text.\<close>

lemma skip_ws_split: "skip_ws cs p = (ds, q) \<Longrightarrow> \<exists>ws. cs = ws @ ds \<and> q = p + length ws \<and> (\<forall>c \<in> set ws. is_ws c)"
proof (induction cs p rule: skip_ws.induct)
  case (2 c cs p)
  show ?case
  proof (cases "is_ws c")
    case True
    then obtain ws where "cs = ws @ ds" "q = p + 1 + length ws" "\<forall>c \<in> set ws. is_ws c" using 2 by auto
    then show ?thesis using True by (intro exI [of _ "c # ws"]) simp
  next
    case False
    then show ?thesis using 2(2) by simp
  qed
qed simp

lemma read_name_split:
  assumes "read_name_value rest p depth = Some (b, n, e, d)"
  shows "\<exists>pre name post. rest = pre @ QUOTE # name @ QUOTE # post \<and> b = p + length pre + 1 \<and> n = length name \<and>
    e = b + n + 1 \<and> d = depth \<and> string_len (name @ QUOTE # post) = Some n"
proof -
  obtain cs p1 where 1: "skip_ws rest p = (COLON # cs, p1)" and
    2: "\<exists>ds p2 m. skip_ws cs (p1 + 1) = (QUOTE # ds, p2) \<and> string_len ds = Some m \<and>
      (b, n, e, d) = (p2 + 1, m, p2 + 1 + m + 1, depth)"
    using assms unfolding read_name_value_def
    by (auto split: prod.splits list.splits if_splits option.splits)
  then obtain ds p2 m where d: "skip_ws cs (p1 + 1) = (QUOTE # ds, p2)" "string_len ds = Some m"
    "b = p2 + 1" "n = m" "e = p2 + 1 + m + 1" "d = depth" by auto
  obtain w1 where w1: "rest = w1 @ COLON # cs" "p1 = p + length w1" using skip_ws_split [OF 1] by auto
  obtain w2 where w2: "cs = w2 @ QUOTE # ds" "p2 = p1 + 1 + length w2" using skip_ws_split [OF d(1)] by auto
  have "ds = take m ds @ QUOTE # drop (Suc m) ds"
    using string_len_less [OF d(2)] string_len_quote [OF d(2)] by (metis id_take_nth_drop)
  then show ?thesis
    using w1 w2 d string_len_less [OF d(2)]
    by (intro exI [of _ "w1 @ COLON # w2"] exI [of _ "take m ds"] exI [of _ "drop (Suc m) ds"]) simp
qed

lemma find_name_split:
  "find_json_tool_name_key rest p depth = Some (b, n, e, d) \<Longrightarrow>
   \<exists>pre name post. rest = pre @ QUOTE # name @ QUOTE # post \<and> b = p + length pre + 1 \<and> n = length name \<and> e = b + n + 1"
proof (induction rest p depth rule: find_json_tool_name_key.induct)
  case (2 c cs p depth)
  show ?case
  proof (cases "c = QUOTE")
    case q: True
    show ?thesis
    proof (cases "key_here kJsonNameKey cs \<or> key_here kJsonToolKey cs")
      case True
      then have "read_name_value (drop 5 cs) (p + 6) depth = Some (b, n, e, d)"
        using 2(3) q by (auto split: if_splits simp: add.commute)
      then obtain pre name post where
        s: "drop 5 cs = pre @ QUOTE # name @ QUOTE # post" "b = p + 6 + length pre + 1" "n = length name" "e = b + n + 1"
        using read_name_split by blast
      have "length (take 5 cs) = 5" using s(1) by (cases "5 \<le> length cs") simp_all
      moreover have "c # cs = (c # take 5 cs @ pre) @ QUOTE # name @ QUOTE # post"
        using s(1) by (metis append.assoc append_Cons append_take_drop_id)
      ultimately show ?thesis using s by (intro exI [of _ "c # take 5 cs @ pre"] exI [of _ name] exI [of _ post]) simp
    next
      case False
      then obtain m where m: "string_len cs = Some m" "find_json_tool_name_key (drop (m + 1) cs) (p + 1 + m + 1) depth = Some (b, n, e, d)"
        using 2(3) q by (auto split: if_splits option.splits)
      obtain pre name post where
        s: "drop (m + 1) cs = pre @ QUOTE # name @ QUOTE # post" "b = p + 1 + m + 1 + length pre + 1" "n = length name" "e = b + n + 1"
        using 2(1) [OF q refl _ m] False by auto
      have "length (take (m + 1) cs) = m + 1" using string_len_less [OF m(1)] by simp
      moreover have "c # cs = (c # take (m + 1) cs @ pre) @ QUOTE # name @ QUOTE # post"
        using s(1) by (metis append.assoc append_Cons append_take_drop_id)
      ultimately show ?thesis using s by (intro exI [of _ "c # take (m + 1) cs @ pre"] exI [of _ name] exI [of _ post]) simp
    qed
  next
    case False
    then have "find_json_tool_name_key cs (p + 1) (if c = LBRACE then depth + 1 else if c = RBRACE \<and> depth \<noteq> 0 then depth - 1 else depth) =
        Some (b, n, e, d)" using 2(3) by simp
    then obtain pre name post where "cs = pre @ QUOTE # name @ QUOTE # post" "b = p + 1 + length pre + 1" "n = length name" "e = b + n + 1"
      using 2(2) [OF False] by blast
    then show ?thesis by (intro exI [of _ "c # pre"] exI [of _ name] exI [of _ post]) simp
  qed
qed simp

section \<open>A call in its usual form\<close>

text \<open>Strings with escapes, and objects with strings and objects inside.\<close>

datatype str_piece = Chr u8 | Esc u8

fun str_bytes :: "str_piece \<Rightarrow> u8 list" where
  "str_bytes (Chr c) = [c]"
| "str_bytes (Esc c) = [BACKSLASH, c]"

fun str_ok :: "str_piece \<Rightarrow> bool" where
  "str_ok (Chr c) = (c \<noteq> QUOTE \<and> c \<noteq> BACKSLASH)"
| "str_ok (Esc c) = True"

datatype piece = Plain u8 | Str "str_piece list" | Obj "piece list"

fun render :: "piece \<Rightarrow> u8 list" where
  "render (Plain c) = [c]"
| "render (Str s) = QUOTE # concat (map str_bytes s) @ [QUOTE]"
| "render (Obj ps) = LBRACE # concat (map render ps) @ [RBRACE]"

fun piece_ok :: "piece \<Rightarrow> bool" where
  "piece_ok (Plain c) = (c \<noteq> QUOTE \<and> c \<noteq> LBRACE \<and> c \<noteq> RBRACE)"
| "piece_ok (Str s) = list_all str_ok s"
| "piece_ok (Obj ps) = list_all piece_ok ps"

definition shift_len :: "nat \<Rightarrow> nat option \<Rightarrow> nat option" where
  "shift_len k = map_option (\<lambda>n. k + n)"

lemma shift_len_simps [simp]:
  "shift_len k None = None" "shift_len k (Some n) = Some (k + n)"
  "map_option Suc r = shift_len 1 r" "map_option (\<lambda>n. n + 2) r = shift_len 2 r" "map_option (\<lambda>n. Suc (Suc n)) r = shift_len 2 r"
  "shift_len a (shift_len b r) = shift_len (a + b) r" "shift_len 0 r = r"
  by (cases r; simp add: shift_len_def fun_eq_iff option.map_ident)+

lemma object_len_string:
  "list_all str_ok s \<Longrightarrow> object_len (concat (map str_bytes s) @ QUOTE # rest) depth True =
     shift_len (length (concat (map str_bytes s)) + 1) (object_len rest depth False)"
proof (induction s)
  case (Cons a s)
  then show ?case by (cases a) (simp_all add: add.commute)
qed simp

lemma object_len_pieces:
  assumes "\<And>p rest. p \<in> set ps \<Longrightarrow> piece_ok p \<Longrightarrow>
      object_len (render p @ rest) depth False = shift_len (length (render p)) (object_len rest depth False)"
    and "list_all piece_ok ps"
  shows "object_len (concat (map render ps) @ rest) depth False =
    shift_len (length (concat (map render ps))) (object_len rest depth False)"
  using assms by (induction ps) simp_all

lemma object_len_lbrace: "object_len (LBRACE # cs) depth False = shift_len 1 (object_len cs (depth + 1) False)"
  by (simp only: object_len_out chars_differ simp_thms if_False if_True shift_len_simps)

lemma object_len_rbrace:
  "object_len (RBRACE # cs) (Suc depth) False = (if depth = 0 then Some 1 else shift_len 1 (object_len cs depth False))"
  by (simp only: object_len_out chars_differ simp_thms if_False if_True shift_len_simps) simp

lemma object_len_piece:
  "piece_ok p \<Longrightarrow> 0 < depth \<Longrightarrow>
   object_len (render p @ rest) depth False = shift_len (length (render p)) (object_len rest depth False)"
proof (induction p arbitrary: depth rest)
  case (Str s)
  then show ?case using object_len_string [of s rest depth] by (simp add: add.commute)
next
  case (Obj ps)
  have "object_len (concat (map render ps) @ RBRACE # rest) (depth + 1) False =
      shift_len (length (concat (map render ps))) (object_len (RBRACE # rest) (depth + 1) False)"
    using Obj by (intro object_len_pieces) auto
  then show ?case using Obj.prems
    by (simp add: object_len_lbrace object_len_rbrace del: object_len_out)
qed simp

lemma object_len_object:
  assumes "piece_ok (Obj ps)"
  shows "object_len (render (Obj ps) @ rest) 0 False = Some (length (render (Obj ps)))"
proof -
  have "object_len (concat (map render ps) @ RBRACE # rest) 1 False =
      shift_len (length (concat (map render ps))) (object_len (RBRACE # rest) 1 False)"
    using assms by (intro object_len_pieces object_len_piece) auto
  then show ?thesis
    by (simp add: object_len_lbrace object_len_rbrace del: object_len_out)
qed

definition blank :: "u8 list \<Rightarrow> bool" where
  "blank ws \<longleftrightarrow> (\<forall>c \<in> set ws. is_ws c)"

definition plain_name :: "u8 list \<Rightarrow> bool" where
  "plain_name cs \<longleftrightarrow> (\<forall>c \<in> set cs. c \<noteq> QUOTE \<and> c \<noteq> BACKSLASH)"

definition prose :: "u8 list \<Rightarrow> bool" where
  "prose cs \<longleftrightarrow> (\<forall>c \<in> set cs. c \<noteq> QUOTE \<and> c \<noteq> LBRACE \<and> c \<noteq> RBRACE)"

lemma blank_prose: "blank ws \<Longrightarrow> prose ws"
  by (auto simp: blank_def prose_def is_ws_def)

lemma skip_blank: "blank ws \<Longrightarrow> \<not> is_ws c \<Longrightarrow> skip_ws (ws @ c # cs) p = (c # cs, p + length ws)"
  by (simp add: blank_def skip_ws_append)

lemma string_len_plain: "plain_name cs \<Longrightarrow> string_len (cs @ QUOTE # rest) = Some (length cs)"
  by (induction cs) (simp_all add: plain_name_def)

lemma find_name_prose:
  "prose cs \<Longrightarrow> find_json_tool_name_key (cs @ rest) p depth = find_json_tool_name_key rest (p + length cs) depth"
  by (induction cs arbitrary: p) (simp_all add: prose_def)

text \<open>Text that holds no call: characters, quoted strings and balanced objects, in which no string is one of
  the keys the search looks for.\<close>

fun quiet :: "piece \<Rightarrow> bool" where
  "quiet (Plain c) = True"
| "quiet (Str s) = (concat (map str_bytes s) \<noteq> kJsonNameKey \<and> concat (map str_bytes s) \<noteq> kJsonToolKey)"
| "quiet (Obj ps) = list_all quiet ps"

lemma string_len_str:
  "list_all str_ok s \<Longrightarrow> string_len (concat (map str_bytes s) @ QUOTE # rest) = Some (length (concat (map str_bytes s)))"
proof (induction s)
  case (Cons a s)
  obtain d ds where d: "concat (map str_bytes s) @ QUOTE # rest = d # ds"
    by (cases "concat (map str_bytes s) @ QUOTE # rest") auto
  show ?case
  proof (cases a)
    case (Chr c)
    then show ?thesis using Cons d by simp
  next
    case (Esc c)
    then show ?thesis using Cons by simp
  qed
qed simp

lemma str_bytes_quote:
  assumes "list_all str_ok s" "i < length (concat (map str_bytes s))" "concat (map str_bytes s) ! i = QUOTE"
  shows "0 < i \<and> concat (map str_bytes s) ! (i - 1) = BACKSLASH"
  using assms
proof (induction s arbitrary: i)
  case (Cons a s)
  show ?case
  proof (cases a)
    case (Chr c)
    then have "0 < i" using Cons.prems by (cases i) auto
    then obtain j where j: "i = Suc j" by (cases i) auto
    have "0 < j \<and> concat (map str_bytes s) ! (j - 1) = BACKSLASH"
      by (rule Cons.IH) (use Cons.prems Chr j in simp_all)
    then show ?thesis using Chr j by (cases j) simp_all
  next
    case (Esc c)
    show ?thesis
    proof (cases "i < 2")
      case True
      then show ?thesis using Cons.prems(3) Esc by (cases i) (simp_all add: less_Suc_eq)
    next
      case False
      then obtain j where j: "i = Suc (Suc j)" by (metis add_2_eq_Suc le_Suc_ex not_less)
      have "0 < j \<and> concat (map str_bytes s) ! (j - 1) = BACKSLASH"
        by (rule Cons.IH) (use Cons.prems Esc j in simp_all)
      then show ?thesis using Esc j by (cases j) simp_all
    qed
  qed
qed simp

lemma key_here_str:
  assumes "list_all str_ok s" "key_here key (concat (map str_bytes s) @ QUOTE # rest)" "QUOTE \<notin> set key" "BACKSLASH \<notin> set key"
    "key \<noteq> []"
  shows "concat (map str_bytes s) = key"
proof -
  let ?b = "concat (map str_bytes s)"
  have k: "take (length key) (?b @ QUOTE # rest) = key" "(?b @ QUOTE # rest) ! length key = QUOTE"
    using assms(2) unfolding key_here_def by blast+
  have le: "length key \<le> length ?b"
  proof (rule ccontr)
    assume "\<not> length key \<le> length ?b"
    then have lt: "length ?b < length key" by simp
    then have "take (length key) (?b @ QUOTE # rest) ! length ?b = QUOTE" by (simp only: nth_take nth_append_length)
    then have "key ! length ?b = QUOTE" unfolding k(1) .
    then have "QUOTE \<in> set key" using nth_mem [OF lt] by simp
    then show False using assms(3) by simp
  qed
  have key: "take (length key) ?b = key"
  proof -
    have "take (length key) (?b @ QUOTE # rest) = take (length key) ?b" using le by (simp only: take_append diff_is_0_eq' take_0 append_Nil2)
    then show ?thesis using k(1) by (rule trans [OF sym])
  qed
  have "\<not> length key < length ?b"
  proof
    assume lt: "length key < length ?b"
    then have "?b ! length key = QUOTE" using k(2) by (simp only: nth_append if_True)
    from str_bytes_quote [OF assms(1) lt this] have b: "0 < length key" "?b ! (length key - 1) = BACKSLASH" by simp_all
    have l: "length key - 1 < length key" using b(1) by simp
    have "take (length key) ?b ! (length key - 1) = BACKSLASH" unfolding nth_take [OF l] by (rule b(2))
    then have "key ! (length key - 1) = BACKSLASH" unfolding key .
    then have "BACKSLASH \<in> set key" using nth_mem [OF l] by simp
    then show False using assms(4) by simp
  qed
  then have "length key = length ?b" using le by (simp only: not_less le_antisym)
  then have "take (length key) ?b = ?b" by (simp only: take_all_iff order_refl)
  then show ?thesis using key by (rule trans [OF sym])
qed

lemma find_name_pieces:
  assumes "\<And>p rest q depth. p \<in> set ps \<Longrightarrow> piece_ok p \<Longrightarrow> quiet p \<Longrightarrow>
      find_json_tool_name_key (render p @ rest) q depth = find_json_tool_name_key rest (q + length (render p)) depth"
    and "list_all piece_ok ps" "list_all quiet ps"
  shows "find_json_tool_name_key (concat (map render ps) @ rest) q depth =
    find_json_tool_name_key rest (q + length (concat (map render ps))) depth"
  using assms by (induction ps arbitrary: q) (simp_all add: add.assoc)

lemma find_name_piece:
  "piece_ok p \<Longrightarrow> quiet p \<Longrightarrow>
   find_json_tool_name_key (render p @ rest) q depth = find_json_tool_name_key rest (q + length (render p)) depth"
proof (induction p arbitrary: q depth rest)
  case (Str s)
  let ?b = "concat (map str_bytes s)"
  have "list_all str_ok s" using Str by simp
  moreover have "QUOTE \<notin> set kJsonNameKey" "BACKSLASH \<notin> set kJsonNameKey" "kJsonNameKey \<noteq> []"
    "QUOTE \<notin> set kJsonToolKey" "BACKSLASH \<notin> set kJsonToolKey" "kJsonToolKey \<noteq> []"
    by (simp_all add: kJsonNameKey_def kJsonToolKey_def)
  ultimately have "\<not> key_here kJsonNameKey (?b @ QUOTE # rest)" "\<not> key_here kJsonToolKey (?b @ QUOTE # rest)"
    using key_here_str [of s kJsonNameKey rest] key_here_str [of s kJsonToolKey rest] Str.prems(2) by auto
  moreover have "string_len (?b @ QUOTE # rest) = Some (length ?b)" by (rule string_len_str [OF \<open>list_all str_ok s\<close>])
  ultimately show ?case by (simp add: Let_def)
next
  case (Obj ps)
  have "find_json_tool_name_key (concat (map render ps) @ RBRACE # rest) (q + 1) (depth + 1) =
      find_json_tool_name_key (RBRACE # rest) (q + 1 + length (concat (map render ps))) (depth + 1)"
    by (rule find_name_pieces) (use Obj in simp_all)
  then show ?case by simp
qed simp

lemma find_name_quiet:
  "list_all piece_ok ps \<Longrightarrow> list_all quiet ps \<Longrightarrow>
   find_json_tool_name_key (concat (map render ps) @ rest) q depth =
     find_json_tool_name_key rest (q + length (concat (map render ps))) depth"
  by (rule find_name_pieces [OF find_name_piece])

lemma read_name_value_at:
  assumes "blank w1" "blank w2" "plain_name name"
  shows "read_name_value (w1 @ COLON # w2 @ QUOTE # name @ QUOTE # rest) p depth =
    (let b = p + length w1 + 1 + length w2 + 1 in Some (b, length name, b + length name + 1, depth))"
  using assms by (simp add: read_name_value_def skip_blank string_len_plain Let_def)

lemma find_name_here:
  assumes "blank w1" "blank w2" "plain_name name"
  shows "find_json_tool_name_key (QUOTE # kJsonNameKey @ QUOTE # w1 @ COLON # w2 @ QUOTE # name @ QUOTE # rest) p depth =
    (let b = p + 6 + length w1 + 1 + length w2 + 1 in Some (b, length name, b + length name + 1, depth))"
proof -
  have "key_here kJsonNameKey (kJsonNameKey @ QUOTE # cs)" for cs by (simp add: key_here_def kJsonNameKey_def)
  moreover have "drop 5 (kJsonNameKey @ QUOTE # cs) = cs" for cs by (simp add: kJsonNameKey_def)
  ultimately show ?thesis using read_name_value_at [OF assms] by (simp add: Let_def)
qed

lemma scan_object_prose:
  assumes "prose cs" "length key + 4 \<le> length rest"
  shows "scan_object_key key (cs @ rest) i = scan_object_key key rest (i + length cs)"
  using assms by (induction cs arbitrary: i) (simp_all add: prose_def)

lemma find_object_here:
  assumes "blank w1" "blank w2" "piece_ok (Obj ps)" "prose cs"
  shows "find_json_object_key kJsonArgumentsKey
      (cs @ QUOTE # kJsonArgumentsKey @ QUOTE # w1 @ COLON # w2 @ render (Obj ps) @ rest) p =
    Some (p + length cs + 11 + length w1 + 1 + length w2, length (render (Obj ps)))"
proof -
  let ?tail = "w1 @ COLON # w2 @ render (Obj ps) @ rest"
  have key: "length kJsonArgumentsKey = 9" "kJsonArgumentsKey \<noteq> []" by (simp_all add: kJsonArgumentsKey_def)
  have "read_object_value ?tail q = Inr (Some (q + length w1 + 1 + length w2, length (render (Obj ps))))" for q
    using assms object_len_object [OF assms(3), of rest]
    by (simp add: read_object_value_def skip_blank del: object_len_out object_len.simps)
  moreover have "drop 10 (kJsonArgumentsKey @ QUOTE # cs) = cs" for cs by (simp add: kJsonArgumentsKey_def)
  ultimately have "scan_object_key kJsonArgumentsKey (QUOTE # kJsonArgumentsKey @ QUOTE # ?tail) q =
      Some (q + 11 + length w1 + 1 + length w2, length (render (Obj ps)))" for q
    using key by (simp add: nth_append)
  then show ?thesis
    using scan_object_prose [OF assms(4), of kJsonArgumentsKey "QUOTE # kJsonArgumentsKey @ QUOTE # ?tail" p] key
    by (simp add: find_json_object_key_def)
qed

section \<open>What a found object looks like\<close>

definition object_at :: "u8 list \<Rightarrow> nat \<Rightarrow> nat \<Rightarrow> nat \<Rightarrow> bool" where
  "object_at rest p b n \<longleftrightarrow> (\<exists>pre obj post. rest = pre @ obj @ post \<and> b = p + length pre \<and> n = length obj \<and>
     2 \<le> n \<and> hd obj = LBRACE \<and> last obj = RBRACE)"

lemma object_at_prefix: "object_at rest (p + length xs) b n \<Longrightarrow> object_at (xs @ rest) p b n"
proof -
  assume "object_at rest (p + length xs) b n"
  then obtain pre obj post where "rest = pre @ obj @ post" "b = p + length xs + length pre" "n = length obj"
    "2 \<le> n" "hd obj = LBRACE" "last obj = RBRACE" unfolding object_at_def by blast
  then show ?thesis unfolding object_at_def
    by (intro exI [of _ "xs @ pre"] exI [of _ obj] exI [of _ post]) simp
qed

lemma object_len_object_at:
  assumes "object_len (LBRACE # cs) 0 False = Some n"
  shows "object_at (LBRACE # cs) p p n"
proof -
  obtain ys zs where s: "LBRACE # cs = ys @ RBRACE # zs" "n = length ys + 1"
    using object_len_split [OF assms] by blast
  have "ys \<noteq> []"
  proof
    assume "ys = []"
    with s(1) have "LBRACE = RBRACE" by (simp only: append_Nil list.inject)
    with chars_differ(8) show False by (rule notE)
  qed
  then obtain y ys' where y: "ys = y # ys'" by (cases ys) simp_all
  moreover have "y = LBRACE" using s(1) unfolding y by (simp only: append_Cons list.inject)
  ultimately have ys: "ys = LBRACE # ys'" by (simp only:)
  show ?thesis unfolding object_at_def s(1)
    by (intro exI [of _ "[]"] exI [of _ "ys @ [RBRACE]"] exI [of _ zs]) (simp add: s(2) ys)
qed

lemma read_object_at:
  assumes "read_object_value rest p = Inr (Some (b, n))"
  shows "object_at rest p b n"
proof -
  obtain cs p1 where 1: "skip_ws rest p = (COLON # cs, p1)" and
    2: "\<exists>ds p2. skip_ws cs (p1 + 1) = (LBRACE # ds, p2) \<and> object_len (LBRACE # ds) 0 False = Some n \<and> b = p2"
    using assms unfolding read_object_value_def
    by (auto split: prod.splits list.splits if_splits simp del: object_len_out)
  then obtain ds p2 where d: "skip_ws cs (p1 + 1) = (LBRACE # ds, p2)" "object_len (LBRACE # ds) 0 False = Some n" "b = p2"
    by auto
  obtain w1 where w1: "rest = w1 @ COLON # cs" "p1 = p + length w1" using skip_ws_split [OF 1] by auto
  obtain w2 where w2: "cs = w2 @ LBRACE # ds" "p2 = p1 + 1 + length w2" using skip_ws_split [OF d(1)] by auto
  have "object_at (LBRACE # ds) (p + length (w1 @ COLON # w2)) b n"
    using object_len_object_at [OF d(2), of p2] w1 w2 d(3) by (simp add: add.assoc)
  from object_at_prefix [OF this] show ?thesis using w1 w2 by simp
qed

lemma scan_object_at: "scan_object_key key rest p = Some (b, n) \<Longrightarrow> object_at rest p b n"
proof (induction key rest p rule: scan_object_key.induct)
  case (2 key c cs i)
  have cont: "object_at (c # cs) i b n" if "object_at cs (i + 1) b n"
    using object_at_prefix [of cs i "[c]" b n] that by simp
  have len: "length key + 3 < length (c # cs)" using 2(3) by (auto split: if_splits)
  show ?case
  proof (cases "c \<noteq> QUOTE \<or> take (length key) cs \<noteq> key \<or> cs ! length key \<noteq> QUOTE")
    case True
    then show ?thesis using 2(1) [OF len True] 2(3) len cont by simp
  next
    case False
    show ?thesis
    proof (cases "read_object_value (drop (length key + 1) cs) (i + length key + 2)")
      case (Inl x)
      then show ?thesis using 2(2) [OF len False Inl] 2(3) len False cont by simp
    next
      case (Inr r)
      then have "object_at (drop (length key + 1) cs) (i + length key + 2) b n"
        using read_object_at 2(3) len False by simp
      moreover have "c # cs = (c # take (length key + 1) cs) @ drop (length key + 1) cs" by simp
      moreover have "length (c # take (length key + 1) cs) = length key + 2" using len by simp
      ultimately show ?thesis by (metis object_at_prefix add.assoc)
    qed
  qed
qed simp

lemma find_object_at: "find_json_object_key key rest p = Some (b, n) \<Longrightarrow> object_at rest p b n"
  by (auto simp: find_json_object_key_def intro: scan_object_at split: if_splits)

text \<open>
  A string \<open>name\<close> that is a value and not a key ends the search for the key: in
  \<open>{"k":"name","name":"f","arguments":{}}\<close> no name is found.
\<close>

lemma name_as_value_hides_call:
  "find_json_tool_name_key
     [0x7B, 0x22, 0x6B, 0x22, 0x3A, 0x22, 0x6E, 0x61, 0x6D, 0x65, 0x22, 0x2C,
      0x22, 0x6E, 0x61, 0x6D, 0x65, 0x22, 0x3A, 0x22, 0x66, 0x22, 0x2C,
      0x22, 0x61, 0x72, 0x67, 0x75, 0x6D, 0x65, 0x6E, 0x74, 0x73, 0x22, 0x3A, 0x7B, 0x7D, 0x7D] 0 0 = None"
  by code_simp

end
