(* ===== verification/Toolset_Registry.thy ===== *)
theory Toolset_Registry
  imports Tool_Json Handle_Table "HOL-Library.Multiset"
begin

unbundle bit_operations_syntax

text \<open>
  Toolsets of \<open>src/src/inference/tooling.cpp\<close>: creation, reference counting, lookup and the parsing
  of a tool call. The state has the handle table, the live objects by their address and the sizes
  of the blocks that are allocated; allocation itself is a parameter of \<open>toolset_create\<close>: the
  address of the new object and whether each of the other two blocks is there. \<open>None\<close> is a call
  with undefined behaviour: a copy out of a null pointer.
\<close>

record tool_record =
  tool_id :: u32
  tool_name_tag :: u32
  name_off :: u32
  name_len :: u32
  desc_off :: u32
  desc_len :: u32
  schema_off :: u32
  schema_len :: u32

record toolset =
  ts_handle :: u64
  ts_refcount :: u32
  tool_count :: u32
  choice_mode :: u32
  ts_tools :: "tool_record list"
  ts_bytes :: "u8 list"
  bytes_len :: u32

record tool_desc =
  td_size :: u32
  td_tool_id :: u32
  td_name :: span
  td_description :: span
  td_json_schema :: span

record toolset_desc =
  tsd_size :: u32
  tsd_tool_count :: u32
  tsd_choice_mode :: u32
  tsd_tools :: "tool_desc list option"

definition kMaxTools :: u32 where "kMaxTools = 64"
definition kU32Max :: u32 where "kU32Max = 0xFFFFFFFF"
definition sizeof_tool_desc :: u32 where "sizeof_tool_desc = 56"
definition sizeof_toolset_desc :: u32 where "sizeof_toolset_desc = 24"
definition sizeof_tool_info :: u32 where "sizeof_tool_info = 56"
definition sizeof_tool_result :: u32 where "sizeof_tool_result = 48"
definition sizeof_tool_record :: nat where "sizeof_tool_record = 32"
definition sizeof_toolset :: nat where "sizeof_toolset = 48"

definition choice_mode_valid :: "u32 \<Rightarrow> bool" where
  "choice_mode_valid mode \<longleftrightarrow> mode = 0 \<or> mode = 1 \<or> mode = 2"

fun span_valid :: "span \<Rightarrow> bool" where
  "span_valid (Span bs) = (bs \<noteq> [])"
| "span_valid (Null_Span n) = False"

definition add_size :: "u32 \<Rightarrow> u32 \<Rightarrow> u32 option" where
  "add_size a b = (if kU32Max - a < b then None else Some (a + b))"

definition name_tag :: "u8 list \<Rightarrow> u32" where
  "name_tag cs =
     (if 4 \<le> length cs then
        ucast (cs ! 0) OR push_bit 8 (ucast (cs ! 1)) OR push_bit 16 (ucast (cs ! 2)) OR push_bit 24 (ucast (cs ! 3))
      else fst (foldl (\<lambda>(tag, i) c. (tag OR push_bit (i * 8) (ucast c), i + 1)) (0, 0) cs))"

section \<open>Creation\<close>

fun measure_tools :: "tool_desc list \<Rightarrow> u32 \<Rightarrow> astral_err + u32" where
  "measure_tools [] sum_len = Inr sum_len"
| "measure_tools (tool # tools) sum_len =
     (if td_size tool \<noteq> sizeof_tool_desc \<or> \<not> span_valid (td_name tool) \<or> \<not> span_valid (td_json_schema tool)
      then Inl ASTRAL_E_INVALID
      else
        (case add_size sum_len (span_len (td_name tool)) of
           None \<Rightarrow> Inl ASTRAL_E_NOMEM
         | Some t1 \<Rightarrow>
             (case add_size t1 (span_len (td_description tool)) of
                None \<Rightarrow> Inl ASTRAL_E_NOMEM
              | Some t2 \<Rightarrow>
                  (case add_size t2 (span_len (td_json_schema tool)) of
                     None \<Rightarrow> Inl ASTRAL_E_NOMEM
                   | Some t3 \<Rightarrow> measure_tools tools t3))))"

text \<open>The copy of a span; from a null pointer nothing may be copied.\<close>

fun copy_span :: "span \<Rightarrow> u32 \<Rightarrow> u8 list \<Rightarrow> u8 list option" where
  "copy_span (Span bs) off dst = Some (write_at dst (unat off) bs)"
| "copy_span (Null_Span n) off dst = (if n = 0 then Some dst else None)"

fun copy_tools :: "tool_desc list \<Rightarrow> u32 \<Rightarrow> u8 list \<Rightarrow> (tool_record list \<times> u8 list) option" where
  "copy_tools [] cursor dst = Some ([], dst)"
| "copy_tools (src # srcs) cursor dst =
     (let c1 = cursor + span_len (td_name src);
          c2 = c1 + span_len (td_description src);
          c3 = c2 + span_len (td_json_schema src);
          r = \<lparr>tool_id = td_tool_id src, tool_name_tag = name_tag (span_bytes (td_name src)),
               name_off = cursor, name_len = span_len (td_name src),
               desc_off = c1, desc_len = span_len (td_description src),
               schema_off = c2, schema_len = span_len (td_json_schema src)\<rparr>
      in case copy_span (td_name src) cursor dst of
           None \<Rightarrow> None
         | Some d1 \<Rightarrow>
             (case copy_span (td_description src) c1 d1 of
                None \<Rightarrow> None
              | Some d2 \<Rightarrow>
                  (case copy_span (td_json_schema src) c2 d2 of
                     None \<Rightarrow> None
                   | Some d3 \<Rightarrow>
                       (case copy_tools srcs c3 d3 of
                          None \<Rightarrow> None
                        | Some (rs, d4) \<Rightarrow> Some (r # rs, d4)))))"

record tool_state =
  handles :: handle_table
  objects :: "nat \<Rightarrow> toolset option"
  blocks :: "nat multiset"

record tool_memory =
  new_toolset :: "nat option"
  tools_block :: bool
  bytes_block :: bool
  fresh_bytes :: "u8 list"

definition allocated :: "tool_memory \<Rightarrow> u32 \<Rightarrow> u32 \<Rightarrow> nat multiset" where
  "allocated mem n sum_len =
     {#sizeof_toolset#} + (if tools_block mem then {#sizeof_tool_record * unat n#} else {#}) +
     (if sum_len \<noteq> 0 \<and> bytes_block mem then {#unat sum_len#} else {#})"

definition toolset_blocks :: "toolset \<Rightarrow> nat multiset" where
  "toolset_blocks ts =
     {#sizeof_toolset#} + {#sizeof_tool_record * unat (tool_count ts)#} +
     (if bytes_len ts \<noteq> 0 then {#unat (bytes_len ts)#} else {#})"

text \<open>
  The result is the status, the pointer written to \<open>out_toolset\<close> and the state. A creation that
  fails frees the blocks it has got before it returns.
\<close>

definition toolset_create ::
  "toolset_desc option \<Rightarrow> bool \<Rightarrow> tool_memory \<Rightarrow> tool_state \<Rightarrow> (astral_err \<times> nat option \<times> tool_state) option" where
  "toolset_create d out_toolset mem st =
     (case d of
        None \<Rightarrow> Some (ASTRAL_E_INVALID, None, st)
      | Some desc \<Rightarrow>
          if \<not> out_toolset \<or> tsd_size desc \<noteq> sizeof_toolset_desc \<or> tsd_tools desc = None \<or>
             tsd_tool_count desc = 0 \<or> tsd_tool_count desc > kMaxTools \<or> \<not> choice_mode_valid (tsd_choice_mode desc)
          then Some (ASTRAL_E_INVALID, None, st)
          else
            let tools = take (unat (tsd_tool_count desc)) (the (tsd_tools desc))
            in case measure_tools tools 0 of
                 Inl err \<Rightarrow> Some (err, None, st)
               | Inr sum_len \<Rightarrow>
                   (case new_toolset mem of
                      None \<Rightarrow> Some (ASTRAL_E_NOMEM, None, st)
                    | Some ptr \<Rightarrow>
                        if \<not> tools_block mem \<or> (sum_len \<noteq> 0 \<and> \<not> bytes_block mem)
                        then
                          let got = allocated mem (tsd_tool_count desc) sum_len
                          in Some (ASTRAL_E_NOMEM, None, st\<lparr>blocks := blocks st + got - got\<rparr>)
                        else
                          (case copy_tools tools 0 (fresh_bytes mem) of
                             None \<Rightarrow> None
                           | Some (records, dst) \<Rightarrow>
                               (case register_ptr (kind_code Toolset) ptr (handles st) of
                                  (handle, table) \<Rightarrow>
                                      let st1 = st\<lparr>handles := table,
                                                  blocks := blocks st + allocated mem (tsd_tool_count desc) sum_len\<rparr>;
                                          ts = \<lparr>ts_handle = handle, ts_refcount = 1,
                                                tool_count = tsd_tool_count desc,
                                                choice_mode = tsd_choice_mode desc, ts_tools = records,
                                                ts_bytes = dst, bytes_len = sum_len\<rparr>
                                      in if handle = 0
                                         then Some (ASTRAL_E_BUSY, None, st1\<lparr>blocks := blocks st1 - toolset_blocks ts\<rparr>)
                                         else Some (ASTRAL_OK, Some ptr, st1\<lparr>objects := (objects st1)(ptr \<mapsto> ts)\<rparr>)))))"

section \<open>Reference counts\<close>

definition toolset_retain :: "nat \<Rightarrow> tool_state \<Rightarrow> tool_state" where
  "toolset_retain ptr st =
     (case objects st ptr of
        None \<Rightarrow> st
      | Some ts \<Rightarrow> st\<lparr>objects := (objects st)(ptr \<mapsto> ts\<lparr>ts_refcount := ts_refcount ts + 1\<rparr>)\<rparr>)"

definition toolset_release :: "nat \<Rightarrow> tool_state \<Rightarrow> tool_state" where
  "toolset_release ptr st =
     (case objects st ptr of
        None \<Rightarrow> st
      | Some ts \<Rightarrow>
          if ts_refcount ts \<noteq> 1 then st\<lparr>objects := (objects st)(ptr \<mapsto> ts\<lparr>ts_refcount := ts_refcount ts - 1\<rparr>)\<rparr>
          else st\<lparr>handles := unregister_handle (ts_handle ts) (kind_code Toolset) (handles st),
                  objects := (objects st)(ptr := None),
                  blocks := blocks st - toolset_blocks ts\<rparr>)"

section \<open>Reading a toolset\<close>

definition tool_span :: "toolset \<Rightarrow> u32 \<Rightarrow> u32 \<Rightarrow> span" where
  "tool_span ts off len =
     (if len \<noteq> 0 then Span (read_at (ts_bytes ts) (unat off) (unat len)) else Null_Span 0)"

definition span_equals :: "u8 list \<Rightarrow> toolset \<Rightarrow> u32 \<Rightarrow> u32 \<Rightarrow> bool" where
  "span_equals a ts off len \<longleftrightarrow>
     length a = unat len \<and> (a = [] \<or> a = read_at (ts_bytes ts) (unat off) (length a))"

fun find_tool :: "toolset \<Rightarrow> u8 list \<Rightarrow> u32 \<Rightarrow> tool_record list \<Rightarrow> tool_record option" where
  "find_tool ts name tag [] = None"
| "find_tool ts name tag (r # rs) =
     (if tool_name_tag r = tag \<and> span_equals name ts (name_off r) (name_len r) then Some r
      else find_tool ts name tag rs)"

definition find_tool_by_name :: "toolset \<Rightarrow> u8 list \<Rightarrow> tool_record option" where
  "find_tool_by_name ts name = find_tool ts name (name_tag name) (ts_tools ts)"

definition toolset_count :: "toolset option \<Rightarrow> bool \<Rightarrow> astral_err \<times> u32 option" where
  "toolset_count t out_count =
     (if t = None \<or> \<not> out_count then (ASTRAL_E_INVALID, None) else (ASTRAL_OK, Some (tool_count (the t))))"

record tool_info =
  ti_size :: u32
  ti_tool_id :: u32
  ti_name :: span
  ti_description :: span
  ti_json_schema :: span

definition toolset_get :: "toolset option \<Rightarrow> u32 \<Rightarrow> tool_info option \<Rightarrow> astral_err \<times> tool_info option" where
  "toolset_get t index out_info =
     (if t = None \<or> out_info = None \<or> ti_size (the out_info) \<noteq> sizeof_tool_info
      then (ASTRAL_E_INVALID, out_info)
      else if index \<ge> tool_count (the t) then (ASTRAL_E_NOT_FOUND, out_info)
      else
        let ts = the t; r = ts_tools ts ! unat index
        in (ASTRAL_OK,
            Some ((the out_info)\<lparr>ti_tool_id := tool_id r, ti_name := tool_span ts (name_off r) (name_len r),
              ti_description := tool_span ts (desc_off r) (desc_len r),
              ti_json_schema := tool_span ts (schema_off r) (schema_len r)\<rparr>)))"

section \<open>Parsing a call\<close>

record tool_call_result =
  tc_size :: u32
  tc_tool_id :: u32
  parse_status :: astral_err
  tc_name :: span
  arguments_json :: span

text \<open>
  The loop of \<open>toolset_parse_call\<close>. It carries the best call so far, with the place of its arguments
  and its depth, and the first known tool without arguments.
\<close>

type_synonym best_call = "(tool_record \<times> (nat \<times> nat) \<times> nat) option"

definition find_arguments :: "u8 list \<Rightarrow> nat \<Rightarrow> nat \<Rightarrow> (nat \<times> nat) option" where
  "find_arguments bytes name_end name_depth =
     (case find_json_object_key kJsonArgumentsKey (drop name_end bytes) name_end of
        Some r \<Rightarrow> Some r
      | None \<Rightarrow> if name_depth = 1 then find_json_object_key kJsonArgumentsKey bytes 0 else None)"

function parse_loop ::
  "toolset \<Rightarrow> u8 list \<Rightarrow> nat \<Rightarrow> best_call \<Rightarrow> tool_record option \<Rightarrow> best_call \<times> tool_record option" where
  "parse_loop ts bytes scan best first_known =
     (if scan < length bytes then
        (case find_json_tool_name_key (drop scan bytes) scan 0 of
           None \<Rightarrow> (best, first_known)
         | Some (b, n, name_end, name_depth) \<Rightarrow>
             (case find_tool_by_name ts (read_at bytes b n) of
                None \<Rightarrow> parse_loop ts bytes name_end best first_known
              | Some tool \<Rightarrow>
                  (case find_arguments bytes name_end name_depth of
                     Some args \<Rightarrow>
                       if best = None \<or> name_depth < snd (snd (the best)) then
                         if name_depth \<le> 1 then (Some (tool, args, name_depth), first_known)
                         else parse_loop ts bytes name_end (Some (tool, args, name_depth)) first_known
                       else parse_loop ts bytes name_end best first_known
                   | None \<Rightarrow>
                       parse_loop ts bytes name_end best (if first_known = None then Some tool else first_known))))
      else (best, first_known))"
  by pat_completeness auto
termination
proof (relation "measure (\<lambda>(_, bytes, scan, _, _). length bytes - scan)", goal_cases)
  case 1 then show ?case by simp
qed (auto dest!: find_name_split)

definition toolset_parse_call ::
  "toolset option \<Rightarrow> span \<Rightarrow> tool_call_result option \<Rightarrow> astral_err \<times> tool_call_result option" where
  "toolset_parse_call t generated_text out_result =
     (if t = None \<or> span_bytes generated_text = [] \<or> out_result = None \<or>
         tc_size (the out_result) \<noteq> sizeof_tool_result
      then (ASTRAL_E_INVALID, out_result)
      else
        let ts = the t;
            bytes = span_bytes generated_text;
            res = (the out_result)\<lparr>tc_tool_id := 0, parse_status := ASTRAL_E_NOT_FOUND,
                    tc_name := Null_Span 0, arguments_json := Null_Span 0\<rparr>
        in case parse_loop ts bytes 0 None None of
             (Some (tool, (b, n), _), _) \<Rightarrow>
               (ASTRAL_OK, Some (res\<lparr>arguments_json := Span (read_at bytes b n), tc_tool_id := tool_id tool,
                  tc_name := tool_span ts (name_off tool) (name_len tool), parse_status := ASTRAL_OK\<rparr>))
           | (None, Some tool) \<Rightarrow>
               (ASTRAL_OK, Some (res\<lparr>parse_status := ASTRAL_E_INVALID, tc_tool_id := tool_id tool,
                  tc_name := tool_span ts (name_off tool) (name_len tool)\<rparr>))
           | (None, None) \<Rightarrow> (ASTRAL_E_NOT_FOUND, Some res))"

declare parse_loop.simps [simp del]

section \<open>Creation stores what it is given\<close>

fun span_wf :: "span \<Rightarrow> bool" where
  "span_wf (Span bs) = (length bs < 2 ^ 32)"
| "span_wf (Null_Span n) = True"

definition tool_wf :: "tool_desc \<Rightarrow> bool" where
  "tool_wf t \<longleftrightarrow> span_wf (td_name t) \<and> span_wf (td_description t) \<and> span_wf (td_json_schema t)"

text \<open>What the caller promises: as many tools as it says, and spans with 32-bit lengths.\<close>

definition desc_wf :: "toolset_desc \<Rightarrow> bool" where
  "desc_wf desc \<longleftrightarrow>
     (case tsd_tools desc of None \<Rightarrow> True | Some ts \<Rightarrow> unat (tsd_tool_count desc) \<le> length ts \<and> list_all tool_wf ts)"

definition given_tools :: "toolset_desc \<Rightarrow> tool_desc list" where
  "given_tools desc = take (unat (tsd_tool_count desc)) (the (tsd_tools desc))"

lemma add_size_Some: "add_size a b = Some c \<longleftrightarrow> c = a + b \<and> unat a + unat b < 2 ^ 32"
proof -
  have l: "unat a < 2 ^ 32" "unat b < 2 ^ 32" using unsigned_less [of a] unsigned_less [of b] by simp_all
  have "a \<le> kU32Max" by (simp add: kU32Max_def word_le_nat_alt) (use l in simp)
  then have "unat (kU32Max - a) = unat kU32Max - unat a" by (rule unat_sub)
  then have "kU32Max - a < b \<longleftrightarrow> 2 ^ 32 \<le> unat a + unat b"
    using l by (simp add: word_less_nat_alt kU32Max_def) linarith
  then show ?thesis by (auto simp: add_size_def)
qed

lemma unat_sum: "unat a + unat b < 2 ^ 32 \<Longrightarrow> unat (a + b :: u32) = unat a + unat b"
  by (simp add: unat_word_ariths(1))

lemma copy_span_Some:
  assumes "copy_span sp off dst = Some d" "span_wf sp"
  shows "d = write_at dst (unat off) (span_bytes sp)" "length (span_bytes sp) = unat (span_len sp)"
proof -
  show "d = write_at dst (unat off) (span_bytes sp)" using assms by (cases sp) (auto split: if_splits)
  show "length (span_bytes sp) = unat (span_len sp)"
  proof (cases sp)
    case (Span bs)
    then show ?thesis using assms(2) by (simp only: span_bytes.simps span_len.simps span_wf.simps unat_of_nat) simp
  next
    case (Null_Span n)
    then show ?thesis using assms(1) by (simp split: if_splits)
  qed
qed

definition holds :: "u8 list \<Rightarrow> u32 \<Rightarrow> u32 \<Rightarrow> span \<Rightarrow> bool" where
  "holds dst off len sp \<longleftrightarrow> len = span_len sp \<and> read_at dst (unat off) (unat len) = span_bytes sp \<and>
     length (span_bytes sp) = unat len"

definition stored :: "u8 list \<Rightarrow> tool_record \<Rightarrow> tool_desc \<Rightarrow> bool" where
  "stored dst r t \<longleftrightarrow> tool_id r = td_tool_id t \<and> tool_name_tag r = name_tag (span_bytes (td_name t)) \<and>
     holds dst (name_off r) (name_len r) (td_name t) \<and> holds dst (desc_off r) (desc_len r) (td_description t) \<and>
     holds dst (schema_off r) (schema_len r) (td_json_schema t)"

lemma take_write_at: "n \<le> off \<Longrightarrow> off \<le> length dst \<Longrightarrow> take n (write_at dst off src) = take n dst"
  by (simp add: write_at_def)

text \<open>Later copies go behind the earlier ones.\<close>

lemma holds_prefix:
  assumes "holds d off len sp" "unat off + unat len \<le> k" "take k d' = take k d"
  shows "holds d' off len sp"
proof -
  have "read_at x (unat off) (unat len) = read_at (take k x) (unat off) (unat len)" for x :: "u8 list"
    using assms(2) by (simp add: read_at_def drop_take min_def)
  then show ?thesis using assms unfolding holds_def by metis
qed

lemma holds_write:
  assumes "copy_span sp off dst = Some d" "span_wf sp" "unat off + unat (span_len sp) \<le> length dst"
  shows "holds d off (span_len sp) sp"
  using copy_span_Some [OF assms(1,2)] assms(3) read_write_at [of "unat off" "span_bytes sp" dst]
  by (simp add: holds_def)

lemma copy_tools_stored:
  assumes "measure_tools srcs cur = Inr sum_len" "copy_tools srcs cur dst = Some (rs, dst')"
    and "list_all tool_wf srcs" "unat sum_len \<le> length dst"
  shows "unat cur \<le> unat sum_len \<and> length dst' = length dst \<and> take (unat cur) dst' = take (unat cur) dst \<and>
    length rs = length srcs \<and> (\<forall>i < length srcs. stored dst' (rs ! i) (srcs ! i))"
  using assms
proof (induction srcs arbitrary: cur dst rs)
  case (Cons src srcs)
  let ?l1 = "span_len (td_name src)" and ?l2 = "span_len (td_description src)" and ?l3 = "span_len (td_json_schema src)"
  obtain t1 t2 t3 where t: "add_size cur ?l1 = Some t1" "add_size t1 ?l2 = Some t2" "add_size t2 ?l3 = Some t3"
    and m: "measure_tools srcs t3 = Inr sum_len"
    using Cons.prems(1) by (auto split: if_splits option.splits)
  then have te: "t1 = cur + ?l1" "t2 = cur + ?l1 + ?l2" "t3 = cur + ?l1 + ?l2 + ?l3" by (simp_all add: add_size_Some)
  have tu: "unat t1 = unat cur + unat ?l1" "unat t2 = unat t1 + unat ?l2" "unat t3 = unat t2 + unat ?l3"
    using t by (auto simp: add_size_Some unat_sum)
  obtain d1 d2 d3 rs' where c: "copy_span (td_name src) cur dst = Some d1"
      "copy_span (td_description src) t1 d1 = Some d2" "copy_span (td_json_schema src) t2 d2 = Some d3"
      "copy_tools srcs t3 d3 = Some (rs', dst')"
    and rs: "rs = \<lparr>tool_id = td_tool_id src, tool_name_tag = name_tag (span_bytes (td_name src)),
               name_off = cur, name_len = ?l1, desc_off = t1, desc_len = ?l2, schema_off = t2, schema_len = ?l3\<rparr> # rs'"
    using Cons.prems(2) unfolding te by (auto simp: Let_def split: option.splits)
  have wf: "span_wf (td_name src)" "span_wf (td_description src)" "span_wf (td_json_schema src)" "list_all tool_wf srcs"
    using Cons.prems(3) by (simp_all add: tool_wf_def [of src])
  note w1 = copy_span_Some [OF c(1) wf(1)] and w2 = copy_span_Some [OF c(2) wf(2)] and w3 = copy_span_Some [OF c(3) wf(3)]
  have le: "unat t3 \<le> unat sum_len"
  proof -
    have "unat c \<le> unat s" if "measure_tools ts c = Inr s" for ts c s
      using that by (induction ts arbitrary: c) (auto simp: add_size_Some unat_sum split: if_splits option.splits, fastforce simp: unat_sum)
    then show ?thesis using m by blast
  qed
  have len1: "length d1 = length dst" using w1 tu le Cons.prems(4) by simp
  have len2: "length d2 = length dst" using w2 tu le Cons.prems(4) len1 by simp
  have len3: "length d3 = length dst" using w3 tu le Cons.prems(4) len2 by simp
  have IH: "length dst' = length d3" "take (unat t3) dst' = take (unat t3) d3" "length rs' = length srcs"
    "\<forall>i < length srcs. stored dst' (rs' ! i) (srcs ! i)"
    using Cons.IH [OF m c(4) wf(4)] len3 Cons.prems(4) by simp_all
  have p2: "take (unat t1) d2 = take (unat t1) d1" unfolding w2(1) using tu le Cons.prems(4) len1 by (intro take_write_at) simp_all
  have p3: "take (unat t2) d3 = take (unat t2) d2" unfolding w3(1) using tu le Cons.prems(4) len2 by (intro take_write_at) simp_all
  have p1: "take (unat cur) d1 = take (unat cur) dst" unfolding w1(1) using tu le Cons.prems(4) by (intro take_write_at) simp_all
  have pre: "take k x = take k y" if "take n x = take n y" "k \<le> n" for k n and x y :: "u8 list"
    using that by (metis min_absorb1 take_take)
  have final: "take (unat t1) dst' = take (unat t1) d1" "take (unat t2) dst' = take (unat t2) d2"
    "take (unat cur) dst' = take (unat cur) dst"
    using pre [OF IH(2), of "unat t2"] pre [OF IH(2), of "unat t1"] pre [OF IH(2), of "unat cur"]
      p3 pre [OF p3, of "unat t1"] p2 pre [OF p3, of "unat cur"] pre [OF p2, of "unat cur"] p1 tu by simp_all
  have "stored dst' (rs ! 0) src"
  proof -
    have "holds dst' cur ?l1 (td_name src)"
      by (rule holds_prefix [OF holds_write [OF c(1) wf(1)] _ final(1)]) (use tu le Cons.prems(4) in simp_all)
    moreover have "holds dst' t1 ?l2 (td_description src)"
      by (rule holds_prefix [OF holds_write [OF c(2) wf(2)] _ final(2)]) (use tu le Cons.prems(4) len1 in simp_all)
    moreover have "holds dst' t2 ?l3 (td_json_schema src)"
      by (rule holds_prefix [OF holds_write [OF c(3) wf(3)] _ IH(2)]) (use tu le Cons.prems(4) len2 in simp_all)
    ultimately show ?thesis by (simp add: stored_def rs)
  qed
  then have "\<forall>i < length (src # srcs). stored dst' (rs ! i) ((src # srcs) ! i)"
    using IH(4) by (auto simp: rs nth_Cons' less_Suc_eq_0_disj)
  then show ?case using IH(1,3) final(3) len3 tu le rs by auto
qed auto

lemma measure_tools_err: "measure_tools ts c = Inl err \<Longrightarrow> err \<noteq> ASTRAL_OK"
  by (induction ts arbitrary: c) (auto split: if_splits option.splits)

lemma create_okE:
  assumes "toolset_create (Some desc) out_ok mem st = Some (ASTRAL_OK, p, st')"
  obtains ptr sum_len records dst handle table where
    "p = Some ptr" "new_toolset mem = Some ptr" "measure_tools (given_tools desc) 0 = Inr sum_len"
    "copy_tools (given_tools desc) 0 (fresh_bytes mem) = Some (records, dst)"
    "register_ptr (kind_code Toolset) ptr (handles st) = (handle, table)" "handle \<noteq> 0"
    "tools_block mem" "sum_len = 0 \<or> bytes_block mem" "tsd_tools desc \<noteq> None"
    "st' = st\<lparr>handles := table,
       objects := (objects st)(ptr \<mapsto>
         \<lparr>ts_handle = handle, ts_refcount = 1, tool_count = tsd_tool_count desc,
          choice_mode = tsd_choice_mode desc, ts_tools = records, ts_bytes = dst, bytes_len = sum_len\<rparr>),
       blocks := blocks st + allocated mem (tsd_tool_count desc) sum_len\<rparr>"
proof -
  let ?bad = "\<not> out_ok \<or> tsd_size desc \<noteq> sizeof_toolset_desc \<or> tsd_tools desc = None \<or>
             tsd_tool_count desc = 0 \<or> tsd_tool_count desc > kMaxTools \<or> \<not> choice_mode_valid (tsd_choice_mode desc)"
  have g: "\<not> ?bad"
  proof
    assume "?bad"
    then show False using assms unfolding toolset_create_def option.case by (simp only: if_True) simp
  qed
  note e = assms [unfolded toolset_create_def option.case if_not_P [OF g] Let_def, folded given_tools_def]
  obtain sum_len where m: "measure_tools (given_tools desc) 0 = Inr sum_len"
    using e measure_tools_err [of "given_tools desc" 0] by (cases "measure_tools (given_tools desc) 0") auto
  note e1 = e [unfolded m sum.case]
  obtain ptr where p: "new_toolset mem = Some ptr" using e1 by (cases "new_toolset mem") simp_all
  note e2 = e1 [unfolded p option.case]
  have b: "\<not> (\<not> tools_block mem \<or> (sum_len \<noteq> 0 \<and> \<not> bytes_block mem))"
  proof
    assume "\<not> tools_block mem \<or> (sum_len \<noteq> 0 \<and> \<not> bytes_block mem)"
    then show False using e2 by (simp only: if_True) simp
  qed
  note e3 = e2 [unfolded if_not_P [OF b]]
  obtain records dst where c: "copy_tools (given_tools desc) 0 (fresh_bytes mem) = Some (records, dst)"
    using e3 by (cases "copy_tools (given_tools desc) 0 (fresh_bytes mem)") auto
  obtain handle table where r: "register_ptr (kind_code Toolset) ptr (handles st) = (handle, table)" by fastforce
  note e4 = e3 [unfolded c option.case prod.case r]
  have h: "handle \<noteq> 0" using e4 by (cases "handle = 0") simp_all
  show thesis by (rule that [OF _ p m c r h]) (use e4 [unfolded if_not_P [OF h]] b g in auto)
qed

definition as_view :: "span \<Rightarrow> span" where
  "as_view sp = (if span_bytes sp = [] then Null_Span 0 else Span (span_bytes sp))"

lemma holds_tool_span: "holds (ts_bytes ts) off len sp \<Longrightarrow> tool_span ts off len = as_view sp"
proof -
  assume h: "holds (ts_bytes ts) off len sp"
  have "len = 0 \<longleftrightarrow> span_bytes sp = []" using h unfolding holds_def by (metis length_0_conv unat_eq_0)
  then show ?thesis using h by (auto simp: tool_span_def as_view_def holds_def)
qed

lemma length_given_tools: "desc_wf desc \<Longrightarrow> tsd_tools desc \<noteq> None \<Longrightarrow> length (given_tools desc) = unat (tsd_tool_count desc)"
  by (auto simp: desc_wf_def given_tools_def)

lemma given_tools_wf: "desc_wf desc \<Longrightarrow> tsd_tools desc \<noteq> None \<Longrightarrow> list_all tool_wf (given_tools desc)"
  by (auto simp: desc_wf_def given_tools_def list_all_iff dest: in_set_takeD)

text \<open>What a successful creation leaves behind.\<close>

definition right_bytes :: "toolset_desc \<Rightarrow> tool_memory \<Rightarrow> bool" where
  "right_bytes desc mem \<longleftrightarrow>
     (case measure_tools (given_tools desc) 0 of Inl _ \<Rightarrow> True | Inr n \<Rightarrow> length (fresh_bytes mem) = unat n)"

lemma create_stored:
  assumes "toolset_create (Some desc) out_ok mem st = Some (ASTRAL_OK, Some ptr, st')"
    and "desc_wf desc" "right_bytes desc mem"
  obtains ts where "objects st' = (objects st)(ptr \<mapsto> ts)" "tool_count ts = tsd_tool_count desc"
    "length (ts_tools ts) = length (given_tools desc)" "length (given_tools desc) = unat (tsd_tool_count desc)"
    "\<forall>i < length (given_tools desc). stored (ts_bytes ts) (ts_tools ts ! i) (given_tools desc ! i)"
proof -
  obtain sum_len records dst handle table where c:
    "measure_tools (given_tools desc) 0 = Inr sum_len"
    "copy_tools (given_tools desc) 0 (fresh_bytes mem) = Some (records, dst)" "tsd_tools desc \<noteq> None"
    "st' = st\<lparr>handles := table,
       objects := (objects st)(ptr \<mapsto>
         \<lparr>ts_handle = handle, ts_refcount = 1, tool_count = tsd_tool_count desc,
          choice_mode = tsd_choice_mode desc, ts_tools = records, ts_bytes = dst, bytes_len = sum_len\<rparr>),
       blocks := blocks st + allocated mem (tsd_tool_count desc) sum_len\<rparr>"
    using assms(1) by (rule create_okE) auto
  have "unat sum_len \<le> length (fresh_bytes mem)" using assms(3) c(1) by (simp add: right_bytes_def)
  from copy_tools_stored [OF c(1,2) given_tools_wf [OF assms(2) c(3)] this]
  show thesis using c(3,4) length_given_tools [OF assms(2) c(3)]
    by (intro that [of "\<lparr>ts_handle = handle, ts_refcount = 1, tool_count = tsd_tool_count desc,
          choice_mode = tsd_choice_mode desc, ts_tools = records, ts_bytes = dst, bytes_len = sum_len\<rparr>"]) simp_all
qed

text \<open>Every tool of a toolset that was created reads back as it was given: its identifier, name,
  description and schema.\<close>
theorem toolset_get_after_create:
  assumes "toolset_create (Some desc) True mem st = Some (ASTRAL_OK, Some ptr, st')"
    and "desc_wf desc" and "right_bytes desc mem" and "i < tsd_tool_count desc" and "ti_size info = sizeof_tool_info"
  shows "toolset_get (objects st' ptr) i (Some info) =
    (let t = given_tools desc ! unat i
     in (ASTRAL_OK, Some (info\<lparr>ti_tool_id := td_tool_id t, ti_name := as_view (td_name t),
           ti_description := as_view (td_description t), ti_json_schema := as_view (td_json_schema t)\<rparr>)))"
proof -
  obtain ts where ts: "objects st' = (objects st)(ptr \<mapsto> ts)" "tool_count ts = tsd_tool_count desc"
    "length (given_tools desc) = unat (tsd_tool_count desc)"
    "\<forall>i < length (given_tools desc). stored (ts_bytes ts) (ts_tools ts ! i) (given_tools desc ! i)"
    using create_stored [OF assms(1-3)] by metis
  have "stored (ts_bytes ts) (ts_tools ts ! unat i) (given_tools desc ! unat i)"
    using ts(3,4) assms(4) by (simp add: word_less_nat_alt)
  then show ?thesis using ts(1,2) assms(4,5)
    by (simp add: toolset_get_def stored_def holds_tool_span Let_def not_le)
qed

text \<open>One tool, \<open>f\<close> with the schema \<open>{}\<close>, in a fresh table of four handles.\<close>

definition one_tool :: toolset_desc where
  "one_tool = \<lparr>tsd_size = 24, tsd_tool_count = 1, tsd_choice_mode = 0,
     tsd_tools = Some [\<lparr>td_size = 56, td_tool_id = 5, td_name = Span [0x66], td_description = Null_Span 0,
       td_json_schema = Span [0x7B, 0x7D]\<rparr>]\<rparr>"

definition one_tool_memory :: tool_memory where
  "one_tool_memory = \<lparr>new_toolset = Some 8, tools_block = True, bytes_block = True, fresh_bytes = [0, 0, 0]\<rparr>"

definition no_toolsets :: tool_state where
  "no_toolsets = \<lparr>handles = handle_table_new 4, objects = (\<lambda>_. None), blocks = {#}\<rparr>"

definition blank_info :: tool_info where
  "blank_info = \<lparr>ti_size = 56, ti_tool_id = 0, ti_name = Null_Span 0, ti_description = Null_Span 0,
     ti_json_schema = Null_Span 0\<rparr>"

lemma one_tool_wf: "desc_wf one_tool" "right_bytes one_tool one_tool_memory"
  by (simp_all add: desc_wf_def one_tool_def tool_wf_def right_bytes_def given_tools_def one_tool_memory_def
      sizeof_tool_desc_def add_size_def kU32Max_def)

lemma one_tool_created:
  obtains st' where "toolset_create (Some one_tool) True one_tool_memory no_toolsets = Some (ASTRAL_OK, Some 8, st')"
proof -
  have t: "table_inv (handle_table_new 4)" by (rule table_inv_new) simp_all
  have "h_ptr (h_slots (handle_table_new 4) ! 0) = 0" "0 < kMaxHandles (handle_table_new 4)"
    by (simp_all add: handle_table_new_def kMaxHandles_def)
  then obtain j where j: "j < kMaxHandles (handle_table_new 4)" "h_ptr (h_slots (handle_table_new 4) ! j) = 0"
    "register_ptr (kind_code Toolset) 8 (handle_table_new 4) = fill_slot (kind_code Toolset) 8 j (handle_table_new 4)"
    using register_ptr_cases [OF t, of "kind_code Toolset" 8] by auto
  obtain h table where f: "fill_slot (kind_code Toolset) 8 j (handle_table_new 4) = (h, table)" by fastforce
  have "h \<noteq> 0" by (rule fill_slot_correct(1) [OF t j(1,2) _ _ _ f]) simp_all
  then show thesis using j(3) f that
    by (simp add: toolset_create_def one_tool_def one_tool_memory_def no_toolsets_def sizeof_toolset_desc_def
        kMaxTools_def choice_mode_valid_def sizeof_tool_desc_def add_size_def kU32Max_def Let_def word_less_nat_alt)
qed

theorem toolset_get_after_create_witness:
  "\<exists>st' :: tool_state. toolset_get (objects st' 8) 0 (Some blank_info) =
     (ASTRAL_OK, Some (blank_info\<lparr>ti_tool_id := 5, ti_name := Span [0x66], ti_description := Null_Span 0,
        ti_json_schema := Span [0x7B, 0x7D]\<rparr>))"
proof -
  obtain st' where c: "toolset_create (Some one_tool) True one_tool_memory no_toolsets = Some (ASTRAL_OK, Some 8, st')"
    by (rule one_tool_created)
  have "toolset_get (objects st' 8) 0 (Some blank_info) =
     (ASTRAL_OK, Some (blank_info\<lparr>ti_tool_id := 5, ti_name := Span [0x66], ti_description := Null_Span 0,
        ti_json_schema := Span [0x7B, 0x7D]\<rparr>))"
    by (subst toolset_get_after_create [OF c one_tool_wf])
      (simp_all add: one_tool_def given_tools_def as_view_def blank_info_def sizeof_tool_info_def)
  then show ?thesis by blast
qed

section \<open>Failed creations and reference counts\<close>

lemma register_fails:
  assumes "table_inv t" "register_ptr (kind_code Toolset) ptr t = (0, t')"
  shows "t' = t"
proof (cases "ptr = 0")
  case True
  then show ?thesis using assms(2) by (simp add: register_ptr_def)
next
  case False
  consider j where "j < kMaxHandles t" "h_ptr (h_slots t ! j) = 0" "fill_slot (kind_code Toolset) ptr j t = (0, t')"
    | "t' = t"
    using register_ptr_cases [OF assms(1), of "kind_code Toolset" ptr] False assms(2) by fastforce
  then show ?thesis
  proof cases
    case 1
    then show ?thesis using fill_slot_correct(1) [OF assms(1) 1(1,2) False _ _ 1(3)] by simp
  qed
qed

text \<open>A creation that fails gives no toolset and leaves no trace: the objects and the handle table are
  what they were, and every block it has allocated is freed.\<close>
theorem toolset_create_fails_clean:
  assumes "toolset_create d out_ok mem st = Some (err, p, st')" "err \<noteq> ASTRAL_OK" "table_inv (handles st)"
  shows "p = None \<and> st' = st"
proof (cases d)
  case None
  then show ?thesis using assms(1) by (simp add: toolset_create_def)
next
  case (Some desc)
  let ?bad = "\<not> out_ok \<or> tsd_size desc \<noteq> sizeof_toolset_desc \<or> tsd_tools desc = None \<or>
             tsd_tool_count desc = 0 \<or> tsd_tool_count desc > kMaxTools \<or> \<not> choice_mode_valid (tsd_choice_mode desc)"
  note e = assms(1) [unfolded toolset_create_def Some option.case Let_def, folded given_tools_def]
  show ?thesis
  proof (cases ?bad)
    case True
    then show ?thesis using e by (simp only: if_True) simp
  next
    case g: False
    note e0 = e [unfolded if_not_P [OF g]]
    show ?thesis
    proof (cases "measure_tools (given_tools desc) 0")
      case (Inl x)
      then show ?thesis using e0 by simp
    next
      case (Inr sum_len)
      note e1 = e0 [unfolded Inr sum.case]
      show ?thesis
      proof (cases "new_toolset mem")
        case None
        then show ?thesis using e1 by simp
      next
        case p: (Some ptr)
        note e2 = e1 [unfolded p option.case]
        show ?thesis
        proof (cases "\<not> tools_block mem \<or> (sum_len \<noteq> 0 \<and> \<not> bytes_block mem)")
          case True
          then show ?thesis using e2 by (simp only: if_True) simp
        next
          case b: False
          note e3 = e2 [unfolded if_not_P [OF b]]
          show ?thesis
          proof (cases "copy_tools (given_tools desc) 0 (fresh_bytes mem)")
            case None
            then show ?thesis using e3 by simp
          next
            case c: (Some r)
            obtain records dst where rd: "r = (records, dst)" by (cases r)
            obtain handle table where h: "register_ptr (kind_code Toolset) ptr (handles st) = (handle, table)" by fastforce
            note e4 = e3 [unfolded c rd option.case prod.case h]
            have "handle = 0" using e4 assms(2) by (cases "handle = 0") simp_all
            moreover from this have "table = handles st" using register_fails [OF assms(3)] h by simp
            moreover have "allocated mem (tsd_tool_count desc) sum_len = toolset_blocks
                \<lparr>ts_handle = handle, ts_refcount = 1, tool_count = tsd_tool_count desc, choice_mode = tsd_choice_mode desc,
                 ts_tools = records, ts_bytes = dst, bytes_len = sum_len\<rparr>"
              using b by (auto simp: allocated_def toolset_blocks_def)
            ultimately show ?thesis using e4 by simp
          qed
        qed
      qed
    qed
  qed
qed

theorem toolset_create_fails_clean_witness:
  "toolset_create (Some one_tool) True (one_tool_memory\<lparr>tools_block := False\<rparr>) no_toolsets =
     Some (ASTRAL_E_NOMEM, None, no_toolsets)"
proof -
  obtain p st' where c: "toolset_create (Some one_tool) True (one_tool_memory\<lparr>tools_block := False\<rparr>) no_toolsets =
      Some (ASTRAL_E_NOMEM, p, st')"
    by (simp add: toolset_create_def one_tool_def one_tool_memory_def sizeof_toolset_desc_def
        kMaxTools_def choice_mode_valid_def sizeof_tool_desc_def add_size_def kU32Max_def Let_def word_less_nat_alt)
  moreover have "table_inv (handles no_toolsets)" by (simp add: no_toolsets_def table_inv_new)
  ultimately show ?thesis using toolset_create_fails_clean [OF c] by simp
qed

text \<open>Calls of retain (\<open>True\<close>) and release (\<open>False\<close>), and the number of references they leave.\<close>

fun run_refs :: "nat \<Rightarrow> bool list \<Rightarrow> tool_state \<Rightarrow> tool_state" where
  "run_refs ptr [] st = st"
| "run_refs ptr (b # bs) st = run_refs ptr bs (if b then toolset_retain ptr st else toolset_release ptr st)"

fun refs_after :: "nat \<Rightarrow> bool list \<Rightarrow> nat" where
  "refs_after k [] = k"
| "refs_after k (b # bs) = refs_after (if b then k + 1 else k - 1) bs"

fun refs_held :: "nat \<Rightarrow> bool list \<Rightarrow> bool" where
  "refs_held k [] \<longleftrightarrow> 0 < k \<and> k < 2 ^ 32"
| "refs_held k (b # bs) \<longleftrightarrow> 0 < k \<and> k < 2 ^ 32 \<and> refs_held (if b then k + 1 else k - 1) bs"

definition with_refs :: "nat \<Rightarrow> toolset \<Rightarrow> nat \<Rightarrow> tool_state \<Rightarrow> tool_state" where
  "with_refs ptr ts k st = st\<lparr>objects := (objects st)(ptr \<mapsto> ts\<lparr>ts_refcount := of_nat k\<rparr>)\<rparr>"

lemma retain_with_refs: "toolset_retain ptr (with_refs ptr ts k st) = with_refs ptr ts (k + 1) st"
  by (simp add: toolset_retain_def with_refs_def add.commute)

lemma release_with_refs:
  "1 < k \<Longrightarrow> k < 2 ^ 32 \<Longrightarrow> toolset_release ptr (with_refs ptr ts k st) = with_refs ptr ts (k - 1) st"
proof -
  assume k: "1 < k" "k < 2 ^ 32"
  then have "unat (of_nat k :: u32) = k" unfolding unat_of_nat by simp
  then have "(of_nat k :: u32) \<noteq> 1" using k(1) by (metis less_irrefl unat_1)
  moreover have "(of_nat k :: u32) - 1 = of_nat (k - 1)" using k(1) by simp
  ultimately show ?thesis by (simp add: toolset_release_def with_refs_def)
qed

lemma refs_held_pos: "refs_held k bs \<Longrightarrow> 0 < k \<and> k < 2 ^ 32"
  by (cases bs) auto

lemma run_refs_with_refs:
  "refs_held k bs \<Longrightarrow> run_refs ptr bs (with_refs ptr ts k st) = with_refs ptr ts (refs_after k bs) st"
proof (induction bs arbitrary: k)
  case (Cons b bs)
  show ?case
  proof (cases b)
    case True
    then show ?thesis using Cons by (simp add: retain_with_refs [simplified])
  next
    case False
    then have "1 < k" "k < 2 ^ 32" using Cons.prems refs_held_pos [of "k - 1" bs] by auto
    then show ?thesis using False Cons by (simp add: release_with_refs [simplified])
  qed
qed simp

lemma create_with_refs:
  assumes "toolset_create (Some desc) out_ok mem st = Some (ASTRAL_OK, Some ptr, st')"
    and "table_inv (handles st)" "ptr \<noteq> 0"
  obtains ts where "objects st' ptr = Some ts" "st' = with_refs ptr ts 1 st'"
    "live (handles st) (ts_handle ts) = None" "live (handles st') = (live (handles st))(ts_handle ts \<mapsto> ptr)"
    "table_inv (handles st')" "handle_kind (ts_handle ts) = kind_code Toolset"
    "blocks st' = blocks st + toolset_blocks ts" "objects st' = (objects st)(ptr \<mapsto> ts)"
proof -
  obtain sum_len records dst handle table where
    r: "register_ptr (kind_code Toolset) ptr (handles st) = (handle, table)" "handle \<noteq> 0" and
    b: "tools_block mem" "sum_len = 0 \<or> bytes_block mem" and
    st': "st' = st\<lparr>handles := table,
       objects := (objects st)(ptr \<mapsto>
         \<lparr>ts_handle = handle, ts_refcount = 1, tool_count = tsd_tool_count desc,
          choice_mode = tsd_choice_mode desc, ts_tools = records, ts_bytes = dst, bytes_len = sum_len\<rparr>),
       blocks := blocks st + allocated mem (tsd_tool_count desc) sum_len\<rparr>"
    using assms(1) by (rule create_okE) auto
  let ?ts = "\<lparr>ts_handle = handle, ts_refcount = 1, tool_count = tsd_tool_count desc,
          choice_mode = tsd_choice_mode desc, ts_tools = records, ts_bytes = dst, bytes_len = sum_len\<rparr>"
  obtain j where j: "j < kMaxHandles (handles st)" "h_ptr (h_slots (handles st) ! j) = 0"
    "fill_slot (kind_code Toolset) ptr j (handles st) = (handle, table)"
    using register_ptr_cases [OF assms(2), of "kind_code Toolset" ptr] r assms(3) by auto
  note f = fill_slot_correct [OF assms(2) j(1,2) assms(3) _ _ j(3)]
  show thesis
    by (rule that [of ?ts]) (use f b in \<open>auto simp: st' with_refs_def allocated_def toolset_blocks_def\<close>)
qed

text \<open>C29: While references are left, calls of retain and release only count: the object stays, and its
  handle leads to it. The release of the last reference frees exactly the blocks of the creation,
  removes the object and its handle, and leaves all the others alone.\<close>
theorem toolset_lifecycle:
  assumes "toolset_create (Some desc) True mem st = Some (ASTRAL_OK, Some ptr, st')"
    and "table_inv (handles st)" and "ptr \<noteq> 0" and "refs_held 1 ops"
  shows "\<exists>ts. objects (run_refs ptr ops st') ptr = Some ts \<and> ts_refcount ts = of_nat (refs_after 1 ops) \<and>
      live (handles (run_refs ptr ops st')) (ts_handle ts) = Some ptr \<and>
      blocks (run_refs ptr ops st') = blocks st + toolset_blocks ts \<and>
      (refs_after 1 ops = 1 \<longrightarrow>
        (let st2 = toolset_release ptr (run_refs ptr ops st')
         in objects st2 = (objects st)(ptr := None) \<and> blocks st2 = blocks st \<and>
            live (handles st2) = live (handles st)))"
proof -
  obtain ts where ts: "st' = with_refs ptr ts 1 st'"
    "live (handles st) (ts_handle ts) = None" "live (handles st') = (live (handles st))(ts_handle ts \<mapsto> ptr)"
    "table_inv (handles st')" "handle_kind (ts_handle ts) = kind_code Toolset"
    "blocks st' = blocks st + toolset_blocks ts" "objects st' = (objects st)(ptr \<mapsto> ts)"
    using create_with_refs [OF assms(1-3)] by metis
  let ?k = "refs_after 1 ops" and ?tk = "ts\<lparr>ts_refcount := of_nat (refs_after 1 ops)\<rparr>"
  have run: "run_refs ptr ops st' = with_refs ptr ts ?k st'"
    using run_refs_with_refs [OF assms(4), of ptr ts st'] ts(1) by simp
  note un = unregister_correct [OF ts(4,5)]
  have last: "objects (toolset_release ptr (with_refs ptr ts 1 st')) = (objects st)(ptr := None) \<and>
      blocks (toolset_release ptr (with_refs ptr ts 1 st')) = blocks st \<and>
      live (handles (toolset_release ptr (with_refs ptr ts 1 st'))) = live (handles st)"
    using un ts(2,3,6,7) by (auto simp: toolset_release_def with_refs_def toolset_blocks_def fun_eq_iff)
  show ?thesis
  proof (rule exI [of _ ?tk], intro conjI impI)
    show "objects (run_refs ptr ops st') ptr = Some ?tk" "ts_refcount ?tk = of_nat ?k"
      "live (handles (run_refs ptr ops st')) (ts_handle ?tk) = Some ptr"
      "blocks (run_refs ptr ops st') = blocks st + toolset_blocks ?tk"
      using ts(3,6) by (simp_all add: run with_refs_def toolset_blocks_def)
    assume "?k = 1"
    then show "let st2 = toolset_release ptr (run_refs ptr ops st')
         in objects st2 = (objects st)(ptr := None) \<and> blocks st2 = blocks st \<and>
            live (handles st2) = live (handles st)" using last by (simp add: run)
  qed
qed

theorem toolset_lifecycle_witness:
  "\<exists>st' :: tool_state. objects (toolset_release 8 (run_refs 8 [True, True, False, False] st')) = (\<lambda>_. None) \<and>
     blocks (toolset_release 8 (run_refs 8 [True, True, False, False] st')) = {#}"
proof -
  obtain st' where c: "toolset_create (Some one_tool) True one_tool_memory no_toolsets = Some (ASTRAL_OK, Some 8, st')"
    by (rule one_tool_created)
  have "table_inv (handles no_toolsets)" "refs_held 1 [True, True, False, False]"
    by (simp_all add: no_toolsets_def table_inv_new)
  from toolset_lifecycle [OF c this(1) _ this(2)]
  have "objects (toolset_release 8 (run_refs 8 [True, True, False, False] st')) = (objects no_toolsets)(8 := None) \<and>
     blocks (toolset_release 8 (run_refs 8 [True, True, False, False] st')) = blocks no_toolsets"
    by (auto simp: Let_def simp del: run_refs.simps)
  then show ?thesis by (intro exI [of _ st']) (simp add: no_toolsets_def fun_eq_iff del: run_refs.simps)
qed

section \<open>Parsing finds a call\<close>

lemma span_equals_stored:
  assumes "stored (ts_bytes ts) r t"
  shows "span_equals name ts (name_off r) (name_len r) \<longleftrightarrow> name = span_bytes (td_name t)"
  using assms by (auto simp: span_equals_def stored_def holds_def)

text \<open>The tag is only a shortcut: the tool found is the first with the name.\<close>

lemma find_tool_first:
  assumes "length rs = length ts'" "\<forall>k < length ts'. stored (ts_bytes ts) (rs ! k) (ts' ! k)"
    and "i < length ts'" "name = span_bytes (td_name (ts' ! i))" "\<forall>j < i. span_bytes (td_name (ts' ! j)) \<noteq> name"
  shows "find_tool ts name (name_tag name) rs = Some (rs ! i)"
  using assms
proof (induction rs arbitrary: ts' i)
  case (Cons r rs)
  then obtain t ts'' where ts': "ts' = t # ts''" by (cases ts') auto
  have r: "stored (ts_bytes ts) r t" using Cons.prems(2) ts' by force
  show ?case
  proof (cases i)
    case 0
    then show ?thesis using Cons.prems(4) ts' r span_equals_stored [OF r] by (simp add: stored_def)
  next
    case (Suc k)
    have "\<not> span_equals name ts (name_off r) (name_len r)"
      using span_equals_stored [OF r] Cons.prems(5) Suc ts' by (metis nth_Cons_0 zero_less_Suc)
    moreover have "find_tool ts name (name_tag name) rs = Some (rs ! k)"
    proof (rule Cons.IH)
      show "length rs = length ts''" "k < length ts''" "name = span_bytes (td_name (ts'' ! k))"
        using Cons.prems(1,3,4) ts' Suc by simp_all
      show "\<forall>k < length ts''. stored (ts_bytes ts) (rs ! k) (ts'' ! k)" using Cons.prems(2) ts' by fastforce
      show "\<forall>j < k. span_bytes (td_name (ts'' ! j)) \<noteq> name" using Cons.prems(5) ts' Suc by fastforce
    qed
    ultimately show ?thesis using Suc by simp
  qed
qed simp

text \<open>A call the way models write it: an object with the name first and the arguments second, white space
  where it may be, any text behind it, and before it characters, quoted strings and balanced objects
  of which no string reads \<open>name\<close> or \<open>tool\<close>.\<close>

definition call_text ::
  "piece list \<Rightarrow> u8 list list \<Rightarrow> u8 list \<Rightarrow> piece list \<Rightarrow> u8 list \<Rightarrow> u8 list" where
  "call_text pre ws name ps post =
     concat (map render pre) @ LBRACE # ws ! 0 @ QUOTE # kJsonNameKey @ QUOTE # ws ! 1 @ COLON # ws ! 2 @ QUOTE # name @ QUOTE #
     (ws ! 3 @ 0x2C # ws ! 4) @ QUOTE # kJsonArgumentsKey @ QUOTE # ws ! 5 @ COLON # ws ! 6 @ render (Obj ps) @ post"

definition call_ok :: "piece list \<Rightarrow> u8 list list \<Rightarrow> u8 list \<Rightarrow> piece list \<Rightarrow> bool" where
  "call_ok pre ws name ps \<longleftrightarrow> list_all piece_ok pre \<and> list_all quiet pre \<and> length ws = 7 \<and> list_all blank ws \<and> plain_name name \<and> piece_ok (Obj ps)"

lemma read_at_append: "read_at (xs @ ys @ zs) (length xs) (length ys) = ys"
  by (simp add: read_at_def)

lemma parse_loop_call:
  assumes ok: "call_ok pre ws name ps" and tool: "find_tool_by_name ts name = Some tool"
  obtains b where "parse_loop ts (call_text pre ws name ps post) 0 None None =
      (Some (tool, (b, length (render (Obj ps))), 1), None)"
    "read_at (call_text pre ws name ps post) b (length (render (Obj ps))) = render (Obj ps)"
proof -
  define w where "w i = ws ! i" for i
  define lead where "lead = concat (map render pre)"
  have blank: "blank (w i)" if "i < 7" for i using ok that by (simp add: call_ok_def w_def list_all_length)
  define tail where "tail = QUOTE # kJsonArgumentsKey @ QUOTE # w 5 @ COLON # w 6 @ render (Obj ps) @ post"
  define mid where "mid = w 3 @ 0x2C # w 4"
  define name_part where "name_part = QUOTE # kJsonNameKey @ QUOTE # w 1 @ COLON # w 2 @ [QUOTE]"
  have bytes: "call_text pre ws name ps post = (lead @ LBRACE # w 0 @ name_part) @ name @ QUOTE # mid @ tail"
    by (simp add: call_text_def lead_def w_def tail_def mid_def name_part_def)
  let ?bytes = "call_text pre ws name ps post"
  let ?b = "length (lead @ LBRACE # w 0 @ name_part)"
  have key4: "length kJsonNameKey = 4" "length kJsonArgumentsKey = 9"
    by (simp_all add: kJsonNameKey_def kJsonArgumentsKey_def)
  have name: "plain_name name" "list_all piece_ok pre" "list_all quiet pre" "piece_ok (Obj ps)" using ok by (simp_all add: call_ok_def)
  have "find_json_tool_name_key ?bytes 0 0 =
      find_json_tool_name_key (QUOTE # kJsonNameKey @ QUOTE # w 1 @ COLON # w 2 @ QUOTE # name @ QUOTE # mid @ tail)
        (length lead + 1 + length (w 0)) 1"
    unfolding bytes using find_name_quiet [OF name(2,3), folded lead_def] find_name_prose [OF blank_prose [OF blank [of 0]]]
    by (simp add: name_part_def)
  also have "\<dots> = Some (?b, length name, ?b + length name + 1, 1)"
    using find_name_here [OF blank [of 1] blank [of 2] name(1)] key4 by (simp add: name_part_def Let_def)
  finally have find: "find_json_tool_name_key ?bytes 0 0 = Some (?b, length name, ?b + length name + 1, 1)" .
  have read: "read_at ?bytes ?b (length name) = name" unfolding bytes by (rule read_at_append)
  have rest: "drop (?b + length name + 1) ?bytes = mid @ tail" unfolding bytes by simp
  have mid: "prose mid" using blank_prose [OF blank [of 3]] blank_prose [OF blank [of 4]]
    by (auto simp: mid_def prose_def)
  have obj: "find_json_object_key kJsonArgumentsKey (mid @ tail) (?b + length name + 1) =
      Some (?b + length name + 1 + length mid + 11 + length (w 5) + 1 + length (w 6), length (render (Obj ps)))"
    unfolding tail_def by (rule find_object_here [OF blank blank name(4) mid]) simp_all
  define a where "a = ?b + length name + 1 + length mid + 11 + length (w 5) + 1 + length (w 6)"
  have args: "find_arguments ?bytes (?b + length name + 1) 1 = Some (a, length (render (Obj ps)))"
    unfolding find_arguments_def rest obj a_def by simp
  have "?bytes \<noteq> []" by (simp add: bytes)
  then have "parse_loop ts ?bytes 0 None None = (Some (tool, (a, length (render (Obj ps))), 1), None)"
    using find read tool args by (subst parse_loop.simps) simp
  moreover have "read_at ?bytes a (length (render (Obj ps))) = render (Obj ps)"
  proof -
    let ?front = "(lead @ LBRACE # w 0 @ name_part) @ name @ QUOTE # mid @ QUOTE # kJsonArgumentsKey @ QUOTE # w 5 @ COLON # w 6"
    have "?bytes = ?front @ render (Obj ps) @ post" by (simp add: bytes tail_def)
    moreover have "length ?front = a" by (simp add: a_def key4)
    ultimately show ?thesis by (metis read_at_append)
  qed
  ultimately show thesis by (rule that)
qed

text \<open>C27: A call that names a tool of the set, written as an object with the name first and the arguments,
  themselves an object, second, is found in the text around it: the result has the identifier and the
  name of the first tool of that name, and the bytes of the arguments. Behind the call any text may
  stand; before it characters, quoted strings and balanced objects, as long as none of these strings
  reads \<open>name\<close> or \<open>tool\<close>, which can hide the call (\<open>name_as_value_hides_call\<close>). The name of the tool has
  no quote and no backslash.\<close>
theorem parse_finds_call:
  assumes "toolset_create (Some desc) True mem st = Some (ASTRAL_OK, Some ptr, st')"
    and "desc_wf desc" and "right_bytes desc mem" and "i < length (given_tools desc)"
    and "name = span_bytes (td_name (given_tools desc ! i))"
    and "\<forall>j < i. span_bytes (td_name (given_tools desc ! j)) \<noteq> name"
    and "call_ok pre ws name ps" and "tc_size r = sizeof_tool_result"
  shows "toolset_parse_call (objects st' ptr) (Span (call_text pre ws name ps post)) (Some r) =
    (ASTRAL_OK, Some (r\<lparr>tc_tool_id := td_tool_id (given_tools desc ! i), parse_status := ASTRAL_OK,
       tc_name := as_view (td_name (given_tools desc ! i)), arguments_json := Span (render (Obj ps))\<rparr>))"
proof -
  obtain ts where ts: "objects st' = (objects st)(ptr \<mapsto> ts)" "length (ts_tools ts) = length (given_tools desc)"
    "\<forall>i < length (given_tools desc). stored (ts_bytes ts) (ts_tools ts ! i) (given_tools desc ! i)"
    using create_stored [OF assms(1-3)] by metis
  have "find_tool_by_name ts name = Some (ts_tools ts ! i)"
    unfolding find_tool_by_name_def by (rule find_tool_first [OF ts(2,3) assms(4-6)])
  with assms(7) obtain b where b: "parse_loop ts (call_text pre ws name ps post) 0 None None =
      (Some (ts_tools ts ! i, (b, length (render (Obj ps))), 1), None)"
    "read_at (call_text pre ws name ps post) b (length (render (Obj ps))) = render (Obj ps)"
    by (rule parse_loop_call)
  have s: "stored (ts_bytes ts) (ts_tools ts ! i) (given_tools desc ! i)" using ts(3) assms(4) by blast
  have "call_text pre ws name ps post \<noteq> []" by (simp add: call_text_def)
  then show ?thesis using ts(1) b s assms(8)
    by (simp add: toolset_parse_call_def Let_def stored_def holds_tool_span del: render.simps)
qed

definition f_call :: "u8 list" where
  "f_call = call_text [Plain 0x4F, Obj [Str [Chr 0x6B]], Plain 0x20] (replicate 7 [0x20]) [0x66] [Str [Chr 0x61], Plain 0x3A, Plain 0x31] [0x7D]"

lemma f_call_ok: "call_ok [Plain 0x4F, Obj [Str [Chr 0x6B]], Plain 0x20] (replicate 7 [0x20]) [0x66] [Str [Chr 0x61], Plain 0x3A, Plain 0x31]"
proof -
  have "list_all blank (replicate 7 [0x20])" by (simp add: list_all_length blank_def is_ws_def)
  then show ?thesis by (simp add: call_ok_def plain_name_def kJsonNameKey_def kJsonToolKey_def)
qed

definition blank_result :: tool_call_result where
  "blank_result = \<lparr>tc_size = 48, tc_tool_id = 0, parse_status = ASTRAL_E_NOT_FOUND, tc_name = Null_Span 0,
     arguments_json = Null_Span 0\<rparr>"

theorem parse_finds_call_witness:
  "\<exists>st' :: tool_state. toolset_parse_call (objects st' 8) (Span f_call) (Some blank_result) =
   (ASTRAL_OK, Some (blank_result\<lparr>tc_tool_id := 5, parse_status := ASTRAL_OK, tc_name := Span [0x66],
     arguments_json := Span [0x7B, 0x22, 0x61, 0x22, 0x3A, 0x31, 0x7D]\<rparr>))"
proof -
  obtain st' where c: "toolset_create (Some one_tool) True one_tool_memory no_toolsets = Some (ASTRAL_OK, Some 8, st')"
    by (rule one_tool_created)
  have g: "given_tools one_tool = [\<lparr>td_size = 56, td_tool_id = 5, td_name = Span [0x66], td_description = Null_Span 0,
       td_json_schema = Span [0x7B, 0x7D]\<rparr>]" by (simp add: given_tools_def one_tool_def)
  have r: "render (Obj [Str [Chr 0x61], Plain 0x3A, Plain 0x31]) = [0x7B, 0x22, 0x61, 0x22, 0x3A, 0x31, 0x7D]" by simp
  have "toolset_parse_call (objects st' 8) (Span f_call) (Some blank_result) =
      (ASTRAL_OK, Some (blank_result\<lparr>tc_tool_id := td_tool_id (given_tools one_tool ! 0), parse_status := ASTRAL_OK,
       tc_name := as_view (td_name (given_tools one_tool ! 0)), arguments_json := Span [0x7B, 0x22, 0x61, 0x22, 0x3A, 0x31, 0x7D]\<rparr>))"
    unfolding f_call_def
    by (rule parse_finds_call [OF c one_tool_wf _ _ _ f_call_ok, unfolded r])
      (simp_all add: g blank_result_def sizeof_tool_result_def)
  then show ?thesis by (intro exI [of _ st']) (simp add: g as_view_def)
qed

section \<open>Parsing finds nothing else\<close>

definition quoted_in :: "u8 list \<Rightarrow> u8 list \<Rightarrow> bool" where
  "quoted_in name bytes \<longleftrightarrow> (\<exists>pre post. bytes = pre @ QUOTE # name @ QUOTE # post)"

definition good_call :: "toolset \<Rightarrow> u8 list \<Rightarrow> tool_record \<Rightarrow> nat \<times> nat \<Rightarrow> bool" where
  "good_call ts bytes tool args \<longleftrightarrow> tool \<in> set (ts_tools ts) \<and>
     (\<exists>name. quoted_in name bytes \<and> span_equals name ts (name_off tool) (name_len tool)) \<and>
     object_at bytes 0 (fst args) (snd args)"

lemma find_tool_sound:
  "find_tool ts name tag rs = Some r \<Longrightarrow> r \<in> set rs \<and> span_equals name ts (name_off r) (name_len r)"
  by (induction rs) (auto split: if_splits)

lemma found_name_quoted:
  assumes "find_json_tool_name_key (drop scan bytes) scan 0 = Some (b, n, e, d)" "scan < length bytes"
  shows "quoted_in (read_at bytes b n) bytes"
proof -
  obtain pre name post where s: "drop scan bytes = pre @ QUOTE # name @ QUOTE # post" "b = scan + length pre + 1" "n = length name"
    using find_name_split [OF assms(1)] by blast
  have eq: "bytes = (take scan bytes @ pre @ [QUOTE]) @ name @ QUOTE # post"
    using s(1) by (metis append.assoc append_Cons append_Nil append_take_drop_id)
  have "length (take scan bytes @ pre @ [QUOTE]) = b" using assms(2) s(2) by simp
  then have "read_at bytes b n = name" using eq read_at_append s(3) by metis
  then show ?thesis unfolding quoted_in_def using eq by (metis append.assoc append_Cons append_Nil)
qed

lemma find_arguments_sound:
  assumes "find_arguments bytes name_end depth = Some a" "name_end \<le> length bytes"
  shows "object_at bytes 0 (fst a) (snd a)"
proof (cases "find_json_object_key kJsonArgumentsKey (drop name_end bytes) name_end")
  case None
  then show ?thesis using assms(1) find_object_at [of kJsonArgumentsKey bytes 0 "fst a" "snd a"]
    by (simp add: find_arguments_def split: if_splits)
next
  case (Some r)
  then have "object_at (drop name_end bytes) (0 + length (take name_end bytes)) (fst a) (snd a)"
    using assms find_object_at [of kJsonArgumentsKey "drop name_end bytes" name_end "fst a" "snd a"]
    by (simp add: find_arguments_def)
  from object_at_prefix [OF this] show ?thesis by simp
qed

lemma name_end_le:
  assumes "find_json_tool_name_key (drop scan bytes) scan 0 = Some (b, n, e, d)" "scan < length bytes"
  shows "e \<le> length bytes"
proof -
  obtain pre name post where "drop scan bytes = pre @ QUOTE # name @ QUOTE # post" "b = scan + length pre + 1" "n = length name"
    "e = b + n + 1" using find_name_split [OF assms(1)] by blast
  moreover from this(1) have "length bytes - scan = length pre + length name + length post + 2"
    by (metis (no_types, lifting) add.assoc add_2_eq_Suc' add_Suc_right length_Cons length_append length_drop)
  ultimately show ?thesis using assms(2) by linarith
qed

definition good_state :: "toolset \<Rightarrow> u8 list \<Rightarrow> best_call \<Rightarrow> tool_record option \<Rightarrow> bool" where
  "good_state ts bytes best first \<longleftrightarrow>
     (\<forall>tool args d. best = Some (tool, args, d) \<longrightarrow> good_call ts bytes tool args)"

lemma parse_loop_sound:
  "good_state ts bytes best first \<Longrightarrow> parse_loop ts bytes scan best first = (best', first') \<Longrightarrow>
   good_state ts bytes best' first'"
proof (induction ts bytes scan best first rule: parse_loop.induct)
  case (1 ts bytes scan best first)
  show ?case
  proof (cases "scan < length bytes")
    case lt: True
    show ?thesis
    proof (cases "find_json_tool_name_key (drop scan bytes) scan 0")
      case None
      then show ?thesis using "1.prems" lt by (subst (asm) parse_loop.simps) simp
    next
      case (Some f)
      obtain b n e d where f: "f = (b, n, e, d)" by (cases f)
      note found = Some [unfolded f]
      show ?thesis
      proof (cases "find_tool_by_name ts (read_at bytes b n)")
        case None
        then have "parse_loop ts bytes e best first = (best', first')"
          using "1.prems"(2) lt found by (subst (asm) parse_loop.simps) simp
        then show ?thesis using "1.IH"(1) [OF lt found _ _ _ None] "1.prems"(1) by simp
      next
        case tool: (Some tool)
        have t: "tool \<in> set (ts_tools ts)" "span_equals (read_at bytes b n) ts (name_off tool) (name_len tool)"
          using find_tool_sound tool unfolding find_tool_by_name_def by blast+
        show ?thesis
        proof (cases "find_arguments bytes e d")
          case None
          then have "parse_loop ts bytes e best (if first = None then Some tool else first) = (best', first')"
            using "1.prems"(2) lt found tool by (subst (asm) parse_loop.simps) simp
          then show ?thesis using "1.IH"(2) [OF lt found _ _ _ tool None] "1.prems"(1) by (simp add: good_state_def)
        next
          case args: (Some args)
          have good: "good_state ts bytes (Some (tool, args, d)) first"
            using t found_name_quoted [OF found lt] find_arguments_sound [OF args name_end_le [OF found lt]]
            by (auto simp: good_state_def good_call_def)
          show ?thesis
          proof (cases "best = None \<or> d < snd (snd (the best))")
            case better: True
            show ?thesis
            proof (cases "d \<le> 1")
              case True
              then have "best' = Some (tool, args, d)" "first' = first"
                using "1.prems"(2) lt found tool args better by (subst (asm) parse_loop.simps, simp)+
              then show ?thesis using good by simp
            next
              case False
              then have "parse_loop ts bytes e (Some (tool, args, d)) first = (best', first')"
                using "1.prems"(2) lt found tool args better by (subst (asm) parse_loop.simps) simp
              then show ?thesis using "1.IH"(3) [OF lt found _ _ _ tool args better False] good by simp
            qed
          next
            case False
            then have "parse_loop ts bytes e best first = (best', first')"
              using "1.prems"(2) lt found tool args by (subst (asm) parse_loop.simps) (auto split: if_splits)
            then show ?thesis using "1.IH"(4) [OF lt found _ _ _ tool args False] "1.prems"(1) by simp
          qed
        qed
      qed
    qed
  next
    case False
    then show ?thesis using "1.prems" by (subst (asm) parse_loop.simps) simp
  qed
qed

text \<open>C28: When the parser reports a call, the call is there: its tool is one of the set, whose name stands
  in quotes in the text, and its arguments are bytes of the text that begin with an opening and
  end with a closing brace.\<close>
theorem parse_reports_only_calls:
  assumes "toolset_parse_call (Some ts) (Span bytes) (Some r) = (ASTRAL_OK, Some r')" "parse_status r' = ASTRAL_OK"
  shows "\<exists>tool name pre obj post. tool \<in> set (ts_tools ts) \<and> tc_tool_id r' = tool_id tool \<and>
    tc_name r' = tool_span ts (name_off tool) (name_len tool) \<and>
    quoted_in name bytes \<and> span_equals name ts (name_off tool) (name_len tool) \<and>
    arguments_json r' = Span obj \<and> bytes = pre @ obj @ post \<and> hd obj = LBRACE \<and> last obj = RBRACE"
proof -
  obtain best first where p: "parse_loop ts bytes 0 None None = (best, first)" by fastforce
  have "good_state ts bytes best first" by (rule parse_loop_sound [OF _ p]) (simp add: good_state_def)
  moreover obtain tool b n d where best: "best = Some (tool, (b, n), d)" and
    r': "tc_tool_id r' = tool_id tool" "tc_name r' = tool_span ts (name_off tool) (name_len tool)"
      "arguments_json r' = Span (read_at bytes b n)"
    using assms p by (auto simp: toolset_parse_call_def Let_def split: if_splits option.splits)
  ultimately have g: "good_call ts bytes tool (b, n)" by (simp add: good_state_def)
  then obtain pre obj post where o: "bytes = pre @ obj @ post" "b = length pre" "n = length obj"
    "hd obj = LBRACE" "last obj = RBRACE" unfolding good_call_def object_at_def by auto
  then have "read_at bytes b n = obj" by (simp add: read_at_append)
  then show ?thesis using g r' o unfolding good_call_def by metis
qed

definition f_toolset :: toolset where
  "f_toolset = \<lparr>ts_handle = 1, ts_refcount = 1, tool_count = 1, choice_mode = 0,
     ts_tools = [\<lparr>tool_id = 5, tool_name_tag = 0x66, name_off = 0, name_len = 1, desc_off = 1, desc_len = 0,
       schema_off = 1, schema_len = 2\<rparr>], ts_bytes = [0x66, 0x7B, 0x7D], bytes_len = 3\<rparr>"

definition f_text :: "u8 list" where
  "f_text = call_text [] (replicate 7 []) [0x66] [] []"

theorem parse_reports_only_calls_witness: "\<exists>name. quoted_in name f_text \<and> span_equals name f_toolset 0 1"
proof -
  have ok: "call_ok [] (replicate 7 []) [0x66] []"
    by (simp add: call_ok_def plain_name_def list_all_length blank_def)
  have find: "find_tool_by_name f_toolset [0x66] = Some (hd (ts_tools f_toolset))"
    by (simp add: find_tool_by_name_def f_toolset_def name_tag_def span_equals_def read_at_def)
  obtain b where b: "parse_loop f_toolset f_text 0 None None =
      (Some (hd (ts_tools f_toolset), (b, length (render (Obj []))), 1), None)"
    "read_at f_text b (length (render (Obj []))) = render (Obj [])"
    unfolding f_text_def by (rule parse_loop_call [OF ok find])
  have ne: "f_text \<noteq> []" by (simp add: f_text_def call_text_def)
  define r' where "r' = blank_result\<lparr>tc_tool_id := 5, parse_status := ASTRAL_OK,
      tc_name := tool_span f_toolset 0 1, arguments_json := Span [0x7B, 0x7D]\<rparr>"
  have "toolset_parse_call (Some f_toolset) (Span f_text) (Some blank_result) = (ASTRAL_OK, Some r')"
    using b ne by (simp add: toolset_parse_call_def Let_def blank_result_def sizeof_tool_result_def r'_def f_toolset_def)
  from parse_reports_only_calls [OF this] show ?thesis
    by (auto simp: r'_def f_toolset_def)
qed

text \<open>A description with a null pointer and a length is not refused: the copy reads from the pointer.\<close>

lemma create_copies_from_null:
  "toolset_create (Some (one_tool\<lparr>tsd_tools := Some [(hd (the (tsd_tools one_tool)))\<lparr>td_description := Null_Span 3\<rparr>]\<rparr>))
     True one_tool_memory st = None"
  by (simp add: toolset_create_def one_tool_def one_tool_memory_def sizeof_toolset_desc_def
      kMaxTools_def choice_mode_valid_def sizeof_tool_desc_def add_size_def kU32Max_def Let_def word_less_nat_alt)

end
