(* ===== verification/Session_Stream.thy ===== *)
theory Session_Stream
  imports Spsc_Ring
begin

text \<open>
  The reading side of a session's token stream in \<open>src/src/inference/session.cpp\<close>:
  \<open>session_stream_drain\<close> with its callback, and \<open>stream_read\<close>. A token that does not fit into the
  caller's buffer is split: its bytes stay in \<open>pending_utf8\<close> for the next call. The record has the
  fields of \<open>Session\<close> that these functions use, and can be extended. Other threads act at given points of a call: \<open>env k\<close>
  is what they do between two of its steps, and \<open>now k\<close> is the tick counter at its \<open>k\<close>-th look. A
  drain counts as one step: a token that is pushed between its batches goes behind those it takes, as if
  it had been pushed before the drain or after it. Byte counts are the unsigned ones; the \<open>int32_t\<close> the C++ returns is
  the same number, as a read returns at most what the ring holds.
\<close>

record stream_token =
  token_id :: u32
  utf8_len :: u16
  utf8_data :: "u8 list"

definition kStreamTokenUtf8Capacity :: u32 where "kStreamTokenUtf8Capacity = 32"
definition kStreamReadBatchCap :: u32 where "kStreamReadBatchCap = 16"

datatype SessionState = Idle | FeedingPrompt | Decoding | Completed | Canceled | Failed

definition terminal :: "SessionState \<Rightarrow> bool" where
  "terminal st \<longleftrightarrow> st = Completed \<or> st = Canceled \<or> st = Failed"

record session_stream =
  token_ring :: "stream_token spsc_ring"
  pending_utf8 :: "u8 list"
  pending_len :: u8
  pending_off :: u8
  stream_state :: SessionState
  stream_read_lock :: bool

section \<open>Draining the ring\<close>

definition max_stream_read_batch :: "u32 \<Rightarrow> u32" where
  "max_stream_read_batch remaining =
     (let n = remaining div kStreamTokenUtf8Capacity; n' = (if n = 0 then 1 else n)
      in if n' < kStreamReadBatchCap then n' else kStreamReadBatchCap)"

text \<open>The callback's references: what has been written to the buffer, what is left of it, and the session.\<close>

record drain =
  dst :: "u8 list"
  remaining :: u32
  drained :: u32
  partial :: bool
  d_pending_utf8 :: "u8 list"
  d_pending_len :: u8
  d_pending_off :: u8

definition drain_token :: "stream_token \<Rightarrow> drain \<Rightarrow> drain" where
  "drain_token t d =
     (let tok_len = ucast (utf8_len t) :: u32
      in if tok_len = 0 then d
         else if tok_len \<le> remaining d then
           d\<lparr>dst := dst d @ take (unat tok_len) (utf8_data t), remaining := remaining d - tok_len,
             drained := drained d + tok_len\<rparr>
         else
           d\<lparr>dst := dst d @ take (unat (remaining d)) (utf8_data t),
             d_pending_utf8 := write_at (d_pending_utf8 d) 0 (take (unat tok_len) (utf8_data t)),
             d_pending_len := ucast tok_len, d_pending_off := ucast (remaining d),
             drained := drained d + remaining d, remaining := 0, partial := True\<rparr>)"

partial_function (option) drain_loop ::
  "bool \<Rightarrow> drain \<Rightarrow> stream_token spsc_ring \<Rightarrow> (drain \<times> stream_token spsc_ring) option" where
  "drain_loop arm d ring =
     (if remaining d \<noteq> 0 then
        (case spsc_consume_batch arm (unat (max_stream_read_batch (remaining d))) drain_token
                (d\<lparr>partial := False\<rparr>) ring of
           (consumed, d', ring') \<Rightarrow>
             if consumed = 0 then Some (d', ring')
             else if partial d' then Some (d', ring')
             else drain_loop arm d' ring')
      else Some (d, ring))"

definition session_stream_drain ::
  "bool \<Rightarrow> 'z session_stream_scheme \<Rightarrow> u32 \<Rightarrow> (u32 \<times> u8 list \<times> 'z session_stream_scheme) option" where
  "session_stream_drain arm s out_len =
     (case drain_loop arm
             \<lparr>dst = [], remaining = out_len, drained = 0, partial = False,
              d_pending_utf8 = pending_utf8 s, d_pending_len = pending_len s, d_pending_off = pending_off s\<rparr>
             (token_ring s) of
        None \<Rightarrow> None
      | Some (d, ring) \<Rightarrow>
          Some (drained d, dst d,
            s\<lparr>token_ring := ring, pending_utf8 := d_pending_utf8 d, pending_len := d_pending_len d,
              pending_off := d_pending_off d\<rparr>))"

section \<open>Reading\<close>

text \<open>
  A call returns the number of bytes, or an error, and the bytes it wrote. The loop that waits
  ends with bytes, a terminal state or the deadline; \<open>None\<close> is a call that waits for ever.
\<close>

type_synonym 'z read_result = "(astral_err + u32) \<times> u8 list \<times> 'z session_stream_scheme"

partial_function (option) wait_loop ::
  "bool \<Rightarrow> (nat \<Rightarrow> 'z session_stream_scheme \<Rightarrow> 'z session_stream_scheme) \<Rightarrow> (nat \<Rightarrow> u64) \<Rightarrow> u64 \<Rightarrow> u32 \<Rightarrow> u32 \<Rightarrow> nat \<Rightarrow> u32 \<Rightarrow>
   'z session_stream_scheme \<Rightarrow> 'z read_result option" where
  "wait_loop arm env now deadline poll_mask out_len k spins s =
     (case session_stream_drain arm (env (2 * k) s) out_len of
        None \<Rightarrow> None
      | Some (n, out, s1) \<Rightarrow>
          if n \<noteq> 0 then Some (Inr n, out, s1)
          else
            (let s2 = env (2 * k + 1) s1
             in if terminal (stream_state s2) then Some (Inr 0, [], s2)
                else if spins AND poll_mask = 0 \<and> now k \<ge> deadline then Some (Inl ASTRAL_E_TIMEOUT, [], s2)
                else wait_loop arm env now deadline poll_mask out_len (k + 1) (spins + 1) s2))"

definition check_mask :: "u32 \<Rightarrow> u32" where
  "check_mask timeout_ms =
     (if timeout_ms \<le> 1 then 31 else if timeout_ms \<le> 10 then 255 else if timeout_ms \<le> 100 then 4095 else 65535)"

definition read_pending :: "'z session_stream_scheme \<Rightarrow> u32 \<Rightarrow> 'z read_result" where
  "read_pending s out_len =
     (let avail = ucast (pending_len s - pending_off s) :: u32;
          n = (if avail > out_len then out_len else avail);
          off = pending_off s + ucast n
      in (Inr n, read_at (pending_utf8 s) (unat (pending_off s)) (unat n),
          if off \<ge> pending_len s then s\<lparr>pending_len := 0, pending_off := 0\<rparr> else s\<lparr>pending_off := off\<rparr>))"

text \<open>
  \<open>ticks_from_ns\<close> is the platform's conversion. The flag is taken and given back by the guard; a
  call that finds it taken fails. \<open>env\<close> starts with the step between the first drain and the look at
  the state.
\<close>

definition stream_read ::
  "bool \<Rightarrow> (u64 \<Rightarrow> u64) \<Rightarrow> (nat \<Rightarrow> 'z session_stream_scheme \<Rightarrow> 'z session_stream_scheme) \<Rightarrow> (nat \<Rightarrow> u64) \<Rightarrow>
   'z session_stream_scheme option \<Rightarrow> u32 option \<Rightarrow> u32 \<Rightarrow> ((astral_err + u32) \<times> u8 list \<times> 'z session_stream_scheme option) option" where
  "stream_read arm ticks_from_ns env now session out_buf timeout_ms =
     (case (session, out_buf) of
        (Some s, Some out_len) \<Rightarrow>
          if out_len = 0 then Some (Inl ASTRAL_E_INVALID, [], session)
          else if stream_read_lock s then Some (Inl ASTRAL_E_STATE, [], session)
          else if pending_len s > pending_off s then
            (case read_pending s out_len of (r, out, s1) \<Rightarrow> Some (r, out, Some s1))
          else
            (case session_stream_drain arm s out_len of
               None \<Rightarrow> None
             | Some (n, out, s1) \<Rightarrow>
                 if n \<noteq> 0 then Some (Inr n, out, Some s1)
                 else
                   (let s2 = env 0 s1
                    in if terminal (stream_state s2) then Some (Inr 0, [], Some s2)
                       else if timeout_ms > 0 then
                         (let deadline = now 0 + ticks_from_ns (ucast timeout_ms * 1000000)
                          in map_option (\<lambda>(r, out, s3). (r, out, Some s3))
                               (wait_loop arm (\<lambda>k. env (k + 1)) (\<lambda>k. now (k + 1)) deadline (check_mask timeout_ms)
                                  out_len 0 0 s2))
                       else Some (Inl ASTRAL_E_TIMEOUT, [], Some s2)))
      | _ \<Rightarrow> Some (Inl ASTRAL_E_INVALID, [], session))"

section \<open>A drain hands over bytes in order\<close>

lemma unat_ucast_small: "unat x < 2 ^ LENGTH('b) \<Longrightarrow> unat (ucast x :: 'b::len word) = unat x"
  by (simp add: unsigned_ucast_eq take_bit_nat_eq_self)

lemma unat_u32: "unat (x :: u32) < 2 ^ 32"
proof -
  have "unat x < 2 ^ LENGTH(32)" by (rule unsigned_less)
  then show ?thesis by simp
qed

definition token_bytes :: "stream_token \<Rightarrow> u8 list" where
  "token_bytes t = take (unat (utf8_len t)) (utf8_data t)"

definition token_ok :: "stream_token \<Rightarrow> bool" where
  "token_ok t \<longleftrightarrow> unat (utf8_len t) \<le> 32 \<and> length (utf8_data t) = 32"

definition stream_bytes :: "stream_token list \<Rightarrow> u8 list" where
  "stream_bytes ts = concat (map token_bytes ts)"

lemma stream_bytes_simps [simp]:
  "stream_bytes [] = []" "stream_bytes (t # ts) = token_bytes t @ stream_bytes ts"
  "stream_bytes (ts @ us) = stream_bytes ts @ stream_bytes us"
  by (simp_all add: stream_bytes_def)

lemma token_len:
  assumes "token_ok t"
  shows "unat (ucast (utf8_len t) :: u32) = unat (utf8_len t)" "length (token_bytes t) = unat (utf8_len t)"
    "length (token_bytes t) \<le> 32"
  using assms by (simp_all add: token_ok_def token_bytes_def unat_ucast_small)

lemma stream_bytes_length: "list_all token_ok ts \<Longrightarrow> length (stream_bytes ts) \<le> 32 * length ts"
proof (induction ts)
  case (Cons t ts)
  then show ?case using token_len(3) [of t] by simp
qed simp

lemma drain_token_fits:
  assumes "token_ok t" "length (token_bytes t) \<le> unat (remaining d)"
  shows "drain_token t d = d\<lparr>dst := dst d @ token_bytes t, remaining := remaining d - of_nat (length (token_bytes t)),
    drained := drained d + of_nat (length (token_bytes t))\<rparr>"
proof -
  let ?l = "ucast (utf8_len t) :: u32"
  have l: "unat ?l = length (token_bytes t)" using token_len [OF assms(1)] by simp
  have e: "?l = of_nat (length (token_bytes t))" unfolding l [symmetric] by simp
  have le: "?l \<le> remaining d" using assms(2) l by (simp add: word_le_nat_alt)
  have tk: "take (unat ?l) (utf8_data t) = token_bytes t" using token_len [OF assms(1)] by (simp add: token_bytes_def)
  show ?thesis
  proof (cases "?l = 0")
    case True
    then have "token_bytes t = []" using l by (metis length_0_conv unat_0)
    then show ?thesis using True by (simp add: drain_token_def)
  next
    case False
    then show ?thesis using le unfolding drain_token_def Let_def tk by (simp add: e)
  qed
qed

lemma drain_tokens_fit:
  assumes "list_all token_ok ts" "length (stream_bytes ts) \<le> unat (remaining d)"
  shows "fold drain_token ts d = d\<lparr>dst := dst d @ stream_bytes ts, remaining := remaining d - of_nat (length (stream_bytes ts)),
    drained := drained d + of_nat (length (stream_bytes ts))\<rparr>"
  using assms
proof (induction ts arbitrary: d)
  case (Cons t ts)
  let ?n = "length (token_bytes t)"
  let ?d = "d\<lparr>dst := dst d @ token_bytes t, remaining := remaining d - of_nat ?n, drained := drained d + of_nat ?n\<rparr>"
  have le: "?n \<le> unat (remaining d)" using Cons.prems(2) by simp
  then have un: "unat (of_nat ?n :: u32) = ?n"
    using unat_u32 [of "remaining d"] unfolding unat_of_nat by (intro mod_less) simp
  have "(of_nat ?n :: u32) \<le> remaining d" using le un by (simp add: word_le_nat_alt)
  then have r: "unat (remaining ?d) = unat (remaining d) - ?n" using unat_sub [of "of_nat ?n" "remaining d"] un by simp
  have "fold drain_token ts ?d = ?d\<lparr>dst := dst ?d @ stream_bytes ts, remaining := remaining ?d - of_nat (length (stream_bytes ts)),
      drained := drained ?d + of_nat (length (stream_bytes ts))\<rparr>"
    by (rule Cons.IH) (use Cons.prems r in auto)
  moreover have "drain_token t d = ?d" by (rule drain_token_fits) (use Cons.prems le in simp_all)
  ultimately show ?case by (simp add: algebra_simps)
qed (simp add: drain.equality)

lemma drain_token_split:
  assumes "token_ok t" "unat (remaining d) < length (token_bytes t)" "length (d_pending_utf8 d) = 32"
  defines "d' \<equiv> drain_token t d"
  shows "dst d' = dst d @ take (unat (remaining d)) (token_bytes t)" "drained d' = drained d + remaining d"
    "remaining d' = 0" "partial d'" "length (d_pending_utf8 d') = 32"
    "unat (d_pending_len d') = length (token_bytes t)" "unat (d_pending_off d') = unat (remaining d)"
    "take (length (token_bytes t)) (d_pending_utf8 d') = token_bytes t"
proof -
  let ?l = "ucast (utf8_len t) :: u32"
  have l: "unat ?l = length (token_bytes t)" "length (token_bytes t) \<le> 32" using token_len [OF assms(1)] by simp_all
  then have ne: "?l \<noteq> 0" "\<not> ?l \<le> remaining d" using assms(2) by (auto simp: word_le_nat_alt unat_eq_0)
  have tk: "take (unat ?l) (utf8_data t) = token_bytes t" using token_len [OF assms(1)] by (simp add: token_bytes_def)
  have d': "d' = d\<lparr>dst := dst d @ take (unat (remaining d)) (utf8_data t),
             d_pending_utf8 := write_at (d_pending_utf8 d) 0 (token_bytes t),
             d_pending_len := ucast ?l, d_pending_off := ucast (remaining d),
             drained := drained d + remaining d, remaining := 0, partial := True\<rparr>"
    unfolding d'_def drain_token_def Let_def tk using ne by simp
  have "take (unat (remaining d)) (utf8_data t) = take (unat (remaining d)) (token_bytes t)"
    using assms(2) token_len(2) [OF assms(1)] by (simp add: token_bytes_def min_def)
  then show "dst d' = dst d @ take (unat (remaining d)) (token_bytes t)" by (simp add: d')
  show "drained d' = drained d + remaining d" "remaining d' = 0" "partial d'" by (simp_all add: d')
  show "length (d_pending_utf8 d') = 32" using assms(3) l by (simp add: d')
  show "unat (d_pending_len d') = length (token_bytes t)" "unat (d_pending_off d') = unat (remaining d)"
    using l assms(2) by (simp_all add: d' unat_ucast_small)
  show "take (length (token_bytes t)) (d_pending_utf8 d') = token_bytes t" by (simp add: d' write_at_def)
qed

lemma batch_bounds:
  assumes "r \<noteq> 0"
  shows "1 \<le> unat (max_stream_read_batch r)"
    "unat (max_stream_read_batch r) = 1 \<or> 32 * unat (max_stream_read_batch r) \<le> unat r"
proof -
  have d: "unat (r div kStreamTokenUtf8Capacity) = unat r div 32"
    by (simp add: unat_div kStreamTokenUtf8Capacity_def)
  show "1 \<le> unat (max_stream_read_batch r)"
    by (auto simp: max_stream_read_batch_def Let_def kStreamReadBatchCap_def unat_gt_0 Suc_le_eq)
  show "unat (max_stream_read_batch r) = 1 \<or> 32 * unat (max_stream_read_batch r) \<le> unat r"
  proof (cases "r div kStreamTokenUtf8Capacity = 0")
    case True
    then show ?thesis by (simp add: max_stream_read_batch_def Let_def kStreamReadBatchCap_def)
  next
    case False
    have "unat (max_stream_read_batch r) \<le> unat (r div kStreamTokenUtf8Capacity)"
      using False by (auto simp: max_stream_read_batch_def Let_def kStreamReadBatchCap_def word_less_nat_alt not_less)
    then show ?thesis using d times_div_less_eq_dividend [of 32 "unat r"] by linarith
  qed
qed

definition rest_bytes :: "drain \<Rightarrow> u8 list" where
  "rest_bytes d = (if partial d then drop (unat (d_pending_off d)) (take (unat (d_pending_len d)) (d_pending_utf8 d)) else [])"

definition ring_ok :: "stream_token spsc_ring \<Rightarrow> bool" where
  "ring_ok r \<longleftrightarrow> spsc_inv r \<and> list_all token_ok (spsc_items r)"

definition same_pending :: "drain \<Rightarrow> drain \<Rightarrow> bool" where
  "same_pending d d' \<longleftrightarrow> d_pending_utf8 d' = d_pending_utf8 d \<and> d_pending_len d' = d_pending_len d \<and>
     d_pending_off d' = d_pending_off d"

text \<open>What a drain has done: the bytes \<open>out\<close> are the next ones of the stream, the rest is still there,
  and it stops early only when the ring is empty.\<close>

definition drained_to ::
  "drain \<Rightarrow> stream_token spsc_ring \<Rightarrow> u8 list \<Rightarrow> drain \<Rightarrow> stream_token spsc_ring \<Rightarrow> bool" where
  "drained_to d r out d' r' \<longleftrightarrow>
     dst d' = dst d @ out \<and> drained d' = drained d + of_nat (length out) \<and> length out \<le> unat (remaining d) \<and>
     ring_ok r' \<and> spsc_cap r' = spsc_cap r \<and>
     stream_bytes (spsc_items r) = out @ rest_bytes d' @ stream_bytes (spsc_items r') \<and>
     length (d_pending_utf8 d') = 32 \<and>
     (if partial d' then unat (d_pending_off d') < unat (d_pending_len d') \<and> unat (d_pending_len d') \<le> 32
      else same_pending d d') \<and>
     (length out < unat (remaining d) \<longrightarrow> spsc_items r' = [] \<and> \<not> partial d')"

lemma consume_items:
  assumes "ring_ok r" "0 < n" "spsc_consume_batch arm n fn s r = (consumed, s', r')"
  shows "consumed = length (take n (spsc_items r))" "s' = fold fn (take n (spsc_items r)) s"
    "spsc_items r' = drop n (spsc_items r)" "ring_ok r'" "spsc_cap r' = spsc_cap r"
proof -
  have inv: "spsc_inv r" "list_all token_ok (spsc_items r)" using assms(1) by (simp_all add: ring_ok_def)
  obtain out q where p: "spsc_pop_batch arm n r = (out, q)" by fastforce
  have e: "consumed = length out" "s' = fold fn out s" "r' = q"
    using assms(3) spsc_consume_batch_eq [OF inv(1), of arm n fn s] p by simp_all
  have b: "out = take n (spsc_items r)" "spsc_items q = drop n (spsc_items r)" "spsc_inv q" "spsc_cap q = spsc_cap r"
    using spsc_pop_batch_spec [OF inv(1), of arm n] p by simp_all
  have "list_all token_ok (drop n (spsc_items r))" using inv(2) by (auto simp: list_all_iff dest: in_set_dropD)
  then show "consumed = length (take n (spsc_items r))" "s' = fold fn (take n (spsc_items r)) s"
    "spsc_items r' = drop n (spsc_items r)" "ring_ok r'" "spsc_cap r' = spsc_cap r"
    using e b by (simp_all add: ring_ok_def)
qed

lemma drain_loop_spec:
  assumes "ring_ok r" "\<not> partial d" "length (d_pending_utf8 d) = 32"
  shows "\<exists>d' r' out. drain_loop arm d r = Some (d', r') \<and> drained_to d r out d' r'"
  using assms
proof (induction "length (spsc_items r)" arbitrary: d r rule: less_induct)
  case less
  show ?case
  proof (cases "remaining d = 0")
    case True
    then have "drain_loop arm d r = Some (d, r)" by (subst drain_loop.simps) simp
    then show ?thesis using less.prems True
      by (intro exI [of _ d] exI [of _ r] exI [of _ "[]"])
        (simp add: drained_to_def rest_bytes_def same_pending_def)
  next
    case False
    let ?n = "unat (max_stream_read_batch (remaining d))" and ?d = "d\<lparr>partial := False\<rparr>"
    have n: "0 < ?n" using batch_bounds(1) [OF False] by simp
    obtain consumed d1 r1 where c: "spsc_consume_batch arm ?n drain_token ?d r = (consumed, d1, r1)" by (metis prod_cases3)
    let ?ts = "take ?n (spsc_items r)"
    note ci = consume_items [OF less.prems(1) n c]
    have ok: "list_all token_ok ?ts" using less.prems(1) by (auto simp: ring_ok_def list_all_iff dest: in_set_takeD)
    have step: "drain_loop arm d r = (if consumed = 0 then Some (d1, r1) else if partial d1 then Some (d1, r1) else drain_loop arm d1 r1)"
      using False c by (subst drain_loop.simps) simp
    have whole: "stream_bytes (spsc_items r) = stream_bytes ?ts @ stream_bytes (spsc_items r1)"
      unfolding ci(3) by (metis append_take_drop_id stream_bytes_simps(3))
    show ?thesis
    proof (cases "length (stream_bytes ?ts) \<le> unat (remaining d)")
      case fits: True
      let ?out = "stream_bytes ?ts"
      have d1: "d1 = ?d\<lparr>dst := dst d @ ?out, remaining := remaining d - of_nat (length ?out),
          drained := drained d + of_nat (length ?out)\<rparr>"
        using drain_tokens_fit [OF ok, of ?d] fits ci(2) by simp
      have un: "unat (of_nat (length ?out) :: u32) = length ?out"
        using fits unat_u32 [of "remaining d"] unfolding unat_of_nat by (intro mod_less) simp
      then have "(of_nat (length ?out) :: u32) \<le> remaining d" using fits by (simp add: word_le_nat_alt)
      then have rem: "unat (remaining d1) = unat (remaining d) - length ?out"
        using unat_sub [of "of_nat (length ?out)" "remaining d"] un by (simp add: d1)
      have same: "same_pending d d1" "\<not> partial d1" "length (d_pending_utf8 d1) = 32"
        using less.prems(3) by (simp_all add: same_pending_def d1)
      show ?thesis
      proof (cases "consumed = 0")
        case True
        then have "?ts = []" using ci(1) by (simp only: length_0_conv)
        then have e: "spsc_items r = []" using n by (simp only: take_eq_Nil) simp
        then show ?thesis using step True same ci(3-5)
          by (intro exI [of _ d1] exI [of _ r1] exI [of _ "[]"])
            (simp add: drained_to_def rest_bytes_def d1)
      next
        case more: False
        then have "length (spsc_items r1) < length (spsc_items r)" using ci(1,3) n by simp
        from less.hyps [OF this ci(4) same(2,3)]
        obtain d' r' out where l: "drain_loop arm d1 r1 = Some (d', r')" "drained_to d1 r1 out d' r'" by blast
        have "drained_to d r (?out @ out) d' r'"
          using l(2) rem same fits whole ci(5) un unfolding drained_to_def
          by (auto simp: d1 same_pending_def)
        then show ?thesis using l(1) step more same(2) by auto
      qed
    next
      case False
      then have "?n = 1" using batch_bounds(2) [OF \<open>remaining d \<noteq> 0\<close>] stream_bytes_length [OF ok] by auto
      then obtain t where t: "?ts = [t]" using False by (cases "spsc_items r") auto
      have tok: "token_ok t" using ok t by simp
      have lt: "unat (remaining ?d) < length (token_bytes t)" using False t by simp
      have d1: "d1 = drain_token t ?d" using ci(2) t by simp
      note sp = drain_token_split [OF tok lt, folded d1]
      have p32: "length (d_pending_utf8 ?d) = 32" using less.prems(3) by simp
      note sp' = sp [OF p32]
      let ?out = "take (unat (remaining d)) (token_bytes t)"
      have "consumed \<noteq> 0" using ci(1) t by simp
      then have "drain_loop arm d r = Some (d1, r1)" using step sp'(4) by simp
      moreover have "rest_bytes d1 = drop (unat (remaining d)) (token_bytes t)"
        using sp' by (simp add: rest_bytes_def)
      then have "drained_to d r ?out d1 r1"
        using sp' whole t ci(4,5) lt token_len(3) [OF tok] unfolding drained_to_def by simp
      ultimately show ?thesis by blast
    qed
  qed
qed

section \<open>Reads\<close>

definition has_pending :: "'z session_stream_scheme \<Rightarrow> bool" where
  "has_pending s \<longleftrightarrow> pending_len s > pending_off s"

definition pending_bytes :: "'z session_stream_scheme \<Rightarrow> u8 list" where
  "pending_bytes s =
     (if has_pending s then drop (unat (pending_off s)) (take (unat (pending_len s)) (pending_utf8 s)) else [])"

text \<open>The bytes that are still to be read.\<close>

definition unread :: "'z session_stream_scheme \<Rightarrow> u8 list" where
  "unread s = pending_bytes s @ stream_bytes (spsc_items (token_ring s))"

definition session_ok :: "'z session_stream_scheme \<Rightarrow> bool" where
  "session_ok s \<longleftrightarrow> ring_ok (token_ring s) \<and> length (pending_utf8 s) = 32 \<and> unat (pending_len s) \<le> 32"

lemma session_drain_spec:
  assumes "session_ok s" "\<not> has_pending s" "out_len \<noteq> 0"
  shows "\<exists>n out s'. session_stream_drain arm s out_len = Some (n, out, s') \<and> unat n = length out \<and>
    length out \<le> unat out_len \<and> session_ok s' \<and> unread s = out @ unread s' \<and>
    (n = 0 \<longrightarrow> out = [] \<and> unread s' = [] \<and> \<not> has_pending s') \<and>
    stream_state s' = stream_state s \<and> stream_read_lock s' = stream_read_lock s \<and> session_stream.more s' = session_stream.more s"
proof -
  let ?d = "\<lparr>dst = [], remaining = out_len, drained = 0, partial = False,
      d_pending_utf8 = pending_utf8 s, d_pending_len = pending_len s, d_pending_off = pending_off s\<rparr>"
  have ok: "ring_ok (token_ring s)" "length (d_pending_utf8 ?d) = 32" "\<not> partial ?d"
    using assms(1) by (simp_all add: session_ok_def)
  obtain d' r' out where l: "drain_loop arm ?d (token_ring s) = Some (d', r')" "drained_to ?d (token_ring s) out d' r'"
    using drain_loop_spec [OF ok(1,3,2), of arm] by blast
  let ?s = "s\<lparr>token_ring := r', pending_utf8 := d_pending_utf8 d', pending_len := d_pending_len d',
      pending_off := d_pending_off d'\<rparr>"
  have n: "unat (drained d') = length out"
  proof -
    have "length out < 2 ^ 32" using l(2) unat_u32 [of out_len] by (simp add: drained_to_def)
    then have "unat (of_nat (length out) :: u32) = length out" unfolding unat_of_nat by (intro mod_less) simp
    then show ?thesis using l(2) by (simp add: drained_to_def)
  qed
  have rest: "pending_bytes ?s = rest_bytes d'"
    using l(2) assms(2)
    by (auto simp: pending_bytes_def rest_bytes_def has_pending_def drained_to_def same_pending_def word_less_nat_alt)
  have pend: "has_pending ?s \<longleftrightarrow> partial d'"
    using l(2) assms(2) by (auto simp: has_pending_def drained_to_def same_pending_def word_less_nat_alt split: if_splits)
  have "out = [] \<and> unread ?s = [] \<and> \<not> has_pending ?s" if "drained d' = 0"
  proof -
    have "out = []" using that n by simp
    moreover have "0 < unat out_len" using assms(3) by (simp add: unat_gt_0)
    ultimately have "spsc_items r' = [] \<and> \<not> partial d'" using l(2) by (simp add: drained_to_def)
    then show ?thesis using \<open>out = []\<close> pend rest by (simp add: unread_def rest_bytes_def)
  qed
  moreover have "session_ok ?s"
    using l(2) assms(1) by (auto simp: session_ok_def drained_to_def same_pending_def split: if_splits)
  moreover have "unread s = out @ unread ?s"
    using l(2) assms(2) rest by (simp add: unread_def drained_to_def pending_bytes_def [of s])
  moreover have "session_stream_drain arm s out_len = Some (drained d', out, ?s)"
    using l by (simp add: session_stream_drain_def drained_to_def)
  moreover have "length out \<le> unat out_len" using l(2) by (simp add: drained_to_def)
  ultimately show ?thesis using n by (intro exI [of _ "drained d'"] exI [of _ out] exI [of _ ?s]) simp
qed

lemma read_pending_spec:
  assumes "session_ok s" "has_pending s" "out_len \<noteq> 0" "read_pending s out_len = (r, out, s')"
  shows "\<exists>n. r = Inr n \<and> unat n = length out \<and> n \<noteq> 0 \<and> length out \<le> unat out_len \<and> session_ok s' \<and>
    unread s = out @ unread s' \<and> stream_state s' = stream_state s \<and> token_ring s' = token_ring s \<and>
    session_stream.more s' = session_stream.more s"
proof -
  let ?len = "unat (pending_len s)" and ?off = "unat (pending_off s)"
  have lt: "?off < ?len" "?len \<le> 32" "length (pending_utf8 s) = 32"
    using assms(1,2) by (simp_all add: has_pending_def session_ok_def word_less_nat_alt)
  have sub: "unat (pending_len s - pending_off s) = ?len - ?off"
    using lt by (intro unat_sub) (simp add: word_le_nat_alt)
  let ?avail = "ucast (pending_len s - pending_off s) :: u32"
  have av: "unat ?avail = ?len - ?off" using sub lt by (subst unat_ucast_small) simp_all
  define n where "n = (if ?avail > out_len then out_len else ?avail)"
  have n: "unat n = min (unat out_len) (?len - ?off)"
    using av by (auto simp: n_def word_less_nat_alt min_def)
  have n0: "0 < unat n" using n lt assms(3) by (simp add: unat_gt_0)
  have un: "unat (ucast n :: u8) = unat n" using n lt by (intro unat_ucast_small) simp
  have off: "unat (pending_off s + ucast n) = ?off + unat n"
    unfolding unat_word_ariths(1) un using n lt by (intro mod_less) simp
  note e = assms(4) [unfolded read_pending_def Let_def, folded n_def]
  have out: "out = read_at (pending_utf8 s) ?off (unat n)" and r: "r = Inr n" and
    s': "s' = (if pending_off s + ucast n \<ge> pending_len s then s\<lparr>pending_len := 0, pending_off := 0\<rparr>
      else s\<lparr>pending_off := pending_off s + ucast n\<rparr>)"
    by (rule conjunct1 [OF conjunct2 [OF e [symmetric, unfolded prod.inject]]],
        rule conjunct1 [OF e [symmetric, unfolded prod.inject]],
        rule conjunct2 [OF conjunct2 [OF e [symmetric, unfolded prod.inject]]])
  have lo: "length out = unat n" using n lt by (simp add: out)
  have split: "pending_bytes s = out @ drop (?off + unat n) (take ?len (pending_utf8 s))"
  proof -
    have "pending_bytes s = drop ?off (take ?len (pending_utf8 s))" using assms(2) by (simp add: pending_bytes_def)
    also have "\<dots> = take (unat n) (drop ?off (take ?len (pending_utf8 s))) @ drop (unat n) (drop ?off (take ?len (pending_utf8 s)))"
      by (simp only: append_take_drop_id)
    also have "take (unat n) (drop ?off (take ?len (pending_utf8 s))) = out"
      using n by (simp add: out read_at_def drop_take min_def)
    finally show ?thesis by (simp add: add.commute)
  qed
  have "pending_bytes s' = drop (?off + unat n) (take ?len (pending_utf8 s))"
  proof (cases "pending_off s + ucast n \<ge> pending_len s")
    case True
    then have "?len \<le> ?off + unat n" using off by (simp add: word_le_nat_alt)
    then show ?thesis using True by (simp add: s' pending_bytes_def has_pending_def)
  next
    case False
    then have "?off + unat n < ?len" using off by (simp add: word_le_nat_alt)
    then show ?thesis using False off by (simp add: s' pending_bytes_def has_pending_def word_less_nat_alt)
  qed
  moreover have "session_ok s'" "stream_state s' = stream_state s" "token_ring s' = token_ring s"
    "session_stream.more s' = session_stream.more s"
    using assms(1) by (auto simp: s' session_ok_def)
  ultimately show ?thesis using r n n0 lo split by (auto simp: unread_def)
qed

text \<open>
  What the other threads do between the steps of a read: they push tokens and change the state, and
  leave the bytes of a split token alone.
\<close>

definition producer_env :: "(nat \<Rightarrow> 'z session_stream_scheme \<Rightarrow> 'z session_stream_scheme) \<Rightarrow> bool" where
  "producer_env env \<longleftrightarrow> (\<forall>k s. session_ok s \<longrightarrow> session_ok (env k s) \<and>
     (\<exists>ts. spsc_items (token_ring (env k s)) = spsc_items (token_ring s) @ ts) \<and>
     pending_utf8 (env k s) = pending_utf8 s \<and> pending_len (env k s) = pending_len s \<and>
     pending_off (env k s) = pending_off s)"

lemma env_step:
  assumes "producer_env env" "session_ok s"
  shows "session_ok (env k s)" "has_pending (env k s) = has_pending s" "\<exists>p. unread (env k s) = unread s @ p"
proof -
  obtain ts where e: "session_ok (env k s)" "spsc_items (token_ring (env k s)) = spsc_items (token_ring s) @ ts"
    "pending_utf8 (env k s) = pending_utf8 s" "pending_len (env k s) = pending_len s" "pending_off (env k s) = pending_off s"
    using assms unfolding producer_env_def by blast
  then show "session_ok (env k s)" "has_pending (env k s) = has_pending s" by (simp_all add: has_pending_def)
  show "\<exists>p. unread (env k s) = unread s @ p"
    using e by (intro exI [of _ "stream_bytes ts"]) (simp add: unread_def pending_bytes_def has_pending_def)
qed

text \<open>
  To say what the bytes of a read are, the sessions carry the tokens that were pushed since some point:
  a history variable, which no function of the session looks at or changes. The other threads record
  in it the tokens they push, and nothing else.
\<close>

record traced_stream = session_stream +
  pushed_log :: "stream_token list"

definition recording_env :: "(nat \<Rightarrow> traced_stream \<Rightarrow> traced_stream) \<Rightarrow> bool" where
  "recording_env env \<longleftrightarrow> (\<forall>k s. session_ok s \<longrightarrow> session_ok (env k s) \<and>
     (\<exists>ts. spsc_items (token_ring (env k s)) = spsc_items (token_ring s) @ ts \<and> pushed_log (env k s) = pushed_log s @ ts) \<and>
     pending_utf8 (env k s) = pending_utf8 s \<and> pending_len (env k s) = pending_len s \<and>
     pending_off (env k s) = pending_off s)"

lemma recording_producer: "recording_env env \<Longrightarrow> producer_env env"
  unfolding recording_env_def producer_env_def by blast

lemma pushed_more: "session_stream.more s' = session_stream.more s \<Longrightarrow> pushed_log s' = pushed_log (s :: traced_stream)"
  by (cases s; cases s') simp

text \<open>The bytes that were pushed between two points.\<close>

definition pushed_between :: "traced_stream \<Rightarrow> traced_stream \<Rightarrow> u8 list \<Rightarrow> bool" where
  "pushed_between s s' p \<longleftrightarrow> (\<exists>ts. pushed_log s' = pushed_log s @ ts \<and> p = stream_bytes ts)"

lemma pushed_none: "pushed_log s' = pushed_log s \<Longrightarrow> pushed_between s s' []"
  unfolding pushed_between_def by (intro exI [of _ "[]"]) simp

lemma pushed_trans: "pushed_between s s1 p \<Longrightarrow> pushed_between s1 s2 q \<Longrightarrow> pushed_between s s2 (p @ q)"
proof -
  assume "pushed_between s s1 p" "pushed_between s1 s2 q"
  then obtain ts us where "pushed_log s1 = pushed_log s @ ts" "p = stream_bytes ts" "pushed_log s2 = pushed_log s1 @ us" "q = stream_bytes us"
    unfolding pushed_between_def by blast
  then show ?thesis unfolding pushed_between_def by (intro exI [of _ "ts @ us"]) simp
qed

lemma recording_step:
  assumes "recording_env env" "session_ok s"
  obtains p where "pushed_between s (env k s) p" "unread (env k s) = unread s @ p"
proof -
  obtain ts where e: "spsc_items (token_ring (env k s)) = spsc_items (token_ring s) @ ts" "pushed_log (env k s) = pushed_log s @ ts"
    "pending_utf8 (env k s) = pending_utf8 s" "pending_len (env k s) = pending_len s" "pending_off (env k s) = pending_off s"
    using assms unfolding recording_env_def by blast
  have "pushed_between s (env k s) (stream_bytes ts)" using e(2) unfolding pushed_between_def by blast
  moreover have "unread (env k s) = unread s @ stream_bytes ts"
    using e by (simp add: unread_def pending_bytes_def has_pending_def)
  ultimately show thesis by (rule that)
qed

text \<open>What a read returns: with \<open>p\<close> the bytes that were pushed during it, what was unread and \<open>p\<close> are the bytes
  returned and what is unread after it; and a number that counts the bytes.\<close>

definition read_ok :: "traced_stream \<Rightarrow> u32 \<Rightarrow> (astral_err + u32) \<times> u8 list \<times> traced_stream \<Rightarrow> bool" where
  "read_ok s out_len res \<longleftrightarrow>
     (case res of (r, out, s') \<Rightarrow>
        session_ok s' \<and> length out \<le> unat out_len \<and> (\<exists>p. pushed_between s s' p \<and> unread s @ p = out @ unread s') \<and>
        (case r of Inr n \<Rightarrow> unat n = length out \<and> (n = 0 \<longrightarrow> terminal (stream_state s'))
         | Inl e \<Rightarrow> e = ASTRAL_E_TIMEOUT \<and> out = []))"

lemma read_ok_after:
  assumes "read_ok s2 out_len (r, out, s')" "pushed_between s s2 p" "unread s2 = unread s @ p"
  shows "read_ok s out_len (r, out, s')"
proof -
  obtain q where q: "pushed_between s2 s' q" "unread s2 @ q = out @ unread s'" using assms(1) unfolding read_ok_def by auto
  have "unread s @ p @ q = out @ unread s'" using q(2) assms(3) by simp
  then have "\<exists>p. pushed_between s s' p \<and> unread s @ p = out @ unread s'" using pushed_trans [OF assms(2) q(1)] by blast
  then show ?thesis using assms(1) unfolding read_ok_def by simp
qed

lemma wait_loop_ok:
  fixes s :: traced_stream
  assumes "wait_loop arm env now deadline poll_mask out_len k spins s = Some res"
    and "recording_env env" and "out_len \<noteq> 0" and "session_ok s" and "\<not> has_pending s"
  shows "read_ok s out_len res"
proof -
  have "recording_env env \<and> out_len \<noteq> 0 \<longrightarrow> session_ok s \<and> \<not> has_pending s \<longrightarrow> read_ok s out_len res"
  proof (rule wait_loop.raw_induct [where P = "\<lambda>arm env now deadline poll_mask out_len k spins s res.
      recording_env env \<and> out_len \<noteq> 0 \<longrightarrow> session_ok s \<and> \<not> has_pending s \<longrightarrow> read_ok s out_len res",
      OF _ assms(1)])
  fix rec :: "bool \<Rightarrow> (nat \<Rightarrow> traced_stream \<Rightarrow> traced_stream) \<Rightarrow> (nat \<Rightarrow> u64) \<Rightarrow> u64 \<Rightarrow> u32 \<Rightarrow> u32 \<Rightarrow> nat \<Rightarrow> u32 \<Rightarrow> traced_stream \<Rightarrow>
      ((astral_err + u32) \<times> u8 list \<times> traced_stream) option"
    and arm env now deadline poll_mask out_len k spins s res
  assume IH: "\<And>arm env now deadline poll_mask out_len k spins s y.
        rec arm env now deadline poll_mask out_len k spins s = Some y \<Longrightarrow>
        recording_env env \<and> out_len \<noteq> 0 \<longrightarrow> session_ok s \<and> \<not> has_pending s \<longrightarrow> read_ok s out_len y"
    and body: "(case session_stream_drain arm (env (2 * k) s) out_len of
        None \<Rightarrow> None
      | Some (n, out, s1) \<Rightarrow>
          if n \<noteq> 0 then Some (Inr n, out, s1)
          else
            (let s2 = env (2 * k + 1) s1
             in if terminal (stream_state s2) then Some (Inr 0, [], s2)
                else if spins AND poll_mask = 0 \<and> now k \<ge> deadline then Some (Inl ASTRAL_E_TIMEOUT, [], s2)
                else rec arm env now deadline poll_mask out_len (k + 1) (spins + 1) s2)) = Some res"
  show "recording_env env \<and> out_len \<noteq> 0 \<longrightarrow> session_ok s \<and> \<not> has_pending s \<longrightarrow> read_ok s out_len res"
  proof (intro impI)
  assume e: "recording_env env \<and> out_len \<noteq> 0" and s: "session_ok s \<and> \<not> has_pending s"
  note rec_env = conjunct1 [OF e]
  note penv = recording_producer [OF rec_env]
  note e0 = env_step [OF penv conjunct1 [OF s], of "2 * k"]
  obtain n out s1 where d: "session_stream_drain arm (env (2 * k) s) out_len = Some (n, out, s1)" "unat n = length out"
    "length out \<le> unat out_len" "session_ok s1" "unread (env (2 * k) s) = out @ unread s1"
    "n = 0 \<longrightarrow> out = [] \<and> unread s1 = [] \<and> \<not> has_pending s1" "session_stream.more s1 = session_stream.more (env (2 * k) s)"
    using session_drain_spec [OF e0(1), of out_len arm] e0(2) s e by blast
  obtain p where p: "pushed_between s (env (2 * k) s) p" "unread (env (2 * k) s) = unread s @ p"
    using recording_step [OF rec_env conjunct1 [OF s]] by blast
  have p1: "pushed_between s s1 p" using pushed_trans [OF p(1) pushed_none [OF pushed_more [OF d(7)]]] by simp
  show "read_ok s out_len res"
  proof (cases "n = 0")
    case False
    then have "res = (Inr n, out, s1)" using body d(1) by simp
    moreover have "unread s @ p = out @ unread s1" using p(2) d(5) by simp
    ultimately show ?thesis using d(2-4) p1 False unfolding read_ok_def by auto
  next
    case n0: True
    then have nn: "\<not> n \<noteq> 0" by simp
    define s2 where "s2 = env (2 * k + 1) s1"
    note e1 = env_step [OF penv d(4), of "2 * k + 1", folded s2_def]
    obtain q where q: "pushed_between s1 s2 q" "unread s2 = unread s1 @ q"
      using recording_step [OF rec_env d(4)] unfolding s2_def by blast
    note trail = pushed_trans [OF p1 q(1)]
    have un: "unread s2 = unread s @ p @ q" using d(5,6) n0 p(2) q(2) by simp
    have here: "read_ok s out_len (r, [], s2)" if "r = Inr 0 \<and> terminal (stream_state s2) \<or> r = Inl ASTRAL_E_TIMEOUT" for r
    proof -
      have "\<exists>p. pushed_between s s2 p \<and> unread s @ p = [] @ unread s2" using trail un by (intro exI [of _ "p @ q"]) simp
      then show ?thesis using that e1(1) by (auto simp: read_ok_def)
    qed
    consider "terminal (stream_state s2)" "res = (Inr 0, [], s2)" | "res = (Inl ASTRAL_E_TIMEOUT, [], s2)"
      | "rec arm env now deadline poll_mask out_len (k + 1) (spins + 1) s2 = Some res"
    proof -
      have "(if terminal (stream_state s2) then Some (Inr 0, [], s2)
             else if spins AND poll_mask = 0 \<and> now k \<ge> deadline then Some (Inl ASTRAL_E_TIMEOUT, [], s2)
             else rec arm env now deadline poll_mask out_len (k + 1) (spins + 1) s2) = Some res"
        using body [unfolded d(1) option.case prod.case if_not_P [OF nn] Let_def, folded s2_def] .
      then show thesis using that by (cases "terminal (stream_state s2)"; cases "spins AND poll_mask = 0 \<and> now k \<ge> deadline") simp_all
    qed
    then show ?thesis
    proof cases
      case 3
      have np: "\<not> has_pending s2" using e1(2) d(6) n0 by simp
      have ok: "read_ok s2 out_len res" using IH [OF 3] e e1(1) np by blast
      obtain r out' s' where res: "res = (r, out', s')" by (metis prod_cases3)
      show ?thesis unfolding res by (rule read_ok_after [OF ok [unfolded res] trail un])
    qed (use here in auto)
  qed
  qed
  qed
  then show ?thesis using assms by blast
qed

section \<open>Properties of a read\<close>

definition readable :: "'z session_stream_scheme \<Rightarrow> u32 \<Rightarrow> bool" where
  "readable s out_len \<longleftrightarrow> session_ok s \<and> \<not> stream_read_lock s \<and> out_len \<noteq> 0"

lemma stream_read_pending:
  assumes "readable s out_len" "has_pending s"
  shows "stream_read arm f env now (Some s) (Some out_len) timeout_ms =
    (case read_pending s out_len of (r, out, s1) \<Rightarrow> Some (r, out, Some s1))"
  using assms by (simp add: stream_read_def readable_def has_pending_def)

definition finish_read ::
  "bool \<Rightarrow> (u64 \<Rightarrow> u64) \<Rightarrow> (nat \<Rightarrow> 'z session_stream_scheme \<Rightarrow> 'z session_stream_scheme) \<Rightarrow> (nat \<Rightarrow> u64) \<Rightarrow> u32 \<Rightarrow> u32 \<Rightarrow>
   u32 \<Rightarrow> u8 list \<Rightarrow> 'z session_stream_scheme \<Rightarrow> ((astral_err + u32) \<times> u8 list \<times> 'z session_stream_scheme option) option" where
  "finish_read arm f env now out_len timeout_ms n out s1 =
     (if n \<noteq> 0 then Some (Inr n, out, Some s1)
      else
        (let s2 = env 0 s1
         in if terminal (stream_state s2) then Some (Inr 0, [], Some s2)
            else if timeout_ms > 0 then
              map_option (\<lambda>(r, out, s3). (r, out, Some s3))
                (wait_loop arm (\<lambda>k. env (k + 1)) (\<lambda>k. now (k + 1)) (now 0 + f (ucast timeout_ms * 1000000))
                   (check_mask timeout_ms) out_len 0 0 s2)
            else Some (Inl ASTRAL_E_TIMEOUT, [], Some s2)))"

lemma stream_read_drain:
  assumes "readable s out_len" "\<not> has_pending s" "session_stream_drain arm s out_len = Some (n, out, s1)"
  shows "stream_read arm f env now (Some s) (Some out_len) timeout_ms = finish_read arm f env now out_len timeout_ms n out s1"
  using assms by (simp add: stream_read_def readable_def has_pending_def finish_read_def Let_def)

lemma producer_env_shift: "producer_env env \<Longrightarrow> producer_env (\<lambda>k. env (k + 1))"
  by (simp add: producer_env_def)

lemma pending_read_ok:
  assumes "session_ok s" "has_pending s" "out_len \<noteq> 0" "read_pending s out_len = (r, out, s')"
  shows "read_ok s out_len (r, out, s')"
proof -
  obtain n where n: "r = Inr n" "unat n = length out" "n \<noteq> 0" "length out \<le> unat out_len" "session_ok s'"
    "unread s = out @ unread s'" "session_stream.more s' = session_stream.more s"
    using read_pending_spec [OF assms] by blast
  have "\<exists>p. pushed_between s s' p \<and> unread s @ p = out @ unread s'"
    using pushed_none [OF pushed_more [OF n(7)]] n(6) by (intro exI [of _ "[]"]) simp
  then show ?thesis using n(1-5) unfolding read_ok_def by simp
qed

text \<open>The rest of a read that has found the ring empty.\<close>

lemma empty_read_ok:
  assumes "recording_env env" "out_len \<noteq> 0" "session_ok s1" "\<not> has_pending s1" "unread s1 = []" "unread s = []"
    and "pushed_between s s1 []"
    and "finish_read arm f env now out_len timeout_ms 0 [] s1 = Some (r, out, Some s')"
  shows "read_ok s out_len (r, out, s')"
proof -
  define s2 where "s2 = env 0 s1"
  note e1 = env_step [OF recording_producer [OF assms(1)] assms(3), of 0, folded s2_def]
  have np: "\<not> has_pending s2" using e1(2) assms(4) by simp
  obtain q where q1: "pushed_between s1 s2 q" "unread s2 = unread s1 @ q"
    using recording_step [OF assms(1,3)] unfolding s2_def by blast
  have q: "pushed_between s s2 q" "unread s2 = unread s @ q" using pushed_trans [OF assms(7) q1(1)] q1(2) assms(5,6) by simp_all
  have here: "read_ok s out_len (r, [], s2)" if "r = Inr 0 \<and> terminal (stream_state s2) \<or> r = Inl ASTRAL_E_TIMEOUT" for r
  proof -
    have "\<exists>p. pushed_between s s2 p \<and> unread s @ p = [] @ unread s2" using q by (intro exI [of _ q]) simp
    then show ?thesis using that e1(1) by (auto simp: read_ok_def)
  qed
  show ?thesis
  proof (cases "terminal (stream_state s2) \<or> timeout_ms = 0")
    case True
    then show ?thesis using assms(8) here by (auto simp: finish_read_def s2_def [symmetric] word_neq_0_conv split: if_splits)
  next
    case False
    then obtain res where w: "wait_loop arm (\<lambda>k. env (k + 1)) (\<lambda>k. now (k + 1)) (now 0 + f (ucast timeout_ms * 1000000))
         (check_mask timeout_ms) out_len 0 0 s2 = Some res" "res = (r, out, s')"
      using assms(8) by (auto simp: finish_read_def s2_def [symmetric] word_neq_0_conv)
    have shift: "recording_env (\<lambda>k. env (k + 1))" using assms(1) by (simp add: recording_env_def)
    have "read_ok s2 out_len res" by (rule wait_loop_ok [OF w(1) shift assms(2) e1(1) np])
    from read_ok_after [OF this [unfolded w(2)] q] show ?thesis .
  qed
qed

text \<open>C30: Whatever the other threads push during a read, and whatever the size of the buffer, the bytes that
  were unread before it followed by those pushed during it are the bytes the read returns followed by
  those that are unread after it: nothing is lost, repeated, changed or reordered, also when a token
  is split. The number returned counts the bytes; it is zero only when the session has ended, and a
  time-out returns no bytes.\<close>
theorem stream_read_in_order:
  assumes "readable s out_len" and "recording_env env"
    and "stream_read arm f env now (Some s) (Some out_len) timeout_ms = Some (r, out, Some s')"
  shows "read_ok s out_len (r, out, s')"
proof -
  have ok: "session_ok s" "out_len \<noteq> 0" using assms(1) by (simp_all add: readable_def)
  show ?thesis
  proof (cases "has_pending s")
    case True
    then have "read_pending s out_len = (r, out, s')"
      using assms(3) stream_read_pending [OF assms(1) True, of arm f env now timeout_ms] by (auto split: prod.splits)
    then show ?thesis by (rule pending_read_ok [OF ok(1) True ok(2)])
  next
    case False
    obtain n out1 s1 where d: "session_stream_drain arm s out_len = Some (n, out1, s1)" "unat n = length out1"
      "length out1 \<le> unat out_len" "session_ok s1" "unread s = out1 @ unread s1"
      "n = 0 \<longrightarrow> out1 = [] \<and> unread s1 = [] \<and> \<not> has_pending s1" "session_stream.more s1 = session_stream.more s"
      using session_drain_spec [OF ok(1) False ok(2), of arm] by blast
    note p0 = pushed_none [OF pushed_more [OF d(7)]]
    note e = assms(3) [unfolded stream_read_drain [OF assms(1) False d(1)]]
    show ?thesis
    proof (cases "n = 0")
      case False
      then have r: "r = Inr n" "out = out1" "s' = s1" using e by (simp_all add: finish_read_def)
      have "\<exists>p. pushed_between s s1 p \<and> unread s @ p = out1 @ unread s1"
        using p0 d(5) by (intro exI [of _ "[]"]) simp
      then show ?thesis using d(2-4) False unfolding r read_ok_def by simp
    next
      case True
      have "unread s = []" "finish_read arm f env now out_len timeout_ms 0 [] s1 = Some (r, out, Some s')"
        using d(5,6) True e by simp_all
      then show ?thesis using empty_read_ok [OF assms(2) ok(2) d(4)] d(6) True p0 by blast
    qed
  qed
qed

lemma and_mask_block:
  assumes "j \<le> 16"
  shows "(of_nat (65536 * m) :: u32) AND mask j = 0"
proof -
  have "(2 :: nat) ^ j dvd 2 ^ 16" by (rule le_imp_power_dvd [OF assms])
  also have "(2 :: nat) ^ 16 = 65536" by simp
  finally have "2 ^ j dvd 65536 * m" by (rule dvd_mult2)
  then have z: "take_bit j (65536 * m) = 0" unfolding take_bit_eq_mod by (rule dvd_imp_mod_0)
  have "take_bit j (of_nat (65536 * m) :: u32) = of_nat (take_bit j (65536 * m))" by (rule take_bit_of_nat)
  also have "\<dots> = 0" unfolding z by simp
  finally show ?thesis by (simp only: take_bit_eq_mask)
qed

lemma check_mask_mask: "\<exists>j \<le> 16. check_mask timeout_ms = mask j"
proof -
  have m: "(31 :: u32) = mask 5" "(255 :: u32) = mask 8" "(4095 :: u32) = mask 12" "(65535 :: u32) = mask 16"
    by (simp_all add: mask_eq_exp_minus_1)
  show ?thesis unfolding check_mask_def m
    by (cases "timeout_ms \<le> 1"; cases "timeout_ms \<le> 10"; cases "timeout_ms \<le> 100")
      (auto intro: exI [of _ 5] exI [of _ 8] exI [of _ 12] exI [of _ 16])
qed

lemma wait_loop_returns:
  assumes env: "producer_env env" and "out_len \<noteq> 0" and j: "j \<le> 16"
    and "session_ok s" "\<not> has_pending s" "k \<le> 65536 * m" "deadline \<le> now (65536 * m)"
  shows "\<exists>res. wait_loop arm env now deadline (mask j) out_len k (of_nat k) s = Some res"
  using assms(4-7)
proof (induction "65536 * m - k" arbitrary: k s)
  case (0 k s)
  then have k: "k = 65536 * m" by simp
  note e0 = env_step [OF env 0(2), of "2 * k"]
  obtain n out s1 where d: "session_stream_drain arm (env (2 * k) s) out_len = Some (n, out, s1)"
    using session_drain_spec [OF e0(1) _ assms(2), of arm] e0(2) 0(3) by blast
  show ?case
    using d and_mask_block [OF j, of m] 0(5) k
    by (subst wait_loop.simps) (auto simp: Let_def)
next
  case (Suc x k s)
  note e0 = env_step [OF env Suc(3), of "2 * k"]
  obtain n out s1 where d: "session_stream_drain arm (env (2 * k) s) out_len = Some (n, out, s1)"
    "session_ok s1" "n = 0 \<longrightarrow> \<not> has_pending s1"
    using session_drain_spec [OF e0(1) _ assms(2), of arm] e0(2) Suc(4) by blast
  let ?s2 = "env (2 * k + 1) s1"
  note e1 = env_step [OF env d(2), of "2 * k + 1"]
  have "\<exists>res. wait_loop arm env now deadline (mask j) out_len (k + 1) (of_nat (k + 1)) ?s2 = Some res" if "n = 0"
    by (rule Suc.hyps(1)) (use Suc.hyps(2) Suc.prems e1 d(3) that in auto)
  then show ?case using d(1) by (subst wait_loop.simps) (auto simp: Let_def add.commute)
qed

text \<open>A wait gives up only when the clock has reached the deadline.\<close>

lemma wait_loop_timeout:
  assumes "wait_loop arm env now deadline poll_mask out_len k spins s = Some res" "fst res = Inl err"
  shows "\<exists>j. deadline \<le> now j"
proof -
  have "\<forall>err. fst res = Inl err \<longrightarrow> (\<exists>j. deadline \<le> now j)"
  proof (rule wait_loop.raw_induct [where P = "\<lambda>arm env now deadline poll_mask out_len k spins s res.
      \<forall>err. fst res = Inl err \<longrightarrow> (\<exists>j. deadline \<le> now j)", OF _ assms(1)])
    fix rec :: "bool \<Rightarrow> (nat \<Rightarrow> 'z session_stream_scheme \<Rightarrow> 'z session_stream_scheme) \<Rightarrow> (nat \<Rightarrow> u64) \<Rightarrow> u64 \<Rightarrow> u32 \<Rightarrow> u32 \<Rightarrow>
        nat \<Rightarrow> u32 \<Rightarrow> 'z session_stream_scheme \<Rightarrow> 'z read_result option"
      and arm env now deadline poll_mask out_len k spins s res
    assume IH: "\<And>arm env now deadline poll_mask out_len k spins s y.
          rec arm env now deadline poll_mask out_len k spins s = Some y \<Longrightarrow>
          \<forall>err. fst y = Inl err \<longrightarrow> (\<exists>j. deadline \<le> now j)"
      and body: "(case session_stream_drain arm (env (2 * k) s) out_len of
          None \<Rightarrow> None
        | Some (n, out, s1) \<Rightarrow>
            if n \<noteq> 0 then Some (Inr n, out, s1)
            else
              (let s2 = env (2 * k + 1) s1
               in if terminal (stream_state s2) then Some (Inr 0, [], s2)
                  else if spins AND poll_mask = 0 \<and> now k \<ge> deadline then Some (Inl ASTRAL_E_TIMEOUT, [], s2)
                  else rec arm env now deadline poll_mask out_len (k + 1) (spins + 1) s2)) = Some res"
    obtain n out s1 where d: "session_stream_drain arm (env (2 * k) s) out_len = Some (n, out, s1)"
      using body by (auto split: option.splits)
    show "\<forall>err. fst res = Inl err \<longrightarrow> (\<exists>j. deadline \<le> now j)"
    proof (cases "n \<noteq> 0 \<or> terminal (stream_state (env (2 * k + 1) s1))")
      case True
      then have "\<exists>m. fst res = Inr m" using body d by (auto simp: Let_def split: if_splits)
      then show ?thesis by auto
    next
      case False
      then show ?thesis using body d IH [of arm env now deadline poll_mask out_len "k + 1" "spins + 1" "env (2 * k + 1) s1" res]
        by (auto simp: Let_def split: if_splits)
    qed
  qed
  then show ?thesis using assms(2) by blast
qed

text \<open>C31: A read with a time-out of zero returns at once: the same whatever the clock says, which it does
  not look at. With a time-out it returns when the clock has passed the deadline for good, whatever
  the other threads do; and it reports a time-out only when the clock has reached the deadline.\<close>
theorem stream_read_returns:
  assumes "readable s out_len" and "producer_env env"
  shows "(\<exists>r out s'. \<forall>now. stream_read arm f env now (Some s) (Some out_len) 0 = Some (r, out, Some s')) \<and>
    (\<forall>now K. (\<forall>k \<ge> K. now 0 + f (ucast timeout_ms * 1000000) \<le> now k) \<longrightarrow>
      (\<exists>r out s'. stream_read arm f env now (Some s) (Some out_len) timeout_ms = Some (r, out, Some s'))) \<and>
    (\<forall>now err out s'. 0 < timeout_ms \<longrightarrow>
      stream_read arm f env now (Some s) (Some out_len) timeout_ms = Some (Inl err, out, s') \<longrightarrow>
      (\<exists>k. now 0 + f (ucast timeout_ms * 1000000) \<le> now k))"
proof -
  have ok: "session_ok s" "out_len \<noteq> 0" using assms(1) by (simp_all add: readable_def)
  show ?thesis
  proof (cases "has_pending s")
    case True
    obtain r out s' where p: "read_pending s out_len = (r, out, s')" by (metis prod_cases3)
    obtain n where "r = Inr n" using read_pending_spec [OF ok(1) True ok(2) p] by blast
    then show ?thesis using stream_read_pending [OF assms(1) True] p by simp
  next
    case False
    obtain n out1 s1 where d: "session_stream_drain arm s out_len = Some (n, out1, s1)" "session_ok s1"
      "n = 0 \<longrightarrow> \<not> has_pending s1"
      using session_drain_spec [OF ok(1) False ok(2), of arm] by blast
    obtain j where j: "j \<le> 16" "check_mask timeout_ms = mask j" using check_mask_mask by blast
    note e1 = env_step [OF assms(2) d(2), of 0]
    have run: "stream_read arm f env now (Some s) (Some out_len) t = finish_read arm f env now out_len t n out1 s1" for now t
      by (rule stream_read_drain [OF assms(1) False d(1)])
    have "\<exists>r out s'. \<forall>now. finish_read arm f env now out_len 0 n out1 s1 = Some (r, out, Some s')"
      by (cases "n = 0"; cases "terminal (stream_state (env 0 s1))") (simp_all add: finish_read_def Let_def)
    moreover have "\<exists>r out s'. finish_read arm f env now out_len timeout_ms n out1 s1 = Some (r, out, Some s')"
      if K: "\<forall>k \<ge> K. now 0 + f (ucast timeout_ms * 1000000) \<le> now k" for now K
    proof -
      have "\<exists>res. wait_loop arm (\<lambda>k. env (k + 1)) (\<lambda>k. now (k + 1)) (now 0 + f (ucast timeout_ms * 1000000))
          (mask j) out_len 0 (of_nat 0) (env 0 s1) = Some res" if "n = 0"
        by (rule wait_loop_returns [OF producer_env_shift [OF assms(2)] ok(2) j(1), where m = "K"])
          (use e1 d(3) that K in auto)
      then show ?thesis unfolding finish_read_def j(2) by (auto simp: Let_def split: prod.splits)
    qed
    moreover have "\<exists>k. now 0 + f (ucast timeout_ms * 1000000) \<le> now k"
      if t: "0 < timeout_ms" "finish_read arm f env now out_len timeout_ms n out1 s1 = Some (Inl err, out, s')" for now err out s'
    proof -
      obtain x y where w: "wait_loop arm (\<lambda>k. env (k + 1)) (\<lambda>k. now (k + 1)) (now 0 + f (ucast timeout_ms * 1000000))
          (check_mask timeout_ms) out_len 0 0 (env 0 s1) = Some (Inl err, x, y)"
        using t by (auto simp: finish_read_def Let_def split: if_splits)
      have "\<exists>k. now 0 + f (ucast timeout_ms * 1000000) \<le> now (k + 1)" by (rule wait_loop_timeout [OF w fst_conv])
      then show ?thesis by blast
    qed
    ultimately show ?thesis unfolding run by blast
  qed
qed

section \<open>The end of the stream\<close>

text \<open>The decode thread's last steps: it pushes a token and sets the final state.\<close>

definition produce_last :: "bool \<Rightarrow> stream_token \<Rightarrow> 'z session_stream_scheme \<Rightarrow> 'z session_stream_scheme" where
  "produce_last arm t s = s\<lparr>token_ring := snd (spsc_push arm t (token_ring s)), stream_state := Completed\<rparr>"

definition last_env :: "bool \<Rightarrow> stream_token \<Rightarrow> nat \<Rightarrow> 'z session_stream_scheme \<Rightarrow> 'z session_stream_scheme" where
  "last_env arm t k s = (if k = 0 then produce_last arm t s else s)"

lemma last_env_ok: "token_ok t \<Longrightarrow> producer_env (last_env arm t)"
  unfolding producer_env_def
  using spsc_push_spec(2,3) [of _ arm t]
  by (auto simp: last_env_def produce_last_def session_ok_def ring_ok_def)

text \<open>With nobody else at work a wait ends the stream only when it has ended and nothing is left.\<close>

lemma wait_loop_end:
  assumes "wait_loop arm env now deadline poll_mask out_len k spins s = Some res" "fst res = Inr 0"
    and "env = (\<lambda>_ s. s)" "session_ok s" "\<not> has_pending s" "out_len \<noteq> 0"
  shows "terminal (stream_state s) \<and> unread s = []"
proof -
  have "env = (\<lambda>_ s. s) \<and> session_ok s \<and> \<not> has_pending s \<and> out_len \<noteq> 0 \<and> fst res = Inr 0 \<longrightarrow>
      terminal (stream_state s) \<and> unread s = []"
  proof (rule wait_loop.raw_induct [where P = "\<lambda>arm env now deadline poll_mask out_len k spins s res.
      env = (\<lambda>_ s. s) \<and> session_ok s \<and> \<not> has_pending s \<and> out_len \<noteq> 0 \<and> fst res = Inr 0 \<longrightarrow>
      terminal (stream_state s) \<and> unread s = []", OF _ assms(1)], intro impI)
    fix rec :: "bool \<Rightarrow> (nat \<Rightarrow> 'z session_stream_scheme \<Rightarrow> 'z session_stream_scheme) \<Rightarrow> (nat \<Rightarrow> u64) \<Rightarrow> u64 \<Rightarrow> u32 \<Rightarrow> u32 \<Rightarrow>
        nat \<Rightarrow> u32 \<Rightarrow> 'z session_stream_scheme \<Rightarrow> 'z read_result option"
      and arm env now deadline poll_mask out_len k spins s res
    assume IH: "\<And>arm env now deadline poll_mask out_len k spins s y.
          rec arm env now deadline poll_mask out_len k spins s = Some y \<Longrightarrow>
          env = (\<lambda>_ s. s) \<and> session_ok s \<and> \<not> has_pending s \<and> out_len \<noteq> 0 \<and> fst y = Inr 0 \<longrightarrow>
          terminal (stream_state s) \<and> unread s = []"
      and body: "(case session_stream_drain arm (env (2 * k) s) out_len of
          None \<Rightarrow> None
        | Some (n, out, s1) \<Rightarrow>
            if n \<noteq> 0 then Some (Inr n, out, s1)
            else
              (let s2 = env (2 * k + 1) s1
               in if terminal (stream_state s2) then Some (Inr 0, [], s2)
                  else if spins AND poll_mask = 0 \<and> now k \<ge> deadline then Some (Inl ASTRAL_E_TIMEOUT, [], s2)
                  else rec arm env now deadline poll_mask out_len (k + 1) (spins + 1) s2)) = Some res"
      and a: "env = (\<lambda>_ s. s) \<and> session_ok s \<and> \<not> has_pending s \<and> out_len \<noteq> 0 \<and> fst res = Inr 0"
    obtain n out s1 where d: "session_stream_drain arm s out_len = Some (n, out, s1)" "session_ok s1" "unread s = out @ unread s1"
      "n = 0 \<longrightarrow> out = [] \<and> unread s1 = [] \<and> \<not> has_pending s1" "stream_state s1 = stream_state s"
      using session_drain_spec [of s out_len arm] a by blast
    have "n = 0" using body d(1) a by (auto split: if_splits)
    then have z: "unread s = []" "\<not> has_pending s1" using d(3,4) by simp_all
    have "terminal (stream_state s)"
    proof (cases "terminal (stream_state s1)")
      case True
      then show ?thesis using d(5) by simp
    next
      case False
      then have "rec arm env now deadline poll_mask out_len (k + 1) (spins + 1) s1 = Some res"
        using body d(1) a \<open>n = 0\<close> by (auto simp: Let_def split: if_splits)
      from IH [OF this] show ?thesis using a d(2,5) z(2) by simp
    qed
    then show "terminal (stream_state s) \<and> unread s = []" using z(1) by blast
  qed
  then show ?thesis using assms(2-6) by blast
qed

lemma quiet_end:
  assumes "readable s out_len"
  shows "(\<exists>s'. stream_read arm f (\<lambda>_ s. s) now (Some s) (Some out_len) timeout_ms = Some (Inr 0, [], Some s')) \<longleftrightarrow>
    terminal (stream_state s) \<and> unread s = []"
proof -
  have ok: "session_ok s" "out_len \<noteq> 0" using assms by (simp_all add: readable_def)
  show ?thesis
  proof (cases "has_pending s")
    case True
    obtain r out s' where p: "read_pending s out_len = (r, out, s')" by (metis prod_cases3)
    obtain n where n: "r = Inr n" "unat n = length out" "n \<noteq> 0" "unread s = out @ unread s'"
      using read_pending_spec [OF ok(1) True ok(2) p] by blast
    then have "out \<noteq> []" by (auto simp: unat_eq_0)
    then show ?thesis using stream_read_pending [OF assms True, of arm f "\<lambda>_ s. s" now timeout_ms] p n by simp
  next
    case False
    obtain n out s1 where d: "session_stream_drain arm s out_len = Some (n, out, s1)" "session_ok s1" "unat n = length out"
      "unread s = out @ unread s1" "n = 0 \<longrightarrow> out = [] \<and> unread s1 = [] \<and> \<not> has_pending s1" "stream_state s1 = stream_state s"
      using session_drain_spec [OF ok(1) False ok(2), of arm] by blast
    note run = stream_read_drain [OF assms False d(1), of f "\<lambda>_ s. s" now timeout_ms]
    show ?thesis
    proof (cases "n = 0")
      case False
      then have "out \<noteq> []" using d(3) by (auto simp: unat_eq_0)
      then show ?thesis using False d(4) unfolding run finish_read_def by simp
    next
      case True
      then have z: "unread s = []" "\<not> has_pending s1" using d(4,5) by simp_all
      show ?thesis
      proof (cases "terminal (stream_state s)")
        case True
        then show ?thesis using \<open>n = 0\<close> z(1) d(6) unfolding run finish_read_def by (simp add: Let_def)
      next
        case live: False
        have "\<not> (\<exists>s'. finish_read arm f (\<lambda>_ s. s) now out_len timeout_ms n out s1 = Some (Inr 0, [], Some s'))"
        proof
          assume "\<exists>s'. finish_read arm f (\<lambda>_ s. s) now out_len timeout_ms n out s1 = Some (Inr 0, [], Some s')"
          then obtain s' where "finish_read arm f (\<lambda>_ s. s) now out_len timeout_ms n out s1 = Some (Inr 0, [], Some s')" by blast
          then obtain x y where w: "wait_loop arm (\<lambda>k s. s) (\<lambda>k. now (k + 1)) (now 0 + f (ucast timeout_ms * 1000000))
              (check_mask timeout_ms) out_len 0 0 s1 = Some (Inr 0, x, y)" "fst (Inr 0 :: astral_err + u32, x, y) = Inr 0"
            using \<open>n = 0\<close> live d(6) by (auto simp: finish_read_def Let_def split: if_splits)
          have "terminal (stream_state s1)" using wait_loop_end [OF w refl d(2) z(2) ok(2)] by simp
          then show False using live d(6) by simp
        qed
        then show ?thesis using live unfolding run by blast
      qed
    qed
  qed
qed

text \<open>C32: When nobody interferes, a read reports the end of the stream exactly when the session has ended
  and every byte has been read, whatever its time-out. But if the decode thread pushes its last token
  and ends the session between the reader's look at the empty ring and its look at the state, a read
  reports the end of the stream although the bytes of that token are left.\<close>
theorem stream_end_misses_tail:
  assumes "readable q out_len"
    and "readable s out_len" and "\<not> has_pending s" and "spsc_items (token_ring s) = []"
    and "token_ok t" and "token_bytes t \<noteq> []"
  shows "((\<exists>s'. stream_read arm f (\<lambda>_ s. s) now (Some q) (Some out_len) timeout_ms = Some (Inr 0, [], Some s')) \<longleftrightarrow>
      terminal (stream_state q) \<and> unread q = []) \<and>
    producer_env (last_env arm t) \<and>
    (\<exists>s'. stream_read arm f (last_env arm t) now (Some s) (Some out_len) timeout_ms = Some (Inr 0, [], Some s') \<and>
      unread s' = token_bytes t)"
proof -
  have ok: "session_ok s" "out_len \<noteq> 0" using assms(2) by (simp_all add: readable_def)
  have empty: "unread s = []" using assms(3,4) by (simp add: unread_def pending_bytes_def)
  obtain n out s1 where d: "session_stream_drain arm s out_len = Some (n, out, s1)" "unat n = length out" "session_ok s1"
    "unread s = out @ unread s1" "n = 0 \<longrightarrow> \<not> has_pending s1" "stream_state s1 = stream_state s"
    using session_drain_spec [OF ok(1) assms(3) ok(2), of arm] by blast
  have out: "out = []" "unread s1 = []" using d(4) empty by simp_all
  then have n: "n = 0" using d(2) by (simp add: unat_eq_0)
  have np: "\<not> has_pending s1" using d(5) n by simp
  have inv: "spsc_inv (token_ring s1)" using d(3) by (simp add: session_ok_def ring_ok_def)
  have cap: "length (spsc_items (token_ring s1)) < spsc_cap (token_ring s1)"
  proof -
    have "stream_bytes (spsc_items (token_ring s1)) = []" using out(2) by (simp add: unread_def)
    have drained: "spsc_items (token_ring s1) = []"
    proof -
      obtain d' r' o' where l: "drain_loop arm \<lparr>dst = [], remaining = out_len, drained = 0, partial = False,
          d_pending_utf8 = pending_utf8 s, d_pending_len = pending_len s, d_pending_off = pending_off s\<rparr> (token_ring s) = Some (d', r')"
        "drained_to \<lparr>dst = [], remaining = out_len, drained = 0, partial = False,
          d_pending_utf8 = pending_utf8 s, d_pending_len = pending_len s, d_pending_off = pending_off s\<rparr> (token_ring s) o' d' r'"
        using drain_loop_spec [of "token_ring s" "\<lparr>dst = [], remaining = out_len, drained = 0, partial = False,
          d_pending_utf8 = pending_utf8 s, d_pending_len = pending_len s, d_pending_off = pending_off s\<rparr>" arm] ok(1)
        by (auto simp: session_ok_def)
      have "o' = []" using l(2) assms(4) by (simp add: drained_to_def)
      moreover have "0 < unat out_len" using ok(2) by (simp add: unat_gt_0)
      ultimately have "spsc_items r' = []" using l(2) by (simp add: drained_to_def)
      moreover have "token_ring s1 = r'" using d(1) l(1) by (auto simp: session_stream_drain_def)
      ultimately show ?thesis by simp
    qed
    moreover have "0 < spsc_cap (token_ring s1)" using inv by (simp add: spsc_inv_def is_pow2_def)
    ultimately show ?thesis by simp
  qed
  have items: "spsc_items (token_ring (produce_last arm t s1)) = spsc_items (token_ring s1) @ [t]"
    using spsc_push_spec(2) [OF inv, of arm t] cap by (simp add: produce_last_def)
  have "unread (produce_last arm t s1) = unread s1 @ token_bytes t"
    using items by (simp add: unread_def pending_bytes_def has_pending_def produce_last_def)
  moreover have "stream_read arm f (last_env arm t) now (Some s) (Some out_len) timeout_ms = Some (Inr 0, [], Some (produce_last arm t s1))"
    using stream_read_drain [OF assms(2,3) d(1), of f "last_env arm t" now timeout_ms] n
    by (simp add: finish_read_def last_env_def produce_last_def terminal_def Let_def)
  ultimately show ?thesis using quiet_end [OF assms(1)] last_env_ok [OF assms(5)] out(2) by simp
qed

section \<open>Witnesses\<close>

definition hi_token :: stream_token where
  "hi_token = \<lparr>token_id = 1, utf8_len = 2, utf8_data = [0x68, 0x69] @ replicate 30 0\<rparr>"

definition empty_stream :: session_stream where
  "empty_stream = \<lparr>token_ring = spsc_new (replicate 4 hi_token), pending_utf8 = replicate 32 0, pending_len = 0,
     pending_off = 0, stream_state = Decoding, stream_read_lock = False\<rparr>"

lemma hi_token_ok: "token_ok hi_token" "token_bytes hi_token = [0x68, 0x69]"
  by (simp_all add: token_ok_def hi_token_def token_bytes_def)

lemma empty_stream_facts:
  "readable empty_stream 1" "\<not> has_pending empty_stream" "spsc_items (token_ring empty_stream) = []"
  "\<not> terminal (stream_state empty_stream)"
proof -
  have "is_pow2 4" by (simp add: is_pow2_def)
  then have "spsc_inv (spsc_new (replicate 4 hi_token))" by (intro spsc_inv_new) simp_all
  then show "readable empty_stream 1" by (simp add: readable_def empty_stream_def session_ok_def ring_ok_def)
qed (simp_all add: has_pending_def empty_stream_def terminal_def)

theorem stream_end_misses_tail_witness:
  "\<exists>s'. stream_read True id (last_env True hi_token) (\<lambda>_. 0) (Some empty_stream) (Some 1) 5 = Some (Inr 0, [], Some s') \<and>
     unread s' = [0x68, 0x69]"
proof -
  note t = stream_end_misses_tail [OF empty_stream_facts(1) empty_stream_facts(1-3) hi_token_ok(1), of True id "\<lambda>_. 0" 5]
  show ?thesis using conjunct2 [OF conjunct2 [OF t]] hi_token_ok(2) by simp
qed

lemma id_env: "producer_env (\<lambda>_ s. s)"
  by (simp add: producer_env_def)

theorem stream_read_returns_witness:
  "\<exists>r out s'. stream_read True id (\<lambda>_ s. s) (\<lambda>_. 0) (Some empty_stream) (Some 1) 0 = Some (r, out, Some s')"
  using stream_read_returns [OF empty_stream_facts(1) id_env, of True id] by blast

text \<open>A token comes between the drain and the wait: the read returns its first byte, and the second is left.\<close>

definition traced_empty :: traced_stream where
  "traced_empty = session_stream.extend empty_stream \<lparr>pushed_log = []\<rparr>"

definition one_push :: "nat \<Rightarrow> traced_stream \<Rightarrow> traced_stream" where
  "one_push k s = (if k = 0 \<and> length (spsc_items (token_ring s)) < spsc_cap (token_ring s)
     then s\<lparr>token_ring := snd (spsc_push True hi_token (token_ring s)), pushed_log := pushed_log s @ [hi_token]\<rparr> else s)"

lemma one_push_env: "recording_env one_push"
  unfolding recording_env_def
  using spsc_push_spec(2,3) [of _ True hi_token] hi_token_ok(1)
  by (auto simp: one_push_def session_ok_def ring_ok_def)

lemma traced_empty_facts: "readable traced_empty 1" "\<not> has_pending traced_empty" "unread traced_empty = []" "pushed_log traced_empty = []"
  using empty_stream_facts(1-3)
  by (simp_all add: traced_empty_def session_stream.defs empty_stream_def readable_def session_ok_def has_pending_def unread_def
      pending_bytes_def)

theorem stream_read_in_order_witness:
  "\<exists>r out s'. stream_read True id one_push (\<lambda>_. 0) (Some traced_empty) (Some 1) 0 = Some (r, out, Some s') \<and>
     stream_bytes (pushed_log s') = out @ unread s'"
proof -
  obtain n out s1 where d: "session_stream_drain True traced_empty 1 = Some (n, out, s1)"
    using session_drain_spec [of traced_empty 1 True] traced_empty_facts(1,2) by (auto simp: readable_def)
  obtain r out' s' where r: "stream_read True id one_push (\<lambda>_. 0) (Some traced_empty) (Some 1) 0 = Some (r, out', Some s')"
    unfolding stream_read_drain [OF traced_empty_facts(1,2) d] finish_read_def
    by (cases "n = 0"; cases "terminal (stream_state (one_push 0 s1))") (simp_all add: Let_def)
  from stream_read_in_order [OF traced_empty_facts(1) one_push_env r]
  have "stream_bytes (pushed_log s') = out' @ unread s'"
    by (auto simp: read_ok_def pushed_between_def traced_empty_facts)
  then show ?thesis using r by blast
qed

end
