(* ===== verification/Frame_Allocator.thy ===== *)
theory Frame_Allocator
  imports Prelude
begin

text \<open>
  The bump allocator of \<open>src/src/memory/frame_allocator.hpp\<close> that every session owns. Addresses and
  sizes are 64-bit words and \<open>alloc\<close> computes on them as the code does, so a sum that wraps is
  one here too. A null pointer is \<open>None\<close>.
\<close>

record frame_allocator =
  fa_base :: u64
  fa_capacity :: u64
  fa_used :: u64

definition frame_new :: "u64 \<Rightarrow> u64 \<Rightarrow> frame_allocator" where
  "frame_new base capacity = \<lparr>fa_base = base, fa_capacity = capacity, fa_used = 0\<rparr>"

definition frame_alloc :: "u64 \<Rightarrow> u64 \<Rightarrow> frame_allocator \<Rightarrow> u64 option \<times> frame_allocator" where
  "frame_alloc sz align fa =
     (let current_addr = fa_base fa + fa_used fa;
          aligned_addr = (current_addr + align - 1) AND NOT (align - 1);
          aligned_offset = aligned_addr - fa_base fa;
          new_used = aligned_offset + sz
      in if new_used > fa_capacity fa then (None, fa)
         else (Some (fa_base fa + aligned_offset), fa\<lparr>fa_used := new_used\<rparr>))"

definition frame_reset :: "frame_allocator \<Rightarrow> frame_allocator" where
  "frame_reset fa = fa\<lparr>fa_used := 0\<rparr>"

definition frame_available :: "frame_allocator \<Rightarrow> u64" where
  "frame_available fa = fa_capacity fa - fa_used fa"

section \<open>One allocation\<close>

text \<open>The region lies in the address space and the cursor in the region.\<close>

definition frame_inv :: "frame_allocator \<Rightarrow> bool" where
  "frame_inv fa \<longleftrightarrow> fa_used fa \<le> fa_capacity fa \<and> unat (fa_base fa) + unat (fa_capacity fa) < 2 ^ 62"

text \<open>A request: an alignment that is a power of two and a size, both far from the width of a word.\<close>

definition frame_request :: "u64 \<times> u64 \<Rightarrow> bool" where
  "frame_request r \<longleftrightarrow> unat (fst r) < 2 ^ 62 \<and> (\<exists>k<62. snd r = 2 ^ k)"

definition frame_next :: "u64 \<Rightarrow> frame_allocator \<Rightarrow> nat" where
  "frame_next align fa = round_up (unat (fa_base fa) + unat (fa_used fa)) (unat align)"

lemma frame_inv_new: "unat base + unat cap < 2 ^ 62 \<Longrightarrow> frame_inv (frame_new base cap)"
  by (simp add: frame_inv_def frame_new_def)

lemma frame_inv_reset: "frame_inv fa \<Longrightarrow> frame_inv (frame_reset fa)"
  by (simp add: frame_inv_def frame_reset_def)

lemma unat_two_pow:
  assumes "k < 64"
  shows "unat ((2 :: u64) ^ k) = 2 ^ k"
proof -
  have "(2 :: nat) ^ k < 2 ^ 64" using assms by (intro power_strict_increasing) simp_all
  then have "unat (of_nat (2 ^ k) :: u64) = 2 ^ k" by (simp only: unat_of_nat) simp
  then show ?thesis by simp
qed

text \<open>An accepted request gets the first aligned address behind the cursor; one is accepted exactly
  when it ends within the region.\<close>

lemma frame_alloc_cases:
  assumes "frame_inv fa" "frame_request (sz, align)"
  shows "if frame_next align fa + unat sz \<le> unat (fa_base fa) + unat (fa_capacity fa)
    then \<exists>p fa'. frame_alloc sz align fa = (Some p, fa') \<and> unat p = frame_next align fa \<and>
      fa_base fa' = fa_base fa \<and> fa_capacity fa' = fa_capacity fa \<and>
      unat (fa_base fa) + unat (fa_used fa') = unat p + unat sz \<and> frame_inv fa'
    else frame_alloc sz align fa = (None, fa)"
proof -
  obtain k where k: "k < 62" "align = 2 ^ k" and sz: "unat sz < 2 ^ 62" using assms(2) by (auto simp: frame_request_def)
  let ?b = "unat (fa_base fa)" and ?c = "unat (fa_capacity fa)" and ?u = "unat (fa_used fa)"
  have i: "?u \<le> ?c" "?b + ?c < 2 ^ 62" using assms(1) by (simp_all add: frame_inv_def word_le_nat_alt)
  have kk: "(2 :: nat) ^ k \<le> 2 ^ 61" using k(1) by (intro power_increasing) simp_all
  have al: "unat align = 2 ^ k" using k by (simp add: unat_two_pow)
  have cu: "unat (fa_base fa + fa_used fa) = ?b + ?u" using i by (simp add: unat_word_ariths(1))
  have up: "(fa_base fa + fa_used fa + align - 1) AND NOT (align - 1) = align_up (fa_base fa + fa_used fa) (2 ^ k)"
    by (simp add: align_up_def k(2) algebra_simps)
  have n: "unat (align_up (fa_base fa + fa_used fa) (2 ^ k)) = frame_next align fa"
    using k(1) i kk by (simp only: frame_next_def al) (subst unat_align_up; simp add: cu)
  have nb: "?b + ?u \<le> frame_next align fa" "frame_next align fa < ?b + ?u + 2 ^ k"
    using round_up_bounds [of "2 ^ k" "?b + ?u"] by (simp_all add: frame_next_def al)
  define off where "off = align_up (fa_base fa + fa_used fa) (2 ^ k) - fa_base fa"
  have off: "unat off = frame_next align fa - ?b" using nb n unfolding off_def by (subst unat_sub) (simp_all add: word_le_nat_alt)
  have new: "unat (off + sz) = frame_next align fa - ?b + unat sz"
    using off nb i kk sz by (simp add: unat_word_ariths(1))
  have p: "unat (fa_base fa + off) = frame_next align fa" unfolding off_def using n by simp
  have e: "frame_alloc sz align fa = (if off + sz > fa_capacity fa then (None, fa)
      else (Some (fa_base fa + off), fa\<lparr>fa_used := off + sz\<rparr>))"
    by (simp only: frame_alloc_def Let_def up off_def)
  have g: "off + sz > fa_capacity fa \<longleftrightarrow> \<not> frame_next align fa + unat sz \<le> ?b + ?c"
    using new nb by (simp add: word_less_nat_alt) linarith
  show ?thesis
  proof (cases "frame_next align fa + unat sz \<le> ?b + ?c")
    case True
    then have "\<not> off + sz > fa_capacity fa" using g by simp
    then have "frame_alloc sz align fa = (Some (fa_base fa + off), fa\<lparr>fa_used := off + sz\<rparr>)" by (simp only: e if_False)
    moreover have "unat (off + sz) \<le> ?c" using True new nb by simp
    ultimately show ?thesis using True p new nb i by (auto simp: frame_inv_def word_le_nat_alt)
  next
    case False
    then show ?thesis using e g by (simp only: if_False if_True simp_thms)
  qed
qed


section \<open>A run of allocations\<close>

text \<open>The blocks that a sequence of requests gets: address, size and alignment.\<close>

fun frame_run :: "(u64 \<times> u64) list \<Rightarrow> frame_allocator \<Rightarrow> (u64 \<times> u64 \<times> u64) list" where
  "frame_run [] fa = []"
| "frame_run ((sz, align) # rs) fa =
     (case frame_alloc sz align fa of
        (None, fa') \<Rightarrow> frame_run rs fa'
      | (Some p, fa') \<Rightarrow> (p, sz, align) # frame_run rs fa')"

fun block_in :: "frame_allocator \<Rightarrow> u64 \<times> u64 \<times> u64 \<Rightarrow> bool" where
  "block_in fa (p, sz, align) \<longleftrightarrow>
     unat align dvd unat p \<and> unat (fa_base fa) + unat (fa_used fa) \<le> unat p \<and>
     unat p + unat sz \<le> unat (fa_base fa) + unat (fa_capacity fa)"

fun block_before :: "u64 \<times> u64 \<times> u64 \<Rightarrow> u64 \<times> u64 \<times> u64 \<Rightarrow> bool" where
  "block_before (p, sz, _) (q, _) \<longleftrightarrow> unat p + unat sz \<le> unat q"

lemma frame_next_ge: "unat align > 0 \<Longrightarrow> unat (fa_base fa) + unat (fa_used fa) \<le> frame_next align fa"
  unfolding frame_next_def by (rule round_up_bounds)

lemma frame_run_blocks:
  assumes "frame_inv fa" "list_all frame_request rs"
  shows "list_all (block_in fa) (frame_run rs fa) \<and> sorted_wrt block_before (frame_run rs fa)"
  using assms
proof (induction rs arbitrary: fa)
  case (Cons r rs)
  obtain sz align where r: "r = (sz, align)" by (cases r)
  have q: "frame_request (sz, align)" "list_all frame_request rs" using Cons.prems(2) r by simp_all
  have pos: "0 < unat align" using q(1) unat_two_pow by (auto simp: frame_request_def)
  note c = frame_alloc_cases [OF Cons.prems(1) q(1)]
  show ?case
  proof (cases "frame_next align fa + unat sz \<le> unat (fa_base fa) + unat (fa_capacity fa)")
    case True
    then obtain p fa' where a: "frame_alloc sz align fa = (Some p, fa')" "unat p = frame_next align fa"
      "fa_base fa' = fa_base fa" "fa_capacity fa' = fa_capacity fa"
      "unat (fa_base fa) + unat (fa_used fa') = unat p + unat sz" "frame_inv fa'"
      using c by auto
    have ih: "list_all (block_in fa') (frame_run rs fa')" "sorted_wrt block_before (frame_run rs fa')"
      using Cons.IH [OF a(6) q(2)] by simp_all
    have d: "unat align dvd unat p" unfolding a(2) frame_next_def by (rule round_up_dvd)
    have "list_all (block_in fa) (frame_run rs fa')"
      using ih(1) by (rule list.pred_mono_strong) (use a frame_next_ge [OF pos, of fa] in auto)
    moreover have "list_all (block_before (p, sz, align)) (frame_run rs fa')"
      using ih(1) by (rule list.pred_mono_strong) (use a in auto)
    moreover have "block_in fa (p, sz, align)" using d a(2) True frame_next_ge [OF pos, of fa] by simp
    ultimately show ?thesis using ih(2) a(1) by (simp add: r list_all_iff)
  next
    case False
    then have "frame_alloc sz align fa = (None, fa)" using c by simp
    then show ?thesis using Cons.IH [OF Cons.prems(1) q(2)] by (simp add: r)
  qed
qed simp

text \<open>Whatever is asked of a session's allocator, every block it hands out is aligned as requested,
  lies inside the region given to it, behind what was in use, and the blocks follow each other
  without overlap.\<close>
theorem frame_blocks_exclusive:
  assumes "frame_inv fa" "list_all frame_request rs"
  shows "list_all (block_in fa) (frame_run rs fa) \<and> sorted_wrt block_before (frame_run rs fa)"
  using assms by (rule frame_run_blocks)

lemma frame_request_small: "unat sz < 2 ^ 62 \<Longrightarrow> frame_request (sz, 16)"
  unfolding frame_request_def fst_conv snd_conv by (intro conjI exI [of _ 4]) simp_all

theorem frame_blocks_exclusive_witness:
  "list_all (block_in (frame_new 4096 256)) (frame_run [(10, 16), (200, 16), (64, 16)] (frame_new 4096 256)) \<and>
   sorted_wrt block_before (frame_run [(10, 16), (200, 16), (64, 16)] (frame_new 4096 256)) \<and>
   frame_run [(10, 16), (200, 16), (64, 16)] (frame_new 4096 256) = [(4096, 10, 16), (4112, 200, 16)]"
proof -
  have i: "frame_inv (frame_new 4096 256)" by (rule frame_inv_new) simp
  have r: "list_all frame_request [(10, 16), (200, 16), (64, 16)]" by (simp add: frame_request_small)
  have "frame_run [(10, 16), (200, 16), (64, 16)] (frame_new 4096 256) = [(4096, 10, 16), (4112, 200, 16)]" by code_simp
  with frame_blocks_exclusive [OF i r] show ?thesis by simp
qed

text \<open>The sum of the offset and the size is not checked against wrapping: a request for
  \<open>2 ^ 64 - used\<close> bytes succeeds, at the cursor, and puts the cursor back to the start of the
  region, so that the next blocks overlap the ones in use.\<close>
theorem frame_alloc_wraps:
  "frame_alloc (- fa_used fa) 1 fa = (Some (fa_base fa + fa_used fa), frame_reset fa)"
  by (simp add: frame_alloc_def frame_reset_def Let_def)

end
