(* ===== verification/Penalty.thy ===== *)
theory Penalty
  imports Frame_Allocator
begin

text \<open>
  The repetition penalties of a session in \<open>src/src/inference/session.cpp\<close>: a window of the last
  tokens, kept as a ring, and a table with the number of times each token of the vocabulary occurs
  in it. Floats are their 32 bits; the code only compares them with 1 and with 0. \<open>junk\<close> is what
  memory holds that has been allocated and not written.
\<close>

type_synonym i32 = "32 word"

record sampler_config =
  temperature :: u32
  top_k :: u32
  top_p :: u32
  min_p :: u32
  typical_p :: u32
  repeat_penalty :: u32
  repeat_last_n :: i32
  penalize_nl :: u8
  presence_penalty :: u32
  frequency_penalty :: u32
  mirostat :: u32
  mirostat_tau :: u32
  mirostat_eta :: u32
  seed :: u32

record penalty_state =
  sampler_cfg :: sampler_config
  allocator :: frame_allocator
  vocab_size :: u32
  ctx_size :: u32
  token_counts :: "u16 list option"
  token_counts_base :: "u16 list option"
  recent_tokens :: "u32 list option"
  recent_capacity :: u32
  recent_pos :: u32
  recent_size :: u32
  token_nl :: i32

section \<open>The operations\<close>

definition clamp_repeat_last_n :: "i32 \<Rightarrow> u32 \<Rightarrow> u32" where
  "clamp_repeat_last_n v ctx = (if v = 0 then 0 else if sint v < 0 then ctx else v)"

definition sampler_needs_counts :: "sampler_config \<Rightarrow> bool" where
  "sampler_needs_counts cfg \<longleftrightarrow>
     repeat_penalty cfg \<noteq> 0x3F800000 \<or> presence_penalty cfg AND 0x7FFFFFFF \<noteq> 0 \<or>
     frequency_penalty cfg AND 0x7FFFFFFF \<noteq> 0"

definition zero_counts :: "penalty_state \<Rightarrow> u16 list" where
  "zero_counts p = replicate (unat (vocab_size p)) 0"

definition ensure_counts :: "penalty_state \<Rightarrow> astral_err \<times> penalty_state" where
  "ensure_counts p =
     (if token_counts p = None then
        (case frame_alloc (ucast (vocab_size p) * 2) 2 (allocator p) of
           (None, fa) \<Rightarrow> (ASTRAL_E_NOMEM, p)
         | (Some _, fa) \<Rightarrow> (ASTRAL_OK, p\<lparr>allocator := fa, token_counts := Some (zero_counts p)\<rparr>))
      else (ASTRAL_OK, p))"

definition ensure_window :: "(nat \<Rightarrow> u32) \<Rightarrow> u32 \<Rightarrow> penalty_state \<Rightarrow> astral_err \<times> penalty_state" where
  "ensure_window junk n p =
     (if recent_capacity p \<noteq> n \<or> recent_tokens p = None then
        (case frame_alloc (ucast n * 4) 4 (allocator p) of
           (None, fa) \<Rightarrow> (ASTRAL_E_NOMEM, p)
         | (Some _, fa) \<Rightarrow>
             (ASTRAL_OK,
              p\<lparr>allocator := fa,
                token_counts := (if recent_size p \<noteq> 0 then Some (zero_counts p) else token_counts p),
                recent_tokens := Some (map junk [0..<unat n]),
                recent_capacity := n, recent_pos := 0, recent_size := 0\<rparr>))
      else (ASTRAL_OK, p))"

text \<open>\<open>nl\<close> is the backend's answer to tokenizing a newline: status, number of tokens and the token.\<close>

definition resolve_nl :: "(astral_err \<times> u32 \<times> i32) option \<Rightarrow> penalty_state \<Rightarrow> penalty_state" where
  "resolve_nl nl p =
     (if penalize_nl (sampler_cfg p) \<noteq> 0 \<and> sint (token_nl p) < 0 then
        (case nl of
           None \<Rightarrow> p
         | Some (err, out_count, tok) \<Rightarrow>
             p\<lparr>token_nl := (if err = ASTRAL_OK \<and> out_count = 1 then tok else -1)\<rparr>)
      else p)"

definition ensure_penalty_state ::
  "(nat \<Rightarrow> u32) \<Rightarrow> (astral_err \<times> u32 \<times> i32) option \<Rightarrow> penalty_state \<Rightarrow> astral_err \<times> penalty_state" where
  "ensure_penalty_state junk nl p =
     (if \<not> sampler_needs_counts (sampler_cfg p) then (ASTRAL_OK, p)
      else
        let ctx = (if ctx_size p \<noteq> 0 then ctx_size p else 2048);
            n = clamp_repeat_last_n (repeat_last_n (sampler_cfg p)) ctx
        in if n \<noteq> 0 then
             (case ensure_counts p of
                (err, p1) \<Rightarrow>
                  if err \<noteq> ASTRAL_OK then (err, p1)
                  else
                    (case ensure_window junk n p1 of
                       (err, p2) \<Rightarrow> if err \<noteq> ASTRAL_OK then (err, p2) else (ASTRAL_OK, resolve_nl nl p2)))
           else (ASTRAL_OK, resolve_nl nl p))"

definition penalty_state_clear :: "penalty_state \<Rightarrow> penalty_state" where
  "penalty_state_clear p =
     (if token_counts p = None \<or> recent_size p = 0 then p
      else p\<lparr>token_counts := Some (zero_counts p), recent_pos := 0, recent_size := 0\<rparr>)"

definition count_down :: "u32 \<Rightarrow> u16 list \<Rightarrow> u16 list" where
  "count_down t c = (if c ! unat t > 0 then c[unat t := c ! unat t - 1] else c)"

definition count_up :: "u32 \<Rightarrow> u16 list \<Rightarrow> u16 list" where
  "count_up t c = (if c ! unat t \<noteq> 0xFFFF then c[unat t := c ! unat t + 1] else c)"

definition penalty_state_push :: "u32 \<Rightarrow> penalty_state \<Rightarrow> penalty_state" where
  "penalty_state_push token_id p =
     (case (token_counts p, recent_tokens p) of
        (Some c, Some r) \<Rightarrow>
          if recent_capacity p = 0 then p
          else if token_id \<ge> vocab_size p then p
          else
            let full = (recent_size p = recent_capacity p);
                old = r ! unat (recent_pos p)
            in p\<lparr>token_counts := Some (count_up token_id (if full \<and> old < vocab_size p then count_down old c else c)),
                 recent_tokens := Some (r[unat (recent_pos p) := token_id]),
                 recent_pos := (recent_pos p + 1) mod recent_capacity p,
                 recent_size := (if full then recent_size p else recent_size p + 1)\<rparr>
      | _ \<Rightarrow> p)"

text \<open>The start of a decode: the window is cleared and filled with the tokens of the prompt.\<close>

definition push_tokens :: "i32 list \<Rightarrow> penalty_state \<Rightarrow> penalty_state" where
  "push_tokens ts p = fold (\<lambda>t p. if sint t \<ge> 0 then penalty_state_push t p else p) ts p"

definition penalty_from_prompt ::
  "(nat \<Rightarrow> u32) \<Rightarrow> (astral_err \<times> u32 \<times> i32) option \<Rightarrow> i32 list \<Rightarrow> penalty_state \<Rightarrow> penalty_state" where
  "penalty_from_prompt junk nl prompt p =
     (case ensure_penalty_state junk nl p of
        (err, p1) \<Rightarrow> if err = ASTRAL_OK then push_tokens prompt (penalty_state_clear p1) else p1)"

section \<open>Fixed counts\<close>

definition base_count :: "u32 \<Rightarrow> i32 \<Rightarrow> u16 list \<Rightarrow> u16 list" where
  "base_count vocab t c = (if sint t < 0 then c else if t \<ge> vocab then c else count_up t c)"

definition set_base_counts ::
  "(nat \<Rightarrow> u32) \<Rightarrow> (astral_err \<times> u32 \<times> i32) option \<Rightarrow> i32 list \<Rightarrow> penalty_state \<Rightarrow> astral_err \<times> penalty_state" where
  "set_base_counts junk nl tokens p =
     (case (if token_counts_base p = None then frame_alloc (ucast (vocab_size p) * 2) 2 (allocator p)
            else (Some 0, allocator p)) of
        (None, fa) \<Rightarrow> (ASTRAL_E_NOMEM, p)
      | (Some _, fa) \<Rightarrow>
          ensure_penalty_state junk nl
            (p\<lparr>allocator := fa, token_counts_base := Some (fold (base_count (vocab_size p)) tokens (zero_counts p))\<rparr>))"

section \<open>The table counts the window\<close>

definition occurrences :: "u32 list \<Rightarrow> nat \<Rightarrow> nat" where
  "occurrences ts v = length (filter (\<lambda>t. unat t = v) ts)"

definition counts_of :: "nat \<Rightarrow> u32 list \<Rightarrow> u16 list" where
  "counts_of n ts = map (\<lambda>v. of_nat (occurrences ts v)) [0..<n]"

lemma length_counts_of [simp]: "length (counts_of n ts) = n"
  by (simp add: counts_of_def)

lemma occurrences_le: "occurrences ts v \<le> length ts"
  by (simp add: occurrences_def)

lemma occurrences_simps [simp]:
  "occurrences [] v = 0"
  "occurrences (t # ts) v = (if unat t = v then Suc (occurrences ts v) else occurrences ts v)"
  "occurrences (xs @ ys) v = occurrences xs v + occurrences ys v"
  by (simp_all add: occurrences_def)

lemma of_nat_u16_eq:
  assumes b: "m < 65536" "n < 65536"
  shows "(of_nat m :: u16) = of_nat n \<longleftrightarrow> m = n"
proof
  assume e: "(of_nat m :: u16) = of_nat n"
  have "unat (of_nat m :: u16) = unat (of_nat n :: u16)" by (rule arg_cong [OF e])
  then have "m mod 2 ^ LENGTH(16) = n mod 2 ^ LENGTH(16)" by (simp only: unat_of_nat)
  then show "m = n" using b by (simp add: mod_less)
qed (rule arg_cong)

lemma counts_of_Nil: "counts_of n [] = replicate n 0"
  by (simp add: counts_of_def map_replicate_trivial [symmetric])

lemma count_up_counts:
  assumes "unat t < n" "length ts < 0xFFFF"
  shows "count_up t (counts_of n ts) = counts_of n (ts @ [t])"
proof -
  have "occurrences ts (unat t) < 0xFFFF" using occurrences_le [of ts "unat t"] assms(2) by simp
  then have "(of_nat (occurrences ts (unat t)) :: u16) \<noteq> of_nat 0xFFFF" by (subst of_nat_u16_eq) simp_all
  then have g: "counts_of n ts ! unat t \<noteq> 0xFFFF" using assms(1) by (simp add: counts_of_def)
  show ?thesis unfolding count_up_def if_P [OF g]
    by (rule nth_equalityI) (use assms in \<open>auto simp: counts_of_def nth_list_update add.commute\<close>)
qed

lemma count_down_counts:
  assumes "unat t < n" "length ts < 0xFFFF"
  shows "count_down t (counts_of n (t # ts)) = counts_of n ts"
proof -
  have "Suc (occurrences ts (unat t)) < 65536" using occurrences_le [of ts "unat t"] assms(2) by simp
  then have "(of_nat (Suc (occurrences ts (unat t))) :: u16) \<noteq> of_nat 0" by (subst of_nat_u16_eq) simp_all
  then have g: "counts_of n (t # ts) ! unat t > 0" using assms(1) by (simp add: counts_of_def word_gt_0)
  show ?thesis unfolding count_down_def if_P [OF g]
    by (rule nth_equalityI) (use assms in \<open>auto simp: counts_of_def nth_list_update\<close>)
qed

text \<open>The window, oldest token first.\<close>

definition ring_window :: "'a list \<Rightarrow> nat \<Rightarrow> nat \<Rightarrow> 'a list" where
  "ring_window r pos sz = (if sz = length r then drop pos r @ take pos r else take sz r)"

lemma ring_window_push_full:
  assumes "pos < length r"
  shows "ring_window (r[pos := t]) ((pos + 1) mod length r) (length r) = tl (ring_window r pos (length r)) @ [t]"
proof -
  have d: "drop pos r = r ! pos # drop (Suc pos) r" using assms by (simp add: Cons_nth_drop_Suc)
  have k: "take (Suc pos) (r[pos := t]) = take pos r @ [t]" using assms by (simp add: take_Suc_conv_app_nth)
  show ?thesis
  proof (cases "Suc pos = length r")
    case True
    then have "r[pos := t] = take pos r @ [t]" using k by simp
    then show ?thesis using True d by (simp add: ring_window_def)
  next
    case False
    then have "(pos + 1) mod length r = Suc pos" using assms by simp
    then show ?thesis using k d by (simp add: ring_window_def)
  qed
qed

lemma ring_window_push_room:
  assumes "sz < length r"
  shows "ring_window (r[sz := t]) ((sz + 1) mod length r) (Suc sz) = ring_window r sz sz @ [t]"
proof -
  have k: "take (Suc sz) (r[sz := t]) = take sz r @ [t]" using assms by (simp add: take_Suc_conv_app_nth)
  show ?thesis
  proof (cases "Suc sz = length r")
    case True
    then have "r[sz := t] = take sz r @ [t]" using k by simp
    then show ?thesis using True assms by (simp add: ring_window_def)
  qed (use k assms in \<open>simp add: ring_window_def\<close>)
qed

definition recent :: "penalty_state \<Rightarrow> u32 list" where
  "recent p = (case recent_tokens p of None \<Rightarrow> [] | Some r \<Rightarrow> ring_window r (unat (recent_pos p)) (unat (recent_size p)))"

definition penalty_exact :: "penalty_state \<Rightarrow> bool" where
  "penalty_exact p \<longleftrightarrow>
     recent_capacity p \<noteq> 0 \<and> recent_capacity p \<le> 0xFFFF \<and>
     (\<exists>r. recent_tokens p = Some r \<and> length r = unat (recent_capacity p)) \<and>
     recent_pos p < recent_capacity p \<and> recent_size p \<le> recent_capacity p \<and>
     (recent_size p < recent_capacity p \<longrightarrow> recent_pos p = recent_size p) \<and>
     list_all (\<lambda>t. t < vocab_size p) (recent p) \<and>
     token_counts p = Some (counts_of (unat (vocab_size p)) (recent p))"

lemma length_recent:
  assumes "penalty_exact p"
  shows "length (recent p) = unat (recent_size p)"
proof -
  obtain r where r: "recent_tokens p = Some r" "length r = unat (recent_capacity p)"
    using assms by (auto simp: penalty_exact_def)
  moreover have "unat (recent_pos p) < length r" "unat (recent_size p) \<le> length r"
    using assms r by (simp_all add: penalty_exact_def word_less_nat_alt word_le_nat_alt)
  ultimately show ?thesis by (auto simp: recent_def ring_window_def)
qed

lemma unat_next_pos:
  assumes "(pos :: u32) < cap"
  shows "unat ((pos + 1) mod cap) = (unat pos + 1) mod unat cap"
proof -
  have "unat cap < 2 ^ LENGTH(32)" by (rule unsigned_less)
  then have "unat (pos + 1) = unat pos + 1"
    using assms by (simp add: unat_word_ariths(1) word_less_nat_alt)
  then show ?thesis by (simp add: unat_mod)
qed

lemma penalty_push_exact:
  assumes "penalty_exact p" "t < vocab_size p"
  defines "q \<equiv> penalty_state_push t p"
  shows "penalty_exact q \<and> vocab_size q = vocab_size p \<and> recent_capacity q = recent_capacity p \<and>
    recent q = (if length (recent p) = unat (recent_capacity p) then tl (recent p) else recent p) @ [t]"
proof -
  let ?n = "unat (recent_capacity p)" and ?v = "unat (vocab_size p)" and ?w = "recent p"
  obtain r where r: "recent_tokens p = Some r" "length r = ?n" using assms(1) by (auto simp: penalty_exact_def)
  have c0: "recent_capacity p \<noteq> 0" and tc: "token_counts p = Some (counts_of ?v ?w)"
    and pc: "recent_pos p < recent_capacity p" and pp: "unat (recent_pos p) < length r"
    and sl: "unat (recent_size p) \<le> ?n"
    and nb: "?n \<le> 0xFFFF" and wv: "list_all (\<lambda>t. t < vocab_size p) ?w"
    and ps: "recent_size p < recent_capacity p \<longrightarrow> recent_pos p = recent_size p"
    using assms(1) r by (auto simp: penalty_exact_def word_less_nat_alt word_le_nat_alt)
  have tv: "unat t < ?v" "\<not> t \<ge> vocab_size p" using assms(2) by (simp_all add: word_less_nat_alt not_le)
  have np: "unat ((recent_pos p + 1) mod recent_capacity p) = (unat (recent_pos p) + 1) mod ?n"
    by (rule unat_next_pos [OF pc])
  have np': "(recent_pos p + 1) mod recent_capacity p < recent_capacity p"
    using np c0 by (simp add: word_less_nat_alt unat_gt_0)
  have w: "?w = ring_window r (unat (recent_pos p)) (unat (recent_size p))" by (simp add: recent_def r(1))
  note lw = length_recent [OF assms(1)]
  note pq = q_def [unfolded penalty_state_push_def tc r(1) prod.case option.case if_not_P [OF c0] if_not_P [OF tv(2)] Let_def]
  show ?thesis
  proof (cases "recent_size p = recent_capacity p")
    case True
    have ol: "r ! unat (recent_pos p) = hd ?w" "?w \<noteq> []"
      using pp r(2) True unfolding w ring_window_def by (auto simp: hd_drop_conv_nth)
    then obtain old w' where ow: "?w = old # w'" by (cases ?w) auto
    then have lw': "length w' < 0xFFFF" using lw sl nb by simp
    have ov: "old < vocab_size p" "unat old < ?v" using wv ow by (simp_all add: word_less_nat_alt)
    have cd: "count_up t (count_down old (counts_of ?v ?w)) = counts_of ?v (w' @ [t])"
      unfolding ow count_down_counts [OF ov(2) lw'] by (rule count_up_counts [OF tv(1) lw'])
    have q: "q = p\<lparr>token_counts := Some (counts_of ?v (w' @ [t])), recent_tokens := Some (r[unat (recent_pos p) := t]),
        recent_pos := (recent_pos p + 1) mod recent_capacity p, recent_size := recent_size p\<rparr>"
      using True ov(1) ol(1) cd ow unfolding pq by simp
    have "ring_window (r[unat (recent_pos p) := t]) (unat ((recent_pos p + 1) mod recent_capacity p)) ?n = tl ?w @ [t]"
      using ring_window_push_full [OF pp, of t] by (simp add: w True np r(2))
    then have rq: "recent q = w' @ [t]" using ow by (simp add: q True recent_def [of "p\<lparr>token_counts := _, recent_tokens := _, recent_pos := _, recent_size := _\<rparr>"])
    have "penalty_exact q" unfolding penalty_exact_def rq
      using c0 nb np' wv ow tv True r(2) assms(2) by (simp add: q word_le_nat_alt)
    then show ?thesis using rq ow lw True by (simp add: q)
  next
    case False
    then have sc: "recent_size p < recent_capacity p" using assms(1) by (auto simp: penalty_exact_def)
    then have po: "recent_pos p = recent_size p" using ps by simp
    have sn: "unat (recent_size p) < ?n" using sc by (simp add: word_less_nat_alt)
    have us: "unat (recent_size p + 1) = Suc (unat (recent_size p))"
      using sn nb by (simp add: unat_word_ariths(1))
    have cu: "count_up t (counts_of ?v ?w) = counts_of ?v (?w @ [t])"
      by (rule count_up_counts [OF tv(1)]) (use lw sn nb in simp)
    have q: "q = p\<lparr>token_counts := Some (counts_of ?v (?w @ [t])), recent_tokens := Some (r[unat (recent_pos p) := t]),
        recent_pos := (recent_pos p + 1) mod recent_capacity p, recent_size := recent_size p + 1\<rparr>"
      using False cu unfolding pq by simp
    have "ring_window (r[unat (recent_size p) := t]) ((unat (recent_size p) + 1) mod length r) (Suc (unat (recent_size p))) =
        ?w @ [t]"
      unfolding w po by (rule ring_window_push_room) (use sn r(2) in simp)
    then have rq: "recent q = ?w @ [t]" using np r(2) by (simp add: q recent_def po us)
    have l: "recent_size p + 1 < recent_capacity p \<longrightarrow> (recent_pos p + 1) mod recent_capacity p = recent_size p + 1"
    proof
      assume "recent_size p + 1 < recent_capacity p"
      then have "Suc (unat (recent_size p)) < ?n" using us by (simp add: word_less_nat_alt)
      then show "(recent_pos p + 1) mod recent_capacity p = recent_size p + 1"
        using np us po by (intro unat_eqI) simp
    qed
    have "penalty_exact q" unfolding penalty_exact_def rq
      using c0 nb np' wv tv l r(2) us sn assms(2) by (simp add: q word_le_nat_alt)
    then show ?thesis using rq lw sn by (simp add: q)
  qed
qed

text \<open>The state between calls: without a window nothing is counted, an empty window has an empty
  table, and a window of at most 65535 tokens is counted exactly.\<close>

definition penalty_inv :: "penalty_state \<Rightarrow> bool" where
  "penalty_inv p \<longleftrightarrow>
     (recent_tokens p = None \<longrightarrow> recent_size p = 0) \<and>
     (recent_size p = 0 \<longrightarrow> token_counts p = None \<or> token_counts p = Some (zero_counts p)) \<and>
     (recent_tokens p \<noteq> None \<and> recent_capacity p \<le> 0xFFFF \<longrightarrow> penalty_exact p)"

lemma penalty_inv_fresh:
  "token_counts p = None \<Longrightarrow> recent_tokens p = None \<Longrightarrow> recent_size p = 0 \<Longrightarrow> penalty_inv p"
  by (simp add: penalty_inv_def)

definition last_n :: "nat \<Rightarrow> 'a list \<Rightarrow> 'a list" where
  "last_n n xs = drop (length xs - n) xs"

lemma last_n_last_n: "last_n n (last_n n xs @ ys) = last_n n (xs @ ys)"
proof (cases "length xs \<le> n")
  case False
  then have "length ys + n - n = length ys" "length xs + length ys - n - length ys = length xs - n" by simp_all
  then show ?thesis using False by (simp add: last_n_def add.commute)
qed (simp add: last_n_def)

lemma last_n_snoc: "length w \<le> n \<Longrightarrow> last_n n (w @ [t]) = (if length w = n then tl w else w) @ [t]" if "0 < n"
  using that by (cases w) (auto simp: last_n_def Suc_diff_le not_less_eq_eq)

lemma penalty_push_recent:
  assumes "penalty_exact p" "t < vocab_size p"
  shows "recent (penalty_state_push t p) = last_n (unat (recent_capacity p)) (recent p @ [t])"
proof -
  have "0 < unat (recent_capacity p)" "length (recent p) \<le> unat (recent_capacity p)"
    using assms(1) length_recent [OF assms(1)] by (simp_all add: penalty_exact_def unat_gt_0 word_le_nat_alt)
  then show ?thesis using penalty_push_exact [OF assms] by (simp add: last_n_snoc)
qed

lemma penalty_push_outside: "\<not> t < vocab_size p \<Longrightarrow> penalty_state_push t p = p"
  by (simp add: penalty_state_push_def split: option.splits)

text \<open>The tokens that are counted.\<close>

definition counted :: "u32 \<Rightarrow> i32 list \<Rightarrow> u32 list" where
  "counted vocab ts = filter (\<lambda>t. sint t \<ge> 0 \<and> t < vocab) ts"

lemma push_tokens_exact:
  assumes "penalty_exact p"
  shows "penalty_exact (push_tokens ts p) \<and> vocab_size (push_tokens ts p) = vocab_size p \<and>
    recent_capacity (push_tokens ts p) = recent_capacity p \<and>
    recent (push_tokens ts p) = last_n (unat (recent_capacity p)) (recent p @ counted (vocab_size p) ts)"
  using assms
proof (induction ts arbitrary: p)
  case Nil
  have "length (recent p) \<le> unat (recent_capacity p)"
    using Nil length_recent [OF Nil] by (simp add: penalty_exact_def word_le_nat_alt)
  then show ?case using Nil by (simp add: push_tokens_def counted_def last_n_def)
next
  case (Cons t ts)
  show ?case
  proof (cases "sint t \<ge> 0 \<and> t < vocab_size p")
    case True
    let ?q = "penalty_state_push t p"
    have q: "penalty_exact ?q" "vocab_size ?q = vocab_size p" "recent_capacity ?q = recent_capacity p"
      using penalty_push_exact [OF Cons.prems, of t] True by simp_all
    have r: "recent ?q = last_n (unat (recent_capacity p)) (recent p @ [t])"
      by (rule penalty_push_recent [OF Cons.prems]) (use True in simp)
    have e: "push_tokens (t # ts) p = push_tokens ts ?q" using True by (simp add: push_tokens_def)
    have c: "counted (vocab_size p) (t # ts) = t # counted (vocab_size p) ts" using True by (simp add: counted_def)
    show ?thesis using Cons.IH [OF q(1)] unfolding e c q(2,3) r last_n_last_n by simp
  next
    case False
    then have e: "push_tokens (t # ts) p = push_tokens ts p"
      by (auto simp: push_tokens_def penalty_push_outside)
    have c: "counted (vocab_size p) (t # ts) = counted (vocab_size p) ts" using False by (auto simp: counted_def)
    show ?thesis using Cons.IH [OF Cons.prems] unfolding e c .
  qed
qed

lemma resolve_nl_exact [simp]:
  "recent (resolve_nl nl p) = recent p" "vocab_size (resolve_nl nl p) = vocab_size p"
  "recent_capacity (resolve_nl nl p) = recent_capacity p" "token_counts (resolve_nl nl p) = token_counts p"
  "recent_tokens (resolve_nl nl p) = recent_tokens p" "recent_size (resolve_nl nl p) = recent_size p"
  "recent_pos (resolve_nl nl p) = recent_pos p" "zero_counts (resolve_nl nl p) = zero_counts p"
  by (auto simp: resolve_nl_def recent_def zero_counts_def split: option.splits)

lemma zero_counts_of: "zero_counts p = counts_of (unat (vocab_size p)) []"
  by (simp add: zero_counts_def counts_of_Nil)

definition window_size :: "penalty_state \<Rightarrow> u32" where
  "window_size p = clamp_repeat_last_n (repeat_last_n (sampler_cfg p)) (if ctx_size p \<noteq> 0 then ctx_size p else 2048)"

lemma ensure_counts_keeps:
  assumes "ensure_counts p = (ASTRAL_OK, q)" "penalty_inv p"
  shows "penalty_inv q" "token_counts q \<noteq> None" "vocab_size q = vocab_size p"
    "recent_size q = recent_size p" "recent_capacity q = recent_capacity p"
proof -
  have "penalty_inv q \<and> token_counts q \<noteq> None \<and> vocab_size q = vocab_size p \<and> recent_size q = recent_size p \<and>
      recent_capacity q = recent_capacity p"
  proof (cases "token_counts p = None")
    case True
    then obtain fa where q: "q = p\<lparr>allocator := fa, token_counts := Some (zero_counts p)\<rparr>"
      using assms(1) by (auto simp: ensure_counts_def split: prod.splits option.splits)
    have "recent_tokens p = None \<or> \<not> recent_capacity p \<le> 0xFFFF"
      using assms(2) True by (auto simp: penalty_inv_def penalty_exact_def)
    then show ?thesis using assms(2) True by (auto simp: q penalty_inv_def zero_counts_def)
  next
    case False
    then have "q = p" using assms(1) by (auto simp: ensure_counts_def)
    then show ?thesis using False assms(2) by simp
  qed
  then show "penalty_inv q" "token_counts q \<noteq> None" "vocab_size q = vocab_size p"
    "recent_size q = recent_size p" "recent_capacity q = recent_capacity p" by simp_all
qed

lemma ensure_window_exact:
  assumes "ensure_window junk n p = (ASTRAL_OK, q)" "penalty_inv p" "token_counts p \<noteq> None" "n \<noteq> 0" "n \<le> 0xFFFF"
  shows "penalty_exact q" "vocab_size q = vocab_size p" "recent_capacity q = n"
proof -
  have "penalty_exact q \<and> vocab_size q = vocab_size p \<and> recent_capacity q = n"
  proof (cases "recent_capacity p \<noteq> n \<or> recent_tokens p = None")
    case True
    then obtain fa where q: "q = p\<lparr>allocator := fa,
        token_counts := (if recent_size p \<noteq> 0 then Some (zero_counts p) else token_counts p),
        recent_tokens := Some (map junk [0..<unat n]), recent_capacity := n, recent_pos := 0, recent_size := 0\<rparr>"
      using assms(1) by (auto simp: ensure_window_def split: prod.splits option.splits)
    have z: "(if recent_size p \<noteq> 0 then Some (zero_counts p) else token_counts p) = Some (zero_counts p)"
      using assms(2,3) by (auto simp: penalty_inv_def)
    have "0 < unat n" using assms(4) by (simp add: unat_gt_0)
    then have r: "recent q = []" by (simp add: q recent_def ring_window_def)
    have "penalty_exact q" unfolding penalty_exact_def r
      using assms(4,5) z by (simp add: q zero_counts_of word_gt_0)
    then show ?thesis by (simp add: q)
  next
    case False
    then have "q = p" using assms(1) by (auto simp: ensure_window_def)
    moreover have "penalty_exact p" using False assms(2,5) by (simp add: penalty_inv_def)
    ultimately show ?thesis using False by simp
  qed
  then show "penalty_exact q" "vocab_size q = vocab_size p" "recent_capacity q = n" by simp_all
qed

lemma penalty_exact_resolve_nl: "penalty_exact p \<Longrightarrow> penalty_exact (resolve_nl nl p)"
  by (simp add: penalty_exact_def)

lemma ensure_penalty_exact:
  assumes "ensure_penalty_state junk nl p = (ASTRAL_OK, q)" "penalty_inv p"
    "sampler_needs_counts (sampler_cfg p)" "window_size p \<noteq> 0" "window_size p \<le> 0xFFFF"
  shows "penalty_exact q" "vocab_size q = vocab_size p" "recent_capacity q = window_size p"
proof -
  obtain err p1 where c: "ensure_counts p = (err, p1)" by fastforce
  note e = assms(1) [unfolded ensure_penalty_state_def Let_def window_size_def [symmetric] c prod.case,
      unfolded if_not_P [of "\<not> sampler_needs_counts (sampler_cfg p)", unfolded not_not, OF assms(3)] if_P [OF assms(4)]]
  have ok: "err = ASTRAL_OK" using e by (simp split: if_splits)
  obtain err' p2 where w: "ensure_window junk (window_size p) p1 = (err', p2)" by fastforce
  have ok': "err' = ASTRAL_OK" "q = resolve_nl nl p2" using e ok w by (auto split: if_splits)
  note k = ensure_counts_keeps [OF c [unfolded ok] assms(2)]
  note x = ensure_window_exact [OF w [unfolded ok'] k(1,2) assms(4,5)]
  show "penalty_exact q" "vocab_size q = vocab_size p" "recent_capacity q = window_size p"
    using x k ok'(2) by (simp_all add: penalty_exact_resolve_nl)
qed

lemma penalty_clear_exact:
  assumes "penalty_exact p"
  shows "penalty_exact (penalty_state_clear p)" "recent (penalty_state_clear p) = []"
    "vocab_size (penalty_state_clear p) = vocab_size p" "recent_capacity (penalty_state_clear p) = recent_capacity p"
proof -
  obtain r where r: "recent_tokens p = Some r" "length r = unat (recent_capacity p)"
    using assms by (auto simp: penalty_exact_def)
  have "0 < unat (recent_capacity p)" using assms by (simp add: penalty_exact_def unat_gt_0)
  note pos = this
  then have "r \<noteq> []" using r(2) by auto
  have w: "recent (penalty_state_clear p) = []"
    using assms r pos \<open>r \<noteq> []\<close> length_recent [OF assms] by (auto simp: penalty_state_clear_def recent_def ring_window_def penalty_exact_def)
  show "recent (penalty_state_clear p) = []" by (rule w)
  show "vocab_size (penalty_state_clear p) = vocab_size p" "recent_capacity (penalty_state_clear p) = recent_capacity p"
    by (simp_all add: penalty_state_clear_def)
  have z: "recent p = []" if "recent_size p = 0" using length_recent [OF assms] that by simp
  show "penalty_exact (penalty_state_clear p)"
    using assms r(1,2) w z unfolding penalty_exact_def [of "penalty_state_clear p"] w
    by (auto simp: penalty_state_clear_def penalty_exact_def zero_counts_of word_gt_0)
qed

lemma prompt_exact:
  fixes prompt generated :: "i32 list"
  assumes "penalty_inv p" "sampler_needs_counts (sampler_cfg p)" "window_size p \<noteq> 0" "window_size p \<le> 0xFFFF"
    "fst (ensure_penalty_state junk nl p) = ASTRAL_OK"
  defines "q \<equiv> push_tokens generated (penalty_from_prompt junk nl prompt p)"
  shows "penalty_exact q" "vocab_size q = vocab_size p"
    "recent q = last_n (unat (window_size p)) (counted (vocab_size p) (prompt @ generated))"
proof -
  obtain p1 where e: "ensure_penalty_state junk nl p = (ASTRAL_OK, p1)"
    using assms(5) by (cases "ensure_penalty_state junk nl p") simp
  note x = ensure_penalty_exact [OF e assms(1-4)]
  note c = penalty_clear_exact [OF x(1)]
  have "push_tokens generated (push_tokens prompt p') = push_tokens (prompt @ generated) p'" for p'
    by (simp add: push_tokens_def)
  then have q: "q = push_tokens (prompt @ generated) (penalty_state_clear p1)"
    by (simp add: q_def penalty_from_prompt_def e)
  show "penalty_exact q" "vocab_size q = vocab_size p"
    "recent q = last_n (unat (window_size p)) (counted (vocab_size p) (prompt @ generated))"
    using push_tokens_exact [OF c(1), of "prompt @ generated"] c x by (simp_all add: q)
qed

text \<open>C33: After the start of a decode and any number of generated tokens, the table of counts holds,
  for every token of the vocabulary, how often it occurs among the last \<open>repeat_last_n\<close> tokens of
  the prompt and the generated text. A window of more than 65535 tokens is left out: there the
  16-bit counters saturate and are then decremented below the true count.\<close>
theorem penalty_counts_recent_tokens:
  assumes "penalty_inv p" "sampler_needs_counts (sampler_cfg p)" "window_size p \<noteq> 0" "window_size p \<le> 0xFFFF"
    "fst (ensure_penalty_state junk nl p) = ASTRAL_OK"
  shows "token_counts (push_tokens generated (penalty_from_prompt junk nl prompt p)) =
    Some (counts_of (unat (vocab_size p))
      (last_n (unat (window_size p)) (counted (vocab_size p) (prompt @ generated))))"
  using prompt_exact [OF assms, of generated prompt] by (simp add: penalty_exact_def)

definition test_penalty :: penalty_state where
  "test_penalty =
     \<lparr>sampler_cfg = \<lparr>temperature = 0, top_k = 0, top_p = 0, min_p = 0, typical_p = 0, repeat_penalty = 0x3FA00000,
        repeat_last_n = 3, penalize_nl = 0, presence_penalty = 0, frequency_penalty = 0, mirostat = 0,
        mirostat_tau = 0, mirostat_eta = 0, seed = 1\<rparr>,
      allocator = frame_new 4096 4096, vocab_size = 4, ctx_size = 0, token_counts = None,
      token_counts_base = None, recent_tokens = None, recent_capacity = 0, recent_pos = 0, recent_size = 0,
      token_nl = -1\<rparr>"

theorem penalty_counts_recent_tokens_witness:
  "token_counts (push_tokens [2, 9, 2] (penalty_from_prompt (\<lambda>_. 7) None [1, 3] test_penalty)) = Some [0, 0, 2, 1]"
proof -
  have i: "penalty_inv test_penalty" by (rule penalty_inv_fresh) (simp_all add: test_penalty_def)
  have n: "sampler_needs_counts (sampler_cfg test_penalty)" "window_size test_penalty \<noteq> 0"
    "window_size test_penalty \<le> 0xFFFF" by code_simp+
  have e: "fst (ensure_penalty_state (\<lambda>_. 7) None test_penalty) = ASTRAL_OK" by code_simp
  have "counts_of (unat (vocab_size test_penalty))
      (last_n (unat (window_size test_penalty)) (counted (vocab_size test_penalty) ([1, 3] @ [2, 9, 2]))) = [0, 0, 2, 1]"
    by code_simp
  then show ?thesis by (simp only: penalty_counts_recent_tokens [OF i n e])
qed

section \<open>A window of zero\<close>

text \<open>A \<open>repeat_last_n\<close> of 0, which the header documents as disabled, does not switch the counts
  off: the table and the window of the earlier setting stay in place and go on counting.\<close>
theorem zero_window_keeps_counting:
  "\<exists>q. ensure_penalty_state junk nl (p\<lparr>sampler_cfg := (sampler_cfg p)\<lparr>repeat_last_n := 0\<rparr>\<rparr>) = (ASTRAL_OK, q) \<and>
    token_counts q = token_counts p \<and> recent_capacity q = recent_capacity p \<and> recent q = recent p \<and>
    token_counts (penalty_state_push t q) = token_counts (penalty_state_push t p)"
proof -
  let ?p = "p\<lparr>sampler_cfg := (sampler_cfg p)\<lparr>repeat_last_n := 0\<rparr>\<rparr>"
  have "\<exists>q. ensure_penalty_state junk nl ?p = (ASTRAL_OK, q) \<and> (q = ?p \<or> q = resolve_nl nl ?p)"
    by (simp add: ensure_penalty_state_def clamp_repeat_last_n_def)
  then obtain q where q: "ensure_penalty_state junk nl ?p = (ASTRAL_OK, q)" "q = ?p \<or> q = resolve_nl nl ?p" by blast
  have s: "token_counts q = token_counts p" "recent_capacity q = recent_capacity p" "recent_tokens q = recent_tokens p"
    "recent_size q = recent_size p" "recent_pos q = recent_pos p" "vocab_size q = vocab_size p"
    using q(2) by auto
  then have "recent q = recent p" unfolding recent_def by (simp only:)
  moreover have "token_counts (penalty_state_push t q) = token_counts (penalty_state_push t p)"
    using s by (simp add: penalty_state_push_def Let_def split: option.splits)
  ultimately show ?thesis using q(1) s by blast
qed

section \<open>The fixed counts\<close>

lemma count_up_nth:
  assumes "v < length c"
  shows "unat (count_up t c ! v) = (if unat t = v then min 0xFFFF (unat (c ! v) + 1) else unat (c ! v))"
proof (cases "c ! v = 0xFFFF")
  case True
  then show ?thesis using assms by (auto simp: count_up_def)
next
  case False
  have "unat (c ! v) < 2 ^ LENGTH(16)" by (rule unsigned_less)
  moreover have "unat (c ! v) \<noteq> unat (0xFFFF :: u16)" using False by (blast intro: unat_eqI)
  ultimately have l: "unat (c ! v) < 0xFFFF" by simp
  then have "unat (c ! v + 1) = unat (c ! v) + 1" by (simp add: unat_word_ariths(1))
  then show ?thesis using assms False l by (auto simp: count_up_def nth_list_update)
qed

lemma base_count_step:
  assumes "length c = unat vocab" "v < unat vocab"
  shows "unat (base_count vocab t c ! v) =
    (if sint t \<ge> 0 \<and> t < vocab \<and> unat t = v then min 0xFFFF (unat (c ! v) + 1) else unat (c ! v))"
proof -
  have "v < length c" using assms by simp
  then show ?thesis using count_up_nth [of v c t] by (simp add: base_count_def linorder_not_le [symmetric])
qed

lemma fold_base_count:
  assumes "length c = unat vocab" "v < unat vocab"
  shows "unat (fold (base_count vocab) ts c ! v) = min 0xFFFF (unat (c ! v) + occurrences (counted vocab ts) v)"
  using assms(1)
proof (induction ts arbitrary: c)
  case Nil
  have "unat (c ! v) < 2 ^ LENGTH(16)" by (rule unsigned_less)
  then show ?case by (simp add: counted_def)
next
  case (Cons t ts)
  have "length (base_count vocab t c) = unat vocab" using Cons.prems by (simp add: base_count_def count_up_def)
  then show ?case using Cons.IH base_count_step [OF Cons.prems assms(2), of t] by (auto simp: counted_def min_def)
qed

text \<open>The penalty prompt counts each of its tokens, up to 65535.\<close>

lemma ensure_keeps_base:
  "token_counts_base (snd (ensure_penalty_state junk nl p)) = token_counts_base p"
proof -
  have n: "token_counts_base (resolve_nl nl r) = token_counts_base r" for r
    by (simp add: resolve_nl_def split: option.splits prod.splits)
  have c: "token_counts_base (snd (ensure_counts r)) = token_counts_base r" for r
    by (simp add: ensure_counts_def split: option.splits prod.splits)
  have w: "token_counts_base (snd (ensure_window junk m r)) = token_counts_base r" for m r
    by (simp add: ensure_window_def split: option.splits prod.splits)
  obtain err p1 where e1: "ensure_counts p = (err, p1)" by fastforce
  obtain err' p2 where e2: "ensure_window junk (window_size p) p1 = (err', p2)" by fastforce
  show ?thesis
    using c [of p] w [of "window_size p" p1] n [of p2] n [of p]
    unfolding ensure_penalty_state_def Let_def window_size_def [symmetric] e1 prod.case e2
    by simp
qed

lemma set_base_counts_exact:
  assumes "set_base_counts junk nl tokens p = (ASTRAL_OK, q)" "v < unat (vocab_size p)"
  shows "\<exists>c. token_counts_base q = Some c \<and> unat (c ! v) = min 0xFFFF (occurrences (counted (vocab_size p) tokens) v)"
proof -
  let ?c = "fold (base_count (vocab_size p)) tokens (zero_counts p)"
  obtain r fa where a: "(if token_counts_base p = None then frame_alloc (ucast (vocab_size p) * 2) 2 (allocator p)
      else (Some 0, allocator p)) = (r, fa)" by fastforce
  note e = assms(1) [unfolded set_base_counts_def a prod.case]
  obtain x where "r = Some x" using e by (cases r) simp_all
  with e have "ensure_penalty_state junk nl (p\<lparr>allocator := fa, token_counts_base := Some ?c\<rparr>) = (ASTRAL_OK, q)" by simp
  then have "token_counts_base q = Some ?c"
    using ensure_keeps_base [of junk nl "p\<lparr>allocator := fa, token_counts_base := Some ?c\<rparr>"] by simp
  moreover have "unat (?c ! v) = min 0xFFFF (occurrences (counted (vocab_size p) tokens) v)"
    using fold_base_count [of "zero_counts p" "vocab_size p" v tokens] assms(2) by (simp add: zero_counts_def)
  ultimately show ?thesis by blast
qed

end
