(* ===== verification/Session_Decode.thy ===== *)
theory Session_Decode
  imports Session_Stream Penalty
begin

unbundle bit_operations_syntax

text \<open>
  The decode thread of a session in \<open>src/src/inference/session.cpp\<close>: the pushes into the token ring,
  the buffer that holds tokens back while they may belong to a stop sequence, the test for stop
  sequences, and \<open>decode_loop\<close>. The backend and the sampler are parameters with a state of their
  own; the reader of the ring and the cancel flag act between the steps of a waiting push. A call
  that waits for ever is \<open>None\<close>. The fields \<open>generated\<close> and \<open>emitted\<close> record what the loop has
  handed on and what it has pushed. The worker check at the start of \<open>decode_loop\<close> and the time
  stamps are left out.
\<close>

section \<open>The table of stop sequences\<close>

record stop_table =
  stop_seqs :: "i32 list list"
  stop_max_len :: nat

text \<open>A state of \<open>None\<close> stands for a null session. \<open>tokenize\<close> returns its status, the buffer and the count.\<close>

definition session_stop_clear :: "SessionState option \<Rightarrow> stop_table \<Rightarrow> astral_err \<times> stop_table" where
  "session_stop_clear state t =
     (if state = None then (ASTRAL_E_INVALID, t)
      else if state = Some Decoding then (ASTRAL_E_STATE, t)
      else (ASTRAL_OK, t\<lparr>stop_seqs := [], stop_max_len := 0\<rparr>))"

definition session_stop_add_utf8 ::
  "(u8 list \<Rightarrow> astral_err \<times> i32 list \<times> u32) \<Rightarrow> SessionState option \<Rightarrow> span \<Rightarrow> stop_table \<Rightarrow> astral_err \<times> stop_table" where
  "session_stop_add_utf8 tokenize state utf8 t =
     (if state = None then (ASTRAL_E_INVALID, t)
      else if state = Some Decoding then (ASTRAL_E_STATE, t)
      else
        (case utf8 of
           Null_Span _ \<Rightarrow> (ASTRAL_E_INVALID, t)
         | Span bytes \<Rightarrow>
             if span_len utf8 = 0 then (ASTRAL_E_INVALID, t)
             else if length (stop_seqs t) \<ge> 16 then (ASTRAL_E_NOMEM, t)
             else
               (case tokenize bytes of
                  (err, tokens, out_count) \<Rightarrow>
                    if err \<noteq> ASTRAL_OK then (err, t)
                    else if out_count = 0 \<or> out_count > 32 then (ASTRAL_E_INVALID, t)
                    else (ASTRAL_OK,
                      t\<lparr>stop_seqs := stop_seqs t @ [take (unat out_count) tokens],
                        stop_max_len := max (stop_max_len t) (unat out_count)\<rparr>))))"

fun stop_add_all ::
  "(u8 list \<Rightarrow> astral_err \<times> i32 list \<times> u32) \<Rightarrow> SessionState option \<Rightarrow> span list \<Rightarrow> stop_table \<Rightarrow> astral_err \<times> stop_table" where
  "stop_add_all tokenize state [] t = (ASTRAL_OK, t)"
| "stop_add_all tokenize state (s # seqs) t =
     (case session_stop_add_utf8 tokenize state s t of
        (err, t1) \<Rightarrow> if err \<noteq> ASTRAL_OK then (err, t1) else stop_add_all tokenize state seqs t1)"

text \<open>\<open>seqs\<close> is \<open>None\<close> for a null array with a count.\<close>

definition session_stop_set_utf8 ::
  "(u8 list \<Rightarrow> astral_err \<times> i32 list \<times> u32) \<Rightarrow> SessionState option \<Rightarrow> span list option \<Rightarrow> u32 \<Rightarrow> stop_table \<Rightarrow>
   astral_err \<times> stop_table" where
  "session_stop_set_utf8 tokenize state seqs n t =
     (if state = None then (ASTRAL_E_INVALID, t)
      else if state = Some Decoding then (ASTRAL_E_STATE, t)
      else if n > 0 \<and> seqs = None then (ASTRAL_E_INVALID, t)
      else if n > 16 then (ASTRAL_E_NOMEM, t)
      else
        (case session_stop_clear state t of
           (err, t1) \<Rightarrow>
             if err \<noteq> ASTRAL_OK then (err, t1)
             else stop_add_all tokenize state (take (unat n) (case seqs of None \<Rightarrow> [] | Some xs \<Rightarrow> xs)) t1))"

text \<open>What the table promises the decode loop: every sequence is nonempty and no longer than the
  bound, which is at most 32.\<close>

definition stops_ok :: "stop_table \<Rightarrow> bool" where
  "stops_ok t \<longleftrightarrow> stop_max_len t \<le> 32 \<and> list_all (\<lambda>s. s \<noteq> [] \<and> length s \<le> stop_max_len t) (stop_seqs t)"

lemma stops_ok_clear: "stops_ok t \<Longrightarrow> stops_ok (snd (session_stop_clear state t))"
  by (simp add: stops_ok_def session_stop_clear_def)

lemma stops_ok_add:
  assumes "stops_ok t" "\<And>bs. length (fst (snd (tokenize bs))) = 32"
  shows "stops_ok (snd (session_stop_add_utf8 tokenize state seq t))"
proof (cases seq)
  case (Span bs)
  obtain err toks n where k: "tokenize bs = (err, toks, n)" by (cases "tokenize bs")
  have l: "length toks = 32" using assms(2) [of bs] k by simp
  have new: "stops_ok (t\<lparr>stop_seqs := stop_seqs t @ [take (unat n) toks], stop_max_len := max (stop_max_len t) (unat n)\<rparr>)"
    if "n \<noteq> 0" "\<not> n > 32"
  proof -
    have "unat n \<le> unat (32 :: u32)" using that(2) by (simp only: word_le_nat_alt [symmetric] linorder_not_less)
    then have n: "0 < unat n" "unat n \<le> 32" using that(1) by (simp_all add: unat_gt_0)
    then have "take (unat n) toks \<noteq> []" "length (take (unat n) toks) = unat n" using l by auto
    then show ?thesis using assms(1) n by (auto simp: stops_ok_def list_all_iff)
  qed
  show ?thesis using assms(1) new by (simp add: session_stop_add_utf8_def Span k)
next
  case (Null_Span n)
  then show ?thesis using assms(1) by (simp add: session_stop_add_utf8_def)
qed

lemma stops_ok_add_all:
  assumes "stops_ok t" "\<And>bs. length (fst (snd (tokenize bs))) = 32"
  shows "stops_ok (snd (stop_add_all tokenize state seqs t))"
  using assms(1)
proof (induction seqs arbitrary: t)
  case (Cons s seqs)
  have "stops_ok (snd (session_stop_add_utf8 tokenize state s t))"
    by (rule stops_ok_add [OF Cons.prems]) (rule assms(2))
  with Cons.IH show ?case by (auto split: prod.splits)
qed simp

lemma stops_ok_set:
  assumes "stops_ok t" "\<And>bs. length (fst (snd (tokenize bs))) = 32"
  shows "stops_ok (snd (session_stop_set_utf8 tokenize state seqs n t))"
proof -
  obtain err t1 where c: "session_stop_clear state t = (err, t1)" by fastforce
  then have "stops_ok t1" using stops_ok_clear [OF assms(1), of state] by simp
  then have "stops_ok (snd (stop_add_all tokenize state xs t1))" for xs
    by (rule stops_ok_add_all) (use assms(2) in simp_all)
  then show ?thesis using assms(1) \<open>stops_ok t1\<close> by (simp add: session_stop_set_utf8_def c)
qed

section \<open>The state of the loop\<close>

definition kHoldCap :: nat where "kHoldCap = 64"

record 'm decode_state =
  ring :: "stream_token spsc_ring"
  clock :: nat
  emitted :: "stream_token list"
  generated :: "i32 list"
  hold :: "i32 list"
  hold_head :: nat
  hold_count :: nat
  stop_tail :: "i32 list"
  total_tokens :: u64
  meta_ring :: "'m spsc_ring"
  penalty :: penalty_state

text \<open>
  What surrounds the loop. \<open>reader\<close> and \<open>cancel_requested\<close> are indexed by the spins of waiting
  pushes, \<open>cancel_at\<close> by the rounds of the loop. \<open>detokenize\<close> gets the size of the buffer and
  returns its contents and the length it reports.
\<close>

record ('b, 'm) decode_env =
  arm :: bool
  reader :: "nat \<Rightarrow> stream_token spsc_ring \<Rightarrow> stream_token spsc_ring"
  cancel_requested :: "nat \<Rightarrow> bool"
  cancel_at :: "nat \<Rightarrow> bool"
  detokenize :: "i32 \<Rightarrow> u32 \<Rightarrow> astral_err \<times> u8 list \<times> u32"
  spill_alloc :: "u32 \<Rightarrow> bool"
  feed_prompt :: "'b \<Rightarrow> astral_err \<times> 'b"
  session_logits :: "'b \<Rightarrow> astral_err \<times> 'b"
  sample_token :: "'b \<Rightarrow> penalty_state \<Rightarrow> i32 \<times> 'm \<times> 'b"
  session_accept :: "'b \<Rightarrow> i32 \<Rightarrow> astral_err \<times> 'b"
  fresh_memory :: "nat \<Rightarrow> u32"
  newline_token :: "(astral_err \<times> u32 \<times> i32) option"
  prompt_tokens :: "i32 list"
  stops :: stop_table
  max_tokens :: nat
  stream_enabled :: bool
  logprobs_n :: nat
  token_eos :: i32

section \<open>Pushing a token\<close>

partial_function (option) flush_loop ::
  "('b, 'm) decode_env \<Rightarrow> stream_token \<Rightarrow> 'm decode_state \<Rightarrow> (bool \<times> 'm decode_state) option" where
  "flush_loop env tok st =
     (case spsc_push (arm env) tok (ring st) of
        (pushed, r) \<Rightarrow>
          if pushed then Some (True, st\<lparr>ring := r, emitted := emitted st @ [tok]\<rparr>)
          else
            (let st1 = st\<lparr>ring := reader env (clock st) r, clock := clock st + 1\<rparr>
             in if cancel_requested env (clock st) then Some (False, st1) else flush_loop env tok st1))"

definition session_stream_flush_one ::
  "('b, 'm) decode_env \<Rightarrow> stream_token \<Rightarrow> 'm decode_state \<Rightarrow> (bool \<times> 'm decode_state) option" where
  "session_stream_flush_one env tok st = flush_loop env tok st"

definition stream_fragment :: "i32 \<Rightarrow> u8 list \<Rightarrow> stream_token" where
  "stream_fragment tok bytes =
     \<lparr>token_id = tok, utf8_len = of_nat (length bytes), utf8_data = bytes @ replicate (32 - length bytes) 0\<rparr>"

function emit_fragments ::
  "('b, 'm) decode_env \<Rightarrow> i32 \<Rightarrow> u8 list \<Rightarrow> 'm decode_state \<Rightarrow> (astral_err \<times> 'm decode_state) option" where
  "emit_fragments env tok bytes st =
     (if bytes = [] then Some (ASTRAL_OK, st)
      else
        (case session_stream_flush_one env (stream_fragment tok (take 32 bytes)) st of
           None \<Rightarrow> None
         | Some (pushed, st1) \<Rightarrow>
             if \<not> pushed then Some (ASTRAL_E_CANCELED, st1) else emit_fragments env tok (drop 32 bytes) st1))"
  by pat_completeness auto
termination by (relation "measure (\<lambda>(_, _, bytes, _). length bytes)") auto

declare emit_fragments.simps [simp del]

definition session_stream_emit_bytes ::
  "('b, 'm) decode_env \<Rightarrow> i32 \<Rightarrow> u8 list \<Rightarrow> 'm decode_state \<Rightarrow> (astral_err \<times> 'm decode_state) option" where
  "session_stream_emit_bytes env tok bytes st =
     (if bytes = [] then
        (case session_stream_flush_one env (stream_fragment tok []) st of
           None \<Rightarrow> None
         | Some (ok, st1) \<Rightarrow> Some (if ok then ASTRAL_OK else ASTRAL_E_CANCELED, st1))
      else emit_fragments env tok bytes st)"

definition session_stream_emit_token ::
  "('b, 'm) decode_env \<Rightarrow> i32 \<Rightarrow> 'm decode_state \<Rightarrow> (astral_err \<times> 'm decode_state) option" where
  "session_stream_emit_token env tok st =
     (case detokenize env tok 32 of
        (err, bytes, len) \<Rightarrow>
          if err = ASTRAL_OK then
            if len > 32 then Some (ASTRAL_E_BACKEND, st)
            else session_stream_emit_bytes env tok (take (unat len) bytes) st
          else if err \<noteq> ASTRAL_E_NOMEM then Some (err, st)
          else
            (case detokenize env tok 0 of
               (err, _, required) \<Rightarrow>
                 if err \<noteq> ASTRAL_OK then Some (err, st)
                 else if required \<le> 32 then Some (ASTRAL_E_BACKEND, st)
                 else if \<not> spill_alloc env required then Some (ASTRAL_E_NOMEM, st)
                 else
                   (case detokenize env tok required of
                      (err, bytes, len) \<Rightarrow>
                        if err = ASTRAL_OK \<and> len \<le> required
                        then session_stream_emit_bytes env tok (take (unat len) bytes) st
                        else if err = ASTRAL_OK then Some (ASTRAL_E_BACKEND, st)
                        else Some (err, st))))"

section \<open>Holding tokens back\<close>

fun flush_held ::
  "('b, 'm) decode_env \<Rightarrow> nat \<Rightarrow> 'm decode_state \<Rightarrow> (astral_err \<times> 'm decode_state) option" where
  "flush_held env 0 st = Some (ASTRAL_OK, st)"
| "flush_held env (Suc n) st =
     (case session_stream_emit_token env (hold st ! hold_head st) st of
        None \<Rightarrow> None
      | Some (err, st1) \<Rightarrow>
          if err \<noteq> ASTRAL_OK then Some (err, st1)
          else flush_held env n
                 (st1\<lparr>hold_head := (hold_head st1 + 1) mod kHoldCap, hold_count := hold_count st1 - 1\<rparr>))"

definition session_hold_flush_ready ::
  "('b, 'm) decode_env \<Rightarrow> nat \<Rightarrow> 'm decode_state \<Rightarrow> (astral_err \<times> 'm decode_state) option" where
  "session_hold_flush_ready env retain_count st = flush_held env (hold_count st - retain_count) st"

definition store_hold :: "i32 \<Rightarrow> 'm decode_state \<Rightarrow> 'm decode_state" where
  "store_hold tok st =
     st\<lparr>hold := (hold st)[(hold_head st + hold_count st) mod kHoldCap := tok], hold_count := hold_count st + 1\<rparr>"

definition session_hold_push ::
  "('b, 'm) decode_env \<Rightarrow> i32 \<Rightarrow> nat \<Rightarrow> 'm decode_state \<Rightarrow> (astral_err \<times> 'm decode_state) option" where
  "session_hold_push env tok stop_hold st =
     (if stop_hold = 0 \<and> hold_count st = 0 then session_stream_emit_token env tok st
      else if hold_count st = kHoldCap then
        (case session_hold_flush_ready env stop_hold st of
           None \<Rightarrow> None
         | Some (err, st1) \<Rightarrow>
             if err \<noteq> ASTRAL_OK \<or> hold_count st1 = kHoldCap
             then Some (if err \<noteq> ASTRAL_OK then err else ASTRAL_E_STATE, st1)
             else session_hold_flush_ready env stop_hold (store_hold tok st1))
      else session_hold_flush_ready env stop_hold (store_hold tok st))"

section \<open>Stop sequences\<close>

definition push_tail :: "i32 \<Rightarrow> i32 list \<Rightarrow> i32 list" where
  "push_tail tok tail = (if length tail < 32 then tail @ [tok] else tl tail @ [tok])"

fun find_stop :: "i32 list list \<Rightarrow> i32 list \<Rightarrow> nat option" where
  "find_stop [] tail = None"
| "find_stop (s # seqs) tail =
     (if s \<noteq> [] \<and> length s \<le> length tail \<and> drop (length tail - length s) tail = s then Some (length s)
      else find_stop seqs tail)"

definition session_stop_check ::
  "('b, 'm) decode_env \<Rightarrow> i32 \<Rightarrow> 'm decode_state \<Rightarrow> nat option \<times> 'm decode_state" where
  "session_stop_check env tok st =
     (if stop_seqs (stops env) = [] \<or> sint tok < 0 then (None, st)
      else
        let tail = push_tail tok (stop_tail st)
        in (find_stop (stop_seqs (stops env)) tail, st\<lparr>stop_tail := tail\<rparr>))"

section \<open>The loop\<close>

definition stop_hold :: "('b, 'm) decode_env \<Rightarrow> nat" where
  "stop_hold env = (if 0 < stop_max_len (stops env) \<and> stop_max_len (stops env) \<le> 32 then stop_max_len (stops env) else 0)"

definition failed_as :: "astral_err \<Rightarrow> SessionState" where
  "failed_as err = (if err = ASTRAL_E_CANCELED then Canceled else Failed)"

type_synonym 'm outcome = "SessionState \<times> astral_err \<times> 'm decode_state"

text \<open>After a stop sequence its tokens are dropped from the end of the buffer and the rest goes out.\<close>

definition finish_stop :: "('b, 'm) decode_env \<Rightarrow> nat \<Rightarrow> 'm decode_state \<Rightarrow> 'm outcome option" where
  "finish_stop env stop_len st =
     (if stream_enabled env \<and> stop_hold env > 0 \<and> stop_len > 0 then
        (case session_hold_flush_ready env 0
                (st\<lparr>hold_count := (if stop_len \<ge> hold_count st then 0 else hold_count st - stop_len)\<rparr>) of
           None \<Rightarrow> None
         | Some (err, st1) \<Rightarrow>
             Some (if err \<noteq> ASTRAL_OK then (failed_as err, err, st1) else (Completed, ASTRAL_OK, st1)))
      else Some (Completed, ASTRAL_OK, st))"

definition after_sample :: "('b, 'm) decode_env \<Rightarrow> i32 \<Rightarrow> 'm \<Rightarrow> 'm decode_state \<Rightarrow> 'm decode_state" where
  "after_sample env tok m st =
     (let st1 = (if sint tok \<ge> 0 then st\<lparr>penalty := penalty_state_push tok (penalty st)\<rparr> else st)
      in if logprobs_n env > 0 then st1\<lparr>meta_ring := snd (spsc_push (arm env) m (meta_ring st1))\<rparr> else st1)"

text \<open>One round hands the loop the outcome, or the state to go on with.\<close>

definition emit_or_hold ::
  "('b, 'm) decode_env \<Rightarrow> i32 \<Rightarrow> 'm decode_state \<Rightarrow> (astral_err \<times> 'm decode_state) option" where
  "emit_or_hold env tok st =
     (if stream_enabled env then session_hold_push env tok (stop_hold env) st else Some (ASTRAL_OK, st))"

fun generate ::
  "('b, 'm) decode_env \<Rightarrow> nat \<Rightarrow> nat \<Rightarrow> 'b \<Rightarrow> 'm decode_state \<Rightarrow> 'm outcome option" where
  "generate env 0 i b st = Some (Completed, ASTRAL_OK, st)"
| "generate env (Suc n) i b st =
     (if cancel_at env i then Some (Canceled, ASTRAL_E_CANCELED, st)
      else
        (case session_logits env b of
           (err, b1) \<Rightarrow>
             if err \<noteq> ASTRAL_OK then Some (Failed, err, st)
             else
               (case sample_token env b1 (penalty st) of
                  (tok, m, b2) \<Rightarrow>
                    (case session_accept env b2 tok of
                       (err, b3) \<Rightarrow>
                         if err \<noteq> ASTRAL_OK then Some (Failed, err, st)
                         else
                           let st1 = after_sample env tok m st
                           in if sint (token_eos env) \<ge> 0 \<and> tok = token_eos env then Some (Completed, ASTRAL_OK, st1)
                              else
                                (case session_stop_check env tok
                                        (st1\<lparr>total_tokens := total_tokens st1 + 1, generated := generated st1 @ [tok]\<rparr>) of
                                   (stop, st2) \<Rightarrow>
                                     (case emit_or_hold env tok st2 of
                                        None \<Rightarrow> None
                                      | Some (err, st3) \<Rightarrow>
                                          if err \<noteq> ASTRAL_OK then Some (failed_as err, err, st3)
                                          else
                                            (case stop of
                                               Some stop_len \<Rightarrow> finish_stop env stop_len st3
                                             | None \<Rightarrow> generate env n (i + 1) b3 st3)))))))"

definition start_state :: "('b, 'm) decode_env \<Rightarrow> 'm decode_state \<Rightarrow> 'm decode_state" where
  "start_state env st =
     st\<lparr>penalty := penalty_from_prompt (fresh_memory env) (newline_token env) (prompt_tokens env) (penalty st), hold_head := 0, hold_count := 0, stop_tail := []\<rparr>"

definition decode_loop :: "('b, 'm) decode_env \<Rightarrow> 'b \<Rightarrow> 'm decode_state \<Rightarrow> 'm outcome option" where
  "decode_loop env b st =
     (case feed_prompt env b of
        (err, b1) \<Rightarrow>
          if err \<noteq> ASTRAL_OK then Some (Failed, err, st)
          else
            (case generate env (max_tokens env) 0 b1 (start_state env st) of
               None \<Rightarrow> None
             | Some (final_state, final_err, st1) \<Rightarrow>
                 if final_state = Completed \<and> stream_enabled env \<and> hold_count st1 > 0 then
                   (case session_hold_flush_ready env 0 st1 of
                      None \<Rightarrow> None
                    | Some (err, st2) \<Rightarrow>
                        Some (if err \<noteq> ASTRAL_OK then (failed_as err, err, st2) else (Completed, final_err, st2)))
                 else Some (final_state, final_err, st1)))"

section \<open>What a push sends\<close>

text \<open>Pushing changes the ring and the clock and appends to \<open>emitted\<close>; all else is kept.\<close>

definition kept :: "'m decode_state \<Rightarrow> 'm decode_state \<Rightarrow> bool" where
  "kept st st' \<longleftrightarrow> generated st' = generated st \<and> hold st' = hold st \<and> hold_head st' = hold_head st \<and>
     hold_count st' = hold_count st \<and> stop_tail st' = stop_tail st \<and> total_tokens st' = total_tokens st \<and>
     meta_ring st' = meta_ring st \<and> penalty st' = penalty st"

lemma kept_refl [simp]: "kept st st"
  by (simp add: kept_def)

lemma kept_trans: "kept a b \<Longrightarrow> kept b c \<Longrightarrow> kept a c"
  by (simp add: kept_def)

lemma kept_upd [simp]:
  "kept st (st\<lparr>ring := r, emitted := e\<rparr>)" "kept st (st\<lparr>ring := r, clock := c\<rparr>)"
  by (simp_all add: kept_def)

definition sent :: "'m decode_state \<Rightarrow> stream_token list \<Rightarrow> 'm decode_state \<Rightarrow> bool" where
  "sent st ts st' \<longleftrightarrow> kept st st' \<and> emitted st' = emitted st @ ts"

lemma sent_trans: "sent a xs b \<Longrightarrow> sent b ys c \<Longrightarrow> sent a (xs @ ys) c"
  by (auto simp: sent_def intro: kept_trans)

lemma flush_loop_sent:
  assumes "flush_loop env tok st = Some (ok, st')"
  shows "sent st (if ok then [tok] else []) st'"
proof -
  have "case (ok, st') of (ok, st') \<Rightarrow> sent st (if ok then [tok] else []) st'"
  proof (rule flush_loop.raw_induct [where P = "\<lambda>env tok st res. case res of (ok, st') \<Rightarrow> sent st (if ok then [tok] else []) st'",
      OF _ assms])
    fix rec env tok st res
    assume IH: "\<And>env tok st y. rec env tok st = Some y \<Longrightarrow> case y of (ok, st') \<Rightarrow> sent st (if ok then [tok] else []) st'"
      and body: "(case spsc_push (arm env) tok (ring st) of
        (pushed, r) \<Rightarrow>
          if pushed then Some (True, st\<lparr>ring := r, emitted := emitted st @ [tok]\<rparr>)
          else
            (let st1 = st\<lparr>ring := reader env (clock st) r, clock := clock st + 1\<rparr>
             in if cancel_requested env (clock st) then Some (False, st1) else rec env tok st1)) = Some res"
    obtain pushed r where p: "spsc_push (arm env) tok (ring st) = (pushed, r)" by fastforce
    let ?st1 = "st\<lparr>ring := reader env (clock st) r, clock := clock st + 1\<rparr>"
    note b = body [unfolded p prod.case Let_def]
    show "case res of (ok, st') \<Rightarrow> sent st (if ok then [tok] else []) st'"
    proof (cases pushed)
      case True
      then have "res = (True, st\<lparr>ring := r, emitted := emitted st @ [tok]\<rparr>)" using b by simp
      then show ?thesis by (simp add: sent_def)
    next
      case False
      have s1: "sent st [] ?st1" by (simp add: sent_def)
      show ?thesis
      proof (cases "cancel_requested env (clock st)")
        case True
        then have "res = (False, ?st1)" using b False by simp
        then show ?thesis using s1 by simp
      next
        case nc: False
        obtain ok st' where r': "res = (ok, st')" by fastforce
        have "rec env tok ?st1 = Some (ok, st')" using b False nc r' by simp
        from IH [OF this] have "sent ?st1 (if ok then [tok] else []) st'" by simp
        from sent_trans [OF s1 this] show ?thesis by (simp add: r')
      qed
    qed
  qed
  then show ?thesis by simp
qed

fun fragments :: "i32 \<Rightarrow> nat \<Rightarrow> u8 list \<Rightarrow> stream_token list" where
  "fragments tok 0 bytes = []"
| "fragments tok (Suc n) bytes =
     (if bytes = [] then [] else stream_fragment tok (take 32 bytes) # fragments tok n (drop 32 bytes))"

lemma emit_fragments_sent:
  assumes "emit_fragments env tok bytes st = Some (ASTRAL_OK, st')" "length bytes \<le> n"
  shows "sent st (fragments tok n bytes) st'"
  using assms
proof (induction n arbitrary: bytes st)
  case 0
  then show ?case by (simp add: emit_fragments.simps sent_def)
next
  case (Suc n)
  show ?case
  proof (cases "bytes = []")
    case True
    then show ?thesis using Suc.prems by (simp add: emit_fragments.simps sent_def)
  next
    case False
    note e = Suc.prems(1) [unfolded emit_fragments.simps [of env tok bytes st] if_not_P [OF False] session_stream_flush_one_def]
    obtain ok st1 where f: "flush_loop env (stream_fragment tok (take 32 bytes)) st = Some (ok, st1)"
      using e by (cases "flush_loop env (stream_fragment tok (take 32 bytes)) st") auto
    have ok: ok "emit_fragments env tok (drop 32 bytes) st1 = Some (ASTRAL_OK, st')" using e f by (auto split: if_splits)
    have "length (drop 32 bytes) \<le> n" using Suc.prems(2) False by (cases bytes) auto
    from sent_trans [OF flush_loop_sent [OF f] Suc.IH [OF ok(2) this]] False ok(1)
    show ?thesis by simp
  qed
qed

definition pieces_of :: "i32 \<Rightarrow> u8 list \<Rightarrow> stream_token list" where
  "pieces_of tok bytes = (if bytes = [] then [stream_fragment tok []] else fragments tok (length bytes) bytes)"

lemma emit_bytes_sent:
  assumes "session_stream_emit_bytes env tok bytes st = Some (ASTRAL_OK, st')"
  shows "sent st (pieces_of tok bytes) st'"
proof (cases "bytes = []")
  case True
  obtain ok where f: "flush_loop env (stream_fragment tok []) st = Some (ok, st')" and ok: ok
    using assms True by (auto simp: session_stream_emit_bytes_def session_stream_flush_one_def split: option.splits if_splits)
  show ?thesis using flush_loop_sent [OF f] ok True by (simp add: pieces_of_def)
next
  case False
  then show ?thesis using assms emit_fragments_sent [OF _ order_refl] by (simp add: session_stream_emit_bytes_def pieces_of_def)
qed

text \<open>The text of a token, as the backend gives it: at once when it fits into 32 bytes, else after asking for its length.\<close>

definition token_text :: "('b, 'm) decode_env \<Rightarrow> i32 \<Rightarrow> u8 list" where
  "token_text env tok =
     (case detokenize env tok 32 of
        (err, bytes, len) \<Rightarrow>
          if err = ASTRAL_OK then take (unat len) bytes
          else (case detokenize env tok (snd (snd (detokenize env tok 0))) of (_, bytes, len) \<Rightarrow> take (unat len) bytes))"

definition pieces :: "('b, 'm) decode_env \<Rightarrow> i32 \<Rightarrow> stream_token list" where
  "pieces env tok = pieces_of tok (token_text env tok)"

lemma emit_token_sent:
  assumes "session_stream_emit_token env tok st = Some (ASTRAL_OK, st')"
  shows "sent st (pieces env tok) st'"
proof -
  obtain err bytes len where a: "detokenize env tok 32 = (err, bytes, len)" by (cases "detokenize env tok 32")
  obtain err2 bytes2 req where q: "detokenize env tok 0 = (err2, bytes2, req)" by (cases "detokenize env tok 0")
  obtain err3 bytes3 len3 where c: "detokenize env tok req = (err3, bytes3, len3)" by (cases "detokenize env tok req")
  note e = assms [unfolded session_stream_emit_token_def a q c prod.case]
  show ?thesis
  proof (cases "err = ASTRAL_OK")
    case True
    then have "session_stream_emit_bytes env tok (take (unat len) bytes) st = Some (ASTRAL_OK, st')"
      using e by (simp split: if_splits)
    then show ?thesis using True emit_bytes_sent by (simp add: pieces_def token_text_def a)
  next
    case False
    then have "session_stream_emit_bytes env tok (take (unat len3) bytes3) st = Some (ASTRAL_OK, st')"
      using e by (simp split: if_splits)
    then show ?thesis using False emit_bytes_sent by (simp add: pieces_def token_text_def a q c)
  qed
qed

lemma token_bytes_fragment: "length bs \<le> 32 \<Longrightarrow> token_bytes (stream_fragment tok bs) = bs"
  by (simp add: token_bytes_def stream_fragment_def unat_of_nat)

lemma stream_bytes_fragments: "length bs \<le> n \<Longrightarrow> stream_bytes (fragments tok n bs) = bs"
proof (induction n arbitrary: bs)
  case (Suc n)
  then have "length (drop 32 bs) \<le> n" by (cases bs) auto
  from Suc.IH [OF this] show ?case by (simp add: token_bytes_fragment)
qed simp

lemma stream_bytes_append: "stream_bytes (xs @ ys) = stream_bytes xs @ stream_bytes ys"
  by (simp add: stream_bytes_def)

lemma stream_bytes_pieces: "stream_bytes (pieces env tok) = token_text env tok"
  by (simp add: pieces_def pieces_of_def stream_bytes_fragments token_bytes_fragment)

lemma stream_bytes_all_pieces: "stream_bytes (concat (map (pieces env) ts)) = concat (map (token_text env) ts)"
  by (induction ts) (simp_all add: stream_bytes_append stream_bytes_pieces)

section \<open>The tokens held back\<close>

definition held :: "'m decode_state \<Rightarrow> i32 list" where
  "held st = map (\<lambda>i. hold st ! ((hold_head st + i) mod kHoldCap)) [0..<hold_count st]"

definition hold_ok :: "'m decode_state \<Rightarrow> bool" where
  "hold_ok st \<longleftrightarrow> length (hold st) = kHoldCap \<and> hold_head st < kHoldCap \<and> hold_count st \<le> kHoldCap"

definition pop_held :: "'m decode_state \<Rightarrow> 'm decode_state" where
  "pop_held st = st\<lparr>hold_head := (hold_head st + 1) mod kHoldCap, hold_count := hold_count st - 1\<rparr>"

lemma length_held [simp]: "length (held st) = hold_count st"
  by (simp add: held_def)

lemma pop_held_ok: "hold_ok st \<Longrightarrow> hold_ok (pop_held st)"
  by (auto simp: hold_ok_def pop_held_def kHoldCap_def)

lemma held_pop:
  assumes "hold_ok st" "0 < hold_count st"
  shows "held st = hold st ! hold_head st # held (pop_held st)"
proof (rule nth_equalityI)
  show "length (held st) = length (hold st ! hold_head st # held (pop_held st))"
    using assms(2) by (simp add: pop_held_def)
  fix i assume i: "i < length (held st)"
  show "held st ! i = (hold st ! hold_head st # held (pop_held st)) ! i"
  proof (cases i)
    case 0
    then show ?thesis using assms by (simp add: held_def hold_ok_def)
  next
    case (Suc j)
    then have "j < hold_count st - 1" using i by simp
    then have "(held (pop_held st)) ! j = hold st ! (((hold_head st + 1) mod kHoldCap + j) mod kHoldCap)"
      by (simp add: held_def pop_held_def)
    also have "((hold_head st + 1) mod kHoldCap + j) mod kHoldCap = (hold_head st + i) mod kHoldCap"
      by (simp add: mod_simps Suc)
    finally show ?thesis using i Suc by (simp add: held_def)
  qed
qed

lemma slot_distinct:
  assumes "i < c" "c < (n :: nat)"
  shows "(h + i) mod n \<noteq> (h + c) mod n"
proof
  assume "(h + i) mod n = (h + c) mod n"
  then have "n dvd (h + c) - (h + i)" using assms(1) by (subst (asm) eq_commute) (simp add: mod_eq_dvd_iff_nat)
  then have "n dvd c - i" by simp
  then have "n \<le> c - i" using assms(1) by (intro dvd_imp_le) simp_all
  then show False using assms by simp
qed

lemma held_store:
  assumes "hold_ok st" "hold_count st < kHoldCap"
  shows "held (store_hold tok st) = held st @ [tok]" "hold_ok (store_hold tok st)"
proof -
  have l: "(hold_head st + hold_count st) mod kHoldCap < length (hold st)"
    using assms(1) by (simp add: hold_ok_def kHoldCap_def)
  have ne: "(hold st)[(hold_head st + hold_count st) mod kHoldCap := tok] ! ((hold_head st + i) mod kHoldCap) =
      hold st ! ((hold_head st + i) mod kHoldCap)" if "i < hold_count st" for i
    using slot_distinct [OF that assms(2), of "hold_head st"] by (intro nth_list_update_neq) simp
  have "map (\<lambda>i. hold (store_hold tok st) ! ((hold_head st + i) mod kHoldCap)) [0..<hold_count st] = held st"
    unfolding held_def store_hold_def by (intro map_cong refl) (simp add: ne)
  then show "held (store_hold tok st) = held st @ [tok]"
    using l by (simp add: held_def [of "store_hold tok st"]) (simp add: store_hold_def)
  show "hold_ok (store_hold tok st)" using assms by (simp add: hold_ok_def store_hold_def)
qed

text \<open>The fields that the hold buffer and the pushes leave alone.\<close>

definition rest_kept :: "'m decode_state \<Rightarrow> 'm decode_state \<Rightarrow> bool" where
  "rest_kept st st' \<longleftrightarrow> generated st' = generated st \<and> stop_tail st' = stop_tail st \<and> total_tokens st' = total_tokens st \<and>
     meta_ring st' = meta_ring st \<and> penalty st' = penalty st"

lemma rest_kept_trans: "rest_kept a b \<Longrightarrow> rest_kept b c \<Longrightarrow> rest_kept a c"
  by (simp add: rest_kept_def)

lemma rest_kept_simps [simp]: "rest_kept st st" "rest_kept st (pop_held st)" "rest_kept st (store_hold tok st)"
  by (simp_all add: rest_kept_def pop_held_def store_hold_def)

lemma kept_rest: "kept st st' \<Longrightarrow> rest_kept st st'"
  by (simp add: kept_def rest_kept_def)

lemma kept_held: "kept st st' \<Longrightarrow> held st' = held st \<and> hold_count st' = hold_count st \<and> (hold_ok st' \<longleftrightarrow> hold_ok st)"
  by (simp add: kept_def held_def hold_ok_def)

lemma flush_held_sent:
  assumes "flush_held env n st = Some (ASTRAL_OK, st')" "hold_ok st" "n \<le> hold_count st"
  shows "rest_kept st st' \<and> hold_ok st' \<and> held st' = drop n (held st) \<and>
    emitted st' = emitted st @ concat (map (pieces env) (take n (held st)))"
  using assms
proof (induction n arbitrary: st)
  case (Suc n)
  obtain err st1 where e: "session_stream_emit_token env (hold st ! hold_head st) st = Some (err, st1)"
    using Suc.prems(1) by (cases "session_stream_emit_token env (hold st ! hold_head st) st") auto
  have ok: "err = ASTRAL_OK" "flush_held env n (pop_held st1) = Some (ASTRAL_OK, st')"
    using Suc.prems(1) e by (auto simp: pop_held_def split: if_splits)
  have s: "kept st st1" "emitted st1 = emitted st @ pieces env (hold st ! hold_head st)"
    using emit_token_sent [OF e [unfolded ok]] by (simp_all add: sent_def)
  note k = kept_held [OF s(1)]
  have hp: "held (pop_held st1) = held (pop_held st)" using s(1) by (simp add: kept_def held_def pop_held_def)
  have ho: "hold_ok (pop_held st1)" "n \<le> hold_count (pop_held st1)" "emitted (pop_held st1) = emitted st1"
    using k Suc.prems(2,3) pop_held_ok [of st1] by (simp_all add: pop_held_def)
  have h: "held st = hold st ! hold_head st # held (pop_held st)" using Suc.prems by (intro held_pop) simp_all
  have "rest_kept st (pop_held st1)" using kept_rest [OF s(1)] rest_kept_trans rest_kept_simps(2) by blast
  with Suc.IH [OF ok(2) ho(1,2)] show ?case
    unfolding h hp ho(3) s(2) by (auto intro: rest_kept_trans)
qed simp

lemma flush_ready_sent:
  assumes "session_hold_flush_ready env retain st = Some (ASTRAL_OK, st')" "hold_ok st"
  shows "rest_kept st st'" "hold_ok st'" "held st' = last_n retain (held st)"
    "emitted st' = emitted st @ concat (map (pieces env) (take (hold_count st - retain) (held st)))"
  using flush_held_sent [OF assms(1) [unfolded session_hold_flush_ready_def] assms(2)] by (simp_all add: last_n_def)

text \<open>A token that arrives goes behind the held ones; all but the last \<open>stop_hold\<close> of them go out.\<close>

lemma hold_push_sent:
  assumes "session_hold_push env tok keep st = Some (ASTRAL_OK, st')" "hold_ok st" "hold_count st \<le> keep" "keep \<le> 32"
  shows "rest_kept st st' \<and> hold_ok st' \<and> held st' = last_n keep (held st @ [tok]) \<and>
    emitted st' = emitted st @ concat (map (pieces env) (take (hold_count st + 1 - keep) (held st @ [tok])))"
proof (cases "keep = 0 \<and> hold_count st = 0")
  case True
  then have "session_stream_emit_token env tok st = Some (ASTRAL_OK, st')"
    using assms(1) by (simp add: session_hold_push_def)
  note s = emit_token_sent [OF this, unfolded sent_def]
  have "held st = []" using True by (simp add: held_def)
  then show ?thesis using s True assms(2) kept_held [of st st'] kept_rest [of st st'] by (simp add: last_n_def)
next
  case False
  have lt: "hold_count st < kHoldCap" "hold_count st \<noteq> kHoldCap" using assms(3,4) by (simp_all add: kHoldCap_def)
  have f: "session_hold_flush_ready env keep (store_hold tok st) = Some (ASTRAL_OK, st')"
    using assms(1) unfolding session_hold_push_def if_not_P [OF False] if_not_P [OF lt(2)] .
  note h = held_store [OF assms(2) lt(1), of tok]
  have "hold_count (store_hold tok st) = hold_count st + 1" "emitted (store_hold tok st) = emitted st"
    by (simp_all add: store_hold_def)
  then show ?thesis using flush_ready_sent [OF f h(2)] rest_kept_trans [OF rest_kept_simps(3)] h(1) by simp
qed

section \<open>Stop sequences are not sent\<close>

lemma length_last_n [simp]: "length (last_n n xs) = min n (length xs)"
  by (simp add: last_n_def)

lemma push_tail_last_n: "push_tail tok (last_n 32 ts) = last_n 32 (ts @ [tok])"
proof (cases "length ts < 32")
  case True
  then show ?thesis by (simp add: push_tail_def last_n_def)
next
  case False
  then have "Suc (length ts) - 32 = Suc (length ts - 32)" by simp
  then show ?thesis using False by (simp add: push_tail_def last_n_def drop_Suc tl_drop)
qed

lemma suffix_of_last_n:
  assumes "length s \<le> n"
  shows "length s \<le> length (last_n n ts) \<and> drop (length (last_n n ts) - length s) (last_n n ts) = s \<longleftrightarrow>
    length s \<le> length ts \<and> drop (length ts - length s) ts = s"
proof (cases "length s \<le> length ts")
  case True
  have "min n (length ts) - length s + (length ts - n) = length ts - length s" using assms True by linarith
  then have "drop (length (last_n n ts) - length s) (last_n n ts) = drop (length ts - length s) ts"
    by (simp add: last_n_def [of n ts] min_def split: if_splits)
  then show ?thesis using True assms by simp
qed simp

lemma find_stop_last_n:
  assumes "list_all (\<lambda>s. length s \<le> n) seqs"
  shows "find_stop seqs (last_n n ts) = find_stop seqs ts"
  using assms
proof (induction seqs)
  case (Cons s seqs)
  then show ?case using suffix_of_last_n [of s n ts] by simp
qed simp

lemma find_stop_bounds: "find_stop seqs ts = Some l \<Longrightarrow> list_all (\<lambda>s. s \<noteq> [] \<and> length s \<le> m) seqs \<Longrightarrow>
    0 < l \<and> l \<le> m \<and> l \<le> length ts"
  by (induction seqs) (auto split: if_splits)

lemma find_stop_Nil [simp]: "find_stop seqs [] = None"
  by (induction seqs) auto

text \<open>The sampler returns the index of a token, which is not negative.\<close>

definition sampler_ok :: "('b, 'm) decode_env \<Rightarrow> bool" where
  "sampler_ok env \<longleftrightarrow> (\<forall>b p. 0 \<le> sint (fst (sample_token env b p)))"

definition no_stop_before :: "('b, 'm) decode_env \<Rightarrow> i32 list \<Rightarrow> bool" where
  "no_stop_before env ts \<longleftrightarrow> (\<forall>n < length ts. find_stop (stop_seqs (stops env)) (take n ts) = None)"

text \<open>At the start of a round: the last \<open>stop_hold\<close> tokens are held back, the others are sent, and no
  stop sequence has been seen.\<close>

definition held_back :: "('b, 'm) decode_env \<Rightarrow> 'm decode_state \<Rightarrow> bool" where
  "held_back env st \<longleftrightarrow> hold_ok st \<and> held st = last_n (stop_hold env) (generated st) \<and>
     emitted st = concat (map (pieces env) (take (length (generated st) - stop_hold env) (generated st))) \<and>
     (stop_seqs (stops env) \<noteq> [] \<longrightarrow> stop_tail st = last_n 32 (generated st))"

definition round_inv :: "('b, 'm) decode_env \<Rightarrow> 'm decode_state \<Rightarrow> bool" where
  "round_inv env st \<longleftrightarrow> held_back env st \<and> no_stop_before env (generated st) \<and>
     find_stop (stop_seqs (stops env)) (generated st) = None"

lemma held_back_same:
  assumes "held_back env st" "rest_kept st st'" "generated st' = generated st" "hold st' = hold st"
    "hold_head st' = hold_head st" "hold_count st' = hold_count st" "emitted st' = emitted st" "stop_tail st' = stop_tail st"
  shows "held_back env st'"
  using assms by (simp add: held_back_def hold_ok_def held_def)

lemma after_sample_simps [simp]:
  "generated (after_sample env tok m st) = generated st" "hold (after_sample env tok m st) = hold st"
  "hold_head (after_sample env tok m st) = hold_head st" "hold_count (after_sample env tok m st) = hold_count st"
  "emitted (after_sample env tok m st) = emitted st" "stop_tail (after_sample env tok m st) = stop_tail st"
  by (simp_all add: after_sample_def Let_def)

lemma round_inv_after_sample: "round_inv env st \<Longrightarrow> round_inv env (after_sample env tok m st)"
  by (simp add: round_inv_def held_back_def hold_ok_def held_def)

lemma stop_hold_le: "stop_hold env \<le> 32"
  by (simp add: stop_hold_def)

lemma seqs_bounds:
  assumes "stops_ok (stops env)"
  shows "list_all (\<lambda>s. length s \<le> 32) (stop_seqs (stops env))"
    "list_all (\<lambda>s. s \<noteq> [] \<and> length s \<le> stop_hold env) (stop_seqs (stops env))"
  using assms by (auto simp: stops_ok_def stop_hold_def list_all_iff)

lemma stop_check_found:
  assumes "stops_ok (stops env)" "0 \<le> sint tok" "stop_seqs (stops env) \<noteq> [] \<longrightarrow> stop_tail st = last_n 32 ts"
  shows "fst (session_stop_check env tok st) = find_stop (stop_seqs (stops env)) (ts @ [tok])"
    "stop_seqs (stops env) \<noteq> [] \<longrightarrow> stop_tail (snd (session_stop_check env tok st)) = last_n 32 (ts @ [tok])"
    "\<exists>tail. snd (session_stop_check env tok st) = st\<lparr>stop_tail := tail\<rparr>"
proof -
  have "stop_tail st = last_n 32 ts \<Longrightarrow> find_stop (stop_seqs (stops env)) (push_tail tok (stop_tail st)) =
      find_stop (stop_seqs (stops env)) (ts @ [tok])"
    by (simp add: push_tail_last_n find_stop_last_n seqs_bounds(1) [OF assms(1)])
  then show "fst (session_stop_check env tok st) = find_stop (stop_seqs (stops env)) (ts @ [tok])"
    "stop_seqs (stops env) \<noteq> [] \<longrightarrow> stop_tail (snd (session_stop_check env tok st)) = last_n 32 (ts @ [tok])"
    using assms by (auto simp: session_stop_check_def Let_def push_tail_last_n)
  show "\<exists>tail. snd (session_stop_check env tok st) = st\<lparr>stop_tail := tail\<rparr>"
  proof (cases "stop_seqs (stops env) = [] \<or> sint tok < 0")
    case True
    then show ?thesis by (intro exI [of _ "stop_tail st"]) (simp add: session_stop_check_def)
  next
    case False
    then show ?thesis by (auto simp: session_stop_check_def Let_def)
  qed
qed

text \<open>One token through the hold buffer.\<close>

lemma hold_push_held_back:
  assumes "session_hold_push env tok (stop_hold env) st = Some (ASTRAL_OK, st')"
    "hold_ok st" "held st = last_n (stop_hold env) ts"
    "emitted st = concat (map (pieces env) (take (length ts - stop_hold env) ts))"
    "generated st = ts @ [tok]" "stop_seqs (stops env) \<noteq> [] \<longrightarrow> stop_tail st = last_n 32 (ts @ [tok])"
  shows "held_back env st'" "generated st' = ts @ [tok]"
proof -
  let ?k = "stop_hold env" and ?a = "length ts - stop_hold env" and ?j = "hold_count st + 1 - stop_hold env"
  have c: "hold_count st = min ?k (length ts)" using arg_cong [OF assms(3), of length] by simp
  then have "hold_count st \<le> ?k" by simp
  note h = hold_push_sent [OF assms(1,2) this stop_hold_le]
  have "?a + ?j = length (ts @ [tok]) - ?k" using c by (cases "length ts < ?k") simp_all
  moreover have "take (?a + ?j) (ts @ [tok]) = take ?a ts @ take ?j (last_n ?k ts @ [tok])"
    unfolding take_add by (simp add: last_n_def)
  ultimately have t: "take (length (ts @ [tok]) - ?k) (ts @ [tok]) = take ?a ts @ take ?j (last_n ?k ts @ [tok])"
    by (simp only:)
  have "emitted st' = emitted st @ concat (map (pieces env) (take ?j (held st @ [tok])))" using h by blast
  then have e: "emitted st' = concat (map (pieces env) (take (length (ts @ [tok]) - ?k) (ts @ [tok])))"
    unfolding t assms(3,4) map_append concat_append .
  have k: "generated st' = generated st" "stop_tail st' = stop_tail st" using h by (simp_all add: rest_kept_def)
  show "generated st' = ts @ [tok]" using k assms(5) by simp
  have hh: "held st' = last_n ?k (ts @ [tok])" "hold_ok st'"
    using h unfolding assms(3) last_n_last_n by simp_all
  show "held_back env st'" unfolding held_back_def k assms(5) using hh e assms(6) by blast
qed

lemma failed_as_not_completed: "failed_as err \<noteq> Completed"
  by (simp add: failed_as_def)

lemma flush_all_sent:
  assumes "session_hold_flush_ready env 0 st = Some (ASTRAL_OK, st')" "hold_ok st"
  shows "generated st' = generated st" "hold_count st' = 0" "emitted st' = emitted st @ concat (map (pieces env) (held st))"
proof -
  note f = flush_ready_sent [OF assms]
  show "generated st' = generated st" using f(1) by (simp add: rest_kept_def)
  show "hold_count st' = 0" using arg_cong [OF f(3), of length] by simp
  have "take (hold_count st) (held st) = held st" by (rule take_all) simp
  then show "emitted st' = emitted st @ concat (map (pieces env) (held st))" using f(4) by simp
qed

lemma finish_stop_sent:
  assumes "finish_stop env l st = Some (Completed, err, st')" "held_back env st" "stream_enabled env"
    "0 < l" "l \<le> stop_hold env" "l \<le> length (generated st)"
  shows "err = ASTRAL_OK" "generated st' = generated st" "hold_count st' = 0"
    "emitted st' = concat (map (pieces env) (take (length (generated st) - l) (generated st)))"
proof -
  let ?k = "stop_hold env" and ?G = "generated st"
  let ?c = "if l \<ge> hold_count st then 0 else hold_count st - l"
  let ?s = "st\<lparr>hold_count := ?c\<rparr>"
  have c: "hold_count st = min ?k (length ?G)" using assms(2) length_held [of st] by (simp add: held_back_def)
  then have l: "l \<le> hold_count st" "?c = hold_count st - l" using assms(5,6) by auto
  have g: "stream_enabled env \<and> ?k > 0 \<and> l > 0" using assms(3-5) by simp
  note e = assms(1) [unfolded finish_stop_def if_P [OF g]]
  obtain err1 st1 where f: "session_hold_flush_ready env 0 ?s = Some (err1, st1)"
    using e by (cases "session_hold_flush_ready env 0 ?s") auto
  have ok: "err1 = ASTRAL_OK" "err = ASTRAL_OK" "st1 = st'"
    using e f failed_as_not_completed [of err1] by (auto split: if_splits)
  have ho: "hold_ok ?s" using assms(2) by (auto simp: held_back_def hold_ok_def)
  note a = flush_all_sent [OF f [unfolded ok] ho]
  have "held ?s = map (\<lambda>i. hold st ! ((hold_head st + i) mod kHoldCap)) [0..<hold_count st - l]"
    using l(2) by (simp add: held_def)
  also have "\<dots> = take (hold_count st - l) (held st)" by (simp add: held_def take_map)
  finally have h: "held ?s = take (hold_count st - l) (drop (length ?G - ?k) ?G)"
    using assms(2) by (simp add: held_back_def last_n_def)
  have "length ?G - ?k + (hold_count st - l) = length ?G - l" using c l(1) assms(5) by (cases "length ?G < ?k") simp_all
  then have t: "take (length ?G - l) ?G = take (length ?G - ?k) ?G @ held ?s"
    unfolding h by (simp only: take_add [symmetric])
  show "err = ASTRAL_OK" by (rule ok(2))
  show "generated st' = generated st" "hold_count st' = 0" using a(1,2) by simp_all
  show "emitted st' = concat (map (pieces env) (take (length ?G - l) ?G))"
    using a(3) assms(2) unfolding t by (simp add: held_back_def)
qed

text \<open>What the rounds leave behind: all but the tokens of a stop sequence are sent or still held.\<close>

definition rounds_done :: "('b, 'm) decode_env \<Rightarrow> 'm decode_state \<Rightarrow> bool" where
  "rounds_done env st \<longleftrightarrow> no_stop_before env (generated st) \<and>
     (case find_stop (stop_seqs (stops env)) (generated st) of
        None \<Rightarrow> held_back env st
      | Some l \<Rightarrow> hold_count st = 0 \<and>
          emitted st = concat (map (pieces env) (take (length (generated st) - l) (generated st))))"

lemma round_inv_done: "round_inv env st \<Longrightarrow> rounds_done env st"
  by (simp add: round_inv_def rounds_done_def)

lemma no_stop_snoc:
  "no_stop_before env ts \<Longrightarrow> find_stop (stop_seqs (stops env)) ts = None \<Longrightarrow> no_stop_before env (ts @ [tok])"
  by (auto simp: no_stop_before_def less_Suc_eq)

lemma round_step:
  assumes "round_inv env st" "stops_ok (stops env)" "0 \<le> sint tok" "stream_enabled env"
    and sc: "session_stop_check env tok (st\<lparr>total_tokens := n, generated := generated st @ [tok]\<rparr>) = (stop, st2)"
    and em: "emit_or_hold env tok st2 = Some (ASTRAL_OK, st3)"
  shows "stop = find_stop (stop_seqs (stops env)) (generated st3)" "held_back env st3" "generated st3 = generated st @ [tok]"
    "no_stop_before env (generated st3)"
proof -
  let ?s = "st\<lparr>total_tokens := n, generated := generated st @ [tok]\<rparr>"
  have hb: "hold_ok st" "held st = last_n (stop_hold env) (generated st)"
    "emitted st = concat (map (pieces env) (take (length (generated st) - stop_hold env) (generated st)))"
    "stop_seqs (stops env) \<noteq> [] \<longrightarrow> stop_tail ?s = last_n 32 (generated st)"
    using assms(1) by (simp_all add: round_inv_def held_back_def)
  note c = stop_check_found [OF assms(2,3) hb(4), unfolded sc fst_conv snd_conv]
  from c(3) obtain tail where st2: "st2 = ?s\<lparr>stop_tail := tail\<rparr>" by blast
  have p: "session_hold_push env tok (stop_hold env) st2 = Some (ASTRAL_OK, st3)"
    using em assms(4) by (simp add: emit_or_hold_def)
  have "hold_ok st2" "held st2 = last_n (stop_hold env) (generated st)" "generated st2 = generated st @ [tok]"
    "emitted st2 = concat (map (pieces env) (take (length (generated st) - stop_hold env) (generated st)))"
    using hb by (simp_all add: st2 hold_ok_def held_def)
  from hold_push_held_back [OF p this(1,2,4,3) c(2)]
  show "held_back env st3" "generated st3 = generated st @ [tok]" .
  then show "stop = find_stop (stop_seqs (stops env)) (generated st3)" using c(1) by simp
  show "no_stop_before env (generated st3)"
    unfolding \<open>generated st3 = generated st @ [tok]\<close> using assms(1) by (intro no_stop_snoc) (simp_all add: round_inv_def)
qed

lemma generate_done:
  assumes "generate env n i b st = Some (Completed, err, st')" "round_inv env st"
    "stops_ok (stops env)" "sampler_ok env" "stream_enabled env"
  shows "err = ASTRAL_OK \<and> rounds_done env st'"
  using assms(1,2)
proof (induction n arbitrary: i b st)
  case 0
  then show ?case by (simp add: round_inv_done)
next
  case (Suc n)
  obtain err1 b1 where l: "session_logits env b = (err1, b1)" by fastforce
  obtain tok m b2 where s: "sample_token env b1 (penalty st) = (tok, m, b2)" by (cases "sample_token env b1 (penalty st)")
  obtain err2 b3 where a: "session_accept env b2 tok = (err2, b3)" by fastforce
  let ?s1 = "after_sample env tok m st"
  let ?s1' = "?s1\<lparr>total_tokens := total_tokens ?s1 + 1, generated := generated ?s1 @ [tok]\<rparr>"
  obtain stop st2 where c: "session_stop_check env tok ?s1' = (stop, st2)" by fastforce
  note e = Suc.prems(1) [unfolded generate.simps l s a c prod.case Let_def]
  have g: "\<not> cancel_at env i" "err1 = ASTRAL_OK" "err2 = ASTRAL_OK" using e by (auto split: if_splits)
  have tok: "0 \<le> sint tok" using assms(4) s by (simp add: sampler_ok_def) (metis fst_conv)
  have r1: "round_inv env ?s1" by (rule round_inv_after_sample [OF Suc.prems(2)])
  show ?case
  proof (cases "sint (token_eos env) \<ge> 0 \<and> tok = token_eos env")
    case True
    then have "err = ASTRAL_OK" "st' = ?s1" using e g by simp_all
    then show ?thesis using round_inv_done [OF r1] by simp
  next
    case ne: False
    have e2: "(case emit_or_hold env tok st2 of None \<Rightarrow> None
        | Some (err, st3) \<Rightarrow> if err \<noteq> ASTRAL_OK then Some (failed_as err, err, st3)
            else (case stop of Some stop_len \<Rightarrow> finish_stop env stop_len st3 | None \<Rightarrow> generate env n (i + 1) b3 st3)) =
        Some (Completed, err, st')"
      using e g unfolding if_not_P [OF ne] by simp
    obtain err3 st3 where em: "emit_or_hold env tok st2 = Some (err3, st3)" using e2 by (cases "emit_or_hold env tok st2") auto
    have ok: "err3 = ASTRAL_OK" using e2 em failed_as_not_completed [of err3] by (auto split: if_splits)
    note r = round_step [OF r1 assms(3) tok assms(5) c em [unfolded ok]]
    show ?thesis
    proof (cases stop)
      case None
      then have "generate env n (i + 1) b3 st3 = Some (Completed, err, st')" using e2 em ok by simp
      moreover have "round_inv env st3" using r None by (simp add: round_inv_def)
      ultimately show ?thesis by (rule Suc.IH)
    next
      case (Some len)
      then have f: "finish_stop env len st3 = Some (Completed, err, st')" using e2 em ok by simp
      have fs: "find_stop (stop_seqs (stops env)) (generated st3) = Some len" using r(1) Some by simp
      note bd = find_stop_bounds [OF fs seqs_bounds(2) [OF assms(3)]]
      note fin = finish_stop_sent [OF f r(2) assms(5), of] 
      have "err = ASTRAL_OK" "generated st' = generated st3" "hold_count st' = 0"
        "emitted st' = concat (map (pieces env) (take (length (generated st3) - len) (generated st3)))"
        using fin bd by blast+
      then show ?thesis using fs r(4) by (simp add: rounds_done_def)
    qed
  qed
qed

lemma round_inv_start:
  assumes "length (hold st) = kHoldCap" "emitted st = []" "generated st = []"
  shows "round_inv env (start_state env st)"
  using assms by (simp add: round_inv_def held_back_def hold_ok_def held_def start_state_def no_stop_before_def
      last_n_def kHoldCap_def)

text \<open>The length of the stop sequence that a text ends in, 0 without one.\<close>

definition stop_length :: "('b, 'm) decode_env \<Rightarrow> i32 list \<Rightarrow> nat" where
  "stop_length env ts = (case find_stop (stop_seqs (stops env)) ts of None \<Rightarrow> 0 | Some l \<Rightarrow> l)"

lemma decode_loop_sent:
  assumes "decode_loop env b st = Some (Completed, err, st')" "stream_enabled env" "stops_ok (stops env)" "sampler_ok env"
    "length (hold st) = kHoldCap" "emitted st = []" "generated st = []"
  shows "err = ASTRAL_OK \<and> no_stop_before env (generated st') \<and>
    emitted st' = concat (map (pieces env) (take (length (generated st') - stop_length env (generated st')) (generated st')))"
proof -
  obtain err0 b1 where f: "feed_prompt env b = (err0, b1)" by fastforce
  note e = assms(1) [unfolded decode_loop_def f prod.case]
  have ok0: "err0 = ASTRAL_OK" using e by (auto split: if_splits)
  obtain fs fe st1 where g: "generate env (max_tokens env) 0 b1 (start_state env st) = Some (fs, fe, st1)"
    using e ok0 by (cases "generate env (max_tokens env) 0 b1 (start_state env st)") auto
  have comp: "fs = Completed" using e ok0 g failed_as_not_completed by (auto split: if_splits option.splits)
  note d = generate_done [OF g [unfolded comp] round_inv_start [OF assms(5-7)] assms(3,4,2)]
  let ?G = "generated st1"
  show ?thesis
  proof (cases "hold_count st1 > 0")
    case True
    have n: "find_stop (stop_seqs (stops env)) ?G = None" "held_back env st1"
      using d True by (auto simp: rounds_done_def split: option.splits)
    obtain err2 st2 where h: "session_hold_flush_ready env 0 st1 = Some (err2, st2)"
      using e ok0 g comp True assms(2) by (cases "session_hold_flush_ready env 0 st1") auto
    have ok: "err2 = ASTRAL_OK" "err = fe" "st' = st2"
      using e ok0 g comp True assms(2) h failed_as_not_completed [of err2] by (auto split: if_splits)
    have "hold_ok st1" using n(2) by (simp add: held_back_def)
    note fl = flush_all_sent [OF h [unfolded ok] this]
    have "take (length ?G - stop_hold env) ?G @ held st1 = ?G" using n(2) by (simp add: held_back_def last_n_def)
    then have "emitted st2 = concat (map (pieces env) ?G)"
      using fl(3) n(2) by (simp add: held_back_def) (metis concat_append map_append)
    then show ?thesis using d fl(1) ok n(1) by (simp add: rounds_done_def stop_length_def)
  next
    case False
    have ok: "err = fe" "st' = st1" using e ok0 g comp False by auto
    show ?thesis
    proof (cases "find_stop (stop_seqs (stops env)) ?G")
      case None
      have hb: "held_back env st1" using d None by (simp add: rounds_done_def)
      then have "length (last_n (stop_hold env) ?G) = 0" using False length_held [of st1] by (simp add: held_back_def)
      then have "take (length ?G - stop_hold env) ?G = ?G" by auto
      then show ?thesis using d ok None hb by (simp add: rounds_done_def stop_length_def held_back_def)
    next
      case (Some l)
      then show ?thesis using d ok by (simp add: rounds_done_def stop_length_def)
    qed
  qed
qed

text \<open>C23: When a decode completes, the bytes that went into the stream are the text of the generated
  tokens, in order, without the stop sequence they end in, if they do: not a byte of the stop
  sequence is sent, although its tokens come one by one, and not a byte before it is lost. No stop
  sequence occurs earlier.\<close>
theorem stop_sequences_suppressed:
  assumes "decode_loop env b st = Some (Completed, err, st')" "stream_enabled env" "stops_ok (stops env)" "sampler_ok env"
    "length (hold st) = kHoldCap" "emitted st = []" "generated st = []"
  shows "err = ASTRAL_OK \<and> no_stop_before env (generated st') \<and>
    stream_bytes (emitted st') =
      concat (map (token_text env) (take (length (generated st') - stop_length env (generated st')) (generated st')))"
  using decode_loop_sent [OF assms] by (simp add: stream_bytes_all_pieces)

definition test_env :: "(i32 list, unit) decode_env" where
  "test_env =
     \<lparr>arm = False, reader = (\<lambda>_ r. r), cancel_requested = (\<lambda>k. k \<ge> 5), cancel_at = (\<lambda>_. False),
      detokenize = (\<lambda>t n. (ASTRAL_OK, [ucast t, ucast t + 1], 2)), spill_alloc = (\<lambda>_. True),
      feed_prompt = (\<lambda>b. (ASTRAL_OK, b)), session_logits = (\<lambda>b. (ASTRAL_OK, b)),
      sample_token = (\<lambda>b p. (if b = [] then 0 else if sint (hd b) < 0 then 0 else hd b, (), tl b)),
      session_accept = (\<lambda>b t. (ASTRAL_OK, b)), fresh_memory = (\<lambda>_. 0), newline_token = None, prompt_tokens = [4],
      stops = \<lparr>stop_seqs = [[20, 30]], stop_max_len = 2\<rparr>, max_tokens = 9, stream_enabled = True, logprobs_n = 0,
      token_eos = -1\<rparr>"

definition test_start :: "unit decode_state" where
  "test_start =
     \<lparr>ring = spsc_new (replicate 8 (stream_fragment 0 [])), clock = 0, emitted = [], generated = [], hold = replicate 64 0, hold_head = 0,
      hold_count = 0, stop_tail = [], total_tokens = 0, meta_ring = spsc_new [()], penalty = test_penalty\<rparr>"

declare flush_loop.simps [code]

lemma test_decode:
  "\<exists>err st'. decode_loop test_env [10, 20, 30, 40] test_start = Some (Completed, err, st') \<and> generated st' = [10, 20, 30]"
proof -
  have "case decode_loop test_env [10, 20, 30, 40] test_start of None \<Rightarrow> False
    | Some (fs, err, st') \<Rightarrow> fs = Completed \<and> generated st' = [10, 20, 30]"
    by code_simp
  then show ?thesis by (auto split: option.splits)
qed

theorem stop_sequences_suppressed_witness:
  "\<exists>err st'. decode_loop test_env [10, 20, 30, 40] test_start = Some (Completed, err, st') \<and>
     generated st' = [10, 20, 30] \<and> stream_bytes (emitted st') = [10, 11]"
proof -
  obtain err st' where d: "decode_loop test_env [10, 20, 30, 40] test_start = Some (Completed, err, st')"
    "generated st' = [10, 20, 30]" using test_decode by blast
  have c: "stream_enabled test_env" "stops_ok (stops test_env)" by (simp_all add: test_env_def stops_ok_def)
  have s: "sampler_ok test_env" by (auto simp: sampler_ok_def test_env_def)
  have i: "length (hold test_start) = kHoldCap" "emitted test_start = []" "generated test_start = []"
    by (simp_all add: test_start_def kHoldCap_def)
  have "concat (map (token_text test_env) (take (length [10, 20, 30 :: i32] - stop_length test_env [10, 20, 30]) [10, 20, 30])) = [10, 11]"
    by code_simp
  then show ?thesis using stop_sequences_suppressed [OF d(1) c s i] d by auto
qed

section \<open>A canceled decode ends\<close>

text \<open>The flag is set from some moment on and stays set; only a reset clears it.\<close>

definition canceled_from :: "('b, 'm) decode_env \<Rightarrow> nat \<Rightarrow> bool" where
  "canceled_from env n \<longleftrightarrow> (\<forall>k \<ge> n. cancel_requested env k)"

lemma flush_loop_returns:
  assumes "canceled_from env n"
  shows "\<exists>res. flush_loop env tok st = Some res"
proof (induction "n - clock st" arbitrary: st)
  case 0
  then have "cancel_requested env (clock st)" using assms by (simp add: canceled_from_def)
  obtain pushed r where p: "spsc_push (arm env) tok (ring st) = (pushed, r)" by fastforce
  show ?case using \<open>cancel_requested env (clock st)\<close>
    unfolding flush_loop.simps [of env tok st] p prod.case Let_def by (cases pushed) (simp_all del: split_paired_Ex)
next
  case (Suc m)
  have "\<exists>res. flush_loop env tok (st\<lparr>ring := r, clock := clock st + 1\<rparr>) = Some res" for r
    by (rule Suc.hyps(1)) (use Suc.hyps(2) in simp)
  then have ih: "\<exists>res. flush_loop env tok (st\<lparr>ring := r, clock := clock st + 1\<rparr>) = Some res" for r .
  obtain pushed r where p: "spsc_push (arm env) tok (ring st) = (pushed, r)" by fastforce
  show ?case using ih [of "reader env (clock st) r"]
    unfolding flush_loop.simps [of env tok st] p prod.case Let_def by (cases pushed) (simp_all del: split_paired_Ex)
qed

lemma emit_fragments_returns:
  assumes "canceled_from env n" "length bytes \<le> m"
  shows "\<exists>res. emit_fragments env tok bytes st = Some res"
  using assms(2)
proof (induction m arbitrary: bytes st)
  case 0
  then show ?case by (simp add: emit_fragments.simps)
next
  case (Suc m)
  show ?case
  proof (cases "bytes = []")
    case True
    then show ?thesis by (simp add: emit_fragments.simps)
  next
    case False
    have "length (drop 32 bytes) \<le> m" using Suc.prems False by (cases bytes) auto
    then have ih: "\<exists>res. emit_fragments env tok (drop 32 bytes) st1 = Some res" for st1 by (rule Suc.IH)
    obtain pushed st1 where f: "flush_loop env (stream_fragment tok (take 32 bytes)) st = Some (pushed, st1)"
      using flush_loop_returns [OF assms(1), of "stream_fragment tok (take 32 bytes)" st] by auto
    show ?thesis using ih [of st1] False by (subst emit_fragments.simps) (simp add: session_stream_flush_one_def f)
  qed
qed

lemma emit_token_returns:
  assumes "canceled_from env n"
  shows "\<exists>res. session_stream_emit_token env tok st = Some res"
proof -
  have b: "\<exists>res. session_stream_emit_bytes env tok bytes st = Some res" for bytes
    using emit_fragments_returns [OF assms order_refl, of tok bytes st]
      flush_loop_returns [OF assms, of "stream_fragment tok []" st]
    by (auto simp: session_stream_emit_bytes_def session_stream_flush_one_def)
  obtain err bytes len where a: "detokenize env tok 32 = (err, bytes, len)" by (cases "detokenize env tok 32")
  obtain err2 bytes2 req where q: "detokenize env tok 0 = (err2, bytes2, req)" by (cases "detokenize env tok 0")
  obtain err3 bytes3 len3 where c: "detokenize env tok req = (err3, bytes3, len3)" by (cases "detokenize env tok req")
  show ?thesis using b unfolding session_stream_emit_token_def a q c prod.case by simp
qed

lemma flush_held_returns:
  assumes "canceled_from env n"
  shows "\<exists>res. flush_held env m st = Some res"
proof (induction m arbitrary: st)
  case (Suc m)
  obtain err st1 where e: "session_stream_emit_token env (hold st ! hold_head st) st = Some (err, st1)"
    using emit_token_returns [OF assms, of "hold st ! hold_head st" st] by auto
  show ?case using Suc by (simp add: e)
qed simp

lemma flush_ready_returns:
  "canceled_from env n \<Longrightarrow> \<exists>res. session_hold_flush_ready env retain st = Some res"
  unfolding session_hold_flush_ready_def by (rule flush_held_returns)

lemma hold_push_returns:
  assumes "canceled_from env n"
  shows "\<exists>res. session_hold_push env tok keep st = Some res"
proof -
  obtain err st1 where f: "session_hold_flush_ready env keep st = Some (err, st1)"
    using flush_ready_returns [OF assms, of keep st] by auto
  show ?thesis unfolding session_hold_push_def f option.case prod.case
    using emit_token_returns [OF assms] flush_ready_returns [OF assms] by simp
qed

lemma generate_returns:
  assumes "canceled_from env n"
  shows "\<exists>res. generate env m i b st = Some res"
proof (induction m arbitrary: i b st)
  case (Suc m)
  have em: "\<exists>err st'. emit_or_hold env tok st2 = Some (err, st')" for tok st2
    using hold_push_returns [OF assms, of tok "stop_hold env" st2] by (auto simp: emit_or_hold_def)
  have fin: "\<exists>res. finish_stop env len st3 = Some res" for len st3
  proof -
    obtain err st1 where "session_hold_flush_ready env 0
        (st3\<lparr>hold_count := (if len \<ge> hold_count st3 then 0 else hold_count st3 - len)\<rparr>) = Some (err, st1)"
      using flush_ready_returns [OF assms] by fast
    then show ?thesis unfolding finish_stop_def by simp
  qed
  obtain err1 b1 where l: "session_logits env b = (err1, b1)" by fastforce
  obtain tok x b2 where s: "sample_token env b1 (penalty st) = (tok, x, b2)" by (cases "sample_token env b1 (penalty st)")
  obtain err2 b3 where a: "session_accept env b2 tok = (err2, b3)" by fastforce
  let ?s1 = "after_sample env tok x st"
  obtain stop st2 where c: "session_stop_check env tok
      (?s1\<lparr>total_tokens := total_tokens ?s1 + 1, generated := generated ?s1 @ [tok]\<rparr>) = (stop, st2)" by fastforce
  obtain err3 st3 where e: "emit_or_hold env tok st2 = Some (err3, st3)" using em by blast
  show ?case unfolding generate.simps l s a c e prod.case option.case Let_def
    using Suc.IH [of "i + 1" b3 st3] fin [of _ st3] by (cases stop) simp_all
qed simp

text \<open>C24: A decode whose session is canceled ends, even when nobody reads its stream and the ring is
  full: every push that waits gives up at the flag, and every loop of the decode is bounded.\<close>
theorem canceled_decode_returns:
  assumes "canceled_from env n"
  shows "\<exists>final err st'. decode_loop env b st = Some (final, err, st')"
proof -
  obtain err0 b1 where f: "feed_prompt env b = (err0, b1)" by fastforce
  obtain fs fe st1 where g: "generate env (max_tokens env) 0 b1 (start_state env st) = Some (fs, fe, st1)"
    using generate_returns [OF assms, of "max_tokens env" 0 b1 "start_state env st"] by auto
  obtain err st2 where h: "session_hold_flush_ready env 0 st1 = Some (err, st2)"
    using flush_ready_returns [OF assms, of 0 st1] by auto
  show ?thesis unfolding decode_loop_def f g h prod.case option.case by auto
qed

theorem canceled_decode_returns_witness:
  "\<exists>final err st'. decode_loop (test_env\<lparr>stops := \<lparr>stop_seqs = [], stop_max_len = 0\<rparr>\<rparr>) (replicate 20 1) test_start = Some (final, err, st')"
  by (rule canceled_decode_returns [of _ 5]) (simp add: canceled_from_def test_env_def)

end
