(* ===== verification/Session_Prompt.thy ===== *)
theory Session_Prompt
  imports Session_Stream
begin

text \<open>
  The prompt of a session: \<open>src/src/inference/prompt_chunks.hpp\<close> and the feeding functions of
  \<open>src/src/inference/session.cpp\<close>. A prompt is a list of chunks, text as ranges of a token buffer
  and media with a buffer of their own, which the decode thread hands to the backend in order.
  The buffers are the blocks of \<open>heap\<close>; the allocator and the tokenizer are parameters. The backend
  answers each call as a function of the calls before it, which are recorded.
\<close>

type_synonym i32 = "32 word"

section \<open>Chunks\<close>

datatype PromptChunkKind = Text | Image | Audio

record image_desc =
  image_size :: u32
  image_format :: u32
  image_width :: u32
  image_height :: u32
  image_row_stride :: u32
  image_flags :: u32
  image_pixels :: span
  image_gpu_device :: i32
  image_gpu_route_flags :: u32
  image_gpu_device_mask :: u64
  image_gpu_stream :: u64

record audio_desc =
  audio_size :: u32
  audio_format :: u32
  audio_channels :: u32
  audio_sample_rate :: u32
  audio_frame_count :: u64
  audio_samples :: span
  audio_flags :: u32
  audio_gpu_device :: i32
  audio_gpu_route_flags :: u32
  audio_gpu_device_mask :: u64
  audio_gpu_stream :: u64

text \<open>A media chunk keeps the description without its bytes, as \<open>Null_Span\<close> of their number: the data pointer
  of the copy is the owned buffer, and the bytes are those that lie in it on the heap.\<close>

record prompt_chunk =
  chunk_kind :: PromptChunkKind
  chunk_finalize :: u8
  token_start :: u32
  token_count :: u32
  chunk_image :: "image_desc option"
  chunk_audio :: "audio_desc option"
  owned_buffer :: "nat option"
  owned_bytes :: u64

definition kMaxPromptChunks :: nat where "kMaxPromptChunks = 128"

type_synonym heap = "nat \<rightharpoonup> u8 list"

definition prompt_chunk_release :: "prompt_chunk \<Rightarrow> heap \<Rightarrow> prompt_chunk \<times> heap" where
  "prompt_chunk_release c h =
     (c\<lparr>owned_buffer := None, owned_bytes := 0\<rparr>,
      case owned_buffer c of Some p \<Rightarrow> if owned_bytes c > 0 then h(p := None) else h | None \<Rightarrow> h)"

definition empty_chunk :: prompt_chunk where
  "empty_chunk = \<lparr>chunk_kind = Text, chunk_finalize = 0, token_start = 0, token_count = 0, chunk_image = None,
     chunk_audio = None, owned_buffer = None, owned_bytes = 0\<rparr>"

definition prompt_chunk_reset :: "prompt_chunk \<Rightarrow> heap \<Rightarrow> prompt_chunk \<times> heap" where
  "prompt_chunk_reset c h = (empty_chunk, snd (prompt_chunk_release c h))"

section \<open>The prompt of a session\<close>

text \<open>Only the first \<open>prompt_chunk_count\<close> chunks of the array are kept, so that is their number.\<close>

record prompt_session =
  feed_state :: SessionState
  prompt_buffer :: "i32 list"
  prompt_count :: u32
  prompt_capacity :: u32
  prompt_chunks :: "prompt_chunk list"
  prompt_heap :: heap

definition session_prompt_chunks_clear :: "prompt_session \<Rightarrow> prompt_session" where
  "session_prompt_chunks_clear s =
     s\<lparr>prompt_heap := fold (\<lambda>c h. snd (prompt_chunk_reset c h)) (prompt_chunks s) (prompt_heap s), prompt_chunks := []\<rparr>"

definition image_desc_valid :: "image_desc option \<Rightarrow> bool" where
  "image_desc_valid img \<longleftrightarrow>
     (case img of None \<Rightarrow> False
      | Some d \<Rightarrow> image_size d = 64 \<and> (case image_pixels d of Null_Span _ \<Rightarrow> False | Span _ \<Rightarrow> True) \<and>
          span_len (image_pixels d) \<noteq> 0 \<and> image_width d \<noteq> 0 \<and> image_height d \<noteq> 0)"

definition audio_desc_valid :: "audio_desc option \<Rightarrow> bool" where
  "audio_desc_valid audio \<longleftrightarrow>
     (case audio of None \<Rightarrow> False
      | Some d \<Rightarrow> audio_size d = 72 \<and> (case audio_samples d of Null_Span _ \<Rightarrow> False | Span _ \<Rightarrow> True) \<and>
          span_len (audio_samples d) \<noteq> 0 \<and> audio_channels d \<noteq> 0 \<and> audio_sample_rate d \<noteq> 0 \<and>
          audio_frame_count d \<noteq> 0)"

definition session_push_text_chunk :: "u32 \<Rightarrow> u32 \<Rightarrow> u8 \<Rightarrow> prompt_session \<Rightarrow> astral_err \<times> prompt_session" where
  "session_push_text_chunk start n finalize s =
     (if n = 0 then (ASTRAL_OK, s)
      else if length (prompt_chunks s) \<ge> kMaxPromptChunks then (ASTRAL_E_NOMEM, s)
      else (ASTRAL_OK, s\<lparr>prompt_chunks := prompt_chunks s @
        [empty_chunk\<lparr>chunk_kind := Text, chunk_finalize := finalize, token_start := start, token_count := n\<rparr>]\<rparr>))"

text \<open>\<open>memcpy\<close> of the bytes into the new buffer, to which the copied description points.\<close>

definition copied_span :: "span \<Rightarrow> u8 list" where
  "copied_span bytes = take (unat (span_len bytes)) (span_bytes bytes)"

definition session_push_media_chunk ::
  "(heap \<Rightarrow> nat \<Rightarrow> nat option) \<Rightarrow> image_desc option \<Rightarrow> audio_desc option \<Rightarrow> u8 \<Rightarrow> prompt_session \<Rightarrow>
   astral_err \<times> prompt_session" where
  "session_push_media_chunk alloc img audio finalize s =
     (if length (prompt_chunks s) \<ge> kMaxPromptChunks then (ASTRAL_E_NOMEM, s)
      else if (img = None) = (audio = None) then (ASTRAL_E_INVALID, s)
      else
        (case img of
           Some d \<Rightarrow>
             (case alloc (prompt_heap s) (unat (span_len (image_pixels d))) of
                None \<Rightarrow> (ASTRAL_E_NOMEM, s)
              | Some buf \<Rightarrow>
                  (let bytes = copied_span (image_pixels d)
                   in (ASTRAL_OK, s\<lparr>prompt_heap := (prompt_heap s)(buf \<mapsto> bytes), prompt_chunks := prompt_chunks s @
                        [empty_chunk\<lparr>chunk_finalize := finalize, chunk_kind := Image,
                           chunk_image := Some (d\<lparr>image_pixels := Null_Span (span_len (image_pixels d))\<rparr>), owned_buffer := Some buf,
                           owned_bytes := ucast (span_len (image_pixels d))\<rparr>]\<rparr>)))
         | None \<Rightarrow>
             (case audio of
                Some d \<Rightarrow>
                  (case alloc (prompt_heap s) (unat (span_len (audio_samples d))) of
                     None \<Rightarrow> (ASTRAL_E_NOMEM, s)
                   | Some buf \<Rightarrow>
                       (let bytes = copied_span (audio_samples d)
                        in (ASTRAL_OK, s\<lparr>prompt_heap := (prompt_heap s)(buf \<mapsto> bytes), prompt_chunks := prompt_chunks s @
                             [empty_chunk\<lparr>chunk_finalize := finalize, chunk_kind := Audio,
                                chunk_audio := Some (d\<lparr>audio_samples := Null_Span (span_len (audio_samples d))\<rparr>), owned_buffer := Some buf,
                                owned_bytes := ucast (span_len (audio_samples d))\<rparr>]\<rparr>)))
              | None \<Rightarrow> (ASTRAL_OK, s))))"

section \<open>Feeding\<close>

definition feedable :: "prompt_session \<Rightarrow> bool" where
  "feedable s \<longleftrightarrow> feed_state s = Idle \<or> feed_state s = FeedingPrompt"

definition begin_feeding :: "prompt_session \<Rightarrow> prompt_session" where
  "begin_feeding s = (if feed_state s = Idle then s\<lparr>feed_state := FeedingPrompt\<rparr> else s)"

text \<open>\<open>tokenize\<close> gets the text, the room and whether special tokens are added; it returns its status,
  the tokens it wrote and their number.\<close>

definition session_feed ::
  "(span \<Rightarrow> u32 \<Rightarrow> bool \<Rightarrow> astral_err \<times> i32 list \<times> u32) \<Rightarrow> span \<Rightarrow> u8 \<Rightarrow> prompt_session \<Rightarrow>
   astral_err \<times> prompt_session" where
  "session_feed tokenize prompt finalize s =
     (if \<not> feedable s then (ASTRAL_E_STATE, s)
      else
        let s1 = begin_feeding s;
            has_text = (span_len prompt > 0 \<and> (case prompt of Null_Span _ \<Rightarrow> False | Span _ \<Rightarrow> True))
        in if has_text \<or> (finalize \<noteq> 0 \<and> prompt_count s1 = 0) then
             if length (prompt_chunks s1) \<ge> kMaxPromptChunks then (ASTRAL_E_NOMEM, s1)
             else
               (case tokenize prompt (prompt_capacity s1 - prompt_count s1) (prompt_count s1 = 0) of
                  (err, tokens, n) \<Rightarrow>
                    let s2 = s1\<lparr>prompt_buffer := write_at (prompt_buffer s1) (unat (prompt_count s1)) tokens\<rparr>
                    in if err \<noteq> ASTRAL_OK then (err, s2)
                       else if n = 0 then (ASTRAL_OK, s2)
                       else
                         let s3 = s2\<lparr>prompt_count := prompt_count s2 + n\<rparr>
                         in if prompt_count s3 \<ge> prompt_capacity s3 then (ASTRAL_E_NOMEM, s3)
                            else session_push_text_chunk (prompt_count s1) n finalize s3)
           else (ASTRAL_OK, s1))"

text \<open>A null array is \<open>None\<close>.\<close>

definition session_feed_tokens ::
  "i32 list option \<Rightarrow> u32 \<Rightarrow> u8 \<Rightarrow> prompt_session \<Rightarrow> astral_err \<times> prompt_session" where
  "session_feed_tokens tokens n finalize s =
     (if n \<noteq> 0 \<and> tokens = None then (ASTRAL_E_INVALID, s)
      else if \<not> feedable s then (ASTRAL_E_STATE, s)
      else
        let s1 = begin_feeding s
        in if n = 0 then (ASTRAL_OK, s1)
           else if length (prompt_chunks s1) \<ge> kMaxPromptChunks then (ASTRAL_E_NOMEM, s1)
           else if n \<ge> prompt_capacity s1 - prompt_count s1 then (ASTRAL_E_NOMEM, s1)
           else session_push_text_chunk (prompt_count s1) n finalize
                  (s1\<lparr>prompt_buffer := write_at (prompt_buffer s1) (unat (prompt_count s1))
                        (take (unat n) (case tokens of Some ts \<Rightarrow> ts | None \<Rightarrow> [])),
                      prompt_count := prompt_count s1 + n\<rparr>))"

definition session_feed_image ::
  "(heap \<Rightarrow> nat \<Rightarrow> nat option) \<Rightarrow> bool \<Rightarrow> image_desc option \<Rightarrow> u8 \<Rightarrow> prompt_session \<Rightarrow>
   astral_err \<times> prompt_session" where
  "session_feed_image alloc supported img finalize s =
     (if \<not> image_desc_valid img then (ASTRAL_E_INVALID, s)
      else if \<not> feedable s then (ASTRAL_E_STATE, s)
      else if \<not> supported then (ASTRAL_E_UNSUPPORTED, s)
      else session_push_media_chunk alloc img None finalize (begin_feeding s))"

definition session_feed_audio ::
  "(heap \<Rightarrow> nat \<Rightarrow> nat option) \<Rightarrow> bool \<Rightarrow> audio_desc option \<Rightarrow> u8 \<Rightarrow> prompt_session \<Rightarrow>
   astral_err \<times> prompt_session" where
  "session_feed_audio alloc supported audio finalize s =
     (if \<not> audio_desc_valid audio then (ASTRAL_E_INVALID, s)
      else if \<not> feedable s then (ASTRAL_E_STATE, s)
      else if \<not> supported then (ASTRAL_E_UNSUPPORTED, s)
      else session_push_media_chunk alloc None audio finalize (begin_feeding s))"

section \<open>Handing the prompt to the backend\<close>

datatype backend_call =
    Feed "i32 list"
  | Feed_Image "image_desc option" u8
  | Feed_Audio "audio_desc option" u8

type_synonym backend = "backend_call list \<Rightarrow> backend_call \<Rightarrow> astral_err"

text \<open>What the backend reads through the description of a chunk: the bytes that lie in the chunk's buffer at
  that time.\<close>

definition owned_span :: "heap \<Rightarrow> prompt_chunk \<Rightarrow> u32 \<Rightarrow> span" where
  "owned_span h c n = (case owned_buffer c of None \<Rightarrow> Null_Span n
     | Some p \<Rightarrow> (case h p of None \<Rightarrow> Null_Span n | Some bytes \<Rightarrow> Span (take (unat n) bytes)))"

definition seen_image :: "heap \<Rightarrow> prompt_chunk \<Rightarrow> image_desc option" where
  "seen_image h c = map_option (\<lambda>d. d\<lparr>image_pixels := owned_span h c (span_len (image_pixels d))\<rparr>) (chunk_image c)"

definition seen_audio :: "heap \<Rightarrow> prompt_chunk \<Rightarrow> audio_desc option" where
  "seen_audio h c = map_option (\<lambda>d. d\<lparr>audio_samples := owned_span h c (span_len (audio_samples d))\<rparr>) (chunk_audio c)"

text \<open>The two flags tell whether the backend takes images and audio.\<close>

definition feed_chunk ::
  "backend \<Rightarrow> bool \<Rightarrow> bool \<Rightarrow> i32 list \<Rightarrow> prompt_chunk \<Rightarrow> heap \<Rightarrow> backend_call list \<Rightarrow>
   astral_err \<times> prompt_chunk \<times> heap \<times> backend_call list" where
  "feed_chunk be images audio buf c h calls =
     (case chunk_kind c of
        Text \<Rightarrow>
          if token_count c = 0 then (ASTRAL_OK, c, h, calls)
          else
            let call = Feed (take (unat (token_count c)) (drop (unat (token_start c)) buf))
            in (be calls call, c, h, calls @ [call])
      | Image \<Rightarrow>
          if \<not> images then (ASTRAL_E_UNSUPPORTED, c, h, calls)
          else
            let call = Feed_Image (seen_image h c) (chunk_finalize c)
            in (case prompt_chunk_release c h of (c', h') \<Rightarrow> (be calls call, c', h', calls @ [call]))
      | Audio \<Rightarrow>
          if \<not> audio then (ASTRAL_E_UNSUPPORTED, c, h, calls)
          else
            let call = Feed_Audio (seen_audio h c) (chunk_finalize c)
            in (case prompt_chunk_release c h of (c', h') \<Rightarrow> (be calls call, c', h', calls @ [call])))"

fun feed_chunks ::
  "backend \<Rightarrow> bool \<Rightarrow> bool \<Rightarrow> i32 list \<Rightarrow> prompt_chunk list \<Rightarrow> heap \<Rightarrow> backend_call list \<Rightarrow>
   astral_err \<times> prompt_chunk list \<times> heap \<times> backend_call list" where
  "feed_chunks be images audio buf [] h calls = (ASTRAL_OK, [], h, calls)"
| "feed_chunks be images audio buf (c # cs) h calls =
     (case feed_chunk be images audio buf c h calls of
        (err, c', h', calls') \<Rightarrow>
          if err \<noteq> ASTRAL_OK then (err, c' # cs, h', calls')
          else
            (case feed_chunks be images audio buf cs h' calls' of
               (err, cs', h'', calls'') \<Rightarrow> (err, c' # cs', h'', calls'')))"

definition session_feed_prompt_chunks ::
  "backend \<Rightarrow> bool \<Rightarrow> bool \<Rightarrow> prompt_session \<Rightarrow> backend_call list \<Rightarrow> astral_err \<times> prompt_session \<times> backend_call list" where
  "session_feed_prompt_chunks be images audio s calls =
     (if prompt_chunks s = [] then
        let call = Feed (take (unat (prompt_count s)) (prompt_buffer s)) in (be calls call, s, calls @ [call])
      else
        (case feed_chunks be images audio (prompt_buffer s) (prompt_chunks s) (prompt_heap s) calls of
           (err, cs, h, calls') \<Rightarrow> (err, s\<lparr>prompt_chunks := cs, prompt_heap := h\<rparr>, calls')))"

section \<open>What a prompt means\<close>

text \<open>The call that a chunk stands for.\<close>

definition chunk_call :: "i32 list \<Rightarrow> heap \<Rightarrow> prompt_chunk \<Rightarrow> backend_call" where
  "chunk_call buf h c =
     (case chunk_kind c of
        Text \<Rightarrow> Feed (take (unat (token_count c)) (drop (unat (token_start c)) buf))
      | Image \<Rightarrow> Feed_Image (seen_image h c) (chunk_finalize c)
      | Audio \<Rightarrow> Feed_Audio (seen_audio h c) (chunk_finalize c))"

text \<open>A text chunk is a nonempty range of the tokens fed so far; a media chunk owns a block of its own.\<close>

definition chunk_ok :: "u32 \<Rightarrow> prompt_chunk \<Rightarrow> bool" where
  "chunk_ok n c \<longleftrightarrow>
     (if chunk_kind c = Text then token_count c \<noteq> 0 \<and> owned_buffer c = None \<and>
        unat (token_start c) + unat (token_count c) \<le> unat n
      else owned_buffer c \<noteq> None \<longrightarrow> 0 < owned_bytes c)"

definition owned :: "prompt_chunk list \<Rightarrow> nat list" where
  "owned cs = concat (map (\<lambda>c. case owned_buffer c of None \<Rightarrow> [] | Some p \<Rightarrow> [p]) cs)"

definition prompt_inv :: "prompt_session \<Rightarrow> bool" where
  "prompt_inv s \<longleftrightarrow>
     length (prompt_buffer s) = unat (prompt_capacity s) \<and> unat (prompt_count s) \<le> unat (prompt_capacity s) \<and>
     list_all (chunk_ok (prompt_count s)) (prompt_chunks s) \<and>
     distinct (owned (prompt_chunks s)) \<and> dom (prompt_heap s) = set (owned (prompt_chunks s))"

definition fed_calls :: "prompt_session \<Rightarrow> backend_call list" where
  "fed_calls s = map (chunk_call (prompt_buffer s) (prompt_heap s)) (prompt_chunks s)"

lemma owned_simps [simp]:
  "owned [] = []" "owned (cs @ ds) = owned cs @ owned ds"
  "owned [c] = (case owned_buffer c of None \<Rightarrow> [] | Some p \<Rightarrow> [p])"
  by (simp_all add: owned_def)

lemma owned_Cons: "owned (c # cs) = (case owned_buffer c of None \<Rightarrow> [] | Some p \<Rightarrow> [p]) @ owned cs"
  by (simp add: owned_def)

text \<open>A chunk stands for the same call as long as its own buffer is left alone.\<close>

lemma chunk_call_heap:
  assumes "\<And>p. owned_buffer c = Some p \<Longrightarrow> h' p = h p"
  shows "chunk_call buf h' c = chunk_call buf h c"
proof -
  have "owned_span h' c n = owned_span h c n" for n
    using assms by (cases "owned_buffer c") (simp_all add: owned_span_def)
  note sp = this
  have "seen_image h' c = seen_image h c" by (cases "chunk_image c") (simp_all add: seen_image_def sp)
  moreover have "seen_audio h' c = seen_audio h c" by (cases "chunk_audio c") (simp_all add: seen_audio_def sp)
  ultimately show ?thesis by (cases "chunk_kind c") (simp_all add: chunk_call_def)
qed

lemma owned_in: "c \<in> set cs \<Longrightarrow> owned_buffer c = Some p \<Longrightarrow> p \<in> set (owned cs)"
  by (auto simp: owned_def intro!: bexI [of _ c])

lemma calls_heap:
  assumes "\<And>p. p \<in> set (owned cs) \<Longrightarrow> h' p = h p"
  shows "map (chunk_call buf h') cs = map (chunk_call buf h) cs"
  using assms by (intro map_cong refl chunk_call_heap) (blast intro: owned_in)

text \<open>What the code relies on: the tokenizer writes no more tokens than there is room for and says how
  many; the allocator hands out a block that is not in use.\<close>

definition tokenizer_ok :: "(span \<Rightarrow> u32 \<Rightarrow> bool \<Rightarrow> astral_err \<times> i32 list \<times> u32) \<Rightarrow> bool" where
  "tokenizer_ok tokenize \<longleftrightarrow> (\<forall>prompt room special err ts n. tokenize prompt room special = (err, ts, n) \<longrightarrow>
     length ts \<le> unat room \<and> (err = ASTRAL_OK \<longrightarrow> length ts = unat n))"

definition alloc_fresh :: "(heap \<Rightarrow> nat \<Rightarrow> nat option) \<Rightarrow> bool" where
  "alloc_fresh alloc \<longleftrightarrow> (\<forall>h n p. alloc h n = Some p \<longrightarrow> h p = None)"

lemma take_drop_write_before:
  assumes "a + n \<le> off" "off + length ts \<le> length buf"
  shows "take n (drop a (write_at buf off ts)) = take n (drop a buf)"
proof -
  have "n \<le> off - a" "a \<le> length (take off buf)" "n \<le> length (drop a (take off buf))" using assms by simp_all
  then show ?thesis using assms(1) by (simp add: write_at_def drop_take min_absorb1)
qed

lemma take_drop_write_at:
  "off + length ts \<le> length buf \<Longrightarrow> take (length ts) (drop off (write_at buf off ts)) = ts"
  by (simp add: write_at_def)

text \<open>Writing behind the tokens fed so far changes no chunk.\<close>

lemma write_behind:
  assumes "prompt_inv s" "unat (prompt_count s) + length ts \<le> unat (prompt_capacity s)"
  defines "s' \<equiv> s\<lparr>prompt_buffer := write_at (prompt_buffer s) (unat (prompt_count s)) ts\<rparr>"
  shows "prompt_inv s'" "fed_calls s' = fed_calls s"
proof -
  have l: "unat (prompt_count s) + length ts \<le> length (prompt_buffer s)" using assms(1,2) by (simp add: prompt_inv_def)
  have "chunk_call (prompt_buffer s') h c = chunk_call (prompt_buffer s) h c" if "c \<in> set (prompt_chunks s)" for c h
  proof (cases "chunk_kind c = Text")
    case True
    then have "unat (token_start c) + unat (token_count c) \<le> unat (prompt_count s)"
      using assms(1) that by (auto simp: prompt_inv_def list_all_iff chunk_ok_def)
    from take_drop_write_before [OF this l] show ?thesis using True by (simp add: chunk_call_def s'_def)
  next
    case False
    then show ?thesis by (cases "chunk_kind c") (simp_all add: chunk_call_def)
  qed
  then show "fed_calls s' = fed_calls s" by (simp add: fed_calls_def s'_def)
  show "prompt_inv s'" using assms(1) l by (simp add: prompt_inv_def s'_def chunk_ok_def)
qed

lemma unat_add_le:
  assumes "unat (a :: u32) + unat b \<le> unat (c :: u32)"
  shows "unat (a + b) = unat a + unat b"
proof -
  have "unat c < 2 ^ LENGTH(32)" by (rule unsigned_less)
  then show ?thesis using assms by (simp add: unat_word_ariths(1))
qed

lemma unat_room: "unat n \<le> unat cap \<Longrightarrow> unat ((cap :: u32) - n) = unat cap - unat n"
  by (simp add: unat_sub word_le_nat_alt)

text \<open>A new text chunk over the tokens just written.\<close>

lemma push_text_fed:
  assumes "prompt_inv s" "length ts = unat n" "unat (prompt_count s) + unat n \<le> unat (prompt_capacity s)" "n \<noteq> 0"
  defines "s1 \<equiv> s\<lparr>prompt_buffer := write_at (prompt_buffer s) (unat (prompt_count s)) ts, prompt_count := prompt_count s + n\<rparr>"
  assumes p: "session_push_text_chunk (prompt_count s) n fin s1 = (err, s')"
  shows "prompt_inv s'" "err = ASTRAL_OK \<longrightarrow> fed_calls s' = fed_calls s @ [Feed ts]" "err \<noteq> ASTRAL_OK \<longrightarrow> fed_calls s' = fed_calls s"
proof -
  let ?w = "s\<lparr>prompt_buffer := write_at (prompt_buffer s) (unat (prompt_count s)) ts\<rparr>"
  have le: "unat (prompt_count s) + length ts \<le> unat (prompt_capacity s)" using assms(2,3) by simp
  note w = write_behind [OF assms(1) le]
  have pc: "unat (prompt_count s1) = unat (prompt_count s) + unat n" using unat_add_le [OF assms(3)] by (simp add: s1_def)
  have inv1: "prompt_inv s1"
    using w(1) assms(3) pc by (auto simp: prompt_inv_def s1_def chunk_ok_def list_all_iff split: if_splits)
  have f1: "fed_calls s1 = fed_calls s" using w(2) by (simp add: fed_calls_def s1_def)
  show "prompt_inv s'" "err = ASTRAL_OK \<longrightarrow> fed_calls s' = fed_calls s @ [Feed ts]" "err \<noteq> ASTRAL_OK \<longrightarrow> fed_calls s' = fed_calls s"
  proof -
    have "prompt_inv s' \<and> (err = ASTRAL_OK \<longrightarrow> fed_calls s' = fed_calls s @ [Feed ts]) \<and> (err \<noteq> ASTRAL_OK \<longrightarrow> fed_calls s' = fed_calls s)"
    proof (cases "length (prompt_chunks s1) \<ge> kMaxPromptChunks")
      case True
      then have "s' = s1" "err = ASTRAL_E_NOMEM" using p assms(4) by (simp_all add: session_push_text_chunk_def)
      then show ?thesis using inv1 f1 by simp
    next
      case False
      let ?c = "empty_chunk\<lparr>chunk_kind := Text, chunk_finalize := fin, token_start := prompt_count s, token_count := n\<rparr>"
      have s': "s' = s1\<lparr>prompt_chunks := prompt_chunks s1 @ [?c]\<rparr>" "err = ASTRAL_OK"
        using p assms(4) False by (simp_all add: session_push_text_chunk_def)
      have "chunk_ok (prompt_count s1) ?c" using pc assms(4) by (simp add: chunk_ok_def empty_chunk_def)
      then have i: "prompt_inv s'"
        using inv1 by (simp add: s' prompt_inv_def chunk_ok_def list_all_iff empty_chunk_def)
      have "unat (prompt_count s) + length ts \<le> length (prompt_buffer s)" using assms(1) le by (simp add: prompt_inv_def)
      from take_drop_write_at [OF this] have "chunk_call (prompt_buffer s1) (prompt_heap s1) ?c = Feed ts"
        using assms(2) by (simp add: chunk_call_def s1_def empty_chunk_def)
      then have "fed_calls s' = fed_calls s1 @ [Feed ts]" by (simp add: fed_calls_def s')
      then show ?thesis using i f1 s' by simp
    qed
    then show "prompt_inv s'" "err = ASTRAL_OK \<longrightarrow> fed_calls s' = fed_calls s @ [Feed ts]"
      "err \<noteq> ASTRAL_OK \<longrightarrow> fed_calls s' = fed_calls s" by blast+
  qed
qed

lemma begin_feeding_same [simp]:
  "prompt_buffer (begin_feeding s) = prompt_buffer s" "prompt_count (begin_feeding s) = prompt_count s"
  "prompt_capacity (begin_feeding s) = prompt_capacity s" "prompt_chunks (begin_feeding s) = prompt_chunks s"
  "prompt_heap (begin_feeding s) = prompt_heap s" "prompt_inv (begin_feeding s) = prompt_inv s"
  "fed_calls (begin_feeding s) = fed_calls s"
  by (simp_all add: begin_feeding_def prompt_inv_def chunk_ok_def fed_calls_def)

lemma push_media_fed:
  assumes "prompt_inv s" "alloc_fresh alloc"
    and p: "session_push_media_chunk alloc img audio fin s = (err, s')"
    and b: "\<And>d. img = Some d \<Longrightarrow> span_len (image_pixels d) \<noteq> 0" "\<And>d. audio = Some d \<Longrightarrow> span_len (audio_samples d) \<noteq> 0"
  shows "prompt_inv s' \<and> (err \<noteq> ASTRAL_OK \<longrightarrow> s' = s) \<and> (\<exists>call. err = ASTRAL_OK \<longrightarrow> fed_calls s' = fed_calls s @ [call])"
proof (cases "err = ASTRAL_OK")
  case False
  then have "s' = s" using p by (auto simp: session_push_media_chunk_def Let_def split: if_splits option.splits)
  then show ?thesis using False assms(1) by simp
next
  case True
  have uc: "(ucast (n :: u32) :: u64) > 0" if "n \<noteq> 0" for n
    using that unat_ucast_up [of n] by (metis unat_gt_0 word_gt_0)
  have "\<exists>c buf bytes. s' = s\<lparr>prompt_heap := (prompt_heap s)(buf \<mapsto> bytes), prompt_chunks := prompt_chunks s @ [c]\<rparr> \<and>
      prompt_heap s buf = None \<and> chunk_kind c \<noteq> Text \<and> owned_buffer c = Some buf \<and> 0 < owned_bytes c"
  proof (cases img)
    case (Some d)
    obtain buf where a: "alloc (prompt_heap s) (unat (span_len (image_pixels d))) = Some buf"
      using p True Some by (auto simp: session_push_media_chunk_def Let_def split: if_splits option.splits)
    then have fr: "prompt_heap s buf = None" using assms(2) by (simp add: alloc_fresh_def)
    have "s' = s\<lparr>prompt_heap := (prompt_heap s)(buf \<mapsto> copied_span (image_pixels d)), prompt_chunks := prompt_chunks s @
        [empty_chunk\<lparr>chunk_finalize := fin, chunk_kind := Image,
           chunk_image := Some (d\<lparr>image_pixels := Null_Span (span_len (image_pixels d))\<rparr>), owned_buffer := Some buf,
           owned_bytes := ucast (span_len (image_pixels d))\<rparr>]\<rparr>"
      using p True Some a by (simp add: session_push_media_chunk_def Let_def split: if_splits)
    then show ?thesis using fr uc [OF b(1) [OF Some]] by (intro exI conjI) (assumption | simp add: empty_chunk_def)+
  next
    case None
    obtain d where d: "audio = Some d"
      using p True None by (auto simp: session_push_media_chunk_def split: if_splits)
    obtain buf where a: "alloc (prompt_heap s) (unat (span_len (audio_samples d))) = Some buf"
      using p True None d by (auto simp: session_push_media_chunk_def Let_def split: if_splits option.splits)
    then have fr: "prompt_heap s buf = None" using assms(2) by (simp add: alloc_fresh_def)
    have "s' = s\<lparr>prompt_heap := (prompt_heap s)(buf \<mapsto> copied_span (audio_samples d)), prompt_chunks := prompt_chunks s @
        [empty_chunk\<lparr>chunk_finalize := fin, chunk_kind := Audio,
           chunk_audio := Some (d\<lparr>audio_samples := Null_Span (span_len (audio_samples d))\<rparr>), owned_buffer := Some buf,
           owned_bytes := ucast (span_len (audio_samples d))\<rparr>]\<rparr>"
      using p True None d a by (simp add: session_push_media_chunk_def Let_def split: if_splits)
    then show ?thesis using fr uc [OF b(2) [OF d]] by (intro exI conjI) (assumption | simp add: empty_chunk_def)+
  qed
  then obtain c buf bytes where c: "s' = s\<lparr>prompt_heap := (prompt_heap s)(buf \<mapsto> bytes), prompt_chunks := prompt_chunks s @ [c]\<rparr>"
    "prompt_heap s buf = None" "chunk_kind c \<noteq> Text" "owned_buffer c = Some buf" "0 < owned_bytes c" by blast
  have nb: "buf \<notin> set (owned (prompt_chunks s))" using assms(1) c(2) by (auto simp: prompt_inv_def)
  then have "prompt_inv s'" using assms(1) c by (auto simp: prompt_inv_def chunk_ok_def list_all_iff)
  moreover have "map (chunk_call (prompt_buffer s) ((prompt_heap s)(buf \<mapsto> bytes))) (prompt_chunks s) = fed_calls s"
    unfolding fed_calls_def by (rule calls_heap) (use nb in auto)
  ultimately show ?thesis using True c(1) by (simp add: fed_calls_def)
qed

section \<open>Feeding keeps the invariant and adds the calls it accepts\<close>

datatype feed_op =
    Op_Text span u8
  | Op_Tokens "i32 list option" u32 u8
  | Op_Image "image_desc option" u8
  | Op_Audio "audio_desc option" u8

text \<open>\<open>images\<close> and \<open>audio\<close> tell which media the backend takes.\<close>

fun run_op ::
  "(span \<Rightarrow> u32 \<Rightarrow> bool \<Rightarrow> astral_err \<times> i32 list \<times> u32) \<Rightarrow> (heap \<Rightarrow> nat \<Rightarrow> nat option) \<Rightarrow> bool \<Rightarrow> bool \<Rightarrow>
   feed_op \<Rightarrow> prompt_session \<Rightarrow> astral_err \<times> prompt_session" where
  "run_op tokenize alloc images audio (Op_Text prompt fin) s = session_feed tokenize prompt fin s"
| "run_op tokenize alloc images audio (Op_Tokens ts n fin) s = session_feed_tokens ts n fin s"
| "run_op tokenize alloc images audio (Op_Image d fin) s = session_feed_image alloc images d fin s"
| "run_op tokenize alloc images audio (Op_Audio d fin) s = session_feed_audio alloc audio d fin s"

text \<open>The calls that an accepted operation asks for: the tokens of a text, and for media what the caller gave.\<close>

fun op_calls ::
  "(span \<Rightarrow> u32 \<Rightarrow> bool \<Rightarrow> astral_err \<times> i32 list \<times> u32) \<Rightarrow> feed_op \<Rightarrow> prompt_session \<Rightarrow> backend_call list" where
  "op_calls tokenize (Op_Text prompt fin) s =
     (if (span_len prompt > 0 \<and> (case prompt of Null_Span _ \<Rightarrow> False | Span _ \<Rightarrow> True)) \<or> (fin \<noteq> 0 \<and> prompt_count s = 0)
      then (case tokenize prompt (prompt_capacity s - prompt_count s) (prompt_count s = 0) of
              (err, ts, n) \<Rightarrow> if n = 0 then [] else [Feed ts])
      else [])"
| "op_calls tokenize (Op_Tokens ts n fin) s = (if n = 0 then [] else [Feed (take (unat n) (the ts))])"
| "op_calls tokenize (Op_Image d fin) s =
     [Feed_Image d fin]"
| "op_calls tokenize (Op_Audio d fin) s =
     [Feed_Audio d fin]"

text \<open>An array of \<open>n\<close> tokens has at least \<open>n\<close> of them, and the length of a span fits its 32 bits.\<close>

fun op_ok :: "feed_op \<Rightarrow> bool" where
  "op_ok (Op_Tokens (Some ts) n fin) \<longleftrightarrow> unat n \<le> length ts"
| "op_ok (Op_Image (Some d) fin) \<longleftrightarrow> length (span_bytes (image_pixels d)) < 2 ^ 32"
| "op_ok (Op_Audio (Some d) fin) \<longleftrightarrow> length (span_bytes (audio_samples d)) < 2 ^ 32"
| "op_ok _ \<longleftrightarrow> True"

definition fed_by :: "prompt_session \<Rightarrow> backend_call list \<Rightarrow> astral_err \<times> prompt_session \<Rightarrow> bool" where
  "fed_by s calls r \<longleftrightarrow> prompt_inv (snd r) \<and>
     fed_calls (snd r) = fed_calls s @ (if fst r = ASTRAL_OK then calls else [])"

lemma fed_by_unchanged: "prompt_inv s \<Longrightarrow> err \<noteq> ASTRAL_OK \<Longrightarrow> fed_by s calls (err, s)"
  by (simp add: fed_by_def)

lemma session_feed_fed:
  assumes "prompt_inv s" "tokenizer_ok tokenize"
  shows "fed_by s (op_calls tokenize (Op_Text prompt fin) s) (session_feed tokenize prompt fin s)"
proof (cases "feedable s")
  case False
  then show ?thesis using assms(1) by (simp add: session_feed_def fed_by_def)
next
  case fd: True
  let ?s1 = "begin_feeding s"
  let ?g = "(span_len prompt > 0 \<and> (case prompt of Null_Span _ \<Rightarrow> False | Span _ \<Rightarrow> True)) \<or> (fin \<noteq> 0 \<and> prompt_count ?s1 = 0)"
  note e = session_feed_def [of tokenize prompt fin s, unfolded if_not_P [of "\<not> feedable s", unfolded not_not, OF fd] Let_def]
  show ?thesis
  proof (cases ?g)
    case False
    have "session_feed tokenize prompt fin s = (ASTRAL_OK, ?s1)" unfolding e if_not_P [OF False] ..
    moreover have "op_calls tokenize (Op_Text prompt fin) s = []"
      unfolding op_calls.simps by (rule if_not_P) (use False in simp)
    ultimately show ?thesis using assms(1) by (simp add: fed_by_def del: op_calls.simps)
  next
    case g: True
    show ?thesis
    proof (cases "length (prompt_chunks ?s1) \<ge> kMaxPromptChunks")
      case True
      have "session_feed tokenize prompt fin s = (ASTRAL_E_NOMEM, ?s1)" unfolding e if_P [OF g] if_P [OF True] ..
      then show ?thesis using assms(1) by (simp add: fed_by_def)
    next
      case nl: False
      obtain err ts n where t: "tokenize prompt (prompt_capacity ?s1 - prompt_count ?s1) (prompt_count ?s1 = 0) = (err, ts, n)"
        by (cases "tokenize prompt (prompt_capacity ?s1 - prompt_count ?s1) (prompt_count ?s1 = 0)")
      note e2 = e [unfolded if_P [OF g] if_not_P [OF nl] t prod.case]
      have i1: "prompt_inv ?s1" using assms(1) by simp
      have ub: "unat (prompt_count ?s1) \<le> unat (prompt_capacity ?s1)" using assms(1) by (simp add: prompt_inv_def)
      have tl: "length ts \<le> unat (prompt_capacity ?s1) - unat (prompt_count ?s1)" "err = ASTRAL_OK \<longrightarrow> length ts = unat n"
        using assms(2) t unat_room [OF ub] unfolding tokenizer_ok_def by metis+
      have room: "unat (prompt_count ?s1) + length ts \<le> unat (prompt_capacity ?s1)" using tl(1) ub by simp
      let ?s2 = "?s1\<lparr>prompt_buffer := write_at (prompt_buffer ?s1) (unat (prompt_count ?s1)) ts\<rparr>"
      note w = write_behind [OF i1 room]
      have oc: "op_calls tokenize (Op_Text prompt fin) s = (if n = 0 then [] else [Feed ts])"
        using g t by (simp del: split_paired_All)
      show ?thesis
      proof (cases "err = ASTRAL_OK \<and> n \<noteq> 0")
        case False
        then have "session_feed tokenize prompt fin s = (err, ?s2)" unfolding e2 by auto
        then show ?thesis using w False by (auto simp: fed_by_def oc simp del: op_calls.simps)
      next
        case True
        then have ok: "err = ASTRAL_OK" "n \<noteq> 0" "length ts = unat n" using tl(2) by simp_all
        let ?s3 = "?s2\<lparr>prompt_count := prompt_count ?s2 + n\<rparr>"
        have rm: "unat (prompt_count ?s1) + unat n \<le> unat (prompt_capacity ?s1)" using room ok(3) by simp
        have e3: "session_feed tokenize prompt fin s =
            (if prompt_count ?s3 \<ge> prompt_capacity ?s3 then (ASTRAL_E_NOMEM, ?s3)
             else session_push_text_chunk (prompt_count ?s1) n fin ?s3)"
          unfolding e2 using ok by simp
        show ?thesis
        proof (cases "prompt_count ?s3 \<ge> prompt_capacity ?s3")
          case True
          then have r: "session_feed tokenize prompt fin s = (ASTRAL_E_NOMEM, ?s3)" unfolding e3 by simp
          have "unat (prompt_count s + n) = unat (prompt_count s) + unat n" using unat_add_le rm by simp
          then have "prompt_inv ?s3" using w(1) rm by (auto simp: prompt_inv_def chunk_ok_def list_all_iff split: if_splits)
          moreover have "fed_calls ?s3 = fed_calls s" using w(2) by (simp add: fed_calls_def)
          ultimately show ?thesis by (simp add: r fed_by_def)
        next
          case False
          obtain err' s' where p: "session_push_text_chunk (prompt_count ?s1) n fin ?s3 = (err', s')" by fastforce
          have r: "session_feed tokenize prompt fin s = (err', s')" unfolding e3 using False p by simp
          have st: "?s3 = ?s1\<lparr>prompt_buffer := write_at (prompt_buffer ?s1) (unat (prompt_count ?s1)) ts, prompt_count := prompt_count ?s1 + n\<rparr>"
            by simp
          note q = push_text_fed [OF i1 ok(3) rm ok(2) p [unfolded st]]
          show ?thesis using q ok(2) by (auto simp: r fed_by_def oc simp del: op_calls.simps)
        qed
      qed
    qed
  qed
qed

lemma session_feed_tokens_fed:
  assumes "prompt_inv s" "op_ok (Op_Tokens ts n fin)"
  shows "fed_by s (op_calls tokenize (Op_Tokens ts n fin) s) (session_feed_tokens ts n fin s)"
proof (cases "n \<noteq> 0 \<and> ts = None \<or> \<not> feedable s")
  case True
  then show ?thesis using assms(1) by (auto simp: session_feed_tokens_def fed_by_def)
next
  case False
  let ?s1 = "begin_feeding s"
  have i1: "prompt_inv ?s1" using assms(1) by simp
  have ub: "unat (prompt_count s) \<le> unat (prompt_capacity s)" using assms(1) by (simp add: prompt_inv_def)
  show ?thesis
  proof (cases "n = 0 \<or> length (prompt_chunks ?s1) \<ge> kMaxPromptChunks \<or> n \<ge> prompt_capacity ?s1 - prompt_count ?s1")
    case True
    then show ?thesis using False i1 by (auto simp: session_feed_tokens_def fed_by_def Let_def)
  next
    case go: False
    then obtain xs where xs: "ts = Some xs" "unat n \<le> length xs" using False assms(2) by (cases ts) auto
    have len: "length (take (unat n) xs) = unat n" using xs(2) by simp
    have "unat n \<le> unat (prompt_capacity ?s1 - prompt_count ?s1)" using go by (simp add: word_less_nat_alt not_le)
    then have rm: "unat (prompt_count ?s1) + unat n \<le> unat (prompt_capacity ?s1)" using unat_room [OF ub] ub by simp
    obtain err' s' where p: "session_push_text_chunk (prompt_count ?s1) n fin
        (?s1\<lparr>prompt_buffer := write_at (prompt_buffer ?s1) (unat (prompt_count ?s1)) (take (unat n) xs),
             prompt_count := prompt_count ?s1 + n\<rparr>) = (err', s')" by fastforce
    have r: "session_feed_tokens ts n fin s = (err', s')"
      using False go p by (simp add: session_feed_tokens_def Let_def xs(1))
    have n: "n \<noteq> 0" using go by simp
    note q = push_text_fed [OF i1 len rm n p]
    show ?thesis using q n unfolding r by (auto simp: fed_by_def xs(1))
  qed
qed

lemma media_fed:
  assumes "prompt_inv s" "alloc_fresh alloc" "session_push_media_chunk alloc img audio fin (begin_feeding s) = (err, s')"
    "\<And>d. img = Some d \<Longrightarrow> span_len (image_pixels d) \<noteq> 0" "\<And>d. audio = Some d \<Longrightarrow> span_len (audio_samples d) \<noteq> 0"
    "err = ASTRAL_OK \<longrightarrow> (\<exists>c. prompt_chunks s' = prompt_chunks s @ [c] \<and> chunk_call (prompt_buffer s') (prompt_heap s') c = call)"
  shows "fed_by s [call] (err, s')"
proof -
  have "prompt_inv (begin_feeding s)" using assms(1) by simp
  note m = push_media_fed [OF this assms(2-3) assms(4,5)]
  show ?thesis
  proof (cases "err = ASTRAL_OK")
    case True
    then obtain c' where f: "fed_calls s' = fed_calls s @ [c']" and i: "prompt_inv s'" using m by auto
    obtain c where c: "prompt_chunks s' = prompt_chunks s @ [c]" "chunk_call (prompt_buffer s') (prompt_heap s') c = call"
      using assms(6) True by blast
    have "last (fed_calls s') = call" unfolding fed_calls_def c(1) by (simp add: c(2))
    then have "c' = call" using f by simp
    then show ?thesis using f i True by (simp add: fed_by_def)
  next
    case False
    then show ?thesis using m assms(1) by (simp add: fed_by_def)
  qed
qed

lemma session_feed_image_fed:
  assumes "prompt_inv s" "alloc_fresh alloc" "op_ok (Op_Image d fin)"
  shows "fed_by s (op_calls tokenize (Op_Image d fin) s) (session_feed_image alloc images d fin s)"
proof (cases "image_desc_valid d \<and> feedable s \<and> images")
  case False
  then show ?thesis using assms(1) by (auto simp: session_feed_image_def fed_by_def)
next
  case True
  obtain d' bytes where d: "d = Some d'" "span_len (image_pixels d') \<noteq> 0" "image_pixels d' = Span bytes"
    using True by (auto simp: image_desc_valid_def split: option.splits span.splits)
  have "unat (of_nat (length bytes) :: u32) = length bytes"
    using assms(3) d by (simp add: unsigned_of_nat take_bit_nat_eq_self)
  then have sp: "take (unat (span_len (image_pixels d'))) (copied_span (image_pixels d')) = bytes" "d'\<lparr>image_pixels := Span bytes\<rparr> = d'"
    using d(3) by (simp_all add: copied_span_def)
  obtain err s' where p: "session_push_media_chunk alloc d None fin (begin_feeding s) = (err, s')" by fastforce
  have r: "session_feed_image alloc images d fin s = (err, s')" using True p by (simp add: session_feed_image_def)
  show ?thesis unfolding r op_calls.simps
  proof (rule media_fed [OF assms(1,2) p])
    show "err = ASTRAL_OK \<longrightarrow> (\<exists>c. prompt_chunks s' = prompt_chunks s @ [c] \<and>
        chunk_call (prompt_buffer s') (prompt_heap s') c = Feed_Image d fin)"
      using p sp by (auto simp: session_push_media_chunk_def d Let_def chunk_call_def seen_image_def owned_span_def empty_chunk_def
        split: if_splits option.splits)
  qed (use d in simp_all)
qed

lemma session_feed_audio_fed:
  assumes "prompt_inv s" "alloc_fresh alloc" "op_ok (Op_Audio d fin)"
  shows "fed_by s (op_calls tokenize (Op_Audio d fin) s) (session_feed_audio alloc audio d fin s)"
proof (cases "audio_desc_valid d \<and> feedable s \<and> audio")
  case False
  then show ?thesis using assms(1) by (auto simp: session_feed_audio_def fed_by_def)
next
  case True
  obtain d' bytes where d: "d = Some d'" "span_len (audio_samples d') \<noteq> 0" "audio_samples d' = Span bytes"
    using True by (auto simp: audio_desc_valid_def split: option.splits span.splits)
  have "unat (of_nat (length bytes) :: u32) = length bytes"
    using assms(3) d by (simp add: unsigned_of_nat take_bit_nat_eq_self)
  then have sp: "take (unat (span_len (audio_samples d'))) (copied_span (audio_samples d')) = bytes" "d'\<lparr>audio_samples := Span bytes\<rparr> = d'"
    using d(3) by (simp_all add: copied_span_def)
  obtain err s' where p: "session_push_media_chunk alloc None d fin (begin_feeding s) = (err, s')" by fastforce
  have r: "session_feed_audio alloc audio d fin s = (err, s')" using True p by (simp add: session_feed_audio_def)
  show ?thesis unfolding r op_calls.simps
  proof (rule media_fed [OF assms(1,2) p])
    show "err = ASTRAL_OK \<longrightarrow> (\<exists>c. prompt_chunks s' = prompt_chunks s @ [c] \<and>
        chunk_call (prompt_buffer s') (prompt_heap s') c = Feed_Audio d fin)"
      using p sp by (auto simp: session_push_media_chunk_def d Let_def chunk_call_def seen_audio_def owned_span_def empty_chunk_def
        split: if_splits option.splits)
  qed (use d in simp_all)
qed

lemma run_op_fed:
  assumes "prompt_inv s" "tokenizer_ok tokenize" "alloc_fresh alloc" "op_ok op"
  shows "fed_by s (op_calls tokenize op s) (run_op tokenize alloc images audio op s)"
proof (cases op)
  case (Op_Text prompt fin)
  then show ?thesis using session_feed_fed [OF assms(1,2)] by (simp del: op_calls.simps)
next
  case (Op_Tokens ts n fin)
  then show ?thesis using session_feed_tokens_fed [OF assms(1)] assms(4) by (simp del: op_calls.simps)
next
  case (Op_Image d fin)
  then show ?thesis using session_feed_image_fed [OF assms(1,3)] assms(4) by (simp del: op_calls.simps)
next
  case (Op_Audio d fin)
  then show ?thesis using session_feed_audio_fed [OF assms(1,3)] assms(4) by (simp del: op_calls.simps)
qed

text \<open>A run of operations: the calls that the accepted ones ask for, and the session.\<close>

fun run_ops ::
  "(span \<Rightarrow> u32 \<Rightarrow> bool \<Rightarrow> astral_err \<times> i32 list \<times> u32) \<Rightarrow> (heap \<Rightarrow> nat \<Rightarrow> nat option) \<Rightarrow> bool \<Rightarrow> bool \<Rightarrow>
   feed_op list \<Rightarrow> prompt_session \<Rightarrow> backend_call list \<times> prompt_session" where
  "run_ops tokenize alloc images audio [] s = ([], s)"
| "run_ops tokenize alloc images audio (op # ops) s =
     (case run_op tokenize alloc images audio op s of
        (err, s1) \<Rightarrow>
          (case run_ops tokenize alloc images audio ops s1 of
             (calls, s2) \<Rightarrow> ((if err = ASTRAL_OK then op_calls tokenize op s else []) @ calls, s2)))"

lemma run_ops_fed:
  assumes "prompt_inv s" "tokenizer_ok tokenize" "alloc_fresh alloc" "list_all op_ok ops"
    "run_ops tokenize alloc images audio ops s = (calls, s')"
  shows "prompt_inv s' \<and> fed_calls s' = fed_calls s @ calls"
  using assms(1,4,5)
proof (induction ops arbitrary: s calls s')
  case (Cons op ops)
  obtain err s1 where r: "run_op tokenize alloc images audio op s = (err, s1)" by fastforce
  obtain cs s2 where rs: "run_ops tokenize alloc images audio ops s1 = (cs, s2)" by fastforce
  have "fed_by s (op_calls tokenize op s) (err, s1)"
    using run_op_fed [OF Cons.prems(1) assms(2,3), of op images audio] Cons.prems(2) r by simp
  then have f: "prompt_inv s1" "fed_calls s1 = fed_calls s @ (if err = ASTRAL_OK then op_calls tokenize op s else [])"
    by (simp_all add: fed_by_def)
  have "prompt_inv s2 \<and> fed_calls s2 = fed_calls s1 @ cs" by (rule Cons.IH [OF f(1) _ rs]) (use Cons.prems(2) in simp)
  then show ?case using Cons.prems(3) f(2) r rs by auto
qed simp

section \<open>The backend gets the prompt, and the buffers go back\<close>

lemma release_owned:
  "owned_buffer (fst (prompt_chunk_release c h)) = None" "chunk_kind (fst (prompt_chunk_release c h)) = chunk_kind c"
  "(owned_buffer c \<noteq> None \<longrightarrow> 0 < owned_bytes c) \<Longrightarrow>
    dom (snd (prompt_chunk_release c h)) = dom h - set (case owned_buffer c of None \<Rightarrow> [] | Some p \<Rightarrow> [p])"
  by (auto simp: prompt_chunk_release_def split: option.splits)

text \<open>What handing over a chunk leaves of it.\<close>

definition supported :: "bool \<Rightarrow> bool \<Rightarrow> prompt_chunk \<Rightarrow> bool" where
  "supported images audio c \<longleftrightarrow> (chunk_kind c = Image \<longrightarrow> images) \<and> (chunk_kind c = Audio \<longrightarrow> audio)"

lemma feed_chunk_spec:
  assumes "feed_chunk be images audio buf c h calls = (err, c', h', calls')" "chunk_ok n c"
  shows "chunk_ok n c'" "owned [c'] = [] \<or> owned [c'] = owned [c]" "dom h' = dom h - (set (owned [c]) - set (owned [c']))"
    "err = ASTRAL_OK \<Longrightarrow> owned [c'] = []" "calls' = calls \<or> calls' = calls @ [chunk_call buf h c]"
    "err = ASTRAL_OK \<Longrightarrow> calls' = calls @ [chunk_call buf h c]"
    "supported images audio c \<Longrightarrow> calls' = calls @ [chunk_call buf h c] \<and> err = be calls (chunk_call buf h c)"
    "p \<notin> set (owned [c]) \<Longrightarrow> h' p = h p"
proof -
  have "chunk_ok n c' \<and> (owned [c'] = [] \<or> owned [c'] = owned [c]) \<and> dom h' = dom h - (set (owned [c]) - set (owned [c'])) \<and>
    (err = ASTRAL_OK \<longrightarrow> owned [c'] = [] \<and> calls' = calls @ [chunk_call buf h c]) \<and>
    (calls' = calls \<or> calls' = calls @ [chunk_call buf h c]) \<and>
    (supported images audio c \<longrightarrow> calls' = calls @ [chunk_call buf h c] \<and> err = be calls (chunk_call buf h c)) \<and>
    (p \<notin> set (owned [c]) \<longrightarrow> h' p = h p)"
  proof (cases "chunk_kind c = Text")
    case True
    then have t: "token_count c \<noteq> 0" "owned_buffer c = None" using assms(2) by (simp_all add: chunk_ok_def)
    have "c' = c" "h' = h" "calls' = calls @ [chunk_call buf h c]" "err = be calls (chunk_call buf h c)"
      using assms(1) True t by (auto simp: feed_chunk_def chunk_call_def Let_def)
    then show ?thesis using assms(2) t by simp
  next
    case False
    then have o: "owned_buffer c \<noteq> None \<longrightarrow> 0 < owned_bytes c" using assms(2) by (simp add: chunk_ok_def)
    obtain r g where rel: "prompt_chunk_release c h = (r, g)" by fastforce
    have rr: "owned_buffer r = None" "chunk_kind r = chunk_kind c" "dom g = dom h - set (owned [c])"
      using release_owned [of c h] o rel by simp_all
    have gp: "g p = h p" if "p \<notin> set (owned [c])"
      using rel that by (auto simp: prompt_chunk_release_def split: option.splits if_splits)
    have kinds: "c' = c \<and> h' = h \<and> calls' = calls \<and> err = ASTRAL_E_UNSUPPORTED \<and> \<not> supported images audio c \<or>
        c' = r \<and> h' = g \<and> calls' = calls @ [chunk_call buf h c] \<and> err = be calls (chunk_call buf h c)"
      using assms(1) False rel
      by (cases "chunk_kind c") (auto simp: feed_chunk_def chunk_call_def supported_def Let_def split: if_splits)
    have "chunk_ok n r" using False rr by (simp add: chunk_ok_def)
    then show ?thesis using kinds assms(2) rr gp by (elim disjE) simp_all
  qed
  then show "chunk_ok n c'" "owned [c'] = [] \<or> owned [c'] = owned [c]" "dom h' = dom h - (set (owned [c]) - set (owned [c']))"
    "err = ASTRAL_OK \<Longrightarrow> owned [c'] = []" "calls' = calls \<or> calls' = calls @ [chunk_call buf h c]"
    "err = ASTRAL_OK \<Longrightarrow> calls' = calls @ [chunk_call buf h c]"
    "supported images audio c \<Longrightarrow> calls' = calls @ [chunk_call buf h c] \<and> err = be calls (chunk_call buf h c)"
    "p \<notin> set (owned [c]) \<Longrightarrow> h' p = h p" by blast+
qed

text \<open>The backend has got the first of the calls, and when it has not got all of them it refused the last it got.\<close>

definition stopped_by :: "backend \<Rightarrow> backend_call list \<Rightarrow> backend_call list \<Rightarrow> astral_err \<Rightarrow> backend_call list \<Rightarrow> bool" where
  "stopped_by be calls given err calls' \<longleftrightarrow>
     (\<exists>got call rest. given = got @ call # rest \<and> calls' = calls @ got @ [call] \<and> err = be (calls @ got) call \<and> err \<noteq> ASTRAL_OK)"

lemma stopped_first: "err = be calls call \<Longrightarrow> err \<noteq> ASTRAL_OK \<Longrightarrow> stopped_by be calls (call # rest) err (calls @ [call])"
  unfolding stopped_by_def by (intro exI [of _ "[]"] exI [of _ call] exI [of _ rest]) simp

lemma stopped_later: "stopped_by be (calls @ [call]) rest err calls' \<Longrightarrow> stopped_by be calls (call # rest) err calls'"
proof -
  assume "stopped_by be (calls @ [call]) rest err calls'"
  then obtain got c r where "rest = got @ c # r" "calls' = (calls @ [call]) @ got @ [c]" "err = be ((calls @ [call]) @ got) c" "err \<noteq> ASTRAL_OK"
    unfolding stopped_by_def by blast
  then show ?thesis unfolding stopped_by_def by (intro exI [of _ "call # got"] exI [of _ c] exI [of _ r]) simp
qed

lemma owned_Cons': "owned (c # cs) = owned [c] @ owned cs"
  by (simp add: owned_def)

definition chunks_handed ::
  "backend \<Rightarrow> bool \<Rightarrow> bool \<Rightarrow> i32 list \<Rightarrow> u32 \<Rightarrow> prompt_chunk list \<Rightarrow> heap \<Rightarrow> backend_call list \<Rightarrow>
   astral_err \<times> prompt_chunk list \<times> heap \<times> backend_call list \<Rightarrow> bool" where
  "chunks_handed be images audio buf n cs h calls r \<longleftrightarrow> (case r of (err, cs', h', calls') \<Rightarrow>
     list_all (chunk_ok n) cs' \<and> distinct (owned cs') \<and> set (owned cs') \<subseteq> set (owned cs) \<and>
     dom h' = dom h - (set (owned cs) - set (owned cs')) \<and>
     (err = ASTRAL_OK \<longrightarrow> owned cs' = [] \<and> calls' = calls @ map (chunk_call buf h) cs) \<and>
     (list_all (supported images audio) cs \<and> err \<noteq> ASTRAL_OK \<longrightarrow> stopped_by be calls (map (chunk_call buf h) cs) err calls'))"

lemma feed_chunks_spec:
  assumes "list_all (chunk_ok n) cs" "distinct (owned cs)" "set (owned cs) \<subseteq> dom h"
  shows "chunks_handed be images audio buf n cs h calls (feed_chunks be images audio buf cs h calls)"
  using assms
proof (induction cs arbitrary: h calls)
  case Nil
  then show ?case by (simp add: chunks_handed_def)
next
  case (Cons c cs)
  obtain err c' h' calls' where f: "feed_chunk be images audio buf c h calls = (err, c', h', calls')"
    by (cases "feed_chunk be images audio buf c h calls")
  have okc: "chunk_ok n c" "list_all (chunk_ok n) cs" using Cons.prems(1) by simp_all
  note s = feed_chunk_spec [OF f okc(1)]
  have dj: "distinct (owned [c])" "distinct (owned cs)" "set (owned [c]) \<inter> set (owned cs) = {}"
    using Cons.prems(2) unfolding owned_Cons' [of c cs] by simp_all
  have sub: "set (owned [c']) \<subseteq> set (owned [c])" using s(2) by (elim disjE) (simp_all only: list.set empty_subsetI order_refl)
  show ?case
  proof (cases "err = ASTRAL_OK")
    case False
    then have r: "feed_chunks be images audio buf (c # cs) h calls = (err, c' # cs, h', calls')" by (simp add: f)
    have "distinct (owned [c'])" using s(2) dj(1) by (elim disjE) (simp_all only: distinct.simps)
    then have a: "distinct (owned (c' # cs))" using dj sub unfolding owned_Cons' [of c' cs] by auto
    have b: "dom h' = dom h - (set (owned (c # cs)) - set (owned (c' # cs)))"
      unfolding s(3) owned_Cons' [of c cs] owned_Cons' [of c' cs] using dj(3) sub by auto
    have c: "set (owned (c' # cs)) \<subseteq> set (owned (c # cs))"
      unfolding owned_Cons' [of c cs] owned_Cons' [of c' cs] using sub by auto
    have e: "list_all (chunk_ok n) (c' # cs)" using s(1) okc(2) by simp
    have u: "stopped_by be calls (map (chunk_call buf h) (c # cs)) err calls'" if "list_all (supported images audio) (c # cs)"
    proof -
      have "supported images audio c" using that by simp
      then show ?thesis using s(7) False stopped_first [of err be calls "chunk_call buf h c" "map (chunk_call buf h) cs"] by simp
    qed
    show ?thesis unfolding r chunks_handed_def prod.case
      by (rule conjI [OF e conjI [OF a conjI [OF c conjI [OF b conjI]]]]) (use False u in blast)+
  next
    case True
    obtain err2 cs' h'' calls'' where g: "feed_chunks be images audio buf cs h' calls' = (err2, cs', h'', calls'')"
      by (cases "feed_chunks be images audio buf cs h' calls'")
    have r: "feed_chunks be images audio buf (c # cs) h calls = (err2, c' # cs', h'', calls'')" by (simp add: f g True)
    have nil: "owned [c'] = []" by (rule s(4) [OF True])
    have dh: "dom h' = dom h - set (owned [c])" unfolding s(3) nil by simp
    have "set (owned cs) \<subseteq> dom h'"
      unfolding dh using Cons.prems(3) dj(3) unfolding owned_Cons' [of c cs] by auto
    from Cons.IH [OF okc(2) dj(2) this, of calls', unfolded g chunks_handed_def prod.case]
    have ih: "list_all (chunk_ok n) cs'" "distinct (owned cs')" "set (owned cs') \<subseteq> set (owned cs)"
      "dom h'' = dom h' - (set (owned cs) - set (owned cs'))"
      "err2 = ASTRAL_OK \<longrightarrow> owned cs' = [] \<and> calls'' = calls' @ map (chunk_call buf h') cs"
      "list_all (supported images audio) cs \<and> err2 \<noteq> ASTRAL_OK \<longrightarrow> stopped_by be calls' (map (chunk_call buf h') cs) err2 calls''"
      by blast+
    have same: "map (chunk_call buf h') cs = map (chunk_call buf h) cs"
      by (rule calls_heap) (use s(8) dj(3) in blast)
    have oc: "owned (c' # cs') = owned cs'" unfolding owned_Cons' [of c' cs'] nil by simp
    have oc2: "owned (c # cs) = owned [c] @ owned cs" by (rule owned_Cons')
    have cc: "calls' = calls @ [chunk_call buf h c]" by (rule s(6) [OF True])
    have sb: "set (owned (c' # cs')) \<subseteq> set (owned (c # cs))" unfolding oc oc2 set_append using ih(3) by blast
    have db: "dom h'' = dom h - (set (owned (c # cs)) - set (owned (c' # cs')))"
      unfolding ih(4) dh oc oc2 set_append using ih(3) dj(3) by blast
    have lb: "list_all (chunk_ok n) (c' # cs')" using ih(1) s(1) by simp
    have di: "distinct (owned (c' # cs'))" unfolding oc by (rule ih(2))
    have done': "err2 = ASTRAL_OK \<longrightarrow> owned (c' # cs') = [] \<and> calls'' = calls @ map (chunk_call buf h) (c # cs)"
      unfolding oc using ih(5) same cc by simp
    have stop: "list_all (supported images audio) (c # cs) \<and> err2 \<noteq> ASTRAL_OK \<longrightarrow>
        stopped_by be calls (map (chunk_call buf h) (c # cs)) err2 calls''"
      using ih(6) stopped_later [of be calls "chunk_call buf h c" "map (chunk_call buf h) cs" err2 calls''] same cc by simp
    show ?thesis unfolding r chunks_handed_def prod.case by (intro conjI lb di sb db done' stop)
  qed
qed

definition fresh_prompt :: "prompt_session \<Rightarrow> bool" where
  "fresh_prompt s \<longleftrightarrow> length (prompt_buffer s) = unat (prompt_capacity s) \<and> prompt_count s = 0 \<and> prompt_chunks s = [] \<and>
     prompt_heap s = Map.empty"

lemma fresh_prompt_inv: "fresh_prompt s \<Longrightarrow> prompt_inv s \<and> fed_calls s = []"
  by (simp add: fresh_prompt_def prompt_inv_def fed_calls_def)

lemma feed_prompt_spec:
  assumes "prompt_inv s" "prompt_chunks s \<noteq> []"
    "session_feed_prompt_chunks be images audio s calls = (err, s', calls')"
  shows "prompt_inv s' \<and> (err = ASTRAL_OK \<longrightarrow> prompt_heap s' = Map.empty \<and> calls' = calls @ fed_calls s) \<and>
    (list_all (supported images audio) (prompt_chunks s) \<and> err \<noteq> ASTRAL_OK \<longrightarrow> stopped_by be calls (fed_calls s) err calls')"
proof -
  obtain cs h where f: "feed_chunks be images audio (prompt_buffer s) (prompt_chunks s) (prompt_heap s) calls = (err, cs, h, calls')"
    and s': "s' = s\<lparr>prompt_chunks := cs, prompt_heap := h\<rparr>"
    using assms(2,3) by (auto simp: session_feed_prompt_chunks_def split: prod.splits)
  have i: "list_all (chunk_ok (prompt_count s)) (prompt_chunks s)" "distinct (owned (prompt_chunks s))"
    "dom (prompt_heap s) = set (owned (prompt_chunks s))" using assms(1) by (simp_all add: prompt_inv_def)
  then have "set (owned (prompt_chunks s)) \<subseteq> dom (prompt_heap s)" by simp
  from feed_chunks_spec [OF i(1,2) this, of be images audio "prompt_buffer s" calls]
  have c: "chunks_handed be images audio (prompt_buffer s) (prompt_count s) (prompt_chunks s) (prompt_heap s) calls (err, cs, h, calls')"
    by (simp only: f)
  then have d: "dom h = set (owned cs)" using i(3) by (auto simp: chunks_handed_def)
  then have "prompt_inv s'" using c assms(1) by (simp add: prompt_inv_def s' chunks_handed_def)
  moreover have "err = ASTRAL_OK \<Longrightarrow> prompt_heap s' = Map.empty" using c d by (simp add: chunks_handed_def s')
  ultimately show ?thesis using c by (simp add: chunks_handed_def fed_calls_def)
qed

text \<open>Only media that the backend takes are accepted, and as long as no chunk is recorded the token buffer is
  empty or, by the fault of \<open>session_feed\<close> below, full.\<close>

definition chunks_fit :: "bool \<Rightarrow> bool \<Rightarrow> u32 \<Rightarrow> prompt_session \<Rightarrow> bool" where
  "chunks_fit images audio cap s \<longleftrightarrow> list_all (supported images audio) (prompt_chunks s) \<and> prompt_capacity s = cap \<and>
     (prompt_chunks s = [] \<longrightarrow> prompt_count s = 0 \<or> prompt_count s = cap)"

lemma fit_begin [simp]: "chunks_fit images audio cap (begin_feeding s) = chunks_fit images audio cap s"
  by (simp add: chunks_fit_def)

lemma fit_buffer [simp]: "chunks_fit images audio cap (s\<lparr>prompt_buffer := b\<rparr>) = chunks_fit images audio cap s"
  by (simp add: chunks_fit_def)

lemma fit_text:
  assumes "chunks_fit images audio cap s" "n \<noteq> 0" "session_push_text_chunk start n fin (s\<lparr>prompt_buffer := b, prompt_count := k\<rparr>) = (err, s')"
    "length (prompt_chunks s) < kMaxPromptChunks"
  shows "chunks_fit images audio cap s'"
  using assms by (auto simp: session_push_text_chunk_def chunks_fit_def supported_def empty_chunk_def)

lemma fit_media:
  assumes "chunks_fit images audio cap s" "session_push_media_chunk alloc img aud fin s = (err, s')"
    "img \<noteq> None \<longrightarrow> images" "aud \<noteq> None \<longrightarrow> audio"
  shows "chunks_fit images audio cap s'"
proof (cases "s' = s")
  case True
  then show ?thesis using assms(1) by simp
next
  case False
  then obtain c h where s': "s' = s\<lparr>prompt_heap := h, prompt_chunks := prompt_chunks s @ [c]\<rparr>"
    "chunk_kind c = Image \<and> images \<or> chunk_kind c = Audio \<and> audio"
    using assms(2-4)
    by (auto simp: session_push_media_chunk_def Let_def empty_chunk_def split: if_splits option.splits)
  have "supported images audio c" using s'(2) by (auto simp: supported_def)
  then show ?thesis using assms(1) by (simp add: s'(1) chunks_fit_def)
qed

lemma run_op_fit:
  assumes inv: "prompt_inv s" "tokenizer_ok tokenize" and fit: "chunks_fit images audio cap s"
    and run: "run_op tokenize alloc images audio op s = (err, s')"
  shows "chunks_fit images audio cap s'"
proof (cases op)
  case (Op_Image d fin)
  then show ?thesis using run fit fit_media [of images audio cap "begin_feeding s" alloc d None fin err s']
    by (auto simp: session_feed_image_def split: if_splits)
next
  case (Op_Audio d fin)
  then show ?thesis using run fit fit_media [of images audio cap "begin_feeding s" alloc None d fin err s']
    by (auto simp: session_feed_audio_def split: if_splits)
next
  case (Op_Tokens ts n fin)
  note e = run [unfolded Op_Tokens run_op.simps session_feed_tokens_def Let_def]
  consider "s' = s" | "s' = begin_feeding s"
    | b where "n \<noteq> 0" "length (prompt_chunks (begin_feeding s)) < kMaxPromptChunks"
      "session_push_text_chunk (prompt_count (begin_feeding s)) n fin
        ((begin_feeding s)\<lparr>prompt_buffer := b, prompt_count := prompt_count (begin_feeding s) + n\<rparr>) = (err, s')"
    using e by (auto simp: not_le split: if_splits)
  then show ?thesis
  proof cases
    case 3
    then show ?thesis using fit_text [OF _ 3(1,3,2)] fit by simp
  qed (use fit in simp_all)
next
  case (Op_Text prompt fin)
  let ?s1 = "begin_feeding s"
  obtain terr ts n where t: "tokenize prompt (prompt_capacity ?s1 - prompt_count ?s1) (prompt_count ?s1 = 0) = (terr, ts, n)"
    by (cases "tokenize prompt (prompt_capacity ?s1 - prompt_count ?s1) (prompt_count ?s1 = 0)")
  let ?b = "write_at (prompt_buffer ?s1) (unat (prompt_count ?s1)) ts"
  note e = run [unfolded Op_Text run_op.simps session_feed_def Let_def t prod.case]
  consider "s' = s" | "s' = ?s1" | "s' = ?s1\<lparr>prompt_buffer := ?b\<rparr>"
    | "terr = ASTRAL_OK" "s' = ?s1\<lparr>prompt_buffer := ?b, prompt_count := prompt_count ?s1 + n\<rparr>" "prompt_count ?s1 + n \<ge> prompt_capacity ?s1"
    | "n \<noteq> 0" "length (prompt_chunks ?s1) < kMaxPromptChunks"
      "session_push_text_chunk (prompt_count ?s1) n fin (?s1\<lparr>prompt_buffer := ?b, prompt_count := prompt_count ?s1 + n\<rparr>) = (err, s')"
    using e by (auto simp: not_le split: if_splits)
  then show ?thesis
  proof cases
    case 4
    have ub: "unat (prompt_count ?s1) \<le> unat (prompt_capacity ?s1)" using inv(1) by (simp add: prompt_inv_def)
    have "length ts \<le> unat (prompt_capacity ?s1) - unat (prompt_count ?s1)" "length ts = unat n"
      using inv(2) t 4(1) unat_room [OF ub] unfolding tokenizer_ok_def by metis+
    then have rm: "unat (prompt_count ?s1) + unat n \<le> unat (prompt_capacity ?s1)" using ub by simp
    then have "unat (prompt_count ?s1 + n) \<le> unat (prompt_capacity ?s1)" using unat_add_le [OF rm] by simp
    then have "prompt_count ?s1 + n = prompt_capacity ?s1" using 4(3) by (simp add: word_le_nat_alt word_unat_eq_iff)
    then show ?thesis using fit 4(2) by (simp add: chunks_fit_def)
  next
    case 5
    then show ?thesis using fit_text [OF _ 5(1,3,2)] fit by simp
  qed (use fit in simp_all)
qed

lemma run_ops_fit:
  assumes "tokenizer_ok tokenize" "alloc_fresh alloc"
  shows "prompt_inv s \<Longrightarrow> list_all op_ok ops \<Longrightarrow> chunks_fit images audio cap s \<Longrightarrow>
    run_ops tokenize alloc images audio ops s = (calls, s') \<Longrightarrow> chunks_fit images audio cap s'"
proof (induction ops arbitrary: s calls)
  case (Cons op ops)
  obtain err s1 where r: "run_op tokenize alloc images audio op s = (err, s1)" by fastforce
  obtain cs s2 where rs: "run_ops tokenize alloc images audio ops s1 = (cs, s2)" by fastforce
  have "fed_by s (op_calls tokenize op s) (err, s1)"
    using run_op_fed [OF Cons.prems(1) assms, of op images audio] Cons.prems(2) r by simp
  then have "prompt_inv s1" by (simp add: fed_by_def)
  moreover have "chunks_fit images audio cap s1" by (rule run_op_fit [OF Cons.prems(1) assms(1) Cons.prems(3) r])
  moreover have "s' = s2" using Cons.prems(4) r rs by simp
  ultimately show ?case using Cons.IH [of s1 cs] Cons.prems(2) rs by simp
qed simp

text \<open>C25: Whatever is fed to a new session, in whatever order and with whatever failures in between, the
  decode hands the backend exactly the prompts that were accepted, the tokens of text and the images
  and audio as the caller gave them, in the order they came, and all of them, or up to and including
  one that the backend refuses. When nothing was accepted it hands over one prompt: the empty one, or
  the tokens of a text that exactly fills the token buffer, whose refusal leaves it counted.\<close>
theorem prompt_is_delivered:
  assumes "fresh_prompt s" "tokenizer_ok tokenize" "alloc_fresh alloc" "list_all op_ok ops"
    "run_ops tokenize alloc images audio ops s = (accepted, s1)"
    "session_feed_prompt_chunks be images audio s1 calls = (err, s2, calls')"
  shows "if accepted \<noteq> [] then err = ASTRAL_OK \<and> calls' = calls @ accepted \<or> stopped_by be calls accepted err calls'
    else \<exists>ts. (ts = [] \<or> length ts = unat (prompt_capacity s)) \<and> calls' = calls @ [Feed ts] \<and> err = be calls (Feed ts)"
proof -
  have f: "prompt_inv s1" "fed_calls s1 = accepted"
    using run_ops_fed [OF _ assms(2-5)] fresh_prompt_inv [OF assms(1)] by simp_all
  have "chunks_fit images audio (prompt_capacity s) s" using assms(1) by (simp add: chunks_fit_def fresh_prompt_def)
  then have fit: "chunks_fit images audio (prompt_capacity s) s1"
    using run_ops_fit [OF assms(2,3) _ assms(4) _ assms(5)] fresh_prompt_inv [OF assms(1)] by blast
  show ?thesis
  proof (cases "accepted = []")
    case False
    then have "prompt_chunks s1 \<noteq> []" using f(2) by (auto simp: fed_calls_def)
    from feed_prompt_spec [OF f(1) this assms(6)] show ?thesis
      using False fit unfolding f(2) chunks_fit_def by auto
  next
    case True
    then have n: "prompt_chunks s1 = []" using f(2) by (simp add: fed_calls_def)
    let ?ts = "take (unat (prompt_count s1)) (prompt_buffer s1)"
    have "prompt_count s1 = 0 \<or> prompt_count s1 = prompt_capacity s" "prompt_capacity s1 = prompt_capacity s"
      using fit n by (simp_all add: chunks_fit_def)
    then have ts: "?ts = [] \<or> length ?ts = unat (prompt_capacity s)" using f(1) by (auto simp: prompt_inv_def)
    have "(be calls (Feed ?ts), s1, calls @ [Feed ?ts]) = (err, s2, calls')"
      using assms(6) unfolding session_feed_prompt_chunks_def Let_def if_P [OF n] .
    then have "calls' = calls @ [Feed ?ts]" "err = be calls (Feed ?ts)" by (auto simp only: prod.inject)
    with ts show ?thesis using True by (auto intro: exI [of _ ?ts])
  qed
qed

lemma clear_heap:
  assumes "distinct (owned cs)" "list_all (chunk_ok n) cs" "dom h = set (owned cs)"
  shows "fold (\<lambda>c h. snd (prompt_chunk_reset c h)) cs h = Map.empty"
  using assms
proof (induction cs arbitrary: h)
  case (Cons c cs)
  have "owned_buffer c \<noteq> None \<longrightarrow> 0 < owned_bytes c" using Cons.prems(2) by (auto simp: chunk_ok_def split: if_splits)
  from release_owned(3) [OF this, of h]
  have "dom (snd (prompt_chunk_reset c h)) = set (owned cs)"
    using Cons.prems(1,3) unfolding owned_Cons' [of c cs] by (auto simp: prompt_chunk_reset_def)
  then show ?case using Cons.IH Cons.prems(1,2) unfolding owned_Cons' [of c cs] by simp
qed simp

text \<open>No media buffer leaks: whatever was fed to a new session, and however far the decode got with
  handing it over, clearing the prompt leaves no buffer allocated.\<close>
theorem prompt_buffers_released:
  assumes "fresh_prompt s" "tokenizer_ok tokenize" "alloc_fresh alloc" "list_all op_ok ops"
    "run_ops tokenize alloc images audio ops s = (accepted, s1)"
    "session_feed_prompt_chunks be images' audio' s1 calls = (err, s2, calls')"
  shows "prompt_heap (session_prompt_chunks_clear s1) = Map.empty \<and> prompt_heap (session_prompt_chunks_clear s2) = Map.empty"
proof -
  have i1: "prompt_inv s1" using run_ops_fed [OF _ assms(2-5)] fresh_prompt_inv [OF assms(1)] by simp
  have i2: "prompt_inv s2"
  proof (cases "prompt_chunks s1 = []")
    case True
    then have "s2 = s1" using assms(6) by (simp add: session_feed_prompt_chunks_def Let_def)
    then show ?thesis using i1 by simp
  qed (use feed_prompt_spec [OF i1 _ assms(6)] in blast)
  have "prompt_heap (session_prompt_chunks_clear r) = Map.empty" if "prompt_inv r" for r
    using that clear_heap [of "prompt_chunks r" "prompt_count r" "prompt_heap r"]
    by (simp add: session_prompt_chunks_clear_def prompt_inv_def)
  then show ?thesis using i1 i2 by blast
qed

text \<open>C26: A prompt that exactly fills the token buffer is refused, but its tokens stay counted: with nothing
  else fed, the decode then hands the refused text to the backend as the prompt.\<close>
theorem refused_prompt_is_decoded:
  assumes "fresh_prompt s" "feedable s" "0 < length bytes" "length bytes < 2 ^ 32" "prompt_capacity s \<noteq> 0"
    "tokenize (Span bytes) (prompt_capacity s) True = (ASTRAL_OK, ts, prompt_capacity s)"
    "length ts = unat (prompt_capacity s)"
  shows "\<exists>s1. session_feed tokenize (Span bytes) fin s = (ASTRAL_E_NOMEM, s1) \<and>
    session_feed_prompt_chunks be images audio s1 calls = (be calls (Feed ts), s1, calls @ [Feed ts])"
proof -
  let ?s1 = "begin_feeding s" and ?n = "prompt_capacity s"
  have fp: "prompt_count s = 0" "prompt_chunks s = []" "length (prompt_buffer s) = unat ?n"
    using assms(1) by (simp_all add: fresh_prompt_def)
  have sl: "span_len (Span bytes) > 0"
  proof -
    have "unat (of_nat (length bytes) :: u32) = length bytes mod 2 ^ LENGTH(32)" by (rule unat_of_nat)
    then have "unat (of_nat (length bytes) :: u32) = length bytes" using assms(4) by (simp add: mod_less)
    then show ?thesis using assms(3) by (simp add: word_less_nat_alt)
  qed
  have t: "tokenize (Span bytes) (prompt_capacity ?s1 - prompt_count ?s1) (prompt_count ?s1 = 0) = (ASTRAL_OK, ts, ?n)"
    using assms(6) fp by simp
  let ?s2 = "?s1\<lparr>prompt_buffer := write_at (prompt_buffer s) 0 ts, prompt_count := ?n\<rparr>"
  have e: "session_feed tokenize (Span bytes) fin s = (ASTRAL_E_NOMEM, ?s2)"
    unfolding session_feed_def Let_def t prod.case using assms(2,5) sl fp by (simp add: kMaxPromptChunks_def del: span_len.simps)
  have w: "write_at (prompt_buffer s) 0 ts = ts" using assms(7) fp(3) by (simp add: write_at_def)
  have "session_feed_prompt_chunks be images audio ?s2 calls = (be calls (Feed ts), ?s2, calls @ [Feed ts])"
    using assms(7) fp(2) by (simp add: session_feed_prompt_chunks_def Let_def w)
  with e show ?thesis by blast
qed

section \<open>Witnesses\<close>

definition test_tokenize :: "span \<Rightarrow> u32 \<Rightarrow> bool \<Rightarrow> astral_err \<times> i32 list \<times> u32" where
  "test_tokenize prompt room special =
     (let ts = map (\<lambda>b. ucast b) (span_bytes prompt)
      in if length ts \<le> unat room then (ASTRAL_OK, ts, of_nat (length ts)) else (ASTRAL_E_NOMEM, [], 0))"

lemma test_tokenizer_ok: "tokenizer_ok test_tokenize"
proof -
  have "unat (of_nat (length (span_bytes p)) :: u32) = length (span_bytes p)" if "length (span_bytes p) \<le> unat (room :: u32)" for p room
  proof -
    have "unat room < 2 ^ LENGTH(32)" by (rule unsigned_less)
    then show ?thesis using that unat_of_nat [where 'a = 32, of "length (span_bytes p)"] by (simp add: mod_less)
  qed
  then show ?thesis by (auto simp: tokenizer_ok_def test_tokenize_def Let_def split: if_splits)
qed

fun first_free :: "nat \<Rightarrow> heap \<Rightarrow> nat \<Rightarrow> nat option" where
  "first_free 0 h n = None"
| "first_free (Suc k) h n = (case h k of None \<Rightarrow> Some k | Some _ \<Rightarrow> first_free k h n)"

lemma first_free_fresh: "alloc_fresh (first_free k)"
proof -
  have "first_free k h n = Some p \<Longrightarrow> h p = None" for h n p
    by (induction k) (auto split: option.splits)
  then show ?thesis by (simp add: alloc_fresh_def)
qed

definition test_prompt :: prompt_session where
  "test_prompt = \<lparr>feed_state = Idle, prompt_buffer = replicate 6 0, prompt_count = 0, prompt_capacity = 6,
     prompt_chunks = [], prompt_heap = Map.empty\<rparr>"

definition test_image :: image_desc where
  "test_image = \<lparr>image_size = 64, image_format = 0, image_width = 1, image_height = 1, image_row_stride = 0,
     image_flags = 0, image_pixels = Span [9, 8, 7], image_gpu_device = 0, image_gpu_route_flags = 0,
     image_gpu_device_mask = 0, image_gpu_stream = 0\<rparr>"

text \<open>Two texts around an image, and one text too many.\<close>

definition test_ops :: "feed_op list" where
  "test_ops = [Op_Text (Span [1, 2]) 0, Op_Image (Some test_image) 0, Op_Text (Span [3, 4, 5, 6, 7]) 0,
     Op_Tokens (Some [11, 12]) 2 1]"

lemma fresh_test_prompt: "fresh_prompt test_prompt"
  by (simp add: fresh_prompt_def test_prompt_def)

lemma test_ops_ok: "list_all op_ok test_ops"
  by (simp add: test_ops_def test_image_def)

lemma test_run:
  "fst (run_ops test_tokenize (first_free 4) True True test_ops test_prompt) =
    [Feed [1, 2], Feed_Image (Some test_image) 0, Feed [11, 12]]"
  by code_simp

theorem prompt_is_delivered_witness:
  "\<exists>s2. session_feed_prompt_chunks (\<lambda>_ _. ASTRAL_OK) True True
      (snd (run_ops test_tokenize (first_free 4) True True test_ops test_prompt)) [] =
    (ASTRAL_OK, s2, [Feed [1, 2], Feed_Image (Some test_image) 0, Feed [11, 12]])"
proof -
  let ?r = "run_ops test_tokenize (first_free 4) True True test_ops test_prompt"
  have r: "?r = ([Feed [1, 2], Feed_Image (Some test_image) 0, Feed [11, 12]], snd ?r)" using test_run by (metis prod.collapse)
  obtain err s2 calls where f: "session_feed_prompt_chunks (\<lambda>_ _. ASTRAL_OK) True True (snd ?r) [] = (err, s2, calls)"
    by (cases "session_feed_prompt_chunks (\<lambda>_ _. ASTRAL_OK) True True (snd ?r) []")
  from prompt_is_delivered [OF fresh_test_prompt test_tokenizer_ok first_free_fresh test_ops_ok r f]
  have "err = ASTRAL_OK" "calls = [Feed [1, 2], Feed_Image (Some test_image) 0, Feed [11, 12]]" by (auto simp: stopped_by_def)
  then show ?thesis using f by blast
qed

theorem prompt_buffers_released_witness:
  "prompt_heap (session_prompt_chunks_clear (snd (run_ops test_tokenize (first_free 4) True True test_ops test_prompt))) = Map.empty \<and>
   prompt_heap (snd (run_ops test_tokenize (first_free 4) True True test_ops test_prompt)) 3 \<noteq> None"
proof -
  let ?r = "run_ops test_tokenize (first_free 4) True True test_ops test_prompt"
  have r: "?r = (fst ?r, snd ?r)" by simp
  obtain err s2 calls where f: "session_feed_prompt_chunks (\<lambda>_ _. ASTRAL_OK) True True (snd ?r) [] = (err, s2, calls)"
    by (cases "session_feed_prompt_chunks (\<lambda>_ _. ASTRAL_OK) True True (snd ?r) []")
  have "prompt_heap (snd ?r) 3 \<noteq> None" by code_simp
  with prompt_buffers_released [OF fresh_test_prompt test_tokenizer_ok first_free_fresh test_ops_ok r f] show ?thesis by blast
qed

theorem refused_prompt_is_decoded_witness:
  "\<exists>s1. session_feed test_tokenize (Span [1, 2, 3, 4, 5, 6]) 1 test_prompt = (ASTRAL_E_NOMEM, s1) \<and>
    session_feed_prompt_chunks (\<lambda>_ _. ASTRAL_OK) True True s1 [] = (ASTRAL_OK, s1, [Feed [1, 2, 3, 4, 5, 6]])"
proof -
  have "test_tokenize (Span [1, 2, 3, 4, 5, 6]) (prompt_capacity test_prompt) True =
      (ASTRAL_OK, [1, 2, 3, 4, 5, 6], prompt_capacity test_prompt)" by code_simp
  moreover have "feedable test_prompt" "prompt_capacity test_prompt \<noteq> 0"
    "length [1 :: i32, 2, 3, 4, 5, 6] = unat (prompt_capacity test_prompt)" by (simp_all add: feedable_def test_prompt_def)
  ultimately show ?thesis
    using refused_prompt_is_decoded [OF fresh_test_prompt, of "[1, 2, 3, 4, 5, 6]" test_tokenize "[1, 2, 3, 4, 5, 6]"
      1 "\<lambda>_ _. ASTRAL_OK" True True "[]"] by simp
qed

end
