(* ===== verification/Session_Lifecycle.thy ===== *)
theory Session_Lifecycle
  imports Session_Decode Session_Prompt
begin

unbundle bit_operations_syntax

text \<open>
  A session as a whole in \<open>src/src/inference/session.cpp\<close>: \<open>session_create\<close>, \<open>session_destroy\<close>,
  \<open>session_reset\<close>, \<open>session_decode\<close>, \<open>session_cancel\<close>, \<open>session_wait\<close> and the setters. The record puts
  the parts of the other theories together; the one atomic state of the code shows in two of them,
  and \<open>set_state\<close> writes both. What a session holds is counted in \<open>resources\<close>; handle table, model,
  backend, allocator and clock are parameters. Floats are their 32 bits.
\<close>

type_synonym i32 = "32 word"

record session_desc =
  d_model :: u64
  d_max_tokens :: u32
  d_temperature :: u32
  d_top_k :: u32
  d_top_p :: u32
  d_stream_enabled :: u8
  d_seed :: u32

record adapter_entry =
  ae_handle :: u64
  ae_ref :: nat
  ae_scale :: u32

record ('b, 'm) session =
  s_handle :: u64
  s_model :: u64
  backend_ctx :: "'b option"
  desc :: session_desc
  stream :: session_stream
  prompt :: prompt_session
  penalties :: penalty_state
  stop_sequences :: stop_table
  cancel_flag :: bool
  final_error :: astral_err
  sample_capacity :: u32
  rng_state :: u32
  mirostat_mu :: u32
  logprobs :: u32
  meta :: "'m spsc_ring"
  meta_read_lock :: bool
  tokens_total :: u64
  t_start_ticks :: u64
  t_first_token_ticks :: u64
  t_end_ticks :: u64
  n_past :: u32
  bos :: i32
  eos :: i32
  adapters :: "adapter_entry list"
  toolset_ref :: "nat option"
  tool_choice :: u32
  slot_id :: u32
  worker_id :: u32

definition state :: "('b, 'm) session \<Rightarrow> SessionState" where
  "state s = stream_state (stream s)"

definition set_state :: "SessionState \<Rightarrow> ('b, 'm) session \<Rightarrow> ('b, 'm) session" where
  "set_state x s = s\<lparr>stream := (stream s)\<lparr>stream_state := x\<rparr>, prompt := (prompt s)\<lparr>feed_state := x\<rparr>\<rparr>"

text \<open>What is held, as balances: acquiring adds one, releasing takes one away.\<close>

record resources =
  model_refs :: int
  scratch_held :: int
  session_blocks :: int
  backend_sessions :: int
  handles_held :: int
  toolset_refs :: int
  adapter_refs :: int

section \<open>Creation\<close>

text \<open>
  The answers of the rest of the runtime to the calls of \<open>session_create\<close>: the model (or null), the
  scratch memory (address and size), the memory of the session object, the model's information, the
  backend's session, its special tokens (when it has that operation), the handle and the clock.
\<close>

record ('b, 'm) create_env =
  model_found :: bool
  scratch :: "(u64 \<times> u64) option"
  session_memory :: bool
  assigned_worker :: u32
  model_info :: "astral_err \<times> u32 \<times> u32"
  backend_create :: "'b option \<times> astral_err"
  special_tokens :: "(astral_err \<times> i32 \<times> i32) option"
  new_handle :: u64
  ticks :: u64
  empty_meta :: "'m spsc_ring"
  garbage :: "nat \<Rightarrow> i32"
  token_storage :: "stream_token list"

text \<open>The constructor, with the fields that it and the allocation of the prompt buffer set.\<close>

definition session_new :: "('b, 'm) create_env \<Rightarrow> session_desc \<Rightarrow> frame_allocator \<Rightarrow> ('b, 'm) session" where
  "session_new env d fa =
     \<lparr>s_handle = 0, s_model = d_model d, backend_ctx = None, desc = d,
      stream = \<lparr>token_ring = spsc_new (token_storage env), pending_utf8 = replicate 32 0, pending_len = 0, pending_off = 0,
        stream_state = Idle, stream_read_lock = False\<rparr>,
      prompt = \<lparr>feed_state = Idle, prompt_buffer = map (garbage env) [0..<8192], prompt_count = 0, prompt_capacity = 8192,
        prompt_chunks = [], prompt_heap = Map.empty\<rparr>,
      penalties = \<lparr>sampler_cfg = \<lparr>temperature = 0, top_k = 0, top_p = 0, min_p = 0, typical_p = 0, repeat_penalty = 0,
          repeat_last_n = 0, penalize_nl = 0, presence_penalty = 0, frequency_penalty = 0, mirostat = 0,
          mirostat_tau = 0, mirostat_eta = 0, seed = 0\<rparr>,
        allocator = fa, vocab_size = 0, ctx_size = 0, token_counts = None, token_counts_base = None,
        recent_tokens = None, recent_capacity = 0, recent_pos = 0, recent_size = 0, token_nl = -1\<rparr>,
      stop_sequences = \<lparr>stop_seqs = [], stop_max_len = 0\<rparr>,
      cancel_flag = False, final_error = ASTRAL_OK, sample_capacity = 0, rng_state = 0, mirostat_mu = 0, logprobs = 0,
      meta = empty_meta env, meta_read_lock = False, tokens_total = 0, t_start_ticks = 0, t_first_token_ticks = 0,
      t_end_ticks = 0, n_past = 0, bos = -1, eos = -1, adapters = [], toolset_ref = None, tool_choice = 0, slot_id = 0,
      worker_id = assigned_worker env\<rparr>"

text \<open>\<open>0 < p < 1\<close> on the bits of a float.\<close>

definition between_0_1 :: "u32 \<Rightarrow> bool" where
  "between_0_1 p \<longleftrightarrow> 0 < p \<and> p < 0x3F800000"

definition candidate_capacity :: "session_desc \<Rightarrow> u32 \<Rightarrow> u32" where
  "candidate_capacity d vocab =
     (let c = (if d_top_k d > 0 then d_top_k d else if between_0_1 (d_top_p d) then 2048 else 0)
      in if c > vocab then vocab else c)"

text \<open>The sampling buffers: indices, candidate ids and candidate logits; \<open>None\<close> is a null pointer.\<close>

definition sampling_buffers ::
  "u32 \<Rightarrow> u32 \<Rightarrow> frame_allocator \<Rightarrow> u64 option \<times> u64 option \<times> u64 option \<times> frame_allocator" where
  "sampling_buffers vocab cap fa =
     (case frame_alloc (ucast vocab * 4) 4 fa of
        (indices, fa1) \<Rightarrow>
          if cap > 0 then
            (case frame_alloc (ucast cap * 4) 4 fa1 of
               (ids, fa2) \<Rightarrow> (case frame_alloc (ucast cap * 4) 4 fa2 of (logits, fa3) \<Rightarrow> (indices, ids, logits, fa3)))
          else (indices, None, None, fa1))"

definition initial_sampler :: "session_desc \<Rightarrow> u64 \<Rightarrow> sampler_config" where
  "initial_sampler d now =
     \<lparr>temperature = d_temperature d, top_k = d_top_k d, top_p = d_top_p d, min_p = 0, typical_p = 0x3F800000,
      repeat_penalty = 0x3F800000, repeat_last_n = 0, penalize_nl = 0, presence_penalty = 0, frequency_penalty = 0,
      mirostat = 0, mirostat_tau = 0, mirostat_eta = 0,
      seed = (if d_seed d \<noteq> 0 then d_seed d else ucast (now AND 0xFFFFFFFF))\<rparr>"

text \<open>What the failing paths give back once the session object exists.\<close>

definition release_new :: "resources \<Rightarrow> resources" where
  "release_new r = r\<lparr>model_refs := model_refs r - 1, scratch_held := scratch_held r - 1, session_blocks := session_blocks r - 1\<rparr>"

definition destroy_backend :: "resources \<Rightarrow> resources" where
  "destroy_backend r = r\<lparr>backend_sessions := backend_sessions r - 1\<rparr>"

text \<open>The second half of creation, from the special tokens on.\<close>

definition session_finish ::
  "('b, 'm) create_env \<Rightarrow> session_desc \<Rightarrow> ('b, 'm) session \<Rightarrow> resources \<Rightarrow>
   astral_err \<times> ('b, 'm) session option \<times> resources" where
  "session_finish env d s r =
     (case (case special_tokens env of None \<Rightarrow> (ASTRAL_OK, -1, -1) | Some t \<Rightarrow> t) of
        (tok_err, b, e) \<Rightarrow>
          if tok_err \<noteq> ASTRAL_OK then (tok_err, None, release_new (destroy_backend r))
          else
            let cap = candidate_capacity d (vocab_size (penalties s))
            in (case sampling_buffers (vocab_size (penalties s)) cap (allocator (penalties s)) of
                  (indices, ids, logits, fa) \<Rightarrow>
                    if indices = None \<or> (cap > 0 \<and> (ids = None \<or> logits = None))
                    then (ASTRAL_E_NOMEM, None, release_new (destroy_backend r))
                    else if new_handle env = 0 then (ASTRAL_E_BUSY, None, release_new (destroy_backend r))
                    else
                      let cfg = initial_sampler d (ticks env)
                      in (ASTRAL_OK,
                          Some (s\<lparr>bos := b, eos := e, sample_capacity := cap, rng_state := seed cfg,
                            penalties := (penalties s)\<lparr>allocator := fa, sampler_cfg := cfg\<rparr>, s_handle := new_handle env\<rparr>),
                          r\<lparr>handles_held := handles_held r + 1\<rparr>)))"

text \<open>The first half. The reference to the model is taken before the memory is.\<close>

definition session_create ::
  "('b, 'm) create_env \<Rightarrow> session_desc option \<Rightarrow> resources \<Rightarrow> astral_err \<times> ('b, 'm) session option \<times> resources" where
  "session_create env d_opt r =
     (case d_opt of
        None \<Rightarrow> (ASTRAL_E_INVALID, None, r)
      | Some d \<Rightarrow>
          if \<not> model_found env then (ASTRAL_E_INVALID, None, r)
          else
            let r1 = r\<lparr>model_refs := model_refs r + 1\<rparr>
            in (case scratch env of
                  None \<Rightarrow> (ASTRAL_E_NOMEM, None, r1)
                | Some (base, bytes) \<Rightarrow>
                    let r2 = r1\<lparr>scratch_held := scratch_held r1 + 1\<rparr>
                    in if \<not> session_memory env then (ASTRAL_E_NOMEM, None, r2\<lparr>scratch_held := scratch_held r2 - 1\<rparr>)
                       else
                         let r3 = r2\<lparr>session_blocks := session_blocks r2 + 1\<rparr>
                         in (case frame_alloc (8192 * 4) 4 (frame_new base bytes) of
                               (None, _) \<Rightarrow> (ASTRAL_E_NOMEM, None, release_new r3)
                             | (Some _, fa) \<Rightarrow>
                                 (case model_info env of
                                    (info_err, vocab, ctx) \<Rightarrow>
                                      if info_err \<noteq> ASTRAL_OK \<or> vocab = 0
                                      then (if info_err \<noteq> ASTRAL_OK then info_err else ASTRAL_E_BACKEND, None, release_new r3)
                                      else
                                        (case backend_create env of
                                           (None, err) \<Rightarrow>
                                             (if err \<noteq> ASTRAL_OK then err else ASTRAL_E_BACKEND, None, release_new r3)
                                         | (Some b, _) \<Rightarrow>
                                             let s = session_new env d fa
                                             in session_finish env d
                                                  (s\<lparr>backend_ctx := Some b,
                                                     penalties := (penalties s)\<lparr>vocab_size := vocab, ctx_size := ctx\<rparr>\<rparr>)
                                                  (r3\<lparr>backend_sessions := backend_sessions r3 + 1\<rparr>))))))"

section \<open>Destruction\<close>

text \<open>\<open>worker k\<close> is what the decode thread does at the \<open>k\<close>-th look at the state.\<close>

partial_function (option) await_decode ::
  "(nat \<Rightarrow> ('b, 'm) session \<Rightarrow> ('b, 'm) session) \<Rightarrow> nat \<Rightarrow> ('b, 'm) session \<Rightarrow> ('b, 'm) session option" where
  "await_decode worker k s =
     (let s1 = worker k s in if state s1 \<noteq> Decoding then Some s1 else await_decode worker (k + 1) s1)"

definition release_session :: "('b, 'm) session \<Rightarrow> resources \<Rightarrow> resources" where
  "release_session s r =
     (let r1 = r\<lparr>toolset_refs := toolset_refs r - (if toolset_ref s = None then 0 else 1),
                 adapter_refs := adapter_refs r - int (length (adapters s)),
                 scratch_held := scratch_held r - 1\<rparr>;
          r2 = (if backend_ctx s \<noteq> None then destroy_backend r1 else r1)
      in r2\<lparr>model_refs := model_refs r2 - 1, session_blocks := session_blocks r2 - 1\<rparr>)"

text \<open>The result is what the session's own heap of prompt buffers is left with, and the balances.\<close>

definition session_destroy ::
  "(nat \<Rightarrow> ('b, 'm) session \<Rightarrow> ('b, 'm) session) \<Rightarrow> ('b, 'm) session option \<Rightarrow> resources \<Rightarrow> (heap \<times> resources) option" where
  "session_destroy worker session r =
     (case session of
        None \<Rightarrow> Some (Map.empty, r)
      | Some s \<Rightarrow>
          let r1 = r\<lparr>handles_held := handles_held r - 1\<rparr>; s1 = s\<lparr>s_handle := 0\<rparr>
          in (case (if state s1 = Decoding then await_decode worker 0 (s1\<lparr>cancel_flag := True\<rparr>) else Some s1) of
                None \<Rightarrow> None
              | Some s2 \<Rightarrow> Some (prompt_heap (session_prompt_chunks_clear (prompt s2)), release_session s2 r1)))"

section \<open>Reset\<close>

text \<open>The provider's operations that a reset calls; an operation it does not have is \<open>None\<close>.\<close>

record 'b reset_ops =
  op_session_reset :: "('b \<Rightarrow> astral_err \<times> 'b) option"
  op_session_create :: "session_desc \<Rightarrow> 'b option \<times> astral_err"
  op_adapter_clear :: "('b \<Rightarrow> 'b) option"
  op_adapter_add :: "('b \<Rightarrow> adapter_entry \<Rightarrow> 'b) option"
  op_set_slot :: "('b \<Rightarrow> u32 \<Rightarrow> 'b) option"

definition reset_desc :: "session_desc option \<Rightarrow> ('b, 'm) session \<Rightarrow> (astral_err + ('b, 'm) session)" where
  "reset_desc new_desc s =
     (case new_desc of
        None \<Rightarrow> Inr s
      | Some d \<Rightarrow>
          if d_model d = 0 \<or> d_model d \<noteq> s_model s then Inl ASTRAL_E_INVALID
          else if d_top_k d > 0 \<and> d_top_k d > sample_capacity s then Inl ASTRAL_E_INVALID
          else Inr (s\<lparr>desc := d\<rparr>))"

definition reset_sampler :: "u64 \<Rightarrow> ('b, 'm) session \<Rightarrow> ('b, 'm) session" where
  "reset_sampler now s =
     (let d = desc s; sd = (if d_seed d \<noteq> 0 then d_seed d else ucast (now AND 0xFFFFFFFF))
      in s\<lparr>penalties := (penalties s)\<lparr>sampler_cfg := (sampler_cfg (penalties s))
             \<lparr>temperature := d_temperature d, top_k := d_top_k d, top_p := d_top_p d, seed := sd\<rparr>\<rparr>,
           rng_state := sd, mirostat_mu := 0\<rparr>)"

definition reset_core :: "('b, 'm) session \<Rightarrow> ('b, 'm) session" where
  "reset_core s =
     s\<lparr>cancel_flag := False, final_error := ASTRAL_OK,
       prompt := session_prompt_chunks_clear ((prompt s)\<lparr>prompt_count := 0\<rparr>),
       stream := (stream s)\<lparr>token_ring := spsc_reset (token_ring (stream s)), pending_len := 0, pending_off := 0\<rparr>,
       meta := spsc_reset (meta s),
       tokens_total := 0, t_start_ticks := 0, t_first_token_ticks := 0, t_end_ticks := 0, n_past := 0,
       penalties := penalty_state_clear (penalties s)\<rparr>"

text \<open>The backend's session: reset in place, or destroyed and created again when that is not supported.\<close>

definition reset_backend :: "'b reset_ops \<Rightarrow> ('b, 'm) session \<Rightarrow> astral_err \<times> ('b, 'm) session" where
  "reset_backend ops s =
     (case backend_ctx s of
        None \<Rightarrow> (ASTRAL_E_STATE, s)
      | Some b \<Rightarrow>
          (case (case op_session_reset ops of None \<Rightarrow> (ASTRAL_E_UNSUPPORTED, b) | Some f \<Rightarrow> f b) of
             (err, b1) \<Rightarrow>
               if err = ASTRAL_E_UNSUPPORTED then
                 (case op_session_create ops (desc s) of
                    (None, create_err) \<Rightarrow>
                      (if create_err \<noteq> ASTRAL_OK then create_err else ASTRAL_E_BACKEND, s\<lparr>backend_ctx := None\<rparr>)
                  | (Some b2, _) \<Rightarrow> (ASTRAL_OK, s\<lparr>backend_ctx := Some b2\<rparr>))
               else (err, s\<lparr>backend_ctx := Some b1\<rparr>)))"

definition reapply_controls :: "'b reset_ops \<Rightarrow> ('b, 'm) session \<Rightarrow> ('b, 'm) session" where
  "reapply_controls ops s =
     (let s1 = (case (op_adapter_clear ops, op_adapter_add ops) of
                  (Some clear, Some add) \<Rightarrow>
                    if adapters s \<noteq> [] then s\<lparr>backend_ctx := map_option (\<lambda>b. fold (\<lambda>a b. add b a) (adapters s) (clear b)) (backend_ctx s)\<rparr>
                    else s
                | _ \<Rightarrow> s)
      in (case op_set_slot ops of
            Some f \<Rightarrow> if slot_id s1 \<noteq> 0 then s1\<lparr>backend_ctx := map_option (\<lambda>b. f b (slot_id s1)) (backend_ctx s1)\<rparr> else s1
          | None \<Rightarrow> s1))"

text \<open>Both reader flags are tried; a reset gives back the ones it took.\<close>

definition session_reset ::
  "'b reset_ops \<Rightarrow> u64 \<Rightarrow> session_desc option \<Rightarrow> ('b, 'm) session option \<Rightarrow> astral_err \<times> ('b, 'm) session option" where
  "session_reset ops now new_desc session =
     (case session of
        None \<Rightarrow> (ASTRAL_E_INVALID, None)
      | Some s \<Rightarrow>
          if state s = Decoding then (ASTRAL_E_STATE, session)
          else if stream_read_lock (stream s) then (ASTRAL_E_STATE, session)
          else if meta_read_lock s then (ASTRAL_E_STATE, session)
          else
            (case reset_desc new_desc s of
               Inl err \<Rightarrow> (err, session)
             | Inr s1 \<Rightarrow>
                 (case reset_backend ops (reset_core (reset_sampler now s1)) of
                    (err, s2) \<Rightarrow>
                      if err \<noteq> ASTRAL_OK then (err, Some s2)
                      else (ASTRAL_OK, Some (set_state Idle (reapply_controls ops s2))))))"

section \<open>Decoding, canceling, waiting\<close>

text \<open>\<open>submit\<close> is the answer of the worker pool.\<close>

definition session_decode ::
  "astral_err \<Rightarrow> u64 \<Rightarrow> ('b, 'm) session option \<Rightarrow> astral_err \<times> ('b, 'm) session option" where
  "session_decode submit now session =
     (case session of
        None \<Rightarrow> (ASTRAL_E_INVALID, None)
      | Some s \<Rightarrow>
          if state s \<noteq> FeedingPrompt then (ASTRAL_E_STATE, session)
          else
            let s1 = (set_state Decoding s)\<lparr>t_start_ticks := now, t_end_ticks := 0\<rparr>
            in if submit \<noteq> ASTRAL_OK then (submit, Some (set_state FeedingPrompt s1)) else (ASTRAL_OK, Some s1))"

definition session_cancel :: "('b, 'm) session option \<Rightarrow> astral_err \<times> ('b, 'm) session option" where
  "session_cancel session =
     (case session of None \<Rightarrow> (ASTRAL_E_INVALID, None) | Some s \<Rightarrow> (ASTRAL_OK, Some (s\<lparr>cancel_flag := True\<rparr>)))"

definition session_state :: "('b, 'm) session option \<Rightarrow> astral_err + SessionState" where
  "session_state session = (case session of None \<Rightarrow> Inl ASTRAL_E_INVALID | Some s \<Rightarrow> Inr (state s))"

text \<open>What \<open>decode_loop\<close> stores at its end; a decode on the wrong worker stores a failure at once.\<close>

definition end_decode :: "SessionState \<Rightarrow> astral_err \<Rightarrow> u64 \<Rightarrow> ('b, 'm) session \<Rightarrow> ('b, 'm) session" where
  "end_decode fs err now s = set_state fs (s\<lparr>t_end_ticks := now, final_error := err\<rparr>)"

definition wrong_worker :: "u64 \<Rightarrow> ('b, 'm) session \<Rightarrow> ('b, 'm) session" where
  "wrong_worker now s = end_decode Failed ASTRAL_E_STATE now s"

definition wait_answer :: "('b, 'm) session \<Rightarrow> astral_err option" where
  "wait_answer s =
     (case state s of
        Completed \<Rightarrow> Some ASTRAL_OK
      | Canceled \<Rightarrow> Some ASTRAL_E_CANCELED
      | Failed \<Rightarrow> Some (if final_error s \<noteq> ASTRAL_OK then final_error s else ASTRAL_E_BACKEND)
      | _ \<Rightarrow> None)"

text \<open>\<open>seen k\<close> is the session at the \<open>k\<close>-th look of the loop, \<open>now k\<close> the clock.\<close>

partial_function (option) wait_rounds ::
  "(nat \<Rightarrow> ('b, 'm) session) \<Rightarrow> (nat \<Rightarrow> u64) \<Rightarrow> u64 \<Rightarrow> u32 \<Rightarrow> nat \<Rightarrow> u32 \<Rightarrow> astral_err option" where
  "wait_rounds seen now deadline poll_mask k spins =
     (case wait_answer (seen k) of
        Some err \<Rightarrow> Some err
      | None \<Rightarrow>
          if spins AND poll_mask = 0 \<and> now k \<ge> deadline then Some ASTRAL_E_TIMEOUT
          else wait_rounds seen now deadline poll_mask (k + 1) (spins + 1))"

definition session_wait ::
  "(u64 \<Rightarrow> u64) \<Rightarrow> (nat \<Rightarrow> ('b, 'm) session) \<Rightarrow> (nat \<Rightarrow> u64) \<Rightarrow> ('b, 'm) session option \<Rightarrow> u32 \<Rightarrow> astral_err option" where
  "session_wait ticks_from_ns seen now session timeout_ms =
     (case session of
        None \<Rightarrow> Some ASTRAL_E_INVALID
      | Some s \<Rightarrow>
          (case wait_answer s of
             Some err \<Rightarrow> Some err
           | None \<Rightarrow>
               if timeout_ms = 0 then Some ASTRAL_E_TIMEOUT
               else wait_rounds seen now (now 0 + ticks_from_ns (ucast timeout_ms * 1000000)) (check_mask timeout_ms) 1 0))"

section \<open>The sampler\<close>

text \<open>The first field of the descriptor is its size, 56 bytes.\<close>

definition session_set_sampler ::
  "(nat \<Rightarrow> u32) \<Rightarrow> (astral_err \<times> u32 \<times> i32) option \<Rightarrow> ('b, 'm) session option \<Rightarrow> (u32 \<times> sampler_config) option \<Rightarrow>
   astral_err \<times> ('b, 'm) session option" where
  "session_set_sampler junk nl session d_opt =
     (case (session, d_opt) of
        (Some s, Some (sz, d)) \<Rightarrow>
          if sz \<noteq> 56 then (ASTRAL_E_INVALID, session)
          else if state s = Decoding then (ASTRAL_E_STATE, session)
          else if top_k d > 0 \<and> top_k d > sample_capacity s then (ASTRAL_E_INVALID, session)
          else
            let cfg = d\<lparr>seed := seed (sampler_cfg (penalties s))\<rparr>;
                s1 = s\<lparr>penalties := (penalties s)\<lparr>sampler_cfg := cfg\<rparr>,
                       desc := (desc s)\<lparr>d_temperature := temperature d, d_top_k := top_k d, d_top_p := top_p d\<rparr>\<rparr>
            in (case ensure_penalty_state junk nl (penalties s1) of (err, p) \<Rightarrow> (err, Some (s1\<lparr>penalties := p\<rparr>)))
      | _ \<Rightarrow> (ASTRAL_E_INVALID, session))"

definition session_penalty_prompt_set_tokens ::
  "(nat \<Rightarrow> u32) \<Rightarrow> (astral_err \<times> u32 \<times> i32) option \<Rightarrow> ('b, 'm) session option \<Rightarrow> i32 list option \<Rightarrow> u32 \<Rightarrow>
   astral_err \<times> ('b, 'm) session option" where
  "session_penalty_prompt_set_tokens junk nl session tokens n =
     (case session of
        None \<Rightarrow> (ASTRAL_E_INVALID, None)
      | Some s \<Rightarrow>
          if state s = Decoding then (ASTRAL_E_STATE, session)
          else if n > 0 \<and> tokens = None then (ASTRAL_E_INVALID, session)
          else
            (case set_base_counts junk nl (take (unat n) (case tokens of None \<Rightarrow> [] | Some ts \<Rightarrow> ts)) (penalties s) of
               (err, p) \<Rightarrow> (err, Some (s\<lparr>penalties := p\<rparr>))))"

section \<open>Creating takes and gives back\<close>

text \<open>What a session holds on top of a balance.\<close>

definition holding :: "resources \<Rightarrow> ('b, 'm) session \<Rightarrow> resources" where
  "holding r s =
     r\<lparr>model_refs := model_refs r + 1, scratch_held := scratch_held r + 1, session_blocks := session_blocks r + 1,
       backend_sessions := backend_sessions r + (if backend_ctx s = None then 0 else 1),
       handles_held := handles_held r + 1,
       toolset_refs := toolset_refs r + (if toolset_ref s = None then 0 else 1),
       adapter_refs := adapter_refs r + int (length (adapters s))\<rparr>"

definition early_failure :: "('b, 'm) create_env \<Rightarrow> session_desc option \<Rightarrow> bool" where
  "early_failure env d_opt \<longleftrightarrow> d_opt \<noteq> None \<and> model_found env \<and> (scratch env = None \<or> \<not> session_memory env)"

definition balanced ::
  "resources \<Rightarrow> resources \<Rightarrow> astral_err \<times> ('b, 'm) session option \<times> resources \<Rightarrow> bool" where
  "balanced r failed res \<longleftrightarrow>
     (case res of
        (err, None, r') \<Rightarrow> err \<noteq> ASTRAL_OK \<and> r' = failed
      | (err, Some s, r') \<Rightarrow> err = ASTRAL_OK \<and> r' = holding r s)"

lemma session_finish_balanced:
  assumes "backend_ctx s \<noteq> None" "toolset_ref s = None" "adapters s = []"
  shows "balanced r r (session_finish env d s
    (r\<lparr>model_refs := model_refs r + 1, scratch_held := scratch_held r + 1, session_blocks := session_blocks r + 1,
       backend_sessions := backend_sessions r + 1\<rparr>))"
proof -
  obtain tok_err b e where t: "(case special_tokens env of None \<Rightarrow> (ASTRAL_OK, -1, -1) | Some t \<Rightarrow> t) = (tok_err, b, e)"
    by (cases "case special_tokens env of None \<Rightarrow> (ASTRAL_OK, -1, -1) | Some t \<Rightarrow> t")
  obtain indices ids logits fa where f: "sampling_buffers (vocab_size (penalties s))
      (candidate_capacity d (vocab_size (penalties s))) (allocator (penalties s)) = (indices, ids, logits, fa)"
    by (cases "sampling_buffers (vocab_size (penalties s)) (candidate_capacity d (vocab_size (penalties s))) (allocator (penalties s))")
  show ?thesis unfolding session_finish_def t prod.case Let_def f
    using assms by (simp add: balanced_def release_new_def destroy_backend_def holding_def)
qed

lemma session_create_balanced:
  "balanced r (if early_failure env d_opt then r\<lparr>model_refs := model_refs r + 1\<rparr> else r) (session_create env d_opt r)"
proof (cases d_opt)
  case None
  then show ?thesis by (simp add: session_create_def balanced_def early_failure_def)
next
  case d: (Some d)
  show ?thesis
  proof (cases "model_found env")
    case False
    then show ?thesis by (simp add: session_create_def balanced_def early_failure_def d)
  next
    case m: True
    show ?thesis
    proof (cases "scratch env")
      case None
      then show ?thesis by (simp add: session_create_def balanced_def early_failure_def d m)
    next
      case sc: (Some p)
      obtain base bytes where p: "p = (base, bytes)" by (cases p)
      show ?thesis
      proof (cases "session_memory env")
        case False
        then show ?thesis by (simp add: session_create_def balanced_def early_failure_def d m sc p)
      next
        case sm: True
        have ne: "\<not> early_failure env d_opt" by (simp add: early_failure_def sc sm)
        obtain a fa where a: "frame_alloc (8192 * 4) 4 (frame_new base bytes) = (a, fa)" by fastforce
        obtain info_err vocab ctx where i: "model_info env = (info_err, vocab, ctx)" by (cases "model_info env")
        obtain bo berr where b: "backend_create env = (bo, berr)" by fastforce
        note e = session_create_def [of env d_opt r, unfolded d option.case, unfolded m sc p prod.case option.case a i b Let_def]
        show ?thesis
        proof (cases "a = None \<or> info_err \<noteq> ASTRAL_OK \<or> vocab = 0 \<or> bo = None")
          case True
          then show ?thesis unfolding if_not_P [OF ne] using e sm m
            by (cases a; cases bo) (auto simp: balanced_def release_new_def d)
        next
          case False
          then obtain x y where xy: "a = Some x" "bo = Some y" by auto
          let ?s = "(session_new env d fa)\<lparr>backend_ctx := Some y,
             penalties := (penalties (session_new env d fa))\<lparr>vocab_size := vocab, ctx_size := ctx\<rparr>\<rparr>"
          have c: "session_create env d_opt r = session_finish env d ?s
             (r\<lparr>model_refs := model_refs r + 1, scratch_held := scratch_held r + 1, session_blocks := session_blocks r + 1,
                backend_sessions := backend_sessions r + 1\<rparr>)"
            using e sm m False xy by (simp add: d)
          show ?thesis unfolding if_not_P [OF ne] c by (rule session_finish_balanced) (simp_all add: session_new_def)
        qed
      qed
    qed
  qed
qed

text \<open>C35: Creating a session either succeeds, holding one reference to the model, its memory, its backend
  session and its handle, or fails and holds nothing, on every one of its error paths except the two
  first: when the scratch memory or the session object cannot be allocated, the reference to the
  model that was just taken is kept for ever, so the model can never be unloaded.\<close>
theorem session_create_balance:
  "balanced r (if early_failure env d_opt then r\<lparr>model_refs := model_refs r + 1\<rparr> else r) (session_create env d_opt r)"
  by (rule session_create_balanced)

section \<open>A session that is ready\<close>

text \<open>A counted window has its table, so a session without a table has an empty window.\<close>

definition window_counted :: "penalty_state \<Rightarrow> bool" where
  "window_counted p \<longleftrightarrow> (token_counts p = None \<longrightarrow> recent_size p = 0)"

lemma clear_empties: "window_counted p \<Longrightarrow> recent_size (penalty_state_clear p) = 0"
  by (auto simp: window_counted_def penalty_state_clear_def)

text \<open>A session between two uses: its parts are well formed, and the two views of the state agree.\<close>

definition session_wf :: "('b, 'm) session \<Rightarrow> bool" where
  "session_wf s \<longleftrightarrow> session_ok (stream s) \<and> prompt_inv (prompt s) \<and> penalty_inv (penalties s) \<and>
     window_counted (penalties s) \<and> stops_ok (stop_sequences s) \<and> feed_state (prompt s) = state s"

text \<open>Ready for a prompt: nothing is left of an earlier one.\<close>

definition session_ready :: "('b, 'm) session \<Rightarrow> bool" where
  "session_ready s \<longleftrightarrow> session_wf s \<and> state s = Idle \<and> \<not> cancel_flag s \<and> final_error s = ASTRAL_OK \<and>
     unread (stream s) = [] \<and> fresh_prompt (prompt s) \<and> recent_size (penalties s) = 0 \<and>
     tokens_total s = 0 \<and> backend_ctx s \<noteq> None"

lemma fresh_prompt_clear:
  assumes "prompt_inv p"
  shows "fresh_prompt (session_prompt_chunks_clear (p\<lparr>prompt_count := 0\<rparr>))"
proof -
  have h: "fold (\<lambda>c h. snd (prompt_chunk_reset c h)) (prompt_chunks p) (prompt_heap p) = Map.empty"
    by (rule clear_heap [of _ "prompt_count p"]) (use assms in \<open>simp_all add: prompt_inv_def\<close>)
  then show ?thesis using assms by (simp add: fresh_prompt_def session_prompt_chunks_clear_def prompt_inv_def)
qed

lemma fresh_prompt_set_state [simp]: "fresh_prompt (p\<lparr>feed_state := x\<rparr>) = fresh_prompt p"
  by (simp add: fresh_prompt_def)

lemma penalty_inv_clear:
  assumes "penalty_inv p"
  shows "penalty_inv (penalty_state_clear p)"
proof (cases "token_counts p = None \<or> recent_size p = 0")
  case True
  then show ?thesis using assms by (simp add: penalty_state_clear_def)
next
  case False
  let ?q = "penalty_state_clear p"
  have f: "recent_tokens ?q = recent_tokens p" "recent_capacity ?q = recent_capacity p" "recent_size ?q = 0"
      "token_counts ?q = Some (zero_counts ?q)"
      using False by (simp_all add: penalty_state_clear_def zero_counts_def)
    have "recent_tokens p \<noteq> None \<and> recent_capacity p \<le> 0xFFFF \<longrightarrow> penalty_exact ?q"
      using assms penalty_clear_exact(1) [of p] by (auto simp: penalty_inv_def)
  then show ?thesis using f by (simp add: penalty_inv_def)
qed

lemma session_finish_ready:
  assumes "session_finish env d s r = (ASTRAL_OK, Some s', r')" "session_ready s"
    "token_counts (penalties s) = None" "recent_tokens (penalties s) = None"
  shows "session_ready s'"
proof -
  obtain tok_err b e where t: "(case special_tokens env of None \<Rightarrow> (ASTRAL_OK, -1, -1) | Some t \<Rightarrow> t) = (tok_err, b, e)"
    by (cases "case special_tokens env of None \<Rightarrow> (ASTRAL_OK, -1, -1) | Some t \<Rightarrow> t")
  obtain indices ids logits fa where f: "sampling_buffers (vocab_size (penalties s))
      (candidate_capacity d (vocab_size (penalties s))) (allocator (penalties s)) = (indices, ids, logits, fa)"
    by (cases "sampling_buffers (vocab_size (penalties s)) (candidate_capacity d (vocab_size (penalties s))) (allocator (penalties s))")
  have "\<exists>cap h. s' = s\<lparr>bos := b, eos := e, sample_capacity := cap, rng_state := seed (initial_sampler d (ticks env)),
      penalties := (penalties s)\<lparr>allocator := fa, sampler_cfg := initial_sampler d (ticks env)\<rparr>, s_handle := h\<rparr>"
    using assms(1) unfolding session_finish_def t prod.case Let_def f by (auto split: if_splits)
  then obtain cap h where s': "s' = s\<lparr>bos := b, eos := e, sample_capacity := cap, rng_state := seed (initial_sampler d (ticks env)),
      penalties := (penalties s)\<lparr>allocator := fa, sampler_cfg := initial_sampler d (ticks env)\<rparr>, s_handle := h\<rparr>" by blast
  have "penalty_inv (penalties s')" using assms(2-4) by (intro penalty_inv_fresh) (simp_all add: s' session_ready_def)
  then show ?thesis using assms(2) by (simp add: s' session_ready_def session_wf_def state_def window_counted_def)
qed

lemma create_ready:
  assumes "session_create env d_opt r = (ASTRAL_OK, Some s, r')" "length (token_storage env) = 256"
  shows "session_ready s \<and> stop_seqs (stop_sequences s) = []"
proof -
  obtain d where d: "d_opt = Some d" using assms(1) by (cases d_opt) (simp_all add: session_create_def)
  have m: "model_found env" using assms(1) by (auto simp: session_create_def d split: if_splits)
  obtain base bytes where sc: "scratch env = Some (base, bytes)"
    using assms(1) by (cases "scratch env") (auto simp: session_create_def d m Let_def)
  have sm: "session_memory env" using assms(1) by (auto simp: session_create_def d m sc Let_def split: if_splits)
  obtain a fa where a: "frame_alloc (8192 * 4) 4 (frame_new base bytes) = (a, fa)" by fastforce
  obtain info_err vocab ctx where i: "model_info env = (info_err, vocab, ctx)" by (cases "model_info env")
  obtain bo berr where b: "backend_create env = (bo, berr)" by fastforce
  note e = assms(1) [unfolded session_create_def d option.case, unfolded sc prod.case option.case a i b Let_def]
  obtain x where x: "a = Some x" using e m sm by (cases a) auto
  have ok: "info_err = ASTRAL_OK" "vocab \<noteq> 0" using e m sm x by (auto split: if_splits)
  obtain y where y: "bo = Some y" using e m sm x ok by (cases bo) (auto split: if_splits)
  let ?s = "(session_new env d fa)\<lparr>backend_ctx := Some y,
     penalties := (penalties (session_new env d fa))\<lparr>vocab_size := vocab, ctx_size := ctx\<rparr>\<rparr>"
  have f: "\<exists>r2. session_finish env d ?s r2 = (ASTRAL_OK, Some s, r')"
    using e m sm x ok y by (intro exI) simp
  have inv: "spsc_inv (spsc_new (token_storage env))"
    using assms(2) is_pow2_power [of 8] by (simp add: spsc_inv_def spsc_new_def spsc_cap_def)
  have ready: "session_ready ?s"
    using inv by (simp add: session_ready_def session_wf_def session_new_def session_ok_def ring_ok_def state_def
        prompt_inv_def fresh_prompt_def penalty_inv_def stops_ok_def unread_def pending_bytes_def has_pending_def window_counted_def)
  obtain r2 where r2: "session_finish env d ?s r2 = (ASTRAL_OK, Some s, r')" using f by blast
  have "session_ready s" by (rule session_finish_ready [OF r2 ready]) (simp_all add: session_new_def)
  moreover have "stop_sequences s = stop_sequences ?s"
    using r2 by (auto simp: session_finish_def Let_def split: if_splits prod.splits)
  ultimately show ?thesis by (simp add: session_new_def)
qed

text \<open>A session that was created is ready: it is idle, with an empty stream, an empty prompt, an empty
  window of counted tokens, no stop sequences and a backend session, and its parts satisfy the
  invariants that feeding, decoding and reading start from.\<close>
theorem created_session_ready:
  assumes "session_create env d_opt r = (ASTRAL_OK, Some s, r')" "length (token_storage env) = 256"
  shows "session_ready s \<and> stop_seqs (stop_sequences s) = []"
  by (rule create_ready [OF assms])

section \<open>Destroying gives everything back\<close>

text \<open>The decode thread changes neither what a session holds nor the form of its prompt, and ends.\<close>

definition decode_thread :: "(nat \<Rightarrow> ('b, 'm) session \<Rightarrow> ('b, 'm) session) \<Rightarrow> bool" where
  "decode_thread worker \<longleftrightarrow>
     (\<forall>k s r. holding r (worker k s) = holding r s \<and> (prompt_inv (prompt s) \<longrightarrow> prompt_inv (prompt (worker k s)))) \<and>
     (\<exists>n. \<forall>k \<ge> n. \<forall>s. state (worker k s) \<noteq> Decoding)"

lemma await_decode_returns:
  assumes "\<forall>k s r. holding r (worker k s) = holding r s \<and> (prompt_inv (prompt s) \<longrightarrow> prompt_inv (prompt (worker k s)))"
    "\<forall>k \<ge> n. \<forall>s. state (worker k s) \<noteq> Decoding" "prompt_inv (prompt s)"
  shows "\<exists>s'. await_decode worker k s = Some s' \<and> holding r s' = holding r s \<and> prompt_inv (prompt s')"
  using assms(3)
proof (induction "n - k" arbitrary: k s)
  case 0
  have "await_decode worker k s = Some (worker k s)"
    using assms(2) 0(1) by (subst await_decode.simps) (simp add: Let_def)
  then show ?case using assms(1) 0(2) by auto
next
  case (Suc m)
  show ?case
  proof (cases "state (worker k s) \<noteq> Decoding")
    case True
    have "await_decode worker k s = Some (worker k s)" using True by (subst await_decode.simps) (simp add: Let_def)
    then show ?thesis using assms(1) Suc.prems by auto
  next
    case False
    have "\<exists>s'. await_decode worker (k + 1) (worker k s) = Some s' \<and> holding r s' = holding r (worker k s) \<and> prompt_inv (prompt s')"
      by (rule Suc.hyps(1)) (use Suc.hyps(2) Suc.prems assms(1) in auto)
    moreover have "await_decode worker k s = await_decode worker (k + 1) (worker k s)"
      using False by (subst await_decode.simps) (simp add: Let_def)
    ultimately show ?thesis using assms(1) by auto
  qed
qed

lemma prompt_inv_cleared: "prompt_inv p \<Longrightarrow> prompt_heap (session_prompt_chunks_clear p) = Map.empty"
  using clear_heap [of "prompt_chunks p" "prompt_count p" "prompt_heap p"]
  by (simp add: session_prompt_chunks_clear_def prompt_inv_def)

lemma release_holding:
  assumes "holding r s2 = holding r s"
  shows "release_session s2 ((holding r s)\<lparr>handles_held := handles_held (holding r s) - 1\<rparr>) = r"
  unfolding assms [symmetric] by (simp add: release_session_def holding_def destroy_backend_def Let_def)

text \<open>C36: Destroying a session ends and gives back all that it holds: handle, prompt buffers, references to
  the toolset, the adapters and the model, scratch memory, backend session and its own memory; when a
  decode is under way, after it has been told to stop and has stopped.\<close>
theorem session_destroy_balance:
  assumes "decode_thread worker" "prompt_inv (prompt s)"
  shows "session_destroy worker (Some s) (holding r s) = Some (Map.empty, r)"
proof -
  let ?s1 = "s\<lparr>s_handle := 0\<rparr>" and ?r1 = "(holding r s)\<lparr>handles_held := handles_held (holding r s) - 1\<rparr>"
  have k: "\<forall>k s r. holding r (worker k s) = holding r s \<and> (prompt_inv (prompt s) \<longrightarrow> prompt_inv (prompt (worker k s)))"
    using assms(1) by (simp add: decode_thread_def)
  obtain n where n: "\<forall>k \<ge> n. \<forall>s. state (worker k s) \<noteq> Decoding" using assms(1) by (auto simp: decode_thread_def)
  obtain s2 where s2: "(if state ?s1 = Decoding then await_decode worker 0 (?s1\<lparr>cancel_flag := True\<rparr>) else Some ?s1) = Some s2"
    "holding r s2 = holding r s" "prompt_inv (prompt s2)"
  proof (cases "state ?s1 = Decoding")
    case True
    have "prompt_inv (prompt (?s1\<lparr>cancel_flag := True\<rparr>))" using assms(2) by simp
    from await_decode_returns [OF k n this, of 0 r] obtain s' where
      "await_decode worker 0 (?s1\<lparr>cancel_flag := True\<rparr>) = Some s'" "holding r s' = holding r (?s1\<lparr>cancel_flag := True\<rparr>)"
      "prompt_inv (prompt s')" by blast
    then show ?thesis using that True by (simp add: holding_def)
  next
    case False
    then show ?thesis using that [of ?s1] assms(2) by (simp add: holding_def)
  qed
  show ?thesis
    unfolding session_destroy_def option.case Let_def s2(1) release_holding [OF s2(2)] prompt_inv_cleared [OF s2(3)] ..
qed

section \<open>A reset makes a session ready again\<close>

lemma ring_ok_reset: "ring_ok r \<Longrightarrow> ring_ok (spsc_reset r) \<and> spsc_items (spsc_reset r) = []"
  using spsc_reset_correct [of r] by (simp add: ring_ok_def)

definition reset_clean :: "('b, 'm) session \<Rightarrow> bool" where
  "reset_clean s \<longleftrightarrow> session_ok (stream s) \<and> unread (stream s) = [] \<and> fresh_prompt (prompt s) \<and> penalty_inv (penalties s) \<and>
     recent_size (penalties s) = 0 \<and> window_counted (penalties s) \<and> stops_ok (stop_sequences s) \<and>
     \<not> cancel_flag s \<and> final_error s = ASTRAL_OK \<and> tokens_total s = 0"

lemma reset_core_clean:
  assumes "session_wf s"
  shows "reset_clean (reset_core s)"
proof -
  have w: "session_ok (stream s)" "prompt_inv (prompt s)" "penalty_inv (penalties s)" "window_counted (penalties s)"
    "stops_ok (stop_sequences s)" using assms by (simp_all add: session_wf_def)
  let ?t = "(stream s)\<lparr>token_ring := spsc_reset (token_ring (stream s)), pending_len := 0, pending_off := 0\<rparr>"
  have "session_ok ?t \<and> unread ?t = []"
    using w(1) ring_ok_reset by (simp add: session_ok_def unread_def pending_bytes_def has_pending_def)
  moreover have "recent_size (penalty_state_clear (penalties s)) = 0" by (rule clear_empties [OF w(4)])
  moreover have "window_counted (penalty_state_clear (penalties s))" using \<open>recent_size _ = 0\<close> by (simp add: window_counted_def)
  ultimately show ?thesis
    using fresh_prompt_clear [OF w(2)] penalty_inv_clear [OF w(3)] w(5) by (simp add: reset_clean_def reset_core_def)
qed

lemma penalty_inv_sampler:
  "penalty_inv (p\<lparr>sampler_cfg := cfg\<rparr>) = penalty_inv p" "window_counted (p\<lparr>sampler_cfg := cfg\<rparr>) = window_counted p"
proof -
  have "recent (p\<lparr>sampler_cfg := cfg\<rparr>) = recent p" by (cases "recent_tokens p") (simp_all add: recent_def)
  then show "penalty_inv (p\<lparr>sampler_cfg := cfg\<rparr>) = penalty_inv p" "window_counted (p\<lparr>sampler_cfg := cfg\<rparr>) = window_counted p"
    by (simp_all add: penalty_inv_def penalty_exact_def zero_counts_def window_counted_def)
qed

lemma reset_sampler_wf: "session_wf s \<Longrightarrow> session_wf (reset_sampler now s)"
  by (simp add: session_wf_def reset_sampler_def Let_def penalty_inv_sampler state_def)

lemma reset_clean_backend:
  "reset_clean s \<Longrightarrow> reset_clean (s\<lparr>backend_ctx := b\<rparr>)"
  by (simp add: reset_clean_def)

lemma reset_backend_ok:
  assumes "reset_backend ops s = (ASTRAL_OK, s')"
  shows "\<exists>b. s' = s\<lparr>backend_ctx := Some b\<rparr>"
proof (cases "backend_ctx s")
  case None
  then show ?thesis using assms by (simp add: reset_backend_def)
next
  case (Some b)
  obtain err b1 where r: "(case op_session_reset ops of None \<Rightarrow> (ASTRAL_E_UNSUPPORTED, b) | Some f \<Rightarrow> f b) = (err, b1)" by fastforce
  obtain bo cerr where c: "op_session_create ops (desc s) = (bo, cerr)" by fastforce
  note e = assms [unfolded reset_backend_def Some option.case r prod.case c]
  show ?thesis
  proof (cases "err = ASTRAL_E_UNSUPPORTED")
    case True
    then show ?thesis using e by (cases bo) (auto split: if_splits)
  next
    case False
    then show ?thesis using e by auto
  qed
qed

lemma reapply_backend:
  assumes "backend_ctx s = Some b"
  shows "\<exists>b'. reapply_controls ops s = s\<lparr>backend_ctx := Some b'\<rparr>"
proof -
  let ?a = "case (op_adapter_clear ops, op_adapter_add ops) of
      (Some clear, Some add) \<Rightarrow>
        if adapters s \<noteq> [] then s\<lparr>backend_ctx := map_option (\<lambda>b. fold (\<lambda>a b. add b a) (adapters s) (clear b)) (backend_ctx s)\<rparr> else s
    | _ \<Rightarrow> s"
  have "\<exists>b1. ?a = s\<lparr>backend_ctx := Some b1\<rparr>"
  proof (cases "op_adapter_clear ops")
    case None
    then show ?thesis using assms by (intro exI [of _ b]) simp
  next
    case c: (Some clear)
    show ?thesis
    proof (cases "op_adapter_add ops")
      case None
      then show ?thesis using assms c by (intro exI [of _ b]) simp
    next
      case (Some add)
      show ?thesis
      proof (cases "adapters s = []")
        case True
        then show ?thesis using assms c Some by (intro exI [of _ b]) simp
      next
        case False
        then show ?thesis using assms c Some by auto
      qed
    qed
  qed
  then obtain b1 where a: "?a = s\<lparr>backend_ctx := Some b1\<rparr>" by blast
  show ?thesis unfolding reapply_controls_def Let_def a
    by (cases "op_set_slot ops") (auto intro: exI [of _ b1])
qed

text \<open>A reset that succeeds makes a session ready again, however it was used before: nothing of the old
  prompt, stream, counted tokens, result or cancel request is left.\<close>
theorem reset_session_ready:
  assumes "session_reset ops now new_desc (Some s) = (ASTRAL_OK, Some s')" "session_wf s"
  shows "session_ready s'"
proof -
  have g: "state s \<noteq> Decoding" "\<not> stream_read_lock (stream s)" "\<not> meta_read_lock s"
    using assms(1) by (auto simp: session_reset_def split: if_splits)
  note e = assms(1) [unfolded session_reset_def option.case if_not_P [OF g(1)] if_not_P [OF g(2)] if_not_P [OF g(3)]]
  obtain s1 where d: "reset_desc new_desc s = Inr s1" using e by (cases "reset_desc new_desc s") (auto simp: reset_desc_def split: option.splits if_splits)
  have "s1 = s \<or> (\<exists>d. s1 = s\<lparr>desc := d\<rparr>)" using d by (auto simp: reset_desc_def split: option.splits if_splits)
  then have wf1: "session_wf s1" using assms(2) by (auto simp: session_wf_def state_def)
  obtain err s2 where b: "reset_backend ops (reset_core (reset_sampler now s1)) = (err, s2)" by fastforce
  have ok: "err = ASTRAL_OK" "s' = set_state Idle (reapply_controls ops s2)"
    using e d b by (auto split: if_splits)
  have "reset_clean (reset_core (reset_sampler now s1))" by (rule reset_core_clean [OF reset_sampler_wf [OF wf1]])
  moreover obtain b2 where b2: "s2 = (reset_core (reset_sampler now s1))\<lparr>backend_ctx := Some b2\<rparr>"
    using reset_backend_ok [OF b [unfolded ok(1)]] by blast
  ultimately have c2: "reset_clean s2" by (simp add: reset_clean_backend)
  obtain b3 where b3: "reapply_controls ops s2 = s2\<lparr>backend_ctx := Some b3\<rparr>"
    using reapply_backend [of s2 b2 ops] b2 by auto
  have c: "reset_clean (s2\<lparr>backend_ctx := Some b3\<rparr>)" by (rule reset_clean_backend [OF c2])
  have st: "unread ((stream s2)\<lparr>stream_state := Idle\<rparr>) = unread (stream s2)"
    "session_ok ((stream s2)\<lparr>stream_state := Idle\<rparr>) = session_ok (stream s2)"
    by (simp_all add: unread_def pending_bytes_def has_pending_def session_ok_def)
  have "prompt_inv (prompt s')" using c fresh_prompt_inv [of "prompt s'"] by (simp add: ok(2) b3 set_state_def reset_clean_def)
  then show ?thesis using c unfolding ok(2) b3
    by (simp add: session_ready_def session_wf_def set_state_def reset_clean_def state_def st)
qed

section \<open>Witnesses\<close>

definition demo_create :: "(nat, unit) create_env" where
  "demo_create =
     \<lparr>model_found = True, scratch = Some (65536, 2097152), session_memory = True, assigned_worker = 0,
      model_info = (ASTRAL_OK, 4, 64), backend_create = (Some 0, ASTRAL_OK), special_tokens = None, new_handle = 7,
      ticks = 1, empty_meta = spsc_new [()], garbage = (\<lambda>_. 0), token_storage = replicate 256 (stream_fragment 0 [])\<rparr>"

definition demo_desc :: session_desc where
  "demo_desc = \<lparr>d_model = 5, d_max_tokens = 8, d_temperature = 0, d_top_k = 2, d_top_p = 0, d_stream_enabled = 1, d_seed = 3\<rparr>"

definition no_resources :: resources where
  "no_resources = \<lparr>model_refs = 1, scratch_held = 0, session_blocks = 0, backend_sessions = 0, handles_held = 1,
     toolset_refs = 0, adapter_refs = 0\<rparr>"

definition demo_session :: "(nat, unit) session" where
  "demo_session = the (fst (snd (session_create demo_create (Some demo_desc) no_resources)))"

lemma session_create_succeeds:
  assumes "model_found env" "scratch env = Some (base, bytes)" "session_memory env"
    "frame_alloc (8192 * 4) 4 (frame_new base bytes) = (Some x, fa)" "model_info env = (ASTRAL_OK, vocab, ctx)" "vocab \<noteq> 0"
    "backend_create env = (Some b, err)" "special_tokens env = None" "new_handle env \<noteq> 0"
    "sampling_buffers vocab (candidate_capacity d vocab) fa = (Some indices, Some ids, Some logits, fa')"
  shows "\<exists>s r'. session_create env (Some d) r = (ASTRAL_OK, Some s, r')"
  using assms(1,3,6,9)
  unfolding session_create_def option.case assms(2,4,5,7,8) prod.case Let_def session_finish_def session_new_def
  by (simp add: assms(10))

lemma demo_created:
  "\<exists>r'. session_create demo_create (Some demo_desc) no_resources = (ASTRAL_OK, Some demo_session, r')"
proof -
  let ?fa = "\<lparr>fa_base = 65536, fa_capacity = 2097152, fa_used = 32768\<rparr>"
  have a: "frame_alloc (8192 * 4) 4 (frame_new 65536 2097152) = (Some 65536, ?fa)" by code_simp
  have b: "sampling_buffers 4 (candidate_capacity demo_desc 4) ?fa =
      (Some 98304, Some 98320, Some 98328, \<lparr>fa_base = 65536, fa_capacity = 2097152, fa_used = 32800\<rparr>)" by code_simp
  have "\<exists>s r'. session_create demo_create (Some demo_desc) no_resources = (ASTRAL_OK, Some s, r')"
    by (rule session_create_succeeds [OF _ _ _ a _ _ _ _ _ b]) (simp_all add: demo_create_def)
  then show ?thesis unfolding demo_session_def by fastforce
qed

lemma demo_ready: "session_ready demo_session"
proof -
  obtain r' where "session_create demo_create (Some demo_desc) no_resources = (ASTRAL_OK, Some demo_session, r')"
    using demo_created by blast
  then show ?thesis using create_ready [of demo_create] by (simp add: demo_create_def)
qed

theorem created_session_ready_witness: "session_ready demo_session"
proof -
  obtain r' where "session_create demo_create (Some demo_desc) no_resources = (ASTRAL_OK, Some demo_session, r')"
    using demo_created by blast
  then show ?thesis using created_session_ready [of demo_create] by (simp add: demo_create_def)
qed

lemma demo_wf: "session_wf demo_session"
  using demo_ready by (simp add: session_ready_def)

theorem session_destroy_balance_witness:
  "session_destroy (\<lambda>_. set_state Completed) (Some (set_state Decoding demo_session))
     (holding no_resources (set_state Decoding demo_session)) = Some (Map.empty, no_resources)"
proof (rule session_destroy_balance)
  show "decode_thread (\<lambda>_. set_state Completed)"
    by (simp add: decode_thread_def holding_def set_state_def state_def prompt_inv_def)
  show "prompt_inv (prompt (set_state Decoding demo_session))"
    using demo_wf by (simp add: session_wf_def set_state_def prompt_inv_def)
qed

definition demo_ops :: "nat reset_ops" where
  "demo_ops = \<lparr>op_session_reset = Some (\<lambda>b. (ASTRAL_OK, 0)), op_session_create = (\<lambda>_. (None, ASTRAL_E_BACKEND)),
     op_adapter_clear = None, op_adapter_add = None, op_set_slot = None\<rparr>"

definition used_session :: "(nat, unit) session" where
  "used_session = end_decode Completed ASTRAL_OK 9
     (demo_session\<lparr>stream := (stream demo_session)\<lparr>stream_read_lock := False\<rparr>, meta_read_lock := False, cancel_flag := True\<rparr>)"

lemma used_wf: "session_wf used_session"
  using demo_wf by (simp add: used_session_def session_wf_def end_decode_def set_state_def state_def prompt_inv_def session_ok_def)

theorem reset_session_ready_witness:
  "\<exists>s'. session_reset demo_ops 1 None (Some used_session) = (ASTRAL_OK, Some s') \<and> session_ready s'"
proof -
  obtain b where b: "backend_ctx demo_session = Some b" using demo_ready by (auto simp: session_ready_def)
  have e: "\<exists>s'. session_reset demo_ops 1 None (Some used_session) = (ASTRAL_OK, Some s')"
    by (simp add: session_reset_def reset_desc_def reset_backend_def reset_core_def reset_sampler_def Let_def demo_ops_def
        used_session_def end_decode_def set_state_def state_def b)
  then show ?thesis using reset_session_ready used_wf by blast
qed

end
