(* ===== verification/Session_Control.thy ===== *)
theory Session_Control
  imports Session_Lifecycle
begin

text \<open>
  The life of a session with its threads in \<open>src/src/inference/session.cpp\<close>: the caller who feeds,
  decodes and resets, the worker that runs \<open>decode_loop\<close>, and others who cancel or wait, interleaved
  between their accesses to the shared state. \<open>session_decode\<close> takes two steps, the store of the
  state and the submission; the end of a decode takes two, the store of its result and of its state.
\<close>

section \<open>How a decode ends\<close>

definition outcome_ok :: "SessionState \<Rightarrow> astral_err \<Rightarrow> bool" where
  "outcome_ok fs err \<longleftrightarrow>
     fs = Completed \<and> err = ASTRAL_OK \<or> fs = Canceled \<and> err = ASTRAL_E_CANCELED \<or> fs = Failed \<and> err \<noteq> ASTRAL_OK"

lemma outcome_failed_as: "err \<noteq> ASTRAL_OK \<Longrightarrow> outcome_ok (failed_as err) err"
  by (simp add: outcome_ok_def failed_as_def)

lemma outcome_simps [simp]:
  "outcome_ok Completed ASTRAL_OK" "outcome_ok Canceled ASTRAL_E_CANCELED" "outcome_ok Failed err \<longleftrightarrow> err \<noteq> ASTRAL_OK"
  by (simp_all add: outcome_ok_def)

lemma finish_stop_outcome: "finish_stop env l st = Some (fs, err, st') \<Longrightarrow> outcome_ok fs err"
  by (auto simp: finish_stop_def outcome_failed_as split: if_splits option.splits)

lemma generate_outcome: "generate env n i b st = Some (fs, err, st') \<Longrightarrow> outcome_ok fs err"
proof (induction n arbitrary: i b st)
  case (Suc n)
  obtain err1 b1 where l: "session_logits env b = (err1, b1)" by fastforce
  obtain tok m b2 where s: "sample_token env b1 (penalty st) = (tok, m, b2)" by (cases "sample_token env b1 (penalty st)")
  obtain err2 b3 where a: "session_accept env b2 tok = (err2, b3)" by fastforce
  let ?s1 = "after_sample env tok m st"
  obtain stop st2 where c: "session_stop_check env tok
      (?s1\<lparr>total_tokens := total_tokens ?s1 + 1, generated := generated ?s1 @ [tok]\<rparr>) = (stop, st2)" by fastforce
  note e = Suc.prems [unfolded generate.simps l s a c prod.case Let_def]
  show ?case
  proof (cases "cancel_at env i \<or> err1 \<noteq> ASTRAL_OK \<or> err2 \<noteq> ASTRAL_OK \<or> sint (token_eos env) \<ge> 0 \<and> tok = token_eos env")
    case True
    then show ?thesis using e by (auto split: if_splits)
  next
    case False
    obtain err3 st3 where em: "emit_or_hold env tok st2 = Some (err3, st3)"
      using e False by (cases "emit_or_hold env tok st2") auto
    show ?thesis
    proof (cases "err3 = ASTRAL_OK")
      case True
      then show ?thesis using e em False Suc.IH [of "i + 1" b3 st3] finish_stop_outcome [of env _ st3]
        by (cases stop) auto
    next
      case False': False
      have "fs = failed_as err3 \<and> err = err3" using e em False False' by auto
      then show ?thesis using outcome_failed_as [OF False'] by simp
    qed
  qed
qed simp

lemma decode_loop_outcome:
  assumes "decode_loop env b st = Some (fs, err, st')"
  shows "outcome_ok fs err"
proof -
  obtain err0 b1 where f: "feed_prompt env b = (err0, b1)" by fastforce
  note e = assms [unfolded decode_loop_def f prod.case]
  show ?thesis
  proof (cases "err0 = ASTRAL_OK")
    case False
    then show ?thesis using e by auto
  next
    case True
    obtain gs ge st1 where g: "generate env (max_tokens env) 0 b1 (start_state env st) = Some (gs, ge, st1)"
      using e True by (cases "generate env (max_tokens env) 0 b1 (start_state env st)") auto
    note o = generate_outcome [OF g]
    show ?thesis
    proof (cases "gs = Completed \<and> stream_enabled env \<and> hold_count st1 > 0")
      case False
      then show ?thesis using e True g o by auto
    next
      case True': True
      obtain err2 st2 where h: "session_hold_flush_ready env 0 st1 = Some (err2, st2)"
        using e True g True' by (cases "session_hold_flush_ready env 0 st1") auto
      then have "fs = (if err2 \<noteq> ASTRAL_OK then failed_as err2 else Completed) \<and> err = (if err2 \<noteq> ASTRAL_OK then err2 else ge)"
        using e True g True' by (auto split: if_splits)
      then show ?thesis using o True' outcome_failed_as [of err2] by (auto split: if_splits)
    qed
  qed
qed

section \<open>The threads\<close>

datatype worker_pc = W_None | W_Queued | W_Running | W_Stored SessionState

datatype api_pc = A_Free | A_Submitting

text \<open>Two history variables: how the last decode ended, and whether a reset that failed has cleared its
  result since. No step depends on them.\<close>

record ('b, 'm) ctl =
  sess :: "('b, 'm) session"
  worker :: worker_pc
  caller :: api_pc
  ended :: "SessionState \<times> astral_err"
  cleared :: bool

definition sync_prompt :: "prompt_session \<Rightarrow> ('b, 'm) session \<Rightarrow> ('b, 'm) session" where
  "sync_prompt p s = s\<lparr>prompt := p, stream := (stream s)\<lparr>stream_state := feed_state p\<rparr>\<rparr>"

definition decode_store :: "u64 \<Rightarrow> ('b, 'm) ctl \<Rightarrow> ('b, 'm) ctl" where
  "decode_store now c =
     (if state (sess c) \<noteq> FeedingPrompt then c
      else c\<lparr>sess := (set_state Decoding (sess c))\<lparr>t_start_ticks := now, t_end_ticks := 0\<rparr>, caller := A_Submitting\<rparr>)"

definition decode_submit :: "astral_err \<Rightarrow> ('b, 'm) ctl \<Rightarrow> ('b, 'm) ctl" where
  "decode_submit err c =
     (if err \<noteq> ASTRAL_OK then c\<lparr>sess := set_state FeedingPrompt (sess c), caller := A_Free\<rparr>
      else c\<lparr>worker := W_Queued, caller := A_Free\<rparr>)"

definition store_result :: "SessionState \<Rightarrow> astral_err \<Rightarrow> u64 \<Rightarrow> ('b, 'm) ctl \<Rightarrow> ('b, 'm) ctl" where
  "store_result fs err now c =
     c\<lparr>sess := (sess c)\<lparr>t_end_ticks := now, final_error := err\<rparr>, worker := W_Stored fs\<rparr>"

definition store_state :: "SessionState \<Rightarrow> ('b, 'm) ctl \<Rightarrow> ('b, 'm) ctl" where
  "store_state fs c = c\<lparr>sess := set_state fs (sess c), worker := W_None\<rparr>"

inductive ctl_step :: "('b, 'm) ctl \<Rightarrow> ('b, 'm) ctl \<Rightarrow> bool" where
  feed: "caller c = A_Free \<Longrightarrow> run_op tokenize alloc images audio op (prompt (sess c)) = (err, p) \<Longrightarrow>
    ctl_step c (c\<lparr>sess := sync_prompt p (sess c)\<rparr>)"
| decode: "caller c = A_Free \<Longrightarrow> ctl_step c (decode_store now c)"
| submit: "caller c = A_Submitting \<Longrightarrow> ctl_step c (decode_submit err c)"
| start: "worker c = W_Queued \<Longrightarrow> ctl_step c (c\<lparr>worker := W_Running\<rparr>)"
| wrong: "worker c = W_Queued \<Longrightarrow> ctl_step c ((store_result Failed ASTRAL_E_STATE now c)\<lparr>ended := (Failed, ASTRAL_E_STATE), cleared := False\<rparr>)"
| finish: "worker c = W_Running \<Longrightarrow> decode_loop (env :: ('b, 'm) decode_env) b st = Some (fs, err, st') \<Longrightarrow>
    ctl_step c ((store_result fs err now c)\<lparr>ended := (fs, err), cleared := False\<rparr>)"
| publish: "worker c = W_Stored fs \<Longrightarrow> ctl_step c (store_state fs c)"
| cancel: "session_cancel (Some (sess c)) = (err, Some s) \<Longrightarrow> ctl_step c (c\<lparr>sess := s\<rparr>)"
| reset: "caller c = A_Free \<Longrightarrow> session_reset ops now d (Some (sess c)) = (err, Some s) \<Longrightarrow>
    ctl_step c (c\<lparr>sess := s, cleared := cleared c \<or> err \<noteq> ASTRAL_OK \<and> s \<noteq> sess c\<rparr>)"
| sampler: "caller c = A_Free \<Longrightarrow> session_set_sampler junk nl (Some (sess c)) d = (err, Some s) \<Longrightarrow> ctl_step c (c\<lparr>sess := s\<rparr>)"
| counts: "caller c = A_Free \<Longrightarrow> session_penalty_prompt_set_tokens junk nl (Some (sess c)) ts n = (err, Some s) \<Longrightarrow>
    ctl_step c (c\<lparr>sess := s\<rparr>)"

inductive ctl_reachable :: "('b, 'm) ctl \<Rightarrow> bool" where
  start: "session_ready s \<Longrightarrow> ctl_reachable \<lparr>sess = s, worker = W_None, caller = A_Free, ended = (Completed, ASTRAL_OK), cleared = False\<rparr>"
| step: "ctl_reachable c \<Longrightarrow> ctl_step c c' \<Longrightarrow> ctl_reachable c'"

text \<open>Uninterrupted, the two steps of a decode are \<open>session_decode\<close>.\<close>

lemma decode_steps:
  assumes "state (sess c) = FeedingPrompt"
  shows "Some (sess (decode_submit err (decode_store now c))) = snd (session_decode err now (Some (sess c)))"
  using assms by (simp add: decode_store_def decode_submit_def session_decode_def Let_def)

section \<open>Invariant\<close>

text \<open>A decode is on its way exactly while the state says so, and only one; a terminal state is that in
  which the last decode ended, and its result is kept until a reset fails half way, which clears the
  result and leaves the state.\<close>

definition carries :: "SessionState \<Rightarrow> ('b, 'm) ctl \<Rightarrow> bool" where
  "carries fs c \<longleftrightarrow> fst (ended c) = fs \<and> outcome_ok fs (snd (ended c)) \<and>
     (\<not> cleared c \<longrightarrow> final_error (sess c) = snd (ended c))"

definition ctl_inv :: "('b, 'm) ctl \<Rightarrow> bool" where
  "ctl_inv c \<longleftrightarrow>
     feed_state (prompt (sess c)) = state (sess c) \<and>
     (state (sess c) = Decoding \<longleftrightarrow> worker c \<noteq> W_None \<or> caller c = A_Submitting) \<and>
     \<not> (worker c \<noteq> W_None \<and> caller c = A_Submitting) \<and>
     (\<forall>fs. worker c = W_Stored fs \<longrightarrow> carries fs c) \<and>
     (terminal (state (sess c)) \<longrightarrow> carries (state (sess c)) c)"

lemma carries_same:
  "ended c' = ended c \<Longrightarrow> cleared c' = cleared c \<Longrightarrow> final_error (sess c') = final_error (sess c) \<Longrightarrow> carries fs c' = carries fs c"
  by (simp add: carries_def)

lemma carries_cleared: "ended c' = ended c \<Longrightarrow> cleared c' \<Longrightarrow> carries fs c \<Longrightarrow> carries fs c'"
  by (simp add: carries_def)

lemma state_simps [simp]:
  "state (set_state x s) = x" "feed_state (prompt (set_state x s)) = x" "final_error (set_state x s) = final_error s"
  "state (sync_prompt p s) = feed_state p" "prompt (sync_prompt p s) = p" "final_error (sync_prompt p s) = final_error s"
  by (simp_all add: set_state_def state_def sync_prompt_def)

lemma state_upd [simp]:
  "state (s\<lparr>t_start_ticks := a\<rparr>) = state s" "state (s\<lparr>t_end_ticks := a\<rparr>) = state s" "state (s\<lparr>final_error := e\<rparr>) = state s"
  "state (s\<lparr>cancel_flag := f\<rparr>) = state s" "state (s\<lparr>penalties := p\<rparr>) = state s" "state (s\<lparr>desc := d\<rparr>) = state s"
  "state (s\<lparr>backend_ctx := b\<rparr>) = state s"
  by (simp_all add: state_def)

lemma push_text_state: "session_push_text_chunk a n fin s = (err, s') \<Longrightarrow> feed_state s' = feed_state s"
  by (auto simp: session_push_text_chunk_def split: if_splits)

lemma push_media_state: "session_push_media_chunk alloc img audio fin s = (err, s') \<Longrightarrow> feed_state s' = feed_state s"
  by (auto simp: session_push_media_chunk_def Let_def split: if_splits option.splits)

lemma begin_feeding_state: "feed_state (begin_feeding s) = (if feed_state s = Idle then FeedingPrompt else feed_state s)"
  by (simp add: begin_feeding_def)

text \<open>Feeding moves an idle session on and leaves every other state alone.\<close>

lemma run_op_state:
  assumes "run_op tokenize alloc images audio op s = (err, s')"
  shows "feed_state s' = feed_state s \<or> feed_state s = Idle \<and> feed_state s' = FeedingPrompt"
proof (cases op)
  case (Op_Text pr fin)
  then show ?thesis using assms
    by (auto simp: session_feed_def Let_def feedable_def begin_feeding_state split: if_splits prod.splits dest!: push_text_state)
next
  case (Op_Tokens ts n fin)
  then show ?thesis using assms
    by (auto simp: session_feed_tokens_def Let_def feedable_def begin_feeding_state split: if_splits dest!: push_text_state)
next
  case (Op_Image d fin)
  then show ?thesis using assms
    by (auto simp: session_feed_image_def feedable_def begin_feeding_state split: if_splits dest!: push_media_state)
next
  case (Op_Audio d fin)
  then show ?thesis using assms
    by (auto simp: session_feed_audio_def feedable_def begin_feeding_state split: if_splits dest!: push_media_state)
qed

lemma clear_state [simp]: "feed_state (session_prompt_chunks_clear p) = feed_state p"
  by (simp add: session_prompt_chunks_clear_def)

lemma reset_core_state [simp]:
  "state (reset_core s) = state s" "feed_state (prompt (reset_core s)) = feed_state (prompt s)" "final_error (reset_core s) = ASTRAL_OK"
  by (simp_all add: reset_core_def state_def)

lemma reset_sampler_state [simp]:
  "state (reset_sampler now s) = state s" "prompt (reset_sampler now s) = prompt s"
  by (simp_all add: reset_sampler_def Let_def state_def)

lemma reset_backend_state:
  assumes "reset_backend ops s = (err, s')"
  shows "\<exists>b. s' = s\<lparr>backend_ctx := b\<rparr>"
proof (cases "backend_ctx s")
  case None
  then have "s' = s\<lparr>backend_ctx := backend_ctx s\<rparr>" using assms by (simp add: reset_backend_def)
  then show ?thesis by blast
next
  case (Some b)
  obtain e b1 where r: "(case op_session_reset ops of None \<Rightarrow> (ASTRAL_E_UNSUPPORTED, b) | Some f \<Rightarrow> f b) = (e, b1)" by fastforce
  obtain bo cerr where c: "op_session_create ops (desc s) = (bo, cerr)" by fastforce
  note a = assms [unfolded reset_backend_def Some option.case r prod.case c]
  show ?thesis
  proof (cases "e = ASTRAL_E_UNSUPPORTED")
    case True
    then show ?thesis using a by (cases bo) auto
  next
    case False
    then show ?thesis using a by auto
  qed
qed

lemma reapply_state: "\<exists>b. reapply_controls ops s = s\<lparr>backend_ctx := b\<rparr>"
proof -
  let ?a = "case (op_adapter_clear ops, op_adapter_add ops) of
      (Some clear, Some add) \<Rightarrow>
        if adapters s \<noteq> [] then s\<lparr>backend_ctx := map_option (\<lambda>b. fold (\<lambda>a b. add b a) (adapters s) (clear b)) (backend_ctx s)\<rparr> else s
    | _ \<Rightarrow> s"
  have keep: "\<exists>b. s = s\<lparr>backend_ctx := b\<rparr>" by (rule exI [of _ "backend_ctx s"]) simp
  have "\<exists>b. ?a = s\<lparr>backend_ctx := b\<rparr>" using keep
    by (cases "op_adapter_clear ops"; cases "op_adapter_add ops"; cases "adapters s = []") auto
  then obtain b1 where a: "?a = s\<lparr>backend_ctx := b1\<rparr>" by blast
  show ?thesis unfolding reapply_controls_def Let_def a by (cases "op_set_slot ops") (auto intro: exI [of _ b1])
qed

lemma reset_state:
  assumes "session_reset ops now d (Some s) = (err, Some s')"
  shows "s' = s \<or> state s \<noteq> Decoding \<and> final_error s' = ASTRAL_OK \<and>
    (state s' = Idle \<and> feed_state (prompt s') = Idle \<or>
     err \<noteq> ASTRAL_OK \<and> state s' = state s \<and> feed_state (prompt s') = feed_state (prompt s))"
proof (cases "state s = Decoding \<or> stream_read_lock (stream s) \<or> meta_read_lock s")
  case True
  then show ?thesis using assms by (auto simp: session_reset_def split: if_splits)
next
  case False
  then have g: "state s \<noteq> Decoding" "\<not> stream_read_lock (stream s)" "\<not> meta_read_lock s" by simp_all
  note e = assms [unfolded session_reset_def option.case if_not_P [OF g(1)] if_not_P [OF g(2)] if_not_P [OF g(3)]]
  show ?thesis
  proof (cases "reset_desc d s")
    case (Inl x)
    then show ?thesis using e by simp
  next
    case (Inr s1)
    then have s1: "s1 = s \<or> (\<exists>d. s1 = s\<lparr>desc := d\<rparr>)" by (auto simp: reset_desc_def split: option.splits if_splits)
    obtain err2 s2 where b: "reset_backend ops (reset_core (reset_sampler now s1)) = (err2, s2)" by fastforce
    obtain b2 where s2: "s2 = (reset_core (reset_sampler now s1))\<lparr>backend_ctx := b2\<rparr>" using reset_backend_state [OF b] by blast
    obtain b3 where b3: "reapply_controls ops s2 = s2\<lparr>backend_ctx := b3\<rparr>" using reapply_state by blast
    have st: "state s1 = state s" "prompt s1 = prompt s" using s1 by auto
    have "s' = s2 \<and> err \<noteq> ASTRAL_OK \<or> s' = set_state Idle (s2\<lparr>backend_ctx := b3\<rparr>)" using e Inr b b3 by (auto split: if_splits)
    then show ?thesis using g(1) st by (auto simp: s2)
  qed
qed

lemma set_sampler_state:
  assumes "session_set_sampler junk nl (Some s) d = (err, Some s')"
  shows "state s' = state s \<and> prompt s' = prompt s \<and> final_error s' = final_error s"
proof (cases d)
  case None
  then show ?thesis using assms by (simp add: session_set_sampler_def)
next
  case (Some x)
  obtain sz cfg where x: "x = (sz, cfg)" by (cases x)
  show ?thesis using assms by (auto simp: session_set_sampler_def Some x Let_def split: if_splits prod.splits)
qed

lemma set_tokens_state:
  assumes "session_penalty_prompt_set_tokens junk nl (Some s) ts n = (err, Some s')"
  shows "state s' = state s \<and> prompt s' = prompt s \<and> final_error s' = final_error s"
  using assms by (auto simp: session_penalty_prompt_set_tokens_def split: if_splits prod.splits)

text \<open>A step that leaves the threads alone and keeps the state and the result keeps the invariant.\<close>

lemma ctl_inv_same:
  assumes "ctl_inv c" "state s = state (sess c)" "feed_state (prompt s) = feed_state (prompt (sess c))"
    "final_error s = final_error (sess c)"
  shows "ctl_inv (c\<lparr>sess := s\<rparr>)"
proof -
  have "carries fs (c\<lparr>sess := s\<rparr>) = carries fs c" for fs by (rule carries_same) (simp_all add: assms(4))
  then show ?thesis using assms(1-3) by (simp add: ctl_inv_def)
qed

text \<open>A step of a caller that does not come from or lead to a terminal state, with no worker about.\<close>

lemma ctl_inv_live:
  assumes "feed_state (prompt (sess c)) = state (sess c)" "\<not> terminal (state (sess c))"
    "state (sess c) = Decoding \<longleftrightarrow> worker c \<noteq> W_None \<or> caller c = A_Submitting" "\<not> (worker c \<noteq> W_None \<and> caller c = A_Submitting)"
    "\<And>fs. worker c \<noteq> W_Stored fs"
  shows "ctl_inv c"
  using assms by (simp add: ctl_inv_def)

lemma stored_inv:
  assumes "ctl_inv c" "worker c \<noteq> W_None" "outcome_ok fs err"
  shows "ctl_inv ((store_result fs err now c)\<lparr>ended := (fs, err), cleared := False\<rparr>)"
proof -
  have "state (sess c) = Decoding" "caller c \<noteq> A_Submitting" "feed_state (prompt (sess c)) = Decoding"
    using assms(1,2) unfolding ctl_inv_def by auto
  then show ?thesis using assms(3) by (simp add: ctl_inv_def store_result_def carries_def terminal_def)
qed

lemma ctl_step_inv: "ctl_step c c' \<Longrightarrow> ctl_inv c \<Longrightarrow> ctl_inv c'"
proof (induction rule: ctl_step.induct)
  case (feed c tokenize alloc images audio op err p)
  have fp: "feed_state p = state (sess c) \<or> state (sess c) = Idle \<and> feed_state p = FeedingPrompt"
    using run_op_state [OF feed(2)] feed(3) by (simp add: ctl_inv_def)
  show ?case
  proof (cases "feed_state p = state (sess c)")
    case True
    then show ?thesis using feed(3) by (intro ctl_inv_same) (simp_all add: ctl_inv_def)
  next
    case False
    then have st: "state (sess c) = Idle" "feed_state p = FeedingPrompt" using fp by simp_all
    then have "worker c = W_None" "caller c = A_Free" using feed(3) feed(1) unfolding ctl_inv_def by auto
    then show ?thesis by (intro ctl_inv_live) (simp_all add: st terminal_def)
  qed
next
  case (decode c now)
  show ?case
  proof (cases "state (sess c) = FeedingPrompt")
    case True
    then have "worker c = W_None" using decode unfolding ctl_inv_def by auto
    then show ?thesis using True
      by (intro ctl_inv_live) (simp_all add: decode_store_def terminal_def set_state_def state_def)
  next
    case False
    then show ?thesis using decode by (simp add: decode_store_def)
  qed
next
  case (submit c err)
  then have "worker c = W_None" "feed_state (prompt (sess c)) = Decoding" "state (sess c) = Decoding"
    unfolding ctl_inv_def by auto
  then show ?case by (intro ctl_inv_live) (auto simp: decode_submit_def terminal_def)
next
  case (start c)
  then have "feed_state (prompt (sess c)) = Decoding" "state (sess c) = Decoding" "caller c \<noteq> A_Submitting"
    unfolding ctl_inv_def by auto
  then show ?case by (intro ctl_inv_live) (auto simp: terminal_def)
next
  case (wrong c now)
  then show ?case by (intro stored_inv) simp_all
next
  case (finish c env b st fs err st' now)
  show ?case by (rule stored_inv [OF finish(3) _ decode_loop_outcome [OF finish(2)]]) (simp add: finish(1))
next
  case (publish c fs)
  have "carries fs c" "caller c \<noteq> A_Submitting" using publish unfolding ctl_inv_def by auto
  moreover from this(1) have "carries fs (store_state fs c)"
    by (subst carries_same [of _ c]) (simp_all add: store_state_def)
  moreover have "fs \<noteq> Decoding" using calculation(1) by (auto simp: carries_def outcome_ok_def)
  ultimately show ?case by (simp add: ctl_inv_def store_state_def)
next
  case (cancel c err s)
  then show ?case by (intro ctl_inv_same) (auto simp: session_cancel_def)
next
  case (reset c ops now d err s)
  let ?c = "c\<lparr>sess := s, cleared := cleared c \<or> err \<noteq> ASTRAL_OK \<and> s \<noteq> sess c\<rparr>"
  show ?case
  proof (cases "s = sess c")
    case True
    then have "?c = c" by simp
    then show ?thesis using reset(3) by simp
  next
    case False
    then have r: "state (sess c) \<noteq> Decoding"
      "state s = Idle \<and> feed_state (prompt s) = Idle \<or>
       err \<noteq> ASTRAL_OK \<and> state s = state (sess c) \<and> feed_state (prompt s) = feed_state (prompt (sess c))"
      using reset_state [OF reset(2)] by simp_all
    have w: "worker c = W_None" "feed_state (prompt (sess c)) = state (sess c)"
      "terminal (state (sess c)) \<Longrightarrow> carries (state (sess c)) c"
      using reset(3) r(1) unfolding ctl_inv_def by auto
    show ?thesis using r(2)
    proof
      assume "state s = Idle \<and> feed_state (prompt s) = Idle"
      then show ?thesis using w reset(1) by (intro ctl_inv_live) (simp_all add: terminal_def)
    next
      assume e: "err \<noteq> ASTRAL_OK \<and> state s = state (sess c) \<and> feed_state (prompt s) = feed_state (prompt (sess c))"
      have "terminal (state (sess c)) \<Longrightarrow> carries (state (sess c)) ?c"
        by (rule carries_cleared [OF _ _ w(3)]) (use e False in simp_all)
      then show ?thesis using e w(1,2) r(1) reset(1) by (simp add: ctl_inv_def)
    qed
  qed
next
  case (sampler c junk nl d err s)
  then show ?case using set_sampler_state by (intro ctl_inv_same) fastforce+
next
  case (counts c junk nl ts n err s)
  then show ?case using set_tokens_state by (intro ctl_inv_same) fastforce+
qed

lemma ctl_reachable_inv: "ctl_reachable c \<Longrightarrow> ctl_inv c"
proof (induction rule: ctl_reachable.induct)
  case (start s)
  then show ?case by (simp add: ctl_inv_def session_ready_def session_wf_def terminal_def)
next
  case (step c c')
  then show ?case using ctl_step_inv by blast
qed

text \<open>The transitions the comment of \<open>SessionState\<close> lists (\<open>session.hpp\<close>), and those it does not: a decode
  that is canceled or fails, a submission that is refused and gives the prompt back, and a reset of a
  session that was not completed. Each of them belongs to one thread at one point.\<close>

definition documented :: "SessionState \<Rightarrow> SessionState \<Rightarrow> bool" where
  "documented a b \<longleftrightarrow> (a, b) \<in> {(Idle, FeedingPrompt), (FeedingPrompt, FeedingPrompt), (FeedingPrompt, Decoding),
     (Decoding, Completed), (Completed, Idle)}"

definition undocumented :: "('b, 'm) ctl \<Rightarrow> SessionState \<Rightarrow> bool" where
  "undocumented c b \<longleftrightarrow>
     (case state (sess c) of
        Decoding \<Rightarrow> (b = Canceled \<or> b = Failed) \<and> worker c = W_Stored b \<or> b = FeedingPrompt \<and> caller c = A_Submitting
      | FeedingPrompt \<Rightarrow> b = Idle \<and> caller c = A_Free
      | Canceled \<Rightarrow> b = Idle \<and> caller c = A_Free
      | Failed \<Rightarrow> b = Idle \<and> caller c = A_Free
      | _ \<Rightarrow> False)"

definition moves_to :: "('b, 'm) ctl \<Rightarrow> SessionState \<Rightarrow> bool" where
  "moves_to c b \<longleftrightarrow> state (sess c) = b \<or> documented (state (sess c)) b \<or> undocumented c b"

lemma moves_intros:
  "moves_to c (state (sess c))"
  "state (sess c) = Idle \<Longrightarrow> moves_to c FeedingPrompt"
  "state (sess c) = FeedingPrompt \<Longrightarrow> moves_to c Decoding"
  "state (sess c) = Decoding \<Longrightarrow> caller c = A_Submitting \<Longrightarrow> moves_to c FeedingPrompt"
  "state (sess c) = Decoding \<Longrightarrow> worker c = W_Stored b \<Longrightarrow> terminal b \<Longrightarrow> moves_to c b"
  "state (sess c) \<noteq> Decoding \<Longrightarrow> caller c = A_Free \<Longrightarrow> moves_to c Idle"
  by (auto simp: moves_to_def documented_def undocumented_def terminal_def split: SessionState.splits)

lemma ctl_step_moves:
  assumes "ctl_step c c'" "ctl_inv c"
  shows "moves_to c (state (sess c'))"
  using assms
proof (induction rule: ctl_step.induct)
  case (feed c tokenize alloc images audio op err p)
  have "feed_state p = state (sess c) \<or> state (sess c) = Idle \<and> feed_state p = FeedingPrompt"
    using run_op_state [OF feed(2)] feed(3) by (simp add: ctl_inv_def)
  then show ?case by (elim disjE) (simp_all add: moves_intros)
next
  case (decode c now)
  show ?case by (cases "state (sess c) = FeedingPrompt") (simp_all add: decode_store_def moves_intros)
next
  case (submit c err)
  then have "state (sess c) = Decoding" by (simp add: ctl_inv_def)
  then show ?case using submit(1) moves_intros(1) [of c] by (cases "err = ASTRAL_OK") (simp_all add: decode_submit_def moves_intros(4))
next
  case (start c)
  show ?case using moves_intros(1) [of c] by simp
next
  case (wrong c now)
  show ?case using moves_intros(1) [of c] by (simp add: store_result_def)
next
  case (finish c env b st fs err st' now)
  show ?case using moves_intros(1) [of c] by (simp add: store_result_def)
next
  case (publish c fs)
  then have "state (sess c) = Decoding" "terminal fs" by (auto simp: ctl_inv_def carries_def outcome_ok_def terminal_def)
  then show ?case using publish(1) by (simp add: store_state_def moves_intros(5))
next
  case (cancel c err s)
  then have "state s = state (sess c)" by (auto simp: session_cancel_def)
  then show ?case using moves_intros(1) [of c] by simp
next
  case (reset c ops now d err s)
  then show ?case using reset_state [OF reset(2)] moves_intros(1) [of c] moves_intros(6) [of c]
    by (elim disjE conjE) simp_all
next
  case (sampler c junk nl d err s)
  then show ?case using set_sampler_state [OF sampler(2)] moves_intros(1) [of c] by simp
next
  case (counts c junk nl ts n err s)
  then show ?case using set_tokens_state [OF counts(2)] moves_intros(1) [of c] by simp
qed

text \<open>C34: However the caller, the worker and canceling threads interleave from a session's creation on, its
  state is \<open>Decoding\<close> exactly while one decode is being submitted, queued or running, and there is never
  a second one. Every step moves the state along a documented edge or along one of those the
  documentation leaves out, and these only by the thread they belong to: the worker cancels or fails
  its decode, the caller takes back a refused submission or resets. A terminal state is the one in
  which the last decode ended, the error of that decode fits it, and the session carries that error
  until a reset fails half way.\<close>
theorem session_state_machine:
  assumes "ctl_reachable c"
  shows "(state (sess c) = Decoding \<longleftrightarrow> worker c \<noteq> W_None \<or> caller c = A_Submitting) \<and>
    \<not> (worker c \<noteq> W_None \<and> caller c = A_Submitting) \<and>
    (ctl_step c c' \<longrightarrow> moves_to c (state (sess c'))) \<and>
    (terminal (state (sess c)) \<longrightarrow> state (sess c) = fst (ended c) \<and> outcome_ok (fst (ended c)) (snd (ended c)) \<and>
      (\<not> cleared c \<longrightarrow> final_error (sess c) = snd (ended c)))"
proof -
  note inv = ctl_reachable_inv [OF assms]
  have "terminal (state (sess c)) \<longrightarrow> carries (state (sess c)) c" using inv unfolding ctl_inv_def by blast
  then have "terminal (state (sess c)) \<longrightarrow> state (sess c) = fst (ended c) \<and> outcome_ok (fst (ended c)) (snd (ended c)) \<and>
      (\<not> cleared c \<longrightarrow> final_error (sess c) = snd (ended c))" by (auto simp: carries_def)
  then show ?thesis using inv ctl_step_moves [of c c'] unfolding ctl_inv_def by blast
qed

section \<open>Waiting\<close>

lemma wait_rounds_returns:
  assumes "j \<le> 16" "n \<le> 65536 * m" "deadline \<le> now (65536 * m + 1)"
  shows "\<exists>err. wait_rounds seen now deadline (mask j) (n + 1) (of_nat n) = Some err \<and>
    (err = ASTRAL_E_TIMEOUT \<or> (\<exists>k. wait_answer (seen k) = Some err))"
  using assms(2)
proof (induction "65536 * m - n" arbitrary: n)
  case 0
  then have n: "n = 65536 * m" by simp
  show ?case
  proof (cases "wait_answer (seen (n + 1))")
    case None
    then show ?thesis using and_mask_block [OF assms(1), of m] assms(3) n by (subst wait_rounds.simps) simp
  next
    case (Some err)
    then show ?thesis by (subst wait_rounds.simps) auto
  qed
next
  case (Suc x)
  have ih: "\<exists>err. wait_rounds seen now deadline (mask j) (Suc n + 1) (of_nat (Suc n)) = Some err \<and>
      (err = ASTRAL_E_TIMEOUT \<or> (\<exists>k. wait_answer (seen k) = Some err))"
    by (rule Suc.hyps(1)) (use Suc.hyps(2) in simp_all)
  have of_s: "(of_nat n + 1 :: u32) = of_nat (Suc n)" "n + 1 + 1 = Suc n + 1" by simp_all
  show ?case
  proof (cases "wait_answer (seen (n + 1))")
    case None
    then show ?thesis using ih unfolding wait_rounds.simps [of seen now deadline "mask j" "n + 1"] of_s by simp
  next
    case (Some err)
    then show ?thesis by (subst wait_rounds.simps) auto
  qed
qed

lemma wait_answer_ok: "wait_answer s = Some err \<Longrightarrow> terminal (state s) \<and> (err = ASTRAL_OK \<longleftrightarrow> state s = Completed)"
  by (auto simp: wait_answer_def terminal_def split: SessionState.splits if_splits)

text \<open>Waiting for a session returns, at the latest when the clock has passed the deadline; it reports a
  time-out or the result of a session seen in a terminal state, and success only for one that has
  completed.\<close>
theorem session_wait_returns:
  assumes "\<forall>k \<ge> K. now 0 + f (ucast timeout_ms * 1000000) \<le> now k"
  shows "\<exists>err. session_wait f seen now (Some s) timeout_ms = Some err \<and>
    (err = ASTRAL_E_TIMEOUT \<or>
     (\<exists>t \<in> insert s (range seen). terminal (state t) \<and> wait_answer t = Some err \<and> (err = ASTRAL_OK \<longleftrightarrow> state t = Completed)))"
proof (cases "wait_answer s")
  case (Some err)
  then show ?thesis using wait_answer_ok [OF Some] by (auto simp: session_wait_def)
next
  case None
  show ?thesis
  proof (cases "timeout_ms = 0")
    case True
    then show ?thesis by (simp add: session_wait_def None)
  next
    case False
    obtain j where j: "j \<le> 16" "check_mask timeout_ms = mask j" using check_mask_mask by blast
    have "now 0 + f (ucast timeout_ms * 1000000) \<le> now (65536 * K + 1)" using assms by simp
    from wait_rounds_returns [OF j(1), of 0 K "now 0 + f (ucast timeout_ms * 1000000)" now seen, OF _ this]
    obtain err where e: "wait_rounds seen now (now 0 + f (ucast timeout_ms * 1000000)) (mask j) 1 0 = Some err"
      "err = ASTRAL_E_TIMEOUT \<or> (\<exists>k. wait_answer (seen k) = Some err)" by auto
    have "session_wait f seen now (Some s) timeout_ms = Some err"
      using False e(1) j(2) by (simp add: session_wait_def None)
    then show ?thesis using e(2) wait_answer_ok by blast
  qed
qed

section \<open>Witnesses\<close>

definition demo_ctl :: "(nat, unit) ctl" where
  "demo_ctl = \<lparr>sess = demo_session, worker = W_None, caller = A_Free, ended = (Completed, ASTRAL_OK), cleared = False\<rparr>"

theorem session_state_machine_witness:
  "state (sess demo_ctl) = Idle \<and>
   (state (sess demo_ctl) = Decoding \<longleftrightarrow> worker demo_ctl \<noteq> W_None \<or> caller demo_ctl = A_Submitting)"
proof -
  have "ctl_reachable demo_ctl" unfolding demo_ctl_def by (rule ctl_reachable.start [OF demo_ready])
  then show ?thesis using session_state_machine [of demo_ctl demo_ctl] demo_ready
    by (simp add: session_ready_def) (simp add: demo_ctl_def session_ready_def)
qed

theorem session_wait_returns_witness:
  "\<exists>err. session_wait (\<lambda>_. 0) (\<lambda>_. demo_session) (\<lambda>_. 5) (Some demo_session) 1 = Some err \<and>
    (err = ASTRAL_E_TIMEOUT \<or>
     (\<exists>t \<in> insert demo_session (range (\<lambda>_ :: nat. demo_session)). terminal (state t) \<and> wait_answer t = Some err \<and>
       (err = ASTRAL_OK \<longleftrightarrow> state t = Completed)))"
  by (rule session_wait_returns [of 0]) simp

end
