(* ===== verification/Bytes.thy ===== *)
theory Bytes
  imports Prelude
begin

text \<open>
  Integers in memory: the little-endian bytes of a word, as a \<open>memcpy\<close> of a struct into a buffer
  writes them on the targets of the runtime, and the reading of a field at an offset.
\<close>

unbundle bit_operations_syntax

named_theorems le_simps "reading a field after writing the fields around it"

definition bytes_le :: "nat \<Rightarrow> 'a::len word \<Rightarrow> u8 list" where
  "bytes_le k w = map (\<lambda>i. ucast (drop_bit (8 * i) w)) [0..<k]"

primrec word_le :: "u8 list \<Rightarrow> 'a::len word" where
  "word_le [] = 0"
| "word_le (b # bs) = ucast b OR push_bit 8 (word_le bs)"

definition read_le :: "nat \<Rightarrow> nat \<Rightarrow> u8 list \<Rightarrow> 'a::len word" where
  "read_le off k bs = word_le (take k (drop off bs))"

lemma length_bytes_le [simp]: "length (bytes_le k w) = k"
  by (simp add: bytes_le_def)

lemma bit_word_le:
  "bit (word_le bs :: 'a::len word) n \<longleftrightarrow> n < LENGTH('a) \<and> n div 8 < length bs \<and> bit (bs ! (n div 8)) (n mod 8)"
proof (induction bs arbitrary: n)
  case (Cons b bs)
  have out: "\<not> bit b n" if "8 \<le> n" using that bit_imp_le_length [of b n] by auto
  show ?case
  proof (cases "n < 8")
    case True
    then show ?thesis by (auto simp: bit_or_iff bit_unsigned_iff bit_push_bit_iff)
  next
    case False
    then have "n div 8 = Suc ((n - 8) div 8)" "n mod 8 = (n - 8) mod 8" using div_if [of 8 n] mod_if [of n 8] by simp_all
    then show ?thesis using False out Cons.IH [of "n - 8"] by (auto simp: bit_or_iff bit_unsigned_iff bit_push_bit_iff)
  qed
qed simp

lemma word_le_bytes_le:
  assumes "LENGTH('a::len) \<le> 8 * k"
  shows "word_le (bytes_le k w) = (w :: 'a word)"
proof (rule bit_word_eqI)
  fix n assume n: "n < LENGTH('a)"
  then have d: "n div 8 < k" using assms by linarith
  have "bit (bytes_le k w ! (n div 8)) (n mod 8) = bit w (8 * (n div 8) + n mod 8)"
    using d n by (simp add: bytes_le_def bit_unsigned_iff bit_drop_bit_eq)
  also have "8 * (n div 8) + n mod 8 = n" by simp
  finally show "bit (word_le (bytes_le k w) :: 'a word) n = bit w n" using n d by (simp add: bit_word_le)
qed

lemma read_le_skip [le_simps]: "length xs \<le> off \<Longrightarrow> read_le off k (xs @ ys) = read_le (off - length xs) k ys"
  by (simp add: read_le_def)

lemma read_le_here [le_simps]:
  assumes "LENGTH('a::len) \<le> 8 * k"
  shows "read_le 0 k (bytes_le k w @ ys) = (w :: 'a word)"
  by (simp add: read_le_def word_le_bytes_le [OF assms])

lemma read_le_end [le_simps]:
  assumes "LENGTH('a::len) \<le> 8 * k"
  shows "read_le 0 k (bytes_le k w) = (w :: 'a word)"
  by (simp add: read_le_def word_le_bytes_le [OF assms])

lemma read_le_prefix: "off + k \<le> length xs \<Longrightarrow> read_le off k (xs @ ys) = read_le off k xs"
  by (simp add: read_le_def)

end
