(* ===== verification/Session_Save.thy ===== *)
theory Session_Save
  imports Session_Lifecycle Bytes
begin

unbundle bit_operations_syntax

text \<open>
  Saving and loading a session in \<open>src/src/inference/session.cpp\<close>: \<open>session_state_size\<close>,
  \<open>session_state_save\<close>, \<open>session_state_load\<close> and \<open>session_state_parse_header\<close>. The saved state is a
  header of 104 bytes with the settings that belong to the session, then the backend's own bytes.
  The provider's operations are parameters; one it does not have is \<open>None\<close>, a null context is \<open>None\<close>.
\<close>

definition kStateMagic :: u32 where "kStateMagic = 0x41535452"
definition kStateVersion :: u16 where "kStateVersion = 1"
definition sizeof_header :: nat where "sizeof_header = 104"
definition sizeof_sampler_desc :: u32 where "sizeof_sampler_desc = 56"
definition ASTRAL_LOGPROBS_MAX :: u32 where "ASTRAL_LOGPROBS_MAX = 16"

record state_header =
  h_magic :: u32
  h_version :: u16
  h_header_bytes :: u16
  h_backend_bytes :: u64
  h_rng_state :: u32
  h_logprobs :: u32
  h_slot :: u32
  h_sampler_size :: u32
  h_sampler :: sampler_config
  h_mirostat_mu :: u32

text \<open>The bytes of the two structs with their padding. The seed is not part of the descriptor.\<close>

definition sampler_bytes :: "u32 \<Rightarrow> sampler_config \<Rightarrow> u8 list" where
  "sampler_bytes sz c =
     bytes_le 4 sz @ bytes_le 4 (temperature c) @ bytes_le 4 (top_k c) @ bytes_le 4 (top_p c) @ bytes_le 4 (min_p c) @
     bytes_le 4 (typical_p c) @ bytes_le 4 (repeat_penalty c) @ bytes_le 4 (repeat_last_n c) @
     bytes_le 1 (penalize_nl c) @ replicate 3 0 @ bytes_le 4 (presence_penalty c) @ bytes_le 4 (frequency_penalty c) @
     bytes_le 4 (mirostat c) @ bytes_le 4 (mirostat_tau c) @ bytes_le 4 (mirostat_eta c)"

definition header_bytes :: "state_header \<Rightarrow> u8 list" where
  "header_bytes h =
     bytes_le 4 (h_magic h) @ bytes_le 2 (h_version h) @ bytes_le 2 (h_header_bytes h) @ bytes_le 8 (h_backend_bytes h) @
     bytes_le 4 (h_rng_state h) @ bytes_le 4 (h_logprobs h) @ bytes_le 4 (h_slot h) @ replicate 4 0 @
     sampler_bytes (h_sampler_size h) (h_sampler h) @ bytes_le 4 (h_mirostat_mu h) @ replicate 12 0"

definition read_header :: "u8 list \<Rightarrow> state_header" where
  "read_header bs =
     \<lparr>h_magic = read_le 0 4 bs, h_version = read_le 4 2 bs, h_header_bytes = read_le 6 2 bs, h_backend_bytes = read_le 8 8 bs,
      h_rng_state = read_le 16 4 bs, h_logprobs = read_le 20 4 bs, h_slot = read_le 24 4 bs,
      h_sampler_size = read_le 32 4 bs,
      h_sampler = \<lparr>temperature = read_le 36 4 bs, top_k = read_le 40 4 bs, top_p = read_le 44 4 bs, min_p = read_le 48 4 bs,
        typical_p = read_le 52 4 bs, repeat_penalty = read_le 56 4 bs, repeat_last_n = read_le 60 4 bs,
        penalize_nl = read_le 64 1 bs, presence_penalty = read_le 68 4 bs, frequency_penalty = read_le 72 4 bs,
        mirostat = read_le 76 4 bs, mirostat_tau = read_le 80 4 bs, mirostat_eta = read_le 84 4 bs, seed = 0\<rparr>,
      h_mirostat_mu = read_le 88 4 bs\<rparr>"

text \<open>The header and the rest of the bytes behind it.\<close>

definition session_state_parse_header :: "u8 list \<Rightarrow> (state_header \<times> u8 list) option" where
  "session_state_parse_header bytes =
     (if length bytes < sizeof_header then None
      else
        let h = read_header bytes
        in if h_magic h \<noteq> kStateMagic \<or> h_version h \<noteq> kStateVersion then None
           else if h_header_bytes h \<noteq> of_nat sizeof_header then None
           else if h_backend_bytes h = 0 \<or> ucast (h_header_bytes h) + h_backend_bytes h > (of_nat (length bytes) :: u64) then None
           else Some (h, drop sizeof_header bytes))"

text \<open>
  Saving tells the provider the room it has and gets a status, the bytes it has stored and the
  number it reports; loading passes a pointer, here all the bytes from it on, and a length.
\<close>

record 'b state_ops =
  op_state_size :: "('b option \<Rightarrow> astral_err \<times> u64) option"
  op_state_save :: "('b option \<Rightarrow> u64 \<Rightarrow> astral_err \<times> u8 list \<times> u64) option"
  op_state_load :: "('b option \<Rightarrow> u8 list \<Rightarrow> u64 \<Rightarrow> astral_err \<times> 'b option) option"
  op_state_slot :: "('b option \<Rightarrow> u32 \<Rightarrow> 'b option) option"

definition session_state_size :: "'b state_ops \<Rightarrow> ('b, 'm) session option \<Rightarrow> astral_err + u64" where
  "session_state_size ops session =
     (case session of
        None \<Rightarrow> Inl ASTRAL_E_INVALID
      | Some s \<Rightarrow>
          if state s = Decoding then Inl ASTRAL_E_STATE
          else
            (case (op_state_size ops, op_state_save ops, op_state_load ops) of
               (Some size_op, Some _, Some _) \<Rightarrow>
                 (case size_op (backend_ctx s) of
                    (err, backend_bytes) \<Rightarrow>
                      if err \<noteq> ASTRAL_OK then Inl err else Inr (of_nat sizeof_header + backend_bytes))
             | _ \<Rightarrow> Inl ASTRAL_E_UNSUPPORTED))"

definition session_header :: "u64 \<Rightarrow> ('b, 'm) session \<Rightarrow> state_header" where
  "session_header backend_bytes s =
     \<lparr>h_magic = kStateMagic, h_version = kStateVersion, h_header_bytes = of_nat sizeof_header,
      h_backend_bytes = backend_bytes, h_rng_state = rng_state s, h_logprobs = logprobs s, h_slot = slot_id s,
      h_sampler_size = sizeof_sampler_desc, h_sampler = sampler_cfg (penalties s), h_mirostat_mu = mirostat_mu s\<rparr>"

text \<open>The status, the buffer afterwards and the number of bytes written.\<close>

definition session_state_save ::
  "'b state_ops \<Rightarrow> u8 list option \<Rightarrow> ('b, 'm) session option \<Rightarrow> astral_err \<times> u8 list option \<times> u64 option" where
  "session_state_save ops out session =
     (case (session, out) of
        (Some s, Some buf) \<Rightarrow>
          if state s = Decoding then (ASTRAL_E_STATE, out, None)
          else
            (case (op_state_size ops, op_state_save ops, op_state_load ops) of
               (Some size_op, Some save_op, Some _) \<Rightarrow>
                 (case size_op (backend_ctx s) of
                    (err, backend_bytes) \<Rightarrow>
                      if err \<noteq> ASTRAL_OK then (err, out, None)
                      else if (of_nat (length buf) :: u64) < of_nat sizeof_header + backend_bytes then (ASTRAL_E_NOMEM, out, None)
                      else
                        (case save_op (backend_ctx s) (of_nat (length buf) - of_nat sizeof_header) of
                           (err2, bs, backend_written) \<Rightarrow>
                             let buf' = header_bytes (session_header backend_bytes s) @ bs @ drop (sizeof_header + length bs) buf
                             in if err2 \<noteq> ASTRAL_OK then (err2, Some buf', None)
                                else (ASTRAL_OK, Some buf', Some (of_nat sizeof_header + backend_written))))
             | _ \<Rightarrow> (ASTRAL_E_UNSUPPORTED, out, None))
      | _ \<Rightarrow> (ASTRAL_E_INVALID, out, None))"

definition load_sampler :: "state_header \<Rightarrow> ('b, 'm) session \<Rightarrow> ('b, 'm) session" where
  "load_sampler h s =
     (if h_sampler_size h = sizeof_sampler_desc then
        s\<lparr>penalties := (penalties s)\<lparr>sampler_cfg := (h_sampler h)\<lparr>seed := seed (sampler_cfg (penalties s))\<rparr>\<rparr>,
          desc := (desc s)\<lparr>d_temperature := temperature (h_sampler h), d_top_k := top_k (h_sampler h),
                           d_top_p := top_p (h_sampler h)\<rparr>\<rparr>
      else s)"

definition load_settings :: "'b state_ops \<Rightarrow> state_header \<Rightarrow> ('b, 'm) session \<Rightarrow> ('b, 'm) session" where
  "load_settings ops h s =
     (load_sampler h s)
       \<lparr>rng_state := h_rng_state h, mirostat_mu := h_mirostat_mu h,
        logprobs := (if h_logprobs h > ASTRAL_LOGPROBS_MAX then ASTRAL_LOGPROBS_MAX else h_logprobs h),
        meta := spsc_reset (meta s), slot_id := h_slot h,
        backend_ctx := (case op_state_slot ops of
                          Some f \<Rightarrow> if h_slot h \<noteq> 0 then f (backend_ctx s) (h_slot h) else backend_ctx s
                        | None \<Rightarrow> backend_ctx s)\<rparr>"

definition session_state_load ::
  "'b state_ops \<Rightarrow> u8 list \<Rightarrow> ('b, 'm) session option \<Rightarrow> astral_err \<times> ('b, 'm) session option" where
  "session_state_load ops bytes session =
     (case session of
        None \<Rightarrow> (ASTRAL_E_INVALID, None)
      | Some s \<Rightarrow>
          if bytes = [] then (ASTRAL_E_INVALID, session)
          else if state s = Decoding then (ASTRAL_E_STATE, session)
          else
            (case (op_state_size ops, op_state_save ops, op_state_load ops) of
               (Some _, Some _, Some load_op) \<Rightarrow>
                 (case session_state_parse_header bytes of
                    Some (h, rest) \<Rightarrow>
                      if h_sampler_size h = sizeof_sampler_desc \<and> top_k (h_sampler h) > 0 \<and> top_k (h_sampler h) > sample_capacity s
                      then (ASTRAL_E_INVALID, session)
                      else
                        let s1 = load_settings ops h s
                        in (case load_op (backend_ctx s1) rest (h_backend_bytes h) of
                              (err, b) \<Rightarrow> (err, Some (s1\<lparr>backend_ctx := b\<rparr>)))
                  | None \<Rightarrow>
                      (case load_op (backend_ctx s) bytes (of_nat (length bytes)) of
                         (err, b) \<Rightarrow> (err, Some (s\<lparr>backend_ctx := b\<rparr>))))
             | _ \<Rightarrow> (ASTRAL_E_UNSUPPORTED, session)))"

section \<open>The header\<close>

lemma length_header [simp]: "length (header_bytes h) = sizeof_header"
  by (simp add: header_bytes_def sampler_bytes_def sizeof_header_def)

lemma read_header_bytes:
  "read_header (header_bytes h @ ys) = h\<lparr>h_sampler := (h_sampler h)\<lparr>seed := 0\<rparr>\<rparr>"
  by (simp add: read_header_def header_bytes_def sampler_bytes_def le_simps)

section \<open>What is saved can be loaded\<close>

text \<open>The provider reports the size of what it saves and saves it when there is room.\<close>

definition provider_saves :: "'b state_ops \<Rightarrow> 'b option \<Rightarrow> u8 list \<Rightarrow> bool" where
  "provider_saves ops b bs \<longleftrightarrow> bs \<noteq> [] \<and> length bs < 2 ^ 32 \<and>
     (case (op_state_size ops, op_state_save ops) of
        (Some size_op, Some save_op) \<Rightarrow>
          size_op b = (ASTRAL_OK, of_nat (length bs)) \<and> (\<forall>cap. of_nat (length bs) \<le> cap \<longrightarrow> save_op b cap = (ASTRAL_OK, bs, of_nat (length bs)))
      | _ \<Rightarrow> False)"

definition same_settings :: "('b, 'm) session \<Rightarrow> ('b, 'm) session \<Rightarrow> bool" where
  "same_settings s t \<longleftrightarrow>
     (sampler_cfg (penalties t))\<lparr>seed := 0\<rparr> = (sampler_cfg (penalties s))\<lparr>seed := 0\<rparr> \<and> rng_state t = rng_state s \<and>
     mirostat_mu t = mirostat_mu s \<and> slot_id t = slot_id s \<and>
     logprobs t = (if logprobs s > ASTRAL_LOGPROBS_MAX then ASTRAL_LOGPROBS_MAX else logprobs s)"

lemma unat_of_length:
  assumes "n < 2 ^ 32"
  shows "unat (of_nat n :: u64) = n"
proof -
  have "unat (of_nat n :: u64) = n mod 2 ^ LENGTH(64)" by (rule unat_of_nat)
  then show ?thesis using assms by simp
qed

lemma unat_plus_small:
  assumes "m < 2 ^ 32" "n < 2 ^ 32"
  shows "unat (of_nat m + of_nat n :: u64) = m + n"
proof -
  have "unat (of_nat (m + n) :: u64) = (m + n) mod 2 ^ LENGTH(64)" by (rule unat_of_nat)
  then show ?thesis using assms by simp
qed

lemma parse_saved:
  assumes "bs \<noteq> []" "length bs < 2 ^ 32"
  shows "session_state_parse_header (header_bytes (session_header (of_nat (length bs)) s) @ bs) =
    Some ((session_header (of_nat (length bs)) s)\<lparr>h_sampler := (sampler_cfg (penalties s))\<lparr>seed := 0\<rparr>\<rparr>, bs)"
proof -
  have l: "(of_nat (length (header_bytes (session_header (of_nat (length bs)) s) @ bs)) :: u64) =
      of_nat sizeof_header + of_nat (length bs)" by simp
  have nz: "(of_nat (length bs) :: u64) \<noteq> 0"
    using unat_of_length [OF assms(2)] assms(1) by (metis length_0_conv unat_0)
  have hb: "(ucast (of_nat sizeof_header :: u16) :: u64) = of_nat sizeof_header" by (simp add: sizeof_header_def)
  show ?thesis
    unfolding session_state_parse_header_def read_header_bytes Let_def l using nz
    by (simp add: session_header_def hb)
qed

lemma saved_bytes:
  assumes "session_state_save ops (Some buf) (Some s) = (ASTRAL_OK, Some buf', Some w)"
    "provider_saves ops (backend_ctx s) bs" "length buf < 2 ^ 32"
  shows "take (unat w) buf' = header_bytes (session_header (of_nat (length bs)) s) @ bs"
proof -
  obtain f g where f: "op_state_size ops = Some f" "f (backend_ctx s) = (ASTRAL_OK, of_nat (length bs))"
    and g: "op_state_save ops = Some g" "\<forall>cap. of_nat (length bs) \<le> cap \<longrightarrow> g (backend_ctx s) cap = (ASTRAL_OK, bs, of_nat (length bs))"
    and bs: "length bs < 2 ^ 32"
    using assms(2) by (auto simp: provider_saves_def split: option.splits)
  obtain l where l: "op_state_load ops = Some l"
    using assms(1) by (cases "op_state_load ops") (auto simp: session_state_save_def f g split: if_splits)
  have d: "state s \<noteq> Decoding" using assms(1) by (auto simp: session_state_save_def)
  note e = assms(1) [unfolded session_state_save_def prod.case option.case f(1) g(1) l if_not_P [OF d] f(2)]
  have room: "\<not> (of_nat (length buf) :: u64) < of_nat sizeof_header + of_nat (length bs)" using e by auto
  have sz: "sizeof_header < 2 ^ 32" by (simp add: sizeof_header_def)
  have le: "sizeof_header + length bs \<le> length buf"
    using room unfolding word_less_nat_alt unat_plus_small [OF sz bs] unat_of_length [OF assms(3)] by simp
  have cap: "unat (of_nat (length buf) - of_nat sizeof_header :: u64) = length buf - sizeof_header"
  proof -
    have "(of_nat (length buf) - of_nat sizeof_header :: u64) = of_nat (length buf - sizeof_header)"
      using le by (simp add: of_nat_diff)
    then show ?thesis using unat_of_length [of "length buf - sizeof_header"] assms(3) by simp
  qed
  have "(of_nat (length bs) :: u64) \<le> of_nat (length buf) - of_nat sizeof_header"
    unfolding word_le_nat_alt cap unat_of_length [OF bs] using le by simp
  then have gc: "g (backend_ctx s) (of_nat (length buf) - of_nat sizeof_header) = (ASTRAL_OK, bs, of_nat (length bs))"
    using g(2) by blast
  have "buf' = header_bytes (session_header (of_nat (length bs)) s) @ bs @ drop (sizeof_header + length bs) buf"
    "w = of_nat sizeof_header + of_nat (length bs)"
    using e room by (simp_all add: gc Let_def)
  then show ?thesis using unat_plus_small [OF sz bs] by simp
qed

text \<open>C40: What a session saves can be loaded into any session that is not decoding and has room for its
  candidates: the provider gets exactly the bytes it saved, after it has been told the slot, and the
  sampler, the state of the random numbers, the slot and the log-probability setting are those of
  the saved session. Only the seed is not part of a saved state.\<close>
theorem saved_state_loads:
  assumes "session_state_save ops (Some buf) (Some s) = (ASTRAL_OK, Some buf', Some w)"
    "provider_saves ops (backend_ctx s) bs" "length buf < 2 ^ 32"
    "state t \<noteq> Decoding" "top_k (sampler_cfg (penalties s)) \<le> sample_capacity t" "op_state_load ops = Some load_op"
  shows "\<exists>b1 t'. session_state_load ops (take (unat w) buf') (Some t) = (fst (load_op b1 bs (of_nat (length bs))), Some t') \<and>
    b1 = (case op_state_slot ops of None \<Rightarrow> backend_ctx t | Some f \<Rightarrow> if slot_id s \<noteq> 0 then f (backend_ctx t) (slot_id s) else backend_ctx t) \<and>
    backend_ctx t' = snd (load_op b1 bs (of_nat (length bs))) \<and> same_settings s t' \<and>
    stream t' = stream t \<and> prompt t' = prompt t"
proof -
  obtain f g where f: "op_state_size ops = Some f" and g: "op_state_save ops = Some g" and bs: "bs \<noteq> []" "length bs < 2 ^ 32"
    using assms(2) by (auto simp: provider_saves_def split: option.splits)
  let ?h = "(session_header (of_nat (length bs)) s)\<lparr>h_sampler := (sampler_cfg (penalties s))\<lparr>seed := 0\<rparr>\<rparr>"
  let ?s1 = "load_settings ops ?h t"
  obtain err b where r: "load_op (backend_ctx ?s1) bs (of_nat (length bs)) = (err, b)" by fastforce
  have ne: "header_bytes (session_header (of_nat (length bs)) s) @ bs \<noteq> []" using bs by simp
  have cap: "\<not> (h_sampler_size ?h = sizeof_sampler_desc \<and> top_k (h_sampler ?h) > 0 \<and> top_k (h_sampler ?h) > sample_capacity t)"
    using assms(5) by (simp add: not_less)
  have hb: "h_backend_bytes ?h = of_nat (length bs)" by (simp add: session_header_def)
  have e: "session_state_load ops (take (unat w) buf') (Some t) = (err, Some (?s1\<lparr>backend_ctx := b\<rparr>))"
    unfolding saved_bytes [OF assms(1-3)] session_state_load_def option.case if_not_P [OF ne] if_not_P [OF assms(4)] f g assms(6)
      prod.case parse_saved [OF bs] if_not_P [OF cap] Let_def hb r ..
  have "same_settings s (?s1\<lparr>backend_ctx := b\<rparr>)"
    by (simp add: same_settings_def load_settings_def load_sampler_def session_header_def sizeof_sampler_desc_def)
  moreover have "backend_ctx ?s1 = (case op_state_slot ops of None \<Rightarrow> backend_ctx t
      | Some f \<Rightarrow> if slot_id s \<noteq> 0 then f (backend_ctx t) (slot_id s) else backend_ctx t)"
    by (simp add: load_settings_def load_sampler_def session_header_def split: option.splits)
  moreover have "stream (?s1\<lparr>backend_ctx := b\<rparr>) = stream t \<and> prompt (?s1\<lparr>backend_ctx := b\<rparr>) = prompt t"
    by (simp add: load_settings_def load_sampler_def)
  ultimately show ?thesis unfolding e using r by (intro exI [of _ "backend_ctx ?s1"] exI [of _ "?s1\<lparr>backend_ctx := b\<rparr>"]) simp
qed

text \<open>The test of the length in the header wraps: a header whose length of the backend's part is near
  \<open>2\<^sup>6\<^sup>4\<close> is accepted although nothing follows it, and the provider is told to read that many bytes.\<close>
theorem state_header_length_wraps:
  "\<exists>bytes h. session_state_parse_header bytes = Some (h, []) \<and> unat (h_backend_bytes h) = 2 ^ 64 - 104"
proof -
  let ?h = "\<lparr>h_magic = kStateMagic, h_version = kStateVersion, h_header_bytes = of_nat sizeof_header,
      h_backend_bytes = - 104, h_rng_state = 0, h_logprobs = 0, h_slot = 0, h_sampler_size = 0,
      h_sampler = \<lparr>temperature = 0, top_k = 0, top_p = 0, min_p = 0, typical_p = 0, repeat_penalty = 0, repeat_last_n = 0,
        penalize_nl = 0, presence_penalty = 0, frequency_penalty = 0, mirostat = 0, mirostat_tau = 0, mirostat_eta = 0, seed = 0\<rparr>,
      h_mirostat_mu = 0\<rparr>"
  have "session_state_parse_header (header_bytes ?h) = Some (?h, [])"
    using read_header_bytes [of ?h "[]"]
    by (simp add: session_state_parse_header_def sizeof_header_def Let_def)
  moreover have "unat (- 104 :: u64) = 2 ^ 64 - 104" by simp
  ultimately show ?thesis by (intro exI [of _ "header_bytes ?h"] exI [of _ ?h]) simp
qed

text \<open>Without a wrap the backend's part lies within the bytes.\<close>

lemma parsed_length:
  assumes "session_state_parse_header bytes = Some (h, rest)" "length bytes < 2 ^ 32" "h_backend_bytes h < 2 ^ 63"
  shows "rest = drop sizeof_header bytes \<and> unat (h_backend_bytes h) \<le> length rest \<and> h_backend_bytes h \<noteq> 0"
proof -
  have l: "sizeof_header \<le> length bytes" and r: "rest = drop sizeof_header bytes" and hb: "h_header_bytes h = of_nat sizeof_header"
    and nz: "h_backend_bytes h \<noteq> 0" and t: "\<not> ucast (h_header_bytes h) + h_backend_bytes h > (of_nat (length bytes) :: u64)"
    using assms(1) by (auto simp: session_state_parse_header_def Let_def split: if_splits)
  have c: "(ucast (of_nat sizeof_header :: u16) :: u64) = 104" by (simp add: sizeof_header_def)
  have "unat (104 + h_backend_bytes h) = 104 + unat (h_backend_bytes h)"
    using assms(3) unat_add_lem [of "104 :: u64" "h_backend_bytes h"] by (simp add: word_less_nat_alt)
  then have "104 + unat (h_backend_bytes h) \<le> length bytes"
    using t unat_of_length [OF assms(2)] unfolding hb c by (simp add: word_less_nat_alt not_less)
  then show ?thesis using r nz by (simp add: sizeof_header_def)
qed

section \<open>Witness\<close>

definition demo_state_ops :: "nat state_ops" where
  "demo_state_ops = \<lparr>op_state_size = Some (\<lambda>_. (ASTRAL_OK, 2)), op_state_save = Some (\<lambda>_ cap. (ASTRAL_OK, [7, 9], 2)),
     op_state_load = Some (\<lambda>b bs n. (ASTRAL_OK, Some (unat n))), op_state_slot = None\<rparr>"

definition demo_target :: "(nat, unit) session" where
  "demo_target = demo_session\<lparr>sample_capacity := top_k (sampler_cfg (penalties demo_session))\<rparr>"

theorem saved_state_loads_witness:
  "\<exists>buf' w t'. session_state_save demo_state_ops (Some (replicate 200 0)) (Some demo_session) = (ASTRAL_OK, Some buf', Some w) \<and>
     session_state_load demo_state_ops (take (unat w) buf') (Some demo_target) = (ASTRAL_OK, Some t') \<and>
     same_settings demo_session t' \<and> backend_ctx t' = Some 2"
proof -
  let ?load = "\<lambda>(b :: nat option) (bs :: u8 list) (n :: u64). (ASTRAL_OK, Some (unat n))"
  have st: "state demo_session \<noteq> Decoding" "state demo_target \<noteq> Decoding"
    using demo_ready by (simp_all add: session_ready_def demo_target_def state_def)
  obtain buf' where sv: "session_state_save demo_state_ops (Some (replicate 200 0)) (Some demo_session) = (ASTRAL_OK, Some buf', Some 106)"
    using st by (simp add: session_state_save_def demo_state_ops_def sizeof_header_def Let_def)
  have p: "provider_saves demo_state_ops (backend_ctx demo_session) [7, 9]"
    by (simp add: provider_saves_def demo_state_ops_def)
  have k: "top_k (sampler_cfg (penalties demo_session)) \<le> sample_capacity demo_target" by (simp add: demo_target_def)
  have l: "op_state_load demo_state_ops = Some ?load" by (simp add: demo_state_ops_def)
  obtain b1 t' where "session_state_load demo_state_ops (take (unat (106 :: u64)) buf') (Some demo_target) =
      (fst (?load b1 [7, 9] (of_nat (length [7 :: u8, 9]))), Some t')"
      "backend_ctx t' = snd (?load b1 [7, 9] (of_nat (length [7 :: u8, 9])))" "same_settings demo_session t'"
    using saved_state_loads [OF sv p _ st(2) k l] by auto
  then show ?thesis using sv by (intro exI [of _ buf'] exI [of _ 106] exI [of _ t']) simp
qed

end
