(* ===== verification/Model_Refs.thy ===== *)
theory Model_Refs
  imports Handle_Table
begin

unbundle bit_operations_syntax

text \<open>
  Models and adapters with their reference counts: \<open>src/src/inference/model.cpp\<close> and
  \<open>src/src/inference/adapter.cpp\<close>. An object is a record at an address; the backend shows by the
  contexts it has loaded and not yet unloaded. The answers of backend, allocator and handle table
  to a load are parameters; the handle table is the one of \<open>Handle_Table\<close>. The executor that
  \<open>model_release\<close> stops first is not modelled.
\<close>

record model_obj =
  md_handle :: u64
  md_refcount :: u32
  md_ctx :: nat

record adapter_obj =
  ad_handle :: u64
  ad_model :: nat
  ad_ctx :: nat
  ad_path :: "u8 list"
  ad_refcount :: u32

record ref_store =
  table :: handle_table
  models :: "nat \<Rightarrow> model_obj option"
  adapters_at :: "nat \<Rightarrow> adapter_obj option"
  loaded_models :: "nat set"
  loaded_adapters :: "(nat \<times> nat) set"

section \<open>Models\<close>

text \<open>
  \<open>provider\<close>: a backend was found; \<open>engine\<close>: the context it loads, with its status; \<open>mem\<close>: the
  address of the new object. The path of a description is bounded by a buffer of 64 characters
  when it names a backend: \<open>name_len\<close>.
\<close>

definition model_load ::
  "u32 \<Rightarrow> bool \<Rightarrow> nat option \<times> astral_err \<Rightarrow> nat option \<Rightarrow> ref_store \<Rightarrow> astral_err \<times> nat option \<times> ref_store" where
  "model_load name_len provider engine mem st =
     (if name_len \<ge> 64 then (ASTRAL_E_INVALID, None, st)
      else if \<not> provider then (ASTRAL_E_BACKEND, None, st)
      else
        (case engine of
           (None, err) \<Rightarrow> (if err \<noteq> ASTRAL_OK then err else ASTRAL_E_BACKEND, None, st)
         | (Some ctx, _) \<Rightarrow>
             let st1 = st\<lparr>loaded_models := insert ctx (loaded_models st)\<rparr>
             in (case mem of
                   None \<Rightarrow> (ASTRAL_E_NOMEM, None, st1\<lparr>loaded_models := loaded_models st1 - {ctx}\<rparr>)
                 | Some p \<Rightarrow>
                     (case register_ptr (kind_code Model) p (table st1) of
                        (handle, t) \<Rightarrow>
                          if handle = 0 then (ASTRAL_E_BUSY, None, st1\<lparr>table := t, loaded_models := loaded_models st1 - {ctx}\<rparr>)
                          else (ASTRAL_OK, Some p,
                                st1\<lparr>table := t, models := (models st1)(p \<mapsto> \<lparr>md_handle = handle, md_refcount = 1, md_ctx = ctx\<rparr>)\<rparr>)))))"

definition model_retain :: "nat \<Rightarrow> ref_store \<Rightarrow> ref_store" where
  "model_retain p st =
     (case models st p of
        None \<Rightarrow> st
      | Some m \<Rightarrow> st\<lparr>models := (models st)(p \<mapsto> m\<lparr>md_refcount := md_refcount m + 1\<rparr>)\<rparr>)"

definition model_release :: "nat \<Rightarrow> ref_store \<Rightarrow> ref_store" where
  "model_release p st =
     (case models st p of
        None \<Rightarrow> st
      | Some m \<Rightarrow>
          if md_refcount m \<noteq> 1 then st\<lparr>models := (models st)(p \<mapsto> m\<lparr>md_refcount := md_refcount m - 1\<rparr>)\<rparr>
          else st\<lparr>loaded_models := loaded_models st - {md_ctx m},
                  table := unregister_handle (md_handle m) (kind_code Model) (table st),
                  models := (models st)(p := None)\<rparr>)"

section \<open>Adapters\<close>

definition ctx_of :: "nat \<Rightarrow> ref_store \<Rightarrow> nat" where
  "ctx_of p st = (case models st p of None \<Rightarrow> 0 | Some m \<Rightarrow> md_ctx m)"

text \<open>
  \<open>ops\<close>: the backend has the two operations on adapters; \<open>mem\<close> and \<open>path_mem\<close>: the answers of the
  allocator. An empty path is a null span or one of length 0.
\<close>

definition adapter_load ::
  "nat \<Rightarrow> bool \<Rightarrow> u8 list \<Rightarrow> bool \<Rightarrow> nat option \<times> astral_err \<Rightarrow> nat option \<Rightarrow> bool \<Rightarrow> ref_store \<Rightarrow>
   astral_err \<times> nat option \<times> ref_store" where
  "adapter_load model size_ok path ops engine mem path_mem st =
     (if model = 0 \<or> \<not> size_ok \<or> path = [] then (ASTRAL_E_INVALID, None, st)
      else if \<not> ops then (ASTRAL_E_UNSUPPORTED, None, st)
      else
        (case engine of
           (None, err) \<Rightarrow> (if err \<noteq> ASTRAL_OK then err else ASTRAL_E_BACKEND, None, st)
         | (Some ctx, _) \<Rightarrow>
             let c = (ctx_of model st, ctx);
                 st1 = st\<lparr>loaded_adapters := insert c (loaded_adapters st)\<rparr>
             in (case mem of
                   None \<Rightarrow> (ASTRAL_E_NOMEM, None, st1\<lparr>loaded_adapters := loaded_adapters st1 - {c}\<rparr>)
                 | Some a \<Rightarrow>
                     if \<not> path_mem then (ASTRAL_E_NOMEM, None, st1\<lparr>loaded_adapters := loaded_adapters st1 - {c}\<rparr>)
                     else
                       let st2 = model_retain model st1
                       in (case register_ptr (kind_code Adapter) a (table st2) of
                             (handle, t) \<Rightarrow>
                               if handle = 0
                               then (ASTRAL_E_BUSY, None,
                                     model_release model (st2\<lparr>table := t, loaded_adapters := loaded_adapters st2 - {c}\<rparr>))
                               else (ASTRAL_OK, Some a,
                                     st2\<lparr>table := t, adapters_at := (adapters_at st2)(a \<mapsto>
                                       \<lparr>ad_handle = handle, ad_model = model, ad_ctx = ctx, ad_path = path, ad_refcount = 1\<rparr>)\<rparr>))))) "

definition adapter_info :: "adapter_obj option \<Rightarrow> bool \<Rightarrow> ref_store \<Rightarrow> astral_err + (u64 \<times> u32 \<times> u32)" where
  "adapter_info a out_ok st =
     (case a of
        None \<Rightarrow> Inl ASTRAL_E_INVALID
      | Some x \<Rightarrow>
          if \<not> out_ok then Inl ASTRAL_E_INVALID
          else Inr (case models st (ad_model x) of None \<Rightarrow> 0 | Some m \<Rightarrow> md_handle m, of_nat (length (ad_path x)), ad_refcount x))"

text \<open>The status, the length written and the buffer.\<close>

definition adapter_path_copy :: "adapter_obj option \<Rightarrow> u8 list option \<Rightarrow> astral_err \<times> u32 option \<times> u8 list option" where
  "adapter_path_copy a out =
     (case a of
        None \<Rightarrow> (ASTRAL_E_INVALID, None, out)
      | Some x \<Rightarrow>
          (case out of
             None \<Rightarrow> (ASTRAL_E_NOMEM, Some (of_nat (length (ad_path x))), None)
           | Some buf \<Rightarrow>
               if length buf < length (ad_path x) then (ASTRAL_E_NOMEM, Some (of_nat (length (ad_path x))), out)
               else (ASTRAL_OK, Some (of_nat (length (ad_path x))), Some (ad_path x @ drop (length (ad_path x)) buf))))"

definition adapter_retain :: "nat \<Rightarrow> ref_store \<Rightarrow> ref_store" where
  "adapter_retain a st =
     (case adapters_at st a of
        None \<Rightarrow> st
      | Some x \<Rightarrow> st\<lparr>adapters_at := (adapters_at st)(a \<mapsto> x\<lparr>ad_refcount := ad_refcount x + 1\<rparr>)\<rparr>)"

definition adapter_release :: "nat \<Rightarrow> ref_store \<Rightarrow> ref_store" where
  "adapter_release a st =
     (case adapters_at st a of
        None \<Rightarrow> st
      | Some x \<Rightarrow>
          if ad_refcount x \<noteq> 1 then st\<lparr>adapters_at := (adapters_at st)(a \<mapsto> x\<lparr>ad_refcount := ad_refcount x - 1\<rparr>)\<rparr>
          else
            let st1 = st\<lparr>table := unregister_handle (ad_handle x) (kind_code Adapter) (table st),
                        loaded_adapters := loaded_adapters st - {(ctx_of (ad_model x) st, ad_ctx x)}\<rparr>;
                st2 = model_release (ad_model x) st1
            in st2\<lparr>adapters_at := (adapters_at st2)(a := None)\<rparr>)"

section \<open>The holders of references\<close>

text \<open>
  Clients (the program, its sessions) hold references; \<open>Take_Model\<close> is what \<open>session_create\<close> does
  with a model it has looked up. The ghost state counts what they hold.
\<close>

datatype ref_op =
    Load_Model u32 bool "nat option \<times> astral_err" "nat option"
  | Take_Model nat
  | Drop_Model nat
  | Load_Adapter nat bool "u8 list" bool "nat option \<times> astral_err" "nat option" bool
  | Take_Adapter nat
  | Drop_Adapter nat

record held =
  of_model :: "nat \<Rightarrow> nat"
  of_adapter :: "nat \<Rightarrow> nat"

fun run_ref :: "ref_op \<Rightarrow> ref_store \<times> held \<Rightarrow> ref_store \<times> held" where
  "run_ref (Load_Model n pr e mem) (st, h) =
     (case model_load n pr e mem st of
        (_, None, st') \<Rightarrow> (st', h)
      | (_, Some p, st') \<Rightarrow> (st', h\<lparr>of_model := (of_model h)(p := 1)\<rparr>))"
| "run_ref (Take_Model p) (st, h) = (model_retain p st, h\<lparr>of_model := (of_model h)(p := of_model h p + 1)\<rparr>)"
| "run_ref (Drop_Model p) (st, h) = (model_release p st, h\<lparr>of_model := (of_model h)(p := of_model h p - 1)\<rparr>)"
| "run_ref (Load_Adapter p ok path ops e mem pm) (st, h) =
     (case adapter_load p ok path ops e mem pm st of
        (_, None, st') \<Rightarrow> (st', h)
      | (_, Some a, st') \<Rightarrow> (st', h\<lparr>of_adapter := (of_adapter h)(a := 1)\<rparr>))"
| "run_ref (Take_Adapter a) (st, h) = (adapter_retain a st, h\<lparr>of_adapter := (of_adapter h)(a := of_adapter h a + 1)\<rparr>)"
| "run_ref (Drop_Adapter a) (st, h) = (adapter_release a st, h\<lparr>of_adapter := (of_adapter h)(a := of_adapter h a - 1)\<rparr>)"

definition users :: "nat \<Rightarrow> ref_store \<Rightarrow> nat set" where
  "users p st = {a. \<exists>x. adapters_at st a = Some x \<and> ad_model x = p}"

text \<open>
  What the clients and the surroundings respect: one takes a reference only through one that is
  held, and gives back only what one holds; addresses and contexts are new; the counters, 32 bits
  wide, do not overflow.
\<close>

fun ref_ok :: "ref_op \<Rightarrow> ref_store \<times> held \<Rightarrow> bool" where
  "ref_ok (Load_Model n pr e mem) (st, h) =
     ((\<forall>p. mem = Some p \<longrightarrow> p \<noteq> 0 \<and> models st p = None) \<and> (\<forall>c. fst e = Some c \<longrightarrow> c \<notin> loaded_models st))"
| "ref_ok (Take_Model p) (st, h) = (models st p \<noteq> None \<and> of_model h p + card (users p st) < 2 ^ 32 - 1)"
| "ref_ok (Drop_Model p) (st, h) = (0 < of_model h p)"
| "ref_ok (Load_Adapter p ok path ops e mem pm) (st, h) =
     (0 < of_model h p \<and> of_model h p + card (users p st) < 2 ^ 32 - 1 \<and>
      (\<forall>a. mem = Some a \<longrightarrow> a \<noteq> 0 \<and> adapters_at st a = None) \<and> (\<forall>c. fst e = Some c \<longrightarrow> (ctx_of p st, c) \<notin> loaded_adapters st))"
| "ref_ok (Take_Adapter a) (st, h) = (adapters_at st a \<noteq> None \<and> of_adapter h a < 2 ^ 32 - 1)"
| "ref_ok (Drop_Adapter a) (st, h) = (0 < of_adapter h a)"

section \<open>The contexts of a family of objects\<close>

definition ctxs :: "('o \<Rightarrow> 'c) \<Rightarrow> (nat \<Rightarrow> 'o option) \<Rightarrow> 'c set" where
  "ctxs g F = {g y | a y. F a = Some y}"

lemma ctxs_cong:
  assumes "\<And>a y. F a = Some y \<Longrightarrow> g y = h y"
  shows "ctxs g F = ctxs h F"
proof (intro set_eqI iffI)
  fix c assume "c \<in> ctxs g F"
  then obtain a y where "c = g y" "F a = Some y" by (auto simp: ctxs_def)
  then have "c = h y \<and> F a = Some y" using assms by simp
  then show "c \<in> ctxs h F" unfolding ctxs_def by blast
next
  fix c assume "c \<in> ctxs h F"
  then obtain a y where "c = h y" "F a = Some y" by (auto simp: ctxs_def)
  then have "c = g y \<and> F a = Some y" using assms by simp
  then show "c \<in> ctxs g F" unfolding ctxs_def by blast
qed

lemma ctxs_remove:
  assumes "F a = Some x" "\<And>b y. F b = Some y \<Longrightarrow> g y = g x \<Longrightarrow> b = a"
  shows "ctxs g F - {g x} = ctxs g (F(a := None))"
proof (intro set_eqI iffI)
  fix c assume "c \<in> ctxs g F - {g x}"
  then obtain b y where "c = g y" "F b = Some y" "g y \<noteq> g x" by (auto simp: ctxs_def)
  moreover from this have "b \<noteq> a" using assms(1) by auto
  ultimately have "c = g y \<and> (F(a := None)) b = Some y" by simp
  then show "c \<in> ctxs g (F(a := None))" unfolding ctxs_def by blast
next
  fix c assume "c \<in> ctxs g (F(a := None))"
  then obtain b y where "c = g y" "F b = Some y" "b \<noteq> a" by (auto simp: ctxs_def split: if_splits)
  then show "c \<in> ctxs g F - {g x}" using assms(2) by (auto simp: ctxs_def)
qed

lemma ctxs_update:
  assumes "F a = Some x" "g x' = g x"
  shows "ctxs g (F(a \<mapsto> x')) = ctxs g F"
proof (intro set_eqI iffI)
  fix c assume "c \<in> ctxs g (F(a \<mapsto> x'))"
  then show "c \<in> ctxs g F" using assms by (auto simp: ctxs_def split: if_splits)
next
  fix c assume "c \<in> ctxs g F"
  then obtain b y where q: "c = g y" "F b = Some y" by (auto simp: ctxs_def)
  then have "(F(a \<mapsto> x')) b = Some (if b = a then x' else y) \<and> c = g (if b = a then x' else y)" using assms by auto
  then show "c \<in> ctxs g (F(a \<mapsto> x'))" unfolding ctxs_def by blast
qed

lemma ctxs_insert:
  assumes "F a = None"
  shows "insert (g x) (ctxs g F) = ctxs g (F(a \<mapsto> x))"
proof (intro set_eqI iffI)
  fix c assume "c \<in> insert (g x) (ctxs g F)"
  then consider "c = g x" | b y where "c = g y" "F b = Some y" by (auto simp: ctxs_def)
  then show "c \<in> ctxs g (F(a \<mapsto> x))"
  proof cases
    case 1
    then have "c = g x \<and> (F(a \<mapsto> x)) a = Some x" by simp
    then show ?thesis unfolding ctxs_def by blast
  next
    case 2
    then have "c = g y \<and> (F(a \<mapsto> x)) b = Some y" using assms by auto
    then show ?thesis unfolding ctxs_def by blast
  qed
next
  fix c assume "c \<in> ctxs g (F(a \<mapsto> x))"
  then show "c \<in> insert (g x) (ctxs g F)" by (auto simp: ctxs_def split: if_splits)
qed

section \<open>The invariant\<close>

text \<open>\<open>c\<close> and \<open>d\<close> are the numbers of references there are to each model and to each adapter.\<close>

definition models_ok :: "ref_store \<Rightarrow> (nat \<Rightarrow> nat) \<Rightarrow> bool" where
  "models_ok st c \<longleftrightarrow>
     (\<forall>p. models st p = None \<longrightarrow> c p = 0) \<and>
     (\<forall>p m. models st p = Some m \<longrightarrow> unat (md_refcount m) = c p \<and> 0 < c p \<and>
        live (table st) (md_handle m) = Some p \<and> handle_kind (md_handle m) = kind_code Model)"

definition adapters_ok :: "ref_store \<Rightarrow> (nat \<Rightarrow> nat) \<Rightarrow> bool" where
  "adapters_ok st d \<longleftrightarrow>
     (\<forall>a. adapters_at st a = None \<longrightarrow> d a = 0) \<and>
     (\<forall>a x. adapters_at st a = Some x \<longrightarrow> unat (ad_refcount x) = d a \<and> 0 < d a \<and> models st (ad_model x) \<noteq> None \<and>
        live (table st) (ad_handle x) = Some a \<and> handle_kind (ad_handle x) = kind_code Adapter)"

text \<open>The backend has loaded exactly the contexts of the objects, one each.\<close>

definition model_ctxs :: "ref_store \<Rightarrow> bool" where
  "model_ctxs st \<longleftrightarrow>
     loaded_models st = ctxs md_ctx (models st) \<and>
     (\<forall>p q m n. models st p = Some m \<longrightarrow> models st q = Some n \<longrightarrow> md_ctx m = md_ctx n \<longrightarrow> p = q)"

definition adapter_ctx :: "ref_store \<Rightarrow> adapter_obj \<Rightarrow> nat \<times> nat" where
  "adapter_ctx st x = (ctx_of (ad_model x) st, ad_ctx x)"

definition adapter_ctxs :: "ref_store \<Rightarrow> bool" where
  "adapter_ctxs st \<longleftrightarrow>
     loaded_adapters st = ctxs (adapter_ctx st) (adapters_at st) \<and>
     (\<forall>a b x y. adapters_at st a = Some x \<longrightarrow> adapters_at st b = Some y \<longrightarrow> adapter_ctx st x = adapter_ctx st y \<longrightarrow> a = b)"

definition handles_ok :: "ref_store \<Rightarrow> bool" where
  "handles_ok st \<longleftrightarrow>
     (\<forall>h p. live (table st) h = Some p \<longrightarrow>
        (\<exists>m. models st p = Some m \<and> md_handle m = h) \<or> (\<exists>x. adapters_at st p = Some x \<and> ad_handle x = h))"

definition refs_ok :: "ref_store \<Rightarrow> (nat \<Rightarrow> nat) \<Rightarrow> (nat \<Rightarrow> nat) \<Rightarrow> bool" where
  "refs_ok st c d \<longleftrightarrow> table_inv (table st) \<and> finite (dom (adapters_at st)) \<and> models_ok st c \<and> adapters_ok st d \<and>
     model_ctxs st \<and> adapter_ctxs st \<and> handles_ok st"

definition model_count :: "ref_store \<times> held \<Rightarrow> nat \<Rightarrow> nat" where
  "model_count s p = of_model (snd s) p + card (users p (fst s))"

definition refs_inv :: "ref_store \<times> held \<Rightarrow> bool" where
  "refs_inv s \<longleftrightarrow> refs_ok (fst s) (model_count s) (of_adapter (snd s))"

lemma users_simps [simp]:
  "users p (st\<lparr>models := m\<rparr>) = users p st" "users p (st\<lparr>table := t\<rparr>) = users p st"
  "users p (st\<lparr>loaded_models := l\<rparr>) = users p st" "users p (st\<lparr>loaded_adapters := k\<rparr>) = users p st"
  by (simp_all add: users_def)

lemma finite_users: "finite (dom (adapters_at st)) \<Longrightarrow> finite (users p st)"
  by (rule finite_subset [of _ "dom (adapters_at st)"]) (auto simp: users_def)

text \<open>Changing a counter changes nothing else.\<close>

lemma refs_ok_recount:
  assumes "refs_ok st c d" "models st p = Some m" "unat n = k" "0 < k"
  shows "refs_ok (st\<lparr>models := (models st)(p \<mapsto> m\<lparr>md_refcount := n\<rparr>)\<rparr>) (c(p := k)) d"
proof -
  let ?st = "st\<lparr>models := (models st)(p \<mapsto> m\<lparr>md_refcount := n\<rparr>)\<rparr>"
  have ctx: "ctx_of q ?st = ctx_of q st" for q using assms(2) by (simp add: ctx_of_def)
  have "models_ok ?st (c(p := k))" using assms by (simp add: refs_ok_def models_ok_def)
  moreover have "adapters_ok ?st d" using assms(1) unfolding refs_ok_def adapters_ok_def by simp
  moreover have "model_ctxs ?st"
  proof -
    have sets: "ctxs md_ctx (models ?st) = ctxs md_ctx (models st)" using ctxs_update [of "models st" p m md_ctx] assms(2) by simp
    have inj: "\<forall>q r m' n'. models ?st q = Some m' \<longrightarrow> models ?st r = Some n' \<longrightarrow> md_ctx m' = md_ctx n' \<longrightarrow> q = r"
    proof (intro allI impI)
      fix q r m' n' assume "models ?st q = Some m'" "models ?st r = Some n'" "md_ctx m' = md_ctx n'"
      then obtain a b where ab: "models st q = Some a" "models st r = Some b" "md_ctx a = md_ctx b"
        using assms(2) by (auto split: if_splits)
      then show "q = r" using assms(1) unfolding refs_ok_def model_ctxs_def by blast
    qed
    have "loaded_models ?st = ctxs md_ctx (models ?st)"
      unfolding sets using assms(1) by (simp add: refs_ok_def model_ctxs_def)
    then show ?thesis using inj unfolding model_ctxs_def by blast
  qed
  moreover have "adapter_ctxs ?st"
    using assms(1) unfolding refs_ok_def adapter_ctxs_def adapter_ctx_def ctx by simp
  moreover have "handles_ok ?st"
  proof (unfold handles_ok_def, intro allI impI)
    fix h q assume "live (table ?st) h = Some q"
    then have "(\<exists>n. models st q = Some n \<and> md_handle n = h) \<or> (\<exists>x. adapters_at st q = Some x \<and> ad_handle x = h)"
      using assms(1) by (simp add: refs_ok_def handles_ok_def)
    then show "(\<exists>n. models ?st q = Some n \<and> md_handle n = h) \<or> (\<exists>x. adapters_at ?st q = Some x \<and> ad_handle x = h)"
      using assms(2) by (cases "q = p") auto
  qed
  ultimately show ?thesis using assms(1) by (simp add: refs_ok_def)
qed

lemma model_retain_ok:
  assumes "refs_ok st c d" "models st p \<noteq> None" "c p < 2 ^ 32 - 1"
  shows "refs_ok (model_retain p st) (c(p := c p + 1)) d"
proof -
  obtain m where m: "models st p = Some m" using assms(2) by auto
  have u: "unat (md_refcount m) = c p" using assms(1) m by (simp add: refs_ok_def models_ok_def)
  have "unat (md_refcount m + 1) = c p + 1"
    using u assms(3) unat_add_lem [of "md_refcount m" 1] by simp
  then show ?thesis using refs_ok_recount [OF assms(1) m, of "md_refcount m + 1" "c p + 1"] by (simp add: model_retain_def m)
qed

lemma live_other:
  assumes "table_inv t" "handle_kind h = k" "live t h' = Some q" "h \<noteq> h'"
  shows "live (unregister_handle h k t) h' = Some q"
  using unregister_correct(2) [OF assms(1,2)] assms(3,4) by simp

lemma model_release_ok:
  assumes "refs_ok st c d" "0 < c p" "c p = 1 \<Longrightarrow> users p st = {}"
  shows "refs_ok (model_release p st) (c(p := c p - 1)) d"
proof -
  obtain m where m: "models st p = Some m"
    using assms(1,2) by (cases "models st p") (auto simp: refs_ok_def models_ok_def)
  have u: "unat (md_refcount m) = c p" "live (table st) (md_handle m) = Some p" "handle_kind (md_handle m) = kind_code Model"
    using assms(1) m by (simp_all add: refs_ok_def models_ok_def)
  show ?thesis
  proof (cases "md_refcount m = 1")
    case False
    then have "1 < c p" using u(1) assms(2) by (metis One_nat_def Suc_lessI unat_1 unat_eqI)
    moreover have "unat (md_refcount m - 1) = c p - 1"
    proof -
      have "1 \<le> md_refcount m" using u(1) assms(2) by (simp add: word_le_nat_alt)
      then show ?thesis using u(1) by (simp add: unat_sub)
    qed
    ultimately show ?thesis
      using refs_ok_recount [OF assms(1) m, of "md_refcount m - 1" "c p - 1"] False by (simp add: model_release_def m)
  next
    case True
    then have c1: "c p = 1" using u(1) by simp
    have none: "ad_model x \<noteq> p" if "adapters_at st a = Some x" for a x
      using assms(3) [OF c1] that by (auto simp: users_def)
    let ?t = "unregister_handle (md_handle m) (kind_code Model) (table st)"
    let ?st = "st\<lparr>loaded_models := loaded_models st - {md_ctx m}, table := ?t, models := (models st)(p := None)\<rparr>"
    have t: "table_inv (table st)" using assms(1) by (simp add: refs_ok_def)
    note un = unregister_correct [OF t u(3)]
    have mo: "models_ok ?st (c(p := c p - 1))"
    proof -
      have "md_handle n \<noteq> md_handle m" if "models st q = Some n" "q \<noteq> p" for q n
      proof -
        have "live (table st) (md_handle n) = Some q" using assms(1) that(1) unfolding refs_ok_def models_ok_def by blast
        then show ?thesis using u(2) that(2) by auto
      qed
      then show ?thesis using assms(1) by (auto simp: refs_ok_def models_ok_def un(2) c1 simp del: kind_code.simps)
    qed
    have ao: "adapters_ok ?st d"
    proof -
      have "ad_handle x \<noteq> md_handle m" if "adapters_at st a = Some x" for a x
      proof -
        have "handle_kind (ad_handle x) = kind_code Adapter" using assms(1) that unfolding refs_ok_def adapters_ok_def by blast
        then show ?thesis using u(3) by auto
      qed
      then show ?thesis using assms(1) none by (auto simp: refs_ok_def adapters_ok_def un(2) simp del: kind_code.simps)
    qed
    have mc: "model_ctxs ?st"
    proof -
      have i: "q = p" if "models st q = Some n" "md_ctx n = md_ctx m" for q n
        using assms(1) m that unfolding refs_ok_def model_ctxs_def by blast
      have "loaded_models ?st = ctxs md_ctx (models ?st)"
      proof -
        have "loaded_models st = ctxs md_ctx (models st)" using assms(1) unfolding refs_ok_def model_ctxs_def by blast
        moreover have "ctxs md_ctx (models st) - {md_ctx m} = ctxs md_ctx ((models st)(p := None))"
          by (rule ctxs_remove, rule m, erule (1) i)
        ultimately show ?thesis by simp
      qed
      moreover have "\<forall>q r m' n'. models ?st q = Some m' \<longrightarrow> models ?st r = Some n' \<longrightarrow> md_ctx m' = md_ctx n' \<longrightarrow> q = r"
      proof (intro allI impI)
        fix q r m' n' assume "models ?st q = Some m'" "models ?st r = Some n'" "md_ctx m' = md_ctx n'"
        then have "models st q = Some m'" "models st r = Some n'" "md_ctx m' = md_ctx n'" by (auto split: if_splits)
        then show "q = r" using assms(1) unfolding refs_ok_def model_ctxs_def by blast
      qed
      ultimately show ?thesis unfolding model_ctxs_def by blast
    qed
    have ctx: "adapter_ctx ?st x = adapter_ctx st x" if "adapters_at st a = Some x" for a x
      using none [OF that] by (simp add: adapter_ctx_def ctx_of_def)
    have ac: "adapter_ctxs ?st"
    proof -
      have "ctxs (adapter_ctx ?st) (adapters_at st) = ctxs (adapter_ctx st) (adapters_at st)"
        by (rule ctxs_cong) (rule ctx)
      moreover have "a = b" if "adapters_at st a = Some x" "adapters_at st b = Some y" "adapter_ctx ?st x = adapter_ctx ?st y" for a b x y
        using assms(1) that(1,2) that(3) [unfolded ctx [OF that(1)] ctx [OF that(2)]] unfolding refs_ok_def adapter_ctxs_def by blast
      ultimately show ?thesis using assms(1) unfolding refs_ok_def adapter_ctxs_def by simp
    qed
    have "handles_ok ?st"
    proof (unfold handles_ok_def, intro allI impI)
      fix h q assume l: "live (table ?st) h = Some q"
      then have "h \<noteq> md_handle m" "live (table st) h = Some q" by (simp_all add: un(2) split: if_splits del: kind_code.simps)
      then show "(\<exists>m. models ?st q = Some m \<and> md_handle m = h) \<or> (\<exists>x. adapters_at ?st q = Some x \<and> ad_handle x = h)"
      proof -
        have "(\<exists>n. models st q = Some n \<and> md_handle n = h) \<or> (\<exists>x. adapters_at st q = Some x \<and> ad_handle x = h)"
          using assms(1) \<open>live (table st) h = Some q\<close> unfolding refs_ok_def handles_ok_def by blast
        then show ?thesis using \<open>h \<noteq> md_handle m\<close> m by (cases "q = p") auto
      qed
    qed
    then have "refs_ok ?st (c(p := c p - 1)) d" using assms(1) mo ao mc ac un(1) by (simp add: refs_ok_def)
    then show ?thesis using True by (simp add: model_release_def m)
  qed
qed

section \<open>Creation and removal of adapters\<close>

definition drop_adapter :: "nat \<Rightarrow> adapter_obj \<Rightarrow> ref_store \<Rightarrow> ref_store" where
  "drop_adapter a x st =
     st\<lparr>table := unregister_handle (ad_handle x) (kind_code Adapter) (table st),
        loaded_adapters := loaded_adapters st - {adapter_ctx st x}, adapters_at := (adapters_at st)(a := None)\<rparr>"

lemma model_release_adapters:
  "(model_release p st)\<lparr>adapters_at := f\<rparr> = model_release p (st\<lparr>adapters_at := f\<rparr>)"
  "adapters_at (model_release p st) = adapters_at st" "users q (model_release p st) = users q st"
  by (simp_all add: model_release_def users_def split: option.splits)

lemma adapter_release_last:
  assumes "adapters_at st a = Some x" "ad_refcount x = 1"
  shows "adapter_release a st = model_release (ad_model x) (drop_adapter a x st)"
  using assms by (simp add: adapter_release_def Let_def drop_adapter_def adapter_ctx_def model_release_adapters)

lemma users_drop:
  assumes "adapters_at st a = Some x" "finite (dom (adapters_at st))"
  shows "users (ad_model x) (drop_adapter a x st) = users (ad_model x) st - {a}"
    "p \<noteq> ad_model x \<Longrightarrow> users p (drop_adapter a x st) = users p st" "a \<in> users (ad_model x) st"
  using assms by (auto simp: users_def drop_adapter_def)

lemma drop_adapter_ok:
  assumes "refs_ok st c d" "adapters_at st a = Some x"
  shows "refs_ok (drop_adapter a x st) c (d(a := 0))"
proof -
  let ?st = "drop_adapter a x st"
  have ao: "adapters_ok st d" and t: "table_inv (table st)" using assms(1) by (simp_all add: refs_ok_def)
  have u: "live (table st) (ad_handle x) = Some a" "handle_kind (ad_handle x) = kind_code Adapter"
    using ao assms(2) unfolding adapters_ok_def by blast+
  note un = unregister_correct [OF t u(2)]
  have tb: "table ?st = unregister_handle (ad_handle x) (kind_code Adapter) (table st)" "models ?st = models st"
    "adapters_at ?st = (adapters_at st)(a := None)" "loaded_models ?st = loaded_models st"
    "loaded_adapters ?st = loaded_adapters st - {adapter_ctx st x}" by (simp_all add: drop_adapter_def)
  have ctx: "adapter_ctx ?st y = adapter_ctx st y" for y by (simp add: adapter_ctx_def ctx_of_def tb(2))
  have "models_ok ?st c"
  proof -
    have "md_handle m \<noteq> ad_handle x" if "models st p = Some m" for p m
    proof -
      have "handle_kind (md_handle m) = kind_code Model" using assms(1) that unfolding refs_ok_def models_ok_def by blast
      then show ?thesis using u(2) by auto
    qed
    then show ?thesis using assms(1) by (auto simp: refs_ok_def models_ok_def tb un(2) simp del: kind_code.simps)
  qed
  moreover have "adapters_ok ?st (d(a := 0))"
  proof -
    have "ad_handle y \<noteq> ad_handle x" if "adapters_at st b = Some y" "b \<noteq> a" for b y
    proof -
      have "live (table st) (ad_handle y) = Some b" using ao that(1) unfolding adapters_ok_def by blast
      then show ?thesis using u(1) that(2) by auto
    qed
    then show ?thesis using ao by (auto simp: adapters_ok_def tb un(2) simp del: kind_code.simps)
  qed
  moreover have "model_ctxs ?st" using assms(1) unfolding refs_ok_def model_ctxs_def tb by blast
  moreover have "adapter_ctxs ?st"
  proof -
    have inj: "b = a" if "adapters_at st b = Some y" "adapter_ctx st y = adapter_ctx st x" for b y
      using assms that unfolding refs_ok_def adapter_ctxs_def by blast
    have l: "loaded_adapters st = ctxs (adapter_ctx st) (adapters_at st)"
      using assms(1) unfolding refs_ok_def adapter_ctxs_def by blast
    have "loaded_adapters ?st = ctxs (adapter_ctx st) (adapters_at ?st)"
      unfolding tb(3,5) l by (rule ctxs_remove, rule assms(2), erule (1) inj)
    moreover have "adapter_ctx ?st = adapter_ctx st" by (rule ext) (rule ctx)
    ultimately have "loaded_adapters ?st = ctxs (adapter_ctx ?st) (adapters_at ?st)" by simp
    moreover have "\<forall>b e y z. adapters_at ?st b = Some y \<longrightarrow> adapters_at ?st e = Some z \<longrightarrow> adapter_ctx ?st y = adapter_ctx ?st z \<longrightarrow> b = e"
    proof (intro allI impI)
      fix b e y z assume "adapters_at ?st b = Some y" "adapters_at ?st e = Some z" "adapter_ctx ?st y = adapter_ctx ?st z"
      then have "adapters_at st b = Some y" "adapters_at st e = Some z" "adapter_ctx st y = adapter_ctx st z"
        by (auto simp: tb ctx split: if_splits)
      then show "b = e" using assms(1) unfolding refs_ok_def adapter_ctxs_def by blast
    qed
    ultimately show ?thesis unfolding adapter_ctxs_def by blast
  qed
  moreover have "handles_ok ?st"
  proof (unfold handles_ok_def, intro allI impI)
    fix h q assume l: "live (table ?st) h = Some q"
    then have h: "h \<noteq> ad_handle x" "live (table st) h = Some q" by (simp_all add: un(2) tb split: if_splits del: kind_code.simps)
    then have "(\<exists>n. models st q = Some n \<and> md_handle n = h) \<or> (\<exists>x. adapters_at st q = Some x \<and> ad_handle x = h)"
      using assms(1) by (simp add: refs_ok_def handles_ok_def)
    then show "(\<exists>m. models ?st q = Some m \<and> md_handle m = h) \<or> (\<exists>x. adapters_at ?st q = Some x \<and> ad_handle x = h)"
      using h(1) assms(2) by (cases "q = a") (auto simp: tb)
  qed
  ultimately show ?thesis using assms(1) un(1) by (simp add: refs_ok_def tb)
qed

lemma register_new:
  assumes "table_inv t" "ptr \<noteq> 0" "kind = kind_code Model \<or> kind = kind_code Adapter" "register_ptr kind ptr t = (h, t')"
  shows "table_inv t' \<and> (h = 0 \<and> t' = t \<or>
    h \<noteq> 0 \<and> live t h = None \<and> live t' = (live t)(h \<mapsto> ptr) \<and> handle_kind h = kind)"
proof -
  have k: "kind \<noteq> kind_code Invalid" "unat kind < 2 ^ 8" using assms(3) by auto
  from register_ptr_cases [OF assms(1) k(1) assms(2)] show ?thesis
  proof (elim disjE exE conjE)
    fix j assume j: "j < kMaxHandles t" "h_ptr (h_slots t ! j) = 0" "register_ptr kind ptr t = fill_slot kind ptr j t"
    then have "fill_slot kind ptr j t = (h, t')" using assms(4) by simp
    from fill_slot_correct [OF assms(1) j(1,2) assms(2) k this] show ?thesis by simp
  next
    assume "register_ptr kind ptr t = (0, t)"
    then show ?thesis using assms(1,4) by simp
  qed
qed

definition put_model :: "nat \<Rightarrow> model_obj \<Rightarrow> handle_table \<Rightarrow> ref_store \<Rightarrow> ref_store" where
  "put_model p m t st = st\<lparr>loaded_models := insert (md_ctx m) (loaded_models st), table := t, models := (models st)(p \<mapsto> m)\<rparr>"

definition put_adapter :: "nat \<Rightarrow> adapter_obj \<Rightarrow> handle_table \<Rightarrow> ref_store \<Rightarrow> ref_store" where
  "put_adapter a x t st =
     st\<lparr>loaded_adapters := insert (adapter_ctx st x) (loaded_adapters st), table := t, adapters_at := (adapters_at st)(a \<mapsto> x)\<rparr>"

lemma put_model_ok:
  assumes "refs_ok st c d" "models st p = None" "md_refcount m = 1" "md_ctx m \<notin> loaded_models st"
    "table_inv t" "live (table st) (md_handle m) = None" "live t = (live (table st))(md_handle m \<mapsto> p)"
    "handle_kind (md_handle m) = kind_code Model"
  shows "refs_ok (put_model p m t st) (c(p := 1)) d"
proof -
  let ?st = "put_model p m t st"
  have tb: "table ?st = t" "models ?st = (models st)(p \<mapsto> m)" "adapters_at ?st = adapters_at st"
    "loaded_models ?st = insert (md_ctx m) (loaded_models st)" "loaded_adapters ?st = loaded_adapters st"
    by (simp_all add: put_model_def)
  have none: "ad_model x \<noteq> p" if "adapters_at st a = Some x" for a x
    using assms(1,2) that unfolding refs_ok_def adapters_ok_def by metis
  have "models_ok ?st (c(p := 1))"
  proof -
    have "md_handle n \<noteq> md_handle m" if "models st q = Some n" for q n
    proof -
      have "live (table st) (md_handle n) = Some q" using assms(1) that unfolding refs_ok_def models_ok_def by blast
      then show ?thesis using assms(6) by auto
    qed
    then show ?thesis using assms(1,3,7,8) by (auto simp: refs_ok_def models_ok_def tb simp del: kind_code.simps)
  qed
  moreover have "adapters_ok ?st d"
  proof -
    have "ad_handle x \<noteq> md_handle m" if "adapters_at st a = Some x" for a x
    proof -
      have "live (table st) (ad_handle x) = Some a" using assms(1) that unfolding refs_ok_def adapters_ok_def by blast
      then show ?thesis using assms(6) by auto
    qed
    then show ?thesis using assms(1,7) by (auto simp: refs_ok_def adapters_ok_def tb simp del: kind_code.simps)
  qed
  moreover have "model_ctxs ?st"
  proof -
    have l: "loaded_models st = ctxs md_ctx (models st)" using assms(1) unfolding refs_ok_def model_ctxs_def by blast
    have "loaded_models ?st = ctxs md_ctx (models ?st)" unfolding tb l by (rule ctxs_insert, rule assms(2))
    moreover have "\<forall>q r m' n'. models ?st q = Some m' \<longrightarrow> models ?st r = Some n' \<longrightarrow> md_ctx m' = md_ctx n' \<longrightarrow> q = r"
    proof (intro allI impI)
      fix q r m' n' assume e: "models ?st q = Some m'" "models ?st r = Some n'" "md_ctx m' = md_ctx n'"
      have fresh: "md_ctx n \<noteq> md_ctx m" if "models st s = Some n" for s n
        using assms(4) that by (auto simp: l ctxs_def)
      show "q = r"
      proof (cases "q = p \<or> r = p")
        case True
        then show ?thesis using e fresh [of q m'] fresh [of r n'] by (auto simp: tb split: if_splits)
      next
        case False
        then have "models st q = Some m'" "models st r = Some n'" "md_ctx m' = md_ctx n'" using e by (simp_all add: tb)
        then show ?thesis using assms(1) unfolding refs_ok_def model_ctxs_def by blast
      qed
    qed
    ultimately show ?thesis unfolding model_ctxs_def by blast
  qed
  moreover have "adapter_ctxs ?st"
  proof -
    have ctx: "adapter_ctx ?st x = adapter_ctx st x" if "adapters_at st a = Some x" for a x
      using none [OF that] by (simp add: adapter_ctx_def ctx_of_def tb)
    have "ctxs (adapter_ctx ?st) (adapters_at st) = ctxs (adapter_ctx st) (adapters_at st)"
      by (rule ctxs_cong) (rule ctx)
    moreover have "a = b" if "adapters_at st a = Some x" "adapters_at st b = Some y" "adapter_ctx ?st x = adapter_ctx ?st y" for a b x y
      using assms(1) that(1,2) that(3) [unfolded ctx [OF that(1)] ctx [OF that(2)]] unfolding refs_ok_def adapter_ctxs_def by blast
    ultimately show ?thesis using assms(1) unfolding refs_ok_def adapter_ctxs_def tb by simp
  qed
  moreover have "handles_ok ?st"
  proof (unfold handles_ok_def, intro allI impI)
    fix h q assume l: "live (table ?st) h = Some q"
    show "(\<exists>m. models ?st q = Some m \<and> md_handle m = h) \<or> (\<exists>x. adapters_at ?st q = Some x \<and> ad_handle x = h)"
    proof (cases "h = md_handle m")
      case True
      then have "q = p" using l by (simp add: tb assms(7))
      then show ?thesis using True by (auto simp: tb)
    next
      case False
      then have "(\<exists>n. models st q = Some n \<and> md_handle n = h) \<or> (\<exists>x. adapters_at st q = Some x \<and> ad_handle x = h)"
        using assms(1) l by (simp add: refs_ok_def handles_ok_def tb assms(7))
      then show ?thesis using assms(2) by (cases "q = p") (auto simp: tb)
    qed
  qed
  ultimately show ?thesis using assms(1,5) by (simp add: refs_ok_def tb)
qed

lemma put_adapter_ok:
  assumes "refs_ok st c d" "adapters_at st a = None" "ad_refcount x = 1" "adapter_ctx st x \<notin> loaded_adapters st"
    "models st (ad_model x) \<noteq> None"
    "table_inv t" "live (table st) (ad_handle x) = None" "live t = (live (table st))(ad_handle x \<mapsto> a)"
    "handle_kind (ad_handle x) = kind_code Adapter"
  shows "refs_ok (put_adapter a x t st) c (d(a := 1))"
proof -
  let ?st = "put_adapter a x t st"
  have tb: "table ?st = t" "models ?st = models st" "adapters_at ?st = (adapters_at st)(a \<mapsto> x)"
    "loaded_models ?st = loaded_models st" "loaded_adapters ?st = insert (adapter_ctx st x) (loaded_adapters st)"
    by (simp_all add: put_adapter_def)
  have ctx: "adapter_ctx ?st = adapter_ctx st" by (rule ext) (simp add: adapter_ctx_def ctx_of_def tb)
  have "models_ok ?st c"
  proof -
    have "md_handle n \<noteq> ad_handle x" if "models st q = Some n" for q n
    proof -
      have "live (table st) (md_handle n) = Some q" using assms(1) that unfolding refs_ok_def models_ok_def by blast
      then show ?thesis using assms(7) by auto
    qed
    then show ?thesis using assms(1,8) by (auto simp: refs_ok_def models_ok_def tb simp del: kind_code.simps)
  qed
  moreover have "adapters_ok ?st (d(a := 1))"
  proof -
    have "ad_handle y \<noteq> ad_handle x" if "adapters_at st b = Some y" for b y
    proof -
      have "live (table st) (ad_handle y) = Some b" using assms(1) that unfolding refs_ok_def adapters_ok_def by blast
      then show ?thesis using assms(7) by auto
    qed
    then show ?thesis using assms(1,3,5,8,9) by (auto simp: refs_ok_def adapters_ok_def tb simp del: kind_code.simps)
  qed
  moreover have "model_ctxs ?st" using assms(1) unfolding refs_ok_def model_ctxs_def tb by blast
  moreover have "adapter_ctxs ?st"
  proof -
    have l: "loaded_adapters st = ctxs (adapter_ctx st) (adapters_at st)" using assms(1) unfolding refs_ok_def adapter_ctxs_def by blast
    have "loaded_adapters ?st = ctxs (adapter_ctx ?st) (adapters_at ?st)" unfolding ctx tb l by (rule ctxs_insert, rule assms(2))
    moreover have "\<forall>b e y z. adapters_at ?st b = Some y \<longrightarrow> adapters_at ?st e = Some z \<longrightarrow> adapter_ctx ?st y = adapter_ctx ?st z \<longrightarrow> b = e"
    proof (intro allI impI)
      fix b e y z assume q: "adapters_at ?st b = Some y" "adapters_at ?st e = Some z" "adapter_ctx ?st y = adapter_ctx ?st z"
      have fresh: "adapter_ctx st n \<noteq> adapter_ctx st x" if "adapters_at st s = Some n" for s n
      proof
        assume "adapter_ctx st n = adapter_ctx st x"
        then have "adapter_ctx st x = adapter_ctx st n \<and> adapters_at st s = Some n" using that by simp
        then have "adapter_ctx st x \<in> ctxs (adapter_ctx st) (adapters_at st)" unfolding ctxs_def by blast
        then show False using assms(4) l by simp
      qed
      show "b = e"
      proof (cases "b = a \<or> e = a")
        case True
        then show ?thesis using q fresh [of b y] fresh [of e z] unfolding tb ctx by (cases "b = a"; cases "e = a") auto
      next
        case False
        then have "adapters_at st b = Some y" "adapters_at st e = Some z" "adapter_ctx st y = adapter_ctx st z"
          using q by (simp_all add: tb ctx)
        then show ?thesis using assms(1) unfolding refs_ok_def adapter_ctxs_def by blast
      qed
    qed
    ultimately show ?thesis unfolding adapter_ctxs_def by blast
  qed
  moreover have "handles_ok ?st"
  proof (unfold handles_ok_def, intro allI impI)
    fix h q assume l: "live (table ?st) h = Some q"
    show "(\<exists>m. models ?st q = Some m \<and> md_handle m = h) \<or> (\<exists>x. adapters_at ?st q = Some x \<and> ad_handle x = h)"
    proof (cases "h = ad_handle x")
      case True
      then have "q = a" using l by (simp add: tb assms(8))
      then show ?thesis using True by (auto simp: tb)
    next
      case False
      then have "(\<exists>n. models st q = Some n \<and> md_handle n = h) \<or> (\<exists>x. adapters_at st q = Some x \<and> ad_handle x = h)"
        using assms(1) l by (simp add: refs_ok_def handles_ok_def tb assms(8))
      then show ?thesis using assms(2) by (cases "q = a") (auto simp: tb)
    qed
  qed
  ultimately show ?thesis using assms(1,6) by (simp add: refs_ok_def tb)
qed
section \<open>Every operation keeps the invariant\<close>

lemma load_model_inv:
  assumes "refs_inv (st, h)" "ref_ok (Load_Model n pr e mem) (st, h)"
  shows "refs_inv (run_ref (Load_Model n pr e mem) (st, h))"
proof -
  obtain ctx err where e: "e = (ctx, err)" by (cases e)
  show ?thesis
  proof (cases "n \<ge> 64 \<or> \<not> pr \<or> ctx = None")
    case True
    then show ?thesis using assms(1) by (cases ctx) (auto simp: model_load_def e)
  next
    case False
    then obtain x where x: "ctx = Some x" by auto
    have fresh: "x \<notin> loaded_models st" using assms(2) by (simp add: e x)
    show ?thesis
    proof (cases mem)
      case None
      then show ?thesis using assms(1) False fresh by (simp add: model_load_def e x Let_def)
    next
      case (Some p)
      have p: "p \<noteq> 0" "models st p = None" using assms(2) Some by simp_all
      have ok: "refs_ok st (model_count (st, h)) (of_adapter h)" using assms(1) by (simp add: refs_inv_def)
      then have t: "table_inv (table st)" by (simp add: refs_ok_def)
      obtain hd t' where r: "register_ptr (kind_code Model) p (table st) = (hd, t')" by fastforce
      note reg = register_new [OF t p(1) disjI1 [OF refl] r]
      show ?thesis
      proof (cases "hd = 0")
        case True
        then have "t' = table st" using reg by simp
        then show ?thesis using assms(1) False fresh r True Some by (simp add: model_load_def e x Let_def del: kind_code.simps)
      next
        case hd: False
        let ?m = "\<lparr>md_handle = hd, md_refcount = 1, md_ctx = x\<rparr>"
        have "refs_ok (put_model p ?m t' st) ((model_count (st, h))(p := 1)) (of_adapter h)"
          by (rule put_model_ok [OF ok p(2)]) (use reg hd fresh in simp_all)
        moreover have "users p st = {}"
        proof -
          have "ad_model a \<noteq> p" if "adapters_at st b = Some a" for a b
            using ok p(2) that unfolding refs_ok_def adapters_ok_def by metis
          then show ?thesis by (auto simp: users_def)
        qed
        then have "(model_count (st, h))(p := 1) = model_count (put_model p ?m t' st, h\<lparr>of_model := (of_model h)(p := 1)\<rparr>)"
          by (rule_tac ext) (auto simp: model_count_def put_model_def)
        moreover have "run_ref (Load_Model n pr e mem) (st, h) = (put_model p ?m t' st, h\<lparr>of_model := (of_model h)(p := 1)\<rparr>)"
          using False r hd Some by (simp add: model_load_def e x Let_def put_model_def del: kind_code.simps)
        ultimately show ?thesis by (simp add: refs_inv_def)
      qed
    qed
  qed
qed

lemma model_retain_users [simp]: "users q (model_retain p st) = users q st" "adapters_at (model_retain p st) = adapters_at st"
  "table (model_retain p st) = table st" "loaded_adapters (model_retain p st) = loaded_adapters st"
  by (simp_all add: model_retain_def users_def split: option.splits)

lemma ctx_of_retain [simp]: "ctx_of q (model_retain p st) = ctx_of q st"
  by (simp add: model_retain_def ctx_of_def split: option.splits)

lemma take_drop_model:
  assumes "models st p = Some m" "md_refcount m \<noteq> 0"
  shows "model_release p (model_retain p st) = st"
  using assms by (simp add: model_retain_def model_release_def fun_upd_idem)

lemma load_adapter_inv:
  assumes "refs_inv (st, h)" "ref_ok (Load_Adapter p ok path ops e mem pm) (st, h)"
  shows "refs_inv (run_ref (Load_Adapter p ok path ops e mem pm) (st, h))"
proof -
  obtain ctx err where e: "e = (ctx, err)" by (cases e)
  have inv: "refs_ok st (model_count (st, h)) (of_adapter h)" using assms(1) by (simp add: refs_inv_def)
  have held: "0 < model_count (st, h) p" "model_count (st, h) p < 2 ^ 32 - 1" using assms(2) by (simp_all add: model_count_def)
  obtain m where m: "models st p = Some m"
    using inv held(1) by (cases "models st p") (auto simp: refs_ok_def models_ok_def)
  show ?thesis
  proof (cases "p = 0 \<or> \<not> ok \<or> path = [] \<or> \<not> ops \<or> ctx = None")
    case True
    then show ?thesis using assms(1) by (cases ctx) (auto simp: adapter_load_def e)
  next
    case False
    then obtain x where x: "ctx = Some x" by auto
    have fresh: "(ctx_of p st, x) \<notin> loaded_adapters st" using assms(2) by (simp add: e x)
    show ?thesis
    proof (cases "mem = None \<or> \<not> pm")
      case True
      then show ?thesis using assms(1) False fresh by (cases mem) (auto simp: adapter_load_def e x Let_def)
    next
      case mp: False
      then obtain a where a: "mem = Some a" by auto
      have an: "a \<noteq> 0" "adapters_at st a = None" using assms(2) a by simp_all
      let ?r = "model_retain p st"
      have okr: "refs_ok ?r ((model_count (st, h))(p := model_count (st, h) p + 1)) (of_adapter h)"
        by (rule model_retain_ok [OF inv _ held(2)]) (simp add: m)
      then have t: "table_inv (table ?r)" by (simp add: refs_ok_def)
      obtain hd t' where r: "register_ptr (kind_code Adapter) a (table ?r) = (hd, t')" by fastforce
      note reg = register_new [OF t an(1) disjI2 [OF refl] r]
      have lo: "model_retain p (st\<lparr>loaded_adapters := L\<rparr>) = ?r\<lparr>loaded_adapters := L\<rparr>" for L
        by (simp add: model_retain_def split: option.splits)
      have rel: "?r\<lparr>loaded_adapters := loaded_adapters st\<rparr> = ?r" "?r\<lparr>table := table st\<rparr> = ?r"
        by (simp_all add: model_retain_def split: option.splits)
      show ?thesis
      proof (cases "hd = 0")
        case True
        then have "t' = table st" using reg by simp
        moreover have "md_refcount m \<noteq> 0"
        proof -
          have "0 < unat (md_refcount m)" using inv m unfolding refs_ok_def models_ok_def by metis
          then show ?thesis by auto
        qed
        ultimately have "adapter_load p ok path ops e mem pm st = (ASTRAL_E_BUSY, None, st)"
          using False r True a mp fresh take_drop_model [OF m]
          by (simp add: adapter_load_def e x Let_def lo rel del: kind_code.simps)
        then show ?thesis using assms(1) by simp
      next
        case hd: False
        have mr: "models ?r p \<noteq> None" by (simp add: model_retain_def m)
        let ?x = "\<lparr>ad_handle = hd, ad_model = p, ad_ctx = x, ad_path = path, ad_refcount = 1\<rparr>"
        have ok2: "refs_ok (put_adapter a ?x t' ?r) ((model_count (st, h))(p := model_count (st, h) p + 1)) ((of_adapter h)(a := 1))"
          by (rule put_adapter_ok [OF okr]) (use reg hd fresh an mr in \<open>simp_all add: adapter_ctx_def\<close>)
        have run: "run_ref (Load_Adapter p ok path ops e mem pm) (st, h) =
            (put_adapter a ?x t' ?r, h\<lparr>of_adapter := (of_adapter h)(a := 1)\<rparr>)"
          using False r hd a mp
          by (simp add: adapter_load_def e x Let_def lo put_adapter_def adapter_ctx_def del: kind_code.simps)
        have u: "users q (put_adapter a ?x t' ?r) = (if q = p then insert a (users p st) else users q st)" for q
          using an(2) by (auto simp: users_def put_adapter_def)
        have "a \<notin> users p st" "finite (users p st)" using an(2) inv finite_users by (auto simp: users_def refs_ok_def)
        then have "(model_count (st, h))(p := model_count (st, h) p + 1) =
            model_count (put_adapter a ?x t' ?r, h\<lparr>of_adapter := (of_adapter h)(a := 1)\<rparr>)"
          by (rule_tac ext) (simp add: model_count_def u)
        then show ?thesis using ok2 unfolding run by (simp add: refs_inv_def)
      qed
    qed
  qed
qed

lemma take_model_inv:
  assumes "refs_inv (st, h)" "ref_ok (Take_Model p) (st, h)"
  shows "refs_inv (run_ref (Take_Model p) (st, h))"
proof -
  have inv: "refs_ok st (model_count (st, h)) (of_adapter h)" using assms(1) by (simp add: refs_inv_def)
  have "(model_count (st, h))(p := model_count (st, h) p + 1) =
      model_count (model_retain p st, h\<lparr>of_model := (of_model h)(p := of_model h p + 1)\<rparr>)"
    by (rule ext) (simp add: model_count_def)
  moreover have "refs_ok (model_retain p st) ((model_count (st, h))(p := model_count (st, h) p + 1)) (of_adapter h)"
    by (rule model_retain_ok [OF inv]) (use assms(2) in \<open>simp_all add: model_count_def\<close>)
  ultimately show ?thesis by (simp add: refs_inv_def)
qed

lemma drop_model_inv:
  assumes "refs_inv (st, h)" "ref_ok (Drop_Model p) (st, h)"
  shows "refs_inv (run_ref (Drop_Model p) (st, h))"
proof -
  have inv: "refs_ok st (model_count (st, h)) (of_adapter h)" using assms(1) by (simp add: refs_inv_def)
  have held: "0 < of_model h p" using assms(2) by simp
  have fin: "finite (users p st)" using inv finite_users by (simp add: refs_ok_def)
  have "(model_count (st, h))(p := model_count (st, h) p - 1) =
      model_count (model_release p st, h\<lparr>of_model := (of_model h)(p := of_model h p - 1)\<rparr>)"
    using held by (intro ext) (simp add: model_count_def model_release_adapters(3))
  moreover have "refs_ok (model_release p st) ((model_count (st, h))(p := model_count (st, h) p - 1)) (of_adapter h)"
  proof (rule model_release_ok [OF inv])
    show "0 < model_count (st, h) p" using held by (simp add: model_count_def)
    assume "model_count (st, h) p = 1"
    then have "card (users p st) = 0" using held by (simp add: model_count_def)
    then show "users p st = {}" using fin by simp
  qed
  ultimately show ?thesis by (simp add: refs_inv_def)
qed

lemma adapter_recount:
  assumes "refs_ok st c d" "adapters_at st a = Some x" "unat n = k" "0 < k"
  shows "refs_ok (st\<lparr>adapters_at := (adapters_at st)(a \<mapsto> x\<lparr>ad_refcount := n\<rparr>)\<rparr>) c (d(a := k))"
proof -
  let ?x = "x\<lparr>ad_refcount := n\<rparr>"
  let ?st = "st\<lparr>adapters_at := (adapters_at st)(a \<mapsto> ?x)\<rparr>"
  have ctx: "adapter_ctx ?st = adapter_ctx st" by (rule ext) (simp add: adapter_ctx_def ctx_of_def)
  have same: "adapter_ctx st ?x = adapter_ctx st x" by (simp add: adapter_ctx_def)
  have "models_ok ?st c" using assms(1) by (simp add: refs_ok_def models_ok_def)
  moreover have "adapters_ok ?st (d(a := k))" using assms by (auto simp: refs_ok_def adapters_ok_def)
  moreover have "model_ctxs ?st" using assms(1) by (simp add: refs_ok_def model_ctxs_def)
  moreover have "adapter_ctxs ?st"
  proof -
    have "loaded_adapters st = ctxs (adapter_ctx st) (adapters_at st)" using assms(1) unfolding refs_ok_def adapter_ctxs_def by blast
    then have "loaded_adapters ?st = ctxs (adapter_ctx ?st) (adapters_at ?st)"
      unfolding ctx using ctxs_update [of "adapters_at st" a x "adapter_ctx st" ?x, OF assms(2) same] by simp
    moreover have "b = e" if "adapters_at ?st b = Some y" "adapters_at ?st e = Some z" "adapter_ctx ?st y = adapter_ctx ?st z" for b e y z
    proof -
      have "\<exists>w. adapters_at st f = Some w \<and> adapter_ctx st w = adapter_ctx st v" if "adapters_at ?st f = Some v" for f v
        using that assms(2) same by (cases "f = a") auto
      from this [OF that(1)] this [OF that(2)] show ?thesis
        using that(3) assms(1) unfolding refs_ok_def adapter_ctxs_def ctx by metis
    qed
    ultimately show ?thesis unfolding adapter_ctxs_def by blast
  qed
  moreover have "handles_ok ?st"
  proof (unfold handles_ok_def, intro allI impI)
    fix h q assume "live (table ?st) h = Some q"
    then have "(\<exists>n. models st q = Some n \<and> md_handle n = h) \<or> (\<exists>x. adapters_at st q = Some x \<and> ad_handle x = h)"
      using assms(1) by (simp add: refs_ok_def handles_ok_def)
    then show "(\<exists>n. models ?st q = Some n \<and> md_handle n = h) \<or> (\<exists>x. adapters_at ?st q = Some x \<and> ad_handle x = h)"
      using assms(2) by (cases "q = a") auto
  qed
  ultimately show ?thesis using assms(1) by (simp add: refs_ok_def)
qed

lemma users_adapter_update:
  assumes "adapters_at st a = Some x"
  shows "users p (st\<lparr>adapters_at := (adapters_at st)(a \<mapsto> x\<lparr>ad_refcount := n\<rparr>)\<rparr>) = users p st"
  using assms by (auto simp: users_def split: if_splits)

lemma take_adapter_inv:
  assumes "refs_inv (st, h)" "ref_ok (Take_Adapter a) (st, h)"
  shows "refs_inv (run_ref (Take_Adapter a) (st, h))"
proof -
  have inv: "refs_ok st (model_count (st, h)) (of_adapter h)" using assms(1) by (simp add: refs_inv_def)
  obtain x where x: "adapters_at st a = Some x" using assms(2) by auto
  have u: "unat (ad_refcount x) = of_adapter h a" using inv x unfolding refs_ok_def adapters_ok_def by blast
  have "unat (ad_refcount x + 1) = of_adapter h a + 1"
    using u assms(2) unat_add_lem [of "ad_refcount x" 1] by simp
  from adapter_recount [OF inv x this]
  have "refs_ok (adapter_retain a st) (model_count (st, h)) ((of_adapter h)(a := of_adapter h a + 1))"
    by (simp add: adapter_retain_def x)
  moreover have "model_count (adapter_retain a st, h\<lparr>of_adapter := (of_adapter h)(a := of_adapter h a + 1)\<rparr>) = model_count (st, h)"
    by (intro ext) (simp add: model_count_def adapter_retain_def x users_adapter_update)
  ultimately show ?thesis by (simp add: refs_inv_def)
qed

lemma drop_adapter_inv:
  assumes "refs_inv (st, h)" "ref_ok (Drop_Adapter a) (st, h)"
  shows "refs_inv (run_ref (Drop_Adapter a) (st, h))"
proof -
  have inv: "refs_ok st (model_count (st, h)) (of_adapter h)" using assms(1) by (simp add: refs_inv_def)
  have held: "0 < of_adapter h a" using assms(2) by simp
  obtain x where x: "adapters_at st a = Some x"
    using inv held by (cases "adapters_at st a") (auto simp: refs_ok_def adapters_ok_def)
  have u: "unat (ad_refcount x) = of_adapter h a" using inv x unfolding refs_ok_def adapters_ok_def by blast
  let ?h = "h\<lparr>of_adapter := (of_adapter h)(a := of_adapter h a - 1)\<rparr>"
  show ?thesis
  proof (cases "ad_refcount x = 1")
    case False
    then have "1 < of_adapter h a" using u held by (metis One_nat_def Suc_lessI unat_1 unat_eqI)
    moreover have "unat (ad_refcount x - 1) = of_adapter h a - 1"
    proof -
      have "1 \<le> ad_refcount x" using u held by (simp add: word_le_nat_alt)
      then show ?thesis using u by (simp add: unat_sub)
    qed
    ultimately have "refs_ok (adapter_release a st) (model_count (st, h)) ((of_adapter h)(a := of_adapter h a - 1))"
      using adapter_recount [OF inv x, of "ad_refcount x - 1" "of_adapter h a - 1"] False by (simp add: adapter_release_def x)
    moreover have "model_count (adapter_release a st, ?h) = model_count (st, h)"
      using False by (intro ext) (simp add: model_count_def adapter_release_def x users_adapter_update)
    ultimately show ?thesis by (simp add: refs_inv_def)
  next
    case True
    then have one: "of_adapter h a = 1" using u by simp
    let ?p = "ad_model x" and ?st = "drop_adapter a x st"
    have fin: "finite (dom (adapters_at st))" using inv by (simp add: refs_ok_def)
    note ud = users_drop [OF x fin]
    have d: "refs_ok ?st (model_count (st, h)) ((of_adapter h)(a := 0))" by (rule drop_adapter_ok [OF inv x])
    have card: "card (users ?p st) = card (users ?p ?st) + 1"
      unfolding ud(1) using card.remove [OF finite_users [OF fin] ud(3)] by simp
    have r: "refs_ok (model_release ?p ?st) ((model_count (st, h))(?p := model_count (st, h) ?p - 1)) ((of_adapter h)(a := 0))"
    proof (rule model_release_ok [OF d])
      show "0 < model_count (st, h) ?p" using card by (simp add: model_count_def)
      assume "model_count (st, h) ?p = 1"
      then have "card (users ?p ?st) = 0" using card by (simp add: model_count_def)
      moreover have "finite (users ?p ?st)" using finite_users [OF fin] ud(1) by simp
      ultimately show "users ?p ?st = {}" by simp
    qed
    have "(model_count (st, h))(?p := model_count (st, h) ?p - 1) = model_count (model_release ?p ?st, ?h)"
    proof
      fix q
      show "((model_count (st, h))(?p := model_count (st, h) ?p - 1)) q = model_count (model_release ?p ?st, ?h) q"
      proof (cases "q = ?p")
        case True
        then show ?thesis using card by (simp add: model_count_def model_release_adapters(3))
      next
        case False
        then show ?thesis using ud(2) [OF False] by (simp add: model_count_def model_release_adapters(3))
      qed
    qed
    then show ?thesis using r one adapter_release_last [OF x True] by (simp add: refs_inv_def)
  qed
qed

lemma run_ref_inv:
  assumes "refs_inv s" "ref_ok op s"
  shows "refs_inv (run_ref op s)"
proof -
  obtain st h where s: "s = (st, h)" by (cases s)
  note a = assms [unfolded s]
  show ?thesis unfolding s
  proof (cases op)
    case (Load_Model n pr e mem)
    show "refs_inv (run_ref op (st, h))" unfolding Load_Model by (rule load_model_inv [OF a(1) a(2) [unfolded Load_Model]])
  next
    case (Take_Model p)
    show "refs_inv (run_ref op (st, h))" unfolding Take_Model by (rule take_model_inv [OF a(1) a(2) [unfolded Take_Model]])
  next
    case (Drop_Model p)
    show "refs_inv (run_ref op (st, h))" unfolding Drop_Model by (rule drop_model_inv [OF a(1) a(2) [unfolded Drop_Model]])
  next
    case (Load_Adapter p ok path ops e mem pm)
    show "refs_inv (run_ref op (st, h))" unfolding Load_Adapter by (rule load_adapter_inv [OF a(1) a(2) [unfolded Load_Adapter]])
  next
    case (Take_Adapter p)
    show "refs_inv (run_ref op (st, h))" unfolding Take_Adapter by (rule take_adapter_inv [OF a(1) a(2) [unfolded Take_Adapter]])
  next
    case (Drop_Adapter p)
    show "refs_inv (run_ref op (st, h))" unfolding Drop_Adapter by (rule drop_adapter_inv [OF a(1) a(2) [unfolded Drop_Adapter]])
  qed
qed

section \<open>Runs\<close>

fun run_ref_ops :: "ref_op list \<Rightarrow> ref_store \<times> held \<Rightarrow> ref_store \<times> held" where
  "run_ref_ops [] s = s"
| "run_ref_ops (op # ops) s = run_ref_ops ops (run_ref op s)"

fun ref_ops_ok :: "ref_op list \<Rightarrow> ref_store \<times> held \<Rightarrow> bool" where
  "ref_ops_ok [] s \<longleftrightarrow> True"
| "ref_ops_ok (op # ops) s \<longleftrightarrow> ref_ok op s \<and> ref_ops_ok ops (run_ref op s)"

definition ref_store_new :: "handle_table \<Rightarrow> ref_store \<times> held" where
  "ref_store_new t =
     (\<lparr>table = t, models = (\<lambda>_. None), adapters_at = (\<lambda>_. None), loaded_models = {}, loaded_adapters = {}\<rparr>,
      \<lparr>of_model = (\<lambda>_. 0), of_adapter = (\<lambda>_. 0)\<rparr>)"

lemma ref_store_new_inv:
  assumes "table_inv t" "live t = Map.empty"
  shows "refs_inv (ref_store_new t)"
  using assms by (simp add: refs_inv_def ref_store_new_def refs_ok_def models_ok_def adapters_ok_def model_ctxs_def
      adapter_ctxs_def handles_ok_def model_count_def users_def ctxs_def)

lemma run_ref_ops_inv: "refs_inv s \<Longrightarrow> ref_ops_ok ops s \<Longrightarrow> refs_inv (run_ref_ops ops s)"
proof (induction ops arbitrary: s)
  case (Cons op ops)
  have "refs_inv (run_ref op s)" using run_ref_inv [of s op] Cons.prems by simp
  then show ?case using Cons.IH [of "run_ref op s"] Cons.prems by simp
qed simp

lemma nothing_held:
  assumes "refs_inv (st, h)" "\<forall>p. of_model h p = 0" "\<forall>a. of_adapter h a = 0"
  shows "models st = (\<lambda>_. None) \<and> adapters_at st = (\<lambda>_. None) \<and> loaded_models st = {} \<and> loaded_adapters st = {} \<and>
    live (table st) = Map.empty"
proof -
  have inv: "refs_ok st (model_count (st, h)) (of_adapter h)" using assms(1) by (simp add: refs_inv_def)
  have a: "adapters_at st = (\<lambda>_. None)"
  proof
    fix a show "adapters_at st a = None"
    proof (cases "adapters_at st a")
      case (Some x)
      then have "0 < of_adapter h a" using inv unfolding refs_ok_def adapters_ok_def by blast
      then show ?thesis using assms(3) by simp
    qed
  qed
  have m: "models st = (\<lambda>_. None)"
  proof
    fix p show "models st p = None"
    proof (cases "models st p")
      case (Some x)
      then have "0 < model_count (st, h) p" using inv unfolding refs_ok_def models_ok_def by blast
      then show ?thesis using assms(2) a by (simp add: model_count_def users_def)
    qed
  qed
  have "live (table st) hd = None" for hd
    using inv a m by (cases "live (table st) hd") (auto simp: refs_ok_def handles_ok_def)
  then show ?thesis using inv a m by (auto simp: refs_ok_def model_ctxs_def adapter_ctxs_def ctxs_def)
qed

text \<open>C37: Whatever the clients do that take and give back references, a model or an adapter on which a
  reference is held is there, its handle leads to it and the backend has it loaded, an adapter's
  model with it; and when no reference is held any more, every object is freed, every context is
  unloaded and every handle is dead.\<close>
theorem references_keep_alive:
  assumes "table_inv t" "live t = Map.empty" "ref_ops_ok ops (ref_store_new t)" "run_ref_ops ops (ref_store_new t) = (st, h)"
  shows "(\<forall>p. 0 < of_model h p \<longrightarrow>
      (\<exists>m. models st p = Some m \<and> md_ctx m \<in> loaded_models st \<and> live (table st) (md_handle m) = Some p)) \<and>
    (\<forall>a. 0 < of_adapter h a \<longrightarrow>
      (\<exists>x m. adapters_at st a = Some x \<and> models st (ad_model x) = Some m \<and> (md_ctx m, ad_ctx x) \<in> loaded_adapters st \<and>
         md_ctx m \<in> loaded_models st \<and> live (table st) (ad_handle x) = Some a)) \<and>
    ((\<forall>p. of_model h p = 0) \<and> (\<forall>a. of_adapter h a = 0) \<longrightarrow>
      models st = (\<lambda>_. None) \<and> adapters_at st = (\<lambda>_. None) \<and> loaded_models st = {} \<and> loaded_adapters st = {} \<and>
      live (table st) = Map.empty)"
proof -
  have i: "refs_inv (st, h)" using run_ref_ops_inv [OF ref_store_new_inv [OF assms(1,2)] assms(3)] assms(4) by simp
  then have inv: "refs_ok st (model_count (st, h)) (of_adapter h)" by (simp add: refs_inv_def)
  have lm: "loaded_models st = ctxs md_ctx (models st)" and la: "loaded_adapters st = ctxs (adapter_ctx st) (adapters_at st)"
    using inv unfolding refs_ok_def model_ctxs_def adapter_ctxs_def by blast+
  have model: "md_ctx m \<in> loaded_models st \<and> live (table st) (md_handle m) = Some p" if "models st p = Some m" for p m
    using inv that unfolding lm ctxs_def refs_ok_def models_ok_def by blast
  show ?thesis
  proof (intro conjI allI impI)
    fix p assume p: "0 < of_model h p"
    have "models st p \<noteq> None"
    proof
      assume "models st p = None"
      then have "model_count (st, h) p = 0" using inv unfolding refs_ok_def models_ok_def by blast
      then show False using p by (simp add: model_count_def)
    qed
    then show "\<exists>m. models st p = Some m \<and> md_ctx m \<in> loaded_models st \<and> live (table st) (md_handle m) = Some p"
      using model by blast
  next
    fix a assume p: "0 < of_adapter h a"
    have "adapters_at st a \<noteq> None" using inv p unfolding refs_ok_def adapters_ok_def by (metis less_irrefl)
    then obtain x where x: "adapters_at st a = Some x" by blast
    then have "models st (ad_model x) \<noteq> None" "live (table st) (ad_handle x) = Some a"
      using inv unfolding refs_ok_def adapters_ok_def by blast+
    moreover from this obtain m where m: "models st (ad_model x) = Some m" by blast
    moreover have "(md_ctx m, ad_ctx x) \<in> loaded_adapters st"
    proof -
      have "adapter_ctx st x = (md_ctx m, ad_ctx x)" by (simp add: adapter_ctx_def ctx_of_def m)
      then show ?thesis unfolding la ctxs_def using x by (metis (mono_tags, lifting) mem_Collect_eq)
    qed
    ultimately show "\<exists>x m. adapters_at st a = Some x \<and> models st (ad_model x) = Some m \<and> (md_ctx m, ad_ctx x) \<in> loaded_adapters st \<and>
        md_ctx m \<in> loaded_models st \<and> live (table st) (ad_handle x) = Some a" using x model by blast
  qed (use nothing_held [OF i] in blast)+
qed

section \<open>Witness\<close>

definition demo_ref_ops :: "ref_op list" where
  "demo_ref_ops = [Load_Model 0 True (Some 3, ASTRAL_OK) (Some 8), Load_Adapter 8 True [97] True (Some 5, ASTRAL_OK) (Some 16) True,
     Drop_Model 8]"

lemma live_small: "live (handle_table_new 2) = Map.empty"
  by (rule ext) (auto simp: live_def lookup_def handle_table_new_def kMaxHandles_def Let_def nth_Cons' numeral_2_eq_2)

lemma reg1: "fst (register_ptr 1 8 (handle_table_new 2)) \<noteq> 0"
  by code_simp

lemma reg2: "fst (register_ptr 4 16 (snd (register_ptr 1 8 (handle_table_new 2)))) \<noteq> 0"
  by code_simp

theorem references_keep_alive_witness:
  "\<exists>st h x m. run_ref_ops demo_ref_ops (ref_store_new (handle_table_new 2)) = (st, h) \<and> of_model h 8 = 0 \<and> of_adapter h 16 = 1 \<and>
     adapters_at st 16 = Some x \<and> models st (ad_model x) = Some m \<and> md_ctx m \<in> loaded_models st"
proof -
  let ?t = "handle_table_new 2"
  obtain st h where r: "run_ref_ops demo_ref_ops (ref_store_new ?t) = (st, h)" by fastforce
  have t: "table_inv ?t" by (rule table_inv_new) simp_all
  obtain h1 t1 where r1: "register_ptr 1 8 ?t = (h1, t1)" by fastforce
  have n1: "h1 \<noteq> 0" using r1 reg1 by simp
  obtain h2 t2 where r2: "register_ptr 4 16 t1 = (h2, t2)" by fastforce
  have n2: "h2 \<noteq> 0" using r1 r2 reg2 by simp
  have ok: "ref_ops_ok demo_ref_ops (ref_store_new ?t)"
    by (simp add: demo_ref_ops_def ref_store_new_def model_load_def r1 n1 Let_def users_def adapter_load_def model_retain_def r2 n2 ctx_of_def)
  have held: "of_model h 8 = 0" "of_adapter h 16 = 1"
    using r by (auto simp: demo_ref_ops_def ref_store_new_def model_load_def r1 n1 Let_def adapter_load_def model_retain_def r2 n2 ctx_of_def)
  have "0 < of_adapter h 16" using held(2) by simp
  with references_keep_alive [OF t live_small ok r] obtain x m where
    "adapters_at st 16 = Some x" "models st (ad_model x) = Some m" "md_ctx m \<in> loaded_models st" by blast
  then show ?thesis using held r by blast
qed

end
