(* ===== verification/Session_Settings.thy ===== *)
theory Session_Settings
  imports Session_Save Model_Refs Toolset_Registry
begin

unbundle bit_operations_syntax

text \<open>
  The settings of a session in \<open>src/src/inference/session.cpp\<close>: adapters, grammar, toolset, slot and
  log-probabilities. The list of adapters owns one reference for each of its entries, taken and
  given back in the store of \<open>Model_Refs\<close>; the toolset is counted in the state of
  \<open>Toolset_Registry\<close>. The provider's operations are parameters; one it does not have is \<open>None\<close>, and
  each gets the session's context, which may be null.
\<close>

definition ASTRAL_SESSION_ADAPTERS_MAX :: nat where "ASTRAL_SESSION_ADAPTERS_MAX = 8"

record 'b control_ops =
  co_adapter_clear :: "('b option \<Rightarrow> astral_err \<times> 'b option) option"
  co_adapter_add :: "('b option \<Rightarrow> nat \<Rightarrow> u32 \<Rightarrow> astral_err \<times> 'b option) option"
  co_grammar_gbnf :: "('b option \<Rightarrow> u8 list \<Rightarrow> u8 list \<Rightarrow> astral_err \<times> 'b option) option"
  co_grammar_json :: "('b option \<Rightarrow> u8 list \<Rightarrow> astral_err \<times> 'b option) option"
  co_grammar_clear :: "('b option \<Rightarrow> astral_err \<times> 'b option) option"
  co_apply_grammar :: bool
  co_set_slot :: "('b option \<Rightarrow> u32 \<Rightarrow> astral_err \<times> 'b option) option"

section \<open>Log-probabilities and slot\<close>

definition session_set_logprobs :: "u32 \<Rightarrow> ('b, 'm) session option \<Rightarrow> astral_err \<times> ('b, 'm) session option" where
  "session_set_logprobs n session =
     (case session of
        None \<Rightarrow> (ASTRAL_E_INVALID, None)
      | Some s \<Rightarrow>
          if state s = Decoding then (ASTRAL_E_STATE, session)
          else (ASTRAL_OK,
                Some (s\<lparr>logprobs := (if n > ASTRAL_LOGPROBS_MAX then ASTRAL_LOGPROBS_MAX else n), meta := spsc_reset (meta s)\<rparr>)))"

definition session_set_slot :: "'b control_ops \<Rightarrow> u32 \<Rightarrow> ('b, 'm) session option \<Rightarrow> astral_err \<times> ('b, 'm) session option" where
  "session_set_slot ops n session =
     (case session of
        None \<Rightarrow> (ASTRAL_E_INVALID, None)
      | Some s \<Rightarrow>
          if state s = Decoding then (ASTRAL_E_STATE, session)
          else
            (case co_set_slot ops of
               None \<Rightarrow> (ASTRAL_E_UNSUPPORTED, session)
             | Some f \<Rightarrow>
                 (case f (backend_ctx s) n of
                    (err, b) \<Rightarrow> (err, Some (if err = ASTRAL_OK then s\<lparr>backend_ctx := b, slot_id := n\<rparr> else s\<lparr>backend_ctx := b\<rparr>)))))"

section \<open>Grammar\<close>

definition session_set_grammar_gbnf ::
  "'b control_ops \<Rightarrow> u8 list \<Rightarrow> u8 list \<Rightarrow> ('b, 'm) session option \<Rightarrow> astral_err \<times> ('b, 'm) session option" where
  "session_set_grammar_gbnf ops gbnf root session =
     (case session of
        None \<Rightarrow> (ASTRAL_E_INVALID, None)
      | Some s \<Rightarrow>
          if gbnf = [] then (ASTRAL_E_INVALID, session)
          else if state s = Decoding then (ASTRAL_E_STATE, session)
          else
            (case (co_grammar_gbnf ops, co_grammar_clear ops) of
               (Some f, Some _) \<Rightarrow>
                 if \<not> co_apply_grammar ops then (ASTRAL_E_UNSUPPORTED, session)
                 else
                   (case f (backend_ctx s) gbnf (if root = [] then [0x72, 0x6F, 0x6F, 0x74] else root) of
                      (err, b) \<Rightarrow> (err, Some (s\<lparr>backend_ctx := b\<rparr>)))
             | _ \<Rightarrow> (ASTRAL_E_UNSUPPORTED, session)))"

definition session_set_grammar_json_schema ::
  "'b control_ops \<Rightarrow> u8 list \<Rightarrow> ('b, 'm) session option \<Rightarrow> astral_err \<times> ('b, 'm) session option" where
  "session_set_grammar_json_schema ops schema session =
     (case session of
        None \<Rightarrow> (ASTRAL_E_INVALID, None)
      | Some s \<Rightarrow>
          if schema = [] then (ASTRAL_E_INVALID, session)
          else if state s = Decoding then (ASTRAL_E_STATE, session)
          else
            (case (co_grammar_json ops, co_grammar_clear ops) of
               (Some f, Some _) \<Rightarrow>
                 if \<not> co_apply_grammar ops then (ASTRAL_E_UNSUPPORTED, session)
                 else (case f (backend_ctx s) schema of (err, b) \<Rightarrow> (err, Some (s\<lparr>backend_ctx := b\<rparr>)))
             | _ \<Rightarrow> (ASTRAL_E_UNSUPPORTED, session)))"

definition session_clear_grammar :: "'b control_ops \<Rightarrow> ('b, 'm) session option \<Rightarrow> astral_err \<times> ('b, 'm) session option" where
  "session_clear_grammar ops session =
     (case session of
        None \<Rightarrow> (ASTRAL_E_INVALID, None)
      | Some s \<Rightarrow>
          if state s = Decoding then (ASTRAL_E_STATE, session)
          else
            (case co_grammar_clear ops of
               None \<Rightarrow> (ASTRAL_E_UNSUPPORTED, session)
             | Some f \<Rightarrow> (case f (backend_ctx s) of (err, b) \<Rightarrow> (err, Some (s\<lparr>backend_ctx := b\<rparr>)))))"

section \<open>Toolset\<close>

definition session_set_toolset ::
  "nat option \<Rightarrow> u32 \<Rightarrow> ('b, 'm) session option \<Rightarrow> tool_state \<Rightarrow> astral_err \<times> ('b, 'm) session option \<times> tool_state" where
  "session_set_toolset toolset mode session ts =
     (case (session, toolset) of
        (Some s, Some p) \<Rightarrow>
          if \<not> choice_mode_valid mode then (ASTRAL_E_INVALID, session, ts)
          else if state s = Decoding then (ASTRAL_E_STATE, session, ts)
          else
            let ts1 = toolset_retain p ts
            in (ASTRAL_OK, Some (s\<lparr>toolset_ref := Some p, tool_choice := mode\<rparr>),
                case toolset_ref s of None \<Rightarrow> ts1 | Some old \<Rightarrow> toolset_release old ts1)
      | _ \<Rightarrow> (ASTRAL_E_INVALID, session, ts))"

definition session_clear_toolset ::
  "('b, 'm) session option \<Rightarrow> tool_state \<Rightarrow> astral_err \<times> ('b, 'm) session option \<times> tool_state" where
  "session_clear_toolset session ts =
     (case session of
        None \<Rightarrow> (ASTRAL_E_INVALID, None, ts)
      | Some s \<Rightarrow>
          if state s = Decoding then (ASTRAL_E_STATE, session, ts)
          else (ASTRAL_OK, Some (s\<lparr>toolset_ref := None, tool_choice := 0\<rparr>),
                case toolset_ref s of None \<Rightarrow> ts | Some old \<Rightarrow> toolset_release old ts))"

section \<open>Adapters\<close>

definition session_adapter_refs_clear :: "('b, 'm) session \<Rightarrow> ref_store \<Rightarrow> ('b, 'm) session \<times> ref_store" where
  "session_adapter_refs_clear s st =
     (s\<lparr>adapters := []\<rparr>, fold (\<lambda>e. adapter_release (ae_ref e)) (adapters s) st)"

definition session_adapters_clear ::
  "'b control_ops \<Rightarrow> ('b, 'm) session option \<Rightarrow> ref_store \<Rightarrow> astral_err \<times> ('b, 'm) session option \<times> ref_store" where
  "session_adapters_clear ops session st =
     (case session of
        None \<Rightarrow> (ASTRAL_E_INVALID, None, st)
      | Some s \<Rightarrow>
          if state s = Decoding then (ASTRAL_E_STATE, session, st)
          else
            (case (co_adapter_clear ops, co_adapter_add ops) of
               (Some clear, Some _) \<Rightarrow>
                 (case clear (backend_ctx s) of
                    (err, b) \<Rightarrow>
                      if err \<noteq> ASTRAL_OK then (err, Some (s\<lparr>backend_ctx := b\<rparr>), st)
                      else (case session_adapter_refs_clear (s\<lparr>backend_ctx := b\<rparr>) st of (s1, st1) \<Rightarrow> (ASTRAL_OK, Some s1, st1)))
             | _ \<Rightarrow> (ASTRAL_E_UNSUPPORTED, session, st)))"

text \<open>\<open>model\<close> is the session's model.\<close>

definition session_adapters_add ::
  "'b control_ops \<Rightarrow> nat \<Rightarrow> u64 \<Rightarrow> u32 \<Rightarrow> ('b, 'm) session option \<Rightarrow> ref_store \<Rightarrow>
   astral_err \<times> ('b, 'm) session option \<times> ref_store" where
  "session_adapters_add ops model handle scale session st =
     (case session of
        None \<Rightarrow> (ASTRAL_E_INVALID, None, st)
      | Some s \<Rightarrow>
          if handle = 0 then (ASTRAL_E_INVALID, session, st)
          else if state s = Decoding then (ASTRAL_E_STATE, session, st)
          else if length (adapters s) \<ge> ASTRAL_SESSION_ADAPTERS_MAX then (ASTRAL_E_NOMEM, session, st)
          else
            (case (co_adapter_clear ops, co_adapter_add ops) of
               (Some _, Some add) \<Rightarrow>
                 let a = lookup (table st) handle (kind_code Adapter)
                 in if a = 0 then (ASTRAL_E_INVALID, session, st)
                    else
                      (case adapters_at st a of
                         None \<Rightarrow> (ASTRAL_E_INVALID, session, st)
                       | Some x \<Rightarrow>
                           if ad_model x \<noteq> model then (ASTRAL_E_INVALID, session, st)
                           else
                             let st1 = adapter_retain a st
                             in (case add (backend_ctx s) (ad_ctx x) scale of
                                   (err, b) \<Rightarrow>
                                     if err \<noteq> ASTRAL_OK then (err, Some (s\<lparr>backend_ctx := b\<rparr>), adapter_release a st1)
                                     else (ASTRAL_OK,
                                           Some (s\<lparr>backend_ctx := b,
                                             adapters := adapters s @ [\<lparr>ae_handle = handle, ae_ref = a, ae_scale = scale\<rparr>]\<rparr>), st1)))
             | _ \<Rightarrow> (ASTRAL_E_UNSUPPORTED, session, st)))"

definition session_adapters_count :: "('b, 'm) session option \<Rightarrow> astral_err + u32" where
  "session_adapters_count session =
     (case session of None \<Rightarrow> Inl ASTRAL_E_INVALID | Some s \<Rightarrow> Inr (of_nat (length (adapters s))))"

definition session_adapters_get :: "u32 \<Rightarrow> ('b, 'm) session option \<Rightarrow> astral_err + u64 \<times> u32" where
  "session_adapters_get index session =
     (case session of
        None \<Rightarrow> Inl ASTRAL_E_INVALID
      | Some s \<Rightarrow>
          if unat index \<ge> length (adapters s) then Inl ASTRAL_E_NOT_FOUND
          else Inr (ae_handle (adapters s ! unat index), ae_scale (adapters s ! unat index)))"

text \<open>All the adapters are handed to the provider again; on a failure the rest is not.\<close>

fun readd_adapters ::
  "('b option \<Rightarrow> nat \<Rightarrow> u32 \<Rightarrow> astral_err \<times> 'b option) \<Rightarrow> nat \<Rightarrow> ref_store \<Rightarrow> adapter_entry list \<Rightarrow> 'b option \<Rightarrow>
   astral_err \<times> 'b option" where
  "readd_adapters add model st [] b = (ASTRAL_OK, b)"
| "readd_adapters add model st (e # es) b =
     (case adapters_at st (ae_ref e) of
        None \<Rightarrow> (ASTRAL_E_INVALID, b)
      | Some x \<Rightarrow>
          if ad_model x \<noteq> model then (ASTRAL_E_INVALID, b)
          else (case add b (ad_ctx x) (ae_scale e) of
                  (err, b1) \<Rightarrow> if err \<noteq> ASTRAL_OK then (err, b1) else readd_adapters add model st es b1))"

definition session_adapters_set_scale ::
  "'b control_ops \<Rightarrow> nat \<Rightarrow> u32 \<Rightarrow> u32 \<Rightarrow> ('b, 'm) session option \<Rightarrow> ref_store \<Rightarrow> astral_err \<times> ('b, 'm) session option" where
  "session_adapters_set_scale ops model index scale session st =
     (case session of
        None \<Rightarrow> (ASTRAL_E_INVALID, None)
      | Some s \<Rightarrow>
          if unat index \<ge> length (adapters s) then (ASTRAL_E_NOT_FOUND, session)
          else if state s = Decoding then (ASTRAL_E_STATE, session)
          else
            (case (co_adapter_clear ops, co_adapter_add ops) of
               (Some clear, Some add) \<Rightarrow>
                 (case clear (backend_ctx s) of
                    (err, b) \<Rightarrow>
                      if err \<noteq> ASTRAL_OK then (err, Some (s\<lparr>backend_ctx := b\<rparr>))
                      else
                        let es = (adapters s)[unat index := (adapters s ! unat index)\<lparr>ae_scale := scale\<rparr>]
                        in (case readd_adapters add model st es b of
                              (err2, b2) \<Rightarrow>
                                if err2 \<noteq> ASTRAL_OK then (err2, Some (s\<lparr>backend_ctx := b2\<rparr>))
                                else (ASTRAL_OK, Some (s\<lparr>backend_ctx := b2, adapters := es\<rparr>))))
             | _ \<Rightarrow> (ASTRAL_E_UNSUPPORTED, session)))"

section \<open>The list of adapters owns its references\<close>

definition with_session :: "held \<Rightarrow> ('b, 'm) session \<Rightarrow> held" where
  "with_session h s = h\<lparr>of_adapter := (\<lambda>a. of_adapter h a + count_list (map ae_ref (adapters s)) a)\<rparr>"

datatype adapter_call = Call_Add u64 u32 | Call_Clear | Call_Scale u32 u32

fun run_adapter_call ::
  "'b control_ops \<Rightarrow> nat \<Rightarrow> adapter_call \<Rightarrow> ('b, 'm) session \<times> ref_store \<Rightarrow> ('b, 'm) session \<times> ref_store" where
  "run_adapter_call ops model (Call_Add handle scale) (s, st) =
     (case session_adapters_add ops model handle scale (Some s) st of (err, s', st') \<Rightarrow> (case s' of None \<Rightarrow> (s, st') | Some s1 \<Rightarrow> (s1, st')))"
| "run_adapter_call ops model Call_Clear (s, st) =
     (case session_adapters_clear ops (Some s) st of (err, s', st') \<Rightarrow> (case s' of None \<Rightarrow> (s, st') | Some s1 \<Rightarrow> (s1, st')))"
| "run_adapter_call ops model (Call_Scale index scale) (s, st) =
     (case session_adapters_set_scale ops model index scale (Some s) st of (err, s') \<Rightarrow> (case s' of None \<Rightarrow> (s, st) | Some s1 \<Rightarrow> (s1, st)))"

definition run_adapter_calls ::
  "'b control_ops \<Rightarrow> nat \<Rightarrow> adapter_call list \<Rightarrow> ('b, 'm) session \<times> ref_store \<Rightarrow> ('b, 'm) session \<times> ref_store" where
  "run_adapter_calls ops model cs x = fold (run_adapter_call ops model) cs x"

lemma release_all:
  assumes "refs_inv (st, h\<lparr>of_adapter := (\<lambda>a. of_adapter h a + count_list rs a)\<rparr>)"
  shows "refs_inv (fold adapter_release rs st, h)"
  using assms
proof (induction rs arbitrary: st)
  case Nil
  then show ?case by simp
next
  case (Cons r rs)
  let ?h = "h\<lparr>of_adapter := (\<lambda>a. of_adapter h a + count_list (r # rs) a)\<rparr>"
  have "refs_inv (run_ref (Drop_Adapter r) (st, ?h))" by (rule drop_adapter_inv [OF Cons.prems]) simp
  moreover have "run_ref (Drop_Adapter r) (st, ?h) =
      (adapter_release r st, h\<lparr>of_adapter := (\<lambda>a. of_adapter h a + count_list rs a)\<rparr>)"
    by (auto simp: fun_eq_iff)
  ultimately show ?case using Cons.IH by simp
qed

lemma refs_clear_inv:
  assumes "refs_inv (st, with_session h s)"
  shows "refs_inv (snd (session_adapter_refs_clear s st), h)"
  using release_all [of st h "map ae_ref (adapters s)"] assms
  by (simp add: with_session_def session_adapter_refs_clear_def fold_map comp_def)

lemma with_session_upd [simp]:
  "with_session h (s\<lparr>backend_ctx := b\<rparr>) = with_session h s" "with_session h (s\<lparr>adapters := []\<rparr>) = h"
  by (simp_all add: with_session_def)

lemma take_and_give_back:
  assumes "refs_inv (st, h)" "ref_ok (Take_Adapter a) (st, h)"
  shows "refs_inv (adapter_release a (adapter_retain a st), h)"
proof -
  have "refs_inv (run_ref (Take_Adapter a) (st, h))" by (rule take_adapter_inv [OF assms])
  then have t: "refs_inv (adapter_retain a st, h\<lparr>of_adapter := (of_adapter h)(a := of_adapter h a + 1)\<rparr>)" by simp
  have "refs_inv (run_ref (Drop_Adapter a) (adapter_retain a st, h\<lparr>of_adapter := (of_adapter h)(a := of_adapter h a + 1)\<rparr>))"
    by (rule drop_adapter_inv [OF t]) simp
  then show ?thesis by simp
qed

lemma length_count: "count_list xs a \<le> length xs"
  by (induction xs) auto

lemma adapters_add_inv:
  assumes "refs_inv (st, with_session h s)" "\<forall>a. of_adapter h a < 2 ^ 31" "length (adapters s) \<le> 8"
    "session_adapters_add ops model handle scale (Some s) st = (err, Some s', st')"
  shows "refs_inv (st', with_session h s') \<and> length (adapters s') \<le> 8"
proof (cases "handle = 0 \<or> state s = Decoding \<or> length (adapters s) \<ge> ASTRAL_SESSION_ADAPTERS_MAX")
  case True
  then have "s' = s \<and> st' = st"
    using assms(4) by (cases "handle = 0"; cases "state s = Decoding") (simp_all add: session_adapters_add_def)
  then show ?thesis using assms(1,3) by simp
next
  case False
  then have g: "\<not> handle = 0" "\<not> state s = Decoding" "\<not> ASTRAL_SESSION_ADAPTERS_MAX \<le> length (adapters s)" by simp_all
  note e = assms(4) [unfolded session_adapters_add_def option.case if_not_P [OF g(1)] if_not_P [OF g(2)] if_not_P [OF g(3)]]
  let ?a = "lookup (table st) handle (kind_code Adapter)"
  show ?thesis
  proof (cases "co_adapter_clear ops = None \<or> co_adapter_add ops = None \<or> ?a = 0 \<or> adapters_at st ?a = None \<or>
      (\<exists>x. adapters_at st ?a = Some x \<and> ad_model x \<noteq> model)")
    case True
    then have "s' = s \<and> st' = st" using e by (auto simp: Let_def split: option.splits if_splits)
    then show ?thesis using assms by simp
  next
    case F: False
    then obtain clear add x where c: "co_adapter_clear ops = Some clear" "co_adapter_add ops = Some add"
      and x: "?a \<noteq> 0" "adapters_at st ?a = Some x" "ad_model x = model"
      by (cases "co_adapter_clear ops"; cases "co_adapter_add ops"; cases "adapters_at st ?a") auto
    obtain err1 b where ad: "add (backend_ctx s) (ad_ctx x) scale = (err1, b)" by fastforce
    have bound: "of_adapter (with_session h s) ?a < 2 ^ 32 - 1"
    proof -
      have "count_list (map ae_ref (adapters s)) ?a \<le> 8"
        using length_count [of "map ae_ref (adapters s)" ?a] assms(3) by simp
      moreover have "of_adapter h ?a < 2 ^ 31" using assms(2) by blast
      ultimately show ?thesis by (simp add: with_session_def)
    qed
    have tk: "ref_ok (Take_Adapter ?a) (st, with_session h s)" using x bound by simp
    show ?thesis
    proof (cases "err1 = ASTRAL_OK")
      case True
      have s': "s' = s\<lparr>backend_ctx := b, adapters := adapters s @ [\<lparr>ae_handle = handle, ae_ref = ?a, ae_scale = scale\<rparr>]\<rparr>"
        "st' = adapter_retain ?a st"
        using e c x ad True by (simp_all add: Let_def)
      have w: "with_session h s' = (with_session h s)\<lparr>of_adapter := (of_adapter (with_session h s))(?a := of_adapter (with_session h s) ?a + 1)\<rparr>"
        by (auto simp: with_session_def s'(1) fun_eq_iff)
      show ?thesis using take_adapter_inv [OF assms(1) tk] g(3) assms(3)
        unfolding w s'(2) by (simp add: s'(1) ASTRAL_SESSION_ADAPTERS_MAX_def)
    next
      case False
      have "s' = s\<lparr>backend_ctx := b\<rparr>" "st' = adapter_release ?a (adapter_retain ?a st)"
        using e c x ad False by (simp_all add: Let_def)
      then show ?thesis using take_and_give_back [OF assms(1) tk] assms(3) by simp
    qed
  qed
qed

lemma adapters_clear_inv:
  assumes "refs_inv (st, with_session h s)" "session_adapters_clear ops (Some s) st = (err, Some s', st')"
  shows "refs_inv (st', with_session h s') \<and> length (adapters s') \<le> length (adapters s)"
proof (cases "state s = Decoding \<or> co_adapter_clear ops = None \<or> co_adapter_add ops = None")
  case True
  then have "s' = s \<and> st' = st" using assms(2) by (auto simp: session_adapters_clear_def split: option.splits if_splits)
  then show ?thesis using assms(1) by simp
next
  case False
  then obtain clear add where c: "\<not> state s = Decoding" "co_adapter_clear ops = Some clear" "co_adapter_add ops = Some add"
    by (cases "co_adapter_clear ops"; cases "co_adapter_add ops") auto
  obtain err1 b where cl: "clear (backend_ctx s) = (err1, b)" by fastforce
  note e = assms(2) [unfolded session_adapters_clear_def option.case if_not_P [OF c(1)] c(2,3) prod.case cl]
  show ?thesis
  proof (cases "err1 = ASTRAL_OK")
    case False
    then show ?thesis using e assms(1) by auto
  next
    case True
    then have "s' = s\<lparr>backend_ctx := b, adapters := []\<rparr>" "st' = snd (session_adapter_refs_clear (s\<lparr>backend_ctx := b\<rparr>) st)"
      using e by (simp_all add: session_adapter_refs_clear_def)
    then show ?thesis using refs_clear_inv [of st h "s\<lparr>backend_ctx := b\<rparr>"] assms(1) by simp
  qed
qed

lemma adapters_scale_refs:
  assumes "session_adapters_set_scale ops model index scale (Some s) st = (err, Some s')"
  shows "map ae_ref (adapters s') = map ae_ref (adapters s)"
proof (cases "unat index \<ge> length (adapters s) \<or> state s = Decoding \<or> co_adapter_clear ops = None \<or> co_adapter_add ops = None")
  case True
  then have "s' = s" using assms by (auto simp: session_adapters_set_scale_def split: option.splits if_splits)
  then show ?thesis by simp
next
  case False
  then obtain clear add where c: "\<not> length (adapters s) \<le> unat index" "\<not> state s = Decoding" "co_adapter_clear ops = Some clear" "co_adapter_add ops = Some add"
    by (cases "co_adapter_clear ops"; cases "co_adapter_add ops") auto
  let ?es = "(adapters s)[unat index := (adapters s ! unat index)\<lparr>ae_scale := scale\<rparr>]"
  obtain err1 b where cl: "clear (backend_ctx s) = (err1, b)" by fastforce
  obtain err2 b2 where r: "readd_adapters add model st ?es b = (err2, b2)" by fastforce
  note e = assms [unfolded session_adapters_set_scale_def option.case if_not_P [OF c(1)] if_not_P [OF c(2)] c(3,4) prod.case cl Let_def r]
  have "adapters s' = adapters s \<or> adapters s' = ?es" using e by (auto split: if_splits)
  then show ?thesis using c(1) by (auto simp: map_update list_update_same_conv)
qed

lemma adapter_call_inv:
  assumes "refs_inv (st, with_session h s)" "\<forall>a. of_adapter h a < 2 ^ 31" "length (adapters s) \<le> 8"
    "run_adapter_call ops model c (s, st) = (s', st')"
  shows "refs_inv (st', with_session h s') \<and> length (adapters s') \<le> 8"
proof (cases c)
  case (Call_Add handle scale)
  obtain err so st1 where r: "session_adapters_add ops model handle scale (Some s) st = (err, so, st1)"
    by (cases "session_adapters_add ops model handle scale (Some s) st")
  have "so \<noteq> None" using r by (auto simp: session_adapters_add_def Let_def split: if_splits option.splits prod.splits)
  then obtain s1 where "so = Some s1" by blast
  then show ?thesis using adapters_add_inv [OF assms(1-3)] r assms(4) Call_Add by simp
next
  case Call_Clear
  obtain err so st1 where r: "session_adapters_clear ops (Some s) st = (err, so, st1)"
    by (cases "session_adapters_clear ops (Some s) st")
  have "so \<noteq> None" using r by (auto simp: session_adapters_clear_def split: if_splits option.splits prod.splits)
  then obtain s1 where s1: "so = Some s1" by blast
  then show ?thesis using adapters_clear_inv [OF assms(1), of ops err s1 st1] r assms(3,4) Call_Clear by simp
next
  case (Call_Scale index scale)
  obtain err so where r: "session_adapters_set_scale ops model index scale (Some s) st = (err, so)" by fastforce
  have "so \<noteq> None" using r by (auto simp: session_adapters_set_scale_def Let_def split: if_splits option.splits prod.splits)
  then obtain s1 where s1: "so = Some s1" by blast
  have m: "map ae_ref (adapters s1) = map ae_ref (adapters s)" using adapters_scale_refs r s1 by blast
  then have "length (adapters s1) = length (adapters s)" by (metis length_map)
  then show ?thesis using m assms r s1 Call_Scale by (simp add: with_session_def)
qed

lemma adapter_calls_inv:
  assumes "refs_inv (st, with_session h s)" "\<forall>a. of_adapter h a < 2 ^ 31" "length (adapters s) \<le> 8"
    "run_adapter_calls ops model cs (s, st) = (s', st')"
  shows "refs_inv (st', with_session h s')"
  using assms
proof (induction cs arbitrary: s st)
  case Nil
  then show ?case by (simp add: run_adapter_calls_def)
next
  case (Cons c cs)
  obtain s1 st1 where r: "run_adapter_call ops model c (s, st) = (s1, st1)" by fastforce
  note i = adapter_call_inv [OF Cons.prems(1-3) r]
  show ?case
    by (rule Cons.IH [of st1 s1]) (use i Cons.prems r in \<open>simp_all add: run_adapter_calls_def\<close>)
qed

text \<open>C38: Whatever calls change the adapters of a session, and whether the provider takes part or fails,
  every adapter in its list is there, with one reference for each entry beside those that others
  hold; and clearing the list, as the destruction of the session does, gives back exactly these.\<close>
theorem session_adapters_owned:
  assumes "refs_inv (st, h)" "\<forall>a. of_adapter h a < 2 ^ 31" "adapters s = []"
    "run_adapter_calls ops model cs (s, st) = (s', st')"
  shows "(\<forall>e \<in> set (adapters s'). adapters_at st' (ae_ref e) \<noteq> None) \<and>
    (\<forall>a x. adapters_at st' a = Some x \<longrightarrow> unat (ad_refcount x) = of_adapter h a + count_list (map ae_ref (adapters s')) a) \<and>
    refs_inv (snd (session_adapter_refs_clear s' st'), h)"
proof -
  have "refs_inv (st, with_session h s)" using assms(1,3) by (simp add: with_session_def)
  then have i: "refs_inv (st', with_session h s')" using adapter_calls_inv [OF _ assms(2) _ assms(4)] assms(3) by simp
  then have ok: "refs_ok st' (model_count (st', with_session h s')) (of_adapter (with_session h s'))" by (simp add: refs_inv_def)
  show ?thesis
  proof (intro conjI ballI allI impI)
    fix e assume "e \<in> set (adapters s')"
    then have "count_list (map ae_ref (adapters s')) (ae_ref e) \<noteq> 0" by (simp add: count_list_0_iff)
    then have "0 < of_adapter (with_session h s') (ae_ref e)" by (simp add: with_session_def)
    then show "adapters_at st' (ae_ref e) \<noteq> None" using ok unfolding refs_ok_def adapters_ok_def by (metis less_irrefl)
  next
    fix a x assume "adapters_at st' a = Some x"
    then have "unat (ad_refcount x) = of_adapter (with_session h s') a" using ok unfolding refs_ok_def adapters_ok_def by blast
    then show "unat (ad_refcount x) = of_adapter h a + count_list (map ae_ref (adapters s')) a" by (simp add: with_session_def)
  qed (rule refs_clear_inv [OF i])
qed

section \<open>No setting changes during a decode\<close>

datatype setting =
    Set_Sampler "(u32 \<times> sampler_config) option"
  | Set_Penalty_Tokens "i32 list option" u32
  | Set_Logprobs u32
  | Load_State "u8 list"
  | Adapters_Clear
  | Adapters_Add u64 u32
  | Adapters_Scale u32 u32
  | Grammar_Gbnf "u8 list" "u8 list"
  | Grammar_Json "u8 list"
  | Grammar_Clear
  | Toolset_Set "nat option" u32
  | Toolset_Clear
  | Slot u32
  | Stops_Clear
  | Stops_Add span
  | Stops_Set "span list option" u32
  | Reset "session_desc option"

record 'b setting_env =
  junk :: "nat \<Rightarrow> u32"
  newline :: "(astral_err \<times> u32 \<times> i32) option"
  tokenizer :: "u8 list \<Rightarrow> astral_err \<times> i32 list \<times> u32"
  controls :: "'b control_ops"
  states :: "'b state_ops"
  resets :: "'b reset_ops"
  clock :: u64
  session_model :: nat

definition set_stops :: "astral_err \<times> stop_table \<Rightarrow> ('b, 'm) session \<Rightarrow> astral_err \<times> ('b, 'm) session option" where
  "set_stops r s = (fst r, Some (s\<lparr>stop_sequences := snd r\<rparr>))"

fun apply_setting ::
  "'b setting_env \<Rightarrow> setting \<Rightarrow> ('b, 'm) session \<Rightarrow> ref_store \<Rightarrow> tool_state \<Rightarrow>
   astral_err \<times> ('b, 'm) session option \<times> ref_store \<times> tool_state" where
  "apply_setting env (Set_Sampler d) s st ts =
     (case session_set_sampler (junk env) (newline env) (Some s) d of (err, s') \<Rightarrow> (err, s', st, ts))"
| "apply_setting env (Set_Penalty_Tokens tokens n) s st ts =
     (case session_penalty_prompt_set_tokens (junk env) (newline env) (Some s) tokens n of (err, s') \<Rightarrow> (err, s', st, ts))"
| "apply_setting env (Set_Logprobs n) s st ts = (case session_set_logprobs n (Some s) of (err, s') \<Rightarrow> (err, s', st, ts))"
| "apply_setting env (Load_State bs) s st ts = (case session_state_load (states env) bs (Some s) of (err, s') \<Rightarrow> (err, s', st, ts))"
| "apply_setting env Adapters_Clear s st ts =
     (case session_adapters_clear (controls env) (Some s) st of (err, s', st') \<Rightarrow> (err, s', st', ts))"
| "apply_setting env (Adapters_Add h scale) s st ts =
     (case session_adapters_add (controls env) (session_model env) h scale (Some s) st of (err, s', st') \<Rightarrow> (err, s', st', ts))"
| "apply_setting env (Adapters_Scale i scale) s st ts =
     (case session_adapters_set_scale (controls env) (session_model env) i scale (Some s) st of (err, s') \<Rightarrow> (err, s', st, ts))"
| "apply_setting env (Grammar_Gbnf g root) s st ts =
     (case session_set_grammar_gbnf (controls env) g root (Some s) of (err, s') \<Rightarrow> (err, s', st, ts))"
| "apply_setting env (Grammar_Json g) s st ts =
     (case session_set_grammar_json_schema (controls env) g (Some s) of (err, s') \<Rightarrow> (err, s', st, ts))"
| "apply_setting env Grammar_Clear s st ts = (case session_clear_grammar (controls env) (Some s) of (err, s') \<Rightarrow> (err, s', st, ts))"
| "apply_setting env (Toolset_Set t mode) s st ts =
     (case session_set_toolset t mode (Some s) ts of (err, s', ts') \<Rightarrow> (err, s', st, ts'))"
| "apply_setting env Toolset_Clear s st ts = (case session_clear_toolset (Some s) ts of (err, s', ts') \<Rightarrow> (err, s', st, ts'))"
| "apply_setting env (Slot n) s st ts = (case session_set_slot (controls env) n (Some s) of (err, s') \<Rightarrow> (err, s', st, ts))"
| "apply_setting env Stops_Clear s st ts =
     (case set_stops (session_stop_clear (Some (state s)) (stop_sequences s)) s of (err, s') \<Rightarrow> (err, s', st, ts))"
| "apply_setting env (Stops_Add u) s st ts =
     (case set_stops (session_stop_add_utf8 (tokenizer env) (Some (state s)) u (stop_sequences s)) s of (err, s') \<Rightarrow> (err, s', st, ts))"
| "apply_setting env (Stops_Set us n) s st ts =
     (case set_stops (session_stop_set_utf8 (tokenizer env) (Some (state s)) us n (stop_sequences s)) s of (err, s') \<Rightarrow> (err, s', st, ts))"
| "apply_setting env (Reset d) s st ts = (case session_reset (resets env) (clock env) d (Some s) of (err, s') \<Rightarrow> (err, s', st, ts))"

text \<open>C39: While a session decodes, every operation that would change its settings or reset it is refused
  and changes nothing: the session, the references to adapters and those to toolsets stay as they
  are, and the provider is not called.\<close>
theorem settings_frozen_while_decoding:
  assumes "state s = Decoding"
  shows "\<exists>err. apply_setting env op s st ts = (err, Some s, st, ts) \<and>
    err \<in> {ASTRAL_E_STATE, ASTRAL_E_INVALID, ASTRAL_E_NOT_FOUND}"
proof (cases op)
  case (Set_Sampler d)
  then show ?thesis using assms by (cases d) (auto simp: session_set_sampler_def)
next
  case (Toolset_Set t mode)
  then show ?thesis using assms by (cases t) (simp_all add: session_set_toolset_def)
qed (use assms in \<open>simp_all add: session_penalty_prompt_set_tokens_def session_set_logprobs_def session_state_load_def
      session_adapters_clear_def session_adapters_add_def session_adapters_set_scale_def session_set_grammar_gbnf_def
      session_set_grammar_json_schema_def session_clear_grammar_def session_clear_toolset_def session_set_slot_def
      set_stops_def session_stop_clear_def session_stop_add_utf8_def session_stop_set_utf8_def session_reset_def\<close>)

section \<open>A change of scale that fails\<close>

text \<open>
  \<open>session_adapters_set_scale\<close> clears the provider's adapters before it adds them again. When an
  addition fails the call reports it, the session's list is as it was, and the provider is left with
  only the adapters before the one that failed.
\<close>

lemma set_scale_failure_drops_adapters:
  assumes "co_adapter_clear ops = Some clear" "co_adapter_add ops = Some add" "state s \<noteq> Decoding"
    "adapters s = [e0, e1]" "adapters_at st (ae_ref e0) = Some x" "ad_model x = model"
    "adapters_at st (ae_ref e1) = Some y" "ad_model y = model"
    "clear (backend_ctx s) = (ASTRAL_OK, b0)" "add b0 (ad_ctx x) scale = (ASTRAL_OK, b1)" "add b1 (ad_ctx y) (ae_scale e1) = (err, b2)"
    "err \<noteq> ASTRAL_OK"
  shows "session_adapters_set_scale ops model 0 scale (Some s) st = (err, Some (s\<lparr>backend_ctx := b2\<rparr>))"
  using assms by (simp add: session_adapters_set_scale_def)

section \<open>Witnesses\<close>

definition demo_controls :: "nat control_ops" where
  "demo_controls = \<lparr>co_adapter_clear = Some (\<lambda>b. (ASTRAL_OK, Some 0)), co_adapter_add = Some (\<lambda>b c scale. (ASTRAL_OK, map_option Suc b)),
     co_grammar_gbnf = None, co_grammar_json = None, co_grammar_clear = None, co_apply_grammar = False, co_set_slot = None\<rparr>"

definition demo_table :: handle_table where
  "demo_table = snd (register_ptr 4 16 (snd (register_ptr 1 8 (handle_table_new 2))))"

definition demo_adapter_handle :: u64 where
  "demo_adapter_handle = fst (register_ptr 4 16 (snd (register_ptr 1 8 (handle_table_new 2))))"

lemma demo_lookup: "lookup demo_table demo_adapter_handle 4 = 16"
  by code_simp

lemma demo_handle_nonzero: "demo_adapter_handle \<noteq> 0"
  by code_simp

lemma demo_refs:
  obtains st h x where "refs_inv (st, h)" "table st = demo_table" "adapters_at st 16 = Some x" "ad_model x = 8"
    "of_adapter h = (\<lambda>_. 0)(16 := 1)"
proof -
  let ?t = "handle_table_new 2"
  obtain h1 t1 where r1: "register_ptr 1 8 ?t = (h1, t1)" by fastforce
  have n1: "h1 \<noteq> 0" using r1 reg1 by simp
  obtain h2 t2 where r2: "register_ptr 4 16 t1 = (h2, t2)" by fastforce
  have n2: "h2 \<noteq> 0" using r1 r2 reg2 by simp
  obtain st h where r: "run_ref_ops demo_ref_ops (ref_store_new ?t) = (st, h)" by fastforce
  have ok: "ref_ops_ok demo_ref_ops (ref_store_new ?t)"
    by (simp add: demo_ref_ops_def ref_store_new_def model_load_def r1 n1 Let_def users_def adapter_load_def model_retain_def r2 n2 ctx_of_def)
  have "table_inv ?t" by (rule table_inv_new) simp_all
  then have inv: "refs_inv (st, h)" using run_ref_ops_inv [OF ref_store_new_inv [OF _ live_small] ok] r by simp
  have "table st = t2 \<and> (\<exists>x. adapters_at st 16 = Some x \<and> ad_model x = 8) \<and> of_adapter h = (\<lambda>_. 0)(16 := 1)"
    using r by (auto simp: demo_ref_ops_def ref_store_new_def model_load_def r1 n1 Let_def adapter_load_def model_retain_def r2 n2 ctx_of_def
        model_release_def)
  moreover have "t2 = demo_table" using r1 r2 by (simp add: demo_table_def)
  ultimately show ?thesis using that inv by blast
qed

theorem session_adapters_owned_witness:
  "\<exists>st s' st' x. run_adapter_calls demo_controls 8 [Call_Add demo_adapter_handle 5, Call_Scale 0 6] (demo_session\<lparr>adapters := []\<rparr>, st) = (s', st') \<and>
     length (adapters s') = 1 \<and> adapters_at st' 16 = Some x \<and> unat (ad_refcount x) = 2"
proof -
  obtain st h x where d: "refs_inv (st, h)" "table st = demo_table" "adapters_at st 16 = Some x" "ad_model x = 8"
    "of_adapter h = (\<lambda>_. 0)(16 := 1)" by (rule demo_refs)
  let ?s = "demo_session\<lparr>adapters := []\<rparr>"
  have st: "state ?s \<noteq> Decoding" using demo_ready by (simp add: session_ready_def state_def)
  obtain s' st' where r: "run_adapter_calls demo_controls 8 [Call_Add demo_adapter_handle 5, Call_Scale 0 6] (?s, st) = (s', st')" by fastforce
  have a: "map ae_ref (adapters s') = [16]"
    using r st d by (auto simp: run_adapter_calls_def session_adapters_add_def session_adapters_set_scale_def demo_controls_def demo_lookup
        demo_handle_nonzero ASTRAL_SESSION_ADAPTERS_MAX_def Let_def adapter_retain_def state_def)
  have "\<forall>a. of_adapter h a < 2 ^ 31" by (simp add: d(5))
  note o = session_adapters_owned [OF d(1) this _ r]
  have "adapters_at st' 16 \<noteq> None" using o a by fastforce
  then obtain y where "adapters_at st' 16 = Some y" by blast
  then show ?thesis using o a r d(5) by (intro exI [of _ st] exI [of _ s'] exI [of _ st'] exI [of _ y]) (auto dest: arg_cong [of _ _ length])
qed

theorem settings_frozen_while_decoding_witness:
  "\<exists>err. apply_setting \<lparr>junk = (\<lambda>_. 0), newline = None, tokenizer = (\<lambda>_. (ASTRAL_OK, [], 0)), controls = demo_controls,
       states = demo_state_ops, resets = demo_ops, clock = 0, session_model = 8\<rparr> (Slot 3) (set_state Decoding demo_session)
       (fst (ref_store_new demo_table)) no_toolsets =
       (err, Some (set_state Decoding demo_session), fst (ref_store_new demo_table), no_toolsets) \<and> err \<in> {ASTRAL_E_STATE, ASTRAL_E_INVALID, ASTRAL_E_NOT_FOUND}"
  by (rule settings_frozen_while_decoding) (simp add: set_state_def state_def)

end
