(* ===== verification/Key_Table.thy ===== *)
theory Key_Table
  imports Circular_Buffer
begin

text \<open>
  The key table of the memory index (\<open>inference/memory_index.cpp\<close>): a hash table with open
  addressing that finds the slot of a record by its key. An entry is a reference to a slot, the
  slot number plus one; 0 is an empty entry, the greatest 32-bit number a tombstone, the mark that
  a removal leaves. A search starts at the position the hash of the key gives and goes on to the
  next position, around the end of the table, until it meets an empty entry.

  The theory holds the data of the index, the operations of the table, and its invariant
  \<open>table_ok\<close>, relative to the map \<open>K\<close> from the occupied slots to their keys: each entry that is
  neither empty nor a tombstone refers to an occupied slot, no slot is referred to twice, and each
  occupied slot is met by the search for its key before an empty entry.
\<close>

section \<open>Data\<close>

text \<open>\<open>AstralMemoryRecord\<close> of \<open>include/astral_rt.h\<close>.\<close>

record mem_record =
  rec_size :: u32
  rec_group_id :: u32
  rec_key :: u64
  rec_document_id :: u32
  rec_chunk_id :: u32
  rec_flags :: u32
  rec_reserved0 :: u32

text \<open>\<open>MemorySlot\<close>; the scale that is kept with the vector is a part of the vector's payload.\<close>

record mem_slot =
  slot_record :: mem_record
  slot_active_pos :: u32
  slot_occupied :: bool

definition zero_record :: mem_record where
  "zero_record = \<lparr>rec_size = 0, rec_group_id = 0, rec_key = 0, rec_document_id = 0, rec_chunk_id = 0,
     rec_flags = 0, rec_reserved0 = 0\<rparr>"

text \<open>\<open>MemorySlot{}\<close>, and what \<open>memset\<close> leaves.\<close>

definition zero_slot :: mem_slot where
  "zero_slot = \<lparr>slot_record = zero_record, slot_active_pos = 0, slot_occupied = False\<rparr>"

definition kU32Max :: u32 where
  "kU32Max = 0xFFFFFFFF"

definition kKeyTableEmpty :: u32 where
  "kKeyTableEmpty = 0"

definition kKeyTableTombstone :: u32 where
  "kKeyTableTombstone = kU32Max"

definition slot_to_key_ref :: "u32 \<Rightarrow> u32" where
  "slot_to_key_ref slot = slot + 1"

definition key_ref_to_slot :: "u32 \<Rightarrow> u32" where
  "key_ref_to_slot ref = ref - 1"

definition key_hash_mix :: "u64 \<Rightarrow> u64" where
  "key_hash_mix x =
     (let x = x XOR drop_bit 30 x;
          x = x * 0xBF58476D1CE4E5B9;
          x = x XOR drop_bit 27 x;
          x = x * 0x94D049BB133111EB
      in x XOR drop_bit 31 x)"

section \<open>Operations\<close>

text \<open>The position where the search for a hash begins: \<open>static_cast<uint32_t>(hash) & mask\<close>.\<close>

definition home_pos :: "u32 \<Rightarrow> u64 \<Rightarrow> u32" where
  "home_pos msk hash = ucast hash AND msk"

text \<open>The test both loops make on an entry that is neither empty nor a tombstone.\<close>

definition slot_has_key :: "mem_slot list \<Rightarrow> u64 \<Rightarrow> u32 \<Rightarrow> bool" where
  "slot_has_key slots key s \<longleftrightarrow>
     slot_occupied (slots ! unat s) \<and> rec_key (slot_record (slots ! unat s)) = key"

text \<open>The loop of \<open>find_slot_by_key_hashed\<close>; the last argument counts the probes that are left.\<close>

fun find_probe :: "mem_slot list \<Rightarrow> u32 list \<Rightarrow> u32 \<Rightarrow> u64 \<Rightarrow> u32 \<Rightarrow> nat \<Rightarrow> u32" where
  "find_probe slots table msk key pos 0 = kU32Max"
| "find_probe slots table msk key pos (Suc n) =
     (let ref = table ! unat pos in
      if ref = kKeyTableEmpty then kU32Max
      else if ref \<noteq> kKeyTableTombstone \<and> slot_has_key slots key (key_ref_to_slot ref)
      then key_ref_to_slot ref
      else find_probe slots table msk key ((pos + 1) AND msk) n)"

definition find_slot_by_key_hashed :: "mem_slot list \<Rightarrow> u32 list \<Rightarrow> u32 \<Rightarrow> u64 \<Rightarrow> u64 \<Rightarrow> u32" where
  "find_slot_by_key_hashed slots table msk key hash =
     find_probe slots table msk key (home_pos msk hash) (length table)"

definition find_slot_by_key :: "mem_slot list \<Rightarrow> u32 list \<Rightarrow> u32 \<Rightarrow> u64 \<Rightarrow> u32" where
  "find_slot_by_key slots table msk key =
     find_slot_by_key_hashed slots table msk key (key_hash_mix key)"

text \<open>The loop of \<open>key_table_insert_new_hashed\<close>: the place of the new entry, \<open>None\<close> when the table
  is full. The first tombstone that was met is used before the empty entry behind it.\<close>

fun insert_probe :: "u32 list \<Rightarrow> u32 \<Rightarrow> u32 \<Rightarrow> u32 \<Rightarrow> nat \<Rightarrow> u32 option" where
  "insert_probe table msk pos tombstone_pos 0 =
     (if tombstone_pos \<noteq> kU32Max then Some tombstone_pos else None)"
| "insert_probe table msk pos tombstone_pos (Suc n) =
     (let ref = table ! unat pos in
      if ref = kKeyTableEmpty
      then Some (if tombstone_pos \<noteq> kU32Max then tombstone_pos else pos)
      else insert_probe table msk ((pos + 1) AND msk)
             (if ref = kKeyTableTombstone \<and> tombstone_pos = kU32Max then pos else tombstone_pos) n)"

definition key_table_insert_new_hashed ::
    "u32 list \<Rightarrow> u32 \<Rightarrow> u64 \<Rightarrow> u32 \<Rightarrow> astral_err \<times> u32 list" where
  "key_table_insert_new_hashed table msk hash slot =
     (case insert_probe table msk (home_pos msk hash) kU32Max (length table) of
        Some p \<Rightarrow> (ASTRAL_OK, table[unat p := slot_to_key_ref slot])
      | None \<Rightarrow> (ASTRAL_E_NOMEM, table))"

text \<open>The loop of \<open>key_table_remove\<close>.\<close>

fun remove_probe :: "mem_slot list \<Rightarrow> u32 list \<Rightarrow> u32 \<Rightarrow> u64 \<Rightarrow> u32 \<Rightarrow> nat \<Rightarrow> u32 list" where
  "remove_probe slots table msk key pos 0 = table"
| "remove_probe slots table msk key pos (Suc n) =
     (let ref = table ! unat pos in
      if ref = kKeyTableEmpty then table
      else if ref \<noteq> kKeyTableTombstone \<and> slot_has_key slots key (key_ref_to_slot ref)
      then table[unat pos := kKeyTableTombstone]
      else remove_probe slots table msk key ((pos + 1) AND msk) n)"

definition key_table_remove :: "mem_slot list \<Rightarrow> u32 list \<Rightarrow> u32 \<Rightarrow> u64 \<Rightarrow> u32 list" where
  "key_table_remove slots table msk key =
     remove_probe slots table msk key (home_pos msk (key_hash_mix key)) (length table)"

text \<open>\<open>key_table_rebuild\<close>: the entries of the first \<open>count\<close> active slots, into a cleared table.\<close>

definition key_table_rebuild :: "mem_slot list \<Rightarrow> u32 list \<Rightarrow> u32 \<Rightarrow> u32 list \<Rightarrow> u32 list" where
  "key_table_rebuild slots table msk active =
     foldl (\<lambda>t slot. snd (key_table_insert_new_hashed t msk
              (key_hash_mix (rec_key (slot_record (slots ! unat slot)))) slot))
       (replicate (length table) kKeyTableEmpty) active"

section \<open>Positions\<close>

text \<open>A table of a power-of-two size that a 32-bit number can mask.\<close>

definition table_shape :: "u32 list \<Rightarrow> u32 \<Rightarrow> bool" where
  "table_shape table msk \<longleftrightarrow>
     is_pow2 (length table) \<and> length table < 2 ^ 32 \<and> msk = of_nat (length table) - 1"

lemma table_shape_update [simp]: "table_shape (table[i := x]) msk = table_shape table msk"
  by (simp add: table_shape_def)

lemma table_shape_pos: "table_shape table msk \<Longrightarrow> 0 < length table"
  unfolding table_shape_def using is_pow2_pos by blast

lemma mask_pos: "table_shape table msk \<Longrightarrow> unat (p AND msk) = unat p mod length table"
  by (simp add: table_shape_def unat_and_mask)

lemma next_pos:
  assumes "table_shape table msk" and "unat p = (h + d) mod length table"
  shows "unat ((p + 1) AND msk) = (h + Suc d) mod length table"
proof -
  have b: "unat p < length table" using assms table_shape_pos by simp
  have "length table < 2 ^ 32" using assms(1) by (simp add: table_shape_def)
  then have "unat (p + 1) = Suc (unat p)"
    using b by (simp add: unat_word_ariths)
  then show ?thesis
    by (simp add: mask_pos [OF assms(1)] assms(2) mod_Suc_eq)
qed

section \<open>What the loops find\<close>

definition probe_at :: "u32 list \<Rightarrow> nat \<Rightarrow> nat \<Rightarrow> u32" where
  "probe_at table h d = table ! ((h + d) mod length table)"

definition free_ref :: "u32 \<Rightarrow> bool" where
  "free_ref ref \<longleftrightarrow> ref = kKeyTableEmpty \<or> ref = kKeyTableTombstone"

lemma ref_inverse [simp]: "key_ref_to_slot (slot_to_key_ref s) = s" "slot_to_key_ref (key_ref_to_slot r) = r"
  by (simp_all add: key_ref_to_slot_def slot_to_key_ref_def)

lemma free_refs [simp]: "free_ref kKeyTableEmpty" "free_ref kKeyTableTombstone"
  by (simp_all add: free_ref_def)

lemma tombstone_not_empty [simp]: "kKeyTableTombstone \<noteq> kKeyTableEmpty" "kKeyTableEmpty \<noteq> kKeyTableTombstone"
  by (simp_all add: kKeyTableTombstone_def kKeyTableEmpty_def kU32Max_def)

lemma find_probe_hit:
  assumes "table_shape table msk" and "unat p = (h + d0) mod length table"
    and "d0 \<le> d" "d < d0 + n" and "probe_at table h d = slot_to_key_ref s" "\<not> free_ref (slot_to_key_ref s)"
    and "slot_has_key slots key s" and "\<And>e. e < d \<Longrightarrow> probe_at table h e \<noteq> kKeyTableEmpty"
    and "\<And>e. \<not> free_ref (probe_at table h e) \<Longrightarrow> slot_has_key slots key (key_ref_to_slot (probe_at table h e)) \<Longrightarrow>
      probe_at table h e = slot_to_key_ref s"
  shows "find_probe slots table msk key p n = s"
  using assms(2-4)
proof (induction n arbitrary: p d0)
  case 0
  then show ?case by simp
next
  case (Suc n)
  have r: "table ! unat p = probe_at table h d0" by (simp add: probe_at_def Suc.prems(1))
  show ?case
  proof (cases "d0 = d")
    case True
    then show ?thesis using assms(5-7) by (simp add: r free_ref_def Let_def)
  next
    case False
    then have "d0 < d" using Suc.prems(2) by simp
    then have ne: "probe_at table h d0 \<noteq> kKeyTableEmpty" by (rule assms(8))
    have "find_probe slots table msk key ((p + 1) AND msk) n = s"
      by (rule Suc.IH [OF next_pos [OF assms(1) Suc.prems(1)]]) (use \<open>d0 < d\<close> Suc.prems(3) in auto)
    moreover have "probe_at table h d0 \<noteq> kKeyTableTombstone \<Longrightarrow>
        slot_has_key slots key (key_ref_to_slot (probe_at table h d0)) \<Longrightarrow>
        key_ref_to_slot (probe_at table h d0) = s"
      using assms(9) [of d0] ne by (simp add: free_ref_def)
    ultimately show ?thesis using ne by (auto simp: r Let_def)
  qed
qed

lemma find_probe_miss:
  assumes "table_shape table msk" and "unat p = (h + d0) mod length table"
    and "\<And>e. \<not> free_ref (probe_at table h e) \<Longrightarrow> \<not> slot_has_key slots key (key_ref_to_slot (probe_at table h e))"
  shows "find_probe slots table msk key p n = kU32Max"
  using assms(2)
proof (induction n arbitrary: p d0)
  case 0
  then show ?case by simp
next
  case (Suc n)
  have r: "table ! unat p = probe_at table h d0" by (simp add: probe_at_def Suc.prems)
  show ?case
    using assms(3) [of d0] Suc.IH [OF next_pos [OF assms(1) Suc.prems]]
    by (auto simp: r free_ref_def Let_def)
qed

lemma remove_probe_hit:
  assumes "table_shape table msk" and "unat p = (h + d0) mod length table"
    and "d0 \<le> d" "d < d0 + n" and "probe_at table h d = slot_to_key_ref s" "\<not> free_ref (slot_to_key_ref s)"
    and "slot_has_key slots key s" and "\<And>e. e < d \<Longrightarrow> probe_at table h e \<noteq> kKeyTableEmpty"
    and "\<And>e. e < d \<Longrightarrow> probe_at table h e \<noteq> slot_to_key_ref s"
    and "\<And>e. \<not> free_ref (probe_at table h e) \<Longrightarrow> slot_has_key slots key (key_ref_to_slot (probe_at table h e)) \<Longrightarrow>
      probe_at table h e = slot_to_key_ref s"
  shows "remove_probe slots table msk key p n = table[(h + d) mod length table := kKeyTableTombstone]"
  using assms(2-4)
proof (induction n arbitrary: p d0)
  case 0
  then show ?case by simp
next
  case (Suc n)
  have r: "table ! unat p = probe_at table h d0" by (simp add: probe_at_def Suc.prems(1))
  show ?case
  proof (cases "d0 = d")
    case True
    have "table ! unat p = slot_to_key_ref s" "unat p = (h + d) mod length table"
      using r Suc.prems(1) assms(5) True by simp_all
    then show ?thesis using assms(6,7) by (simp add: free_ref_def Let_def)
  next
    case False
    then have "d0 < d" using Suc.prems(2) by simp
    then have ne: "probe_at table h d0 \<noteq> kKeyTableEmpty" by (rule assms(8))
    have "remove_probe slots table msk key ((p + 1) AND msk) n = table[(h + d) mod length table := kKeyTableTombstone]"
      by (rule Suc.IH [OF next_pos [OF assms(1) Suc.prems(1)]]) (use \<open>d0 < d\<close> Suc.prems(3) in auto)
    moreover have "probe_at table h d0 = kKeyTableTombstone \<or>
        \<not> slot_has_key slots key (key_ref_to_slot (probe_at table h d0))"
      using assms(9) [OF \<open>d0 < d\<close>] assms(10) [of d0] ne by (auto simp: free_ref_def)
    ultimately show ?thesis using ne by (auto simp: r Let_def)
  qed
qed

text \<open>The place an insertion takes: free, and reached without an empty entry in between.\<close>

lemma insert_probe_some:
  assumes "table_shape table msk" and "unat p = (h + d0) mod length table"
    and "tomb = kU32Max \<or> (\<exists>d1<d0. unat tomb = (h + d1) mod length table \<and> probe_at table h d1 = kKeyTableTombstone)"
    and "tomb = kU32Max \<Longrightarrow> \<exists>d. d0 \<le> d \<and> d < d0 + n \<and> free_ref (probe_at table h d)"
    and "length table < 2 ^ 32 - 1" "d0 + n = length table"
    and "\<And>e. e < d0 \<Longrightarrow> probe_at table h e \<noteq> kKeyTableEmpty"
  shows "\<exists>q d. insert_probe table msk p tomb n = Some q \<and> unat q = (h + d) mod length table \<and>
    d < length table \<and> free_ref (probe_at table h d) \<and> (\<forall>e<d. probe_at table h e \<noteq> kKeyTableEmpty)"
  using assms(2-4,6-7)
proof (induction n arbitrary: p d0 tomb)
  case 0
  then have t: "tomb \<noteq> kU32Max" by auto
  then obtain d1 where "d1 < d0" "unat tomb = (h + d1) mod length table" "probe_at table h d1 = kKeyTableTombstone"
    using 0 by blast
  moreover have "\<forall>e<d1. probe_at table h e \<noteq> kKeyTableEmpty" using 0(5) \<open>d1 < d0\<close> by simp
  ultimately show ?case using t 0(4) by (intro exI [of _ tomb] exI [of _ d1]) simp
next
  case (Suc n)
  have r: "table ! unat p = probe_at table h d0" by (simp add: probe_at_def Suc.prems(1))
  have pm: "p \<noteq> kU32Max"
  proof
    assume "p = kU32Max"
    then have "unat p = 2 ^ 32 - 1" by (simp add: kU32Max_def)
    moreover have "unat p < length table" using Suc.prems(1) table_shape_pos [OF assms(1)] by simp
    ultimately show False using assms(5) by simp
  qed
  show ?case
  proof (cases "probe_at table h d0 = kKeyTableEmpty")
    case True
    show ?thesis
    proof (cases "tomb = kU32Max")
      case t: True
      have "insert_probe table msk p tomb (Suc n) = Some p" using True t by (simp add: r Let_def)
      then show ?thesis using True Suc.prems
        by (intro exI [of _ p] exI [of _ d0]) simp
    next
      case t: False
      then obtain d1 where "d1 < d0" "unat tomb = (h + d1) mod length table" "probe_at table h d1 = kKeyTableTombstone"
        using Suc.prems(2) by blast
      moreover have "\<forall>e<d1. probe_at table h e \<noteq> kKeyTableEmpty" using Suc.prems(5) \<open>d1 < d0\<close> by simp
      ultimately show ?thesis using True t Suc.prems(4) by (intro exI [of _ tomb] exI [of _ d1]) (simp add: r Let_def)
    qed
  next
    case False
    define tomb' where "tomb' = (if probe_at table h d0 = kKeyTableTombstone \<and> tomb = kU32Max then p else tomb)"
    have a: "tomb' = kU32Max \<or> (\<exists>d1<Suc d0. unat tomb' = (h + d1) mod length table \<and> probe_at table h d1 = kKeyTableTombstone)"
      using Suc.prems(1,2) by (auto simp: tomb'_def less_Suc_eq)
    have b: "\<exists>d. Suc d0 \<le> d \<and> d < Suc d0 + n \<and> free_ref (probe_at table h d)" if "tomb' = kU32Max"
    proof -
      have "tomb = kU32Max" "probe_at table h d0 \<noteq> kKeyTableTombstone"
        using that pm by (auto simp: tomb'_def split: if_splits)
      then obtain d where "d0 \<le> d" "d < d0 + Suc n" "free_ref (probe_at table h d)" using Suc.prems(3) by blast
      then show ?thesis using False \<open>probe_at table h d0 \<noteq> kKeyTableTombstone\<close>
        by (intro exI [of _ d]) (auto simp: free_ref_def Suc_le_eq le_less)
    qed
    have c: "\<And>e. e < Suc d0 \<Longrightarrow> probe_at table h e \<noteq> kKeyTableEmpty"
      using Suc.prems(5) False by (auto simp: less_Suc_eq)
    have len: "Suc d0 + n = length table" using Suc.prems(4) by simp
    have "insert_probe table msk p tomb (Suc n) = insert_probe table msk ((p + 1) AND msk) tomb' n"
      using False by (simp add: r tomb'_def Let_def)
    with Suc.IH [OF next_pos [OF assms(1) Suc.prems(1)] a b len c] show ?thesis by simp
  qed
qed

section \<open>The invariant\<close>

text \<open>The hash of a key, as the number the probing starts from.\<close>

definition home :: "u64 \<Rightarrow> nat" where
  "home key = unat (ucast (key_hash_mix key) :: u32)"

definition found_at :: "u32 list \<Rightarrow> u32 \<Rightarrow> u64 \<Rightarrow> nat \<Rightarrow> bool" where
  "found_at table s key d \<longleftrightarrow> d < length table \<and> probe_at table (home key) d = slot_to_key_ref s \<and>
     (\<forall>e<d. probe_at table (home key) e \<noteq> kKeyTableEmpty)"

definition table_ok :: "u32 list \<Rightarrow> u32 \<Rightarrow> (u32 \<rightharpoonup> u64) \<Rightarrow> bool" where
  "table_ok table msk K \<longleftrightarrow>
     table_shape table msk \<and> length table < 2 ^ 32 - 1 \<and>
     (\<forall>p<length table. \<not> free_ref (table ! p) \<longrightarrow> K (key_ref_to_slot (table ! p)) \<noteq> None) \<and>
     (\<forall>p<length table. \<forall>q<length table. \<not> free_ref (table ! p) \<longrightarrow> table ! p = table ! q \<longrightarrow> p = q) \<and>
     (\<forall>s k. K s = Some k \<longrightarrow> \<not> free_ref (slot_to_key_ref s) \<and> (\<exists>d. found_at table s k d)) \<and>
     inj_on K (dom K)"

lemma table_okI:
  assumes "table_shape table msk" "length table < 2 ^ 32 - 1"
    and "\<And>p. p < length table \<Longrightarrow> \<not> free_ref (table ! p) \<Longrightarrow> K (key_ref_to_slot (table ! p)) \<noteq> None"
    and "\<And>p q. p < length table \<Longrightarrow> q < length table \<Longrightarrow> \<not> free_ref (table ! p) \<Longrightarrow> table ! p = table ! q \<Longrightarrow> p = q"
    and "\<And>s k. K s = Some k \<Longrightarrow> \<not> free_ref (slot_to_key_ref s)"
    and "\<And>s k. K s = Some k \<Longrightarrow> \<exists>d. found_at table s k d"
    and "inj_on K (dom K)"
  shows "table_ok table msk K"
  unfolding table_ok_def using assms by blast

lemma table_okD:
  assumes "table_ok table msk K"
  shows "table_shape table msk" "length table < 2 ^ 32 - 1"
    and "\<And>p. p < length table \<Longrightarrow> \<not> free_ref (table ! p) \<Longrightarrow> K (key_ref_to_slot (table ! p)) \<noteq> None"
    and "\<And>p q. p < length table \<Longrightarrow> q < length table \<Longrightarrow> \<not> free_ref (table ! p) \<Longrightarrow> table ! p = table ! q \<Longrightarrow> p = q"
    and "\<And>s k. K s = Some k \<Longrightarrow> \<not> free_ref (slot_to_key_ref s)"
    and "\<And>s k. K s = Some k \<Longrightarrow> \<exists>d. found_at table s k d"
    and "inj_on K (dom K)"
  using assms unfolding table_ok_def by blast+

lemma home_pos_home: "table_shape table msk \<Longrightarrow> unat (home_pos msk (key_hash_mix key)) = (home key + 0) mod length table"
  by (simp add: home_pos_def home_def mask_pos)

lemma probe_pos_less: "table_shape table msk \<Longrightarrow> (h + d) mod length table < length table"
  using table_shape_pos by simp

text \<open>The map from the slots to the keys that a table of slots gives.\<close>

definition slot_keys :: "mem_slot list \<Rightarrow> u32 \<rightharpoonup> u64" where
  "slot_keys slots s =
     (if unat s < length slots \<and> slot_occupied (slots ! unat s)
      then Some (rec_key (slot_record (slots ! unat s))) else None)"

lemma has_key_iff:
  "slot_keys slots s \<noteq> None \<Longrightarrow> slot_has_key slots key s \<longleftrightarrow> slot_keys slots s = Some key"
  by (auto simp: slot_keys_def slot_has_key_def split: if_splits)

lemma table_live:
  assumes "table_ok table msk (slot_keys slots)"
    and "\<not> free_ref (probe_at table h e)" "slot_has_key slots key (key_ref_to_slot (probe_at table h e))"
  shows "slot_keys slots (key_ref_to_slot (probe_at table h e)) = Some key"
proof -
  have "(h + e) mod length table < length table" by (rule probe_pos_less [OF table_okD(1) [OF assms(1)]])
  then have "slot_keys slots (key_ref_to_slot (probe_at table h e)) \<noteq> None"
    using table_okD(3) [OF assms(1)] assms(2) unfolding probe_at_def by blast
  then show ?thesis using has_key_iff assms(3) by blast
qed

lemma table_key_unique:
  assumes "table_ok table msk K" "K s = Some k" "K s' = Some k"
  shows "s = s'"
  using inj_onD [OF table_okD(7) [OF assms(1)], of s s'] assms(2,3) by (simp add: domIff)

lemma find_slot_hit:
  assumes "table_ok table msk (slot_keys slots)" "slot_keys slots s = Some key"
  shows "find_slot_by_key slots table msk key = s"
proof -
  obtain d where d: "found_at table s key d" using table_okD(6) [OF assms] by blast
  have "find_probe slots table msk key (home_pos msk (key_hash_mix key)) (length table) = s"
  proof (rule find_probe_hit)
    show "table_shape table msk" by (rule table_okD(1) [OF assms(1)])
    then show "unat (home_pos msk (key_hash_mix key)) = (home key + 0) mod length table" by (rule home_pos_home)
    show "\<not> free_ref (slot_to_key_ref s)" by (rule table_okD(5) [OF assms])
    show "slot_has_key slots key s" using has_key_iff assms(2) by simp
    fix e assume "\<not> free_ref (probe_at table (home key) e)"
      "slot_has_key slots key (key_ref_to_slot (probe_at table (home key) e))"
    then have "key_ref_to_slot (probe_at table (home key) e) = s"
      using table_live [OF assms(1)] table_key_unique [OF assms(1)] assms(2) by blast
    then show "probe_at table (home key) e = slot_to_key_ref s" by (metis ref_inverse(2))
  qed (use d in \<open>auto simp: found_at_def\<close>)
  then show ?thesis by (simp add: find_slot_by_key_def find_slot_by_key_hashed_def)
qed

lemma find_slot_miss:
  assumes "table_ok table msk (slot_keys slots)" "key \<notin> ran (slot_keys slots)"
  shows "find_slot_by_key slots table msk key = kU32Max"
  unfolding find_slot_by_key_def find_slot_by_key_hashed_def
proof (rule find_probe_miss)
  show "table_shape table msk" by (rule table_okD(1) [OF assms(1)])
  then show "unat (home_pos msk (key_hash_mix key)) = (home key + 0) mod length table" by (rule home_pos_home)
  fix e assume "\<not> free_ref (probe_at table (home key) e)"
  then show "\<not> slot_has_key slots key (key_ref_to_slot (probe_at table (home key) e))"
    using table_live [OF assms(1)] assms(2) by (auto simp: ran_def)
qed

lemma slot_ref_small: "table_ok table msk K \<Longrightarrow> K s = Some k \<Longrightarrow> s \<noteq> kU32Max"
proof
  assume a: "table_ok table msk K" "K s = Some k" "s = kU32Max"
  have "slot_to_key_ref kU32Max = kKeyTableEmpty"
    by (simp add: slot_to_key_ref_def kKeyTableEmpty_def kU32Max_def)
  then show False using table_okD(5) [OF a(1,2)] a(3) by simp
qed

text \<open>A search returns the slot of the key, and the mark for none when there is none.\<close>

lemma find_slot_iff:
  assumes "table_ok table msk (slot_keys slots)"
  shows "find_slot_by_key slots table msk key = s \<and> s \<noteq> kU32Max \<longleftrightarrow> slot_keys slots s = Some key"
proof (cases "key \<in> ran (slot_keys slots)")
  case True
  then obtain s' where s': "slot_keys slots s' = Some key" by (auto simp: ran_def)
  show ?thesis
    unfolding find_slot_hit [OF assms s']
    using s' table_key_unique [OF assms s'] slot_ref_small [OF assms s'] by blast
next
  case False
  then have "slot_keys slots s \<noteq> Some key" by (auto simp: ran_def)
  then show ?thesis using find_slot_miss [OF assms False] by blast
qed

section \<open>Insertion and removal keep the invariant\<close>

lemma offset_exists: "p < (c::nat) \<Longrightarrow> \<exists>d<c. (h + d) mod c = p"
proof -
  assume p: "p < c"
  have "h mod c + (p + (c - h mod c)) = p + c"
    using p mod_less_divisor [of c h] by linarith
  then have "(h mod c + (p + (c - h mod c))) mod c = p" using p by simp
  then have "(h + (p + (c - h mod c)) mod c) mod c = p" by (simp add: mod_simps)
  then show ?thesis using p by (intro exI [of _ "(p + (c - h mod c)) mod c"]) simp
qed

lemma probe_at_update:
  "p < length table \<Longrightarrow> probe_at (table[p := v]) h e = (if (h + e) mod length table = p then v else probe_at table h e)"
  by (auto simp: probe_at_def)

lemma found_at_update:
  assumes "found_at table s k d" and "p < length table" "table ! p \<noteq> slot_to_key_ref s" "v \<noteq> kKeyTableEmpty"
  shows "found_at (table[p := v]) s k d"
  using assms unfolding found_at_def by (auto simp: probe_at_update) (auto simp: probe_at_def)

text \<open>A table with fewer records than entries has a free entry.\<close>

lemma free_entry:
  assumes "table_ok table msk K" "finite (dom K)" "card (dom K) < length table"
  shows "\<exists>d<length table. free_ref (probe_at table h d)"
proof -
  let ?live = "{p. p < length table \<and> \<not> free_ref (table ! p)}"
  have inj: "inj_on (\<lambda>p. key_ref_to_slot (table ! p)) ?live"
  proof (rule inj_onI)
    fix p q assume "p \<in> ?live" "q \<in> ?live" "key_ref_to_slot (table ! p) = key_ref_to_slot (table ! q)"
    moreover from this(3) have "table ! p = table ! q" by (metis ref_inverse(2))
    ultimately show "p = q" using table_okD(4) [OF assms(1)] by blast
  qed
  have sub: "(\<lambda>p. key_ref_to_slot (table ! p)) ` ?live \<subseteq> dom K"
  proof
    fix x assume "x \<in> (\<lambda>p. key_ref_to_slot (table ! p)) ` ?live"
    then obtain p where "p < length table" "\<not> free_ref (table ! p)" "x = key_ref_to_slot (table ! p)" by auto
    then show "x \<in> dom K" using table_okD(3) [OF assms(1)] by blast
  qed
  have "card ?live \<le> card (dom K)"
    by (rule card_inj_on_le [OF inj sub assms(2)])
  then have "?live \<noteq> {p. p < length table}" using assms(3) by (metis card_Collect_less_nat not_le)
  then obtain p where p: "p < length table" "free_ref (table ! p)" by blast
  from offset_exists [OF p(1), of h] obtain d where "d < length table" "(h + d) mod length table = p" by blast
  then show ?thesis using p by (auto simp: probe_at_def)
qed

lemma inj_on_map_upd:
  assumes "inj_on K (dom K)" "k \<notin> ran K"
  shows "inj_on (K(s \<mapsto> k)) (dom (K(s \<mapsto> k)))"
proof (rule inj_onI)
  fix x y assume a: "x \<in> dom (K(s \<mapsto> k))" "y \<in> dom (K(s \<mapsto> k))" "(K(s \<mapsto> k)) x = (K(s \<mapsto> k)) y"
  have n: "K z \<noteq> Some k" for z using assms(2) by (auto simp: ran_def)
  show "x = y"
    using a n [of x] n [of y] inj_onD [OF assms(1), of x y] by (cases "x = s"; cases "y = s") auto
qed

text \<open>A new entry: the table stays well formed, for the map with the new key.\<close>

lemma table_ok_put:
  assumes "table_ok table msk K" "K s = None" "k \<notin> ran K" "\<not> free_ref (slot_to_key_ref s)"
    and p: "p < length table" "free_ref (table ! p)"
    and new: "found_at (table[p := slot_to_key_ref s]) s k d"
  shows "table_ok (table[p := slot_to_key_ref s]) msk (K(s \<mapsto> k))"
proof (rule table_okI)
  let ?t = "table[p := slot_to_key_ref s]"
  note ok = table_okD [OF assms(1)]
  have other: "table ! q \<noteq> slot_to_key_ref s" if "q < length table" for q
    using ok(3) [OF that] assms(2,4) by auto
  show "table_shape ?t msk" using ok(1) by simp
  show "length ?t < 2 ^ 32 - 1" using ok(2) by simp
  show "(K(s \<mapsto> k)) (key_ref_to_slot (?t ! q)) \<noteq> None" if "q < length ?t" "\<not> free_ref (?t ! q)" for q
    using ok(3) [of q] that by (cases "q = p") auto
  show "q = r" if "q < length ?t" "r < length ?t" "\<not> free_ref (?t ! q)" "?t ! q = ?t ! r" for q r
    using ok(4) [of q r] other [of q] other [of r] that p(1)
    by (cases "q = p"; cases "r = p") (simp_all add: nth_list_update)
  show "\<not> free_ref (slot_to_key_ref s')" if "(K(s \<mapsto> k)) s' = Some k'" for s' k'
    using ok(5) [of s' k'] that assms(4) by (auto split: if_splits)
  show "\<exists>d. found_at ?t s' k' d" if "(K(s \<mapsto> k)) s' = Some k'" for s' k'
  proof (cases "s' = s")
    case True
    then show ?thesis using that new by auto
  next
    case False
    then have K: "K s' = Some k'" using that by simp
    obtain d where d: "found_at table s' k' d" using ok(6) [OF K] by blast
    have "table ! p \<noteq> slot_to_key_ref s'" using ok(5) [OF K] p(2) by auto
    then have "found_at ?t s' k' d"
      by (rule found_at_update [OF d p(1)]) (use assms(4) in \<open>auto simp: free_ref_def\<close>)
    then show ?thesis by blast
  qed
  show "inj_on (K(s \<mapsto> k)) (dom (K(s \<mapsto> k)))"
    by (rule inj_on_map_upd [OF ok(7) assms(3)])
qed

lemma table_insert:
  assumes "table_ok table msk K" "K s = None" "k \<notin> ran K" "\<not> free_ref (slot_to_key_ref s)"
    and "finite (dom K)" "card (dom K) < length table"
  obtains t' where "key_table_insert_new_hashed table msk (key_hash_mix k) s = (ASTRAL_OK, t')"
    and "table_ok t' msk (K(s \<mapsto> k))" "length t' = length table"
proof -
  note ok = table_okD [OF assms(1)]
  have free: "\<exists>d. 0 \<le> d \<and> d < 0 + length table \<and> free_ref (probe_at table (home k) d)"
    using free_entry [OF assms(1,5,6)] by simp
  obtain q d where q: "insert_probe table msk (home_pos msk (key_hash_mix k)) kU32Max (length table) = Some q"
    and d: "unat q = (home k + d) mod length table" "d < length table" "free_ref (probe_at table (home k) d)"
      "\<forall>e<d. probe_at table (home k) e \<noteq> kKeyTableEmpty"
    using insert_probe_some [OF ok(1) home_pos_home [OF ok(1)] _ free ok(2)] by auto
  let ?p = "(home k + d) mod length table" and ?t = "table[(home k + d) mod length table := slot_to_key_ref s]"
  have p: "?p < length table" by (rule probe_pos_less [OF ok(1)])
  have fp: "free_ref (table ! ?p)" using d(3) by (simp add: probe_at_def)
  have "found_at ?t s k d"
    using d(2,4) assms(4) by (auto simp: found_at_def probe_at_update [OF p] free_ref_def)
  then have "table_ok ?t msk (K(s \<mapsto> k))" by (rule table_ok_put [OF assms(1-4) p fp])
  moreover have "key_table_insert_new_hashed table msk (key_hash_mix k) s = (ASTRAL_OK, ?t)"
    by (simp add: key_table_insert_new_hashed_def q d(1))
  ultimately show thesis using that by simp
qed

text \<open>A removal leaves a tombstone, so that the searches that pass the entry still go on.\<close>

lemma table_ok_drop:
  assumes "table_ok table msk K" and p: "p < length table" "table ! p = slot_to_key_ref s"
  shows "table_ok (table[p := kKeyTableTombstone]) msk (K(s := None))"
proof (rule table_okI)
  let ?t = "table[p := kKeyTableTombstone]"
  note ok = table_okD [OF assms(1)]
  show "table_shape ?t msk" using ok(1) by simp
  show "length ?t < 2 ^ 32 - 1" using ok(2) by simp
  show "(K(s := None)) (key_ref_to_slot (?t ! q)) \<noteq> None" if "q < length ?t" "\<not> free_ref (?t ! q)" for q
  proof -
    have q: "q \<noteq> p" using that by auto
    have "table ! q \<noteq> slot_to_key_ref s" using ok(4) [of q p] that p q by auto
    then have "key_ref_to_slot (table ! q) \<noteq> s" by (metis ref_inverse(2))
    then show ?thesis using ok(3) [of q] that q by simp
  qed
  show "q = r" if "q < length ?t" "r < length ?t" "\<not> free_ref (?t ! q)" "?t ! q = ?t ! r" for q r
    using ok(4) [of q r] that p(1) by (auto simp: nth_list_update split: if_splits)
  show "\<not> free_ref (slot_to_key_ref s')" if "(K(s := None)) s' = Some k'" for s' k'
    using ok(5) [of s' k'] that by (auto split: if_splits)
  show "\<exists>d. found_at ?t s' k' d" if "(K(s := None)) s' = Some k'" for s' k'
  proof -
    have K: "K s' = Some k'" "s' \<noteq> s" using that by (auto split: if_splits)
    obtain d where d: "found_at table s' k' d" using ok(6) [OF K(1)] by blast
    have "table ! p \<noteq> slot_to_key_ref s'" using K(2) p(2) by (metis ref_inverse(1))
    then show ?thesis using found_at_update [OF d p(1)] tombstone_not_empty(1) by blast
  qed
  show "inj_on (K(s := None)) (dom (K(s := None)))"
    using inj_onD [OF ok(7)] by (auto simp: inj_on_def dom_def split: if_splits)
qed

lemma table_remove:
  assumes "table_ok table msk (slot_keys slots)" "slot_keys slots s = Some k"
  shows "table_ok (key_table_remove slots table msk k) msk ((slot_keys slots)(s := None)) \<and>
    length (key_table_remove slots table msk k) = length table"
proof -
  note ok = table_okD [OF assms(1)]
  obtain d where d: "found_at table s k d" using ok(6) [OF assms(2)] by blast
  let ?p = "(home k + d) mod length table"
  have p: "?p < length table" by (rule probe_pos_less [OF ok(1)])
  have tp: "table ! ?p = slot_to_key_ref s" using d by (simp add: found_at_def probe_at_def)
  have "key_table_remove slots table msk k = table[?p := kKeyTableTombstone]"
    unfolding key_table_remove_def
  proof (rule remove_probe_hit [OF ok(1) home_pos_home [OF ok(1)]])
    show "\<not> free_ref (slot_to_key_ref s)" by (rule ok(5) [OF assms(2)])
    show "slot_has_key slots k s" using has_key_iff assms(2) by simp
    show "probe_at table (home k) e \<noteq> slot_to_key_ref s" if "e < d" for e
    proof
      assume e: "probe_at table (home k) e = slot_to_key_ref s"
      have "(home k + e) mod length table = ?p"
      proof (rule ok(4) [OF probe_pos_less [OF ok(1)] p])
        show "\<not> free_ref (table ! ((home k + e) mod length table))"
          using e ok(5) [OF assms(2)] by (simp add: probe_at_def)
        show "table ! ((home k + e) mod length table) = table ! ?p"
          using e tp by (simp add: probe_at_def)
      qed
      then have "e = d" using mod_add_inj [of e "length table" d "home k"] that d by (simp add: found_at_def)
      then show False using that by simp
    qed
    fix e assume "\<not> free_ref (probe_at table (home k) e)"
      "slot_has_key slots k (key_ref_to_slot (probe_at table (home k) e))"
    then have "key_ref_to_slot (probe_at table (home k) e) = s"
      using table_live [OF assms(1)] table_key_unique [OF assms(1)] assms(2) by blast
    then show "probe_at table (home k) e = slot_to_key_ref s" by (metis ref_inverse(2))
  qed (use d in \<open>auto simp: found_at_def\<close>)
  then show ?thesis using table_ok_drop [OF assms(1) p tp] by simp
qed

section \<open>Rebuilding\<close>

lemma table_ok_cleared:
  assumes "table_shape table msk" "length table < 2 ^ 32 - 1"
  shows "table_ok (replicate (length table) kKeyTableEmpty) msk Map.empty"
  by (rule table_okI) (use assms in \<open>auto simp: table_shape_def\<close>)

lemma rebuild_ok:
  assumes "table_shape table msk" "length table < 2 ^ 32 - 1" "length active < length table"
    and "distinct active" "inj_on (slot_keys slots) (set active)"
    and "\<And>s. s \<in> set active \<Longrightarrow> slot_keys slots s \<noteq> None \<and> \<not> free_ref (slot_to_key_ref s)"
  shows "table_ok (key_table_rebuild slots table msk active) msk (slot_keys slots |` set active) \<and>
    length (key_table_rebuild slots table msk active) = length table"
  using assms(3-6)
proof (induction active rule: rev_induct)
  case Nil
  then show ?case using table_ok_cleared [OF assms(1,2)] by (simp add: key_table_rebuild_def)
next
  case (snoc s act)
  let ?K = "slot_keys slots" and ?t = "key_table_rebuild slots table msk act"
  let ?k = "rec_key (slot_record (slots ! unat s))"
  have IH: "table_ok ?t msk (?K |` set act)" "length ?t = length table"
    using snoc.IH snoc.prems by (auto simp: inj_on_def)
  have K: "?K s = Some ?k" "\<not> free_ref (slot_to_key_ref s)"
    using snoc.prems(4) [of s] by (auto simp: slot_keys_def split: if_splits)
  have fresh: "?k \<notin> ran (?K |` set act)"
  proof
    assume "?k \<in> ran (?K |` set act)"
    then obtain r where "r \<in> set act" "?K r = Some ?k" by (auto simp: ran_def restrict_map_def split: if_splits)
    then show False using snoc.prems(2,3) K(1) by (auto simp: inj_on_def)
  qed
  have dom: "dom (?K |` set act) \<subseteq> set act" by auto
  have fin: "finite (dom (?K |` set act))" by (rule finite_subset [OF dom]) simp
  have "card (dom (?K |` set act)) \<le> length act"
    using card_mono [OF _ dom] card_length [of act] by simp
  then have small: "card (dom (?K |` set act)) < length ?t" using snoc.prems(1) IH(2) by simp
  have none: "(?K |` set act) s = None" using snoc.prems(2) by simp
  obtain t' where t': "key_table_insert_new_hashed ?t msk (key_hash_mix ?k) s = (ASTRAL_OK, t')"
    "table_ok t' msk ((?K |` set act)(s \<mapsto> ?k))" "length t' = length ?t"
    by (rule table_insert [OF IH(1) none fresh K(2) fin small])
  have "(?K |` set act)(s \<mapsto> ?k) = ?K |` set (act @ [s])"
    by (rule ext) (use K(1) in \<open>auto simp: restrict_map_def\<close>)
  moreover have "key_table_rebuild slots table msk (act @ [s]) = t'"
    using t'(1) by (simp add: key_table_rebuild_def)
  ultimately show ?case using t'(2,3) IH(2) by simp
qed

section \<open>The size of the table\<close>

text \<open>The loop of \<open>key_table_capacity_for\<close>; \<open>None\<close> when it does not end.\<close>

partial_function (option) double_until :: "u32 \<Rightarrow> u32 \<Rightarrow> u32 option" where
  "double_until target c = (if c < target then double_until target (push_bit 1 c) else Some c)"

definition key_table_capacity_for :: "u32 \<Rightarrow> u32 option" where
  "key_table_capacity_for capacity = double_until (if capacity < 2 then 4 else capacity * 2) 1"

lemma unat_push_pow: "k < 31 \<Longrightarrow> unat (c :: u32) = 2 ^ k \<Longrightarrow> unat (push_bit 1 c) = 2 ^ Suc k"
proof -
  assume k: "k < 31" and c: "unat c = 2 ^ k"
  have "(2::nat) * 2 ^ k < 2 ^ 32"
    using power_strict_increasing [of "Suc k" 32 "2::nat"] k by simp
  then show "unat (push_bit 1 c) = 2 ^ Suc k"
    by (simp add: push_bit_eq_mult unat_word_ariths c)
qed

lemma double_until_returns:
  assumes "unat target \<le> 2 ^ 31"
  shows "k \<le> 31 \<Longrightarrow> unat c = 2 ^ k \<Longrightarrow> \<exists>c' j. double_until target c = Some c' \<and> j \<le> 31 \<and> unat c' = 2 ^ j \<and> target \<le> c'"
proof (induction "31 - k" arbitrary: k c)
  case 0
  then have k: "k = 31" by linarith
  then have "unat target \<le> unat c" using assms 0 by simp
  then have "\<not> c < target" by (simp add: word_less_nat_alt)
  then have "double_until target c = Some c" by (subst double_until.simps) (rule if_not_P)
  moreover have "target \<le> c" using \<open>\<not> c < target\<close> by (rule leI)
  ultimately show ?case using 0 by blast
next
  case (Suc n)
  show ?case
  proof (cases "c < target")
    case True
    have k: "k < 31" "n = 31 - Suc k" using Suc.hyps(2) by linarith+
    then have "Suc k \<le> 31" by simp
    moreover have "double_until target c = double_until target (push_bit 1 c)"
      by (subst double_until.simps) (rule if_P [OF True])
    ultimately show ?thesis
      using Suc.hyps(1) [OF k(2) _ unat_push_pow [OF k(1) Suc.prems(2)]] by simp
  next
    case False
    then have "double_until target c = Some c" by (subst double_until.simps) (rule if_not_P)
    moreover have "target \<le> c" using False by (rule leI)
    ultimately show ?thesis using Suc.prems by blast
  qed
qed

lemma double_until_diverges:
  assumes "2 ^ 31 < unat target" "c = 0 \<or> (\<exists>k\<le>31. unat c = 2 ^ k)"
  shows "double_until target c = None"
proof -
  have "\<not> (2 ^ 31 < unat target \<and> (c = 0 \<or> (\<exists>k\<le>31. unat c = 2 ^ k)))"
    if "double_until target c = Some y" for y
  proof (rule double_until.raw_induct [OF _ that])
    fix f :: "u32 \<Rightarrow> u32 \<Rightarrow> u32 option" and t d y
    assume IH: "\<And>t d y. f t d = Some y \<Longrightarrow> \<not> (2 ^ 31 < unat t \<and> (d = 0 \<or> (\<exists>k\<le>31. unat d = 2 ^ k)))"
      and step: "(if d < t then f t (push_bit 1 d) else Some d) = Some y"
    show "\<not> (2 ^ 31 < unat t \<and> (d = 0 \<or> (\<exists>k\<le>31. unat d = 2 ^ k)))"
    proof
      assume a: "2 ^ 31 < unat t \<and> (d = 0 \<or> (\<exists>k\<le>31. unat d = 2 ^ k))"
      have "unat d \<le> 2 ^ 31"
        using a power_increasing [of _ 31 "2::nat"] by auto
      then have "d < t" using a by (simp add: word_less_nat_alt)
      then have "f t (push_bit 1 d) = Some y" using step by simp
      moreover have "push_bit 1 d = 0 \<or> (\<exists>k\<le>31. unat (push_bit 1 d) = 2 ^ k)"
      proof (cases "d = 0")
        case False
        then obtain k where k: "k \<le> 31" "unat d = 2 ^ k" using a by blast
        show ?thesis
        proof (cases "k = 31")
          case True
          then have "push_bit 1 d = 0"
            using k(2) by (intro unat_eqI) (simp add: push_bit_eq_mult unat_word_ariths)
          then show ?thesis ..
        next
          case False
          then show ?thesis using unat_push_pow [OF _ k(2)] k(1) by (intro disjI2 exI [of _ "Suc k"]) simp
        qed
      qed simp
      ultimately show False using IH a by blast
    qed
  qed
  then show ?thesis using assms by (cases "double_until target c") auto
qed

lemma key_table_capacity_pow2:
  assumes "unat capacity \<le> 2 ^ 30"
  obtains c j where "key_table_capacity_for capacity = Some c" "j \<le> 31" "unat c = 2 ^ j"
    "2 * unat capacity \<le> unat c" "4 \<le> unat c \<or> 2 \<le> unat capacity"
proof -
  let ?t = "if capacity < 2 then 4 else capacity * 2"
  have t: "unat (capacity * 2) = 2 * unat capacity" using assms by (simp add: unat_word_ariths)
  have "unat ?t \<le> 2 ^ 31" using assms by (simp add: t)
  from double_until_returns [OF this, of 0 1] obtain c j where
    c: "double_until ?t 1 = Some c" "j \<le> 31" "unat c = 2 ^ j" "?t \<le> c" by auto
  have "2 * unat capacity \<le> unat c \<and> (4 \<le> unat c \<or> 2 \<le> unat capacity)"
    using c(4) t by (auto simp: word_le_nat_alt word_less_nat_alt split: if_splits)
  then show thesis using c that by (auto simp: key_table_capacity_for_def)
qed

lemma key_table_capacity_hangs:
  assumes "2 ^ 30 < unat capacity" "unat capacity < 2 ^ 31"
  shows "key_table_capacity_for capacity = None"
proof -
  have "\<not> capacity < 2" using assms(1) by (simp add: word_less_nat_alt)
  moreover have "unat (capacity * 2) = 2 * unat capacity" using assms(2) by (simp add: unat_word_ariths)
  ultimately show ?thesis unfolding key_table_capacity_for_def
    using assms(1) by (intro double_until_diverges) (auto intro: exI [of _ 0])
qed

end
