(* ===== verification/Memory_Index.thy ===== *)
theory Memory_Index
  imports Key_Table
begin

text \<open>
  The memory index (\<open>inference/memory_index.cpp\<close>): a store of vectors, each with a record and a key,
  of a fixed capacity. A slot holds a record; \<open>active_slots\<close> lists the occupied slots in the order
  the searches visit, each slot knows its place in this list, and the key table of \<open>Key_Table\<close>
  finds the slot of a key. \<open>dense_active\<close> says that the list is \<open>0, 1, 2, ...\<close>, which lets a search
  skip it. An index of the flat kind is modelled, whose graph is empty.

  The theory holds the index, the operations on single records, the invariant \<open>mem_inv\<close>, the map
  from keys to records that the index stands for, and what each operation does to this map. What is
  stored for a vector is a parameter; null pointers, which each function refuses, are not represented.
\<close>

section \<open>Data and creation\<close>

record 'v mem_index =
  mi_dim :: u32
  mi_capacity :: u32
  mi_count :: u32
  mi_metric :: u32
  mi_index_kind :: u32
  mi_storage_kind :: u32
  mi_slots :: "mem_slot list"
  mi_vectors :: "'v list"
  mi_active_slots :: "u32 list"
  mi_key_table :: "u32 list"
  mi_key_table_mask :: u32
  mi_free_slot_hint :: u32
  mi_dense_active :: bool

text \<open>\<open>AstralMemoryIndexDesc\<close>; the fields of the graph are left out. Enumerations are numbers.\<close>

record mem_desc =
  md_size :: u32
  md_dim :: u32
  md_capacity :: u32
  md_metric :: u32
  md_index_kind :: u32
  md_storage_kind :: u32

definition sizeof_index_desc :: u32 where
  "sizeof_index_desc = 36"

definition sizeof_record :: u32 where
  "sizeof_record = 32"

definition kMaxDim :: u32 where
  "kMaxDim = 8192"

definition metric_valid :: "u32 \<Rightarrow> bool" where
  "metric_valid metric \<longleftrightarrow> metric = 0 \<or> metric = 1 \<or> metric = 2"

definition index_kind_valid :: "u32 \<Rightarrow> bool" where
  "index_kind_valid kind \<longleftrightarrow> kind = 0 \<or> kind = 1"

definition storage_kind_valid :: "u32 \<Rightarrow> bool" where
  "storage_kind_valid kind \<longleftrightarrow>
     kind = 0 \<or> kind = 1 \<or> kind = 2 \<or> kind = 3 \<or> kind = 4 \<or> kind = 5 \<or> kind = 6 \<or> kind = 7 \<or> kind = 8"

definition desc_valid :: "mem_desc \<Rightarrow> bool" where
  "desc_valid d \<longleftrightarrow> md_size d = sizeof_index_desc \<and> md_dim d \<noteq> 0 \<and> md_dim d \<le> kMaxDim \<and>
     md_capacity d \<noteq> 0 \<and> index_kind_valid (md_index_kind d) \<and> metric_valid (md_metric d) \<and>
     storage_kind_valid (md_storage_kind d)"

text \<open>The arrays as \<open>memory_create\<close> and \<open>memory_clear\<close> leave them.\<close>

definition cleared :: "'v mem_index \<Rightarrow> 'v mem_index" where
  "cleared ix = ix\<lparr>mi_count := 0, mi_slots := replicate (length (mi_slots ix)) zero_slot,
     mi_active_slots := replicate (length (mi_active_slots ix)) 0,
     mi_key_table := replicate (length (mi_key_table ix)) kKeyTableEmpty,
     mi_free_slot_hint := 0, mi_dense_active := True\<rparr>"

text \<open>\<open>memory_create\<close> for an index of the flat kind. \<open>alloc_ok\<close> says whether every allocation
  succeeds, \<open>handle\<close> is the answer of the handle table, \<open>v0\<close> what a fresh vector holds; \<open>None\<close> when the
  call does not return.\<close>

definition memory_create :: "mem_desc \<Rightarrow> 'v \<Rightarrow> bool \<Rightarrow> u64 \<Rightarrow> (astral_err + 'v mem_index) option" where
  "memory_create d v0 alloc_ok handle =
     (if \<not> desc_valid d then Some (Inl ASTRAL_E_INVALID)
      else if md_capacity d > kU32Max div md_dim d \<or> md_capacity d > kU32Max div 2
      then Some (Inl ASTRAL_E_NOMEM)
      else case key_table_capacity_for (md_capacity d) of
          None \<Rightarrow> None
        | Some table_capacity \<Rightarrow>
            let n = unat (md_capacity d) in
            if \<not> alloc_ok then Some (Inl ASTRAL_E_NOMEM)
            else if handle = 0 then Some (Inl ASTRAL_E_BUSY)
            else Some (Inr \<lparr>mi_dim = md_dim d, mi_capacity = md_capacity d, mi_count = 0,
                   mi_metric = md_metric d, mi_index_kind = md_index_kind d, mi_storage_kind = md_storage_kind d,
                   mi_slots = replicate n zero_slot, mi_vectors = replicate n v0,
                   mi_active_slots = replicate n 0,
                   mi_key_table = replicate (unat table_capacity) kKeyTableEmpty,
                   mi_key_table_mask = table_capacity - 1,
                   mi_free_slot_hint = 0, mi_dense_active = True\<rparr>))"

definition memory_clear :: "'v mem_index \<Rightarrow> 'v mem_index" where
  "memory_clear ix = cleared ix"

definition memory_count :: "'v mem_index \<Rightarrow> u32" where
  "memory_count ix = mi_count ix"

definition active_slot_at :: "'v mem_index \<Rightarrow> nat \<Rightarrow> u32" where
  "active_slot_at ix pos = (if mi_dense_active ix then of_nat pos else mi_active_slots ix ! pos)"

section \<open>Operations on one record\<close>

definition find_slot :: "'v mem_index \<Rightarrow> u64 \<Rightarrow> u32" where
  "find_slot ix key = find_slot_by_key (mi_slots ix) (mi_key_table ix) (mi_key_table_mask ix) key"

definition memory_get_record :: "'v mem_index \<Rightarrow> u64 \<Rightarrow> astral_err + mem_record" where
  "memory_get_record ix key =
     (if key = 0 then Inl ASTRAL_E_INVALID
      else let slot = find_slot ix key in
        if slot = kU32Max then Inl ASTRAL_E_NOT_FOUND
        else Inr ((slot_record (mi_slots ix ! unat slot))\<lparr>rec_size := sizeof_record\<rparr>))"

definition set_record :: "mem_record \<Rightarrow> nat \<Rightarrow> 'v mem_index \<Rightarrow> 'v mem_index" where
  "set_record r s ix = ix\<lparr>mi_slots := (mi_slots ix)[s := (mi_slots ix ! s)\<lparr>slot_record := r\<rparr>]\<rparr>"

definition memory_update_record :: "'v mem_index \<Rightarrow> u64 \<Rightarrow> mem_record \<Rightarrow> astral_err \<times> 'v mem_index" where
  "memory_update_record ix key r =
     (if key = 0 \<or> rec_size r \<noteq> sizeof_record \<or> rec_key r = 0 then (ASTRAL_E_INVALID, ix)
      else let slot = find_slot ix key in
        if slot = kU32Max then (ASTRAL_E_NOT_FOUND, ix)
        else if rec_key r \<noteq> key then
          (if find_slot ix (rec_key r) \<noteq> kU32Max then (ASTRAL_E_STATE, ix)
           else let t = key_table_remove (mi_slots ix) (mi_key_table ix) (mi_key_table_mask ix) key;
                    (e, t') = key_table_insert_new_hashed t (mi_key_table_mask ix) (key_hash_mix (rec_key r)) slot
                in if e \<noteq> ASTRAL_OK
                   then (e, ix\<lparr>mi_key_table := snd (key_table_insert_new_hashed t' (mi_key_table_mask ix) (key_hash_mix key) slot)\<rparr>)
                   else (ASTRAL_OK, set_record r (unat slot) (ix\<lparr>mi_key_table := t'\<rparr>)))
        else (ASTRAL_OK, set_record r (unat slot) ix))"

definition memory_remove :: "'v mem_index \<Rightarrow> u64 \<Rightarrow> astral_err \<times> 'v mem_index" where
  "memory_remove ix key =
     (if key = 0 then (ASTRAL_E_INVALID, ix)
      else let slot = find_slot ix key in
        if slot = kU32Max then (ASTRAL_E_NOT_FOUND, ix)
        else let active_pos = slot_active_pos (mi_slots ix ! unat slot);
                 last_pos = mi_count ix - 1;
                 last_slot = mi_active_slots ix ! unat last_pos;
                 slots' = (mi_slots ix)[unat last_slot := (mi_slots ix ! unat last_slot)\<lparr>slot_active_pos := active_pos\<rparr>]
             in (ASTRAL_OK, ix\<lparr>
                  mi_key_table := key_table_remove (mi_slots ix) (mi_key_table ix) (mi_key_table_mask ix) key,
                  mi_free_slot_hint := slot,
                  mi_active_slots := (mi_active_slots ix)[unat active_pos := last_slot],
                  mi_slots := slots'[unat slot := zero_slot],
                  mi_count := mi_count ix - 1,
                  mi_dense_active := mi_dense_active ix \<and> active_pos = last_pos\<rparr>))"

text \<open>\<open>find_free_slot\<close>: the first free slot from the hint on, around the end.\<close>

fun free_probe :: "mem_slot list \<Rightarrow> u32 \<Rightarrow> u32 \<Rightarrow> nat \<Rightarrow> u32" where
  "free_probe slots capacity slot 0 = kU32Max"
| "free_probe slots capacity slot (Suc n) =
     (if \<not> slot_occupied (slots ! unat slot) then slot
      else let slot' = slot + 1 in free_probe slots capacity (if slot' = capacity then 0 else slot') n)"

definition find_free_slot :: "'v mem_index \<Rightarrow> u32" where
  "find_free_slot ix = free_probe (mi_slots ix) (mi_capacity ix) (mi_free_slot_hint ix) (unat (mi_capacity ix))"

section \<open>The invariant\<close>

text \<open>The list of the active slots and the places the slots hold are inverse to each other.\<close>

definition links_ok :: "mem_slot list \<Rightarrow> u32 list \<Rightarrow> nat \<Rightarrow> bool" where
  "links_ok slots active n \<longleftrightarrow>
     (\<forall>i<n. unat (active ! i) < length slots \<and> slot_occupied (slots ! unat (active ! i)) \<and>
        unat (slot_active_pos (slots ! unat (active ! i))) = i) \<and>
     (\<forall>s<length slots. slot_occupied (slots ! s) \<longrightarrow>
        unat (slot_active_pos (slots ! s)) < n \<and> unat (active ! unat (slot_active_pos (slots ! s))) = s)"

definition mem_inv :: "'v mem_index \<Rightarrow> bool" where
  "mem_inv ix \<longleftrightarrow>
     length (mi_slots ix) = unat (mi_capacity ix) \<and> length (mi_vectors ix) = unat (mi_capacity ix) \<and>
     length (mi_active_slots ix) = unat (mi_capacity ix) \<and>
     0 < unat (mi_capacity ix) \<and> unat (mi_capacity ix) \<le> 2 ^ 30 \<and>
     2 * unat (mi_capacity ix) \<le> length (mi_key_table ix) \<and>
     unat (mi_count ix) \<le> unat (mi_capacity ix) \<and>
     table_ok (mi_key_table ix) (mi_key_table_mask ix) (slot_keys (mi_slots ix)) \<and>
     links_ok (mi_slots ix) (mi_active_slots ix) (unat (mi_count ix)) \<and>
     unat (mi_free_slot_hint ix) < unat (mi_capacity ix) \<and>
     (mi_dense_active ix \<longrightarrow> (\<forall>i<unat (mi_count ix). unat (mi_active_slots ix ! i) = i))"

definition active_slots :: "'v mem_index \<Rightarrow> u32 list" where
  "active_slots ix = take (unat (mi_count ix)) (mi_active_slots ix)"

text \<open>What is stored in a slot, and the map the index stands for.\<close>

definition entry :: "'v mem_index \<Rightarrow> u32 \<Rightarrow> mem_record \<times> 'v" where
  "entry ix s = (slot_record (mi_slots ix ! unat s), mi_vectors ix ! unat s)"

definition mem_map :: "'v mem_index \<Rightarrow> u64 \<rightharpoonup> mem_record \<times> 'v" where
  "mem_map ix = map_of (map (\<lambda>s. (rec_key (slot_record (mi_slots ix ! unat s)), entry ix s)) (active_slots ix))"

lemma mem_invI:
  assumes "length (mi_slots ix) = unat (mi_capacity ix)" "length (mi_vectors ix) = unat (mi_capacity ix)"
    "length (mi_active_slots ix) = unat (mi_capacity ix)" "0 < unat (mi_capacity ix)"
    "unat (mi_capacity ix) \<le> 2 ^ 30" "2 * unat (mi_capacity ix) \<le> length (mi_key_table ix)"
    "unat (mi_count ix) \<le> unat (mi_capacity ix)"
    "table_ok (mi_key_table ix) (mi_key_table_mask ix) (slot_keys (mi_slots ix))"
    "links_ok (mi_slots ix) (mi_active_slots ix) (unat (mi_count ix))"
    "unat (mi_free_slot_hint ix) < unat (mi_capacity ix)"
    "mi_dense_active ix \<Longrightarrow> \<forall>i<unat (mi_count ix). unat (mi_active_slots ix ! i) = i"
  shows "mem_inv ix"
  unfolding mem_inv_def using assms by blast

lemma mem_invD:
  assumes "mem_inv ix"
  shows "length (mi_slots ix) = unat (mi_capacity ix)" "length (mi_vectors ix) = unat (mi_capacity ix)"
    "length (mi_active_slots ix) = unat (mi_capacity ix)" "0 < unat (mi_capacity ix)"
    "unat (mi_capacity ix) \<le> 2 ^ 30" "2 * unat (mi_capacity ix) \<le> length (mi_key_table ix)"
    "unat (mi_count ix) \<le> unat (mi_capacity ix)"
    "table_ok (mi_key_table ix) (mi_key_table_mask ix) (slot_keys (mi_slots ix))"
    "links_ok (mi_slots ix) (mi_active_slots ix) (unat (mi_count ix))"
    "unat (mi_free_slot_hint ix) < unat (mi_capacity ix)"
    "mi_dense_active ix \<Longrightarrow> \<forall>i<unat (mi_count ix). unat (mi_active_slots ix ! i) = i"
  using assms unfolding mem_inv_def by blast+

lemma links_okD:
  assumes "links_ok slots active n"
  shows "\<And>i. i < n \<Longrightarrow> unat (active ! i) < length slots"
    and "\<And>i. i < n \<Longrightarrow> slot_occupied (slots ! unat (active ! i))"
    and "\<And>i. i < n \<Longrightarrow> unat (slot_active_pos (slots ! unat (active ! i))) = i"
    and "\<And>s. s < length slots \<Longrightarrow> slot_occupied (slots ! s) \<Longrightarrow> unat (slot_active_pos (slots ! s)) < n"
    and "\<And>s. s < length slots \<Longrightarrow> slot_occupied (slots ! s) \<Longrightarrow> unat (active ! unat (slot_active_pos (slots ! s))) = s"
  using assms unfolding links_ok_def by blast+

lemma links_okI:
  assumes "\<And>i. i < n \<Longrightarrow> unat (active ! i) < length slots \<and> slot_occupied (slots ! unat (active ! i)) \<and>
      unat (slot_active_pos (slots ! unat (active ! i))) = i"
    and "\<And>s. s < length slots \<Longrightarrow> slot_occupied (slots ! s) \<Longrightarrow>
      unat (slot_active_pos (slots ! s)) < n \<and> unat (active ! unat (slot_active_pos (slots ! s))) = s"
  shows "links_ok slots active n"
  unfolding links_ok_def using assms by blast

lemma links_distinct:
  assumes "links_ok slots active n" "n \<le> length active"
  shows "distinct (take n active)"
  unfolding distinct_conv_nth
proof (intro allI impI)
  fix i j assume "i < length (take n active)" "j < length (take n active)" "i \<noteq> j"
  then have ij: "i < n" "j < n" "i \<noteq> j" by auto
  show "take n active ! i \<noteq> take n active ! j"
    using links_okD(3) [OF assms(1) ij(1)] links_okD(3) [OF assms(1) ij(2)] ij by auto
qed

lemma links_set:
  assumes "links_ok slots active n" "n \<le> length active"
  shows "set (take n active) = dom (slot_keys slots)"
proof (intro set_eqI iffI)
  fix s assume "s \<in> set (take n active)"
  then obtain i where "i < n" "s = active ! i" using assms(2) by (auto simp: in_set_conv_nth)
  then show "s \<in> dom (slot_keys slots)"
    using links_okD(1,2) [OF assms(1)] by (simp add: slot_keys_def domIff)
next
  fix s assume "s \<in> dom (slot_keys slots)"
  then have s: "unat s < length slots" "slot_occupied (slots ! unat s)"
    by (auto simp: slot_keys_def split: if_splits)
  let ?i = "unat (slot_active_pos (slots ! unat s))"
  have "?i < n" "active ! ?i = s"
    using links_okD(4) [OF assms(1) s] unat_eqI [OF links_okD(5) [OF assms(1) s]] by simp_all
  then have "?i < length (take n active)" "take n active ! ?i = s" using assms(2) by simp_all
  then show "s \<in> set (take n active)" unfolding in_set_conv_nth by blast
qed

lemma active_set: "mem_inv ix \<Longrightarrow> set (active_slots ix) = dom (slot_keys (mi_slots ix))"
  unfolding active_slots_def using links_set mem_invD(3,7,9) by metis

lemma active_distinct: "mem_inv ix \<Longrightarrow> distinct (active_slots ix)"
  unfolding active_slots_def using links_distinct mem_invD(3,7,9) by metis

lemma slot_keys_Some:
  "slot_keys slots s = Some k \<longleftrightarrow> unat s < length slots \<and> slot_occupied (slots ! unat s) \<and>
     rec_key (slot_record (slots ! unat s)) = k"
  by (auto simp: slot_keys_def)

lemma active_keys_distinct:
  assumes "mem_inv ix"
  shows "distinct (map (\<lambda>s. rec_key (slot_record (mi_slots ix ! unat s))) (active_slots ix))"
  unfolding distinct_map
proof
  show "distinct (active_slots ix)" by (rule active_distinct [OF assms])
  show "inj_on (\<lambda>s. rec_key (slot_record (mi_slots ix ! unat s))) (set (active_slots ix))"
  proof (rule inj_onI)
    fix s t assume st: "s \<in> set (active_slots ix)" "t \<in> set (active_slots ix)"
      and eq: "rec_key (slot_record (mi_slots ix ! unat s)) = rec_key (slot_record (mi_slots ix ! unat t))"
    then have "slot_keys (mi_slots ix) s = slot_keys (mi_slots ix) t"
      unfolding active_set [OF assms] by (auto simp: slot_keys_def domIff split: if_splits)
    then show "s = t"
      using inj_onD [OF table_okD(7) [OF mem_invD(8) [OF assms]]] st unfolding active_set [OF assms] by blast
  qed
qed

lemma mem_map_Some:
  assumes "mem_inv ix"
  shows "mem_map ix k = Some e \<longleftrightarrow> (\<exists>s. slot_keys (mi_slots ix) s = Some k \<and> e = entry ix s)"
proof -
  have d: "distinct (map fst (map (\<lambda>s. (rec_key (slot_record (mi_slots ix ! unat s)), entry ix s)) (active_slots ix)))"
    using active_keys_distinct [OF assms] by (simp add: comp_def)
  have "mem_map ix k = Some e \<longleftrightarrow>
      (\<exists>s\<in>set (active_slots ix). rec_key (slot_record (mi_slots ix ! unat s)) = k \<and> e = entry ix s)"
    unfolding mem_map_def map_of_eq_Some_iff [OF d] by auto
  also have "\<dots> \<longleftrightarrow> (\<exists>s. slot_keys (mi_slots ix) s = Some k \<and> e = entry ix s)"
    unfolding active_set [OF assms] by (auto simp: slot_keys_def domIff split: if_splits)
  finally show ?thesis .
qed

lemma mem_map_at: "mem_inv ix \<Longrightarrow> slot_keys (mi_slots ix) s = Some k \<Longrightarrow> mem_map ix k = Some (entry ix s)"
  using mem_map_Some by blast

lemma mem_map_None: "mem_inv ix \<Longrightarrow> mem_map ix k = None \<longleftrightarrow> (\<forall>s. slot_keys (mi_slots ix) s \<noteq> Some k)"
  using mem_map_Some [of ix k] by (metis not_None_eq)

lemma find_slot_none: "mem_inv ix \<Longrightarrow> find_slot ix key = kU32Max \<longleftrightarrow> mem_map ix key = None"
  unfolding find_slot_def mem_map_None using find_slot_iff [OF mem_invD(8)] by metis

lemma find_slot_some: "mem_inv ix \<Longrightarrow> find_slot ix key \<noteq> kU32Max \<Longrightarrow> slot_keys (mi_slots ix) (find_slot ix key) = Some key"
  unfolding find_slot_def using find_slot_iff [OF mem_invD(8)] by metis

lemma find_slot_eq: "mem_inv ix \<Longrightarrow> slot_keys (mi_slots ix) s = Some key \<Longrightarrow> find_slot ix key = s \<and> s \<noteq> kU32Max"
  unfolding find_slot_def using find_slot_iff [OF mem_invD(8)] by metis

text \<open>Two indexes with the same content of their occupied slots stand for the same map.\<close>

lemma mem_map_eqI:
  assumes "mem_inv ix"
    and "\<And>k s. slot_keys (mi_slots ix) s = Some k \<Longrightarrow> m k = Some (entry ix s)"
    and "\<And>k e. m k = Some e \<Longrightarrow> \<exists>s. slot_keys (mi_slots ix) s = Some k"
  shows "mem_map ix = m"
proof (rule ext)
  fix k
  show "mem_map ix k = m k"
  proof (cases "mem_map ix k")
    case None
    then have "\<forall>s. slot_keys (mi_slots ix) s \<noteq> Some k" using mem_map_None [OF assms(1)] by blast
    then have "m k \<noteq> Some e" for e using assms(3) by blast
    then have "m k = None" by (meson not_None_eq)
    then show ?thesis using None by simp
  next
    case (Some e)
    then obtain s where "slot_keys (mi_slots ix) s = Some k" "e = entry ix s"
      using mem_map_Some [OF assms(1)] by blast
    then show ?thesis using assms(2) Some by simp
  qed
qed

section \<open>Creation and clearing\<close>

lemma slot_keys_cleared [simp]: "slot_keys (replicate n zero_slot) = Map.empty"
  by (rule ext) (simp add: slot_keys_def zero_slot_def)

lemma mem_map_empty: "mi_count ix = 0 \<Longrightarrow> mem_map ix = Map.empty"
  by (simp add: mem_map_def active_slots_def)

lemma links_ok_cleared: "links_ok (replicate n zero_slot) active 0"
  by (rule links_okI) (simp_all add: zero_slot_def)

lemma created_inv:
  assumes "memory_create d v0 alloc_ok handle = Some (Inr ix)" "unat (md_capacity d) \<le> 2 ^ 30"
  shows "mem_inv ix \<and> mem_map ix = Map.empty"
proof -
  obtain c j where c: "key_table_capacity_for (md_capacity d) = Some c" "j \<le> 31" "unat c = 2 ^ j"
    "2 * unat (md_capacity d) \<le> unat c"
    by (rule key_table_capacity_pow2 [OF assms(2)])
  have g: "desc_valid d" "alloc_ok" "handle \<noteq> 0"
    using assms(1) c(1) by (auto simp: memory_create_def Let_def split: if_splits)
  have ix: "ix = \<lparr>mi_dim = md_dim d, mi_capacity = md_capacity d, mi_count = 0,
      mi_metric = md_metric d, mi_index_kind = md_index_kind d, mi_storage_kind = md_storage_kind d,
      mi_slots = replicate (unat (md_capacity d)) zero_slot, mi_vectors = replicate (unat (md_capacity d)) v0,
      mi_active_slots = replicate (unat (md_capacity d)) 0, mi_key_table = replicate (unat c) kKeyTableEmpty,
      mi_key_table_mask = c - 1, mi_free_slot_hint = 0, mi_dense_active = True\<rparr>"
    using assms(1) c(1) by (simp add: memory_create_def Let_def split: if_splits)
  have cap: "0 < unat (md_capacity d)" using g(1) by (auto simp: desc_valid_def unat_gt_0)
  have "(2::nat) ^ j \<le> 2 ^ 31" using c(2) by (rule power_increasing) simp
  then have len: "unat c \<le> 2 ^ 31" using c(3) by simp
  have shape: "table_shape (replicate (unat c) kKeyTableEmpty) (c - 1)"
    using len is_pow2_power [of j] unfolding table_shape_def c(3) [symmetric] by simp
  have "mem_inv ix"
    using table_ok_cleared [OF shape] cap assms(2) c(4) len links_ok_cleared
    by (intro mem_invI) (simp_all add: ix)
  then show ?thesis by (simp add: mem_map_empty ix)
qed

lemma memory_clear_correct:
  assumes "mem_inv ix"
  shows "mem_inv (memory_clear ix) \<and> mem_map (memory_clear ix) = Map.empty"
proof -
  note inv = mem_invD [OF assms]
  have "table_ok (replicate (length (mi_key_table ix)) kKeyTableEmpty) (mi_key_table_mask ix) Map.empty"
    by (rule table_ok_cleared [OF table_okD(1,2) [OF inv(8)]])
  then have "mem_inv (memory_clear ix)"
    using inv(1-6) links_ok_cleared
    by (intro mem_invI) (simp_all add: memory_clear_def cleared_def)
  then show ?thesis by (simp add: mem_map_empty memory_clear_def cleared_def)
qed

lemma active_slot_at_dense:
  assumes "mem_inv ix" "i < unat (mi_count ix)"
  shows "active_slot_at ix i = mi_active_slots ix ! i"
proof (cases "mi_dense_active ix")
  case True
  have "unat (mi_count ix) < 2 ^ 32" using unsigned_less [of "mi_count ix", where 'a = nat] by simp
  then have "i < 2 ^ 32" using assms(2) by simp
  then have "unat (of_nat i :: u32) = i" by (simp add: unsigned_of_nat take_bit_nat_eq_self)
  then have "mi_active_slots ix ! i = of_nat i"
    using mem_invD(11) [OF assms(1) True] assms(2) by (intro unat_eqI) simp
  then show ?thesis using True by (simp add: active_slot_at_def)
qed (simp add: active_slot_at_def)

section \<open>Single records\<close>

lemma get_record_correct:
  assumes "mem_inv ix"
  shows "memory_get_record ix key =
    (if key = 0 then Inl ASTRAL_E_INVALID
     else case mem_map ix key of None \<Rightarrow> Inl ASTRAL_E_NOT_FOUND
       | Some (r, v) \<Rightarrow> Inr (r\<lparr>rec_size := sizeof_record\<rparr>))"
proof (cases "find_slot ix key = kU32Max")
  case True
  then have "mem_map ix key = None" using find_slot_none [OF assms] by blast
  then show ?thesis using True by (simp add: memory_get_record_def)
next
  case False
  have "mem_map ix key = Some (entry ix (find_slot ix key))"
    by (rule mem_map_at [OF assms find_slot_some [OF assms False]])
  then show ?thesis using False by (simp add: memory_get_record_def Let_def entry_def)
qed

lemma slot_keys_set_record:
  assumes "slot_keys slots s = Some k"
  shows "slot_keys (slots[unat s := (slots ! unat s)\<lparr>slot_record := r\<rparr>]) = (slot_keys slots)(s \<mapsto> rec_key r)"
proof (rule ext)
  fix x
  have s: "unat s < length slots" "slot_occupied (slots ! unat s)" using assms by (auto simp: slot_keys_Some)
  show "slot_keys (slots[unat s := (slots ! unat s)\<lparr>slot_record := r\<rparr>]) x = ((slot_keys slots)(s \<mapsto> rec_key r)) x"
  proof (cases "x = s")
    case True
    then show ?thesis using s by (simp add: slot_keys_def)
  next
    case False
    then have "unat x \<noteq> unat s" using unat_eqI by blast
    then show ?thesis using False by (simp add: slot_keys_def)
  qed
qed

lemma set_record_fields [simp]:
  "slot_occupied (slots[s := (slots ! s)\<lparr>slot_record := r\<rparr>] ! i) = slot_occupied (slots ! i)"
  "slot_active_pos (slots[s := (slots ! s)\<lparr>slot_record := r\<rparr>] ! i) = slot_active_pos (slots ! i)"
proof -
  have "slot_occupied (slots[s := (slots ! s)\<lparr>slot_record := r\<rparr>] ! i) = slot_occupied (slots ! i) \<and>
    slot_active_pos (slots[s := (slots ! s)\<lparr>slot_record := r\<rparr>] ! i) = slot_active_pos (slots ! i)"
  proof (cases "s < length slots")
    case True
    then show ?thesis by (simp add: nth_list_update)
  next
    case False
    then have "slots[s := (slots ! s)\<lparr>slot_record := r\<rparr>] = slots" by (simp add: list_update_beyond)
    then show ?thesis by simp
  qed
  then show "slot_occupied (slots[s := (slots ! s)\<lparr>slot_record := r\<rparr>] ! i) = slot_occupied (slots ! i)"
    "slot_active_pos (slots[s := (slots ! s)\<lparr>slot_record := r\<rparr>] ! i) = slot_active_pos (slots ! i)"
    by simp_all
qed

lemma links_ok_set_record:
  "links_ok (slots[s := (slots ! s)\<lparr>slot_record := r\<rparr>]) active n \<longleftrightarrow> links_ok slots active n"
  unfolding links_ok_def by simp

lemma set_record_correct:
  assumes "mem_inv ix" and s: "slot_keys (mi_slots ix) s = Some k"
    and t: "table_ok t (mi_key_table_mask ix) ((slot_keys (mi_slots ix))(s \<mapsto> rec_key r))"
      "length t = length (mi_key_table ix)"
    and fresh: "rec_key r = k \<or> mem_map ix (rec_key r) = None"
  shows "mem_inv (set_record r (unat s) (ix\<lparr>mi_key_table := t\<rparr>)) \<and>
    mem_map (set_record r (unat s) (ix\<lparr>mi_key_table := t\<rparr>)) =
      (mem_map ix)(k := None, rec_key r \<mapsto> (r, mi_vectors ix ! unat s))"
proof -
  let ?ix = "set_record r (unat s) (ix\<lparr>mi_key_table := t\<rparr>)"
  note inv = mem_invD [OF assms(1)]
  have inv': "mem_inv ?ix"
    using inv t by (intro mem_invI)
      (simp_all add: set_record_def slot_keys_set_record [OF s] links_ok_set_record)
  have keys: "slot_keys (mi_slots ?ix) = (slot_keys (mi_slots ix))(s \<mapsto> rec_key r)"
    by (simp add: set_record_def slot_keys_set_record [OF s])
  have "mem_map ?ix = (mem_map ix)(k := None, rec_key r \<mapsto> (r, mi_vectors ix ! unat s))"
  proof (rule mem_map_eqI [OF inv'])
    fix k' s' assume a: "slot_keys (mi_slots ?ix) s' = Some k'"
    show "((mem_map ix)(k := None, rec_key r \<mapsto> (r, mi_vectors ix ! unat s))) k' = Some (entry ?ix s')"
    proof (cases "s' = s")
      case True
      then show ?thesis using a s unfolding keys
        by (simp add: entry_def set_record_def slot_keys_Some)
    next
      case False
      then have a': "slot_keys (mi_slots ix) s' = Some k'" using a unfolding keys by simp
      have "k' \<noteq> k" using table_key_unique [OF inv(8) a'] s False by blast
      moreover have "k' \<noteq> rec_key r"
        using fresh \<open>k' \<noteq> k\<close> mem_map_None [OF assms(1)] a' by blast
      moreover have "unat s' \<noteq> unat s" using False unat_eqI by blast
      then have "entry ?ix s' = entry ix s'" by (simp add: entry_def set_record_def)
      ultimately show ?thesis using mem_map_at [OF assms(1) a'] by simp
    qed
  next
    fix k' e assume "((mem_map ix)(k := None, rec_key r \<mapsto> (r, mi_vectors ix ! unat s))) k' = Some e"
    then consider "k' = rec_key r" | "k' \<noteq> k" "mem_map ix k' = Some e" by (auto split: if_splits)
    then show "\<exists>s'. slot_keys (mi_slots ?ix) s' = Some k'"
    proof cases
      case 1
      then show ?thesis unfolding keys by (intro exI [of _ s]) simp
    next
      case 2
      then obtain s' where "slot_keys (mi_slots ix) s' = Some k'" using mem_map_Some [OF assms(1)] by blast
      moreover from this have "s' \<noteq> s" using s 2(1) by auto
      ultimately show ?thesis unfolding keys by (intro exI [of _ s']) simp
    qed
  qed
  then show ?thesis using inv' by blast
qed

text \<open>The number of records is below the size of the table, so that there is always a free entry.\<close>

lemma keys_card:
  assumes "mem_inv ix"
  shows "finite (dom (slot_keys (mi_slots ix)))" "card (dom (slot_keys (mi_slots ix))) = unat (mi_count ix)"
proof -
  show "finite (dom (slot_keys (mi_slots ix)))"
    using List.finite_set [of "active_slots ix"] by (simp only: active_set [OF assms])
  have "card (set (active_slots ix)) = length (active_slots ix)"
    by (rule distinct_card [OF active_distinct [OF assms]])
  then show "card (dom (slot_keys (mi_slots ix))) = unat (mi_count ix)"
    unfolding active_set [OF assms] using mem_invD(3,7) [OF assms] by (simp add: active_slots_def)
qed

lemma count_below_table: "mem_inv ix \<Longrightarrow> unat (mi_count ix) < length (mi_key_table ix)"
  using mem_invD(4,6,7) [of ix] by simp

definition update_spec :: "(u64 \<rightharpoonup> mem_record \<times> 'v) \<Rightarrow> u64 \<Rightarrow> mem_record \<Rightarrow> astral_err \<times> (u64 \<rightharpoonup> mem_record \<times> 'v)" where
  "update_spec m key r =
     (if key = 0 \<or> rec_size r \<noteq> sizeof_record \<or> rec_key r = 0 then (ASTRAL_E_INVALID, m)
      else case m key of None \<Rightarrow> (ASTRAL_E_NOT_FOUND, m)
        | Some (_, v) \<Rightarrow> if rec_key r \<noteq> key \<and> m (rec_key r) \<noteq> None then (ASTRAL_E_STATE, m)
            else (ASTRAL_OK, m(key := None, rec_key r \<mapsto> (r, v))))"

lemma update_key_moves:
  assumes "mem_inv ix" "slot_keys (mi_slots ix) s = Some key" "mem_map ix (rec_key r) = None"
  obtains t where "key_table_insert_new_hashed (key_table_remove (mi_slots ix) (mi_key_table ix) (mi_key_table_mask ix) key)
      (mi_key_table_mask ix) (key_hash_mix (rec_key r)) s = (ASTRAL_OK, t)"
    "table_ok t (mi_key_table_mask ix) ((slot_keys (mi_slots ix))(s \<mapsto> rec_key r))" "length t = length (mi_key_table ix)"
proof -
  let ?K = "slot_keys (mi_slots ix)"
  note ok = mem_invD(8) [OF assms(1)]
  note rem = table_remove [OF ok assms(2)]
  have none: "(?K(s := None)) s = None" by simp
  have fresh: "rec_key r \<notin> ran (?K(s := None))"
    using assms(3) mem_map_None [OF assms(1)] by (auto simp: ran_def split: if_splits)
  have fin: "finite (dom (?K(s := None)))" using keys_card(1) [OF assms(1)] by simp
  have "card (dom (?K(s := None))) \<le> card (dom ?K)" using keys_card(1) [OF assms(1)] by (simp add: card_Diff1_le)
  then have small: "card (dom (?K(s := None))) <
      length (key_table_remove (mi_slots ix) (mi_key_table ix) (mi_key_table_mask ix) key)"
    using count_below_table [OF assms(1)] keys_card(2) [OF assms(1)] rem by simp
  obtain t where "key_table_insert_new_hashed (key_table_remove (mi_slots ix) (mi_key_table ix) (mi_key_table_mask ix) key)
      (mi_key_table_mask ix) (key_hash_mix (rec_key r)) s = (ASTRAL_OK, t)"
    "table_ok t (mi_key_table_mask ix) (?K(s := None, s \<mapsto> rec_key r))"
    "length t = length (key_table_remove (mi_slots ix) (mi_key_table ix) (mi_key_table_mask ix) key)"
    by (rule table_insert [OF conjunct1 [OF rem] none fresh table_okD(5) [OF ok assms(2)] fin small])
  then show thesis using that rem by simp
qed

lemma update_record_correct:
  assumes "mem_inv ix" "memory_update_record ix key r = (e, ix')"
  shows "mem_inv ix' \<and> (e, mem_map ix') = update_spec (mem_map ix) key r"
proof (cases "key = 0 \<or> rec_size r \<noteq> sizeof_record \<or> rec_key r = 0")
  case True
  then have "(ASTRAL_E_INVALID, ix) = (e, ix')" using assms(2) by (simp only: memory_update_record_def if_P)
  then have "e = ASTRAL_E_INVALID" "ix' = ix" by auto
  then show ?thesis using True assms(1) by (simp add: update_spec_def)
next
  case valid: False
  note d = assms(2) [unfolded memory_update_record_def if_not_P [OF valid] Let_def]
  show ?thesis
  proof (cases "find_slot ix key = kU32Max")
    case True
    then have "mem_map ix key = None" using find_slot_none [OF assms(1)] by blast
    moreover have "e = ASTRAL_E_NOT_FOUND" "ix' = ix" using d True by simp_all
    ultimately show ?thesis using valid assms(1) by (simp add: update_spec_def)
  next
    case False
    let ?s = "find_slot ix key"
    have s: "slot_keys (mi_slots ix) ?s = Some key" by (rule find_slot_some [OF assms(1) False])
    have m: "mem_map ix key = Some (slot_record (mi_slots ix ! unat ?s), mi_vectors ix ! unat ?s)"
      using mem_map_at [OF assms(1) s] by (simp add: entry_def)
    note d = d [unfolded if_not_P [OF False]]
    show ?thesis
    proof (cases "rec_key r = key")
      case True
      then have ok: "e = ASTRAL_OK" "ix' = set_record r (unat ?s) (ix\<lparr>mi_key_table := mi_key_table ix\<rparr>)"
        using d by simp_all
      have "table_ok (mi_key_table ix) (mi_key_table_mask ix) ((slot_keys (mi_slots ix))(?s \<mapsto> rec_key r))"
        using mem_invD(8) [OF assms(1)] s True by (simp add: fun_upd_idem)
      note set_record_correct [OF assms(1) s this refl disjI1 [OF True]]
      then show ?thesis using True m valid unfolding ok by (simp add: update_spec_def)
    next
      case diff: False
      show ?thesis
      proof (cases "find_slot ix (rec_key r) = kU32Max")
        case True
        then have new: "mem_map ix (rec_key r) = None" using find_slot_none [OF assms(1)] by blast
        obtain t where t: "key_table_insert_new_hashed (key_table_remove (mi_slots ix) (mi_key_table ix) (mi_key_table_mask ix) key)
            (mi_key_table_mask ix) (key_hash_mix (rec_key r)) ?s = (ASTRAL_OK, t)"
          "table_ok t (mi_key_table_mask ix) ((slot_keys (mi_slots ix))(?s \<mapsto> rec_key r))" "length t = length (mi_key_table ix)"
          by (rule update_key_moves [OF assms(1) s new])
        have "e = ASTRAL_OK" "ix' = set_record r (unat ?s) (ix\<lparr>mi_key_table := t\<rparr>)"
          using d diff True t(1) by simp_all
        then show ?thesis
          using set_record_correct [OF assms(1) s t(2,3)] new m valid by (simp add: update_spec_def)
      next
        case taken: False
        then have "mem_map ix (rec_key r) \<noteq> None" using find_slot_none [OF assms(1)] by blast
        moreover have "e = ASTRAL_E_STATE" "ix' = ix" using d diff taken by simp_all
        ultimately show ?thesis using assms(1) m valid diff by (simp add: update_spec_def)
      qed
    qed
  qed
qed

section \<open>Removal\<close>

text \<open>The last slot of the list takes the place of the one that goes.\<close>

lemma links_ok_remove:
  assumes ok: "links_ok slots active n" and s: "s < length slots" "slot_occupied (slots ! s)"
    and len: "n \<le> length active"
    and defs: "aw = slot_active_pos (slots ! s)" "l = active ! (n - 1)"
  shows "links_ok ((slots[unat l := (slots ! unat l)\<lparr>slot_active_pos := aw\<rparr>])[s := zero_slot]) (active[unat aw := l]) (n - 1)"
    (is "links_ok ?slots ?active _")
proof -
  note d = links_okD [OF ok]
  have a: "unat aw < n" "unat (active ! unat aw) = s"
    using d(4) [OF s] d(5) [OF s] unfolding defs by simp_all
  have n: "n - 1 < n" using a(1) by simp
  have L: "unat l < length slots" "slot_occupied (slots ! unat l)" "unat (slot_active_pos (slots ! unat l)) = n - 1"
    using d(1) [OF n] d(2) [OF n] d(3) [OF n] unfolding defs by simp_all
  have aL: "unat aw < n - 1 \<longleftrightarrow> unat l \<noteq> s"
  proof
    assume "unat aw < n - 1"
    then show "unat l \<noteq> s" using L(3) defs(1) by auto
  next
    assume "unat l \<noteq> s"
    then have "unat aw \<noteq> n - 1" using a(2) defs(2) by auto
    then show "unat aw < n - 1" using a(1) by simp
  qed
  show ?thesis
  proof (rule links_okI)
    fix i assume i: "i < n - 1"
    then have i': "i < n" by simp
    show "unat (?active ! i) < length ?slots \<and> slot_occupied (?slots ! unat (?active ! i)) \<and>
      unat (slot_active_pos (?slots ! unat (?active ! i))) = i"
    proof (cases "i = unat aw")
      case True
      then have "unat l \<noteq> s" using i aL by simp
      then show ?thesis using True L a(1) len by simp
    next
      case False
      have "unat (active ! i) \<noteq> s" using d(3) [OF i'] False defs(1) by auto
      moreover have "unat (active ! i) \<noteq> unat l" using d(3) [OF i'] L(3) i by auto
      ultimately show ?thesis using False d(1) [OF i'] d(2) [OF i'] d(3) [OF i'] by simp
    qed
  next
    fix t assume t: "t < length ?slots" "slot_occupied (?slots ! t)"
    then have ts: "t \<noteq> s" using s(1) by (auto simp: zero_slot_def)
    have tl: "t < length slots" using t(1) by simp
    show "unat (slot_active_pos (?slots ! t)) < n - 1 \<and> unat (?active ! unat (slot_active_pos (?slots ! t))) = t"
    proof (cases "t = unat l")
      case True
      then show ?thesis using ts aL a(1) len tl by simp
    next
      case False
      then have o: "slot_occupied (slots ! t)" using t(2) ts by simp
      have p: "unat (slot_active_pos (slots ! t)) < n" "unat (active ! unat (slot_active_pos (slots ! t))) = t"
        using d(4) [OF tl o] d(5) [OF tl o] by simp_all
      have "unat (slot_active_pos (slots ! t)) \<noteq> n - 1" using p(2) False defs(2) by auto
      moreover have "unat (slot_active_pos (slots ! t)) \<noteq> unat aw" using p(2) a(2) ts by auto
      ultimately show ?thesis using p False ts by simp
    qed
  qed
qed

definition remove_spec :: "(u64 \<rightharpoonup> mem_record \<times> 'v) \<Rightarrow> u64 \<Rightarrow> astral_err \<times> (u64 \<rightharpoonup> mem_record \<times> 'v)" where
  "remove_spec m key =
     (if key = 0 then (ASTRAL_E_INVALID, m)
      else if m key = None then (ASTRAL_E_NOT_FOUND, m)
      else (ASTRAL_OK, m(key := None)))"

lemma set_pos_fields [simp]:
  "slot_occupied (slots[s := (slots ! s)\<lparr>slot_active_pos := p\<rparr>] ! i) = slot_occupied (slots ! i)"
  "slot_record (slots[s := (slots ! s)\<lparr>slot_active_pos := p\<rparr>] ! i) = slot_record (slots ! i)"
proof -
  have "slot_occupied (slots[s := (slots ! s)\<lparr>slot_active_pos := p\<rparr>] ! i) = slot_occupied (slots ! i) \<and>
    slot_record (slots[s := (slots ! s)\<lparr>slot_active_pos := p\<rparr>] ! i) = slot_record (slots ! i)"
    by (cases "s < length slots") (simp_all add: nth_list_update list_update_beyond)
  then show "slot_occupied (slots[s := (slots ! s)\<lparr>slot_active_pos := p\<rparr>] ! i) = slot_occupied (slots ! i)"
    "slot_record (slots[s := (slots ! s)\<lparr>slot_active_pos := p\<rparr>] ! i) = slot_record (slots ! i)"
    by simp_all
qed

lemma slot_keys_removed:
  assumes "unat s < length slots"
  shows "slot_keys ((slots[l := (slots ! l)\<lparr>slot_active_pos := p\<rparr>])[unat s := zero_slot]) = (slot_keys slots)(s := None)"
proof (rule ext)
  fix x
  show "slot_keys ((slots[l := (slots ! l)\<lparr>slot_active_pos := p\<rparr>])[unat s := zero_slot]) x = ((slot_keys slots)(s := None)) x"
  proof (cases "x = s")
    case True
    then show ?thesis using assms by (simp add: slot_keys_def zero_slot_def)
  next
    case False
    then have "unat x \<noteq> unat s" using unat_eqI by blast
    then show ?thesis using False by (simp add: slot_keys_def)
  qed
qed

lemma removed_correct:
  fixes ix :: "'v mem_index"
  assumes "mem_inv ix" "memory_remove ix key = (ASTRAL_OK, ix')" "key \<noteq> 0"
    and s: "slot_keys (mi_slots ix) s = Some key" "find_slot ix key = s" "s \<noteq> kU32Max"
  shows "mem_inv ix' \<and> mem_map ix' = (mem_map ix)(key := None)"
proof -
  note inv = mem_invD [OF assms(1)]
  let ?aw = "slot_active_pos (mi_slots ix ! unat s)" and ?n = "unat (mi_count ix)"
  let ?l = "mi_active_slots ix ! unat (mi_count ix - 1)"
  let ?slots = "((mi_slots ix)[unat ?l := (mi_slots ix ! unat ?l)\<lparr>slot_active_pos := ?aw\<rparr>])[unat s := zero_slot]"
  let ?t = "key_table_remove (mi_slots ix) (mi_key_table ix) (mi_key_table_mask ix) key"
  have ix': "ix' = ix\<lparr>mi_key_table := ?t, mi_free_slot_hint := s,
      mi_active_slots := (mi_active_slots ix)[unat ?aw := ?l], mi_slots := ?slots,
      mi_count := mi_count ix - 1, mi_dense_active := mi_dense_active ix \<and> ?aw = mi_count ix - 1\<rparr>"
    using assms(2,3) s(2,3) by (simp add: memory_remove_def Let_def)
  have occ: "unat s < length (mi_slots ix)" "slot_occupied (mi_slots ix ! unat s)"
    using s(1) by (simp_all add: slot_keys_Some)
  have aw: "unat ?aw < ?n" by (rule links_okD(4) [OF inv(9) occ])
  have n: "unat (mi_count ix - 1) = ?n - 1"
    using aw by (simp add: unat_sub word_le_nat_alt)
  have len: "?n \<le> length (mi_active_slots ix)" using inv(3,7) by simp
  have keys: "slot_keys ?slots = (slot_keys (mi_slots ix))(s := None)"
    by (rule slot_keys_removed [OF occ(1)])
  have dense: "\<forall>i<?n - 1. unat ((mi_active_slots ix)[unat ?aw := ?l] ! i) = i"
    if "mi_dense_active ix \<and> ?aw = mi_count ix - 1"
    using inv(11) that n by simp
  have inv': "mem_inv ix'"
    unfolding ix'
    using inv(1-7) occ(1) table_remove [OF inv(8) s(1)] n dense
      links_ok_remove [OF inv(9) occ len refl, of ?l]
    by (intro mem_invI) (simp_all add: keys [unfolded n One_nat_def])
  have "mem_map ix' = (mem_map ix)(key := None)"
  proof (rule mem_map_eqI [OF inv'])
    fix k s' assume "slot_keys (mi_slots ix') s' = Some k"
    then have a: "s' \<noteq> s" "slot_keys (mi_slots ix) s' = Some k"
      by (auto simp: ix' keys split: if_splits)
    have "k \<noteq> key" using table_key_unique [OF inv(8) a(2)] s(1) a(1) by blast
    moreover have "unat s' \<noteq> unat s" using a(1) unat_eqI by blast
    then have "entry ix' s' = entry ix s'" by (simp add: entry_def ix')
    ultimately show "((mem_map ix)(key := None)) k = Some (entry ix' s')"
      using mem_map_at [OF assms(1) a(2)] by simp
  next
    fix k e assume "((mem_map ix)(key := None)) k = Some e"
    then have k: "k \<noteq> key" "mem_map ix k = Some e" by (auto split: if_splits)
    then obtain s' where "slot_keys (mi_slots ix) s' = Some k" using mem_map_Some [OF assms(1)] by blast
    moreover from this have "s' \<noteq> s" using s(1) k(1) by auto
    ultimately show "\<exists>s'. slot_keys (mi_slots ix') s' = Some k" by (auto simp: ix' keys)
  qed
  then show ?thesis using inv' by blast
qed

lemma remove_correct:
  assumes "mem_inv ix" "memory_remove ix key = (e, ix')"
  shows "mem_inv ix' \<and> (e, mem_map ix') = remove_spec (mem_map ix) key"
proof (cases "key = 0")
  case True
  then show ?thesis using assms by (simp add: memory_remove_def remove_spec_def)
next
  case key: False
  show ?thesis
  proof (cases "find_slot ix key = kU32Max")
    case True
    then have "mem_map ix key = None" using find_slot_none [OF assms(1)] by blast
    then show ?thesis using assms key True by (simp add: memory_remove_def remove_spec_def)
  next
    case False
    have s: "slot_keys (mi_slots ix) (find_slot ix key) = Some key" by (rule find_slot_some [OF assms(1) False])
    have e: "e = ASTRAL_OK" using assms(2) key False by (simp add: memory_remove_def Let_def)
    have "mem_map ix key \<noteq> None" using mem_map_at [OF assms(1) s] by simp
    then show ?thesis
      using removed_correct [OF assms(1) _ key s refl False] assms(2) e key by (simp add: remove_spec_def)
  qed
qed

end
