(* ===== verification/Memory_Preprocess.thy ===== *)
theory Memory_Preprocess
  imports Memory_Index
begin

text \<open>
  The storing of the vectors of a batch in the memory index (\<open>inference/memory_index.cpp\<close>), in one loop
  or by several workers that each take a range of the batch. A worker's step stores one vector; the
  workers' steps interleave in any order. What is stored for a source vector, \<open>store\<close>, and the test
  for finite values, \<open>finite_values\<close>, are parameters.

  The lemmas show that the workers leave what the loop leaves, provided no two vectors go to the
  same slot, which is the condition under which the code uses them.
\<close>

section \<open>The loop\<close>

text \<open>\<open>memory_add_preprocess_range\<close> over the indices it is given.\<close>

fun preprocess_steps ::
    "('x \<Rightarrow> bool) \<Rightarrow> ('x \<Rightarrow> 'v) \<Rightarrow> 'x list \<Rightarrow> u32 list \<Rightarrow> bool \<Rightarrow> nat list \<Rightarrow> 'v list \<Rightarrow> bool \<times> 'v list" where
  "preprocess_steps finite_values store src slots validate [] vecs = (True, vecs)"
| "preprocess_steps finite_values store src slots validate (i # is) vecs =
     (if validate \<and> \<not> finite_values (src ! i) then (False, vecs)
      else preprocess_steps finite_values store src slots validate is (vecs[unat (slots ! i) := store (src ! i)]))"

definition memory_add_preprocess_range ::
    "('x \<Rightarrow> bool) \<Rightarrow> ('x \<Rightarrow> 'v) \<Rightarrow> 'x list \<Rightarrow> u32 list \<Rightarrow> nat \<Rightarrow> nat \<Rightarrow> bool \<Rightarrow> 'v list \<Rightarrow> bool \<times> 'v list" where
  "memory_add_preprocess_range finite_values store src slots begin_i end_i validate vecs =
     preprocess_steps finite_values store src slots validate [begin_i..<end_i] vecs"

section \<open>The workers\<close>

definition kMemoryAddParallelMinCount :: u32 where
  "kMemoryAddParallelMinCount = 1024"

definition kMemoryAddParallelMaxWorkers :: u32 where
  "kMemoryAddParallelMaxWorkers = 8"

text \<open>The number of workers, 0 when the loop is used.\<close>

definition add_worker_count :: "bool \<Rightarrow> u32 \<Rightarrow> bool \<Rightarrow> u32 \<Rightarrow> u32" where
  "add_worker_count initialized runtime_threads on_worker count =
     (if count < kMemoryAddParallelMinCount \<or> \<not> initialized then 0
      else if runtime_threads < 2 then 0
      else let w = (if on_worker then runtime_threads - 1 else runtime_threads);
               w = (if w > kMemoryAddParallelMaxWorkers then kMemoryAddParallelMaxWorkers else w)
           in if w < 2 then 0 else if w > count then count else w)"

text \<open>The range of each worker, as the next index and the end.\<close>

definition worker_range :: "u32 \<Rightarrow> u32 \<Rightarrow> u32 \<Rightarrow> nat \<times> nat" where
  "worker_range count workers w =
     (let chunk = (count + workers - 1) div workers;
          begin_i = w * chunk;
          end_i = begin_i + chunk
      in (unat begin_i, unat (if end_i > count then count else end_i)))"

definition worker_jobs :: "u32 \<Rightarrow> u32 \<Rightarrow> (nat \<times> nat) list" where
  "worker_jobs count workers = map (\<lambda>w. worker_range count workers (of_nat w)) [0..<unat workers]"

record 'v add_run =
  ar_jobs :: "(nat \<times> nat) list"
  ar_vecs :: "'v list"
  ar_invalid :: bool

text \<open>A step of worker \<open>j\<close>: the next round of its loop. A worker that meets a bad vector stops.\<close>

definition worker_step ::
    "('x \<Rightarrow> bool) \<Rightarrow> ('x \<Rightarrow> 'v) \<Rightarrow> 'x list \<Rightarrow> u32 list \<Rightarrow> bool \<Rightarrow> nat \<Rightarrow> 'v add_run \<Rightarrow> 'v add_run" where
  "worker_step finite_values store src slots validate j st =
     (let (i, end_i) = ar_jobs st ! j in
      if i < end_i then
        (if validate \<and> \<not> finite_values (src ! i)
         then st\<lparr>ar_jobs := (ar_jobs st)[j := (end_i, end_i)], ar_invalid := True\<rparr>
         else st\<lparr>ar_jobs := (ar_jobs st)[j := (Suc i, end_i)],
                 ar_vecs := (ar_vecs st)[unat (slots ! i) := store (src ! i)]\<rparr>)
      else st)"

text \<open>The caller waits until every worker is through: after the steps of the schedule come as many
  turns of each worker as the batch has vectors, which is enough for all of them to end.\<close>

definition finish_turns :: "u32 \<Rightarrow> u32 \<Rightarrow> nat list" where
  "finish_turns count workers = concat (map (\<lambda>j. replicate (unat count) j) [0..<unat workers])"

definition memory_add_preprocess_parallel ::
    "('x \<Rightarrow> bool) \<Rightarrow> ('x \<Rightarrow> 'v) \<Rightarrow> 'x list \<Rightarrow> u32 list \<Rightarrow> u32 \<Rightarrow> bool \<Rightarrow> u32 \<Rightarrow> nat list \<Rightarrow> 'v list \<Rightarrow> bool \<times> 'v list" where
  "memory_add_preprocess_parallel finite_values store src slots count validate workers sched vecs =
     (let turns = filter (\<lambda>j. j < unat workers) sched @ finish_turns count workers;
          st = foldl (\<lambda>st j. worker_step finite_values store src slots validate j st)
                 \<lparr>ar_jobs = worker_jobs count workers, ar_vecs = vecs, ar_invalid = False\<rparr> turns
      in (\<not> ar_invalid st, ar_vecs st))"

section \<open>What the loop leaves\<close>

text \<open>The vectors of the indices in \<open>D\<close> are stored, the other slots are as before.\<close>

definition stored_for :: "('x \<Rightarrow> 'v) \<Rightarrow> 'x list \<Rightarrow> u32 list \<Rightarrow> 'v list \<Rightarrow> nat set \<Rightarrow> 'v list \<Rightarrow> bool" where
  "stored_for store src slots vecs0 D vecs \<longleftrightarrow>
     length vecs = length vecs0 \<and>
     (\<forall>i\<in>D. vecs ! unat (slots ! i) = store (src ! i)) \<and>
     (\<forall>t. (\<forall>i\<in>D. unat (slots ! i) \<noteq> t) \<longrightarrow> vecs ! t = vecs0 ! t)"

lemma stored_for_empty: "stored_for store src slots vecs {} vecs"
  by (simp add: stored_for_def)

lemma stored_for_insert:
  assumes "stored_for store src slots vecs0 D vecs" "unat (slots ! i) < length vecs0"
    and "\<And>j. j \<in> D \<Longrightarrow> j \<noteq> i \<Longrightarrow> slots ! j \<noteq> slots ! i"
  shows "stored_for store src slots vecs0 (insert i D) (vecs[unat (slots ! i) := store (src ! i)])"
  unfolding stored_for_def
proof (intro conjI ballI allI impI)
  have len: "length vecs = length vecs0" using assms(1) by (simp add: stored_for_def)
  then show "length (vecs[unat (slots ! i) := store (src ! i)]) = length vecs0" by simp
  fix j assume "j \<in> insert i D"
  then show "vecs[unat (slots ! i) := store (src ! i)] ! unat (slots ! j) = store (src ! j)"
  proof (cases "j = i")
    case False
    then have "j \<in> D" using \<open>j \<in> insert i D\<close> by simp
    then have "unat (slots ! j) \<noteq> unat (slots ! i)" using assms(3) False unat_eqI by blast
    then show ?thesis using assms(1) \<open>j \<in> D\<close> by (simp add: stored_for_def)
  qed (use assms(2) len in simp)
next
  fix t assume "\<forall>j\<in>insert i D. unat (slots ! j) \<noteq> t"
  then show "vecs[unat (slots ! i) := store (src ! i)] ! t = vecs0 ! t"
    using assms(1) by (simp add: stored_for_def)
qed

lemma stored_for_unique:
  assumes "stored_for store src slots vecs0 D vecs" "stored_for store src slots vecs0 D vecs'"
  shows "vecs = vecs'"
proof (rule nth_equalityI)
  show "length vecs = length vecs'" using assms by (simp add: stored_for_def)
  fix t
  show "vecs ! t = vecs' ! t"
  proof (cases "\<exists>i\<in>D. unat (slots ! i) = t")
    case True
    then obtain i where "i \<in> D" "unat (slots ! i) = t" by blast
    then show ?thesis using assms by (auto simp: stored_for_def)
  next
    case False
    then have "vecs ! t = vecs0 ! t" "vecs' ! t = vecs0 ! t" using assms by (simp_all add: stored_for_def)
    then show ?thesis by simp
  qed
qed

lemma steps_stored:
  assumes "\<And>i j. i < n \<Longrightarrow> j < n \<Longrightarrow> i \<noteq> j \<Longrightarrow> slots ! i \<noteq> slots ! j"
    and "\<And>i. i < n \<Longrightarrow> unat (slots ! i) < length vecs0"
    and "stored_for store src slots vecs0 D vecs" "D \<subseteq> {..<n}" "set is \<subseteq> {..<n}"
    and "\<And>i. i \<in> set is \<Longrightarrow> validate \<Longrightarrow> finite_values (src ! i)"
  shows "\<exists>vecs'. preprocess_steps finite_values store src slots validate is vecs = (True, vecs') \<and>
    stored_for store src slots vecs0 (D \<union> set is) vecs'"
  using assms(3-6)
proof (induction "is" arbitrary: D vecs)
  case Nil
  then show ?case by simp
next
  case (Cons i rest)
  have i: "i < n" using Cons.prems(3) by simp
  have s: "stored_for store src slots vecs0 (insert i D) (vecs[unat (slots ! i) := store (src ! i)])"
    by (rule stored_for_insert [OF Cons.prems(1) assms(2) [OF i]]) (use assms(1) i Cons.prems(2) in blast)
  have "insert i D \<subseteq> {..<n}" "set rest \<subseteq> {..<n}" using Cons.prems(2,3) i by auto
  from Cons.IH [OF s this] Cons.prems(4) show ?case by auto
qed

lemma steps_invalid:
  assumes "i \<in> set is" "validate" "\<not> finite_values (src ! i)"
  shows "\<not> fst (preprocess_steps finite_values store src slots validate is vecs)"
  using assms(1)
proof (induction "is" arbitrary: vecs)
  case (Cons j rest)
  then show ?case using assms(2,3) by (cases "j = i") simp_all
qed simp

text \<open>In any case only the slots of the batch change.\<close>

lemma steps_frame:
  "t \<notin> (\<lambda>i. unat (slots ! i)) ` set is \<Longrightarrow>
   snd (preprocess_steps finite_values store src slots validate is vecs) ! t = vecs ! t"
  by (induction "is" arbitrary: vecs) auto

lemma length_steps [simp]: "length (snd (preprocess_steps finite_values store src slots validate is vecs)) = length vecs"
  by (induction "is" arbitrary: vecs) auto

section \<open>The workers agree with the loop\<close>

definition left_of :: "'v add_run \<Rightarrow> nat \<Rightarrow> nat" where
  "left_of st j = snd (ar_jobs st ! j) - fst (ar_jobs st ! j)"

lemma length_jobs_step [simp]:
  "length (ar_jobs (worker_step finite_values store src slots validate j st)) = length (ar_jobs st)"
  by (simp add: worker_step_def Let_def split: prod.split)

lemma length_jobs_run [simp]:
  "length (ar_jobs (foldl (\<lambda>st j. worker_step finite_values store src slots validate j st) st turns)) = length (ar_jobs st)"
  by (induction turns arbitrary: st) simp_all

lemma step_left:
  assumes "k < length (ar_jobs st)"
  shows "left_of (worker_step finite_values store src slots validate j st) k \<le> left_of st k - (if j = k then 1 else 0)"
  using assms by (auto simp: left_of_def worker_step_def Let_def nth_list_update split: prod.split)

lemma run_left:
  assumes "k < length (ar_jobs st)"
  shows "left_of (foldl (\<lambda>st j. worker_step finite_values store src slots validate j st) st turns) k
    \<le> left_of st k - count_list turns k"
  using assms
proof (induction turns arbitrary: st)
  case (Cons j turns)
  have "left_of (foldl (\<lambda>st j. worker_step finite_values store src slots validate j st) st (j # turns)) k
      \<le> left_of (worker_step finite_values store src slots validate j st) k - count_list turns k"
    using Cons.IH [of "worker_step finite_values store src slots validate j st"] Cons.prems by simp
  then show ?case using step_left [OF Cons.prems, of finite_values store src slots validate j]
    by (auto split: if_splits)
qed simp

lemma count_replicate: "count_list (replicate m j) k = (if j = k then m else 0)"
  by (induction m) auto

lemma count_concat_replicate: "k < m \<Longrightarrow> n \<le> count_list (concat (map (\<lambda>j. replicate n j) [0..<m])) k"
  by (induction m) (auto simp: count_replicate less_Suc_eq)

lemma finish_turns_enough: "k < unat workers \<Longrightarrow> unat count \<le> count_list (finish_turns count workers) k"
  unfolding finish_turns_def by (rule count_concat_replicate)

definition run_inv ::
    "('x \<Rightarrow> bool) \<Rightarrow> ('x \<Rightarrow> 'v) \<Rightarrow> 'x list \<Rightarrow> u32 list \<Rightarrow> bool \<Rightarrow> nat \<Rightarrow> 'v list \<Rightarrow> 'v add_run \<Rightarrow> nat set \<Rightarrow> bool" where
  "run_inv finite_values store src slots validate n vecs0 st D \<longleftrightarrow>
     stored_for store src slots vecs0 D (ar_vecs st) \<and> D \<subseteq> {..<n} \<and>
     (\<forall>j<length (ar_jobs st). snd (ar_jobs st ! j) \<le> n) \<and>
     (\<not> ar_invalid st \<longrightarrow> (\<forall>k<n. k \<in> D \<or>
        (\<exists>j<length (ar_jobs st). fst (ar_jobs st ! j) \<le> k \<and> k < snd (ar_jobs st ! j)))) \<and>
     (ar_invalid st \<longrightarrow> validate \<and> (\<exists>k<n. \<not> finite_values (src ! k))) \<and>
     (\<forall>k\<in>D. validate \<longrightarrow> finite_values (src ! k))"

lemma run_inv_step:
  assumes inv: "run_inv finite_values store src slots validate n vecs0 st D"
    and inj: "\<And>i j. i < n \<Longrightarrow> j < n \<Longrightarrow> i \<noteq> j \<Longrightarrow> slots ! i \<noteq> slots ! j"
    and bound: "\<And>i. i < n \<Longrightarrow> unat (slots ! i) < length vecs0"
    and j: "j < length (ar_jobs st)"
  shows "\<exists>D'. run_inv finite_values store src slots validate n vecs0 (worker_step finite_values store src slots validate j st) D'"
proof -
  obtain i e where ie: "ar_jobs st ! j = (i, e)" by fastforce
  have e: "e \<le> n" using inv j ie by (auto simp: run_inv_def)
  show ?thesis
  proof (cases "i < e")
    case False
    then have "worker_step finite_values store src slots validate j st = st"
      by (simp add: worker_step_def ie)
    then show ?thesis using inv by auto
  next
    case True
    then have i: "i < n" using e by simp
    show ?thesis
    proof (cases "validate \<and> \<not> finite_values (src ! i)")
      case bad: True
      then have "worker_step finite_values store src slots validate j st =
          st\<lparr>ar_jobs := (ar_jobs st)[j := (e, e)], ar_invalid := True\<rparr>"
        using True by (simp add: worker_step_def ie)
      then have "run_inv finite_values store src slots validate n vecs0 (worker_step finite_values store src slots validate j st) D"
        using inv bad i e j unfolding run_inv_def by (auto simp: nth_list_update)
      then show ?thesis ..
    next
      case good: False
      have w: "worker_step finite_values store src slots validate j st =
          st\<lparr>ar_jobs := (ar_jobs st)[j := (Suc i, e)], ar_vecs := (ar_vecs st)[unat (slots ! i) := store (src ! i)]\<rparr>"
        using True good by (auto simp: worker_step_def ie)
      have D: "D \<subseteq> {..<n}" using inv by (simp add: run_inv_def)
      have st: "stored_for store src slots vecs0 (insert i D) ((ar_vecs st)[unat (slots ! i) := store (src ! i)])"
        by (rule stored_for_insert [OF _ bound [OF i]]) (use inv inj i D in \<open>auto simp: run_inv_def\<close>)
      have cover: "k \<in> insert i D \<or> (\<exists>j'<length (ar_jobs st). fst ((ar_jobs st)[j := (Suc i, e)] ! j') \<le> k \<and>
          k < snd ((ar_jobs st)[j := (Suc i, e)] ! j'))"
        if "\<not> ar_invalid st" "k < n" for k
      proof (cases "k \<in> insert i D")
        case False
        have "k \<in> D \<or> (\<exists>j<length (ar_jobs st). fst (ar_jobs st ! j) \<le> k \<and> k < snd (ar_jobs st ! j))"
          using inv that unfolding run_inv_def by blast
        then obtain j' where j': "j' < length (ar_jobs st)" "fst (ar_jobs st ! j') \<le> k" "k < snd (ar_jobs st ! j')"
          using False by blast
        then show ?thesis using False ie j by (intro disjI2 exI [of _ j']) (auto simp: nth_list_update)
      qed simp
      have "run_inv finite_values store src slots validate n vecs0 (worker_step finite_values store src slots validate j st) (insert i D)"
        unfolding w run_inv_def
      proof (intro conjI)
        show "\<forall>j'<length (ar_jobs (st\<lparr>ar_jobs := (ar_jobs st)[j := (Suc i, e)], ar_vecs := (ar_vecs st)[unat (slots ! i) := store (src ! i)]\<rparr>)).
            snd (ar_jobs (st\<lparr>ar_jobs := (ar_jobs st)[j := (Suc i, e)], ar_vecs := (ar_vecs st)[unat (slots ! i) := store (src ! i)]\<rparr>) ! j') \<le> n"
          using inv e j by (auto simp: run_inv_def nth_list_update)
      qed (use st D i cover good inv in \<open>auto simp: run_inv_def\<close>)
      then show ?thesis ..
    qed
  qed
qed

lemma run_inv_turns:
  assumes inj: "\<And>i j. i < n \<Longrightarrow> j < n \<Longrightarrow> i \<noteq> j \<Longrightarrow> slots ! i \<noteq> slots ! j"
    and bound: "\<And>i. i < n \<Longrightarrow> unat (slots ! i) < length vecs0"
    and "run_inv finite_values store src slots validate n vecs0 st D" "\<And>j. j \<in> set turns \<Longrightarrow> j < length (ar_jobs st)"
  shows "\<exists>D'. run_inv finite_values store src slots validate n vecs0
    (foldl (\<lambda>st j. worker_step finite_values store src slots validate j st) st turns) D'"
  using assms(3,4)
proof (induction turns arbitrary: st D)
  case Nil
  then show ?case by auto
next
  case (Cons j turns)
  have j: "j < length (ar_jobs st)" using Cons.prems(2) by simp
  obtain D' where "run_inv finite_values store src slots validate n vecs0 (worker_step finite_values store src slots validate j st) D'"
    using run_inv_step [OF Cons.prems(1) inj bound j] by blast
  from Cons.IH [OF this] Cons.prems(2) show ?case by simp
qed

lemma ranges_cover:
  assumes "k < unat count" "unat count \<le> 2 ^ 31" "2 \<le> unat workers" "unat workers \<le> 8" "8 \<le> unat count"
  shows "\<exists>w<unat workers. fst (worker_range count workers (of_nat w)) \<le> k \<and> k < snd (worker_range count workers (of_nat w))"
proof -
  let ?n = "unat count" and ?w = "unat workers"
  define c where "c = (?n + ?w - 1) div ?w"
  have s: "unat (count + workers - 1) = ?n + ?w - 1"
  proof -
    have "unat (count + workers) = ?n + ?w" using assms(2,4) by (simp add: unat_word_ariths)
    then show ?thesis using assms(3) by (simp add: unat_sub word_le_nat_alt)
  qed
  define ch where "ch = (count + workers - 1) div workers"
  have chunk: "unat ch = c" by (simp add: ch_def unat_div s c_def)
  have "?n \<le> ?w * c"
  proof -
    have "?n + ?w - 1 = ?w * c + (?n + ?w - 1) mod ?w" by (simp add: c_def)
    moreover have "(?n + ?w - 1) mod ?w < ?w" using assms(3) by simp
    ultimately show ?thesis by linarith
  qed
  then have kw: "k div c < ?w" using assms(1) by (metis less_mult_imp_div_less less_le_trans mult.commute)
  have c0: "0 < c" using \<open>?n \<le> ?w * c\<close> assms(1) by (cases c) auto
  have cn: "c \<le> ?n"
  proof -
    have "?n + ?w - 1 \<le> ?w * ?n" using assms(3-5) by (smt (verit) add.commute add_diff_cancel_left' diff_le_self le_trans mult_le_mono1 nat_add_left_cancel_le mult_2)
    then show ?thesis unfolding c_def using assms(3) by (metis div_le_mono nonzero_mult_div_cancel_left not_numeral_le_zero)
  qed
  let ?k = "k div c"
  have kc: "?k * c \<le> k" "k < ?k * c + c" using c0 by (simp_all add: div_mult_mod_eq flip: mult_Suc) (metis add.commute dividend_less_div_times)
  have uk: "unat (of_nat ?k :: u32) = ?k" using kw assms(4) by (simp add: unsigned_of_nat take_bit_nat_eq_self)
  have n: "?n + ?n \<le> 2 ^ 32" using assms(2) by simp
  have "?k * c < 2 ^ 32" using kc(1) assms(1) n by linarith
  then have b: "unat (of_nat ?k * ch) = ?k * c"
    by (simp add: unat_word_ariths chunk uk)
  have "?k * c + c < 2 ^ 32" using kc(1) assms(1) cn n by linarith
  then have e: "unat (of_nat ?k * ch + ch) = ?k * c + c"
    by (subst unat_word_ariths(1)) (simp add: chunk b)
  show ?thesis
    using kw kc b e assms(1) by (intro exI [of _ ?k]) (auto simp: worker_range_def Let_def word_less_nat_alt simp flip: ch_def)
qed

lemma range_end: "snd (worker_range count workers w) \<le> unat count"
  by (auto simp: worker_range_def Let_def word_less_nat_alt not_less)

text \<open>The workers answer as the loop does, and when the vectors are accepted they leave the same.\<close>

lemma parallel_is_loop:
  assumes inj: "distinct slots" and len: "length slots = unat count" "length src = unat count"
    and bound: "\<And>s. s \<in> set slots \<Longrightarrow> unat s < length vecs"
    and size: "unat count \<le> 2 ^ 31" and w: "workers = add_worker_count initialized threads on_worker count" "workers \<noteq> 0"
    and run: "memory_add_preprocess_parallel finite_values store src slots count validate workers sched vecs = (ok, vecs')"
  shows "ok = (validate \<longrightarrow> (\<forall>x\<in>set src. finite_values x)) \<and>
    (ok \<longrightarrow> memory_add_preprocess_range finite_values store src slots 0 (unat count) validate vecs = (True, vecs')) \<and>
    length vecs' = length vecs \<and> (\<forall>t. (\<forall>s\<in>set slots. unat s \<noteq> t) \<longrightarrow> vecs' ! t = vecs ! t)"
proof -
  let ?n = "unat count"
  have W: "2 \<le> unat workers" "unat workers \<le> 8" "8 \<le> ?n"
    using w unfolding add_worker_count_def
    by (auto simp: Let_def kMemoryAddParallelMinCount_def kMemoryAddParallelMaxWorkers_def
      word_less_nat_alt word_le_nat_alt not_less split: if_splits)
  have inj': "slots ! i \<noteq> slots ! j" if "i < ?n" "j < ?n" "i \<noteq> j" for i j
    using that inj len by (simp add: nth_eq_iff_index_eq)
  have bound': "unat (slots ! i) < length vecs" if "i < ?n" for i
    using bound [OF nth_mem, of i] that len by simp
  let ?st0 = "\<lparr>ar_jobs = worker_jobs count workers, ar_vecs = vecs, ar_invalid = False\<rparr>"
  let ?turns = "filter (\<lambda>j. j < unat workers) sched @ finish_turns count workers"
  define st where "st = foldl (\<lambda>st j. worker_step finite_values store src slots validate j st) ?st0 ?turns"
  have jobs: "length (ar_jobs ?st0) = unat workers" by (simp add: worker_jobs_def)
  have nth: "worker_jobs count workers ! j = worker_range count workers (of_nat j)" if "j < unat workers" for j
    using that by (simp add: worker_jobs_def)
  have "\<exists>j<unat workers. fst (worker_jobs count workers ! j) \<le> k \<and> k < snd (worker_jobs count workers ! j)"
    if "k < ?n" for k
    using ranges_cover [OF that size W] nth by auto
  then have "run_inv finite_values store src slots validate ?n vecs ?st0 {}"
    using range_end [of count workers] nth jobs
    by (simp add: run_inv_def stored_for_empty)
  moreover have "j < length (ar_jobs ?st0)" if "j \<in> set ?turns" for j
    using that unfolding jobs by (auto simp: finish_turns_def)
  ultimately obtain D where D: "run_inv finite_values store src slots validate ?n vecs st D"
    unfolding st_def using run_inv_turns [OF inj' bound'] by blast
  have through: "snd (ar_jobs st ! j) \<le> fst (ar_jobs st ! j)" if "j < length (ar_jobs st)" for j
  proof -
    have j: "j < unat workers" using that jobs unfolding st_def by simp
    have "left_of ?st0 j \<le> ?n"
      using range_end [of count workers "of_nat j"] j by (simp add: left_of_def worker_jobs_def)
    moreover have "left_of st j \<le> left_of ?st0 j - count_list ?turns j"
      unfolding st_def by (rule run_left) (use jobs j in simp)
    moreover have "?n \<le> count_list ?turns j" using finish_turns_enough [OF j, of count] by simp
    ultimately show ?thesis using finish_turns_enough [OF j, of count] by (simp add: left_of_def)
  qed
  have res: "ok = (\<not> ar_invalid st)" "vecs' = ar_vecs st"
    using run by (simp_all add: memory_add_preprocess_parallel_def st_def Let_def)
  have sub: "D \<subseteq> {..<?n}" and stored: "stored_for store src slots vecs D vecs'"
    and fin: "\<And>k. k \<in> D \<Longrightarrow> validate \<Longrightarrow> finite_values (src ! k)"
    using D unfolding run_inv_def res by blast+
  have all: "D = {..<?n}" if ok
  proof -
    have "k \<in> D" if "k < ?n" for k
      using D through \<open>ok\<close> that unfolding run_inv_def res by (meson le_less_trans not_le)
    then show ?thesis using sub by auto
  qed
  have good: "ok = (validate \<longrightarrow> (\<forall>x\<in>set src. finite_values x))"
  proof
    assume ok
    then show "validate \<longrightarrow> (\<forall>x\<in>set src. finite_values x)"
      using fin len all by (auto simp: in_set_conv_nth)
  next
    assume a: "validate \<longrightarrow> (\<forall>x\<in>set src. finite_values x)"
    show ok
    proof (rule ccontr)
      assume "\<not> ok"
      then obtain k where "validate" "k < ?n" "\<not> finite_values (src ! k)"
        using D unfolding run_inv_def res by blast
      then show False using a len nth_mem [of k src] by auto
    qed
  qed
  have loop: "memory_add_preprocess_range finite_values store src slots 0 ?n validate vecs = (True, vecs')" if ok
  proof -
    have "\<exists>v. preprocess_steps finite_values store src slots validate [0..<?n] vecs = (True, v) \<and>
        stored_for store src slots vecs ({} \<union> set [0..<?n]) v"
      by (rule steps_stored [OF inj' bound' stored_for_empty]) (use good that len in auto)
    then obtain v where v: "preprocess_steps finite_values store src slots validate [0..<?n] vecs = (True, v)"
      "stored_for store src slots vecs {..<?n} v"
      by (auto simp: atLeast0LessThan)
    have "v = vecs'" using stored_for_unique v(2) stored all [OF that] by blast
    then show ?thesis using v(1) by (simp add: memory_add_preprocess_range_def)
  qed
  have "vecs' ! t = vecs ! t" if "\<forall>s\<in>set slots. unat s \<noteq> t" for t
  proof -
    have "unat (slots ! i) \<noteq> t" if "i \<in> D" for i
    proof -
      have "slots ! i \<in> set slots" using that sub len(1) by (intro nth_mem) auto
      then show ?thesis using \<open>\<forall>s\<in>set slots. unat s \<noteq> t\<close> by blast
    qed
    then show ?thesis using stored unfolding stored_for_def by blast
  qed
  then show ?thesis using good loop stored by (simp add: stored_for_def)
qed

end
