(* ===== verification/Memory_Seen.thy ===== *)
theory Memory_Seen
  imports Key_Table
begin

text \<open>
  The small hash table of \<open>memory_add_batch\<close> (\<open>MemoryAddSeenScratch\<close> of \<open>inference/memory_index.cpp\<close>): it
  remembers the slots of the existing records that a batch meets, to see a slot that is met twice.
  Its loop has no bound of its own; the lemmas show that it ends while an entry is free, and that the
  table is the set of the slots that were marked.
\<close>

section \<open>The slots that were met\<close>

text \<open>\<open>memory_add_plan_capacity\<close>; \<open>None\<close> when its loop does not end.\<close>

definition memory_add_plan_capacity :: "u32 \<Rightarrow> u32 option" where
  "memory_add_plan_capacity count = (if count > push_bit 30 1 then Some 0 else double_until (count * 2) 1)"

text \<open>\<open>MemoryAddSeenScratch::mark\<close>: whether the slot is new, and the entries after.\<close>

partial_function (option) mark_probe :: "u32 option list \<Rightarrow> u32 \<Rightarrow> u32 \<Rightarrow> (bool \<times> u32 option list) option" where
  "mark_probe entries slot pos =
     (case entries ! unat pos of
        Some s \<Rightarrow> if s = slot then Some (False, entries)
          else mark_probe entries slot ((pos + 1) AND (of_nat (length entries) - 1))
      | None \<Rightarrow> Some (True, entries[unat pos := Some slot]))"

definition seen_mark :: "u32 option list \<Rightarrow> u32 \<Rightarrow> (bool \<times> u32 option list) option" where
  "seen_mark entries slot = mark_probe entries slot (slot * 0x9e3779b1 AND (of_nat (length entries) - 1))"

definition seen_home :: "u32 \<Rightarrow> nat" where
  "seen_home slot = unat (slot * 0x9e3779b1)"

definition seen_ok :: "u32 option list \<Rightarrow> u32 set \<Rightarrow> bool" where
  "seen_ok entries S \<longleftrightarrow> is_pow2 (length entries) \<and> length entries < 2 ^ 32 \<and> finite S \<and>
     (\<forall>p<length entries. \<forall>s. entries ! p = Some s \<longrightarrow> s \<in> S) \<and>
     (\<forall>p<length entries. \<forall>q<length entries. entries ! p \<noteq> None \<longrightarrow> entries ! p = entries ! q \<longrightarrow> p = q) \<and>
     (\<forall>s\<in>S. \<exists>d<length entries. entries ! ((seen_home s + d) mod length entries) = Some s \<and>
        (\<forall>e<d. entries ! ((seen_home s + e) mod length entries) \<noteq> None))"

lemma seen_okD:
  assumes "seen_ok entries S"
  shows "is_pow2 (length entries)" "length entries < 2 ^ 32" "finite S"
    and "\<And>p s. p < length entries \<Longrightarrow> entries ! p = Some s \<Longrightarrow> s \<in> S"
    and "\<And>p q. p < length entries \<Longrightarrow> q < length entries \<Longrightarrow> entries ! p \<noteq> None \<Longrightarrow> entries ! p = entries ! q \<Longrightarrow> p = q"
    and "\<And>s. s \<in> S \<Longrightarrow> \<exists>d<length entries. entries ! ((seen_home s + d) mod length entries) = Some s \<and>
        (\<forall>e<d. entries ! ((seen_home s + e) mod length entries) \<noteq> None)"
  using assms unfolding seen_ok_def by blast+

lemma seen_ok_fresh: "is_pow2 n \<Longrightarrow> n < 2 ^ 32 \<Longrightarrow> seen_ok (replicate n None) {}"
  by (simp add: seen_ok_def)

lemma seen_next:
  assumes "is_pow2 c" "c < 2 ^ 32" "unat (p :: u32) = (h + d) mod c"
  shows "unat ((p + 1) AND (of_nat c - 1)) = (h + Suc d) mod c"
proof -
  have "table_shape (replicate c (0 :: u32)) (of_nat c - 1)" using assms by (simp add: table_shape_def)
  from next_pos [OF this, of p h d] assms(3) show ?thesis by simp
qed

text \<open>The probing goes over entries of other slots, to the slot or to a free entry.\<close>

lemma mark_probe_reaches:
  assumes c: "is_pow2 (length entries)" "length entries < 2 ^ 32"
    and pass: "\<And>e. e < d \<Longrightarrow> \<exists>s. entries ! ((h + e) mod length entries) = Some s \<and> s \<noteq> slot"
    and "unat p = (h + d0) mod length entries" "d0 \<le> d" "unat p' = (h + d) mod length entries"
  shows "mark_probe entries slot p = mark_probe entries slot p'"
  using assms(4,5)
proof (induction "d - d0" arbitrary: d0 p)
  case 0
  then have "p = p'" using assms(6) by (intro unat_eqI) simp
  then show ?case by simp
next
  case (Suc n)
  then have lt: "d0 < d" by simp
  obtain s where s: "entries ! unat p = Some s" "s \<noteq> slot" using pass [OF lt] Suc.prems(1) by auto
  have "mark_probe entries slot p = mark_probe entries slot ((p + 1) AND (of_nat (length entries) - 1))"
    by (subst mark_probe.simps) (simp add: s)
  also have "\<dots> = mark_probe entries slot p'"
    by (rule Suc.hyps(1) [OF _ seen_next [OF c Suc.prems(1)]]) (use Suc.hyps(2) lt in auto)
  finally show ?case .
qed

lemma seen_home_pos: "is_pow2 c \<Longrightarrow> c < 2 ^ 32 \<Longrightarrow>
  unat (slot * 0x9e3779b1 AND (of_nat c - 1)) = (seen_home slot + 0) mod c"
  by (simp add: unat_and_mask seen_home_def)

lemma pos_word:
  assumes "0 < length entries" "length entries < 2 ^ 32"
  shows "unat (of_nat ((h + d) mod length entries) :: u32) = (h + d) mod length entries"
proof -
  have "(h + d) mod length entries < length entries" using assms(1) by simp
  then have "(h + d) mod length entries < 2 ^ 32" using assms(2) by linarith
  then show ?thesis by (simp add: unsigned_of_nat take_bit_nat_eq_self)
qed

lemma seen_mark_again:
  assumes "seen_ok entries S" "slot \<in> S"
  shows "seen_mark entries slot = Some (False, entries)"
proof -
  note ok = seen_okD [OF assms(1)]
  let ?c = "length entries" and ?h = "seen_home slot"
  have c0: "0 < ?c" by (rule is_pow2_pos [OF ok(1)])
  obtain d where d: "d < ?c" "entries ! ((?h + d) mod ?c) = Some slot" "\<forall>e<d. entries ! ((?h + e) mod ?c) \<noteq> None"
    using ok(6) [OF assms(2)] by blast
  have pass: "\<exists>s. entries ! ((?h + e) mod ?c) = Some s \<and> s \<noteq> slot" if "e < d" for e
  proof -
    have "entries ! ((?h + e) mod ?c) \<noteq> None" using d(3) that by blast
    then obtain s where s: "entries ! ((?h + e) mod ?c) = Some s" by blast
    have "(?h + e) mod ?c \<noteq> (?h + d) mod ?c" using mod_add_inj [of e ?c d ?h] that d(1) by auto
    then have "s \<noteq> slot" using ok(5) [of "(?h + e) mod ?c" "(?h + d) mod ?c"] s d(2) c0 by auto
    then show ?thesis using s by blast
  qed
  have "seen_mark entries slot = mark_probe entries slot (of_nat ((?h + d) mod ?c))"
    unfolding seen_mark_def
    by (rule mark_probe_reaches [OF ok(1,2) pass seen_home_pos [OF ok(1,2)] _ pos_word [OF c0 ok(2)]]) simp_all
  also have "\<dots> = Some (False, entries)"
    by (subst mark_probe.simps) (simp only: pos_word [OF c0 ok(2)] d(2) option.case if_True simp_thms)
  finally show ?thesis .
qed

text \<open>A first free entry, in the order of the probing.\<close>

lemma seen_free_entry:
  assumes "seen_ok entries S" "card S < length entries"
  shows "\<exists>p<length entries. entries ! p = None"
proof -
  note ok = seen_okD [OF assms(1)]
  let ?c = "length entries"
  show ?thesis
  proof (rule ccontr)
    assume "\<not> (\<exists>p<?c. entries ! p = None)"
    then have full: "entries ! p \<noteq> None" if "p < ?c" for p using that by auto
    have "inj_on (\<lambda>p. the (entries ! p)) {..<?c}"
    proof (rule inj_onI)
      fix p q assume pq: "p \<in> {..<?c}" "q \<in> {..<?c}" "the (entries ! p) = the (entries ! q)"
      have p: "p < ?c" and q: "q < ?c" using pq(1,2) by simp_all
      obtain x where x: "entries ! p = Some x" using full [OF p] by blast
      obtain y where y: "entries ! q = Some y" using full [OF q] by blast
      have "entries ! p = entries ! q" using pq(3) x y by simp
      then show "p = q" by (rule ok(5) [OF p q full [OF p]])
    qed
    moreover have "(\<lambda>p. the (entries ! p)) ` {..<?c} \<subseteq> S"
    proof
      fix x assume "x \<in> (\<lambda>p. the (entries ! p)) ` {..<?c}"
      then obtain p where p: "p < ?c" "x = the (entries ! p)" by (auto simp: image_iff)
      obtain y where y: "entries ! p = Some y" using full [OF p(1)] by blast
      show "x \<in> S" using ok(4) [OF p(1) y] y p(2) by simp
    qed
    ultimately have "card {..<?c} \<le> card S" by (rule card_inj_on_le [OF _ _ ok(3)])
    then show False using assms(2) by simp
  qed
qed

lemma seen_free:
  assumes "seen_ok entries S" "card S < length entries"
  obtains d where "d < length entries" "entries ! ((h + d) mod length entries) = None"
    "\<And>e. e < d \<Longrightarrow> entries ! ((h + e) mod length entries) \<noteq> None"
proof -
  let ?c = "length entries"
  from seen_free_entry [OF assms] obtain p0 where "p0 < ?c" "entries ! p0 = None" by blast
  moreover from offset_exists [OF this(1), of h] obtain d0 where "d0 < ?c" "(h + d0) mod ?c = p0" by blast
  ultimately have d0: "d0 < ?c" "entries ! ((h + d0) mod ?c) = None" by (simp_all only:)
  define d where "d = (LEAST d. entries ! ((h + d) mod ?c) = None)"
  have d: "entries ! ((h + d) mod ?c) = None" unfolding d_def by (rule LeastI) (rule d0(2))
  have "d \<le> d0" unfolding d_def by (rule Least_le) (rule d0(2))
  then have dc: "d < ?c" using d0(1) by simp
  have before: "entries ! ((h + e) mod ?c) \<noteq> None" if "e < d" for e
    using not_less_Least [OF that [unfolded d_def]] .
  show thesis by (rule that [OF dc d before])
qed

lemma seen_put:
  assumes "seen_ok entries S" "slot \<notin> S" and d: "d < length entries"
    "entries ! ((seen_home slot + d) mod length entries) = None"
    "\<And>e. e < d \<Longrightarrow> entries ! ((seen_home slot + e) mod length entries) \<noteq> None"
  shows "seen_ok (entries[(seen_home slot + d) mod length entries := Some slot]) (insert slot S)"
proof -
  note ok = seen_okD [OF assms(1)]
  let ?c = "length entries" and ?p = "(seen_home slot + d) mod length entries"
  let ?new = "entries[?p := Some slot]"
  have p: "?p < ?c" using is_pow2_pos [OF ok(1)] by simp
  have other: "entries ! q \<noteq> Some slot" if "q < ?c" for q using ok(4) [OF that] assms(2) by blast
  have a: "s \<in> insert slot S" if "q < ?c" "?new ! q = Some s" for q s
    using ok(4) [of q s] that p by (cases "q = ?p") simp_all
  have b: "q = r" if "q < ?c" "r < ?c" "?new ! q \<noteq> None" "?new ! q = ?new ! r" for q r
    using ok(5) [of q r] other [of q] other [of r] that p by (cases "q = ?p"; cases "r = ?p") simp_all
  have c: "\<exists>d<?c. ?new ! ((seen_home s + d) mod ?c) = Some s \<and> (\<forall>e<d. ?new ! ((seen_home s + e) mod ?c) \<noteq> None)"
    if s: "s \<in> insert slot S" for s
  proof (cases "s = slot")
    case True
    have "?new ! ((seen_home slot + e) mod ?c) \<noteq> None" if "e < d" for e
      using d(3) [OF that] p by (simp add: nth_list_update)
    then show ?thesis using d(1) p True by (intro exI [of _ d]) simp
  next
    case False
    then obtain d' where d': "d' < ?c" "entries ! ((seen_home s + d') mod ?c) = Some s"
      "\<forall>e<d'. entries ! ((seen_home s + e) mod ?c) \<noteq> None"
      using ok(6) s by blast
    then have "(seen_home s + d') mod ?c \<noteq> ?p" using d(2) by auto
    moreover have "?new ! ((seen_home s + e) mod ?c) \<noteq> None" if "e < d'" for e
      using d'(3) that p by (simp add: nth_list_update)
    ultimately show ?thesis using d'(1,2) by (intro exI [of _ d']) simp
  qed
  show ?thesis
    unfolding seen_ok_def length_list_update using ok(1-3) a b c by blast
qed

lemma seen_mark_new:
  assumes "seen_ok entries S" "slot \<notin> S" "card S < length entries"
  shows "\<exists>entries'. seen_mark entries slot = Some (True, entries') \<and> seen_ok entries' (insert slot S) \<and>
    length entries' = length entries"
proof -
  note ok = seen_okD [OF assms(1)]
  let ?c = "length entries" and ?h = "seen_home slot"
  have c0: "0 < ?c" by (rule is_pow2_pos [OF ok(1)])
  obtain d where d: "d < ?c" "entries ! ((?h + d) mod ?c) = None"
    "\<And>e. e < d \<Longrightarrow> entries ! ((?h + e) mod ?c) \<noteq> None"
    by (rule seen_free [OF assms(1,3), where h = "seen_home slot"]) blast
  have pass: "\<exists>s. entries ! ((?h + e) mod ?c) = Some s \<and> s \<noteq> slot" if "e < d" for e
  proof -
    have "entries ! ((?h + e) mod ?c) \<noteq> None" by (rule d(3) [OF that])
    then obtain s where s: "entries ! ((?h + e) mod ?c) = Some s" by blast
    have "(?h + e) mod ?c < ?c" using c0 by simp
    from ok(4) [OF this s] show ?thesis using s assms(2) by blast
  qed
  have "seen_mark entries slot = mark_probe entries slot (of_nat ((?h + d) mod ?c))"
    unfolding seen_mark_def
    by (rule mark_probe_reaches [OF ok(1,2) pass seen_home_pos [OF ok(1,2)] _ pos_word [OF c0 ok(2)]]) simp_all
  also have "\<dots> = Some (True, entries[(?h + d) mod ?c := Some slot])"
    by (subst mark_probe.simps) (simp only: pos_word [OF c0 ok(2)] d(2) option.case)
  finally show ?thesis using seen_put [OF assms(1,2) d] by simp
qed

end
