(* ===== verification/Memory_Add.thy ===== *)
theory Memory_Add
  imports Memory_Preprocess Memory_Seen
begin

text \<open>
  Adding a batch to the memory index (\<open>memory_add_batch\<close> of \<open>inference/memory_index.cpp\<close>). The batch
  is staged: each record gets a slot, a free one for a new key, which joins the end of the list of
  active slots while \<open>count\<close> keeps its old value. Then the records and the vectors are written, and at
  last \<open>count\<close> takes the new ones in. Whatever fails before undoes the staging.

  The main results: an accepted batch updates the map the
  index stands for record by record, a refused one leaves it, and a batch that fits is accepted.
\<close>

section \<open>Staging\<close>

definition kMemoryAddStackSlots :: u32 where
  "kMemoryAddStackSlots = 256"

definition kMemoryAddPlanStackEntries :: u32 where
  "kMemoryAddPlanStackEntries = 512"

text \<open>The state of the loop over the batch: the index, the staged count, the slots so far, the two
  flags, and the table of the existing slots once it is there.\<close>

record 'v add_state =
  ad_index :: "'v mem_index"
  ad_staged :: u32
  ad_slots :: "u32 list"
  ad_dup :: bool
  ad_upd :: bool
  ad_seen :: "u32 option list option"

text \<open>A new key takes a free slot and the next place of the list.\<close>

definition claim_slot :: "mem_record \<Rightarrow> u32 \<Rightarrow> u32 \<Rightarrow> 'v mem_index \<Rightarrow> 'v mem_index" where
  "claim_slot r slot staged ix =
     ix\<lparr>mi_dense_active := mi_dense_active ix \<and> slot = staged,
        mi_slots := (mi_slots ix)[unat slot := \<lparr>slot_record = r, slot_active_pos = staged, slot_occupied = True\<rparr>],
        mi_active_slots := (mi_active_slots ix)[unat staged := slot],
        mi_free_slot_hint := (if slot + 1 = mi_capacity ix then 0 else slot + 1)\<rparr>"

definition stage_new :: "mem_record \<Rightarrow> 'v add_state \<Rightarrow> astral_err option \<times> 'v add_state" where
  "stage_new r st =
     (let slot = find_free_slot (ad_index st) in
      if slot = kU32Max then (Some ASTRAL_E_NOMEM, st)
      else let ix = claim_slot r slot (ad_staged st) (ad_index st);
               (e, t) = key_table_insert_new_hashed (mi_key_table ix) (mi_key_table_mask ix) (key_hash_mix (rec_key r)) slot;
               st' = st\<lparr>ad_index := ix\<lparr>mi_key_table := t\<rparr>, ad_staged := ad_staged st + 1\<rparr>
           in if e \<noteq> ASTRAL_OK then (Some e, st')
              else (None, st'\<lparr>ad_slots := ad_slots st @ [slot]\<rparr>))"

text \<open>A key that has a slot, of this batch or from before. \<open>seen_alloc\<close> says whether a table
  of the existing slots that does not fit the stack can be allocated; it has \<open>memory_add_plan_capacity\<close> entries. \<open>None\<close> when a loop
  does not end.\<close>

definition seen_table :: "bool \<Rightarrow> u32 \<Rightarrow> 'v add_state \<Rightarrow> u32 option list option option" where
  "seen_table seen_alloc count st =
     (case ad_seen st of Some entries \<Rightarrow> Some (Some entries)
      | None \<Rightarrow> (case memory_add_plan_capacity count of None \<Rightarrow> None
          | Some c \<Rightarrow> Some (if c = 0 \<or> c > kMemoryAddPlanStackEntries \<and> \<not> seen_alloc then None else Some (replicate (unat c) None))))"

definition stage_existing :: "u32 \<Rightarrow> bool \<Rightarrow> u32 \<Rightarrow> u32 \<Rightarrow> 'v add_state \<Rightarrow> (astral_err option \<times> 'v add_state) option" where
  "stage_existing initial_count seen_alloc count slot st =
     (if slot_active_pos (mi_slots (ad_index st) ! unat slot) \<ge> initial_count
      then Some (None, st\<lparr>ad_dup := True, ad_slots := ad_slots st @ [slot]\<rparr>)
      else case seen_table seen_alloc count st of None \<Rightarrow> None
        | Some None \<Rightarrow> Some (Some ASTRAL_E_NOMEM, st\<lparr>ad_upd := True\<rparr>)
        | Some (Some entries) \<Rightarrow>
            (case seen_mark entries slot of None \<Rightarrow> None
             | Some (new, entries') \<Rightarrow>
                 Some (None, st\<lparr>ad_upd := True, ad_seen := Some entries', ad_dup := ad_dup st \<or> \<not> new,
                   ad_slots := ad_slots st @ [slot]\<rparr>)))"

definition stage_record :: "u32 \<Rightarrow> bool \<Rightarrow> u32 \<Rightarrow> mem_record \<Rightarrow> 'v add_state \<Rightarrow> (astral_err option \<times> 'v add_state) option" where
  "stage_record initial_count seen_alloc count r st =
     (let slot = find_slot (ad_index st) (rec_key r) in
      if slot = kU32Max then Some (stage_new r st)
      else stage_existing initial_count seen_alloc count slot st)"

fun stage_all :: "u32 \<Rightarrow> bool \<Rightarrow> u32 \<Rightarrow> mem_record list \<Rightarrow> 'v add_state \<Rightarrow> (astral_err option \<times> 'v add_state) option" where
  "stage_all initial_count seen_alloc count [] st = Some (None, st)"
| "stage_all initial_count seen_alloc count (r # rs) st =
     (case stage_record initial_count seen_alloc count r st of
        None \<Rightarrow> None
      | Some (Some e, st') \<Rightarrow> Some (Some e, st')
      | Some (None, st') \<Rightarrow> stage_all initial_count seen_alloc count rs st')"

section \<open>Undoing, writing and taking in\<close>

definition memory_add_rollback_new_slots :: "u32 \<Rightarrow> u32 \<Rightarrow> u32 \<Rightarrow> bool \<Rightarrow> 'v mem_index \<Rightarrow> 'v mem_index" where
  "memory_add_rollback_new_slots initial_count staged initial_hint initial_dense ix =
     (let ix1 = foldl (\<lambda>ix p. let slot = mi_active_slots ix ! p in
                  ix\<lparr>mi_active_slots := (mi_active_slots ix)[p := 0],
                     mi_slots := (mi_slots ix)[unat slot := zero_slot]\<rparr>)
                ix [unat initial_count..<unat staged]
      in ix1\<lparr>mi_free_slot_hint := initial_hint, mi_dense_active := initial_dense,
             mi_key_table := key_table_rebuild (mi_slots ix1) (mi_key_table ix1) (mi_key_table_mask ix1)
                               (take (unat (mi_count ix1)) (mi_active_slots ix1))\<rparr>)"

definition write_records :: "mem_record list \<Rightarrow> u32 list \<Rightarrow> 'v mem_index \<Rightarrow> 'v mem_index" where
  "write_records records slots ix =
     foldl (\<lambda>ix (r, s). set_record r (unat s) ix) ix (zip records slots)"

text \<open>What the machine gives: whether the allocations succeed, the threads, and the order of the
  workers' steps.\<close>

record add_env =
  ae_scratch_alloc :: bool
  ae_seen_alloc :: bool
  ae_initialized :: bool
  ae_threads :: u32
  ae_on_worker :: bool
  ae_sched :: "nat list"

definition store_vectors ::
    "('x \<Rightarrow> bool) \<Rightarrow> ('x \<Rightarrow> 'v) \<Rightarrow> add_env \<Rightarrow> 'x list \<Rightarrow> u32 list \<Rightarrow> u32 \<Rightarrow> bool \<Rightarrow> bool \<Rightarrow> 'v list \<Rightarrow> bool \<times> 'v list" where
  "store_vectors finite_values store env vectors slots count has_dup validate vecs =
     (let workers = add_worker_count (ae_initialized env) (ae_threads env) (ae_on_worker env) count in
      if has_dup \<or> workers = 0
      then memory_add_preprocess_range finite_values store vectors slots 0 (unat count) validate vecs
      else memory_add_preprocess_parallel finite_values store vectors slots count validate workers (ae_sched env) vecs)"

definition add_write ::
    "('x \<Rightarrow> bool) \<Rightarrow> ('x \<Rightarrow> 'v) \<Rightarrow> add_env \<Rightarrow> mem_record list \<Rightarrow> 'x list \<Rightarrow> u32 \<Rightarrow> 'v add_state \<Rightarrow> bool \<times> 'v mem_index" where
  "add_write finite_values store env records vectors count st =
     (let ix1 = write_records records (ad_slots st) (ad_index st);
          (valid, vecs) = store_vectors finite_values store env vectors (ad_slots st) count (ad_dup st) (\<not> ad_upd st) (mi_vectors ix1)
      in (valid, ix1\<lparr>mi_vectors := vecs\<rparr>))"

definition memory_add_batch ::
    "('x \<Rightarrow> bool) \<Rightarrow> ('x \<Rightarrow> 'v) \<Rightarrow> add_env \<Rightarrow> 'v mem_index \<Rightarrow> mem_record list \<Rightarrow> 'x list \<Rightarrow> u32 \<Rightarrow> (astral_err \<times> 'v mem_index) option" where
  "memory_add_batch finite_values store env ix records vectors count =
     (if count = 0 then Some (ASTRAL_E_INVALID, ix)
      else if count > kU32Max div mi_dim ix then Some (ASTRAL_E_NOMEM, ix)
      else if \<exists>r\<in>set records. rec_size r \<noteq> sizeof_record \<or> rec_key r = 0 then Some (ASTRAL_E_INVALID, ix)
      else if count > kMemoryAddStackSlots \<and> \<not> ae_scratch_alloc env then Some (ASTRAL_E_NOMEM, ix)
      else let rollback = (\<lambda>st ix'. memory_add_rollback_new_slots (mi_count ix) (ad_staged st)
                             (mi_free_slot_hint ix) (mi_dense_active ix) ix');
               st0 = \<lparr>ad_index = ix, ad_staged = mi_count ix, ad_slots = [], ad_dup = False, ad_upd = False, ad_seen = None\<rparr>
           in case stage_all (mi_count ix) (ae_seen_alloc env) count records st0 of
                None \<Rightarrow> None
              | Some (Some e, st) \<Rightarrow> Some (e, rollback st (ad_index st))
              | Some (None, st) \<Rightarrow>
                  if ad_upd st \<and> \<not> (\<forall>x\<in>set vectors. finite_values x)
                  then Some (ASTRAL_E_INVALID, rollback st (ad_index st))
                  else let (valid, ix') = add_write finite_values store env records vectors count st in
                    if \<not> valid then Some (ASTRAL_E_INVALID, rollback st ix')
                    else Some (ASTRAL_OK, ix'\<lparr>mi_count := ad_staged st\<rparr>))"

section \<open>Free slots\<close>

lemma wrap_next:
  assumes "unat s < unat (capacity :: u32)"
  shows "unat (if s + 1 = capacity then 0 else s + 1) = Suc (unat s) mod unat capacity"
proof -
  have s1: "unat (s + 1) = Suc (unat s)"
    using assms unsigned_less [of capacity, where 'a = nat] by (simp add: unat_word_ariths)
  show ?thesis
  proof (cases "s + 1 = capacity")
    case True
    then show ?thesis using s1 by simp
  next
    case False
    then have "Suc (unat s) \<noteq> unat capacity" using s1 unat_eqI by metis
    then show ?thesis using False s1 assms by simp
  qed
qed

lemma wrap_next_less: "unat s < unat (capacity :: u32) \<Longrightarrow> unat (if s + 1 = capacity then 0 else s + 1) < unat capacity"
  by (simp only: wrap_next mod_less_divisor)

lemma free_probe_hit:
  assumes "0 < unat capacity" "unat slot = h mod unat capacity" "\<exists>d<n. \<not> slot_occupied (slots ! ((h + d) mod unat capacity))"
  shows "\<exists>d. unat (free_probe slots capacity slot n) = (h + d) mod unat capacity \<and>
    \<not> slot_occupied (slots ! unat (free_probe slots capacity slot n))"
  using assms(2,3)
proof (induction n arbitrary: slot h)
  case 0
  then show ?case by simp
next
  case (Suc n)
  show ?case
  proof (cases "slot_occupied (slots ! unat slot)")
    case False
    then show ?thesis using Suc.prems(1) by (intro exI [of _ 0]) simp
  next
    case True
    obtain d where d: "d < Suc n" "\<not> slot_occupied (slots ! ((h + d) mod unat capacity))" using Suc.prems(2) by blast
    have "d \<noteq> 0" using True d(2) Suc.prems(1) by (intro notI) simp
    then obtain d' where d': "d = Suc d'" "d' < n" using d(1) by (cases d) auto
    let ?next = "if slot + 1 = capacity then 0 else slot + 1"
    have "unat slot < unat capacity" using Suc.prems(1) assms(1) by simp
    then have nxt: "unat ?next = Suc h mod unat capacity"
      by (simp only: wrap_next Suc.prems(1) mod_Suc_eq)
    have "\<exists>d<n. \<not> slot_occupied (slots ! ((Suc h + d) mod unat capacity))"
      using d(2) d' by (intro exI [of _ d']) simp
    from Suc.IH [OF nxt this] obtain e where
      "unat (free_probe slots capacity ?next n) = (Suc h + e) mod unat capacity"
      "\<not> slot_occupied (slots ! unat (free_probe slots capacity ?next n))" by blast
    then show ?thesis using True by (intro exI [of _ "Suc e"]) (simp add: Let_def)
  qed
qed

lemma free_probe_full:
  assumes "\<And>t. t < unat capacity \<Longrightarrow> slot_occupied (slots ! t)"
  shows "unat slot < unat capacity \<Longrightarrow> free_probe slots capacity slot n = kU32Max"
proof (induction n arbitrary: slot)
  case (Suc n)
  have n: "unat (if slot + 1 = capacity then 0 else slot + 1) < unat capacity"
    by (rule wrap_next_less [OF Suc.prems])
  have "free_probe slots capacity slot (Suc n) = free_probe slots capacity (if slot + 1 = capacity then 0 else slot + 1) n"
    using assms [OF Suc.prems] by (simp add: Let_def)
  also have "\<dots> = kU32Max" by (rule Suc.IH [OF n])
  finally show ?case .
qed simp

lemma find_free_slot_some:
  assumes "unat (mi_free_slot_hint ix) < unat (mi_capacity ix)"
    and "t < unat (mi_capacity ix)" "\<not> slot_occupied (mi_slots ix ! t)"
  shows "unat (find_free_slot ix) < unat (mi_capacity ix) \<and> \<not> slot_occupied (mi_slots ix ! unat (find_free_slot ix))"
proof -
  let ?c = "unat (mi_capacity ix)" and ?h = "unat (mi_free_slot_hint ix)"
  obtain d where "d < ?c" "(?h + d) mod ?c = t" using offset_exists [OF assms(2), of ?h] by blast
  then have free: "\<exists>d<?c. \<not> slot_occupied (mi_slots ix ! ((?h + d) mod ?c))" using assms(3) by blast
  have c0: "0 < ?c" and hint: "?h = ?h mod ?c" using assms(1) by simp_all
  from free_probe_hit [OF c0 hint free] obtain e where
    "unat (find_free_slot ix) = (?h + e) mod ?c" "\<not> slot_occupied (mi_slots ix ! unat (find_free_slot ix))"
    unfolding find_free_slot_def by blast
  then show ?thesis using assms(2) by simp
qed

lemma occupied_card:
  assumes "length slots \<le> 2 ^ 30"
  shows "card (dom (slot_keys slots)) = card {t. t < length slots \<and> slot_occupied (slots ! t)}"
proof (rule bij_betw_same_card [of unat])
  show "bij_betw unat (dom (slot_keys slots)) {t. t < length slots \<and> slot_occupied (slots ! t)}"
    unfolding bij_betw_def
  proof
    show "inj_on unat (dom (slot_keys slots))" by (intro inj_onI unat_eqI)
    show "unat ` dom (slot_keys slots) = {t. t < length slots \<and> slot_occupied (slots ! t)}"
    proof (intro set_eqI iffI)
      fix t assume "t \<in> {t. t < length slots \<and> slot_occupied (slots ! t)}"
      then have t: "t < length slots" "slot_occupied (slots ! t)" by simp_all
      then have "unat (of_nat t :: u32) = t" using assms by (simp add: unsigned_of_nat take_bit_nat_eq_self)
      then show "t \<in> unat ` dom (slot_keys slots)"
        using t by (intro image_eqI [of _ _ "of_nat t"]) (simp_all add: slot_keys_def domIff)
    qed (auto simp: slot_keys_def split: if_splits)
  qed
qed

lemma free_slot_iff:
  assumes "mem_inv ix"
  shows "(\<exists>t<unat (mi_capacity ix). \<not> slot_occupied (mi_slots ix ! t)) \<longleftrightarrow> unat (mi_count ix) < unat (mi_capacity ix)"
proof -
  note inv = mem_invD [OF assms]
  let ?occ = "{t. t < unat (mi_capacity ix) \<and> slot_occupied (mi_slots ix ! t)}"
  have c: "card ?occ = unat (mi_count ix)"
    using occupied_card [of "mi_slots ix"] keys_card(2) [OF assms] inv(1,5) by simp
  have fin: "finite {..<unat (mi_capacity ix)}" and sub: "?occ \<subseteq> {..<unat (mi_capacity ix)}" by auto
  show ?thesis
  proof
    assume "\<exists>t<unat (mi_capacity ix). \<not> slot_occupied (mi_slots ix ! t)"
    then have "?occ \<subset> {..<unat (mi_capacity ix)}" by auto
    then have "card ?occ < card {..<unat (mi_capacity ix)}" by (rule psubset_card_mono [OF fin])
    then show "unat (mi_count ix) < unat (mi_capacity ix)" using c by simp
  next
    assume a: "unat (mi_count ix) < unat (mi_capacity ix)"
    show "\<exists>t<unat (mi_capacity ix). \<not> slot_occupied (mi_slots ix ! t)"
    proof (rule ccontr)
      assume "\<not> (\<exists>t<unat (mi_capacity ix). \<not> slot_occupied (mi_slots ix ! t))"
      then have "?occ = {..<unat (mi_capacity ix)}" by auto
      then show False using a c by simp
    qed
  qed
qed

lemma find_free_slot_spec:
  assumes "mem_inv ix"
  shows "unat (mi_count ix) < unat (mi_capacity ix) \<Longrightarrow>
      unat (find_free_slot ix) < unat (mi_capacity ix) \<and> \<not> slot_occupied (mi_slots ix ! unat (find_free_slot ix)) \<and>
      find_free_slot ix \<noteq> kU32Max"
    and "unat (mi_count ix) = unat (mi_capacity ix) \<Longrightarrow> find_free_slot ix = kU32Max"
proof -
  note inv = mem_invD [OF assms]
  assume "unat (mi_count ix) < unat (mi_capacity ix)"
  then obtain t where "t < unat (mi_capacity ix)" "\<not> slot_occupied (mi_slots ix ! t)"
    using free_slot_iff [OF assms] by blast
  from find_free_slot_some [OF inv(10) this]
  have s: "unat (find_free_slot ix) < unat (mi_capacity ix)" "\<not> slot_occupied (mi_slots ix ! unat (find_free_slot ix))"
    by simp_all
  moreover have "find_free_slot ix \<noteq> kU32Max"
  proof
    assume "find_free_slot ix = kU32Max"
    then have "unat (find_free_slot ix) = 2 ^ 32 - 1" by (simp add: kU32Max_def)
    then show False using s(1) inv(5) by simp
  qed
  ultimately show "unat (find_free_slot ix) < unat (mi_capacity ix) \<and> \<not> slot_occupied (mi_slots ix ! unat (find_free_slot ix)) \<and>
      find_free_slot ix \<noteq> kU32Max" by simp
next
  assume "unat (mi_count ix) = unat (mi_capacity ix)"
  then have "slot_occupied (mi_slots ix ! t)" if "t < unat (mi_capacity ix)" for t
    using free_slot_iff [OF assms] that by auto
  then show "find_free_slot ix = kU32Max"
    unfolding find_free_slot_def using free_probe_full mem_invD(10) [OF assms] by blast
qed

section \<open>Claiming a slot\<close>

lemma slot_keys_claim:
  assumes "unat s < length slots"
  shows "slot_keys (slots[unat s := \<lparr>slot_record = r, slot_active_pos = p, slot_occupied = True\<rparr>]) =
    (slot_keys slots)(s \<mapsto> rec_key r)"
proof (rule ext)
  fix x
  show "slot_keys (slots[unat s := \<lparr>slot_record = r, slot_active_pos = p, slot_occupied = True\<rparr>]) x =
    ((slot_keys slots)(s \<mapsto> rec_key r)) x"
  proof (cases "x = s")
    case False
    then have "unat x \<noteq> unat s" using unat_eqI by blast
    then show ?thesis using False by (simp add: slot_keys_def)
  qed (use assms in \<open>simp add: slot_keys_def\<close>)
qed

lemma links_ok_claim:
  assumes ok: "links_ok slots active n" and s: "unat s < length slots" "\<not> slot_occupied (slots ! unat s)"
    and "n < length active" "unat p = n"
  shows "links_ok (slots[unat s := \<lparr>slot_record = r, slot_active_pos = p, slot_occupied = True\<rparr>]) (active[n := s]) (Suc n)"
    (is "links_ok ?slots ?active _")
proof (rule links_okI)
  note d = links_okD [OF ok]
  fix i assume i: "i < Suc n"
  show "unat (?active ! i) < length ?slots \<and> slot_occupied (?slots ! unat (?active ! i)) \<and>
      unat (slot_active_pos (?slots ! unat (?active ! i))) = i"
  proof (cases "i = n")
    case True
    then show ?thesis using s(1) assms(4,5) by simp
  next
    case False
    then have i': "i < n" using i by simp
    have "unat (active ! i) \<noteq> unat s" using d(2) [OF i'] s(2) by auto
    then show ?thesis using False d(1) [OF i'] d(2) [OF i'] d(3) [OF i'] by simp
  qed
next
  note d = links_okD [OF ok]
  fix t assume t: "t < length ?slots" "slot_occupied (?slots ! t)"
  show "unat (slot_active_pos (?slots ! t)) < Suc n \<and> unat (?active ! unat (slot_active_pos (?slots ! t))) = t"
  proof (cases "t = unat s")
    case True
    then show ?thesis using s(1) assms(4,5) by simp
  next
    case False
    then have t': "t < length slots" "slot_occupied (slots ! t)" using t by simp_all
    then show ?thesis using False d(4) [OF t'] d(5) [OF t'] by simp
  qed
qed

lemma claim_correct:
  assumes inv: "mem_inv (ix\<lparr>mi_count := staged\<rparr>)" and room: "unat staged < unat (mi_capacity ix)"
    and fresh: "rec_key r \<notin> ran (slot_keys (mi_slots ix))"
    and s: "unat s < unat (mi_capacity ix)" "\<not> slot_occupied (mi_slots ix ! unat s)" "s \<noteq> kU32Max"
  obtains t where "key_table_insert_new_hashed (mi_key_table ix) (mi_key_table_mask ix) (key_hash_mix (rec_key r)) s = (ASTRAL_OK, t)"
    "mem_inv ((claim_slot r s staged ix)\<lparr>mi_key_table := t, mi_count := staged + 1\<rparr>)" "length t = length (mi_key_table ix)"
proof -
  note i = mem_invD [OF inv, simplified]
  let ?K = "slot_keys (mi_slots ix)"
  have s': "unat s < length (mi_slots ix)" using s(1) i(1) by simp
  have none: "?K s = None" using s(2) by (simp add: slot_keys_def)
  have live: "\<not> free_ref (slot_to_key_ref s)"
  proof -
    have "unat (slot_to_key_ref s) = Suc (unat s)"
      using s(1) i(5) by (simp add: slot_to_key_ref_def unat_word_ariths)
    then have "0 < unat (slot_to_key_ref s)" "unat (slot_to_key_ref s) < 2 ^ 32 - 1" using s(1) i(5) by simp_all
    then show ?thesis by (auto simp: free_ref_def kKeyTableEmpty_def kKeyTableTombstone_def kU32Max_def)
  qed
  have card: "finite (dom ?K)" "card (dom ?K) < length (mi_key_table ix)"
    using keys_card [OF inv] room i(6) by simp_all
  obtain t where t: "key_table_insert_new_hashed (mi_key_table ix) (mi_key_table_mask ix) (key_hash_mix (rec_key r)) s = (ASTRAL_OK, t)"
    "table_ok t (mi_key_table_mask ix) (?K(s \<mapsto> rec_key r))" "length t = length (mi_key_table ix)"
    by (rule table_insert [OF i(8) none fresh live card])
  have n1: "unat (staged + 1) = Suc (unat staged)"
    using room i(5) by (simp add: unat_word_ariths)
  have hint: "unat (if s + 1 = mi_capacity ix then 0 else s + 1) < unat (mi_capacity ix)"
    by (rule wrap_next_less [OF s(1)])
  have dense: "\<forall>j<Suc (unat staged). unat ((mi_active_slots ix)[unat staged := s] ! j) = j"
    if "mi_dense_active ix \<and> s = staged"
    using i(11) that room i(3) by (auto simp: nth_list_update less_Suc_eq)
  have "mem_inv ((claim_slot r s staged ix)\<lparr>mi_key_table := t, mi_count := staged + 1\<rparr>)"
    using i(1-7) room t(2,3) n1 hint dense links_ok_claim [OF i(9) s' s(2), of staged]
    by (intro mem_invI) (simp_all add: claim_slot_def slot_keys_claim [OF s'])
  then show thesis using that t by blast
qed

section \<open>The invariant of the staging\<close>

text \<open>What undoing needs: the staged index is well formed with the staged count, and nothing of the
  index before has changed.\<close>

definition roll_inv :: "'v mem_index \<Rightarrow> u32 \<Rightarrow> 'v mem_index \<Rightarrow> bool" where
  "roll_inv ix0 staged ix \<longleftrightarrow>
     mem_inv (ix\<lparr>mi_count := staged\<rparr>) \<and> mi_count ix = mi_count ix0 \<and> mi_capacity ix = mi_capacity ix0 \<and>
     mi_dim ix = mi_dim ix0 \<and> mi_key_table_mask ix = mi_key_table_mask ix0 \<and>
     length (mi_key_table ix) = length (mi_key_table ix0) \<and>
     unat (mi_count ix0) \<le> unat staged \<and>
     (\<forall>i<unat (mi_count ix0). mi_active_slots ix ! i = mi_active_slots ix0 ! i) \<and>
     (\<forall>s<unat (mi_capacity ix0). slot_occupied (mi_slots ix0 ! s) \<longrightarrow>
        mi_slots ix ! s = mi_slots ix0 ! s \<and> mi_vectors ix ! s = mi_vectors ix0 ! s)"

lemma roll_invD:
  assumes "roll_inv ix0 staged ix"
  shows "mem_inv (ix\<lparr>mi_count := staged\<rparr>)" "mi_count ix = mi_count ix0" "mi_capacity ix = mi_capacity ix0"
    "mi_dim ix = mi_dim ix0" "mi_key_table_mask ix = mi_key_table_mask ix0"
    "length (mi_key_table ix) = length (mi_key_table ix0)" "unat (mi_count ix0) \<le> unat staged"
    "\<And>i. i < unat (mi_count ix0) \<Longrightarrow> mi_active_slots ix ! i = mi_active_slots ix0 ! i"
    "\<And>s. s < unat (mi_capacity ix0) \<Longrightarrow> slot_occupied (mi_slots ix0 ! s) \<Longrightarrow> mi_slots ix ! s = mi_slots ix0 ! s"
    "\<And>s. s < unat (mi_capacity ix0) \<Longrightarrow> slot_occupied (mi_slots ix0 ! s) \<Longrightarrow> mi_vectors ix ! s = mi_vectors ix0 ! s"
  using assms unfolding roll_inv_def by blast+

lemma roll_inv_start: "mem_inv ix0 \<Longrightarrow> roll_inv ix0 (mi_count ix0) ix0"
  by (simp add: roll_inv_def)

text \<open>A slot of the batch that is new stands behind the old ones in the list.\<close>

lemma old_slot_iff:
  assumes "mem_inv ix0" "roll_inv ix0 staged ix" "unat s < unat (mi_capacity ix0)" "slot_occupied (mi_slots ix ! unat s)"
  shows "slot_active_pos (mi_slots ix ! unat s) \<ge> mi_count ix0 \<longleftrightarrow> \<not> slot_occupied (mi_slots ix0 ! unat s)"
proof -
  note i0 = mem_invD [OF assms(1)] and r = roll_invD [OF assms(2)]
  note i = mem_invD [OF r(1), simplified]
  have s: "unat s < length (mi_slots ix)" "unat s < length (mi_slots ix0)" using assms(3) i(1) i0(1) r(3) by simp_all
  let ?p = "unat (slot_active_pos (mi_slots ix ! unat s))"
  have pos: "unat (mi_active_slots ix ! ?p) = unat s" by (rule links_okD(5) [OF i(9) s(1) assms(4)])
  have "?p < unat (mi_count ix0) \<longleftrightarrow> slot_occupied (mi_slots ix0 ! unat s)"
  proof
    assume p: "?p < unat (mi_count ix0)"
    then have "unat (mi_active_slots ix0 ! ?p) = unat s" using r(8) pos by simp
    then show "slot_occupied (mi_slots ix0 ! unat s)" using links_okD(2) [OF i0(9) p] by simp
  next
    assume o: "slot_occupied (mi_slots ix0 ! unat s)"
    then show "?p < unat (mi_count ix0)" using r(9) [OF assms(3) o] links_okD(4) [OF i0(9) s(2) o] by simp
  qed
  then show ?thesis by (auto simp: word_le_nat_alt)
qed

definition old_slots :: "'v mem_index \<Rightarrow> u32 list \<Rightarrow> u32 set" where
  "old_slots ix0 slots = {s \<in> set slots. slot_occupied (mi_slots ix0 ! unat s)}"

definition seen_inv :: "'v mem_index \<Rightarrow> u32 \<Rightarrow> 'v add_state \<Rightarrow> bool" where
  "seen_inv ix0 count st \<longleftrightarrow>
     (case ad_seen st of None \<Rightarrow> \<not> ad_upd st
      | Some entries \<Rightarrow> seen_ok entries (old_slots ix0 (ad_slots st)) \<and> 2 * unat count \<le> length entries)"

definition stage_inv :: "'v mem_index \<Rightarrow> u32 \<Rightarrow> mem_record list \<Rightarrow> 'v add_state \<Rightarrow> bool" where
  "stage_inv ix0 count recs st \<longleftrightarrow>
     roll_inv ix0 (ad_staged st) (ad_index st) \<and> mi_vectors (ad_index st) = mi_vectors ix0 \<and>
     length (ad_slots st) = length recs \<and>
     (\<forall>i<length recs. slot_keys (mi_slots (ad_index st)) (ad_slots st ! i) = Some (rec_key (recs ! i))) \<and>
     ran (slot_keys (mi_slots (ad_index st))) = ran (slot_keys (mi_slots ix0)) \<union> rec_key ` set recs \<and>
     (\<not> ad_dup st \<longrightarrow> distinct (ad_slots st)) \<and>
     (\<not> ad_upd st \<longrightarrow> old_slots ix0 (ad_slots st) = {}) \<and>
     seen_inv ix0 count st"

lemma stage_invD:
  assumes "stage_inv ix0 count recs st"
  shows "roll_inv ix0 (ad_staged st) (ad_index st)" "mi_vectors (ad_index st) = mi_vectors ix0"
    "length (ad_slots st) = length recs"
    "\<And>i. i < length recs \<Longrightarrow> slot_keys (mi_slots (ad_index st)) (ad_slots st ! i) = Some (rec_key (recs ! i))"
    "ran (slot_keys (mi_slots (ad_index st))) = ran (slot_keys (mi_slots ix0)) \<union> rec_key ` set recs"
    "\<not> ad_dup st \<Longrightarrow> distinct (ad_slots st)"
    "\<not> ad_upd st \<Longrightarrow> old_slots ix0 (ad_slots st) = {}"
    "seen_inv ix0 count st"
  using assms unfolding stage_inv_def by blast+

lemma find_slot_count [simp]: "find_slot (ix\<lparr>mi_count := n\<rparr>) key = find_slot ix key"
  by (simp add: find_slot_def)

lemma find_free_slot_count [simp]: "find_free_slot (ix\<lparr>mi_count := n\<rparr>) = find_free_slot ix"
  by (simp add: find_free_slot_def)

lemma old_slots_snoc: "old_slots ix0 (slots @ [s]) =
  (if slot_occupied (mi_slots ix0 ! unat s) then insert s (old_slots ix0 slots) else old_slots ix0 slots)"
  by (auto simp: old_slots_def)

lemma staged_slots_known:
  assumes "stage_inv ix0 count recs st" "s \<in> set (ad_slots st)"
  shows "slot_keys (mi_slots (ad_index st)) s \<noteq> None"
proof -
  obtain i where "i < length (ad_slots st)" "s = ad_slots st ! i" using assms(2) by (auto simp: in_set_conv_nth)
  then show ?thesis using stage_invD(3,4) [OF assms(1)] by simp
qed

text \<open>A new key.\<close>

lemma stage_new_correct:
  assumes inv0: "mem_inv ix0" and inv: "stage_inv ix0 count recs st"
    and new: "find_slot (ad_index st) (rec_key r) = kU32Max"
  shows "if unat (ad_staged st) < unat (mi_capacity ix0)
    then \<exists>st'. stage_new r st = (None, st') \<and> stage_inv ix0 count (recs @ [r]) st'
    else stage_new r st = (Some ASTRAL_E_NOMEM, st)"
proof -
  let ?ix = "ad_index st"
  note v = stage_invD [OF inv]
  note rl = roll_invD [OF v(1)]
  note i = mem_invD [OF rl(1), simplified]
  have find: "find_slot (?ix\<lparr>mi_count := ad_staged st\<rparr>) (rec_key r) = kU32Max" using new by simp
  have keys: "slot_keys (mi_slots ?ix) s \<noteq> Some (rec_key r)" for s
    using find_slot_none [OF rl(1)] mem_map_None [OF rl(1)] find by simp
  then have fresh: "rec_key r \<notin> ran (slot_keys (mi_slots ?ix))" by (auto simp: ran_def)
  show ?thesis
  proof (cases "unat (ad_staged st) < unat (mi_capacity ix0)")
    case False
    then have "unat (ad_staged st) = unat (mi_capacity ?ix)" using i(7) rl(3) by simp
    then have "find_free_slot ?ix = kU32Max" using find_free_slot_spec(2) [OF rl(1)] by simp
    then show ?thesis using False by (simp add: stage_new_def)
  next
    case True
    then have room: "unat (ad_staged st) < unat (mi_capacity ?ix)" using rl(3) by simp
    define s where "s = find_free_slot ?ix"
    have s: "unat s < unat (mi_capacity ?ix)" "\<not> slot_occupied (mi_slots ?ix ! unat s)" "s \<noteq> kU32Max"
      using find_free_slot_spec(1) [OF rl(1)] room by (simp_all add: s_def)
    obtain t where t: "key_table_insert_new_hashed (mi_key_table ?ix) (mi_key_table_mask ?ix) (key_hash_mix (rec_key r)) s = (ASTRAL_OK, t)"
      "mem_inv ((claim_slot r s (ad_staged st) ?ix)\<lparr>mi_key_table := t, mi_count := ad_staged st + 1\<rparr>)"
      "length t = length (mi_key_table ?ix)"
      by (rule claim_correct [OF rl(1) room fresh s])
    let ?ix' = "(claim_slot r s (ad_staged st) ?ix)\<lparr>mi_key_table := t\<rparr>"
    define st' where "st' = st\<lparr>ad_index := ?ix', ad_staged := ad_staged st + 1, ad_slots := ad_slots st @ [s]\<rparr>"
    have res: "stage_new r st = (None, st')"
      using s(3) t(1) by (simp add: stage_new_def s_def [symmetric] st'_def claim_slot_def)
    have occ0: "\<not> slot_occupied (mi_slots ix0 ! unat s)"
      using rl(9) [of "unat s"] s(1,2) rl(3) by auto
    have n1: "unat (ad_staged st + 1) = Suc (unat (ad_staged st))"
      using room i(5) by (simp add: unat_word_ariths)
    have K: "slot_keys (mi_slots ?ix') = (slot_keys (mi_slots ?ix))(s \<mapsto> rec_key r)"
      using slot_keys_claim [of s "mi_slots ?ix"] s(1) i(1) by (simp add: claim_slot_def)
    have notin: "s \<notin> set (ad_slots st)"
      using staged_slots_known [OF inv, of s] s(2) by (auto simp: slot_keys_def)
    have "roll_inv ix0 (ad_staged st + 1) ?ix'"
      unfolding roll_inv_def
    proof (intro conjI allI impI)
      show "mem_inv (?ix'\<lparr>mi_count := ad_staged st + 1\<rparr>)" using t(2) by simp
      show "unat (mi_count ix0) \<le> unat (ad_staged st + 1)" using n1 rl(7) by simp
      fix k assume "k < unat (mi_count ix0)"
      then show "mi_active_slots ?ix' ! k = mi_active_slots ix0 ! k"
        using rl(7,8) by (simp add: claim_slot_def)
    next
      fix k assume k: "k < unat (mi_capacity ix0)" "slot_occupied (mi_slots ix0 ! k)"
      then have "k \<noteq> unat s" using occ0 by auto
      then show "mi_slots ?ix' ! k = mi_slots ix0 ! k" "mi_vectors ?ix' ! k = mi_vectors ix0 ! k"
        using rl(9) [OF k] rl(10) [OF k] by (simp_all add: claim_slot_def)
    qed (use rl t(3) in \<open>simp_all add: claim_slot_def\<close>)
    moreover have "slot_keys (mi_slots ?ix') ((ad_slots st @ [s]) ! k) = Some (rec_key ((recs @ [r]) ! k))"
      if "k < length (recs @ [r])" for k
    proof (cases "k < length recs")
      case True
      then have "ad_slots st ! k \<noteq> s" using notin v(3) nth_mem by metis
      then show ?thesis using True v(3) v(4) [OF True] unfolding K by (simp add: nth_append)
    next
      case False
      then have "k = length recs" using that by simp
      then show ?thesis unfolding K using v(3) by (simp add: nth_append)
    qed
    moreover have "ran (slot_keys (mi_slots ?ix')) = ran (slot_keys (mi_slots ix0)) \<union> rec_key ` set (recs @ [r])"
    proof -
      have "slot_keys (mi_slots ?ix) s = None" using s(2) by (simp add: slot_keys_def)
      then have "ran (slot_keys (mi_slots ?ix')) = insert (rec_key r) (ran (slot_keys (mi_slots ?ix)))"
        unfolding K by (rule ran_map_upd)
      then show ?thesis using v(5) by simp
    qed
    moreover have "mi_vectors ?ix' = mi_vectors ix0" using v(2) by (simp add: claim_slot_def)
    moreover have "old_slots ix0 (ad_slots st @ [s]) = old_slots ix0 (ad_slots st)"
      using occ0 by (simp add: old_slots_snoc)
    ultimately have "stage_inv ix0 count (recs @ [r]) st'"
      using v notin unfolding stage_inv_def seen_inv_def st'_def by (simp split: option.splits)
    then show ?thesis using True res by simp
  qed
qed

text \<open>A key that has a slot.\<close>

lemma plan_capacity:
  assumes "count \<noteq> 0" "unat count \<le> 2 ^ 30"
  obtains c where "memory_add_plan_capacity count = Some c" "c \<noteq> 0" "is_pow2 (unat c)" "unat c < 2 ^ 32" "2 * unat count \<le> unat c"
proof -
  have t: "unat (count * 2) = 2 * unat count" using assms(2) by (simp add: unat_word_ariths)
  have "unat (count * 2) \<le> 2 ^ 31" using assms(2) by (simp add: t)
  from double_until_returns [OF this, of 0 1] obtain c j where
    c: "double_until (count * 2) 1 = Some c" "unat c = 2 ^ j" "count * 2 \<le> c" by auto
  have "\<not> count > push_bit 30 1" using assms(2) by (simp add: word_less_nat_alt push_bit_eq_mult)
  then have "memory_add_plan_capacity count = Some c" by (simp add: memory_add_plan_capacity_def c(1))
  moreover have "2 * unat count \<le> unat c" using c(3) t by (simp add: word_le_nat_alt)
  moreover from this have "c \<noteq> 0" using assms(1) by (auto simp: unat_eq_0)
  moreover have "unat c < 2 ^ 32" using unsigned_less [of c, where 'a = nat] by simp
  ultimately show thesis using that [of c] c(2) is_pow2_power [of j] by simp
qed

lemma plan_capacity_large: "2 ^ 30 < unat count \<Longrightarrow> memory_add_plan_capacity count = Some 0"
  by (simp add: memory_add_plan_capacity_def word_less_nat_alt push_bit_eq_mult)

lemma seen_table_correct:
  assumes "seen_inv ix0 count st" "count \<noteq> 0" "\<not> ad_upd st \<Longrightarrow> old_slots ix0 (ad_slots st) = {}"
  shows "\<exists>res. seen_table seen_alloc count st = Some res \<and>
    (case res of None \<Rightarrow> \<not> seen_alloc \<or> 2 ^ 30 < unat count
     | Some entries \<Rightarrow> seen_ok entries (old_slots ix0 (ad_slots st)) \<and> 2 * unat count \<le> length entries)"
proof (cases "ad_seen st")
  case (Some entries)
  then show ?thesis using assms(1) by (simp add: seen_inv_def seen_table_def)
next
  case None
  then have empty: "old_slots ix0 (ad_slots st) = {}" using assms(1,3) by (simp add: seen_inv_def)
  show ?thesis
  proof (cases "2 ^ 30 < unat count")
    case True
    then show ?thesis using None by (simp add: seen_table_def plan_capacity_large)
  next
    case False
    then have "unat count \<le> 2 ^ 30" by simp
    from assms(2) this obtain c where c: "memory_add_plan_capacity count = Some c" "c \<noteq> 0" "is_pow2 (unat c)"
      "unat c < 2 ^ 32" "2 * unat count \<le> unat c" by (rule plan_capacity)
    then show ?thesis using None seen_ok_fresh [OF c(3,4)] by (simp add: seen_table_def empty)
  qed
qed

lemma card_old_slots: "card (old_slots ix0 slots) \<le> length slots"
proof -
  have "card (old_slots ix0 slots) \<le> card (set slots)" by (rule card_mono) (auto simp: old_slots_def)
  then show ?thesis using card_length [of slots] by simp
qed

lemma stage_existing_correct:
  assumes inv0: "mem_inv ix0" and inv: "stage_inv ix0 count recs st"
    and s: "slot_keys (mi_slots (ad_index st)) s = Some (rec_key r)" and count: "count \<noteq> 0" "length recs < unat count"
  shows "(\<exists>st'. stage_existing (mi_count ix0) seen_alloc count s st = Some (None, st') \<and> stage_inv ix0 count (recs @ [r]) st') \<or>
    (\<exists>st'. stage_existing (mi_count ix0) seen_alloc count s st = Some (Some ASTRAL_E_NOMEM, st') \<and>
      roll_inv ix0 (ad_staged st') (ad_index st') \<and> (\<not> seen_alloc \<or> 2 ^ 30 < unat count))"
proof -
  let ?ix = "ad_index st" and ?st = "st\<lparr>ad_slots := ad_slots st @ [s]\<rparr>"
  note v = stage_invD [OF inv]
  note rl = roll_invD [OF v(1)]
  note i = mem_invD [OF rl(1), simplified]
  have occ: "unat s < unat (mi_capacity ix0)" "slot_occupied (mi_slots ?ix ! unat s)"
    using s i(1) rl(3) by (simp_all add: slot_keys_Some)
  note old = old_slot_iff [OF inv0 v(1) occ]
  have known: "slot_keys (mi_slots ?ix) ((ad_slots st @ [s]) ! k) = Some (rec_key ((recs @ [r]) ! k))"
    if "k < length (recs @ [r])" for k
    using v(3) v(4) [of k] s that by (cases "k < length recs") (simp_all add: nth_append less_Suc_eq)
  have keys: "ran (slot_keys (mi_slots ?ix)) = ran (slot_keys (mi_slots ix0)) \<union> rec_key ` set (recs @ [r])"
    using v(5) ranI [of "slot_keys (mi_slots ?ix)" s] s by auto
  have base: "roll_inv ix0 (ad_staged st) ?ix" "mi_vectors ?ix = mi_vectors ix0"
    "length (ad_slots st @ [s]) = length (recs @ [r])"
    using v(1-3) by simp_all
  show ?thesis
  proof (cases "slot_active_pos (mi_slots ?ix ! unat s) \<ge> mi_count ix0")
    case True
    let ?st' = "st\<lparr>ad_dup := True, ad_slots := ad_slots st @ [s]\<rparr>"
    have "old_slots ix0 (ad_slots st @ [s]) = old_slots ix0 (ad_slots st)"
      using old True by (simp add: old_slots_snoc)
    then have "stage_inv ix0 count (recs @ [r]) ?st'"
      using v(7,8) base known keys unfolding stage_inv_def seen_inv_def by (simp split: option.splits)
    then show ?thesis using True by (simp add: stage_existing_def)
  next
    case False
    then have o: "old_slots ix0 (ad_slots st @ [s]) = insert s (old_slots ix0 (ad_slots st))"
      using old by (simp add: old_slots_snoc)
    obtain res where res: "seen_table seen_alloc count st = Some res"
      "case res of None \<Rightarrow> \<not> seen_alloc \<or> 2 ^ 30 < unat count
       | Some entries \<Rightarrow> seen_ok entries (old_slots ix0 (ad_slots st)) \<and> 2 * unat count \<le> length entries"
      using seen_table_correct [OF v(8) count(1) v(7)] by blast
    show ?thesis
    proof (cases res)
      case None
      then show ?thesis using False res v(1) by (simp add: stage_existing_def)
    next
      case (Some entries)
      then have e: "seen_ok entries (old_slots ix0 (ad_slots st))" "2 * unat count \<le> length entries" using res(2) by simp_all
      have mem: "s \<in> old_slots ix0 (ad_slots st) \<longleftrightarrow> s \<in> set (ad_slots st)"
        using False old by (auto simp: old_slots_def)
      have "card (old_slots ix0 (ad_slots st)) < length entries"
        using card_old_slots [of ix0 "ad_slots st"] v(3) count(2) e(2) by linarith
      then obtain new entries' where m: "seen_mark entries s = Some (new, entries')"
        "new = (s \<notin> set (ad_slots st))" "seen_ok entries' (insert s (old_slots ix0 (ad_slots st)))"
        "length entries' = length entries"
        using seen_mark_again [OF e(1), of s] seen_mark_new [OF e(1), of s] e(1) mem
        by (cases "s \<in> set (ad_slots st)") (auto simp: insert_absorb)
      let ?st' = "st\<lparr>ad_upd := True, ad_seen := Some entries', ad_dup := ad_dup st \<or> \<not> new, ad_slots := ad_slots st @ [s]\<rparr>"
      have "stage_inv ix0 count (recs @ [r]) ?st'"
        using v(6) base known keys m(2-4) e(2) o unfolding stage_inv_def seen_inv_def by (simp split: option.splits)
      then show ?thesis using False res(1) Some m(1) by (simp add: stage_existing_def)
    qed
  qed
qed

lemma card_ran_inj:
  assumes "inj_on K (dom K)"
  shows "card (ran K) = card (dom K)"
proof -
  have "bij_betw (\<lambda>s. the (K s)) (dom K) (ran K)"
    unfolding bij_betw_def
  proof
    show "inj_on (\<lambda>s. the (K s)) (dom K)"
    proof (rule inj_onI)
      fix x y assume a: "x \<in> dom K" "y \<in> dom K" "the (K x) = the (K y)"
      then have "K x = K y" by auto
      then show "x = y" using inj_onD [OF assms] a(1,2) by blast
    qed
    show "(\<lambda>s. the (K s)) ` dom K = ran K" by (auto simp: ran_def dom_def image_iff) force
  qed
  then show ?thesis by (rule bij_betw_same_card [symmetric])
qed

lemma keys_ran_card:
  assumes "mem_inv ix"
  shows "finite (ran (slot_keys (mi_slots ix)))" "card (ran (slot_keys (mi_slots ix))) = unat (mi_count ix)"
  using card_ran_inj [OF table_okD(7) [OF mem_invD(8) [OF assms]]] keys_card [OF assms]
  by (simp_all add: finite_ran)

lemma stage_all_correct:
  assumes inv0: "mem_inv ix0" and count: "count \<noteq> 0"
    and "stage_inv ix0 count recs st" "length (recs @ rs) \<le> unat count"
  shows "(\<exists>st'. stage_all (mi_count ix0) seen_alloc count rs st = Some (None, st') \<and> stage_inv ix0 count (recs @ rs) st') \<or>
    (\<exists>st'. stage_all (mi_count ix0) seen_alloc count rs st = Some (Some ASTRAL_E_NOMEM, st') \<and>
      roll_inv ix0 (ad_staged st') (ad_index st') \<and>
      (\<not> seen_alloc \<or> 2 ^ 30 < unat count \<or>
       unat (mi_capacity ix0) < card (ran (slot_keys (mi_slots ix0)) \<union> rec_key ` set (recs @ rs))))"
  using assms(3,4)
proof (induction rs arbitrary: recs st)
  case Nil
  then show ?case by simp
next
  case (Cons r rs)
  note v = stage_invD [OF Cons.prems(1)]
  note rl = roll_invD [OF v(1)]
  have go: ?case
    if "stage_record (mi_count ix0) seen_alloc count r st = Some (None, st')" "stage_inv ix0 count (recs @ [r]) st'" for st'
    using Cons.IH [OF that(2)] Cons.prems(2) that(1) by simp
  show ?case
  proof (cases "find_slot (ad_index st) (rec_key r) = kU32Max")
    case True
    note new = stage_new_correct [OF inv0 Cons.prems(1) True]
    show ?thesis
    proof (cases "unat (ad_staged st) < unat (mi_capacity ix0)")
      case room: True
      then obtain st' where "stage_new r st = (None, st')" "stage_inv ix0 count (recs @ [r]) st'" using new by auto
      then show ?thesis using go True by (simp add: stage_record_def)
    next
      case False
      let ?R = "ran (slot_keys (mi_slots (ad_index st)))"
      let ?all = "ran (slot_keys (mi_slots ix0)) \<union> rec_key ` set (recs @ r # rs)"
      have fin: "finite ?R" and card: "card ?R = unat (ad_staged st)" using keys_ran_card [OF rl(1)] by simp_all
      have "mem_map (ad_index st\<lparr>mi_count := ad_staged st\<rparr>) (rec_key r) = None"
        using find_slot_none [OF rl(1), of "rec_key r"] True by simp
      then have "rec_key r \<notin> ?R" using mem_map_None [OF rl(1)] by (auto simp: ran_def)
      then have "card (insert (rec_key r) ?R) = Suc (unat (ad_staged st))" using fin card by simp
      moreover have "card (insert (rec_key r) ?R) \<le> card ?all"
        using keys_ran_card(1) [OF inv0] v(5) by (intro card_mono) auto
      ultimately have "unat (mi_capacity ix0) < card ?all" using False by linarith
      then show ?thesis using new False True v(1) by (simp add: stage_record_def)
    qed
  next
    case False
    have "find_slot (ad_index st\<lparr>mi_count := ad_staged st\<rparr>) (rec_key r) \<noteq> kU32Max" using False by simp
    from find_slot_some [OF rl(1) this]
    have s: "slot_keys (mi_slots (ad_index st)) (find_slot (ad_index st) (rec_key r)) = Some (rec_key r)" by simp
    have len: "length recs < unat count" using Cons.prems(2) by simp
    from stage_existing_correct [OF inv0 Cons.prems(1) s count len, of seen_alloc] show ?thesis
    proof
      assume "\<exists>st'. stage_existing (mi_count ix0) seen_alloc count (find_slot (ad_index st) (rec_key r)) st = Some (None, st') \<and>
        stage_inv ix0 count (recs @ [r]) st'"
      then show ?thesis using go False by (auto simp: stage_record_def)
    next
      assume "\<exists>st'. stage_existing (mi_count ix0) seen_alloc count (find_slot (ad_index st) (rec_key r)) st = Some (Some ASTRAL_E_NOMEM, st') \<and>
        roll_inv ix0 (ad_staged st') (ad_index st') \<and> (\<not> seen_alloc \<or> 2 ^ 30 < unat count)"
      then show ?thesis using False by (auto simp: stage_record_def)
    qed
  qed
qed

section \<open>Undoing\<close>

lemma undo_fold:
  fixes ix :: "'v mem_index"
  defines "step \<equiv> (\<lambda>ix p. let slot = mi_active_slots ix ! p in
      ix\<lparr>mi_active_slots := (mi_active_slots ix)[p := 0], mi_slots := (mi_slots ix)[unat slot := zero_slot]\<rparr>)"
  assumes "distinct ps" "\<And>p. p \<in> set ps \<Longrightarrow> p < length (mi_active_slots ix) \<and> unat (mi_active_slots ix ! p) < length (mi_slots ix)"
  shows "\<exists>active slots. foldl step ix ps = ix\<lparr>mi_active_slots := active, mi_slots := slots\<rparr> \<and>
    length active = length (mi_active_slots ix) \<and> length slots = length (mi_slots ix) \<and>
    (\<forall>i. i \<notin> set ps \<longrightarrow> active ! i = mi_active_slots ix ! i) \<and>
    (\<forall>t. slots ! t = (if \<exists>p\<in>set ps. unat (mi_active_slots ix ! p) = t then zero_slot else mi_slots ix ! t))"
  using assms(2,3)
proof (induction ps arbitrary: ix)
  case Nil
  show ?case by (intro exI [of _ "mi_active_slots ix"] exI [of _ "mi_slots ix"]) simp
next
  case (Cons p ps)
  let ?ix = "step ix p" and ?s = "unat (mi_active_slots ix ! p)"
  have f: "mi_active_slots ?ix = (mi_active_slots ix)[p := 0]" "mi_slots ?ix = (mi_slots ix)[?s := zero_slot]"
    by (simp_all add: step_def Let_def)
  have same: "mi_active_slots ?ix ! q = mi_active_slots ix ! q" if "q \<in> set ps" for q
  proof -
    have "q \<noteq> p" using that Cons.prems(1) by auto
    then show ?thesis by (simp add: f)
  qed
  have "q < length (mi_active_slots ?ix) \<and> unat (mi_active_slots ?ix ! q) < length (mi_slots ?ix)" if "q \<in> set ps" for q
    using Cons.prems(2) [of q] that same [OF that] by (simp add: f)
  with Cons.IH [of ?ix] Cons.prems(1) obtain active slots where
    r: "foldl step ?ix ps = ?ix\<lparr>mi_active_slots := active, mi_slots := slots\<rparr>"
    "length active = length (mi_active_slots ?ix)" "length slots = length (mi_slots ?ix)"
    "\<And>i. i \<notin> set ps \<Longrightarrow> active ! i = mi_active_slots ?ix ! i"
    "\<And>t. slots ! t = (if \<exists>q\<in>set ps. unat (mi_active_slots ?ix ! q) = t then zero_slot else mi_slots ?ix ! t)"
    by auto
  have "foldl step ix (p # ps) = ix\<lparr>mi_active_slots := active, mi_slots := slots\<rparr>"
    by (simp add: r(1)) (simp add: step_def Let_def)
  moreover have "active ! i = mi_active_slots ix ! i" if "i \<notin> set (p # ps)" for i
    using r(4) [of i] that by (simp add: f)
  moreover have "slots ! t = (if \<exists>q\<in>set (p # ps). unat (mi_active_slots ix ! q) = t then zero_slot else mi_slots ix ! t)" for t
  proof -
    have "(\<exists>q\<in>set ps. unat (mi_active_slots ?ix ! q) = t) = (\<exists>q\<in>set ps. unat (mi_active_slots ix ! q) = t)"
      using same by auto
    then show ?thesis using r(5) [of t] Cons.prems(2) [of p] by (auto simp: f nth_list_update)
  qed
  ultimately show ?case using r(2,3) by (intro exI [of _ active] exI [of _ slots]) (simp add: f)
qed

text \<open>The slots that are left: the old ones as they were, the others free.\<close>

definition undone :: "'v mem_index \<Rightarrow> u32 list \<Rightarrow> mem_slot list \<Rightarrow> bool" where
  "undone ix0 active slots \<longleftrightarrow>
     length slots = length (mi_slots ix0) \<and> length active = length (mi_active_slots ix0) \<and>
     (\<forall>k<unat (mi_count ix0). active ! k = mi_active_slots ix0 ! k) \<and>
     (\<forall>t<unat (mi_capacity ix0). if slot_occupied (mi_slots ix0 ! t) then slots ! t = mi_slots ix0 ! t
        else \<not> slot_occupied (slots ! t))"

lemma undoneD:
  assumes "undone ix0 active slots"
  shows "length slots = length (mi_slots ix0)" "length active = length (mi_active_slots ix0)"
    "\<And>k. k < unat (mi_count ix0) \<Longrightarrow> active ! k = mi_active_slots ix0 ! k"
    "\<And>t. t < unat (mi_capacity ix0) \<Longrightarrow> slot_occupied (mi_slots ix0 ! t) \<Longrightarrow> slots ! t = mi_slots ix0 ! t"
    "\<And>t. t < unat (mi_capacity ix0) \<Longrightarrow> \<not> slot_occupied (mi_slots ix0 ! t) \<Longrightarrow> \<not> slot_occupied (slots ! t)"
  using assms unfolding undone_def by meson+

lemma undo_undone:
  fixes ix :: "'v mem_index"
  assumes inv0: "mem_inv ix0" and roll: "roll_inv ix0 staged ix"
  obtains active slots where "foldl (\<lambda>ix p. let slot = mi_active_slots ix ! p in
        ix\<lparr>mi_active_slots := (mi_active_slots ix)[p := 0], mi_slots := (mi_slots ix)[unat slot := zero_slot]\<rparr>)
        ix [unat (mi_count ix0)..<unat staged] = ix\<lparr>mi_active_slots := active, mi_slots := slots\<rparr>"
    "undone ix0 active slots"
proof -
  let ?was = "unat (mi_count ix0)" and ?n = "unat staged"
  note i0 = mem_invD [OF inv0] and r = roll_invD [OF roll]
  note i = mem_invD [OF r(1), simplified]
  let ?ps = "[unat (mi_count ix0)..<unat staged]"
  have d: "distinct ?ps" by simp
  have b: "p < length (mi_active_slots ix) \<and> unat (mi_active_slots ix ! p) < length (mi_slots ix)" if "p \<in> set ?ps" for p
    using that i(3,7) links_okD(1) [OF i(9), of p] by auto
  obtain active slots where u: "foldl (\<lambda>ix p. let slot = mi_active_slots ix ! p in
        ix\<lparr>mi_active_slots := (mi_active_slots ix)[p := 0], mi_slots := (mi_slots ix)[unat slot := zero_slot]\<rparr>) ix ?ps =
      ix\<lparr>mi_active_slots := active, mi_slots := slots\<rparr>"
    "length active = length (mi_active_slots ix)" "length slots = length (mi_slots ix)"
    "\<And>i. i \<notin> set ?ps \<Longrightarrow> active ! i = mi_active_slots ix ! i"
    "\<And>t. slots ! t = (if \<exists>p\<in>set ?ps. unat (mi_active_slots ix ! p) = t then zero_slot else mi_slots ix ! t)"
    using undo_fold [OF d b] by auto
  have old: "slots ! t = mi_slots ix0 ! t" if t: "t < unat (mi_capacity ix0)" "slot_occupied (mi_slots ix0 ! t)" for t
  proof -
    have pos: "unat (slot_active_pos (mi_slots ix ! t)) < ?was"
      using links_okD(4) [OF i0(9) _ t(2)] t i0(1) unfolding r(9) [OF t] by simp
    have "unat (mi_active_slots ix ! p) \<noteq> t" if "p \<in> set ?ps" for p
      using that pos links_okD(3) [OF i(9), of p] by auto
    then show ?thesis using u(5) r(9) [OF t] by simp
  qed
  have new: "\<not> slot_occupied (slots ! t)" if t: "t < unat (mi_capacity ix0)" "\<not> slot_occupied (mi_slots ix0 ! t)" for t
  proof (cases "slot_occupied (mi_slots ix ! t)")
    case True
    have tl: "t < length (mi_slots ix)" using t(1) i(1) r(3) by simp
    let ?p = "unat (slot_active_pos (mi_slots ix ! t))"
    have p: "?p < ?n" "unat (mi_active_slots ix ! ?p) = t"
      using links_okD(4) [OF i(9) tl True] links_okD(5) [OF i(9) tl True] by simp_all
    have "\<not> ?p < ?was"
    proof
      assume "?p < ?was"
      then show False using links_okD(2) [OF i0(9)] r(8) p(2) t(2) by metis
    qed
    then have "?p \<in> set ?ps" using p(1) by simp
    then show ?thesis using u(5) p(2) by (auto simp: zero_slot_def)
  next
    case False
    then show ?thesis using u(5) by (auto simp: zero_slot_def)
  qed
  have "undone ix0 active slots"
    unfolding undone_def using u(2-4) i(1,3) i0(1,3) r(3,8) old new by simp
  then show thesis using that u(1) by blast
qed

lemma undone_keys:
  assumes "mem_inv ix0" "undone ix0 active slots"
  shows "slot_keys slots = slot_keys (mi_slots ix0)"
proof (rule ext)
  fix s
  note u = undoneD [OF assms(2)]
  show "slot_keys slots s = slot_keys (mi_slots ix0) s"
    using u(4) [of "unat s"] u(5) [of "unat s"] u(1) mem_invD(1) [OF assms(1)]
    by (cases "slot_occupied (mi_slots ix0 ! unat s)") (simp_all add: slot_keys_def)
qed

lemma undone_links:
  assumes inv0: "mem_inv ix0" and un: "undone ix0 active slots"
  shows "links_ok slots active (unat (mi_count ix0))"
proof (rule links_okI)
  note i0 = mem_invD [OF inv0] and u = undoneD [OF un]
  fix k assume k: "k < unat (mi_count ix0)"
  have c: "unat (mi_active_slots ix0 ! k) < unat (mi_capacity ix0)" using links_okD(1) [OF i0(9) k] i0(1) by simp
  show "unat (active ! k) < length slots \<and> slot_occupied (slots ! unat (active ! k)) \<and>
      unat (slot_active_pos (slots ! unat (active ! k))) = k"
    unfolding u(3) [OF k] u(4) [OF c links_okD(2) [OF i0(9) k]]
    using links_okD(1-3) [OF i0(9) k] u(1) by simp
next
  note i0 = mem_invD [OF inv0] and u = undoneD [OF un]
  fix t assume t: "t < length slots" "slot_occupied (slots ! t)"
  then have c: "t < unat (mi_capacity ix0)" "t < length (mi_slots ix0)" using u(1) i0(1) by simp_all
  then have o: "slot_occupied (mi_slots ix0 ! t)" using u(5) t(2) by blast
  have p: "unat (slot_active_pos (mi_slots ix0 ! t)) < unat (mi_count ix0)" by (rule links_okD(4) [OF i0(9) c(2) o])
  then show "unat (slot_active_pos (slots ! t)) < unat (mi_count ix0) \<and>
      unat (active ! unat (slot_active_pos (slots ! t))) = t"
    unfolding u(4) [OF c(1) o] using u(3) [OF p] links_okD(5) [OF i0(9) c(2) o] by simp
qed

lemma undone_table:
  assumes inv0: "mem_inv ix0" and un: "undone ix0 active slots"
    and t: "table_shape table msk" "length table = length (mi_key_table ix0)"
  shows "table_ok (key_table_rebuild slots table msk (take (unat (mi_count ix0)) active)) msk (slot_keys slots)"
    "length (key_table_rebuild slots table msk (take (unat (mi_count ix0)) active)) = length table"
proof -
  note i0 = mem_invD [OF inv0] and u = undoneD [OF un]
  note ok = table_okD [OF i0(8)]
  let ?act = "take (unat (mi_count ix0)) active" and ?K = "slot_keys (mi_slots ix0)"
  have act: "?act = active_slots ix0"
    using u(2,3) i0(3,7) by (intro nth_equalityI) (simp_all add: active_slots_def)
  have small: "length ?act < length table"
    using count_below_table [OF inv0] t(2) i0(3,7) by (simp add: act active_slots_def)
  have inj: "inj_on (slot_keys slots) (set ?act)"
    unfolding act undone_keys [OF inv0 un] active_set [OF inv0] by (rule ok(7))
  have live: "slot_keys slots s \<noteq> None \<and> \<not> free_ref (slot_to_key_ref s)" if "s \<in> set ?act" for s
    using that ok(5) [of s] unfolding act undone_keys [OF inv0 un] active_set [OF inv0] by auto
  have dist: "distinct ?act" unfolding act by (rule active_distinct [OF inv0])
  have lt: "length table < 2 ^ 32 - 1" using ok(2) t(2) by simp
  have "?K |` dom ?K = ?K" by (rule ext) (simp add: restrict_map_def domIff)
  then have "slot_keys slots |` set ?act = slot_keys slots"
    unfolding act undone_keys [OF inv0 un] active_set [OF inv0] .
  then show "table_ok (key_table_rebuild slots table msk ?act) msk (slot_keys slots)"
    "length (key_table_rebuild slots table msk ?act) = length table"
    using rebuild_ok [OF t(1) lt small dist inj live] by simp_all
qed

text \<open>Undoing gives back an index that stands for the same map.\<close>

lemma rollback_correct:
  assumes inv0: "mem_inv ix0" and roll: "roll_inv ix0 staged ix"
  defines "ix' \<equiv> memory_add_rollback_new_slots (mi_count ix0) staged (mi_free_slot_hint ix0) (mi_dense_active ix0) ix"
  shows "mem_inv ix' \<and> mem_map ix' = mem_map ix0"
proof -
  note i0 = mem_invD [OF inv0] and r = roll_invD [OF roll]
  note i = mem_invD [OF r(1), simplified]
  obtain active slots where u: "foldl (\<lambda>ix p. let slot = mi_active_slots ix ! p in
        ix\<lparr>mi_active_slots := (mi_active_slots ix)[p := 0], mi_slots := (mi_slots ix)[unat slot := zero_slot]\<rparr>)
        ix [unat (mi_count ix0)..<unat staged] = ix\<lparr>mi_active_slots := active, mi_slots := slots\<rparr>"
    and un: "undone ix0 active slots"
    by (rule undo_undone [OF inv0 roll])
  note d = undoneD [OF un] and keys = undone_keys [OF inv0 un]
  let ?t = "key_table_rebuild slots (mi_key_table ix) (mi_key_table_mask ix) (take (unat (mi_count ix0)) active)"
  have ix': "ix' = ix\<lparr>mi_active_slots := active, mi_slots := slots, mi_free_slot_hint := mi_free_slot_hint ix0,
      mi_dense_active := mi_dense_active ix0, mi_key_table := ?t\<rparr>"
    unfolding ix'_def memory_add_rollback_new_slots_def u by (simp add: Let_def r(2))
  note t = undone_table [OF inv0 un table_okD(1) [OF i(8)] r(6)]
  have dense: "\<forall>k<unat (mi_count ix0). unat (active ! k) = k" if "mi_dense_active ix0"
    using i0(11) [OF that] d(3) by simp
  have inv': "mem_inv ix'"
    using i(1-6) i0(1-3,7,10) d(1,2) r(2,3) undone_links [OF inv0 un] t dense by (intro mem_invI) (simp_all add: ix')
  have "mem_map ix' = mem_map ix0"
  proof (rule mem_map_eqI [OF inv'])
    fix k s assume "slot_keys (mi_slots ix') s = Some k"
    then have s: "slot_keys (mi_slots ix0) s = Some k" by (simp add: ix' keys)
    then have c: "unat s < unat (mi_capacity ix0)" "slot_occupied (mi_slots ix0 ! unat s)"
      using i0(1) by (simp_all add: slot_keys_Some)
    have "entry ix' s = entry ix0 s" using d(4) [OF c] r(10) [OF c] by (simp add: entry_def ix')
    then show "mem_map ix0 k = Some (entry ix' s)" using mem_map_at [OF inv0 s] by simp
  next
    fix k e assume "mem_map ix0 k = Some e"
    then show "\<exists>s. slot_keys (mi_slots ix') s = Some k" using mem_map_Some [OF inv0] by (auto simp: ix' keys)
  qed
  then show ?thesis using inv' by blast
qed

section \<open>Writing\<close>

lemma set_vector_correct:
  assumes inv: "mem_inv ix" and s: "slot_keys (mi_slots ix) s = Some k"
  shows "mem_inv (ix\<lparr>mi_vectors := (mi_vectors ix)[unat s := v]\<rparr>)"
    "mem_map (ix\<lparr>mi_vectors := (mi_vectors ix)[unat s := v]\<rparr>) = (mem_map ix)(k \<mapsto> (slot_record (mi_slots ix ! unat s), v))"
proof -
  note i = mem_invD [OF inv]
  let ?ix = "ix\<lparr>mi_vectors := (mi_vectors ix)[unat s := v]\<rparr>"
  show inv': "mem_inv ?ix" using i by (intro mem_invI) simp_all
  show "mem_map ?ix = (mem_map ix)(k \<mapsto> (slot_record (mi_slots ix ! unat s), v))"
  proof (rule mem_map_eqI [OF inv'])
    fix k' s' assume "slot_keys (mi_slots ?ix) s' = Some k'"
    then have a: "slot_keys (mi_slots ix) s' = Some k'" by simp
    show "((mem_map ix)(k \<mapsto> (slot_record (mi_slots ix ! unat s), v))) k' = Some (entry ?ix s')"
    proof (cases "s' = s")
      case True
      then have "k' = k" using a s by simp
      then show ?thesis using True s i(1,2) by (simp add: entry_def slot_keys_Some)
    next
      case False
      then have "k' \<noteq> k" using table_key_unique [OF i(8) a] s by blast
      moreover have "unat s' \<noteq> unat s" using False unat_eqI by blast
      ultimately show ?thesis using mem_map_at [OF inv a] by (simp add: entry_def)
    qed
  next
    fix k' e assume "((mem_map ix)(k \<mapsto> (slot_record (mi_slots ix ! unat s), v))) k' = Some e"
    then show "\<exists>s'. slot_keys (mi_slots ?ix) s' = Some k'"
      using s mem_map_Some [OF inv, of k'] by (cases "k' = k") auto
  qed
qed

definition put_entry :: "mem_record \<Rightarrow> 'v \<Rightarrow> u32 \<Rightarrow> 'v mem_index \<Rightarrow> 'v mem_index" where
  "put_entry r v s ix = (set_record r (unat s) ix)\<lparr>mi_vectors := (mi_vectors ix)[unat s := v]\<rparr>"

lemma set_record_same_key:
  assumes inv: "mem_inv ix" and s: "slot_keys (mi_slots ix) s = Some (rec_key r)"
  shows "mem_inv (set_record r (unat s) ix)" "slot_keys (mi_slots (set_record r (unat s) ix)) = slot_keys (mi_slots ix)"
    "mem_map (set_record r (unat s) ix) = (mem_map ix)(rec_key r \<mapsto> (r, mi_vectors ix ! unat s))"
proof -
  have idem: "(slot_keys (mi_slots ix))(s \<mapsto> rec_key r) = slot_keys (mi_slots ix)" using s by (simp add: fun_upd_idem)
  have "table_ok (mi_key_table ix) (mi_key_table_mask ix) ((slot_keys (mi_slots ix))(s \<mapsto> rec_key r))"
    using mem_invD(8) [OF inv] idem by simp
  note c = set_record_correct [OF inv s this refl disjI1 [OF refl]]
  then show "mem_inv (set_record r (unat s) ix)"
    "mem_map (set_record r (unat s) ix) = (mem_map ix)(rec_key r \<mapsto> (r, mi_vectors ix ! unat s))" by simp_all
  show "slot_keys (mi_slots (set_record r (unat s) ix)) = slot_keys (mi_slots ix)"
    using slot_keys_set_record [OF s, of r] idem by (simp add: set_record_def)
qed

lemma put_entry_correct:
  assumes inv: "mem_inv ix" and s: "slot_keys (mi_slots ix) s = Some (rec_key r)"
  shows "mem_inv (put_entry r v s ix)" "slot_keys (mi_slots (put_entry r v s ix)) = slot_keys (mi_slots ix)"
    "mem_map (put_entry r v s ix) = (mem_map ix)(rec_key r \<mapsto> (r, v))"
proof -
  note c = set_record_same_key [OF inv s]
  have s': "slot_keys (mi_slots (set_record r (unat s) ix)) s = Some (rec_key r)" using c(2) s by simp
  have p: "put_entry r v s ix = (set_record r (unat s) ix)\<lparr>mi_vectors := (mi_vectors (set_record r (unat s) ix))[unat s := v]\<rparr>"
    by (simp add: put_entry_def set_record_def)
  show "mem_inv (put_entry r v s ix)" unfolding p by (rule set_vector_correct(1) [OF c(1) s'])
  show "slot_keys (mi_slots (put_entry r v s ix)) = slot_keys (mi_slots ix)" unfolding p using c(2) by simp
  have "slot_record (mi_slots (set_record r (unat s) ix) ! unat s) = r"
    using s by (simp add: set_record_def slot_keys_Some)
  then show "mem_map (put_entry r v s ix) = (mem_map ix)(rec_key r \<mapsto> (r, v))"
    unfolding p using set_vector_correct(2) [OF c(1) s', of v] c(3) by simp
qed

text \<open>What the batch does to the map, one entry after the other.\<close>

definition add_entry :: "('x \<Rightarrow> 'v) \<Rightarrow> (u64 \<rightharpoonup> mem_record \<times> 'v) \<Rightarrow> mem_record \<times> 'x \<Rightarrow> (u64 \<rightharpoonup> mem_record \<times> 'v)" where
  "add_entry store m rx = m(rec_key (fst rx) \<mapsto> (fst rx, store (snd rx)))"

lemma add_entry_pair: "add_entry store m (r, x) = m(rec_key r \<mapsto> (r, store x))"
  by (simp add: add_entry_def)

lemma put_entries:
  assumes "mem_inv ix" "\<And>i. i < k \<Longrightarrow> slot_keys (mi_slots ix) (slots ! i) = Some (rec_key (records ! i))"
  shows "let ix' = foldl (\<lambda>ix i. put_entry (records ! i) (store (src ! i)) (slots ! i) ix) ix [0..<k] in
    mem_inv ix' \<and> slot_keys (mi_slots ix') = slot_keys (mi_slots ix) \<and>
    mem_map ix' = foldl (add_entry store) (mem_map ix) (map (\<lambda>i. (records ! i, src ! i)) [0..<k])"
  using assms(2)
proof (induction k)
  case 0
  then show ?case using assms(1) by simp
next
  case (Suc k)
  let ?ix = "foldl (\<lambda>ix i. put_entry (records ! i) (store (src ! i)) (slots ! i) ix) ix [0..<k]"
  have IH: "mem_inv ?ix" "slot_keys (mi_slots ?ix) = slot_keys (mi_slots ix)"
    "mem_map ?ix = foldl (add_entry store) (mem_map ix) (map (\<lambda>i. (records ! i, src ! i)) [0..<k])"
    using Suc.IH Suc.prems by (simp_all add: Let_def)
  have s: "slot_keys (mi_slots ?ix) (slots ! k) = Some (rec_key (records ! k))" using Suc.prems IH(2) by simp
  show ?case using put_entry_correct [OF IH(1) s, of "store (src ! k)"] IH by (simp add: add_entry_pair fun_upd_def)
qed

lemma set_record_vectors [simp]:
  "set_record r s (ix\<lparr>mi_vectors := w\<rparr>) = (set_record r s ix)\<lparr>mi_vectors := w\<rparr>"
  "mi_vectors (set_record r s ix) = mi_vectors ix"
  by (simp_all add: set_record_def)

lemma put_split:
  "foldl (\<lambda>ix i. put_entry (records ! i) (store (src ! i)) (slots ! i) ix) ix is =
   (foldl (\<lambda>ix i. set_record (records ! i) (unat (slots ! i)) ix) ix is)\<lparr>mi_vectors :=
     foldl (\<lambda>vs i. vs[unat (slots ! i) := store (src ! i)]) (mi_vectors ix) is\<rparr>"
proof (induction "is" arbitrary: ix)
  case (Cons i "is")
  have v: "mi_vectors (foldl (\<lambda>ix i. set_record (records ! i) (unat (slots ! i)) ix) ix js) = mi_vectors ix" for ix js
    by (induction js arbitrary: ix) simp_all
  have c: "foldl (\<lambda>ix i. set_record (records ! i) (unat (slots ! i)) ix) (ix\<lparr>mi_vectors := w\<rparr>) js =
      (foldl (\<lambda>ix i. set_record (records ! i) (unat (slots ! i)) ix) ix js)\<lparr>mi_vectors := w\<rparr>" for ix js w
    by (induction js arbitrary: ix) simp_all
  show ?case by (simp add: Cons.IH) (simp add: put_entry_def c)
qed simp

lemma write_records_fold:
  assumes "length records = n" "length slots = n"
  shows "write_records records slots ix = foldl (\<lambda>ix i. set_record (records ! i) (unat (slots ! i)) ix) ix [0..<n]"
proof -
  have "zip records slots = map (\<lambda>i. (records ! i, slots ! i)) [0..<n]"
    by (rule nth_equalityI) (use assms in simp_all)
  then show ?thesis by (simp add: write_records_def foldl_map)
qed

lemma steps_valid:
  "fst (preprocess_steps finite_values store src slots validate is vecs) = (validate \<longrightarrow> (\<forall>i\<in>set is. finite_values (src ! i)))"
  by (induction "is" arbitrary: vecs) auto

lemma steps_fold:
  "fst (preprocess_steps finite_values store src slots validate is vecs) \<Longrightarrow>
   snd (preprocess_steps finite_values store src slots validate is vecs) = foldl (\<lambda>vs i. vs[unat (slots ! i) := store (src ! i)]) vecs is"
  by (induction "is" arbitrary: vecs) (auto split: if_splits)

lemma all_nth_iff: "length src = n \<Longrightarrow> (\<forall>i\<in>set [0..<n]. P (src ! i)) = (\<forall>x\<in>set src. P x)"
  by (auto simp: all_set_conv_all_nth)

lemma store_vectors_correct:
  assumes "length src = unat count" "length slots = unat count" "unat count \<le> 2 ^ 31 \<or> has_dup"
    and "\<not> has_dup \<Longrightarrow> distinct slots" "\<And>s. s \<in> set slots \<Longrightarrow> unat s < length vecs"
    and run: "store_vectors finite_values store env src slots count has_dup validate vecs = (valid, vecs')"
  shows "valid = (validate \<longrightarrow> (\<forall>x\<in>set src. finite_values x)) \<and>
    (valid \<longrightarrow> vecs' = foldl (\<lambda>vs i. vs[unat (slots ! i) := store (src ! i)]) vecs [0..<unat count]) \<and>
    length vecs' = length vecs \<and> (\<forall>t. (\<forall>s\<in>set slots. unat s \<noteq> t) \<longrightarrow> vecs' ! t = vecs ! t)"
proof -
  let ?w = "add_worker_count (ae_initialized env) (ae_threads env) (ae_on_worker env) count"
  let ?steps = "preprocess_steps finite_values store src slots validate [0..<unat count] vecs"
  have loop: "fst ?steps = (validate \<longrightarrow> (\<forall>x\<in>set src. finite_values x))"
    by (simp only: steps_valid all_nth_iff [OF assms(1)])
  show ?thesis
  proof (cases "has_dup \<or> ?w = 0")
    case True
    then have r: "valid = fst ?steps" "vecs' = snd ?steps"
      using run by (auto simp: store_vectors_def memory_add_preprocess_range_def Let_def)
    have frame: "vecs' ! t = vecs ! t" if "\<forall>s\<in>set slots. unat s \<noteq> t" for t
      unfolding r(2) by (rule steps_frame) (use that assms(2) in \<open>auto simp: image_iff\<close>)
    then show ?thesis using loop steps_fold r by (auto simp: r)
  next
    case False
    then have p: "memory_add_preprocess_parallel finite_values store src slots count validate ?w (ae_sched env) vecs = (valid, vecs')"
      using run by (simp add: store_vectors_def Let_def)
    have size: "unat count \<le> 2 ^ 31" using assms(3) False by simp
    have w: "?w \<noteq> 0" and d: "distinct slots" using False assms(4) by simp_all
    note c = parallel_is_loop [OF d assms(2,1) assms(5) size refl w p]
    then have "vecs' = foldl (\<lambda>vs i. vs[unat (slots ! i) := store (src ! i)]) vecs [0..<unat count]" if valid
      using steps_fold [of finite_values store src slots validate "[0..<unat count]" vecs] that
      by (simp add: memory_add_preprocess_range_def)
    then show ?thesis using c by blast
  qed
qed

section \<open>The whole batch\<close>

lemma add_entries_agree:
  "(\<And>k. k \<notin> (\<lambda>rx. rec_key (fst rx)) ` set rxs \<Longrightarrow> m k = m' k) \<Longrightarrow>
   foldl (add_entry store) m rxs = foldl (add_entry store) m' rxs"
proof (induction rxs arbitrary: m m')
  case Nil
  then show ?case by (simp add: fun_eq_iff)
next
  case (Cons rx rxs)
  have "foldl (add_entry store) (add_entry store m rx) rxs = foldl (add_entry store) (add_entry store m' rx) rxs"
    by (rule Cons.IH) (use Cons.prems in \<open>auto simp: add_entry_def\<close>)
  then show ?case by simp
qed

text \<open>Outside the keys of the batch, the staged index stands for the same map.\<close>

lemma staged_map:
  assumes inv0: "mem_inv ix0" and inv: "stage_inv ix0 count records st" and k: "k \<notin> rec_key ` set records"
  shows "mem_map ((ad_index st)\<lparr>mi_count := ad_staged st\<rparr>) k = mem_map ix0 k"
proof -
  let ?ix = "ad_index st"
  note i0 = mem_invD [OF inv0] and v = stage_invD [OF inv]
  note r = roll_invD [OF v(1)]
  have keep: "slot_keys (mi_slots ?ix) s = Some k'" "entry ?ix s = entry ix0 s"
    if "slot_keys (mi_slots ix0) s = Some k'" for s k'
  proof -
    have c: "unat s < unat (mi_capacity ix0)" "slot_occupied (mi_slots ix0 ! unat s)"
      using that i0(1) by (simp_all add: slot_keys_Some)
    show "slot_keys (mi_slots ?ix) s = Some k'"
      using that r(9) [OF c] mem_invD(1) [OF r(1)] i0(1) r(3) by (simp add: slot_keys_Some)
    show "entry ?ix s = entry ix0 s" using r(9,10) [OF c] by (simp add: entry_def)
  qed
  show ?thesis
  proof (cases "mem_map ix0 k")
    case None
    then have "k \<notin> ran (slot_keys (mi_slots ?ix))"
      using k v(5) mem_map_None [OF inv0] by (auto simp: ran_def)
    then have "\<forall>s. slot_keys (mi_slots ?ix) s \<noteq> Some k" by (auto simp: ran_def)
    then show ?thesis using mem_map_None [OF r(1), of k] None by simp
  next
    case (Some e)
    then obtain s where s: "slot_keys (mi_slots ix0) s = Some k" "e = entry ix0 s" using mem_map_Some [OF inv0] by blast
    have "slot_keys (mi_slots (?ix\<lparr>mi_count := ad_staged st\<rparr>)) s = Some k" using keep(1) [OF s(1)] by simp
    from mem_map_at [OF r(1) this] show ?thesis
      using keep(2) [OF s(1)] s(2) Some by (simp add: entry_def)
  qed
qed

lemma write_records_shape:
  "\<exists>slots'. write_records records slots ix = ix\<lparr>mi_slots := slots'\<rparr> \<and> length slots' = length (mi_slots ix) \<and>
    (\<forall>t. (\<forall>s\<in>set slots. unat s \<noteq> t) \<longrightarrow> slots' ! t = mi_slots ix ! t)"
proof -
  have "\<exists>slots'. foldl (\<lambda>ix (r, s). set_record r (unat s) ix) ix rss = ix\<lparr>mi_slots := slots'\<rparr> \<and>
      length slots' = length (mi_slots ix) \<and>
      (\<forall>t. (\<forall>rs\<in>set rss. unat (snd rs) \<noteq> t) \<longrightarrow> slots' ! t = mi_slots ix ! t)" for rss :: "(mem_record \<times> u32) list"
  proof (induction rss arbitrary: ix)
    case Nil
    show ?case by (intro exI [of _ "mi_slots ix"]) simp
  next
    case (Cons rs rss)
    obtain r s where rs: "rs = (r, s)" by (cases rs)
    let ?ix = "set_record r (unat s) ix"
    obtain slots' where "foldl (\<lambda>ix (r, s). set_record r (unat s) ix) ?ix rss = ?ix\<lparr>mi_slots := slots'\<rparr>"
      "length slots' = length (mi_slots ?ix)"
      "\<forall>t. (\<forall>rs\<in>set rss. unat (snd rs) \<noteq> t) \<longrightarrow> slots' ! t = mi_slots ?ix ! t"
      using Cons.IH by blast
    then show ?case by (intro exI [of _ slots']) (auto simp: rs set_record_def)
  qed
  from this [of "zip records slots"] show ?thesis
    unfolding write_records_def by (auto dest!: set_zip_rightD) (metis set_zip_rightD snd_conv surj_pair)
qed

lemma set_record_count: "set_record r s (ix\<lparr>mi_count := n\<rparr>) = (set_record r s ix)\<lparr>mi_count := n\<rparr>"
  by (simp add: set_record_def)

lemma write_records_count: "write_records records slots (ix\<lparr>mi_count := n\<rparr>) = (write_records records slots ix)\<lparr>mi_count := n\<rparr>"
proof -
  have "foldl (\<lambda>ix (r, s). set_record r (unat s) ix) (ix\<lparr>mi_count := n\<rparr>) rss =
      (foldl (\<lambda>ix (r, s). set_record r (unat s) ix) ix rss)\<lparr>mi_count := n\<rparr>" for rss :: "(mem_record \<times> u32) list"
    by (induction rss arbitrary: ix) (auto simp: set_record_count)
  then show ?thesis by (simp add: write_records_def)
qed

lemma mem_inv_vectors: "mem_inv ix \<Longrightarrow> length vecs = length (mi_vectors ix) \<Longrightarrow> mem_inv (ix\<lparr>mi_vectors := vecs\<rparr>)"
  unfolding mem_inv_def by simp

lemma length_fold_vecs: "length (foldl (\<lambda>vs i. vs[f i := g i]) vecs is) = length vecs"
  by (induction "is" arbitrary: vecs) simp_all

text \<open>The writing changes only records and vectors of the slots of the batch.\<close>

lemma add_write_shape:
  assumes inv0: "mem_inv ix0" and inv: "stage_inv ix0 count records st"
    and len: "length records = unat count" "length src = unat count"
    and run: "add_write finite_values store env records src count st = (valid, ix')"
  obtains slots' vecs where "ix' = (ad_index st)\<lparr>mi_slots := slots', mi_vectors := vecs\<rparr>"
    "write_records records (ad_slots st) (ad_index st) = (ad_index st)\<lparr>mi_slots := slots'\<rparr>"
    "valid = (ad_upd st \<or> (\<forall>x\<in>set src. finite_values x))"
    "valid \<longrightarrow> vecs = foldl (\<lambda>vs i. vs[unat (ad_slots st ! i) := store (src ! i)]) (mi_vectors (ad_index st)) [0..<unat count]"
    "length vecs = length (mi_vectors (ad_index st))"
    "\<forall>t. (\<forall>s\<in>set (ad_slots st). unat s \<noteq> t) \<longrightarrow>
      slots' ! t = mi_slots (ad_index st) ! t \<and> vecs ! t = mi_vectors (ad_index st) ! t"
proof -
  let ?ix = "ad_index st" and ?slots = "ad_slots st" and ?n = "unat count"
  note v = stage_invD [OF inv]
  note r = roll_invD [OF v(1)]
  note i = mem_invD [OF r(1), simplified]
  have sl: "length ?slots = ?n" using v(3) len(1) by simp
  have bound: "unat s < length (mi_vectors ?ix)" if "s \<in> set ?slots" for s
    using staged_slots_known [OF inv that] i(1,2) by (auto simp: slot_keys_def split: if_splits)
  have size: "?n \<le> 2 ^ 31 \<or> ad_dup st"
  proof (rule disjCI)
    assume "\<not> ad_dup st"
    then have "card (set ?slots) = ?n" using v(6) sl by (simp add: distinct_card)
    moreover have "card (set ?slots) \<le> card (dom (slot_keys (mi_slots ?ix)))"
      using staged_slots_known [OF inv] keys_card(1) [OF r(1)] by (intro card_mono) auto
    ultimately show "?n \<le> 2 ^ 31" using keys_card(2) [OF r(1)] i(5,7) by simp
  qed
  obtain slots' where w: "write_records records ?slots ?ix = ?ix\<lparr>mi_slots := slots'\<rparr>"
    "\<forall>t. (\<forall>s\<in>set ?slots. unat s \<noteq> t) \<longrightarrow> slots' ! t = mi_slots ?ix ! t"
    using write_records_shape [of records ?slots ?ix] by blast
  obtain vecs where sv: "store_vectors finite_values store env src ?slots count (ad_dup st) (\<not> ad_upd st) (mi_vectors ?ix) = (valid, vecs)"
    and ix': "ix' = ?ix\<lparr>mi_slots := slots', mi_vectors := vecs\<rparr>"
    using run by (auto simp: add_write_def Let_def w(1) split: prod.splits)
  note c = store_vectors_correct [OF len(2) sl size v(6) bound sv]
  show thesis
    by (rule that [OF ix' w(1)]) (use c w(2) in blast)+
qed

lemma put_all:
  assumes "length records = n" "length slots = n"
  shows "foldl (\<lambda>ix i. put_entry (records ! i) (store (src ! i)) (slots ! i) ix) (ix\<lparr>mi_count := m\<rparr>) [0..<n] =
    (write_records records slots ix)\<lparr>mi_count := m, mi_vectors :=
      foldl (\<lambda>vs i. vs[unat (slots ! i) := store (src ! i)]) (mi_vectors ix) [0..<n]\<rparr>"
  unfolding put_split write_records_fold [OF assms, symmetric] write_records_count by simp

lemma add_write_inv:
  assumes inv0: "mem_inv ix0" and inv: "stage_inv ix0 count records st"
    and len: "length records = unat count"
    and w: "write_records records (ad_slots st) (ad_index st) = (ad_index st)\<lparr>mi_slots := slots'\<rparr>"
    and vecs: "length vecs = length (mi_vectors (ad_index st))"
  shows "mem_inv ((ad_index st)\<lparr>mi_slots := slots', mi_vectors := vecs, mi_count := ad_staged st\<rparr>)"
    "vecs = foldl (\<lambda>vs i. vs[unat (ad_slots st ! i) := store (src ! i)]) (mi_vectors (ad_index st)) [0..<unat count] \<Longrightarrow>
     mem_map ((ad_index st)\<lparr>mi_slots := slots', mi_vectors := vecs, mi_count := ad_staged st\<rparr>) =
       foldl (add_entry store) (mem_map ((ad_index st)\<lparr>mi_count := ad_staged st\<rparr>)) (map (\<lambda>i. (records ! i, src ! i)) [0..<unat count])"
proof -
  let ?S = "(ad_index st)\<lparr>mi_count := ad_staged st\<rparr>" and ?n = "unat count"
  let ?vs = "foldl (\<lambda>vs i. vs[unat (ad_slots st ! i) := store (src ! i)]) (mi_vectors (ad_index st)) [0..<unat count]"
  note v = stage_invD [OF inv]
  note r = roll_invD [OF v(1)]
  have sl: "length (ad_slots st) = ?n" using v(3) len by simp
  have keys: "slot_keys (mi_slots ?S) (ad_slots st ! k) = Some (rec_key (records ! k))" if "k < ?n" for k
    using v(4) [of k] that len by simp
  have p: "let ix' = (ad_index st)\<lparr>mi_slots := slots', mi_count := ad_staged st, mi_vectors := ?vs\<rparr> in
      mem_inv ix' \<and> slot_keys (mi_slots ix') = slot_keys (mi_slots ?S) \<and>
      mem_map ix' = foldl (add_entry store) (mem_map ?S) (map (\<lambda>i. (records ! i, src ! i)) [0..<?n])"
  proof -
    have "let ix' = foldl (\<lambda>ix i. put_entry (records ! i) (store (src ! i)) (ad_slots st ! i) ix) ?S [0..<?n] in
        mem_inv ix' \<and> slot_keys (mi_slots ix') = slot_keys (mi_slots ?S) \<and>
        mem_map ix' = foldl (add_entry store) (mem_map ?S) (map (\<lambda>i. (records ! i, src ! i)) [0..<?n])"
      by (rule put_entries [OF r(1)]) (rule keys)
    then show ?thesis unfolding put_all [OF len sl] w .
  qed
  have len_vs: "length ?vs = length (mi_vectors (ad_index st))" by (rule length_fold_vecs)
  have eq: "(ad_index st)\<lparr>mi_slots := slots', mi_count := ad_staged st, mi_vectors := x\<rparr> =
      (ad_index st)\<lparr>mi_slots := slots', mi_vectors := x, mi_count := ad_staged st\<rparr>" for x by simp
  have "mem_inv ((ad_index st)\<lparr>mi_slots := slots', mi_count := ad_staged st, mi_vectors := ?vs\<rparr>)" using p unfolding Let_def by (rule conjunct1)
  from mem_inv_vectors [OF this, of vecs] show "mem_inv ((ad_index st)\<lparr>mi_slots := slots', mi_vectors := vecs, mi_count := ad_staged st\<rparr>)"
    using vecs len_vs by (simp add: eq)
  show "mem_map ((ad_index st)\<lparr>mi_slots := slots', mi_vectors := vecs, mi_count := ad_staged st\<rparr>) =
       foldl (add_entry store) (mem_map ?S) (map (\<lambda>i. (records ! i, src ! i)) [0..<?n])" if "vecs = ?vs"
    unfolding that eq [symmetric] using p unfolding Let_def by (rule conjunct2 [THEN conjunct2])
qed

lemma keys_zip: "length rs = length xs \<Longrightarrow> (\<lambda>rx. rec_key (fst rx)) ` set (zip rs xs) = rec_key ` set rs"
  by (induction rs xs rule: list_induct2) simp_all

lemma staged_agree:
  assumes inv0: "mem_inv ix0" and inv: "stage_inv ix0 count records st" and len: "length records = length src"
  shows "foldl (add_entry store) (mem_map ((ad_index st)\<lparr>mi_count := ad_staged st\<rparr>)) (zip records src) =
    foldl (add_entry store) (mem_map ix0) (zip records src)"
proof (rule add_entries_agree)
  fix k assume "k \<notin> (\<lambda>rx. rec_key (fst rx)) ` set (zip records src)"
  then have "k \<notin> rec_key ` set records" by (simp only: keys_zip [OF len] simp_thms)
  then show "mem_map ((ad_index st)\<lparr>mi_count := ad_staged st\<rparr>) k = mem_map ix0 k" by (rule staged_map [OF inv0 inv])
qed

lemma written_roll_inv:
  assumes inv: "stage_inv ix0 count records st" and "\<not> ad_upd st"
    and inv': "mem_inv ((ad_index st)\<lparr>mi_slots := slots', mi_vectors := vecs, mi_count := ad_staged st\<rparr>)"
    and frame: "\<forall>t. (\<forall>s\<in>set (ad_slots st). unat s \<noteq> t) \<longrightarrow>
      slots' ! t = mi_slots (ad_index st) ! t \<and> vecs ! t = mi_vectors (ad_index st) ! t"
  shows "roll_inv ix0 (ad_staged st) ((ad_index st)\<lparr>mi_slots := slots', mi_vectors := vecs\<rparr>)"
proof -
  note v = stage_invD [OF inv]
  note r = roll_invD [OF v(1)]
  have none: "old_slots ix0 (ad_slots st) = {}" by (rule v(7) [OF assms(2)])
  have old: "slots' ! t = mi_slots ix0 ! t \<and> vecs ! t = mi_vectors ix0 ! t"
    if t: "t < unat (mi_capacity ix0)" "slot_occupied (mi_slots ix0 ! t)" for t
  proof -
    have "unat x \<noteq> t" if "x \<in> set (ad_slots st)" for x
    proof
      assume "unat x = t"
      then have "x \<in> old_slots ix0 (ad_slots st)" using that t(2) by (simp add: old_slots_def)
      then show False using none by simp
    qed
    then have "slots' ! t = mi_slots (ad_index st) ! t \<and> vecs ! t = mi_vectors (ad_index st) ! t" using frame by blast
    then show ?thesis by (simp only: r(9) [OF t] r(10) [OF t])
  qed
  show ?thesis unfolding roll_inv_def using inv' r(2-8) old by simp
qed

lemma add_write_correct:
  assumes inv0: "mem_inv ix0" and inv: "stage_inv ix0 count records st"
    and len: "length records = unat count" "length src = unat count"
    and run: "add_write finite_values store env records src count st = (valid, ix')"
  shows "valid = (ad_upd st \<or> (\<forall>x\<in>set src. finite_values x))"
    "valid \<Longrightarrow> mem_inv (ix'\<lparr>mi_count := ad_staged st\<rparr>)"
    "valid \<Longrightarrow> mem_map (ix'\<lparr>mi_count := ad_staged st\<rparr>) = foldl (add_entry store) (mem_map ix0) (zip records src)"
    "\<not> valid \<Longrightarrow> roll_inv ix0 (ad_staged st) ix'"
proof -
  obtain slots' vecs where s: "ix' = (ad_index st)\<lparr>mi_slots := slots', mi_vectors := vecs\<rparr>"
    "write_records records (ad_slots st) (ad_index st) = (ad_index st)\<lparr>mi_slots := slots'\<rparr>"
    "valid = (ad_upd st \<or> (\<forall>x\<in>set src. finite_values x))"
    "valid \<longrightarrow> vecs = foldl (\<lambda>vs i. vs[unat (ad_slots st ! i) := store (src ! i)]) (mi_vectors (ad_index st)) [0..<unat count]"
    "length vecs = length (mi_vectors (ad_index st))"
    "\<forall>t. (\<forall>s\<in>set (ad_slots st). unat s \<noteq> t) \<longrightarrow>
      slots' ! t = mi_slots (ad_index st) ! t \<and> vecs ! t = mi_vectors (ad_index st) ! t"
    by (rule add_write_shape [OF inv0 inv len run])
  show "valid = (ad_upd st \<or> (\<forall>x\<in>set src. finite_values x))" by (rule s(3))
  have inv': "mem_inv ((ad_index st)\<lparr>mi_slots := slots', mi_vectors := vecs, mi_count := ad_staged st\<rparr>)"
    by (rule add_write_inv(1) [OF inv0 inv len(1) s(2,5)])
  then show "mem_inv (ix'\<lparr>mi_count := ad_staged st\<rparr>)" unfolding s(1) .
  have zip: "zip records src = map (\<lambda>i. (records ! i, src ! i)) [0..<unat count]"
    by (rule nth_equalityI) (use len in simp_all)
  show "mem_map (ix'\<lparr>mi_count := ad_staged st\<rparr>) = foldl (add_entry store) (mem_map ix0) (zip records src)" if valid
    unfolding s(1) add_write_inv(2) [OF inv0 inv len(1) s(2,5) mp [OF s(4) that]] zip [symmetric]
    by (rule staged_agree [OF inv0 inv]) (simp add: len)
  show "roll_inv ix0 (ad_staged st) ix'" if "\<not> valid"
    unfolding s(1) by (rule written_roll_inv [OF inv _ inv' s(6)]) (use s(3) that in blast)
qed

lemma stage_inv_start:
  "mem_inv ix0 \<Longrightarrow> stage_inv ix0 count []
     \<lparr>ad_index = ix0, ad_staged = mi_count ix0, ad_slots = [], ad_dup = False, ad_upd = False, ad_seen = None\<rparr>"
  by (simp add: stage_inv_def roll_inv_start seen_inv_def old_slots_def)

text \<open>The batch is refused for one of these reasons: it is malformed, it does not fit, or the
  machine lacks memory.\<close>

definition batch_refused :: "('x \<Rightarrow> bool) \<Rightarrow> add_env \<Rightarrow> 'v mem_index \<Rightarrow> mem_record list \<Rightarrow> 'x list \<Rightarrow> u32 \<Rightarrow> astral_err \<Rightarrow> bool" where
  "batch_refused finite_values env ix records src count e \<longleftrightarrow>
     e = ASTRAL_E_INVALID \<and>
       (count = 0 \<or> (\<exists>r\<in>set records. rec_size r \<noteq> sizeof_record \<or> rec_key r = 0) \<or> (\<exists>x\<in>set src. \<not> finite_values x)) \<or>
     e = ASTRAL_E_NOMEM \<and>
       (kU32Max div mi_dim ix < count \<or> \<not> ae_scratch_alloc env \<or> \<not> ae_seen_alloc env \<or> 2 ^ 30 < unat count \<or>
        unat (mi_capacity ix) < card (ran (slot_keys (mi_slots ix)) \<union> rec_key ` set records))"

lemma add_batch_cases:
  fixes ix :: "'v mem_index"
  assumes inv0: "mem_inv ix" and len: "length records = unat count" "length src = unat count"
  shows "\<exists>e ix'. memory_add_batch finite_values store env ix records src count = Some (e, ix') \<and> mem_inv ix' \<and>
    (e = ASTRAL_OK \<and> (\<forall>x\<in>set src. finite_values x) \<and> mem_map ix' = foldl (add_entry store) (mem_map ix) (zip records src) \<or>
     batch_refused finite_values env ix records src count e \<and> mem_map ix' = mem_map ix)"
proof (cases "count = 0 \<or> count > kU32Max div mi_dim ix \<or>
    (\<exists>r\<in>set records. rec_size r \<noteq> sizeof_record \<or> rec_key r = 0) \<or>
    count > kMemoryAddStackSlots \<and> \<not> ae_scratch_alloc env")
  case True
  then show ?thesis using inv0 by (auto simp: memory_add_batch_def batch_refused_def)
next
  case False
  then have g: "count \<noteq> 0" "\<not> count > kU32Max div mi_dim ix"
    "\<not> (\<exists>r\<in>set records. rec_size r \<noteq> sizeof_record \<or> rec_key r = 0)"
    "\<not> (count > kMemoryAddStackSlots \<and> \<not> ae_scratch_alloc env)" by blast+
  let ?st0 = "\<lparr>ad_index = ix, ad_staged = mi_count ix, ad_slots = [], ad_dup = False, ad_upd = False, ad_seen = None\<rparr>"
  let ?run = "memory_add_batch finite_values store env ix records src count"
  note d = memory_add_batch_def [of finite_values store env ix records src count,
      unfolded if_not_P [OF g(1)] if_not_P [OF g(2)] if_not_P [OF g(3)] if_not_P [OF g(4)] Let_def]
  have "length ([] @ records) \<le> unat count" using len by simp
  from stage_all_correct [OF inv0 g(1) stage_inv_start [OF inv0] this, of "ae_seen_alloc env"]
  show ?thesis
  proof
    assume "\<exists>st'. stage_all (mi_count ix) (ae_seen_alloc env) count records ?st0 = Some (Some ASTRAL_E_NOMEM, st') \<and>
      roll_inv ix (ad_staged st') (ad_index st') \<and> (\<not> ae_seen_alloc env \<or> 2 ^ 30 < unat count \<or>
       unat (mi_capacity ix) < card (ran (slot_keys (mi_slots ix)) \<union> rec_key ` set ([] @ records)))"
    then obtain st where st: "stage_all (mi_count ix) (ae_seen_alloc env) count records ?st0 = Some (Some ASTRAL_E_NOMEM, st)"
      "roll_inv ix (ad_staged st) (ad_index st)" "batch_refused finite_values env ix records src count ASTRAL_E_NOMEM"
      by (auto simp: batch_refused_def)
    then show ?thesis using rollback_correct [OF inv0 st(2)] by (simp add: d)
  next
    assume "\<exists>st'. stage_all (mi_count ix) (ae_seen_alloc env) count records ?st0 = Some (None, st') \<and>
      stage_inv ix count ([] @ records) st'"
    then obtain st where st: "stage_all (mi_count ix) (ae_seen_alloc env) count records ?st0 = Some (None, st)"
      and inv: "stage_inv ix count records st" by auto
    show ?thesis
    proof (cases "ad_upd st \<and> \<not> (\<forall>x\<in>set src. finite_values x)")
      case True
      then have "batch_refused finite_values env ix records src count ASTRAL_E_INVALID" by (auto simp: batch_refused_def)
      then show ?thesis using rollback_correct [OF inv0 stage_invD(1) [OF inv]] True by (simp add: d st)
    next
      case ok: False
      obtain valid ix' where w: "add_write finite_values store env records src count st = (valid, ix')" by fastforce
      note c = add_write_correct [OF inv0 inv len w]
      show ?thesis
      proof (cases valid)
        case True
        then have "?run = Some (ASTRAL_OK, ix'\<lparr>mi_count := ad_staged st\<rparr>)"
          unfolding d using ok by (auto simp: st w)
        then show ?thesis using c(1-3) True ok by auto
      next
        case False
        then have "batch_refused finite_values env ix records src count ASTRAL_E_INVALID"
          using c(1) by (auto simp: batch_refused_def)
        moreover have "?run = Some (ASTRAL_E_INVALID, memory_add_rollback_new_slots (mi_count ix) (ad_staged st)
            (mi_free_slot_hint ix) (mi_dense_active ix) ix')"
          unfolding d using ok False by (auto simp: st w)
        ultimately show ?thesis using rollback_correct [OF inv0 c(4) [OF False]] by simp
      qed
    qed
  qed
qed

end
