(* ===== verification/Memory_Search.thy ===== *)
theory Memory_Search
  imports Memory_Index "HOL-Library.Multiset"
begin

text \<open>
  Searching the memory index (\<open>inference/memory_index.cpp\<close>, \<open>memory_index_internal.hpp\<close>): the best
  \<open>top_k\<close> records for a query are kept in a list, ordered by score, and by key where scores are
  equal, while a loop goes over the active slots. One query over many records is shared by several
  workers that each search a range of the list; their results are merged. A cursor hands the results
  out in portions.

  The scores are given by the kernels, which are parameters, and are of a linear order: a score that
  is not a number is not represented. The buffer of the results is a list of at least \<open>top_k\<close>
  elements, of which the first \<open>filled\<close> count.
\<close>

section \<open>Results\<close>

record 's mem_result =
  res_size :: u32
  res_group_id :: u32
  res_key :: u64
  res_document_id :: u32
  res_chunk_id :: u32
  res_score :: 's
  res_flags :: u32

record search_desc =
  sd_size :: u32
  sd_top_k :: u32
  sd_group_id :: u32
  sd_flags :: u32
  sd_graph_search :: u32

definition sizeof_result :: u32 where
  "sizeof_result = 32"

definition sizeof_search_desc :: u32 where
  "sizeof_search_desc = 20"

definition MEMORY_GROUP_ANY :: u32 where
  "MEMORY_GROUP_ANY = 0xFFFFFFFF"

definition record_matches_group :: "search_desc \<Rightarrow> mem_slot \<Rightarrow> bool" where
  "record_matches_group d slot \<longleftrightarrow> sd_group_id d = MEMORY_GROUP_ANY \<or> rec_group_id (slot_record slot) = sd_group_id d"

definition result_better :: "'s::linorder mem_result \<Rightarrow> 's mem_result \<Rightarrow> bool" where
  "result_better candidate existing \<longleftrightarrow> res_score candidate > res_score existing \<or>
     res_score candidate = res_score existing \<and> res_key candidate < res_key existing"

definition result_better_values :: "'s::linorder \<Rightarrow> u64 \<Rightarrow> 's mem_result \<Rightarrow> bool" where
  "result_better_values score key existing \<longleftrightarrow> score > res_score existing \<or>
     score = res_score existing \<and> key < res_key existing"

definition fill_result :: "mem_slot \<Rightarrow> 's \<Rightarrow> 's mem_result" where
  "fill_result slot score = (let r = slot_record slot in
     \<lparr>res_size = sizeof_result, res_group_id = rec_group_id r, res_key = rec_key r,
      res_document_id = rec_document_id r, res_chunk_id = rec_chunk_id r, res_score = score,
      res_flags = rec_flags r\<rparr>)"

text \<open>The loop of \<open>insert_result\<close>: worse results move up by one.\<close>

fun shift_insert :: "'s::linorder mem_result list \<Rightarrow> nat \<Rightarrow> 's mem_result \<Rightarrow> 's mem_result list" where
  "shift_insert results 0 candidate = results[0 := candidate]"
| "shift_insert results (Suc pos) candidate =
     (if result_better candidate (results ! pos)
      then shift_insert (results[Suc pos := results ! pos]) pos candidate
      else results[Suc pos := candidate])"

definition insert_result :: "'s::linorder mem_result list \<Rightarrow> nat \<Rightarrow> nat \<Rightarrow> 's mem_result \<Rightarrow> 's mem_result list \<times> nat" where
  "insert_result results top_k filled candidate =
     (if filled < top_k then (shift_insert results filled candidate, Suc filled)
      else if top_k \<noteq> 0 \<and> \<not> result_better candidate (results ! (top_k - 1)) then (results, filled)
      else (shift_insert results (top_k - 1) candidate, filled))"

section \<open>Loops over the records\<close>

text \<open>The body of every loop: a record of another group, or one that is not good enough, is passed.\<close>

definition consider_slot ::
    "search_desc \<Rightarrow> ('v \<Rightarrow> 's::linorder) \<Rightarrow> 'v mem_index \<Rightarrow> 's mem_result list \<times> nat \<Rightarrow> nat \<Rightarrow> 's mem_result list \<times> nat" where
  "consider_slot d score ix st active_pos =
     (let (results, filled) = st;
          slot = active_slot_at ix active_pos;
          s = mi_slots ix ! unat slot;
          top_k = unat (sd_top_k d)
      in if \<not> record_matches_group d s then st
         else let sc = score (mi_vectors ix ! unat slot) in
           if filled = top_k \<and> \<not> result_better_values sc (rec_key (slot_record s)) (results ! (top_k - 1)) then st
           else insert_result results top_k filled (fill_result s sc))"

definition memory_search_dot ::
    "search_desc \<Rightarrow> ('v \<Rightarrow> 's::linorder) \<Rightarrow> 'v mem_index \<Rightarrow> 's mem_result list \<Rightarrow> 's mem_result list \<times> nat" where
  "memory_search_dot d dot ix out = foldl (consider_slot d dot ix) (out, 0) [0..<unat (mi_count ix)]"

definition memory_search_cosine ::
    "search_desc \<Rightarrow> ('v \<Rightarrow> 's::linorder) \<Rightarrow> 'v mem_index \<Rightarrow> 's mem_result list \<Rightarrow> 's mem_result list \<times> nat" where
  "memory_search_cosine d dot ix out = foldl (consider_slot d dot ix) (out, 0) [0..<unat (mi_count ix)]"

definition memory_search_l2 ::
    "search_desc \<Rightarrow> ('v \<Rightarrow> 's::linorder) \<Rightarrow> 'v mem_index \<Rightarrow> 's mem_result list \<Rightarrow> 's mem_result list \<times> nat" where
  "memory_search_l2 d l2 ix out = foldl (consider_slot d l2 ix) (out, 0) [0..<unat (mi_count ix)]"

text \<open>\<open>memory_search_flat_batch_range\<close> for one query.\<close>

definition memory_search_flat_range ::
    "search_desc \<Rightarrow> ('v \<Rightarrow> 's::linorder) \<Rightarrow> 'v mem_index \<Rightarrow> nat \<Rightarrow> nat \<Rightarrow> 's mem_result list \<Rightarrow> 's mem_result list \<times> nat" where
  "memory_search_flat_range d score ix begin_i end_i out = foldl (consider_slot d score ix) (out, 0) [begin_i..<end_i]"

text \<open>The search for the single best record: the three loops of the \<open>top1\<close> functions.\<close>

definition better_pair :: "'s::linorder \<Rightarrow> u64 \<Rightarrow> 's \<Rightarrow> u64 \<Rightarrow> bool" where
  "better_pair score key best_score best_key \<longleftrightarrow> score > best_score \<or> score = best_score \<and> key < best_key"

text \<open>A step over slot \<open>slot\<close>, with the best slot and its score so far.\<close>

definition best_step :: "('v \<Rightarrow> 's::linorder) \<Rightarrow> 'v mem_index \<Rightarrow> u32 \<times> 's \<Rightarrow> u32 \<Rightarrow> u32 \<times> 's" where
  "best_step score ix best slot =
     (let sc = score (mi_vectors ix ! unat slot) in
      if better_pair sc (rec_key (slot_record (mi_slots ix ! unat slot)))
           (snd best) (rec_key (slot_record (mi_slots ix ! unat (fst best))))
      then (slot, sc) else best)"

definition group_best_step :: "search_desc \<Rightarrow> ('v \<Rightarrow> 's::linorder) \<Rightarrow> 'v mem_index \<Rightarrow> (u32 \<times> 's) option \<Rightarrow> u32 \<Rightarrow> (u32 \<times> 's) option" where
  "group_best_step d score ix best slot =
     (if \<not> record_matches_group d (mi_slots ix ! unat slot) then best
      else case best of None \<Rightarrow> Some (slot, score (mi_vectors ix ! unat slot))
        | Some b \<Rightarrow> Some (best_step score ix b slot))"

definition write_best :: "'v mem_index \<Rightarrow> 's::linorder mem_result list \<Rightarrow> u32 \<times> 's \<Rightarrow> 's mem_result list \<times> nat" where
  "write_best ix out best = (out[0 := fill_result (mi_slots ix ! unat (fst best)) (snd best)], 1)"

definition search_top1 ::
    "search_desc \<Rightarrow> ('v \<Rightarrow> 's::linorder) \<Rightarrow> 'v mem_index \<Rightarrow> 's mem_result list \<Rightarrow> 's mem_result list \<times> nat" where
  "search_top1 d score ix out =
     (let n = unat (mi_count ix) in
      if sd_group_id d = MEMORY_GROUP_ANY then
        (if n = 0 then (out, 0)
         else if mi_dense_active ix then
           write_best ix out (foldl (\<lambda>b s. best_step score ix b (of_nat s)) (0, score (mi_vectors ix ! 0)) [1..<n])
         else let first = active_slot_at ix 0 in
           write_best ix out (foldl (\<lambda>b p. best_step score ix b (active_slot_at ix p))
             (first, score (mi_vectors ix ! unat first)) [1..<n]))
      else (case foldl (\<lambda>b p. group_best_step d score ix b (active_slot_at ix p)) None [0..<n] of
          None \<Rightarrow> (out, 0)
        | Some best \<Rightarrow> write_best ix out best))"

definition memory_search_dot_top1 ::
    "search_desc \<Rightarrow> ('v \<Rightarrow> 's::linorder) \<Rightarrow> 'v mem_index \<Rightarrow> 's mem_result list \<Rightarrow> 's mem_result list \<times> nat" where
  "memory_search_dot_top1 d dot ix out = search_top1 d dot ix out"

definition memory_search_cosine_top1 ::
    "search_desc \<Rightarrow> ('v \<Rightarrow> 's::linorder) \<Rightarrow> 'v mem_index \<Rightarrow> 's mem_result list \<Rightarrow> 's mem_result list \<times> nat" where
  "memory_search_cosine_top1 d dot ix out = search_top1 d dot ix out"

definition memory_search_l2_top1 ::
    "search_desc \<Rightarrow> ('v \<Rightarrow> 's::linorder) \<Rightarrow> 'v mem_index \<Rightarrow> 's mem_result list \<Rightarrow> 's mem_result list \<times> nat" where
  "memory_search_l2_top1 d l2 ix out = search_top1 d l2 ix out"

section \<open>Sharing a search\<close>

definition kMemorySearchBatchParallelMaxRecords :: u32 where
  "kMemorySearchBatchParallelMaxRecords = 32768"

definition kMemorySearchRecordParallelMaxTopK :: u32 where
  "kMemorySearchRecordParallelMaxTopK = 10"

definition kMemorySearchBatchParallelMaxWorkers :: u32 where
  "kMemorySearchBatchParallelMaxWorkers = 16"

text \<open>What the runtime tells: whether it is up, its threads, and whether the caller is one of them.\<close>

record search_env =
  se_initialized :: bool
  se_threads :: u32
  se_on_worker :: bool

text \<open>The number of shards, 0 when the search is not shared.\<close>

definition record_shards :: "search_env \<Rightarrow> u32 \<Rightarrow> u32 \<Rightarrow> u32" where
  "record_shards env records top_k =
     (if records \<le> kMemorySearchBatchParallelMaxRecords \<or> top_k > kMemorySearchRecordParallelMaxTopK \<or> \<not> se_initialized env
      then 0
      else if se_threads env = 0 then 0
      else let remote = (if se_on_worker env then se_threads env - 1 else se_threads env);
               remote = (if remote \<ge> kMemorySearchBatchParallelMaxWorkers then kMemorySearchBatchParallelMaxWorkers - 1 else remote)
           in if remote = 0 then 0 else remote + 1)"

text \<open>Where shard \<open>i\<close> of \<open>n\<close> begins; the product is taken in 64 bits.\<close>

definition shard_begin :: "u32 \<Rightarrow> u32 \<Rightarrow> nat \<Rightarrow> nat" where
  "shard_begin records n i = unat ((ucast records :: u64) * of_nat i div ucast n)"

text \<open>The results a shard finds, in its own list of ten.\<close>

definition empty_result :: "'s::linorder \<Rightarrow> 's mem_result" where
  "empty_result z = \<lparr>res_size = 0, res_group_id = 0, res_key = 0, res_document_id = 0, res_chunk_id = 0,
     res_score = z, res_flags = 0\<rparr>"

definition shard_results ::
    "search_desc \<Rightarrow> ('v \<Rightarrow> 's::linorder) \<Rightarrow> 's \<Rightarrow> 'v mem_index \<Rightarrow> u32 \<Rightarrow> nat \<Rightarrow> 's mem_result list" where
  "shard_results d score z ix n i =
     (let (local, k) = memory_search_flat_range d score ix (shard_begin (mi_count ix) n i) (shard_begin (mi_count ix) n (Suc i))
            (replicate (unat kMemorySearchRecordParallelMaxTopK) (empty_result z))
      in take k local)"

text \<open>The workers write to their own lists only, so their order does not matter; the caller merges
  when all are through. \<open>None\<close> when the search is not shared.\<close>

definition memory_search_flat_record_parallel ::
    "search_env \<Rightarrow> search_desc \<Rightarrow> ('v \<Rightarrow> 's::linorder) \<Rightarrow> 's \<Rightarrow> 'v mem_index \<Rightarrow> 's mem_result list \<Rightarrow>
     ('s mem_result list \<times> nat) option" where
  "memory_search_flat_record_parallel env d score z ix out =
     (let n = record_shards env (mi_count ix) (sd_top_k d) in
      if n = 0 then None
      else Some (foldl (\<lambda>st r. insert_result (fst st) (unat (sd_top_k d)) (snd st) r) (out, 0)
             (concat (map (shard_results d score z ix n) [0..<unat n]))))"

text \<open>The scores of a query: by dot product, with the normalized query, by distance, and by
  \<open>score_slot\<close>, which the shared search uses. The searches of vectors in compact storage and of the graph
  are not modelled; they stand here as \<open>k_compact\<close> and \<open>k_graph\<close>, and nothing is stated of them.\<close>

record ('q, 'v, 's) kernels =
  k_dot :: "'q \<Rightarrow> 'v \<Rightarrow> 's"
  k_cosine :: "'q \<Rightarrow> 'v \<Rightarrow> 's"
  k_l2 :: "'q \<Rightarrow> 'v \<Rightarrow> 's"
  k_slot :: "'q \<Rightarrow> 'v \<Rightarrow> 's"
  k_zero :: 's
  k_compact :: "search_desc \<Rightarrow> 'q \<Rightarrow> 'v mem_index \<Rightarrow> 's mem_result list \<Rightarrow> 's mem_result list \<times> nat"
  k_graph :: "search_desc \<Rightarrow> 'q \<Rightarrow> 'v mem_index \<Rightarrow> 's mem_result list \<Rightarrow> 's mem_result list \<times> nat"

text \<open>Storage kind 0 is that of 32-bit floats, all others are compact.\<close>

definition memory_search_flat ::
    "('q, 'v, 's::linorder) kernels \<Rightarrow> search_env \<Rightarrow> search_desc \<Rightarrow> 'q \<Rightarrow> 'v mem_index \<Rightarrow> 's mem_result list \<Rightarrow>
     's mem_result list \<times> nat" where
  "memory_search_flat k env d q ix out =
     (case memory_search_flat_record_parallel env d (k_slot k q) (k_zero k) ix out of
        Some res \<Rightarrow> res
      | None \<Rightarrow>
          if mi_storage_kind ix \<noteq> 0 then k_compact k d q ix out
          else if sd_top_k d = 1 then
            (if mi_metric ix = 0 then memory_search_dot_top1 d (k_dot k q) ix out
             else if mi_metric ix = 1 then memory_search_cosine_top1 d (k_cosine k q) ix out
             else memory_search_l2_top1 d (k_l2 k q) ix out)
          else if mi_metric ix = 0 then memory_search_dot d (k_dot k q) ix out
          else if mi_metric ix = 1 then memory_search_cosine d (k_cosine k q) ix out
          else memory_search_l2 d (k_l2 k q) ix out)"

definition memory_search ::
    "('q, 'v, 's::linorder) kernels \<Rightarrow> ('q \<Rightarrow> bool) \<Rightarrow> search_env \<Rightarrow> 'v mem_index \<Rightarrow> search_desc \<Rightarrow> 'q \<Rightarrow> 's mem_result list \<Rightarrow> u32 \<Rightarrow>
     astral_err \<times> 's mem_result list \<times> nat" where
  "memory_search k finite_values env ix d q out max_results =
     (if sd_size d \<noteq> sizeof_search_desc \<or> sd_top_k d = 0 then (ASTRAL_E_INVALID, out, 0)
      else if max_results < sd_top_k d then (ASTRAL_E_NOMEM, out, 0)
      else if \<not> finite_values q then (ASTRAL_E_INVALID, out, 0)
      else if mi_index_kind ix = 1 then (ASTRAL_OK, k_graph k d q ix out)
      else (ASTRAL_OK, memory_search_flat k env d q ix out))"

section \<open>Cursors\<close>

record 's search_cursor =
  sc_handle :: u64
  sc_capacity :: u32
  sc_count :: u32
  sc_offset :: u32
  sc_canceled :: bool
  sc_results :: "'s mem_result list"

definition kInlineSearchCursorResults :: u32 where
  "kInlineSearchCursorResults = 8"

text \<open>\<open>memory_search_begin\<close>; \<open>new_ok\<close> and \<open>array_ok\<close> are the allocations of the cursor and of its
  results, \<open>handle\<close> the answer of the handle table.\<close>

definition memory_search_begin ::
    "('q, 'v, 's::linorder) kernels \<Rightarrow> ('q \<Rightarrow> bool) \<Rightarrow> search_env \<Rightarrow> bool \<Rightarrow> bool \<Rightarrow> u64 \<Rightarrow> 'v mem_index \<Rightarrow> search_desc \<Rightarrow> 'q \<Rightarrow>
     astral_err + 's search_cursor" where
  "memory_search_begin k finite_values env new_ok array_ok handle ix d q =
     (if sd_size d \<noteq> sizeof_search_desc \<or> sd_top_k d = 0 then Inl ASTRAL_E_INVALID
      else if \<not> finite_values q then Inl ASTRAL_E_INVALID
      else let capacity = (if sd_top_k d < mi_count ix then sd_top_k d else mi_count ix);
               fresh = replicate (unat (if capacity \<le> kInlineSearchCursorResults then kInlineSearchCursorResults else capacity))
                         (empty_result (k_zero k))
           in if \<not> new_ok then Inl ASTRAL_E_NOMEM
              else if capacity > kInlineSearchCursorResults \<and> \<not> array_ok then Inl ASTRAL_E_NOMEM
              else let (e, results, n) =
                         (if capacity \<noteq> 0 then memory_search k finite_values env ix (d\<lparr>sd_top_k := capacity\<rparr>) q fresh capacity
                          else (ASTRAL_OK, fresh, 0))
                   in if e \<noteq> ASTRAL_OK then Inl e
                      else if handle = 0 then Inl ASTRAL_E_BUSY
                      else Inr \<lparr>sc_handle = handle, sc_capacity = capacity, sc_count = of_nat n, sc_offset = 0,
                             sc_canceled = False, sc_results = results\<rparr>)"

text \<open>The answer of a fetch: the code, the results that are copied out, and the cursor.\<close>

definition memory_search_fetch :: "'s::linorder search_cursor \<Rightarrow> u32 \<Rightarrow> astral_err \<times> 's mem_result list \<times> 's search_cursor" where
  "memory_search_fetch c max_results =
     (if sc_canceled c then (ASTRAL_E_CANCELED, [], c)
      else if max_results = 0 \<or> sc_offset c \<ge> sc_count c then (ASTRAL_OK, [], c)
      else let remaining = sc_count c - sc_offset c;
               to_copy = (if remaining < max_results then remaining else max_results)
           in (ASTRAL_OK, take (unat to_copy) (drop (unat (sc_offset c)) (sc_results c)),
               c\<lparr>sc_offset := sc_offset c + to_copy\<rparr>))"

definition memory_search_cancel :: "'s search_cursor \<Rightarrow> 's search_cursor" where
  "memory_search_cancel c = c\<lparr>sc_canceled := True\<rparr>"

datatype request_state =
    ASTRAL_REQUEST_INVALID
  | ASTRAL_REQUEST_QUEUED
  | ASTRAL_REQUEST_RUNNING
  | ASTRAL_REQUEST_COMPLETED
  | ASTRAL_REQUEST_CANCELED
  | ASTRAL_REQUEST_FAILED

definition memory_search_cursor_remaining :: "'s search_cursor \<Rightarrow> u32" where
  "memory_search_cursor_remaining c = (if sc_offset c < sc_count c then sc_count c - sc_offset c else 0)"

definition memory_search_cursor_status :: "'s search_cursor \<Rightarrow> request_state \<times> u32" where
  "memory_search_cursor_status c =
     (if sc_canceled c then (ASTRAL_REQUEST_CANCELED, 0)
      else (ASTRAL_REQUEST_COMPLETED, if sc_offset c < sc_count c then sc_count c - sc_offset c else 0))"

section \<open>The order of the results\<close>

lemma better_irrefl [simp]: "\<not> result_better r r"
  by (simp add: result_better_def)

lemma better_trans: "result_better a b \<Longrightarrow> result_better b c \<Longrightarrow> result_better a c"
  by (auto simp: result_better_def)

lemma better_total: "res_key a \<noteq> res_key b \<Longrightarrow> result_better a b \<or> result_better b a"
  by (auto simp: result_better_def)

lemma better_values: "result_better_values sc (rec_key (slot_record s)) r = result_better (fill_result s sc) r"
  by (simp add: result_better_values_def result_better_def fill_result_def Let_def)

text \<open>Insertion into a list of results, and sorting by it.\<close>

fun insert_by :: "'s::linorder mem_result \<Rightarrow> 's mem_result list \<Rightarrow> 's mem_result list" where
  "insert_by c [] = [c]"
| "insert_by c (x # xs) = (if result_better c x then c # x # xs else x # insert_by c xs)"

definition ranked :: "'s::linorder mem_result list \<Rightarrow> 's mem_result list" where
  "ranked rs = foldl (\<lambda>L r. insert_by r L) [] rs"

lemma set_insert_by [simp]: "set (insert_by c xs) = insert c (set xs)"
  by (induction xs) auto

lemma length_insert_by [simp]: "length (insert_by c xs) = Suc (length xs)"
  by (induction xs) auto

lemma sorted_insert_by:
  "sorted_wrt result_better xs \<Longrightarrow> (\<And>x. x \<in> set xs \<Longrightarrow> res_key x \<noteq> res_key c) \<Longrightarrow> sorted_wrt result_better (insert_by c xs)"
proof (induction xs)
  case (Cons x xs)
  show ?case
  proof (cases "result_better c x")
    case True
    then show ?thesis using Cons.prems(1) better_trans [OF True] by auto
  next
    case False
    then have "result_better x c" using better_total [of c x] Cons.prems(2) [of x] by auto
    then show ?thesis using False Cons by auto
  qed
qed simp

lemma insert_by_snoc:
  "sorted_wrt result_better (xs @ [y]) \<Longrightarrow>
   insert_by c (xs @ [y]) = (if result_better c y then insert_by c xs @ [y] else xs @ [y, c])"
proof (induction xs)
  case (Cons x xs)
  have "result_better x y" using Cons.prems by simp
  then have "result_better c x \<Longrightarrow> result_better c y" using better_trans by blast
  then show ?case using Cons by auto
qed simp

lemma take_insert_by: "take k (insert_by c (take k xs)) = take k (insert_by c xs)"
proof (induction xs arbitrary: k)
  case (Cons x xs)
  show ?case
  proof (cases k)
    case (Suc j)
    then show ?thesis using Cons.IH [of j] by (cases j) (auto simp: take_Cons')
  qed simp
qed simp

section \<open>One result\<close>

lemma length_shift_insert [simp]: "length (shift_insert results p c) = length results"
  by (induction results p c rule: shift_insert.induct) auto

lemma shift_insert_spec:
  "p < length results \<Longrightarrow> sorted_wrt result_better (take p results) \<Longrightarrow>
   take (Suc p) (shift_insert results p c) = insert_by c (take p results) \<and>
   (\<forall>i>p. shift_insert results p c ! i = results ! i)"
proof (induction p arbitrary: results)
  case 0
  then show ?case by (cases results) auto
next
  case (Suc p)
  have split: "take (Suc p) results = take p results @ [results ! p]"
    using Suc.prems(1) by (simp add: take_Suc_conv_app_nth)
  note ins = insert_by_snoc [OF Suc.prems(2) [unfolded split], of c]
  show ?case
  proof (cases "result_better c (results ! p)")
    case True
    let ?r = "results[Suc p := results ! p]"
    have p: "p < length ?r" "sorted_wrt result_better (take p ?r)" using Suc.prems by (simp_all add: split sorted_wrt_append)
    from Suc.IH [OF this] have IH: "take (Suc p) (shift_insert ?r p c) = insert_by c (take p results)"
      "\<And>i. i > p \<Longrightarrow> shift_insert ?r p c ! i = ?r ! i" by simp_all
    have "take (Suc (Suc p)) (shift_insert ?r p c) = take (Suc p) (shift_insert ?r p c) @ [shift_insert ?r p c ! Suc p]"
      using Suc.prems(1) by (simp add: take_Suc_conv_app_nth)
    also have "\<dots> = insert_by c (take p results) @ [results ! p]" using IH Suc.prems(1) by simp
    finally show ?thesis using True IH(2) ins by (simp add: split)
  next
    case False
    have "take (Suc (Suc p)) (results[Suc p := c]) = take (Suc p) results @ [c]"
      using Suc.prems(1) by (simp add: take_Suc_conv_app_nth)
    then show ?thesis using False ins by (simp add: split)
  qed
qed

lemma insert_result_spec:
  assumes "filled \<le> top_k" "top_k \<le> length results" "0 < top_k" "sorted_wrt result_better (take filled results)"
    and "insert_result results top_k filled c = (results', filled')"
  shows "take filled' results' = take top_k (insert_by c (take filled results)) \<and>
    filled' = min top_k (Suc filled) \<and> length results' = length results"
proof (cases "filled < top_k")
  case True
  then have "filled < length results" using assms(2) by simp
  from shift_insert_spec [OF this assms(4), of c] show ?thesis
    using True assms(5) by (auto simp: insert_result_def)
next
  case False
  then have f: "filled = top_k" using assms(1) by simp
  obtain k where k: "top_k = Suc k" using assms(3) by (cases top_k) auto
  have split: "take top_k results = take k results @ [results ! k]"
    using assms(2) by (simp add: k take_Suc_conv_app_nth)
  note ins = insert_by_snoc [OF assms(4) [unfolded f split], of c]
  show ?thesis
  proof (cases "result_better c (results ! k)")
    case True
    have kl: "k < length results" using assms(2) k by simp
    have "sorted_wrt result_better (take k results)"
      using assms(4) unfolding f split by (simp add: sorted_wrt_append)
    from shift_insert_spec [OF kl this, of c] show ?thesis
      using True assms(5) ins assms(2) by (auto simp: insert_result_def f k split [unfolded k])
  next
    case b: False
    then have r: "results' = results" "filled' = top_k" using assms(5) k by (auto simp: insert_result_def f)
    have "insert_by c (take top_k results) = take k results @ [results ! k, c]" using ins b split by simp
    then have "take top_k (insert_by c (take top_k results)) = take top_k results"
      using assms(2) split k by simp
    then show ?thesis using assms(2) by (simp add: r f)
  qed
qed

section \<open>Ranking a list\<close>

lemma foldl_insert_set: "set (foldl (\<lambda>L r. insert_by r L) L rs) = set L \<union> set rs"
  by (induction rs arbitrary: L) auto

lemma foldl_insert_sorted:
  "sorted_wrt result_better L \<Longrightarrow> distinct (map res_key (L @ rs)) \<Longrightarrow>
   sorted_wrt result_better (foldl (\<lambda>L r. insert_by r L) L rs)"
proof (induction rs arbitrary: L)
  case (Cons r rs)
  have "sorted_wrt result_better (insert_by r L)"
    by (rule sorted_insert_by [OF Cons.prems(1)]) (use Cons.prems(2) in \<open>auto simp: image_iff\<close>)
  moreover have "distinct (map res_key (insert_by r L @ rs))"
  proof -
    have "mset (insert_by r L) = mset (r # L)" by (induction L) auto
    then have "mset (map res_key (insert_by r L @ rs)) = mset (map res_key (L @ r # rs))" by simp
    then show ?thesis using Cons.prems(2) mset_eq_imp_distinct_iff by blast
  qed
  ultimately show ?case using Cons.IH by simp
qed simp

lemma set_ranked [simp]: "set (ranked rs) = set rs"
  by (simp add: ranked_def foldl_insert_set)

lemma length_ranked [simp]: "length (ranked rs) = length rs"
proof -
  have "length (foldl (\<lambda>L r. insert_by r L) L rs) = length L + length rs" for L
    by (induction rs arbitrary: L) simp_all
  then show ?thesis by (simp add: ranked_def)
qed

lemma sorted_ranked: "distinct (map res_key rs) \<Longrightarrow> sorted_wrt result_better (ranked rs)"
  unfolding ranked_def by (rule foldl_insert_sorted) simp_all

text \<open>A ranked list is determined by its elements.\<close>

lemma sorted_better_unique:
  "sorted_wrt result_better xs \<Longrightarrow> sorted_wrt result_better ys \<Longrightarrow> set xs = set ys \<Longrightarrow> xs = ys"
proof (induction xs arbitrary: ys)
  case (Cons x xs)
  obtain y ys' where ys: "ys = y # ys'" using Cons.prems(3) by (cases ys) auto
  have nx: "x \<notin> set xs" and ny: "y \<notin> set ys'" using Cons.prems(1,2) ys by auto
  have xy: "x = y"
  proof (rule ccontr)
    assume n: "x \<noteq> y"
    then have "x \<in> set ys'" "y \<in> set xs" using Cons.prems(3) ys by auto
    then have "result_better y x" "result_better x y" using Cons.prems(1,2) ys by auto
    then show False using better_trans better_irrefl by blast
  qed
  have "set xs = set ys'"
    using Cons.prems(3) nx ny unfolding ys xy by (simp add: insert_ident)
  then show ?case using Cons ys xy by auto
qed simp

lemma ranked_perm: "distinct (map res_key xs) \<Longrightarrow> distinct (map res_key ys) \<Longrightarrow> set xs = set ys \<Longrightarrow> ranked xs = ranked ys"
  by (rule sorted_better_unique) (simp_all add: sorted_ranked)

lemma ranked_sorted: "sorted_wrt result_better xs \<Longrightarrow> distinct (map res_key xs) \<Longrightarrow> ranked xs = xs"
  by (rule sorted_better_unique) (simp_all add: sorted_ranked)

section \<open>The loops find the best\<close>

text \<open>Keeping the first \<open>k\<close> after each insertion is the same as at the end.\<close>

definition keep :: "nat \<Rightarrow> 's::linorder mem_result list \<Rightarrow> 's mem_result list \<Rightarrow> 's mem_result list" where
  "keep k L rs = foldl (\<lambda>L r. take k (insert_by r L)) L rs"

lemma keep_append [simp]: "keep k L (xs @ ys) = keep k (keep k L xs) ys"
  by (simp add: keep_def)

lemma keep_is_take: "keep k (take k L) rs = take k (foldl (\<lambda>L r. insert_by r L) L rs)"
  by (induction rs arbitrary: L) (simp_all add: keep_def take_insert_by)

lemma keep_ranked: "keep k [] rs = take k (ranked rs)"
  using keep_is_take [of k "[]" rs] by (simp add: ranked_def)

text \<open>The state of a loop: the buffer holds what is kept.\<close>

definition holds :: "nat \<Rightarrow> nat \<Rightarrow> 's::linorder mem_result list \<times> nat \<Rightarrow> 's mem_result list \<Rightarrow> bool" where
  "holds k len st L \<longleftrightarrow> take (snd st) (fst st) = L \<and> snd st = length L \<and> length L \<le> k \<and> length (fst st) = len \<and>
     sorted_wrt result_better L"

lemma holds_insert:
  assumes "holds k len st L" "k \<le> len" "0 < k" "\<And>x. x \<in> set L \<Longrightarrow> res_key x \<noteq> res_key r"
  shows "holds k len (insert_result (fst st) k (snd st) r) (take k (insert_by r L))"
proof -
  obtain results filled where st: "st = (results, filled)" by (cases st)
  obtain results' filled' where r: "insert_result results k filled r = (results', filled')" by fastforce
  have h: "take filled results = L" "filled = length L" "length L \<le> k" "length results = len" "sorted_wrt result_better L"
    using assms(1) unfolding holds_def st fst_conv snd_conv by blast+
  have spec: "take filled' results' = take k (insert_by r L)" "filled' = min k (Suc filled)" "length results' = len"
  proof -
    have "filled \<le> k" "k \<le> length results" "sorted_wrt result_better (take filled results)"
      using h assms(2) by (simp_all only:)
    from insert_result_spec [OF this(1,2) assms(3) this(3) r]
    show "take filled' results' = take k (insert_by r L)" "filled' = min k (Suc filled)" "length results' = len"
      unfolding h(1,4) by blast+
  qed
  then have "filled' = length (take k (insert_by r L))" using h(2) by simp
  moreover have "sorted_wrt result_better (take k (insert_by r L))"
    by (rule sorted_wrt_take [OF sorted_insert_by [OF h(5) assms(4)]])
  ultimately show ?thesis unfolding holds_def st r fst_conv snd_conv using spec(1,3) by simp
qed

text \<open>What a search looks at: the result of each slot of the group.\<close>

definition slot_result :: "('v \<Rightarrow> 's::linorder) \<Rightarrow> 'v mem_index \<Rightarrow> u32 \<Rightarrow> 's mem_result" where
  "slot_result score ix s = fill_result (mi_slots ix ! unat s) (score (mi_vectors ix ! unat s))"

definition candidates :: "search_desc \<Rightarrow> ('v \<Rightarrow> 's::linorder) \<Rightarrow> 'v mem_index \<Rightarrow> nat list \<Rightarrow> 's mem_result list" where
  "candidates d score ix ps =
     map (slot_result score ix) (filter (\<lambda>s. record_matches_group d (mi_slots ix ! unat s)) (map (active_slot_at ix) ps))"

lemma candidates_append [simp]: "candidates d score ix (ps @ qs) = candidates d score ix ps @ candidates d score ix qs"
  by (simp add: candidates_def)

lemma consider_holds:
  assumes h: "holds k len st L" and k: "k = unat (sd_top_k d)" "k \<le> len" "0 < k"
    and fresh: "\<And>x. x \<in> set L \<Longrightarrow> res_key x \<notin> res_key ` set (candidates d score ix [p])"
  shows "holds k len (consider_slot d score ix st p) (keep k L (candidates d score ix [p]))"
proof -
  obtain results filled where st: "st = (results, filled)" by (cases st)
  let ?slot = "active_slot_at ix p"
  let ?s = "mi_slots ix ! unat ?slot" and ?sc = "score (mi_vectors ix ! unat ?slot)"
  let ?r = "slot_result score ix ?slot"
  show ?thesis
  proof (cases "record_matches_group d ?s")
    case False
    then show ?thesis using h by (simp add: consider_slot_def candidates_def st keep_def Let_def)
  next
    case True
    then have c: "candidates d score ix [p] = [?r]" by (simp add: candidates_def)
    have ins: "holds k len (insert_result results k filled ?r) (keep k L [?r])"
      using holds_insert [OF h k(2,3), of ?r] fresh by (simp add: st c keep_def)
    show ?thesis
    proof (cases "filled = k \<and> \<not> result_better ?r (results ! (k - 1))")
      case skip: True
      then have "insert_result results k filled ?r = st" using k(3) by (simp add: insert_result_def st)
      moreover have "consider_slot d score ix st p = st"
        using True skip k(1) by (simp add: consider_slot_def st Let_def better_values slot_result_def)
      ultimately show ?thesis using ins c by simp
    next
      case go: False
      have "consider_slot d score ix st p = insert_result results k filled ?r"
        unfolding consider_slot_def st
        using True go k(1) by (auto simp: Let_def better_values slot_result_def)
      then show ?thesis using ins c by simp
    qed
  qed
qed

lemma keep_subset: "set (keep k L rs) \<subseteq> set L \<union> set rs"
proof (induction rs arbitrary: L)
  case (Cons r rs)
  have "set (take k (insert_by r L)) \<subseteq> insert r (set L)" using set_take_subset [of k "insert_by r L"] by simp
  then show ?case using Cons.IH [of "take k (insert_by r L)"] by (auto simp: keep_def)
qed (simp add: keep_def)

lemma insert_by_keys: "distinct (map res_key (r # L)) \<Longrightarrow> distinct (map res_key (insert_by r L))"
proof -
  have "mset (insert_by r L) = mset (r # L)" by (induction L) auto
  then have "mset (map res_key (insert_by r L)) = mset (map res_key (r # L))" by simp
  then show "distinct (map res_key (r # L)) \<Longrightarrow> distinct (map res_key (insert_by r L))"
    using mset_eq_imp_distinct_iff by blast
qed

lemma keep_keys: "distinct (map res_key (L @ rs)) \<Longrightarrow> distinct (map res_key (keep k L rs))"
proof (induction rs arbitrary: L)
  case (Cons r rs)
  have sub: "set (take k (insert_by r L)) \<subseteq> insert r (set L)" using set_take_subset [of k "insert_by r L"] by simp
  have "distinct (map res_key (insert_by r L))" by (rule insert_by_keys) (use Cons.prems in auto)
  then have "distinct (map res_key (take k (insert_by r L)))" by (simp add: take_map [symmetric])
  moreover have "res_key ` set (take k (insert_by r L)) \<inter> res_key ` set rs = {}" using sub Cons.prems by fastforce
  ultimately have "distinct (map res_key (take k (insert_by r L) @ rs))" using Cons.prems by simp
  then show ?case using Cons.IH by (simp add: keep_def)
qed (simp add: keep_def)

lemma loop_holds:
  assumes "holds k len st L" "k = unat (sd_top_k d)" "k \<le> len" "0 < k"
    and "distinct (map res_key (L @ candidates d score ix ps))"
  shows "holds k len (foldl (consider_slot d score ix) st ps) (keep k L (candidates d score ix ps))"
  using assms(1,5)
proof (induction ps arbitrary: st L)
  case Nil
  then show ?case by (simp add: candidates_def keep_def)
next
  case (Cons p ps)
  have c: "candidates d score ix (p # ps) = candidates d score ix [p] @ candidates d score ix ps"
    using candidates_append [of d score ix "[p]" ps] by simp
  let ?L = "keep k L (candidates d score ix [p])"
  have h: "holds k len (consider_slot d score ix st p) ?L"
    by (rule consider_holds [OF Cons.prems(1) assms(2-4)]) (use Cons.prems(2) in \<open>auto simp: c\<close>)
  have "distinct (map res_key (?L @ candidates d score ix ps))"
  proof -
    have inj: "distinct (map res_key ?L)" by (rule keep_keys) (use Cons.prems(2) in \<open>auto simp: c\<close>)
    have "set ?L \<subseteq> set L \<union> set (candidates d score ix [p])" by (rule keep_subset)
    then have "res_key ` set ?L \<inter> res_key ` set (candidates d score ix ps) = {}"
      using Cons.prems(2) unfolding c by fastforce
    then show ?thesis using inj Cons.prems(2) unfolding c by simp
  qed
  from Cons.IH [OF h this] show ?case by (simp add: c)
qed

text \<open>The results of all records of the group; their keys are distinct.\<close>

definition group_results :: "search_desc \<Rightarrow> ('v \<Rightarrow> 's::linorder) \<Rightarrow> (u64 \<rightharpoonup> mem_record \<times> 'v) \<Rightarrow> 's mem_result set" where
  "group_results d score m =
     {fill_result \<lparr>slot_record = r, slot_active_pos = 0, slot_occupied = True\<rparr> (score v) |r v.
       (r, v) \<in> ran m \<and> (sd_group_id d = MEMORY_GROUP_ANY \<or> rec_group_id r = sd_group_id d)}"

lemma active_positions: "mem_inv ix \<Longrightarrow> map (active_slot_at ix) [0..<unat (mi_count ix)] = active_slots ix"
  using mem_invD(3,7) [of ix]
  by (intro nth_equalityI) (simp_all add: active_slot_at_dense active_slots_def)

lemma slot_result_fill: "slot_result score ix s =
  fill_result \<lparr>slot_record = fst (entry ix s), slot_active_pos = 0, slot_occupied = True\<rparr> (score (snd (entry ix s)))"
  by (simp add: slot_result_def fill_result_def entry_def Let_def)

lemma candidates_set:
  assumes "mem_inv ix"
  shows "set (candidates d score ix [0..<unat (mi_count ix)]) = group_results d score (mem_map ix)"
proof -
  have "(r, v) \<in> ran (mem_map ix) \<longleftrightarrow> (\<exists>s\<in>set (active_slots ix). (r, v) = entry ix s)" for r v
    unfolding active_set [OF assms] using mem_map_Some [OF assms] by (auto simp: ran_def)
  then have "group_results d score (mem_map ix) = {slot_result score ix s |s. s \<in> set (active_slots ix) \<and>
      record_matches_group d (mi_slots ix ! unat s)}"
    unfolding group_results_def slot_result_fill record_matches_group_def by (auto simp: entry_def)
  then show ?thesis by (auto simp: candidates_def active_positions [OF assms])
qed

lemma candidates_keys:
  assumes "mem_inv ix"
  shows "distinct (map res_key (candidates d score ix [0..<unat (mi_count ix)]))"
proof -
  have "map res_key (candidates d score ix [0..<unat (mi_count ix)]) =
      map (\<lambda>s. rec_key (slot_record (mi_slots ix ! unat s)))
        (filter (\<lambda>s. record_matches_group d (mi_slots ix ! unat s)) (active_slots ix))"
    by (simp add: candidates_def active_positions [OF assms] slot_result_def fill_result_def Let_def comp_def)
  then show ?thesis using distinct_map_filter [OF active_keys_distinct [OF assms]] by simp
qed

lemma holds_start: "holds k (length out) (out, 0) []"
  by (simp add: holds_def)

text \<open>A loop over all records leaves the best in the buffer.\<close>

lemma search_loop_correct:
  assumes "mem_inv ix" "sd_top_k d \<noteq> 0" "unat (sd_top_k d) \<le> length out"
  shows "holds (unat (sd_top_k d)) (length out) (foldl (consider_slot d score ix) (out, 0) [0..<unat (mi_count ix)])
    (take (unat (sd_top_k d)) (ranked (candidates d score ix [0..<unat (mi_count ix)])))"
proof -
  have k: "0 < unat (sd_top_k d)" using assms(2) by (simp add: unat_gt_0)
  have "distinct (map res_key ([] @ candidates d score ix [0..<unat (mi_count ix)]))"
    using candidates_keys [OF assms(1)] by simp
  from loop_holds [OF holds_start refl assms(3) k this] show ?thesis by (simp add: keep_ranked)
qed

section \<open>The single best\<close>

text \<open>The step keeps the better one of the two slots.\<close>

lemma best_step_result:
  assumes "snd b = score (mi_vectors ix ! unat (fst b))"
  shows "snd (best_step score ix b s) = score (mi_vectors ix ! unat (fst (best_step score ix b s)))"
    "slot_result score ix (fst (best_step score ix b s)) =
      (if result_better (slot_result score ix s) (slot_result score ix (fst b)) then slot_result score ix s
       else slot_result score ix (fst b))"
  using assms by (simp_all add: best_step_def Let_def better_pair_def result_better_def slot_result_def fill_result_def)

lemma keep_one: "keep 1 [x] [r] = [if result_better r x then r else x]"
  by (simp add: keep_def)

lemma keep_Cons: "keep k L (r # rs) = keep k (keep k L [r]) rs"
  by (simp add: keep_def)

definition best_result :: "('v \<Rightarrow> 's::linorder) \<Rightarrow> 'v mem_index \<Rightarrow> (u32 \<times> 's) option \<Rightarrow> 's mem_result list" where
  "best_result score ix b = (case b of None \<Rightarrow> [] | Some x \<Rightarrow> [slot_result score ix (fst x)])"

definition best_ok :: "('v \<Rightarrow> 's::linorder) \<Rightarrow> 'v mem_index \<Rightarrow> (u32 \<times> 's) option \<Rightarrow> bool" where
  "best_ok score ix b \<longleftrightarrow> (case b of None \<Rightarrow> True | Some x \<Rightarrow> snd x = score (mi_vectors ix ! unat (fst x)))"

lemma group_best_step_result:
  assumes "best_ok score ix b" "record_matches_group d (mi_slots ix ! unat s)"
  shows "best_ok score ix (group_best_step d score ix b s)"
    "best_result score ix (group_best_step d score ix b s) = keep 1 (best_result score ix b) [slot_result score ix s]"
proof -
  have "best_ok score ix (group_best_step d score ix b s) \<and>
    best_result score ix (group_best_step d score ix b s) = keep 1 (best_result score ix b) [slot_result score ix s]"
  proof (cases b)
    case None
    then show ?thesis using assms(2) by (simp add: group_best_step_def best_ok_def best_result_def keep_def)
  next
    case (Some y)
    have y: "snd y = score (mi_vectors ix ! unat (fst y))" using assms(1) Some by (simp add: best_ok_def)
    note st = best_step_result [where b = y and score = score and ix = ix and s = s, OF y]
    have g: "group_best_step d score ix b s = Some (best_step score ix y s)"
      using assms(2) Some by (simp add: group_best_step_def)
    have "best_ok score ix (Some (best_step score ix y s))" using st(1) by (simp add: best_ok_def)
    moreover have "best_result score ix (Some (best_step score ix y s)) =
        keep 1 [slot_result score ix (fst y)] [slot_result score ix s]"
      unfolding best_result_def option.case st(2) keep_one ..
    ultimately show ?thesis unfolding g by (simp add: Some best_result_def)
  qed
  then show "best_ok score ix (group_best_step d score ix b s)"
    "best_result score ix (group_best_step d score ix b s) = keep 1 (best_result score ix b) [slot_result score ix s]"
    by blast+
qed

lemma group_best_loop:
  assumes "best_ok score ix b"
  shows "best_ok score ix (foldl (group_best_step d score ix) b ss) \<and>
    best_result score ix (foldl (group_best_step d score ix) b ss) =
      keep 1 (best_result score ix b)
        (map (slot_result score ix) (filter (\<lambda>s. record_matches_group d (mi_slots ix ! unat s)) ss))"
  using assms
proof (induction ss arbitrary: b)
  case Nil
  then show ?case by (simp add: keep_def)
next
  case (Cons s ss)
  show ?case
  proof (cases "record_matches_group d (mi_slots ix ! unat s)")
    case False
    then have "group_best_step d score ix b s = b" by (simp add: group_best_step_def)
    then show ?thesis using Cons.IH [OF Cons.prems] False by simp
  next
    case True
    note st = group_best_step_result [OF Cons.prems True]
    have f: "map (slot_result score ix) (filter (\<lambda>s. record_matches_group d (mi_slots ix ! unat s)) (s # ss)) =
        slot_result score ix s # map (slot_result score ix) (filter (\<lambda>s. record_matches_group d (mi_slots ix ! unat s)) ss)"
      using True by simp
    let ?rs = "map (slot_result score ix) (filter (\<lambda>s. record_matches_group d (mi_slots ix ! unat s)) ss)"
    have k: "keep 1 (best_result score ix b) (slot_result score ix s # ?rs) =
        keep 1 (best_result score ix (group_best_step d score ix b s)) ?rs"
      using keep_Cons [of 1 "best_result score ix b" "slot_result score ix s" ?rs] by (simp only: st(2))
    show ?thesis unfolding f foldl_Cons k by (rule Cons.IH [OF st(1)])
  qed
qed

text \<open>Without a group the loops are those of a group to which all belong.\<close>

lemma group_best_any:
  "sd_group_id d = MEMORY_GROUP_ANY \<Longrightarrow>
   foldl (group_best_step d score ix) (Some b) ss = Some (foldl (best_step score ix) b ss)"
  by (induction ss arbitrary: b) (simp_all add: group_best_step_def record_matches_group_def)

lemma foldl_at: "foldl (\<lambda>b p. f b (g p)) b ps = foldl f b (map g ps)"
  by (induction ps arbitrary: b) simp_all

lemma search_top1_loop:
  "search_top1 d score ix out =
     (case foldl (group_best_step d score ix) None (map (active_slot_at ix) [0..<unat (mi_count ix)]) of
        None \<Rightarrow> (out, 0) | Some best \<Rightarrow> write_best ix out best)"
proof (cases "sd_group_id d = MEMORY_GROUP_ANY")
  case False
  then show ?thesis by (simp add: search_top1_def foldl_at Let_def)
next
  case True
  show ?thesis
  proof (cases "unat (mi_count ix)")
    case 0
    then show ?thesis using True by (simp add: search_top1_def)
  next
    case (Suc m)
    let ?first = "active_slot_at ix 0"
    have l: "[0..<unat (mi_count ix)] = 0 # [1..<unat (mi_count ix)]"
      unfolding Suc by (simp add: upt_conv_Cons)
    have g: "group_best_step d score ix None ?first = Some (?first, score (mi_vectors ix ! unat ?first))"
      using True by (simp add: group_best_step_def record_matches_group_def)
    have r: "foldl (group_best_step d score ix) None (map (active_slot_at ix) [0..<unat (mi_count ix)]) =
        Some (foldl (best_step score ix) (?first, score (mi_vectors ix ! unat ?first))
          (map (active_slot_at ix) [1..<unat (mi_count ix)]))"
      unfolding l list.map foldl_Cons g by (rule group_best_any [OF True])
    show ?thesis
    proof (cases "mi_dense_active ix")
      case dense: True
      then have "active_slot_at ix = of_nat" by (simp add: active_slot_at_def fun_eq_iff)
      then show ?thesis unfolding r using True dense Suc by (simp add: search_top1_def Let_def foldl_at)
    next
      case sparse: False
      then show ?thesis unfolding r using True Suc by (simp add: search_top1_def Let_def foldl_at)
    qed
  qed
qed

lemma search_top1_correct:
  assumes "out \<noteq> []"
  shows "holds 1 (length out) (search_top1 d score ix out)
    (take 1 (ranked (candidates d score ix [0..<unat (mi_count ix)])))"
proof -
  let ?ss = "map (active_slot_at ix) [0..<unat (mi_count ix)]"
  obtain b where b: "foldl (group_best_step d score ix) None ?ss = b" by simp
  have "best_ok score ix (None :: (u32 \<times> 'a) option)" by (simp add: best_ok_def)
  from group_best_loop [OF this, of d ?ss]
  have r: "best_ok score ix b"
    "best_result score ix b = take 1 (ranked (candidates d score ix [0..<unat (mi_count ix)]))"
    unfolding b keep_ranked [symmetric] candidates_def by (simp_all add: best_result_def)
  show ?thesis
  proof (cases b)
    case None
    then show ?thesis using r(2) b by (simp add: search_top1_loop holds_def best_result_def)
  next
    case (Some x)
    have "fill_result (mi_slots ix ! unat (fst x)) (snd x) = slot_result score ix (fst x)"
      using r(1) Some by (simp add: slot_result_def best_ok_def)
    moreover have "take 1 (ranked (candidates d score ix [0..<unat (mi_count ix)])) = [slot_result score ix (fst x)]"
      using r(2) Some by (simp add: best_result_def)
    ultimately show ?thesis using assms b Some by (cases out) (simp_all add: search_top1_loop holds_def write_best_def)
  qed
qed

section \<open>The shared search\<close>

lemma record_shards_le: "unat (record_shards env records top_k) \<le> 16"
proof -
  have b: "(if t \<ge> 16 then 15 else t) \<le> (15 :: u32)" for t :: u32
    by (simp add: word_le_nat_alt)
  have "unat ((if t \<ge> 16 then 15 else t) + 1 :: u32) \<le> 16" for t :: u32
    using b [of t] by (simp add: word_le_nat_alt unat_word_ariths mod_if)
  from this [of "se_threads env - 1"] this [of "se_threads env"] show ?thesis
    by (auto simp: record_shards_def kMemorySearchBatchParallelMaxWorkers_def Let_def split: if_splits)
qed

lemma shard_begin_nat:
  assumes "i \<le> unat n" "unat n \<le> 16"
  shows "shard_begin c n i = unat c * i div unat n"
proof -
  have c: "unat c < 2 ^ 32" using unsigned_less [of c, where 'a = nat] by simp
  have i: "i \<le> 16" using assms by simp
  have m: "unat c * i < 2 ^ 64"
  proof -
    have "unat c * i \<le> unat c * 16" by (rule mult_le_mono2 [OF i])
    moreover have "unat c * 16 < 2 ^ 64" using c by simp
    ultimately show ?thesis by (rule order.strict_trans1)
  qed
  have "unat (of_nat i :: u64) = i" using i by (simp add: unsigned_of_nat take_bit_nat_eq_self)
  moreover have "unat (ucast c :: u64) = unat c" "unat (ucast n :: u64) = unat n"
    using c unsigned_less [of n, where 'a = nat] by (simp_all add: unsigned_ucast_eq take_bit_nat_eq_self)
  ultimately have "unat ((ucast c :: u64) * of_nat i) = unat c * i"
    using m by (simp add: unat_word_ariths)
  then show ?thesis unfolding shard_begin_def
    by (simp add: unat_div \<open>unat (ucast n :: u64) = unat n\<close>)
qed

lemma shards_cover:
  assumes "0 < unat n" "unat n \<le> 16"
  shows "concat (map (\<lambda>i. [shard_begin c n i..<shard_begin c n (Suc i)]) [0..<unat n]) = [0..<unat c]"
proof -
  have "m \<le> unat n \<Longrightarrow>
      concat (map (\<lambda>i. [shard_begin c n i..<shard_begin c n (Suc i)]) [0..<m]) = [0..<shard_begin c n m]" for m
  proof (induction m)
    case 0
    then show ?case using shard_begin_nat [of 0 n c] assms by simp
  next
    case (Suc m)
    have le: "shard_begin c n m \<le> shard_begin c n (Suc m)"
      using shard_begin_nat [of m n c] shard_begin_nat [of "Suc m" n c] Suc.prems assms
      by (simp add: div_le_mono)
    then show ?case using Suc upt_add_eq_append [of 0 "shard_begin c n m" "shard_begin c n (Suc m) - shard_begin c n m"]
      by simp
  qed
  from this [of "unat n"] show ?thesis using shard_begin_nat [of "unat n" n c] assms by simp
qed

text \<open>What a shard keeps suffices for the whole.\<close>

lemma keep_perm:
  assumes "distinct (map res_key xs)" "distinct (map res_key ys)" "set xs = set ys"
  shows "keep k [] xs = keep k [] ys"
  unfolding keep_ranked using ranked_perm [OF assms] by simp

lemma distinct_take_ranked:
  assumes "distinct (map res_key rs)"
  shows "distinct (map res_key (take k (ranked rs)))" "set (take k (ranked rs)) \<subseteq> set rs"
proof -
  have "distinct (map res_key (ranked rs))" using keep_keys [of "[]" rs "length rs"] assms
    by (simp add: keep_ranked)
  then show "distinct (map res_key (take k (ranked rs)))" by (simp add: take_map [symmetric])
  show "set (take k (ranked rs)) \<subseteq> set rs" using set_take_subset [of k "ranked rs"] by simp
qed

lemma take_ranked_again:
  assumes "distinct (map res_key rs)"
  shows "keep k [] (take k (ranked rs)) = keep k [] rs"
proof -
  have "ranked (take k (ranked rs)) = take k (ranked rs)"
    by (rule ranked_sorted [OF sorted_wrt_take [OF sorted_ranked [OF assms]] distinct_take_ranked(1) [OF assms]])
  then show ?thesis by (simp add: keep_ranked)
qed

lemma distinct_three: "distinct (map f (A @ B @ C)) \<longleftrightarrow> distinct (map f A) \<and> distinct (map f B) \<and> distinct (map f C) \<and>
  f ` set A \<inter> f ` set B = {} \<and> f ` set A \<inter> f ` set C = {} \<and> f ` set B \<inter> f ` set C = {}"
  by (simp add: Int_Un_distrib conj_ac)

lemma distinct_part:
  fixes f :: "'a \<Rightarrow> 'b"
  assumes "distinct (map f (A @ C @ R))" "distinct (map f T)" "set T \<subseteq> set C"
  shows "distinct (map f (A @ T @ R))" "distinct (map f (T @ A @ R))" "distinct (map f (C @ A @ R))"
proof -
  have d: "distinct (map f A)" "distinct (map f C)" "distinct (map f R)"
    "f ` set A \<inter> f ` set C = {}" "f ` set A \<inter> f ` set R = {}" "f ` set C \<inter> f ` set R = {}"
    using assms(1) by (simp_all only: distinct_three)
  have g: "a \<inter> c = {} \<Longrightarrow> c \<inter> r = {} \<Longrightarrow> t \<subseteq> c \<Longrightarrow> a \<inter> t = {} \<and> t \<inter> a = {} \<and> t \<inter> r = {}" for a c r t :: "'b set"
    by blast
  have t: "f ` set T \<subseteq> f ` set C" by (rule image_mono [OF assms(3)])
  have d': "f ` set A \<inter> f ` set T = {}" "f ` set T \<inter> f ` set A = {}" "f ` set T \<inter> f ` set R = {}"
    using g [OF d(4,6) t] by simp_all
  have d'': "f ` set C \<inter> f ` set A = {}" using d(4) by (simp only: Int_commute)
  show "distinct (map f (A @ T @ R))" "distinct (map f (T @ A @ R))" "distinct (map f (C @ A @ R))"
    by (simp_all only: distinct_three d d' d'' assms(2) simp_thms)
qed

lemma keep_shard:
  assumes "distinct (map res_key (A @ C @ R))"
  shows "keep k [] (A @ take k (ranked C) @ R) = keep k [] (A @ C @ R)"
proof -
  let ?T = "take k (ranked C)"
  have C: "distinct (map res_key C)" using assms by simp
  note T = distinct_take_ranked [OF C, of k]
  note d = distinct_part [OF assms T]
  have "keep k [] (A @ ?T @ R) = keep k [] (?T @ A @ R)"
    by (rule keep_perm [OF d(1,2)]) auto
  also have "\<dots> = keep k (keep k [] C) (A @ R)"
    using take_ranked_again [OF C, of k] by (simp only: keep_append)
  also have "\<dots> = keep k [] (C @ A @ R)" by (simp only: keep_append)
  also have "\<dots> = keep k [] (A @ C @ R)"
    by (rule keep_perm [OF d(3) assms]) auto
  finally show ?thesis .
qed

lemma keep_shards:
  "distinct (map res_key (A @ concat (map C is))) \<Longrightarrow>
   keep k [] (A @ concat (map (\<lambda>i. take k (ranked (C i))) is)) = keep k [] (A @ concat (map C is))"
proof (induction "is" arbitrary: A)
  case (Cons i "is")
  let ?T = "take k (ranked (C i))" and ?R = "concat (map C is)"
  have d: "distinct (map res_key (A @ C i @ ?R))" using Cons.prems by simp
  have "distinct (map res_key (C i))" using d by simp
  note T = distinct_take_ranked [OF this, of k]
  have "distinct (map res_key ((A @ ?T) @ ?R))" using distinct_part(1) [OF d T] by (simp only: append.assoc)
  from Cons.IH [OF this]
  have "keep k [] (A @ ?T @ concat (map (\<lambda>i. take k (ranked (C i))) is)) = keep k [] (A @ ?T @ ?R)"
    by (simp only: append.assoc)
  also have "\<dots> = keep k [] (A @ C i @ ?R)" by (rule keep_shard [OF d])
  finally show ?case by simp
qed simp

lemma merge_holds:
  assumes "holds k len st L" "k \<le> len" "0 < k" "distinct (map res_key (L @ rs))"
  shows "holds k len (foldl (\<lambda>st r. insert_result (fst st) k (snd st) r) st rs) (keep k L rs)"
  using assms(1,4)
proof (induction rs arbitrary: st L)
  case Nil
  then show ?case by (simp add: keep_def)
next
  case (Cons r rs)
  have h: "holds k len (insert_result (fst st) k (snd st) r) (take k (insert_by r L))"
  proof (rule holds_insert [OF Cons.prems(1) assms(2,3)])
    fix x assume "x \<in> set L"
    then have "res_key x \<in> res_key ` set L" by (rule imageI)
    moreover have "res_key r \<notin> res_key ` set L" using Cons.prems(2) by simp
    ultimately show "res_key x \<noteq> res_key r" by metis
  qed
  have "distinct (map res_key (insert_by r L))" by (rule insert_by_keys) (use Cons.prems(2) in auto)
  then have "distinct (map res_key (take k (insert_by r L)))" by (simp add: take_map [symmetric])
  moreover have "res_key ` set (take k (insert_by r L)) \<inter> res_key ` set rs = {}"
    using set_take_subset [of k "insert_by r L"] Cons.prems(2) by fastforce
  ultimately have "distinct (map res_key (take k (insert_by r L) @ rs))" using Cons.prems(2) by simp
  from Cons.IH [OF h this] show ?case by (simp add: keep_def)
qed

lemma shard_results_eq:
  assumes "mem_inv ix" "0 < unat (sd_top_k d)" "unat (sd_top_k d) \<le> 10"
    and "distinct (map res_key (candidates d score ix [shard_begin (mi_count ix) n i..<shard_begin (mi_count ix) n (Suc i)]))"
  shows "shard_results d score z ix n i = take (unat (sd_top_k d))
    (ranked (candidates d score ix [shard_begin (mi_count ix) n i..<shard_begin (mi_count ix) n (Suc i)]))"
proof -
  let ?ps = "[shard_begin (mi_count ix) n i..<shard_begin (mi_count ix) n (Suc i)]"
  let ?out = "replicate (unat kMemorySearchRecordParallelMaxTopK) (empty_result z)"
  have len: "unat (sd_top_k d) \<le> length ?out" using assms(3) by (simp add: kMemorySearchRecordParallelMaxTopK_def)
  have "distinct (map res_key ([] @ candidates d score ix ?ps))" using assms(4) by simp
  from loop_holds [OF holds_start refl len assms(2) this]
  have "holds (unat (sd_top_k d)) (length ?out) (foldl (consider_slot d score ix) (?out, 0) ?ps)
      (take (unat (sd_top_k d)) (ranked (candidates d score ix ?ps)))" by (simp only: keep_ranked)
  then have "take (snd (foldl (consider_slot d score ix) (?out, 0) ?ps)) (fst (foldl (consider_slot d score ix) (?out, 0) ?ps)) =
      take (unat (sd_top_k d)) (ranked (candidates d score ix ?ps))" unfolding holds_def by (rule conjunct1)
  then show ?thesis unfolding shard_results_def memory_search_flat_range_def Let_def case_prod_beta .
qed

lemma candidates_concat: "candidates d score ix (concat pss) = concat (map (candidates d score ix) pss)"
  by (induction pss) (simp_all add: candidates_def)

lemma distinct_shards:
  "distinct (map res_key (concat (map C is))) \<Longrightarrow>
   distinct (map res_key ([] @ concat (map (\<lambda>i. take k (ranked (C i))) is)))"
proof (induction "is")
  case (Cons i "is")
  have d: "distinct (map res_key (C i))" "distinct (map res_key (concat (map C is)))"
    "res_key ` set (C i) \<inter> res_key ` set (concat (map C is)) = {}"
    using Cons.prems by (simp_all del: set_concat)
  note T = distinct_take_ranked [OF d(1), of k]
  let ?R = "concat (map (\<lambda>i. take k (ranked (C i))) is)"
  have "set (take k (ranked (C j))) \<subseteq> set (C j)" for j
    using set_take_subset [of k "ranked (C j)"] by simp
  then have "set ?R \<subseteq> set (concat (map C is))" unfolding set_concat set_map by blast
  then have R: "res_key ` set ?R \<subseteq> res_key ` set (concat (map C is))" by (rule image_mono)
  have "res_key ` set (take k (ranked (C i))) \<subseteq> res_key ` set (C i)" by (rule image_mono [OF T(2)])
  then have "res_key ` set (take k (ranked (C i))) \<inter> res_key ` set ?R = {}" using R d(3) by blast
  then show ?case using Cons.IH [OF d(2)] T(1) by (simp del: set_concat)
qed simp

text \<open>The shared search leaves what the loop over all records leaves.\<close>

lemma record_parallel_correct:
  assumes inv: "mem_inv ix" and k: "0 < unat (sd_top_k d)" "unat (sd_top_k d) \<le> length out"
    and r: "memory_search_flat_record_parallel env d score z ix out = Some res"
  shows "holds (unat (sd_top_k d)) (length out) res
    (take (unat (sd_top_k d)) (ranked (candidates d score ix [0..<unat (mi_count ix)])))"
proof -
  let ?k = "unat (sd_top_k d)"
  obtain n where n: "n = record_shards env (mi_count ix) (sd_top_k d)" "n \<noteq> 0"
    using r by (auto simp: memory_search_flat_record_parallel_def Let_def split: if_splits)
  have n0: "0 < unat n" using n(2) by (simp add: unat_gt_0)
  have n16: "unat n \<le> 16" unfolding n(1) by (rule record_shards_le)
  have "\<not> sd_top_k d > kMemorySearchRecordParallelMaxTopK"
    using n by (auto simp: record_shards_def split: if_splits)
  then have k10: "?k \<le> 10" by (simp add: kMemorySearchRecordParallelMaxTopK_def word_le_nat_alt not_less)
  let ?ps = "\<lambda>i. [shard_begin (mi_count ix) n i..<shard_begin (mi_count ix) n (Suc i)]"
  let ?C = "\<lambda>i. candidates d score ix (?ps i)"
  have all: "concat (map ?C [0..<unat n]) = candidates d score ix [0..<unat (mi_count ix)]"
    using candidates_concat [of d score ix "map ?ps [0..<unat n]"] shards_cover [OF n0 n16, of "mi_count ix"]
    by (simp only: map_map comp_def)
  have d: "distinct (map res_key (concat (map ?C [0..<unat n])))"
    unfolding all by (rule candidates_keys [OF inv])
  have dC: "distinct (map res_key (?C i))" if i: "i \<in> set [0..<unat n]" for i
  proof -
    obtain xs ys where "[0..<unat n] = xs @ i # ys" using i by (meson split_list)
    then show ?thesis using d by simp
  qed
  have sh: "map (shard_results d score z ix n) [0..<unat n] = map (\<lambda>i. take ?k (ranked (?C i))) [0..<unat n]"
    by (rule map_cong [OF refl shard_results_eq [OF inv k(1) k10 dC]])
  have dT: "distinct (map res_key ([] @ concat (map (\<lambda>i. take ?k (ranked (?C i))) [0..<unat n])))"
    using d by (rule distinct_shards)
  have "keep ?k [] (concat (map (\<lambda>i. take ?k (ranked (?C i))) [0..<unat n])) =
      take ?k (ranked (candidates d score ix [0..<unat (mi_count ix)]))"
    using keep_shards [of "[]" ?C "[0..<unat n]" ?k] d unfolding all by (simp add: keep_ranked)
  with merge_holds [OF holds_start k(2,1) dT]
  have "holds ?k (length out) (foldl (\<lambda>st r. insert_result (fst st) ?k (snd st) r) (out, 0)
      (concat (map (shard_results d score z ix n) [0..<unat n])))
    (take ?k (ranked (candidates d score ix [0..<unat (mi_count ix)])))" unfolding sh by simp
  moreover have "res = foldl (\<lambda>st r. insert_result (fst st) ?k (snd st) r) (out, 0)
      (concat (map (shard_results d score z ix n) [0..<unat n]))"
    using r n by (simp add: memory_search_flat_record_parallel_def Let_def)
  ultimately show ?thesis by simp
qed
section \<open>The search as a whole\<close>

text \<open>The score in force: a shared search takes \<open>score_slot\<close>, the others the kernel of the metric.\<close>

definition flat_score :: "('q, 'v, 's::linorder) kernels \<Rightarrow> search_env \<Rightarrow> search_desc \<Rightarrow> 'q \<Rightarrow> 'v mem_index \<Rightarrow> 'v \<Rightarrow> 's" where
  "flat_score k env d q ix =
     (if record_shards env (mi_count ix) (sd_top_k d) \<noteq> 0 then k_slot k q
      else if mi_metric ix = 0 then k_dot k q
      else if mi_metric ix = 1 then k_cosine k q
      else k_l2 k q)"

lemmas search_loops = memory_search_dot_def memory_search_cosine_def memory_search_l2_def
lemmas search_loops_top1 = memory_search_dot_top1_def memory_search_cosine_top1_def memory_search_l2_top1_def

lemma flat_correct:
  assumes inv: "mem_inv ix" and k: "sd_top_k d \<noteq> 0" "unat (sd_top_k d) \<le> length out" and f32: "mi_storage_kind ix = 0"
  shows "holds (unat (sd_top_k d)) (length out) (memory_search_flat k env d q ix out)
    (take (unat (sd_top_k d)) (ranked (candidates d (flat_score k env d q ix) ix [0..<unat (mi_count ix)])))"
proof (cases "record_shards env (mi_count ix) (sd_top_k d) = 0")
  case False
  then obtain res where r: "memory_search_flat_record_parallel env d (k_slot k q) (k_zero k) ix out = Some res"
    by (simp add: memory_search_flat_record_parallel_def Let_def)
  have "memory_search_flat k env d q ix out = res" "flat_score k env d q ix = k_slot k q"
    using r False by (simp_all add: memory_search_flat_def flat_score_def)
  then show ?thesis using record_parallel_correct [OF inv _ k(2) r] k(1) by (simp add: unat_gt_0)
next
  case True
  let ?score = "flat_score k env d q ix"
  have n: "memory_search_flat_record_parallel env d (k_slot k q) (k_zero k) ix out = None"
    using True by (simp add: memory_search_flat_record_parallel_def)
  show ?thesis
  proof (cases "sd_top_k d = 1")
    case one: True
    have "memory_search_flat k env d q ix out = search_top1 d ?score ix out"
      using n one True f32 by (simp add: memory_search_flat_def flat_score_def search_loops_top1)
    moreover have "out \<noteq> []" using k(2) one by auto
    ultimately show ?thesis using search_top1_correct [of out d ?score ix] one by simp
  next
    case more: False
    have "memory_search_flat k env d q ix out = foldl (consider_slot d ?score ix) (out, 0) [0..<unat (mi_count ix)]"
      using n more True f32 by (simp add: memory_search_flat_def flat_score_def search_loops)
    then show ?thesis using search_loop_correct [OF inv k, of ?score] by simp
  qed
qed

text \<open>The best \<open>k\<close> of a set of results, in order.\<close>

definition best_of :: "nat \<Rightarrow> 's::linorder mem_result set \<Rightarrow> 's mem_result list \<Rightarrow> bool" where
  "best_of k S rs \<longleftrightarrow> sorted_wrt result_better rs \<and> set rs \<subseteq> S \<and> length rs = min k (card S) \<and>
     (\<forall>x\<in>set rs. \<forall>r\<in>S - set rs. result_better x r)"

lemma best_of_ranked:
  assumes "distinct (map res_key rs)" "set rs = S"
  shows "best_of k S (take k (ranked rs))"
proof -
  have d: "distinct rs" using assms(1) by (simp add: distinct_map)
  have s: "sorted_wrt result_better (take k (ranked rs) @ drop k (ranked rs))"
    using sorted_ranked [OF assms(1)] by simp
  have "set (ranked rs) = set (take k (ranked rs)) \<union> set (drop k (ranked rs))"
    by (simp flip: set_append)
  then have "S - set (take k (ranked rs)) \<subseteq> set (drop k (ranked rs))" using assms(2) by auto
  moreover have "length (take k (ranked rs)) = min k (card S)"
    using distinct_card [OF d] assms(2) by (simp add: min.commute)
  moreover have "\<forall>x\<in>set (take k (ranked rs)). \<forall>r\<in>set (drop k (ranked rs)). result_better x r"
    using s unfolding sorted_wrt_append by blast
  moreover have "sorted_wrt result_better (take k (ranked rs))" using s unfolding sorted_wrt_append by blast
  ultimately show ?thesis unfolding best_of_def using distinct_take_ranked(2) [OF assms(1), of k] assms(2) by blast
qed

lemma flat_best:
  assumes "mem_inv ix" "sd_top_k d \<noteq> 0" "unat (sd_top_k d) \<le> length out" "mi_storage_kind ix = 0"
    and "memory_search_flat k env d q ix out = (out', n)"
  shows "length out' = length out" "n = length (take n out')"
    "best_of (unat (sd_top_k d)) (group_results d (flat_score k env d q ix) (mem_map ix)) (take n out')"
proof -
  let ?cs = "candidates d (flat_score k env d q ix) ix [0..<unat (mi_count ix)]"
  have h: "take n out' = take (unat (sd_top_k d)) (ranked ?cs)" "n = length (take (unat (sd_top_k d)) (ranked ?cs))"
    "length out' = length out"
    using flat_correct [OF assms(1-4), of k env q] unfolding assms(5) holds_def fst_conv snd_conv by blast+
  show "length out' = length out" by (rule h(3))
  show "n = length (take n out')" using h(1,2) by simp
  show "best_of (unat (sd_top_k d)) (group_results d (flat_score k env d q ix) (mem_map ix)) (take n out')"
    unfolding h(1) by (rule best_of_ranked [OF candidates_keys [OF assms(1)] candidates_set [OF assms(1)]])
qed

text \<open>A cursor: what it still holds, and the cursors that occur.\<close>

definition cursor_rest :: "'s search_cursor \<Rightarrow> 's mem_result list" where
  "cursor_rest c = drop (unat (sc_offset c)) (take (unat (sc_count c)) (sc_results c))"

definition cursor_ok :: "'s search_cursor \<Rightarrow> bool" where
  "cursor_ok c \<longleftrightarrow> unat (sc_count c) \<le> length (sc_results c) \<and> sc_offset c \<le> sc_count c"

text \<open>The answers of a sequence of fetches.\<close>

primrec fetch_all :: "'s::linorder search_cursor \<Rightarrow> u32 list \<Rightarrow> (astral_err \<times> 's mem_result list) list \<times> 's search_cursor" where
  "fetch_all c [] = ([], c)"
| "fetch_all c (m # ms) =
     (let (e, rs, c') = memory_search_fetch c m; (rest, c'') = fetch_all c' ms in ((e, rs) # rest, c''))"

lemma fetch_spec:
  assumes "cursor_ok c" "\<not> sc_canceled c" "memory_search_fetch c m = (e, rs, c')"
  shows "e = ASTRAL_OK" "rs = take (unat m) (cursor_rest c)" "cursor_rest c' = drop (unat m) (cursor_rest c)"
    "cursor_ok c'" "\<not> sc_canceled c'"
proof -
  have len: "length (cursor_rest c) = unat (sc_count c) - unat (sc_offset c)"
    using assms(1) by (simp add: cursor_rest_def cursor_ok_def)
  have all: "e = ASTRAL_OK \<and> rs = take (unat m) (cursor_rest c) \<and> cursor_rest c' = drop (unat m) (cursor_rest c) \<and>
    cursor_ok c' \<and> \<not> sc_canceled c'"
  proof (cases "m = 0 \<or> sc_offset c \<ge> sc_count c")
    case True
    then have r: "e = ASTRAL_OK" "rs = []" "c' = c" using assms(2,3) by (auto simp: memory_search_fetch_def)
    have "unat m = 0 \<or> cursor_rest c = []" using True len by (auto simp: word_le_nat_alt)
    then show ?thesis using r assms(1,2) by auto
  next
    case False
    let ?rem = "sc_count c - sc_offset c"
    let ?copy = "if ?rem < m then ?rem else m"
    have r: "e = ASTRAL_OK" "rs = take (unat ?copy) (drop (unat (sc_offset c)) (sc_results c))"
      "c' = c\<lparr>sc_offset := sc_offset c + ?copy\<rparr>"
      using assms(2,3) False by (simp_all add: memory_search_fetch_def Let_def)
    have lt: "unat (sc_offset c) < unat (sc_count c)" using False by (simp add: word_le_nat_alt not_le)
    have rem: "unat ?rem = unat (sc_count c) - unat (sc_offset c)" using lt by (simp add: unat_sub word_le_nat_alt)
    have copy: "unat ?copy = min (unat m) (unat (sc_count c) - unat (sc_offset c))"
      using rem by (auto simp: word_less_nat_alt min_def)
    have "unat (sc_offset c) + unat ?copy \<le> unat (sc_count c)" using lt unfolding copy by simp
    moreover have "unat (sc_count c) < 2 ^ 32" using unsigned_less [of "sc_count c", where 'a = nat] by simp
    ultimately have off: "unat (sc_offset c + ?copy) = unat (sc_offset c) + unat ?copy"
      by (subst unat_add_lem [THEN iffD1]) simp_all
    have n: "unat (sc_count c) \<le> length (sc_results c)" using assms(1) by (simp add: cursor_ok_def)
    have "rs = take (unat m) (cursor_rest c)"
      unfolding r(2) copy cursor_rest_def drop_take take_take by (simp add: min.commute)
    moreover have "cursor_rest c' = drop (unat m) (cursor_rest c)"
    proof -
      have c': "cursor_rest c' = drop (unat (sc_offset c) + unat ?copy) (take (unat (sc_count c)) (sc_results c))"
        unfolding cursor_rest_def r(3) by (simp add: off del: if_split)
      show ?thesis
      proof (cases "unat m \<le> unat (sc_count c) - unat (sc_offset c)")
        case True
        then show ?thesis unfolding c' copy unfolding cursor_rest_def by (simp add: add.commute)
      next
        case False
        then have "unat (sc_offset c) + unat ?copy = unat (sc_count c)" unfolding copy using lt by simp
        then show ?thesis unfolding c' using False len n by simp
      qed
    qed
    moreover have "cursor_ok c'" unfolding cursor_ok_def r(3)
      using off \<open>unat (sc_offset c) + unat ?copy \<le> unat (sc_count c)\<close> n by (simp add: word_le_nat_alt del: if_split)
    ultimately show ?thesis using r(1,3) assms(2) by simp
  qed
  then show "e = ASTRAL_OK" "rs = take (unat m) (cursor_rest c)" "cursor_rest c' = drop (unat m) (cursor_rest c)"
    "cursor_ok c'" "\<not> sc_canceled c'" by blast+
qed

lemma fetch_all_spec:
  assumes "cursor_ok c" "\<not> sc_canceled c"
  shows "set (map fst (fst (fetch_all c ms))) \<subseteq> {ASTRAL_OK} \<and>
    concat (map snd (fst (fetch_all c ms))) = take (sum_list (map unat ms)) (cursor_rest c)"
  using assms
proof (induction ms arbitrary: c)
  case (Cons m ms)
  obtain e rs c' where f: "memory_search_fetch c m = (e, rs, c')" by (cases "memory_search_fetch c m") auto
  note s = fetch_spec [OF Cons.prems f]
  obtain rest c'' where g: "fetch_all c' ms = (rest, c'')" by fastforce
  have "set (map fst rest) \<subseteq> {ASTRAL_OK}" "concat (map snd rest) = take (sum_list (map unat ms)) (cursor_rest c')"
    using Cons.IH [OF s(4,5)] g by simp_all
  then show ?case using f g s(1-3) by (simp add: take_add)
qed simp

end
