(* ===== verification/Memory_Use.thy ===== *)
theory Memory_Use
  imports Memory_Add Memory_Search
begin

text \<open>
  The memory index as its callers see it: the indexes that come about from \<open>memory_create\<close> by any
  calls, what each operation does to the map from keys to records and vectors, and what a search and
  its cursor deliver. The sources are \<open>inference/memory_index.cpp\<close> and \<open>memory_index_internal.hpp\<close>.
\<close>

section \<open>Indexes that come about\<close>

text \<open>\<open>finite_values\<close> is the test of a vector, \<open>store\<close> what is stored of it.\<close>

inductive mem_reach :: "('x \<Rightarrow> bool) \<Rightarrow> ('x \<Rightarrow> 'v) \<Rightarrow> 'v mem_index \<Rightarrow> bool"
  for finite_values :: "'x \<Rightarrow> bool" and store :: "'x \<Rightarrow> 'v" where
  reach_create: "memory_create d v0 alloc_ok handle = Some (Inr ix) \<Longrightarrow> mem_reach finite_values store ix"
| reach_clear: "mem_reach finite_values store ix \<Longrightarrow> mem_reach finite_values store (memory_clear ix)"
| reach_update: "mem_reach finite_values store ix \<Longrightarrow> memory_update_record ix key r = (e, ix') \<Longrightarrow>
    mem_reach finite_values store ix'"
| reach_remove: "mem_reach finite_values store ix \<Longrightarrow> memory_remove ix key = (e, ix') \<Longrightarrow>
    mem_reach finite_values store ix'"
| reach_add: "mem_reach finite_values store ix \<Longrightarrow> length records = unat n \<Longrightarrow> length src = unat n \<Longrightarrow>
    memory_add_batch finite_values store env ix records src n = Some (e, ix') \<Longrightarrow> mem_reach finite_values store ix'"

lemma created_capacity:
  assumes "memory_create d v0 alloc_ok handle = Some (Inr ix)"
  shows "unat (md_capacity d) \<le> 2 ^ 30"
proof (rule ccontr)
  assume "\<not> unat (md_capacity d) \<le> 2 ^ 30"
  moreover have "md_capacity d \<le> kU32Max div 2"
    using assms by (auto simp: memory_create_def split: if_splits)
  then have "unat (md_capacity d) < 2 ^ 31" by (simp add: kU32Max_def word_le_nat_alt)
  ultimately have "key_table_capacity_for (md_capacity d) = None" by (intro key_table_capacity_hangs) simp_all
  then show False using assms by (auto simp: memory_create_def split: if_splits)
qed

lemma reach_inv: "mem_reach finite_values store ix \<Longrightarrow> mem_inv ix"
proof (induction rule: mem_reach.induct)
  case (reach_create d v0 alloc_ok handle ix)
  show ?case using created_inv [OF reach_create created_capacity [OF reach_create]] by simp
next
  case (reach_clear ix)
  show ?case using memory_clear_correct [OF reach_clear.IH] by simp
next
  case (reach_update ix key r e ix')
  show ?case using update_record_correct [OF reach_update.IH reach_update.hyps(2)] by simp
next
  case (reach_remove ix key e ix')
  show ?case using remove_correct [OF reach_remove.IH reach_remove.hyps(2)] by simp
next
  case (reach_add ix records count src env e ix')
  from add_batch_cases [OF reach_add.IH reach_add.hyps(2,3), of finite_values store env]
  show ?case using reach_add.hyps(4) by (elim exE conjE) simp
qed

lemma mem_map_count:
  assumes "mem_inv ix"
  shows "card (dom (mem_map ix)) = unat (mi_count ix)"
proof -
  have "dom (mem_map ix) = set (map (\<lambda>s. rec_key (slot_record (mi_slots ix ! unat s))) (active_slots ix))"
    unfolding mem_map_def dom_map_of_conv_image_fst by (simp add: image_image)
  then have "card (dom (mem_map ix)) = length (active_slots ix)"
    using distinct_card [OF active_keys_distinct [OF assms]] by simp
  then show ?thesis using mem_invD(3,7) [OF assms] by (simp add: active_slots_def)
qed

section \<open>A small index\<close>

definition demo_desc :: mem_desc where
  "demo_desc = \<lparr>md_size = sizeof_index_desc, md_dim = 3, md_capacity = 2, md_metric = 0, md_index_kind = 0,
     md_storage_kind = 0\<rparr>"

definition demo_index :: "nat mem_index" where
  "demo_index = \<lparr>mi_dim = 3, mi_capacity = 2, mi_count = 0, mi_metric = 0, mi_index_kind = 0, mi_storage_kind = 0,
     mi_slots = replicate 2 zero_slot, mi_vectors = replicate 2 0, mi_active_slots = replicate 2 0,
     mi_key_table = replicate 4 kKeyTableEmpty, mi_key_table_mask = 3, mi_free_slot_hint = 0, mi_dense_active = True\<rparr>"

lemma demo_index_created: "memory_create demo_desc 0 True 1 = Some (Inr demo_index)"
proof -
  have c: "key_table_capacity_for 2 = Some 4"
    by (simp add: key_table_capacity_for_def double_until.simps)
  have "desc_valid demo_desc"
    by (simp add: demo_desc_def desc_valid_def kMaxDim_def index_kind_valid_def metric_valid_def storage_kind_valid_def)
  then show ?thesis using c
    by (simp add: memory_create_def demo_desc_def demo_index_def kU32Max_def)
qed

lemma demo_reach: "mem_reach finite_values store demo_index"
  by (rule reach_create [OF demo_index_created])

definition demo_record :: "u64 \<Rightarrow> mem_record" where
  "demo_record k = zero_record\<lparr>rec_size := sizeof_record, rec_key := k\<rparr>"

definition demo_env :: add_env where
  "demo_env = \<lparr>ae_scratch_alloc = True, ae_seen_alloc = True, ae_initialized = False, ae_threads = 0, ae_on_worker = False,
     ae_sched = []\<rparr>"

text \<open>The index with one record.\<close>

definition demo_one :: "nat mem_index" where
  "demo_one = snd (the (memory_add_batch (\<lambda>x. x < 100) (\<lambda>x. x) demo_env demo_index [demo_record 7] [5] 1))"

lemma demo_added: "memory_add_batch (\<lambda>x. x < 100) (\<lambda>x. x) demo_env demo_index [demo_record 7] [5] 1 = Some (ASTRAL_OK, demo_one)"
proof -
  have "map_option fst (memory_add_batch (\<lambda>x. x < 100) (\<lambda>x. x) demo_env demo_index [demo_record 7] [5] 1) = Some ASTRAL_OK"
    by code_simp
  then show ?thesis by (auto simp: demo_one_def)
qed

lemma demo_one_reach: "mem_reach (\<lambda>x. x < 100) (\<lambda>x. x) demo_one"
  by (rule reach_add [OF demo_reach _ _ demo_added]) simp_all

lemma demo_one_map: "mem_map demo_one = [7 \<mapsto> (demo_record 7, 5)]"
proof -
  have inv: "mem_inv demo_index" by (rule reach_inv [OF demo_reach])
  have "mem_map demo_index = Map.empty" using created_inv [OF demo_index_created] by (simp add: demo_desc_def)
  moreover have "length [demo_record 7] = unat (1 :: u32)" "length [5 :: nat] = unat (1 :: u32)" by simp_all
  note add_batch_cases [OF inv this, of "\<lambda>x. x < 100" "\<lambda>x. x" demo_env]
  then have "mem_map demo_one = foldl (add_entry (\<lambda>x. x)) (mem_map demo_index) (zip [demo_record 7] [5])"
    unfolding demo_added by (auto simp: batch_refused_def)
  moreover have "rec_key (demo_record 7) = 7" by (simp add: demo_record_def)
  ultimately show ?thesis by (simp add: add_entry_def)
qed

section \<open>A map\<close>

text \<open>C17: An index that has come about by any calls is a map from keys to records with their vectors:
  a record is found exactly when its key is in the map; the count is the number of keys; updating and
  removing do to the map what their specifications say and answer accordingly; clearing empties it.\<close>
theorem memory_index_refines_map:
  assumes "mem_reach finite_values store ix"
  shows "memory_get_record ix key =
      (if key = 0 then Inl ASTRAL_E_INVALID
       else case mem_map ix key of None \<Rightarrow> Inl ASTRAL_E_NOT_FOUND
         | Some (r, v) \<Rightarrow> Inr (r\<lparr>rec_size := sizeof_record\<rparr>)) \<and>
    unat (memory_count ix) = card (dom (mem_map ix)) \<and>
    (let (e, ix') = memory_update_record ix key r in (e, mem_map ix') = update_spec (mem_map ix) key r) \<and>
    (let (e, ix') = memory_remove ix key in (e, mem_map ix') = remove_spec (mem_map ix) key) \<and>
    mem_map (memory_clear ix) = Map.empty"
proof -
  note inv = reach_inv [OF assms]
  have "let (e, ix') = memory_update_record ix key r in (e, mem_map ix') = update_spec (mem_map ix) key r"
    using update_record_correct [OF inv] by (cases "memory_update_record ix key r") simp
  moreover have "let (e, ix') = memory_remove ix key in (e, mem_map ix') = remove_spec (mem_map ix) key"
    using remove_correct [OF inv] by (cases "memory_remove ix key") simp
  ultimately show ?thesis
    using get_record_correct [OF inv, of key] memory_clear_correct [OF inv] mem_map_count [OF inv]
    by (simp add: memory_count_def)
qed

theorem memory_index_refines_map_witness:
  "memory_get_record demo_one 7 = Inr (demo_record 7) \<and> unat (memory_count demo_one) = 1 \<and>
   fst (memory_remove demo_one 8) = ASTRAL_E_NOT_FOUND"
proof -
  have r: "(demo_record 7)\<lparr>rec_size := sizeof_record\<rparr> = demo_record 7" by (simp add: demo_record_def)
  note m = memory_index_refines_map [OF demo_one_reach]
  have "memory_get_record demo_one 7 = Inr (demo_record 7)"
    using conjunct1 [OF m [of 7 "demo_record 7"]] by (simp add: demo_one_map r)
  moreover have "unat (memory_count demo_one) = 1"
    using conjunct1 [OF conjunct2 [OF m [of 7 "demo_record 7"]]] by (simp add: demo_one_map)
  moreover have "fst (memory_remove demo_one 8) = ASTRAL_E_NOT_FOUND"
    using conjunct1 [OF conjunct2 [OF conjunct2 [OF conjunct2 [OF m [of 8 "demo_record 7"]]]]]
    by (simp add: demo_one_map remove_spec_def case_prod_beta)
  ultimately show ?thesis by simp
qed

text \<open>C18: A batch returns, whatever the schedule of the workers that store the vectors. It is taken as
  a whole or not at all: when it is accepted all vectors are finite and the map holds the records of the batch, later ones in
  place of earlier ones with the same key; when it is refused the map is unchanged, and there was a
  reason: the batch is invalid, memory is short, or the index too small for its keys.\<close>
theorem memory_add_batch_atomic:
  assumes "mem_reach finite_values store ix" "length records = unat n" "length src = unat n"
  shows "\<exists>e ix'. memory_add_batch finite_values store env ix records src n = Some (e, ix') \<and>
    (e = ASTRAL_OK \<and> (\<forall>x\<in>set src. finite_values x) \<and> mem_map ix' = foldl (add_entry store) (mem_map ix) (zip records src) \<or>
     batch_refused finite_values env ix records src n e \<and> mem_map ix' = mem_map ix)"
  using add_batch_cases [OF reach_inv [OF assms(1)] assms(2,3), of finite_values store env] by blast

theorem memory_add_batch_atomic_witness:
  "\<exists>e ix'. memory_add_batch (\<lambda>x. x < 100) (\<lambda>x. x) demo_env demo_one [demo_record 8, demo_record 8] [1, 200] 2 = Some (e, ix') \<and>
     e \<noteq> ASTRAL_OK \<and> mem_map ix' = [7 \<mapsto> (demo_record 7, 5)]"
proof -
  let ?rs = "[demo_record 8, demo_record 8]" and ?xs = "[1, 200 :: nat]"
  have "length ?rs = unat (2 :: u32)" "length ?xs = unat (2 :: u32)" by simp_all
  from memory_add_batch_atomic [OF demo_one_reach this, of demo_env]
  obtain e ix' where run: "memory_add_batch (\<lambda>x. x < 100) (\<lambda>x. x) demo_env demo_one ?rs ?xs 2 = Some (e, ix')"
    and c: "e = ASTRAL_OK \<and> (\<forall>x\<in>set ?xs. x < 100) \<and> mem_map ix' = foldl (add_entry (\<lambda>x. x)) (mem_map demo_one) (zip ?rs ?xs) \<or>
      batch_refused (\<lambda>x. x < 100) demo_env demo_one ?rs ?xs 2 e \<and> mem_map ix' = mem_map demo_one"
    by (elim exE conjE)
  have "\<not> (\<forall>x\<in>set ?xs. x < 100)" by simp
  then have "batch_refused (\<lambda>x. x < 100) demo_env demo_one ?rs ?xs 2 e" "mem_map ix' = mem_map demo_one"
    using c by blast+
  then have "e \<noteq> ASTRAL_OK \<and> mem_map ix' = [7 \<mapsto> (demo_record 7, 5)]" by (auto simp: batch_refused_def demo_one_map)
  then show ?thesis using run by blast
qed


section \<open>Searching\<close>

lemma memory_search_best:
  assumes "mem_inv ix" "mi_index_kind ix = 0" "mi_storage_kind ix = 0"
    and "sd_size d = sizeof_search_desc" "sd_top_k d \<noteq> 0" "\<not> max_results < sd_top_k d" "finite_values q"
    and "unat max_results \<le> length out" "memory_search k finite_values env ix d q out max_results = (e, out', n)"
  shows "e = ASTRAL_OK \<and> length out' = length out \<and> n = length (take n out') \<and>
    best_of (unat (sd_top_k d)) (group_results d (flat_score k env d q ix) (mem_map ix)) (take n out')"
proof -
  have "e = ASTRAL_OK" and flat: "memory_search_flat k env d q ix out = (out', n)"
    using assms by (simp_all add: memory_search_def)
  moreover have "unat (sd_top_k d) \<le> length out" using assms(6,8) by (simp add: not_less word_le_nat_alt)
  ultimately show ?thesis using flat_best [OF assms(1,5) _ assms(3) flat] by blast
qed

lemma group_results_top_k: "group_results (d\<lparr>sd_top_k := t\<rparr>) score m = group_results d score m"
  by (simp add: group_results_def)

lemma card_group_results:
  assumes "mem_inv ix"
  shows "card (group_results d score (mem_map ix)) \<le> unat (mi_count ix)"
proof -
  have "card (group_results d score (mem_map ix)) \<le> length (candidates d score ix [0..<unat (mi_count ix)])"
    unfolding candidates_set [OF assms, symmetric] by (rule card_length)
  also have "\<dots> \<le> unat (mi_count ix)"
    unfolding candidates_def length_map
    using length_filter_le [of "\<lambda>s. record_matches_group d (mi_slots ix ! unat s)" "map (active_slot_at ix) [0..<unat (mi_count ix)]"]
    by simp
  finally show ?thesis .
qed

text \<open>C19: A search of an index with 32-bit floats and no graph is refused when its description is wrong,
  the buffer is too small or the query has a value that is not finite. Otherwise it leaves the best \<open>top_k\<close> of
  all records of the group in the buffer, best first: whether it keeps a list, looks for the single best or is
  shared by several workers, the results are in order, they are as many as there are up to \<open>top_k\<close>, and every
  record that is left out is worse than each of them.\<close>
theorem search_returns_best:
  assumes "mem_reach finite_x store ix" "mi_index_kind ix = 0" "mi_storage_kind ix = 0" "unat max_results \<le> length out"
    and run: "memory_search k finite_values env ix d q out max_results = (e, out', n)"
  shows "if sd_size d \<noteq> sizeof_search_desc \<or> sd_top_k d = 0 then e = ASTRAL_E_INVALID
    else if max_results < sd_top_k d then e = ASTRAL_E_NOMEM
    else if \<not> finite_values q then e = ASTRAL_E_INVALID
    else e = ASTRAL_OK \<and> length out' = length out \<and> n = length (take n out') \<and>
      best_of (unat (sd_top_k d)) (group_results d (flat_score k env d q ix) (mem_map ix)) (take n out')"
proof (cases "sd_size d \<noteq> sizeof_search_desc \<or> sd_top_k d = 0 \<or> max_results < sd_top_k d \<or> \<not> finite_values q")
  case True
  then show ?thesis using run by (auto simp: memory_search_def)
next
  case False
  then show ?thesis
    using memory_search_best [OF reach_inv [OF assms(1)] assms(2,3) _ _ _ _ assms(4) run] by auto
qed

definition demo_kernels :: "(nat, nat, nat) kernels" where
  "demo_kernels = \<lparr>k_dot = (*), k_cosine = (*), k_l2 = (*), k_slot = (*), k_zero = 0,
     k_compact = (\<lambda>d q ix out. (out, 0)), k_graph = (\<lambda>d q ix out. (out, 0))\<rparr>"

definition demo_search :: search_desc where
  "demo_search = \<lparr>sd_size = sizeof_search_desc, sd_top_k = 2, sd_group_id = MEMORY_GROUP_ANY, sd_flags = 0, sd_graph_search = 0\<rparr>"

definition demo_search_env :: search_env where
  "demo_search_env = \<lparr>se_initialized = False, se_threads = 0, se_on_worker = False\<rparr>"

lemma demo_one_kind: "mi_index_kind demo_one = 0" "mi_storage_kind demo_one = 0"
proof -
  show "mi_index_kind demo_one = 0" by code_simp
  show "mi_storage_kind demo_one = 0" by code_simp
qed

lemma demo_results: "group_results demo_search score [7 \<mapsto> (demo_record 7, 5)] =
    {fill_result \<lparr>slot_record = demo_record 7, slot_active_pos = 0, slot_occupied = True\<rparr> (score 5)}"
  by (auto simp: group_results_def demo_search_def)

theorem search_returns_best_witness:
  "\<exists>e out' n. memory_search demo_kernels (\<lambda>_. True) demo_search_env demo_one demo_search 3 (replicate 2 (empty_result 0)) 2 = (e, out', n) \<and>
     e = ASTRAL_OK \<and> map res_score (take n out') = [15]"
proof -
  let ?out = "replicate 2 (empty_result (0 :: nat))"
  obtain e out' n where run: "memory_search demo_kernels (\<lambda>_. True) demo_search_env demo_one demo_search 3 ?out 2 = (e, out', n)"
    by (cases "memory_search demo_kernels (\<lambda>_. True) demo_search_env demo_one demo_search 3 ?out 2") auto
  have "unat (2 :: u32) \<le> length ?out" by simp
  from search_returns_best [OF demo_one_reach demo_one_kind this run]
  have r: "e = ASTRAL_OK" "best_of 2 (group_results demo_search (flat_score demo_kernels demo_search_env demo_search 3 demo_one)
      [7 \<mapsto> (demo_record 7, 5)]) (take n out')"
    by (simp_all add: demo_search_def demo_one_map)
  have "flat_score demo_kernels demo_search_env demo_search 3 demo_one 5 = 15"
    by (simp add: flat_score_def demo_kernels_def)
  then have "set (take n out') \<subseteq> {fill_result \<lparr>slot_record = demo_record 7, slot_active_pos = 0, slot_occupied = True\<rparr> 15}"
    "length (take n out') = 1"
    using r(2) unfolding best_of_def demo_results by simp_all
  then have "map res_score (take n out') = [15]"
    by (cases "take n out'") (auto simp: fill_result_def Let_def)
  then show ?thesis using run r(1) by simp
qed

lemma bounded_search_best:
  assumes "mem_inv ix" "mi_index_kind ix = 0" "mi_storage_kind ix = 0"
    and "sd_size d = sizeof_search_desc" "sd_top_k d \<noteq> 0" "finite_values q"
    and cap: "cap = (if sd_top_k d < mi_count ix then sd_top_k d else mi_count ix)" and len: "unat cap \<le> length fresh"
    and s: "(if cap \<noteq> 0 then memory_search k finite_values env ix (d\<lparr>sd_top_k := cap\<rparr>) q fresh cap
             else (ASTRAL_OK, fresh, 0)) = (e, results, n)"
    and S: "S = group_results d (flat_score k env (d\<lparr>sd_top_k := cap\<rparr>) q ix) (mem_map ix)"
  shows "n = length (take n results) \<and> n \<le> unat cap \<and> best_of (unat (sd_top_k d)) S (take n results)"
proof -
  have best: "n = length (take n results) \<and> best_of (unat cap) S (take n results)"
  proof (cases "cap = 0")
    case True
    then show ?thesis using s by (simp add: best_of_def)
  next
    case False
    have ms: "memory_search k finite_values env ix (d\<lparr>sd_top_k := cap\<rparr>) q fresh cap = (e, results, n)" using s False by simp
    show ?thesis
      using memory_search_best [OF assms(1-3) _ _ _ assms(6) len ms] assms(4) False
      unfolding S group_results_top_k by (simp del: length_take)
  qed
  then have n: "n = min (unat cap) (card S)" unfolding best_of_def by simp
  have "card S \<le> unat (mi_count ix)" unfolding S by (rule card_group_results [OF assms(1)])
  moreover have "unat cap = min (unat (sd_top_k d)) (unat (mi_count ix))" by (simp add: cap word_less_nat_alt min_def)
  ultimately have "best_of (unat (sd_top_k d)) S (take n results)" using conjunct2 [OF best] unfolding best_of_def by auto
  then show ?thesis using best n by simp
qed

lemma search_begin_best:
  assumes "mem_inv ix" "mi_index_kind ix = 0" "mi_storage_kind ix = 0"
    and run: "memory_search_begin k finite_values env new_ok array_ok handle ix d q = Inr c"
  shows "cursor_ok c \<and> \<not> sc_canceled c \<and> sc_offset c = 0 \<and> length (cursor_rest c) = unat (sc_count c) \<and>
    best_of (unat (sd_top_k d)) (group_results d (flat_score k env (d\<lparr>sd_top_k := sc_capacity c\<rparr>) q ix) (mem_map ix)) (cursor_rest c)"
proof -
  define cap where "cap = (if sd_top_k d < mi_count ix then sd_top_k d else mi_count ix)"
  let ?fresh = "replicate (unat (if cap \<le> kInlineSearchCursorResults then kInlineSearchCursorResults else cap)) (empty_result (k_zero k))"
  note run' = run [unfolded memory_search_begin_def Let_def, folded cap_def]
  have d: "sd_size d = sizeof_search_desc" "sd_top_k d \<noteq> 0" "finite_values q"
    using run by (auto simp: memory_search_begin_def split: if_splits)
  obtain e results n where s: "(if cap \<noteq> 0 then memory_search k finite_values env ix (d\<lparr>sd_top_k := cap\<rparr>) q ?fresh cap
      else (ASTRAL_OK, ?fresh, 0)) = (e, results, n)"
    by (rule prod_cases3)
  have c: "c = \<lparr>sc_handle = handle, sc_capacity = cap, sc_count = of_nat n, sc_offset = 0, sc_canceled = False, sc_results = results\<rparr>"
    using run' d unfolding s by (simp split: if_splits)
  have "unat cap \<le> length ?fresh" by (simp add: word_le_nat_alt)
  note b = bounded_search_best [OF assms(1-3) d cap_def this s refl]
  have "n < 2 ^ 32" using b unsigned_less [of cap, where 'a = nat] by simp
  then have n: "unat (of_nat n :: u32) = n" by (simp add: unsigned_of_nat take_bit_nat_eq_self)
  have rest: "cursor_rest c = take n results" using n by (simp add: cursor_rest_def c)
  have "cursor_ok c" using b n by (simp add: cursor_ok_def c min_def split: if_splits)
  moreover have "length (take n results) = n" using b by simp
  moreover have "sc_capacity c = cap" "sc_count c = of_nat n" "sc_offset c = 0" "\<not> sc_canceled c" unfolding c by simp_all
  ultimately show ?thesis using b unfolding rest by (simp only: n simp_thms)
qed

text \<open>C20: What a cursor delivers is the result of the search: for an index with 32-bit floats and no graph,
  a cursor that was begun holds the best \<open>top_k\<close> records of the group (of all the index has, when it has fewer), and
  however a caller divides its fetches, they all answer OK and their results, one after the other, are
  the beginning of that list, all of it once enough was asked for. Its status says completed, with the
  number of results.\<close>
theorem cursor_delivers_search:
  assumes "mem_reach finite_x store ix" "mi_index_kind ix = 0" "mi_storage_kind ix = 0"
    and "memory_search_begin k finite_values env new_ok array_ok handle ix d q = Inr c"
  shows "\<exists>rs. best_of (unat (sd_top_k d)) (group_results d (flat_score k env (d\<lparr>sd_top_k := sc_capacity c\<rparr>) q ix) (mem_map ix)) rs \<and>
    (\<forall>ms. set (map fst (fst (fetch_all c ms))) \<subseteq> {ASTRAL_OK} \<and>
      concat (map snd (fst (fetch_all c ms))) = take (sum_list (map unat ms)) rs) \<and>
    memory_search_cursor_status c = (ASTRAL_REQUEST_COMPLETED, of_nat (length rs))"
proof -
  note b = search_begin_best [OF reach_inv [OF assms(1)] assms(2-4)]
  then have "memory_search_cursor_status c = (ASTRAL_REQUEST_COMPLETED, of_nat (length (cursor_rest c)))"
    by (simp add: memory_search_cursor_status_def word_less_nat_alt unat_eq_0)
  moreover have "cursor_ok c" "\<not> sc_canceled c" using b by simp_all
  note fetched = fetch_all_spec [OF this]
  ultimately show ?thesis using b fetched by blast
qed

theorem cursor_delivers_search_witness:
  "\<exists>c. memory_search_begin demo_kernels (\<lambda>_. True) demo_search_env True True 1 demo_one demo_search 3 = Inr c \<and>
     map res_score (concat (map snd (fst (fetch_all c [0, 1, 1])))) = [15]"
proof -
  have "\<not> isl (memory_search_begin demo_kernels (\<lambda>_. True) demo_search_env True True 1 demo_one demo_search 3)"
    by code_simp
  then obtain c where run: "memory_search_begin demo_kernels (\<lambda>_. True) demo_search_env True True 1 demo_one demo_search 3 = Inr c"
    by (cases "memory_search_begin demo_kernels (\<lambda>_. True) demo_search_env True True 1 demo_one demo_search 3") auto
  from cursor_delivers_search [OF demo_one_reach demo_one_kind run]
  obtain rs where rs: "best_of (unat (sd_top_k demo_search)) (group_results demo_search
      (flat_score demo_kernels demo_search_env (demo_search\<lparr>sd_top_k := sc_capacity c\<rparr>) 3 demo_one) (mem_map demo_one)) rs"
    "\<forall>ms. set (map fst (fst (fetch_all c ms))) \<subseteq> {ASTRAL_OK} \<and>
      concat (map snd (fst (fetch_all c ms))) = take (sum_list (map unat ms)) rs"
    by (elim exE conjE)
  have "flat_score demo_kernels demo_search_env d 3 demo_one 5 = 15" for d
    by (simp add: flat_score_def demo_kernels_def)
  moreover have "unat (sd_top_k demo_search) = 2" by (simp add: demo_search_def)
  ultimately have "set rs \<subseteq> {fill_result \<lparr>slot_record = demo_record 7, slot_active_pos = 0, slot_occupied = True\<rparr> 15}" "length rs = 1"
    using rs(1) unfolding best_of_def demo_one_map demo_results by simp_all
  then have "map res_score (concat (map snd (fst (fetch_all c [0, 1, 1])))) = [15]"
    using conjunct2 [OF rs(2) [THEN spec, of "[0, 1, 1]"]]
    by (cases rs) (simp_all del: fetch_all.simps add: fill_result_def Let_def)
  then show ?thesis using run by simp
qed

end
