(* ===== verification/Spec2Isabelle.thy ===== *)
theory Spec2Isabelle
  imports Spsc_Concurrent Shared_Queues Fan_In Spin_Lock Epoch_Safety Handle_Table Pools Arena_Threads Utf8 Chunking Toolset_Registry
    Session_Control Session_Settings Memory_Use
begin

text \<open>
  \<^bold>\<open>What this is.\<close> Models and proofs for the core of the Astral runtime, a C++ library that loads language
  models, keeps sessions with them and streams generated text to its caller. A program talks to it
  through a C interface; a pool of worker threads runs the decodes; a consumer thread reads the
  text. The development follows the data from the bottom up: the lock-free queues between the
  threads, the memory and the handles everything is kept in, the text utilities, and the session
  that puts them together. Paths below are relative to \<open>src/src/\<close>.

  \<^bold>\<open>Conventions.\<close> A machine integer is a word of its width (\<open>u8\<close>, \<open>u16\<close>, \<open>u32\<close>, \<open>u64\<close>, \<open>i32\<close>) and wraps
  as it does in C++. A struct is a record, an enumeration a datatype, a status code a constructor
  of \<open>astral_err\<close> (theory \<open>Prelude\<close>). A function that changes its object returns the changed record.
  A null pointer is \<open>None\<close> or an empty span. Floats are kept as their bits and compared as the code
  compares them. Backends, tokenizers, the clock, the operating system's memory and the answers of
  other parts of the runtime are arguments of the definitions that use them. A loop that need not
  end is a \<open>partial_function (option)\<close>, with a theorem that it returns; no fuel is used, except that
  \<open>generate\<close> of \<open>Session_Decode\<close> recurses over \<open>max_tokens\<close>, which is the loop's own bound.
  Where the order of accesses of several threads matters, each atomic access or lock-protected
  section is a step of an \<open>inductive\<close> relation; the relations are sequentially consistent, and
  \<open>Spsc_Concurrent\<close> and \<open>Shared_Queues\<close> add what the acquire and release orders give: a data race on
  a slot would show as an access by two threads at once, and is excluded.

  \<^bold>\<open>Queues\<close> (\<open>concurrency/\<close>). \<open>Circular_Buffer\<close> holds the arithmetic of indices under a mask. \<open>Fifo_Spec\<close>
  states the contract of a bounded queue as the locale \<open>batch_fifo\<close>, with what its clients derive from it:
  a run of operations delivers a prefix of what was accepted, in order. \<open>Spsc_Ring\<close> models \<open>SpscRing\<close>
  of \<open>spsc_ring.hpp\<close> with every operation (push, pop, batches, consume with a visitor, size, reset),
  interprets the locale on it and proves the refinement. \<open>Spsc_Concurrent\<close> cuts the same
  operations at their atomic accesses and lets a producer and a consumer interleave. \<open>Slot_Ring\<close>
  holds the ticket protocol shared by \<open>mpsc_ring.hpp\<close>, \<open>mpsc_ticket_ring.hpp\<close> and \<open>mpmc_queue.hpp\<close>;
  \<open>Shared_Queues\<close> builds the three queues from it for any number of threads. \<open>Fan_In\<close> is
  \<open>spsc_fan_in.hpp\<close>, round robin over rings; \<open>Spin_Lock\<close> is \<open>backoff_spin_lock.hpp\<close>.

  \<^bold>\<open>Memory and handles.\<close> \<open>Epoch\<close> models \<open>EpochManager\<close> of \<open>concurrency/epoch.hpp\<close> one call at a time,
  \<open>Epoch_Safety\<close> all its threads interleaved: nothing is freed while a reader can hold it.
  \<open>Handle_Table\<close> is \<open>core/handles.hpp\<close>, a refinement of a finite map from handles to objects.
  \<open>Freelist\<close> states the contract of an intrusive free list as a locale; \<open>Pools\<close> interprets it on the
  object pool of \<open>memory/object_pool.hpp\<close> and on the session and scratch pools of \<open>core/init.cpp\<close>.
  \<open>Arena_Heap\<close> (size classes, headers), \<open>Arena_Calls\<close> (allocate, free, reallocate) and \<open>Arena_Threads\<close>
  (threads between the critical sections) model \<open>ArenaHeap\<close> of \<open>core/init.cpp\<close>. \<open>Frame_Allocator\<close> is
  \<open>memory/frame_allocator.hpp\<close>, the bump allocator of a session.

  \<^bold>\<open>Text.\<close> \<open>Utf8\<close> models \<open>utils/utf8.cpp\<close>, scalar and vectorised paths; a text is valid exactly when it
  is the encoding of a list of scalar values. \<open>Chunk_Units\<close> and \<open>Chunking\<close> model
  \<open>inference/chunking.cpp\<close>, the splitting of a text into overlapping chunks by bytes, tokens, words,
  sentences or paragraphs. \<open>Tool_Json\<close> and \<open>Toolset_Registry\<close> model \<open>inference/tooling.cpp\<close>: sets of
  tools with their packed memory and reference counts, and the search for a call in generated text.

  \<^bold>\<open>Session\<close> (\<open>inference/session.cpp\<close>, \<open>session.hpp\<close>). \<open>Session_Prompt\<close> is the feeding of a prompt and its
  handing over to the backend, \<open>Session_Decode\<close> the loop that generates, holds back and streams
  tokens, with the stop sequences, \<open>Penalty\<close> the counted window of recent tokens, \<open>Session_Stream\<close>
  the reading side. \<open>Session_Lifecycle\<close> puts the parts together in one record and adds creation,
  destruction, reset, waiting and the setters, with balances of what is held. \<open>Session_Control\<close> lets
  the caller, the worker and canceling threads interleave; its state carries two history fields, the outcome
  of the last decode (\<open>ended\<close>) and whether a reset has cleared it since (\<open>cleared\<close>), which no step reads.
  \<open>Session_Stream\<close> has one of the same kind, the log of what the other threads pushed (\<open>traced_stream\<close>).
  \<open>Model_Refs\<close> models the references between sessions, models and adapters (\<open>model.cpp\<close>, \<open>adapter.cpp\<close>),
  \<open>Session_Settings\<close> adapters, grammar, toolset and slot of a session, \<open>Session_Save\<close> the bytes of a saved
  session, over the little-endian fields of \<open>Bytes\<close>.

  \<^bold>\<open>Memory index\<close> (\<open>inference/memory_index.cpp\<close>, \<open>memory_index_internal.hpp\<close>). \<open>Key_Table\<close> is the hash table from
  keys to slots, open addressing with tombstones; \<open>Memory_Index\<close> the record of the index with creation, clearing,
  reading, updating and removing; \<open>Memory_Preprocess\<close> the workers that store the vectors of a batch, in any order of
  their steps; \<open>Memory_Seen\<close> the table of the slots a batch has met; \<open>Memory_Add\<close> the batch itself, with its
  staging and rollback; \<open>Memory_Search\<close> the searches and the cursors. \<open>Memory_Use\<close> defines the indexes that come
  about by any calls (\<open>mem_reach\<close>) and states what callers see: a map from keys to records with vectors.

  \<^bold>\<open>What the lemmas show.\<close> Each theory proves an invariant of its state that every operation keeps
  (\<open>spsc_inv\<close>, \<open>slot_inv\<close>, \<open>epoch_inv\<close>, \<open>table_inv\<close>, \<open>heap_inv\<close>, \<open>session_ok\<close>, \<open>prompt_inv\<close>,
  \<open>penalty_inv\<close>, \<open>stops_ok\<close>, \<open>ctl_inv\<close>, \<open>refs_inv\<close>, \<open>table_ok\<close>, \<open>mem_inv\<close>), then what the operations do on every branch, then the
  properties, marked with their numbers. The main ones: the rings deliver what was pushed, once
  and in order, whatever the interleaving; nothing that a thread can still reach is freed or
  handed out again; the handle table is a map in which a dead handle stays dead; the text scanners
  agree with their specification by encodings; a chunker returns the ranges it specifies; a
  completed decode has streamed its text without the stop sequence; a read returns the next bytes
  of the stream and no others, what is pushed meanwhile included; a session moves along the
  documented edges and the few that its comment leaves out; what a session acquires it gives back; a model or
  adapter lives as long as it is held; a saved session loads; a batch of records is added as a whole or not at
  all; a search finds the best records of a group.

  \<^bold>\<open>Where the code differs from its intention.\<close> Stated as theorems or lemmas: \<open>SpscRing::pop\<close> compares
  positions with an order and misses items when they wrap; the links of the arena's classes may be
  misaligned; \<open>validate_neon\<close> rejects some valid texts; chunking by sentences with an overlap need
  not end; \<open>emit_token_chunks\<close> wraps near the end of the 32-bit range; \<open>toolset_create\<close> does not check a
  null description; a string \<open>name\<close> as a value hides a call; \<open>stream_read\<close> may report the end
  before the last token; \<open>FrameAllocator::alloc\<close> accepts a size that wraps; \<open>repeat_last_n = 0\<close> does
  not switch counting off; a prompt that exactly fills the buffer is refused and yet decoded;
  \<open>session_create\<close> keeps the model's reference on two of its error paths; a saved session with a length
  near 2^64 passes the test of its header; \<open>session_adapters_set_scale\<close> can leave the provider with fewer adapters
  than the session lists; \<open>memory_create\<close> does not return for some capacities above 2^30; the comment on the
  states of a session leaves out the transitions to \<open>Canceled\<close> and \<open>Failed\<close>, the refused submission and resets from
  any state but \<open>Completed\<close>.

  \<^bold>\<open>Not modelled.\<close> The platform layer (\<open>platform/\<close>: virtual memory, threads, atomics), logging, error
  strings and the plug-in loader only wrap the operating system. The backends (\<open>backend/\<close>) drive
  third-party engines; they are parameters here. The sampler (\<open>inference/sampler.cpp\<close>) and the kernels
  of the memory index are floating-point arithmetic, which this logic has no executable account of; the scores of a
  search are values of a linear order, which leaves out scores that are not numbers. Of the memory index the
  graph, the searches of compact storage, the search of several queries at once, snapshots and statistics
  are left out; the two kinds of search stand as parameters where the code calls them, and nothing is stated of them.
  \<open>inference/api.cpp\<close> is the C interface, which checks handles and calls what is modelled. The start-up and the
  worker pool of \<open>core/init.cpp\<close>, the executor, the agent, the conversation runtime and the embedder
  are not modelled. The plug-ins for game engines and the language bindings are outside
  the core.
\<close>

end
